(* ===== verification/Kernel_Prelude.thy ===== *)
theory Kernel_Prelude
  imports Main "HOL-Library.Word"
begin

text \<open>
  Shared vocabulary of the development: the machine integers of \<^verbatim>\<open>kernel/stdint.h\<close>, the
  error codes of \<^verbatim>\<open>kernel/err.h\<close>, the faults by which kernel code stops (a panic, a
  dereferenced null pointer, an index outside an array, a division by zero, a loop that never
  ends), sequencing of operations that may fault, and the facts about lists and words that
  several components need.
\<close>

unbundle bit_operations_syntax

type_synonym u8 = "8 word"
type_synonym u32 = "32 word"

section \<open>Faults and sequencing\<close>

text \<open>
  \<^verbatim>\<open>Debug::panic\<close> never returns, and neither does an access through a null pointer or a
  loop without exit. Each of these ends the computation with a value of \<open>fault\<close>; an
  operation that may end so returns \<open>fault + 'a\<close>.
\<close>

datatype fault =
    Panic string
  | NullDeref
  | BadIndex
  | DivZero
  | Diverges

fun bindE :: "'e + 'a \<Rightarrow> ('a \<Rightarrow> 'e + 'b) \<Rightarrow> 'e + 'b" where
  "bindE (Inl e) f = Inl e"
| "bindE (Inr x) f = f x"

lemma bindE_eq_Inr [simp]: "bindE m f = Inr y \<longleftrightarrow> (\<exists>x. m = Inr x \<and> f x = Inr y)"
  by (cases m) auto

lemma bindE_eq_Inl: "bindE m f = Inl e \<longleftrightarrow> m = Inl e \<or> (\<exists>x. m = Inr x \<and> f x = Inl e)"
  by (cases m) auto

lemma bindE_assoc: "bindE (bindE m f) g = bindE m (\<lambda>x. bindE (f x) g)"
  by (cases m) auto

lemma bindE_cong [fundef_cong]:
  "m = m' \<Longrightarrow> (\<And>x. m' = Inr x \<Longrightarrow> f x = g x) \<Longrightarrow> bindE m f = bindE m' g"
  by (cases m') auto

text \<open>A \<^verbatim>\<open>for\<close> loop over a list of indices whose body may fault.\<close>

fun loopE :: "('a \<Rightarrow> 's \<Rightarrow> 'e + 's) \<Rightarrow> 'a list \<Rightarrow> 's \<Rightarrow> 'e + 's" where
  "loopE f [] s = Inr s"
| "loopE f (x # xs) s = bindE (f x s) (loopE f xs)"

lemma loopE_append: "loopE f (xs @ ys) = (\<lambda>s. bindE (loopE f xs s) (loopE f ys))"
proof (induction xs)
  case (Cons x xs)
  have "loopE f ((x # xs) @ ys) = (\<lambda>s. bindE (f x s) (loopE f (xs @ ys)))" by (simp add: fun_eq_iff)
  then show ?case unfolding Cons.IH by (simp add: fun_eq_iff bindE_assoc)
qed (simp add: fun_eq_iff)

text \<open>
  The rules for such loops: an invariant that holds of the part of the indices already seen, and
  either the loop ends or the body has faulted.
\<close>

lemma loopE_upt_inv:
  assumes "I a s" "a \<le> b" and step: "\<And>i s. a \<le> i \<Longrightarrow> i < b \<Longrightarrow> I i s \<Longrightarrow>
      (\<exists>e. f i s = Inl e \<and> E e) \<or> (\<exists>s'. f i s = Inr s' \<and> I (Suc i) s')"
  shows "(\<exists>e. loopE f [a..<b] s = Inl e \<and> E e) \<or> (\<exists>s'. loopE f [a..<b] s = Inr s' \<and> I b s')"
  using assms(2) step
proof (induction b)
  case 0
  then show ?case using assms(1) by simp
next
  case (Suc b)
  show ?case
  proof (cases "a \<le> b")
    case True
    have "(\<exists>e. loopE f [a..<b] s = Inl e \<and> E e) \<or> (\<exists>s'. loopE f [a..<b] s = Inr s' \<and> I b s')"
      using Suc.IH [OF True] Suc.prems(2) by simp
    then show ?thesis
    proof (elim disjE exE conjE)
      fix e assume "loopE f [a..<b] s = Inl e" "E e"
      then show ?thesis using True by (simp add: loopE_append)
    next
      fix s' assume s': "loopE f [a..<b] s = Inr s'" "I b s'"
      from Suc.prems(2) [OF True lessI s'(2)] show ?thesis using True s'(1) by (auto simp: loopE_append)
    qed
  next
    case False
    then have "a = Suc b" using Suc.prems(1) by simp
    then show ?thesis using assms(1) by simp
  qed
qed

lemma fold_upt_inv:
  assumes "I a s" "a \<le> b" "\<And>i s. a \<le> i \<Longrightarrow> i < b \<Longrightarrow> I i s \<Longrightarrow> I (Suc i) (f i s)"
  shows "I b (fold f [a..<b] s)"
  using assms(2,3)
proof (induction b)
  case 0
  then show ?case using assms(1) by simp
next
  case (Suc b)
  show ?case
  proof (cases "a \<le> b")
    case True
    then show ?thesis using Suc.IH [OF True] Suc.prems(2) by simp
  next
    case False
    then have "a = Suc b" using Suc.prems(1) by simp
    then show ?thesis using assms(1) by simp
  qed
qed

section \<open>Error codes of err.h\<close>

definition ERR_TOO_LONG :: int where "ERR_TOO_LONG = -1000"
definition ERR_NOT_FOUND :: int where "ERR_NOT_FOUND = -1001"
definition ERR_INVALID_ID :: int where "ERR_INVALID_ID = -1002"
definition ERR_NO_ID :: int where "ERR_NO_ID = -1003"
definition ERR_NOT_POSSIBLE :: int where "ERR_NOT_POSSIBLE = -1004"
definition ERR_PAGE_FAULT :: int where "ERR_PAGE_FAULT = -1005"
definition ERR_NO_SPACE :: int where "ERR_NO_SPACE = -1006"
definition ERR_NOT_DIR :: int where "ERR_NOT_DIR = -1007"
definition ERR_NO_ROOT_SPACE :: int where "ERR_NO_ROOT_SPACE = -1008"
definition ERR_DEVWRITE :: int where "ERR_DEVWRITE = -1009"
definition ERR_FL_NAMELEN :: int where "ERR_FL_NAMELEN = -1010"
definition ERR_FL_EXIST :: int where "ERR_FL_EXIST = -1011"
definition ERR_INVL_CHAR :: int where "ERR_INVL_CHAR = -1012"
definition ERR_CLOSE_WD :: int where "ERR_CLOSE_WD = -1013"
definition ERR_IS_DIR :: int where "ERR_IS_DIR = -1014"

lemmas err_defs =
  ERR_TOO_LONG_def ERR_NOT_FOUND_def ERR_INVALID_ID_def ERR_NO_ID_def ERR_NOT_POSSIBLE_def
  ERR_PAGE_FAULT_def ERR_NO_SPACE_def ERR_NOT_DIR_def ERR_NO_ROOT_SPACE_def ERR_DEVWRITE_def
  ERR_FL_NAMELEN_def ERR_FL_EXIST_def ERR_INVL_CHAR_def ERR_CLOSE_WD_def ERR_IS_DIR_def

section \<open>Signed machine integers\<close>

text \<open>The value that 32 bit two's complement arithmetic stores for an integer.\<close>

definition s32 :: "int \<Rightarrow> int" where "s32 z = signed_take_bit 31 z"

lemma s32_id: "- 2147483648 \<le> z \<Longrightarrow> z < 2147483648 \<Longrightarrow> s32 z = z"
  unfolding s32_def by (rule signed_take_bit_int_eq_self) simp_all

lemma s32_range: "- 2147483648 \<le> s32 z" "s32 z < 2147483648"
  using signed_take_bit_int_greater_eq_minus_exp [of 31 z] signed_take_bit_int_less_exp [of 31 z]
  by (simp_all add: s32_def)

section \<open>Numbers of words\<close>

lemma unat_of_nat_u32: "i < 2 ^ 32 \<Longrightarrow> unat (of_nat i :: u32) = i"
  by (simp add: unat_of_nat)

lemma of_nat_eq_u32: "unat w = i \<Longrightarrow> of_nat i = (w :: u32)"
  by auto

lemma unat_plus_u32: "unat (x :: u32) + unat y < 2 ^ 32 \<Longrightarrow> unat (x + y) = unat x + unat y"
  by (simp add: unat_word_ariths)

lemma sint_small:
  assumes "unat (w :: u32) < 2 ^ 31"
  shows "sint w = int (unat w)"
proof -
  have u: "uint w = int (unat w)" by simp
  have "signed_take_bit 31 (int k) = int k" if "k < 2 ^ 31" for k
    using that by (intro signed_take_bit_int_eq_self) simp_all
  from this [OF assms] have "signed_take_bit 31 (int (unat w)) = int (unat w)" .
  then show ?thesis unfolding sint_uint u by simp
qed

lemma div_mod_shift:
  "(a :: nat) mod b + k < b \<Longrightarrow> (a + k) div b = a div b \<and> (a + k) mod b = a mod b + k"
  by (metis add.assoc add_diff_cancel_left' bot_nat_0.not_eq_extremum div_less div_mult_mod_eq
      div_mult_self3 mod_less mod_mult_self3 not_less_zero add.right_neutral)

section \<open>Memory copies\<close>

text \<open>
  \<^verbatim>\<open>memcpy(&ys[off], xs, length xs)\<close> into a buffer that holds \<open>ys\<close>.
\<close>

definition splice :: "nat \<Rightarrow> 'a list \<Rightarrow> 'a list \<Rightarrow> 'a list" where
  "splice off xs ys = take off ys @ xs @ drop (off + length xs) ys"

lemma length_splice [simp]: "off + length xs \<le> length ys \<Longrightarrow> length (splice off xs ys) = length ys"
  by (simp add: splice_def)

lemma nth_splice:
  "off + length xs \<le> length ys \<Longrightarrow> i < length ys \<Longrightarrow>
     splice off xs ys ! i = (if off \<le> i \<and> i < off + length xs then xs ! (i - off) else ys ! i)"
  by (auto simp: splice_def nth_append)

lemma splice_all: "length xs = length ys \<Longrightarrow> splice 0 xs ys = xs"
  by (simp add: splice_def)

lemma take_drop_map: "off + n \<le> length xs \<Longrightarrow> take n (drop off xs) = map (\<lambda>i. xs ! (off + i)) [0 ..< n]"
  by (rule nth_equalityI) auto

section \<open>Little endian words\<close>

text \<open>
  The kernel reads C structures of \<^verbatim>\<open>uint32_t\<close> fields straight from device bytes, on a
  little endian machine.
\<close>

definition le_bytes :: "u32 \<Rightarrow> u8 list" where
  "le_bytes w = [ucast w, ucast (drop_bit 8 w), ucast (drop_bit 16 w), ucast (drop_bit 24 w)]"

definition le_word :: "u8 list \<Rightarrow> u32" where
  "le_word bs = ucast (bs ! 0) OR push_bit 8 (ucast (bs ! 1))
     OR push_bit 16 (ucast (bs ! 2)) OR push_bit 24 (ucast (bs ! 3))"

lemma length_le_bytes [simp]: "length (le_bytes w) = 4"
  by (simp add: le_bytes_def)

lemma le_word_bytes [simp]: "le_word (le_bytes w) = w"
proof (rule bit_word_eqI)
  fix n assume n: "n < LENGTH(32)"
  consider "n < 8" | "8 \<le> n" "n < 16" | "16 \<le> n" "n < 24" | "24 \<le> n" "n < 32" using n by fastforce
  then show "bit (le_word (le_bytes w)) n = bit w n"
    by cases (simp_all add: le_word_def le_bytes_def bit_or_iff bit_push_bit_iff bit_ucast_iff bit_drop_bit_eq; arith)+
qed
lemma le_bytes_word [simp]: "length bs = 4 \<Longrightarrow> le_bytes (le_word bs) = bs"
proof -
  assume "length bs = 4"
  then obtain a b c d where bs: "bs = [a, b, c, d]"
    by (auto simp: length_Suc_conv numeral_eq_Suc)
  have "ucast (le_word bs) = a" "ucast (drop_bit 8 (le_word bs)) = b"
    "ucast (drop_bit 16 (le_word bs)) = c" "ucast (drop_bit 24 (le_word bs)) = d"
    unfolding bs by (rule bit_word_eqI; auto simp: le_word_def bit_or_iff bit_push_bit_iff bit_ucast_iff bit_drop_bit_eq dest: bit_imp_le_length)+
  then show ?thesis by (simp add: le_bytes_def bs)
qed

fun le_words :: "u8 list \<Rightarrow> u32 list" where
  "le_words (a # b # c # d # bs) = le_word [a, b, c, d] # le_words bs"
| "le_words _ = []"

definition le_bytes_list :: "u32 list \<Rightarrow> u8 list" where
  "le_bytes_list ws = concat (map le_bytes ws)"

lemma length_le_bytes_list [simp]: "length (le_bytes_list ws) = 4 * length ws"
  by (induction ws) (simp_all add: le_bytes_list_def)

lemma le_words_append: "length xs = 4 \<Longrightarrow> le_words (xs @ ys) = le_word xs # le_words ys"
  by (auto simp: length_Suc_conv numeral_eq_Suc)

lemma le_words_bytes [simp]: "le_words (le_bytes_list ws) = ws"
  by (induction ws) (simp_all add: le_bytes_list_def le_words_append)

lemma length_le_words [simp]: "length (le_words bs) = length bs div 4"
  by (induction bs rule: le_words.induct) simp_all

lemma le_bytes_words [simp]: "length bs mod 4 = 0 \<Longrightarrow> le_bytes_list (le_words bs) = bs"
  by (induction bs rule: le_words.induct) (simp_all add: le_bytes_list_def)

lemma unat_lt_u32: "unat (w :: u32) < 4294967296"
  by (rule unsigned_less [of w, simplified])

end
