(* ===== verification/Simple_Queue.thy ===== *)
theory Simple_Queue
  imports Kernel_Prelude
begin

text \<open>
  \<^verbatim>\<open>kernel/queue.h\<close>: the FIFO queue every wait list of the kernel is. The template
  \<^verbatim>\<open>SimpleQueue\<close> is a doubly linked list of heap nodes; its nodes live in an explicit store
  from addresses to nodes, and address 0 is the null pointer. The address that
  \<^verbatim>\<open>new Node()\<close> yields is an argument of \<open>addTail\<close> (the heap is a component of its own).
  The locale \<open>fifo_queue\<close> is the abstract class \<^verbatim>\<open>Queue\<close> with the contract its clients
  rely on; \<open>SimpleQueue\<close> is shown to satisfy it.
\<close>

section \<open>The queue of queue.h\<close>

record 'a node =
  node_next :: nat
  node_prev :: nat
  node_value :: 'a

record 'a simple_queue =
  nodes :: "nat \<rightharpoonup> 'a node"
  first :: nat
  last_node :: nat

definition empty_queue :: "'a simple_queue" where
  "empty_queue = \<lparr>nodes = Map.empty, first = 0, last_node = 0\<rparr>"

definition addTail :: "nat \<Rightarrow> 'a \<Rightarrow> 'a simple_queue \<Rightarrow> fault + 'a simple_queue" where
  "addTail n v q =
     (let st = (nodes q)(n \<mapsto> \<lparr>node_next = 0, node_prev = last_node q, node_value = v\<rparr>) in
      bindE (if last_node q \<noteq> 0
             then (case st (last_node q) of
                     None \<Rightarrow> Inl NullDeref
                   | Some l \<Rightarrow> Inr (st(last_node q \<mapsto> l\<lparr>node_next := n\<rparr>)))
             else Inr st)
       (\<lambda>st'. Inr \<lparr>nodes = st', first = (if first q = 0 then n else first q), last_node = n\<rparr>))"

definition isEmpty :: "'a simple_queue \<Rightarrow> bool" where
  "isEmpty q \<longleftrightarrow> first q = 0"

definition removeHead :: "'a simple_queue \<Rightarrow> fault + ('a \<times> 'a simple_queue)" where
  "removeHead q =
     (case nodes q (first q) of
        None \<Rightarrow> Inl NullDeref
      | Some p \<Rightarrow>
          (let f = node_next p in
           bindE (if f = 0 then Inr (nodes q, 0)
                  else (case nodes q f of
                          None \<Rightarrow> Inl NullDeref
                        | Some nf \<Rightarrow> Inr ((nodes q)(f \<mapsto> nf\<lparr>node_prev := 0\<rparr>), last_node q)))
            (\<lambda>(st, l). Inr (node_value p,
                            \<lparr>nodes = st(first q := None), first = f, last_node = l\<rparr>))))"

text \<open>
  The loop by which the kernel empties a queue (\<^verbatim>\<open>Process::tick\<close>,
  \<^verbatim>\<open>Process::checkReaper\<close>, the cleanup after a failed \<^verbatim>\<open>execv\<close>): while the queue is not
  empty, remove its head. \<open>fuel\<close> bounds the number of rounds; running out of it is
  \<open>Diverges\<close>.
\<close>

fun drain :: "('q \<Rightarrow> bool) \<Rightarrow> ('q \<Rightarrow> fault + ('a \<times> 'q)) \<Rightarrow> nat \<Rightarrow> 'q \<Rightarrow> fault + ('a list \<times> 'q)" where
  "drain emp rem 0 q = (if emp q then Inr ([], q) else Inl Diverges)"
| "drain emp rem (Suc fuel) q =
     (if emp q then Inr ([], q)
      else bindE (rem q) (\<lambda>(v, q'). bindE (drain emp rem fuel q') (\<lambda>(vs, q''). Inr (v # vs, q''))))"

text \<open>Adding the values of a list one after another, each in a node of the given address.\<close>

fun addTails :: "('n \<Rightarrow> 'a \<Rightarrow> 'q \<Rightarrow> fault + 'q) \<Rightarrow> ('n \<times> 'a) list \<Rightarrow> 'q \<Rightarrow> fault + 'q" where
  "addTails add [] q = Inr q"
| "addTails add ((n, v) # xs) q = bindE (add n v q) (addTails add xs)"

section \<open>The contract of a FIFO queue\<close>

text \<open>
  \<open>holds q vs\<close>: the queue \<open>q\<close> holds the values \<open>vs\<close>, oldest first; \<open>cells q\<close> are the
  node addresses it occupies.
\<close>

locale fifo_queue =
  fixes add :: "'n \<Rightarrow> 'a \<Rightarrow> 'q \<Rightarrow> fault + 'q"
    and rem :: "'q \<Rightarrow> fault + ('a \<times> 'q)"
    and emp :: "'q \<Rightarrow> bool"
    and holds :: "'q \<Rightarrow> 'a list \<Rightarrow> bool"
    and cells :: "'q \<Rightarrow> 'n set"
    and usable :: "'n \<Rightarrow> bool"
  assumes add_law: "holds q vs \<Longrightarrow> usable n \<Longrightarrow> n \<notin> cells q \<Longrightarrow>
      \<exists>q'. add n v q = Inr q' \<and> holds q' (vs @ [v]) \<and> cells q' = insert n (cells q)"
    and rem_law: "holds q (v # vs) \<Longrightarrow>
      \<exists>q'. rem q = Inr (v, q') \<and> holds q' vs \<and> cells q' \<subseteq> cells q"
    and emp_law: "holds q vs \<Longrightarrow> emp q \<longleftrightarrow> vs = []"
begin

lemma drain_all: "holds q vs \<Longrightarrow> length vs \<le> fuel \<Longrightarrow>
    \<exists>q'. drain emp rem fuel q = Inr (vs, q') \<and> holds q' []"
proof (induction fuel arbitrary: q vs)
  case 0
  then show ?case by (auto simp: emp_law)
next
  case (Suc fuel)
  show ?case
  proof (cases vs)
    case Nil
    with Suc.prems show ?thesis by (auto simp: emp_law)
  next
    case (Cons v ws)
    with Suc.prems rem_law [of q v ws] obtain q1
      where q1: "rem q = Inr (v, q1)" "holds q1 ws" by auto
    with Suc.IH [of q1 ws] Suc.prems Cons
    obtain q2 where "drain emp rem fuel q1 = Inr (ws, q2)" "holds q2 []" by auto
    with q1 Suc.prems Cons show ?thesis by (auto simp: emp_law)
  qed
qed

lemma addTails_holds: "holds q vs \<Longrightarrow> distinct (map fst xs) \<Longrightarrow>
    (\<forall>n \<in> fst ` set xs. usable n \<and> n \<notin> cells q) \<Longrightarrow>
    \<exists>q'. addTails add xs q = Inr q' \<and> holds q' (vs @ map snd xs)"
proof (induction xs arbitrary: q vs)
  case Nil
  then show ?case by simp
next
  case (Cons x xs)
  obtain n v where x: "x = (n, v)" by (cases x)
  with Cons.prems add_law [of q vs n v] obtain q1
    where q1: "add n v q = Inr q1" "holds q1 (vs @ [v])" "cells q1 = insert n (cells q)" by auto
  moreover from Cons.prems x q1(3) have "\<forall>m \<in> fst ` set xs. usable m \<and> m \<notin> cells q1" by auto
  moreover from Cons.prems have "distinct (map fst xs)" by simp
  ultimately obtain q2 where "addTails add xs q1 = Inr q2" "holds q2 ((vs @ [v]) @ map snd xs)"
    using Cons.IH by blast
  with q1 x show ?case by auto
qed

lemma fifo_order: "holds q [] \<Longrightarrow> distinct (map fst xs) \<Longrightarrow>
    (\<forall>n \<in> fst ` set xs. usable n \<and> n \<notin> cells q) \<Longrightarrow> length xs \<le> fuel \<Longrightarrow>
    \<exists>q' q''. addTails add xs q = Inr q' \<and> drain emp rem fuel q' = Inr (map snd xs, q'')
             \<and> holds q'' []"
  using addTails_holds [of q "[]" xs] drain_all [of _ "map snd xs" fuel] by auto

end

section \<open>SimpleQueue satisfies the contract\<close>

text \<open>
  \<open>linked st p as vs\<close>: the addresses \<open>as\<close> are a chain of nodes with the values \<open>vs\<close>, the
  \<^verbatim>\<open>prev\<close> of the first being \<open>p\<close> and the \<^verbatim>\<open>next\<close> of the last 0.
\<close>

definition head_addr :: "nat list \<Rightarrow> nat" where
  "head_addr as = (case as of [] \<Rightarrow> 0 | a # _ \<Rightarrow> a)"

definition last_addr :: "nat list \<Rightarrow> nat" where
  "last_addr as = (if as = [] then 0 else last as)"

fun linked :: "(nat \<rightharpoonup> 'a node) \<Rightarrow> nat \<Rightarrow> nat list \<Rightarrow> 'a list \<Rightarrow> bool" where
  "linked st p [] [] = True"
| "linked st p (a # as) (v # vs) =
     (a \<noteq> 0 \<and> st a = Some \<lparr>node_next = head_addr as, node_prev = p, node_value = v\<rparr>
      \<and> linked st a as vs)"
| "linked st p _ _ = False"

definition queue_holds :: "'a simple_queue \<Rightarrow> 'a list \<Rightarrow> bool" where
  "queue_holds q vs \<longleftrightarrow>
     (\<exists>as. distinct as \<and> linked (nodes q) 0 as vs \<and> dom (nodes q) = set as
           \<and> first q = head_addr as \<and> last_node q = last_addr as)"

lemma head_addr_simps [simp]: "head_addr [] = 0" "head_addr (a # as) = a"
  by (simp_all add: head_addr_def)

lemma last_addr_simps [simp]: "last_addr [] = 0" "last_addr [a] = a" "last_addr (as @ [a]) = a"
  by (simp_all add: last_addr_def)

lemma linked_fresh [simp]: "n \<notin> set as \<Longrightarrow> linked (st(n := x)) p as vs = linked st p as vs"
  by (induction st p as vs rule: linked.induct) auto

lemma linked_nonzero: "linked st p as vs \<Longrightarrow> 0 \<notin> set as"
  by (induction st p as vs rule: linked.induct) auto

lemma linked_length: "linked st p as vs \<Longrightarrow> length as = length vs"
  by (induction st p as vs rule: linked.induct) auto

text \<open>Appending a node after the last one of a non-empty chain.\<close>

lemma linked_snoc:
  "linked st p (as @ [l]) vs \<Longrightarrow> distinct (as @ [l]) \<Longrightarrow> n \<notin> set (as @ [l]) \<Longrightarrow> n \<noteq> 0 \<Longrightarrow>
   st l = Some nd \<Longrightarrow>
   linked (st(n \<mapsto> \<lparr>node_next = 0, node_prev = l, node_value = v\<rparr>, l \<mapsto> nd\<lparr>node_next := n\<rparr>))
     p (as @ [l, n]) (vs @ [v])"
proof (induction as arbitrary: p vs)
  case Nil
  then show ?case by (cases vs) (auto, case_tac list, auto)
next
  case (Cons a as)
  then obtain w ws where vs: "vs = w # ws" by (cases vs) auto
  with Cons have "head_addr (as @ [l]) = head_addr (as @ [l, n])" by (cases as) auto
  with Cons vs show ?case by auto
qed

lemma addTail_holds:
  assumes q: "queue_holds q vs" and n: "n \<noteq> 0" "n \<notin> dom (nodes q)"
  shows "\<exists>q'. addTail n v q = Inr q' \<and> queue_holds q' (vs @ [v])
              \<and> dom (nodes q') = insert n (dom (nodes q))"
proof -
  from q obtain as where as: "distinct as" "linked (nodes q) 0 as vs" "dom (nodes q) = set as"
    "first q = head_addr as" "last_node q = last_addr as" by (auto simp: queue_holds_def)
  show ?thesis
  proof (cases as rule: rev_cases)
    case Nil
    with as have "vs = []" using linked_length by fastforce
    with Nil as n show ?thesis
      by (auto simp: addTail_def queue_holds_def intro!: exI [of _ "[n]"])
  next
    case (snoc bs l)
    with as have l: "last_node q = l" "l \<noteq> 0" "l \<in> dom (nodes q)"
      using linked_nonzero [OF as(2)] by auto
    then obtain nd where nd: "nodes q l = Some nd" by auto
    have "n \<noteq> l" "n \<notin> set (bs @ [l])" using n l as snoc by auto
    let ?st = "(nodes q)(n \<mapsto> \<lparr>node_next = 0, node_prev = l, node_value = v\<rparr>,
                         l \<mapsto> nd\<lparr>node_next := n\<rparr>)"
    have "linked ?st 0 (bs @ [l, n]) (vs @ [v])"
      using linked_snoc [of "nodes q" 0 bs l vs n nd v] as snoc n nd \<open>n \<notin> set (bs @ [l])\<close> by auto
    moreover have "first q \<noteq> 0" "head_addr (bs @ [l, n]) = first q"
      using as snoc linked_nonzero [OF as(2)] by (cases bs; auto)+
    moreover have "last_addr (bs @ [l, n]) = n" by (simp add: last_addr_def)
    moreover have "dom ?st = set (bs @ [l, n])" using as snoc by auto
    ultimately have "queue_holds \<lparr>nodes = ?st, first = first q, last_node = n\<rparr> (vs @ [v])"
      using as(1) snoc \<open>n \<notin> set (bs @ [l])\<close> unfolding queue_holds_def
      by (intro exI [of _ "bs @ [l, n]"]) simp
    moreover have "addTail n v q = Inr \<lparr>nodes = ?st, first = first q, last_node = n\<rparr>"
      using l nd \<open>n \<noteq> l\<close> \<open>first q \<noteq> 0\<close> by (simp add: addTail_def)
    moreover have "dom ?st = insert n (dom (nodes q))" using l by auto
    ultimately show ?thesis by simp
  qed
qed

lemma removeHead_holds:
  assumes q: "queue_holds q (v # vs)"
  shows "\<exists>q'. removeHead q = Inr (v, q') \<and> queue_holds q' vs \<and> dom (nodes q') = dom (nodes q) - {first q}"
proof -
  from q obtain a as where as: "distinct (a # as)" "linked (nodes q) 0 (a # as) (v # vs)"
    "dom (nodes q) = set (a # as)" "first q = a" "last_node q = last_addr (a # as)"
    unfolding queue_holds_def by (metis linked.simps(4) list.exhaust head_addr_simps(2))
  show ?thesis
  proof (cases as)
    case Nil
    with as have "vs = []" using linked_length by fastforce
    moreover have "(nodes q)(a := None) = Map.empty" using as Nil by (auto simp: fun_eq_iff)
    ultimately show ?thesis using Nil as
      by (auto simp: removeHead_def queue_holds_def)
  next
    case (Cons b bs)
    with as obtain w ws where vs: "vs = w # ws" by (cases vs) auto
    let ?nb = "\<lparr>node_next = head_addr bs, node_prev = 0, node_value = w\<rparr>"
    let ?st = "(nodes q)(b \<mapsto> ?nb, a := None)"
    have "linked ?st 0 as vs" using as Cons vs by auto
    moreover have "dom ?st = set as" using as Cons by auto
    moreover have "last_addr (a # as) = last_addr as" using Cons by (simp add: last_addr_def)
    ultimately have "queue_holds \<lparr>nodes = ?st, first = b, last_node = last_node q\<rparr> vs"
      using as Cons unfolding queue_holds_def by (intro exI [of _ as]) simp
    moreover have "removeHead q = Inr (v, \<lparr>nodes = ?st, first = b, last_node = last_node q\<rparr>)"
      using as Cons vs by (simp add: removeHead_def)
    moreover have "dom ?st = dom (nodes q) - {first q}" using as Cons by auto
    ultimately show ?thesis by simp
  qed
qed

lemma isEmpty_holds: "queue_holds q vs \<Longrightarrow> isEmpty q \<longleftrightarrow> vs = []"
  unfolding queue_holds_def isEmpty_def
  by (metis linked.simps(3,4) linked_nonzero list.exhaust head_addr_simps list.set_intros(1))

lemma empty_queue_holds: "queue_holds empty_queue []"
  by (auto simp: queue_holds_def empty_queue_def)

interpretation sq: fifo_queue addTail removeHead isEmpty queue_holds "\<lambda>q. dom (nodes q)" "\<lambda>n. n \<noteq> 0"
proof unfold_locales
  fix q :: "'a simple_queue" and v vs n
  show "queue_holds q vs \<Longrightarrow> n \<noteq> 0 \<Longrightarrow> n \<notin> dom (nodes q) \<Longrightarrow>
      \<exists>q'. addTail n v q = Inr q' \<and> queue_holds q' (vs @ [v]) \<and> dom (nodes q') = insert n (dom (nodes q))"
    by (rule addTail_holds)
  show "queue_holds q (v # vs) \<Longrightarrow>
      \<exists>q'. removeHead q = Inr (v, q') \<and> queue_holds q' vs \<and> dom (nodes q') \<subseteq> dom (nodes q)"
    using removeHead_holds [of q v vs] by auto
  show "queue_holds q vs \<Longrightarrow> isEmpty q \<longleftrightarrow> vs = []" by (rule isEmpty_holds)
qed

section \<open>Properties\<close>

lemma queue_holds_Nil: "queue_holds q [] \<Longrightarrow> q = empty_queue"
proof -
  assume "queue_holds q []"
  then obtain as where as: "linked (nodes q) 0 as []" "dom (nodes q) = set as"
    "first q = head_addr as" "last_node q = last_addr as" by (auto simp: queue_holds_def)
  then have "as = []" using linked_length by fastforce
  with as show "q = empty_queue" by (cases q) (simp add: empty_queue_def)
qed

text \<open>
  Values added to an empty \<^verbatim>\<open>SimpleQueue\<close> come out in the order they went in, none lost
  and none twice, and after the last one the queue is the empty queue again: every node has been
  deleted. The nodes may lie at any distinct non-null addresses.
\<close>

theorem queue_fifo:
  assumes "distinct (map fst xs)" and "\<forall>n \<in> fst ` set xs. n \<noteq> 0"
    and "length xs \<le> fuel"
  shows "\<exists>q. addTails addTail xs empty_queue = Inr q
             \<and> drain isEmpty removeHead fuel q = Inr (map snd xs, empty_queue)"
proof -
  have "\<forall>n \<in> fst ` set xs. n \<noteq> 0 \<and> n \<notin> dom (nodes empty_queue)"
    using assms(2) by (simp add: empty_queue_def)
  from sq.fifo_order [OF empty_queue_holds assms(1) this assms(3)] show ?thesis
    using queue_holds_Nil by blast
qed

theorem queue_fifo_witness:
  "\<exists>q. addTails addTail [(8, ''a''), (24, ''b''), (16, ''c'')] empty_queue = Inr q
      \<and> drain isEmpty removeHead 3 q = Inr ([''a'', ''b'', ''c''], empty_queue)"
  using queue_fifo [of "[(8, ''a''), (24, ''b''), (16, ''c'')]" 3] by simp

text \<open>
  Taking the head of an empty \<^verbatim>\<open>SimpleQueue\<close> reads through the null pointer: the code has
  no check, so every caller has to ask \<^verbatim>\<open>isEmpty\<close> first, and \<^verbatim>\<open>isEmpty\<close> tells the two
  cases apart exactly.
\<close>

theorem removeHead_faults_iff_empty:
  assumes "queue_holds q vs"
  shows "(removeHead q = Inl NullDeref \<longleftrightarrow> isEmpty q) \<and> (isEmpty q \<longleftrightarrow> vs = [])"
proof (cases vs)
  case Nil
  with assms have "q = empty_queue" using queue_holds_Nil by simp
  then show ?thesis using Nil by (simp add: empty_queue_def removeHead_def isEmpty_def)
next
  case (Cons v ws)
  with assms sq.rem_law [of q v ws] sq.emp_law [OF assms] show ?thesis by auto
qed

theorem removeHead_faults_iff_empty_witness:
  "removeHead (empty_queue :: nat simple_queue) = Inl NullDeref"
  using removeHead_faults_iff_empty [OF empty_queue_holds] by (auto simp: isEmpty_def empty_queue_def)

end
