(* ===== verification/Heap_Allocator.thy ===== *)
theory Heap_Allocator
  imports Kernel_Prelude
begin

text \<open>
  \<^verbatim>\<open>kernel/heap.cc\<close>: the first-fit heap with boundary tags behind \<^verbatim>\<open>malloc\<close>, \<^verbatim>\<open>free\<close>,
  \<^verbatim>\<open>new\<close> and \<^verbatim>\<open>delete\<close>. The memory is seen as the C array \<^verbatim>\<open>array\<close>: a function from word
  indices to \<^verbatim>\<open>int\<close>s. Every block has its signed size in its first and last word (positive:
  available, negative: taken); an available block also holds the indices of its neighbours in
  the doubly linked list of available blocks. The calls of \<^verbatim>\<open>Process::disable\<close> and
  \<^verbatim>\<open>Process::enable\<close> around the two operations do not touch the heap and are added where heap
  and processes meet.
\<close>

section \<open>The heap of heap.cc\<close>

record heap =
  base :: u32
  arr :: "int \<Rightarrow> int"
  len :: int
  avail :: int

definition safe :: bool where
  "safe = True"

definition blk_abs :: "int \<Rightarrow> int" where
  "blk_abs x = (if x < 0 then -x else x)"

definition blk_size :: "heap \<Rightarrow> int \<Rightarrow> int" where
  "blk_size h i = blk_abs (arr h i)"

definition headerFromFooter :: "heap \<Rightarrow> int \<Rightarrow> int" where
  "headerFromFooter h i = i - blk_size h i + 1"

definition footerFromHeader :: "heap \<Rightarrow> int \<Rightarrow> int" where
  "footerFromHeader h i = i + blk_size h i - 1"

definition sanity :: "heap \<Rightarrow> int \<Rightarrow> fault + int" where
  "sanity h i =
     (if safe then
        (if i = 0 then Inr 0
         else if i < 0 \<or> i \<ge> len h then Inl (Panic ''bad header index'')
         else
           (let footer = footerFromHeader h i in
            if footer < 0 \<or> footer \<ge> len h then Inl (Panic ''bad footer index'')
            else if arr h i \<noteq> arr h footer then Inl (Panic ''bad block'')
            else Inr i))
      else Inr i)"

definition left_blk :: "heap \<Rightarrow> int \<Rightarrow> fault + int" where
  "left_blk h i = sanity h (headerFromFooter h (i - 1))"

definition right_blk :: "heap \<Rightarrow> int \<Rightarrow> fault + int" where
  "right_blk h i = sanity h (i + blk_size h i)"

definition get_next :: "heap \<Rightarrow> int \<Rightarrow> fault + int" where
  "get_next h i = sanity h (arr h (i + 1))"

definition get_prev :: "heap \<Rightarrow> int \<Rightarrow> fault + int" where
  "get_prev h i = sanity h (arr h (i + 2))"

definition poke :: "int \<Rightarrow> int \<Rightarrow> heap \<Rightarrow> heap" where
  "poke i x h = h\<lparr>arr := (arr h)(i := x)\<rparr>"

definition set_next :: "int \<Rightarrow> int \<Rightarrow> heap \<Rightarrow> heap" where
  "set_next i x h = poke (i + 1) x h"

definition set_prev :: "int \<Rightarrow> int \<Rightarrow> heap \<Rightarrow> heap" where
  "set_prev i x h = poke (i + 2) x h"

definition remove_blk :: "int \<Rightarrow> heap \<Rightarrow> fault + heap" where
  "remove_blk i h =
     bindE (get_prev h i) (\<lambda>prevIndex.
     bindE (get_next h i) (\<lambda>nextIndex.
       let h1 = (if prevIndex = 0 then h\<lparr>avail := nextIndex\<rparr>
                 else set_next prevIndex nextIndex h)
       in Inr (if nextIndex \<noteq> 0 then set_prev nextIndex prevIndex h1 else h1)))"

definition makeAvail :: "int \<Rightarrow> int \<Rightarrow> heap \<Rightarrow> heap" where
  "makeAvail i ints h =
     (let h1 = poke i ints h;
          h2 = poke (footerFromHeader h1 i) ints h1;
          h3 = set_next i (avail h2) h2;
          h4 = set_prev i 0 h3;
          h5 = (if avail h4 \<noteq> 0 then set_prev (avail h4) i h4 else h4)
      in h5\<lparr>avail := i\<rparr>)"

definition makeTaken :: "int \<Rightarrow> int \<Rightarrow> heap \<Rightarrow> heap" where
  "makeTaken i ints h =
     (let h1 = poke i (- ints) h in poke (footerFromHeader h1 i) (- ints) h1)"

definition isAvail :: "heap \<Rightarrow> int \<Rightarrow> bool" where
  "isAvail h i \<longleftrightarrow> arr h i > 0"

definition isTaken :: "heap \<Rightarrow> int \<Rightarrow> bool" where
  "isTaken h i \<longleftrightarrow> arr h i < 0"

text \<open>
  \<^verbatim>\<open>Heap::init\<close>. The memory \<open>m\<close> holds whatever it held before; the static \<^verbatim>\<open>avail\<close> is 0.
\<close>

definition heap_init :: "u32 \<Rightarrow> (int \<Rightarrow> int) \<Rightarrow> u32 \<Rightarrow> heap" where
  "heap_init b m bytes =
     (let h0 = \<lparr>base = b, arr = m, len = uint (bytes div 4), avail = 0\<rparr>
      in makeTaken (len h0 - 2) 2 (makeAvail 2 (len h0 - 4) (makeTaken 0 2 h0)))"

text \<open>The number of words \<^verbatim>\<open>malloc\<close> asks for: \<^verbatim>\<open>size_t\<close> arithmetic, so \<open>bytes + 3\<close> wraps.\<close>

definition ints_of :: "u32 \<Rightarrow> int" where
  "ints_of bytes = (let ints = uint ((bytes + 3) div 4 + 2) in if ints < 4 then 4 else ints)"

text \<open>
  The search loop of \<^verbatim>\<open>malloc\<close>; the result is the index of the block, 0 if the list ends. The
  loop itself does not write before it finds a block and every index it visits passes
  \<^verbatim>\<open>sanity\<close>, so after \<open>len\<close> rounds it has met an index twice and never ends: running out of
  fuel is \<open>Diverges\<close>.
\<close>

fun malloc_loop :: "nat \<Rightarrow> int \<Rightarrow> int \<Rightarrow> heap \<Rightarrow> fault + (int \<times> heap)" where
  "malloc_loop 0 ints p h = (if p = 0 then Inr (0, h) else Inl Diverges)"
| "malloc_loop (Suc fuel) ints p h =
     (if p = 0 then Inr (0, h)
      else if \<not> isAvail h p then Inl (Panic ''block is not available'')
      else
        (let sz = blk_size h p in
         if sz \<ge> ints then
           bindE (remove_blk p h) (\<lambda>h1.
             let extra = sz - ints in
             if extra \<ge> 4
             then Inr (p, makeAvail (p + ints) extra (makeTaken p ints h1))
             else Inr (p, makeTaken p sz h1))
         else bindE (get_next h p) (\<lambda>p'. malloc_loop fuel ints p' h)))"

definition ptr_of :: "heap \<Rightarrow> int \<Rightarrow> u32" where
  "ptr_of h i = base h + 4 * of_int (i + 1)"

definition malloc :: "u32 \<Rightarrow> heap \<Rightarrow> fault + (u32 \<times> heap)" where
  "malloc bytes h =
     (if bytes = 0 then Inr (base h, h)
      else
        bindE (sanity h (avail h)) (\<lambda>_.
        bindE (malloc_loop (nat (len h)) (ints_of bytes) (avail h) h) (\<lambda>(p, h').
          if p = 0 then Inl (Panic ''heap is full'') else Inr (ptr_of h' p, h'))))"

definition idx_of :: "heap \<Rightarrow> u32 \<Rightarrow> int" where
  "idx_of h p = sint ((p - base h) div 4 - 1)"

definition free :: "u32 \<Rightarrow> heap \<Rightarrow> fault + heap" where
  "free p h =
     (if p = 0 then Inr h
      else if p = base h then Inr h
      else
        (let idx = idx_of h p in
         bindE (sanity h idx) (\<lambda>_.
         if \<not> isTaken h idx then Inl (Panic ''freeing free block'')
         else
           (let sz = blk_size h idx in
            bindE (left_blk h idx) (\<lambda>leftIndex.
            bindE (right_blk h idx) (\<lambda>rightIndex.
            bindE (if isAvail h leftIndex
                   then bindE (remove_blk leftIndex h) (\<lambda>h1.
                          Inr (leftIndex, sz + blk_size h1 leftIndex, h1))
                   else Inr (idx, sz, h)) (\<lambda>(idx1, sz1, h1).
            bindE (if isAvail h1 rightIndex
                   then bindE (remove_blk rightIndex h1) (\<lambda>h2.
                          Inr (sz1 + blk_size h2 rightIndex, h2))
                   else Inr (sz1, h1)) (\<lambda>(sz2, h2).
              Inr (makeAvail idx1 sz2 h2)))))))))"

section \<open>Layout of the blocks\<close>

text \<open>
  \<open>layout a i ts e\<close>: from index \<open>i\<close> up to \<open>e\<close> the array is a sequence of blocks whose
  tags are \<open>ts\<close>.
\<close>

fun layout :: "(int \<Rightarrow> int) \<Rightarrow> int \<Rightarrow> int list \<Rightarrow> int \<Rightarrow> bool" where
  "layout a i [] e \<longleftrightarrow> i = e"
| "layout a i (t # ts) e \<longleftrightarrow>
     2 \<le> \<bar>t\<bar> \<and> a i = t \<and> a (i + \<bar>t\<bar> - 1) = t \<and> layout a (i + \<bar>t\<bar>) ts e"

definition span :: "int list \<Rightarrow> int" where
  "span ts = sum_list (map abs ts)"

fun free_starts :: "int \<Rightarrow> int list \<Rightarrow> int set" where
  "free_starts i [] = {}"
| "free_starts i (t # ts) = (if t > 0 then {i} else {}) \<union> free_starts (i + \<bar>t\<bar>) ts"

text \<open>The words of the taken blocks between their two tags: what the clients of the heap own.\<close>

fun payload :: "int \<Rightarrow> int list \<Rightarrow> int set" where
  "payload i [] = {}"
| "payload i (t # ts) =
     (if t < 0 then {i <..< i + \<bar>t\<bar> - 1} else {}) \<union> payload (i + \<bar>t\<bar>) ts"

definition big_free :: "int list \<Rightarrow> bool" where
  "big_free ts \<longleftrightarrow> (\<forall>t \<in> set ts. t > 0 \<longrightarrow> 4 \<le> t)"

fun no_adjacent :: "int list \<Rightarrow> bool" where
  "no_adjacent (s # t # ts) \<longleftrightarrow> \<not> (s > 0 \<and> t > 0) \<and> no_adjacent (t # ts)"
| "no_adjacent _ \<longleftrightarrow> True"

definition hd0 :: "int list \<Rightarrow> int" where
  "hd0 xs = (case xs of [] \<Rightarrow> 0 | x # _ \<Rightarrow> x)"

text \<open>The doubly linked list of available blocks: \<^verbatim>\<open>next\<close> at \<open>x + 1\<close>, \<^verbatim>\<open>prev\<close> at \<open>x + 2\<close>.\<close>

fun dll :: "(int \<Rightarrow> int) \<Rightarrow> int \<Rightarrow> int list \<Rightarrow> bool" where
  "dll a p [] = True"
| "dll a p (x # xs) \<longleftrightarrow> a (x + 2) = p \<and> a (x + 1) = hd0 xs \<and> dll a x xs"

text \<open>
  \<open>hole h l i n r fl\<close>: the heap in the middle of an operation. The blocks \<open>l\<close> lie before
  index \<open>i\<close>, the blocks \<open>r\<close> from \<open>i + n\<close> on; what the words between hold is open. The
  available list is \<open>fl\<close> and none of its blocks is in the gap.
\<close>

definition hole :: "heap \<Rightarrow> int list \<Rightarrow> int \<Rightarrow> int \<Rightarrow> int list \<Rightarrow> int list \<Rightarrow> bool" where
  "hole h l i n r fl \<longleftrightarrow>
     layout (arr h) 0 l i \<and> layout (arr h) (i + n) r (len h) \<and> 0 \<le> n
     \<and> big_free l \<and> big_free r \<and> dll (arr h) 0 fl \<and> distinct fl
     \<and> set fl \<subseteq> free_starts 0 l \<union> free_starts (i + n) r \<and> 0 \<notin> set fl
     \<and> avail h = hd0 fl"

text \<open>
  The invariant between operations: the blocks \<open>ts\<close> fill the array, a taken block of two
  words guards each end, every other block has at least four words, no two available blocks are neighbours, and the list holds the available
  blocks, each once.
\<close>

definition guarded :: "int list \<Rightarrow> bool" where
  "guarded ts \<longleftrightarrow> 2 \<le> length ts \<and> hd ts = -2 \<and> last ts = -2
     \<and> (\<forall>t \<in> set (butlast (tl ts)). 4 \<le> \<bar>t\<bar>)"

definition heap_ok :: "heap \<Rightarrow> int list \<Rightarrow> int list \<Rightarrow> bool" where
  "heap_ok h ts fl \<longleftrightarrow>
     hole h ts (len h) 0 [] fl \<and> set fl = free_starts 0 ts \<and> no_adjacent ts
     \<and> guarded ts \<and> 0 < base h \<and> uint (base h) + 4 * len h \<le> 2 ^ 32"

section \<open>Lemmas on layouts and the available list\<close>

lemma blk_abs_eq [simp]: "blk_abs x = \<bar>x\<bar>"
  by (simp add: blk_abs_def)

lemma span_simps [simp]: "span [] = 0" "span (t # ts) = \<bar>t\<bar> + span ts" "span (ts @ us) = span ts + span us"
  by (simp_all add: span_def)

lemma span_nonneg: "0 \<le> span ts"
  by (induction ts) auto

lemma hd0_simps [simp]: "hd0 [] = 0" "hd0 (x # xs) = x"
  by (simp_all add: hd0_def)

lemma big_free_simps [simp]:
  "big_free []" "big_free (t # ts) \<longleftrightarrow> (t > 0 \<longrightarrow> 4 \<le> t) \<and> big_free ts"
  "big_free (ts @ us) \<longleftrightarrow> big_free ts \<and> big_free us"
  by (auto simp: big_free_def)

lemma layout_span: "layout a i ts e \<Longrightarrow> e = i + span ts"
  by (induction a i ts e rule: layout.induct) auto

lemma layout_append [simp]:
  "layout a i (ts @ us) e \<longleftrightarrow> layout a i ts (i + span ts) \<and> layout a (i + span ts) us e"
  by (induction ts arbitrary: i) (auto simp: add.assoc)

lemma layout_pos: "layout a i ts e \<Longrightarrow> ts \<noteq> [] \<Longrightarrow> 0 < span ts"
  by (cases ts) (auto simp: add_pos_nonneg span_nonneg)

text \<open>A layout reads only the words of its own interval.\<close>

lemma layout_frame:
  "layout a i ts e \<Longrightarrow> (\<And>x. i \<le> x \<Longrightarrow> x < e \<Longrightarrow> a' x = a x) \<Longrightarrow> layout a' i ts e"
proof (induction ts arbitrary: i)
  case Nil
  then show ?case by simp
next
  case (Cons t ts)
  then have e: "e = i + \<bar>t\<bar> + span ts" using layout_span by fastforce
  with Cons.prems(1) span_nonneg [of ts] have "i < e" "i \<le> i + \<bar>t\<bar> - 1" "i + \<bar>t\<bar> - 1 < e" by auto
  with Cons.prems(2) have "a' i = a i" "a' (i + \<bar>t\<bar> - 1) = a (i + \<bar>t\<bar> - 1)" by blast+
  moreover have "layout a' (i + \<bar>t\<bar>) ts e"
    using Cons.prems by (intro Cons.IH) auto
  ultimately show ?case using Cons.prems(1) by simp
qed

lemma layout_upd_outside [simp]:
  "x < i \<or> e \<le> x \<Longrightarrow> layout a i ts e \<Longrightarrow> layout (a(x := v)) i ts e"
  by (erule layout_frame) auto

lemma free_starts_append [simp]:
  "free_starts i (ts @ us) = free_starts i ts \<union> free_starts (i + span ts) us"
  by (induction ts arbitrary: i) (auto simp: add.assoc)

lemma free_starts_bounds:
  "x \<in> free_starts i ts \<Longrightarrow> big_free ts \<Longrightarrow> i \<le> x \<and> x + 4 \<le> i + span ts"
proof (induction ts arbitrary: i)
  case Nil
  then show ?case by simp
next
  case (Cons t ts)
  show ?case
  proof (cases "x \<in> free_starts (i + \<bar>t\<bar>) ts")
    case True
    with Cons.IH [OF True] Cons.prems show ?thesis by auto
  next
    case False
    with Cons.prems have "x = i" "t > 0" "4 \<le> t" by (auto split: if_splits)
    then show ?thesis using span_nonneg [of ts] by auto
  qed
qed

lemma free_starts_split:
  "x \<in> free_starts i ts \<Longrightarrow> \<exists>l t r. ts = l @ t # r \<and> t > 0 \<and> x = i + span l"
proof (induction ts arbitrary: i)
  case Nil
  then show ?case by simp
next
  case (Cons s ts)
  show ?case
  proof (cases "x \<in> free_starts (i + \<bar>s\<bar>) ts")
    case True
    with Cons.IH [OF True] obtain l t r where "ts = l @ t # r \<and> t > 0 \<and> x = i + \<bar>s\<bar> + span l"
      by auto
    then have "s # ts = (s # l) @ t # r \<and> t > 0 \<and> x = i + span (s # l)" by simp
    then show ?thesis by blast
  next
    case False
    with Cons.prems have "x = i" "s > 0" by (auto split: if_splits)
    then have "s # ts = [] @ s # ts \<and> s > 0 \<and> x = i + span []" by simp
    then show ?thesis by blast
  qed
qed

text \<open>Writing a list word of an available block keeps the layout.\<close>

lemma layout_upd_link:
  assumes "layout a i ts e" "big_free ts" "x \<in> free_starts i ts" "y = x + 1 \<or> y = x + 2"
  shows "layout (a(y := v)) i ts e"
proof -
  from assms(3) free_starts_split obtain l t r
    where d: "ts = l @ t # r" "t > 0" "x = i + span l" by blast
  with assms have "4 \<le> t" by auto
  with d assms show ?thesis
    using layout_span [of a "i + span l + \<bar>t\<bar>" r e] span_nonneg [of r] by auto
qed

lemma layout_free_tag:
  assumes "layout a i ts e" "x \<in> free_starts i ts"
  shows "0 < a x" "a (x + \<bar>a x\<bar> - 1) = a x" "2 \<le> \<bar>a x\<bar>" "x + \<bar>a x\<bar> \<le> e" "i \<le> x"
proof -
  from assms(2) free_starts_split obtain l t r
    where d: "ts = l @ t # r" "t > 0" "x = i + span l" by blast
  with assms(1) have "a x = t" "a (x + t - 1) = t" "2 \<le> t" "layout a (x + t) r e" by auto
  with d layout_span [of a "x + t" r e] span_nonneg [of r] span_nonneg [of l]
  show "0 < a x" "a (x + \<bar>a x\<bar> - 1) = a x" "2 \<le> \<bar>a x\<bar>" "x + \<bar>a x\<bar> \<le> e" "i \<le> x" by auto
qed

lemma dll_frame:
  "dll a p fl \<Longrightarrow> (\<And>x. x \<in> set fl \<Longrightarrow> a' (x + 1) = a (x + 1) \<and> a' (x + 2) = a (x + 2)) \<Longrightarrow> dll a' p fl"
  by (induction fl arbitrary: p) auto

lemma dll_append: "dll a p (xs @ y # ys) \<Longrightarrow>
    a (y + 1) = hd0 ys \<and> a (y + 2) = (if xs = [] then p else last xs) \<and> dll a y ys"
  by (induction xs arbitrary: p) auto

text \<open>Unlinking the block \<open>x\<close> of the list: the two words \<^verbatim>\<open>remove\<close> writes.\<close>

text \<open>Words of the list lie in available blocks, which have at least four words each.\<close>

definition apart :: "int set \<Rightarrow> bool" where
  "apart S \<longleftrightarrow> (\<forall>x \<in> S. \<forall>y \<in> S. x < y \<longrightarrow> x + 4 \<le> y)"

lemma apartI: "(\<And>x y. x \<in> S \<Longrightarrow> y \<in> S \<Longrightarrow> x < y \<Longrightarrow> x + 4 \<le> y) \<Longrightarrow> apart S"
  by (simp add: apart_def)

lemma apartD: "apart S \<Longrightarrow> x \<in> S \<Longrightarrow> y \<in> S \<Longrightarrow> x < y \<Longrightarrow> x + 4 \<le> y"
  by (simp add: apart_def)

lemma apart_mono: "apart S \<Longrightarrow> T \<subseteq> S \<Longrightarrow> apart T"
  unfolding apart_def by blast

lemma apart_union:
  assumes "apart S" "apart T" and ST: "\<And>x y. x \<in> S \<Longrightarrow> y \<in> T \<Longrightarrow> x + 4 \<le> y"
  shows "apart (S \<union> T)"
proof (rule apartI)
  fix x y
  assume x: "x \<in> S \<union> T" and y: "y \<in> S \<union> T" and xy: "x < y"
  consider "x \<in> S" "y \<in> S" | "x \<in> S" "y \<in> T" | "x \<in> T" "y \<in> S" | "x \<in> T" "y \<in> T"
    using x y by blast
  then show "x + 4 \<le> y"
  proof cases
    case 3
    with ST [of y x] xy show ?thesis by simp
  qed (use assms xy apartD in blast)+
qed

lemma apart_free_starts: "big_free ts \<Longrightarrow> apart (free_starts i ts)"
proof (induction ts arbitrary: i)
  case Nil
  then show ?case by (simp add: apart_def)
next
  case (Cons t ts)
  have "apart ((if t > 0 then {i} else {}) \<union> free_starts (i + \<bar>t\<bar>) ts)"
  proof (rule apart_union)
    fix x y
    assume "x \<in> (if t > 0 then {i} else {})" "y \<in> free_starts (i + \<bar>t\<bar>) ts"
    with free_starts_bounds [of y "i + \<bar>t\<bar>" ts] Cons.prems show "x + 4 \<le> y"
      by (auto split: if_splits)
  qed (use Cons in \<open>auto simp: apart_def\<close>)
  then show ?case by simp
qed

lemma apart_links:
  assumes "apart S" "x \<in> S" "y \<in> S" "x \<noteq> y"
  shows "x + 1 \<noteq> y + 2 \<and> x + 2 \<noteq> y + 1"
proof (cases "x < y")
  case True
  with apartD [OF assms(1-3)] show ?thesis by simp
next
  case False
  with assms(4) apartD [OF assms(1,3,2)] show ?thesis by simp
qed

text \<open>Unlinking the block \<open>x\<close>: the two words \<^verbatim>\<open>remove\<close> may write.\<close>

definition unlink :: "(int \<Rightarrow> int) \<Rightarrow> int list \<Rightarrow> int list \<Rightarrow> int \<Rightarrow> int \<Rightarrow> int" where
  "unlink a f1 f2 p =
     (let a1 = (if f1 = [] then a else a(last f1 + 1 := hd0 f2))
      in if f2 = [] then a1 else a1(hd f2 + 2 := (if f1 = [] then p else last f1)))"

lemma dll_unlink:
  "dll a p (f1 @ x # f2) \<Longrightarrow> distinct (f1 @ x # f2) \<Longrightarrow> apart (set (f1 @ x # f2)) \<Longrightarrow>
   dll (unlink a f1 f2 p) p (f1 @ f2)"
proof (induction f1 arbitrary: p)
  case Nil
  show ?case
  proof (cases f2)
    case (Cons y ys)
    have "dll (a(y + 2 := p)) y ys"
    proof (rule dll_frame)
      show "dll a y ys" using Nil Cons by simp
      fix w
      assume w: "w \<in> set ys"
      then have "w \<noteq> y" using Nil(2) Cons by auto
      moreover have "w + 1 \<noteq> y + 2" using apart_links [OF Nil(3), of w y] w Cons \<open>w \<noteq> y\<close> by auto
      ultimately show "(a(y + 2 := p)) (w + 1) = a (w + 1) \<and> (a(y + 2 := p)) (w + 2) = a (w + 2)"
        by simp
    qed
    with Nil Cons show ?thesis by (simp add: unlink_def fun_upd_def)
  qed simp
next
  case (Cons z zs)
  have ap: "w \<in> set (zs @ x # f2) \<Longrightarrow> w \<noteq> z \<and> w + 1 \<noteq> z + 2 \<and> w + 2 \<noteq> z + 1" for w
    using Cons.prems apart_links [OF Cons.prems(3), of w z] by auto
  show ?case
  proof (cases "zs = []")
    case True
    show ?thesis
    proof (cases f2)
      case Nil
      with True Cons.prems show ?thesis by (simp add: unlink_def)
    next
      case (Cons y ys)
      let ?a = "a(z + 1 := y, y + 2 := z)"
      have "dll ?a y ys"
      proof (rule dll_frame)
        show "dll a y ys" using Cons.prems True Cons by simp
        fix w
        assume w: "w \<in> set ys"
        then have "w \<noteq> y" using Cons.prems(2) Cons by auto
        moreover have "w + 1 \<noteq> y + 2" "w \<noteq> z" "w + 2 \<noteq> z + 1"
          using apart_links [OF Cons.prems(3), of w y] ap [of w] w Cons \<open>w \<noteq> y\<close> by auto
        ultimately show "?a (w + 1) = a (w + 1) \<and> ?a (w + 2) = a (w + 2)" by simp
      qed
      with Cons.prems True Cons ap [of y] show ?thesis by (simp add: unlink_def fun_upd_def)
    qed
  next
    case False
    then have u: "unlink a (z # zs) f2 p = unlink a zs f2 z" by (auto simp: unlink_def Let_def)
    from Cons.prems have "dll (unlink a zs f2 z) z (zs @ f2)"
      by (intro Cons.IH) (auto elim: apart_mono)
    moreover have "unlink a zs f2 z (z + 2) = a (z + 2)" "unlink a zs f2 z (z + 1) = a (z + 1)"
      using False ap [of "last zs"] ap [of "hd f2"] by (cases f2; auto simp: unlink_def Let_def)+
    ultimately show ?thesis using u False Cons.prems by (cases zs) auto
  qed
qed

lemma hole_apart: "hole h l i n r fl \<Longrightarrow> apart (free_starts 0 l \<union> free_starts (i + n) r)"
proof -
  assume h: "hole h l i n r fl"
  then have i: "i = span l" using layout_span [of "arr h" 0 l i] by (simp add: hole_def)
  show ?thesis
  proof (rule apart_union)
    fix x y
    assume "x \<in> free_starts 0 l" "y \<in> free_starts (i + n) r"
    with h i free_starts_bounds [of x 0 l] free_starts_bounds [of y "i + n" r]
    show "x + 4 \<le> y" by (auto simp: hole_def)
  qed (use h in \<open>auto simp: hole_def intro: apart_free_starts\<close>)
qed

lemma hole_apart_fl: "hole h l i n r fl \<Longrightarrow> apart (set fl)"
  by (rule apart_mono [OF hole_apart]) (auto simp: hole_def)

lemma hole_bounds: "hole h l i n r fl \<Longrightarrow> i = span l \<and> 0 \<le> i \<and> i + n \<le> len h \<and> len h = i + n + span r"
  using layout_span [of "arr h" 0 l i] layout_span [of "arr h" "i + n" r "len h"]
    span_nonneg [of l] span_nonneg [of r]
  by (auto simp: hole_def)

lemma sanity_tag:
  assumes "0 \<le> i" "2 \<le> \<bar>arr h i\<bar>" "arr h (i + \<bar>arr h i\<bar> - 1) = arr h i" "i + \<bar>arr h i\<bar> \<le> len h"
  shows "sanity h i = Inr i"
  using assms by (auto simp: sanity_def safe_def footerFromHeader_def blk_size_def Let_def)

lemma sanity_0 [simp]: "sanity h 0 = Inr 0"
  by (simp add: sanity_def safe_def)

lemma hole_free_tag:
  assumes "hole h l i n r fl" "x \<in> set fl"
  shows "0 < arr h x" "sanity h x = Inr x"
proof -
  from assms have x: "x \<in> free_starts 0 l \<or> x \<in> free_starts (i + n) r" by (auto simp: hole_def)
  note b = hole_bounds [OF assms(1)]
  have n: "0 \<le> n" using assms(1) by (simp add: hole_def)
  have *: "0 < arr h x \<and> arr h (x + \<bar>arr h x\<bar> - 1) = arr h x \<and> 2 \<le> \<bar>arr h x\<bar> \<and>
      x + \<bar>arr h x\<bar> \<le> len h \<and> 0 \<le> x"
  proof (cases "x \<in> free_starts 0 l")
    case True
    then show ?thesis using layout_free_tag [of "arr h" 0 l i x] assms(1) b n
      by (auto simp: hole_def)
  next
    case False
    then show ?thesis using layout_free_tag [of "arr h" "i + n" r "len h" x] assms(1) b n x
      by (auto simp: hole_def)
  qed
  then show "0 < arr h x" "sanity h x = Inr x" by (auto intro: sanity_tag)
qed

section \<open>What each internal operation does to the heap\<close>

text \<open>\<open>changes S h h'\<close>: at most the words at the indices \<open>S\<close> (and \<^verbatim>\<open>avail\<close>) differ.\<close>

definition changes :: "int set \<Rightarrow> heap \<Rightarrow> heap \<Rightarrow> bool" where
  "changes S h h' \<longleftrightarrow> base h' = base h \<and> len h' = len h \<and> (\<forall>y. y \<notin> S \<longrightarrow> arr h' y = arr h y)"

definition links :: "int list \<Rightarrow> int set" where
  "links fl = (\<Union>z \<in> set fl. {z + 1, z + 2})"

lemma changes_refl [simp]: "changes S h h"
  by (simp add: changes_def)

lemma changes_trans: "changes S h h' \<Longrightarrow> changes T h' h'' \<Longrightarrow> changes (S \<union> T) h h''"
  by (auto simp: changes_def)

lemma changes_mono: "changes S h h' \<Longrightarrow> S \<subseteq> T \<Longrightarrow> changes T h h'"
  by (auto simp: changes_def)

lemma links_mono: "set fl \<subseteq> set gl \<Longrightarrow> links fl \<subseteq> links gl"
  by (auto simp: links_def)

lemma layouts_upd_link:
  assumes "layout a 0 l i" "layout a (i + n) r e" "0 \<le> n" "big_free l" "big_free r"
    and "z \<in> free_starts 0 l \<union> free_starts (i + n) r" "y = z + 1 \<or> y = z + 2"
  shows "layout (a(y := v)) 0 l i \<and> layout (a(y := v)) (i + n) r e"
proof (cases "z \<in> free_starts 0 l")
  case True
  with assms free_starts_bounds [of z 0 l] layout_span [of a 0 l i]
  have "y < i" by auto
  with True assms layout_upd_link [of a 0 l i z y v] show ?thesis by auto
next
  case False
  with assms(6) have z: "z \<in> free_starts (i + n) r" by simp
  with assms free_starts_bounds [of z "i + n" r] have "i \<le> y" by auto
  with z assms layout_upd_link [of a "i + n" r e z y v] show ?thesis by auto
qed

lemma remove_hole:
  assumes h: "hole h l i n r (f1 @ x # f2)"
  shows "\<exists>h'. remove_blk x h = Inr h' \<and> hole h' l i n r (f1 @ f2)
              \<and> changes (links (f1 @ f2)) h h'"
proof -
  let ?q = "if f1 = [] then 0 else last f1"
  let ?av = "if f1 = [] then hd0 f2 else avail h"
  let ?h' = "h\<lparr>arr := unlink (arr h) f1 f2 0, avail := ?av\<rparr>"
  have d: "dll (arr h) 0 (f1 @ x # f2)" and dist: "distinct (f1 @ x # f2)"
    and nz: "0 \<notin> set (f1 @ x # f2)" using h by (simp_all add: hole_def)
  have xp: "arr h (x + 2) = ?q" "arr h (x + 1) = hd0 f2" using dll_append [OF d] by auto
  have "sanity h ?q = Inr ?q" "sanity h (hd0 f2) = Inr (hd0 f2)"
    using hole_free_tag(2) [OF h, of "last f1"] hole_free_tag(2) [OF h, of "hd0 f2"]
    by (auto, cases f2, auto)
  moreover have "f1 \<noteq> [] \<Longrightarrow> last f1 \<noteq> 0" using nz by (metis Un_iff last_in_set set_append)
  ultimately have "remove_blk x h = Inr ?h'"
    using xp nz
    by (cases "f1 = []"; cases f2)
       (auto simp: remove_blk_def get_prev_def get_next_def set_next_def set_prev_def poke_def
          unlink_def Let_def)
  moreover have "hole ?h' l i n r (f1 @ f2)"
  proof -
    have L: "layout (arr h) 0 l i" "layout (arr h) (i + n) r (len h)" "0 \<le> n" "big_free l"
      "big_free r" and S: "set (f1 @ x # f2) \<subseteq> free_starts 0 l \<union> free_starts (i + n) r"
      using h by (simp_all add: hole_def)
    have 1: "f1 \<noteq> [] \<Longrightarrow> last f1 \<in> free_starts 0 l \<union> free_starts (i + n) r"
      and 2: "f2 \<noteq> [] \<Longrightarrow> hd f2 \<in> free_starts 0 l \<union> free_starts (i + n) r"
      using subsetD [OF S, of "last f1"] subsetD [OF S, of "hd f2"] by simp_all
    let ?a1 = "if f1 = [] then arr h else (arr h)(last f1 + 1 := hd0 f2)"
    have "layout ?a1 0 l i \<and> layout ?a1 (i + n) r (len h)"
      using layouts_upd_link [OF L 1, of "last f1 + 1" "hd0 f2"] L by auto
    then have "layout (unlink (arr h) f1 f2 0) 0 l i \<and> layout (unlink (arr h) f1 f2 0) (i + n) r (len h)"
      using layouts_upd_link [of ?a1 l i n r "len h" "hd f2" "hd f2 + 2" ?q] L(3-5) 2
      by (auto simp: unlink_def Let_def)
    moreover have "dll (unlink (arr h) f1 f2 0) 0 (f1 @ f2)"
      by (rule dll_unlink [OF d dist hole_apart_fl [OF h]])
    moreover have "?av = hd0 (f1 @ f2)" using h by (cases f1) (auto simp: hole_def)
    ultimately show ?thesis using h by (auto simp: hole_def)
  qed
  moreover have "changes (links (f1 @ f2)) h ?h'"
    by (auto simp: changes_def links_def unlink_def Let_def)
  ultimately show ?thesis by blast
qed

lemma makeTaken_eq:
  "0 \<le> m \<Longrightarrow> makeTaken i m h = h\<lparr>arr := (arr h)(i := - m, i + m - 1 := - m)\<rparr>"
  by (simp add: makeTaken_def poke_def footerFromHeader_def blk_size_def Let_def)

lemma makeTaken_hole:
  assumes h: "hole h l i n r fl" and m: "2 \<le> m" "m \<le> n"
  shows "hole (makeTaken i m h) (l @ [- m]) (i + m) (n - m) r fl
         \<and> changes {i, i + m - 1} h (makeTaken i m h)"
proof -
  let ?a = "(arr h)(i := - m, i + m - 1 := - m)"
  have b: "i = span l" using hole_bounds [OF h] by simp
  have "layout ?a 0 l i" "layout ?a (i + n) r (len h)"
    using h m by (auto simp: hole_def)
  moreover have "dll ?a 0 fl"
  proof (rule dll_frame)
    show "dll (arr h) 0 fl" using h by (simp add: hole_def)
    fix x assume "x \<in> set fl"
    then have "x \<in> free_starts 0 l \<or> x \<in> free_starts (i + n) r" using h by (auto simp: hole_def)
    then have "x + 4 \<le> i \<or> i + n \<le> x"
      using free_starts_bounds [of x 0 l] free_starts_bounds [of x "i + n" r] h b
      by (auto simp: hole_def)
    with m show "?a (x + 1) = arr h (x + 1) \<and> ?a (x + 2) = arr h (x + 2)" by auto
  qed
  ultimately show ?thesis using h m b
    by (auto simp: hole_def makeTaken_eq changes_def)
qed

lemma makeAvail_eq:
  "2 < m \<Longrightarrow> makeAvail i m h =
     (let a = (arr h)(i := m, i + m - 1 := m, i + 1 := avail h, i + 2 := 0)
      in h\<lparr>arr := if avail h \<noteq> 0 then a(avail h + 2 := i) else a, avail := i\<rparr>)"
  by (simp add: makeAvail_def set_next_def set_prev_def poke_def footerFromHeader_def
      blk_size_def Let_def)

lemma makeAvail_hole:
  assumes h: "hole h l i n r fl" and n: "4 \<le> n" and i: "0 < i"
  shows "hole (makeAvail i n h) (l @ n # r) (len h) 0 [] (i # fl)
         \<and> changes ({i ..< i + n} \<union> links fl) h (makeAvail i n h)"
proof -
  let ?a = "(arr h)(i := n, i + n - 1 := n, i + 1 := avail h, i + 2 := 0)"
  let ?b = "if avail h \<noteq> 0 then ?a(avail h + 2 := i) else ?a"
  have b: "i = span l" "len h = i + n + span r" using hole_bounds [OF h] by auto
  have fb: "x + 4 \<le> i \<or> i + n \<le> x" if "x \<in> set fl" for x
    using that free_starts_bounds [of x 0 l] free_starts_bounds [of x "i + n" r] h b
    by (auto simp: hole_def)
  have av: "avail h = hd0 fl" "0 \<notin> set fl" using h by (auto simp: hole_def)
  have out: "?a x = arr h x" if "x < i \<or> i + n \<le> x" for x using that n by auto
  have "layout ?a 0 l i" "layout ?a (i + n) r (len h)" using h n by (auto simp: hole_def)
  then have L: "layout ?b 0 l i \<and> layout ?b (i + n) r (len h)"
    using layouts_upd_link [of ?a l i n r "len h" "avail h" "avail h + 2" i] h av
    by (cases fl) (auto simp: hole_def)
  have "?b i = n \<and> ?b (i + n - 1) = n"
    using fb [of "avail h"] n av by (cases fl) auto
  with L have "layout ?b 0 (l @ n # r) (len h)" using b n by auto
  moreover have "dll ?b 0 (i # fl)"
  proof -
    have "dll ?b i fl"
    proof (cases fl)
      case (Cons y ys)
      with av have "avail h = y" "y \<noteq> 0" by auto
      have d: "dll (arr h) y ys" "arr h (y + 1) = hd0 ys" using h Cons by (auto simp: hole_def)
      have "dll ?b y ys"
      proof (rule dll_frame [OF d(1)])
        fix w assume w: "w \<in> set ys"
        then have "w \<noteq> y" "w \<in> set fl" using h Cons by (auto simp: hole_def)
        then have "w + 1 \<noteq> y + 2" "w + 2 \<noteq> y + 2" "w + 4 \<le> i \<or> i + n \<le> w"
          using fb [of w] apart_links [OF hole_apart_fl [OF h], of w y] Cons by auto
        moreover from this n have "?a (w + 1) = arr h (w + 1)" "?a (w + 2) = arr h (w + 2)"
          by (intro out, linarith)+
        ultimately show "?b (w + 1) = arr h (w + 1) \<and> ?b (w + 2) = arr h (w + 2)"
          unfolding \<open>avail h = y\<close> using \<open>y \<noteq> 0\<close> by (simp only: fun_upd_other if_True if_False not_False_eq_True add_right_cancel)
      qed
      with Cons d \<open>avail h = y\<close> \<open>y \<noteq> 0\<close> fb [of y] n show ?thesis by auto
    qed simp
    then show ?thesis using av fb [of "hd0 fl"] n by (cases fl) auto
  qed
  moreover have "set (i # fl) \<subseteq> free_starts 0 (l @ n # r)" "i \<notin> set fl"
    using h b n fb [of i] by (auto simp: hole_def)
  moreover have eq: "makeAvail i n h = h\<lparr>arr := ?b, avail := i\<rparr>" using n by (simp add: makeAvail_eq Let_def)
  moreover have "big_free l" "big_free r" "distinct fl" using h by (simp_all add: hole_def)
  ultimately have "hole (makeAvail i n h) (l @ n # r) (len h) 0 [] (i # fl)"
    unfolding hole_def using n i av by simp
  moreover have "changes ({i ..< i + n} \<union> links fl) h (makeAvail i n h)"
    unfolding eq using n av by (cases fl) (auto simp: changes_def links_def)
  ultimately show ?thesis by blast
qed

section \<open>Opening and closing gaps\<close>

lemma open_block:
  assumes h: "hole h (l @ t # r) e 0 [] fl" and x: "span l \<notin> set fl"
  shows "hole h l (span l) \<bar>t\<bar> r fl"
proof -
  have "set fl \<subseteq> free_starts 0 l \<union> free_starts (span l + \<bar>t\<bar>) r"
    using h x by (fastforce simp: hole_def split: if_splits)
  with h show ?thesis
    using layout_span [of "arr h" 0 "l @ t # r" e] by (auto simp: hole_def add.assoc)
qed

lemma open_left:
  assumes h: "hole h (l @ [t]) i n r fl" and t: "0 < t" and x: "span l \<notin> set fl"
  shows "hole h l (span l) (n + t) r fl"
proof -
  have i: "i = span l + t" using hole_bounds [OF h] t by simp
  have "set fl \<subseteq> free_starts 0 l \<union> free_starts (i + n) r"
    using h x t by (auto simp: hole_def)
  with h i t show ?thesis by (auto simp: hole_def algebra_simps)
qed

lemma open_right:
  assumes h: "hole h l i n (t # r) fl" and t: "0 < t" and x: "i + n \<notin> set fl"
  shows "hole h l i (n + t) r fl"
proof -
  have "set fl \<subseteq> free_starts 0 l \<union> free_starts (i + n + t) r"
    using h x t by (auto simp: hole_def)
  with h t show ?thesis by (auto simp: hole_def algebra_simps)
qed

lemma close_hole:
  assumes h: "hole h l i 0 r fl"
  shows "hole h (l @ r) (len h) 0 [] fl"
  using h hole_bounds [OF h] by (auto simp: hole_def)

section \<open>Neighbours, guards and payloads\<close>

lemma no_adjacent_append:
  "no_adjacent (l @ r) \<longleftrightarrow>
     no_adjacent l \<and> no_adjacent r \<and> (l \<noteq> [] \<longrightarrow> r \<noteq> [] \<longrightarrow> \<not> (last l > 0 \<and> hd r > 0))"
proof (induction l)
  case (Cons x l)
  then show ?case by (cases l; cases r) auto
qed simp

lemma no_adjacent_Cons: "no_adjacent (t # r) \<longleftrightarrow> no_adjacent r \<and> (r \<noteq> [] \<longrightarrow> \<not> (t > 0 \<and> hd r > 0))"
  by (cases r) auto

lemma guarded_middle: "l \<noteq> [] \<Longrightarrow> r \<noteq> [] \<Longrightarrow> guarded (l @ ts @ r) \<longleftrightarrow>
    hd l = -2 \<and> last r = -2 \<and> (\<forall>t \<in> set (tl l) \<union> set ts \<union> set (butlast r). 4 \<le> \<bar>t\<bar>)"
  by (cases l; cases r) (auto simp: guarded_def butlast_append)

lemma guarded_ends: "guarded (l @ t # r) \<Longrightarrow> 0 < t \<Longrightarrow> l \<noteq> [] \<and> r \<noteq> []"
  by (cases l; cases r) (auto simp: guarded_def)

lemma payload_append [simp]: "payload i (ts @ us) = payload i ts \<union> payload (i + span ts) us"
  by (induction ts arbitrary: i) (auto simp: add.assoc)

lemma payload_bounds: "y \<in> payload i ts \<Longrightarrow> i < y \<and> y < i + span ts"
proof (induction ts arbitrary: i)
  case (Cons t ts)
  show ?case
  proof (cases "y \<in> payload (i + \<bar>t\<bar>) ts")
    case True
    then show ?thesis using Cons.IH [OF True] by auto
  next
    case False
    then show ?thesis using Cons.prems span_nonneg [of ts] by (auto split: if_splits)
  qed
qed simp

lemma payload_outside:
  "y \<in> payload 0 (l @ t # r) \<Longrightarrow> 0 < t \<Longrightarrow> y < span l \<or> span l + t < y"
  using payload_bounds [of y 0 l] payload_bounds [of y "span l + \<bar>t\<bar>" r] by auto

lemma payload_links:
  assumes "y \<in> payload 0 ts" "big_free ts" "set fl \<subseteq> free_starts 0 ts"
  shows "y \<notin> links fl"
proof
  assume "y \<in> links fl"
  then obtain z where z: "z \<in> set fl" "y = z + 1 \<or> y = z + 2" by (auto simp: links_def)
  with assms(3) free_starts_split [of z 0 ts] obtain l t r
    where "ts = l @ t # r" "0 < t" "z = span l" by auto
  with assms z payload_outside [of y l t r] show False by auto
qed

lemma heap_okD:
  assumes "heap_ok h ts fl"
  shows "hole h ts (len h) 0 [] fl" "set fl = free_starts 0 ts" "no_adjacent ts" "guarded ts"
    "big_free ts" "distinct fl" "avail h = hd0 fl" "layout (arr h) 0 ts (len h)" "0 \<notin> set fl"
    "len h = span ts" "0 < base h" "uint (base h) + 4 * len h \<le> 2 ^ 32"
  using assms hole_bounds [of h ts "len h" 0 "[]" fl] by (auto simp: heap_ok_def hole_def)

text \<open>Each available block starts at a different index, so the list is not longer than the array.\<close>

lemma length_avail_list: "heap_ok h ts fl \<Longrightarrow> length fl \<le> nat (len h)"
proof -
  assume h: "heap_ok h ts fl"
  have "set fl \<subseteq> {0 ..< len h}"
    using heap_okD [OF h] free_starts_bounds [of _ 0 ts] by fastforce
  then have "card (set fl) \<le> card {0 ..< len h}" by (intro card_mono) auto
  with heap_okD(6) [OF h] show ?thesis by (simp add: distinct_card)
qed

lemma idx_of_ptr:
  assumes "0 \<le> i" "i + 1 < len h" "0 < base h" "uint (base h) + 4 * len h \<le> 2 ^ 32"
  shows "idx_of h (ptr_of h i) = i" "ptr_of h i \<noteq> 0" "ptr_of h i \<noteq> base h"
proof -
  have b: "0 \<le> uint (base h)" "0 < uint (base h)" using assms(3) by (simp_all add: word_less_def)
  have r: "4 * (i + 1) < 2 ^ 32" using assms b by simp
  define k where "k = 4 * (i + 1)"
  have eq: "ptr_of h i = base h + word_of_int k" by (simp add: ptr_of_def k_def)
  have k: "0 \<le> k" "k < 2 ^ 32" "k div 4 = i + 1" using assms(1) r by (simp_all add: k_def)
  then have u: "uint (word_of_int k :: u32) = k" by (simp add: uint_word_of_int)
  with k have "uint ((word_of_int k :: u32) div 4) = i + 1" by (simp add: uint_div)
  then have "(word_of_int k :: u32) div 4 = word_of_int (i + 1)"
    by (metis word_of_int_uint)
  then have "(ptr_of h i - base h) div 4 - 1 = word_of_int i" by (simp add: eq)
  moreover have "sint (word_of_int i :: u32) = i"
    using assms(1) r by (simp add: sint_uint uint_word_of_int signed_take_bit_int_eq_self)
  ultimately show "idx_of h (ptr_of h i) = i" by (simp add: idx_of_def)
  have "uint (ptr_of h i) = uint (base h) + k"
    using u b assms k_def by (simp add: eq uint_word_ariths)
  then show "ptr_of h i \<noteq> 0" "ptr_of h i \<noteq> base h" using b assms(1) k_def by auto
qed

section \<open>malloc\<close>

text \<open>
  The tags after a request of \<open>ints\<close> words was served from the block \<open>t\<close> between \<open>l\<close> and
  \<open>r\<close>: the block is split when at least four words remain.
\<close>

definition taken_tags :: "int \<Rightarrow> int list \<Rightarrow> int \<Rightarrow> int list \<Rightarrow> int list" where
  "taken_tags ints l t r = l @ (if t - ints \<ge> 4 then [- ints, t - ints] else [- t]) @ r"

text \<open>
  A client of the heap: it asks for memory and gives back blocks it holds, in any order. The state
  is the heap and the list of the pointers the client holds.
\<close>

inductive heap_run :: "heap \<Rightarrow> heap \<Rightarrow> u32 list \<Rightarrow> bool" for h0 :: heap where
  start: "heap_run h0 h0 []"
| alloc: "heap_run h0 h ps \<Longrightarrow> bytes \<noteq> 0 \<Longrightarrow> malloc bytes h = Inr (p, h') \<Longrightarrow>
    heap_run h0 h' (p # ps)"
| release: "heap_run h0 h ps \<Longrightarrow> p \<in> set ps \<Longrightarrow> free p h = Inr h' \<Longrightarrow>
    heap_run h0 h' (remove1 p ps)"

lemma heap_ok_closeI:
  assumes "hole h' ts' (len h') 0 [] fl'" "set fl' = free_starts 0 ts'" "no_adjacent ts'"
    "guarded ts'" "heap_ok h ts fl" "base h' = base h" "len h' = len h"
  shows "heap_ok h' ts' fl'"
  using assms by (simp add: heap_ok_def)

lemma list_member_block:
  assumes ok: "heap_ok h ts fl" and x: "x \<in> set fl"
  obtains l t r f1 f2 where "ts = l @ t # r" "x = span l" "0 < t" "4 \<le> t" "arr h x = t"
    "fl = f1 @ x # f2" "x \<notin> set (f1 @ f2)" "l \<noteq> []" "r \<noteq> []"
    "set (f1 @ f2) = free_starts 0 l \<union> free_starts (x + t) r"
proof -
  from ok x have "x \<in> free_starts 0 ts" using heap_okD(2) by blast
  from free_starts_split [OF this] obtain l t r
    where d: "ts = l @ t # r" "0 < t" "x = span l" by auto
  from split_list [OF x] obtain f1 f2 where f: "fl = f1 @ x # f2" by blast
  note D = heap_okD [OF ok]
  have "x \<notin> set (f1 @ f2)" using D(6) f by auto
  moreover have "set (f1 @ f2) = free_starts 0 l \<union> free_starts (x + t) r"
  proof -
    have "x \<notin> free_starts 0 l" "x \<notin> free_starts (x + t) r"
      using d D(5) free_starts_bounds [of x 0 l] free_starts_bounds [of x "x + t" r] by auto
    moreover have "insert x (set (f1 @ f2)) = insert x (free_starts 0 l \<union> free_starts (x + t) r)"
      using D(2) d f by auto
    ultimately show ?thesis using \<open>x \<notin> set (f1 @ f2)\<close> by (simp add: insert_ident)
  qed
  moreover have "arr h x = t" "4 \<le> t" using D(5,8) d by auto
  ultimately show ?thesis using that d f guarded_ends [of l t r] D(4) by blast
qed

lemma take_block:
  assumes ok: "heap_ok h ts fl" and x: "x \<in> set fl" and n: "4 \<le> ints" "ints \<le> blk_size h x"
  shows "\<exists>h1 h' fl' l t r. ts = l @ t # r \<and> x = span l \<and> 0 < t \<and> blk_size h x = t \<and> ints \<le> t
     \<and> remove_blk x h = Inr h1
     \<and> h' = (if t - ints \<ge> 4 then makeAvail (x + ints) (t - ints) (makeTaken x ints h1)
             else makeTaken x t h1)
     \<and> heap_ok h' (taken_tags ints l t r) fl' \<and> base h' = base h \<and> len h' = len h
     \<and> (\<forall>y \<in> payload 0 ts. arr h' y = arr h y)"
proof -
  from list_member_block [OF ok x] obtain l t r f1 f2 where d: "ts = l @ t # r" "x = span l" "0 < t"
    "4 \<le> t" "arr h x = t" "fl = f1 @ x # f2" "x \<notin> set (f1 @ f2)" "l \<noteq> []" "r \<noteq> []"
    "set (f1 @ f2) = free_starts 0 l \<union> free_starts (x + t) r" by metis
  note D = heap_okD [OF ok]
  have sz: "blk_size h x = t" using d by (simp add: blk_size_def)
  from remove_hole [of h ts "len h" 0 "[]" f1 x f2] D(1) d obtain h1
    where h1: "remove_blk x h = Inr h1" "hole h1 ts (len h) 0 [] (f1 @ f2)"
      "changes (links (f1 @ f2)) h h1" by auto
  have g: "hole h1 l x t r (f1 @ f2)"
    using open_block [of h1 l t r "len h" "f1 @ f2"] h1 d by simp
  have hd_l: "hd l = -2" "last r = -2" "\<forall>t \<in> set (tl l) \<union> set (butlast r). 4 \<le> \<bar>t\<bar>"
    using D(4) d guarded_middle [of l r "[t]"] by auto
  have x0: "0 < x" using D(8) d layout_pos by fastforce
  have adj: "no_adjacent l" "no_adjacent r" "\<not> last l > 0" "\<not> hd r > 0"
    using D(3) d no_adjacent_append [of l "t # r"] no_adjacent_Cons [of t r] by auto
  have lk: "set (f1 @ f2) \<subseteq> free_starts 0 ts" using D(2) d(6) by auto
  show ?thesis
  proof (cases "t - ints \<ge> 4")
    case True
    let ?h2 = "makeTaken x ints h1"
    let ?h' = "makeAvail (x + ints) (t - ints) ?h2"
    from makeTaken_hole [OF g, of ints] n True
    have 2: "hole ?h2 (l @ [- ints]) (x + ints) (t - ints) r (f1 @ f2)"
      "changes {x, x + ints - 1} h1 ?h2" by auto
    from makeAvail_hole [OF 2(1)] True x0 n
    have 3: "hole ?h' (l @ [- ints] @ (t - ints) # r) (len ?h2) 0 [] ((x + ints) # f1 @ f2)"
      "changes ({x + ints ..< x + t} \<union> links (f1 @ f2)) ?h2 ?h'" by auto
    have ch: "changes (links (f1 @ f2) \<union> {x ..< x + t}) h ?h'"
      by (rule changes_mono [OF changes_trans [OF changes_trans [OF h1(3) 2(2)] 3(2)]])
         (use n True in auto)
    have "set ((x + ints) # f1 @ f2) = free_starts 0 (taken_tags ints l t r)"
      using d n True by (simp add: taken_tags_def)
    moreover have "no_adjacent (taken_tags ints l t r)"
      using adj d n True by (auto simp: taken_tags_def no_adjacent_append no_adjacent_Cons)
    moreover have "guarded (taken_tags ints l t r)"
      using hd_l d n True guarded_middle [of l r "[- ints, t - ints]"] by (simp add: taken_tags_def)
    ultimately have "heap_ok ?h' (taken_tags ints l t r) ((x + ints) # f1 @ f2)"
      using 3 2 h1 ok True by (intro heap_ok_closeI [OF _ _ _ _ ok]) (auto simp: taken_tags_def changes_def)
    moreover have "\<forall>y \<in> payload 0 ts. arr ?h' y = arr h y"
      using ch payload_outside [of _ l t r] payload_links [OF _ D(5) lk] d
      by (fastforce simp: changes_def)
    ultimately show ?thesis using True d h1 sz n ch unfolding changes_def by (intro exI conjI) (assumption | simp)+
  next
    case False
    let ?h' = "makeTaken x t h1"
    from makeTaken_hole [OF g, of t] d
    have 2: "hole ?h' (l @ [- t]) (x + t) 0 r (f1 @ f2)" "changes {x, x + t - 1} h1 ?h'" by auto
    have 3: "hole ?h' (l @ [- t] @ r) (len ?h') 0 [] (f1 @ f2)" using close_hole [OF 2(1)] by simp
    have ch: "changes (links (f1 @ f2) \<union> {x ..< x + t}) h ?h'"
      by (rule changes_mono [OF changes_trans [OF h1(3) 2(2)]]) (use d in auto)
    have "set (f1 @ f2) = free_starts 0 (taken_tags ints l t r)"
      using d False by (simp add: taken_tags_def)
    moreover have "no_adjacent (taken_tags ints l t r)"
      using adj d False by (auto simp: taken_tags_def no_adjacent_append no_adjacent_Cons)
    moreover have "guarded (taken_tags ints l t r)"
      using hd_l d False guarded_middle [of l r "[- t]"] by (simp add: taken_tags_def)
    ultimately have "heap_ok ?h' (taken_tags ints l t r) (f1 @ f2)"
      using 3 ch ok False by (intro heap_ok_closeI [OF _ _ _ _ ok]) (auto simp: taken_tags_def changes_def)
    moreover have "\<forall>y \<in> payload 0 ts. arr ?h' y = arr h y"
      using ch payload_outside [of _ l t r] payload_links [OF _ D(5) lk] d
      by (fastforce simp: changes_def)
    ultimately show ?thesis using False d h1 sz n ch unfolding changes_def by (intro exI conjI) (assumption | simp)+
  qed
qed

lemma avail_step:
  assumes ok: "heap_ok h ts (f1 @ x # f2)"
  shows "isAvail h x" "x \<noteq> 0" "get_next h x = Inr (hd0 f2)"
proof -
  note D = heap_okD [OF ok]
  show "isAvail h x" using hole_free_tag(1) [OF D(1), of x] by (simp add: isAvail_def)
  show "x \<noteq> 0" using D(9) by auto
  have "sanity h (hd0 f2) = Inr (hd0 f2)"
    using hole_free_tag(2) [OF D(1), of "hd0 f2"] by (cases f2) auto
  moreover have "arr h (x + 1) = hd0 f2" using D(1) dll_append by (auto simp: hole_def)
  ultimately show "get_next h x = Inr (hd0 f2)" by (simp add: get_next_def)
qed

lemma malloc_loop_skip:
  assumes "heap_ok h ts (f1 @ f2)" "length f2 \<le> fuel" "\<forall>x \<in> set f2. blk_size h x < ints"
  shows "malloc_loop fuel ints (hd0 f2) h = Inr (0, h)"
  using assms
proof (induction f2 arbitrary: f1 fuel)
  case Nil
  then show ?case by (cases fuel) auto
next
  case (Cons x f2)
  from Cons.prems(2) obtain k where k: "fuel = Suc k" "length f2 \<le> k" by (cases fuel) auto
  from Cons.IH [of "f1 @ [x]" k] Cons.prems k have "malloc_loop k ints (hd0 f2) h = Inr (0, h)" by simp
  with avail_step [OF Cons.prems(1)] Cons.prems(3) k show ?case by (auto simp: Let_def)
qed

lemma malloc_loop_found:
  assumes "heap_ok h ts (f1 @ g @ x # f2)" "length g < fuel" "\<forall>y \<in> set g. blk_size h y < ints"
    "ints \<le> blk_size h x"
  shows "malloc_loop fuel ints (hd0 (g @ x # f2)) h =
     bindE (remove_blk x h) (\<lambda>h1.
       let extra = blk_size h x - ints in
       if extra \<ge> 4 then Inr (x, makeAvail (x + ints) extra (makeTaken x ints h1))
       else Inr (x, makeTaken x (blk_size h x) h1))"
  using assms
proof (induction g arbitrary: f1 fuel)
  case Nil
  then obtain k where "fuel = Suc k" by (cases fuel) auto
  with avail_step [of h ts f1 x f2] Nil show ?case by (simp add: Let_def)
next
  case (Cons y g)
  from Cons.prems(2) obtain k where k: "fuel = Suc k" "length g < k" by (cases fuel) auto
  have 1: "heap_ok h ts ((f1 @ [y]) @ g @ x # f2)" using Cons.prems(1) by simp
  have 2: "get_next h y = Inr (hd0 (g @ x # f2))" "isAvail h y" "y \<noteq> 0"
    using avail_step [of h ts f1 y "g @ x # f2"] Cons.prems(1) by auto
  from Cons.IH [OF 1 k(2)] Cons.prems(3,4) 2 k show ?case by (simp add: Let_def)
qed

lemma ints_of_ge: "4 \<le> ints_of bytes"
  by (simp add: ints_of_def Let_def)

lemma sanity_avail: "heap_ok h ts fl \<Longrightarrow> sanity h (avail h) = Inr (avail h)"
  using heap_okD(1,7) [of h ts fl] hole_free_tag(2) [of h ts "len h" 0 "[]" fl "avail h"]
  by (cases fl) auto

text \<open>A request is refused exactly when no block of the list is large enough.\<close>

lemma malloc_full:
  assumes ok: "heap_ok h ts fl" and b: "bytes \<noteq> 0" and small: "\<forall>x \<in> set fl. blk_size h x < ints_of bytes"
  shows "malloc bytes h = Inl (Panic ''heap is full'')"
  using malloc_loop_skip [of h ts "[]" fl "nat (len h)" "ints_of bytes"] length_avail_list [OF ok]
    sanity_avail [OF ok] heap_okD(7) [OF ok] ok b small
  by (simp add: malloc_def)

lemma malloc_found:
  assumes ok: "heap_ok h ts fl" and b: "bytes \<noteq> 0"
    and f: "fl = g @ x # f2" "\<forall>y \<in> set g. blk_size h y < ints_of bytes" "ints_of bytes \<le> blk_size h x"
  shows "\<exists>h' fl' l t r. malloc bytes h = Inr (ptr_of h x, h') \<and> ts = l @ t # r \<and> x = span l
     \<and> 0 < t \<and> blk_size h x = t
     \<and> heap_ok h' (taken_tags (ints_of bytes) l t r) fl' \<and> base h' = base h \<and> len h' = len h
     \<and> (\<forall>y \<in> payload 0 ts. arr h' y = arr h y)"
proof -
  let ?n = "ints_of bytes"
  from take_block [OF ok, of x ?n] f ints_of_ge obtain h1 h' fl' l t r where
    T: "ts = l @ t # r" "x = span l" "0 < t" "blk_size h x = t" "remove_blk x h = Inr h1"
      "h' = (if t - ?n \<ge> 4 then makeAvail (x + ?n) (t - ?n) (makeTaken x ?n h1) else makeTaken x t h1)"
      "heap_ok h' (taken_tags ?n l t r) fl'" "base h' = base h" "len h' = len h"
      "\<forall>y \<in> payload 0 ts. arr h' y = arr h y" by (metis in_set_conv_decomp)
  have "length g < nat (len h)" using length_avail_list [OF ok] f by simp
  with malloc_loop_found [of h ts "[]" g x f2 "nat (len h)" ?n] ok f T
  have "malloc_loop (nat (len h)) ?n (avail h) h = Inr (x, h')"
    using heap_okD(7) [OF ok] by (simp add: Let_def)
  moreover have "x \<noteq> 0" using heap_okD(9) [OF ok] f by auto
  ultimately have "malloc bytes h = Inr (ptr_of h x, h')"
    using sanity_avail [OF ok] b T(8) by (simp add: malloc_def ptr_of_def)
  with T show ?thesis by blast
qed

section \<open>free\<close>

text \<open>
  The tags after the block of \<open>n\<close> words between \<open>l\<close> and \<open>r\<close> was freed: it is merged with
  an available neighbour on either side.
\<close>

definition merge_right :: "int \<Rightarrow> int list \<Rightarrow> int list" where
  "merge_right n r = (if r \<noteq> [] \<and> hd r > 0 then (n + hd r) # tl r else n # r)"

definition freed_tags :: "int list \<Rightarrow> int \<Rightarrow> int list \<Rightarrow> int list" where
  "freed_tags l n r =
     (if l \<noteq> [] \<and> last l > 0 then butlast l @ merge_right (n + last l) r
      else l @ merge_right n r)"

lemma remove_start:
  assumes h: "hole h l i n r fl" and x: "x \<in> set fl"
  obtains h1 f1 f2 where "fl = f1 @ x # f2" "x \<notin> set (f1 @ f2)" "remove_blk x h = Inr h1"
    "hole h1 l i n r (f1 @ f2)" "changes (links fl) h h1"
proof -
  from split_list [OF x] obtain f1 f2 where f: "fl = f1 @ x # f2" by blast
  with remove_hole [of h l i n r f1 x f2] h obtain h1
    where "remove_blk x h = Inr h1" "hole h1 l i n r (f1 @ f2)" "changes (links (f1 @ f2)) h h1"
    by auto
  moreover have "changes (links fl) h h1"
    by (rule changes_mono [OF calculation(3) links_mono]) (use f in auto)
  moreover have "x \<notin> set (f1 @ f2)" using h f by (auto simp: hole_def)
  ultimately show ?thesis using that f by blast
qed

lemma free_left:
  assumes h: "hole h (l @ [s]) i n r fl" and fl: "set fl = free_starts 0 (l @ [s]) \<union> free_starts (i + n) r"
  shows "\<exists>i1 n1 h1 g l1. (if isAvail h (span l)
            then bindE (remove_blk (span l) h) (\<lambda>h1. Inr (span l, n + blk_size h1 (span l), h1))
            else Inr (i, n, h)) = Inr (i1, n1, h1)
     \<and> hole h1 l1 i1 n1 r g \<and> (l1, n1) = (if s > 0 then (l, n + s) else (l @ [s], n))
     \<and> i1 + n1 = i + n \<and> changes (links fl) h h1 \<and> set g = free_starts 0 l1 \<union> free_starts (i + n) r
     \<and> set g \<subseteq> set fl"
proof (cases "s > 0")
  case False
  then have "\<not> isAvail h (span l)" using h by (simp add: hole_def isAvail_def)
  with False h fl show ?thesis
    by (intro exI [of _ i] exI [of _ n] exI [of _ h] exI [of _ fl] exI [of _ "l @ [s]"]) simp
next
  case True
  have i: "i = span l + s" "0 \<le> n" using hole_bounds [OF h] h True by (auto simp: hole_def)
  have x: "span l \<in> set fl" using fl True by auto
  from remove_start [OF h x] obtain h1 f1 f2 where R: "fl = f1 @ span l # f2"
    "span l \<notin> set (f1 @ f2)" "remove_blk (span l) h = Inr h1" "hole h1 (l @ [s]) i n r (f1 @ f2)"
    "changes (links fl) h h1" by blast
  have "isAvail h (span l)" using h True by (simp add: hole_def isAvail_def)
  moreover have "blk_size h1 (span l) = s" using R(4) True by (simp add: hole_def blk_size_def)
  moreover have "hole h1 l (span l) (n + s) r (f1 @ f2)" by (rule open_left [OF R(4) True R(2)])
  moreover have "set (f1 @ f2) = free_starts 0 l \<union> free_starts (i + n) r"
  proof -
    have "big_free l" "big_free r" using h by (auto simp: hole_def)
    then have "span l \<notin> free_starts 0 l \<union> free_starts (i + n) r"
      using free_starts_bounds [of "span l" 0 l] free_starts_bounds [of "span l" "i + n" r] i True by auto
    moreover have "insert (span l) (set (f1 @ f2)) = insert (span l) (free_starts 0 l \<union> free_starts (i + n) r)"
      using fl R(1) True by auto
    ultimately show ?thesis using R(2) by (simp add: insert_ident)
  qed
  moreover have "set (f1 @ f2) \<subseteq> set fl" using R(1) by auto
  ultimately show ?thesis using True R(3,5) i
    by (intro exI [of _ "span l"] exI [of _ "n + s"] exI [of _ h1] exI [of _ "f1 @ f2"] exI [of _ l]) simp
qed

lemma free_right:
  assumes h: "hole h l i n r fl" and fl: "set fl = free_starts 0 l \<union> free_starts (i + n) r"
    and r: "r \<noteq> []"
  shows "\<exists>n2 h2 g r2. (if isAvail h (i + n)
            then bindE (remove_blk (i + n) h) (\<lambda>h2. Inr (n + blk_size h2 (i + n), h2))
            else Inr (n, h)) = Inr (n2, h2)
     \<and> hole h2 l i n2 r2 g \<and> n2 # r2 = merge_right n r \<and> n \<le> n2
     \<and> changes (links fl) h h2 \<and> set g = free_starts 0 l \<union> free_starts (i + n2) r2
     \<and> set g \<subseteq> set fl"
proof -
  from r obtain u r' where u: "r = u # r'" by (cases r) auto
  show ?thesis
  proof (cases "u > 0")
    case False
    then have "\<not> isAvail h (i + n)" using h u by (simp add: hole_def isAvail_def)
    with False h fl u show ?thesis
      by (intro exI [of _ n] exI [of _ h] exI [of _ fl] exI [of _ r]) (simp add: merge_right_def)
  next
    case True
    have x: "i + n \<in> set fl" using fl True u by auto
    from remove_start [OF h x] obtain h1 f1 f2 where R: "fl = f1 @ (i + n) # f2"
      "i + n \<notin> set (f1 @ f2)" "remove_blk (i + n) h = Inr h1" "hole h1 l i n r (f1 @ f2)"
      "changes (links fl) h h1" by blast
    have "isAvail h (i + n)" using h True u by (simp add: hole_def isAvail_def)
    moreover have "blk_size h1 (i + n) = u" using R(4) True u by (simp add: hole_def blk_size_def)
    moreover have "hole h1 l i (n + u) r' (f1 @ f2)"
      using open_right [of h1 l i n u r' "f1 @ f2"] R u True by simp
    moreover have "set (f1 @ f2) = free_starts 0 l \<union> free_starts (i + (n + u)) r'"
    proof -
      have "big_free l" "big_free r'" "0 \<le> n" "i = span l"
        using h u hole_bounds [OF h] by (auto simp: hole_def)
      then have "i + n \<notin> free_starts 0 l \<union> free_starts (i + n + u) r'"
        using free_starts_bounds [of "i + n" 0 l] free_starts_bounds [of "i + n" "i + n + u" r'] True by auto
      moreover have "insert (i + n) (set (f1 @ f2)) = insert (i + n) (free_starts 0 l \<union> free_starts (i + n + u) r')"
        using fl R(1) True u by auto
      ultimately show ?thesis using R(2) by (simp add: insert_ident add.assoc)
    qed
    moreover have "set (f1 @ f2) \<subseteq> set fl" using R(1) by auto
    ultimately show ?thesis using True R(3,5) u
      by (intro exI [of _ "n + u"] exI [of _ h1] exI [of _ "f1 @ f2"] exI [of _ r']) (simp add: merge_right_def)
  qed
qed

lemma merge_right_ok:
  assumes "no_adjacent (m # r)" "\<not> m > 0" "r \<noteq> []" "last r = -2" "0 < n"
  obtains n2 r2 where "merge_right n r = n2 # r2" "n \<le> n2" "r2 \<noteq> []" "last r2 = -2" "\<not> hd r2 > 0"
    "no_adjacent r2" "set (butlast r2) \<subseteq> set (butlast r)"
proof (cases "hd r > 0")
  case True
  with assms obtain u v vs where r: "r = u # v # vs" by (cases r rule: no_adjacent.cases) auto
  with assms True show ?thesis using that [of "n + u" "v # vs"]
    by (auto simp: merge_right_def split: if_splits)
next
  case False
  with assms show ?thesis using that [of n r] by (auto simp: merge_right_def no_adjacent_Cons)
qed

lemma freed_tags_ok:
  assumes g: "guarded (l @ t # r)" and a: "no_adjacent (l @ t # r)" and t: "t < 0"
    and lr: "l \<noteq> []" "r \<noteq> []"
  shows "guarded (freed_tags l (- t) r) \<and> no_adjacent (freed_tags l (- t) r)"
proof -
  obtain l' s where l: "l = l' @ [s]" using lr(1) by (cases l rule: rev_cases) auto
  have G: "hd l = -2" "last r = -2" "\<forall>t \<in> set (tl l) \<union> set (butlast r). 4 \<le> \<bar>t\<bar>" "4 \<le> - t"
    using g guarded_middle [OF lr, of "[t]"] t by auto
  have A: "no_adjacent l" "no_adjacent (t # r)" using a no_adjacent_append [of l "t # r"] by auto
  let ?l1 = "if s > 0 then l' else l" and ?n1 = "if s > 0 then - t + s else - t"
  have l1: "?l1 \<noteq> []" "hd ?l1 = -2" "\<not> last ?l1 > 0" "no_adjacent ?l1" "set (tl ?l1) \<subseteq> set (tl l)"
    using G(1) l A(1) no_adjacent_append [of l' "[s]"] by (cases l'; auto)+
  have "0 < ?n1" "4 \<le> ?n1" using G(4) by auto
  from merge_right_ok [OF A(2) _ lr(2) G(2) this(1)] t obtain n2 r2
    where R: "merge_right ?n1 r = n2 # r2" "?n1 \<le> n2" "r2 \<noteq> []" "last r2 = -2" "\<not> hd r2 > 0"
      "no_adjacent r2" "set (butlast r2) \<subseteq> set (butlast r)" by auto
  have F: "freed_tags l (- t) r = ?l1 @ [n2] @ r2" using l R(1) by (auto simp: freed_tags_def)
  have "guarded (?l1 @ [n2] @ r2)"
    unfolding guarded_middle [OF l1(1) R(3)] using l1 R G \<open>4 \<le> ?n1\<close> by auto
  moreover have "no_adjacent (?l1 @ [n2] @ r2)"
    unfolding no_adjacent_append using l1 R by auto
  ultimately show ?thesis unfolding F by blast
qed

lemma payload_freed:
  assumes "t < 0" "l \<noteq> []" "r \<noteq> []"
  shows "payload 0 (freed_tags l (- t) r) \<subseteq> payload 0 (l @ t # r)"
proof -
  obtain l' s where l: "l = l' @ [s]" using assms(2) by (cases l rule: rev_cases) auto
  obtain u r' where r: "r = u # r'" using assms(3) by (cases r) auto
  show ?thesis using assms(1) unfolding l r
    by (auto simp: freed_tags_def merge_right_def algebra_simps)
qed

lemma free_block:
  assumes ok: "heap_ok h (l @ t # r) fl" and t: "t < 0" and lr: "l \<noteq> []" "r \<noteq> []"
  shows "\<exists>h' fl'. free (ptr_of h (span l)) h = Inr h' \<and> heap_ok h' (freed_tags l (- t) r) fl'
     \<and> base h' = base h \<and> len h' = len h
     \<and> (\<forall>y \<in> payload 0 (freed_tags l (- t) r). arr h' y = arr h y)"
proof -
  note D = heap_okD [OF ok]
  obtain l' s where l: "l = l' @ [s]" using lr(1) by (cases l rule: rev_cases) auto
  have t4: "4 \<le> - t" using D(4) guarded_middle [OF lr, of "[t]"] t by auto
  let ?i = "span l"
  have lay: "layout (arr h) 0 l ?i" "arr h ?i = t" "arr h (?i + - t - 1) = t"
    "layout (arr h) (?i + - t) r (len h)" using D(8) t by auto
  have lens: "0 < ?i" "?i + - t < len h"
    using layout_pos [OF lay(1) lr(1)] layout_pos [OF lay(4) lr(2)] layout_span [OF lay(4)] by auto
  have fl: "set fl = free_starts 0 l \<union> free_starts (?i + - t) r" using D(2) t by simp
  have ni: "?i \<notin> set fl"
    using fl D(5) free_starts_bounds [of ?i 0 l] free_starts_bounds [of ?i "?i + - t" r] t by auto
  have H0: "hole h (l' @ [s]) ?i (- t) r fl" using open_block [OF D(1) ni] t l by simp
  have left: "left_blk h ?i = Inr (span l')"
  proof -
    have s: "2 \<le> \<bar>s\<bar>" "arr h (span l') = s" "arr h (span l' + \<bar>s\<bar> - 1) = s" using lay(1) l by auto
    then have "sanity h (span l') = Inr (span l')"
      using lens l t span_nonneg [of l'] by (intro sanity_tag) auto
    with s l show ?thesis by (simp add: left_blk_def headerFromFooter_def blk_size_def)
  qed
  have right: "right_blk h ?i = Inr (?i + - t)"
  proof -
    obtain u r' where r: "r = u # r'" using lr(2) by (cases r) auto
    then have "2 \<le> \<bar>u\<bar>" "arr h (?i + - t) = u" "arr h (?i + - t + \<bar>u\<bar> - 1) = u"
      "?i + - t + \<bar>u\<bar> \<le> len h"
      using lay(4) layout_span [of "arr h" "?i + - t + \<bar>u\<bar>" r' "len h"] span_nonneg [of r'] by auto
    then have "sanity h (?i + - t) = Inr (?i + - t)" using lens t by (intro sanity_tag) auto
    with lay t show ?thesis by (simp add: right_blk_def blk_size_def)
  qed
  have san: "sanity h ?i = Inr ?i" using lens lay t t4 by (intro sanity_tag) auto
  from free_left [OF H0] fl l obtain i1 n1 h1 g l1 where L:
    "(if isAvail h (span l') then bindE (remove_blk (span l') h) (\<lambda>h1. Inr (span l', - t + blk_size h1 (span l'), h1))
      else Inr (?i, - t, h)) = Inr (i1, n1, h1)"
    "hole h1 l1 i1 n1 r g" "(l1, n1) = (if s > 0 then (l', - t + s) else (l' @ [s], - t))"
    "i1 + n1 = ?i + - t" "changes (links fl) h h1" "set g = free_starts 0 l1 \<union> free_starts (?i + - t) r"
    "set g \<subseteq> set fl" by blast
  have g: "set g = free_starts 0 l1 \<union> free_starts (i1 + n1) r" using L(4,6) by simp
  from free_right [OF L(2) g lr(2)] obtain n2 h2 g2 r2 where R:
    "(if isAvail h1 (i1 + n1) then bindE (remove_blk (i1 + n1) h1) (\<lambda>h2. Inr (n1 + blk_size h2 (i1 + n1), h2))
      else Inr (n1, h1)) = Inr (n2, h2)"
    "hole h2 l1 i1 n2 r2 g2" "n2 # r2 = merge_right n1 r" "n1 \<le> n2" "changes (links g) h1 h2"
    "set g2 = free_starts 0 l1 \<union> free_starts (i1 + n2) r2" "set g2 \<subseteq> set g" by blast
  have tags: "freed_tags l (- t) r = l1 @ n2 # r2"
    using L(3) R(3) l by (auto simp: freed_tags_def split: if_splits)
  note G = freed_tags_ok [OF D(4,3) t lr, unfolded tags]
  have l1: "l1 \<noteq> []" using L(3) l D(4) t by (cases l') (auto simp: guarded_def split: if_splits)
  have i1: "i1 = span l1" "0 < i1"
    using hole_bounds [OF R(2)] layout_pos [of "arr h2" 0 l1 i1] l1 R(2) by (auto simp: hole_def)
  have n4: "4 \<le> n2" using R(4) L(3) t4 by (auto split: if_splits)
  let ?h' = "makeAvail i1 n2 h2"
  have M: "hole ?h' (l1 @ n2 # r2) (len h2) 0 [] (i1 # g2)"
    "changes ({i1 ..< i1 + n2} \<union> links g2) h2 ?h'"
    using makeAvail_hole [OF R(2) n4 i1(2)] by auto
  have ch: "changes ({i1 ..< i1 + n2} \<union> links fl) h ?h'"
    by (rule changes_mono [OF changes_trans [OF changes_trans [OF L(5) R(5)] M(2)]])
       (use links_mono [OF L(7)] links_mono [OF subset_trans [OF R(7) L(7)]] in blast)
  have "heap_ok ?h' (l1 @ n2 # r2) (i1 # g2)"
  proof (rule heap_ok_closeI [OF _ _ _ _ ok])
    show "set (i1 # g2) = free_starts 0 (l1 @ n2 # r2)" using R(6) i1 n4 by auto
  qed (use M ch G L(5) R(5) in \<open>auto simp: changes_def\<close>)
  moreover have "free (ptr_of h ?i) h = Inr ?h'"
  proof -
    have bs: "blk_size h ?i = - t" "isTaken h ?i" using lay t by (simp_all add: blk_size_def isTaken_def)
    have ptr: "idx_of h (ptr_of h ?i) = ?i" "ptr_of h ?i \<noteq> 0" "ptr_of h ?i \<noteq> base h"
      using idx_of_ptr [of ?i h] lens t4 D(11,12) by simp_all
    show ?thesis
      using ptr bs(2)
      by (simp only: free_def Let_def san bs(1) left right bindE.simps if_False if_True
          not_True_eq_False L(1) prod.case R(1) [unfolded L(4)])
  qed
  moreover have "\<forall>y \<in> payload 0 (l1 @ n2 # r2). arr ?h' y = arr h y"
  proof
    fix y assume y: "y \<in> payload 0 (l1 @ n2 # r2)"
    then have "y < i1 \<or> i1 + n2 < y" using payload_outside [of y l1 n2 r2] n4 i1 by auto
    moreover have "y \<notin> links fl"
      using y payload_freed [OF t lr] tags D(2,5) by (intro payload_links [of y "l @ t # r"]) auto
    ultimately show "arr ?h' y = arr h y" using ch by (auto simp: changes_def)
  qed
  ultimately show ?thesis using ch tags unfolding changes_def by (intro exI conjI) (assumption | simp)+
qed

section \<open>Clients of the heap\<close>

text \<open>The starts of the taken blocks; the two guards at the ends belong to nobody.\<close>

fun taken_starts :: "int \<Rightarrow> int list \<Rightarrow> int set" where
  "taken_starts i [] = {}"
| "taken_starts i (t # ts) = (if t < 0 then {i} else {}) \<union> taken_starts (i + \<bar>t\<bar>) ts"

definition client_blocks :: "int list \<Rightarrow> int set" where
  "client_blocks ts = taken_starts 0 ts - {0, span ts - 2}"

lemma taken_starts_append [simp]:
  "taken_starts i (ts @ us) = taken_starts i ts \<union> taken_starts (i + span ts) us"
  by (induction ts arbitrary: i) (auto simp: add.assoc)

lemma taken_starts_bounds:
  "x \<in> taken_starts i ts \<Longrightarrow> \<forall>t \<in> set ts. 2 \<le> \<bar>t\<bar> \<Longrightarrow> i \<le> x \<and> x + 2 \<le> i + span ts"
proof (induction ts arbitrary: i)
  case (Cons t ts)
  show ?case
  proof (cases "x \<in> taken_starts (i + \<bar>t\<bar>) ts")
    case True
    with Cons.IH [OF True] Cons.prems show ?thesis by auto
  next
    case False
    with Cons.prems show ?thesis using span_nonneg [of ts] by (auto split: if_splits)
  qed
qed simp

lemma taken_starts_split:
  "x \<in> taken_starts i ts \<Longrightarrow> \<exists>l t r. ts = l @ t # r \<and> t < 0 \<and> x = i + span l"
proof (induction ts arbitrary: i)
  case (Cons s ts)
  show ?case
  proof (cases "x \<in> taken_starts (i + \<bar>s\<bar>) ts")
    case True
    with Cons.IH [OF True] obtain l t r where "s # ts = (s # l) @ t # r \<and> t < 0 \<and> x = i + span (s # l)"
      by auto
    then show ?thesis by blast
  next
    case False
    with Cons.prems have "s # ts = [] @ s # ts \<and> s < 0 \<and> x = i + span []" by (auto split: if_splits)
    then show ?thesis by blast
  qed
qed simp

lemma layout_tags_ge2: "layout a i ts e \<Longrightarrow> \<forall>t \<in> set ts. 2 \<le> \<bar>t\<bar>"
  by (induction ts arbitrary: i) auto

lemma client_block_split:
  assumes "heap_ok h ts fl" "x \<in> client_blocks ts"
  obtains l t r where "ts = l @ t # r" "t < 0" "x = span l" "l \<noteq> []" "r \<noteq> []"
proof -
  from assms(2) taken_starts_split [of x 0 ts] obtain l t r
    where d: "ts = l @ t # r" "t < 0" "x = span l" by (auto simp: client_blocks_def)
  with assms have "l \<noteq> []" "r \<noteq> []"
    using heap_okD(4) [OF assms(1)] by (auto simp: client_blocks_def guarded_def)
  with d that show ?thesis by blast
qed

lemma client_block_bounds:
  assumes "heap_ok h ts fl" "x \<in> client_blocks ts"
  shows "0 \<le> x \<and> x + 1 < len h"
  using assms taken_starts_bounds [of x 0 ts] layout_tags_ge2 [OF heap_okD(8) [OF assms(1)]]
    heap_okD(10) [OF assms(1)]
  by (auto simp: client_blocks_def)

text \<open>A successful request adds one block to the client's, a release takes one away.\<close>

lemma client_blocks_taken:
  assumes "heap_ok h (l @ t # r) fl" "0 < t" "4 \<le> n"
  shows "client_blocks (taken_tags n l t r) = insert (span l) (client_blocks (l @ t # r))"
    "span l \<notin> client_blocks (l @ t # r)"
proof -
  note D = heap_okD [OF assms(1)]
  have ge2: "\<forall>t \<in> set l. 2 \<le> \<bar>t\<bar>" "\<forall>t \<in> set r. 2 \<le> \<bar>t\<bar>" using layout_tags_ge2 [OF D(8)] by auto
  have "l \<noteq> []" "r \<noteq> []" using guarded_ends [OF D(4) assms(2)] by auto
  then have lr: "0 < span l" "2 \<le> span r"
    using layout_pos [of "arr h" 0 l "span l"] D(8) ge2(2) span_nonneg [of "tl r"] by (auto, cases r, auto)
  have b: "4 \<le> t" using D(5) assms(2) by simp
  show "client_blocks (taken_tags n l t r) = insert (span l) (client_blocks (l @ t # r))"
    using assms(2,3) b lr by (auto simp: client_blocks_def taken_tags_def)
  show "span l \<notin> client_blocks (l @ t # r)"
    using taken_starts_bounds [OF _ ge2(1), of "span l" 0] taken_starts_bounds [OF _ ge2(2), of "span l" "span l + t"]
      assms(2) by (auto simp: client_blocks_def)
qed

lemma client_blocks_freed:
  assumes "heap_ok h (l @ t # r) fl" "t < 0" "l \<noteq> []" "r \<noteq> []"
  shows "client_blocks (freed_tags l (- t) r) = client_blocks (l @ t # r) - {span l}"
proof -
  note D = heap_okD [OF assms(1)]
  have ge2: "\<forall>t \<in> set l. 2 \<le> \<bar>t\<bar>" "\<forall>t \<in> set r. 2 \<le> \<bar>t\<bar>" using layout_tags_ge2 [OF D(8)] by auto
  have n: "span l \<notin> taken_starts 0 l" "span l \<notin> taken_starts (span l - t) r"
    using taken_starts_bounds [OF _ ge2(1), of "span l" 0]
      taken_starts_bounds [OF _ ge2(2), of "span l" "span l - t"] assms(2) by auto
  obtain l' s where l: "l = l' @ [s]" using assms(3) by (cases l rule: rev_cases) auto
  obtain u r' where r: "r = u # r'" using assms(4) by (cases r) auto
  have "taken_starts 0 (freed_tags l (- t) r) = taken_starts 0 l \<union> taken_starts (span l - t) r"
    using assms(2) unfolding l r by (auto simp: freed_tags_def merge_right_def algebra_simps)
  moreover have "span (freed_tags l (- t) r) = span (l @ t # r)"
    using assms(2) unfolding l r by (auto simp: freed_tags_def merge_right_def)
  ultimately show ?thesis using n assms(2) by (auto simp: client_blocks_def)
qed

lemma ptr_of_inj:
  assumes "heap_ok h ts fl" "x \<in> client_blocks ts" "y \<in> client_blocks ts" "ptr_of h x = ptr_of h y"
  shows "x = y"
proof -
  note D = heap_okD [OF assms(1)]
  have "idx_of h (ptr_of h z) = z" if "z \<in> client_blocks ts" for z
    using client_block_bounds [OF assms(1) that] by (intro idx_of_ptr(1) [OF _ _ D(11,12)]) auto
  from this [OF assms(2)] this [OF assms(3)] assms(4) show ?thesis by metis
qed

lemma ptr_of_base: "base h' = base h \<Longrightarrow> ptr_of h' = ptr_of h"
  by (simp add: fun_eq_iff ptr_of_def)

definition client_holds :: "heap \<Rightarrow> u32 list \<Rightarrow> bool" where
  "client_holds h ps \<longleftrightarrow>
     (\<exists>ts fl. heap_ok h ts fl \<and> distinct ps \<and> set ps = ptr_of h ` client_blocks ts)"

lemma malloc_cases:
  assumes ok: "heap_ok h ts fl" and b: "bytes \<noteq> 0"
  shows "case List.find (\<lambda>x. ints_of bytes \<le> blk_size h x) fl of
      None \<Rightarrow> malloc bytes h = Inl (Panic ''heap is full'')
    | Some x \<Rightarrow> (\<exists>h' fl' l t r. malloc bytes h = Inr (ptr_of h x, h') \<and> ts = l @ t # r
        \<and> x = span l \<and> 0 < t \<and> blk_size h x = t \<and> heap_ok h' (taken_tags (ints_of bytes) l t r) fl'
        \<and> base h' = base h \<and> len h' = len h \<and> (\<forall>y \<in> payload 0 ts. arr h' y = arr h y))"
proof (cases "List.find (\<lambda>x. ints_of bytes \<le> blk_size h x) fl")
  case None
  then have "\<forall>x \<in> set fl. blk_size h x < ints_of bytes" by (auto simp: find_None_iff)
  with malloc_full [OF ok b] None show ?thesis by simp
next
  case (Some x)
  then obtain i where i: "i < length fl" "x = fl ! i" "ints_of bytes \<le> blk_size h x"
    "\<forall>j < i. \<not> ints_of bytes \<le> blk_size h (fl ! j)" by (auto simp: find_Some_iff)
  then have "fl = take i fl @ x # drop (Suc i) fl" by (simp add: id_take_nth_drop)
  moreover have "\<forall>y \<in> set (take i fl). blk_size h y < ints_of bytes"
    using i by (auto simp: in_set_conv_nth not_le)
  ultimately show ?thesis using malloc_found [OF ok b _ _ i(3)] Some by simp
qed

lemma malloc_outcome:
  assumes "heap_ok h ts fl"
  shows "malloc bytes h = Inl (Panic ''heap is full'') \<or> (\<exists>p h'. malloc bytes h = Inr (p, h'))"
proof (cases "bytes = 0")
  case False
  show ?thesis
  proof (cases "List.find (\<lambda>x. ints_of bytes \<le> blk_size h x) fl")
    case None
    with malloc_cases [OF assms False] show ?thesis by simp
  next
    case (Some x)
    with malloc_cases [OF assms False] show ?thesis by auto
  qed
qed (simp add: malloc_def)

lemma malloc_Inr:
  assumes "heap_ok h ts fl" "bytes \<noteq> 0" "malloc bytes h = Inr (p, h')"
  obtains l t r fl' where "p = ptr_of h (span l)" "ts = l @ t # r" "0 < t" "ints_of bytes \<le> t"
    "heap_ok h' (taken_tags (ints_of bytes) l t r) fl'" "base h' = base h"
proof -
  let ?n = "ints_of bytes"
  from malloc_cases [OF assms(1,2)] assms(3) obtain x where
    x: "List.find (\<lambda>x. ?n \<le> blk_size h x) fl = Some x" by (cases "List.find (\<lambda>x. ?n \<le> blk_size h x) fl") auto
  then have "?n \<le> blk_size h x" by (auto simp: find_Some_iff)
  with malloc_cases [OF assms(1,2)] x assms(3) that show thesis by auto
qed

lemma client_holds_malloc:
  assumes c: "client_holds h ps" and b: "bytes \<noteq> 0" and m: "malloc bytes h = Inr (p, h')"
  shows "client_holds h' (p # ps)"
proof -
  from c obtain ts fl where ok: "heap_ok h ts fl" and ps: "distinct ps" "set ps = ptr_of h ` client_blocks ts"
    by (auto simp: client_holds_def)
  from malloc_Inr [OF ok b m] obtain l t r fl' where M: "p = ptr_of h (span l)" "ts = l @ t # r"
    "0 < t" "ints_of bytes \<le> t" "heap_ok h' (taken_tags (ints_of bytes) l t r) fl'" "base h' = base h" .
  note C = client_blocks_taken [OF ok [unfolded M(2)] M(3) ints_of_ge [of bytes]]
  have "p \<notin> set ps"
  proof
    assume "p \<in> set ps"
    with ps M(1) obtain y where "y \<in> client_blocks ts" "ptr_of h (span l) = ptr_of h y" by auto
    with C M ptr_of_inj [OF M(5), of "span l" y] ptr_of_base [OF M(6)] show False by auto
  qed
  moreover have "set (p # ps) = ptr_of h' ` client_blocks (taken_tags (ints_of bytes) l t r)"
    using ps M C ptr_of_base [OF M(6)] by simp
  ultimately show ?thesis using M(5) ps(1) unfolding client_holds_def by auto
qed

lemma client_holds_free:
  assumes c: "client_holds h ps" and p: "p \<in> set ps"
  shows "\<exists>h'. free p h = Inr h' \<and> client_holds h' (remove1 p ps)"
proof -
  from c obtain ts fl where ok: "heap_ok h ts fl" and ps: "distinct ps" "set ps = ptr_of h ` client_blocks ts"
    by (auto simp: client_holds_def)
  from p ps obtain x where x: "x \<in> client_blocks ts" "p = ptr_of h x" by auto
  from client_block_split [OF ok x(1)] obtain l t r
    where d: "ts = l @ t # r" "t < 0" "x = span l" "l \<noteq> []" "r \<noteq> []" by metis
  from free_block [OF ok [unfolded d(1)] d(2,4,5)] d(3) x(2) obtain h' fl'
    where F: "free p h = Inr h'" "heap_ok h' (freed_tags l (- t) r) fl'" "base h' = base h" by auto
  have "client_blocks (freed_tags l (- t) r) = client_blocks ts - {x}"
    using client_blocks_freed [OF ok [unfolded d(1)] d(2,4,5)] d by simp
  moreover have "ptr_of h ` (client_blocks ts - {x}) = ptr_of h ` client_blocks ts - {p}"
    using ptr_of_inj [OF ok _ x(1)] x by auto
  ultimately have "set (remove1 p ps) = ptr_of h' ` client_blocks (freed_tags l (- t) r)"
    using ps ptr_of_base [OF F(3)] by (simp add: set_remove1_eq)
  then have "client_holds h' (remove1 p ps)"
    using F(2) ps(1) unfolding client_holds_def by (meson distinct_remove1)
  with F show ?thesis by blast
qed

lemma heap_init_layout:
  assumes "32 \<le> uint bytes" "0 < b" "uint b + uint bytes \<le> 2 ^ 32"
  shows "heap_ok (heap_init b m bytes) [-2, uint bytes div 4 - 4, -2] [2]"
proof -
  define n where "n = uint bytes div 4"
  have n: "8 \<le> n" "4 * n \<le> uint bytes" using assms(1) by (simp_all add: n_def)
  let ?a = "m(0 := -2, 1 := -2, 2 := n - 4, n - 3 := n - 4, 3 := 0, 4 := 0, n - 2 := -2, n - 1 := -2)"
  have h: "heap_init b m bytes = \<lparr>base = b, arr = ?a, len = n, avail = 2\<rparr>"
    using n by (simp add: heap_init_def makeTaken_eq makeAvail_eq Let_def uint_div n_def)
  have "layout ?a 0 [-2, n - 4, -2] n" using n by auto
  moreover have "dll ?a 0 [2]" using n by simp
  ultimately show ?thesis
    using n assms unfolding h n_def [symmetric] heap_ok_def hole_def guarded_def by auto
qed

lemma ints_of_enough: "uint bytes \<le> 2 ^ 32 - 4 \<Longrightarrow> uint bytes \<le> 4 * (ints_of bytes - 2)"
proof -
  assume b: "uint bytes \<le> 2 ^ 32 - 4"
  have "uint (bytes + 3) = uint bytes + 3"
    using b by (simp add: uint_word_ariths)
  then have "uint ((bytes + 3) div 4) = (uint bytes + 3) div 4" by (simp add: uint_div)
  moreover have "0 \<le> (uint bytes + 3) div 4 + 2" "(uint bytes + 3) div 4 + 2 < 2 ^ 32"
    using b by (simp_all add: pos_imp_zdiv_nonneg_iff add_nonneg_nonneg)
  ultimately have "uint ((bytes + 3) div 4 + 2) = (uint bytes + 3) div 4 + 2"
    by (simp add: uint_word_ariths mod_pos_pos_trivial)
  moreover have "uint bytes \<le> 4 * (max 4 ((uint bytes + 3) div 4 + 2) - 2)" by presburger
  ultimately show ?thesis by (simp add: ints_of_def Let_def max_def split: if_splits)
qed

lemma taken_payload:
  assumes "layout a 0 (taken_tags n l t r) e" "4 \<le> n" "n \<le> t"
  shows "{span l <..< span l + \<bar>a (span l)\<bar> - 1} \<subseteq> payload 0 (taken_tags n l t r)"
    "n \<le> \<bar>a (span l)\<bar>" "\<bar>a (span l)\<bar> \<le> t"
proof -
  have a: "a (span l) = (if t - n \<ge> 4 then - n else - t)"
    using assms by (auto simp: taken_tags_def split: if_splits)
  show "{span l <..< span l + \<bar>a (span l)\<bar> - 1} \<subseteq> payload 0 (taken_tags n l t r)"
    unfolding a using assms by (auto simp: taken_tags_def)
  show "n \<le> \<bar>a (span l)\<bar>" "\<bar>a (span l)\<bar> \<le> t" unfolding a using assms by auto
qed

text \<open>A concrete heap of 4096 bytes at \<open>0x1000\<close>, for the witnesses.\<close>

definition small_heap :: heap where
  "small_heap = heap_init 0x1000 (\<lambda>_. 0) 4096"

lemma small_heap_ok: "heap_ok small_heap [-2, 1020, -2] [2]"
  using heap_init_layout [of 4096 "0x1000" "\<lambda>_. 0"] by (simp add: small_heap_def)

lemma small_heap_search:
  "ints_of 100 = 27" "blk_size small_heap 2 = 1020" "ptr_of small_heap 2 = 0x100C"
  "List.find (\<lambda>x. 27 \<le> blk_size small_heap x) [2] = Some 2"
  by (simp_all add: ints_of_def blk_size_def ptr_of_def small_heap_def heap_init_def makeTaken_eq
      makeAvail_eq Let_def)

lemma small_heap_malloc:
  "\<exists>h' fl'. malloc 100 small_heap = Inr (0x100C, h') \<and> heap_ok h' [-2, -27, 993, -2] fl'"
proof -
  have "100 \<noteq> (0 :: u32)" by simp
  from malloc_cases [OF small_heap_ok this, unfolded small_heap_search option.case]
  obtain h' fl' l t r where m: "malloc 100 small_heap = Inr (0x100C, h')"
    and lt: "[-2, 1020, -2] = l @ t # r" and x: "2 = span l" "1020 = t"
    and ok': "heap_ok h' (taken_tags 27 l t r) fl'"
    by blast
  have "l = [-2] \<and> r = [-2]"
  proof (cases l)
    case Nil
    with lt x(2) show ?thesis by simp
  next
    case (Cons a l')
    with lt have a: "l = -2 # l'" and l': "[1020, -2] = l' @ t # r" by simp_all
    from l' x(2) a show ?thesis by (cases l'; cases "tl l'") auto
  qed
  then have "taken_tags 27 l t r = [-2, -27, 993, -2]"
    by (simp add: taken_tags_def x(2) [symmetric])
  with ok' m show ?thesis by auto
qed

section \<open>Properties\<close>

text \<open>
  \<^verbatim>\<open>Heap::init\<close> on at least 32 bytes that do not start at address 0 and do not wrap around
  the address space establishes the invariant of the heap: one available block between the two
  guards, whatever the memory held before.
\<close>

theorem heap_init_ok:
  assumes "32 \<le> uint bytes" and "0 < b" and "uint b + uint bytes \<le> 2 ^ 32"
  shows "heap_ok (heap_init b m bytes) [-2, uint bytes div 4 - 4, -2] [2]"
  by (rule heap_init_layout [OF assms])

theorem heap_init_ok_witness:
  "heap_ok (heap_init 0x100000 (\<lambda>_. 7) 0x100000) [-2, 262140, -2] [2]"
  using heap_init_ok [of "0x100000" "0x100000" "\<lambda>_. 7"] by simp

text \<open>
  C24. \<^verbatim>\<open>malloc\<close> is first fit: with the invariant it takes the first block of the available list
  that is large enough, splits it when at least four words remain, keeps the invariant and writes
  to no word that a client owns. When no block is large enough it panics with "heap is full", and
  this is the only way it fails; the search always ends.
\<close>

theorem malloc_first_fit:
  assumes "heap_ok h ts fl" and "bytes \<noteq> 0"
  shows "case List.find (\<lambda>x. ints_of bytes \<le> blk_size h x) fl of
      None \<Rightarrow> malloc bytes h = Inl (Panic ''heap is full'')
    | Some x \<Rightarrow> (\<exists>h' fl' l t r. malloc bytes h = Inr (ptr_of h x, h')
        \<and> ts = l @ t # r \<and> x = span l \<and> t = blk_size h x
        \<and> heap_ok h' (l @ (if t - ints_of bytes \<ge> 4 then [- ints_of bytes, t - ints_of bytes] else [- t]) @ r) fl'
        \<and> (\<forall>y \<in> payload 0 ts. arr h' y = arr h y))"
proof (cases "List.find (\<lambda>x. ints_of bytes \<le> blk_size h x) fl")
  case None
  with malloc_cases [OF assms] show ?thesis by simp
next
  case (Some x)
  with malloc_cases [OF assms] obtain h' fl' l t r where "malloc bytes h = Inr (ptr_of h x, h')"
    "ts = l @ t # r" "x = span l" "t = blk_size h x" "heap_ok h' (taken_tags (ints_of bytes) l t r) fl'"
    "\<forall>y \<in> payload 0 ts. arr h' y = arr h y" by auto
  then show ?thesis unfolding Some option.case taken_tags_def by blast
qed

theorem malloc_first_fit_witness: "\<exists>h'. malloc 100 small_heap = Inr (0x100C, h')"
  using malloc_first_fit [OF small_heap_ok, of 100] by (auto simp: small_heap_search)

text \<open>
  What \<^verbatim>\<open>malloc\<close> hands out is fresh and large enough: for a request of at most
  \<open>2 ^ 32 - 4\<close> bytes the words between the tags of the returned block belong to no block handed
  out before, and they hold the requested bytes.
\<close>

theorem malloc_separate:
  assumes "heap_ok h ts fl" and "bytes \<noteq> 0" and "uint bytes \<le> 2 ^ 32 - 4"
    and "malloc bytes h = Inr (p, h')"
  shows "\<exists>x ts' fl'. p = ptr_of h' x \<and> heap_ok h' ts' fl'
     \<and> {x <..< x + blk_size h' x - 1} \<subseteq> payload 0 ts' - payload 0 ts
     \<and> uint bytes \<le> 4 * (blk_size h' x - 2)"
proof -
  let ?n = "ints_of bytes"
  from malloc_Inr [OF assms(1,2,4)] obtain l t r fl' where M: "p = ptr_of h (span l)" "ts = l @ t # r"
    "0 < t" "?n \<le> t" "heap_ok h' (taken_tags ?n l t r) fl'" "base h' = base h" .
  let ?x = "span l"
  note P = taken_payload [OF heap_okD(8) [OF M(5)] ints_of_ge M(4)]
  have "y \<notin> payload 0 ts" if "y \<in> {?x <..< ?x + blk_size h' ?x - 1}" for y
    using that payload_outside [of y l t r] M P(3) by (auto simp: blk_size_def)
  moreover have "uint bytes \<le> 4 * (blk_size h' ?x - 2)"
    using ints_of_enough [OF assms(3)] P(2) by (simp add: blk_size_def)
  moreover have "p = ptr_of h' ?x" using M(1) ptr_of_base [OF M(6)] by simp
  ultimately show ?thesis using P(1) M(5) unfolding blk_size_def blk_abs_eq by blast
qed

theorem malloc_separate_witness:
  "\<exists>p h' x ts' fl'. malloc 100 small_heap = Inr (p, h') \<and> p = ptr_of h' x
     \<and> heap_ok h' ts' fl' \<and> 100 \<le> 4 * (blk_size h' x - 2)"
proof -
  obtain h' where m: "malloc 100 small_heap = Inr (0x100C, h')" using small_heap_malloc by blast
  from malloc_separate [OF small_heap_ok _ _ m] m show ?thesis by (simp; blast)
qed

text \<open>
  The size computation of \<^verbatim>\<open>malloc\<close> wraps around: a request of more than \<open>2 ^ 32 - 4\<close> bytes
  is served like one of 8 bytes, with a block of four words, instead of being refused.
\<close>

theorem malloc_size_wraps:
  assumes "2 ^ 32 - 4 < uint bytes"
  shows "ints_of bytes = 4 \<and> malloc bytes h = malloc 8 h"
proof -
  have "uint bytes = uint (4294967293 :: u32) \<or> uint bytes = uint (4294967294 :: u32)
      \<or> uint bytes = uint (4294967295 :: u32)"
    using assms uint_lt2p [of bytes] by simp linarith
  then have "bytes = 4294967293 \<or> bytes = 4294967294 \<or> bytes = 4294967295"
    unfolding word_uint_eq_iff .
  then have "bytes + 3 = 0 \<or> bytes + 3 = 1 \<or> bytes + 3 = 2" by auto
  then have "(bytes + 3) div 4 = 0" by (elim disjE) (simp_all only:, simp_all)
  then have "ints_of bytes = 4" by (simp add: ints_of_def)
  moreover have "ints_of 8 = 4" by (simp add: ints_of_def)
  moreover have "bytes \<noteq> 0" using assms by auto
  ultimately show ?thesis by (simp add: malloc_def)
qed

theorem malloc_size_wraps_witness: "malloc 0xFFFFFFFF small_heap = malloc 8 small_heap"
  using malloc_size_wraps [of "0xFFFFFFFF"] by simp

text \<open>
  C25. \<^verbatim>\<open>free\<close> of a block a client holds never panics: it merges the block with the available
  neighbours on both sides, so that again no two available blocks are neighbours, keeps the
  invariant, and leaves every word of the remaining taken blocks as it was.
\<close>

theorem free_coalesces:
  assumes "heap_ok h (l @ t # r) fl" and "t < 0" and "l \<noteq> []" and "r \<noteq> []"
  shows "\<exists>h' fl'. free (ptr_of h (span l)) h = Inr h'
     \<and> heap_ok h' (freed_tags l (- t) r) fl' \<and> no_adjacent (freed_tags l (- t) r)
     \<and> (\<forall>y \<in> payload 0 (freed_tags l (- t) r). arr h' y = arr h y)"
  using free_block [OF assms] freed_tags_ok [OF heap_okD(4,3) [OF assms(1)] assms(2-4)] by blast

theorem free_coalesces_witness:
  "\<exists>h h' fl'. free (ptr_of h 2) h = Inr h' \<and> heap_ok h' [-2, 1020, -2] fl'"
proof -
  obtain h fl where "heap_ok h ([-2] @ (-27) # [993, -2]) fl" using small_heap_malloc by auto
  from free_coalesces [OF this] show ?thesis by (auto simp: freed_tags_def merge_right_def)
qed

text \<open>
  \<^verbatim>\<open>free\<close> undoes \<^verbatim>\<open>malloc\<close>: freeing the block just allocated brings back exactly the
  blocks there were, whether or not the block had been split.
\<close>

theorem malloc_free_roundtrip:
  assumes "heap_ok h ts fl" and "bytes \<noteq> 0" and "malloc bytes h = Inr (p, h')"
  shows "\<exists>h'' fl''. free p h' = Inr h'' \<and> heap_ok h'' ts fl''"
proof -
  let ?n = "ints_of bytes"
  from malloc_Inr [OF assms] obtain l t r fl' where M0: "p = ptr_of h (span l)" "ts = l @ t # r"
    "0 < t" "?n \<le> t" "heap_ok h' (taken_tags ?n l t r) fl'" "base h' = base h" .
  then have M: "p = ptr_of h' (span l)" using ptr_of_base [OF M0(6)] by simp
  note D = heap_okD [OF assms(1)]
  have lr: "l \<noteq> []" "r \<noteq> []" using guarded_ends [of l t r] D(4) M0(2,3) by auto
  have adj: "\<not> last l > 0" "\<not> hd r > 0"
    using D(3) M0(2,3) lr by (auto simp: no_adjacent_append no_adjacent_Cons)
  show ?thesis
  proof (cases "t - ?n \<ge> 4")
    case True
    with M0(5) have "heap_ok h' (l @ (- ?n) # (t - ?n) # r) fl'" by (simp add: taken_tags_def)
    from free_block [OF this] ints_of_ge [of bytes] lr adj True M M0(2-4) show ?thesis
      by (auto simp: freed_tags_def merge_right_def)
  next
    case False
    with M0(5) have "heap_ok h' (l @ (- t) # r) fl'" by (simp add: taken_tags_def)
    from free_block [OF this] lr adj M M0(2-4) show ?thesis by (auto simp: freed_tags_def merge_right_def)
  qed
qed

theorem malloc_free_roundtrip_witness:
  "\<exists>p h' h'' fl''. malloc 100 small_heap = Inr (p, h') \<and> free p h' = Inr h''
     \<and> heap_ok h'' [-2, 1020, -2] fl''"
proof -
  obtain h' where m: "malloc 100 small_heap = Inr (0x100C, h')" using small_heap_malloc by blast
  from malloc_free_roundtrip [OF small_heap_ok _ m] m show ?thesis by (simp; blast)
qed

text \<open>
  C3. Whatever sequence of allocations and releases a client has made since \<^verbatim>\<open>Heap::init\<close>, the
  pointers it holds are distinct, releasing any of them succeeds, and an allocation either succeeds
  or panics because the heap is full: no interleaving runs into the sanity checks of the heap or
  into an endless search.
\<close>

theorem heap_run_safe:
  assumes "32 \<le> uint n" and "0 < b" and "uint b + uint n \<le> 2 ^ 32"
    and "heap_run (heap_init b m n) h ps"
  shows "distinct ps \<and> (\<forall>p \<in> set ps. \<exists>h'. free p h = Inr h')
     \<and> (\<forall>bytes. malloc bytes h = Inl (Panic ''heap is full'') \<or> (\<exists>p h'. malloc bytes h = Inr (p, h')))"
proof -
  have "client_holds (heap_init b m n) []"
  proof -
    have "client_blocks [-2, uint n div 4 - 4, -2] = {}"
      using assms(1) by (auto simp: client_blocks_def)
    with heap_init_layout [OF assms(1-3)] show ?thesis unfolding client_holds_def by force
  qed
  with assms(4) have c: "client_holds h ps"
  proof (induction rule: heap_run.induct)
    case (release h ps p h')
    then show ?case using client_holds_free [of h ps p] by auto
  qed (auto intro: client_holds_malloc)
  then obtain ts fl where ok: "heap_ok h ts fl" and d: "distinct ps" by (auto simp: client_holds_def)
  with client_holds_free [OF c] malloc_outcome [OF ok] show ?thesis by blast
qed

theorem heap_run_safe_witness: "\<exists>h h'. heap_run small_heap h [0x100C] \<and> free 0x100C h = Inr h'"
proof -
  obtain h where "malloc 100 small_heap = Inr (0x100C, h)" using small_heap_malloc by blast
  then have "heap_run small_heap h [0x100C]" by (intro heap_run.alloc [OF heap_run.start]) auto
  with heap_run_safe [of 4096 "0x1000" "\<lambda>_. 0" h "[0x100C]"] show ?thesis
    by (auto simp: small_heap_def)
qed

end
