(* ===== verification/Block_Device.thy ===== *)
theory Block_Device
  imports Kernel_Prelude
begin

text \<open>
  \<^verbatim>\<open>kernel/block.h\<close>, \<^verbatim>\<open>kernel/block.cc\<close>, \<^verbatim>\<open>kernel/ide.h\<close> and
  \<^verbatim>\<open>kernel/ide.cc\<close>. A \<^verbatim>\<open>BlockDevice\<close> offers byte ranges on top of two virtual
  functions that transfer one block; the locale \<open>block_device\<close> is the contract of these two
  functions, and the lemmas proved in it say that the byte operations read and write the flat
  image of the device. \<^verbatim>\<open>IDE\<close> provides the two functions by port I/O; the drive itself is a
  parameter with its documented behaviour (LBA28 addressing) as the locale \<open>ata_drive\<close>.
\<close>

section \<open>The byte operations of block.cc\<close>

text \<open>
  \<open>bs\<close> is \<^verbatim>\<open>blockSize\<close>, \<open>rb\<close> and \<open>wb\<close> are \<^verbatim>\<open>readBlock\<close> and
  \<^verbatim>\<open>writeBlock\<close>, \<open>d\<close> the state of the device. A read returns the bytes it puts
  into the buffer.
\<close>

definition bd_min :: "u32 \<Rightarrow> u32 \<Rightarrow> u32" where
  "bd_min a b = (if a < b then a else b)"

definition bd_read :: "u32 \<Rightarrow> (u32 \<Rightarrow> u8 list) \<Rightarrow> u32 \<Rightarrow> u32 \<Rightarrow> fault + (u8 list \<times> u32)" where
  "bd_read bs rb offset n =
     (if bs = 0 then Inl DivZero
      else
        (let sector = offset div bs;
             data = rb sector;
             dataOffset = offset - sector * bs;
             m = bd_min n (bs - dataOffset)
         in Inr (take (unat m) (drop (unat dataOffset) data), m)))"

definition bd_write :: "u32 \<Rightarrow> ('d \<Rightarrow> u32 \<Rightarrow> u8 list) \<Rightarrow> ('d \<Rightarrow> u32 \<Rightarrow> u8 list \<Rightarrow> 'd)
    \<Rightarrow> 'd \<Rightarrow> u32 \<Rightarrow> u8 list \<Rightarrow> u32 \<Rightarrow> fault + (u32 \<times> 'd)" where
  "bd_write bs rb wb d offset buf n =
     (if bs = 0 then Inl DivZero
      else
        (let sector = offset div bs;
             data = rb d sector;
             dataOffset = offset - sector * bs;
             m = bd_min n (bs - dataOffset);
             data' = splice (unat dataOffset) (take (unat m) buf) data
         in Inr (m, wb d sector data')))"

lemma dataOffset_mod: "(offset :: u32) - offset div bs * bs = offset mod bs"
  by (metis add_diff_cancel_left' div_mult_mod_eq)

lemma mod_less_word: "bs \<noteq> 0 \<Longrightarrow> (x :: u32) mod bs < bs"
  by (simp add: word_less_nat_alt unat_mod unat_gt_0)

lemma unat_sub_mod: "bs \<noteq> 0 \<Longrightarrow> unat (bs - (x :: u32) mod bs) = unat bs - unat x mod unat bs"
  using mod_less_word [of bs x] by (simp add: unat_sub word_le_nat_alt word_less_nat_alt unat_mod)

text \<open>The number of bytes one call transfers.\<close>

definition chunk :: "u32 \<Rightarrow> u32 \<Rightarrow> u32 \<Rightarrow> u32" where
  "chunk bs offset n = bd_min n (bs - offset mod bs)"

lemma unat_chunk:
  "bs \<noteq> 0 \<Longrightarrow> unat (chunk bs offset n) = min (unat n) (unat bs - unat offset mod unat bs)"
  by (auto simp: chunk_def bd_min_def min_def unat_sub_mod word_less_nat_alt not_less)

lemma chunk_bounds:
  assumes "bs \<noteq> 0" "n \<noteq> 0"
  shows "0 < unat (chunk bs offset n)" "unat (chunk bs offset n) \<le> unat n"
    "unat (n - chunk bs offset n) = unat n - unat (chunk bs offset n)"
    "unat (n - chunk bs offset n) < unat n"
proof -
  have bs: "0 < unat bs" "0 < unat n" using assms by (simp_all add: unat_gt_0)
  then show 1: "0 < unat (chunk bs offset n)" and 2: "unat (chunk bs offset n) \<le> unat n"
    by (simp_all add: unat_chunk [OF assms(1)])
  show 3: "unat (n - chunk bs offset n) = unat n - unat (chunk bs offset n)"
    using 2 by (simp add: unat_sub word_le_nat_alt)
  show "unat (n - chunk bs offset n) < unat n" unfolding 3 using 1 bs by simp
qed

lemma bd_read_chunk:
  "bs \<noteq> 0 \<Longrightarrow> bd_read bs rb offset n =
     Inr (take (unat (chunk bs offset n)) (drop (unat (offset mod bs)) (rb (offset div bs))),
          chunk bs offset n)"
  by (simp add: bd_read_def Let_def dataOffset_mod chunk_def)

lemma bd_write_chunk:
  "bs \<noteq> 0 \<Longrightarrow> bd_write bs rb wb d offset buf n =
     Inr (chunk bs offset n, wb d (offset div bs)
       (splice (unat (offset mod bs)) (take (unat (chunk bs offset n)) buf) (rb d (offset div bs))))"
  by (simp add: bd_write_def Let_def dataOffset_mod chunk_def)

lemma bd_read_faults: "bd_read 0 rb offset n = Inl DivZero"
  by (simp add: bd_read_def)

lemma bd_write_faults: "bd_write 0 rb wb d offset buf n = Inl DivZero"
  by (simp add: bd_write_def)

function bd_readFully :: "u32 \<Rightarrow> (u32 \<Rightarrow> u8 list) \<Rightarrow> u32 \<Rightarrow> u32 \<Rightarrow> fault + u8 list" where
  "bd_readFully bs rb offset togo =
     (if togo = 0 then Inr []
      else bindE (bd_read bs rb offset togo) (\<lambda>(xs, c).
             bindE (bd_readFully bs rb (offset + c) (togo - c)) (\<lambda>ys. Inr (xs @ ys))))"
  by pat_completeness auto
termination
proof (relation "measure (\<lambda>(bs, rb, offset, togo). unat togo)", goal_cases)
  case (2 bs rb offset togo r xs c)
  then have "bs \<noteq> 0" by (auto simp: bd_read_faults)
  with 2 show ?case using chunk_bounds(4) [of bs togo offset] by (auto simp: bd_read_chunk)
qed simp

function bd_writeFully :: "u32 \<Rightarrow> ('d \<Rightarrow> u32 \<Rightarrow> u8 list) \<Rightarrow> ('d \<Rightarrow> u32 \<Rightarrow> u8 list \<Rightarrow> 'd)
    \<Rightarrow> 'd \<Rightarrow> u32 \<Rightarrow> u8 list \<Rightarrow> u32 \<Rightarrow> fault + 'd" where
  "bd_writeFully bs rb wb d offset ptr togo =
     (if togo = 0 then Inr d
      else bindE (bd_write bs rb wb d offset ptr togo) (\<lambda>(c, d').
             bd_writeFully bs rb wb d' (offset + c) (drop (unat c) ptr) (togo - c)))"
  by pat_completeness auto
termination
proof (relation "measure (\<lambda>(bs, rb, wb, d, offset, ptr, togo). unat togo)", goal_cases)
  case (2 bs rb wb d offset ptr togo r c d')
  then have "bs \<noteq> 0" by (auto simp: bd_write_faults)
  with 2 show ?case using chunk_bounds(4) [of bs togo offset] by (auto simp: bd_write_chunk)
qed simp

declare bd_readFully.simps [simp del] bd_writeFully.simps [simp del]

section \<open>The contract of a block device\<close>

text \<open>The device as one flat array of bytes.\<close>

definition dev_byte :: "u32 \<Rightarrow> ('d \<Rightarrow> u32 \<Rightarrow> u8 list) \<Rightarrow> 'd \<Rightarrow> nat \<Rightarrow> u8" where
  "dev_byte bs rb d i = rb d (of_nat (i div unat bs)) ! (i mod unat bs)"

definition nameable :: "u32 \<Rightarrow> u32 \<Rightarrow> bool" where
  "nameable bs b \<longleftrightarrow> b \<le> - 1 div bs"

text \<open>
  The laws of the two virtual functions, for the blocks that a 32-bit byte offset can name.
\<close>

locale block_device =
  fixes bs :: u32
    and rb :: "'d \<Rightarrow> u32 \<Rightarrow> u8 list"
    and wb :: "'d \<Rightarrow> u32 \<Rightarrow> u8 list \<Rightarrow> 'd"
  assumes bs_pos: "bs \<noteq> 0"
    and rb_length: "nameable bs b \<Longrightarrow> length (rb d b) = unat bs"
    and rb_wb: "nameable bs b \<Longrightarrow> nameable bs b' \<Longrightarrow> length x = unat bs
      \<Longrightarrow> rb (wb d b x) b' = (if b' = b then x else rb d b')"
begin

lemma unat_bs_pos: "0 < unat bs"
  using bs_pos by (simp add: unat_gt_0)

lemma nameable_div: "nameable bs (offset div bs)"
  unfolding nameable_def word_le_nat_alt unat_div by (rule div_le_mono) (simp add: word_le_nat_alt [symmetric])

lemma nameable_nat: "i < 2 ^ 32 \<Longrightarrow> nameable bs (of_nat (i div unat bs))"
proof -
  assume i: "i < 2 ^ 32"
  then have "i div unat bs < 2 ^ 32" by (meson div_le_dividend le_less_trans)
  then have "unat (of_nat (i div unat bs) :: u32) = i div unat bs" by (rule unat_of_nat_u32)
  also have "\<dots> \<le> (2 ^ 32 - 1) div unat bs" using i by (intro div_le_mono) simp
  also have "2 ^ 32 - 1 = unat (- 1 :: u32)" by (simp add: unsigned_minus_1_eq_mask mask_eq_exp_minus_1)
  finally show ?thesis by (simp add: nameable_def word_le_nat_alt unat_div)
qed

lemma dev_byte_shift:
  assumes "unat offset mod unat bs + k < unat bs"
  shows "dev_byte bs rb d (unat offset + k) = rb d (offset div bs) ! (unat (offset mod bs) + k)"
  using div_mod_shift [OF assms]
  by (simp add: dev_byte_def unat_mod of_nat_eq_u32 [OF unat_div])

lemma unat_off_mod: "unat offset mod unat bs < unat bs"
  using unat_bs_pos by simp

lemma read_image:
  "bd_read bs (rb d) offset n =
     Inr (map (dev_byte bs rb d) [unat offset ..< unat offset + unat (chunk bs offset n)],
          chunk bs offset n)"
proof -
  let ?c = "unat (chunk bs offset n)"
  have c: "unat (offset mod bs) + ?c \<le> length (rb d (offset div bs))"
    using unat_off_mod [of offset] by (simp add: rb_length nameable_div unat_chunk [OF bs_pos] unat_mod)
  have "take ?c (drop (unat (offset mod bs)) (rb d (offset div bs)))
      = map (dev_byte bs rb d) [unat offset ..< unat offset + ?c]"
    using c unfolding take_drop_map [OF c]
    by (intro nth_equalityI) (simp_all add: dev_byte_shift rb_length nameable_div unat_mod)
  then show ?thesis by (simp add: bd_read_chunk [OF bs_pos])
qed

lemma readFully_image:
  "unat offset + unat n \<le> 2 ^ 32 \<Longrightarrow>
     bd_readFully bs (rb d) offset n = Inr (map (dev_byte bs rb d) [unat offset ..< unat offset + unat n])"
proof (induction "unat n" arbitrary: offset n rule: less_induct)
  case less
  show ?case
  proof (cases "n = 0")
    case True
    then show ?thesis by (simp add: bd_readFully.simps)
  next
    case False
    let ?c = "chunk bs offset n"
    note C = chunk_bounds [OF bs_pos False, of offset]
    show ?thesis
    proof (cases "n = ?c")
      case True
      then show ?thesis using False
        by (simp add: bd_readFully.simps [of _ _ offset] bd_readFully.simps [of _ _ _ 0] read_image)
    next
      case n: False
      then have lt: "unat ?c < unat n" using C(2) by (metis le_neq_implies_less word_unat_eq_iff)
      have off: "unat (offset + ?c) = unat offset + unat ?c"
        using less.prems lt by (intro unat_plus_u32) simp
      have "bd_readFully bs (rb d) (offset + ?c) (n - ?c)
          = Inr (map (dev_byte bs rb d) [unat offset + unat ?c ..< unat offset + unat n])"
        using less.hyps [OF C(4), of "offset + ?c"] less.prems C(2,3) off by simp
      moreover have "[unat offset ..< unat offset + unat n]
          = [unat offset ..< unat offset + unat ?c] @ [unat offset + unat ?c ..< unat offset + unat n]"
        using C(2) upt_add_eq_append [of "unat offset" "unat offset + unat ?c" "unat n - unat ?c"] by simp
      ultimately show ?thesis using False
        by (simp add: bd_readFully.simps [of _ _ offset] read_image)
    qed
  qed
qed

lemma write_image:
  assumes "unat (chunk bs offset n) \<le> length buf"
  shows "\<exists>d'. bd_write bs rb wb d offset buf n = Inr (chunk bs offset n, d')
    \<and> (\<forall>i < 2 ^ 32. dev_byte bs rb d' i =
        (if unat offset \<le> i \<and> i < unat offset + unat (chunk bs offset n) then buf ! (i - unat offset)
         else dev_byte bs rb d i))"
proof (intro exI conjI allI impI)
  let ?c = "unat (chunk bs offset n)" and ?b = "offset div bs" and ?o = "unat (offset mod bs)"
  let ?x = "splice ?o (take ?c buf) (rb d ?b)"
  let ?d' = "wb d ?b ?x"
  show "bd_write bs rb wb d offset buf n = Inr (chunk bs offset n, ?d')"
    by (rule bd_write_chunk [OF bs_pos])
  have len: "length (rb d ?b) = unat bs" by (simp add: rb_length nameable_div)
  have c: "?o + ?c \<le> unat bs"
    using unat_off_mod [of offset] by (simp add: unat_chunk [OF bs_pos] unat_mod)
  fix i :: nat assume i: "i < 2 ^ 32"
  let ?b' = "of_nat (i div unat bs) :: u32"
  have "i div unat bs < 2 ^ 32" using i by (meson div_le_dividend le_less_trans)
  then have ub: "unat ?b' = i div unat bs" by (rule unat_of_nat_u32)
  have r: "rb ?d' ?b' = (if ?b' = ?b then ?x else rb d ?b')"
    using len c assms by (intro rb_wb) (simp_all add: nameable_div nameable_nat [OF i])
  have eq: "?b' = ?b \<longleftrightarrow> i div unat bs = unat offset div unat bs"
    by (simp add: word_unat_eq_iff ub unat_div)
  have split: "unat offset = unat offset div unat bs * unat bs + ?o" "i = i div unat bs * unat bs + i mod unat bs"
    by (simp_all add: unat_mod)
  show "dev_byte bs rb ?d' i = (if unat offset \<le> i \<and> i < unat offset + ?c then buf ! (i - unat offset)
      else dev_byte bs rb d i)"
  proof (cases "?b' = ?b")
    case True
    have q: "i div unat bs = unat offset div unat bs" using True eq by simp
    have i': "unat offset \<le> i \<longleftrightarrow> ?o \<le> i mod unat bs" "i < unat offset + ?c \<longleftrightarrow> i mod unat bs < ?o + ?c"
      "i - unat offset = i mod unat bs - ?o" using split unfolding q by linarith+
    show ?thesis
      unfolding i' using True r len c assms unat_bs_pos by (auto simp: dev_byte_def nth_splice)
  next
    case False
    then have "i div unat bs \<noteq> unat offset div unat bs" by (simp add: eq)
    then have "i div unat bs < unat offset div unat bs \<or> unat offset div unat bs < i div unat bs" by arith
    then have "\<not> (unat offset \<le> i \<and> i < unat offset + ?c)"
    proof
      assume "i div unat bs < unat offset div unat bs"
      then have "\<not> unat offset \<le> i" by (meson div_le_mono not_less)
      then show ?thesis by simp
    next
      assume "unat offset div unat bs < i div unat bs"
      then have "(unat offset div unat bs + 1) * unat bs \<le> i div unat bs * unat bs"
        by (intro mult_le_mono1) simp
      then have "unat bs + unat offset div unat bs * unat bs \<le> i div unat bs * unat bs" by simp
      then have "unat offset + ?c \<le> i" using split c by linarith
      then show ?thesis by simp
    qed
    then show ?thesis unfolding if_not_P [OF \<open>\<not> (unat offset \<le> i \<and> i < unat offset + ?c)\<close>]
      using False r by (simp add: dev_byte_def)
  qed
qed

lemma writeFully_image:
  "unat offset + unat n \<le> 2 ^ 32 \<Longrightarrow> unat n \<le> length buf \<Longrightarrow>
     \<exists>d'. bd_writeFully bs rb wb d offset buf n = Inr d'
    \<and> (\<forall>i < 2 ^ 32. dev_byte bs rb d' i =
        (if unat offset \<le> i \<and> i < unat offset + unat n then buf ! (i - unat offset)
         else dev_byte bs rb d i))"
proof (induction "unat n" arbitrary: offset n buf d rule: less_induct)
  case less
  show ?case
  proof (cases "n = 0")
    case True
    then have "bd_writeFully bs rb wb d offset buf n = Inr d" by (simp add: bd_writeFully.simps)
    with True show ?thesis by (intro exI [of _ d]) auto
  next
    case False
    let ?c = "chunk bs offset n"
    note C = chunk_bounds [OF bs_pos False, of offset]
    have "unat ?c \<le> length buf" using C(2) less.prems(2) by simp
    from write_image [OF this] obtain d1 where W: "bd_write bs rb wb d offset buf n = Inr (?c, d1)"
      "\<forall>i < 2 ^ 32. dev_byte bs rb d1 i =
        (if unat offset \<le> i \<and> i < unat offset + unat ?c then buf ! (i - unat offset)
         else dev_byte bs rb d i)" by blast
    show ?thesis
    proof (cases "n = ?c")
      case True
      then have "bd_writeFully bs rb wb d offset buf n = Inr d1" using False W(1)
        by (simp add: bd_writeFully.simps [of _ _ _ d offset] bd_writeFully.simps [of _ _ _ _ _ _ 0])
      with W(2) True show ?thesis by metis
    next
      case n: False
      then have lt: "unat ?c < unat n" using C(2) by (metis le_neq_implies_less word_unat_eq_iff)
      have off: "unat (offset + ?c) = unat offset + unat ?c"
        using less.prems lt by (intro unat_plus_u32) simp
      have "unat (offset + ?c) + unat (n - ?c) \<le> 2 ^ 32" "unat (n - ?c) \<le> length (drop (unat ?c) buf)"
        using less.prems C(2,3) off by simp_all
      from less.hyps [OF C(4) this, of d1] obtain d' where
        D: "bd_writeFully bs rb wb d1 (offset + ?c) (drop (unat ?c) buf) (n - ?c) = Inr d'"
        "\<forall>i < 2 ^ 32. dev_byte bs rb d' i =
          (if unat offset + unat ?c \<le> i \<and> i < unat offset + unat n then drop (unat ?c) buf ! (i - (unat offset + unat ?c))
           else dev_byte bs rb d1 i)"
        using C(2) unfolding off C(3) by auto
      have "bd_writeFully bs rb wb d offset buf n = Inr d'"
        using False W(1) D(1) by (simp add: bd_writeFully.simps [of _ _ _ d offset])
      moreover have "dev_byte bs rb d' i =
        (if unat offset \<le> i \<and> i < unat offset + unat n then buf ! (i - unat offset)
         else dev_byte bs rb d i)" if "i < 2 ^ 32" for i
        using D(2) W(2) that lt less.prems(2) by (simp add: nth_drop)
      ultimately show ?thesis by blast
    qed
  qed
qed

end

section \<open>The IDE drive of ide.cc\<close>

text \<open>
  The drive number encodes the controller in bit 1 and the channel in bit 0. A command is the
  sequence of \<^verbatim>\<open>outb\<close> calls, each a port and the byte written to it.
\<close>

definition controller :: "int \<Rightarrow> int" where
  "controller drive = drop_bit 1 drive AND 1"

definition channel :: "int \<Rightarrow> int" where
  "channel drive = drive AND 1"

definition ide_ports :: "int list" where
  "ide_ports = [0x1f0, 0x170]"

definition ide_port :: "int \<Rightarrow> int" where
  "ide_port drive = ide_ports ! nat (controller drive)"

definition SECTOR_SIZE :: u32 where
  "SECTOR_SIZE = 512"

definition isBusy :: "u8 \<Rightarrow> bool" where
  "isBusy status \<longleftrightarrow> status AND 0x80 \<noteq> 0"

definition isReady :: "u8 \<Rightarrow> bool" where
  "isReady status \<longleftrightarrow> status AND 0x40 \<noteq> 0"

text \<open>
  \<^verbatim>\<open>waitForDrive\<close> on the bytes that successive reads of the status register return: the first
  loop ends at the first byte without BSY, the second at the first later byte with DRDY.
\<close>

fun waitForDrive :: "u8 list \<Rightarrow> fault + u8 list" where
  "waitForDrive statuses =
     (case dropWhile isBusy statuses of
        [] \<Rightarrow> Inl Diverges
      | _ # rest \<Rightarrow>
          (case dropWhile (\<lambda>s. \<not> isReady s) rest of
             [] \<Rightarrow> Inl Diverges
           | _ # rest' \<Rightarrow> Inr rest'))"

definition ide_command :: "int \<Rightarrow> u32 \<Rightarrow> u8 \<Rightarrow> (int \<times> u8) list" where
  "ide_command drive sector cmd =
     (let base = ide_port drive; ch = of_int (channel drive) :: u32
      in [(base + 2, 1),
          (base + 3, ucast sector),
          (base + 4, ucast (drop_bit 8 sector)),
          (base + 5, ucast (drop_bit 16 sector)),
          (base + 6, ucast (0xE0 OR push_bit 4 ch OR (drop_bit 24 sector AND 0xf))),
          (base + 7, cmd)])"

text \<open>
  The drive is outside the program: \<open>polls hw out\<close> are the status bytes it reports after the
  port writes \<open>out\<close>, \<open>data_in hw out i\<close> is the \<open>i\<close>-th word read from its data port,
  and \<open>data_out hw out ws\<close> its state after the words \<open>ws\<close> were written to the data port.
\<close>

definition ide_readBlock :: "('hw \<Rightarrow> (int \<times> u8) list \<Rightarrow> u8 list) \<Rightarrow> ('hw \<Rightarrow> (int \<times> u8) list \<Rightarrow> nat \<Rightarrow> u32)
    \<Rightarrow> int \<Rightarrow> 'hw \<Rightarrow> u32 \<Rightarrow> fault + u8 list" where
  "ide_readBlock polls data_in drive hw sector =
     bindE (waitForDrive (polls hw [])) (\<lambda>_.
       let out = ide_command drive sector 0x20
       in bindE (waitForDrive (polls hw out)) (\<lambda>_.
            Inr (le_bytes_list (map (\<lambda>i. data_in hw out i) [0 ..< unat (SECTOR_SIZE div 4)]))))"

definition ide_writeBlock :: "('hw \<Rightarrow> (int \<times> u8) list \<Rightarrow> u8 list) \<Rightarrow> ('hw \<Rightarrow> (int \<times> u8) list \<Rightarrow> u32 list \<Rightarrow> 'hw)
    \<Rightarrow> int \<Rightarrow> 'hw \<Rightarrow> u32 \<Rightarrow> u8 list \<Rightarrow> fault + 'hw" where
  "ide_writeBlock polls data_out drive hw sector buf =
     bindE (waitForDrive (polls hw [])) (\<lambda>_.
       let out = ide_command drive sector 0x30
       in bindE (waitForDrive (polls hw out)) (\<lambda>_.
            Inr (data_out hw out (map (\<lambda>i. le_words buf ! i) [0 ..< unat (SECTOR_SIZE div 4)]))))"

text \<open>How a drive in LBA mode addresses a sector: the ports, the device bit and 28 bits.\<close>

definition port_byte :: "(int \<times> u8) list \<Rightarrow> int \<Rightarrow> u8" where
  "port_byte out p = (case map_of out p of Some v \<Rightarrow> v | None \<Rightarrow> 0)"

definition ata_address :: "(int \<times> u8) list \<Rightarrow> int \<times> bool \<times> u32" where
  "ata_address out =
     (let b = fst (hd out) - 2
      in (b, bit (port_byte out (b + 6)) 4,
          le_word [port_byte out (b + 3), port_byte out (b + 4), port_byte out (b + 5),
                   port_byte out (b + 6) AND 0x0F]))"

locale ata_drive =
  fixes polls :: "'hw \<Rightarrow> (int \<times> u8) list \<Rightarrow> u8 list"
    and data_in :: "'hw \<Rightarrow> (int \<times> u8) list \<Rightarrow> nat \<Rightarrow> u32"
    and data_out :: "'hw \<Rightarrow> (int \<times> u8) list \<Rightarrow> u32 list \<Rightarrow> 'hw"
    and contents :: "'hw \<Rightarrow> int \<times> bool \<times> u32 \<Rightarrow> nat \<Rightarrow> u32"
    and drive :: int
  assumes ready: "\<exists>rest. waitForDrive (polls hw out) = Inr rest"
    and data_in: "snd (last out) = 0x20 \<Longrightarrow> data_in hw out i = contents hw (ata_address out) i"
    and data_out: "snd (last out) = 0x30 \<Longrightarrow> length ws = 128 \<Longrightarrow> i < 128 \<Longrightarrow>
      contents (data_out hw out ws) a i = (if a = ata_address out then ws ! i else contents hw a i)"

lemma ide_address:
  assumes "sector < 2 ^ 28"
  shows "ata_address (ide_command drive sector cmd) = (ide_port drive, channel drive = 1, sector)"
proof -
  have ch: "channel drive = 0 \<or> channel drive = 1"
    by (auto simp: channel_def and_one_eq)
  have bnd: "\<not> bit sector n" if "28 \<le> n" for n
  proof -
    have "unat sector < 2 ^ 28" using assms by (simp add: word_less_nat_alt)
    then have "take_bit 28 (unat sector) = unat sector" by (simp add: take_bit_nat_eq_self_iff)
    then have "\<not> bit (unat sector) n" using that by (metis bit_take_bit_iff not_le)
    then show ?thesis by (simp add: bit_unsigned_iff)
  qed
  let ?r6 = "ucast (0xE0 OR push_bit 4 (of_int (channel drive) :: u32) OR (drop_bit 24 sector AND 0xf)) :: u8"
  have "bit (?r6 AND 0x0F) n \<longleftrightarrow> bit (ucast (drop_bit 24 sector) :: u8) n" if "n < LENGTH(8)" for n
  proof -
    have "n \<in> {0, 1, 2, 3, 4, 5, 6, 7}" using that by auto
    then show ?thesis using ch bnd
      by (auto simp: bit_or_iff bit_and_iff bit_push_bit_iff bit_ucast_iff bit_drop_bit_eq)
  qed
  then have r6: "?r6 AND 0x0F = ucast (drop_bit 24 sector)" by (rule bit_word_eqI)
  have b4: "bit ?r6 4 \<longleftrightarrow> channel drive = 1"
    using ch by (auto simp: bit_or_iff bit_and_iff bit_push_bit_iff bit_ucast_iff bit_drop_bit_eq)
  have "le_word [ucast sector, ucast (drop_bit 8 sector), ucast (drop_bit 16 sector),
      ucast (drop_bit 24 sector)] = sector"
    using le_word_bytes [of sector] by (simp add: le_bytes_def)
  then show ?thesis
    using r6 b4 by (simp add: ata_address_def ide_command_def Let_def port_byte_def)
qed

definition ide_rb :: "('hw \<Rightarrow> (int \<times> u8) list \<Rightarrow> u8 list) \<Rightarrow> ('hw \<Rightarrow> (int \<times> u8) list \<Rightarrow> nat \<Rightarrow> u32)
    \<Rightarrow> int \<Rightarrow> 'hw \<Rightarrow> u32 \<Rightarrow> u8 list" where
  "ide_rb polls data_in drive hw sector =
     (case ide_readBlock polls data_in drive hw sector of Inr x \<Rightarrow> x | Inl _ \<Rightarrow> [])"

definition ide_wb :: "('hw \<Rightarrow> (int \<times> u8) list \<Rightarrow> u8 list) \<Rightarrow> ('hw \<Rightarrow> (int \<times> u8) list \<Rightarrow> u32 list \<Rightarrow> 'hw)
    \<Rightarrow> int \<Rightarrow> 'hw \<Rightarrow> u32 \<Rightarrow> u8 list \<Rightarrow> 'hw" where
  "ide_wb polls data_out drive hw sector buf =
     (case ide_writeBlock polls data_out drive hw sector buf of Inr hw' \<Rightarrow> hw' | Inl _ \<Rightarrow> hw)"

lemma last_ide_command [simp]: "snd (last (ide_command drive sector cmd)) = cmd"
  by (simp add: ide_command_def Let_def)

lemma sector_words: "unat (SECTOR_SIZE div 4) = 128"
  by (simp add: SECTOR_SIZE_def unat_div)

lemma nameable_sector:
  assumes "nameable SECTOR_SIZE b"
  shows "b < 2 ^ 28"
proof -
  have "unat b \<le> (2 ^ 32 - 1) div 512"
    using assms by (simp add: nameable_def SECTOR_SIZE_def word_le_nat_alt unat_div
        unsigned_minus_1_eq_mask mask_eq_exp_minus_1)
  also have "\<dots> < 2 ^ 28" by simp
  finally show ?thesis by (simp add: word_less_nat_alt)
qed

context ata_drive
begin

lemma readBlock_contents:
  "b < 2 ^ 28 \<Longrightarrow> ide_readBlock polls data_in drive hw b =
     Inr (le_bytes_list (map (contents hw (ide_port drive, channel drive = 1, b)) [0 ..< 128]))"
  using ready [of hw "[]"] ready [of hw "ide_command drive b 0x20"]
  by (auto simp: ide_readBlock_def Let_def sector_words data_in ide_address cong: map_cong)

lemma writeBlock_contents:
  assumes "b < 2 ^ 28" "length x = 512"
  shows "\<exists>hw'. ide_writeBlock polls data_out drive hw b x = Inr hw' \<and>
    (\<forall>a. \<forall>i < 128. contents hw' a i =
       (if a = (ide_port drive, channel drive = 1, b) then le_words x ! i else contents hw a i))"
  using ready [of hw "[]"] ready [of hw "ide_command drive b 0x30"] assms
  by (auto simp: ide_writeBlock_def Let_def sector_words data_out ide_address)

end

sublocale ata_drive \<subseteq> dev: block_device SECTOR_SIZE "ide_rb polls data_in drive" "ide_wb polls data_out drive"
proof
  show "SECTOR_SIZE \<noteq> 0" by (simp add: SECTOR_SIZE_def)
next
  fix b hw assume "nameable SECTOR_SIZE b"
  then have "b < 2 ^ 28" by (rule nameable_sector)
  then show "length (ide_rb polls data_in drive hw b) = unat SECTOR_SIZE"
    by (simp add: ide_rb_def readBlock_contents SECTOR_SIZE_def)
next
  fix b b' hw and x :: "u8 list"
  assume "nameable SECTOR_SIZE b" "nameable SECTOR_SIZE b'" and len: "length x = unat SECTOR_SIZE"
  then have b: "b < 2 ^ 28" "b' < 2 ^ 28" by (blast intro: nameable_sector)+
  have x: "length x = 512" using len by (simp add: SECTOR_SIZE_def)
  from writeBlock_contents [OF b(1) x, of hw] obtain hw' where
    w: "ide_writeBlock polls data_out drive hw b x = Inr hw'"
    "\<forall>a. \<forall>i < 128. contents hw' a i =
       (if a = (ide_port drive, channel drive = 1, b) then le_words x ! i else contents hw a i)" by blast
  have "map (contents hw' (ide_port drive, channel drive = 1, b')) [0 ..< 128] =
      (if b' = b then le_words x else map (contents hw (ide_port drive, channel drive = 1, b')) [0 ..< 128])"
    using w(2) x by (auto intro!: nth_equalityI)
  then show "ide_rb polls data_in drive (ide_wb polls data_out drive hw b x) b' =
      (if b' = b then x else ide_rb polls data_in drive hw b')"
    using w(1) b x by (simp add: ide_rb_def ide_wb_def readBlock_contents)
qed

text \<open>A drive that answers at once and keeps its sectors in a function.\<close>

type_synonym disk_image = "int \<times> bool \<times> u32 \<Rightarrow> nat \<Rightarrow> u32"

definition image_polls :: "disk_image \<Rightarrow> (int \<times> u8) list \<Rightarrow> u8 list" where
  "image_polls hw out = [0x40, 0x40]"

definition image_in :: "disk_image \<Rightarrow> (int \<times> u8) list \<Rightarrow> nat \<Rightarrow> u32" where
  "image_in hw out i = hw (ata_address out) i"

definition image_out :: "disk_image \<Rightarrow> (int \<times> u8) list \<Rightarrow> u32 list \<Rightarrow> disk_image" where
  "image_out hw out ws = hw(ata_address out := (\<lambda>i. ws ! i))"

text \<open>The kernel keeps its file system on drive 3.\<close>

interpretation hd: ata_drive image_polls image_in image_out "\<lambda>hw. hw" 3
  by unfold_locales
    (auto simp: image_polls_def image_in_def image_out_def isBusy_def isReady_def)

lemma image_device: "block_device SECTOR_SIZE (ide_rb image_polls image_in 3) (ide_wb image_polls image_out 3)"
  by (rule hd.dev.block_device_axioms)

section \<open>Properties\<close>

text \<open>
  C29. The byte operations refine a flat byte array: on any device that satisfies the contract of
  \<^verbatim>\<open>readBlock\<close> and \<^verbatim>\<open>writeBlock\<close>, \<^verbatim>\<open>writeFully\<close> of \<open>n\<close> bytes at
  any offset, aligned or not, replaces exactly these bytes of the image, and \<^verbatim>\<open>readFully\<close>
  then returns the slice of the image it is asked for; both end.
\<close>

theorem block_bytes_refine:
  assumes "block_device bs rb wb" and "unat offset + unat n \<le> 2 ^ 32" and "unat n \<le> length buf"
  shows "\<exists>d'. bd_writeFully bs rb wb d offset buf n = Inr d'
     \<and> bd_readFully bs (rb d') offset n = Inr (take (unat n) buf)
     \<and> (\<forall>off m. unat off + unat m \<le> 2 ^ 32 \<longrightarrow>
          (\<exists>xs. bd_readFully bs (rb d) off m = Inr xs \<and> length xs = unat m
           \<and> bd_readFully bs (rb d') off m = Inr (map (\<lambda>i.
              if unat offset \<le> i \<and> i < unat offset + unat n then buf ! (i - unat offset)
              else xs ! (i - unat off)) [unat off ..< unat off + unat m])))"
proof -
  note read = block_device.readFully_image [OF assms(1)]
  from block_device.writeFully_image [OF assms] obtain d' where
    w: "bd_writeFully bs rb wb d offset buf n = Inr d'"
    "\<forall>i < 2 ^ 32. dev_byte bs rb d' i =
        (if unat offset \<le> i \<and> i < unat offset + unat n then buf ! (i - unat offset)
         else dev_byte bs rb d i)" by blast
  have "bd_readFully bs (rb d') off m = Inr (map (\<lambda>i.
      if unat offset \<le> i \<and> i < unat offset + unat n then buf ! (i - unat offset)
      else map (dev_byte bs rb d) [unat off ..< unat off + unat m] ! (i - unat off))
      [unat off ..< unat off + unat m])" if "unat off + unat m \<le> 2 ^ 32" for off m :: u32
    unfolding read [OF that] using that w(2) by auto
  moreover have "bd_readFully bs (rb d') offset n = Inr (take (unat n) buf)"
    unfolding read [OF assms(2)] using w(2) assms(2,3) by (auto intro!: nth_equalityI)
  ultimately show ?thesis using w(1) read by (intro exI [of _ d']) fastforce
qed

theorem block_bytes_refine_witness:
  "\<exists>d'. bd_writeFully SECTOR_SIZE (ide_rb image_polls image_in 3) (ide_wb image_polls image_out 3)
       (\<lambda>a i. 0) 510 [1, 2, 3, 4, 5] 5 = Inr d'
     \<and> bd_readFully SECTOR_SIZE (ide_rb image_polls image_in 3 d') 510 5 = Inr [1, 2, 3, 4, 5]"
  using block_bytes_refine [OF image_device, of 510 5 "[1, 2, 3, 4, 5]" "\<lambda>a i. 0"] by auto

text \<open>
  The six port writes of an \<^verbatim>\<open>IDE\<close> command select the controller of the drive, its
  channel and, in LBA mode, exactly the sector asked for, for every sector below \<open>2 ^ 28\<close>;
  all sectors a byte offset can name are below that bound.
\<close>

theorem ide_selects_sector:
  assumes "nameable SECTOR_SIZE sector"
  shows "sector < 2 ^ 28
    \<and> ata_address (ide_command drive sector cmd) = (ide_port drive, channel drive = 1, sector)"
  using nameable_sector [OF assms] ide_address by blast

theorem ide_selects_sector_witness:
  "ata_address (ide_command 3 0x123456 0x20) = (0x170, True, 0x123456)"
  using ide_selects_sector [of "0x123456" 3 "0x20"]
  by (simp add: nameable_def SECTOR_SIZE_def ide_port_def ide_ports_def controller_def channel_def)

end
