(* ===== verification/Libk.thy ===== *)
theory Libk
  imports Kernel_Prelude
begin

text \<open>
  \<^verbatim>\<open>kernel/libk.cc\<close>: the string functions of the kernel. A C string is the list of its
  bytes; past the end of the list there is the terminating NUL, so a list with a NUL inside stands
  for the bytes before it.
\<close>

type_synonym cstring = "u8 list"

definition cstr :: "cstring \<Rightarrow> nat \<Rightarrow> u8" where
  "cstr s i = (if i < length s then s ! i else 0)"

fun K_strlen :: "cstring \<Rightarrow> int" where
  "K_strlen [] = 0"
| "K_strlen (c # cs) = (if c \<noteq> 0 then 1 + K_strlen cs else 0)"

fun K_contains :: "cstring \<Rightarrow> u8 \<Rightarrow> int" where
  "K_contains [] item = (if item = 0 then 1 else 0)"
| "K_contains (c # cs) item =
     (if c \<noteq> 0 \<and> c \<noteq> item then K_contains cs item else if c = item then 1 else 0)"

text \<open>\<^verbatim>\<open>strdup\<close> copies \<open>len\<close> bytes and puts a NUL behind them.\<close>

definition K_strdup :: "cstring option \<Rightarrow> u8 list option" where
  "K_strdup str = (case str of None \<Rightarrow> None
     | Some s \<Rightarrow> (let len = nat (K_strlen s) in Some (take len s @ [0])))"

definition K_isdigit :: "int \<Rightarrow> bool" where
  "K_isdigit c \<longleftrightarrow> 48 \<le> c \<and> c \<le> 57"

text \<open>The string proper: the bytes before the first NUL.\<close>

definition ctext :: "cstring \<Rightarrow> u8 list" where
  "ctext s = takeWhile (\<lambda>c. c \<noteq> 0) s"

lemma ctext_simps [simp]:
  "ctext [] = []" "ctext (c # cs) = (if c = 0 then [] else c # ctext cs)"
  by (simp_all add: ctext_def)

lemma ctext_nonzero: "0 \<notin> set (ctext s)"
  by (auto simp: ctext_def dest: set_takeWhileD)

lemma ctext_id [simp]: "0 \<notin> set s \<Longrightarrow> ctext s = s"
  by (auto simp: ctext_def takeWhile_eq_all_conv)

lemma K_strlen_ctext: "K_strlen s = int (length (ctext s))"
  by (induction s) auto

lemma K_contains_ctext: "item \<noteq> 0 \<Longrightarrow> K_contains s item = (if item \<in> set (ctext s) then 1 else 0)"
  by (induction s) auto

lemma cstr_ctext: "i < length (ctext s) \<Longrightarrow> cstr s i = ctext s ! i"
  using length_takeWhile_le [of "\<lambda>c. c \<noteq> 0" s] by (simp add: cstr_def ctext_def takeWhile_nth)

lemma cstr_ctext_end: "cstr s (length (ctext s)) = 0"
proof (cases "length (ctext s) < length s")
  case True
  then show ?thesis using nth_length_takeWhile [of "\<lambda>c. c \<noteq> 0" s] by (simp add: cstr_def ctext_def)
next
  case False
  then show ?thesis by (simp add: cstr_def)
qed

lemma K_strdup_ctext: "K_strdup (Some s) = Some (ctext s @ [0])"
proof -
  have "take (length (ctext s)) s = ctext s"
    by (simp add: ctext_def takeWhile_eq_take [symmetric])
  then show ?thesis by (simp add: K_strdup_def K_strlen_ctext)
qed

lemma cstr_append_zero [simp]: "cstr (s @ [0]) = cstr s"
  by (auto simp: cstr_def nth_append fun_eq_iff)

end
