(* ===== verification/Fat439.thy ===== *)
theory Fat439
  imports Block_Device Libk
begin

text \<open>
  \<^verbatim>\<open>kernel/fs.h\<close> and \<^verbatim>\<open>kernel/fs.cc\<close>: the FAT439 file system on a block device
  that satisfies the contract of \<^verbatim>\<open>Block_Device\<close>. The state holds the device, the super
  block, the FAT in memory, the table of open files with their reference counts, and the count of
  \<^verbatim>\<open>openFilesMutex\<close>. A pointer to an \<^verbatim>\<open>OpenFile\<close> is its start block: there is one
  object per start block, in the table \<^verbatim>\<open>openFiles\<close>. Structures on the stack that the code
  does not initialise are arguments.
\<close>

section \<open>State\<close>

record 'd driver =
  blockSize :: u32
  readBlock :: "'d \<Rightarrow> u32 \<Rightarrow> u8 list"
  writeBlock :: "'d \<Rightarrow> u32 \<Rightarrow> u8 list \<Rightarrow> 'd"

record meta_data =
  m_type :: u32
  m_length :: u32
  m_parentDir :: u32
  m_currentBlk :: u32

record open_file =
  of_start :: u32
  of_meta :: meta_data
  of_count :: u32

record super_block =
  sb_magic :: u32
  sb_nBlocks :: u32
  sb_avail :: u32
  sb_root :: u32

record 'd fat439 =
  dev :: 'd
  super :: super_block
  fat :: "u32 list"
  openFilesMutex :: int
  openFiles :: "open_file option list"

definition BLOCK_SZ :: u32 where "BLOCK_SZ = 512"
definition HEADER_SZ :: u32 where "HEADER_SZ = 16"
definition DIR_ENTRY_SZ :: u32 where "DIR_ENTRY_SZ = 16"
definition TYPE_DIR :: u32 where "TYPE_DIR = 2"
definition TYPE_FILE :: u32 where "TYPE_FILE = 1"

lemmas fs_consts = BLOCK_SZ_def HEADER_SZ_def DIR_ENTRY_SZ_def TYPE_DIR_def TYPE_FILE_def

definition fs_min :: "u32 \<Rightarrow> u32 \<Rightarrow> u32" where
  "fs_min a b = (if a < b then a else b)"

text \<open>The device calls, with the driver's functions.\<close>

abbreviation dev_read :: "'d driver \<Rightarrow> 'd \<Rightarrow> u32 \<Rightarrow> u32 \<Rightarrow> fault + (u8 list \<times> u32)" where
  "dev_read v d \<equiv> bd_read (blockSize v) (readBlock v d)"

abbreviation dev_readFully :: "'d driver \<Rightarrow> 'd \<Rightarrow> u32 \<Rightarrow> u32 \<Rightarrow> fault + u8 list" where
  "dev_readFully v d \<equiv> bd_readFully (blockSize v) (readBlock v d)"

abbreviation dev_write :: "'d driver \<Rightarrow> 'd \<Rightarrow> u32 \<Rightarrow> u8 list \<Rightarrow> u32 \<Rightarrow> fault + (u32 \<times> 'd)" where
  "dev_write v \<equiv> bd_write (blockSize v) (readBlock v) (writeBlock v)"

abbreviation dev_writeFully :: "'d driver \<Rightarrow> 'd \<Rightarrow> u32 \<Rightarrow> u8 list \<Rightarrow> u32 \<Rightarrow> fault + 'd" where
  "dev_writeFully v \<equiv> bd_writeFully (blockSize v) (readBlock v) (writeBlock v)"

text \<open>The structures as the bytes they are read and written as.\<close>

definition meta_of_bytes :: "u8 list \<Rightarrow> meta_data" where
  "meta_of_bytes xs =
     (let w = le_words xs in \<lparr>m_type = w ! 0, m_length = w ! 1, m_parentDir = w ! 2, m_currentBlk = w ! 3\<rparr>)"

definition meta_bytes :: "meta_data \<Rightarrow> u8 list" where
  "meta_bytes m = le_bytes_list [m_type m, m_length m, m_parentDir m, m_currentBlk m]"

definition super_of_bytes :: "u8 list \<Rightarrow> super_block" where
  "super_of_bytes xs =
     (let w = le_words xs in \<lparr>sb_magic = w ! 0, sb_nBlocks = w ! 1, sb_avail = w ! 2, sb_root = w ! 3\<rparr>)"

definition super_bytes :: "super_block \<Rightarrow> u8 list" where
  "super_bytes s = le_bytes_list [sb_magic s, sb_nBlocks s, sb_avail s, sb_root s]"

lemma meta_bytes_roundtrip [simp]: "meta_of_bytes (meta_bytes m) = m"
  by (simp add: meta_of_bytes_def meta_bytes_def)

lemma super_bytes_roundtrip [simp]: "super_of_bytes (super_bytes s) = s"
  by (simp add: super_of_bytes_def super_bytes_def)

lemma length_meta_bytes [simp]: "length (meta_bytes m) = 16"
  by (simp add: meta_bytes_def)

lemma length_super_bytes [simp]: "length (super_bytes m) = 16"
  by (simp add: super_bytes_def)

section \<open>The mutex and the tables\<close>

text \<open>
  A lock on a count of 0 blocks the caller; the operations below run on their own, so nobody
  would wake it.
\<close>

definition lockOpenFiles :: "'d fat439 \<Rightarrow> fault + 'd fat439" where
  "lockOpenFiles fs =
     (if openFilesMutex fs = 0 then Inl Diverges
      else Inr (fs\<lparr>openFilesMutex := openFilesMutex fs - 1\<rparr>))"

definition unlockOpenFiles :: "'d fat439 \<Rightarrow> 'd fat439" where
  "unlockOpenFiles fs = fs\<lparr>openFilesMutex := openFilesMutex fs + 1\<rparr>"

definition fat_at :: "'d fat439 \<Rightarrow> u32 \<Rightarrow> fault + u32" where
  "fat_at fs i = (if unat i < length (fat fs) then Inr (fat fs ! unat i) else Inl BadIndex)"

definition fat_put :: "u32 \<Rightarrow> u32 \<Rightarrow> 'd fat439 \<Rightarrow> fault + 'd fat439" where
  "fat_put i x fs =
     (if unat i < length (fat fs) then Inr (fs\<lparr>fat := (fat fs)[unat i := x]\<rparr>) else Inl BadIndex)"

definition slot_at :: "'d fat439 \<Rightarrow> u32 \<Rightarrow> fault + open_file option" where
  "slot_at fs i =
     (if unat i < length (openFiles fs) then Inr (openFiles fs ! unat i) else Inl BadIndex)"

definition slot_put :: "u32 \<Rightarrow> open_file option \<Rightarrow> 'd fat439 \<Rightarrow> 'd fat439" where
  "slot_put i x fs = fs\<lparr>openFiles := (openFiles fs)[unat i := x]\<rparr>"

text \<open>The object an \<^verbatim>\<open>OpenFile*\<close> points to.\<close>

definition file_at :: "'d fat439 \<Rightarrow> u32 \<Rightarrow> fault + open_file" where
  "file_at fs i =
     bindE (slot_at fs i) (\<lambda>p. case p of None \<Rightarrow> Inl NullDeref | Some f \<Rightarrow> Inr f)"

section \<open>The FAT: free blocks and chains\<close>

definition nextAvailBlk :: "'d fat439 \<Rightarrow> u32" where
  "nextAvailBlk fs = sb_avail (super fs)"

definition set_avail :: "u32 \<Rightarrow> 'd fat439 \<Rightarrow> 'd fat439" where
  "set_avail b fs = fs\<lparr>super := (super fs)\<lparr>sb_avail := b\<rparr>\<rparr>"

text \<open>
  The \<^verbatim>\<open>while\<close> loop of \<^verbatim>\<open>addAvailBlk\<close>. It only reads the FAT, so after as many steps
  as the FAT has entries it has met a block twice and never ends.
\<close>

fun chain_end :: "nat \<Rightarrow> 'd fat439 \<Rightarrow> u32 \<Rightarrow> fault + u32" where
  "chain_end 0 fs b = Inl Diverges"
| "chain_end (Suc fuel) fs b =
     bindE (fat_at fs b) (\<lambda>n. if n \<noteq> 0 then chain_end fuel fs n else Inr b)"

definition addAvailBlk :: "u32 \<Rightarrow> 'd fat439 \<Rightarrow> fault + 'd fat439" where
  "addAvailBlk newAvail fs =
     bindE (chain_end (Suc (length (fat fs))) fs newAvail) (\<lambda>e.
     bindE (fat_put e (sb_avail (super fs)) fs) (\<lambda>fs1.
       Inr (set_avail newAvail fs1)))"

definition remNextAvail :: "'d fat439 \<Rightarrow> fault + (u32 \<times> 'd fat439)" where
  "remNextAvail fs =
     (let nextAvail = sb_avail (super fs) in
      if nextAvail = 0 then Inr (0, fs)
      else
        bindE (fat_at fs (sb_avail (super fs))) (\<lambda>n.
        bindE (fat_put nextAvail 0 (set_avail n fs)) (\<lambda>fs1.
          Inr (nextAvail, fs1))))"

definition nextBlk :: "'d fat439 \<Rightarrow> u32 \<Rightarrow> fault + u32" where
  "nextBlk fs blk = fat_at fs blk"

definition setNextBlk :: "u32 \<Rightarrow> u32 \<Rightarrow> 'd fat439 \<Rightarrow> fault + 'd fat439" where
  "setNextBlk blk next fs = bindE (fat_at fs next) (\<lambda>n. fat_put blk n fs)"

definition syncSuper :: "'d driver \<Rightarrow> 'd fat439 \<Rightarrow> fault + 'd fat439" where
  "syncSuper v fs =
     bindE (dev_write v (dev fs) 0 (super_bytes (super fs)) 16) (\<lambda>(_, d). Inr (fs\<lparr>dev := d\<rparr>))"

definition syncFAT :: "'d driver \<Rightarrow> 'd fat439 \<Rightarrow> fault + 'd fat439" where
  "syncFAT v fs =
     bindE (dev_writeFully v (dev fs) BLOCK_SZ (le_bytes_list (fat fs)) (sb_nBlocks (super fs) * 4))
       (\<lambda>d. Inr (fs\<lparr>dev := d\<rparr>))"

definition fs_sync :: "'d driver \<Rightarrow> 'd fat439 \<Rightarrow> fault + 'd fat439" where
  "fs_sync v fs = bindE (syncFAT v fs) (syncSuper v)"

text \<open>The loop that finds the block of a file: \<open>n\<close> steps along the chain.\<close>

fun follow :: "'d fat439 \<Rightarrow> nat \<Rightarrow> u32 \<Rightarrow> fault + u32" where
  "follow fs 0 blockNumber = Inr blockNumber"
| "follow fs (Suc n) blockNumber = bindE (fat_at fs blockNumber) (follow fs n)"

section \<open>OpenFile\<close>

definition new_OpenFile :: "'d driver \<Rightarrow> 'd fat439 \<Rightarrow> u32 \<Rightarrow> fault + open_file" where
  "new_OpenFile v fs start =
     bindE (dev_readFully v (dev fs) (start * BLOCK_SZ) 16) (\<lambda>xs.
       Inr \<lparr>of_start = start, of_meta = meta_of_bytes xs, of_count = 0\<rparr>)"

definition openFile :: "'d driver \<Rightarrow> u32 \<Rightarrow> 'd fat439 \<Rightarrow> fault + 'd fat439" where
  "openFile v start fs =
     bindE (lockOpenFiles fs) (\<lambda>fs1.
     bindE (slot_at fs1 start) (\<lambda>p.
     bindE (case p of None \<Rightarrow> new_OpenFile v fs1 start | Some f \<Rightarrow> Inr f) (\<lambda>f.
       Inr (unlockOpenFiles (slot_put start (Some (f\<lparr>of_count := of_count f + 1\<rparr>)) fs1)))))"

definition closeFile :: "u32 \<Rightarrow> 'd fat439 \<Rightarrow> fault + 'd fat439" where
  "closeFile start fs =
     bindE (lockOpenFiles fs) (\<lambda>fs1.
     bindE (slot_at fs1 start) (\<lambda>p.
       Inr (unlockOpenFiles (slot_put start
         (case p of None \<Rightarrow> None
          | Some f \<Rightarrow> if of_count f = 1 then None else Some (f\<lparr>of_count := of_count f - 1\<rparr>)) fs1))))"

text \<open>\<^verbatim>\<open>OpenFile::read\<close>: the returned count or error, and the bytes put into the buffer.\<close>

definition of_read :: "'d driver \<Rightarrow> 'd fat439 \<Rightarrow> u32 \<Rightarrow> u32 \<Rightarrow> u32 \<Rightarrow> fault + (int \<times> u8 list)" where
  "of_read v fs start offset n =
     bindE (file_at fs start) (\<lambda>f.
       if offset > m_length (of_meta f) then Inr (ERR_TOO_LONG, [])
       else
         (let len = fs_min n (m_length (of_meta f) - offset);
              actualOffset = offset + HEADER_SZ;
              blockInFile = actualOffset div BLOCK_SZ;
              offsetInBlock = actualOffset mod BLOCK_SZ
          in bindE (follow fs (unat blockInFile) (of_start f)) (\<lambda>blockNumber.
             bindE (dev_read v (dev fs) (blockNumber * BLOCK_SZ + offsetInBlock) len) (\<lambda>(xs, count).
               Inr (sint count, xs)))))"

lemma bd_read_count:
  assumes "bd_read bs rb offset n = Inr (xs, c)"
  shows "c \<le> n"
  using assms by (auto simp: bd_read_def bd_min_def Let_def not_less split: if_splits)

lemma sint_pos_uint: "0 < sint (w :: u32) \<Longrightarrow> sint w = uint w"
  using sint_less [of w] by (simp add: uint_sint take_bit_int_eq_self)

lemma of_read_count:
  assumes "of_read v fs start offset n = Inr (c, xs)" "0 < c"
  shows "uint (of_int c :: u32) = c" "c \<le> uint n"
proof -
  from assms obtain w m where w: "c = sint w" "w \<le> fs_min n m"
    by (auto simp: of_read_def Let_def ERR_TOO_LONG_def split: if_splits dest!: bd_read_count)
  then have "w \<le> n" by (auto simp: fs_min_def split: if_splits)
  with sint_pos_uint [of w] assms(2) show "uint (of_int c :: u32) = c" "c \<le> uint n"
    unfolding w(1) by (simp_all add: word_le_def)
qed

text \<open>
  \<^verbatim>\<open>OpenFile::readFully\<close> and its twin \<^verbatim>\<open>writeFully\<close>: the pointer into the buffer
  advances, \<^verbatim>\<open>offset\<close> does not.
\<close>

function of_readFully :: "'d driver \<Rightarrow> 'd fat439 \<Rightarrow> u32 \<Rightarrow> u32 \<Rightarrow> u32 \<Rightarrow> u32 \<Rightarrow> fault + (int \<times> u8 list)" where
  "of_readFully v fs start offset n togo =
     (if togo = 0 then Inr (sint n, [])
      else bindE (of_read v fs start offset togo) (\<lambda>(cnt, xs).
        if cnt < 0 then Inr (cnt, [])
        else if cnt = 0 then Inr (sint (n - togo), [])
        else bindE (of_readFully v fs start offset n (togo - of_int cnt)) (\<lambda>(r, ys).
               Inr (r, xs @ ys))))"
  by pat_completeness auto
termination
proof (relation "measure (\<lambda>(v, fs, start, offset, n, togo). unat togo)", goal_cases)
  case (2 v fs start offset n togo r cnt xs)
  then have "0 < cnt" "of_read v fs start offset togo = Inr (cnt, xs)" by auto
  with of_read_count [of v fs start offset togo cnt xs]
  have "uint (of_int cnt :: u32) = cnt" "0 < cnt" "cnt \<le> uint togo" by auto
  then have "unat (of_int cnt :: u32) = nat cnt" "0 < nat cnt" "nat cnt \<le> nat (uint togo)"
    by (simp_all only: unat_eq_nat_uint)
  then have "0 < unat (of_int cnt :: u32)" "unat (of_int cnt :: u32) \<le> unat togo"
    by (simp_all only: unat_eq_nat_uint)
  then show ?case by (simp add: unat_sub word_le_nat_alt)
qed simp

declare of_readFully.simps [simp del]

definition of_resize :: "'d driver \<Rightarrow> u32 \<Rightarrow> u32 \<Rightarrow> 'd fat439 \<Rightarrow> fault + 'd fat439" where
  "of_resize v start newsz fs =
     bindE (file_at fs start) (\<lambda>f.
       let m = (of_meta f)\<lparr>m_length := newsz\<rparr>;
           fs1 = slot_put start (Some (f\<lparr>of_meta := m\<rparr>)) fs
       in bindE (dev_write v (dev fs1) (of_start f * BLOCK_SZ) (meta_bytes m) 16) (\<lambda>(_, d).
            Inr (fs1\<lparr>dev := d\<rparr>)))"

lemma bd_write_count:
  assumes "bd_write bs rb wb d offset buf n = Inr (c, d')" "n \<noteq> 0"
  shows "0 < unat c" "unat c \<le> unat n"
proof -
  have "bs \<noteq> 0" using assms by (auto simp: bd_write_def)
  with assms chunk_bounds [of bs n offset] show "0 < unat c" "unat c \<le> unat n"
    by (auto simp: bd_write_chunk)
qed

text \<open>
  The loop of \<^verbatim>\<open>OpenFile::write\<close> that continues in further blocks of the file, which it
  allocates when the chain ends. Each round writes at least one byte, so it ends.
\<close>

function of_write_loop :: "'d driver \<Rightarrow> u32 \<Rightarrow> u8 list \<Rightarrow> u32 \<Rightarrow> u32 \<Rightarrow> u32 \<Rightarrow> 'd fat439 \<Rightarrow> fault + (int \<times> 'd fat439)" where
  "of_write_loop v start byteBuf blockNumber totalWritten n fs =
     (if n = 0 then
        bindE (file_at fs start) (\<lambda>f.
        bindE (of_resize v start (m_length (of_meta f) + totalWritten) fs) (\<lambda>fs1. Inr (0, fs1)))
      else
        bindE (fat_at fs blockNumber) (\<lambda>next0.
        bindE (if next0 = 0
               then bindE (remNextAvail fs) (\<lambda>(b, fs1).
                    bindE (setNextBlk blockNumber b fs1) (\<lambda>fs2. Inr (b, fs2)))
               else Inr (next0, fs)) (\<lambda>(next, fs1).
        if next = 0 then
          bindE (file_at fs1 start) (\<lambda>f.
          bindE (of_resize v start (m_length (of_meta f) + totalWritten) fs1) (\<lambda>fs2.
            Inr (ERR_NO_SPACE, unlockOpenFiles fs2)))
        else
          bindE (dev_write v (dev fs1) (next * blockSize v) (drop (unat totalWritten) byteBuf)
                   (fs_min n (blockSize v))) (\<lambda>(written, d).
            of_write_loop v start byteBuf next (totalWritten + written) (n - written) (fs1\<lparr>dev := d\<rparr>)))))"
  by pat_completeness auto
termination
proof (relation "measure (\<lambda>(v, start, byteBuf, blockNumber, totalWritten, n, fs). unat n)", goal_cases)
  case (2 v start byteBuf blockNumber totalWritten n fs next0 r nxt fs1 r' written d)
  then have w: "dev_write v (dev fs1) (nxt * blockSize v) (drop (unat totalWritten) byteBuf)
      (fs_min n (blockSize v)) = Inr (written, d)" by simp
  then have "blockSize v \<noteq> 0" by (auto simp: bd_write_def)
  with 2(1) have "fs_min n (blockSize v) \<noteq> 0" "unat (fs_min n (blockSize v)) \<le> unat n"
    by (auto simp: fs_min_def word_less_nat_alt)
  with bd_write_count [OF w] have "0 < unat written" "unat written \<le> unat n" by simp_all
  then show ?case by (simp add: unat_sub word_le_nat_alt)
qed simp

declare of_write_loop.simps [simp del]

definition of_write :: "'d driver \<Rightarrow> u32 \<Rightarrow> u32 \<Rightarrow> u8 list \<Rightarrow> u32 \<Rightarrow> 'd fat439 \<Rightarrow> fault + (int \<times> 'd fat439)" where
  "of_write v start offset buf n fs =
     bindE (file_at fs start) (\<lambda>f.
     let actualOffset = offset + HEADER_SZ;
         len = fs_min n (blockSize v - actualOffset);
         blockInFile = actualOffset div BLOCK_SZ;
         offsetInBlock = actualOffset mod BLOCK_SZ
     in bindE (follow fs (unat blockInFile) (of_start f)) (\<lambda>blockNumber.
        bindE (dev_write v (dev fs) (blockNumber * blockSize v + offsetInBlock) buf len) (\<lambda>(written, d).
          of_write_loop v start buf blockNumber written (n - written) (fs\<lparr>dev := d\<rparr>))))"

definition of_append :: "'d driver \<Rightarrow> u32 \<Rightarrow> u8 list \<Rightarrow> u32 \<Rightarrow> 'd fat439 \<Rightarrow> fault + (int \<times> 'd fat439)" where
  "of_append v start buf n fs =
     bindE (file_at fs start) (\<lambda>f. of_write v start (m_length (of_meta f)) buf n fs)"

text \<open>
  \<^verbatim>\<open>OpenFile::writeFully\<close>. \<^verbatim>\<open>write\<close> returns 0 or an error, never a positive count, so
  the loop runs at most once.
\<close>

definition of_writeFully :: "'d driver \<Rightarrow> u32 \<Rightarrow> u32 \<Rightarrow> u8 list \<Rightarrow> u32 \<Rightarrow> 'd fat439 \<Rightarrow> fault + (int \<times> 'd fat439)" where
  "of_writeFully v start offset buf n fs =
     (if n = 0 then Inr (sint n, fs)
      else bindE (of_write v start offset buf n fs) (\<lambda>(cnt, fs1).
        if cnt < 0 then Inr (cnt, fs1) else Inr (sint (n - n), fs1)))"

text \<open>
  \<^verbatim>\<open>remFromOffset\<close>: \<^verbatim>\<open>long\<close> and \<^verbatim>\<open>uint32_t\<close> are both 32 bits wide, so the sums
  are unsigned. The debugging output prints the length with \<open>%s\<close>, so it reads a string at the length as an address:
  there is no memory below 0x1000. A longer file is far from the directories for which this is called; what is
  printed then is left out.
\<close>

definition remFromOffset :: "'d driver \<Rightarrow> u32 \<Rightarrow> u32 \<Rightarrow> u32 \<Rightarrow> 'd fat439 \<Rightarrow> fault + (int \<times> 'd fat439)" where
  "remFromOffset v start entryOffset numBytes fs =
     bindE (file_at fs start) (\<lambda>f.
     let fileSz = m_length (of_meta f) in
     if numBytes > fileSz then
       bindE (of_resize v start 0 fs) (\<lambda>fs1. Inr (0, unlockOpenFiles fs1))
     else if numBytes + entryOffset \<ge> fileSz then
       bindE (of_resize v start entryOffset fs) (\<lambda>fs1. Inr (0, unlockOpenFiles fs1))
     else if fileSz < 0x1000 then Inl NullDeref
     else
       (let newsz = fileSz - numBytes;
            n = fileSz - (entryOffset + numBytes)
        in bindE (dev_readFully v (dev fs) (of_start f * BLOCK_SZ + entryOffset + numBytes) n) (\<lambda>buf.
           bindE (dev_writeFully v (dev fs) (of_start f * BLOCK_SZ + entryOffset) buf n) (\<lambda>d.
           bindE (of_resize v start newsz (fs\<lparr>dev := d\<rparr>)) (\<lambda>fs1. Inr (0, fs1))))))"

section \<open>Fat439File\<close>

record fat_file =
  ff_openFile :: u32
  ff_offset :: u32

definition new_File :: "u32 \<Rightarrow> fat_file" where
  "new_File p = \<lparr>ff_openFile = p, ff_offset = 0\<rparr>"

definition file_seek :: "u32 \<Rightarrow> fat_file \<Rightarrow> fat_file" where
  "file_seek offset f = f\<lparr>ff_offset := offset\<rparr>"

definition file_getLength :: "'d fat439 \<Rightarrow> fat_file \<Rightarrow> fault + u32" where
  "file_getLength fs f = bindE (file_at fs (ff_openFile f)) (\<lambda>p. Inr (m_length (of_meta p)))"

definition file_getType :: "'d fat439 \<Rightarrow> fat_file \<Rightarrow> fault + u32" where
  "file_getType fs f = bindE (file_at fs (ff_openFile f)) (\<lambda>p. Inr (m_type (of_meta p)))"

definition file_read :: "'d driver \<Rightarrow> 'd fat439 \<Rightarrow> u32 \<Rightarrow> fat_file \<Rightarrow> fault + (int \<times> u8 list \<times> fat_file)" where
  "file_read v fs n f =
     bindE (of_read v fs (ff_openFile f) (ff_offset f) n) (\<lambda>(cnt, xs).
       Inr (cnt, xs, if cnt > 0 then f\<lparr>ff_offset := ff_offset f + of_int cnt\<rparr> else f))"

text \<open>\<^verbatim>\<open>File::readFully\<close> of fs.h.\<close>

function file_readFully :: "'d driver \<Rightarrow> 'd fat439 \<Rightarrow> u32 \<Rightarrow> u32 \<Rightarrow> fat_file \<Rightarrow> fault + (int \<times> u8 list \<times> fat_file)" where
  "file_readFully v fs n togo f =
     (if togo = 0 then Inr (sint n, [], f)
      else bindE (file_read v fs togo f) (\<lambda>(c, xs, f1).
        if c < 0 then Inr (c, [], f1)
        else if c = 0 then Inr (sint (n - togo), [], f1)
        else bindE (file_readFully v fs n (togo - of_int c) f1) (\<lambda>(r, ys, f2).
               Inr (r, xs @ ys, f2))))"
  by pat_completeness auto
termination
proof (relation "measure (\<lambda>(v, fs, n, togo, f). unat togo)", goal_cases)
  case (2 v fs n togo f r cnt r2 xs f1)
  then have c: "0 < cnt" "of_read v fs (ff_openFile f) (ff_offset f) togo = Inr (cnt, xs)"
    by (auto simp: file_read_def)
  from of_read_count [OF c(2,1)] c(1)
  have "unat (of_int cnt :: u32) = nat cnt" "0 < nat cnt" "nat cnt \<le> nat (uint togo)"
    by (simp_all only: unat_eq_nat_uint)
  then have "0 < unat (of_int cnt :: u32)" "unat (of_int cnt :: u32) \<le> unat togo"
    by (simp_all only: unat_eq_nat_uint)
  then show ?case by (simp add: unat_sub word_le_nat_alt)
qed simp

declare file_readFully.simps [simp del]

text \<open>
  \<^verbatim>\<open>forkMe\<close>: a second file on the same \<^verbatim>\<open>OpenFile\<close>, with the offset of the first.
\<close>

definition file_forkMe :: "fat_file \<Rightarrow> 'd fat439 \<Rightarrow> fault + (fat_file \<times> 'd fat439)" where
  "file_forkMe f fs =
     bindE (file_at fs (ff_openFile f)) (\<lambda>p.
       let fs1 = slot_put (ff_openFile f) (Some (p\<lparr>of_count := of_count p + 1\<rparr>)) fs
       in Inr ((new_File (ff_openFile f))\<lparr>ff_offset := ff_offset f\<rparr>, fs1))"

definition file_delete :: "fat_file \<Rightarrow> 'd fat439 \<Rightarrow> fault + 'd fat439" where
  "file_delete f fs = closeFile (ff_openFile f) fs"

section \<open>Fat439Directory\<close>

text \<open>\<^verbatim>\<open>content\<close> is the open file of block \<open>start\<close>.\<close>

record fat_dir =
  d_start :: u32
  d_entries :: u32

definition new_Directory :: "'d driver \<Rightarrow> u32 \<Rightarrow> 'd fat439 \<Rightarrow> fault + (fat_dir \<times> 'd fat439)" where
  "new_Directory v start fs =
     bindE (openFile v start fs) (\<lambda>fs1.
     bindE (file_at fs1 start) (\<lambda>content.
       Inr (\<lparr>d_start = start, d_entries = m_length (of_meta content) div DIR_ENTRY_SZ\<rparr>, fs1)))"

definition dir_refresh :: "'d fat439 \<Rightarrow> fat_dir \<Rightarrow> fault + fat_dir" where
  "dir_refresh fs dir =
     bindE (file_at fs (d_start dir)) (\<lambda>content.
       Inr (dir\<lparr>d_entries := m_length (of_meta content) div DIR_ENTRY_SZ\<rparr>))"

definition getPrevDirectory :: "'d driver \<Rightarrow> fat_dir \<Rightarrow> 'd fat439 \<Rightarrow> fault + (fat_dir \<times> 'd fat439)" where
  "getPrevDirectory v dir fs =
     bindE (dev_read v (dev fs) (d_start dir + 2 * 4) 4) (\<lambda>(xs, _).
       let idx = le_word (splice 0 xs [0, 0, 0, 0])
       in if idx = 0 then Inr (dir, fs) else new_Directory v idx fs)"

text \<open>
  The comparison of the name in a directory entry with the name looked up, from character \<open>i\<close>
  on: a match needs a terminating NUL within the 12 bytes.
\<close>

function name_matches :: "nat \<Rightarrow> u8 list \<Rightarrow> cstring \<Rightarrow> nat option" where
  "name_matches i entry name =
     (if i \<ge> 12 then None
      else if entry ! i \<noteq> cstr name i then None
      else if entry ! i = 0 then Some i
      else name_matches (Suc i) entry name)"
  by pat_completeness auto
termination by (relation "measure (\<lambda>(i, entry, name). 12 - i)") auto

declare name_matches.simps [simp del]

definition entry_start :: "u8 list \<Rightarrow> u32" where
  "entry_start entry = le_word (take 4 (drop 12 entry))"

definition is_dot :: "cstring \<Rightarrow> bool" where
  "is_dot name \<longleftrightarrow> cstr name 0 = 46 \<and> cstr name 1 = 0"

definition is_dotdot :: "cstring \<Rightarrow> bool" where
  "is_dotdot name \<longleftrightarrow> cstr name 0 = 46 \<and> cstr name 1 = 46 \<and> cstr name 2 = 0"

text \<open>
  The loop of \<^verbatim>\<open>lookup\<close> over the \<open>k\<close> remaining entries. The buffer \<open>entry\<close> keeps
  its bytes when a read returns fewer of them.
\<close>

fun lookup_loop :: "'d driver \<Rightarrow> 'd fat439 \<Rightarrow> u32 \<Rightarrow> cstring \<Rightarrow> nat \<Rightarrow> u32 \<Rightarrow> u8 list \<Rightarrow> fault + u32" where
  "lookup_loop v fs content name 0 offset entry = Inr 0"
| "lookup_loop v fs content name (Suc k) offset entry =
     bindE (of_readFully v fs content offset DIR_ENTRY_SZ DIR_ENTRY_SZ) (\<lambda>(_, xs).
       let entry' = splice 0 xs entry
       in case name_matches 0 entry' name of
            Some _ \<Rightarrow> Inr (entry_start entry')
          | None \<Rightarrow> lookup_loop v fs content name k (offset + DIR_ENTRY_SZ) entry')"

definition dir_lookup :: "'d driver \<Rightarrow> 'd fat439 \<Rightarrow> fat_dir \<Rightarrow> u8 list \<Rightarrow> cstring \<Rightarrow> fault + u32" where
  "dir_lookup v fs dir junk name =
     (if is_dot name then Inr (d_start dir)
      else if is_dotdot name
      then bindE (file_at fs (d_start dir)) (\<lambda>content. Inr (m_parentDir (of_meta content)))
      else lookup_loop v fs (d_start dir) name (unat (d_entries dir)) 0 junk)"

text \<open>
  \<^verbatim>\<open>lookupEntry\<close>. The inner loop declares its own \<^verbatim>\<open>int i\<close>, so \<^verbatim>\<open>return i\<close>
  returns the position in the name.
\<close>

fun lookupEntry_loop :: "'d driver \<Rightarrow> 'd fat439 \<Rightarrow> u32 \<Rightarrow> cstring \<Rightarrow> nat \<Rightarrow> u32 \<Rightarrow> u8 list \<Rightarrow> fault + int" where
  "lookupEntry_loop v fs content name 0 offset entry = Inr (-1)"
| "lookupEntry_loop v fs content name (Suc k) offset entry =
     bindE (of_readFully v fs content offset DIR_ENTRY_SZ DIR_ENTRY_SZ) (\<lambda>(_, xs).
       let entry' = splice 0 xs entry
       in case name_matches 0 entry' name of
            Some i \<Rightarrow> Inr (int i)
          | None \<Rightarrow> lookupEntry_loop v fs content name k (offset + DIR_ENTRY_SZ) entry')"

definition lookupEntry :: "'d driver \<Rightarrow> 'd fat439 \<Rightarrow> fat_dir \<Rightarrow> u8 list \<Rightarrow> cstring \<Rightarrow> fault + int" where
  "lookupEntry v fs dir junk name =
     (if is_dot name then Inr 12
      else if is_dotdot name then Inr 8
      else lookupEntry_loop v fs (d_start dir) name (unat (d_entries dir)) 0 junk)"

definition dir_remove :: "'d driver \<Rightarrow> u8 list \<Rightarrow> cstring \<Rightarrow> fat_dir \<Rightarrow> 'd fat439 \<Rightarrow> fault + (int \<times> fat_dir \<times> 'd fat439)" where
  "dir_remove v junk name dir fs =
     bindE (dir_lookup v fs dir junk name) (\<lambda>blk.
     if blk = 0 then Inr (ERR_NOT_FOUND, dir, fs)
     else
       bindE (openFile v blk fs) (\<lambda>fs1.
       bindE (file_at fs1 blk) (\<lambda>obj.
       if m_type (of_meta obj) = TYPE_DIR \<and> m_length (of_meta obj) \<noteq> 0 then Inr (ERR_IS_DIR, dir, fs1)
       else
         bindE (lookupEntry v fs1 dir junk name) (\<lambda>e.
         let entryOffset = e * uint DIR_ENTRY_SZ + uint HEADER_SZ in
         if entryOffset < 0 then Inr (ERR_NOT_POSSIBLE, dir, fs1)
         else
           bindE (remFromOffset v (d_start dir) (of_int entryOffset) DIR_ENTRY_SZ fs1) (\<lambda>(code, fs2).
           if code \<ge> 0 then
             bindE (of_resize v blk 0 fs2) (\<lambda>fs3.
             bindE (addAvailBlk blk fs3) (\<lambda>fs4.
             bindE (fs_sync v fs4) (\<lambda>fs5.
             bindE (dir_refresh fs5 dir) (\<lambda>dir'. Inr (code, dir', fs5)))))
           else Inr (code, dir, fs2))))))"

text \<open>The name field of a new entry: the rest of the field keeps what was on the stack.\<close>

definition entry_name :: "u8 list \<Rightarrow> cstring \<Rightarrow> u8 list" where
  "entry_name junk name =
     (let ni = min 12 (nat (K_strlen name));
          field = splice 0 (take ni name) (take 12 junk)
      in if ni < 12 then field[ni := 0] else field)"

definition dir_mkdir :: "'d driver \<Rightarrow> u8 list \<Rightarrow> cstring \<Rightarrow> fat_dir \<Rightarrow> 'd fat439 \<Rightarrow> fault + (int \<times> fat_dir \<times> 'd fat439)" where
  "dir_mkdir v junk name dir fs =
     bindE (file_at fs (d_start dir)) (\<lambda>content.
     if m_type (of_meta content) \<noteq> TYPE_DIR then Inr (ERR_NOT_DIR, dir, fs)
     else if K_strlen name \<ge> 12 then Inr (ERR_FL_NAMELEN, dir, fs)
     else if K_contains name 47 \<noteq> 0 then Inr (ERR_INVL_CHAR, dir, fs)
     else
       bindE (dir_lookup v fs dir junk name) (\<lambda>found.
       if found \<noteq> 0 then Inr (ERR_FL_EXIST, dir, fs)
       else if d_start dir = sb_root (super fs)
         \<and> m_length (of_meta content) + HEADER_SZ + DIR_ENTRY_SZ \<ge> blockSize v
       then Inr (ERR_NO_ROOT_SPACE, dir, fs)
       else
         bindE (remNextAvail fs) (\<lambda>(blockToUse, fs1).
         if blockToUse = 0 then Inr (ERR_NO_SPACE, dir, fs1)
         else
           (let metaData = \<lparr>m_type = TYPE_DIR, m_length = 0, m_parentDir = d_start dir,
                            m_currentBlk = blockToUse\<rparr>;
                entry = entry_name junk name @ le_bytes blockToUse
            in bindE (dev_write v (dev fs1) (blockToUse * blockSize v) (meta_bytes metaData) 16) (\<lambda>(_, d).
               bindE (of_append v (d_start dir) entry 16 (fs1\<lparr>dev := d\<rparr>)) (\<lambda>(success, fs2).
               if success \<noteq> 0 then Inr (ERR_DEVWRITE, dir, fs2)
               else Inr (0, dir\<lparr>d_entries := d_entries dir + 1\<rparr>, fs2)))))))"

text \<open>\<^verbatim>\<open>lookupFile\<close> and \<^verbatim>\<open>lookupDirectory\<close>; \<open>None\<close> is the null pointer.\<close>

definition lookupFile :: "'d driver \<Rightarrow> u8 list \<Rightarrow> cstring option \<Rightarrow> fat_dir \<Rightarrow> 'd fat439 \<Rightarrow> fault + (fat_file option \<times> 'd fat439)" where
  "lookupFile v junk name dir fs =
     (case name of None \<Rightarrow> Inr (None, fs)
      | Some nm \<Rightarrow>
          bindE (dir_lookup v fs dir junk nm) (\<lambda>idx.
          if idx = 0 then Inr (None, fs)
          else bindE (openFile v idx fs) (\<lambda>fs1. Inr (Some (new_File idx), fs1))))"

definition lookupDirectory :: "'d driver \<Rightarrow> u8 list \<Rightarrow> cstring option \<Rightarrow> fat_dir \<Rightarrow> 'd fat439 \<Rightarrow> fault + (fat_dir option \<times> 'd fat439)" where
  "lookupDirectory v junk name dir fs =
     (case name of None \<Rightarrow> Inr (None, fs)
      | Some nm \<Rightarrow>
          bindE (dir_lookup v fs dir junk nm) (\<lambda>idx.
          if idx = 0 then Inr (None, fs)
          else bindE (new_Directory v idx fs) (\<lambda>(d, fs1). Inr (Some d, fs1))))"

text \<open>
  \<^verbatim>\<open>lookupDirectory(const char** path)\<close>: the loop looks every component up in this directory.
  The path is the list of its components before the terminating null pointer.
\<close>

fun path_loop :: "'d driver \<Rightarrow> 'd fat439 \<Rightarrow> fat_dir \<Rightarrow> u8 list \<Rightarrow> u32 \<Rightarrow> cstring list \<Rightarrow> fault + u32" where
  "path_loop v fs dir junk idx [] = Inr idx"
| "path_loop v fs dir junk idx (c # cs) =
     bindE (dir_lookup v fs dir junk c) (\<lambda>i.
       if i = 0 then Inr 0 else path_loop v fs dir junk i cs)"

definition lookupDirectory_path :: "'d driver \<Rightarrow> u8 list \<Rightarrow> cstring list option \<Rightarrow> fat_dir \<Rightarrow> 'd fat439 \<Rightarrow> fault + (fat_dir option \<times> 'd fat439)" where
  "lookupDirectory_path v junk path dir fs =
     bindE (path_loop v fs dir junk 0 (case path of None \<Rightarrow> [] | Some cs \<Rightarrow> cs)) (\<lambda>idx.
     if idx = 0 then Inr (None, fs)
     else bindE (new_Directory v idx fs) (\<lambda>(d, fs1). Inr (Some d, fs1)))"

text \<open>\<^verbatim>\<open>listFiles\<close>: the names it prints, each up to its NUL.\<close>

fun list_loop :: "'d driver \<Rightarrow> 'd fat439 \<Rightarrow> u32 \<Rightarrow> nat \<Rightarrow> u32 \<Rightarrow> u8 list \<Rightarrow> fault + u8 list list" where
  "list_loop v fs content 0 offset entry = Inr []"
| "list_loop v fs content (Suc k) offset entry =
     bindE (of_readFully v fs content offset DIR_ENTRY_SZ DIR_ENTRY_SZ) (\<lambda>(_, xs).
       let entry' = splice 0 xs entry
       in bindE (list_loop v fs content k (offset + DIR_ENTRY_SZ) entry') (\<lambda>out.
            Inr (ctext entry' # out)))"

definition listFiles :: "'d driver \<Rightarrow> 'd fat439 \<Rightarrow> fat_dir \<Rightarrow> u8 list \<Rightarrow> fault + u8 list list" where
  "listFiles v fs dir junk = list_loop v fs (d_start dir) (unat (d_entries dir)) 0 junk"

section \<open>Mounting\<close>

definition expectedMagic :: u32 where
  "expectedMagic = 0x39333446"

definition mount :: "'d driver \<Rightarrow> 'd \<Rightarrow> fault + (fat_dir \<times> 'd fat439)" where
  "mount v d =
     bindE (dev_readFully v d 0 16) (\<lambda>xs.
     let s = super_of_bytes xs in
     if sb_magic s \<noteq> expectedMagic then Inl (Panic ''bad magic'')
     else
       bindE (dev_readFully v d BLOCK_SZ (sb_nBlocks s * 4)) (\<lambda>ys.
         new_Directory v (sb_root s)
           \<lparr>dev = d, super = s, fat = take (unat (sb_nBlocks s)) (le_words ys), openFilesMutex = 1,
            openFiles = replicate (unat (sb_nBlocks s)) None\<rparr>))"

end
