(* ===== verification/Fat439_Files.thy ===== *)
theory Fat439_Files
  imports Fat439
begin

text \<open>
  The FAT and the contents of files. A chain of the FAT is a list of blocks; the free blocks form
  one such list and so does each file. \<open>file_byte\<close> is the abstract content of a file, the bytes
  of its blocks after the header; the reading operations are proved against it. The locale
  \<open>volume\<close> is the contract of the device under a file system.
\<close>

section \<open>Chains\<close>

fun chain :: "u32 list \<Rightarrow> u32 \<Rightarrow> u32 list \<Rightarrow> bool" where
  "chain f b [] \<longleftrightarrow> b = 0"
| "chain f b (x # xs) \<longleftrightarrow> b = x \<and> x \<noteq> 0 \<and> unat x < length f \<and> chain f (f ! unat x) xs"

lemma chain_nonzero: "chain f b xs \<Longrightarrow> x \<in> set xs \<Longrightarrow> x \<noteq> 0 \<and> unat x < length f"
  by (induction xs arbitrary: b) auto

lemma chain_unique: "chain f b xs \<Longrightarrow> chain f b ys \<Longrightarrow> xs = ys"
proof (induction xs arbitrary: b ys)
  case Nil
  then show ?case by (cases ys) auto
next
  case (Cons x xs)
  then show ?case by (cases ys) auto
qed

lemma chain_suffix: "chain f b (xs @ x # ys) \<Longrightarrow> chain f x (x # ys)"
  by (induction xs arbitrary: b) auto

lemma chain_distinct: "chain f b xs \<Longrightarrow> distinct xs"
proof (induction xs arbitrary: b)
  case (Cons x xs)
  have "x \<notin> set xs"
  proof
    assume "x \<in> set xs"
    then obtain us vs where xs: "xs = us @ x # vs" by (meson split_list)
    from Cons.prems have c: "chain f x (x # xs)" by auto
    from Cons.prems xs have "chain f x (x # vs)" using chain_suffix [of f b "x # us" x vs] by simp
    from chain_unique [OF c this] xs show False by (auto dest: arg_cong [of _ _ length])
  qed
  with Cons show ?case by auto
qed simp

lemma chain_length: "chain f b xs \<Longrightarrow> length xs \<le> length f"
proof -
  assume c: "chain f b xs"
  have "unat ` set xs \<subseteq> {..< length f}" using chain_nonzero [OF c] by auto
  then have "card (unat ` set xs) \<le> length f" by (metis card_lessThan card_mono finite_lessThan)
  moreover have inj: "inj_on (unat :: u32 \<Rightarrow> nat) (set xs)"
    by (auto intro!: inj_onI simp: word_unat_eq_iff)
  have "card (unat ` set xs) = length xs"
    using chain_distinct [OF c] inj
    by (simp add: card_image distinct_card)
  ultimately show ?thesis by simp
qed

lemma chain_update_other: "b' \<notin> set xs \<Longrightarrow> chain (f[unat b' := y]) b xs = chain f b xs"
proof (induction xs arbitrary: b)
  case (Cons x xs)
  then have "unat x \<noteq> unat b'" by (auto simp: word_unat_eq_iff)
  with Cons show ?case by simp
qed simp

text \<open>Linking the end of one chain to the start of another.\<close>

lemma chain_link:
  assumes "chain f b (xs @ [e])" "chain f b' ys" "set (xs @ [e]) \<inter> set ys = {}"
  shows "chain (f[unat e := b']) b (xs @ [e] @ ys)"
  using assms
proof (induction xs arbitrary: b)
  case Nil
  then show ?case by (simp add: chain_update_other)
next
  case (Cons x xs)
  from Cons.prems(1) have "distinct (x # xs @ [e])" using chain_distinct by fastforce
  then have "unat x \<noteq> unat e" by (auto simp: word_unat_eq_iff)
  with Cons show ?case by simp
qed

section \<open>The free list\<close>

definition free_blocks :: "'d fat439 \<Rightarrow> u32 list \<Rightarrow> bool" where
  "free_blocks fs bs \<longleftrightarrow> chain (fat fs) (sb_avail (super fs)) bs"

lemma fat_at_Inr [simp]: "unat i < length (fat fs) \<Longrightarrow> fat_at fs i = Inr (fat fs ! unat i)"
  by (simp add: fat_at_def)

lemma fat_put_Inr [simp]: "unat i < length (fat fs) \<Longrightarrow> fat_put i x fs = Inr (fs\<lparr>fat := (fat fs)[unat i := x]\<rparr>)"
  by (simp add: fat_put_def)

lemma set_avail_simps [simp]:
  "fat (set_avail b fs) = fat fs" "sb_avail (super (set_avail b fs)) = b" "dev (set_avail b fs) = dev fs"
  "openFiles (set_avail b fs) = openFiles fs" "openFilesMutex (set_avail b fs) = openFilesMutex fs"
  "sb_root (super (set_avail b fs)) = sb_root (super fs)"
  "sb_nBlocks (super (set_avail b fs)) = sb_nBlocks (super fs)"
  by (simp_all add: set_avail_def)

lemma remNextAvail_none: "free_blocks fs [] \<Longrightarrow> remNextAvail fs = Inr (0, fs)"
  by (simp add: free_blocks_def remNextAvail_def)

lemma remNextAvail_some:
  assumes "free_blocks fs (b # bs)"
  shows "remNextAvail fs = Inr (b, (set_avail (fat fs ! unat b) fs)\<lparr>fat := (fat fs)[unat b := 0]\<rparr>)"
  using assms by (auto simp: free_blocks_def remNextAvail_def Let_def)

lemma chain_end_last:
  "chain (fat fs) b (xs @ [e]) \<Longrightarrow> length xs < fuel \<Longrightarrow> chain_end fuel fs b = Inr e"
proof (induction xs arbitrary: b fuel)
  case Nil
  then show ?case by (cases fuel) auto
next
  case (Cons x xs)
  then obtain k where k: "fuel = Suc k" by (cases fuel) auto
  from Cons.prems have "fat fs ! unat x \<noteq> 0" by (cases xs) auto
  with Cons k show ?case by auto
qed

lemma follow_chain:
  "chain (fat fs) b xs \<Longrightarrow> k \<le> length xs \<Longrightarrow> follow fs k b = Inr (if k < length xs then xs ! k else 0)"
proof (induction xs arbitrary: b k)
  case (Cons x xs)
  then show ?case by (cases k) auto
qed simp

section \<open>The device under a file system\<close>

locale volume = block_device "blockSize v" "readBlock v" "writeBlock v" for v :: "'d driver" +
  assumes sector_size: "blockSize v = 512"

definition ide_driver :: "disk_image driver" where
  "ide_driver = \<lparr>blockSize = SECTOR_SIZE, readBlock = ide_rb image_polls image_in 3,
                 writeBlock = ide_wb image_polls image_out 3\<rparr>"

interpretation hdv: volume ide_driver
  unfolding ide_driver_def volume_def volume_axioms_def
  using image_device by (simp add: SECTOR_SIZE_def)

section \<open>Contents of a file\<close>

definition disk_byte :: "'d driver \<Rightarrow> 'd \<Rightarrow> nat \<Rightarrow> u8" where
  "disk_byte v d = dev_byte (blockSize v) (readBlock v) d"

definition file_pos :: "u32 list \<Rightarrow> nat \<Rightarrow> nat" where
  "file_pos xs i = unat (xs ! ((i + 16) div 512)) * 512 + (i + 16) mod 512"

definition file_byte :: "'d driver \<Rightarrow> 'd fat439 \<Rightarrow> u32 list \<Rightarrow> nat \<Rightarrow> u8" where
  "file_byte v fs xs i = disk_byte v (dev fs) (file_pos xs i)"

text \<open>
  An open file whose blocks \<open>xs\<close> hold its header and all its bytes; block numbers stay below
  \<open>2 ^ 23\<close>, so that byte offsets on the device fit in 32 bits.
\<close>

definition wf_file :: "'d fat439 \<Rightarrow> u32 \<Rightarrow> open_file \<Rightarrow> u32 list \<Rightarrow> bool" where
  "wf_file fs start f xs \<longleftrightarrow>
     file_at fs start = Inr f \<and> of_start f = start \<and> chain (fat fs) start xs
     \<and> length (fat fs) \<le> 2 ^ 23
     \<and> unat (m_length (of_meta f)) + 16 \<le> 512 * length xs \<and> unat (m_length (of_meta f)) + 16 < 2 ^ 32"

text \<open>The number of bytes one \<^verbatim>\<open>read\<close> returns.\<close>

definition read_count :: "open_file \<Rightarrow> nat \<Rightarrow> nat \<Rightarrow> nat" where
  "read_count f off n = min (min n (unat (m_length (of_meta f)) - off)) (512 - (off + 16) mod 512)"

lemma read_count_bounds:
  "read_count f off n \<le> n" "read_count f off n \<le> 512" "(off + 16) mod 512 + read_count f off n \<le> 512"
  by (auto simp: read_count_def min_def)

lemma file_pos_shift:
  assumes "(off + 16) mod 512 + k < 512"
  shows "file_pos xs (off + k) = file_pos xs off + k"
proof -
  have "off + k + 16 = (off + 16) + k" by simp
  then show ?thesis using div_mod_shift [OF assms] by (simp only: file_pos_def add.assoc)
qed

context volume
begin

lemma of_read_slice:
  assumes wf: "wf_file fs start f xs" and off: "unat off \<le> unat (m_length (of_meta f))"
  shows "of_read v fs start off n =
    Inr (int (read_count f (unat off) (unat n)),
         map (file_byte v fs xs) [unat off ..< unat off + read_count f (unat off) (unat n)])"
proof -
  let ?L = "m_length (of_meta f)"
  let ?len = "fs_min n (?L - off)"
  let ?c = "read_count f (unat off) (unat n)"
  note W = wf [unfolded wf_file_def]
  have a: "unat (off + HEADER_SZ) = unat off + 16"
    using W off by (simp add: HEADER_SZ_def unat_plus_u32)
  have len: "unat ?len = min (unat n) (unat ?L - unat off)"
    using off by (auto simp: fs_min_def word_less_nat_alt unat_sub word_le_nat_alt min_def)
  let ?k = "(unat off + 16) div 512"
  have k: "unat ((off + HEADER_SZ) div BLOCK_SZ) = ?k" "unat ((off + HEADER_SZ) mod BLOCK_SZ) = (unat off + 16) mod 512"
    using a by (simp_all add: unat_div unat_mod BLOCK_SZ_def)
  have kle: "?k \<le> length xs" using W off by linarith
  obtain b where b: "follow fs ?k start = Inr b" "?k < length xs \<Longrightarrow> b = xs ! ?k" "unat b < 2 ^ 23"
  proof -
    have "unat (xs ! ?k) < 2 ^ 23" if "?k < length xs"
      using W that chain_nonzero [of "fat fs" start xs "xs ! ?k"] nth_mem [OF that] by force
    then show ?thesis using that [of "if ?k < length xs then xs ! ?k else 0"] W
      follow_chain [OF _ kle, of fs start] by simp
  qed
  let ?addr = "b * BLOCK_SZ + (off + HEADER_SZ) mod BLOCK_SZ"
  have addr: "unat ?addr = unat b * 512 + (unat off + 16) mod 512"
  proof -
    have "unat (b * BLOCK_SZ) = unat b * 512"
      using b(3) by (simp add: BLOCK_SZ_def unat_word_ariths)
    then show ?thesis using b(3) k(2) by (subst unat_plus_u32) auto
  qed
  have c: "unat (chunk (blockSize v) ?addr ?len) = ?c"
    using unat_chunk [OF bs_pos, of ?addr ?len] len addr by (simp add: read_count_def sector_size)
  have sc: "sint (chunk (blockSize v) ?addr ?len) = int ?c"
  proof -
    have "unat (chunk (blockSize v) ?addr ?len) < 2 ^ 31"
      using c read_count_bounds(2) [of f "unat off" "unat n"] by simp
    then show ?thesis unfolding c [symmetric] by (rule sint_small)
  qed
  have "map (dev_byte (blockSize v) (readBlock v) (dev fs)) [unat ?addr ..< unat ?addr + ?c]
      = map (file_byte v fs xs) [unat off ..< unat off + ?c]"
  proof (rule nth_equalityI; clarsimp)
    fix i assume i: "i < ?c"
    then have "unat off < unat ?L" by (auto simp: read_count_def)
    then have "?k < length xs" using W by linarith
    then have "unat ?addr = file_pos xs (unat off)" using addr b(2) by (simp add: file_pos_def)
    then show "dev_byte (blockSize v) (readBlock v) (dev fs) (unat ?addr + i) = file_byte v fs xs (unat off + i)"
      using file_pos_shift [of "unat off" i xs] i read_count_bounds(3) [of "unat off" f "unat n"]
      by (simp add: file_byte_def disk_byte_def)
  qed
  then show ?thesis
    using W off k b(1) c sc read_image [of "dev fs" ?addr ?len]
    by (simp add: of_read_def Let_def word_less_nat_alt not_less)
qed

lemma file_read_slice:
  assumes "wf_file fs start f xs" "unat (ff_offset F) \<le> unat (m_length (of_meta f))" "ff_openFile F = start"
  shows "file_read v fs n F =
    (let off = unat (ff_offset F); c = read_count f off (unat n)
     in Inr (int c, map (file_byte v fs xs) [off ..< off + c], F\<lparr>ff_offset := of_nat (off + c)\<rparr>))"
  using of_read_slice [OF assms(1,2), of n] assms(3) by (simp add: file_read_def Let_def)

text \<open>
  \<^verbatim>\<open>File::readFully\<close> advances the offset of the file between its reads, so it returns all
  the bytes there are.
\<close>

lemma file_readFully_slice:
  assumes wf: "wf_file fs start f xs" and n: "unat n < 2 ^ 31"
  shows "unat togo \<le> unat n \<Longrightarrow> unat (ff_offset F) \<le> unat (m_length (of_meta f)) \<Longrightarrow>
    ff_openFile F = start \<Longrightarrow>
    file_readFully v fs n togo F =
      (let off = unat (ff_offset F); m = min (unat togo) (unat (m_length (of_meta f)) - off)
       in Inr (int (unat n - unat togo + m), map (file_byte v fs xs) [off ..< off + m],
               F\<lparr>ff_offset := of_nat (off + m)\<rparr>))"
proof (induction "unat togo" arbitrary: togo F rule: less_induct)
  case less
  let ?off = "unat (ff_offset F)" and ?L = "unat (m_length (of_meta f))"
  let ?c = "read_count f ?off (unat togo)"
  have len: "?L < 2 ^ 32" using wf by (simp add: wf_file_def)
  note R = file_read_slice [OF wf less.prems(2,3), of togo, unfolded Let_def]
  consider "togo = 0" | "togo \<noteq> 0" "?c = 0" | "togo \<noteq> 0" "0 < ?c" by blast
  then show ?case
  proof cases
    case 1
    then show ?thesis using n by (simp add: file_readFully.simps sint_small)
  next
    case 2
    then have "?off = ?L" using less.prems(2) by (auto simp: read_count_def min_def unat_eq_0 split: if_splits)
    moreover have "sint (n - togo) = int (unat n - unat togo)"
      using n less.prems(1) by (subst sint_small) (simp_all add: unat_sub word_le_nat_alt)
    ultimately show ?thesis using 2 R by (simp add: file_readFully.simps [of v fs n togo])
  next
    case 3
    have c: "?c \<le> unat togo" "?off + ?c \<le> ?L"
      using 3(2) by (auto simp: read_count_def)
    have uc: "unat (of_nat ?c :: u32) = ?c" using c len by (intro unat_of_nat_u32) simp
    have togo': "unat (togo - of_nat ?c) = unat togo - ?c" using c uc by (simp add: unat_sub word_le_nat_alt)
    let ?F = "F\<lparr>ff_offset := of_nat (?off + ?c)\<rparr>"
    have off': "unat (ff_offset ?F) = ?off + ?c" using c len by (simp del: of_nat_add add: unat_of_nat_u32)
    let ?m = "min (unat togo - ?c) (?L - (?off + ?c))"
    have IH: "file_readFully v fs n (togo - of_nat ?c) ?F =
      Inr (int (unat n - (unat togo - ?c) + ?m), map (file_byte v fs xs) [?off + ?c ..< ?off + ?c + ?m],
           F\<lparr>ff_offset := of_nat (?off + ?c + ?m)\<rparr>)"
      using less.hyps [of "togo - of_nat ?c" ?F] less.prems c 3(2) togo' off'
      by (simp add: Let_def)
    have m: "min (unat togo) (?L - ?off) = ?c + ?m" using c by (auto simp: min_def)
    have "map (file_byte v fs xs) [?off ..< ?off + (?c + ?m)] =
        map (file_byte v fs xs) [?off ..< ?off + ?c] @ map (file_byte v fs xs) [?off + ?c ..< ?off + ?c + ?m]"
      using upt_add_eq_append [of ?off "?off + ?c" ?m] by (simp add: add.assoc)
    moreover have "unat n - unat togo + (?c + ?m) = unat n - (unat togo - ?c) + ?m"
      using c less.prems(1) by linarith
    ultimately show ?thesis
      using 3 R IH unfolding file_readFully.simps [of v fs n togo] Let_def m by (simp add: add.assoc)
  qed
qed

text \<open>
  \<^verbatim>\<open>OpenFile::readFully\<close> does not advance: it repeats the bytes of the first read.
\<close>

lemma of_readFully_repeats:
  assumes wf: "wf_file fs start f xs" and n: "unat n < 2 ^ 31"
    and off: "unat off < unat (m_length (of_meta f))"
    and c: "c = min (unat (m_length (of_meta f)) - unat off) (512 - (unat off + 16) mod 512)"
  shows "of_readFully v fs start off n togo =
    Inr (int (unat n), map (\<lambda>k. file_byte v fs xs (unat off + k mod c)) [0 ..< unat togo])"
proof (induction "unat togo" arbitrary: togo rule: less_induct)
  case less
  have c0: "0 < c" using off by (simp add: c)
  have rc: "read_count f (unat off) (unat togo) = min (unat togo) c" by (simp add: read_count_def c min.assoc)
  note R = of_read_slice [OF wf less_imp_le [OF off], of togo, unfolded rc]
  consider "togo = 0" | "togo \<noteq> 0" "unat togo \<le> c" | "c < unat togo" by fastforce
  then show ?case
  proof cases
    case 1
    then show ?thesis using n by (simp add: of_readFully.simps sint_small)
  next
    case 2
    then have m: "min (unat togo) c = unat togo" by simp
    have "map (file_byte v fs xs) [unat off ..< unat off + unat togo]
        = map (\<lambda>k. file_byte v fs xs (unat off + k mod c)) [0 ..< unat togo]"
      using 2 by (intro nth_equalityI) auto
    moreover have "uint togo \<noteq> 0" using 2(1) by (simp add: uint_0_iff)
    ultimately show ?thesis
      using 2 R n unfolding m
      by (simp add: of_readFully.simps [of v fs start off n togo] of_readFully.simps [of v fs start off n 0]
          sint_small unat_eq_0)
  next
    case 3
    then have m: "min (unat togo) c = c" and t: "togo \<noteq> 0" by auto
    have "c \<le> 512" by (simp add: c)
    then have uc: "unat (of_nat c :: u32) = c" by (intro unat_of_nat_u32) simp
    have togo': "unat (togo - of_nat c) = unat togo - c" using 3 uc by (simp add: unat_sub word_le_nat_alt)
    have "map (file_byte v fs xs) [unat off ..< unat off + c]
        @ map (\<lambda>k. file_byte v fs xs (unat off + k mod c)) [0 ..< unat togo - c]
      = map (\<lambda>k. file_byte v fs xs (unat off + k mod c)) [0 ..< unat togo]"
      using 3 by (intro nth_equalityI) (auto simp: nth_append le_mod_geq)
    then show ?thesis
      using t R less.hyps [of "togo - of_nat c"] togo' 3 c0 unfolding m
      by (simp add: of_readFully.simps [of v fs start off n togo])
  qed
qed

text \<open>Within one block it reads what it is asked for.\<close>

lemma of_readFully_block:
  assumes wf: "wf_file fs start f xs" and n: "(unat off + 16) mod 512 + unat n \<le> 512"
    and off: "unat off + unat n \<le> unat (m_length (of_meta f))" and n0: "n \<noteq> 0"
  shows "of_readFully v fs start off n n =
    Inr (int (unat n), map (file_byte v fs xs) [unat off ..< unat off + unat n])"
proof -
  define c where "c = min (unat (m_length (of_meta f)) - unat off) (512 - (unat off + 16) mod 512)"
  have "0 < unat n" using n0 by (simp add: unat_gt_0)
  have c: "unat n \<le> c" unfolding c_def using n off by (intro min.boundedI) linarith+
  have "map (\<lambda>k. file_byte v fs xs (unat off + k mod c)) [0 ..< unat n]
      = map (file_byte v fs xs) [unat off ..< unat off + unat n]"
    using c by (intro nth_equalityI) auto
  moreover have "unat n < 2 ^ 31" using n by simp
  moreover have "unat off < unat (m_length (of_meta f))" using off \<open>0 < unat n\<close> by simp
  ultimately show ?thesis using of_readFully_repeats [OF wf _ _ c_def, of n n] by simp
qed

end

section \<open>Opening a file\<close>

text \<open>
  The file in block \<open>b\<close> with chain \<open>xs\<close> and header \<open>m\<close>, which is in the object of the open file if there
  is one, and on the disk otherwise.
\<close>

definition stored :: "'d driver \<Rightarrow> 'd fat439 \<Rightarrow> u32 \<Rightarrow> u32 list \<Rightarrow> meta_data \<Rightarrow> bool" where
  "stored v fs b xs m \<longleftrightarrow> chain (fat fs) b xs \<and> length (fat fs) \<le> 2 ^ 23 \<and> length (openFiles fs) = length (fat fs)
   \<and> openFilesMutex fs \<noteq> 0 \<and> unat (m_length m) + 16 \<le> 512 * length xs \<and> unat (m_length m) + 16 < 2 ^ 32
   \<and> (case openFiles fs ! unat b of
        Some f \<Rightarrow> of_start f = b \<and> of_meta f = m
      | None \<Rightarrow> m = meta_of_bytes (map (disk_byte v (dev fs)) [512 * unat b ..< 512 * unat b + 16]))"

lemma openFile_stored:
  assumes v: "volume v" and s: "stored v fs b xs m"
  obtains fs' f where "openFile v b fs = Inr fs'" "wf_file fs' b f xs" "of_meta f = m" "dev fs' = dev fs" "fat fs' = fat fs"
proof -
  have b: "unat b < length (fat fs)" using s by (cases xs) (auto simp: stored_def)
  then have b23: "unat b < 2 ^ 23" "unat b < length (openFiles fs)" using s by (auto simp: stored_def)
  define f0 where "f0 = (case openFiles fs ! unat b of Some f \<Rightarrow> f | None \<Rightarrow> \<lparr>of_start = b, of_meta = m, of_count = 0\<rparr>)"
  have f0: "of_start f0 = b" "of_meta f0 = m" using s by (auto simp: f0_def stored_def split: option.splits)
  have new: "new_OpenFile v (fs\<lparr>openFilesMutex := x\<rparr>) b = Inr \<lparr>of_start = b, of_meta = m, of_count = 0\<rparr>" if "openFiles fs ! unat b = None" for x
  proof -
    have bd: "block_device (blockSize v) (readBlock v) (writeBlock v)" using v by (simp add: volume_def)
    have a: "unat (b * BLOCK_SZ) = 512 * unat b" using b23(1) by (simp add: BLOCK_SZ_def unat_word_ariths)
    have "dev_readFully v (dev fs) (b * BLOCK_SZ) 16 = Inr (map (disk_byte v (dev fs)) [512 * unat b ..< 512 * unat b + 16])"
      using block_device.readFully_image [OF bd, of "b * BLOCK_SZ" 16 "dev fs"] a b23(1) by (simp add: disk_byte_def)
    then show ?thesis using s that by (simp add: new_OpenFile_def stored_def)
  qed
  let ?f = "f0\<lparr>of_count := of_count f0 + 1\<rparr>"
  let ?fs = "unlockOpenFiles (slot_put b (Some ?f) (fs\<lparr>openFilesMutex := openFilesMutex fs - 1\<rparr>))"
  have "openFile v b fs = Inr ?fs"
    using s b23(2) new by (auto simp: openFile_def lockOpenFiles_def slot_at_def stored_def f0_def split: option.splits)
  moreover have "wf_file ?fs b ?f xs"
    using s b23(2) f0 by (simp add: wf_file_def stored_def) (simp add: slot_put_def unlockOpenFiles_def file_at_def slot_at_def)
  moreover have "of_meta ?f = m" "dev ?fs = dev fs" "fat ?fs = fat fs"
    using f0 by (simp_all add: slot_put_def unlockOpenFiles_def)
  ultimately show thesis using that by blast
qed

section \<open>Freeing a chain\<close>

lemma addAvailBlk_chain:
  assumes x: "chain (fat fs) b xs" "xs \<noteq> []" and y: "free_blocks fs ys" and d: "set xs \<inter> set ys = {}"
  shows "\<exists>fs'. addAvailBlk b fs = Inr fs' \<and> free_blocks fs' (xs @ ys)
    \<and> (\<forall>c. c \<noteq> last xs \<longrightarrow> fat fs' ! unat c = fat fs ! unat c)"
proof -
  obtain zs e where xs: "xs = zs @ [e]" using x(2) by (meson rev_exhaust)
  have c: "chain (fat fs) b (zs @ [e])" using x(1) xs by simp
  have e: "unat e < length (fat fs)" using chain_nonzero [OF c, of e] by simp
  have "chain_end (Suc (length (fat fs))) fs b = Inr e"
    using chain_length [OF c] by (intro chain_end_last [OF c]) simp
  then have "addAvailBlk b fs = Inr (set_avail b (fs\<lparr>fat := (fat fs)[unat e := sb_avail (super fs)]\<rparr>))"
    using e by (simp add: addAvailBlk_def del: chain_end.simps)
  moreover have "chain ((fat fs)[unat e := sb_avail (super fs)]) b (zs @ [e] @ ys)"
    using chain_link [OF c y [unfolded free_blocks_def]] d xs by simp
  moreover have "fat fs ! unat c' = (fat fs)[unat e := sb_avail (super fs)] ! unat c'" if "c' \<noteq> e" for c'
    using that by (auto simp: word_unat_eq_iff)
  ultimately show ?thesis
    using xs by (simp add: free_blocks_def)
qed

text \<open>A chain that runs into a cycle has no end.\<close>

lemma chain_end_cycle:
  assumes "\<And>x. x \<in> C \<Longrightarrow> unat x < length (fat fs) \<and> fat fs ! unat x \<noteq> 0 \<and> fat fs ! unat x \<in> C"
  shows "b \<in> C \<Longrightarrow> chain_end fuel fs b = Inl Diverges"
proof (induction fuel arbitrary: b)
  case (Suc fuel)
  then show ?case using assms [of b] by simp
qed simp

section \<open>A small volume\<close>

text \<open>
  Eight blocks: the root directory in block 2 with two entries, a file of 600 bytes in the blocks
  5 and 6, the free blocks 3 and 4.
\<close>

definition small_disk :: disk_image where
  "small_disk a i =
     (if a = (0x170, True, 2)
      then (if i = 4 then 0x6261 else if i = 7 then 5 else if i = 8 then 0x63 else if i = 11 then 7 else 0)
      else of_nat i)"

definition small_dir :: open_file where
  "small_dir = \<lparr>of_start = 2, of_meta = \<lparr>m_type = 2, m_length = 32, m_parentDir = 0, m_currentBlk = 2\<rparr>,
     of_count = 1\<rparr>"

definition small_file :: open_file where
  "small_file = \<lparr>of_start = 5, of_meta = \<lparr>m_type = 1, m_length = 600, m_parentDir = 2, m_currentBlk = 5\<rparr>,
     of_count = 1\<rparr>"

definition small_fs :: "disk_image fat439" where
  "small_fs = \<lparr>dev = small_disk,
     super = \<lparr>sb_magic = expectedMagic, sb_nBlocks = 8, sb_avail = 3, sb_root = 2\<rparr>,
     fat = [0, 0, 0, 4, 0, 6, 0, 0], openFilesMutex = 1,
     openFiles = [None, None, Some small_dir, None, None, Some small_file, None, None]\<rparr>"

lemma small_fs_free: "free_blocks small_fs [3, 4]"
  by (simp add: free_blocks_def small_fs_def)

lemma small_fs_file: "wf_file small_fs 5 small_file [5, 6]"
  by (simp add: wf_file_def small_fs_def small_file_def file_at_def slot_at_def)

lemma small_fs_dir: "wf_file small_fs 2 small_dir [2]"
  by (simp add: wf_file_def small_fs_def small_dir_def file_at_def slot_at_def)

section \<open>Properties\<close>

text \<open>
  C6. Reading a file through \<^verbatim>\<open>File::readFully\<close> returns its content: from any offset within
  the file it delivers all the bytes up to the requested count or the end of the file, block after
  block along the chain of the FAT, reports their number, and moves the offset of the file past
  them.
\<close>

theorem file_readFully_content:
  assumes "volume v" and "wf_file fs start f xs" and "ff_openFile F = start"
    and "unat n < 2 ^ 31" and "unat (ff_offset F) \<le> unat (m_length (of_meta f))"
  shows "file_readFully v fs n n F =
    (let off = unat (ff_offset F); m = min (unat n) (unat (m_length (of_meta f)) - off)
     in Inr (int m, map (file_byte v fs xs) [off ..< off + m], F\<lparr>ff_offset := of_nat (off + m)\<rparr>))"
  using volume.file_readFully_slice [OF assms(1,2,4) order_refl assms(5,3)] by simp

theorem file_readFully_content_witness:
  "file_readFully ide_driver small_fs 1000 1000 \<lparr>ff_openFile = 5, ff_offset = 100\<rparr> =
     Inr (500, map (file_byte ide_driver small_fs [5, 6]) [100 ..< 600], \<lparr>ff_openFile = 5, ff_offset = 600\<rparr>)"
  using file_readFully_content [OF hdv.volume_axioms small_fs_file, of "\<lparr>ff_openFile = 5, ff_offset = 100\<rparr>" 1000]
  by (simp add: small_file_def)

text \<open>
  \<^verbatim>\<open>OpenFile::readFully\<close> does not read on: it never advances the offset it passes to
  \<^verbatim>\<open>read\<close>, so when the range leaves the first block it delivers the bytes of the first read
  over and over, and past the end of the file it still reports the full count.
\<close>

theorem openfile_readFully_repeats:
  assumes "volume v" and "wf_file fs start f xs" and "unat n < 2 ^ 31"
    and "unat off < unat (m_length (of_meta f))"
  shows "of_readFully v fs start off n n =
    (let c = min (unat (m_length (of_meta f)) - unat off) (512 - (unat off + 16) mod 512)
     in Inr (int (unat n), map (\<lambda>k. file_byte v fs xs (unat off + k mod c)) [0 ..< unat n]))"
  using volume.of_readFully_repeats [OF assms refl, of n] by (simp add: Let_def)

theorem openfile_readFully_repeats_witness:
  "of_readFully ide_driver small_fs 5 590 30 30 =
     Inr (30, map (\<lambda>k. file_byte ide_driver small_fs [5, 6] (590 + k mod 10)) [0 ..< 30])"
  using openfile_readFully_repeats [OF hdv.volume_axioms small_fs_file, of 30 590]
  by (simp add: small_file_def Let_def)

text \<open>
  The free list is a stack: \<^verbatim>\<open>remNextAvail\<close> hands out its first block, marks it as the
  end of a chain and leaves the rest of the list free; on an empty list it returns 0 and changes
  nothing.
\<close>

theorem remNextAvail_pops:
  assumes "free_blocks fs bs"
  shows "case bs of [] \<Rightarrow> remNextAvail fs = Inr (0, fs)
    | b # bs' \<Rightarrow> b \<noteq> 0 \<and> b \<notin> set bs' \<and> (\<exists>fs'. remNextAvail fs = Inr (b, fs') \<and> free_blocks fs' bs'
        \<and> fat fs' ! unat b = 0 \<and> (\<forall>c. c \<noteq> b \<longrightarrow> fat fs' ! unat c = fat fs ! unat c)
        \<and> openFiles fs' = openFiles fs \<and> dev fs' = dev fs)"
proof (cases bs)
  case Nil
  then show ?thesis using remNextAvail_none assms by auto
next
  case (Cons b bs')
  then have c: "chain (fat fs) (sb_avail (super fs)) (b # bs')" using assms by (simp add: free_blocks_def)
  then show ?thesis
    using remNextAvail_some [of fs b bs'] assms Cons chain_distinct [OF c]
    by (auto simp: free_blocks_def chain_update_other word_unat_eq_iff)
qed

theorem remNextAvail_pops_witness: "\<exists>fs'. remNextAvail small_fs = Inr (3, fs') \<and> free_blocks fs' [4]"
  using remNextAvail_pops [OF small_fs_free] by auto

text \<open>
  C38. \<^verbatim>\<open>addAvailBlk\<close> ends and returns all the blocks of a file to the free list, in front of
  the blocks that were free, when the chain of the file ends and shares no block with the free
  list.
\<close>

theorem addAvailBlk_frees:
  assumes "chain (fat fs) b xs" and "xs \<noteq> []" and "free_blocks fs ys" and "set xs \<inter> set ys = {}"
  shows "\<exists>fs'. addAvailBlk b fs = Inr fs' \<and> free_blocks fs' (xs @ ys) \<and> distinct (xs @ ys)"
  using addAvailBlk_chain [OF assms] chain_distinct [OF assms(1)]
    chain_distinct [OF assms(3) [unfolded free_blocks_def]] assms(4) by auto

theorem addAvailBlk_frees_witness: "\<exists>fs'. addAvailBlk 5 small_fs = Inr fs' \<and> free_blocks fs' [5, 6, 3, 4]"
  using addAvailBlk_frees [of small_fs 5 "[5, 6]" "[3, 4]", OF _ _ small_fs_free]
  by (auto simp: small_fs_def)

text \<open>
  \<^verbatim>\<open>setNextBlk\<close> does not link the new block: it copies the FAT entry of the new block
  instead of its number. Called the way \<^verbatim>\<open>write\<close> calls it, right after
  \<^verbatim>\<open>remNextAvail\<close>, it leaves the chain of the file as short as before and the new block in
  no chain at all.
\<close>

theorem setNextBlk_never_links:
  assumes "free_blocks fs (b # bs)" and "chain (fat fs) s (xs @ [e])" and "set (xs @ [e]) \<inter> set (b # bs) = {}"
    and "remNextAvail fs = Inr (b, fs1)"
  shows "\<exists>fs2. setNextBlk e b fs1 = Inr fs2 \<and> chain (fat fs2) s (xs @ [e]) \<and> free_blocks fs2 bs
    \<and> fat fs2 ! unat e = 0"
proof -
  note f = assms(1) [unfolded free_blocks_def]
  have fs1: "fs1 = (set_avail (fat fs ! unat b) fs)\<lparr>fat := (fat fs)[unat b := 0]\<rparr>"
    using assms(4) remNextAvail_some [OF assms(1)] by simp
  have b: "b \<notin> set bs" "b \<notin> set (xs @ [e])" "e \<notin> set bs" "unat e < length (fat fs)" "unat b < length (fat fs)"
    using chain_distinct [OF f] assms(3) chain_nonzero [OF assms(2), of e] chain_nonzero [OF f, of b] by auto
  have "chain ((fat fs)[unat b := 0]) s (xs @ [e])" using b assms(2) by (simp add: chain_update_other)
  then have "chain (((fat fs)[unat b := 0])[unat e := 0]) s (xs @ [e] @ [])"
    by (rule chain_link) simp_all
  moreover have "chain (((fat fs)[unat b := 0])[unat e := 0]) (fat fs ! unat b) bs"
    using f b by (simp add: chain_update_other)
  ultimately show ?thesis using b by (simp add: setNextBlk_def fs1 free_blocks_def)
qed

theorem setNextBlk_never_links_witness:
  "\<exists>fs1 fs2. remNextAvail small_fs = Inr (3, fs1) \<and> setNextBlk 6 3 fs1 = Inr fs2 \<and> fat fs2 ! 6 = 0"
  using setNextBlk_never_links [OF small_fs_free, of 5 "[5]" 6, OF _ _ remNextAvail_some [OF small_fs_free]]
    remNextAvail_some [OF small_fs_free]
  by (auto simp: small_fs_def)

end
