(* ===== verification/Fat439_Dirs.thy ===== *)
theory Fat439_Dirs
  imports Fat439_Files
begin

text \<open>
  The directory operations of \<^verbatim>\<open>kernel/fs.cc\<close> against the list of entries a directory
  holds: which entry a lookup finds, what creating a directory adds, and what removing an entry
  leaves behind.
\<close>

section \<open>Names of entries\<close>

definition entry_is :: "u8 list \<Rightarrow> cstring \<Rightarrow> bool" where
  "entry_is e name \<longleftrightarrow> length (ctext name) < 12
     \<and> take (Suc (length (ctext name))) e = ctext name @ [0]"

lemma cstr_text: "k \<le> length (ctext name) \<Longrightarrow> cstr name k = (ctext name @ [0]) ! k"
  by (auto simp: nth_append cstr_ctext cstr_ctext_end le_less)

lemma ctext_nth_nonzero: "k < length (ctext name) \<Longrightarrow> ctext name ! k \<noteq> 0"
  using ctext_nonzero [of name] by (metis nth_mem)

lemma entry_is_nth:
  "length e = 16 \<Longrightarrow> entry_is e name \<longleftrightarrow>
     length (ctext name) < 12 \<and> (\<forall>k \<le> length (ctext name). e ! k = cstr name k)"
  by (auto simp: entry_is_def list_eq_iff_nth_eq cstr_text less_Suc_eq_le)

lemma name_matches_from:
  "i \<le> length (ctext name) \<Longrightarrow> name_matches i e name =
     (if length (ctext name) < 12 \<and> (\<forall>k. i \<le> k \<and> k \<le> length (ctext name) \<longrightarrow> e ! k = cstr name k)
      then Some (length (ctext name)) else None)"
proof (induction i e name rule: name_matches.induct)
  case (1 i e name)
  let ?n = "length (ctext name)"
  show ?case
  proof (cases "i < 12 \<and> e ! i = cstr name i \<and> i \<noteq> ?n")
    case True
    then have i: "i < ?n" "cstr name i \<noteq> 0" using 1(2) by (auto simp: cstr_ctext ctext_nth_nonzero)
    then have "(\<forall>k. i \<le> k \<and> k \<le> ?n \<longrightarrow> e ! k = cstr name k)
        \<longleftrightarrow> (\<forall>k. Suc i \<le> k \<and> k \<le> ?n \<longrightarrow> e ! k = cstr name k)"
      using True by (metis Suc_leD le_neq_implies_less Suc_leI)
    with 1(1) True i show ?thesis by (simp add: name_matches.simps [of i])
  next
    case False
    then show ?thesis
      using 1(2) cstr_ctext_end [of name] by (auto simp: name_matches.simps [of i])
  qed
qed

lemma name_matches_entry:
  "length e = 16 \<Longrightarrow> name_matches 0 e name = (if entry_is e name then Some (length (ctext name)) else None)"
  by (simp add: name_matches_from entry_is_nth)

section \<open>Well-formed directories\<close>

definition dir_ok :: "'d fat439 \<Rightarrow> fat_dir \<Rightarrow> open_file \<Rightarrow> u32 list \<Rightarrow> bool" where
  "dir_ok fs dir f xs \<longleftrightarrow>
     wf_file fs (d_start dir) f xs \<and> unat (m_length (of_meta f)) = 16 * unat (d_entries dir)"

definition dir_entry :: "'d driver \<Rightarrow> 'd fat439 \<Rightarrow> u32 list \<Rightarrow> nat \<Rightarrow> u8 list" where
  "dir_entry v fs xs i = map (file_byte v fs xs) [16 * i ..< 16 * i + 16]"

lemma length_dir_entry [simp]: "length (dir_entry v fs xs i) = 16"
  by (simp add: dir_entry_def)

text \<open>The first of the entries \<open>[j ..< n]\<close> with the name.\<close>

definition find_entry :: "'d driver \<Rightarrow> 'd fat439 \<Rightarrow> u32 list \<Rightarrow> cstring \<Rightarrow> nat \<Rightarrow> nat \<Rightarrow> nat option" where
  "find_entry v fs xs name j n = List.find (\<lambda>i. entry_is (dir_entry v fs xs i) name) [j ..< n]"

lemma find_entry_step:
  "j < n \<Longrightarrow> find_entry v fs xs name j n =
     (if entry_is (dir_entry v fs xs j) name then Some j else find_entry v fs xs name (Suc j) n)"
  by (simp add: find_entry_def upt_conv_Cons)

lemma find_entry_none [simp]: "find_entry v fs xs name n n = None"
  by (simp add: find_entry_def)

context volume
begin

lemma read_entry:
  assumes d: "dir_ok fs dir f xs" and j: "j < unat (d_entries dir)"
  shows "of_readFully v fs (d_start dir) (of_nat (16 * j)) DIR_ENTRY_SZ DIR_ENTRY_SZ =
    Inr (16, dir_entry v fs xs j)"
proof -
  have wf: "wf_file fs (d_start dir) f xs" and L: "unat (m_length (of_meta f)) = 16 * unat (d_entries dir)"
    using d by (simp_all add: dir_ok_def)
  then have "16 * unat (d_entries dir) < 2 ^ 32" by (simp add: wf_file_def)
  then have u: "unat (of_nat (16 * j) :: u32) = 16 * j" using j by (intro unat_of_nat_u32) simp
  have "(16 * j + 16) mod 512 = 16 * ((j + 1) mod 32)"
    using mult_mod_right [of 16 "j + 1" 32] by (simp add: add.commute)
  moreover have "(j + 1) mod 32 < 32" by simp
  ultimately have m: "(16 * j + 16) mod 512 + 16 \<le> 512" by linarith
  show ?thesis
    using m of_readFully_block [OF wf, of "of_nat (16 * j)" DIR_ENTRY_SZ] u j L
    by (simp add: DIR_ENTRY_SZ_def dir_entry_def)
qed

lemma lookup_loop_first:
  assumes d: "dir_ok fs dir f xs"
  shows "length junk = 16 \<Longrightarrow> j + k \<le> unat (d_entries dir) \<Longrightarrow>
    lookup_loop v fs (d_start dir) name k (of_nat (16 * j)) junk =
      Inr (case find_entry v fs xs name j (j + k) of None \<Rightarrow> 0 | Some i \<Rightarrow> entry_start (dir_entry v fs xs i))"
proof (induction k arbitrary: j junk)
  case (Suc k)
  have o: "of_nat (16 * j) + DIR_ENTRY_SZ = (of_nat (16 * Suc j) :: u32)" by (simp add: DIR_ENTRY_SZ_def)
  have "splice 0 (dir_entry v fs xs j) junk = dir_entry v fs xs j"
    using Suc.prems by (simp add: splice_all)
  then show ?case
    using Suc.IH [of "dir_entry v fs xs j" "Suc j"] Suc.prems read_entry [OF d, of j]
    by (simp del: of_nat_mult add: o name_matches_entry find_entry_step)
qed simp

lemma lookupEntry_loop_first:
  assumes d: "dir_ok fs dir f xs"
  shows "length junk = 16 \<Longrightarrow> j + k \<le> unat (d_entries dir) \<Longrightarrow>
    lookupEntry_loop v fs (d_start dir) name k (of_nat (16 * j)) junk =
      Inr (case find_entry v fs xs name j (j + k) of None \<Rightarrow> -1 | Some i \<Rightarrow> int (length (ctext name)))"
proof (induction k arbitrary: j junk)
  case (Suc k)
  have o: "of_nat (16 * j) + DIR_ENTRY_SZ = (of_nat (16 * Suc j) :: u32)" by (simp add: DIR_ENTRY_SZ_def)
  have "splice 0 (dir_entry v fs xs j) junk = dir_entry v fs xs j"
    using Suc.prems by (simp add: splice_all)
  then show ?case
    using Suc.IH [of "dir_entry v fs xs j" "Suc j"] Suc.prems read_entry [OF d, of j]
    by (simp del: of_nat_mult add: o name_matches_entry find_entry_step)
qed simp

lemma list_loop_all:
  assumes d: "dir_ok fs dir f xs"
  shows "length junk = 16 \<Longrightarrow> j + k \<le> unat (d_entries dir) \<Longrightarrow>
    list_loop v fs (d_start dir) k (of_nat (16 * j)) junk =
      Inr (map (\<lambda>i. ctext (dir_entry v fs xs i)) [j ..< j + k])"
proof (induction k arbitrary: j junk)
  case (Suc k)
  have o: "of_nat (16 * j) + DIR_ENTRY_SZ = (of_nat (16 * Suc j) :: u32)" by (simp add: DIR_ENTRY_SZ_def)
  have "splice 0 (dir_entry v fs xs j) junk = dir_entry v fs xs j"
    using Suc.prems by (simp add: splice_all)
  moreover have "[j ..< j + Suc k] = j # [Suc j ..< Suc j + k]" by (simp add: upt_conv_Cons)
  ultimately show ?case
    using Suc.IH [of "dir_entry v fs xs j" "Suc j"] Suc.prems read_entry [OF d, of j]
    by (simp del: of_nat_mult upt_Suc add: o)
qed simp

lemma dir_lookup_first:
  assumes "dir_ok fs dir f xs" "length junk = 16" "\<not> is_dot name" "\<not> is_dotdot name"
  shows "dir_lookup v fs dir junk name =
    Inr (case find_entry v fs xs name 0 (unat (d_entries dir)) of
           None \<Rightarrow> 0 | Some i \<Rightarrow> entry_start (dir_entry v fs xs i))"
  using lookup_loop_first [OF assms(1,2), of 0 "unat (d_entries dir)" name] assms
  by (simp add: dir_lookup_def)

lemma lookupEntry_first:
  assumes "dir_ok fs dir f xs" "length junk = 16" "\<not> is_dot name" "\<not> is_dotdot name"
  shows "lookupEntry v fs dir junk name =
    Inr (case find_entry v fs xs name 0 (unat (d_entries dir)) of
           None \<Rightarrow> -1 | Some i \<Rightarrow> int (length (ctext name)))"
  using lookupEntry_loop_first [OF assms(1,2), of 0 "unat (d_entries dir)" name] assms
  by (simp add: lookupEntry_def)

section \<open>Writing to the device\<close>

lemma write_within:
  assumes n: "unat off mod 512 + unat n \<le> 512" "unat n \<le> length buf"
  shows "\<exists>d'. dev_write v d off buf n = Inr (n, d') \<and> (\<forall>i < 2 ^ 32. disk_byte v d' i =
      (if unat off \<le> i \<and> i < unat off + unat n then buf ! (i - unat off) else disk_byte v d i))"
proof -
  have "unat (chunk (blockSize v) off n) = unat n"
    using unat_chunk [OF bs_pos, of off n] min_absorb1 [of "unat n" "512 - unat off mod 512"] n(1)
    by (simp add: sector_size)
  then have c: "chunk (blockSize v) off n = n" by (simp add: word_unat_eq_iff)
  show ?thesis using write_image [of off n buf d] n(2) unfolding c disk_byte_def by blast
qed

lemma file_at_slot_put [simp]:
  "unat i < length (openFiles fs) \<Longrightarrow>
     file_at (slot_put i x fs) j = (if j = i then (case x of None \<Rightarrow> Inl NullDeref | Some f \<Rightarrow> Inr f) else file_at fs j)"
  by (auto simp: file_at_def slot_at_def slot_put_def word_unat_eq_iff)

lemma file_at_bound: "file_at fs s = Inr f \<Longrightarrow> unat s < length (openFiles fs)"
  by (auto simp: file_at_def slot_at_def split: if_splits)

lemma file_at_dev [simp]: "file_at (fs\<lparr>dev := d\<rparr>) s = file_at fs s"
  by (simp add: file_at_def slot_at_def)

lemma file_at_unlock [simp]: "file_at (unlockOpenFiles fs) s = file_at fs s"
  by (simp add: file_at_def slot_at_def unlockOpenFiles_def)

lemma resize_effect:
  assumes f: "file_at fs s = Inr f" "of_start f = s" and s: "unat s < 2 ^ 23"
  shows "\<exists>d'. of_resize v s newsz fs =
      Inr ((slot_put s (Some (f\<lparr>of_meta := (of_meta f)\<lparr>m_length := newsz\<rparr>\<rparr>)) fs)\<lparr>dev := d'\<rparr>)
    \<and> (\<forall>i < 2 ^ 32. disk_byte v d' i =
        (if unat s * 512 \<le> i \<and> i < unat s * 512 + 16
         then meta_bytes ((of_meta f)\<lparr>m_length := newsz\<rparr>) ! (i - unat s * 512) else disk_byte v (dev fs) i))"
proof -
  let ?m = "(of_meta f)\<lparr>m_length := newsz\<rparr>"
  have a: "unat (s * BLOCK_SZ) = unat s * 512" using s by (simp add: BLOCK_SZ_def unat_word_ariths)
  have "unat (s * BLOCK_SZ) mod 512 + unat (16 :: u32) \<le> 512" "unat (16 :: u32) \<le> length (meta_bytes ?m)"
    using a by simp_all
  from write_within [OF this, of "dev fs"] obtain d' where
    "dev_write v (dev fs) (s * BLOCK_SZ) (meta_bytes ?m) 16 = Inr (16, d')"
    "\<forall>i < 2 ^ 32. disk_byte v d' i = (if unat s * 512 \<le> i \<and> i < unat s * 512 + 16
       then meta_bytes ?m ! (i - unat s * 512) else disk_byte v (dev fs) i)"
    unfolding a by auto
  then show ?thesis using f by (intro exI [of _ d']) (simp add: of_resize_def Let_def slot_put_def)
qed

end

section \<open>Directories of one block\<close>

text \<open>
  A directory with \<open>n\<close> entries that all lie in its first block \<open>s\<close>.
\<close>

definition block_dir :: "'d fat439 \<Rightarrow> u32 \<Rightarrow> open_file \<Rightarrow> nat \<Rightarrow> bool" where
  "block_dir fs s f n \<longleftrightarrow> file_at fs s = Inr f \<and> of_start f = s \<and> unat s < 2 ^ 23
     \<and> unat (m_length (of_meta f)) = 16 * n \<and> n \<le> 31"

text \<open>The place of entry \<open>i\<close> on the device.\<close>

definition entry_pos :: "u32 \<Rightarrow> nat \<Rightarrow> nat" where
  "entry_pos s i = unat s * 512 + 16 * i + 16"

definition block_entry :: "'d driver \<Rightarrow> 'd \<Rightarrow> u32 \<Rightarrow> nat \<Rightarrow> u8 list" where
  "block_entry v d s i = map (\<lambda>k. disk_byte v d (entry_pos s i + k)) [0 ..< 16]"

lemma length_block_entry [simp]: "length (block_entry v d s i) = 16"
  by (simp add: block_entry_def)

lemma dir_entry_block: "i \<le> 30 \<Longrightarrow> dir_entry v fs (s # xs) i = block_entry v (dev fs) s i"
  unfolding dir_entry_def block_entry_def
  by (rule nth_equalityI) (simp_all add: file_byte_def file_pos_def entry_pos_def ac_simps)

lemma entry_pos_bound: "unat s < 2 ^ 23 \<Longrightarrow> i \<le> 30 \<Longrightarrow> k < 16 \<Longrightarrow> entry_pos s i + k < 2 ^ 32"
  by (simp add: entry_pos_def)

lemma block_entry_cong:
  "(\<And>k. k < 16 \<Longrightarrow> disk_byte v d' (entry_pos s i + k) = disk_byte v d (entry_pos s j + k)) \<Longrightarrow>
     block_entry v d' s i = block_entry v d s j"
  by (simp add: block_entry_def)

context volume
begin

lemma remFromOffset_block:
  assumes b: "block_dir fs s f n" and n: "0 < n" and i: "i \<le> 30"
  shows "if i + 2 < n then remFromOffset v s (of_nat (16 * i + 16)) DIR_ENTRY_SZ fs = Inl NullDeref
    else \<exists>fs' f'. remFromOffset v s (of_nat (16 * i + 16)) DIR_ENTRY_SZ fs = Inr (0, fs')
      \<and> block_dir fs' s f' (i + 1) \<and> openFilesMutex fs' = openFilesMutex fs + 1
      \<and> (\<forall>j \<le> 30. block_entry v (dev fs') s j = block_entry v (dev fs) s j)"
proof -
  note B = b [unfolded block_dir_def]
  let ?L = "m_length (of_meta f)"
  define e :: u32 where "e = of_nat (16 * i + 16)"
  have e: "unat e = 16 * i + 16" unfolding e_def using i by (intro unat_of_nat_u32) simp
  have s16: "unat DIR_ENTRY_SZ = 16" by (simp add: DIR_ENTRY_SZ_def)
  have se: "unat (DIR_ENTRY_SZ + e) = 16 * i + 32" using e s16 i by (subst unat_plus_u32) simp_all
  have gt: "\<not> DIR_ENTRY_SZ > ?L" using B n s16 by (simp add: word_less_nat_alt)
  note ob = file_at_bound [of fs s f]
  show ?thesis
  proof (cases "i + 2 < n")
    case True
    then have "\<not> DIR_ENTRY_SZ + e \<ge> ?L" using se B by (simp add: word_le_nat_alt)
    moreover have "?L < 0x1000" using B by (simp add: word_less_nat_alt)
    ultimately show ?thesis using True B gt unfolding e_def [symmetric] by (simp add: remFromOffset_def Let_def)
  next
    case False
    then have ge: "DIR_ENTRY_SZ + e \<ge> ?L" using se B by (simp add: word_le_nat_alt)
    from resize_effect [of fs s f e] B obtain d' where d: "of_resize v s e fs =
        Inr ((slot_put s (Some (f\<lparr>of_meta := (of_meta f)\<lparr>m_length := e\<rparr>\<rparr>)) fs)\<lparr>dev := d'\<rparr>)"
      "\<forall>i < 2 ^ 32. disk_byte v d' i = (if unat s * 512 \<le> i \<and> i < unat s * 512 + 16
         then meta_bytes ((of_meta f)\<lparr>m_length := e\<rparr>) ! (i - unat s * 512) else disk_byte v (dev fs) i)"
      by blast
    let ?fs = "unlockOpenFiles ((slot_put s (Some (f\<lparr>of_meta := (of_meta f)\<lparr>m_length := e\<rparr>\<rparr>)) fs)\<lparr>dev := d'\<rparr>)"
    have "remFromOffset v s e DIR_ENTRY_SZ fs = Inr (0, ?fs)"
      using B gt ge d(1) by (simp add: remFromOffset_def Let_def)
    moreover have "block_dir ?fs s (f\<lparr>of_meta := (of_meta f)\<lparr>m_length := e\<rparr>\<rparr>) (i + 1)"
      using B ob e i by (simp add: block_dir_def)
    moreover have "block_entry v (dev ?fs) s j = block_entry v (dev fs) s j" if "j \<le> 30" for j
      using B that entry_pos_bound [of s j] d(2)
      by (intro block_entry_cong) (simp add: unlockOpenFiles_def entry_pos_def)
    ultimately show ?thesis using False unfolding e_def [symmetric]
      by (auto simp: unlockOpenFiles_def slot_put_def intro!: exI [of _ ?fs])
  qed
qed

end

section \<open>Creating a directory\<close>

lemma ctext_take: "take (length (ctext name)) name = ctext name"
  by (simp add: ctext_def takeWhile_eq_take [symmetric])

lemma length_ctext_le: "length (ctext name) \<le> length name"
  by (simp add: ctext_def length_takeWhile_le)

lemma entry_name_text:
  assumes "length junk = 16" "length (ctext name) < 12"
  shows "length (entry_name junk name) = 12"
    "take (Suc (length (ctext name))) (entry_name junk name) = ctext name @ [0]"
proof -
  let ?k = "length (ctext name)"
  have m: "min 12 (nat (K_strlen name)) = ?k" using assms(2) by (simp add: K_strlen_ctext)
  have e: "entry_name junk name = (ctext name @ drop ?k (take 12 junk))[?k := 0]"
    using assms length_ctext_le [of name]
    unfolding entry_name_def Let_def m splice_def ctext_take by simp
  obtain y ys where y: "drop ?k (take 12 junk) = y # ys" "length ys = 11 - ?k"
    using assms by (cases "drop ?k (take 12 junk)") (auto dest: arg_cong [of _ _ length])
  show "length (entry_name junk name) = 12" unfolding e y(1) using y(2) assms(2) by simp
  show "take (Suc ?k) (entry_name junk name) = ctext name @ [0]"
    unfolding e y(1) by (simp add: list_update_append)
qed

lemma new_entry_is:
  assumes "length junk = 16" "length (ctext name) < 12"
  shows "length (entry_name junk name @ le_bytes b) = 16"
    "entry_is (entry_name junk name @ le_bytes b) name"
    "entry_start (entry_name junk name @ le_bytes b) = b"
  using entry_name_text [OF assms] assms(2) by (simp_all add: entry_is_def entry_start_def)

lemma file_at_set_avail [simp]: "file_at (set_avail b fs) s = file_at fs s"
  by (simp add: file_at_def slot_at_def set_avail_def)

lemma file_at_fat [simp]: "file_at (fs\<lparr>fat := f\<rparr>) s = file_at fs s"
  by (simp add: file_at_def slot_at_def)

context volume
begin

lemma append_effect:
  assumes b: "block_dir fs s f n" and n: "n \<le> 30" and e: "length entry = 16"
  shows "\<exists>d' f'. of_append v s entry 16 fs = Inr (0, (slot_put s (Some f') fs)\<lparr>dev := d'\<rparr>)
    \<and> of_start f' = s \<and> of_meta f' = (of_meta f)\<lparr>m_length := m_length (of_meta f) + 16\<rparr>
    \<and> block_entry v d' s n = entry
    \<and> (\<forall>p < 2 ^ 32. \<not> (unat s * 512 \<le> p \<and> p < unat s * 512 + 16) \<longrightarrow>
         \<not> (entry_pos s n \<le> p \<and> p < entry_pos s n + 16) \<longrightarrow> disk_byte v d' p = disk_byte v (dev fs) p)"
proof -
  note B = b [unfolded block_dir_def]
  let ?L = "m_length (of_meta f)"
  have a: "unat (?L + HEADER_SZ) = 16 * n + 16"
    using B n by (subst unat_plus_u32) (simp_all add: HEADER_SZ_def)
  have "unat (512 - (?L + HEADER_SZ)) = 512 - (16 * n + 16)"
    using a n by (subst unat_sub) (simp_all add: word_le_nat_alt)
  then have len: "fs_min 16 (blockSize v - (?L + HEADER_SZ)) = 16"
    using n by (auto simp: fs_min_def sector_size word_less_nat_alt word_unat_eq_iff)
  have k: "unat ((?L + HEADER_SZ) div BLOCK_SZ) = 0" "unat ((?L + HEADER_SZ) mod BLOCK_SZ) = 16 * n + 16"
    using a n by (simp_all add: unat_div unat_mod BLOCK_SZ_def)
  have sa: "unat (s * blockSize v) = unat s * 512" using B by (simp add: sector_size unat_word_ariths)
  have wa: "unat (s * blockSize v + (?L + HEADER_SZ) mod BLOCK_SZ) = entry_pos s n"
    using sa k(2) n B by (subst unat_plus_u32) (simp_all add: entry_pos_def)
  have "entry_pos s n mod 512 + 16 \<le> 512"
  proof -
    have "entry_pos s n = (16 * n + 16) + unat s * 512" by (simp add: entry_pos_def)
    then have "entry_pos s n mod 512 = (16 * n + 16) mod 512" by (metis mod_mult_self1)
    then show ?thesis using n by simp
  qed
  then have "unat (s * blockSize v + (?L + HEADER_SZ) mod BLOCK_SZ) mod 512 + unat (16 :: u32) \<le> 512"
    "unat (16 :: u32) \<le> length entry" unfolding wa using e by simp_all
  from write_within [OF this, of "dev fs"] obtain d1 where
    w: "dev_write v (dev fs) (s * blockSize v + (?L + HEADER_SZ) mod BLOCK_SZ) entry 16 = Inr (16, d1)"
    and d1: "\<forall>p < 2 ^ 32. disk_byte v d1 p = (if entry_pos s n \<le> p \<and> p < entry_pos s n + 16
        then entry ! (p - entry_pos s n) else disk_byte v (dev fs) p)"
    unfolding wa by auto
  from resize_effect [of "fs\<lparr>dev := d1\<rparr>" s f "?L + 16"] B obtain d2 where
    r: "of_resize v s (?L + 16) (fs\<lparr>dev := d1\<rparr>) =
      Inr ((slot_put s (Some (f\<lparr>of_meta := (of_meta f)\<lparr>m_length := ?L + 16\<rparr>\<rparr>)) fs)\<lparr>dev := d2\<rparr>)"
    and d2: "\<forall>p < 2 ^ 32. \<not> (unat s * 512 \<le> p \<and> p < unat s * 512 + 16) \<longrightarrow> disk_byte v d2 p = disk_byte v d1 p"
    by (auto simp: slot_put_def)
  have "of_append v s entry 16 fs =
      Inr (0, (slot_put s (Some (f\<lparr>of_meta := (of_meta f)\<lparr>m_length := ?L + 16\<rparr>\<rparr>)) fs)\<lparr>dev := d2\<rparr>)"
    using B len k(1) w r
    by (simp add: of_append_def of_write_def Let_def of_write_loop.simps [of _ _ _ _ _ 0])
  moreover have "block_entry v d2 s n = entry"
  proof (rule nth_equalityI)
    fix k assume "k < length (block_entry v d2 s n)"
    then have k: "k < 16" by simp
    have p: "entry_pos s n + k < 2 ^ 32" using B n k by (intro entry_pos_bound) simp_all
    then have "disk_byte v d2 (entry_pos s n + k) = disk_byte v d1 (entry_pos s n + k)"
      using d2 by (simp add: entry_pos_def)
    then show "block_entry v d2 s n ! k = entry ! k" using d1 p k by (simp add: block_entry_def)
  qed (simp add: e)
  moreover have "disk_byte v d2 p = disk_byte v (dev fs) p" if "p < 2 ^ 32"
    "\<not> (unat s * 512 \<le> p \<and> p < unat s * 512 + 16)" "\<not> (entry_pos s n \<le> p \<and> p < entry_pos s n + 16)" for p
    using d1 [rule_format, OF that(1)] d2 [rule_format, OF that(1,2)] unfolding if_not_P [OF that(3)] by simp
  ultimately show ?thesis
    by (intro exI [of _ d2] exI [of _ "f\<lparr>of_meta := (of_meta f)\<lparr>m_length := ?L + 16\<rparr>\<rparr>"]) (simp add: B)
qed

text \<open>
  The whole of \<^verbatim>\<open>mkdir\<close> when its checks pass and a block is free: the new block gets the
  header of an empty directory, the new entry names it, and nothing else on the device changes.
\<close>

lemma mkdir_effect:
  assumes b: "block_dir fs (d_start dir) f n" and en: "unat (d_entries dir) = n" and n: "n \<le> 30"
    and ty: "m_type (of_meta f) = TYPE_DIR" and free: "free_blocks fs (blk # bs)"
    and blk: "unat blk < 2 ^ 23" "blk \<noteq> d_start dir" and junk: "length junk = 16"
    and name: "length (ctext name) < 12" "47 \<notin> set (ctext name)"
    and new: "dir_lookup v fs dir junk name = Inr 0"
    and room: "d_start dir \<noteq> sb_root (super fs) \<or> n < 30"
  shows "\<exists>fs' f'. dir_mkdir v junk name dir fs = Inr (0, dir\<lparr>d_entries := d_entries dir + 1\<rparr>, fs')
    \<and> block_dir fs' (d_start dir) f' (n + 1) \<and> m_type (of_meta f') = TYPE_DIR
    \<and> fat fs' = (fat fs)[unat blk := 0] \<and> free_blocks fs' bs
    \<and> block_entry v (dev fs') (d_start dir) n = entry_name junk name @ le_bytes blk
    \<and> (\<forall>i < n. block_entry v (dev fs') (d_start dir) i = block_entry v (dev fs) (d_start dir) i)
    \<and> map (disk_byte v (dev fs')) [unat blk * 512 ..< unat blk * 512 + 16] =
        meta_bytes \<lparr>m_type = TYPE_DIR, m_length = 0, m_parentDir = d_start dir, m_currentBlk = blk\<rparr>
    \<and> (\<forall>p < 2 ^ 32. p div 512 \<noteq> unat blk \<longrightarrow> p div 512 \<noteq> unat (d_start dir) \<longrightarrow>
         disk_byte v (dev fs') p = disk_byte v (dev fs) p)"
proof -
  let ?s = "d_start dir"
  note B = b [unfolded block_dir_def]
  let ?m = "\<lparr>m_type = TYPE_DIR, m_length = 0, m_parentDir = ?s, m_currentBlk = blk\<rparr>"
  let ?fs1 = "(set_avail (fat fs ! unat blk) fs)\<lparr>fat := (fat fs)[unat blk := 0]\<rparr>"
  let ?e = "entry_name junk name @ le_bytes blk"
  have ba: "unat (blk * blockSize v) = unat blk * 512" using blk by (simp add: sector_size unat_word_ariths)
  have "unat (blk * blockSize v) mod 512 + unat (16 :: u32) \<le> 512" "unat (16 :: u32) \<le> length (meta_bytes ?m)"
    using ba by simp_all
  from write_within [OF this, of "dev fs"] obtain d1 where
    w: "dev_write v (dev fs) (blk * blockSize v) (meta_bytes ?m) 16 = Inr (16, d1)"
    and d1: "\<forall>p < 2 ^ 32. disk_byte v d1 p = (if unat blk * 512 \<le> p \<and> p < unat blk * 512 + 16
        then meta_bytes ?m ! (p - unat blk * 512) else disk_byte v (dev fs) p)"
    unfolding ba by auto
  let ?fs2 = "?fs1\<lparr>dev := d1\<rparr>"
  have b2: "block_dir ?fs2 ?s f n" using B by (simp add: block_dir_def)
  from append_effect [OF b2 n new_entry_is(1) [OF junk name(1), of blk]] obtain d2 f' where
    a: "of_append v ?s ?e 16 ?fs2 = Inr (0, (slot_put ?s (Some f') ?fs2)\<lparr>dev := d2\<rparr>)"
    and f': "of_start f' = ?s" "of_meta f' = (of_meta f)\<lparr>m_length := m_length (of_meta f) + 16\<rparr>"
    and ent: "block_entry v d2 ?s n = ?e"
    and d2: "\<forall>p < 2 ^ 32. \<not> (unat ?s * 512 \<le> p \<and> p < unat ?s * 512 + 16) \<longrightarrow>
         \<not> (entry_pos ?s n \<le> p \<and> p < entry_pos ?s n + 16) \<longrightarrow> disk_byte v d2 p = disk_byte v d1 p"
    by auto
  let ?fs3 = "(slot_put ?s (Some f') ?fs2)\<lparr>dev := d2\<rparr>"
  have ne: "unat blk \<noteq> unat ?s" using blk(2) by (auto simp: word_unat_eq_iff)
  have inE: "p div 512 = unat ?s" if "entry_pos ?s i \<le> p \<and> p < entry_pos ?s i + 16" "i \<le> 30" for p i
    using that unfolding entry_pos_def by linarith
  have inH: "p div 512 = unat t" if "unat t * 512 \<le> p \<and> p < unat t * 512 + 16" for p and t :: u32
    using that by linarith
  have other: "disk_byte v d2 p = disk_byte v d1 p" if "p < 2 ^ 32" "p div 512 \<noteq> unat ?s" for p
    using d2 [rule_format, OF that(1)] inE [of n p] inH [of ?s p] that(2) n by blast
  have lenok: "\<not> (?s = sb_root (super fs) \<and> m_length (of_meta f) + HEADER_SZ + DIR_ENTRY_SZ \<ge> blockSize v)"
  proof
    assume bad: "?s = sb_root (super fs) \<and> m_length (of_meta f) + HEADER_SZ + DIR_ENTRY_SZ \<ge> blockSize v"
    then have n': "n < 30" using room by simp
    have "unat (m_length (of_meta f) + HEADER_SZ) = 16 * n + 16"
      using B n by (subst unat_plus_u32) (simp_all add: HEADER_SZ_def)
    then have "unat (m_length (of_meta f) + HEADER_SZ + DIR_ENTRY_SZ) = 16 * n + 32"
      using n by (subst unat_plus_u32) (simp_all add: DIR_ENTRY_SZ_def)
    with bad n' show False by (simp add: sector_size word_le_nat_alt)
  qed
  have "dir_mkdir v junk name dir fs = Inr (0, dir\<lparr>d_entries := d_entries dir + 1\<rparr>, ?fs3)"
    using B ty name new remNextAvail_some [OF free] chain_nonzero [OF free [unfolded free_blocks_def], of blk] w a
    by (simp add: dir_mkdir_def Let_def K_strlen_ctext K_contains_ctext if_not_P [OF lenok])
  moreover have "block_dir ?fs3 ?s f' (n + 1)"
  proof -
    have "unat (m_length (of_meta f) + 16) = 16 * n + 16" using B n by (subst unat_plus_u32) simp_all
    then show ?thesis using B n f' file_at_bound [of fs ?s f] by (simp add: block_dir_def set_avail_def)
  qed
  moreover have "free_blocks ?fs3 bs"
    using free chain_distinct [OF free [unfolded free_blocks_def]]
    by (auto simp: free_blocks_def slot_put_def chain_update_other)
  moreover have "block_entry v d2 ?s i = block_entry v (dev fs) ?s i" if "i < n" for i
  proof (rule block_entry_cong)
    fix k :: nat assume k: "k < 16"
    let ?p = "entry_pos ?s i + k"
    have p: "?p < 2 ^ 32" using B n that k by (intro entry_pos_bound) simp_all
    have "\<not> (unat ?s * 512 \<le> ?p \<and> ?p < unat ?s * 512 + 16)" "\<not> (entry_pos ?s n \<le> ?p \<and> ?p < entry_pos ?s n + 16)"
      using that k by (auto simp: entry_pos_def)
    then have "disk_byte v d2 ?p = disk_byte v d1 ?p" using d2 [rule_format, OF p] by blast
    moreover have "?p div 512 = unat ?s" using inE [of i ?p] that n k by simp
    then have "\<not> (unat blk * 512 \<le> ?p \<and> ?p < unat blk * 512 + 16)" using inH [of blk ?p] ne by metis
    ultimately show "disk_byte v d2 ?p = disk_byte v (dev fs) ?p" using d1 [rule_format, OF p] by simp
  qed
  moreover have "map (disk_byte v d2) [unat blk * 512 ..< unat blk * 512 + 16] = meta_bytes ?m"
  proof (rule nth_equalityI)
    fix k assume "k < length (map (disk_byte v d2) [unat blk * 512 ..< unat blk * 512 + 16])"
    then have k: "k < 16" by simp
    have p: "unat blk * 512 + k < 2 ^ 32" using blk k by simp
    have "(unat blk * 512 + k) div 512 = unat blk" using k by simp
    then have "disk_byte v d2 (unat blk * 512 + k) = disk_byte v d1 (unat blk * 512 + k)"
      using other [OF p] ne by simp
    then show "map (disk_byte v d2) [unat blk * 512 ..< unat blk * 512 + 16] ! k = meta_bytes ?m ! k"
      using d1 [rule_format, OF p] k by simp
  qed simp
  moreover have "disk_byte v d2 p = disk_byte v (dev fs) p"
    if "p < 2 ^ 32" "p div 512 \<noteq> unat blk" "p div 512 \<noteq> unat ?s" for p
    using other [OF that(1,3)] d1 [rule_format, OF that(1)] inH [of blk p] that(2) by auto
  ultimately show ?thesis using ent f' ty
    by (intro exI [of _ ?fs3] exI [of _ f']) (simp add: slot_put_def)
qed

text \<open>
  The same for a directory whose block is full, that is with 31 entries, and that is not the root: the block after
  the first is taken from the FAT without a look, and is block 0. The new entry goes to the next free block, which
  \<^verbatim>\<open>setNextBlk\<close> links to nothing: the directory still has the one block, and two blocks are lost.
\<close>

lemma chain_rest:
  assumes "chain f b (x # xs)"
  shows "chain (f[unat x := 0]) (f ! unat x) xs"
  using assms chain_distinct [OF assms] by (simp add: chain_update_other)

lemma append_full:
  assumes b: "block_dir fs s f 31" and e: "length entry = 16" and free: "free_blocks fs (nb # bs)"
    and one: "unat s < length (fat fs)" "fat fs ! unat s = 0" "fat fs ! 0 = 0" and nb: "unat nb < 2 ^ 23"
  shows "\<exists>fs' f'. of_append v s entry 16 fs = Inr (0, fs') \<and> fat fs' = ((fat fs)[unat nb := 0])[0 := 0]
    \<and> free_blocks fs' bs \<and> file_at fs' s = Inr f' \<and> m_length (of_meta f') = m_length (of_meta f) + 16"
proof -
  note B = b [unfolded block_dir_def]
  let ?L = "m_length (of_meta f)"
  have a: "unat (?L + HEADER_SZ) = 512" using B by (subst unat_plus_u32) (simp_all add: HEADER_SZ_def)
  then have L: "?L + HEADER_SZ = 512" by (simp add: word_unat_eq_iff)
  have len: "fs_min 16 (blockSize v - (?L + HEADER_SZ)) = 0" "(?L + HEADER_SZ) mod BLOCK_SZ = 0"
    "unat ((?L + HEADER_SZ) div BLOCK_SZ) = Suc 0"
    unfolding L by (simp_all add: fs_min_def sector_size BLOCK_SZ_def)
  from write_within [of 0 0 entry "dev fs"] obtain d0 where w0: "dev_write v (dev fs) 0 entry 0 = Inr (0, d0)" by auto
  have nz: "nb \<noteq> 0" "unat nb < length (fat fs)" using chain_nonzero [OF free [unfolded free_blocks_def], of nb] by auto
  let ?fs0 = "fs\<lparr>dev := d0\<rparr>"
  let ?fs1 = "(set_avail (fat fs ! unat nb) ?fs0)\<lparr>fat := ((fat fs)[unat nb := 0])[0 := 0]\<rparr>"
  have r: "remNextAvail ?fs0 = Inr (nb, (set_avail (fat fs ! unat nb) ?fs0)\<lparr>fat := (fat fs)[unat nb := 0]\<rparr>)"
    using remNextAvail_some [of ?fs0 nb bs] free by (simp add: free_blocks_def)
  have ba: "unat (nb * blockSize v) = unat nb * 512" using nb by (simp add: sector_size unat_word_ariths)
  have "unat (nb * blockSize v) mod 512 + unat (16 :: u32) \<le> 512" "unat (16 :: u32) \<le> length entry" using ba e by simp_all
  from write_within [OF this, of d0] obtain d1 where w1: "dev_write v d0 (nb * blockSize v) entry 16 = Inr (16, d1)" by blast
  have m: "fs_min 16 (blockSize v) = 16" by (simp add: fs_min_def sector_size)
  let ?fs2 = "?fs1\<lparr>dev := d1\<rparr>"
  have f2: "file_at ?fs2 s = Inr f" using B by simp
  from resize_effect [OF f2, of "?L + 16"] B obtain d2 where
    z: "of_resize v s (?L + 16) ?fs2 = Inr ((slot_put s (Some (f\<lparr>of_meta := (of_meta f)\<lparr>m_length := ?L + 16\<rparr>\<rparr>)) ?fs2)\<lparr>dev := d2\<rparr>)"
    by blast
  let ?fs3 = "(slot_put s (Some (f\<lparr>of_meta := (of_meta f)\<lparr>m_length := ?L + 16\<rparr>\<rparr>)) ?fs2)\<lparr>dev := d2\<rparr>"
  have l: "of_write_loop v s entry nb 16 0 ?fs2 = Inr (0, ?fs3)"
    using f2 z by (simp add: of_write_loop.simps [of _ _ _ _ _ 0])
  let ?fsr = "(set_avail (fat fs ! unat nb) ?fs0)\<lparr>fat := (fat fs)[unat nb := 0]\<rparr>"
  have z0: "0 < length (fat fs)" using one(1) by linarith
  have "fat_at ?fs0 0 = Inr 0" using z0 one(3) by (simp add: fat_at_def)
  moreover have "setNextBlk 0 nb ?fsr = Inr ?fs1" using z0 nz by (simp add: setNextBlk_def fat_at_def fat_put_def)
  ultimately have "of_write_loop v s entry 0 0 16 ?fs0 = Inr (0, ?fs3)"
    using nz r w1 l m by (subst of_write_loop.simps) simp
  then have "of_append v s entry 16 fs = Inr (0, ?fs3)"
    using B one len w0 by (simp add: of_append_def of_write_def Let_def)
  moreover have "free_blocks ?fs3 bs"
    using chain_rest [OF free [unfolded free_blocks_def]] chain_nonzero [OF free [unfolded free_blocks_def], of 0]
      chain_update_other [of 0 bs "(fat fs)[unat nb := 0]" 0 "fat fs ! unat nb"]
    by (auto simp: free_blocks_def slot_put_def)
  moreover have "file_at ?fs3 s = Inr (f\<lparr>of_meta := (of_meta f)\<lparr>m_length := ?L + 16\<rparr>\<rparr>)"
    using B file_at_bound [of fs s f] by simp
  ultimately show ?thesis by (intro exI [of _ ?fs3] exI) (auto simp: slot_put_def)
qed

lemma mkdir_full_block:
  assumes b: "block_dir fs (d_start dir) f 31" and ty: "m_type (of_meta f) = TYPE_DIR" and free: "free_blocks fs (blk # nb # bs)"
    and one: "unat (d_start dir) < length (fat fs)" "d_start dir \<noteq> 0" "fat fs ! unat (d_start dir) = 0" "fat fs ! 0 = 0" "length (fat fs) \<le> 2 ^ 23"
    and junk: "length junk = 16" and name: "length (ctext name) < 12" "47 \<notin> set (ctext name)"
    and new: "dir_lookup v fs dir junk name = Inr 0" and root: "d_start dir \<noteq> sb_root (super fs)"
  shows "\<exists>fs' f'. dir_mkdir v junk name dir fs = Inr (0, dir\<lparr>d_entries := d_entries dir + 1\<rparr>, fs')
    \<and> file_at fs' (d_start dir) = Inr f' \<and> unat (m_length (of_meta f')) = 16 * 32
    \<and> chain (fat fs') (d_start dir) [d_start dir] \<and> free_blocks fs' bs"
proof -
  note B = b [unfolded block_dir_def]
  let ?m = "\<lparr>m_type = TYPE_DIR, m_length = 0, m_parentDir = d_start dir, m_currentBlk = blk\<rparr>"
  let ?fs1 = "(set_avail (fat fs ! unat blk) fs)\<lparr>fat := (fat fs)[unat blk := 0]\<rparr>"
  note C = free [unfolded free_blocks_def]
  have z: "blk \<noteq> 0" "unat blk < 2 ^ 23" "unat nb < 2 ^ 23" using chain_nonzero [OF C, of blk] chain_nonzero [OF C, of nb] one(5) by auto
  have "unat (blk * blockSize v) = unat blk * 512" using z by (simp add: sector_size unat_word_ariths)
  then have "unat (blk * blockSize v) mod 512 + unat (16 :: u32) \<le> 512" "unat (16 :: u32) \<le> length (meta_bytes ?m)" by simp_all
  from write_within [OF this, of "dev fs"] obtain d1 where w: "dev_write v (dev fs) (blk * blockSize v) (meta_bytes ?m) 16 = Inr (16, d1)" by blast
  let ?fs2 = "?fs1\<lparr>dev := d1\<rparr>"
  have f2: "free_blocks ?fs2 (nb # bs)"
    using chain_rest [OF C] by (simp only: free_blocks_def) simp
  have b2: "block_dir ?fs2 (d_start dir) f 31" using B by (simp add: block_dir_def)
  have zero: "(g[j := 0]) ! i = 0" if "g ! i = 0" "i < length g" for g :: "u32 list" and i j
    using that by (cases "j = i") auto
  note z0 = zero [of "fat fs" _ "unat blk"]
  have o2: "unat (d_start dir) < length (fat ?fs2)" "fat ?fs2 ! unat (d_start dir) = 0" "fat ?fs2 ! 0 = 0"
    using one(1) z0 [OF one(3) one(1)] z0 [OF one(4)] by (cases "fat fs = []"; simp)+
  from append_full [OF b2 new_entry_is(1) [OF junk name(1), of blk] f2 o2 z(3)] obtain fs' f' where
    a: "of_append v (d_start dir) (entry_name junk name @ le_bytes blk) 16 ?fs2 = Inr (0, fs')"
      "fat fs' = ((fat ?fs2)[unat nb := 0])[0 := 0]" "free_blocks fs' bs" "file_at fs' (d_start dir) = Inr f'"
      "m_length (of_meta f') = m_length (of_meta f) + 16" by blast
  have "dir_mkdir v junk name dir fs = Inr (0, dir\<lparr>d_entries := d_entries dir + 1\<rparr>, fs')"
    using B ty name new remNextAvail_some [OF free] z(1) w a(1) root
    by (simp add: dir_mkdir_def Let_def K_strlen_ctext K_contains_ctext)
  moreover have "unat (m_length (of_meta f')) = 16 * 32" using B a(5) by (simp add: unat_plus_u32)
  moreover have "fat fs' ! unat (d_start dir) = 0"
    unfolding a(2) using o2(1,2) by (intro zero) simp_all
  moreover have "length (fat fs') = length (fat fs)" unfolding a(2) by simp
  ultimately show ?thesis using a(3,4) one by auto
qed

end

section \<open>Paths\<close>

lemma path_loop_last:
  "path_loop v fs dir junk idx (cs @ [c]) = Inr r \<Longrightarrow> r \<noteq> 0 \<Longrightarrow> dir_lookup v fs dir junk c = Inr r"
  by (induction cs arbitrary: idx) (auto split: if_splits)

lemma path_loop_missing:
  "dir_lookup v fs dir junk c = Inr 0 \<Longrightarrow> path_loop v fs dir junk idx (c # cs) = Inr 0"
  by simp

section \<open>The small volume\<close>

lemma nth_le_bytes_list:
  "n < 4 * length ws \<Longrightarrow> le_bytes_list ws ! n = le_bytes (ws ! (n div 4)) ! (n mod 4)"
proof (induction ws arbitrary: n)
  case (Cons w ws)
  show ?case
  proof (cases "n < 4")
    case True
    then show ?thesis by (simp add: le_bytes_list_def nth_append)
  next
    case False
    then have "n div 4 = Suc ((n - 4) div 4)" "n mod 4 = (n - 4) mod 4"
      by (simp_all add: le_div_geq le_mod_geq)
    then show ?thesis using Cons.IH [of "n - 4"] Cons.prems False
      by (simp add: le_bytes_list_def nth_append)
  qed
qed simp

lemma ide_disk_byte:
  assumes "p < 2 ^ 32"
  shows "disk_byte ide_driver d p =
    le_bytes (d (0x170, True, of_nat (p div 512)) (p mod 512 div 4)) ! (p mod 512 mod 4)"
proof -
  have "p div 512 < 2 ^ 23" using assms by simp
  then have b: "(of_nat (p div 512) :: u32) < 2 ^ 28"
    by (simp add: word_less_nat_alt unat_of_nat_u32)
  have "ide_rb image_polls image_in 3 d (of_nat (p div 512))
      = le_bytes_list (map (d (0x170, True, of_nat (p div 512))) [0 ..< 128])"
    using hd.readBlock_contents [OF b, of d]
    by (simp add: ide_rb_def ide_port_def ide_ports_def controller_def channel_def)
  then show ?thesis
    by (simp add: disk_byte_def dev_byte_def ide_driver_def SECTOR_SIZE_def nth_le_bytes_list)
qed

lemma small_entries:
  "block_entry ide_driver small_disk 2 0 = [0x61, 0x62, 0, 0, 0, 0, 0, 0, 0, 0, 0, 0, 5, 0, 0, 0]"
  "block_entry ide_driver small_disk 2 1 = [0x63, 0, 0, 0, 0, 0, 0, 0, 0, 0, 0, 0, 7, 0, 0, 0]"
  by (simp_all add: block_entry_def entry_pos_def ide_disk_byte small_disk_def le_bytes_def upt_rec
      unsigned_ucast_eq)

definition small_root :: fat_dir where
  "small_root = \<lparr>d_start = 2, d_entries = 2\<rparr>"

lemma small_root_ok: "dir_ok small_fs small_root small_dir [2]"
  using small_fs_dir by (simp add: dir_ok_def small_root_def small_dir_def)

lemma small_root_entries:
  "dir_entry ide_driver small_fs [2] 0 = [0x61, 0x62, 0, 0, 0, 0, 0, 0, 0, 0, 0, 0, 5, 0, 0, 0]"
  "dir_entry ide_driver small_fs [2] (Suc 0) = [0x63, 0, 0, 0, 0, 0, 0, 0, 0, 0, 0, 0, 7, 0, 0, 0]"
  using small_entries by (simp_all add: dir_entry_block small_fs_def)

lemma small_find:
  "find_entry ide_driver small_fs [2] name 0 2 =
     (if entry_is [0x61, 0x62, 0, 0, 0, 0, 0, 0, 0, 0, 0, 0, 5, 0, 0, 0] name then Some 0
      else if entry_is [0x63, 0, 0, 0, 0, 0, 0, 0, 0, 0, 0, 0, 7, 0, 0, 0] name then Some 1 else None)"
proof -
  have "[0 ..< 2] = [0, Suc 0]" by (simp add: upt_rec)
  then show ?thesis using small_root_entries by (simp add: find_entry_def)
qed

lemma block_dir_of_dir_ok:
  assumes "dir_ok fs dir f [d_start dir]"
  shows "block_dir fs (d_start dir) f (unat (d_entries dir))"
proof -
  have "unat (d_start dir) < length (fat fs)" "length (fat fs) \<le> 2 ^ 23"
    "unat (m_length (of_meta f)) + 16 \<le> 512"
    using assms by (simp_all add: dir_ok_def wf_file_def)
  then show ?thesis using assms by (simp add: block_dir_def dir_ok_def wf_file_def)
qed

lemma find_upt_last: "\<forall>j < n. \<not> P j \<Longrightarrow> P n \<Longrightarrow> List.find P [0 ..< Suc n] = Some n"
  unfolding find_Some_iff by (rule exI [of _ n]) (simp del: upt_Suc)

section \<open>Properties\<close>

text \<open>
  C28. \<^verbatim>\<open>lookup\<close> finds the first entry of the directory whose name is the name asked for and
  returns its start block, and 0 when there is none; "." is the directory itself and ".." its
  parent. A name of 12 or more characters never matches.
\<close>

theorem lookup_first_entry:
  assumes "volume v" and "dir_ok fs dir f xs" and "length junk = 16"
  shows "dir_lookup v fs dir junk name =
    Inr (if is_dot name then d_start dir
         else if is_dotdot name then m_parentDir (of_meta f)
         else (case List.find (\<lambda>i. entry_is (dir_entry v fs xs i) name) [0 ..< unat (d_entries dir)] of
                 None \<Rightarrow> 0 | Some i \<Rightarrow> entry_start (dir_entry v fs xs i)))"
  using volume.dir_lookup_first [OF assms, of name] assms(2)
  by (auto simp: dir_lookup_def find_entry_def dir_ok_def wf_file_def)

theorem lookup_first_entry_witness: "dir_lookup ide_driver small_fs small_root (replicate 16 0) [0x63] = Inr 7"
  using lookup_first_entry [OF hdv.volume_axioms small_root_ok, of "replicate 16 0" "[0x63]"]
    small_find [of "[0x63]", unfolded find_entry_def]
  by (simp add: small_root_def is_dot_def is_dotdot_def cstr_def small_root_entries entry_is_def
      entry_start_def le_word_def)

text \<open>
  \<^verbatim>\<open>lookupEntry\<close> does not return the index of the entry it finds: the inner loop
  declares its own \<^verbatim>\<open>i\<close>, so the result is the length of the name, whatever the position of
  the entry; \<^verbatim>\<open>remove\<close> takes it for the index.
\<close>

theorem lookupEntry_returns_name_length:
  assumes "volume v" and "dir_ok fs dir f xs" and "length junk = 16"
    and "\<not> is_dot name" and "\<not> is_dotdot name"
  shows "lookupEntry v fs dir junk name =
    Inr (if \<exists>i < unat (d_entries dir). entry_is (dir_entry v fs xs i) name
         then int (length (ctext name)) else -1)"
proof -
  have "find_entry v fs xs name 0 (unat (d_entries dir)) = None \<longleftrightarrow>
      \<not> (\<exists>i < unat (d_entries dir). entry_is (dir_entry v fs xs i) name)"
    by (auto simp: find_entry_def find_None_iff)
  then show ?thesis
    using volume.lookupEntry_first [OF assms]
    by (cases "find_entry v fs xs name 0 (unat (d_entries dir))") auto
qed

theorem lookupEntry_returns_name_length_witness:
  "lookupEntry ide_driver small_fs small_root (replicate 16 0) [0x61, 0x62] = Inr 2
   \<and> lookupEntry ide_driver small_fs small_root (replicate 16 0) [0x63] = Inr 1"
proof -
  have "entry_is (dir_entry ide_driver small_fs [2] 0) [0x61, 0x62]"
    "entry_is (dir_entry ide_driver small_fs [2] (Suc 0)) [0x63]"
    by (simp_all add: small_root_entries entry_is_def)
  then have "\<exists>i < unat (d_entries small_root). entry_is (dir_entry ide_driver small_fs [2] i) [0x61, 0x62]"
    "\<exists>i < unat (d_entries small_root). entry_is (dir_entry ide_driver small_fs [2] i) [0x63]"
    by (force simp: small_root_def intro: exI [of _ 0] exI [of _ "Suc 0"])+
  then show ?thesis
    using lookupEntry_returns_name_length [OF hdv.volume_axioms small_root_ok, of "replicate 16 0"]
    by (simp add: is_dot_def is_dotdot_def cstr_def)
qed

text \<open>
  What \<^verbatim>\<open>remFromOffset\<close> does to a directory of one block with \<open>n\<close> entries when asked
  to remove entry \<open>i\<close>: the offset counts the header but is compared with the length, which does
  not. The last entry or the one before it are cut by setting the length to \<open>i + 1\<close> entries, so
  the last entry stays and the one before the last costs the last one; for any other entry the debugging output
  reads memory that does not exist. The truncating path also
  releases \<^verbatim>\<open>openFilesMutex\<close>, which it does not hold.
\<close>

theorem remFromOffset_entries:
  assumes "volume v" and "block_dir fs s f n" and "0 < n" and "i \<le> 30"
  shows "if i + 2 < n then remFromOffset v s (of_nat (16 * i + 16)) DIR_ENTRY_SZ fs = Inl NullDeref
    else \<exists>fs' f'. remFromOffset v s (of_nat (16 * i + 16)) DIR_ENTRY_SZ fs = Inr (0, fs')
      \<and> block_dir fs' s f' (i + 1) \<and> openFilesMutex fs' = openFilesMutex fs + 1
      \<and> (\<forall>j \<le> 30. block_entry v (dev fs') s j = block_entry v (dev fs) s j)"
  by (rule volume.remFromOffset_block [OF assms])

theorem remFromOffset_entries_witness:
  "\<exists>fs'. remFromOffset ide_driver 2 16 DIR_ENTRY_SZ small_fs = Inr (0, fs') \<and> openFilesMutex fs' = 2
     \<and> block_entry ide_driver (dev fs') 2 0 = [0x61, 0x62, 0, 0, 0, 0, 0, 0, 0, 0, 0, 0, 5, 0, 0, 0]"
proof -
  have "block_dir small_fs 2 small_dir 2"
    using block_dir_of_dir_ok [of small_fs small_root small_dir] small_root_ok by (simp add: small_root_def)
  from remFromOffset_entries [OF hdv.volume_axioms this, of 0] show ?thesis
    using small_entries by (auto simp: small_fs_def)
qed

text \<open>
  C17. In a directory of one block that has room for the entry (at most 30 entries, in the root 29), when its checks
  pass and a block is free, \<^verbatim>\<open>mkdir\<close> creates the directory: the first
  free block gets the header of an empty directory whose parent is this one, the directory gains an
  entry that a later lookup of the name finds, its old entries stay, the free list loses exactly
  that block, and no other block of the device is written - the FAT and the super block on the
  device keep their old contents. The restriction is the code's: with 31 entries \<^verbatim>\<open>mkdir\<close> of a directory other than
  the root returns 0 as well but loses the entry (\<open>mkdir_full_block\<close>), and no directory grows to a second block.
\<close>

theorem mkdir_creates:
  assumes "volume v" and d: "dir_ok fs dir f [d_start dir]" and n: "unat (d_entries dir) \<le> 30"
    and ty: "m_type (of_meta f) = TYPE_DIR"
    and free: "free_blocks fs (blk # bs)" and ne: "blk \<noteq> d_start dir" and junk: "length junk = 16"
    and name: "length (ctext name) < 12" "47 \<notin> set (ctext name)" "\<not> is_dot name" "\<not> is_dotdot name"
    and new: "\<forall>i < unat (d_entries dir). \<not> entry_is (dir_entry v fs [d_start dir] i) name"
    and room: "d_start dir \<noteq> sb_root (super fs) \<or> unat (d_entries dir) < 30"
  shows "\<exists>fs' f' dir'. dir_mkdir v junk name dir fs = Inr (0, dir', fs')
    \<and> dir' = dir\<lparr>d_entries := d_entries dir + 1\<rparr> \<and> dir_ok fs' dir' f' [d_start dir]
    \<and> dir_lookup v fs' dir' junk name = Inr blk
    \<and> (\<forall>i < unat (d_entries dir). dir_entry v fs' [d_start dir] i = dir_entry v fs [d_start dir] i)
    \<and> meta_of_bytes (map (disk_byte v (dev fs')) [unat blk * 512 ..< unat blk * 512 + 16]) =
        \<lparr>m_type = TYPE_DIR, m_length = 0, m_parentDir = d_start dir, m_currentBlk = blk\<rparr>
    \<and> free_blocks fs' bs
    \<and> (\<forall>p < 2 ^ 32. p div 512 \<notin> {unat blk, unat (d_start dir)} \<longrightarrow>
         disk_byte v (dev fs') p = disk_byte v (dev fs) p)"
proof -
  let ?n = "unat (d_entries dir)" and ?s = "d_start dir" and ?dir = "dir\<lparr>d_entries := d_entries dir + 1\<rparr>"
  have w: "chain (fat fs) ?s [?s]" "length (fat fs) \<le> 2 ^ 23" using d by (simp_all add: dir_ok_def wf_file_def)
  have blk: "unat blk < 2 ^ 23"
    using chain_nonzero [OF free [unfolded free_blocks_def], of blk] w(2) by simp
  have none: "find_entry v fs [?s] name 0 ?n = None" using new by (simp add: find_entry_def find_None_iff)
  have l0: "dir_lookup v fs dir junk name = Inr 0"
    using volume.dir_lookup_first [OF assms(1) d junk name(3,4)] none by simp
  from volume.mkdir_effect [OF assms(1) block_dir_of_dir_ok [OF d] refl n ty free blk ne junk name(1,2) l0 room]
  obtain fs' f' where m: "dir_mkdir v junk name dir fs = Inr (0, ?dir, fs')"
    and b': "block_dir fs' ?s f' (?n + 1)" and fat': "fat fs' = (fat fs)[unat blk := 0]" and fr: "free_blocks fs' bs"
    and last: "block_entry v (dev fs') ?s ?n = entry_name junk name @ le_bytes blk"
    and old: "\<forall>i < ?n. block_entry v (dev fs') ?s i = block_entry v (dev fs) ?s i"
    and hdr: "map (disk_byte v (dev fs')) [unat blk * 512 ..< unat blk * 512 + 16] =
        meta_bytes \<lparr>m_type = TYPE_DIR, m_length = 0, m_parentDir = ?s, m_currentBlk = blk\<rparr>"
    and frame: "\<forall>p < 2 ^ 32. p div 512 \<noteq> unat blk \<longrightarrow> p div 512 \<noteq> unat ?s \<longrightarrow>
         disk_byte v (dev fs') p = disk_byte v (dev fs) p" by blast
  have n1: "unat (d_entries ?dir) = ?n + 1" using n by (simp add: unat_plus_u32)
  have "chain (fat fs') ?s [?s]" unfolding fat' using ne w(1) by (subst chain_update_other) simp_all
  then have d': "dir_ok fs' ?dir f' [?s]"
    using b' fat' w(2) n n1 by (simp add: dir_ok_def wf_file_def block_dir_def)
  have same: "dir_entry v fs' [?s] i = dir_entry v fs [?s] i" if "i < ?n" for i
    using that n old by (simp add: dir_entry_block)
  have new': "dir_entry v fs' [?s] ?n = entry_name junk name @ le_bytes blk"
    using n last by (simp add: dir_entry_block)
  have "find_entry v fs' [?s] name 0 (unat (d_entries ?dir)) = Some ?n"
    using new same new' new_entry_is(2) [OF junk name(1), of blk] unfolding n1
    by (simp add: find_entry_def find_upt_last del: upt_Suc)
  then have "dir_lookup v fs' ?dir junk name = Inr blk"
    using volume.dir_lookup_first [OF assms(1) d' junk name(3,4)] new' new_entry_is(3) [OF junk name(1)] by simp
  with m d' same hdr fr frame show ?thesis by (intro exI [of _ fs'] exI [of _ f'] exI [of _ ?dir]) simp
qed

theorem mkdir_creates_witness:
  "\<exists>fs' dir'. dir_mkdir ide_driver (replicate 16 0xAA) [0x64] small_root small_fs = Inr (0, dir', fs')
     \<and> d_entries dir' = 3 \<and> dir_lookup ide_driver fs' dir' (replicate 16 0xAA) [0x64] = Inr 3"
proof -
  have new: "\<forall>i < unat (d_entries small_root). \<not> entry_is (dir_entry ide_driver small_fs [d_start small_root] i) [0x64]"
  proof -
    have "find_entry ide_driver small_fs [2] [0x64] 0 2 = None"
      using small_find [of "[0x64]"] by (simp add: entry_is_def)
    then show ?thesis by (simp add: find_entry_def find_None_iff small_root_def)
  qed
  have d: "dir_ok small_fs small_root small_dir [d_start small_root]"
    using small_root_ok by (simp add: small_root_def)
  show ?thesis
    using mkdir_creates [OF hdv.volume_axioms d _ _ small_fs_free _ _ _ _ _ _ new, of "replicate 16 0xAA"]
    by (auto simp: small_root_def small_dir_def TYPE_DIR_def is_dot_def is_dotdot_def cstr_def)
qed

text \<open>
  \<^verbatim>\<open>mkdir\<close> rejects what it must: in a file that is not a directory, a name of 12 or more
  characters, a name with a slash, a name that exists, a full root block and a full disk each give
  their error code, in this order, and none of them changes the file system.
\<close>

theorem mkdir_rejects:
  assumes f: "file_at fs (d_start dir) = Inr f" and l: "dir_lookup v fs dir junk name = Inr found"
    and bad: "m_type (of_meta f) \<noteq> TYPE_DIR \<or> 12 \<le> length (ctext name) \<or> 47 \<in> set (ctext name)
      \<or> found \<noteq> 0 \<or> d_start dir = sb_root (super fs) \<and> blockSize v \<le> m_length (of_meta f) + 32
      \<or> free_blocks fs []"
  shows "dir_mkdir v junk name dir fs =
    Inr (if m_type (of_meta f) \<noteq> TYPE_DIR then ERR_NOT_DIR
         else if 12 \<le> length (ctext name) then ERR_FL_NAMELEN
         else if 47 \<in> set (ctext name) then ERR_INVL_CHAR
         else if found \<noteq> 0 then ERR_FL_EXIST
         else if d_start dir = sb_root (super fs) \<and> blockSize v \<le> m_length (of_meta f) + 32
         then ERR_NO_ROOT_SPACE
         else ERR_NO_SPACE, dir, fs)"
proof -
  show ?thesis
  proof (cases "m_type (of_meta f) \<noteq> TYPE_DIR \<or> 12 \<le> length (ctext name) \<or> 47 \<in> set (ctext name)
      \<or> found \<noteq> 0 \<or> d_start dir = sb_root (super fs) \<and> blockSize v \<le> m_length (of_meta f) + 32")
    case True
    with f l show ?thesis unfolding dir_mkdir_def
      by (auto simp: K_strlen_ctext K_contains_ctext HEADER_SZ_def DIR_ENTRY_SZ_def
          add.commute [of "32 :: u32"])
  next
    case False
    with bad have "free_blocks fs []" by blast
    with False f l show ?thesis unfolding dir_mkdir_def
      by (auto simp: K_strlen_ctext K_contains_ctext remNextAvail_none HEADER_SZ_def DIR_ENTRY_SZ_def
          add.commute [of "32 :: u32"])
  qed
qed

theorem mkdir_rejects_witness:
  "dir_mkdir ide_driver (replicate 16 0) (replicate 12 0x61) small_root small_fs = Inr (ERR_FL_NAMELEN, small_root, small_fs)"
proof -
  have t: "ctext (replicate 12 0x61) = replicate 12 0x61" by (simp add: ctext_def)
  have "dir_lookup ide_driver small_fs small_root (replicate 16 0) (replicate 12 0x61) = Inr 0"
    using volume.dir_lookup_first [OF hdv.volume_axioms small_root_ok, of "replicate 16 0" "replicate 12 0x61"]
      small_find [of "replicate 12 0x61"]
    by (simp add: small_root_def is_dot_def is_dotdot_def cstr_def entry_is_def t)
  from mkdir_rejects [OF _ this, of small_dir] show ?thesis
    by (simp add: small_fs_def small_root_def file_at_def slot_at_def t small_dir_def TYPE_DIR_def)
qed

text \<open>
  A path is not followed: \<^verbatim>\<open>lookupDirectory(const char**)\<close> looks every component up in
  the directory it starts from, so the directory it returns is the entry of the last component
  there, and any component missing there makes it fail.
\<close>

theorem path_uses_last_component:
  assumes "lookupDirectory_path v junk (Some (cs @ [c])) dir fs = Inr (Some d, fs')"
  shows "\<exists>idx. dir_lookup v fs dir junk c = Inr idx \<and> new_Directory v idx fs = Inr (d, fs')"
proof -
  from assms obtain idx where i: "path_loop v fs dir junk 0 (cs @ [c]) = Inr idx" "idx \<noteq> 0"
    "new_Directory v idx fs = Inr (d, fs')"
    by (auto simp: lookupDirectory_path_def split: if_splits)
  with path_loop_last [OF i(1,2)] show ?thesis by blast
qed

theorem path_uses_last_component_witness:
  "\<exists>d fs'. lookupDirectory_path ide_driver (replicate 16 0) (Some [[0x2E], [0x2E]]) small_root small_fs = Inr (Some d, fs')
     \<and> new_Directory ide_driver 2 small_fs = Inr (d, fs')"
proof -
  obtain d fs' where n: "new_Directory ide_driver 2 small_fs = Inr (d, fs')"
    by (auto simp: new_Directory_def openFile_def lockOpenFiles_def unlockOpenFiles_def small_fs_def
        slot_at_def file_at_def slot_put_def)
  have dot: "dir_lookup ide_driver small_fs small_root (replicate 16 0) [0x2E] = Inr 2"
    by (simp add: dir_lookup_def is_dot_def cstr_def small_root_def)
  have p: "lookupDirectory_path ide_driver (replicate 16 0) (Some ([[0x2E]] @ [[0x2E]])) small_root small_fs
      = Inr (Some d, fs')"
    using dot n by (simp add: lookupDirectory_path_def)
  from path_uses_last_component [OF p] p dot show ?thesis by auto
qed

text \<open>
  Opening and closing a file keep count: \<^verbatim>\<open>openFile\<close> of a block whose file is open only
  adds a reference, so all users share one object; \<^verbatim>\<open>closeFile\<close> takes the reference back
  and restores the table, and the mutex is free again after both.
\<close>

theorem open_close_roundtrip:
  assumes "file_at fs s = Inr f" and "openFilesMutex fs = 1" and "of_count f < 2 ^ 32 - 1" and "0 < of_count f"
  shows "\<exists>fs1. openFile v s fs = Inr fs1 \<and> file_at fs1 s = Inr (f\<lparr>of_count := of_count f + 1\<rparr>)
    \<and> openFilesMutex fs1 = 1 \<and> closeFile s fs1 = Inr fs"
proof -
  have s: "unat s < length (openFiles fs)" "openFiles fs ! unat s = Some f"
    using assms(1) by (auto simp: file_at_def slot_at_def split: if_splits option.splits)
  have c: "of_count f + 1 \<noteq> 1" using assms(4) by auto
  have same: "(openFiles fs)[unat s := Some f] = openFiles fs" using s by (metis list_update_id)
  have f: "f\<lparr>of_count := of_count f\<rparr> = f" by simp
  show ?thesis
    using s assms(2) c same
    by (simp add: openFile_def closeFile_def lockOpenFiles_def unlockOpenFiles_def slot_at_def slot_put_def file_at_def)
qed

theorem open_close_roundtrip_witness:
  "\<exists>fs1. openFile ide_driver 5 small_fs = Inr fs1 \<and> closeFile 5 fs1 = Inr small_fs"
  using open_close_roundtrip [of small_fs 5 small_file]
  by (auto simp: small_fs_def small_file_def file_at_def slot_at_def)

end
