(* ===== verification/Scheduler.thy ===== *)
theory Scheduler
  imports Simple_Queue
begin

text \<open>
  \<^verbatim>\<open>kernel/process.h\<close>, \<^verbatim>\<open>kernel/process.cc\<close>, \<^verbatim>\<open>kernel/semaphore.h\<close>,
  \<^verbatim>\<open>kernel/semaphore.cc\<close>, \<^verbatim>\<open>kernel/pit.cc\<close>, the interrupt entry of
  \<^verbatim>\<open>kernel/pic.cc\<close> and the loop of \<^verbatim>\<open>kernel/idle.cc\<close>: processes, the ready queue,
  blocking on semaphores and timers, preemption, termination and the reaper.

  A process is named by a number (its address). \<^verbatim>\<open>contextSwitch\<close> suspends a process in the
  middle of \<^verbatim>\<open>yield\<close> and of whatever called it; what remains to be done when the process is
  resumed is the list \<open>konts\<close> of the process, its kernel stack. The operations below run up to the
  context switch; \<open>exec_kont\<close> runs the next piece of the resumed process. The FIFO queues are
  lists; \<open>Simple_Queue\<close> shows that the linked queues of the kernel behave as lists do.
\<close>

section \<open>State\<close>

datatype pstate = READY | RUNNING | BLOCKED | TERMINATED

type_synonym pid = nat

text \<open>
  A semaphore is one that user code or the kernel made, or the one inside the \<^verbatim>\<open>doneEvent\<close> of
  a process.
\<close>

datatype semid = Sem nat | Done pid

text \<open>
  What a suspended process still has to do: the rest of \<^verbatim>\<open>yield\<close>, the
  \<^verbatim>\<open>Process::enable()\<close> at the end of \<^verbatim>\<open>down\<close> or \<^verbatim>\<open>sleepUntil\<close>, the
  \<^verbatim>\<open>endIrq\<close> of an interrupt, the \<^verbatim>\<open>up\<close> of \<^verbatim>\<open>Event::wait\<close>, the part of \<^verbatim>\<open>exit\<close> that follows the
  release of the resources, or, for a new process, \<^verbatim>\<open>Process::entry\<close>.
\<close>

datatype kont = KYield | KEnable | KEndIrq | KUp semid | KExit | KEntry

text \<open>
  \<open>espReg\<close> and \<open>kesp\<close> are stack pointers, as the number of longs that are in use below the top of the
  kernel stack: \<open>espReg\<close> is the register while the process runs, which the compiled code moves, and
  \<open>kesp\<close> the copy that the last switch away from the process has saved. A count is a 32-bit \<^verbatim>\<open>int\<close>.
\<close>

record proc =
  p_state :: pstate
  isKilled :: bool
  killCode :: int
  exitCode :: int
  disableCount :: u32
  iDepth :: u32
  iCount :: u32
  refCount :: u32
  espReg :: u32
  kesp :: u32
  konts :: "kont list"

record semaphore =
  count :: int
  waiting :: "pid list"

record timer =
  target :: u32
  sleepers :: "pid list"

record sched =
  procs :: "pid \<Rightarrow> proc option"
  nextPid :: pid
  current :: "pid option"
  readyQueue :: "pid list"
  reaperQueue :: "pid list"
  idleProcess :: "pid option"
  idleJiffies :: u32
  sems :: "semid \<Rightarrow> semaphore"
  timers :: "timer list"
  jiffies :: u32
  hz :: u32
  ints_on :: bool
  activeSpace :: "pid option"
  kernelStack :: "pid option"

definition upd_proc :: "pid \<Rightarrow> (proc \<Rightarrow> proc) \<Rightarrow> sched \<Rightarrow> sched" where
  "upd_proc p f s = s\<lparr>procs := (procs s)(p := map_option f (procs s p))\<rparr>"

definition upd_sem :: "semid \<Rightarrow> (semaphore \<Rightarrow> semaphore) \<Rightarrow> sched \<Rightarrow> sched" where
  "upd_sem i f s = s\<lparr>sems := (sems s)(i := f (sems s i))\<rparr>"

text \<open>Access through a process pointer.\<close>

definition get_proc :: "pid \<Rightarrow> sched \<Rightarrow> fault + proc" where
  "get_proc p s = (case procs s p of None \<Rightarrow> Inl NullDeref | Some P \<Rightarrow> Inr P)"

section \<open>Interrupts\<close>

definition disable :: "sched \<Rightarrow> sched" where
  "disable s =
     (let s1 = s\<lparr>ints_on := False\<rparr>
      in case current s1 of
           None \<Rightarrow> s1
         | Some me \<Rightarrow> upd_proc me (\<lambda>P. P\<lparr>disableCount := disableCount P + 1\<rparr>) s1)"

definition enable :: "sched \<Rightarrow> fault + sched" where
  "enable s =
     (case current s of
        None \<Rightarrow> Inr s
      | Some me \<Rightarrow>
          bindE (get_proc me s) (\<lambda>P.
            let c = disableCount P in
            if c = 0 then Inl (Panic ''disable'')
            else if c = 1 then Inr ((upd_proc me (\<lambda>P. P\<lparr>disableCount := 0\<rparr>) s)\<lparr>ints_on := True\<rparr>)
            else Inr (upd_proc me (\<lambda>P. P\<lparr>disableCount := disableCount P - 1\<rparr>) s)))"

definition startIrq :: "sched \<Rightarrow> fault + sched" where
  "startIrq s =
     (case current s of
        None \<Rightarrow> Inl (Panic ''startIrq with no process'')
      | Some me \<Rightarrow>
          bindE (get_proc me s) (\<lambda>P.
            if disableCount P \<noteq> 0 then Inl (Panic ''disableCount'')
            else Inr (upd_proc me (\<lambda>P. P\<lparr>iCount := iCount P + 1, iDepth := iDepth P + 1,
                                        disableCount := 1\<rparr>) s)))"

definition endIrq :: "sched \<Rightarrow> fault + sched" where
  "endIrq s =
     (case current s of
        None \<Rightarrow> Inr s
      | Some me \<Rightarrow>
          bindE (get_proc me s) (\<lambda>P.
            if disableCount P \<noteq> 1 then Inl (Panic ''disableCount'')
            else Inr (upd_proc me (\<lambda>P. P\<lparr>iDepth := iDepth P - 1, disableCount := 0\<rparr>) s)))"

section \<open>Ready, blocked and running\<close>

definition makeReady :: "pid \<Rightarrow> sched \<Rightarrow> fault + sched" where
  "makeReady p s =
     (let s1 = disable s;
          s2 = upd_proc p (\<lambda>P. P\<lparr>p_state := READY\<rparr>) s1;
          s3 = (if Some p \<noteq> idleProcess s2 then s2\<lparr>readyQueue := readyQueue s2 @ [p]\<rparr> else s2)
      in enable s3)"

text \<open>
  The constructor of \<^verbatim>\<open>Process\<close>: the six longs of the new stack return into \<^verbatim>\<open>runProcess\<close>, and the
  reference count is 1. Its \<^verbatim>\<open>state\<close> is set by \<^verbatim>\<open>start\<close>.
\<close>

definition STACK_LONGS :: u32 where "STACK_LONGS = 1024 * 2"

definition init_proc :: proc where
  "init_proc = \<lparr>p_state = READY, isKilled = False, killCode = 0, exitCode = 0, disableCount = 0,
     iDepth = 0, iCount = 0, refCount = 1, espReg = 6, kesp = 6, konts = [KEntry]\<rparr>"

definition new_process :: "sched \<Rightarrow> pid \<times> sched" where
  "new_process s = (nextPid s, s\<lparr>procs := (procs s)(nextPid s \<mapsto> init_proc),
     sems := (sems s)(Done (nextPid s) := \<lparr>count = 0, waiting = []\<rparr>), nextPid := Suc (nextPid s)\<rparr>)"

definition start :: "pid \<Rightarrow> sched \<Rightarrow> fault + sched" where
  "start p s = makeReady p s"

definition isTerminated :: "proc \<Rightarrow> bool" where "isTerminated P \<longleftrightarrow> p_state P = TERMINATED"
definition isRunning :: "proc \<Rightarrow> bool" where "isRunning P \<longleftrightarrow> p_state P = RUNNING"
definition isBlocked :: "proc \<Rightarrow> bool" where "isBlocked P \<longleftrightarrow> p_state P = BLOCKED"
definition isReady :: "proc \<Rightarrow> bool" where "isReady P \<longleftrightarrow> p_state P = READY"

text \<open>The caller's continuation goes on the stack of the current process.\<close>

definition push :: "kont \<Rightarrow> sched \<Rightarrow> sched" where
  "push k s = (case current s of None \<Rightarrow> s
     | Some me \<Rightarrow> upd_proc me (\<lambda>P. P\<lparr>konts := k # konts P\<rparr>) s)"

text \<open>
  \<^verbatim>\<open>dispatch\<close> up to the context switch, which saves the stack pointer of the process that it leaves,
  if there is one, and loads that of the next process and its interrupt flag. The stack of the next
  process is checked first. When a process dispatches itself there is no switch.
\<close>

definition save_esp :: "pid option \<Rightarrow> sched \<Rightarrow> sched" where
  "save_esp prev s = (case prev of None \<Rightarrow> s | Some q \<Rightarrow> upd_proc q (\<lambda>Q. Q\<lparr>kesp := espReg Q\<rparr>) s)"

definition dispatch :: "pid \<Rightarrow> pid option \<Rightarrow> sched \<Rightarrow> fault + sched" where
  "dispatch p prev s =
     bindE (get_proc p s) (\<lambda>P.
       let s1 = upd_proc p (\<lambda>P. P\<lparr>p_state := RUNNING\<rparr>) s
       in if kesp P \<ge> STACK_LONGS then Inl (Panic ''stack is too big'')
          else if Some p \<noteq> prev
          then Inr ((upd_proc p (\<lambda>P. P\<lparr>espReg := kesp P\<rparr>) (save_esp prev s1))\<lparr>activeSpace := Some p, kernelStack := Some p, current := Some p,
                       ints_on := (disableCount P = 0)\<rparr>)
          else Inr s1)"

text \<open>The queue a process blocks on.\<close>

datatype wqueue = OnSem semid | OnTimer u32

definition enqueue :: "wqueue \<Rightarrow> pid \<Rightarrow> sched \<Rightarrow> sched" where
  "enqueue q p s =
     (case q of
        OnSem i \<Rightarrow> upd_sem i (\<lambda>S. S\<lparr>waiting := waiting S @ [p]\<rparr>) s
      | OnTimer t \<Rightarrow> s\<lparr>timers := map (\<lambda>T. if target T = t then T\<lparr>sleepers := sleepers T @ [p]\<rparr> else T) (timers s)\<rparr>)"

definition pick_next :: "sched \<Rightarrow> fault + (pid \<times> sched)" where
  "pick_next s =
     (case readyQueue s of
        p # ps \<Rightarrow> Inr (p, s\<lparr>readyQueue := ps\<rparr>)
      | [] \<Rightarrow>
          (case idleProcess s of
             Some p \<Rightarrow> Inr (p, s)
           | None \<Rightarrow>
               (let (p, s1) = new_process s;
                    s2 = s1\<lparr>idleProcess := Some p\<rparr>
                in bindE (start p s2) (\<lambda>s3. Inr (p, s3)))))"

definition yield :: "wqueue option \<Rightarrow> sched \<Rightarrow> fault + sched" where
  "yield q s =
     (let s1 = push KYield (disable s) in
      bindE (case current s1 of
               None \<Rightarrow> Inr s1
             | Some me \<Rightarrow>
                 (case q of
                    Some w \<Rightarrow>
                      bindE (get_proc me s1) (\<lambda>P.
                        if iDepth P \<noteq> 0 then Inl (Panic ''blocking while iDepth'')
                        else Inr (enqueue w me (upd_proc me (\<lambda>P. P\<lparr>p_state := BLOCKED\<rparr>) s1)))
                  | None \<Rightarrow> makeReady me s1)) (\<lambda>s2.
      bindE (pick_next s2) (\<lambda>(p, s3). dispatch p (current s1) s3)))"

section \<open>Semaphores, mutexes and events\<close>

definition down :: "semid \<Rightarrow> sched \<Rightarrow> fault + sched" where
  "down i s =
     (let s1 = disable s in
      if count (sems s1 i) = 0
      then (if current s1 = None then Inl (Panic ''blocking without process'')
            else yield (Some (OnSem i)) (push KEnable s1))
      else enable (upd_sem i (\<lambda>S. S\<lparr>count := s32 (count S - 1)\<rparr>) s1))"

definition up :: "semid \<Rightarrow> sched \<Rightarrow> fault + sched" where
  "up i s =
     (let s1 = disable s in
      bindE (case waiting (sems s1 i) of
               [] \<Rightarrow> Inr (upd_sem i (\<lambda>S. S\<lparr>count := s32 (count S + 1)\<rparr>) s1)
             | p # ps \<Rightarrow> makeReady p (upd_sem i (\<lambda>S. S\<lparr>waiting := ps\<rparr>) s1)) enable)"

definition new_mutex :: semaphore where
  "new_mutex = \<lparr>count = 1, waiting = []\<rparr>"

definition mutex_lock :: "semid \<Rightarrow> sched \<Rightarrow> fault + sched" where
  "mutex_lock i s = down i s"

definition mutex_unlock :: "semid \<Rightarrow> sched \<Rightarrow> fault + sched" where
  "mutex_unlock i s = up i s"

definition event_wait :: "semid \<Rightarrow> sched \<Rightarrow> fault + sched" where
  "event_wait i s = down i (push (KUp i) s)"

definition event_signal :: "semid \<Rightarrow> sched \<Rightarrow> fault + sched" where
  "event_signal i s = up i s"

section \<open>Termination\<close>

text \<open>
  \<^verbatim>\<open>Resource::unref\<close> on a process: the last reference deletes it, so that no pointer of the scheduler
  leads to it any more. What the destructor gives back lies outside this state: the frames of the
  address space (\<open>destroy_space\<close>, in the order of \<open>reap_spaces\<close>), the stack on the heap, and the
  reference to the table (\<open>unref\<close> of \<open>Resource_Table\<close>), whose references to other processes are given
  up by further calls of this operation.
\<close>

definition unref_proc :: "pid \<Rightarrow> sched \<Rightarrow> fault + sched" where
  "unref_proc p s =
     bindE (get_proc p s) (\<lambda>P.
       if refCount P = 1 then Inr (s\<lparr>procs := (procs s)(p := None)\<rparr>)
       else Inr (upd_proc p (\<lambda>P. P\<lparr>refCount := refCount P - 1\<rparr>) s))"

text \<open>
  \<^verbatim>\<open>checkReaper\<close> takes one process off the queue per round, so the length of the queue bounds
  the rounds.
\<close>

fun reap_loop :: "nat \<Rightarrow> sched \<Rightarrow> fault + sched" where
  "reap_loop 0 s = Inl Diverges"
| "reap_loop (Suc fuel) s =
     (let s1 = disable s in
      case reaperQueue s1 of
        [] \<Rightarrow> enable s1
      | p # ps \<Rightarrow>
          bindE (enable (s1\<lparr>reaperQueue := ps\<rparr>)) (\<lambda>s2.
          bindE (unref_proc p s2) (reap_loop fuel)))"

definition checkReaper :: "sched \<Rightarrow> fault + sched" where
  "checkReaper s = reap_loop (Suc (length (reaperQueue s))) s"

text \<open>
  \<^verbatim>\<open>exit\<close> never returns to its caller. It sets the exit code and then runs \<^verbatim>\<open>closeAll\<close> and
  \<^verbatim>\<open>closeWorkingDir\<close>, code of the resource table that itself locks mutexes, gives up references and
  can be interrupted. So the operation \<open>exit\<close> ends before that code, with \<open>KExit\<close> on the stack; the
  calls that the code makes are operations of the running process; and \<open>exit_rest\<close> is what
  \<^verbatim>\<open>exit\<close> does after it. \<^verbatim>\<open>onExit\<close> and \<^verbatim>\<open>onKill\<close> do nothing.
\<close>

definition exit :: "int \<Rightarrow> sched \<Rightarrow> fault + sched" where
  "exit code s =
     (case current s of
        None \<Rightarrow> Inr s
      | Some p \<Rightarrow> Inr (push KExit (upd_proc p (\<lambda>P. P\<lparr>exitCode := code\<rparr>) s)))"

definition exit_rest :: "sched \<Rightarrow> fault + sched" where
  "exit_rest s =
     (case current s of
        None \<Rightarrow> Inl NullDeref
      | Some p \<Rightarrow>
          bindE (event_signal (Done p) s) (\<lambda>s1.
            let s2 = disable s1;
                s3 = s2\<lparr>reaperQueue := reaperQueue s2 @ [p]\<rparr>;
                s4 = (upd_proc p (\<lambda>P. P\<lparr>p_state := TERMINATED, konts := []\<rparr>) s3)\<lparr>current := None\<rparr>
            in yield None s4))"

text \<open>
  \<open>checkKilled\<close> with what its caller does next, which a killed process never does: the call stays on
  its stack, under \<^verbatim>\<open>exit\<close>.
\<close>

definition checkKilled :: "(sched \<Rightarrow> fault + sched) \<Rightarrow> sched \<Rightarrow> fault + sched" where
  "checkKilled rest s =
     bindE (checkReaper s) (\<lambda>s1.
       case current s1 of
         None \<Rightarrow> rest s1
       | Some me \<Rightarrow>
           bindE (get_proc me s1) (\<lambda>P. if isKilled P then exit (killCode P) s1 else rest s1))"

text \<open>A call that returns leaves the stack.\<close>

definition pop :: "sched \<Rightarrow> sched" where
  "pop s = (case current s of None \<Rightarrow> s
     | Some me \<Rightarrow> upd_proc me (\<lambda>P. P\<lparr>konts := tl (konts P)\<rparr>) s)"

definition kill :: "pid \<Rightarrow> int \<Rightarrow> sched \<Rightarrow> fault + sched" where
  "kill p code s =
     bindE (enable (upd_proc p (\<lambda>P. if isKilled P then P else P\<lparr>isKilled := True, killCode := code\<rparr>)
              (disable s))) (checkKilled Inr)"

text \<open>The resumed process: the next piece of its stack.\<close>

definition exec_kont :: "sched \<Rightarrow> fault + sched" where
  "exec_kont s =
     (case current s of
        None \<Rightarrow> Inl NullDeref
      | Some me \<Rightarrow>
          bindE (get_proc me s) (\<lambda>P.
            case konts P of
              [] \<Rightarrow> Inr s
            | k # ks \<Rightarrow>
                (case k of
                   KYield \<Rightarrow> checkKilled (\<lambda>s. enable (pop s)) s
                 | KEnable \<Rightarrow> enable (pop s)
                 | KEndIrq \<Rightarrow> bindE (endIrq (pop s)) (\<lambda>s2. Inr (s2\<lparr>ints_on := True\<rparr>))
                 | KUp i \<Rightarrow> up i (pop s)
                 | KExit \<Rightarrow> exit_rest s
                 | KEntry \<Rightarrow> checkKilled (\<lambda>s. Inr (pop s)) s)))"

section \<open>Timers\<close>

text \<open>The search for the timer of a target, which inserts it in front of the first later one.\<close>

fun add_timer :: "u32 \<Rightarrow> timer list \<Rightarrow> timer list" where
  "add_timer t [] = [\<lparr>target = t, sleepers = []\<rparr>]"
| "add_timer t (T # Ts) =
     (if target T = t then T # Ts
      else if target T > t then \<lparr>target = t, sleepers = []\<rparr> # T # Ts
      else T # add_timer t Ts)"

definition sleepUntil :: "u32 \<Rightarrow> sched \<Rightarrow> fault + sched" where
  "sleepUntil second s =
     (let s1 = disable s; t = second * hz s1 in
      if t > jiffies s1
      then yield (Some (OnTimer t)) (push KEnable (s1\<lparr>timers := add_timer t (timers s1)\<rparr>))
      else enable s1)"

definition pit_seconds :: "sched \<Rightarrow> fault + u32" where
  "pit_seconds s = (if hz s = 0 then Inl DivZero else Inr (jiffies s div hz s))"

definition sleepFor :: "u32 \<Rightarrow> sched \<Rightarrow> fault + sched" where
  "sleepFor seconds s = bindE (pit_seconds s) (\<lambda>now. sleepUntil (now + seconds) s)"

fun wake_all :: "pid list \<Rightarrow> sched \<Rightarrow> fault + sched" where
  "wake_all [] s = Inr s"
| "wake_all (p # ps) s = bindE (makeReady p s) (wake_all ps)"

definition tick :: "sched \<Rightarrow> fault + sched" where
  "tick s =
     (let s1 = disable s;
          s2 = (if current s1 = idleProcess s1 then s1\<lparr>idleJiffies := idleJiffies s1 + 1\<rparr> else s1)
      in bindE (case timers s2 of
                  [] \<Rightarrow> Inr s2
                | T # Ts \<Rightarrow>
                    if jiffies s2 = target T then wake_all (sleepers T) (s2\<lparr>timers := Ts\<rparr>) else Inr s2)
           enable)"

text \<open>
  \<^verbatim>\<open>Pit::init\<close>: the divisor must fit in 16 bits.
\<close>

definition pit_init :: "u32 \<Rightarrow> sched \<Rightarrow> fault + sched" where
  "pit_init freq s =
     (if freq = 0 then Inl DivZero
      else
        (let d = 1193182 div freq in
         if d AND 0xffff \<noteq> d then Inl (Panic ''does not fit in 16 bits'')
         else if d = 0 then Inl DivZero
         else Inr (s\<lparr>hz := 1193182 div d\<rparr>)))"

definition pit_handler :: "sched \<Rightarrow> fault + sched" where
  "pit_handler s = tick (s\<lparr>jiffies := jiffies s + 1\<rparr>)"

text \<open>
  \<^verbatim>\<open>pic_irq\<close>: the interrupt gate has cleared the interrupt flag. Only the timer interrupt has
  an effect on this state; the rest is the preemption of the current process.
\<close>

definition pic_irq :: "nat \<Rightarrow> sched \<Rightarrow> fault + sched" where
  "pic_irq irq s =
     bindE (startIrq (s\<lparr>ints_on := False\<rparr>)) (\<lambda>s1.
     bindE (if irq = 0 then pit_handler s1 else Inr s1) (\<lambda>s2.
       yield None (push KEndIrq s2)))"

end
