(* ===== verification/Scheduler_Invariant.thy ===== *)
theory Scheduler_Invariant
  imports Scheduler
begin

text \<open>
  The invariant of the scheduler. Every process is in exactly one place - running, in the ready
  queue, idle, in the queue of one semaphore or timer, in the reaper queue, or waiting to be
  released by the last reference - and the queues, the state field and the interrupt counts agree
  with it. Each operation keeps the invariant and, started in a state where it can occur, never
  panics.
\<close>

section \<open>Places\<close>

datatype place = Running | Ready | Idle | Waits wqueue | Dead | Zombie | Limbo

fun place_state :: "place \<Rightarrow> pstate \<Rightarrow> bool" where
  "place_state Running st \<longleftrightarrow> st = RUNNING"
| "place_state Ready st \<longleftrightarrow> st = READY"
| "place_state Idle st \<longleftrightarrow> st = READY"
| "place_state (Waits q) st \<longleftrightarrow> st = BLOCKED"
| "place_state Dead st \<longleftrightarrow> st = TERMINATED"
| "place_state Zombie st \<longleftrightarrow> st = TERMINATED"
| "place_state Limbo st \<longleftrightarrow> True"

text \<open>The pending calls of \<^verbatim>\<open>enable\<close> and of \<^verbatim>\<open>endIrq\<close> on a kernel stack.\<close>

fun kweight :: "kont list \<Rightarrow> nat" where
  "kweight [] = 0"
| "kweight (k # ks) = (case k of KYield \<Rightarrow> 1 | KEnable \<Rightarrow> 1 | KEndIrq \<Rightarrow> 1 | _ \<Rightarrow> 0) + kweight ks"

fun kirqs :: "kont list \<Rightarrow> nat" where
  "kirqs [] = 0"
| "kirqs (k # ks) = (case k of KEndIrq \<Rightarrow> 1 | _ \<Rightarrow> 0) + kirqs ks"

text \<open>
  An interrupt only arrives when no call of \<^verbatim>\<open>enable\<close> is pending, and only events have an
  \<^verbatim>\<open>up\<close> after the \<^verbatim>\<open>down\<close>.
\<close>

fun konts_ok :: "kont list \<Rightarrow> bool" where
  "konts_ok [] \<longleftrightarrow> True"
| "konts_ok (k # ks) \<longleftrightarrow> konts_ok ks \<and> (k = KEndIrq \<longrightarrow> kweight ks = 0) \<and> (\<forall>n. k \<noteq> KUp (Sem n))"

definition proc_ok :: "nat \<Rightarrow> nat \<Rightarrow> place \<Rightarrow> proc \<Rightarrow> bool" where
  "proc_ok d i x P \<longleftrightarrow> place_state x (p_state P)
     \<and> (x \<noteq> Dead \<longrightarrow> x \<noteq> Zombie \<longrightarrow> unat (disableCount P) = kweight (konts P) + d
         \<and> unat (iDepth P) = kirqs (konts P) + i \<and> kweight (konts P) \<le> 4 \<and> kirqs (konts P) \<le> 4
        \<and> konts_ok (konts P))
     \<and> 0 < refCount P \<and> espReg P < STACK_LONGS \<and> kesp P < STACK_LONGS"

text \<open>
  \<open>d\<close> and \<open>i\<close> count the calls of \<^verbatim>\<open>enable\<close> and \<^verbatim>\<open>endIrq\<close> that the running code owes
  beyond its stack; \<open>b\<close> is true between putting the running process in a queue and switching away
  from it.
\<close>

definition procs_ok :: "nat \<Rightarrow> nat \<Rightarrow> sched \<Rightarrow> (pid \<Rightarrow> place option) \<Rightarrow> bool" where
  "procs_ok d i s w \<longleftrightarrow>
     (\<forall>p. procs s p = None \<longrightarrow> w p = None)
     \<and> (\<forall>p P. procs s p = Some P \<longrightarrow> (\<exists>x. w p = Some x
            \<and> proc_ok (if current s = Some p then d else 0) (if current s = Some p then i else 0) x P))
     \<and> (\<forall>p \<ge> nextPid s. procs s p = None)"

definition ints_ok :: "sched \<Rightarrow> bool" where
  "ints_ok s \<longleftrightarrow> (ints_on s \<longleftrightarrow> (\<exists>p P. current s = Some p \<and> procs s p = Some P \<and> disableCount P = 0))"

definition run_ok :: "bool \<Rightarrow> sched \<Rightarrow> (pid \<Rightarrow> place option) \<Rightarrow> bool" where
  "run_ok b s w \<longleftrightarrow>
     (\<forall>p. w p = Some Running \<longrightarrow> \<not> b \<and> current s = Some p)
     \<and> (\<forall>p. current s = Some p \<longrightarrow> procs s p \<noteq> None \<and> activeSpace s = Some p \<and> kernelStack s = Some p
          \<and> w p \<noteq> Some Dead \<and> w p \<noteq> Some Zombie \<and> (\<not> b \<longrightarrow> w p = Some Running))
     \<and> ints_ok s"

definition queues_ok :: "sched \<Rightarrow> (pid \<Rightarrow> place option) \<Rightarrow> bool" where
  "queues_ok s w \<longleftrightarrow>
     (\<forall>p. p \<in> set (readyQueue s) \<longleftrightarrow> w p = Some Ready) \<and> distinct (readyQueue s)
     \<and> (\<forall>p. p \<in> set (reaperQueue s) \<longleftrightarrow> w p = Some Dead) \<and> distinct (reaperQueue s)"

definition idle_ok :: "sched \<Rightarrow> (pid \<Rightarrow> place option) \<Rightarrow> bool" where
  "idle_ok s w \<longleftrightarrow>
     (\<exists>p P. idleProcess s = Some p \<and> procs s p = Some P \<and> \<not> isKilled P \<and> KExit \<notin> set (konts P)
        \<and> w p \<in> {Some Running, Some Idle, Some Limbo})
     \<and> (\<forall>p. w p = Some Idle \<longrightarrow> idleProcess s = Some p)"

definition sems_ok :: "sched \<Rightarrow> (pid \<Rightarrow> place option) \<Rightarrow> bool" where
  "sems_ok s w \<longleftrightarrow>
     (\<forall>j. (\<forall>p. p \<in> set (waiting (sems s j)) \<longleftrightarrow> w p = Some (Waits (OnSem j)))
        \<and> distinct (waiting (sems s j)) \<and> (waiting (sems s j) \<noteq> [] \<longrightarrow> count (sems s j) = 0))
     \<and> (\<forall>p \<ge> nextPid s. waiting (sems s (Done p)) = [])"

definition timers_ok :: "sched \<Rightarrow> (pid \<Rightarrow> place option) \<Rightarrow> bool" where
  "timers_ok s w \<longleftrightarrow>
     sorted_wrt (\<lambda>S T. target S < target T) (timers s)
     \<and> (\<forall>T \<in> set (timers s). jiffies s < target T \<and> distinct (sleepers T)
          \<and> (\<forall>p. p \<in> set (sleepers T) \<longleftrightarrow> w p = Some (Waits (OnTimer (target T)))))
     \<and> (\<forall>p t. w p = Some (Waits (OnTimer t)) \<longrightarrow> t \<in> target ` set (timers s))"

definition sched_inv :: "bool \<Rightarrow> nat \<Rightarrow> nat \<Rightarrow> sched \<Rightarrow> (pid \<Rightarrow> place option) \<Rightarrow> bool" where
  "sched_inv b d i s w \<longleftrightarrow> procs_ok d i s w \<and> run_ok b s w \<and> queues_ok s w \<and> idle_ok s w
     \<and> sems_ok s w \<and> timers_ok s w"

lemma sched_invI:
  "procs_ok d i s w \<Longrightarrow> run_ok b s w \<Longrightarrow> queues_ok s w \<Longrightarrow> idle_ok s w \<Longrightarrow> sems_ok s w
     \<Longrightarrow> timers_ok s w \<Longrightarrow> sched_inv b d i s w"
  by (simp add: sched_inv_def)

lemma sched_invD:
  assumes "sched_inv b d i s w"
  shows "procs_ok d i s w" "run_ok b s w" "queues_ok s w" "idle_ok s w" "sems_ok s w" "timers_ok s w"
  using assms by (simp_all add: sched_inv_def)

lemma procs_okD:
  "procs_ok d i s w \<Longrightarrow> procs s p = Some P \<Longrightarrow>
     \<exists>x. w p = Some x
         \<and> proc_ok (if current s = Some p then d else 0) (if current s = Some p then i else 0) x P"
  by (auto simp: procs_ok_def)

lemma procs_ok_me:
  assumes "procs_ok d i s w" "current s = Some me" "current s' = Some me" "nextPid s' = nextPid s"
    "procs s me \<noteq> None" "procs s' = (procs s)(me \<mapsto> P')" "proc_ok d' i' x P'" "w' = w(me \<mapsto> x)"
  shows "procs_ok d' i' s' w'"
proof -
  have "\<exists>x. w' p = Some x \<and> proc_ok (if current s' = Some p then d' else 0) (if current s' = Some p then i' else 0) x Q"
    if "procs s' p = Some Q" for p Q
  proof (cases "p = me")
    case True
    with that assms show ?thesis by simp
  next
    case False
    with that assms procs_okD [OF assms(1), of p Q] show ?thesis by auto
  qed
  with assms show ?thesis by (auto simp: procs_ok_def)
qed

lemma procs_ok_other:
  assumes "procs_ok d i s w" "current s \<noteq> Some p" "current s' = current s" "nextPid s' = nextPid s"
    "procs s p \<noteq> None" "procs s' = (procs s)(p \<mapsto> P')" "proc_ok 0 0 x P'" "w' = w(p \<mapsto> x)"
  shows "procs_ok d i s' w'"
proof -
  have "\<exists>x. w' q = Some x \<and> proc_ok (if current s' = Some q then d else 0) (if current s' = Some q then i else 0) x Q"
    if "procs s' q = Some Q" for q Q
  proof (cases "q = p")
    case True
    with that assms show ?thesis by simp
  next
    case False
    with that assms procs_okD [OF assms(1), of q Q] show ?thesis by auto
  qed
  with assms show ?thesis by (auto simp: procs_ok_def)
qed

lemma run_okD:
  "run_ok b s w \<Longrightarrow> current s = Some p \<Longrightarrow> b \<or> w p = Some Running"
  "run_ok b s w \<Longrightarrow> w p = Some Running \<Longrightarrow> \<not> b \<and> current s = Some p"
  unfolding run_ok_def by blast+

lemma run_okD_cur:
  "run_ok b s w \<Longrightarrow> current s = Some p \<Longrightarrow>
     procs s p \<noteq> None \<and> activeSpace s = Some p \<and> kernelStack s = Some p \<and> w p \<noteq> Some Dead \<and> w p \<noteq> Some Zombie"
  unfolding run_ok_def by blast

lemma idle_okD:
  assumes "idle_ok s w" "idleProcess s = Some p"
  shows "w p = Some Running \<or> w p = Some Idle \<or> w p = Some Limbo" "\<exists>P. procs s p = Some P \<and> \<not> isKilled P \<and> KExit \<notin> set (konts P)"
  using assms unfolding idle_ok_def by auto

lemma run_ok_cong:
  assumes "run_ok b s w" "current s' = current s" "activeSpace s' = activeSpace s"
    "kernelStack s' = kernelStack s" "\<And>p. procs s' p = None \<longleftrightarrow> procs s p = None"
    "ints_on s' \<longleftrightarrow> (\<exists>p P. current s = Some p \<and> procs s' p = Some P \<and> disableCount P = 0)"
  shows "run_ok b s' w"
proof -
  have "ints_ok s'" unfolding ints_ok_def assms(2) by (rule assms(6))
  then show ?thesis using assms(1) unfolding run_ok_def assms(2-5) by blast
qed

lemma run_ok_move:
  assumes "run_ok b s w" "x \<noteq> Running" "x \<noteq> Dead" "x \<noteq> Zombie" "if current s = Some p then b' else b' = b"
  shows "run_ok b' s (w(p \<mapsto> x))"
  unfolding run_ok_def
proof (intro conjI allI impI)
  fix q assume "(w(p \<mapsto> x)) q = Some Running"
  then have "q \<noteq> p" "w q = Some Running" using assms(2) by (auto split: if_splits)
  with assms(1,5) have c: "current s = Some q" "\<not> b" unfolding run_ok_def by blast+
  then show "current s = Some q" "\<not> b'" using assms(5) \<open>q \<noteq> p\<close> by (simp_all split: if_splits)
next
  fix q assume c: "current s = Some q"
  with assms(1) have r: "procs s q \<noteq> None" "activeSpace s = Some q" "kernelStack s = Some q"
    "w q \<noteq> Some Dead" "w q \<noteq> Some Zombie" "\<not> b \<Longrightarrow> w q = Some Running" unfolding run_ok_def by blast+
  then show "procs s q \<noteq> None" "activeSpace s = Some q" "kernelStack s = Some q" by blast+
  show "(w(p \<mapsto> x)) q \<noteq> Some Dead" "(w(p \<mapsto> x)) q \<noteq> Some Zombie" using r assms(3,4) by simp_all
  show "(w(p \<mapsto> x)) q = Some Running" if "\<not> b'" using that assms(5) r(6) c by (cases "q = p") simp_all
qed (use assms(1) in \<open>unfold run_ok_def, blast\<close>)

lemma timers_ok_move:
  assumes "timers_ok s w" "\<And>t. w p \<noteq> Some (Waits (OnTimer t))" "\<And>t. x \<noteq> Some (Waits (OnTimer t))"
  shows "timers_ok s (w(p := x))"
proof -
  have "(w(p := x)) q = Some (Waits (OnTimer t)) \<longleftrightarrow> w q = Some (Waits (OnTimer t))" for q t
    using assms(2,3) by simp
  with assms(1) show ?thesis unfolding timers_ok_def by simp
qed

lemma sems_ok_move:
  assumes "sems_ok s w" "\<And>j. w p \<noteq> Some (Waits (OnSem j))" "\<And>j. x \<noteq> Some (Waits (OnSem j))"
  shows "sems_ok s (w(p := x))"
proof -
  have "(w(p := x)) q = Some (Waits (OnSem j)) \<longleftrightarrow> w q = Some (Waits (OnSem j))" for q j
    using assms(2,3) by simp
  with assms(1) show ?thesis unfolding sems_ok_def by simp
qed

lemma timers_ok_cong:
  "timers_ok s w \<Longrightarrow> timers s' = timers s \<Longrightarrow> jiffies s' = jiffies s \<Longrightarrow> timers_ok s' w"
  by (simp add: timers_ok_def)

lemma sems_ok_cong:
  "sems_ok s w \<Longrightarrow> sems s' = sems s \<Longrightarrow> nextPid s' = nextPid s \<Longrightarrow> sems_ok s' w"
  by (simp add: sems_ok_def)

lemma queues_ok_cong:
  "queues_ok s w \<Longrightarrow> readyQueue s' = readyQueue s \<Longrightarrow> reaperQueue s' = reaperQueue s \<Longrightarrow> queues_ok s' w"
  by (simp add: queues_ok_def)

lemma idle_ok_cong:
  assumes "idle_ok s w" "idleProcess s' = idleProcess s"
    "\<And>p P. procs s p = Some P \<Longrightarrow> idleProcess s = Some p \<Longrightarrow> \<exists>P'. procs s' p = Some P' \<and> isKilled P' = isKilled P
      \<and> (KExit \<in> set (konts P') \<longrightarrow> KExit \<in> set (konts P))"
  shows "idle_ok s' w"
  using assms(1,3) unfolding idle_ok_def assms(2) by metis

lemma idle_ok_move:
  assumes "idle_ok s w" "idleProcess s = Some p \<Longrightarrow> x \<in> {Some Running, Some Idle, Some Limbo}"
    "x = Some Idle \<Longrightarrow> idleProcess s = Some p"
  shows "idle_ok s (w(p := x))"
proof -
  obtain q Q where q: "idleProcess s = Some q" "procs s q = Some Q" "\<not> isKilled Q" "KExit \<notin> set (konts Q)"
      "w q \<in> {Some Running, Some Idle, Some Limbo}"
    and only: "\<forall>p. w p = Some Idle \<longrightarrow> idleProcess s = Some p"
    using assms(1) unfolding idle_ok_def by blast
  have "(w(p := x)) q \<in> {Some Running, Some Idle, Some Limbo}"
    using assms(2) q(1,5) by (cases "q = p") simp_all
  moreover have "idleProcess s = Some r" if "(w(p := x)) r = Some Idle" for r
    using that only assms(3) by (cases "r = p") simp_all
  ultimately show ?thesis unfolding idle_ok_def using q by blast
qed

text \<open>The parts only look at some fields.\<close>

lemma upd_proc_simps [simp]:
  "nextPid (upd_proc p f s) = nextPid s" "current (upd_proc p f s) = current s"
  "readyQueue (upd_proc p f s) = readyQueue s" "reaperQueue (upd_proc p f s) = reaperQueue s"
  "idleProcess (upd_proc p f s) = idleProcess s" "sems (upd_proc p f s) = sems s"
  "timers (upd_proc p f s) = timers s" "jiffies (upd_proc p f s) = jiffies s" "hz (upd_proc p f s) = hz s"
  "ints_on (upd_proc p f s) = ints_on s" "activeSpace (upd_proc p f s) = activeSpace s"
  "kernelStack (upd_proc p f s) = kernelStack s"
  "procs (upd_proc p f s) q = (if q = p then map_option f (procs s p) else procs s q)"
  by (simp_all add: upd_proc_def)

lemma upd_sem_simps [simp]:
  "nextPid (upd_sem j f s) = nextPid s" "current (upd_sem j f s) = current s"
  "readyQueue (upd_sem j f s) = readyQueue s" "reaperQueue (upd_sem j f s) = reaperQueue s"
  "idleProcess (upd_sem j f s) = idleProcess s" "procs (upd_sem j f s) = procs s"
  "timers (upd_sem j f s) = timers s" "jiffies (upd_sem j f s) = jiffies s" "hz (upd_sem j f s) = hz s"
  "ints_on (upd_sem j f s) = ints_on s" "activeSpace (upd_sem j f s) = activeSpace s"
  "kernelStack (upd_sem j f s) = kernelStack s"
  "sems (upd_sem j f s) k = (if k = j then f (sems s j) else sems s k)"
  by (simp_all add: upd_sem_def)

lemma get_proc_Inr [simp]: "get_proc p s = Inr P \<longleftrightarrow> procs s p = Some P"
  by (simp add: get_proc_def split: option.splits)

lemma current_proc:
  assumes "sched_inv b d i s w" "current s = Some me"
  obtains P x where "procs s me = Some P" "w me = Some x" "proc_ok d i x P" "x \<noteq> Dead" "x \<noteq> Zombie"
proof -
  obtain P where P: "procs s me = Some P" "w me \<noteq> Some Dead" "w me \<noteq> Some Zombie"
    using assms by (auto simp: sched_inv_def run_ok_def)
  then obtain x where "w me = Some x" "proc_ok d i x P"
    using assms by (auto simp: sched_inv_def procs_ok_def split: option.splits dest!: spec [of _ me])
  with P that show ?thesis by auto
qed

section \<open>disable and enable\<close>

lemma unat_Suc_u32: "unat (x :: u32) < 2 ^ 32 - 1 \<Longrightarrow> unat (x + 1) = unat x + 1"
  by (subst unat_plus_u32) simp_all

lemma disable_fields [simp]:
  "nextPid (disable s) = nextPid s" "current (disable s) = current s"
  "readyQueue (disable s) = readyQueue s" "reaperQueue (disable s) = reaperQueue s"
  "idleProcess (disable s) = idleProcess s" "sems (disable s) = sems s"
  "timers (disable s) = timers s" "jiffies (disable s) = jiffies s" "hz (disable s) = hz s"
  "activeSpace (disable s) = activeSpace s" "kernelStack (disable s) = kernelStack s"
  "ints_on (disable s) = False"
  by (simp_all add: disable_def Let_def split: option.splits)

lemma disable_procs:
  "procs (disable s) p = (if current s = Some p then map_option (\<lambda>P. P\<lparr>disableCount := disableCount P + 1\<rparr>) (procs s p)
     else procs s p)"
  by (auto simp: disable_def Let_def split: option.splits)

lemma disable_inv:
  assumes inv: "sched_inv b d i s w" and d: "d \<le> 10"
  shows "sched_inv b (Suc d) i (disable s) w"
proof (rule sched_invI)
  note I = sched_invD [OF inv]
  have bump: "proc_ok (Suc d) i x (P\<lparr>disableCount := disableCount P + 1\<rparr>) \<and> disableCount P + 1 \<noteq> 0"
    if "proc_ok d i x P" "x \<noteq> Dead" "x \<noteq> Zombie" for x P
  proof -
    have "unat (disableCount P + 1) = unat (disableCount P) + 1"
      using that d by (intro unat_Suc_u32) (simp add: proc_ok_def)
    then show ?thesis using that by (auto simp: proc_ok_def)
  qed
  show "procs_ok (Suc d) i (disable s) w"
    unfolding procs_ok_def
  proof (intro conjI allI impI)
    fix p P' assume P': "procs (disable s) p = Some P'"
    then obtain P where P: "procs s p = Some P" by (auto simp: disable_procs split: if_splits)
    show "\<exists>x. w p = Some x \<and> proc_ok (if current (disable s) = Some p then Suc d else 0)
          (if current (disable s) = Some p then i else 0) x P'"
    proof (cases "current s = Some p")
      case True
      obtain Q x where "procs s p = Some Q" "w p = Some x" "proc_ok d i x Q" "x \<noteq> Dead" "x \<noteq> Zombie"
        using current_proc [OF inv True] .
      with True P' bump [of x Q] show ?thesis by (auto simp: disable_procs)
    next
      case False
      then show ?thesis using procs_okD [OF I(1) P] P P' by (simp add: disable_procs)
    qed
  qed (use I(1) in \<open>auto simp: procs_ok_def disable_procs split: if_splits\<close>)
  show "run_ok b (disable s) w"
  proof -
    have "disableCount P \<noteq> 0" if cur: "current s = Some p" and P: "procs (disable s) p = Some P" for p P
    proof -
      obtain Q x where "procs s p = Some Q" "proc_ok d i x Q" "x \<noteq> Dead" "x \<noteq> Zombie"
        using current_proc [OF inv cur] .
      with P cur bump [of x Q] show ?thesis by (auto simp: disable_procs)
    qed
    then show ?thesis by (intro run_ok_cong [OF I(2)]) (auto simp: disable_procs)
  qed
  show "queues_ok (disable s) w" "idle_ok (disable s) w" "sems_ok (disable s) w" "timers_ok (disable s) w"
    using I(3,5,6) idle_ok_cong [OF I(4)]
    by (auto simp: queues_ok_def sems_ok_def timers_ok_def disable_procs)
qed

lemma inv_no_current:
  "current s = None \<Longrightarrow> sched_inv b d i s w \<Longrightarrow> sched_inv b' d' i' s w"
  by (auto simp: sched_inv_def procs_ok_def run_ok_def)

text \<open>States that differ in the interrupt counts only.\<close>

definition same :: "sched \<Rightarrow> sched \<Rightarrow> bool" where
  "same s s' \<longleftrightarrow> s'\<lparr>procs := procs s, ints_on := ints_on s\<rparr> = s
     \<and> (\<forall>p. map_option (\<lambda>P. P\<lparr>disableCount := 0\<rparr>) (procs s' p) = map_option (\<lambda>P. P\<lparr>disableCount := 0\<rparr>) (procs s p))"

lemma sameD:
  assumes "same s s'"
  shows "nextPid s' = nextPid s" "current s' = current s" "readyQueue s' = readyQueue s"
    "reaperQueue s' = reaperQueue s" "idleProcess s' = idleProcess s" "sems s' = sems s"
    "timers s' = timers s" "jiffies s' = jiffies s" "hz s' = hz s" "activeSpace s' = activeSpace s"
    "kernelStack s' = kernelStack s" "idleJiffies s' = idleJiffies s"
proof -
  have e: "s'\<lparr>procs := procs s, ints_on := ints_on s\<rparr> = s" using assms by (simp add: same_def)
  show "nextPid s' = nextPid s" "current s' = current s" "readyQueue s' = readyQueue s"
    "reaperQueue s' = reaperQueue s" "idleProcess s' = idleProcess s" "sems s' = sems s"
    "timers s' = timers s" "jiffies s' = jiffies s" "hz s' = hz s" "activeSpace s' = activeSpace s"
    "kernelStack s' = kernelStack s" "idleJiffies s' = idleJiffies s"
    by (subst e [symmetric], simp)+
qed

lemma same_procs:
  assumes "same s s'" "procs s p = Some P"
  obtains c where "procs s' p = Some (P\<lparr>disableCount := c\<rparr>)"
proof -
  have "map_option (\<lambda>P. P\<lparr>disableCount := 0\<rparr>) (procs s' p) = Some (P\<lparr>disableCount := 0\<rparr>)"
    using assms by (simp add: same_def)
  then obtain Q where Q: "procs s' p = Some Q" "Q\<lparr>disableCount := 0\<rparr> = P\<lparr>disableCount := 0\<rparr>" by auto
  then have "Q = P\<lparr>disableCount := disableCount Q\<rparr>" by (cases P; cases Q) simp
  with Q that show ?thesis by metis
qed

lemma same_none: "same s s' \<Longrightarrow> procs s' p = None \<longleftrightarrow> procs s p = None"
  by (metis map_option_is_None same_def)

lemma same_refl [simp]: "same s s"
  by (simp add: same_def)

lemma same_trans: "same s s' \<Longrightarrow> same s' s'' \<Longrightarrow> same s s''"
proof -
  assume a: "same s s'" "same s' s''"
  have "s''\<lparr>procs := procs s, ints_on := ints_on s\<rparr>
      = (s''\<lparr>procs := procs s', ints_on := ints_on s'\<rparr>)\<lparr>procs := procs s, ints_on := ints_on s\<rparr>" by simp
  also have "\<dots> = s" using a by (simp add: same_def)
  finally show ?thesis using a by (simp add: same_def)
qed

lemma same_disable [simp]: "same s (disable s)"
  by (auto simp: same_def disable_def Let_def upd_proc_def fun_eq_iff option.map_comp comp_def split: option.splits)

lemma enable_inv:
  assumes inv: "sched_inv b (Suc d) i s w"
  shows "\<exists>s'. enable s = Inr s' \<and> sched_inv b d i s' w \<and> same s s'"
proof (cases "current s")
  case None
  then show ?thesis using inv_no_current [OF None inv, of b d i] by (simp add: enable_def)
next
  case (Some me)
  note I = sched_invD [OF inv]
  obtain P x where P: "procs s me = Some P" "w me = Some x" "proc_ok (Suc d) i x P" "x \<noteq> Dead" "x \<noteq> Zombie"
    using current_proc [OF inv Some] .
  have n0: "disableCount P \<noteq> 0" using P(3-5) by (auto simp: proc_ok_def)
  let ?s = "if disableCount P = 1 then (upd_proc me (\<lambda>P. P\<lparr>disableCount := 0\<rparr>) s)\<lparr>ints_on := True\<rparr>
    else upd_proc me (\<lambda>P. P\<lparr>disableCount := disableCount P - 1\<rparr>) s"
  have e: "enable s = Inr ?s"
    using Some P(1) n0 by (auto simp: enable_def get_proc_def Let_def)
  have procs: "procs ?s p = (if p = me then Some (P\<lparr>disableCount := disableCount P - 1\<rparr>) else procs s p)" for p
    using P(1) by auto
  have fields: "current ?s = current s" "nextPid ?s = nextPid s" "readyQueue ?s = readyQueue s"
    "reaperQueue ?s = reaperQueue s" "idleProcess ?s = idleProcess s" "sems ?s = sems s"
    "timers ?s = timers s" "jiffies ?s = jiffies s" "activeSpace ?s = activeSpace s"
    "kernelStack ?s = kernelStack s" by simp_all
  have on: "ints_on ?s \<longleftrightarrow> disableCount P = 1"
    using I(2) Some P(1) n0 by (auto simp: run_ok_def ints_ok_def)
  have z: "disableCount P - 1 = 0 \<longleftrightarrow> disableCount P = 1" by auto
  have pok: "proc_ok d i x (P\<lparr>disableCount := disableCount P - 1\<rparr>)"
    using P(3-5) by (auto simp: proc_ok_def unat_minus_one n0)
  have "sched_inv b d i ?s w"
  proof (rule sched_invI)
    show "procs_ok d i ?s w"
      using P Some procs by (intro procs_ok_me [OF I(1) Some _ _ _ _ pok]) auto
    show "run_ok b ?s w"
      using Some P(1) on z by (intro run_ok_cong [OF I(2)]) (auto split: if_splits)
    show "idle_ok ?s w"
      using P(1) by (intro idle_ok_cong [OF I(4)]) (auto split: if_splits)
    show "queues_ok ?s w" "sems_ok ?s w" "timers_ok ?s w"
      using I(3,5,6) by (auto simp only: queues_ok_def sems_ok_def timers_ok_def fields)
  qed
  moreover have "same s ?s"
    using P(1) by (auto simp: same_def upd_proc_def fun_eq_iff)
  ultimately show ?thesis using e by blast
qed

text \<open>
  What the operations below keep of the rest of the state: no process appears or goes away, stacks,
  kill flags and reference counts stay.
\<close>

definition kept :: "sched \<Rightarrow> sched \<Rightarrow> bool" where
  "kept s s' \<longleftrightarrow> current s' = current s \<and> idleProcess s' = idleProcess s \<and> nextPid s' = nextPid s
     \<and> jiffies s' = jiffies s \<and> hz s' = hz s \<and> reaperQueue s' = reaperQueue s
     \<and> (\<forall>p P. procs s p = Some P \<longrightarrow> (\<exists>P'. procs s' p = Some P' \<and> konts P' = konts P
          \<and> isKilled P' = isKilled P \<and> killCode P' = killCode P \<and> refCount P' = refCount P))"

lemma kept_refl [simp]: "kept s s"
  by (simp add: kept_def)

lemma kept_trans: "kept s s' \<Longrightarrow> kept s' s'' \<Longrightarrow> kept s s''"
  unfolding kept_def by metis

lemma keptD:
  assumes "kept s s'"
  shows "current s' = current s" "idleProcess s' = idleProcess s" "nextPid s' = nextPid s"
    "jiffies s' = jiffies s" "hz s' = hz s" "reaperQueue s' = reaperQueue s"
    "procs s p = Some P \<Longrightarrow> \<exists>P'. procs s' p = Some P' \<and> konts P' = konts P
          \<and> isKilled P' = isKilled P \<and> killCode P' = killCode P \<and> refCount P' = refCount P"
  using assms by (auto simp: kept_def)

lemma same_kept: "same s s' \<Longrightarrow> kept s s'"
proof -
  assume a: "same s s'"
  have "\<exists>P'. procs s' p = Some P' \<and> konts P' = konts P \<and> isKilled P' = isKilled P
    \<and> killCode P' = killCode P \<and> refCount P' = refCount P" if "procs s p = Some P" for p P
    using same_procs [OF a that] by force
  with sameD [OF a] show ?thesis by (simp add: kept_def)
qed

section \<open>makeReady\<close>

lemma ready_inv:
  assumes inv: "sched_inv b d i s w" and x: "w p = Some x"
    and p: "x = Limbo \<and> current s \<noteq> Some p \<and> b' = b \<or> x = Running \<and> current s = Some p \<and> b'"
    and s': "s' = (if Some p \<noteq> idleProcess s
        then (upd_proc p (\<lambda>P. P\<lparr>p_state := READY\<rparr>) s)\<lparr>readyQueue := readyQueue s @ [p]\<rparr>
        else upd_proc p (\<lambda>P. P\<lparr>p_state := READY\<rparr>) s)"
  shows "sched_inv b' d i s' (w(p \<mapsto> if Some p = idleProcess s then Idle else Ready))"
proof (rule sched_invI)
  note I = sched_invD [OF inv]
  let ?x = "if Some p = idleProcess s then Idle else Ready"
  obtain P where P: "procs s p = Some P" using I(1) x by (cases "procs s p") (auto simp: procs_ok_def)
  have procs: "procs s' = (procs s)(p \<mapsto> P\<lparr>p_state := READY\<rparr>)" using P by (auto simp: s' fun_eq_iff)
  have f: "current s' = current s" "nextPid s' = nextPid s" "idleProcess s' = idleProcess s"
    "sems s' = sems s" "timers s' = timers s" "jiffies s' = jiffies s" "reaperQueue s' = reaperQueue s"
    "activeSpace s' = activeSpace s" "kernelStack s' = kernelStack s" "ints_on s' = ints_on s"
    "readyQueue s' = (if Some p \<noteq> idleProcess s then readyQueue s @ [p] else readyQueue s)"
    by (simp_all add: s')
  show "procs_ok d i s' (w(p \<mapsto> ?x))"
  proof (cases "current s = Some p")
    case True
    have "proc_ok d i x P" using procs_okD [OF I(1) P] x True by auto
    then have "proc_ok d i ?x (P\<lparr>p_state := READY\<rparr>)" using p True by (auto simp: proc_ok_def)
    with True P f procs show ?thesis by (intro procs_ok_me [OF I(1) True]) auto
  next
    case False
    have "proc_ok 0 0 x P" using procs_okD [OF I(1) P] x False by auto
    then have "proc_ok 0 0 ?x (P\<lparr>p_state := READY\<rparr>)" using p False by (auto simp: proc_ok_def)
    with False P f procs show ?thesis by (intro procs_ok_other [OF I(1) False]) auto
  qed
  show "run_ok b' s' (w(p \<mapsto> ?x))"
  proof (rule run_ok_move)
    have "ints_on s \<longleftrightarrow> (\<exists>p P. current s = Some p \<and> procs s p = Some P \<and> disableCount P = 0)"
      using I(2) unfolding run_ok_def ints_ok_def by blast
    also have "\<dots> \<longleftrightarrow> (\<exists>p P. current s = Some p \<and> procs s' p = Some P \<and> disableCount P = 0)"
      using P by (auto simp: procs)
    finally show "run_ok b s' w"
      using P by (intro run_ok_cong [OF I(2)]) (simp_all add: f procs)
    show "if current s' = Some p then b' else b' = b" using p by (auto simp: f)
  qed simp_all
  show "queues_ok s' (w(p \<mapsto> ?x))"
    using I(3) p x unfolding queues_ok_def f by (auto split: if_splits)
  show "idle_ok s' (w(p \<mapsto> ?x))"
    using P by (intro idle_ok_move idle_ok_cong [OF I(4)]) (auto simp: f procs split: if_splits)
  show "sems_ok s' (w(p \<mapsto> ?x))"
    using p x by (intro sems_ok_move sems_ok_cong [OF I(5)]) (auto simp: f)
  show "timers_ok s' (w(p \<mapsto> ?x))"
    using p x by (intro timers_ok_move timers_ok_cong [OF I(6)]) (auto simp: f)
qed

lemma makeReady_inv:
  assumes inv: "sched_inv b d i s w" and d: "d \<le> 10" and x: "w p = Some x"
    and p: "x = Limbo \<and> current s \<noteq> Some p \<and> b' = b \<or> x = Running \<and> current s = Some p \<and> b'"
  shows "\<exists>s'. makeReady p s = Inr s'
    \<and> sched_inv b' d i s' (w(p \<mapsto> if Some p = idleProcess s then Idle else Ready))
    \<and> kept s s' \<and> sems s' = sems s \<and> timers s' = timers s"
proof -
  let ?s1 = "disable s"
  let ?s2 = "upd_proc p (\<lambda>P. P\<lparr>p_state := READY\<rparr>) ?s1"
  let ?s3 = "if Some p \<noteq> idleProcess ?s1 then ?s2\<lparr>readyQueue := readyQueue ?s1 @ [p]\<rparr> else ?s2"
  have "sched_inv b' (Suc d) i ?s3 (w(p \<mapsto> if Some p = idleProcess ?s1 then Idle else Ready))"
    using p by (intro ready_inv [OF disable_inv [OF inv d] x _ refl]) simp
  from enable_inv [OF this] obtain s' where s': "enable ?s3 = Inr s'"
    "sched_inv b' d i s' (w(p \<mapsto> if Some p = idleProcess s then Idle else Ready))" "same ?s3 s'" by auto
  have m: "makeReady p s = Inr s'" using s'(1) by (auto simp: makeReady_def Let_def)
  have "kept s ?s3"
    using same_kept [OF same_disable, of s] by (auto simp: kept_def disable_procs)
  then have "kept s s'" using kept_trans same_kept [OF s'(3)] by blast
  with m s' sameD [OF s'(3)] show ?thesis by auto
qed

section \<open>push\<close>

lemma push_fields [simp]:
  "nextPid (push k s) = nextPid s" "current (push k s) = current s"
  "readyQueue (push k s) = readyQueue s" "reaperQueue (push k s) = reaperQueue s"
  "idleProcess (push k s) = idleProcess s" "sems (push k s) = sems s"
  "timers (push k s) = timers s" "jiffies (push k s) = jiffies s" "hz (push k s) = hz s"
  "activeSpace (push k s) = activeSpace s" "kernelStack (push k s) = kernelStack s"
  "ints_on (push k s) = ints_on s"
  by (simp_all add: push_def split: option.splits)

lemma push_procs:
  "procs (push k s) p = (if current s = Some p then map_option (\<lambda>P. P\<lparr>konts := k # konts P\<rparr>) (procs s p)
     else procs s p)"
  by (auto simp: push_def split: option.splits)

lemma run_ok_ints: "run_ok b s w \<Longrightarrow> ints_ok s"
  by (simp add: run_ok_def)

lemma push_owed_inv:
  assumes inv: "sched_inv b d' i' s w" and me: "current s = Some me" and P: "procs s me = Some P" "w me = Some x"
    and k: "k = KExit \<Longrightarrow> idleProcess s \<noteq> Some me"
    and pok: "proc_ok d i x (P\<lparr>konts := k # konts P\<rparr>)"
  shows "sched_inv b d i (push k s) w"
proof (rule sched_invI)
  note I = sched_invD [OF inv]
  have procs: "procs (push k s) = (procs s)(me \<mapsto> P\<lparr>konts := k # konts P\<rparr>)"
    using me P(1) by (auto simp: push_procs fun_eq_iff)
  show "procs_ok d i (push k s) w"
    using P me procs by (intro procs_ok_me [OF I(1) me _ _ _ procs pok]) auto
  have "ints_on s \<longleftrightarrow> (\<exists>p P. current s = Some p \<and> procs s p = Some P \<and> disableCount P = 0)"
    using run_ok_ints [OF I(2)] unfolding ints_ok_def .
  also have "\<dots> \<longleftrightarrow> (\<exists>p P. current s = Some p \<and> procs (push k s) p = Some P \<and> disableCount P = 0)"
    using P(1) by (auto simp: procs)
  finally show "run_ok b (push k s) w"
    using P(1) by (intro run_ok_cong [OF I(2)]) (simp_all add: procs)
  show "queues_ok (push k s) w" by (rule queues_ok_cong [OF I(3)]) simp_all
  show "idle_ok (push k s) w" using P(1) k by (intro idle_ok_cong [OF I(4)]) (auto simp: procs)
  show "sems_ok (push k s) w" by (rule sems_ok_cong [OF I(5)]) simp_all
  show "timers_ok (push k s) w" by (rule timers_ok_cong [OF I(6)]) simp_all
qed

lemma push_inv:
  assumes inv: "sched_inv b (d + kweight [k]) (i + kirqs [k]) s w"
    and room: "\<And>me P. current s = Some me \<Longrightarrow> procs s me = Some P \<Longrightarrow> kweight (konts P) \<le> 3 \<and> kirqs (konts P) \<le> 3
      \<and> (k = KEndIrq \<longrightarrow> kweight (konts P) = 0) \<and> (\<forall>n. k \<noteq> KUp (Sem n))"
    and ex: "k \<noteq> KExit"
  shows "sched_inv b d i (push k s) w"
proof (cases "current s")
  case None
  then show ?thesis using inv_no_current [OF None inv] by (simp add: push_def)
next
  case (Some me)
  obtain P x where P: "procs s me = Some P" "w me = Some x"
    "proc_ok (d + kweight [k]) (i + kirqs [k]) x P" "x \<noteq> Dead" "x \<noteq> Zombie"
    using current_proc [OF inv Some] .
  have k: "kweight [k] \<le> 1" "kirqs [k] \<le> 1" by (cases k; simp)+
  have pok: "proc_ok d i x (P\<lparr>konts := k # konts P\<rparr>)"
    using P(3-5) k room [OF Some P(1)] by (auto simp: proc_ok_def)
  show ?thesis by (rule push_owed_inv [OF inv Some P(1,2) _ pok]) (use ex in simp)
qed

text \<open>The rest of \<^verbatim>\<open>exit\<close> owes nothing.\<close>

lemma push_exit_inv:
  assumes inv: "sched_inv False 0 0 s w" and ni: "idleProcess s \<noteq> current s"
  shows "sched_inv False 0 0 (push KExit s) w"
proof (cases "current s")
  case (Some me)
  note I = sched_invD [OF inv]
  obtain P x where P: "procs s me = Some P" "w me = Some x" "proc_ok 0 0 x P" "x \<noteq> Dead" "x \<noteq> Zombie"
    using current_proc [OF inv Some] .
  have pok: "proc_ok 0 0 x (P\<lparr>konts := KExit # konts P\<rparr>)" using P(3-5) by (auto simp: proc_ok_def)
  show ?thesis by (rule push_owed_inv [OF inv Some P(1,2) _ pok]) (use ni Some in simp)
qed (use inv in \<open>simp add: push_def\<close>)

section \<open>Switching to the next process\<close>

lemma proc_ok_place:
  "proc_ok d i x P \<Longrightarrow> x \<noteq> Dead \<Longrightarrow> x \<noteq> Zombie \<Longrightarrow> place_state y st \<Longrightarrow> y \<noteq> Dead \<Longrightarrow> y \<noteq> Zombie
     \<Longrightarrow> proc_ok d i y (P\<lparr>p_state := st\<rparr>)"
  by (simp add: proc_ok_def)

definition stacks_fit :: "proc \<Rightarrow> bool" where
  "stacks_fit P \<longleftrightarrow> espReg P < STACK_LONGS \<and> kesp P < STACK_LONGS"

text \<open>Changes of a process that the invariant does not look at.\<close>

lemma upd_proc_inv:
  assumes inv: "sched_inv b d i s w"
    and f: "\<And>P. p_state (f P) = p_state P \<and> disableCount (f P) = disableCount P \<and> iDepth (f P) = iDepth P
        \<and> konts (f P) = konts P \<and> (stacks_fit P \<longrightarrow> stacks_fit (f P))" "\<And>P. procs s p = Some P \<Longrightarrow> 0 < refCount P \<Longrightarrow> 0 < refCount (f P)"
    and k: "\<And>P. procs s p = Some P \<Longrightarrow> idleProcess s = Some p \<Longrightarrow> isKilled (f P) = isKilled P"
  shows "sched_inv b d i (upd_proc p f s) w"
proof -
  note I = sched_invD [OF inv]
  have "\<exists>x. w q = Some x \<and> proc_ok (if current s = Some q then d else 0) (if current s = Some q then i else 0) x Q"
    if "procs (upd_proc p f s) q = Some Q" for q Q
  proof -
    from that have "\<exists>P. procs s q = Some P" by (auto split: if_splits)
    then obtain P where P: "procs s q = Some P" by blast
    from procs_okD [OF I(1) P] obtain x where x: "w q = Some x"
      "proc_ok (if current s = Some q then d else 0) (if current s = Some q then i else 0) x P" by blast
    show ?thesis
    proof (cases "q = p")
      case True
      then have Q: "Q = f P" using that P by simp
      have "0 < refCount P" "stacks_fit P" using x(2) by (simp_all add: proc_ok_def stacks_fit_def)
      then have "0 < refCount (f P)" "stacks_fit (f P)" using f P True by blast+
      then show ?thesis using x f(1) [of P] unfolding Q by (simp add: proc_ok_def stacks_fit_def)
    next
      case False
      then show ?thesis using that P x by simp
    qed
  qed
  then have "procs_ok d i (upd_proc p f s) w"
    using I(1) unfolding procs_ok_def by simp
  moreover have "run_ok b (upd_proc p f s) w"
  proof (rule run_ok_cong [OF I(2)])
    have "(\<exists>q P. current s = Some q \<and> procs s q = Some P \<and> disableCount P = 0) \<longleftrightarrow>
        (\<exists>q P. current s = Some q \<and> procs (upd_proc p f s) q = Some P \<and> disableCount P = 0)"
      using f(1) by auto
    then show "ints_on (upd_proc p f s) \<longleftrightarrow> (\<exists>q P. current s = Some q \<and> procs (upd_proc p f s) q = Some P \<and> disableCount P = 0)"
      using run_ok_ints [OF I(2)] unfolding ints_ok_def upd_proc_simps by blast
  qed auto
  moreover have "idle_ok (upd_proc p f s) w"
    using k f(1) by (intro idle_ok_cong [OF I(4)]) auto
  ultimately show ?thesis
    by (intro sched_invI queues_ok_cong [OF I(3)] sems_ok_cong [OF I(5)] timers_ok_cong [OF I(6)]) simp_all
qed

lemma switch_inv:
  assumes inv: "sched_inv True 0 0 s w" and p: "w p = Some Limbo" and P: "procs s p = Some P"
  shows "sched_inv False 0 0 (if Some p \<noteq> current s
     then (upd_proc p (\<lambda>P. P\<lparr>p_state := RUNNING\<rparr>) s)\<lparr>activeSpace := Some p, kernelStack := Some p,
             current := Some p, ints_on := (disableCount P = 0)\<rparr>
     else upd_proc p (\<lambda>P. P\<lparr>p_state := RUNNING\<rparr>) s) (w(p \<mapsto> Running))"
    (is "sched_inv False 0 0 ?s ?w")
proof -
  note I = sched_invD [OF inv]
  have pok: "proc_ok 0 0 Limbo P" using procs_okD [OF I(1) P] p by auto
  let ?P = "P\<lparr>p_state := RUNNING\<rparr>"
  have procs: "procs ?s = (procs s)(p \<mapsto> ?P)" using P by (auto simp: fun_eq_iff)
  have f: "current ?s = Some p" "nextPid ?s = nextPid s" "readyQueue ?s = readyQueue s"
    "reaperQueue ?s = reaperQueue s" "idleProcess ?s = idleProcess s" "sems ?s = sems s"
    "timers ?s = timers s" "jiffies ?s = jiffies s" by simp_all
  have nr: "w q \<noteq> Some Running" for q using I(2) unfolding run_ok_def by blast
  show ?thesis
  proof (rule sched_invI)
    have "\<exists>x. ?w q = Some x \<and> proc_ok 0 0 x Q" if "procs ?s q = Some Q" for q Q
    proof (cases "q = p")
      case True
      then show ?thesis using that pok unfolding procs by (auto intro: proc_ok_place)
    next
      case False
      then have "procs s q = Some Q" using that unfolding procs by simp
      from procs_okD [OF I(1) this] show ?thesis using False by (auto split: if_splits)
    qed
    then show "procs_ok 0 0 ?s ?w"
      using I(1) P unfolding procs_ok_def f procs by auto
    show "run_ok False ?s ?w"
      unfolding run_ok_def f
    proof (intro conjI allI impI)
      fix q assume "?w q = Some Running"
      then show "\<not> False" "Some p = Some q" using nr by (auto split: if_splits)
    next
      fix q assume q: "Some p = Some q"
      have "current s = Some p \<Longrightarrow> activeSpace s = Some p \<and> kernelStack s = Some p"
        using I(2) unfolding run_ok_def by blast
      then show "activeSpace ?s = Some q" "kernelStack ?s = Some q" using q by auto
      show "procs ?s q \<noteq> None" using q unfolding procs by simp
      show "?w q \<noteq> Some Dead" "?w q \<noteq> Some Zombie" "?w q = Some Running" using q by simp_all
    next
      show "ints_ok ?s"
      proof (cases "current s = Some p")
        case True
        have "ints_on s \<longleftrightarrow> disableCount P = 0"
          using run_ok_ints [OF I(2)] True P unfolding ints_ok_def by auto
        then show ?thesis using True unfolding ints_ok_def f procs by auto
      next
        case False
        then show ?thesis unfolding ints_ok_def f procs by auto
      qed
    qed
    show "queues_ok ?s ?w"
      using I(3) p unfolding queues_ok_def f by auto
    show "idle_ok ?s ?w"
      using P by (intro idle_ok_move idle_ok_cong [OF I(4)]) (auto simp: procs f simp del: upd_proc_simps)
    show "sems_ok ?s ?w" using p by (intro sems_ok_move sems_ok_cong [OF I(5)]) (auto simp: f)
    show "timers_ok ?s ?w" using p by (intro timers_ok_move timers_ok_cong [OF I(6)]) (auto simp: f)
  qed
qed

lemma save_esp_inv: "sched_inv b d i s w \<Longrightarrow> sched_inv b d i (save_esp prev s) w"
  by (auto simp: save_esp_def stacks_fit_def split: option.split intro!: upd_proc_inv)

lemma save_esp_fields [simp]:
  "nextPid (save_esp q s) = nextPid s" "current (save_esp q s) = current s"
  "readyQueue (save_esp q s) = readyQueue s" "reaperQueue (save_esp q s) = reaperQueue s"
  "idleProcess (save_esp q s) = idleProcess s" "sems (save_esp q s) = sems s"
  "timers (save_esp q s) = timers s" "jiffies (save_esp q s) = jiffies s" "hz (save_esp q s) = hz s"
  "procs (save_esp q s) p = (if q = Some p then map_option (\<lambda>Q. Q\<lparr>kesp := espReg Q\<rparr>) (procs s p) else procs s p)"
  by (auto simp: save_esp_def split: option.split)

text \<open>The stack pointers first and then the switch.\<close>

lemma dispatch_split:
  assumes "procs s p = Some P" "\<not> STACK_LONGS \<le> kesp P"
  shows "dispatch p (current s) s = Inr (let t = (if Some p \<noteq> current s
        then upd_proc p (\<lambda>P. P\<lparr>espReg := kesp P\<rparr>) (save_esp (current s) s) else s) in
     if Some p \<noteq> current t
     then (upd_proc p (\<lambda>P. P\<lparr>p_state := RUNNING\<rparr>) t)\<lparr>activeSpace := Some p, kernelStack := Some p,
             current := Some p, ints_on := (disableCount P = 0)\<rparr>
     else upd_proc p (\<lambda>P. P\<lparr>p_state := RUNNING\<rparr>) t)"
proof (cases "current s = Some p")
  case True
  then show ?thesis using assms by (simp add: dispatch_def get_proc_def Let_def)
next
  case False
  let ?t = "upd_proc p (\<lambda>P. P\<lparr>espReg := kesp P\<rparr>) (save_esp (current s) s)"
  have c: "(\<lambda>P :: proc. P\<lparr>p_state := RUNNING, espReg := kesp P\<rparr>) = (\<lambda>P. P\<lparr>espReg := kesp P, p_state := RUNNING\<rparr>)"
    by (rule ext) (case_tac P, simp)
  have "upd_proc p (\<lambda>P. P\<lparr>espReg := kesp P\<rparr>) (save_esp (current s) (upd_proc p (\<lambda>P. P\<lparr>p_state := RUNNING\<rparr>) s))
      = upd_proc p (\<lambda>P. P\<lparr>p_state := RUNNING\<rparr>) ?t"
    using False by (cases "current s") (auto simp: upd_proc_def save_esp_def option.map_comp comp_def c fun_upd_twist)
  then show ?thesis using assms False by (auto simp: dispatch_def get_proc_def Let_def)
qed

lemma dispatch_inv:
  assumes inv: "sched_inv True 0 0 s w" and p: "w p = Some Limbo"
  shows "\<exists>s'. dispatch p (current s) s = Inr s' \<and> sched_inv False 0 0 s' (w(p \<mapsto> Running))
    \<and> current s' = Some p"
proof -
  let ?t = "if Some p \<noteq> current s
      then upd_proc p (\<lambda>P. P\<lparr>espReg := kesp P\<rparr>) (save_esp (current s) s) else s"
  obtain P where P: "procs s p = Some P"
    using sched_invD(1) [OF inv] p by (cases "procs s p") (auto simp: procs_ok_def)
  then have fit: "\<not> STACK_LONGS \<le> kesp P"
    using procs_okD [OF sched_invD(1) [OF inv] P] by (auto simp: proc_ok_def not_le)
  have t: "sched_inv True 0 0 ?t w"
    using inv save_esp_inv [OF inv] by (auto simp: stacks_fit_def intro!: upd_proc_inv)
  have "\<exists>Q. procs ?t p = Some Q \<and> disableCount Q = disableCount P" using P by auto
  then obtain Q where Q: "procs ?t p = Some Q" "disableCount Q = disableCount P" by blast
  from switch_inv [OF t p Q(1)] show ?thesis
    using dispatch_split [OF P fit] Q(2) by (auto simp: Let_def)
qed

definition no_limbo :: "(pid \<Rightarrow> place option) \<Rightarrow> bool" where
  "no_limbo w \<longleftrightarrow> (\<forall>p. w p \<noteq> Some Limbo)"

lemma no_limbo_upd: "no_limbo w \<Longrightarrow> x \<noteq> Limbo \<Longrightarrow> no_limbo (w(p \<mapsto> x))"
  by (simp add: no_limbo_def)

text \<open>Taking the head of the ready queue, or the idle process.\<close>

lemma pick_next_inv:
  assumes inv: "sched_inv True 0 0 s w" and nl: "no_limbo w"
  shows "\<exists>p s' w'. pick_next s = Inr (p, s') \<and> sched_inv True 0 0 s' w' \<and> w' p = Some Limbo
    \<and> current s' = current s \<and> no_limbo (w'(p \<mapsto> Running))
    \<and> (readyQueue s = [] \<longrightarrow> idleProcess s = Some p)
    \<and> (readyQueue s \<noteq> [] \<longrightarrow> p = hd (readyQueue s) \<and> readyQueue s' = tl (readyQueue s))"
proof -
  note I = sched_invD [OF inv]
  have limbo: "procs_ok 0 0 s' (w(p \<mapsto> Limbo))"
    if "procs s' = procs s" "current s' = current s" "nextPid s' = nextPid s" "w p = Some x"
      "x \<noteq> Dead" "x \<noteq> Zombie" for s' p x
  proof -
    have "\<exists>y. (w(p \<mapsto> Limbo)) q = Some y \<and> proc_ok 0 0 y Q" if "procs s q = Some Q" for q Q
      using procs_okD [OF I(1) that] \<open>w p = Some x\<close> \<open>x \<noteq> Dead\<close> \<open>x \<noteq> Zombie\<close>
      by (cases "q = p") (auto simp: proc_ok_def split: if_splits)
    then show ?thesis using I(1) that unfolding procs_ok_def by auto
  qed
  have nl': "no_limbo ((w(p \<mapsto> Limbo))(p \<mapsto> Running))" for p using nl by (simp add: no_limbo_def)
  show ?thesis
  proof (cases "readyQueue s")
    case Nil
    obtain p P where p: "idleProcess s = Some p" "procs s p = Some P" "w p \<in> {Some Running, Some Idle, Some Limbo}"
      using I(4) unfolding idle_ok_def by blast
    have "w p \<noteq> Some Running" "w p \<noteq> Some Limbo"
      using I(2) nl unfolding run_ok_def no_limbo_def by blast+
    then have w: "w p = Some Idle" using p(3) by simp
    have "sched_inv True 0 0 s (w(p \<mapsto> Limbo))"
    proof (rule sched_invI)
      show "procs_ok 0 0 s (w(p \<mapsto> Limbo))" using w by (intro limbo) auto
      show "run_ok True s (w(p \<mapsto> Limbo))" by (rule run_ok_move [OF I(2)]) simp_all
      show "queues_ok s (w(p \<mapsto> Limbo))" using I(3) w unfolding queues_ok_def by auto
      show "idle_ok s (w(p \<mapsto> Limbo))" by (rule idle_ok_move [OF I(4)]) simp_all
      show "sems_ok s (w(p \<mapsto> Limbo))" using w by (intro sems_ok_move [OF I(5)]) auto
      show "timers_ok s (w(p \<mapsto> Limbo))" using w by (intro timers_ok_move [OF I(6)]) auto
    qed
    then show ?thesis using Nil p(1) nl' by (auto simp: pick_next_def)
  next
    case (Cons p ps)
    let ?s = "s\<lparr>readyQueue := ps\<rparr>"
    have w: "w p = Some Ready" using I(3) Cons unfolding queues_ok_def by auto
    have "sched_inv True 0 0 ?s (w(p \<mapsto> Limbo))"
    proof (rule sched_invI)
      show "procs_ok 0 0 ?s (w(p \<mapsto> Limbo))" using w by (intro limbo) auto
      show "run_ok True ?s (w(p \<mapsto> Limbo))"
        using run_ok_ints [OF I(2)]
        by (intro run_ok_move [OF run_ok_cong [OF I(2)]]) (simp_all add: ints_ok_def)
      show "queues_ok ?s (w(p \<mapsto> Limbo))" using I(3) Cons w unfolding queues_ok_def by auto
      show "idle_ok ?s (w(p \<mapsto> Limbo))" by (intro idle_ok_move idle_ok_cong [OF I(4)]) simp_all
      show "sems_ok ?s (w(p \<mapsto> Limbo))" using w by (intro sems_ok_move sems_ok_cong [OF I(5)]) auto
      show "timers_ok ?s (w(p \<mapsto> Limbo))" using w by (intro timers_ok_move timers_ok_cong [OF I(6)]) auto
    qed
    then show ?thesis using Cons nl' by (auto simp: pick_next_def)
  qed
qed

text \<open>Blocking: the queue, and the conditions under which a process may enter it.\<close>

definition may_wait :: "wqueue \<Rightarrow> sched \<Rightarrow> bool" where
  "may_wait q s \<longleftrightarrow> (case q of
      OnSem j \<Rightarrow> count (sems s j) = 0 \<and> (\<forall>p. j = Done p \<longrightarrow> p < nextPid s)
    | OnTimer t \<Rightarrow> t \<in> target ` set (timers s))"

lemma enqueue_fields [simp]:
  "nextPid (enqueue q p s) = nextPid s" "current (enqueue q p s) = current s"
  "readyQueue (enqueue q p s) = readyQueue s" "reaperQueue (enqueue q p s) = reaperQueue s"
  "idleProcess (enqueue q p s) = idleProcess s" "procs (enqueue q p s) = procs s"
  "jiffies (enqueue q p s) = jiffies s" "hz (enqueue q p s) = hz s" "ints_on (enqueue q p s) = ints_on s"
  "activeSpace (enqueue q p s) = activeSpace s" "kernelStack (enqueue q p s) = kernelStack s"
  by (simp_all add: enqueue_def split: wqueue.splits)

lemma sems_ok_enqueue:
  assumes "sems_ok s w" "w p = Some Running" "may_wait q s"
  shows "sems_ok (enqueue q p s) (w(p \<mapsto> Waits q))"
proof (cases q)
  case (OnSem j)
  have "p \<notin> set (waiting (sems s j))" using assms(1,2) unfolding sems_ok_def by auto
  with assms OnSem show ?thesis
    unfolding sems_ok_def may_wait_def enqueue_def by (auto split: if_splits)
next
  case (OnTimer t)
  have "sems (enqueue q p s) = sems s" by (simp add: enqueue_def OnTimer)
  then show ?thesis using assms(2) OnTimer by (intro sems_ok_move sems_ok_cong [OF assms(1)]) auto
qed

lemma timers_ok_enqueue:
  assumes "timers_ok s w" "w p = Some Running" "may_wait q s"
  shows "timers_ok (enqueue q p s) (w(p \<mapsto> Waits q))"
proof (cases q)
  case (OnSem j)
  have "timers (enqueue q p s) = timers s" by (simp add: enqueue_def OnSem upd_sem_def)
  then show ?thesis using assms(2) OnSem by (intro timers_ok_move timers_ok_cong [OF assms(1)]) auto
next
  case (OnTimer t)
  let ?f = "\<lambda>T. if target T = t then T\<lparr>sleepers := sleepers T @ [p]\<rparr> else T"
  have tg: "target (?f T) = target T" for T by simp
  have ts: "timers (enqueue q p s) = map ?f (timers s)" by (simp add: enqueue_def OnTimer)
  note A = assms(1) [unfolded timers_ok_def]
  show ?thesis
    unfolding timers_ok_def ts enqueue_fields
  proof (intro conjI ballI allI impI)
    show "sorted_wrt (\<lambda>S T. target S < target T) (map ?f (timers s))"
      using A by (simp only: sorted_wrt_map tg)
  next
    fix T assume "T \<in> set (map ?f (timers s))"
    then obtain U where U: "U \<in> set (timers s)" "T = ?f U" by auto
    then have u: "jiffies s < target U" "distinct (sleepers U)"
      "\<And>r. r \<in> set (sleepers U) \<longleftrightarrow> w r = Some (Waits (OnTimer (target U)))" using A by blast+
    have np: "p \<notin> set (sleepers U)" using u(3) assms(2) by simp
    show "jiffies s < target T" unfolding U(2) tg by (rule u(1))
    show "distinct (sleepers T)" using U(2) u(2) np by simp
    show "r \<in> set (sleepers T) \<longleftrightarrow> (w(p \<mapsto> Waits q)) r = Some (Waits (OnTimer (target T)))" for r
      using U(2) u(3) np OnTimer by (cases "r = p") auto
  next
    fix r t' assume "(w(p \<mapsto> Waits q)) r = Some (Waits (OnTimer t'))"
    then have "t' \<in> target ` set (timers s)"
      using A assms(3) OnTimer unfolding may_wait_def by (cases "r = p") auto
    then show "t' \<in> target ` set (map ?f (timers s))" by (simp only: set_map image_image tg)
  qed
qed

lemma block_inv:
  assumes inv: "sched_inv False 0 0 s w" and me: "current s = Some me" "idleProcess s \<noteq> Some me"
    and q: "may_wait q s"
  shows "sched_inv True 0 0 (enqueue q me (upd_proc me (\<lambda>P. P\<lparr>p_state := BLOCKED\<rparr>) s)) (w(me \<mapsto> Waits q))"
proof (rule sched_invI)
  note I = sched_invD [OF inv]
  let ?s1 = "upd_proc me (\<lambda>P. P\<lparr>p_state := BLOCKED\<rparr>) s" and ?w = "w(me \<mapsto> Waits q)"
  let ?s = "enqueue q me ?s1"
  obtain P x where P: "procs s me = Some P" "w me = Some x" "proc_ok 0 0 x P" "x \<noteq> Dead" "x \<noteq> Zombie"
    using current_proc [OF inv me(1)] .
  have run: "w me = Some Running" using I(2) me(1) unfolding run_ok_def by blast
  have procs: "procs ?s = (procs s)(me \<mapsto> P\<lparr>p_state := BLOCKED\<rparr>)" using P(1) by (auto simp: fun_eq_iff)
  have pok: "proc_ok 0 0 (Waits q) (P\<lparr>p_state := BLOCKED\<rparr>)" using P(3-5) by (auto intro: proc_ok_place)
  show "procs_ok 0 0 ?s ?w"
    using P(1) me(1) procs by (intro procs_ok_me [OF I(1) me(1) _ _ _ procs pok]) simp_all
  show "run_ok True ?s ?w"
  proof (rule run_ok_move)
    have "ints_on s \<longleftrightarrow> (\<exists>p P. current s = Some p \<and> procs s p = Some P \<and> disableCount P = 0)"
      using run_ok_ints [OF I(2)] unfolding ints_ok_def .
    also have "\<dots> \<longleftrightarrow> (\<exists>p P. current s = Some p \<and> procs ?s p = Some P \<and> disableCount P = 0)"
      using P(1) by (auto simp: procs simp del: enqueue_fields upd_proc_simps)
    finally show "run_ok False ?s w"
      using P(1) by (intro run_ok_cong [OF I(2)]) simp_all
  qed (use me in simp_all)
  show "queues_ok ?s ?w" using I(3) run unfolding queues_ok_def by auto
  show "idle_ok ?s ?w" using me(2) by (intro idle_ok_move idle_ok_cong [OF I(4)]) auto
  have "may_wait q ?s1" using q by (simp add: may_wait_def split: wqueue.splits)
  then show "sems_ok ?s ?w" "timers_ok ?s ?w"
    using run by (intro sems_ok_enqueue timers_ok_enqueue sems_ok_cong [OF I(5)] timers_ok_cong [OF I(6)]; simp)+
qed

text \<open>A whole \<^verbatim>\<open>yield\<close>.\<close>

definition roomy :: "nat \<Rightarrow> sched \<Rightarrow> bool" where
  "roomy n s \<longleftrightarrow> (\<forall>me P. current s = Some me \<longrightarrow> procs s me = Some P \<longrightarrow> kweight (konts P) \<le> n \<and> kirqs (konts P) \<le> n)"

lemma yield_inv:
  assumes inv: "sched_inv False 0 0 s w" and nl: "no_limbo w" and room: "roomy 3 s"
    and q: "\<And>wq. q = Some wq \<Longrightarrow> may_wait wq s \<and> (\<exists>me P. current s = Some me \<and> procs s me = Some P
        \<and> idleProcess s \<noteq> Some me \<and> kirqs (konts P) = 0)"
  shows "\<exists>s' w'. yield q s = Inr s' \<and> sched_inv False 0 0 s' w' \<and> no_limbo w' \<and> current s' \<noteq> None"
proof -
  let ?s1 = "push KYield (disable s)"
  have inv1: "sched_inv False 0 0 ?s1 w"
    using disable_inv [OF inv] room
    by (intro push_inv) (auto simp: roomy_def disable_procs)
  have "\<exists>s2 w2. (case current ?s1 of
               None \<Rightarrow> Inr ?s1
             | Some me \<Rightarrow>
                 (case q of
                    Some w \<Rightarrow>
                      bindE (get_proc me ?s1) (\<lambda>P.
                        if iDepth P \<noteq> 0 then Inl (Panic ''blocking while iDepth'')
                        else Inr (enqueue w me (upd_proc me (\<lambda>P. P\<lparr>p_state := BLOCKED\<rparr>) ?s1)))
                  | None \<Rightarrow> makeReady me ?s1)) = Inr s2
    \<and> sched_inv True 0 0 s2 w2 \<and> no_limbo w2 \<and> current s2 = current ?s1" (is "\<exists>s2 w2. ?m = _ \<and> _")
  proof (cases "current s")
    case None
    then show ?thesis using inv_no_current [OF _ inv1] nl by auto
  next
    case (Some me)
    then have c1: "current ?s1 = Some me" by simp
    show ?thesis
    proof (cases q)
      case None
      have "w me = Some Running" using sched_invD(2) [OF inv] Some unfolding run_ok_def by blast
      from makeReady_inv [OF inv1 _ this, of True] c1 obtain s2 where s2: "makeReady me ?s1 = Inr s2"
        "sched_inv True 0 0 s2 (w(me \<mapsto> if Some me = idleProcess ?s1 then Idle else Ready))" "kept ?s1 s2"
        by auto
      have "no_limbo (w(me \<mapsto> if Some me = idleProcess ?s1 then Idle else Ready))"
        using nl by (intro no_limbo_upd) auto
      with s2 keptD(1) [OF s2(3)] c1 None show ?thesis by auto
    next
      case (Some wq)
      then have m: "may_wait wq s" "idleProcess s \<noteq> Some me" using q \<open>current s = Some me\<close> by auto
      obtain P where P: "procs s me = Some P" "kirqs (konts P) = 0" using q [OF Some] \<open>current s = Some me\<close> by auto
      have "may_wait wq ?s1" using m(1) by (simp add: may_wait_def split: wqueue.splits)
      from block_inv [OF inv1 c1 _ this] m
      have b: "sched_inv True 0 0 (enqueue wq me (upd_proc me (\<lambda>P. P\<lparr>p_state := BLOCKED\<rparr>) ?s1)) (w(me \<mapsto> Waits wq))"
        by simp
      obtain Q x where Q: "procs ?s1 me = Some Q" "proc_ok 0 0 x Q" "x \<noteq> Dead" "x \<noteq> Zombie"
        using current_proc [OF inv1 c1] .
      have "kirqs (konts Q) = 0" using Q(1) P \<open>current s = Some me\<close> by (auto simp: push_procs disable_procs)
      then have "iDepth Q = 0" using Q(2-4) by (simp add: proc_ok_def unat_eq_0)
      then show ?thesis using c1 Some Q(1) b nl by (auto simp: get_proc_def intro!: no_limbo_upd)
    qed
  qed
  then obtain s2 w2 where m: "?m = Inr s2" and s2: "sched_inv True 0 0 s2 w2" "no_limbo w2" "current s2 = current ?s1"
    by blast
  from pick_next_inv [OF s2(1,2)] obtain p s3 w3 where n: "pick_next s2 = Inr (p, s3)"
    "sched_inv True 0 0 s3 w3" "w3 p = Some Limbo" "current s3 = current s2" "no_limbo (w3(p \<mapsto> Running))" by blast
  from dispatch_inv [OF n(2,3)] obtain s4 where d: "dispatch p (current s3) s3 = Inr s4"
    "sched_inv False 0 0 s4 (w3(p \<mapsto> Running))" "current s4 = Some p" by blast
  have "yield q s = Inr s4"
    unfolding yield_def Let_def m using n d s2(3) by simp
  with d(2,3) n(5) show ?thesis by auto
qed

section \<open>Waking up\<close>

text \<open>Taking blocked processes out of their queue.\<close>

definition freed :: "pid set \<Rightarrow> (pid \<Rightarrow> place option) \<Rightarrow> pid \<Rightarrow> place option" where
  "freed A w p = (if p \<in> A then Some Limbo else w p)"

lemma freed_eq [simp]: "x \<noteq> Limbo \<Longrightarrow> freed A w p = Some x \<longleftrightarrow> p \<notin> A \<and> w p = Some x"
  by (simp add: freed_def)

lemma freed_inv:
  assumes inv: "sched_inv False d i s w" and A: "\<And>p. p \<in> A \<Longrightarrow> \<exists>q. w p = Some (Waits q)"
    and f: "procs s' = procs s" "current s' = current s" "nextPid s' = nextPid s"
      "activeSpace s' = activeSpace s" "kernelStack s' = kernelStack s" "ints_on s' = ints_on s"
      "readyQueue s' = readyQueue s" "reaperQueue s' = reaperQueue s" "idleProcess s' = idleProcess s"
    and sems: "sems_ok s' (freed A w)" and timers: "timers_ok s' (freed A w)"
  shows "sched_inv False d i s' (freed A w)"
proof (rule sched_invI)
  note I = sched_invD [OF inv]
  have cur: "p \<notin> A" if "current s = Some p" for p
    using run_okD(1) [OF I(2) that] A [of p] by auto
  have "\<exists>x. freed A w p = Some x \<and> proc_ok (if current s = Some p then d else 0) (if current s = Some p then i else 0) x P"
    if "procs s p = Some P" for p P
  proof (cases "p \<in> A")
    case True
    with A obtain q where "w p = Some (Waits q)" by blast
    with procs_okD [OF I(1) that] show ?thesis using True by (auto simp: freed_def proc_ok_def)
  next
    case False
    with procs_okD [OF I(1) that] show ?thesis by (simp add: freed_def)
  qed
  moreover have "freed A w p = None" if "procs s p = None" for p
    using I(1) A [of p] that unfolding procs_ok_def freed_def by auto
  ultimately show "procs_ok d i s' (freed A w)"
    using I(1) unfolding procs_ok_def f by blast
  have "ints_ok s'" using run_ok_ints [OF I(2)] unfolding ints_ok_def f .
  then show "run_ok False s' (freed A w)"
    unfolding run_ok_def f
  proof (intro conjI allI impI)
    fix p assume "freed A w p = Some Running"
    then have "w p = Some Running" by simp
    then show "\<not> False" "current s = Some p" using run_okD(2) [OF I(2)] by blast+
  next
    fix p assume c: "current s = Some p"
    then show "procs s p \<noteq> None" "activeSpace s = Some p" "kernelStack s = Some p"
      using run_okD_cur [OF I(2)] by blast+
    show "freed A w p = Some Running" using run_okD(1) [OF I(2) c] cur [OF c] by simp
    then show "freed A w p \<noteq> Some Dead" "freed A w p \<noteq> Some Zombie" by simp_all
  qed
  show "queues_ok s' (freed A w)" using I(3) A unfolding queues_ok_def f by force
  obtain p P where p: "idleProcess s = Some p" "procs s p = Some P" "\<not> isKilled P" "KExit \<notin> set (konts P)"
    "w p \<in> {Some Running, Some Idle, Some Limbo}" "\<forall>p. w p = Some Idle \<longrightarrow> idleProcess s = Some p"
    using I(4) unfolding idle_ok_def by blast
  moreover have "p \<notin> A" using A [of p] p(5) by auto
  ultimately show "idle_ok s' (freed A w)" unfolding idle_ok_def f by (simp add: freed_def)
qed (use sems timers in simp_all)

lemma unwait_inv:
  assumes inv: "sched_inv False d i s w" and q: "waiting (sems s j) = p # ps"
  shows "sched_inv False d i (upd_sem j (\<lambda>S. S\<lparr>waiting := ps\<rparr>) s) (freed {p} w)"
    "w p = Some (Waits (OnSem j))"
proof -
  note S = sched_invD(5) [OF inv, unfolded sems_ok_def]
  show w: "w p = Some (Waits (OnSem j))" using S q by (metis list.set_intros(1))
  have ps: "p \<notin> set ps" "distinct ps" using S q by (metis distinct.simps(2))+
  have mem: "r \<in> set ps \<longleftrightarrow> r \<noteq> p \<and> w r = Some (Waits (OnSem j))" for r
    using S q ps(1) by (metis set_ConsD list.set_intros)
  let ?s = "upd_sem j (\<lambda>S. S\<lparr>waiting := ps\<rparr>) s"
  have "sems_ok ?s (freed {p} w)"
    unfolding sems_ok_def
  proof (intro conjI allI impI)
    fix k r
    show "r \<in> set (waiting (sems ?s k)) \<longleftrightarrow> freed {p} w r = Some (Waits (OnSem k))"
      using S mem w by (cases "k = j") auto
    show "distinct (waiting (sems ?s k))" using S ps(2) by (cases "k = j") auto
    assume "waiting (sems ?s k) \<noteq> []"
    then have "waiting (sems s k) \<noteq> []" using q by (cases "k = j") auto
    then have "count (sems s k) = 0" using S by blast
    then show "count (sems ?s k) = 0" by (cases "k = j") simp_all
  next
    fix r assume "nextPid ?s \<le> r"
    then have "waiting (sems s (Done r)) = []" using S by simp
    then show "waiting (sems ?s (Done r)) = []" using q by auto
  qed
  moreover have "timers_ok ?s (freed {p} w)"
  proof -
    have "freed {p} w r = Some (Waits (OnTimer t)) \<longleftrightarrow> w r = Some (Waits (OnTimer t))" for r t
      using w by auto
    then show ?thesis using sched_invD(6) [OF inv] unfolding timers_ok_def by simp
  qed
  ultimately show "sched_inv False d i ?s (freed {p} w)"
    using w by (intro freed_inv [OF inv]) simp_all
qed

lemma waiting_not_idle:
  "sched_inv b d i s w \<Longrightarrow> w p = Some (Waits q) \<Longrightarrow> idleProcess s \<noteq> Some p \<and> current s \<noteq> Some p \<or> b"
proof -
  assume inv: "sched_inv b d i s w" and w: "w p = Some (Waits q)"
  have "idleProcess s \<noteq> Some p"
    using idle_okD(1) [OF sched_invD(4) [OF inv], of p] w by auto
  moreover have "current s \<noteq> Some p \<or> b"
    using run_okD(1) [OF sched_invD(2) [OF inv], of p] w by auto
  ultimately show ?thesis by blast
qed

lemma sems_ok_count:
  assumes "sems_ok s w" "waiting (sems s j) = []" "\<And>S. waiting (f S) = waiting S"
  shows "sems_ok (upd_sem j f s) w"
proof -
  have w: "waiting (sems (upd_sem j f s) k) = waiting (sems s k)" for k using assms(3) by simp
  have "count (sems (upd_sem j f s) k) = 0" if "waiting (sems s k) \<noteq> []" for k
    using assms(1,2) that unfolding sems_ok_def by auto
  then show ?thesis using assms(1) unfolding sems_ok_def w upd_sem_simps(1) by blast
qed

lemma up_inv:
  assumes inv: "sched_inv False d i s w" and nl: "no_limbo w" and d: "d \<le> 8"
  shows "\<exists>s' w'. up j s = Inr s' \<and> sched_inv False d i s' w' \<and> no_limbo w' \<and> kept s s'
    \<and> timers s' = timers s \<and> (\<forall>p. w p = Some Running \<longrightarrow> w' p = Some Running)
    \<and> (\<forall>p. w' p = Some Dead \<longleftrightarrow> w p = Some Dead)"
proof -
  let ?s1 = "disable s"
  have inv1: "sched_inv False (Suc d) i ?s1 w" using disable_inv [OF inv] d by simp
  have k1: "kept s ?s1" by (simp add: same_kept)
  show ?thesis
  proof (cases "waiting (sems s j)")
    case Nil
    let ?s2 = "upd_sem j (\<lambda>S. S\<lparr>count := s32 (count S + 1)\<rparr>) ?s1"
    note I = sched_invD [OF inv1]
    have "sems_ok ?s2 w" using Nil by (intro sems_ok_count [OF I(5)]) simp_all
    then have "sched_inv False (Suc d) i ?s2 w"
      using I run_ok_ints [OF I(2)]
      by (intro sched_invI run_ok_cong [OF I(2)] queues_ok_cong [OF I(3)] idle_ok_cong [OF I(4)]
          timers_ok_cong [OF I(6)]) (simp_all add: ints_ok_def procs_ok_def)
    from enable_inv [OF this] obtain s' where s': "enable ?s2 = Inr s'" "sched_inv False d i s' w" "same ?s2 s'"
      by blast
    have "kept ?s1 ?s2" by (simp add: kept_def)
    then have "kept s s'" using k1 kept_trans same_kept [OF s'(3)] by blast
    with s' Nil nl sameD [OF s'(3)] show ?thesis by (auto simp: up_def Let_def)
  next
    case (Cons p ps)
    let ?s2 = "upd_sem j (\<lambda>S. S\<lparr>waiting := ps\<rparr>) ?s1"
    have "waiting (sems ?s1 j) = p # ps" using Cons by simp
    note U = unwait_inv [OF inv1 this]
    have pn: "idleProcess s \<noteq> Some p" "current s \<noteq> Some p" using waiting_not_idle [OF inv1 U(2)] by simp_all
    from makeReady_inv [OF U(1), of p Limbo False] d pn obtain s3 where s3: "makeReady p ?s2 = Inr s3"
      "sched_inv False (Suc d) i s3 ((freed {p} w)(p \<mapsto> Ready))" "kept ?s2 s3" "timers s3 = timers ?s2"
      by (auto simp: freed_def)
    from enable_inv [OF s3(2)] obtain s' where s': "enable s3 = Inr s'"
      "sched_inv False d i s' ((freed {p} w)(p \<mapsto> Ready))" "same s3 s'" by blast
    have "kept ?s1 ?s2" by (simp add: kept_def)
    then have "kept s s'" using k1 kept_trans same_kept [OF s'(3)] s3(3) by blast
    moreover have "no_limbo ((freed {p} w)(p \<mapsto> Ready))" using nl by (simp add: no_limbo_def freed_def)
    moreover have "up j s = Inr s'" using Cons s3(1) s'(1) by (simp add: up_def Let_def)
    ultimately show ?thesis using s' s3 sameD(7) [OF s'(3)] U(2)
      by (intro exI [of _ s'] exI [of _ "(freed {p} w)(p \<mapsto> Ready)"]) (auto simp: freed_def)
  qed
qed

text \<open>A \<^verbatim>\<open>down\<close> that does not block.\<close>

lemma down_free_inv:
  assumes inv: "sched_inv False 0 0 s w" and nl: "no_limbo w" and c: "current s \<noteq> None"
    and n: "count (sems s j) \<noteq> 0"
  shows "\<exists>s' w'. down j s = Inr s' \<and> sched_inv False 0 0 s' w' \<and> no_limbo w' \<and> current s' \<noteq> None"
proof -
  let ?s1 = "disable s"
  have inv1: "sched_inv False 1 0 ?s1 w" using disable_inv [OF inv] by simp
  let ?s2 = "upd_sem j (\<lambda>S. S\<lparr>count := s32 (count S - 1)\<rparr>) ?s1"
  note I = sched_invD [OF inv1]
  have "waiting (sems s j) = []" using I(5) n unfolding sems_ok_def by auto
  then have "sems_ok ?s2 w" by (intro sems_ok_count [OF I(5)]) simp_all
  then have "sched_inv False (Suc 0) 0 ?s2 w"
    using I run_ok_ints [OF I(2)]
    by (intro sched_invI run_ok_cong [OF I(2)] queues_ok_cong [OF I(3)] idle_ok_cong [OF I(4)]
        timers_ok_cong [OF I(6)]) (simp_all add: ints_ok_def procs_ok_def)
  from enable_inv [OF this] obtain s' where s': "enable ?s2 = Inr s'" "sched_inv False 0 0 s' w" "same ?s2 s'" by auto
  then show ?thesis using nl n c sameD(2) [OF s'(3)] by (auto simp: down_def Let_def)
qed

lemma down_inv:
  assumes inv: "sched_inv False 0 0 s w" and nl: "no_limbo w" and room: "roomy 2 s"
    and j: "\<And>p. j = Done p \<Longrightarrow> p < nextPid s"
    and me: "current s = Some me" "procs s me = Some P" "idleProcess s \<noteq> Some me" "kirqs (konts P) = 0"
  shows "\<exists>s' w'. down j s = Inr s' \<and> sched_inv False 0 0 s' w' \<and> no_limbo w' \<and> current s' \<noteq> None"
proof -
  let ?s1 = "disable s"
  have inv1: "sched_inv False 1 0 ?s1 w" using disable_inv [OF inv] by simp
  show ?thesis
  proof (cases "count (sems s j) = 0")
    case True
    let ?s2 = "push KEnable ?s1"
    have inv2: "sched_inv False 0 0 ?s2 w"
      using inv1 room by (intro push_inv) (auto simp: roomy_def disable_procs)
    have r2: "roomy 3 ?s2" using room me(1,2) by (auto simp: roomy_def push_procs disable_procs)
    have "may_wait (OnSem j) ?s2" using True j by (simp add: may_wait_def)
    moreover have "procs ?s2 me = Some (P\<lparr>disableCount := disableCount P + 1, konts := KEnable # konts P\<rparr>)"
      using me(1,2) by (simp add: push_procs disable_procs)
    ultimately obtain s' w' where "yield (Some (OnSem j)) ?s2 = Inr s'" "sched_inv False 0 0 s' w'" "no_limbo w'"
      "current s' \<noteq> None"
      using yield_inv [OF inv2 nl r2, of "Some (OnSem j)"] me by auto
    then show ?thesis using True me(1) by (auto simp: down_def Let_def)
  next
    case False
    then show ?thesis using down_free_inv [OF inv nl, of j] me(1) by blast
  qed
qed

section \<open>The reaper\<close>

lemma pop_reaper_inv:
  assumes inv: "sched_inv b d i s w" and q: "reaperQueue s = p # ps"
  shows "sched_inv b d i (s\<lparr>reaperQueue := ps\<rparr>) (w(p \<mapsto> Zombie))" "w p = Some Dead"
proof -
  note I = sched_invD [OF inv]
  show w: "w p = Some Dead" using I(3) q unfolding queues_ok_def by auto
  have nc: "current s \<noteq> Some p" using run_okD_cur [OF I(2), of p] w by auto
  have ni: "idleProcess s \<noteq> Some p" using idle_okD(1) [OF I(4), of p] w by auto
  let ?s = "s\<lparr>reaperQueue := ps\<rparr>" and ?w = "w(p \<mapsto> Zombie)"
  have "\<exists>x. ?w r = Some x \<and> proc_ok (if current s = Some r then d else 0) (if current s = Some r then i else 0) x P"
    if "procs s r = Some P" for r P
    using procs_okD [OF I(1) that] w by (cases "r = p") (auto simp: proc_ok_def)
  moreover have "?w r = None" if "procs s r = None" for r
    using I(1) w that unfolding procs_ok_def by auto
  ultimately have 1: "procs_ok d i ?s ?w" using I(1) unfolding procs_ok_def by simp
  have "ints_ok ?s" using run_ok_ints [OF I(2)] unfolding ints_ok_def by simp
  then have r0: "run_ok b ?s w"
    using run_ok_ints [OF I(2)] by (intro run_ok_cong [OF I(2)]) (simp_all add: ints_ok_def)
  have 2: "run_ok b ?s ?w"
    unfolding run_ok_def
  proof (intro conjI allI impI)
    fix r assume "?w r = Some Running"
    then have "w r = Some Running" by (cases "r = p") simp_all
    then show "\<not> b" "current ?s = Some r" using run_okD(2) [OF r0] by blast+
  next
    fix r assume c: "current ?s = Some r"
    then have r: "r \<noteq> p" using nc by auto
    show "procs ?s r \<noteq> None" "activeSpace ?s = Some r" "kernelStack ?s = Some r"
      using run_okD_cur [OF r0 c] by blast+
    show "?w r \<noteq> Some Dead" "?w r \<noteq> Some Zombie" using run_okD_cur [OF r0 c] r by simp_all
    show "?w r = Some Running" if "\<not> b" using run_okD(1) [OF r0 c] that r by simp
  qed (rule run_ok_ints [OF r0])
  have "distinct (p # ps)" "\<And>r. r \<in> set (p # ps) \<longleftrightarrow> w r = Some Dead"
    using I(3) unfolding queues_ok_def q by blast+
  then have "distinct ps" "\<And>r. r \<in> set ps \<longleftrightarrow> ?w r = Some Dead" by auto
  moreover have "r \<in> set (readyQueue s) \<longleftrightarrow> ?w r = Some Ready" for r
    using I(3) w unfolding queues_ok_def by (cases "r = p") simp_all
  ultimately have 3: "queues_ok ?s ?w"
    using I(3) unfolding queues_ok_def by simp
  have 4: "idle_ok ?s ?w" using ni by (intro idle_ok_move idle_ok_cong [OF I(4)]) auto
  have 5: "sems_ok ?s ?w" "timers_ok ?s ?w"
    using w by (intro sems_ok_move timers_ok_move sems_ok_cong [OF I(5)] timers_ok_cong [OF I(6)]; simp)+
  show "sched_inv b d i ?s ?w" using 1 2 3 4 5 by (rule sched_invI)
qed

lemma unref_zombie_inv:
  assumes inv: "sched_inv b d i s w" and w: "w p = Some Zombie"
  shows "\<exists>s' w'. unref_proc p s = Inr s' \<and> sched_inv b d i s' w' \<and> (\<forall>q. q \<noteq> p \<longrightarrow> w' q = w q)
    \<and> w' p \<in> {None, Some Zombie} \<and> (\<forall>q. q \<noteq> p \<longrightarrow> procs s' q = procs s q)
    \<and> s'\<lparr>procs := procs s\<rparr> = s"
proof -
  note I = sched_invD [OF inv]
  obtain P where P: "procs s p = Some P" using I(1) w by (cases "procs s p") (auto simp: procs_ok_def)
  have pok: "proc_ok 0 0 Zombie P" using procs_okD [OF I(1) P] w by (auto simp: proc_ok_def)
  have nc: "current s \<noteq> Some p" using run_okD_cur [OF I(2), of p] w by auto
  have ni: "idleProcess s \<noteq> Some p" using idle_okD(1) [OF I(4), of p] w by auto
  have keep: "sched_inv b d i s' w'"
    if p: "\<And>q. q \<noteq> p \<Longrightarrow> procs s' q = procs s q" and rest: "s'\<lparr>procs := procs s\<rparr> = s" and w': "\<And>q. q \<noteq> p \<Longrightarrow> w' q = w q"
      and wp: "w' p = None \<and> procs s' p = None \<or> w' p = Some Zombie \<and> (\<exists>Q. procs s' p = Some Q \<and> proc_ok 0 0 Zombie Q)"
    for s' w'
  proof -
    have f: "current s' = current s" "nextPid s' = nextPid s" "readyQueue s' = readyQueue s"
      "reaperQueue s' = reaperQueue s" "idleProcess s' = idleProcess s" "sems s' = sems s"
      "timers s' = timers s" "jiffies s' = jiffies s" "activeSpace s' = activeSpace s"
      "kernelStack s' = kernelStack s" "ints_on s' = ints_on s"
      by (subst rest [symmetric], simp)+
    have W: "w' q = Some x \<longleftrightarrow> w q = Some x" if "x \<noteq> Zombie" for q x
      using that w w' wp by (cases "q = p") auto
    have "\<exists>x. w' r = Some x \<and> proc_ok (if current s = Some r then d else 0) (if current s = Some r then i else 0) x Q"
      if "procs s' r = Some Q" for r Q
      using procs_okD [OF I(1), of r Q] that p w' wp nc by (cases "r = p") auto
    moreover have "w' r = None" if "procs s' r = None" for r
      using I(1) that p w' wp unfolding procs_ok_def by (cases "r = p") auto
    moreover have "procs s' r = None" if "nextPid s \<le> r" for r
      using I(1) that p P unfolding procs_ok_def by (cases "r = p") auto
    ultimately have 1: "procs_ok d i s' w'" unfolding procs_ok_def f by blast
    have pc: "procs s' q = procs s q" if "current s = Some q" for q using that nc p by (cases "q = p") auto
    have "ints_ok s'" using run_ok_ints [OF I(2)] pc unfolding ints_ok_def f by auto
    moreover have "w' q = w q" if "current s = Some q" for q using that nc w' by (cases "q = p") auto
    ultimately have 2: "run_ok b s' w'"
      using I(2) pc W unfolding run_ok_def f by (intro conjI allI impI) (metis place.distinct)+
    have 3: "queues_ok s' w'" using I(3) W unfolding queues_ok_def f by simp
    obtain q Q where q: "idleProcess s = Some q" "procs s q = Some Q" "\<not> isKilled Q" "q \<noteq> p" "KExit \<notin> set (konts Q)"
      using I(4) ni unfolding idle_ok_def by blast
    have "w' q \<in> {Some Running, Some Idle, Some Limbo}" using idle_okD(1) [OF I(4) q(1)] w' [OF q(4)] by auto
    moreover have "idleProcess s = Some r" if "w' r = Some Idle" for r
      using I(4) that W [of Idle r] unfolding idle_ok_def by auto
    ultimately have 4: "idle_ok s' w'" using q p [OF q(4)] unfolding idle_ok_def f by auto
    have 5: "sems_ok s' w'" using I(5) W unfolding sems_ok_def f by simp
    have 6: "timers_ok s' w'" using I(6) W unfolding timers_ok_def f by simp
    show ?thesis using 1 2 3 4 5 6 by (rule sched_invI)
  qed
  show ?thesis
  proof (cases "refCount P = 1")
    case True
    let ?s = "s\<lparr>procs := (procs s)(p := None)\<rparr>"
    have "unref_proc p s = Inr ?s" using P True by (simp add: unref_proc_def get_proc_def)
    moreover have "sched_inv b d i ?s (w(p := None))" by (rule keep) simp_all
    ultimately show ?thesis by (intro exI [of _ ?s] exI [of _ "w(p := None)"]) simp
  next
    case False
    let ?s = "upd_proc p (\<lambda>P. P\<lparr>refCount := refCount P - 1\<rparr>) s"
    have "unref_proc p s = Inr ?s" using P False by (simp add: unref_proc_def get_proc_def)
    moreover have "proc_ok 0 0 Zombie (P\<lparr>refCount := refCount P - 1\<rparr>)"
      using pok False by (auto simp: proc_ok_def word_gt_0 diff_eq_eq)
    then have "sched_inv b d i ?s w" using P w by (intro keep) (auto simp: upd_proc_def)
    ultimately show ?thesis using w by (intro exI [of _ ?s] exI [of _ w]) (simp add: upd_proc_def)
  qed
qed


text \<open>What the reaper keeps of the running process.\<close>

definition mekept :: "sched \<Rightarrow> sched \<Rightarrow> bool" where
  "mekept s s' \<longleftrightarrow> current s' = current s \<and> idleProcess s' = idleProcess s \<and> nextPid s' = nextPid s
     \<and> sems s' = sems s \<and> timers s' = timers s \<and> jiffies s' = jiffies s \<and> hz s' = hz s
     \<and> readyQueue s' = readyQueue s
     \<and> (\<forall>me P. current s = Some me \<longrightarrow> procs s me = Some P \<longrightarrow> (\<exists>P'. procs s' me = Some P'
          \<and> konts P' = konts P \<and> isKilled P' = isKilled P \<and> killCode P' = killCode P))"

lemma mekeptD:
  assumes "mekept s s'"
  shows "current s' = current s" "idleProcess s' = idleProcess s" "nextPid s' = nextPid s"
    "sems s' = sems s" "timers s' = timers s" "jiffies s' = jiffies s" "hz s' = hz s"
    "readyQueue s' = readyQueue s"
    "current s = Some me \<Longrightarrow> procs s me = Some P \<Longrightarrow> \<exists>P'. procs s' me = Some P'
          \<and> konts P' = konts P \<and> isKilled P' = isKilled P \<and> killCode P' = killCode P"
  using assms by (auto simp: mekept_def)

lemma mekept_refl [simp]: "mekept s s"
  by (simp add: mekept_def)

lemma mekept_trans: "mekept s s' \<Longrightarrow> mekept s' s'' \<Longrightarrow> mekept s s''"
  unfolding mekept_def by metis

lemma same_mekept: "same s s' \<Longrightarrow> mekept s s'"
proof -
  assume a: "same s s'"
  have "\<exists>P'. procs s' p = Some P' \<and> konts P' = konts P \<and> isKilled P' = isKilled P
    \<and> killCode P' = killCode P" if "procs s p = Some P" for p P
    using same_procs [OF a that] by force
  with sameD [OF a] show ?thesis by (simp add: mekept_def)
qed

lemma reap_inv:
  assumes "sched_inv False d i s w" "no_limbo w" "d \<le> 8" "length (reaperQueue s) < fuel"
  shows "\<exists>s' w'. reap_loop fuel s = Inr s' \<and> sched_inv False d i s' w' \<and> no_limbo w'
    \<and> reaperQueue s' = [] \<and> mekept s s'"
  using assms
proof (induction fuel arbitrary: s w)
  case 0
  then show ?case by simp
next
  case (Suc fuel)
  have inv1: "sched_inv False (Suc d) i (disable s) w" using disable_inv [OF Suc.prems(1)] Suc.prems(3) by simp
  show ?case
  proof (cases "reaperQueue s")
    case Nil
    from enable_inv [OF inv1] obtain s' where s': "enable (disable s) = Inr s'" "sched_inv False d i s' w"
      "same (disable s) s'" by blast
    have "mekept s s'" using same_mekept same_trans [OF same_disable s'(3)] by blast
    then show ?thesis using Nil s' Suc.prems(2) sameD(4) [OF s'(3)]
      by (intro exI [of _ s'] exI [of _ w]) simp
  next
    case (Cons p ps)
    have "reaperQueue (disable s) = p # ps" using Cons by simp
    note pop = pop_reaper_inv [OF inv1 this]
    from enable_inv [OF pop(1)] obtain s2 where s2: "enable ((disable s)\<lparr>reaperQueue := ps\<rparr>) = Inr s2"
      "sched_inv False d i s2 (w(p \<mapsto> Zombie))" "same ((disable s)\<lparr>reaperQueue := ps\<rparr>) s2" by blast
    have "(w(p \<mapsto> Zombie)) p = Some Zombie" by simp
    from unref_zombie_inv [OF s2(2) this] obtain s3 w3 where s3: "unref_proc p s2 = Inr s3"
      "sched_inv False d i s3 w3" "\<forall>q. q \<noteq> p \<longrightarrow> w3 q = (w(p \<mapsto> Zombie)) q" "w3 p \<in> {None, Some Zombie}"
      "\<forall>q. q \<noteq> p \<longrightarrow> procs s3 q = procs s2 q" "s3\<lparr>procs := procs s2\<rparr> = s2" by blast
    have nl: "no_limbo w3" using Suc.prems(2) s3(3,4) unfolding no_limbo_def by (metis fun_upd_other insert_iff empty_iff option.discI option.inject place.distinct(41))
    have f: "current s3 = current s2" "nextPid s3 = nextPid s2" "readyQueue s3 = readyQueue s2"
      "reaperQueue s3 = reaperQueue s2" "idleProcess s3 = idleProcess s2" "sems s3 = sems s2"
      "timers s3 = timers s2" "jiffies s3 = jiffies s2" "hz s3 = hz s2"
      by (subst s3(6) [symmetric], simp)+
    have nc: "current s2 \<noteq> Some p" using run_okD_cur [OF sched_invD(2) [OF s2(2)], of p] by auto
    have "reaperQueue s3 = ps" using f(4) sameD(4) [OF s2(3)] by simp
    then have "length (reaperQueue s3) < fuel" using Suc.prems(4) Cons by simp
    from Suc.IH [OF s3(2) nl Suc.prems(3) this] obtain s' w' where s': "reap_loop fuel s3 = Inr s'"
      "sched_inv False d i s' w'" "no_limbo w'" "reaperQueue s' = []" "mekept s3 s'" by blast
    have "mekept s ((disable s)\<lparr>reaperQueue := ps\<rparr>)"
      by (auto simp: mekept_def disable_procs)
    moreover have "mekept s2 s3" using f nc s3(5) unfolding mekept_def by metis
    ultimately have "mekept s s'" using same_mekept [OF s2(3)] s'(5) mekept_trans by blast
    then show ?thesis using Cons s2(1) s3(1) s'
      by (intro exI [of _ s'] exI [of _ w']) (simp add: Let_def)
  qed
qed

lemma checkReaper_inv:
  assumes "sched_inv False d i s w" "no_limbo w" "d \<le> 8"
  shows "\<exists>s' w'. checkReaper s = Inr s' \<and> sched_inv False d i s' w' \<and> no_limbo w'
    \<and> reaperQueue s' = [] \<and> mekept s s'"
  unfolding checkReaper_def by (rule reap_inv [OF assms lessI])

section \<open>Exit and kill\<close>

lemma die_inv:
  assumes inv: "sched_inv False d i s w" and c: "current s = Some p" "idleProcess s \<noteq> Some p" "\<not> ints_on s"
    and s': "s' = (upd_proc p (\<lambda>P. P\<lparr>p_state := TERMINATED, konts := []\<rparr>) (s\<lparr>reaperQueue := reaperQueue s @ [p]\<rparr>))\<lparr>current := None\<rparr>"
  shows "sched_inv False 0 0 s' (w(p \<mapsto> Dead))"
proof (rule sched_invI)
  note I = sched_invD [OF inv]
  let ?w = "w(p \<mapsto> Dead)"
  obtain P x where P: "procs s p = Some P" "w p = Some x" "proc_ok d i x P" "x \<noteq> Dead" "x \<noteq> Zombie"
    using current_proc [OF inv c(1)] .
  have x: "w p = Some Running" using run_okD(1) [OF I(2) c(1)] by simp
  have procs: "procs s' = (procs s)(p \<mapsto> P\<lparr>p_state := TERMINATED, konts := []\<rparr>)" using P(1) by (auto simp: s' fun_eq_iff)
  have f: "current s' = None" "nextPid s' = nextPid s" "idleProcess s' = idleProcess s"
    "sems s' = sems s" "timers s' = timers s" "jiffies s' = jiffies s" "reaperQueue s' = reaperQueue s @ [p]"
    "activeSpace s' = activeSpace s" "kernelStack s' = kernelStack s" "ints_on s' = ints_on s"
    "readyQueue s' = readyQueue s"
    by (simp_all add: s')
  have "\<exists>x. ?w q = Some x \<and> proc_ok 0 0 x Q" if "procs s' q = Some Q" for q Q
  proof (cases "q = p")
    case True
    then show ?thesis using that P(3) unfolding procs by (auto simp: proc_ok_def)
  next
    case False
    then have "procs s q = Some Q" using that unfolding procs by simp
    from procs_okD [OF I(1) this] show ?thesis using False c by auto
  qed
  then show "procs_ok 0 0 s' ?w" using I(1) P unfolding procs_ok_def f procs by auto
  show "run_ok False s' ?w"
    unfolding run_ok_def ints_ok_def f
  proof (intro conjI allI impI)
    fix q assume "?w q = Some Running"
    then have "q \<noteq> p" "w q = Some Running" by (auto split: if_splits)
    with run_okD(2) [OF I(2) this(2)] c(1) show "\<not> False" "None = Some q" by auto
  qed (use c(3) in simp_all)
  show "queues_ok s' ?w" using I(3) x unfolding queues_ok_def f by auto
  show "idle_ok s' ?w" using c(2) P(1) by (intro idle_ok_move idle_ok_cong [OF I(4)]) (auto simp: f procs)
  show "sems_ok s' ?w" using x by (intro sems_ok_move sems_ok_cong [OF I(5)]) (auto simp: f)
  show "timers_ok s' ?w" using x by (intro timers_ok_move timers_ok_cong [OF I(6)]) (auto simp: f)
qed

definition good :: "(fault + sched) \<Rightarrow> bool" where
  "good r \<longleftrightarrow> (\<exists>s w. r = Inr s \<and> sched_inv False 0 0 s w \<and> no_limbo w \<and> current s \<noteq> None)"

lemma goodI: "sched_inv False 0 0 s w \<Longrightarrow> no_limbo w \<Longrightarrow> current s \<noteq> None \<Longrightarrow> good (Inr s)"
  by (auto simp: good_def)

lemma good_enable:
  assumes "sched_inv False 1 0 s w" "no_limbo w" "current s \<noteq> None"
  shows "good (enable s)"
proof -
  from enable_inv [of False 0 0 s w] assms(1) obtain s' where s': "enable s = Inr s'"
    "sched_inv False 0 0 s' w" "same s s'" by auto
  then show ?thesis using assms(2,3) sameD(2) [OF s'(3)] by (auto simp: good_def)
qed

lemma exit_inv:
  assumes inv: "sched_inv False 0 0 s w" and nl: "no_limbo w" and c: "current s \<noteq> None" "idleProcess s \<noteq> current s"
  shows "good (exit code s)"
proof -
  obtain p where p: "current s = Some p" using c(1) by blast
  let ?s0 = "upd_proc p (\<lambda>P. P\<lparr>exitCode := code\<rparr>) s"
  have i: "sched_inv False 0 0 ?s0 w" by (rule upd_proc_inv [OF inv]) (simp_all add: stacks_fit_def)
  have "sched_inv False 0 0 (push KExit ?s0) w" by (rule push_exit_inv [OF i]) (use c in simp)
  then show ?thesis using p nl by (simp add: exit_def goodI)
qed

lemma exit_rest_inv:
  assumes inv: "sched_inv False 0 0 s w" and nl: "no_limbo w"
    and c: "current s = Some p" "idleProcess s \<noteq> Some p"
  shows "good (exit_rest s)"
proof -
  from up_inv [OF inv nl, of "Done p"] obtain s1 w1 where s1: "up (Done p) s = Inr s1"
    "sched_inv False 0 0 s1 w1" "no_limbo w1" "kept s s1" by auto
  have k: "current s1 = Some p" "idleProcess s1 \<noteq> Some p" using keptD(1,2) [OF s1(4)] c by simp_all
  let ?s2 = "disable s1"
  let ?s4 = "(upd_proc p (\<lambda>P. P\<lparr>p_state := TERMINATED, konts := []\<rparr>) (?s2\<lparr>reaperQueue := reaperQueue ?s2 @ [p]\<rparr>))\<lparr>current := None\<rparr>"
  have "sched_inv False (Suc 0) 0 ?s2 w1" using disable_inv [OF s1(2)] by simp
  then have i4: "sched_inv False 0 0 ?s4 (w1(p \<mapsto> Dead))" by (rule die_inv) (use k in simp_all)
  have "no_limbo (w1(p \<mapsto> Dead))" using s1(3) by (intro no_limbo_upd) simp_all
  from yield_inv [OF i4 this, of None] have "good (yield None ?s4)"
    by (auto simp: roomy_def good_def)
  then show ?thesis using c(1) s1(1) by (simp add: exit_rest_def event_signal_def Let_def)
qed

lemma checkKilled_inv:
  assumes inv: "sched_inv False 0 0 s w" and nl: "no_limbo w"
    and rest: "\<And>s' w'. sched_inv False 0 0 s' w' \<Longrightarrow> no_limbo w' \<Longrightarrow> mekept s s' \<Longrightarrow> good (rest s')"
  shows "good (checkKilled rest s)"
proof -
  from checkReaper_inv [OF inv nl] obtain s1 w1 where s1: "checkReaper s = Inr s1"
    "sched_inv False 0 0 s1 w1" "no_limbo w1" "mekept s s1" by auto
  have r: "good (rest s1)" using rest s1 by blast
  show ?thesis
  proof (cases "current s1")
    case None
    then show ?thesis using r s1(1) by (simp add: checkKilled_def)
  next
    case (Some me)
    obtain P x where P: "procs s1 me = Some P" using current_proc [OF s1(2) Some] by blast
    have "idleProcess s1 \<noteq> Some me" if "isKilled P"
      using idle_okD(2) [OF sched_invD(4) [OF s1(2)], of me] P that by auto
    then show ?thesis using exit_inv [OF s1(2,3)] r s1(1) Some P
      by (simp add: checkKilled_def get_proc_def)
  qed
qed

lemma kill_inv:
  assumes inv: "sched_inv False 0 0 s w" and nl: "no_limbo w" and p: "idleProcess s \<noteq> Some p"
    and c: "current s \<noteq> None"
  shows "good (kill p code s)"
proof -
  let ?s1 = "upd_proc p (\<lambda>P. if isKilled P then P else P\<lparr>isKilled := True, killCode := code\<rparr>) (disable s)"
  have "sched_inv False (Suc 0) 0 ?s1 w"
    using p by (intro upd_proc_inv disable_inv [OF inv]) (auto simp: stacks_fit_def)
  from enable_inv [OF this] obtain s2 where s2: "enable ?s1 = Inr s2" "sched_inv False 0 0 s2 w"
    "same ?s1 s2" by blast
  have "current s2 \<noteq> None" using c sameD(2) [OF s2(3)] by simp
  then have "good (checkKilled Inr s2)"
    by (intro checkKilled_inv [OF s2(2) nl] goodI) (simp_all add: mekeptD(1))
  then show ?thesis using s2(1) by (simp add: kill_def)
qed

end
