(* ===== verification/Scheduler_System.thy ===== *)
theory Scheduler_System
  imports Scheduler_Invariant
begin

text \<open>
  The scheduler as a system: the timers and interrupts keep the invariant of
  \<open>Scheduler_Invariant\<close>, the boot sequence of \<^verbatim>\<open>kernelMain\<close> establishes it, and so it holds
  after every sequence of operations the kernel can perform, none of which panics.
\<close>

section \<open>Resuming a process\<close>

lemma pop_inv:
  assumes inv: "sched_inv False 0 0 s w" and me: "current s = Some me" "procs s me = Some P"
    and k: "konts P = k # ks"
  shows "sched_inv False (kweight [k]) (kirqs [k]) (upd_proc me (\<lambda>P. P\<lparr>konts := ks\<rparr>) s) w"
proof -
  note I = sched_invD [OF inv]
  let ?s = "upd_proc me (\<lambda>P. P\<lparr>konts := ks\<rparr>) s"
  obtain x where P: "w me = Some x" "proc_ok 0 0 x P" "x \<noteq> Dead" "x \<noteq> Zombie"
    using current_proc [OF inv me(1)] me(2) by force
  have procs: "procs ?s = (procs s)(me \<mapsto> P\<lparr>konts := ks\<rparr>)" using me(2) by (auto simp: fun_eq_iff)
  have pok: "proc_ok (kweight [k]) (kirqs [k]) x (P\<lparr>konts := ks\<rparr>)"
    using P(2-4) k by (auto simp: proc_ok_def)
  show ?thesis
  proof (rule sched_invI)
    show "procs_ok (kweight [k]) (kirqs [k]) ?s w"
      using P me procs by (intro procs_ok_me [OF I(1) me(1) _ _ _ procs pok]) auto
    have "ints_on s \<longleftrightarrow> (\<exists>p P. current s = Some p \<and> procs s p = Some P \<and> disableCount P = 0)"
      using run_ok_ints [OF I(2)] unfolding ints_ok_def .
    also have "\<dots> \<longleftrightarrow> (\<exists>p P. current s = Some p \<and> procs ?s p = Some P \<and> disableCount P = 0)"
      unfolding procs using me by auto
    finally show "run_ok False ?s w"
      using me(2) by (intro run_ok_cong [OF I(2)]) simp_all
    show "idle_ok ?s w" using me(2) k by (intro idle_ok_cong [OF I(4)]) auto
  qed (intro queues_ok_cong [OF I(3)] sems_ok_cong [OF I(5)] timers_ok_cong [OF I(6)]; simp)+
qed

lemma pop_fields [simp]:
  "nextPid (pop s) = nextPid s" "current (pop s) = current s"
  "readyQueue (pop s) = readyQueue s" "reaperQueue (pop s) = reaperQueue s"
  "idleProcess (pop s) = idleProcess s" "sems (pop s) = sems s"
  "timers (pop s) = timers s" "jiffies (pop s) = jiffies s" "hz (pop s) = hz s"
  by (simp_all add: pop_def split: option.splits)

lemma pop_eq:
  "current s = Some me \<Longrightarrow> procs s me = Some P \<Longrightarrow> konts P = k # ks \<Longrightarrow> pop s = upd_proc me (\<lambda>P. P\<lparr>konts := ks\<rparr>) s"
  by (auto simp: pop_def upd_proc_def fun_eq_iff)

text \<open>A process that was not killed goes on with the call it was suspended in.\<close>

lemma resumed_inv:
  assumes inv: "sched_inv False 0 0 s w" and nl: "no_limbo w" and me: "current s = Some me" "procs s me = Some P"
    and k: "konts P = k # ks"
    and rest: "\<And>s' w'. sched_inv False (kweight [k]) (kirqs [k]) s' w' \<Longrightarrow> no_limbo w' \<Longrightarrow> current s' \<noteq> None \<Longrightarrow> good (rest s')"
  shows "good (checkKilled (\<lambda>s. rest (pop s)) s)"
proof (rule checkKilled_inv [OF inv nl])
  fix s' w' assume a: "sched_inv False 0 0 s' w'" "no_limbo w'" "mekept s s'"
  have c: "current s' = Some me" using mekeptD(1) [OF a(3)] me(1) by simp
  obtain P' where P': "procs s' me = Some P'" "konts P' = k # ks" using mekeptD(9) [OF a(3) me] k by auto
  have "sched_inv False (kweight [k]) (kirqs [k]) (pop s') w'"
    using pop_inv [OF a(1) c P'] unfolding pop_eq [OF c P'] .
  then show "good (rest (pop s'))" using rest a(2) c by simp
qed

lemma endIrq_inv:
  assumes inv: "sched_inv False 1 1 s w" and me: "current s = Some me" "procs s me = Some P"
    and k: "kweight (konts P) = 0"
  shows "\<exists>s'. endIrq s = Inr s' \<and> sched_inv False 0 0 (s'\<lparr>ints_on := True\<rparr>) w"
proof -
  note I = sched_invD [OF inv]
  obtain x where P: "w me = Some x" "proc_ok 1 1 x P" "x \<noteq> Dead" "x \<noteq> Zombie"
    using current_proc [OF inv me(1)] me(2) by force
  then have "unat (disableCount P) = 1" "unat (iDepth P) = kirqs (konts P) + 1"
    using k by (auto simp: proc_ok_def)
  then have dc: "disableCount P = 1" "iDepth P \<noteq> 0" by (auto simp: word_unat_eq_iff)
  let ?f = "\<lambda>P. P\<lparr>iDepth := iDepth P - 1, disableCount := 0 :: u32\<rparr>"
  let ?s = "(upd_proc me ?f s)\<lparr>ints_on := True\<rparr>"
  have e: "endIrq s = Inr (upd_proc me ?f s)"
    using me dc by (simp add: endIrq_def get_proc_def)
  have procs: "procs ?s = (procs s)(me \<mapsto> ?f P)" using me(2) by (auto simp: fun_eq_iff)
  have "unat (iDepth P - 1) = unat (iDepth P) - 1" using dc(2) by (simp add: unat_minus_one)
  then have pok: "proc_ok 0 0 x (?f P)" using P(2-4) k by (auto simp: proc_ok_def)
  have "sched_inv False 0 0 ?s w"
  proof (rule sched_invI)
    show "procs_ok 0 0 ?s w"
      using P me procs by (intro procs_ok_me [OF I(1) me(1) _ _ _ procs pok]) auto
    show "run_ok False ?s w"
      using me by (intro run_ok_cong [OF I(2)]) (simp_all add: procs)
    show "idle_ok ?s w" using me(2) by (intro idle_ok_cong [OF I(4)]) auto
  qed (intro queues_ok_cong [OF I(3)] sems_ok_cong [OF I(5)] timers_ok_cong [OF I(6)]; simp)+
  with e show ?thesis by blast
qed

lemma exec_kont_inv:
  assumes inv: "sched_inv False 0 0 s w" and nl: "no_limbo w" and me: "current s = Some me"
  shows "good (exec_kont s)"
proof -
  obtain P x where P: "procs s me = Some P" "proc_ok 0 0 x P" "x \<noteq> Dead" "x \<noteq> Zombie"
    using current_proc [OF inv me] by blast
  show ?thesis
  proof (cases "konts P")
    case Nil
    then show ?thesis using me P(1) goodI [OF inv nl] by (simp add: exec_kont_def get_proc_def)
  next
    case (Cons k ks)
    let ?s = "pop s"
    have i: "sched_inv False (kweight [k]) (kirqs [k]) ?s w"
      using pop_inv [OF inv me P(1) Cons] unfolding pop_eq [OF me P(1) Cons] .
    have pp: "procs ?s me = Some (P\<lparr>konts := ks\<rparr>)" using me P(1) pop_eq [OF me P(1) Cons] by simp
    have e: "exec_kont s = (case k of
                   KYield \<Rightarrow> checkKilled (\<lambda>s. enable (pop s)) s
                 | KEnable \<Rightarrow> enable ?s
                 | KEndIrq \<Rightarrow> bindE (endIrq ?s) (\<lambda>s2. Inr (s2\<lparr>ints_on := True\<rparr>))
                 | KUp i \<Rightarrow> up i ?s
                 | KExit \<Rightarrow> exit_rest s
                 | KEntry \<Rightarrow> checkKilled (\<lambda>s. Inr (pop s)) s)"
      using me P(1) Cons by (simp add: exec_kont_def get_proc_def Let_def)
    have c: "current ?s \<noteq> None" using me by simp
    show ?thesis
    proof (cases k)
      case KYield
      have "good (checkKilled (\<lambda>s. enable (pop s)) s)"
        by (rule resumed_inv [OF inv nl me P(1) Cons]) (use KYield good_enable in simp)
      then show ?thesis using e KYield by simp
    next
      case KEnable
      then show ?thesis using e good_enable [OF _ nl c] i by simp
    next
      case KEndIrq
      have "kweight ks = 0" using P(2-4) Cons KEndIrq by (simp add: proc_ok_def)
      then have "kweight (konts (P\<lparr>konts := ks\<rparr>)) = 0" by simp
      from endIrq_inv [OF _ _ pp this, of w] i KEndIrq me
      obtain s' where s': "endIrq ?s = Inr s'" "sched_inv False 0 0 (s'\<lparr>ints_on := True\<rparr>) w" by auto
      have "current s' = current ?s"
        using s'(1) by (auto simp: endIrq_def get_proc_def split: option.splits if_splits)
      then show ?thesis using nl e KEndIrq s' me by (auto simp: good_def)
    next
      case (KUp j)
      from up_inv [OF _ nl, of 0 0 ?s j] i KUp obtain s' w' where s': "up j ?s = Inr s'"
        "sched_inv False 0 0 s' w'" "no_limbo w'" "kept ?s s'" by auto
      then show ?thesis using e KUp c keptD(1) [OF s'(4)] by (auto simp: good_def)
    next
      case KExit
      have "idleProcess s \<noteq> Some me"
        using idle_okD(2) [OF sched_invD(4) [OF inv], of me] P(1) Cons KExit by auto
      then show ?thesis using exit_rest_inv [OF inv nl me] e KExit by simp
    next
      case KEntry
      have "good (checkKilled (\<lambda>s. Inr (pop s)) s)"
        by (rule resumed_inv [OF inv nl me P(1) Cons]) (use KEntry goodI in simp)
      then show ?thesis using e KEntry by simp
    qed
  qed
qed

section \<open>Timers\<close>

lemma add_timer_targets: "target ` set (add_timer t Ts) = insert t (target ` set Ts)"
  by (induction Ts) auto

lemma add_timer_sorted:
  "sorted_wrt (\<lambda>S T. target S < target T) Ts \<Longrightarrow> sorted_wrt (\<lambda>S T. target S < target T) (add_timer t Ts)"
proof (induction Ts)
  case (Cons T Ts)
  have sorted: "sorted_wrt (\<lambda>S T. target S < target T) (add_timer t Ts)"
    using Cons by simp
  have later: "\<forall>S \<in> set Ts. target T < target S" using Cons.prems by simp
  consider "target T = t" | "t < target T" | "target T < t" by (rule linorder_cases)
  then show ?case
  proof cases
    case 1
    then show ?thesis using Cons.prems by simp
  next
    case 2
    then show ?thesis using Cons.prems by (auto intro: less_trans)
  next
    case 3
    have "target T < u" if "u \<in> target ` set (add_timer t Ts)" for u
      using that later 3 unfolding add_timer_targets by auto
    then have "\<forall>S \<in> set (add_timer t Ts). target T < target S" by blast
    moreover have "\<not> t < target T" "target T \<noteq> t" using 3 by auto
    then have "add_timer t (T # Ts) = T # add_timer t Ts" by simp
    ultimately show ?thesis using sorted by simp
  qed
qed simp

lemma add_timer_new:
  assumes "sorted_wrt (\<lambda>S T. target S < target T) Ts" "T \<in> set (add_timer t Ts)"
  shows "T \<in> set Ts \<or> T = \<lparr>target = t, sleepers = []\<rparr> \<and> t \<notin> target ` set Ts"
  using assms
proof (induction Ts)
  case (Cons S Ts)
  then show ?case by (fastforce split: if_splits)
qed simp

lemma add_timer_inv:
  assumes inv: "sched_inv b d i s w" and t: "jiffies s < t"
  shows "sched_inv b d i (s\<lparr>timers := add_timer t (timers s)\<rparr>) w"
proof -
  note I = sched_invD [OF inv]
  note A = I(6) [unfolded timers_ok_def]
  let ?s = "s\<lparr>timers := add_timer t (timers s)\<rparr>"
  have sorted: "sorted_wrt (\<lambda>S T. target S < target T) (timers s)" using A by blast
  have none: "w p \<noteq> Some (Waits (OnTimer t))" if "t \<notin> target ` set (timers s)" for p
    using A that by blast
  have "jiffies s < target T \<and> distinct (sleepers T) \<and> (\<forall>p. p \<in> set (sleepers T) \<longleftrightarrow> w p = Some (Waits (OnTimer (target T))))"
    if T: "T \<in> set (add_timer t (timers s))" for T
  proof (cases "T \<in> set (timers s)")
    case True
    then show ?thesis using A by blast
  next
    case False
    then have "T = \<lparr>target = t, sleepers = []\<rparr>" "t \<notin> target ` set (timers s)"
      using add_timer_new [OF sorted T] by blast+
    then show ?thesis using t none by simp
  qed
  moreover have "u \<in> target ` set (timers ?s)" if "w p = Some (Waits (OnTimer u))" for p u
    using A that add_timer_targets [of t "timers s"] by auto
  ultimately have "timers_ok ?s w"
    using add_timer_sorted [OF sorted] unfolding timers_ok_def by simp
  moreover have "run_ok b ?s w"
    using run_ok_ints [OF I(2)] by (intro run_ok_cong [OF I(2)]) (simp_all add: ints_ok_def)
  moreover have "procs_ok d i ?s w" using I(1) by (simp add: procs_ok_def)
  moreover have "idle_ok ?s w" by (rule idle_ok_cong [OF I(4)]) auto
  ultimately show ?thesis
    by (intro sched_invI queues_ok_cong [OF I(3)] sems_ok_cong [OF I(5)]) simp_all
qed

lemma sleepUntil_inv:
  assumes inv: "sched_inv False 0 0 s w" and nl: "no_limbo w" and room: "roomy 2 s"
    and me: "current s = Some me" "procs s me = Some P" "idleProcess s \<noteq> Some me" "kirqs (konts P) = 0"
  shows "good (sleepUntil second s)"
proof -
  let ?s1 = "disable s" and ?t = "second * hz s"
  have inv1: "sched_inv False 1 0 ?s1 w" using disable_inv [OF inv] by simp
  show ?thesis
  proof (cases "jiffies s < ?t")
    case True
    let ?s2 = "?s1\<lparr>timers := add_timer ?t (timers ?s1)\<rparr>"
    let ?s3 = "push KEnable ?s2"
    have "sched_inv False 1 0 ?s2 w" using True by (intro add_timer_inv [OF inv1]) simp
    then have inv3: "sched_inv False 0 0 ?s3 w"
      using room by (intro push_inv) (auto simp: roomy_def disable_procs)
    have r3: "roomy 3 ?s3" using room me(1,2) by (auto simp: roomy_def push_procs disable_procs)
    have "may_wait (OnTimer ?t) ?s3" by (simp add: may_wait_def add_timer_targets)
    moreover have "procs ?s3 me = Some (P\<lparr>disableCount := disableCount P + 1, konts := KEnable # konts P\<rparr>)"
      using me(1,2) by (simp add: push_procs disable_procs)
    ultimately have "good (yield (Some (OnTimer ?t)) ?s3)"
      using yield_inv [OF inv3 nl r3, of "Some (OnTimer ?t)"] me by (auto simp: good_def)
    then show ?thesis using True by (simp add: sleepUntil_def Let_def)
  next
    case False
    then show ?thesis using good_enable [OF inv1 nl] me(1)
      by (simp add: sleepUntil_def Let_def)
  qed
qed


text \<open>Waking the sleepers of a timer: they go to the end of the ready queue in their order.\<close>

definition readied :: "pid set \<Rightarrow> (pid \<Rightarrow> place option) \<Rightarrow> pid \<Rightarrow> place option" where
  "readied A w p = (if p \<in> A then Some Ready else w p)"

lemma makeReady_queue:
  assumes "sched_inv b d i s w" "d \<le> 10" "makeReady p s = Inr s'" "w p = Some Limbo"
    "current s \<noteq> Some p" "idleProcess s \<noteq> Some p"
  shows "readyQueue s' = readyQueue s @ [p]"
proof -
  let ?s2 = "upd_proc p (\<lambda>P. P\<lparr>p_state := READY\<rparr>) (disable s)"
  have e: "enable (?s2\<lparr>readyQueue := readyQueue (disable s) @ [p]\<rparr>) = Inr s'"
    using assms(3,6) by (auto simp: makeReady_def Let_def)
  have "sched_inv b (Suc d) i (?s2\<lparr>readyQueue := readyQueue (disable s) @ [p]\<rparr>) (w(p \<mapsto> if Some p = idleProcess (disable s) then Idle else Ready))"
    using assms(5,6) by (intro ready_inv [OF disable_inv [OF assms(1,2)] assms(4)]) auto
  from enable_inv [OF this] e sameD(3) show ?thesis by fastforce
qed

lemma wake_all_inv:
  assumes "sched_inv False d i s w" "d \<le> 10" "\<And>p. w p = Some Limbo \<longleftrightarrow> p \<in> set ps" "distinct ps"
    "\<And>p. p \<in> set ps \<Longrightarrow> current s \<noteq> Some p \<and> idleProcess s \<noteq> Some p"
  shows "\<exists>s'. wake_all ps s = Inr s' \<and> sched_inv False d i s' (readied (set ps) w)
    \<and> no_limbo (readied (set ps) w) \<and> kept s s' \<and> timers s' = timers s \<and> sems s' = sems s
    \<and> readyQueue s' = readyQueue s @ ps"
  using assms
proof (induction ps arbitrary: s w)
  case Nil
  then have "readied {} w = w" "no_limbo w" by (auto simp: readied_def no_limbo_def)
  with Nil show ?case by simp
next
  case (Cons p ps)
  have p: "w p = Some Limbo" "current s \<noteq> Some p" "idleProcess s \<noteq> Some p" using Cons.prems by simp_all
  from makeReady_inv [OF Cons.prems(1,2) p(1), of False] p
  obtain s1 where s1: "makeReady p s = Inr s1" "sched_inv False d i s1 (w(p \<mapsto> Ready))" "kept s s1"
    "sems s1 = sems s" "timers s1 = timers s" by auto
  note rq = makeReady_queue [OF Cons.prems(1,2) s1(1) p]
  have l: "(w(p \<mapsto> Ready)) q = Some Limbo \<longleftrightarrow> q \<in> set ps" for q
    using Cons.prems(3) [of q] Cons.prems(4) by auto
  have f: "current s1 \<noteq> Some q \<and> idleProcess s1 \<noteq> Some q" if "q \<in> set ps" for q
    using Cons.prems(5) [of q] that keptD(1,2) [OF s1(3)] by simp
  have "readied (set ps) (w(p \<mapsto> Ready)) = readied (set (p # ps)) w"
    by (auto simp: readied_def fun_eq_iff)
  moreover have "distinct ps" using Cons.prems(4) by simp
  ultimately obtain s' where s': "wake_all ps s1 = Inr s'" "sched_inv False d i s' (readied (set (p # ps)) w)"
    "no_limbo (readied (set (p # ps)) w)" "kept s1 s'" "timers s' = timers s1" "sems s' = sems s1"
    "readyQueue s' = readyQueue s1 @ ps"
    using Cons.IH [OF s1(2) Cons.prems(2) l _ f] by metis
  have "wake_all (p # ps) s = Inr s'" using s1(1) s'(1) by simp
  then show ?case using s' s1(4,5) rq kept_trans [OF s1(3) s'(4)] by (intro exI [of _ s']) simp
qed

text \<open>Taking the first timer out.\<close>

lemma pop_timer_inv:
  assumes inv: "sched_inv False d i s w" and T: "timers s = T # Ts"
    and s': "s' = s\<lparr>timers := Ts, jiffies := target T\<rparr>"
  shows "sched_inv False d i s' (freed (set (sleepers T)) w)"
proof -
  note I = sched_invD [OF inv]
  note A = I(6) [unfolded timers_ok_def T]
  have sl: "p \<in> set (sleepers T) \<longleftrightarrow> w p = Some (Waits (OnTimer (target T)))" for p using A by simp
  have later: "target T < target S" if "S \<in> set Ts" for S using A that by simp
  have fr: "freed (set (sleepers T)) w p = Some (Waits (OnTimer t)) \<longleftrightarrow> w p = Some (Waits (OnTimer t)) \<and> t \<noteq> target T" for p t
    using sl by auto
  show ?thesis
  proof (rule freed_inv [OF inv])
    show "\<exists>q. w p = Some (Waits q)" if "p \<in> set (sleepers T)" for p using that sl by blast
    have "freed (set (sleepers T)) w p = Some (Waits (OnSem j)) \<longleftrightarrow> w p = Some (Waits (OnSem j))" for p j
      using sl by auto
    then show "sems_ok s' (freed (set (sleepers T)) w)"
      using I(5) unfolding sems_ok_def s' by simp
    show "timers_ok s' (freed (set (sleepers T)) w)"
      unfolding timers_ok_def fr
    proof (intro conjI ballI allI impI)
      show "sorted_wrt (\<lambda>S T. target S < target T) (timers s')" using A by (simp add: s')
    next
      fix S assume S: "S \<in> set (timers s')"
      then have S': "S \<in> set Ts" by (simp add: s')
      show "jiffies s' < target S" using later [OF S'] by (simp add: s')
      show "distinct (sleepers S)" using A S' by simp
      show "p \<in> set (sleepers S) \<longleftrightarrow> w p = Some (Waits (OnTimer (target S))) \<and> target S \<noteq> target T" for p
        using A S' later [OF S'] by auto
    next
      fix p t assume "w p = Some (Waits (OnTimer t)) \<and> t \<noteq> target T"
      then show "t \<in> target ` set (timers s')" using A by (auto simp: s')
    qed
  qed (simp_all add: s')
qed

lemma succ_u32: "(j :: u32) < t \<Longrightarrow> j + 1 \<le> t \<and> (j + 1 = t \<or> j + 1 < t)"
  using inc_le [of j t] by (auto simp: less_le)

text \<open>
  The tick from \<open>j\<close> to \<open>j + 1\<close>: the sleepers of a timer that is due go to the ready queue, all
  other processes stay where they are.
\<close>

definition due :: "sched \<Rightarrow> pid list" where
  "due s = (case timers s of [] \<Rightarrow> [] | T # Ts \<Rightarrow> if target T = jiffies s + 1 then sleepers T else [])"

lemma jiffies_inv:
  assumes inv: "sched_inv b d i s w" and t: "\<And>T. T \<in> set (timers s) \<Longrightarrow> j < target T"
  shows "sched_inv b d i (s\<lparr>jiffies := j\<rparr>) w"
proof -
  note I = sched_invD [OF inv]
  let ?s = "s\<lparr>jiffies := j\<rparr>"
  have "timers_ok ?s w" using I(6) t unfolding timers_ok_def by simp
  moreover have "run_ok b ?s w"
    using run_ok_ints [OF I(2)] by (intro run_ok_cong [OF I(2)]) (simp_all add: ints_ok_def)
  moreover have "procs_ok d i ?s w" using I(1) by (simp add: procs_ok_def)
  moreover have "idle_ok ?s w" by (rule idle_ok_cong [OF I(4)]) auto
  ultimately show ?thesis
    by (intro sched_invI queues_ok_cong [OF I(3)] sems_ok_cong [OF I(5)]) simp_all
qed

lemma idleJiffies_inv: "sched_inv b d i s w \<Longrightarrow> sched_inv b d i (s\<lparr>idleJiffies := n\<rparr>) w"
proof -
  assume inv: "sched_inv b d i s w"
  note I = sched_invD [OF inv]
  let ?s = "s\<lparr>idleJiffies := n\<rparr>"
  have "run_ok b ?s w"
    using run_ok_ints [OF I(2)] by (intro run_ok_cong [OF I(2)]) (simp_all add: ints_ok_def)
  moreover have "procs_ok d i ?s w" using I(1) by (simp add: procs_ok_def)
  moreover have "idle_ok ?s w" by (rule idle_ok_cong [OF I(4)]) auto
  ultimately show ?thesis
    by (intro sched_invI queues_ok_cong [OF I(3)] sems_ok_cong [OF I(5)] timers_ok_cong [OF I(6)]) simp_all
qed


lemma kept_jiffies:
  assumes "kept s1 s2" "s1 = s\<lparr>jiffies := j, timers := Ts, idleJiffies := n\<rparr>"
  shows "current s2 = current s" "idleProcess s2 = idleProcess s" "nextPid s2 = nextPid s"
    "jiffies s2 = j" "hz s2 = hz s" "reaperQueue s2 = reaperQueue s"
    "procs s p = Some P \<Longrightarrow> \<exists>P'. procs s2 p = Some P' \<and> konts P' = konts P"
proof -
  show "current s2 = current s" "idleProcess s2 = idleProcess s" "nextPid s2 = nextPid s"
    "jiffies s2 = j" "hz s2 = hz s" "reaperQueue s2 = reaperQueue s"
    using keptD(1-6) [OF assms(1)] assms(2) by simp_all
  assume "procs s p = Some P"
  then have "procs s1 p = Some P" using assms(2) by simp
  from keptD(7) [OF assms(1) this] show "\<exists>P'. procs s2 p = Some P' \<and> konts P' = konts P" by blast
qed

lemma disable_jiffies: "disable (s\<lparr>jiffies := j\<rparr>) = (disable s)\<lparr>jiffies := j\<rparr>"
  by (auto simp: disable_def Let_def upd_proc_def split: option.splits)

lemma jiffies_idle: "(s :: sched)\<lparr>jiffies := j, idleJiffies := n\<rparr> = s\<lparr>idleJiffies := n, jiffies := j\<rparr>"
  by simp

lemma pit_handler_inv:
  assumes inv: "sched_inv False d i s w" and nl: "no_limbo w" and d: "d \<le> 9"
  shows "\<exists>s'. pit_handler s = Inr s' \<and> sched_inv False d i s' (readied (set (due s)) w)
    \<and> no_limbo (readied (set (due s)) w) \<and> jiffies s' = jiffies s + 1
    \<and> current s' = current s \<and> idleProcess s' = idleProcess s \<and> nextPid s' = nextPid s
    \<and> readyQueue s' = readyQueue s @ due s
    \<and> timers s' = filter (\<lambda>T. target T \<noteq> jiffies s + 1) (timers s)
    \<and> (\<forall>p P. procs s p = Some P \<longrightarrow> (\<exists>P'. procs s' p = Some P' \<and> konts P' = konts P))"
proof -
  let ?j = "jiffies s + 1"
  define n where "n = (if current s = idleProcess s then idleJiffies (disable s) + 1 else idleJiffies (disable s))"
  let ?d = "(disable s)\<lparr>idleJiffies := n\<rparr>"
  have invd: "sched_inv False (Suc d) i ?d w"
    using d by (intro idleJiffies_inv disable_inv [OF inv]) simp
  have h: "pit_handler s = bindE (case timers s of
                  [] \<Rightarrow> Inr (?d\<lparr>jiffies := ?j\<rparr>)
                | T # Ts \<Rightarrow> if ?j = target T then wake_all (sleepers T) (?d\<lparr>jiffies := ?j, timers := Ts\<rparr>)
                    else Inr (?d\<lparr>jiffies := ?j\<rparr>)) enable"
    by (auto simp: pit_handler_def tick_def Let_def disable_jiffies jiffies_idle n_def split: list.splits)
  note A = sched_invD(6) [OF inv, unfolded timers_ok_def]
  have after: "\<exists>s'. enable s2 = Inr s' \<and> sched_inv False d i s' (readied (set (due s)) w)
    \<and> no_limbo (readied (set (due s)) w) \<and> jiffies s' = jiffies s + 1
    \<and> current s' = current s \<and> idleProcess s' = idleProcess s \<and> nextPid s' = nextPid s
    \<and> readyQueue s' = readyQueue s @ due s
    \<and> timers s' = filter (\<lambda>T. target T \<noteq> jiffies s + 1) (timers s)
    \<and> (\<forall>p P. procs s p = Some P \<longrightarrow> (\<exists>P'. procs s' p = Some P' \<and> konts P' = konts P))"
    if i2: "sched_inv False (Suc d) i s2 (readied (set (due s)) w)" and l2: "no_limbo (readied (set (due s)) w)"
      and k: "kept s1 s2" "s1 = ?d\<lparr>jiffies := ?j, timers := Ts\<rparr>"
      and q: "readyQueue s2 = readyQueue s @ due s" "timers s2 = filter (\<lambda>T. target T \<noteq> jiffies s + 1) (timers s)"
    for s1 s2 Ts
  proof -
    from enable_inv [OF i2] obtain s' where s': "enable s2 = Inr s'"
      "sched_inv False d i s' (readied (set (due s)) w)" "same s2 s'" by blast
    have e: "s1 = (disable s)\<lparr>jiffies := ?j, timers := Ts, idleJiffies := n\<rparr>" using k(2) by simp
    note K = kept_jiffies [OF kept_trans [OF k(1) same_kept [OF s'(3)]] e]
    have "\<exists>P'. procs s' p = Some P' \<and> konts P' = konts P" if P: "procs s p = Some P" for p P
    proof -
      obtain Q where "procs (disable s) p = Some Q" "konts Q = konts P"
        using keptD(7) [OF same_kept [OF same_disable] P] by blast
      with K(7) show ?thesis by metis
    qed
    with s' l2 q sameD(3,7) [OF s'(3)] K show ?thesis by (intro exI [of _ s']) simp
  qed
  show ?thesis
  proof (cases "\<exists>T Ts. timers s = T # Ts \<and> target T = ?j")
    case False
    then have nd: "due s = []" unfolding due_def by (cases "timers s") simp_all
    have later: "?j < target T \<and> target T \<noteq> ?j" if "T \<in> set (timers s)" for T
    proof -
      obtain U Ts where U: "timers s = U # Ts" using \<open>T \<in> set (timers s)\<close> by (cases "timers s") auto
      have "?j < target U" using succ_u32 [of "jiffies s" "target U"] A U False by auto
      then show ?thesis using A U that by (auto intro: less_trans)
    qed
    then have ft: "filter (\<lambda>T. target T \<noteq> ?j) (timers s) = timers s" by (simp add: filter_id_conv)
    let ?s2 = "?d\<lparr>jiffies := ?j\<rparr>"
    have r: "readied {} w = w" by (auto simp: readied_def)
    have "sched_inv False (Suc d) i ?s2 w"
      using later by (intro jiffies_inv [OF invd]) simp
    moreover have "?s2 = ?d\<lparr>jiffies := ?j, timers := timers s\<rparr>" by simp
    ultimately have a: "\<exists>s'. enable ?s2 = Inr s' \<and> sched_inv False d i s' (readied (set (due s)) w)
      \<and> no_limbo (readied (set (due s)) w) \<and> jiffies s' = jiffies s + 1
      \<and> current s' = current s \<and> idleProcess s' = idleProcess s \<and> nextPid s' = nextPid s
      \<and> readyQueue s' = readyQueue s @ due s
      \<and> timers s' = filter (\<lambda>T. target T \<noteq> jiffies s + 1) (timers s)
      \<and> (\<forall>p P. procs s p = Some P \<longrightarrow> (\<exists>P'. procs s' p = Some P' \<and> konts P' = konts P))"
      using nd nl ft by (intro after [of ?s2 ?s2 "timers s"]) (simp_all add: r)
    have "pit_handler s = enable ?s2"
      unfolding h using later by (cases "timers s") fastforce+
    with a show ?thesis by simp
  next
    case True
    then obtain T Ts where T: "timers s = T # Ts" "target T = ?j" by blast
    then have due: "due s = sleepers T" by (simp add: due_def)
    let ?s1 = "?d\<lparr>jiffies := ?j, timers := Ts\<rparr>" and ?w1 = "freed (set (sleepers T)) w"
    have "?s1 = ?d\<lparr>timers := Ts, jiffies := target T\<rparr>" using T(2) by simp
    then have i1: "sched_inv False (Suc d) i ?s1 ?w1"
      using T(1) by (intro pop_timer_inv [OF invd]) simp_all
    have sl: "p \<in> set (sleepers T) \<longleftrightarrow> w p = Some (Waits (OnTimer (target T)))" "distinct (sleepers T)" for p
      using A T by auto
    have lim: "?w1 p = Some Limbo \<longleftrightarrow> p \<in> set (sleepers T)" for p
      using nl by (auto simp: freed_def no_limbo_def)
    have nw: "current ?s1 \<noteq> Some p \<and> idleProcess ?s1 \<noteq> Some p" if "p \<in> set (sleepers T)" for p
      using waiting_not_idle [OF inv] that sl(1) [of p] by auto
    have rr: "readied (set (sleepers T)) ?w1 = readied (set (sleepers T)) w"
      by (auto simp: readied_def freed_def fun_eq_iff)
    from wake_all_inv [OF i1 _ lim sl(2) nw] d obtain s2 where s2: "wake_all (sleepers T) ?s1 = Inr s2"
      "sched_inv False (Suc d) i s2 (readied (set (sleepers T)) w)" "no_limbo (readied (set (sleepers T)) w)"
      "kept ?s1 s2" "timers s2 = timers ?s1" "readyQueue s2 = readyQueue ?s1 @ sleepers T"
      unfolding rr by auto
    have "\<forall>S \<in> set Ts. target S \<noteq> ?j" using A T by auto
    then have ft: "filter (\<lambda>T. target T \<noteq> ?j) (timers s) = Ts" using T by (simp add: filter_id_conv)
    have "pit_handler s = enable s2" unfolding h using T s2(1) by simp
    moreover have "\<exists>s'. enable s2 = Inr s' \<and> sched_inv False d i s' (readied (set (due s)) w)
      \<and> no_limbo (readied (set (due s)) w) \<and> jiffies s' = jiffies s + 1
      \<and> current s' = current s \<and> idleProcess s' = idleProcess s \<and> nextPid s' = nextPid s
      \<and> readyQueue s' = readyQueue s @ due s
      \<and> timers s' = filter (\<lambda>T. target T \<noteq> jiffies s + 1) (timers s)
      \<and> (\<forall>p P. procs s p = Some P \<longrightarrow> (\<exists>P'. procs s' p = Some P' \<and> konts P' = konts P))"
      using s2 due ft by (intro after [of s2 ?s1 Ts]) simp_all
    ultimately show ?thesis by simp
  qed
qed


section \<open>Interrupts\<close>

lemma startIrq_inv:
  assumes inv: "sched_inv False 0 0 s w" and on: "ints_on s"
  shows "\<exists>s' me P. startIrq (s\<lparr>ints_on := False\<rparr>) = Inr s' \<and> sched_inv False 1 1 s' w
    \<and> current s = Some me \<and> current s' = Some me \<and> idleProcess s' = idleProcess s
    \<and> procs s' me = Some P \<and> kweight (konts P) = 0 \<and> kirqs (konts P) = 0
    \<and> jiffies s' = jiffies s \<and> timers s' = timers s \<and> readyQueue s' = readyQueue s"
proof -
  note I = sched_invD [OF inv]
  obtain me P where me: "current s = Some me" "procs s me = Some P" "disableCount P = 0"
    using run_ok_ints [OF I(2)] on unfolding ints_ok_def by blast
  obtain x where P: "w me = Some x" "proc_ok 0 0 x P" "x \<noteq> Dead" "x \<noteq> Zombie"
    using current_proc [OF inv me(1)] me(2) by force
  let ?f = "\<lambda>P. P\<lparr>iCount := iCount P + 1, iDepth := iDepth P + 1, disableCount := 1 :: u32\<rparr>"
  let ?s = "upd_proc me ?f (s\<lparr>ints_on := False\<rparr>)"
  have e: "startIrq (s\<lparr>ints_on := False\<rparr>) = Inr ?s"
    using me by (simp add: startIrq_def get_proc_def)
  have procs: "procs ?s = (procs s)(me \<mapsto> ?f P)" using me(2) by (auto simp: fun_eq_iff)
  have kw: "kweight (konts P) = 0" using P(2-4) me(3) by (simp add: proc_ok_def)
  have "kirqs ks \<le> kweight ks" for ks by (induction ks) (auto split: kont.splits)
  then have ki: "kirqs (konts P) = 0" using kw by (metis le_zero_eq)
  then have "unat (iDepth P) = 0" using P(2-4) by (simp add: proc_ok_def)
  then have "unat (iDepth P + 1) = 1" by (simp add: unat_eq_0)
  then have pok: "proc_ok 1 1 x (?f P)" using P(2-4) kw ki by (auto simp: proc_ok_def)
  have "sched_inv False 1 1 ?s w"
  proof (rule sched_invI)
    show "procs_ok 1 1 ?s w"
      using P me procs by (intro procs_ok_me [OF I(1) me(1) _ _ _ procs pok]) auto
    show "run_ok False ?s w"
      using me by (intro run_ok_cong [OF I(2)]) (simp_all add: procs)
    show "idle_ok ?s w" using me(2) by (intro idle_ok_cong [OF I(4)]) auto
  qed (intro queues_ok_cong [OF I(3)] sems_ok_cong [OF I(5)] timers_ok_cong [OF I(6)]; simp)+
  then show ?thesis using e me(1) kw ki me(2)
    by (intro exI [of _ ?s] exI [of _ me] exI [of _ "?f P"]) simp
qed

lemma preempt_inv:
  assumes inv: "sched_inv False 1 1 s w" and nl: "no_limbo w" and me: "current s = Some me" "procs s me = Some P"
    and k: "kweight (konts P) = 0" "kirqs (konts P) = 0"
  shows "good (yield None (push KEndIrq s))"
proof -
  have i: "sched_inv False 0 0 (push KEndIrq s) w"
    using inv me k by (intro push_inv) auto
  have "roomy 3 (push KEndIrq s)" using me k by (auto simp: roomy_def push_procs)
  from yield_inv [OF i nl this, of None] show ?thesis by (auto simp: good_def)
qed

lemma pic_irq_inv:
  assumes inv: "sched_inv False 0 0 s w" and nl: "no_limbo w" and on: "ints_on s"
  shows "good (pic_irq n s)"
proof -
  from startIrq_inv [OF inv on] obtain s1 me P where s1: "startIrq (s\<lparr>ints_on := False\<rparr>) = Inr s1"
    "sched_inv False 1 1 s1 w" "current s1 = Some me" "procs s1 me = Some P"
    "kweight (konts P) = 0" "kirqs (konts P) = 0" by blast
  show ?thesis
  proof (cases "n = 0")
    case True
    have "(1 :: nat) \<le> 9" by simp
    from pit_handler_inv [OF s1(2) nl this] obtain s2 where s2: "pit_handler s1 = Inr s2"
      "sched_inv False 1 1 s2 (readied (set (due s1)) w)" "no_limbo (readied (set (due s1)) w)"
      "current s2 = current s1" "\<forall>p P. procs s1 p = Some P \<longrightarrow> (\<exists>P'. procs s2 p = Some P' \<and> konts P' = konts P)"
      by blast
    then obtain P' where P': "procs s2 me = Some P'" "konts P' = konts P" using s1(4) by blast
    have "good (yield None (push KEndIrq s2))"
      using preempt_inv [OF s2(2,3) _ P'(1)] s2(4) s1(3,5,6) P'(2) by simp
    then show ?thesis using s1(1) s2(1) True by (simp add: pic_irq_def)
  next
    case False
    then show ?thesis using preempt_inv [OF s1(2) nl s1(3-6)] s1(1) by (simp add: pic_irq_def)
  qed
qed

section \<open>New processes and references\<close>

lemma init_proc_ok: "proc_ok 0 0 Limbo init_proc"
  by (simp add: init_proc_def proc_ok_def STACK_LONGS_def)

lemma new_process_inv:
  assumes inv: "sched_inv False d i s w" and s': "new_process s = (p, s')"
  shows "sched_inv False d i s' (w(p \<mapsto> Limbo))" "p = nextPid s" "current s' = current s"
    "idleProcess s' = idleProcess s" "procs s p = None" "procs s' = (procs s)(p \<mapsto> init_proc)"
proof -
  note I = sched_invD [OF inv]
  show p: "p = nextPid s" "current s' = current s" "idleProcess s' = idleProcess s"
    "procs s' = (procs s)(p \<mapsto> init_proc)"
    using s' by (auto simp: new_process_def)
  have f: "nextPid s' = Suc p" "readyQueue s' = readyQueue s" "reaperQueue s' = reaperQueue s"
    "sems s' = (sems s)(Done p := \<lparr>count = 0, waiting = []\<rparr>)" "timers s' = timers s" "jiffies s' = jiffies s"
    "ints_on s' = ints_on s" "activeSpace s' = activeSpace s" "kernelStack s' = kernelStack s"
    using s' by (auto simp: new_process_def)
  show none: "procs s p = None" using I(1) p(1) unfolding procs_ok_def by simp
  then have wn: "w p = None" using I(1) unfolding procs_ok_def by simp
  have nc: "current s \<noteq> Some p" using run_okD_cur [OF I(2), of p] none by auto
  have ni: "idleProcess s \<noteq> Some p" using idle_okD(2) [OF I(4), of p] none by auto
  let ?w = "w(p \<mapsto> Limbo)"
  show "sched_inv False d i s' ?w"
  proof (rule sched_invI)
    have "\<exists>x. ?w q = Some x \<and> proc_ok (if current s = Some q then d else 0) (if current s = Some q then i else 0) x Q"
      if Q: "procs s' q = Some Q" for q Q
    proof (cases "q = p")
      case True
      then show ?thesis using Q p(4) nc init_proc_ok by auto
    next
      case False
      then show ?thesis using Q p(4) procs_okD [OF I(1), of q Q] by simp
    qed
    then show "procs_ok d i s' ?w"
      using I(1) p unfolding procs_ok_def f p(2) by simp
    have "ints_on s' \<longleftrightarrow> (\<exists>q P. current s = Some q \<and> procs s' q = Some P \<and> disableCount P = 0)"
      using run_ok_ints [OF I(2)] nc unfolding ints_ok_def f p(4) by auto
    then have i': "ints_ok s'" unfolding ints_ok_def p(2) .
    show "run_ok False s' ?w"
      unfolding run_ok_def p(2) f(8,9)
    proof (intro conjI allI impI)
      fix q assume "?w q = Some Running"
      then have "w q = Some Running" by (auto split: if_splits)
      then show "\<not> False" "current s = Some q" using run_okD(2) [OF I(2)] by blast+
    next
      fix q assume c: "current s = Some q"
      then have "q \<noteq> p" using nc by auto
      then show "procs s' q \<noteq> None" "activeSpace s = Some q" "kernelStack s = Some q"
        "?w q \<noteq> Some Dead" "?w q \<noteq> Some Zombie" "?w q = Some Running"
        using run_okD_cur [OF I(2) c] run_okD(1) [OF I(2) c] p(4) by simp_all
    qed (rule i')
    have q: "?w r = Some Ready \<longleftrightarrow> w r = Some Ready" "?w r = Some Dead \<longleftrightarrow> w r = Some Dead" for r
      using wn by auto
    show "queues_ok s' ?w" using I(3) unfolding queues_ok_def f q by blast
    show "idle_ok s' ?w"
      using ni by (intro idle_ok_move idle_ok_cong [OF I(4)]) (auto simp: p)
    have wt: "?w r = Some (Waits q) \<longleftrightarrow> w r = Some (Waits q)" for r q using wn by simp
    have "waiting (sems s (Done p)) = []" using I(5) p(1) unfolding sems_ok_def by simp
    then have se: "waiting (sems s' j) = waiting (sems s j)" for j by (simp add: f)
    show "sems_ok s' ?w"
      unfolding sems_ok_def wt se
    proof (intro conjI allI impI)
      fix j assume "waiting (sems s j) \<noteq> []"
      moreover have "waiting (sems s (Done p)) = []" using I(5) p(1) unfolding sems_ok_def by simp
      ultimately show "count (sems s' j) = 0"
        using I(5) unfolding sems_ok_def f by (cases "j = Done p") simp_all
    qed (use I(5) p(1) in \<open>simp_all add: sems_ok_def f\<close>)
    show "timers_ok s' ?w" using I(6) unfolding timers_ok_def f wt by blast
  qed
qed

definition spawn :: "sched \<Rightarrow> fault + (pid \<times> sched)" where
  "spawn s = (let (p, s1) = new_process s in bindE (start p s1) (\<lambda>s2. Inr (p, s2)))"

lemma spawn_inv:
  assumes inv: "sched_inv False 0 0 s w" and nl: "no_limbo w" and c: "current s \<noteq> None"
  shows "good (bindE (spawn s) (\<lambda>(p, s'). Inr s'))"
proof -
  obtain p s1 where s1: "new_process s = (p, s1)" by fastforce
  note N = new_process_inv [OF inv s1]
  have nc: "current s1 \<noteq> Some p"
    using run_okD_cur [OF sched_invD(2) [OF inv], of p] N(3,5) by auto
  have ni: "idleProcess s1 \<noteq> Some p"
    using idle_okD(2) [OF sched_invD(4) [OF inv], of p] N(4,5) by auto
  from makeReady_inv [OF N(1), of p Limbo False] nc ni obtain s2 where s2: "makeReady p s1 = Inr s2"
    "sched_inv False 0 0 s2 ((w(p \<mapsto> Limbo))(p \<mapsto> Ready))" "kept s1 s2" by auto
  have "no_limbo ((w(p \<mapsto> Limbo))(p \<mapsto> Ready))" using nl by (simp add: no_limbo_def)
  moreover have "current s2 \<noteq> None" using keptD(1) [OF s2(3)] N(3) c by simp
  ultimately show ?thesis using s1 s2 by (auto simp: spawn_def start_def good_def)
qed


text \<open>
  References held by resource tables: \<^verbatim>\<open>Resource::ref\<close> on a process, and an
  \<^verbatim>\<open>unref\<close> that does not take the reference the scheduler itself holds.
\<close>

definition ref_proc :: "pid \<Rightarrow> sched \<Rightarrow> fault + sched" where
  "ref_proc p s = bindE (get_proc p s) (\<lambda>P. Inr (upd_proc p (\<lambda>P. P\<lparr>refCount := refCount P + 1\<rparr>) s))"

definition spare_ref :: "pid \<Rightarrow> sched \<Rightarrow> bool" where
  "spare_ref p s \<longleftrightarrow> (case procs s p of None \<Rightarrow> False
     | Some P \<Rightarrow> 1 < refCount P \<or> isTerminated P \<and> p \<notin> set (reaperQueue s))"

lemma ref_proc_inv:
  assumes inv: "sched_inv False 0 0 s w" and nl: "no_limbo w" and c: "current s \<noteq> None"
    and p: "procs s p = Some P" "refCount P \<noteq> - 1"
  shows "good (ref_proc p s)"
proof -
  have "refCount P + 1 \<noteq> 0" using p(2) by (simp add: eq_neg_iff_add_eq_0)
  then have "sched_inv False 0 0 (upd_proc p (\<lambda>P. P\<lparr>refCount := refCount P + 1\<rparr>) s) w"
    using p(1) by (intro upd_proc_inv [OF inv]) (auto simp: word_gt_0 stacks_fit_def)
  then show ?thesis using p(1) nl c by (auto simp: ref_proc_def get_proc_def intro: goodI)
qed

lemma zombie_place:
  assumes inv: "sched_inv b d i s w" and p: "procs s p = Some P" "isTerminated P" "p \<notin> set (reaperQueue s)" "no_limbo w"
  shows "w p = Some Zombie"
proof -
  obtain x where x: "w p = Some x" "place_state x (p_state P)"
    using procs_okD [OF sched_invD(1) [OF inv] p(1)] by (auto simp: proc_ok_def)
  then have "x = Dead \<or> x = Zombie \<or> x = Limbo" using p(2) by (cases x) (simp_all add: isTerminated_def)
  moreover have "x \<noteq> Dead" using x(1) p(3) sched_invD(3) [OF inv] unfolding queues_ok_def by auto
  moreover have "x \<noteq> Limbo" using p(4) x(1) unfolding no_limbo_def by auto
  ultimately show ?thesis using x(1) by blast
qed

lemma unref_proc_inv:
  assumes inv: "sched_inv False 0 0 s w" and nl: "no_limbo w" and c: "current s \<noteq> None"
    and p: "spare_ref p s"
  shows "good (unref_proc p s)"
proof -
  obtain P where P: "procs s p = Some P" "1 < refCount P \<or> isTerminated P \<and> p \<notin> set (reaperQueue s)"
    using p by (auto simp: spare_ref_def split: option.splits)
  show ?thesis
  proof (cases "1 < refCount P")
    case True
    then have "refCount P \<noteq> 1" "refCount P - 1 \<noteq> 0" by auto
    then have "sched_inv False 0 0 (upd_proc p (\<lambda>P. P\<lparr>refCount := refCount P - 1\<rparr>) s) w"
      using P(1) by (intro upd_proc_inv [OF inv]) (auto simp: word_gt_0 stacks_fit_def)
    then show ?thesis using P(1) True nl c by (auto simp: unref_proc_def get_proc_def intro: goodI)
  next
    case False
    then have "w p = Some Zombie" using P zombie_place [OF inv P(1) _ _ nl] by blast
    from unref_zombie_inv [OF inv this] obtain s' w' where s': "unref_proc p s = Inr s'"
      "sched_inv False 0 0 s' w'" "\<forall>q. q \<noteq> p \<longrightarrow> w' q = w q" "w' p \<in> {None, Some Zombie}" "s'\<lparr>procs := procs s\<rparr> = s"
      by blast
    have "no_limbo w'" using nl s'(3,4) unfolding no_limbo_def by (metis empty_iff insert_iff option.discI option.inject place.distinct(41))
    moreover have "current s' = current s" by (subst s'(5) [symmetric], simp)
    ultimately show ?thesis using s' c by (auto intro: goodI)
  qed
qed

section \<open>The system\<close>

text \<open>
  What can happen next. A process whose stack of continuations is empty runs its own code and calls
  any operation; otherwise the next piece of its stack runs. An interrupt arrives when the
  interrupt flag is set. The idle process only reaps and halts. In the middle of \<^verbatim>\<open>exit\<close> the process runs
  the code that releases its resources, which locks and unlocks mutexes and gives up references; a
  reference to a process is also given up by the destructor of a table. When the code of an exiting
  process that has been killed blocks it is sent into \<^verbatim>\<open>exit\<close> again as it wakes; it is
  assumed that these calls of \<^verbatim>\<open>exit\<close> do not nest without bound, in that a process that blocks there has
  at most two calls of \<^verbatim>\<open>disable\<close> pending. \<open>Stack\<close> is the compiled code moving the stack pointer
  of the running process, and it is assumed that no kernel stack overflows.
\<close>

datatype kop = Yield | Down nat | Up nat | Wait pid | Exit int | Kill pid int | Spawn
  | SleepUntil u32 | SleepFor u32 | Reap | Ref pid | Unref pid | Resume | Irq nat | Stack u32

definition set_esp :: "u32 \<Rightarrow> sched \<Rightarrow> sched" where
  "set_esp n s = (case current s of None \<Rightarrow> s | Some me \<Rightarrow> upd_proc me (\<lambda>P. P\<lparr>espReg := n\<rparr>) s)"

fun run_op :: "kop \<Rightarrow> sched \<Rightarrow> fault + sched" where
  "run_op Yield s = yield None s"
| "run_op (Down n) s = down (Sem n) s"
| "run_op (Up n) s = up (Sem n) s"
| "run_op (Wait p) s = event_wait (Done p) s"
| "run_op (Exit code) s = exit code s"
| "run_op (Kill p code) s = kill p code s"
| "run_op Spawn s = bindE (spawn s) (\<lambda>(p, s'). Inr s')"
| "run_op (SleepUntil t) s = sleepUntil t s"
| "run_op (SleepFor t) s = sleepFor t s"
| "run_op Reap s = checkReaper s"
| "run_op (Ref p) s = ref_proc p s"
| "run_op (Unref p) s = unref_proc p s"
| "run_op Resume s = exec_kont s"
| "run_op (Irq n) s = pic_irq n s"
| "run_op (Stack n) s = Inr (set_esp n s)"

definition running :: "sched \<Rightarrow> proc option" where
  "running s = (case current s of None \<Rightarrow> None | Some me \<Rightarrow> procs s me)"

definition in_code :: "sched \<Rightarrow> bool" where
  "in_code s \<longleftrightarrow> (case current s of None \<Rightarrow> False
     | Some me \<Rightarrow> (case procs s me of None \<Rightarrow> False | Some P \<Rightarrow> konts P = []))"

definition in_exit :: "sched \<Rightarrow> bool" where
  "in_exit s \<longleftrightarrow> (case running s of None \<Rightarrow> False
     | Some P \<Rightarrow> (case konts P of [] \<Rightarrow> False | k # ks \<Rightarrow> k = KExit))"

definition in_irq :: "sched \<Rightarrow> bool" where
  "in_irq s \<longleftrightarrow> (case running s of None \<Rightarrow> False | Some P \<Rightarrow> iDepth P \<noteq> 0)"

definition shallow :: "sched \<Rightarrow> bool" where
  "shallow s \<longleftrightarrow> (case running s of None \<Rightarrow> False | Some P \<Rightarrow> disableCount P \<le> 2)"

fun allowed :: "kop \<Rightarrow> sched \<Rightarrow> bool" where
  "allowed Resume s \<longleftrightarrow> \<not> in_code s"
| "allowed (Irq n) s \<longleftrightarrow> ints_on s"
| "allowed Reap s \<longleftrightarrow> in_code s"
| "allowed (Down n) s \<longleftrightarrow> current s \<noteq> idleProcess s
     \<and> (in_code s \<or> in_exit s \<and> (count (sems s (Sem n)) = 0 \<longrightarrow> in_irq s \<or> shallow s))"
| "allowed (Up n) s \<longleftrightarrow> current s \<noteq> idleProcess s \<and> (in_code s \<or> in_exit s)"
| "allowed (Wait p) s \<longleftrightarrow> in_code s \<and> current s \<noteq> idleProcess s \<and> procs s p \<noteq> None"
| "allowed (Kill p code) s \<longleftrightarrow> in_code s \<and> current s \<noteq> idleProcess s \<and> procs s p \<noteq> None \<and> idleProcess s \<noteq> Some p"
| "allowed (SleepFor t) s \<longleftrightarrow> in_code s \<and> current s \<noteq> idleProcess s \<and> hz s \<noteq> 0"
| "allowed (Ref p) s \<longleftrightarrow> in_code s \<and> current s \<noteq> idleProcess s
     \<and> (case procs s p of None \<Rightarrow> False | Some P \<Rightarrow> refCount P \<noteq> - 1)"
| "allowed (Unref p) s \<longleftrightarrow> spare_ref p s"
| "allowed (Stack n) s \<longleftrightarrow> n < STACK_LONGS"
| "allowed _ s \<longleftrightarrow> in_code s \<and> current s \<noteq> idleProcess s"

text \<open>
  The one thing that goes wrong: a process that was interrupted and then killed exits inside the
  interrupt, and the release of its resources finds a mutex taken.
\<close>

fun blocks_in_irq :: "kop \<Rightarrow> sched \<Rightarrow> bool" where
  "blocks_in_irq (Down n) s \<longleftrightarrow> count (sems s (Sem n)) = 0 \<and> in_irq s"
| "blocks_in_irq _ s \<longleftrightarrow> False"

text \<open>
  The state before the first process, with the initial counts of the semaphores, and what
  \<^verbatim>\<open>kernelMain\<close> does with it: program the timer at 1000 Hz, create the first and the idle
  process, start them and yield.
\<close>

definition empty_sched :: "(nat \<Rightarrow> int) \<Rightarrow> sched" where
  "empty_sched c = \<lparr>procs = Map.empty, nextPid = 0, current = None, readyQueue = [], reaperQueue = [],
     idleProcess = None, idleJiffies = 0,
     sems = (\<lambda>i. case i of Sem n \<Rightarrow> \<lparr>count = s32 (c n), waiting = []\<rparr> | Done p \<Rightarrow> \<lparr>count = 0, waiting = []\<rparr>),
     timers = [], jiffies = 0, hz = 0, ints_on = False, activeSpace = None, kernelStack = None\<rparr>"

definition kernelMain :: "(nat \<Rightarrow> int) \<Rightarrow> fault + sched" where
  "kernelMain c =
     bindE (pit_init 1000 (empty_sched c)) (\<lambda>s0.
       let (initp, s1) = new_process s0;
           (idlep, s2) = new_process s1
       in bindE (start idlep (s2\<lparr>idleProcess := Some idlep\<rparr>)) (\<lambda>s3.
          bindE (start initp s3) (yield None)))"

inductive kreach :: "(nat \<Rightarrow> int) \<Rightarrow> sched \<Rightarrow> bool" for c where
  boot: "kernelMain c = Inr s \<Longrightarrow> kreach c s"
| step: "kreach c s \<Longrightarrow> allowed op s \<Longrightarrow> run_op op s = Inr s' \<Longrightarrow> kreach c s'"

inductive_cases kreachE: "kreach c s"

definition booted :: "(nat \<Rightarrow> int) \<Rightarrow> sched" where
  "booted c = (empty_sched c)\<lparr>procs := [0 \<mapsto> init_proc\<lparr>p_state := RUNNING\<rparr>, 1 \<mapsto> init_proc],
     nextPid := 2, current := Some 0, idleProcess := Some 1, hz := 1000, ints_on := True,
     activeSpace := Some 0, kernelStack := Some 0\<rparr>"

lemma kernelMain_booted: "kernelMain c = Inr (booted c)"
  by (simp add: kernelMain_def pit_init_def new_process_def start_def makeReady_def yield_def Let_def
      disable_def enable_def upd_proc_def push_def pick_next_def dispatch_def save_esp_def STACK_LONGS_def get_proc_def empty_sched_def
      booted_def init_proc_def fun_eq_iff split: semid.splits)

lemma boot_good: "good (kernelMain c)"
proof -
  let ?s = "booted c" and ?w = "[0 \<mapsto> Running, 1 \<mapsto> Idle]"
  have procs: "procs ?s = [0 \<mapsto> init_proc\<lparr>p_state := RUNNING\<rparr>, 1 \<mapsto> init_proc]" by (simp add: booted_def)
  have f: "nextPid ?s = 2" "current ?s = Some 0" "readyQueue ?s = []" "reaperQueue ?s = []"
    "idleProcess ?s = Some 1" "timers ?s = []" "ints_on ?s" "activeSpace ?s = Some 0" "kernelStack ?s = Some 0"
    "waiting (sems ?s j) = []" for j
    by (simp_all add: booted_def empty_sched_def split: semid.splits)
  have i: "disableCount init_proc = 0" "\<not> isKilled init_proc" "KExit \<notin> set (konts init_proc)" by (simp_all add: init_proc_def)
  have "sched_inv False 0 0 ?s ?w"
  proof (rule sched_invI)
    have "proc_ok 0 0 Running (init_proc\<lparr>p_state := RUNNING\<rparr>)" "proc_ok 0 0 Idle init_proc"
      by (simp_all add: proc_ok_def init_proc_def STACK_LONGS_def)
    then show "procs_ok 0 0 ?s ?w" unfolding procs_ok_def procs f by auto
    show "run_ok False ?s ?w" unfolding run_ok_def ints_ok_def procs using f i by (auto split: if_splits)
    show "queues_ok ?s ?w" unfolding queues_ok_def f by simp
    show "idle_ok ?s ?w" unfolding idle_ok_def procs f using i by (auto split: if_splits)
    show "sems_ok ?s ?w" unfolding sems_ok_def f by simp
    show "timers_ok ?s ?w" unfolding timers_ok_def f by simp
  qed
  moreover have "no_limbo ?w" by (simp add: no_limbo_def)
  ultimately show ?thesis using f(2) kernelMain_booted [of c] by (auto intro: goodI)
qed

text \<open>Every operation that can occur keeps the invariant.\<close>

lemma in_codeD:
  "in_code s \<Longrightarrow> \<exists>me P. current s = Some me \<and> procs s me = Some P \<and> konts P = []"
  by (auto simp: in_code_def split: option.splits)

lemma event_wait_inv:
  assumes inv: "sched_inv False 0 0 s w" and nl: "no_limbo w" and c: "in_code s" "current s \<noteq> idleProcess s"
    and p: "procs s p \<noteq> None"
  shows "good (event_wait (Done p) s)"
proof -
  from in_codeD [OF c(1)] obtain me P where me: "current s = Some me" "procs s me = Some P" "konts P = []" by blast
  let ?s = "push (KUp (Done p)) s"
  have i: "sched_inv False 0 0 ?s w" using inv me by (intro push_inv) auto
  have pp: "procs ?s me = Some (P\<lparr>konts := [KUp (Done p)]\<rparr>)" using me by (simp add: push_procs)
  have "roomy 2 ?s" using me pp by (simp add: roomy_def)
  moreover have "p < nextPid s" using sched_invD(1) [OF inv] p unfolding procs_ok_def by (meson not_le)
  ultimately have "\<exists>s' w'. down (Done p) ?s = Inr s' \<and> sched_inv False 0 0 s' w' \<and> no_limbo w' \<and> current s' \<noteq> None"
    using me c(2) pp by (intro down_inv [OF i nl, of "Done p" me]) auto
  then show ?thesis by (auto simp: event_wait_def good_def)
qed

text \<open>\<^verbatim>\<open>down\<close> in the middle of an interrupt.\<close>

lemma down_in_irq:
  assumes "in_irq s" "count (sems s j) = 0"
  shows "down j s = Inl (Panic ''blocking while iDepth'')"
proof -
  obtain me P where me: "current s = Some me" "procs s me = Some P" "iDepth P \<noteq> 0"
    using assms(1) by (auto simp: in_irq_def running_def split: option.splits)
  let ?s = "push KYield (disable (push KEnable (disable s)))"
  obtain Q where Q: "procs ?s me = Some Q" "iDepth Q = iDepth P" using me(1,2) by (simp add: push_procs disable_procs)
  have g: "get_proc me ?s = Inr Q" using Q(1) by (simp only: get_proc_Inr)
  show ?thesis using me Q(2) assms(2) by (simp add: down_def yield_def Let_def g)
qed

lemma run_op_good:
  assumes inv: "sched_inv False 0 0 s w" and nl: "no_limbo w" and cur: "current s \<noteq> None"
    and a: "allowed op s" and nb: "\<not> blocks_in_irq op s"
  shows "good (run_op op s)"
proof -
  obtain me where me: "current s = Some me" using cur by blast
  have roomy: "roomy 2 s" if "in_code s" using in_codeD [OF that] by (auto simp: roomy_def)
  have roomy3: "roomy 3 s" if "in_code s" using in_codeD [OF that] by (auto simp: roomy_def)
  show ?thesis
  proof (cases op)
    case Yield
    then show ?thesis using yield_inv [OF inv nl roomy3, of None] a by (auto simp: good_def)
  next
    case (Down n)
    show ?thesis
    proof (cases "count (sems s (Sem n)) = 0")
      case False
      then show ?thesis using down_free_inv [OF inv nl cur, of "Sem n"] Down by (auto simp: good_def)
    next
      case True
      obtain P x where P: "procs s me = Some P" "proc_ok 0 0 x P" "x \<noteq> Dead" "x \<noteq> Zombie"
        using current_proc [OF inv me] by blast
      have nq: "iDepth P = 0" if "in_exit s" using nb Down True P(1) me by (simp add: in_irq_def running_def)
      have r: "kweight (konts P) \<le> 2 \<and> kirqs (konts P) = 0"
      proof (cases "in_code s")
        case True
        then show ?thesis using in_codeD P(1) me by fastforce
      next
        case False
        then have "in_exit s" "shallow s" using a Down True nb by auto
        then have "disableCount P \<le> 2" "iDepth P = 0" using nq P(1) me by (simp_all add: shallow_def running_def)
        then show ?thesis using P(2-4) by (simp add: proc_ok_def word_le_nat_alt)
      qed
      then have "roomy 2 s" using P(1) me by (simp add: roomy_def)
      moreover have "idleProcess s \<noteq> Some me" using a Down me by auto
      ultimately show ?thesis using down_inv [OF inv nl _ _ me P(1), of "Sem n"] r Down by (auto simp: good_def)
    qed
  next
    case (Up n)
    have "(0 :: nat) \<le> 8" by simp
    from up_inv [OF inv nl this, of "Sem n"] obtain s' w' where "up (Sem n) s = Inr s'"
      "sched_inv False 0 0 s' w'" "no_limbo w'" "kept s s'" by blast
    then show ?thesis using Up cur keptD(1) by (auto simp: good_def)
  next
    case (Wait p)
    then show ?thesis using event_wait_inv [OF inv nl] a by simp
  next
    case (Exit code)
    then show ?thesis using exit_inv [OF inv nl cur, of code] a by auto
  next
    case (Kill p code)
    then show ?thesis using kill_inv [OF inv nl _ cur] a by simp
  next
    case Spawn
    then show ?thesis using spawn_inv [OF inv nl cur] by simp
  next
    case (SleepUntil t)
    from in_codeD [of s] a SleepUntil obtain P where P: "procs s me = Some P" "konts P = []" using me by auto
    have "idleProcess s \<noteq> Some me" "in_code s" using a SleepUntil me by auto
    with sleepUntil_inv [OF inv nl roomy me P(1)] P(2) SleepUntil show ?thesis by simp
  next
    case (SleepFor t)
    from in_codeD [of s] a SleepFor obtain P where P: "procs s me = Some P" "konts P = []" using me by auto
    have "idleProcess s \<noteq> Some me" "in_code s" "hz s \<noteq> 0" using a SleepFor me by auto
    with sleepUntil_inv [OF inv nl roomy me P(1)] P(2) SleepFor show ?thesis
      by (simp add: sleepFor_def pit_seconds_def)
  next
    case Reap
    have "(0 :: nat) \<le> 8" by simp
    from checkReaper_inv [OF inv nl this] obtain s' w' where "checkReaper s = Inr s'"
      "sched_inv False 0 0 s' w'" "no_limbo w'" "mekept s s'" by blast
    then show ?thesis using Reap cur mekeptD(1) by (auto simp: good_def)
  next
    case (Ref p)
    then show ?thesis using ref_proc_inv [OF inv nl cur] a by (auto split: option.splits)
  next
    case (Unref p)
    then show ?thesis using unref_proc_inv [OF inv nl cur] a by simp
  next
    case Resume
    then show ?thesis using exec_kont_inv [OF inv nl me] by simp
  next
    case (Irq n)
    then show ?thesis using pic_irq_inv [OF inv nl] a by simp
  next
    case (Stack n)
    have "sched_inv False 0 0 (upd_proc me (\<lambda>P. P\<lparr>espReg := n\<rparr>) s) w"
      using a Stack by (intro upd_proc_inv [OF inv]) (auto simp: stacks_fit_def)
    then show ?thesis using Stack me nl by (auto simp: set_esp_def intro: goodI)
  qed
qed

lemma goodD: "good (Inr s) \<Longrightarrow> \<exists>w. sched_inv False 0 0 s w \<and> no_limbo w \<and> current s \<noteq> None"
  by (auto simp: good_def)

lemma kreach_inv:
  "kreach c s \<Longrightarrow> \<exists>w. sched_inv False 0 0 s w \<and> no_limbo w \<and> current s \<noteq> None"
proof (induction rule: kreach.induct)
  case (boot s)
  then have "good (Inr s)" using boot_good [of c] by simp
  then show ?case by (rule goodD)
next
  case (step s op s')
  have "\<not> blocks_in_irq op s"
  proof
    assume "blocks_in_irq op s"
    then obtain n where n: "op = Down n" "count (sems s (Sem n)) = 0" "in_irq s" by (cases op) auto
    then show False using down_in_irq [OF n(3,2)] step.hyps(3) by simp
  qed
  then have "good (run_op op s)" using step run_op_good by blast
  then have "good (Inr s')" using step.hyps(3) by simp
  then show ?case by (rule goodD)
qed

end
