(* ===== verification/Phys_Vmm.thy ===== *)
theory Phys_Vmm
  imports Scheduler_System
begin

text \<open>
  \<^verbatim>\<open>kernel/vmm.h\<close> and \<^verbatim>\<open>kernel/vmm.cc\<close>: the allocator of physical frames with its free list in
  the free frames themselves, the two-level page tables of an address space, and the page fault
  handler. Physical memory is a function from byte addresses of 32-bit words to their contents;
  the kernel reaches it through the identity mapping of the low memory, and the processor's cache
  of translations (\<^verbatim>\<open>invlpg\<close>, \<^verbatim>\<open>vmm_on\<close>) is not modelled.
\<close>

section \<open>Frames\<close>

definition FRAME_SIZE :: u32 where "FRAME_SIZE = 0x1000"
definition PTE_P :: u32 where "PTE_P = 1"
definition PTE_W :: u32 where "PTE_W = 2"
definition PTE_U :: u32 where "PTE_U = 4"

lemmas vmm_consts = FRAME_SIZE_def PTE_P_def PTE_W_def PTE_U_def

record phys =
  mem :: "u32 \<Rightarrow> u32"
  firstFree :: u32
  avail :: u32
  limit :: u32

definition phys_init :: "u32 \<Rightarrow> u32 \<Rightarrow> phys \<Rightarrow> phys" where
  "phys_init from till s = s\<lparr>avail := from, limit := till, firstFree := 0\<rparr>"

definition frame_of :: "u32 \<Rightarrow> u32" where
  "frame_of w = w AND 0xfffff000"

text \<open>Element \<open>k\<close> of the array of words at \<open>f\<close>.\<close>

definition slot :: "u32 \<Rightarrow> nat \<Rightarrow> u32" where
  "slot f k = f + 4 * of_nat k"

definition bzero_frame :: "u32 \<Rightarrow> phys \<Rightarrow> phys" where
  "bzero_frame p s = s\<lparr>mem := (\<lambda>a. if a - p < FRAME_SIZE then 0 else mem s a)\<rparr>"

definition memcpy_frame :: "u32 \<Rightarrow> u32 \<Rightarrow> phys \<Rightarrow> phys" where
  "memcpy_frame dest src s = s\<lparr>mem := (\<lambda>a. if a - dest < FRAME_SIZE then mem s (src + (a - dest)) else mem s a)\<rparr>"

definition alloc_frame :: "phys \<Rightarrow> fault + (u32 \<times> phys)" where
  "alloc_frame s =
     (if firstFree s \<noteq> 0
      then (let p = firstFree s in Inr (p, bzero_frame p (s\<lparr>firstFree := mem s p\<rparr>)))
      else if avail s = limit s then Inl (Panic ''no more frames'')
      else (let p = avail s in Inr (p, bzero_frame p (s\<lparr>avail := avail s + FRAME_SIZE\<rparr>))))"

definition free_frame :: "u32 \<Rightarrow> phys \<Rightarrow> phys" where
  "free_frame p s = s\<lparr>mem := (mem s)(p := firstFree s), firstFree := p\<rparr>"

section \<open>Address spaces\<close>

text \<open>The indices of an address in the page directory and in the page table.\<close>

definition i0_of :: "u32 \<Rightarrow> nat" where "i0_of va = unat (drop_bit 22 va AND 0x3ff)"
definition i1_of :: "u32 \<Rightarrow> nat" where "i1_of va = unat (drop_bit 12 va AND 0x3ff)"

text \<open>
  An address space is the physical address of its page directory. \<^verbatim>\<open>getPTE\<close> returns the address
  of the entry.
\<close>

definition getPTE :: "u32 \<Rightarrow> u32 \<Rightarrow> phys \<Rightarrow> fault + (u32 \<times> phys)" where
  "getPTE pd va s =
     (let i0 = i0_of va; i1 = i1_of va in bindE (if mem s (slot pd i0) AND PTE_P = 0
                then bindE (alloc_frame s) (\<lambda>(p, s1). Inr (s1\<lparr>mem := (mem s1)(slot pd i0 := p OR 7)\<rparr>))
                else Inr s)
           (\<lambda>s2. Inr (slot (frame_of (mem s2 (slot pd i0))) i1, s2)))"

definition punmap :: "u32 \<Rightarrow> u32 \<Rightarrow> phys \<Rightarrow> fault + phys" where
  "punmap pd va s = bindE (getPTE pd va s) (\<lambda>(a, s1). Inr (s1\<lparr>mem := (mem s1)(a := 0)\<rparr>))"

definition pte_word :: "u32 \<Rightarrow> bool \<Rightarrow> bool \<Rightarrow> u32" where
  "pte_word pa forUser forWrite =
     frame_of pa OR (if forUser then PTE_U else 0) OR (if forWrite then PTE_W else 0) OR 1"

definition pmap :: "u32 \<Rightarrow> u32 \<Rightarrow> u32 \<Rightarrow> bool \<Rightarrow> bool \<Rightarrow> phys \<Rightarrow> fault + phys" where
  "pmap pd va pa forUser forWrite s =
     bindE (getPTE pd va s) (\<lambda>(a, s1). Inr (s1\<lparr>mem := (mem s1)(a := pte_word pa forUser forWrite)\<rparr>))"

text \<open>
  The constructor maps the memory below \<^verbatim>\<open>limit\<close> one to one. With \<open>limit div 4096 + 1\<close> rounds of
  fuel the loop ends unless \<^verbatim>\<open>va\<close> wraps around.
\<close>

fun ident_loop :: "nat \<Rightarrow> u32 \<Rightarrow> u32 \<Rightarrow> phys \<Rightarrow> fault + phys" where
  "ident_loop 0 pd va s = (if va < limit s then Inl Diverges else Inr s)"
| "ident_loop (Suc n) pd va s =
     (if va < limit s then bindE (pmap pd va va False True s) (ident_loop n pd (va + FRAME_SIZE)) else Inr s)"

definition new_space :: "phys \<Rightarrow> fault + (u32 \<times> phys)" where
  "new_space s =
     bindE (alloc_frame s) (\<lambda>(pd, s1).
     bindE (ident_loop (unat (limit s1) div 4096 + 1) pd FRAME_SIZE s1) (\<lambda>s2. Inr (pd, s2)))"

definition destroy_space :: "u32 \<Rightarrow> phys \<Rightarrow> phys" where
  "destroy_space pd s =
     free_frame pd
       (fold (\<lambda>i0 s.
          let pde = mem s (slot pd i0) in
          if pde AND PTE_P \<noteq> 0
          then (let pt = frame_of pde in
            free_frame pt
              (if i0 > 0
               then fold (\<lambda>i1 s.
                      let pte = mem s (slot pt i1) in
                      if pte AND PTE_P \<noteq> 0 then free_frame (frame_of pte) s else s) [0..<1024] s
               else s))
          else s) [0..<1024] s)"

definition va_of :: "nat \<Rightarrow> nat \<Rightarrow> u32" where
  "va_of i0 i1 = push_bit 22 (of_nat i0) OR push_bit 12 (of_nat i1)"

definition fork_space :: "u32 \<Rightarrow> u32 \<Rightarrow> phys \<Rightarrow> fault + phys" where
  "fork_space pd child =
     loopE (\<lambda>i0 s.
       let pde = mem s (slot pd i0) in
       if pde AND PTE_P \<noteq> 0
       then (let pt = frame_of pde in
         loopE (\<lambda>i1 s.
           let pte = mem s (slot pt i1) in
           if pte AND PTE_P \<noteq> 0
           then bindE (alloc_frame s) (\<lambda>(dest, s1).
                  pmap child (va_of i0 i1) dest True True (memcpy_frame dest (frame_of pte) s1))
           else Inr s) [0..<1024] s)
       else Inr s) [512..<1024]"

definition exec_space :: "u32 \<Rightarrow> phys \<Rightarrow> phys" where
  "exec_space pd =
     fold (\<lambda>i0 s.
       let pde = mem s (slot pd i0) in
       if pde AND PTE_P \<noteq> 0
       then (let pt = frame_of pde in
         fold (\<lambda>i1 s.
           let pte = mem s (slot pt i1) in
           if pte AND PTE_P \<noteq> 0
           then free_frame (frame_of pte) (s\<lparr>mem := (mem s)(slot pt i1 := 0)\<rparr>)
           else s) [0..<1024] s)
       else s) [512..<1024]"

text \<open>
  The destructors of the address spaces of the processes that the reaper deletes on the way from
  one state of the scheduler to another.
\<close>

definition reap_spaces :: "(pid \<Rightarrow> u32) \<Rightarrow> sched \<Rightarrow> sched \<Rightarrow> phys \<Rightarrow> phys" where
  "reap_spaces pd_of s s' =
     fold (\<lambda>p. destroy_space (pd_of p)) (filter (\<lambda>p. procs s' p = None) (reaperQueue s))"

text \<open>
  A page fault: the first page kills the process, user addresses get a new frame, any other
  address is a panic. The state is that of the frames and that of the scheduler. \<^verbatim>\<open>kill\<close> calls the
  reaper on its way, which frees the frames of the processes that it deletes, and then enters \<^verbatim>\<open>exit\<close>.
\<close>

definition handlePageFault :: "(pid \<Rightarrow> u32) \<Rightarrow> u32 \<Rightarrow> u32 \<Rightarrow> phys \<times> sched \<Rightarrow> fault + (phys \<times> sched)" where
  "handlePageFault pd_of pd va = (\<lambda>(m, s).
     if va < 0x1000
     then (case current s of
             None \<Rightarrow> Inl NullDeref
           | Some me \<Rightarrow> bindE (kill me ERR_PAGE_FAULT s) (\<lambda>s'. Inr (reap_spaces pd_of s s' m, s')))
     else if va \<ge> 0x80000000
     then bindE (alloc_frame m) (\<lambda>(pa, m1). bindE (pmap pd va pa True True m1) (\<lambda>m2. Inr (m2, s)))
     else Inl (Panic ''page fault''))"

definition vmm_pageFault :: "(pid \<Rightarrow> u32) \<Rightarrow> u32 \<Rightarrow> phys \<times> sched \<Rightarrow> fault + (phys \<times> sched)" where
  "vmm_pageFault pd_of va = (\<lambda>(m, s).
     (case current s of
        None \<Rightarrow> Inl (Panic ''page fault without current process'')
      | Some proc \<Rightarrow> handlePageFault pd_of (pd_of proc) va (m, s)))"

section \<open>Addresses of words in frames\<close>

lemma hi_mask: "(0xfffff000 :: u32) = NOT (mask 12)"
  by (simp add: mask_eq_exp_minus_1)
lemma frame_of_alt: "frame_of w = push_bit 12 (drop_bit 12 w)"
  unfolding frame_of_def hi_mask by (rule bit_word_eqI) (auto simp: bit_simps)

lemma unat_frame_of: "unat (frame_of w) = unat w div 4096 * 4096"
proof -
  have d: "unat (drop_bit 12 w) = unat w div 4096" unfolding unat_drop_bit_eq by (simp add: drop_bit_eq_div)
  have "unat w div 4096 * 4096 < 4294967296" using unat_lt_u32 [of w] by (metis div_times_less_eq_dividend le_less_trans)
  then show ?thesis unfolding frame_of_alt push_bit_eq_mult
    by (simp add: unat_word_ariths d)
qed
lemma aligned_frame: "frame_of w = w \<longleftrightarrow> unat w mod 4096 = 0"
  unfolding word_unat_eq_iff unat_frame_of by (metis add.right_neutral add_left_cancel  div_mult_mod_eq)

lemma aligned_mult: assumes "frame_of f = f" obtains a where "unat f = 4096 * a" "a < 1048576"
proof -
  have "unat f mod 4096 = 0" using assms by (simp add: aligned_frame)
  then obtain a where "unat f = 4096 * a" by (auto simp: mod_eq_0_iff_dvd elim!: dvdE)
  then show ?thesis using that unat_lt_u32 [of f] by simp
qed

lemma unat_slot: assumes "frame_of f = f" "k < 1024" shows "unat (slot f k) = unat f + 4 * k"
proof -
  obtain a where a: "unat f = 4096 * a" "a < 1048576" using aligned_mult [OF assms(1)] .
  then have "unat f + 4 * k < 2 ^ 32" using assms(2) by simp
  moreover have "unat (4 * of_nat k :: u32) = 4 * k"
    using assms(2) by (simp add: unat_word_ariths unat_of_nat_u32)
  ultimately show ?thesis unfolding slot_def by (subst unat_plus_u32) simp_all
qed
lemma nat_slot: "k < 1024 \<Longrightarrow> l < 1024 \<Longrightarrow> 4096 * a + 4 * k = 4096 * b + 4 * (l :: nat) \<Longrightarrow> a = b \<and> k = l"
  by (cases a b rule: linorder_cases) linarith+

lemma slot_inj: assumes "frame_of f = f" "frame_of g = g" "k < 1024" "l < 1024"
  shows "slot f k = slot g l \<longleftrightarrow> f = g \<and> k = l"
proof
  assume e: "slot f k = slot g l"
  obtain a b where ab: "unat f = 4096 * a" "unat g = 4096 * b" using aligned_mult assms(1,2) by metis
  have "unat f + 4 * k = unat g + 4 * l" using e unat_slot assms by metis
  then have "a = b \<and> k = l" using nat_slot [OF assms(3,4)] unfolding ab by blast
  then show "f = g \<and> k = l" using ab by (simp add: word_unat_eq_iff)
qed simp
lemma in_frame: assumes "frame_of f = f" "frame_of g = g" "k < 1024"
  shows "slot f k - g < 4096 \<longleftrightarrow> f = g"
proof -
  obtain a where a: "unat f = 4096 * a" "a < 1048576" using aligned_mult [OF assms(1)] .
  obtain b where b: "unat g = 4096 * b" "b < 1048576" using aligned_mult [OF assms(2)] .
  have us: "unat (slot f k) = 4096 * a + 4 * k" using unat_slot assms(1,3) a by simp
  show ?thesis
  proof (cases "g \<le> slot f k")
    case True
    then have d: "unat (slot f k - g) = 4096 * a + 4 * k - 4096 * b" using us b by (simp add: unat_sub word_le_nat_alt)
    have le: "4096 * b \<le> 4096 * a + 4 * k" using True us b by (simp add: word_le_nat_alt)
    have "4096 * a + 4 * k - 4096 * b < 4096 \<longleftrightarrow> a = b"
      using le assms(3) by (cases a b rule: linorder_cases) linarith+
    then have "slot f k - g < 4096 \<longleftrightarrow> a = b" using d by (simp add: word_less_nat_alt)
    then show ?thesis using a b by (auto simp: word_unat_eq_iff)
  next
    case False
    then have lt: "4096 * a + 4 * k < 4096 * b" using us b by (simp add: word_le_nat_alt)
    have "unat (slot f k - g) = 4294967296 + (4096 * a + 4 * k) - 4096 * b"
      using False us b by (simp add: unat_sub_if' word_le_nat_alt)
    moreover have "4096 \<le> 4294967296 + (4096 * a + 4 * k) - 4096 * b" using b lt by linarith
    ultimately have "\<not> slot f k - g < 4096" by (simp add: word_less_nat_alt)
    moreover have "f \<noteq> g" using lt a b by auto
    ultimately show ?thesis by blast
  qed
qed
lemma frame_of_idem [simp]: "frame_of (frame_of w) = frame_of w"
  by (simp add: frame_of_def and.assoc)

lemma bit_frame_of: "bit (frame_of w) n \<longleftrightarrow> 12 \<le> n \<and> n < 32 \<and> bit w n"
  unfolding frame_of_def hi_mask by (auto simp: bit_simps)

lemma lo_mask: "(0x3ff :: u32) = mask 10" by (simp add: mask_eq_exp_minus_1)
lemma i0_of_div: "i0_of va = unat va div 2 ^ 22"
proof -
  have "unat va div 2 ^ 22 < 2 ^ 10" using unat_lt_u32 [of va] by (simp add: less_mult_imp_div_less)
  then show ?thesis
    unfolding i0_of_def lo_mask take_bit_eq_mask [symmetric] unsigned_take_bit_eq unat_drop_bit_eq
    by (simp add: take_bit_eq_mod drop_bit_eq_div)
qed
lemma i1_of_div: "i1_of va = unat va div 4096 mod 1024"
    unfolding i1_of_def lo_mask take_bit_eq_mask [symmetric] unsigned_take_bit_eq unat_drop_bit_eq
    by (simp add: take_bit_eq_mod drop_bit_eq_div)
lemma idx_less: "i0_of va < 1024" "i1_of va < 1024"
  using unat_lt_u32 [of va] by (simp_all add: i0_of_div i1_of_div less_mult_imp_div_less)

lemma bit_small: "i < 1024 \<Longrightarrow> bit i n \<Longrightarrow> n < 10" for i :: nat
proof (rule ccontr)
  assume a: "i < 1024" "bit i n" "\<not> n < 10"
  have "(2::nat) ^ 10 \<le> 2 ^ n" using a(3) by (intro power_increasing) simp_all
  then have "i < 2 ^ n" using a(1) by simp
  then show False using a(2) by (simp add: bit_iff_odd)
qed
lemma va_of_idx: assumes "i < 1024" "j < 1024" shows "i0_of (va_of i j) = i" "i1_of (va_of i j) = j"
proof -
  have "drop_bit 22 (va_of i j) AND mask 10 = of_nat i"
    by (rule bit_word_eqI) (use assms in \<open>auto simp: va_of_def bit_simps dest: bit_small [OF assms(1)] bit_small [OF assms(2)]\<close>)
  then show "i0_of (va_of i j) = i" unfolding i0_of_def lo_mask using assms(1) by (simp add: unat_of_nat_u32)
  have "drop_bit 12 (va_of i j) AND mask 10 = of_nat j"
    by (rule bit_word_eqI) (use assms in \<open>auto simp: va_of_def bit_simps dest: bit_small\<close>)
  then show "i1_of (va_of i j) = j" unfolding i1_of_def lo_mask using assms(2) by (simp add: unat_of_nat_u32)
qed
lemma bit_flags: "bit (4::int) n \<longleftrightarrow> n = 2" "bit (2::int) n \<longleftrightarrow> n = 1" "bit (7::int) n \<longleftrightarrow> n < 3"
proof -
  have e: "(4::int) = push_bit 2 1" "(2::int) = push_bit 1 1" "(7::int) = mask 3"
    by (simp_all add: push_bit_eq_mult mask_eq_exp_minus_1)
  show "bit (4::int) n \<longleftrightarrow> n = 2" unfolding e by (auto simp only: bit_push_bit_iff bit_1_iff possible_bit_int)
  show "bit (2::int) n \<longleftrightarrow> n = 1" unfolding e by (auto simp only: bit_push_bit_iff bit_1_iff possible_bit_int)
  show "bit (7::int) n \<longleftrightarrow> n < 3" unfolding e by (auto simp only: bit_mask_iff possible_bit_int)
qed
lemma and_flag: "x AND 4 \<noteq> 0 \<longleftrightarrow> bit x 2" "x AND 2 \<noteq> 0 \<longleftrightarrow> bit x 1" "x AND 1 \<noteq> 0 \<longleftrightarrow> bit x 0" for x :: u32
  unfolding bit_eq_iff by (auto simp: bit_simps bit_flags)
lemma frame_pte_word: "frame_of (pte_word pa u w) = frame_of pa"
  by (rule bit_word_eqI) (auto simp: bit_frame_of pte_word_def bit_simps bit_flags vmm_consts)
lemma present_pte_word: "pte_word pa u w AND 1 \<noteq> 0" "(pte_word pa u w AND 4 \<noteq> 0) = u" "(pte_word pa u w AND 2 \<noteq> 0) = w" 
   unfolding and_flag by (auto simp: pte_word_def bit_simps bit_flags bit_frame_of vmm_consts)
lemma frame_7: "frame_of (p OR 7) = frame_of p" "(p OR 7) AND (1::u32) \<noteq> 0"
  subgoal by (rule bit_word_eqI) (auto simp: bit_frame_of bit_simps bit_flags simp del: bit_numeral_simps)
  subgoal unfolding and_flag by (simp add: bit_simps bit_flags)
  done

section \<open>The state of the page tables\<close>

definition present :: "u32 \<Rightarrow> bool" where
  "present w \<longleftrightarrow> bit w 0"

lemma and_P [simp]: "w AND PTE_P = 0 \<longleftrightarrow> \<not> present w"
  using and_flag(3) [of w] by (auto simp: present_def PTE_P_def)

lemma present_words [simp]: "present (p OR 7)" "present (pte_word pa u w)" "\<not> present 0"
  using frame_7(2) present_pte_word(1) and_flag(3) by (auto simp: present_def)

definition pde :: "phys \<Rightarrow> u32 \<Rightarrow> nat \<Rightarrow> u32" where
  "pde s d i = mem s (slot d i)"

definition pte_of :: "phys \<Rightarrow> u32 \<Rightarrow> nat \<Rightarrow> nat \<Rightarrow> u32" where
  "pte_of s d i j = (if present (pde s d i) then mem s (slot (frame_of (pde s d i)) j) else 0)"

text \<open>The translation of the processor: frame and permissions.\<close>

definition translate :: "phys \<Rightarrow> u32 \<Rightarrow> u32 \<Rightarrow> (u32 \<times> bool \<times> bool) option" where
  "translate s d va =
     (let w = pte_of s d (i0_of va) (i1_of va) in
      if present w then Some (frame_of w OR (va AND 0xfff), w AND PTE_U \<noteq> 0, w AND PTE_W \<noteq> 0) else None)"

text \<open>
  Who uses a frame: the free list, a page directory, a page table or a page of a user address
  space. A frame with no owner is one that the running operation has just taken.
\<close>

datatype owner = Free | Dir | Table u32 nat | Page u32 nat nat

fun flist :: "(u32 \<Rightarrow> u32) \<Rightarrow> u32 \<Rightarrow> u32 list \<Rightarrow> bool" where
  "flist m a [] \<longleftrightarrow> a = 0"
| "flist m a (f # fs) \<longleftrightarrow> a = f \<and> f \<noteq> 0 \<and> flist m (m f) fs"

definition nums_ok :: "phys \<Rightarrow> (u32 \<Rightarrow> owner option) \<Rightarrow> bool" where
  "nums_ok s own \<longleftrightarrow> frame_of (avail s) = avail s \<and> 0 < avail s \<and> avail s \<le> limit s
     \<and> frame_of (limit s) = limit s \<and> limit s \<le> 0x400000
     \<and> (\<forall>f. own f \<noteq> None \<longrightarrow> frame_of f = f \<and> f \<noteq> 0 \<and> f < avail s)"

definition free_ok :: "phys \<Rightarrow> (u32 \<Rightarrow> owner option) \<Rightarrow> bool" where
  "free_ok s own \<longleftrightarrow> (\<exists>fs. flist (mem s) (firstFree s) fs \<and> distinct fs \<and> set fs = {f. own f = Some Free})"

definition tabs_ok :: "(u32 \<Rightarrow> nat \<Rightarrow> u32) \<Rightarrow> (u32 \<Rightarrow> nat \<Rightarrow> nat \<Rightarrow> u32) \<Rightarrow> u32 set \<Rightarrow> (u32 \<Rightarrow> owner option) \<Rightarrow> bool" where
  "tabs_ok P Q D own \<longleftrightarrow> (\<forall>d. own d = Some Dir \<longleftrightarrow> d \<in> D)
     \<and> (\<forall>f d i. own f = Some (Table d i) \<longleftrightarrow> d \<in> D \<and> i < 1024 \<and> present (P d i) \<and> frame_of (P d i) = f)
     \<and> (\<forall>f d i j. own f = Some (Page d i j) \<longleftrightarrow>
          d \<in> D \<and> 512 \<le> i \<and> i < 1024 \<and> j < 1024 \<and> present (Q d i j) \<and> frame_of (Q d i j) = f)
     \<and> (\<forall>d \<in> D. \<forall>i. 0 < i \<longrightarrow> i < 512 \<longrightarrow> \<not> present (P d i))"

definition vm_inv :: "phys \<Rightarrow> u32 set \<Rightarrow> (u32 \<Rightarrow> owner option) \<Rightarrow> bool" where
  "vm_inv s D own \<longleftrightarrow> nums_ok s own \<and> free_ok s own \<and> tabs_ok (pde s) (pte_of s) D own"

lemma vm_invD:
  assumes "vm_inv s D own"
  shows "nums_ok s own" "free_ok s own" "tabs_ok (pde s) (pte_of s) D own"
  using assms by (simp_all add: vm_inv_def)

lemma ownD:
  assumes "vm_inv s D own" "own f = Some x"
  shows "frame_of f = f" "f \<noteq> 0" "f < avail s"
  using assms by (auto simp: vm_inv_def nums_ok_def)

lemma dirD: "vm_inv s D own \<Longrightarrow> d \<in> D \<Longrightarrow> own d = Some Dir"
  by (simp add: vm_inv_def tabs_ok_def)

lemma tableD:
  "vm_inv s D own \<Longrightarrow> d \<in> D \<Longrightarrow> i < 1024 \<Longrightarrow> present (pde s d i) \<Longrightarrow> own (frame_of (pde s d i)) = Some (Table d i)"
  unfolding vm_inv_def tabs_ok_def by blast

lemma tableD':
  "vm_inv s D own \<Longrightarrow> own f = Some (Table d i) \<Longrightarrow> d \<in> D \<and> i < 1024 \<and> present (pde s d i) \<and> frame_of (pde s d i) = f"
  unfolding vm_inv_def tabs_ok_def by blast

lemma pageD:
  "vm_inv s D own \<Longrightarrow> d \<in> D \<Longrightarrow> 512 \<le> i \<Longrightarrow> i < 1024 \<Longrightarrow> j < 1024 \<Longrightarrow> present (pte_of s d i j)
     \<Longrightarrow> own (frame_of (pte_of s d i j)) = Some (Page d i j)"
  unfolding vm_inv_def tabs_ok_def by blast

lemma pageD':
  "vm_inv s D own \<Longrightarrow> own f = Some (Page d i j) \<Longrightarrow>
     d \<in> D \<and> 512 \<le> i \<and> i < 1024 \<and> j < 1024 \<and> present (pte_of s d i j) \<and> frame_of (pte_of s d i j) = f"
  unfolding vm_inv_def tabs_ok_def by blast

lemma tabs_ok_cong:
  assumes "tabs_ok P Q D own" "\<And>d i. d \<in> D \<Longrightarrow> i < 1024 \<Longrightarrow> P' d i = P d i"
    "\<And>d i j. d \<in> D \<Longrightarrow> i < 1024 \<Longrightarrow> j < 1024 \<Longrightarrow> Q' d i j = Q d i j"
  shows "tabs_ok P' Q' D own"
proof -
  have "d \<in> D \<and> i < 1024 \<and> present (P' d i) \<and> frame_of (P' d i) = f \<longleftrightarrow>
      d \<in> D \<and> i < 1024 \<and> present (P d i) \<and> frame_of (P d i) = f" for d i f
    using assms(2) by auto
  moreover have "d \<in> D \<and> 512 \<le> i \<and> i < 1024 \<and> j < 1024 \<and> present (Q' d i j) \<and> frame_of (Q' d i j) = f \<longleftrightarrow>
      d \<in> D \<and> 512 \<le> i \<and> i < 1024 \<and> j < 1024 \<and> present (Q d i j) \<and> frame_of (Q d i j) = f" for d i j f
    using assms(3) by auto
  moreover have "present (P' d i) \<longleftrightarrow> present (P d i)" if "d \<in> D" "i < 512" for d i
    using assms(2) [of d i] that by simp
  ultimately show ?thesis using assms(1) unfolding tabs_ok_def by simp
qed

text \<open>Writing to a frame that is neither a directory nor a table.\<close>

lemma tables_same:
  assumes inv: "vm_inv s D own" and g: "own g \<noteq> Some Dir" "\<And>d i. own g \<noteq> Some (Table d i)"
    and same: "\<And>f k. frame_of f = f \<Longrightarrow> f \<noteq> g \<Longrightarrow> k < 1024 \<Longrightarrow> mem s' (slot f k) = mem s (slot f k)"
  shows "d \<in> D \<Longrightarrow> i < 1024 \<Longrightarrow> pde s' d i = pde s d i"
    "d \<in> D \<Longrightarrow> i < 1024 \<Longrightarrow> j < 1024 \<Longrightarrow> pte_of s' d i j = pte_of s d i j"
proof -
  have P: "pde s' d i = pde s d i" if "d \<in> D" "i < 1024" for d i
  proof -
    have o: "own d = Some Dir" using dirD [OF inv that(1)] .
    then have "d \<noteq> g" using g(1) by auto
    then show ?thesis using same ownD(1) [OF inv o] that(2) by (simp add: pde_def)
  qed
  then show "d \<in> D \<Longrightarrow> i < 1024 \<Longrightarrow> pde s' d i = pde s d i" .
  assume a: "d \<in> D" "i < 1024" "j < 1024"
  show "pte_of s' d i j = pte_of s d i j"
  proof (cases "present (pde s d i)")
    case True
    have o: "own (frame_of (pde s d i)) = Some (Table d i)" using tableD [OF inv a(1,2) True] .
    then have "frame_of (pde s d i) \<noteq> g" using g(2) by auto
    then show ?thesis using same a True P by (simp add: pte_of_def)
  qed (use a P in \<open>simp add: pte_of_def\<close>)
qed

lemma flist_cong: "flist m a fs \<Longrightarrow> (\<And>f. f \<in> set fs \<Longrightarrow> m' f = m f) \<Longrightarrow> flist m' a fs"
  by (induction fs arbitrary: a) auto

lemma slot_0 [simp]: "slot f 0 = f"
  by (simp add: slot_def)

section \<open>Taking and giving back frames\<close>

lemma aligned_next: assumes "frame_of a = a" "a < b" "frame_of b = b"
  shows "frame_of (a + FRAME_SIZE) = a + FRAME_SIZE" "a < a + FRAME_SIZE" "a + FRAME_SIZE \<le> b"
proof -
  obtain m where m: "unat a = 4096 * m" using aligned_mult [OF assms(1)] by blast
  obtain n where n: "unat b = 4096 * n" "n < 1048576" using aligned_mult [OF assms(3)] by blast
  have "m < n" using assms(2) m n(1) by (simp add: word_less_nat_alt)
  then have u: "unat (a + FRAME_SIZE) = 4096 * (m + 1)"
    using m n(2) by (subst unat_plus_u32) (simp_all add: FRAME_SIZE_def)
  then show "frame_of (a + FRAME_SIZE) = a + FRAME_SIZE" by (simp add: aligned_frame)
  show "a < a + FRAME_SIZE" using u m by (simp add: word_less_nat_alt)
  have "4096 * (m + 1) \<le> 4096 * n" using \<open>m < n\<close> by simp
  then show "a + FRAME_SIZE \<le> b" using u n(1) by (simp add: word_le_nat_alt)
qed

lemma bzero_frame_words:
  assumes "frame_of f = f" "frame_of p = p" "k < 1024"
  shows "mem (bzero_frame p s) (slot f k) = (if f = p then 0 else mem s (slot f k))"
  using in_frame [OF assms] by (simp add: bzero_frame_def FRAME_SIZE_def)

lemma memcpy_frame_words:
  assumes "frame_of f = f" "frame_of p = p" "k < 1024"
  shows "mem (memcpy_frame p q s) (slot f k) = (if f = p then mem s (slot q k) else mem s (slot f k))"
  using in_frame [OF assms] by (simp add: memcpy_frame_def FRAME_SIZE_def slot_def)

definition keeps :: "phys \<Rightarrow> (u32 \<Rightarrow> owner option) \<Rightarrow> phys \<Rightarrow> (u32 \<Rightarrow> owner option) \<Rightarrow> bool" where
  "keeps s own s' own' \<longleftrightarrow> avail s \<le> avail s' \<and> limit s' = limit s \<and>
     (\<forall>f. frame_of f = f \<longrightarrow> f < avail s \<longrightarrow> own f = None \<or> (\<exists>d i j. own f = Some (Page d i j)) \<longrightarrow>
       own' f = own f \<and> (\<forall>k < 1024. mem s' (slot f k) = mem s (slot f k)))"

lemma keeps_refl [simp]: "keeps s own s own"
  by (simp add: keeps_def)

lemma keepsD:
  assumes "keeps s own s' own'" "frame_of f = f" "f < avail s" "own f = None \<or> (\<exists>d i j. own f = Some (Page d i j))"
  shows "own' f = own f" "k < 1024 \<Longrightarrow> mem s' (slot f k) = mem s (slot f k)"
  using assms unfolding keeps_def by blast+


lemma keeps_trans:
  assumes "keeps s own s' own'" "keeps s' own' s'' own''"
  shows "keeps s own s'' own''"
  unfolding keeps_def
proof (intro conjI allI impI)
  show "avail s \<le> avail s''" "limit s'' = limit s" using assms unfolding keeps_def by auto
  fix f assume f: "frame_of f = f" "f < avail s" "own f = None \<or> (\<exists>d i j. own f = Some (Page d i j))"
  have l: "f < avail s'" using f(2) assms(1) unfolding keeps_def by (meson less_le_trans)
  have o: "own' f = own f" using keepsD(1) [OF assms(1) f] .
  have o': "own' f = None \<or> (\<exists>d i j. own' f = Some (Page d i j))" using f(3) o by simp
  show "own'' f = own f" using keepsD(1) [OF assms(2) f(1) l o'] o by simp
  show "mem s'' (slot f k) = mem s (slot f k)" if "k < 1024" for k
    using keepsD(2) [OF assms(2) f(1) l o' that] keepsD(2) [OF assms(1) f that] by simp
qed

lemma free_ok_cong:
  assumes "free_ok s own" "firstFree s' = firstFree s"
    "\<And>f. own f = Some Free \<Longrightarrow> mem s' f = mem s f" "\<And>f. own' f = Some Free \<longleftrightarrow> own f = Some Free"
  shows "free_ok s' own'"
proof -
  obtain fs where fs: "flist (mem s) (firstFree s) fs" "distinct fs" "set fs = {f. own f = Some Free}"
    using assms(1) unfolding free_ok_def by blast
  have "flist (mem s') (firstFree s') fs"
    unfolding assms(2) by (rule flist_cong [OF fs(1)]) (use fs(3) assms(3) in auto)
  with fs(2,3) assms(4) show ?thesis unfolding free_ok_def by auto
qed

lemma tabs_ok_own:
  assumes "tabs_ok P Q D own" "\<And>f x. x \<noteq> Free \<Longrightarrow> own' f = Some x \<longleftrightarrow> own f = Some x"
  shows "tabs_ok P Q D own'"
  using assms(1) assms(2) [of Dir] assms(2) [of "Table _ _"] assms(2) [of "Page _ _ _"]
  unfolding tabs_ok_def by simp

definition got_frame :: "phys \<Rightarrow> u32 set \<Rightarrow> (u32 \<Rightarrow> owner option) \<Rightarrow> u32 \<Rightarrow> phys \<Rightarrow> bool" where
  "got_frame s D own f s' \<longleftrightarrow> vm_inv s' D (own(f := None)) \<and> frame_of f = f \<and> f \<noteq> 0 \<and> f < avail s'
     \<and> (own f = Some Free \<or> own f = None \<and> avail s \<le> f)
     \<and> (\<forall>k < 1024. mem s' (slot f k) = 0)
     \<and> (\<forall>g k. frame_of g = g \<longrightarrow> g \<noteq> f \<longrightarrow> k < 1024 \<longrightarrow> mem s' (slot g k) = mem s (slot g k))
     \<and> (\<forall>d \<in> D. \<forall>i < 1024. pde s' d i = pde s d i \<and> (\<forall>j < 1024. pte_of s' d i j = pte_of s d i j))
     \<and> keeps s own s' (own(f := None))"

lemma alloc_frame_spec:
  assumes inv: "vm_inv s D own"
  shows "alloc_frame s = Inl (Panic ''no more frames'') \<or> (\<exists>f s'. alloc_frame s = Inr (f, s') \<and> got_frame s D own f s')"
proof -
  note I = vm_invD [OF inv]
  have N: "frame_of (avail s) = avail s" "0 < avail s" "avail s \<le> limit s" "frame_of (limit s) = limit s"
    "limit s \<le> 0x400000" "\<And>f x. own f = Some x \<Longrightarrow> frame_of f = f \<and> f \<noteq> 0 \<and> f < avail s"
    using I(1) unfolding nums_ok_def by auto
  obtain fs where fs: "flist (mem s) (firstFree s) fs" "distinct fs" "set fs = {f. own f = Some Free}"
    using I(2) unfolding free_ok_def by blast
  show ?thesis
  proof (cases "firstFree s = 0")
    case False
    then obtain gs where gs: "fs = firstFree s # gs" using fs(1) by (cases fs) auto
    let ?f = "firstFree s" and ?s = "s\<lparr>firstFree := mem s (firstFree s)\<rparr>"
    let ?s' = "bzero_frame ?f ?s" and ?own = "own(firstFree s := None)"
    have free: "own ?f = Some Free" using fs(3) gs by auto
    have f: "frame_of ?f = ?f" "?f < avail s" using N(6) [OF free] by auto
    have w: "mem ?s' (slot g k) = (if g = ?f then 0 else mem s (slot g k))" if "frame_of g = g" "k < 1024" for g k
      using bzero_frame_words [OF that(1) f(1) that(2), of ?s] by simp
    have T: "pde ?s' d i = pde s d i" "pte_of ?s' d i j = pte_of s d i j" if "d \<in> D" "i < 1024" "j < 1024" for d i j
      using tables_same [OF inv, of ?f ?s'] free w that by simp_all
    have mg: "mem ?s' g = mem s g" if "g \<in> set gs" for g
    proof -
      have "own g = Some Free" "g \<noteq> ?f" using that fs(2,3) gs by auto
      then show ?thesis using w [of g 0] N(6) by simp
    qed
    have "flist (mem s) (mem s ?f) gs" using fs(1) gs by simp
    then have "flist (mem ?s') (mem s ?f) gs" by (rule flist_cong) (rule mg)
    then have "flist (mem ?s') (firstFree ?s') gs" by (simp add: bzero_frame_def)
    moreover have "set gs = {f. ?own f = Some Free}" using fs(2,3) gs by auto
    ultimately have "free_ok ?s' ?own" using fs(2) gs unfolding free_ok_def by auto
    moreover have "nums_ok ?s' ?own"
      using N unfolding nums_ok_def by (auto simp: bzero_frame_def)
    moreover have "tabs_ok (pde ?s') (pte_of ?s') D ?own"
      using T free by (intro tabs_ok_own [OF tabs_ok_cong [OF I(3)]]) auto
    moreover have "keeps s own ?s' ?own"
      using free w unfolding keeps_def by (auto simp: bzero_frame_def)
    ultimately have "got_frame s D own ?f ?s'"
      unfolding got_frame_def vm_inv_def using f free w T False by (auto simp: bzero_frame_def)
    then show ?thesis using False by (auto simp: alloc_frame_def Let_def)
  next
    case True
    show ?thesis
    proof (cases "avail s = limit s")
      case a: False
      let ?f = "avail s" and ?s = "s\<lparr>avail := avail s + FRAME_SIZE\<rparr>"
      let ?s' = "bzero_frame ?f ?s"
      have lt: "avail s < limit s" using a N(3) by simp
      note nx = aligned_next [OF N(1) lt N(4)]
      have none: "own ?f = None" using N(6) [of ?f] by (cases "own ?f") auto
      then have oeq: "own(?f := None) = own" by auto
      have w: "mem ?s' (slot g k) = (if g = ?f then 0 else mem s (slot g k))" if "frame_of g = g" "k < 1024" for g k
        using bzero_frame_words [OF that(1) N(1) that(2), of ?s] by simp
      have T: "pde ?s' d i = pde s d i" "pte_of ?s' d i j = pte_of s d i j" if "d \<in> D" "i < 1024" "j < 1024" for d i j
        using tables_same [OF inv, of ?f ?s'] none w that by simp_all
      have "free_ok ?s' own"
      proof (rule free_ok_cong [OF I(2)])
        fix g assume "own g = Some Free"
        then have "frame_of g = g" "g \<noteq> ?f" using N(6) by auto
        then show "mem ?s' g = mem s g" using w [of g 0] by simp
      qed (simp_all add: bzero_frame_def)
      moreover have "nums_ok ?s' own"
        using N nx unfolding nums_ok_def by (auto simp: bzero_frame_def intro: less_trans)
      moreover have "tabs_ok (pde ?s') (pte_of ?s') D own"
        using T by (intro tabs_ok_cong [OF I(3)]) auto
      moreover have "keeps s own ?s' own"
        using w nx(2) unfolding keeps_def by (auto simp: bzero_frame_def)
      ultimately have "got_frame s D own ?f ?s'"
        unfolding got_frame_def vm_inv_def oeq using N(1,2) none w T nx by (auto simp: bzero_frame_def)
      then show ?thesis using True a by (auto simp: alloc_frame_def Let_def)
    qed (use True in \<open>simp add: alloc_frame_def\<close>)
  qed
qed

lemma free_frame_spec:
  assumes inv: "vm_inv s D own" and f: "own f = None" "frame_of f = f" "f \<noteq> 0" "f < avail s"
  shows "vm_inv (free_frame f s) D (own(f := Some Free))"
    "frame_of g = g \<Longrightarrow> g \<noteq> f \<Longrightarrow> k < 1024 \<Longrightarrow> mem (free_frame f s) (slot g k) = mem s (slot g k)"
    "d \<in> D \<Longrightarrow> i < 1024 \<Longrightarrow> pde (free_frame f s) d i = pde s d i"
    "d \<in> D \<Longrightarrow> i < 1024 \<Longrightarrow> j < 1024 \<Longrightarrow> pte_of (free_frame f s) d i j = pte_of s d i j"
proof -
  note I = vm_invD [OF inv]
  let ?s' = "free_frame f s" and ?own = "own(f := Some Free)"
  have w: "mem ?s' (slot g k) = mem s (slot g k)" if "frame_of g = g" "g \<noteq> f" "k < 1024" for g k
    using slot_inj [OF that(1) f(2) that(3), of 0] that(2) by (simp add: free_frame_def)
  then show "frame_of g = g \<Longrightarrow> g \<noteq> f \<Longrightarrow> k < 1024 \<Longrightarrow> mem ?s' (slot g k) = mem s (slot g k)" .
  have T: "pde ?s' d i = pde s d i" "pte_of ?s' d i j = pte_of s d i j" if "d \<in> D" "i < 1024" "j < 1024" for d i j
    using tables_same [OF inv, of f ?s'] f(1) w that by simp_all
  show "d \<in> D \<Longrightarrow> i < 1024 \<Longrightarrow> pde ?s' d i = pde s d i" using T(1) [of d i 0] by simp
  show "d \<in> D \<Longrightarrow> i < 1024 \<Longrightarrow> j < 1024 \<Longrightarrow> pte_of ?s' d i j = pte_of s d i j" by (rule T(2))
  obtain fs where fs: "flist (mem s) (firstFree s) fs" "distinct fs" "set fs = {f. own f = Some Free}"
    using I(2) unfolding free_ok_def by blast
  have nf: "f \<notin> set fs" using fs(3) f(1) by simp
  have "flist (mem ?s') (firstFree s) fs"
    by (rule flist_cong [OF fs(1)]) (use nf in \<open>auto simp: free_frame_def\<close>)
  then have "flist (mem ?s') (firstFree ?s') (f # fs)" using f(3) by (simp add: free_frame_def)
  moreover have "distinct (f # fs)" "set (f # fs) = {g. ?own g = Some Free}" using nf fs(2,3) by auto
  ultimately have "free_ok ?s' ?own" unfolding free_ok_def by blast
  moreover have "nums_ok ?s' ?own" using I(1) f unfolding nums_ok_def by (auto simp: free_frame_def)
  moreover have "tabs_ok (pde ?s') (pte_of ?s') D ?own"
    using T f(1) by (intro tabs_ok_own [OF tabs_ok_cong [OF I(3)]]) auto
  ultimately show "vm_inv ?s' D ?own" by (simp add: vm_inv_def)
qed


section \<open>Page table entries\<close>

text \<open>Writing an entry of a page table.\<close>

lemma write_pte:
  assumes inv: "vm_inv s D own" and t: "own t = Some (Table d i)" and j: "j < 1024"
    and s': "s' = s\<lparr>mem := (mem s)(slot t j := v)\<rparr>"
  shows "frame_of g = g \<Longrightarrow> g \<noteq> t \<Longrightarrow> k < 1024 \<Longrightarrow> mem s' (slot g k) = mem s (slot g k)"
    "d' \<in> D \<Longrightarrow> i' < 1024 \<Longrightarrow> pde s' d' i' = pde s d' i'"
    "d' \<in> D \<Longrightarrow> i' < 1024 \<Longrightarrow> j' < 1024 \<Longrightarrow>
       pte_of s' d' i' j' = (if d' = d \<and> i' = i \<and> j' = j then v else pte_of s d' i' j')"
    "free_ok s' own" "nums_ok s' own" "keeps s own s' own"
proof -
  note I = vm_invD [OF inv] and T = tableD' [OF inv t] and ft = ownD [OF inv t]
  have w: "mem s' (slot g k) = (if g = t \<and> k = j then v else mem s (slot g k))"
    if "frame_of g = g" "k < 1024" for g k
    using slot_inj [OF that(1) ft(1) that(2) j] by (auto simp: s')
  then show "frame_of g = g \<Longrightarrow> g \<noteq> t \<Longrightarrow> k < 1024 \<Longrightarrow> mem s' (slot g k) = mem s (slot g k)" by simp
  have P: "pde s' d' i' = pde s d' i'" if "d' \<in> D" "i' < 1024" for d' i'
  proof -
    have "own d' = Some Dir" using dirD [OF inv that(1)] .
    then have "d' \<noteq> t" "frame_of d' = d'" using t ownD(1) [OF inv] by auto
    then show ?thesis using w that(2) by (simp add: pde_def)
  qed
  then show "d' \<in> D \<Longrightarrow> i' < 1024 \<Longrightarrow> pde s' d' i' = pde s d' i'" .
  show "pte_of s' d' i' j' = (if d' = d \<and> i' = i \<and> j' = j then v else pte_of s d' i' j')"
    if a: "d' \<in> D" "i' < 1024" "j' < 1024"
  proof (cases "present (pde s d' i')")
    case True
    have o: "own (frame_of (pde s d' i')) = Some (Table d' i')" by (rule tableD [OF inv a(1,2) True])
    then have "frame_of (pde s d' i') = t \<longleftrightarrow> d' = d \<and> i' = i"
      using t T by (metis option.inject owner.inject(1))
    then show ?thesis using P [OF a(1,2)] True w [of "frame_of (pde s d' i')" j'] a(3)
      by (auto simp: pte_of_def)
  next
    case False
    then have "\<not> (d' = d \<and> i' = i)" using T by auto
    then show ?thesis using P [OF a(1,2)] False by (auto simp: pte_of_def)
  qed
  show "free_ok s' own"
  proof (rule free_ok_cong [OF I(2)])
    fix g assume g: "own g = Some Free"
    then have "g \<noteq> t" "frame_of g = g" using t ownD(1) [OF inv g] by auto
    then show "mem s' g = mem s g" using w [of g 0] by simp
  qed (simp_all add: s')
  show "nums_ok s' own" using I(1) unfolding nums_ok_def s' by simp
  have "g \<noteq> t" if "own g = None \<or> (\<exists>d i j. own g = Some (Page d i j))" for g using t that by auto
  then show "keeps s own s' own" using w unfolding keeps_def by (simp add: s')
qed

text \<open>Entering a new, empty page table in a directory.\<close>

lemma new_table:
  assumes inv: "vm_inv s D own" and d: "d \<in> D" "i < 1024" "i = 0 \<or> 512 \<le> i" "\<not> present (pde s d i)"
    and f: "own f = None" "frame_of f = f" "f \<noteq> 0" "f < avail s" "\<forall>k < 1024. mem s (slot f k) = 0"
    and s': "s' = s\<lparr>mem := (mem s)(slot d i := f OR 7)\<rparr>"
  shows "vm_inv s' D (own(f := Some (Table d i)))"
    "d' \<in> D \<Longrightarrow> i' < 1024 \<Longrightarrow> pde s' d' i' = (if d' = d \<and> i' = i then f OR 7 else pde s d' i')"
    "d' \<in> D \<Longrightarrow> i' < 1024 \<Longrightarrow> j' < 1024 \<Longrightarrow> pte_of s' d' i' j' = pte_of s d' i' j'"
    "frame_of g = g \<Longrightarrow> g \<noteq> d \<Longrightarrow> k < 1024 \<Longrightarrow> mem s' (slot g k) = mem s (slot g k)"
proof -
  note I = vm_invD [OF inv]
  let ?own = "own(f := Some (Table d i))"
  have o: "own d = Some Dir" by (rule dirD [OF inv d(1)])
  note fd = ownD [OF inv o]
  have w: "mem s' (slot g k) = (if g = d \<and> k = i then f OR 7 else mem s (slot g k))"
    if "frame_of g = g" "k < 1024" for g k
    using slot_inj [OF that(1) fd(1) that(2) d(2)] by (auto simp: s')
  then show "frame_of g = g \<Longrightarrow> g \<noteq> d \<Longrightarrow> k < 1024 \<Longrightarrow> mem s' (slot g k) = mem s (slot g k)" by simp
  have P: "pde s' d' i' = (if d' = d \<and> i' = i then f OR 7 else pde s d' i')" if "d' \<in> D" "i' < 1024" for d' i'
  proof -
    have "frame_of d' = d'" using dirD [OF inv that(1)] ownD(1) [OF inv] by blast
    then show ?thesis using w that(2) by (simp add: pde_def)
  qed
  then show "d' \<in> D \<Longrightarrow> i' < 1024 \<Longrightarrow> pde s' d' i' = (if d' = d \<and> i' = i then f OR 7 else pde s d' i')" .
  have ff: "frame_of (f OR 7) = f" using frame_7(1) f(2) by simp
  have Q: "pte_of s' d' i' j' = pte_of s d' i' j'" if a: "d' \<in> D" "i' < 1024" "j' < 1024" for d' i' j'
  proof (cases "d' = d \<and> i' = i")
    case True
    have "f \<noteq> d" using f(1) o by auto
    then have "mem s' (slot f j') = 0" using w [OF f(2) a(3)] f(5) a(3) by simp
    then show ?thesis using True P [OF a(1,2)] d(4) ff by (auto simp: pte_of_def)
  next
    case False
    then have p: "pde s' d' i' = pde s d' i'" using P [OF a(1,2)] by auto
    show ?thesis
    proof (cases "present (pde s d' i')")
      case True
      have "own (frame_of (pde s d' i')) = Some (Table d' i')" by (rule tableD [OF inv a(1,2) True])
      then have "frame_of (pde s d' i') \<noteq> d" using o by auto
      then show ?thesis using p True w [of "frame_of (pde s d' i')" j'] a(3) by (simp add: pte_of_def)
    qed (simp add: pte_of_def p)
  qed
  then show "d' \<in> D \<Longrightarrow> i' < 1024 \<Longrightarrow> j' < 1024 \<Longrightarrow> pte_of s' d' i' j' = pte_of s d' i' j'" .
  have "free_ok s' ?own"
  proof (rule free_ok_cong [OF I(2)])
    fix g assume g: "own g = Some Free"
    then have "g \<noteq> d" "frame_of g = g" using o ownD(1) [OF inv g] by auto
    then show "mem s' g = mem s g" using w [of g 0] by simp
  qed (use f(1) in \<open>auto simp: s'\<close>)
  moreover have "nums_ok s' ?own" using I(1) f unfolding nums_ok_def s' by auto
  moreover have "tabs_ok (pde s') (pte_of s') D ?own"
  proof -
    note A = I(3) [unfolded tabs_ok_def]
    have "?own g = Some (Table d' i') \<longleftrightarrow> d' \<in> D \<and> i' < 1024 \<and> present (pde s' d' i') \<and> frame_of (pde s' d' i') = g" for g d' i'
    proof (cases "d' = d \<and> i' = i")
      case True
      then have "own g \<noteq> Some (Table d' i')" using A d(4) by auto
      then show ?thesis using True P [of d i] d(1,2) ff by auto
    next
      case False
      then have "?own g = Some (Table d' i') \<longleftrightarrow> own g = Some (Table d' i')" using f(1) by auto
      also have "\<dots> \<longleftrightarrow> d' \<in> D \<and> i' < 1024 \<and> present (pde s d' i') \<and> frame_of (pde s d' i') = g" using A by blast
      also have "\<dots> \<longleftrightarrow> d' \<in> D \<and> i' < 1024 \<and> present (pde s' d' i') \<and> frame_of (pde s' d' i') = g" using P False by auto
      finally show ?thesis .
    qed
    moreover have "?own g = Some (Page d' i' j') \<longleftrightarrow>
        d' \<in> D \<and> 512 \<le> i' \<and> i' < 1024 \<and> j' < 1024 \<and> present (pte_of s' d' i' j') \<and> frame_of (pte_of s' d' i' j') = g" for g d' i' j'
    proof -
      have "?own g = Some (Page d' i' j') \<longleftrightarrow> own g = Some (Page d' i' j')" using f(1) by auto
      also have "\<dots> \<longleftrightarrow> d' \<in> D \<and> 512 \<le> i' \<and> i' < 1024 \<and> j' < 1024 \<and> present (pte_of s d' i' j') \<and> frame_of (pte_of s d' i' j') = g"
        using A by blast
      finally show ?thesis using Q by auto
    qed
    moreover have "?own d' = Some Dir \<longleftrightarrow> d' \<in> D" for d'
    proof -
      have "own d' = Some Dir \<longleftrightarrow> d' \<in> D" using A by blast
      then show ?thesis using f(1) by (cases "d' = f") simp_all
    qed
    moreover have "\<not> present (pde s' d' i')" if "d' \<in> D" "0 < i'" "i' < 512" for d' i'
      using A P [of d' i'] that d(3) by auto
    ultimately show ?thesis unfolding tabs_ok_def by blast
  qed
  ultimately show "vm_inv s' D ?own" by (simp add: vm_inv_def)
qed

definition got_pte :: "phys \<Rightarrow> u32 set \<Rightarrow> (u32 \<Rightarrow> owner option) \<Rightarrow> u32 \<Rightarrow> nat \<Rightarrow> u32 \<Rightarrow> phys \<Rightarrow> (u32 \<Rightarrow> owner option) \<Rightarrow> bool" where
  "got_pte s D own d i t s' own' \<longleftrightarrow> vm_inv s' D own' \<and> own' t = Some (Table d i)
     \<and> (\<forall>d' \<in> D. \<forall>i' < 1024. (d' \<noteq> d \<or> i' \<noteq> i \<longrightarrow> pde s' d' i' = pde s d' i')
          \<and> (\<forall>j' < 1024. pte_of s' d' i' j' = pte_of s d' i' j'))
     \<and> keeps s own s' own'"

lemma getPTE_spec:
  assumes inv: "vm_inv s D own" and d: "d \<in> D" "i0_of va = 0 \<or> 512 \<le> i0_of va"
  shows "getPTE d va s = Inl (Panic ''no more frames'')
    \<or> (\<exists>t s' own'. getPTE d va s = Inr (slot t (i1_of va), s') \<and> got_pte s D own d (i0_of va) t s' own')"
proof (cases "present (pde s d (i0_of va))")
  case True
  have "own (frame_of (pde s d (i0_of va))) = Some (Table d (i0_of va))"
    by (rule tableD [OF inv d(1) idx_less(1) True])
  then have "got_pte s D own d (i0_of va) (frame_of (pde s d (i0_of va))) s own"
    using inv by (simp add: got_pte_def)
  moreover have "getPTE d va s = Inr (slot (frame_of (pde s d (i0_of va))) (i1_of va), s)"
    using True by (simp add: getPTE_def pde_def Let_def)
  ultimately show ?thesis by blast
next
  case False
  let ?i = "i0_of va"
  consider "alloc_frame s = Inl (Panic ''no more frames'')"
    | f s1 where "alloc_frame s = Inr (f, s1)" "got_frame s D own f s1"
    using alloc_frame_spec [OF inv] by blast
  then show ?thesis
  proof cases
    case 1
    then show ?thesis using False by (simp add: getPTE_def pde_def Let_def)
  next
    case (2 f s1)
    let ?s2 = "s1\<lparr>mem := (mem s1)(slot d ?i := f OR 7)\<rparr>" and ?own = "own(f := Some (Table d ?i))"
    have G: "vm_inv s1 D (own(f := None))" "frame_of f = f" "f \<noteq> 0" "f < avail s1"
      "own f = Some Free \<or> own f = None \<and> avail s \<le> f" "\<forall>k < 1024. mem s1 (slot f k) = 0"
      "\<And>d i. d \<in> D \<Longrightarrow> i < 1024 \<Longrightarrow> pde s1 d i = pde s d i"
      "\<And>d i j. d \<in> D \<Longrightarrow> i < 1024 \<Longrightarrow> j < 1024 \<Longrightarrow> pte_of s1 d i j = pte_of s d i j"
      "keeps s own s1 (own(f := None))"
      using 2(2) unfolding got_frame_def by blast+
    have np: "\<not> present (pde s1 d ?i)" using False G(7) d(1) idx_less(1) by simp
    note N = new_table [OF G(1) d(1) idx_less(1) d(2) np _ G(2,3,4,6) refl, simplified fun_upd_upd]
    have N1: "vm_inv ?s2 D ?own" using N(1) by simp
    have od: "own d = Some Dir" by (rule dirD [OF inv d(1)])
    have "keeps s own ?s2 ?own"
      unfolding keeps_def
    proof (intro conjI allI impI)
      show "avail s \<le> avail ?s2" "limit ?s2 = limit s" using G(9) unfolding keeps_def by simp_all
      fix g assume g: "frame_of g = g" "g < avail s" "own g = None \<or> (\<exists>d i j. own g = Some (Page d i j))"
      have gf: "g \<noteq> f" using G(5) g(2,3) by auto
      have gd: "g \<noteq> d" using od g(3) by auto
      show "?own g = own g" using gf by simp
      show "mem ?s2 (slot g k) = mem s (slot g k)" if "k < 1024" for k
        using N(4) [of g k] keepsD(2) [OF G(9) g that] g(1) gd that by simp
    qed
    moreover have "?own f = Some (Table d ?i)" by simp
    moreover have "pde ?s2 d' i' = pde s d' i'" if "d' \<in> D" "i' < 1024" "d' \<noteq> d \<or> i' \<noteq> ?i" for d' i'
      using N(2) [of d' i'] G(7) that by auto
    moreover have "pte_of ?s2 d' i' j' = pte_of s d' i' j'" if "d' \<in> D" "i' < 1024" "j' < 1024" for d' i' j'
      using N(3) [of d' i' j'] G(8) that by simp
    ultimately have "got_pte s D own d ?i f ?s2 ?own"
      unfolding got_pte_def using N1 by blast
    moreover have "getPTE d va s = Inr (slot f (i1_of va), ?s2)"
      using False 2(1) frame_7(1) G(2) by (simp add: getPTE_def pde_def Let_def)
    ultimately show ?thesis by blast
  qed
qed


text \<open>Entering and removing a user page.\<close>

lemma set_page:
  assumes inv: "vm_inv s D own" and t: "own t = Some (Table d i)" and i: "512 \<le> i" and j: "j < 1024"
    and np: "\<not> present (pte_of s d i j)" and v: "present v" "frame_of v = f"
    and f: "own f = None" "frame_of f = f" "f \<noteq> 0" "f < avail s"
    and s': "s' = s\<lparr>mem := (mem s)(slot t j := v)\<rparr>"
  shows "vm_inv s' D (own(f := Some (Page d i j)))"
proof -
  note I = vm_invD [OF inv] and T = tableD' [OF inv t] and W = write_pte [OF inv t j s']
  let ?own = "own(f := Some (Page d i j))"
  have "free_ok s' ?own" using f(1) by (intro free_ok_cong [OF W(4)]) auto
  moreover have "nums_ok s' ?own" using W(5) f unfolding nums_ok_def s' by auto
  moreover have "tabs_ok (pde s') (pte_of s') D ?own"
  proof -
    note A = I(3) [unfolded tabs_ok_def]
    have "?own g = Some (Page d' i' j') \<longleftrightarrow>
        d' \<in> D \<and> 512 \<le> i' \<and> i' < 1024 \<and> j' < 1024 \<and> present (pte_of s' d' i' j') \<and> frame_of (pte_of s' d' i' j') = g" for g d' i' j'
    proof (cases "d' = d \<and> i' = i \<and> j' = j")
      case True
      then have "own g \<noteq> Some (Page d' i' j')" using A np by auto
      then show ?thesis using True W(3) [of d i j] T i j v by auto
    next
      case False
      have "?own g = Some (Page d' i' j') \<longleftrightarrow> own g = Some (Page d' i' j')" using f(1) False by auto
      also have "\<dots> \<longleftrightarrow> d' \<in> D \<and> 512 \<le> i' \<and> i' < 1024 \<and> j' < 1024 \<and> present (pte_of s d' i' j') \<and> frame_of (pte_of s d' i' j') = g"
        using A by blast
      finally show ?thesis using W(3) [of d' i' j'] False by auto
    qed
    moreover have "?own g = Some (Table d' i') \<longleftrightarrow> d' \<in> D \<and> i' < 1024 \<and> present (pde s' d' i') \<and> frame_of (pde s' d' i') = g" for g d' i'
    proof -
      have "?own g = Some (Table d' i') \<longleftrightarrow> own g = Some (Table d' i')" using f(1) by auto
      also have "\<dots> \<longleftrightarrow> d' \<in> D \<and> i' < 1024 \<and> present (pde s d' i') \<and> frame_of (pde s d' i') = g" using A by blast
      finally show ?thesis using W(2) [of d' i'] by auto
    qed
    moreover have "?own d' = Some Dir \<longleftrightarrow> d' \<in> D" for d'
    proof -
      have "own d' = Some Dir \<longleftrightarrow> d' \<in> D" using A by blast
      then show ?thesis using f(1) by (cases "d' = f") simp_all
    qed
    moreover have "\<not> present (pde s' d' i')" if "d' \<in> D" "0 < i'" "i' < 512" for d' i'
      using A W(2) [of d' i'] that by auto
    ultimately show ?thesis unfolding tabs_ok_def by blast
  qed
  ultimately show ?thesis by (simp add: vm_inv_def)
qed

lemma clear_page:
  assumes inv: "vm_inv s D own" and t: "own t = Some (Table d i)" and i: "512 \<le> i" and j: "j < 1024"
    and p: "present (pte_of s d i j)" and s': "s' = s\<lparr>mem := (mem s)(slot t j := 0)\<rparr>"
  shows "vm_inv s' D (own(frame_of (pte_of s d i j) := None))"
proof -
  note I = vm_invD [OF inv] and T = tableD' [OF inv t] and W = write_pte [OF inv t j s']
  let ?f = "frame_of (pte_of s d i j)"
  let ?own = "own(?f := None)"
  have f: "own ?f = Some (Page d i j)" using pageD [OF inv _ i _ j p] T by blast
  have "free_ok s' ?own" using f by (intro free_ok_cong [OF W(4)]) auto
  moreover have "nums_ok s' ?own" using W(5) unfolding nums_ok_def s' by auto
  moreover have "tabs_ok (pde s') (pte_of s') D ?own"
  proof -
    note A = I(3) [unfolded tabs_ok_def]
    have "?own g = Some (Page d' i' j') \<longleftrightarrow>
        d' \<in> D \<and> 512 \<le> i' \<and> i' < 1024 \<and> j' < 1024 \<and> present (pte_of s' d' i' j') \<and> frame_of (pte_of s' d' i' j') = g" for g d' i' j'
    proof (cases "d' = d \<and> i' = i \<and> j' = j")
      case True
      then have "?own g \<noteq> Some (Page d' i' j')" using A by auto
      then show ?thesis using True W(3) [of d i j] T j by auto
    next
      case False
      have "?own g = Some (Page d' i' j') \<longleftrightarrow> own g = Some (Page d' i' j')" using f False by auto
      also have "\<dots> \<longleftrightarrow> d' \<in> D \<and> 512 \<le> i' \<and> i' < 1024 \<and> j' < 1024 \<and> present (pte_of s d' i' j') \<and> frame_of (pte_of s d' i' j') = g"
        using A by blast
      finally show ?thesis using W(3) [of d' i' j'] False by auto
    qed
    moreover have "?own g = Some (Table d' i') \<longleftrightarrow> d' \<in> D \<and> i' < 1024 \<and> present (pde s' d' i') \<and> frame_of (pde s' d' i') = g" for g d' i'
    proof -
      have "?own g = Some (Table d' i') \<longleftrightarrow> own g = Some (Table d' i')" using f by auto
      also have "\<dots> \<longleftrightarrow> d' \<in> D \<and> i' < 1024 \<and> present (pde s d' i') \<and> frame_of (pde s d' i') = g" using A by blast
      finally show ?thesis using W(2) [of d' i'] by auto
    qed
    moreover have "?own d' = Some Dir \<longleftrightarrow> d' \<in> D" for d'
    proof -
      have "own d' = Some Dir \<longleftrightarrow> d' \<in> D" using A by blast
      then show ?thesis using f by (cases "d' = ?f") simp_all
    qed
    moreover have "\<not> present (pde s' d' i')" if "d' \<in> D" "0 < i'" "i' < 512" for d' i'
      using A W(2) [of d' i'] that by auto
    ultimately show ?thesis unfolding tabs_ok_def by blast
  qed
  ultimately show ?thesis by (simp add: vm_inv_def)
qed

text \<open>Filling a frame that nobody owns yet.\<close>

lemma fill_frame:
  assumes inv: "vm_inv s D own" and f: "own f = None"
    and g: "\<And>h k. frame_of h = h \<Longrightarrow> h \<noteq> f \<Longrightarrow> k < 1024 \<Longrightarrow> m (slot h k) = mem s (slot h k)"
  shows "vm_inv (s\<lparr>mem := m\<rparr>) D own"
    "d \<in> D \<Longrightarrow> i < 1024 \<Longrightarrow> pde (s\<lparr>mem := m\<rparr>) d i = pde s d i"
    "d \<in> D \<Longrightarrow> i < 1024 \<Longrightarrow> j < 1024 \<Longrightarrow> pte_of (s\<lparr>mem := m\<rparr>) d i j = pte_of s d i j"
proof -
  note I = vm_invD [OF inv]
  let ?s = "s\<lparr>mem := m\<rparr>"
  have T: "pde ?s d i = pde s d i" "pte_of ?s d i j = pte_of s d i j" if "d \<in> D" "i < 1024" "j < 1024" for d i j
    using tables_same [OF inv, of f ?s] f g that by simp_all
  show "d \<in> D \<Longrightarrow> i < 1024 \<Longrightarrow> pde ?s d i = pde s d i" using T(1) [of d i 0] by simp
  show "d \<in> D \<Longrightarrow> i < 1024 \<Longrightarrow> j < 1024 \<Longrightarrow> pte_of ?s d i j = pte_of s d i j" by (rule T(2))
  have "free_ok ?s own"
  proof (rule free_ok_cong [OF I(2)])
    fix h assume h: "own h = Some Free"
    then have "h \<noteq> f" "frame_of h = h" using f ownD(1) [OF inv h] by auto
    then show "mem ?s h = mem s h" using g [of h 0] by simp
  qed simp_all
  moreover have "nums_ok ?s own" using I(1) unfolding nums_ok_def by simp
  moreover have "tabs_ok (pde ?s) (pte_of ?s) D own" using T by (intro tabs_ok_cong [OF I(3)]) auto
  ultimately show "vm_inv ?s D own" by (simp add: vm_inv_def)
qed

text \<open>A new page for a user address: the frame, its contents, its entry.\<close>

definition got_page :: "phys \<Rightarrow> u32 set \<Rightarrow> (u32 \<Rightarrow> owner option) \<Rightarrow> u32 \<Rightarrow> nat \<Rightarrow> nat \<Rightarrow> (nat \<Rightarrow> u32) \<Rightarrow> phys \<Rightarrow> (u32 \<Rightarrow> owner option) \<Rightarrow> bool" where
  "got_page s D own d i j c s' own' \<longleftrightarrow> vm_inv s' D own' \<and> keeps s own s' own'
     \<and> (\<exists>f. pte_of s' d i j = pte_word f True True \<and> frame_of f = f \<and> own' f = Some (Page d i j)
          \<and> (\<forall>k < 1024. mem s' (slot f k) = c k))
     \<and> (\<forall>d' \<in> D. \<forall>i' < 1024. (d' \<noteq> d \<longrightarrow> pde s' d' i' = pde s d' i')
          \<and> (\<forall>j' < 1024. \<not> (d' = d \<and> i' = i \<and> j' = j) \<longrightarrow> pte_of s' d' i' j' = pte_of s d' i' j'))"

lemma map_new_page:
  assumes inv: "vm_inv s D own" and d: "d \<in> D" "512 \<le> i0_of va" "\<not> present (pte_of s d (i0_of va) (i1_of va))"
    and fill: "\<And>f s1. got_frame s D own f s1 \<Longrightarrow> \<exists>m. fill f s1 = s1\<lparr>mem := m\<rparr> \<and> (\<forall>k < 1024. m (slot f k) = c k)
        \<and> (\<forall>h k. frame_of h = h \<longrightarrow> h \<noteq> f \<longrightarrow> k < 1024 \<longrightarrow> m (slot h k) = mem s1 (slot h k))"
  shows "bindE (alloc_frame s) (\<lambda>(f, s1). pmap d va f True True (fill f s1)) = Inl (Panic ''no more frames'')
    \<or> (\<exists>s' own'. bindE (alloc_frame s) (\<lambda>(f, s1). pmap d va f True True (fill f s1)) = Inr s'
        \<and> got_page s D own d (i0_of va) (i1_of va) c s' own')"
proof -
  let ?i = "i0_of va" and ?j = "i1_of va"
  consider "alloc_frame s = Inl (Panic ''no more frames'')"
    | f s1 where "alloc_frame s = Inr (f, s1)" "got_frame s D own f s1"
    using alloc_frame_spec [OF inv] by blast
  then show ?thesis
  proof cases
    case 1
    then show ?thesis by simp
  next
    case (2 f s1)
    let ?own1 = "own(f := None)"
    have G: "vm_inv s1 D ?own1" "frame_of f = f" "f \<noteq> 0" "f < avail s1"
      "own f = Some Free \<or> own f = None \<and> avail s \<le> f"
      "\<And>d i. d \<in> D \<Longrightarrow> i < 1024 \<Longrightarrow> pde s1 d i = pde s d i"
      "\<And>d i j. d \<in> D \<Longrightarrow> i < 1024 \<Longrightarrow> j < 1024 \<Longrightarrow> pte_of s1 d i j = pte_of s d i j"
      "keeps s own s1 ?own1"
      using 2(2) unfolding got_frame_def by blast+
    obtain m where m: "fill f s1 = s1\<lparr>mem := m\<rparr>" "\<forall>k < 1024. m (slot f k) = c k"
      "\<And>h k. frame_of h = h \<Longrightarrow> h \<noteq> f \<Longrightarrow> k < 1024 \<Longrightarrow> m (slot h k) = mem s1 (slot h k)"
      using fill [OF 2(2)] by blast
    let ?s2 = "s1\<lparr>mem := m\<rparr>"
    have "?own1 f = None" by simp
    note F = fill_frame [OF G(1) this m(3)]
    have k2: "keeps s own ?s2 ?own1"
      unfolding keeps_def
    proof (intro conjI allI impI)
      show "avail s \<le> avail ?s2" "limit ?s2 = limit s" using G(8) unfolding keeps_def by simp_all
      fix h assume h: "frame_of h = h" "h < avail s" "own h = None \<or> (\<exists>d i j. own h = Some (Page d i j))"
      have hf: "h \<noteq> f" using G(5) h(2,3) by auto
      show "?own1 h = own h" using hf by simp
      show "mem ?s2 (slot h k) = mem s (slot h k)" if "k < 1024" for k
        using m(3) [OF h(1) hf that] keepsD(2) [OF G(8) h that] by simp
    qed
    consider "getPTE d va ?s2 = Inl (Panic ''no more frames'')"
      | t s3 own3 where "getPTE d va ?s2 = Inr (slot t ?j, s3)" "got_pte ?s2 D ?own1 d ?i t s3 own3"
      using getPTE_spec [OF F(1) d(1)] d(2) by blast
    then show ?thesis
    proof cases
      case 1
      then show ?thesis using 2(1) m(1) by (simp add: pmap_def)
    next
      case (2 t s3 own3)
      have H: "vm_inv s3 D own3" "own3 t = Some (Table d ?i)"
        "\<And>d' i'. d' \<in> D \<Longrightarrow> i' < 1024 \<Longrightarrow> d' \<noteq> d \<Longrightarrow> pde s3 d' i' = pde ?s2 d' i'"
        "\<And>d' i' j'. d' \<in> D \<Longrightarrow> i' < 1024 \<Longrightarrow> j' < 1024 \<Longrightarrow> pte_of s3 d' i' j' = pte_of ?s2 d' i' j'"
        "keeps ?s2 ?own1 s3 own3"
        using 2(2) unfolding got_pte_def by blast+
      have fl: "f < avail ?s2" using G(4) by simp
      have f3: "own3 f = None" "\<And>k. k < 1024 \<Longrightarrow> mem s3 (slot f k) = c k"
        using keepsD [OF H(5) G(2) fl] m(2) by auto
      have fl3: "f < avail s3" using fl H(5) unfolding keeps_def by (meson less_le_trans)
      have np: "\<not> present (pte_of s3 d ?i ?j)" using d H(4) F(3) G(7) idx_less by simp
      let ?v = "pte_word f True True"
      let ?s4 = "s3\<lparr>mem := (mem s3)(slot t ?j := ?v)\<rparr>" and ?own4 = "own3(f := Some (Page d ?i ?j))"
      have v: "present ?v" "frame_of ?v = f" using frame_pte_word G(2) by simp_all
      have inv4: "vm_inv ?s4 D ?own4"
        by (rule set_page [OF H(1,2) d(2) idx_less(2) np v f3(1) G(2,3) fl3 refl])
      note W = write_pte [where j = ?j and v = ?v, OF H(1,2) idx_less(2) refl]
      have ft: "f \<noteq> t" using f3(1) H(2) by auto
      have "keeps ?s2 ?own1 ?s4 own3" using keeps_trans [OF H(5) W(6)] .
      then have k4: "keeps s own ?s4 own3" using keeps_trans [OF k2] by blast
      have "keeps s own ?s4 ?own4"
        unfolding keeps_def
      proof (intro conjI allI impI)
        show "avail s \<le> avail ?s4" "limit ?s4 = limit s" using k4 unfolding keeps_def by blast+
        fix h assume h: "frame_of h = h" "h < avail s" "own h = None \<or> (\<exists>d i j. own h = Some (Page d i j))"
        have "h \<noteq> f" using G(5) h(2,3) by auto
        then show "?own4 h = own h" using keepsD(1) [OF k4 h] by simp
        show "mem ?s4 (slot h k) = mem s (slot h k)" if "k < 1024" for k
          by (rule keepsD(2) [OF k4 h that])
      qed
      moreover have "\<exists>f. pte_of ?s4 d ?i ?j = pte_word f True True \<and> frame_of f = f \<and> ?own4 f = Some (Page d ?i ?j)
          \<and> (\<forall>k < 1024. mem ?s4 (slot f k) = c k)"
        using W(1) [OF G(2) ft] W(3) [OF d(1) idx_less] f3(2) G(2) by (intro exI [of _ f]) simp
      moreover have "pde ?s4 d' i' = pde s d' i'" if "d' \<in> D" "i' < 1024" "d' \<noteq> d" for d' i'
        using W(2) [of d' i'] H(3) F(2) G(6) that by simp
      moreover have "pte_of ?s4 d' i' j' = pte_of s d' i' j'"
        if "d' \<in> D" "i' < 1024" "j' < 1024" "\<not> (d' = d \<and> i' = ?i \<and> j' = ?j)" for d' i' j'
        using W(3) [of d' i' j'] H(4) F(3) G(7) that by auto
      ultimately have "got_page s D own d ?i ?j c ?s4 ?own4"
        unfolding got_page_def using inv4 by blast
      moreover have "bindE (alloc_frame s) (\<lambda>(f, s1). pmap d va f True True (fill f s1)) = Inr ?s4"
        using \<open>alloc_frame s = Inr (f, s1)\<close> m(1) 2(1) by (simp add: pmap_def)
      ultimately show ?thesis by blast
    qed
  qed
qed

end
