(* ===== verification/Scheduler_Properties.thy ===== *)
theory Scheduler_Properties
  imports Scheduler_System
begin

text \<open>
  The properties of the scheduler: what each operation does to the ready queue and the semaphores,
  and the theorems over all states the kernel can reach after \<^verbatim>\<open>kernelMain\<close>.
\<close>

section \<open>What the operations do to the queues\<close>

text \<open>
  Everything but a context switch leaves the running process alone and only appends to the ready
  queue; a switch runs the head of the queue, or the idle process when there is none. Only
  \<^verbatim>\<open>up\<close> and \<^verbatim>\<open>down\<close> change the semaphores of the user.
\<close>

definition user_sems :: "sched \<Rightarrow> nat \<Rightarrow> semaphore" where
  "user_sems s n = sems s (Sem n)"

definition appends :: "sched \<Rightarrow> sched \<Rightarrow> bool" where
  "appends s s' \<longleftrightarrow> (\<exists>zs. readyQueue s' = readyQueue s @ zs) \<and> user_sems s' = user_sems s
     \<and> current s' = current s \<and> idleProcess s' = idleProcess s"

definition switched :: "pid list \<Rightarrow> sched \<Rightarrow> sched \<Rightarrow> bool" where
  "switched zs s s' \<longleftrightarrow> idleProcess s' = idleProcess s
     \<and> current s' = (if readyQueue s @ zs = [] then idleProcess s else Some (hd (readyQueue s @ zs)))
     \<and> readyQueue s' = tl (readyQueue s @ zs)"

definition switches :: "pid list \<Rightarrow> sched \<Rightarrow> sched \<Rightarrow> bool" where
  "switches zs s s' \<longleftrightarrow> user_sems s' = user_sems s \<and> switched zs s s'"

lemma appends_refl [simp]: "appends s s"
  by (simp add: appends_def)

lemma appends_trans: "appends s s' \<Longrightarrow> appends s' s'' \<Longrightarrow> appends s s''"
  by (auto simp: appends_def)

lemma appends_then_switched: "appends s s' \<Longrightarrow> switched zs s' s'' \<Longrightarrow> \<exists>us. switched (us @ zs) s s''"
  unfolding appends_def switched_def by (metis append.assoc)

lemma appends_then_switches: "appends s s' \<Longrightarrow> switches zs s' s'' \<Longrightarrow> \<exists>us. switches (us @ zs) s s''"
  using appends_then_switched by (fastforce simp: switches_def appends_def)

lemma switches_same:
  "switches zs s1 s' \<Longrightarrow> readyQueue s1 = readyQueue s \<Longrightarrow> sems s1 = sems s \<Longrightarrow> idleProcess s1 = idleProcess s
     \<Longrightarrow> switches zs s s'"
  by (simp add: switches_def switched_def user_sems_def fun_eq_iff)

lemma appends_same:
  "readyQueue s' = readyQueue s \<Longrightarrow> sems s' = sems s \<Longrightarrow> current s' = current s
     \<Longrightarrow> idleProcess s' = idleProcess s \<Longrightarrow> appends s s'"
  by (simp add: appends_def user_sems_def fun_eq_iff)

lemma enable_eq:
  assumes "enable s = Inr s'"
  shows "readyQueue s' = readyQueue s" "sems s' = sems s" "current s' = current s" "idleProcess s' = idleProcess s"
    "reaperQueue s' = reaperQueue s"
  using assms by (auto simp: enable_def get_proc_def Let_def split: option.splits if_splits)

lemma enable_none: "enable s = Inr s' \<Longrightarrow> procs s' q = None \<longleftrightarrow> procs s q = None"
  by (auto simp: enable_def get_proc_def Let_def split: option.splits if_splits)

lemma makeReady_eq:
  assumes "makeReady p s = Inr s'"
  shows "readyQueue s' = readyQueue s @ (if idleProcess s = Some p then [] else [p])" "sems s' = sems s"
    "current s' = current s" "idleProcess s' = idleProcess s"
  using assms enable_eq by (auto simp: makeReady_def Let_def split: if_splits)

lemma appends_enable: "enable s = Inr s' \<Longrightarrow> appends s s'"
  by (rule appends_same) (simp_all add: enable_eq)

lemma appends_disable: "appends s (disable s)"
  by (rule appends_same) simp_all

lemma appends_push: "appends s (push k s)"
  by (rule appends_same) simp_all

lemma appends_pop: "appends s (pop s)"
  by (rule appends_same) simp_all

lemma appends_upd_proc: "appends s (upd_proc p f s)"
  by (rule appends_same) simp_all

lemma appends_makeReady: "makeReady p s = Inr s' \<Longrightarrow> appends s s'"
  by (simp add: appends_def makeReady_eq user_sems_def fun_eq_iff)

lemma appends_new_process: "new_process s = (p, s') \<Longrightarrow> appends s s'"
  by (auto simp: new_process_def appends_def user_sems_def)

lemma appends_unref: "unref_proc p s = Inr s' \<Longrightarrow> appends s s'"
  by (rule appends_same) (auto simp: unref_proc_def split: if_splits)

lemma appends_ref: "ref_proc p s = Inr s' \<Longrightarrow> appends s s'"
  by (rule appends_same) (auto simp: ref_proc_def split: if_splits)

lemma appends_set_esp: "appends s (set_esp n s)"
  by (rule appends_same) (simp_all add: set_esp_def split: option.splits)

lemma appends_exit: "exit code s = Inr s' \<Longrightarrow> appends s s'"
  by (auto simp: exit_def split: option.splits intro: appends_trans [OF appends_upd_proc appends_push])

lemma appends_reap_loop: "reap_loop fuel s = Inr s' \<Longrightarrow> appends s s'"
proof (induction fuel arbitrary: s)
  case (Suc fuel)
  show ?case
  proof (cases "reaperQueue s")
    case Nil
    with Suc.prems show ?thesis
      by (auto simp: Let_def intro: appends_trans [OF appends_disable appends_enable])
  next
    case (Cons p ps)
    with Suc.prems obtain s2 s3 where s: "enable ((disable s)\<lparr>reaperQueue := ps\<rparr>) = Inr s2"
      "unref_proc p s2 = Inr s3" "reap_loop fuel s3 = Inr s'"
      by (auto simp: Let_def)
    have "appends s ((disable s)\<lparr>reaperQueue := ps\<rparr>)" by (rule appends_same) simp_all
    then show ?thesis
      using appends_trans appends_enable [OF s(1)] appends_unref [OF s(2)] Suc.IH [OF s(3)] by blast
  qed
qed simp

lemma appends_checkReaper: "checkReaper s = Inr s' \<Longrightarrow> appends s s'"
  unfolding checkReaper_def by (rule appends_reap_loop)

lemma reap_loop_deletes:
  "reap_loop fuel s = Inr s' \<Longrightarrow> procs s' q = None \<Longrightarrow> q \<in> set (reaperQueue s) \<or> procs s q = None"
proof (induction fuel arbitrary: s)
  case (Suc fuel)
  show ?case
  proof (cases "reaperQueue s")
    case Nil
    then have "enable (disable s) = Inr s'" using Suc.prems(1) by (simp add: Let_def)
    then show ?thesis using Suc.prems(2) enable_none [of "disable s" s' q] by (simp add: disable_procs split: if_splits)
  next
    case (Cons p ps)
    with Suc.prems(1) obtain s2 s3 where s: "enable ((disable s)\<lparr>reaperQueue := ps\<rparr>) = Inr s2"
      "unref_proc p s2 = Inr s3" "reap_loop fuel s3 = Inr s'"
      by (auto simp: Let_def)
    have r: "reaperQueue s2 = ps" using enable_eq(5) [OF s(1)] by simp
    have "reaperQueue s3 = reaperQueue s2 \<and> (q = p \<or> (procs s3 q = None \<longleftrightarrow> procs s2 q = None))"
      using s(2) by (auto simp: unref_proc_def split: if_splits)
    moreover have "procs s2 q = None \<longleftrightarrow> procs s q = None"
      using enable_none [OF s(1), of q] by (simp add: disable_procs)
    ultimately show ?thesis using Suc.IH [OF s(3) Suc.prems(2)] r Cons by auto
  qed
qed simp

lemma checkReaper_deletes:
  "checkReaper s = Inr s' \<Longrightarrow> procs s' q = None \<Longrightarrow> q \<in> set (reaperQueue s) \<or> procs s q = None"
  unfolding checkReaper_def by (rule reap_loop_deletes)

lemma appends_up_done: "up (Done p) s = Inr s' \<Longrightarrow> appends s s'"
proof -
  assume u: "up (Done p) s = Inr s'"
  let ?s = "disable s"
  obtain s2 where s2: "enable s2 = Inr s'"
    "(case waiting (sems ?s (Done p)) of
               [] \<Rightarrow> Inr (upd_sem (Done p) (\<lambda>S. S\<lparr>count := s32 (count S + 1)\<rparr>) ?s)
             | q # ps \<Rightarrow> makeReady q (upd_sem (Done p) (\<lambda>S. S\<lparr>waiting := ps\<rparr>) ?s)) = Inr s2"
    using u unfolding up_def Let_def bindE_eq_Inr by blast
  have f: "appends s (upd_sem (Done p) f ?s)" for f
    by (simp add: appends_def user_sems_def fun_eq_iff)
  have "appends s s2"
  proof (cases "waiting (sems ?s (Done p))")
    case Nil
    then show ?thesis using s2(2) f by auto
  next
    case (Cons q ps)
    then have "makeReady q (upd_sem (Done p) (\<lambda>S. S\<lparr>waiting := ps\<rparr>) ?s) = Inr s2" using s2(2) by simp
    then show ?thesis using appends_trans [OF f appends_makeReady] by blast
  qed
  then show ?thesis using appends_trans appends_enable [OF s2(1)] by blast
qed

text \<open>A whole \<^verbatim>\<open>yield\<close>: the running process goes to the end of the ready queue unless it blocks or is idle.\<close>

definition sent_back :: "wqueue option \<Rightarrow> sched \<Rightarrow> pid list" where
  "sent_back q s = (case current s of None \<Rightarrow> []
     | Some me \<Rightarrow> if q = None \<and> idleProcess s \<noteq> Some me then [me] else [])"

lemma pick_next_eq:
  assumes "pick_next s = Inr (p, s')" "idleProcess s \<noteq> None"
  shows "sems s' = sems s" "current s' = current s" "idleProcess s' = idleProcess s"
    "Some p = (if readyQueue s = [] then idleProcess s else Some (hd (readyQueue s)))"
    "readyQueue s' = tl (readyQueue s)"
  using assms by (auto simp: pick_next_def split: list.splits)

lemma dispatch_eq:
  assumes "dispatch p prev s = Inr s'" "prev = current s"
  shows "readyQueue s' = readyQueue s" "sems s' = sems s" "current s' = Some p" "idleProcess s' = idleProcess s"
    "reaperQueue s' = reaperQueue s"
  using assms by (cases "Some p = current s"; auto simp: dispatch_def Let_def split: if_splits)+

lemma enqueue_timer_eq [simp]: "sems (enqueue (OnTimer t) p s) = sems s"
  by (simp add: enqueue_def)

definition block_user :: "wqueue option \<Rightarrow> sched \<Rightarrow> nat \<Rightarrow> semaphore" where
  "block_user q s n = (case (q, current s) of (Some (OnSem (Sem m)), Some me) \<Rightarrow>
       if n = m then (user_sems s n)\<lparr>waiting := waiting (user_sems s n) @ [me]\<rparr> else user_sems s n
     | _ \<Rightarrow> user_sems s n)"

lemma yield_eq:
  assumes y: "yield q s = Inr s'" and idle: "idleProcess s \<noteq> None"
  shows "switched (sent_back q s) s s'" "user_sems s' n = block_user q s n"
proof -
  let ?s1 = "push KYield (disable s)"
  from y obtain s2 p s3 where
    s2: "(case current ?s1 of None \<Rightarrow> Inr ?s1
             | Some me \<Rightarrow> (case q of
                    Some w \<Rightarrow> bindE (get_proc me ?s1) (\<lambda>P.
                        if iDepth P \<noteq> 0 then Inl (Panic ''blocking while iDepth'')
                        else Inr (enqueue w me (upd_proc me (\<lambda>P. P\<lparr>p_state := BLOCKED\<rparr>) ?s1)))
                  | None \<Rightarrow> makeReady me ?s1)) = Inr s2"
    and s3: "pick_next s2 = Inr (p, s3)" and d: "dispatch p (current ?s1) s3 = Inr s'"
    unfolding yield_def Let_def by (auto simp del: push_fields)
  have u1: "user_sems ?s1 = user_sems s" by (simp add: user_sems_def fun_eq_iff)
  have a: "readyQueue s2 = readyQueue s @ sent_back q s \<and> user_sems s2 n = block_user q s n \<and> current s2 = current s
    \<and> idleProcess s2 = idleProcess s"
  proof (cases "current s")
    case None
    then have "s2 = ?s1" using s2 by simp
    then show ?thesis using None u1 by (simp add: block_user_def sent_back_def split: option.splits wqueue.splits semid.splits)
  next
    case (Some me)
    show ?thesis
    proof (cases q)
      case None
      then have "makeReady me ?s1 = Inr s2" using s2 Some by simp
      then show ?thesis using makeReady_eq None Some by (simp add: block_user_def user_sems_def sent_back_def)
    next
      case (Some w)
      then have w: "s2 = enqueue w me (upd_proc me (\<lambda>P. P\<lparr>p_state := BLOCKED\<rparr>) ?s1)"
        using s2 \<open>current s = Some me\<close> by (auto split: if_splits)
      have "user_sems s2 n = block_user q s n"
        unfolding w Some block_user_def user_sems_def using \<open>current s = Some me\<close>
        by (auto simp: enqueue_def split: wqueue.splits semid.splits)
      then show ?thesis unfolding w using Some \<open>current s = Some me\<close> by (simp add: sent_back_def)
    qed
  qed
  then have i2: "idleProcess s2 \<noteq> None" using idle by simp
  note N = pick_next_eq [OF s3 i2]
  have c: "current ?s1 = current s3" using a N(2) by simp
  note D = dispatch_eq [OF d c]
  show "switched (sent_back q s) s s'" using N(3-5) D a unfolding switched_def by simp
  show "user_sems s' n = block_user q s n"
    using N(1) D(2) a unfolding user_sems_def by metis
qed

lemma switches_yield:
  assumes y: "yield q s = Inr s'" "idleProcess s \<noteq> None" and q: "\<And>n. q \<noteq> Some (OnSem (Sem n))"
  shows "switches (sent_back q s) s s'"
proof -
  have "user_sems s' n = user_sems s n" for n
    using yield_eq(2) [OF y, of n] q
    by (auto simp: block_user_def split: option.splits wqueue.splits semid.splits)
  then show ?thesis using yield_eq(1) [OF y] by (simp add: switches_def fun_eq_iff)
qed

lemma switches_exit_rest:
  assumes e: "exit_rest s = Inr s'" and idle: "idleProcess s \<noteq> None"
  shows "\<exists>zs. switches zs s s'"
proof -
  obtain p where p: "current s = Some p" using e by (cases "current s") (auto simp: exit_rest_def)
  let ?d = "\<lambda>s1. (upd_proc p (\<lambda>P. P\<lparr>p_state := TERMINATED, konts := []\<rparr>)
        ((disable s1)\<lparr>reaperQueue := reaperQueue (disable s1) @ [p]\<rparr>))\<lparr>current := None\<rparr>"
  obtain s1 where s1: "up (Done p) s = Inr s1" "yield None (?d s1) = Inr s'"
    using e p by (auto simp: exit_rest_def event_signal_def Let_def)
  have a: "appends s s1" by (rule appends_up_done [OF s1(1)])
  then have "idleProcess (?d s1) \<noteq> None" using idle by (simp add: appends_def)
  from switches_yield [OF s1(2) this] have "switches (sent_back None (?d s1)) s1 s'"
    by (rule switches_same) simp_all
  then show ?thesis using appends_then_switches [OF a] by blast
qed

lemma appends_checkKilled:
  assumes c: "checkKilled rest s = Inr s'" and rest: "\<And>s1. rest s1 = Inr s' \<Longrightarrow> appends s1 s'"
  shows "appends s s'"
proof -
  obtain s1 where s1: "checkReaper s = Inr s1"
    "(case current s1 of None \<Rightarrow> rest s1 | Some me \<Rightarrow>
        bindE (get_proc me s1) (\<lambda>P. if isKilled P then exit (killCode P) s1 else rest s1)) = Inr s'"
    using c unfolding checkKilled_def bindE_eq_Inr by blast
  have "rest s1 = Inr s' \<or> (\<exists>code. exit code s1 = Inr s')"
    using s1(2) by (cases "current s1") (auto split: if_splits)
  then have "appends s1 s'" using rest appends_exit by blast
  then show ?thesis using appends_trans appends_checkReaper [OF s1(1)] by blast
qed

lemma appends_startIrq: "startIrq s = Inr s' \<Longrightarrow> appends s s'"
  by (rule appends_same) (auto simp: startIrq_def split: option.splits if_splits)

lemma appends_endIrq: "endIrq s = Inr s' \<Longrightarrow> appends s s'"
  by (rule appends_same) (auto simp: endIrq_def split: option.splits if_splits)

lemma appends_wake_all: "wake_all ps s = Inr s' \<Longrightarrow> appends s s'"
  by (induction ps arbitrary: s) (auto intro: appends_trans appends_makeReady)

lemma appends_first_timer:
  assumes "(case timers x of [] \<Rightarrow> Inr x | T # Ts \<Rightarrow>
     if jiffies x = target T then wake_all (sleepers T) (x\<lparr>timers := Ts\<rparr>) else Inr x) = Inr s3"
  shows "appends x s3"
proof -
  have "appends x (x\<lparr>timers := Ts\<rparr>)" for Ts by (rule appends_same) simp_all
  then show ?thesis using assms
    by (auto split: list.splits if_splits intro: appends_trans [OF _ appends_wake_all])
qed

lemma appends_tick: "tick s = Inr s' \<Longrightarrow> appends s s'"
proof -
  assume t: "tick s = Inr s'"
  let ?s2 = "if current (disable s) = idleProcess (disable s)
    then (disable s)\<lparr>idleJiffies := idleJiffies (disable s) + 1\<rparr> else disable s"
  obtain s3 where s3: "(case timers ?s2 of [] \<Rightarrow> Inr ?s2
                | T # Ts \<Rightarrow> if jiffies ?s2 = target T then wake_all (sleepers T) (?s2\<lparr>timers := Ts\<rparr>) else Inr ?s2) = Inr s3"
    "enable s3 = Inr s'"
    using t unfolding tick_def Let_def bindE_eq_Inr by blast
  have 2: "appends s ?s2" by (rule appends_same) simp_all
  have "appends ?s2 s3" by (rule appends_first_timer [OF s3(1)])
  then show ?thesis using 2 appends_trans appends_enable [OF s3(2)] by blast
qed

lemma switches_pic_irq:
  assumes p: "pic_irq n s = Inr s'" and idle: "idleProcess s \<noteq> None"
  shows "\<exists>zs. switches (zs @ sent_back None s) s s'"
proof -
  obtain s1 s2 where s: "startIrq (s\<lparr>ints_on := False\<rparr>) = Inr s1"
    "(if n = 0 then pit_handler s1 else Inr s1) = Inr s2" "yield None (push KEndIrq s2) = Inr s'"
    using p unfolding pic_irq_def by auto
  have 0: "appends s (s\<lparr>ints_on := False\<rparr>)" "appends s1 (s1\<lparr>jiffies := jiffies s1 + 1\<rparr>)"
    by (rule appends_same; simp)+
  have "appends s1 s2"
  proof (cases "n = 0")
    case True
    then have "tick (s1\<lparr>jiffies := jiffies s1 + 1\<rparr>) = Inr s2" using s(2) by (simp add: pit_handler_def)
    then show ?thesis using appends_trans [OF 0(2) appends_tick] by blast
  qed (use s(2) in simp)
  then have a: "appends s (push KEndIrq s2)"
    using appends_trans [OF appends_trans [OF 0(1) appends_startIrq [OF s(1)]]] appends_push appends_trans by blast
  then have "current (push KEndIrq s2) = current s" "idleProcess (push KEndIrq s2) = idleProcess s"
    unfolding appends_def by blast+
  then have "sent_back None (push KEndIrq s2) = sent_back None s" "idleProcess (push KEndIrq s2) \<noteq> None"
    using idle unfolding sent_back_def by metis+
  then show ?thesis using appends_then_switches [OF a] switches_yield [OF s(3)] by fastforce
qed

lemma sleepUntil_queue:
  assumes t: "sleepUntil t s = Inr s'" and idle: "idleProcess s \<noteq> None"
  shows "if jiffies s < t * hz s then switches [] s s' else appends s s'"
proof -
  let ?s = "push KEnable ((disable s)\<lparr>timers := add_timer (t * hz s) (timers s)\<rparr>)"
  have "switches [] s s'" if "yield (Some (OnTimer (t * hz s))) ?s = Inr s'"
  proof -
    have "switches [] ?s s'"
      using switches_yield [OF that] idle by (simp add: sent_back_def split: option.splits)
    then show ?thesis by (rule switches_same) simp_all
  qed
  moreover have "appends s s'" if "enable (disable s) = Inr s'"
    using appends_trans [OF appends_disable appends_enable [OF that]] .
  ultimately show ?thesis using t by (auto simp: sleepUntil_def Let_def split: if_splits)
qed

lemma exec_kont_queue:
  assumes e: "exec_kont s = Inr s'" and idle: "idleProcess s \<noteq> None"
    and k: "\<And>me P. current s = Some me \<Longrightarrow> procs s me = Some P \<Longrightarrow> konts_ok (konts P)"
  shows "if in_exit s then \<exists>zs. switches zs s s' else appends s s'"
proof -
  obtain me P where me: "current s = Some me" "procs s me = Some P"
    using e by (auto simp: exec_kont_def split: option.splits)
  show ?thesis
  proof (cases "konts P")
    case Nil
    then show ?thesis using e me by (simp add: exec_kont_def get_proc_def in_exit_def running_def)
  next
    case (Cons k ks)
    then have ie: "in_exit s \<longleftrightarrow> k = KExit" using me by (simp add: in_exit_def running_def)
    have "if k = KExit then \<exists>zs. switches zs s s' else appends s s'"
    proof (cases k)
      case KYield
      then have "checkKilled (\<lambda>s. enable (pop s)) s = Inr s'" using e me Cons by (simp add: exec_kont_def get_proc_def)
      then have "appends s s'" by (rule appends_checkKilled) (blast intro: appends_trans [OF appends_pop appends_enable])
      then show ?thesis using KYield by simp
    next
      case KEnable
      then have "enable (pop s) = Inr s'" using e me Cons by (simp add: exec_kont_def get_proc_def)
      then show ?thesis using KEnable appends_trans [OF appends_pop appends_enable] by simp
    next
      case KEndIrq
      then obtain s2 where s2: "endIrq (pop s) = Inr s2" "s' = s2\<lparr>ints_on := True\<rparr>"
        using e me Cons by (auto simp: exec_kont_def get_proc_def)
      have "appends s2 s'" unfolding s2(2) by (rule appends_same) simp_all
      then have "appends s s'"
        using appends_trans appends_pop appends_endIrq [OF s2(1)] by blast
      then show ?thesis using KEndIrq by simp
    next
      case (KUp j)
      then obtain p where "j = Done p" using k [OF me] Cons by (cases j) auto
      then have "up (Done p) (pop s) = Inr s'" using e me Cons KUp by (simp add: exec_kont_def get_proc_def)
      then show ?thesis using KUp appends_trans [OF appends_pop appends_up_done] by simp
    next
      case KExit
      then have "exit_rest s = Inr s'" using e me Cons by (simp add: exec_kont_def get_proc_def)
      then show ?thesis using KExit switches_exit_rest idle by simp
    next
      case KEntry
      then have "checkKilled (\<lambda>s. Inr (pop s)) s = Inr s'" using e me Cons by (simp add: exec_kont_def get_proc_def)
      then have "appends s s'" by (rule appends_checkKilled) (auto intro: appends_pop)
      then show ?thesis using KEntry by simp
    qed
    then show ?thesis using ie by simp
  qed
qed

lemma down_queue:
  assumes d: "down j s = Inr s'" and idle: "idleProcess s \<noteq> None" "current s \<noteq> None"
  shows "if count (sems s j) = 0 then switched [] s s' else current s' = current s
      \<and> idleProcess s' = idleProcess s \<and> readyQueue s' = readyQueue s"
proof (cases "count (sems s j) = 0")
  case True
  let ?s = "push KEnable (disable s)"
  have y: "yield (Some (OnSem j)) ?s = Inr s'" using d True by (auto simp: down_def Let_def split: if_splits)
  have "switched [] ?s s'" using yield_eq(1) [OF y] idle by (simp add: sent_back_def split: option.splits)
  then show ?thesis using True by (simp add: switched_def)
next
  case False
  then have "enable (upd_sem j (\<lambda>S. S\<lparr>count := s32 (count S - 1)\<rparr>) (disable s)) = Inr s'"
    using d by (simp add: down_def Let_def)
  from enable_eq [OF this] show ?thesis using False by simp
qed

lemma down_done_sems:
  assumes d: "down (Done p) s = Inr s'" and idle: "idleProcess s \<noteq> None"
  shows "user_sems s' = user_sems s"
proof -
  have "user_sems s' n = user_sems s n" if "yield (Some (OnSem (Done p))) (push KEnable (disable s)) = Inr s'" for n
    using yield_eq(2) [OF that, of n] idle by (simp add: block_user_def user_sems_def split: option.splits)
  moreover have "user_sems s' n = user_sems s n" if "enable (upd_sem (Done p) f (disable s)) = Inr s'" for f n
    using enable_eq(2) [OF that] by (simp add: user_sems_def)
  ultimately show ?thesis using d by (fastforce simp: down_def Let_def split: if_splits)
qed


section \<open>What an operation does\<close>

text \<open>
  Which operations end in a context switch, by the conditions of the code, and which put the process
  that runs at the end of the ready queue.
\<close>

fun switching :: "kop \<Rightarrow> sched \<Rightarrow> bool" where
  "switching Yield s \<longleftrightarrow> True"
| "switching (Irq n) s \<longleftrightarrow> True"
| "switching (Down n) s \<longleftrightarrow> count (sems s (Sem n)) = 0"
| "switching (Wait p) s \<longleftrightarrow> count (sems s (Done p)) = 0"
| "switching (SleepUntil t) s \<longleftrightarrow> jiffies s < t * hz s"
| "switching (SleepFor t) s \<longleftrightarrow> jiffies s < (jiffies s div hz s + t) * hz s"
| "switching Resume s \<longleftrightarrow> in_exit s"
| "switching _ s \<longleftrightarrow> False"

fun requeued :: "kop \<Rightarrow> sched \<Rightarrow> pid list" where
  "requeued Yield s = sent_back None s"
| "requeued (Irq n) s = sent_back None s"
| "requeued _ s = []"

lemma kreach_konts_ok:
  assumes "kreach c s" "current s = Some me" "procs s me = Some P"
  shows "konts_ok (konts P)"
proof -
  obtain w where w: "sched_inv False 0 0 s w" using kreach_inv [OF assms(1)] by blast
  from current_proc [OF w assms(2)] assms(3) show ?thesis by (auto simp: proc_ok_def)
qed

lemma kreach_idle: "kreach c s \<Longrightarrow> idleProcess s \<noteq> None \<and> current s \<noteq> None"
proof -
  assume "kreach c s"
  then obtain w where "sched_inv False 0 0 s w" "current s \<noteq> None" using kreach_inv by blast
  moreover have "idle_ok s w" by (rule sched_invD(4)) fact
  ultimately show ?thesis unfolding idle_ok_def by auto
qed

lemma up_queue:
  assumes "up j s = Inr s'"
  shows "current s' = current s \<and> idleProcess s' = idleProcess s \<and> (\<exists>zs. readyQueue s' = readyQueue s @ zs)"
proof -
  obtain s2 where s2: "(case waiting (sems s j) of
      [] \<Rightarrow> Inr (upd_sem j (\<lambda>S. S\<lparr>count := s32 (count S + 1)\<rparr>) (disable s))
    | p # ps \<Rightarrow> makeReady p (upd_sem j (\<lambda>S. S\<lparr>waiting := ps\<rparr>) (disable s))) = Inr s2"
    "enable s2 = Inr s'"
    using assms by (auto simp: up_def Let_def)
  have "current s2 = current s \<and> idleProcess s2 = idleProcess s \<and> (\<exists>zs. readyQueue s2 = readyQueue s @ zs)"
    using s2(1) makeReady_eq by (auto split: list.splits)
  then show ?thesis using enable_eq [OF s2(2)] by simp
qed

lemma kill_appends:
  assumes "kill p code s = Inr s'"
  shows "appends s s'"
proof -
  let ?s = "upd_proc p (\<lambda>P. if isKilled P then P else P\<lparr>isKilled := True, killCode := code\<rparr>) (disable s)"
  obtain s2 where s2: "enable ?s = Inr s2" "checkKilled Inr s2 = Inr s'" using assms by (auto simp: kill_def)
  have "appends s2 s'" using s2(2) by (rule appends_checkKilled) simp
  then show ?thesis
    using appends_trans appends_disable appends_upd_proc appends_enable [OF s2(1)] by blast
qed

lemma spawn_appends:
  assumes "bindE (spawn s) (\<lambda>(p, s'). Inr s') = Inr s'"
  shows "appends s s'"
proof -
  obtain p s1 where "new_process s = (p, s1)" "makeReady p s1 = Inr s'"
    using assms by (auto simp: spawn_def start_def split: prod.splits)
  then show ?thesis using appends_trans appends_new_process appends_makeReady by blast
qed

text \<open>An operation other than \<^verbatim>\<open>up\<close> and \<^verbatim>\<open>down\<close> leaves the semaphores of the user alone.\<close>

lemma run_op_others:
  assumes k: "kreach c s" and r: "run_op op s = Inr s'" and o: "\<And>n. op \<noteq> Up n \<and> op \<noteq> Down n"
  shows "user_sems s' = user_sems s \<and> (if switching op s then \<exists>zs. switched (zs @ requeued op s) s s' else appends s s')"
proof -
  have i: "idleProcess s \<noteq> None" "current s \<noteq> None" using kreach_idle [OF k] by simp_all
  have ap: ?thesis if "appends s s'" "\<not> switching op s"
    using that by (simp add: appends_def)
  have sw: ?thesis if "switching op s" "\<exists>zs. switches (zs @ requeued op s) s s'"
    using that by (auto simp: switches_def)
  have sw0: ?thesis if "switching op s" "requeued op s = []" "switches [] s s'"
    using that by (auto simp: switches_def intro: exI [of _ "[]"])
  show ?thesis
  proof (cases op)
    case Yield
    have "switches (sent_back None s) s s'" by (rule switches_yield) (use r Yield i in simp_all)
    then have "\<exists>zs. switches (zs @ sent_back None s) s s'" by (metis append_Nil)
    then show ?thesis using sw Yield by simp
  next
    case (Wait p)
    let ?s = "push (KUp (Done p)) s"
    have d: "down (Done p) ?s = Inr s'" using r Wait by (simp add: event_wait_def)
    have "user_sems s' = user_sems s"
      using down_done_sems [OF d] i by (simp add: user_sems_def fun_eq_iff)
    then show ?thesis using down_queue [OF d] i Wait by (auto simp: appends_def switched_def intro!: exI [of _ "[]"])
  next
    case (Exit code)
    then show ?thesis using ap appends_exit r by simp
  next
    case (Kill p code)
    then show ?thesis using ap kill_appends r by simp
  next
    case Spawn
    then show ?thesis using ap spawn_appends r by simp
  next
    case (SleepUntil t)
    have "if jiffies s < t * hz s then switches [] s s' else appends s s'"
      using r SleepUntil i by (intro sleepUntil_queue) simp_all
    then show ?thesis using ap sw0 SleepUntil by (cases "jiffies s < t * hz s") simp_all
  next
    case (SleepFor t)
    have u: "sleepUntil (jiffies s div hz s + t) s = Inr s'"
      using r SleepFor by (auto simp: sleepFor_def pit_seconds_def split: if_splits)
    show ?thesis using ap sw0 sleepUntil_queue [OF u] i SleepFor
      by (cases "jiffies s < (jiffies s div hz s + t) * hz s") simp_all
  next
    case Resume
    then have "if in_exit s then \<exists>zs. switches zs s s' else appends s s'"
      using r i kreach_konts_ok [OF k] by (intro exec_kont_queue) simp_all
    then show ?thesis using ap sw Resume by (cases "in_exit s") simp_all
  next
    case (Irq n)
    then show ?thesis using sw switches_pic_irq [of n s s'] r i by simp
  qed (use r o ap appends_checkReaper appends_ref appends_unref appends_set_esp in \<open>simp_all\<close>, blast?)
qed

text \<open>
  The ready queue over one operation: a switch takes the head of the queue with what the operation
  appends, and no other operation takes a process out of it or changes which process runs.
\<close>

lemma run_op_queue:
  assumes k: "kreach c s" and r: "run_op op s = Inr s'"
  shows "\<exists>zs. if switching op s then switched (zs @ requeued op s) s s'
     else current s' = current s \<and> readyQueue s' = readyQueue s @ zs"
proof -
  have i: "idleProcess s \<noteq> None" "current s \<noteq> None" using kreach_idle [OF k] by simp_all
  consider n where "op = Up n" | n where "op = Down n" | "\<And>n. op \<noteq> Up n \<and> op \<noteq> Down n" by blast
  then show ?thesis
  proof cases
    case (1 n)
    then show ?thesis using up_queue [of "Sem n" s s'] r by auto
  next
    case (2 n)
    then show ?thesis using down_queue [of "Sem n" s s'] r i by (auto intro: exI [of _ "[]"])
  next
    case 3
    from run_op_others [OF k r 3] show ?thesis
      by (cases "switching op s") (auto simp: appends_def)
  qed
qed

text \<open>
  The units of a semaphore of the user: its count less the processes that wait for one. Within the
  range of a 32-bit \<^verbatim>\<open>int\<close> nothing but \<^verbatim>\<open>up\<close> and \<^verbatim>\<open>down\<close> changes them.
\<close>

definition units :: "nat \<Rightarrow> sched \<Rightarrow> int" where
  "units n s = count (user_sems s n) - int (length (waiting (user_sems s n)))"

lemma up_user:
  assumes "up (Sem m) s = Inr s'" "0 \<le> count (user_sems s n)" "count (user_sems s n) + (if n = m then 1 else 0) < 2 ^ 31"
  shows "units n s' = units n s + (if n = m then 1 else 0) \<and> 0 \<le> count (user_sems s' n)
    \<and> count (user_sems s' n) \<le> count (user_sems s n) + (if n = m then 1 else 0)"
proof -
  obtain s2 where s2: "(case waiting (sems s (Sem m)) of
      [] \<Rightarrow> Inr (upd_sem (Sem m) (\<lambda>S. S\<lparr>count := s32 (count S + 1)\<rparr>) (disable s))
    | p # ps \<Rightarrow> makeReady p (upd_sem (Sem m) (\<lambda>S. S\<lparr>waiting := ps\<rparr>) (disable s))) = Inr s2"
    "enable s2 = Inr s'"
    using assms(1) by (auto simp: up_def Let_def)
  note E = enable_eq [OF s2(2)]
  have "units n s2 = units n s + (if n = m then 1 else 0) \<and> 0 \<le> count (user_sems s2 n)
    \<and> count (user_sems s2 n) \<le> count (user_sems s n) + (if n = m then 1 else 0)"
  proof (cases "waiting (sems s (Sem m))")
    case Nil
    then have "s2 = upd_sem (Sem m) (\<lambda>S. S\<lparr>count := s32 (count S + 1)\<rparr>) (disable s)" using s2(1) by simp
    then show ?thesis using assms(2,3) s32_id [of "count (user_sems s n) + 1"]
      by (auto simp: units_def user_sems_def)
  next
    case (Cons p ps)
    then have "makeReady p (upd_sem (Sem m) (\<lambda>S. S\<lparr>waiting := ps\<rparr>) (disable s)) = Inr s2" using s2(1) by simp
    then show ?thesis using Cons makeReady_eq assms(2) by (auto simp: units_def user_sems_def)
  qed
  then show ?thesis using E by (simp add: units_def user_sems_def)
qed

lemma down_user:
  assumes "down (Sem m) s = Inr s'" "idleProcess s \<noteq> None" "0 \<le> count (user_sems s n)" "count (user_sems s n) < 2 ^ 31"
  shows "units n s' = units n s - (if n = m then 1 else 0) \<and> 0 \<le> count (user_sems s' n)
    \<and> count (user_sems s' n) \<le> count (user_sems s n)"
proof (cases "count (sems s (Sem m)) = 0")
  case True
  let ?s = "push KEnable (disable s)"
  from True assms(1) have y: "yield (Some (OnSem (Sem m))) ?s = Inr s'" and c: "current s \<noteq> None"
    by (auto simp: down_def Let_def split: if_splits)
  have "user_sems ?s = user_sems s" by (simp add: user_sems_def fun_eq_iff)
  then show ?thesis using yield_eq(2) [OF y, of n] c assms(2,3) by (auto simp: units_def block_user_def)
next
  case False
  then have "enable (upd_sem (Sem m) (\<lambda>S. S\<lparr>count := s32 (count S - 1)\<rparr>) (disable s)) = Inr s'"
    using assms(1) by (simp add: down_def Let_def)
  from enable_eq [OF this] False assms(3,4) s32_id [of "count (user_sems s n) - 1"] show ?thesis
    by (auto simp: units_def user_sems_def)
qed

fun gives :: "nat \<Rightarrow> kop \<Rightarrow> int" where
  "gives n (Up m) = (if n = m then 1 else 0)"
| "gives n (Down m) = (if n = m then - 1 else 0)"
| "gives n _ = 0"

lemma run_op_units:
  assumes k: "kreach c s" and r: "run_op op s = Inr s'"
    and n: "0 \<le> count (user_sems s n)" "count (user_sems s n) + (if op = Up n then 1 else 0) < 2 ^ 31"
  shows "units n s' = units n s + gives n op \<and> 0 \<le> count (user_sems s' n)
    \<and> count (user_sems s' n) \<le> count (user_sems s n) + (if op = Up n then 1 else 0)"
proof -
  consider m where "op = Up m" | m where "op = Down m" | "\<And>n. op \<noteq> Up n \<and> op \<noteq> Down n" by blast
  then show ?thesis
  proof cases
    case (1 m)
    then show ?thesis using up_user [of m s s' n] r n by (auto split: if_splits)
  next
    case (2 m)
    then show ?thesis using down_user [of m s s' n] r n kreach_idle [OF k] by auto
  next
    case 3
    then have "gives n op = 0" by (cases op) auto
    then show ?thesis using run_op_others [OF k r 3] 3 n by (simp add: units_def)
  qed
qed


section \<open>Runs\<close>

text \<open>A run is a list of operations, each of which can occur when it is its turn.\<close>

fun run_ops :: "kop list \<Rightarrow> sched \<Rightarrow> sched option" where
  "run_ops [] s = Some s"
| "run_ops (op # ops) s =
     (if allowed op s then (case run_op op s of Inl e \<Rightarrow> None | Inr s' \<Rightarrow> run_ops ops s') else None)"

lemma run_ops_kreach: "kreach c s \<Longrightarrow> run_ops ops s = Some s' \<Longrightarrow> kreach c s'"
  by (induction ops arbitrary: s) (auto split: if_splits sum.splits intro: kreach.step)

lemma booted_kreach: "run_ops ops (booted c) = Some s \<Longrightarrow> kreach c s"
  using run_ops_kreach kreach.boot kernelMain_booted by blast

lemma run_ops_units:
  "kreach c s \<Longrightarrow> run_ops ops s = Some s' \<Longrightarrow> 0 \<le> count (user_sems s n)
     \<Longrightarrow> count (user_sems s n) + int (count_list ops (Up n)) < 2 ^ 31
     \<Longrightarrow> units n s' = units n s + sum_list (map (gives n) ops) \<and> 0 \<le> count (user_sems s' n)"
proof (induction ops arbitrary: s)
  case (Cons op ops)
  then obtain s1 where s1: "allowed op s" "run_op op s = Inr s1" "run_ops ops s1 = Some s'"
    by (auto split: if_splits sum.splits)
  have k1: "kreach c s1" using kreach.step [OF Cons.prems(1) s1(1,2)] .
  have "count (user_sems s n) + (if op = Up n then 1 else 0) < 2 ^ 31" using Cons.prems(4) by (auto split: if_splits)
  from run_op_units [OF Cons.prems(1) s1(2) Cons.prems(3) this]
  have u: "units n s1 = units n s + gives n op" "0 \<le> count (user_sems s1 n)"
    "count (user_sems s1 n) \<le> count (user_sems s n) + (if op = Up n then 1 else 0)" by blast+
  have "count (user_sems s1 n) + int (count_list ops (Up n)) < 2 ^ 31"
    using u(3) Cons.prems(4) by (auto split: if_splits)
  from Cons.IH [OF k1 s1(3) u(2) this] u(1) show ?case by simp
qed simp

section \<open>The properties\<close>

definition places :: "sched \<Rightarrow> pid \<Rightarrow> place set" where
  "places s p = (if current s = Some p then {Running} else {})
     \<union> (if p \<in> set (readyQueue s) then {Ready} else {})
     \<union> (if idleProcess s = Some p \<and> current s \<noteq> Some p then {Idle} else {})
     \<union> {Waits (OnSem j) | j. p \<in> set (waiting (sems s j))}
     \<union> {Waits (OnTimer (target T)) | T. T \<in> set (timers s) \<and> p \<in> set (sleepers T)}
     \<union> (if p \<in> set (reaperQueue s) then {Dead} else {})"

lemma inv_places:
  assumes inv: "sched_inv False 0 0 s w" and nl: "no_limbo w" and c: "current s \<noteq> None"
  shows "places s p = (case w p of None \<Rightarrow> {} | Some x \<Rightarrow> if x = Zombie then {} else {x})"
proof -
  note I = sched_invD [OF inv]
  have run: "current s = Some p \<longleftrightarrow> w p = Some Running"
    using run_okD(1) [OF I(2), of p] run_okD(2) [OF I(2), of p] by blast
  have q: "p \<in> set (readyQueue s) \<longleftrightarrow> w p = Some Ready" "p \<in> set (reaperQueue s) \<longleftrightarrow> w p = Some Dead"
    using I(3) unfolding queues_ok_def by blast+
  have "w p = Some Idle \<Longrightarrow> idleProcess s = Some p" using I(4) unfolding idle_ok_def by blast
  then have idle: "idleProcess s = Some p \<and> current s \<noteq> Some p \<longleftrightarrow> w p = Some Idle"
    using idle_okD(1) [OF I(4), of p] nl run unfolding no_limbo_def by auto
  have sem: "p \<in> set (waiting (sems s j)) \<longleftrightarrow> w p = Some (Waits (OnSem j))" for j
    using I(5) unfolding sems_ok_def by blast
  have tim: "{Waits (OnTimer (target T)) | T. T \<in> set (timers s) \<and> p \<in> set (sleepers T)}
      = {Waits (OnTimer t) | t. w p = Some (Waits (OnTimer t))}"
  proof -
    have "(\<exists>T. x = Waits (OnTimer (target T)) \<and> T \<in> set (timers s) \<and> p \<in> set (sleepers T))
        \<longleftrightarrow> (\<exists>t. x = Waits (OnTimer t) \<and> w p = Some (Waits (OnTimer t)))" for x
    proof
      assume "\<exists>T. x = Waits (OnTimer (target T)) \<and> T \<in> set (timers s) \<and> p \<in> set (sleepers T)"
      then show "\<exists>t. x = Waits (OnTimer t) \<and> w p = Some (Waits (OnTimer t))"
        using I(6) unfolding timers_ok_def by blast
    next
      assume "\<exists>t. x = Waits (OnTimer t) \<and> w p = Some (Waits (OnTimer t))"
      then obtain t where t: "x = Waits (OnTimer t)" "w p = Some (Waits (OnTimer t))" by blast
      then obtain T where "T \<in> set (timers s)" "t = target T" using I(6) unfolding timers_ok_def by blast
      then show "\<exists>T. x = Waits (OnTimer (target T)) \<and> T \<in> set (timers s) \<and> p \<in> set (sleepers T)"
        using t I(6) unfolding timers_ok_def by blast
    qed
    then show ?thesis by blast
  qed
  have "w p \<noteq> Some Limbo" using nl unfolding no_limbo_def by blast
  then show ?thesis
    unfolding places_def q sem tim idle unfolding run by (auto split: option.splits; metis (no_types) place.exhaust wqueue.exhaust)
qed



text \<open>A run through blocking, killing and waking, as a concrete reachable state.\<close>

definition killed_waiter :: "kop list" where
  "killed_waiter = [Resume, Spawn, Down 0, Resume, Kill 0 (-7), Up 0, Yield]"

definition killed_state :: sched where
  "killed_state = the (run_ops killed_waiter (booted (\<lambda>_. 0)))"

lemma killed_run: "run_ops killed_waiter (booted (\<lambda>_. 0)) \<noteq> None"
  by code_simp

lemma killed_reach: "kreach (\<lambda>_. 0) killed_state"
  using killed_run booted_kreach [of killed_waiter "\<lambda>_. 0"] unfolding killed_state_def by auto

lemma killed_facts:
  "current killed_state = Some 0"
  "map_option konts (procs killed_state 0) = Some [KYield, KEnable]"
  "map_option isKilled (procs killed_state 0) = Some True"
  "readyQueue killed_state = [2]"
  "\<not> in_code killed_state"
  by code_simp+


text \<open>
  The run into the panic: process 0 is interrupted, process 2 kills it, and when it runs again it
  exits inside the interrupt. If the mutex of its table is taken - its own code may hold it - it dies
  with the whole kernel; if not it terminates.
\<close>

definition exit_in_irq :: "kop list" where
  "exit_in_irq = [Resume, Spawn, Irq 1, Resume, Kill 0 (-7), Yield, Resume]"

definition irq_state :: sched where
  "irq_state = the (run_ops exit_in_irq (booted (\<lambda>_. 0)))"

lemma irq_reach: "kreach (\<lambda>_. 0) irq_state"
proof -
  have "run_ops exit_in_irq (booted (\<lambda>_. 0)) \<noteq> None" by code_simp
  then show ?thesis using booted_kreach [of exit_in_irq "\<lambda>_. 0"] unfolding irq_state_def by auto
qed

lemma irq_facts: "blocks_in_irq (Down 0) irq_state" "allowed (Down 0) irq_state" "allowed Resume irq_state"
  by code_simp+


text \<open>
  C2. In every reachable state each process is in exactly one place - running, in the ready queue,
  the idle process, in the queue of one semaphore or of one timer, or in the reaper queue - and its
  state field agrees with that place; only a terminated process is in no place. A process that has
  been deleted is in no queue, and no queue holds a process twice.
\<close>

theorem one_place:
  assumes "kreach c s"
  shows "(case procs s p of
      None \<Rightarrow> places s p = {}
    | Some P \<Rightarrow> (\<exists>x. places s p = {x} \<and> place_state x (p_state P)) \<or> places s p = {} \<and> isTerminated P)
    \<and> distinct (readyQueue s) \<and> distinct (reaperQueue s) \<and> (\<forall>j. distinct (waiting (sems s j)))"
proof -
  obtain w where inv: "sched_inv False 0 0 s w" and nl: "no_limbo w" and c: "current s \<noteq> None"
    using kreach_inv [OF assms] by blast
  note pl = inv_places [OF inv nl c, of p] and I = sched_invD [OF inv]
  have "case procs s p of
      None \<Rightarrow> places s p = {}
    | Some P \<Rightarrow> (\<exists>x. places s p = {x} \<and> place_state x (p_state P)) \<or> places s p = {} \<and> isTerminated P"
  proof (cases "procs s p")
    case None
    then show ?thesis using I(1) pl unfolding procs_ok_def by simp
  next
    case (Some P)
    from procs_okD [OF I(1) Some] obtain x where x: "w p = Some x" "place_state x (p_state P)"
      by (auto simp: proc_ok_def)
    then show ?thesis using Some pl by (cases "x = Zombie") (simp_all add: isTerminated_def)
  qed
  then show ?thesis using I(3,5) unfolding queues_ok_def sems_ok_def by blast
qed

theorem one_place_witness: "places killed_state 0 = {Running}"
proof -
  obtain P where P: "procs killed_state 0 = Some P" using killed_facts(2) by auto
  have r: "Running \<in> places killed_state 0" by (simp add: places_def killed_facts(1))
  with one_place [OF killed_reach, of 0] P show ?thesis by auto
qed

text \<open>
  C26. In every reachable state some process runs, it has the CPU's address space and kernel stack,
  interrupts are enabled exactly when its disable count is zero, and a process that runs its own
  code (nothing pending on its kernel stack) runs with interrupts enabled.
\<close>

theorem runs_with_interrupts:
  assumes "kreach c s"
  shows "\<exists>me P. current s = Some me \<and> procs s me = Some P \<and> isRunning P
    \<and> activeSpace s = Some me \<and> kernelStack s = Some me
    \<and> ints_on s = (disableCount P = 0) \<and> (konts P \<noteq> [] \<or> ints_on s)"
proof -
  obtain w where inv: "sched_inv False 0 0 s w" and c: "current s \<noteq> None"
    using kreach_inv [OF assms] by blast
  note I = sched_invD [OF inv]
  obtain me where me: "current s = Some me" using c by blast
  obtain P x where P: "procs s me = Some P" "w me = Some x" "proc_ok 0 0 x P" "x \<noteq> Dead" "x \<noteq> Zombie"
    using current_proc [OF inv me] .
  have "x = Running" using run_okD(1) [OF I(2) me] P(2) by simp
  then have "isRunning P" using P(3) by (simp add: proc_ok_def isRunning_def)
  moreover have "ints_on s = (disableCount P = 0)" using run_ok_ints [OF I(2)] me P(1) unfolding ints_ok_def by auto
  moreover have "konts P = [] \<Longrightarrow> disableCount P = 0" using P(3-5) by (simp add: proc_ok_def unat_eq_0)
  ultimately show ?thesis using run_okD_cur [OF I(2) me] me P(1) by blast
qed

theorem runs_with_interrupts_witness: "kernelStack killed_state = Some 0"
  using runs_with_interrupts [OF killed_reach] killed_facts(1) by auto

text \<open>
  C4. Conservation of the units of a semaphore. Along every run from boot, the count of a semaphore
  less its waiting processes is its initial count plus the calls of up less the calls of down. The
  initial count is not negative and with all calls of up stays within the 32 bits of the \<^verbatim>\<open>int\<close>; then
  no more downs have got through than there were units, and when a process waits the count is zero.
  For a mutex: at most one process is past lock without having called unlock.
\<close>

theorem semaphore_conserves:
  assumes "run_ops ops (booted c) = Some s" "0 \<le> c n" "c n + int (count_list ops (Up n)) < 2 ^ 31"
  shows "count (sems s (Sem n)) - int (length (waiting (sems s (Sem n)))) = c n + sum_list (map (gives n) ops)
    \<and> 0 \<le> count (sems s (Sem n))
    \<and> (waiting (sems s (Sem n)) = [] \<or> count (sems s (Sem n)) = 0)
    \<and> - sum_list (map (gives n) ops) - int (length (waiting (sems s (Sem n)))) \<le> c n"
proof -
  have k: "kreach c (booted c)" using kernelMain_booted by (rule kreach.boot)
  have "s32 (c n) = c n" using assms(2,3) by (intro s32_id) simp_all
  then have b: "count (sems (booted c) (Sem n)) = c n" "waiting (sems (booted c) (Sem n)) = []"
    by (simp_all add: booted_def empty_sched_def)
  obtain w where "sched_inv False 0 0 s w" using kreach_inv [OF booted_kreach [OF assms(1)]] by blast
  from sched_invD(5) [OF this] have e: "waiting (sems s (Sem n)) = [] \<or> count (sems s (Sem n)) = 0"
    unfolding sems_ok_def by blast
  have "units n s = c n + sum_list (map (gives n) ops)" "0 \<le> count (sems s (Sem n))"
    using run_ops_units [OF k assms(1), of n] b assms(2,3) by (simp_all add: units_def user_sems_def)
  with e show ?thesis by (simp add: units_def user_sems_def)
qed

theorem semaphore_conserves_witness:
  "count (sems killed_state (Sem 0)) = int (length (waiting (sems killed_state (Sem 0))))"
proof -
  have "run_ops killed_waiter (booted (\<lambda>_. 0)) = Some killed_state"
    using killed_run by (simp add: killed_state_def)
  from semaphore_conserves [OF this, of 0] show ?thesis by (simp add: killed_waiter_def)
qed

text \<open>How many context switches a run makes, and whether a process gets the processor in it.\<close>

fun switch_count :: "kop list \<Rightarrow> sched \<Rightarrow> nat" where
  "switch_count [] s = 0"
| "switch_count (op # ops) s =
     (if switching op s then 1 else 0) + (case run_op op s of Inl e \<Rightarrow> 0 | Inr s' \<Rightarrow> switch_count ops s')"

fun gets_cpu :: "pid \<Rightarrow> kop list \<Rightarrow> sched \<Rightarrow> bool" where
  "gets_cpu p [] s \<longleftrightarrow> False"
| "gets_cpu p (op # ops) s \<longleftrightarrow> (case run_op op s of Inl e \<Rightarrow> False
     | Inr s' \<Rightarrow> current s' = Some p \<or> gets_cpu p ops s')"

text \<open>
  C23. The ready queue is first in, first out. Along every run each context switch moves a ready
  process forward by exactly one place and no other operation moves it: with \<open>length xs\<close> processes in
  front of it, it is \<open>n\<close> places further on after \<open>n\<close> switches, and it has got the processor once there
  has been one more switch than there were processes in front. A switch is every \<^verbatim>\<open>yield\<close>, every
  interrupt, every \<^verbatim>\<open>down\<close> or \<^verbatim>\<open>wait\<close> at count zero, every sleep until a later time and every end of
  \<^verbatim>\<open>exit\<close>; so a process cannot be starved while the timer ticks.
\<close>

theorem ready_queue_fair:
  assumes "kreach c s" "run_ops ops s = Some s'" "readyQueue s = xs @ p # ys"
  shows "if switch_count ops s \<le> length xs
    then \<exists>zs. readyQueue s' = drop (switch_count ops s) xs @ p # zs
    else gets_cpu p ops s"
  using assms
proof (induction ops arbitrary: s xs ys)
  case (Cons op ops)
  then obtain s1 where s1: "allowed op s" "run_op op s = Inr s1" "run_ops ops s1 = Some s'"
    by (auto split: if_splits sum.splits)
  note k1 = kreach.step [OF Cons.prems(1) s1(1,2)]
  from run_op_queue [OF Cons.prems(1) s1(2)] obtain zs where z: "if switching op s
     then switched (zs @ requeued op s) s s1
     else current s1 = current s \<and> readyQueue s1 = readyQueue s @ zs" by blast
  show ?case
  proof (cases "switching op s")
    case False
    then have "readyQueue s1 = xs @ p # (ys @ zs)" using z Cons.prems(3) by simp
    from Cons.IH [OF k1 s1(3) this] show ?thesis using False s1(2) by auto
  next
    case True
    then have z1: "current s1 = Some (hd (xs @ [p]))" "readyQueue s1 = tl (xs @ p # ys @ zs @ requeued op s)"
      using z Cons.prems(3) by (cases xs; simp add: switched_def)+
    show ?thesis
    proof (cases xs)
      case Nil
      then show ?thesis using True s1(2) z1(1) by simp
    next
      case (Cons x us)
      then have "readyQueue s1 = us @ p # (ys @ zs @ requeued op s)" using z1(2) by simp
      from Cons.IH [OF k1 s1(3) this] show ?thesis using True s1(2) Cons by auto
    qed
  qed
qed simp

theorem ready_queue_fair_witness: "gets_cpu 2 [Resume, Resume] killed_state"
proof -
  have "run_ops [Resume, Resume] killed_state \<noteq> None" "switch_count [Resume, Resume] killed_state = 1" by code_simp+
  then show ?thesis using ready_queue_fair [OF killed_reach, of "[Resume, Resume]" _ "[]" 2 "[]"] killed_facts(4)
    by auto
qed

text \<open>
  C18. A timer tick puts exactly the processes whose timer is due at the end of the ready queue, in
  the order in which they went to sleep, removes that timer and no other, and leaves only timers
  that are still in the future.
\<close>

theorem tick_wakes_due:
  assumes "kreach c s"
  shows "\<exists>s'. pit_handler s = Inr s' \<and> jiffies s' = jiffies s + 1 \<and> current s' = current s
    \<and> readyQueue s' = readyQueue s @ concat (map sleepers (filter (\<lambda>T. target T = jiffies s + 1) (timers s)))
    \<and> timers s' = filter (\<lambda>T. target T \<noteq> jiffies s + 1) (timers s)
    \<and> (\<forall>T \<in> set (timers s'). jiffies s' < target T)"
proof -
  obtain w where inv: "sched_inv False 0 0 s w" and nl: "no_limbo w"
    using kreach_inv [OF assms] by blast
  from pit_handler_inv [OF inv nl] obtain s' where s': "pit_handler s = Inr s'"
    "sched_inv False 0 0 s' (readied (set (due s)) w)" "jiffies s' = jiffies s + 1" "current s' = current s"
    "readyQueue s' = readyQueue s @ due s" "timers s' = filter (\<lambda>T. target T \<noteq> jiffies s + 1) (timers s)"
    by auto
  have later: "\<forall>T \<in> set (timers s'). jiffies s' < target T"
    using sched_invD(6) [OF s'(2)] unfolding timers_ok_def by blast
  have srt: "sorted_wrt (\<lambda>S T. target S < target T) (timers s)" and fut: "\<forall>T \<in> set (timers s). jiffies s < target T"
    using sched_invD(6) [OF inv] unfolding timers_ok_def by blast+
  have "due s = concat (map sleepers (filter (\<lambda>T. target T = jiffies s + 1) (timers s)))"
  proof (cases "timers s")
    case Nil
    then show ?thesis by (simp add: due_def)
  next
    case (Cons T Ts)
    have "jiffies s + 1 \<le> target T" using fut Cons succ_u32 by simp
    then have "\<forall>S \<in> set Ts. target S \<noteq> jiffies s + 1" using srt Cons by auto
    then have "filter (\<lambda>T. target T = jiffies s + 1) Ts = []" by (simp add: filter_empty_conv)
    then show ?thesis using Cons by (simp add: due_def)
  qed
  then show ?thesis using s' later by auto
qed

definition sleeping_run :: "kop list" where
  "sleeping_run = [Resume, Spawn, SleepUntil 1, Resume, SleepUntil 2]"

definition sleeping_state :: sched where
  "sleeping_state = the (run_ops sleeping_run (booted (\<lambda>_. 0)))"

lemma sleeping_reach: "kreach (\<lambda>_. 0) sleeping_state"
proof -
  have "run_ops sleeping_run (booted (\<lambda>_. 0)) \<noteq> None" by code_simp
  then show ?thesis using booted_kreach [of sleeping_run "\<lambda>_. 0"] unfolding sleeping_state_def by auto
qed

theorem tick_wakes_due_witness:
  "timers sleeping_state = [\<lparr>target = 1000, sleepers = [0]\<rparr>, \<lparr>target = 2000, sleepers = [2]\<rparr>]
     \<and> (\<exists>s'. pit_handler sleeping_state = Inr s' \<and> readyQueue s' = [] \<and> jiffies s' = 1)"
proof -
  have "timers sleeping_state = [\<lparr>target = 1000, sleepers = [0]\<rparr>, \<lparr>target = 2000, sleepers = [2]\<rparr>]"
    "readyQueue sleeping_state = []" "jiffies sleeping_state = 0" by code_simp+
  with tick_wakes_due [OF sleeping_reach] show ?thesis by auto
qed


lemma in_code_no_irq:
  assumes "sched_inv False 0 0 s w" "in_code s"
  shows "\<not> in_irq s"
proof -
  obtain me P where me: "current s = Some me" "procs s me = Some P" "konts P = []" using in_codeD [OF assms(2)] by blast
  obtain Q x where Q: "procs s me = Some Q" "proc_ok 0 0 x Q" "x \<noteq> Dead" "x \<noteq> Zombie"
    using current_proc [OF assms(1) me(1)] .
  then have "unat (iDepth P) = 0" using me(2,3) by (simp add: proc_ok_def)
  then have "iDepth P = 0" by (simp only: unat_eq_0)
  then show ?thesis using me by (simp add: in_irq_def running_def)
qed

lemma down_waits:
  assumes "kreach c s" "in_code s" "current s = Some me" "idleProcess s \<noteq> Some me"
  shows "\<exists>s'. down (Sem n) s = Inr s' \<and> kreach c s' \<and>
    user_sems s' n = (if count (sems s (Sem n)) = 0
      then (user_sems s n)\<lparr>waiting := waiting (user_sems s n) @ [me]\<rparr>
      else (user_sems s n)\<lparr>count := s32 (count (user_sems s n) - 1)\<rparr>)
    \<and> (count (sems s (Sem n)) \<noteq> 0 \<longrightarrow> current s' = Some me)"
proof -
  have a: "allowed (Down n) s" using assms(2-4) by auto
  obtain w where inv: "sched_inv False 0 0 s w" "no_limbo w" using kreach_inv [OF assms(1)] by blast
  have "\<not> blocks_in_irq (Down n) s" using in_code_no_irq [OF inv(1) assms(2)] by simp
  then have "good (run_op (Down n) s)" using run_op_good [OF inv _ a] assms(3) by simp
  then obtain s' where s': "down (Sem n) s = Inr s'" by (auto simp: good_def)
  have "kreach c s'" using kreach.step [OF assms(1) a] s' by simp
  moreover have "user_sems s' n = (user_sems s n)\<lparr>waiting := waiting (user_sems s n) @ [me]\<rparr>"
    if "count (sems s (Sem n)) = 0"
  proof -
    have y: "yield (Some (OnSem (Sem n))) (push KEnable (disable s)) = Inr s'"
      using s' that assms(3) by (simp add: down_def Let_def)
    show ?thesis using yield_eq(2) [OF y, of n] kreach_idle [OF assms(1)] assms(3)
      by (simp add: block_user_def user_sems_def)
  qed
  moreover have "user_sems s' n = (user_sems s n)\<lparr>count := s32 (count (user_sems s n) - 1)\<rparr> \<and> current s' = Some me"
    if "count (sems s (Sem n)) \<noteq> 0"
  proof -
    have y: "enable (upd_sem (Sem n) (\<lambda>S. S\<lparr>count := s32 (count S - 1)\<rparr>) (disable s)) = Inr s'"
      using s' that by (simp add: down_def Let_def)
    show ?thesis using enable_eq [OF y] assms(3) by (simp add: user_sems_def)
  qed
  ultimately show ?thesis using s' by auto
qed

text \<open>
  What down does, on both branches: at count zero the caller goes to the end of the queue of
  the semaphore, is BLOCKED and no longer runs; at any other count, a negative one included, it
  keeps running with the count one lower. So a semaphore created with a negative count never blocks.
\<close>

theorem down_blocks_at_zero:
  assumes "kreach c s" "in_code s" "current s = Some me" "idleProcess s \<noteq> Some me"
  shows "\<exists>s'. down (Sem n) s = Inr s' \<and>
    (if count (sems s (Sem n)) = 0
     then waiting (sems s' (Sem n)) = waiting (sems s (Sem n)) @ [me] \<and> count (sems s' (Sem n)) = 0
       \<and> map_option p_state (procs s' me) = Some BLOCKED \<and> current s' \<noteq> Some me
     else count (sems s' (Sem n)) = s32 (count (sems s (Sem n)) - 1)
       \<and> waiting (sems s' (Sem n)) = waiting (sems s (Sem n)) \<and> current s' = Some me)"
proof -
  obtain s' where s': "down (Sem n) s = Inr s'" "kreach c s'"
    "user_sems s' n = (if count (sems s (Sem n)) = 0
      then (user_sems s n)\<lparr>waiting := waiting (user_sems s n) @ [me]\<rparr>
      else (user_sems s n)\<lparr>count := s32 (count (user_sems s n) - 1)\<rparr>)"
    "count (sems s (Sem n)) \<noteq> 0 \<longrightarrow> current s' = Some me"
    using down_waits [OF assms] by blast
  obtain w where inv: "sched_inv False 0 0 s' w" and nl: "no_limbo w" and c: "current s' \<noteq> None"
    using kreach_inv [OF s'(2)] by blast
  have "map_option p_state (procs s' me) = Some BLOCKED \<and> current s' \<noteq> Some me" if "count (sems s (Sem n)) = 0"
  proof -
    have "me \<in> set (waiting (sems s' (Sem n)))" using s'(3) that by (simp add: user_sems_def)
    then have wm: "w me = Some (Waits (OnSem (Sem n)))" using sched_invD(5) [OF inv] unfolding sems_ok_def by blast
    then obtain P where P: "procs s' me = Some P"
      using sched_invD(1) [OF inv] unfolding procs_ok_def by (cases "procs s' me") auto
    have "p_state P = BLOCKED" using procs_okD [OF sched_invD(1) [OF inv] P] wm by (auto simp: proc_ok_def)
    moreover have "current s' \<noteq> Some me" using run_okD(1) [OF sched_invD(2) [OF inv], of me] wm by auto
    ultimately show ?thesis using P by simp
  qed
  then show ?thesis using s' by (auto simp: user_sems_def)
qed

lemma booted_code:
  "\<exists>s. kreach c s \<and> in_code s \<and> current s = Some 0 \<and> idleProcess s = Some 1 \<and> count (sems s (Sem n)) = s32 (c n)"
proof -
  let ?s = "(booted c)\<lparr>procs := (procs (booted c))(0 \<mapsto> init_proc\<lparr>p_state := RUNNING, konts := []\<rparr>)\<rparr>"
  have "allowed Resume (booted c)" by (simp add: in_code_def booted_def init_proc_def)
  moreover have "run_op Resume (booted c) = Inr ?s"
    by (simp add: exec_kont_def booted_def init_proc_def get_proc_def checkKilled_def checkReaper_def Let_def
        disable_def enable_def upd_proc_def pop_def empty_sched_def fun_eq_iff)
  ultimately have "kreach c ?s" using kreach.step kreach.boot [OF kernelMain_booted] by blast
  moreover have "in_code ?s" by (simp add: in_code_def booted_def)
  ultimately show ?thesis by (intro exI [of _ ?s]) (simp add: booted_def empty_sched_def)
qed

theorem down_blocks_at_zero_witness:
  "\<exists>s s'. count (sems s (Sem 4)) = -1 \<and> down (Sem 4) s = Inr s' \<and> count (sems s' (Sem 4)) = -2 \<and> current s' = current s"
proof -
  obtain s where s: "kreach (\<lambda>_. -1) s" "in_code s" "current s = Some 0" "idleProcess s = Some 1"
    "count (sems s (Sem 4)) = -1" using booted_code [of "\<lambda>_. -1" 4] by (auto simp: s32_id)
  from down_blocks_at_zero [OF s(1-3), of 4] s(3-5) show ?thesis by (auto simp: s32_id)
qed

text \<open>\<^verbatim>\<open>yield\<close> leaves the reaper queue alone, so a process that exits is in it afterwards.\<close>

lemma makeReady_reaper: "makeReady p s = Inr s' \<Longrightarrow> reaperQueue s' = reaperQueue s"
  by (auto simp: makeReady_def Let_def enable_eq split: if_splits)

lemma yield_None_reaper:
  assumes "yield None s = Inr s'"
  shows "reaperQueue s' = reaperQueue s"
proof -
  let ?s1 = "push KYield (disable s)"
  from assms obtain s2 p s3 where
    s2: "(case current ?s1 of None \<Rightarrow> Inr ?s1 | Some me \<Rightarrow> makeReady me ?s1) = Inr s2"
    and s3: "pick_next s2 = Inr (p, s3)" and d: "dispatch p (current ?s1) s3 = Inr s'"
    unfolding yield_def Let_def by (auto simp del: push_fields cong: option.case_cong)
  have "reaperQueue s2 = reaperQueue s"
    using s2 makeReady_reaper by (cases "current s") auto
  moreover have "reaperQueue s3 = reaperQueue s2"
    using s3 makeReady_reaper
    by (auto simp: pick_next_def new_process_def start_def Let_def split: list.splits option.splits)
  moreover have "reaperQueue s' = reaperQueue s3"
    using d by (auto simp: dispatch_def Let_def simp del: push_fields split: if_splits)
  ultimately show ?thesis by simp
qed

lemma exit_rest_reaper:
  assumes "exit_rest s = Inr s'" "current s = Some p"
  shows "p \<in> set (reaperQueue s')"
proof -
  obtain s1 where "yield None ((upd_proc p (\<lambda>P. P\<lparr>p_state := TERMINATED, konts := []\<rparr>)
        ((disable s1)\<lparr>reaperQueue := reaperQueue (disable s1) @ [p]\<rparr>))\<lparr>current := None\<rparr>) = Inr s'"
    using assms by (auto simp: exit_rest_def event_signal_def Let_def)
  from yield_None_reaper [OF this] show ?thesis by simp
qed

text \<open>What \<^verbatim>\<open>exit\<close> comes to after the release of the resources.\<close>

lemma exit_terminates:
  assumes inv: "sched_inv False 0 0 s w" and nl: "no_limbo w" and ie: "in_exit s" and me: "current s = Some me"
  shows "\<exists>s'. exec_kont s = Inr s' \<and> user_sems s' = user_sems s \<and> current s' \<noteq> Some me
    \<and> me \<in> set (reaperQueue s') \<and> map_option p_state (procs s' me) = Some TERMINATED"
proof -
  obtain P ks where P: "procs s me = Some P" "konts P = KExit # ks"
    using ie me by (auto simp: in_exit_def running_def split: option.splits list.splits)
  obtain s' w' where s': "exec_kont s = Inr s'" "sched_inv False 0 0 s' w'"
    using exec_kont_inv [OF inv nl me] unfolding good_def by blast
  then have "exit_rest s = Inr s'" using P me by (simp add: exec_kont_def get_proc_def)
  then have r: "me \<in> set (reaperQueue s')" by (rule exit_rest_reaper) (rule me)
  then have wm: "w' me = Some Dead" using sched_invD(3) [OF s'(2)] unfolding queues_ok_def by blast
  have c: "current s' \<noteq> Some me" using run_okD(1) [OF sched_invD(2) [OF s'(2)], of me] wm by auto
  obtain Q where Q: "procs s' me = Some Q"
    using sched_invD(1) [OF s'(2)] wm unfolding procs_ok_def by (cases "procs s' me") auto
  have "p_state Q = TERMINATED" using procs_okD [OF sched_invD(1) [OF s'(2)] Q] wm by (auto simp: proc_ok_def)
  moreover have "if in_exit s then \<exists>zs. switches zs s s' else appends s s'"
  proof (rule exec_kont_queue [OF s'(1)])
    show "idleProcess s \<noteq> None" using sched_invD(4) [OF inv] unfolding idle_ok_def by auto
    show "konts_ok (konts R)" if "current s = Some q" "procs s q = Some R" for q R
      using current_proc [OF inv that(1)] that(2) by (auto simp: proc_ok_def)
  qed
  then have "user_sems s' = user_sems s" using ie by (auto simp: switches_def)
  ultimately show ?thesis using s'(1) Q r c by simp
qed

text \<open>A killed process that runs again is in the middle of \<^verbatim>\<open>exit\<close>.\<close>

lemma checkKilled_exits:
  assumes inv: "sched_inv False 0 0 s w" and nl: "no_limbo w"
    and me: "current s = Some me" "procs s me = Some P" "isKilled P"
  shows "\<exists>s' P'. checkKilled rest s = Inr s' \<and> current s' = Some me \<and> procs s' me = Some P'
    \<and> konts P' = KExit # konts P \<and> exitCode P' = killCode P \<and> appends s s'
    \<and> (\<forall>q. procs s' q = None \<longrightarrow> q \<in> set (reaperQueue s) \<or> procs s q = None)"
proof -
  have "(0 :: nat) \<le> 8" by simp
  from checkReaper_inv [OF inv nl this] obtain s1 w1 where s1: "checkReaper s = Inr s1" "mekept s s1" by blast
  have c1: "current s1 = Some me" using mekeptD(1) [OF s1(2)] me(1) by simp
  obtain P1 where P1: "procs s1 me = Some P1" "konts P1 = konts P" "isKilled P1" "killCode P1 = killCode P"
    using mekeptD(9) [OF s1(2) me(1,2)] me(3) by auto
  let ?s = "push KExit (upd_proc me (\<lambda>P. P\<lparr>exitCode := killCode P1\<rparr>) s1)"
  have e: "checkKilled rest s = Inr ?s" using s1(1) c1 P1(1,3) by (simp add: checkKilled_def get_proc_def exit_def)
  have a: "appends s ?s"
    using appends_trans [OF appends_checkReaper [OF s1(1)] appends_trans [OF appends_upd_proc appends_push]] .
  have "q \<in> set (reaperQueue s) \<or> procs s q = None" if "procs ?s q = None" for q
    using checkReaper_deletes [OF s1(1), of q] that by (auto simp: push_procs split: if_splits)
  then show ?thesis using e c1 P1 a by (intro exI [of _ ?s]) (simp add: push_procs)
qed

text \<open>
  A process that is killed while it waits for a semaphore takes the unit that up handed to it
  with it: when it is resumed in yield it goes into exit, and when it has terminated the semaphores
  are as they were, so a mutex stays locked for ever.
\<close>

theorem killed_waiter_keeps_unit:
  assumes "kreach c s" "current s = Some me" "procs s me = Some P" "konts P = KYield # ks" "isKilled P"
  shows "\<exists>s1 s2. run_ops [Resume] s = Some s1 \<and> in_exit s1 \<and> current s1 = Some me
    \<and> run_ops [Resume] s1 = Some s2 \<and> (\<forall>n. sems s2 (Sem n) = sems s (Sem n))
    \<and> map_option p_state (procs s2 me) = Some TERMINATED \<and> current s2 \<noteq> Some me \<and> me \<in> set (reaperQueue s2)"
proof -
  obtain w where inv: "sched_inv False 0 0 s w" and nl: "no_limbo w" using kreach_inv [OF assms(1)] by blast
  from checkKilled_exits [OF inv nl assms(2,3,5)] obtain s1 P1 where s1: "checkKilled (\<lambda>s. enable (pop s)) s = Inr s1"
    "current s1 = Some me" "procs s1 me = Some P1" "konts P1 = KExit # konts P" "appends s s1" by blast
  have r1: "run_op Resume s = Inr s1" using assms(2-4) s1(1) by (simp add: exec_kont_def get_proc_def)
  have al: "allowed Resume s" using assms(2-4) by (simp add: in_code_def)
  have k1: "kreach c s1" by (rule kreach.step [OF assms(1) al r1])
  have ie: "in_exit s1" "allowed Resume s1" using s1(2-4) by (simp_all add: in_exit_def running_def in_code_def)
  obtain w1 where "sched_inv False 0 0 s1 w1" "no_limbo w1" using kreach_inv [OF k1] by blast
  from exit_terminates [OF this ie(1) s1(2)] obtain s2 where s2: "exec_kont s1 = Inr s2" "user_sems s2 = user_sems s1"
    "current s2 \<noteq> Some me" "me \<in> set (reaperQueue s2)" "map_option p_state (procs s2 me) = Some TERMINATED" by blast
  have "user_sems s2 = user_sems s" using s1(5) s2(2) by (simp add: appends_def)
  then have "\<forall>n. sems s2 (Sem n) = sems s (Sem n)" by (simp add: user_sems_def fun_eq_iff)
  then show ?thesis using r1 al ie s1(2) s2 by auto
qed

theorem killed_waiter_keeps_unit_witness:
  "\<exists>s1 s2. run_ops [Resume] killed_state = Some s1 \<and> run_ops [Resume] s1 = Some s2
     \<and> count (sems s2 (Sem 0)) = 0 \<and> waiting (sems s2 (Sem 0)) = []
     \<and> map_option p_state (procs s2 0) = Some TERMINATED"
proof -
  obtain P where P: "procs killed_state 0 = Some P" "konts P = [KYield, KEnable]" "isKilled P"
    using killed_facts(2,3) by auto
  have "count (sems killed_state (Sem 0)) = 0" "waiting (sems killed_state (Sem 0)) = []" by code_simp+
  with killed_waiter_keeps_unit [OF killed_reach killed_facts(1) P] show ?thesis by metis
qed

text \<open>
  Which frequencies \<^verbatim>\<open>Pit::init\<close> accepts: exactly those whose divisor is not zero and fits in
  16 bits. The real rate is then never zero, so \<^verbatim>\<open>Pit::seconds\<close> cannot divide by zero, and never
  below the rate asked for; zero and frequencies above 1193182 divide by zero, those below 19
  panic.
\<close>

theorem pit_init_range:
  "case pit_init freq s of
     Inr s' \<Rightarrow> 19 \<le> freq \<and> freq \<le> 1193182 \<and> s' = s\<lparr>hz := hz s'\<rparr> \<and> freq \<le> hz s'
       \<and> pit_seconds s' = Inr (jiffies s div hz s')
   | Inl e \<Rightarrow> (freq = 0 \<or> 1193182 < freq) \<and> e = DivZero
       \<or> (0 < freq \<and> freq < 19) \<and> e = Panic ''does not fit in 16 bits''"
proof (cases "freq = 0")
  case True
  then show ?thesis by (simp add: pit_init_def)
next
  case False
  define F where "F = unat freq"
  define d :: u32 where "d = 1193182 div freq"
  have F0: "0 < F" using False by (simp add: F_def word_gt_0_no unat_gt_0)
  have ud: "unat d = 1193182 div F" by (simp add: d_def F_def unat_div)
  have "d AND 0xffff = d \<longleftrightarrow> take_bit 16 d = d" by (simp add: take_bit_eq_mask mask_eq_exp_minus_1)
  also have "\<dots> \<longleftrightarrow> unat d mod 2 ^ 16 = unat d"
    unfolding word_unat_eq_iff unsigned_take_bit_eq by (simp only: take_bit_eq_mod)
  also have "\<dots> \<longleftrightarrow> 1193182 div F < 65536" by (simp add: ud mod_eq_self_iff_div_eq_0 div_eq_0_iff)
  also have "\<dots> \<longleftrightarrow> 1193182 < 65536 * F"
    using F0 div_less_iff_less_mult [of F 1193182 65536] by simp
  also have "\<dots> \<longleftrightarrow> 19 \<le> F"
  proof (cases "19 \<le> F")
    case False
    then have "F \<le> 18" by simp
    with False show ?thesis by linarith
  qed linarith
  finally have fits: "d AND 0xffff = d \<longleftrightarrow> 19 \<le> freq" by (simp add: F_def word_le_nat_alt)
  have d0: "d = 0 \<longleftrightarrow> 1193182 < freq"
    using F0 by (simp add: word_unat_eq_iff ud div_eq_0_iff word_less_nat_alt F_def)
  have small: "freq < 19 \<longleftrightarrow> \<not> 19 \<le> freq" by (simp add: not_le)
  show ?thesis
  proof (cases "19 \<le> freq")
    case no: False
    then show ?thesis using False fits
      by (auto simp: pit_init_def d_def [symmetric] Let_def word_gt_0 not_le)
  next
    case ge: True
    show ?thesis
    proof (cases "1193182 < freq")
      case True
      then show ?thesis using False fits ge d0 by (simp add: pit_init_def d_def [symmetric] Let_def)
    next
      case le: False
      define h :: u32 where "h = 1193182 div d"
      have dn: "0 < unat d" using d0 le by (simp add: unat_gt_0)
      have "unat d * F \<le> 1193182" unfolding ud by (rule div_times_less_eq_dividend)
      then have "F \<le> 1193182 div unat d" using dn by (simp add: less_eq_div_iff_mult_less_eq mult.commute)
      then have "freq \<le> h" by (simp add: h_def word_le_nat_alt F_def unat_div)
      moreover from this have "h \<noteq> 0" using False by auto
      moreover have "pit_init freq s = Inr (s\<lparr>hz := h\<rparr>)"
        using False fits ge d0 le by (simp add: pit_init_def d_def [symmetric] Let_def h_def)
      ultimately show ?thesis using ge le by (simp add: pit_seconds_def not_less)
    qed
  qed
qed

end
