(* ===== verification/Vmm_Spaces.thy ===== *)
theory Vmm_Spaces
  imports Phys_Vmm Scheduler_Properties
begin

text \<open>
  Whole operations on address spaces: mapping a page, page faults, \<^verbatim>\<open>fork\<close> and \<^verbatim>\<open>exec\<close>. Each keeps
  the invariant of \<open>Phys_Vmm\<close> that every frame in use has exactly one user, and is described
  by what the processor's translation and the contents of the pages become.
\<close>

section \<open>Mapping a page\<close>

lemma same_page:
  "frame_of va' = frame_of va \<longleftrightarrow> i0_of va' = i0_of va \<and> i1_of va' = i1_of va"
proof -
  have "frame_of va' = frame_of va \<longleftrightarrow> unat va' div 4096 = unat va div 4096"
    unfolding word_unat_eq_iff unat_frame_of by simp
  also have "\<dots> \<longleftrightarrow> unat va' div 4096 div 1024 = unat va div 4096 div 1024
      \<and> unat va' div 4096 mod 1024 = unat va div 4096 mod 1024"
    by (metis div_mult_mod_eq)
  finally show ?thesis by (simp add: i0_of_div i1_of_div flip: div_mult2_eq)
qed

text \<open>A frame that has been taken from the allocator and has no use yet.\<close>

definition loose :: "phys \<Rightarrow> (u32 \<Rightarrow> owner option) \<Rightarrow> u32 \<Rightarrow> bool" where
  "loose s own f \<longleftrightarrow> own f = None \<and> frame_of f = f \<and> f \<noteq> 0 \<and> f < avail s"

lemma pmap_ptes:
  assumes inv: "vm_inv s D own" and d: "d \<in> D" "i0_of va = 0 \<or> 512 \<le> i0_of va"
  shows "pmap d va pa u w s = Inl (Panic ''no more frames'') \<or> (\<exists>s'. pmap d va pa u w s = Inr s'
    \<and> (\<forall>d' \<in> D. \<forall>i < 1024. \<forall>j < 1024. pte_of s' d' i j =
          (if d' = d \<and> i = i0_of va \<and> j = i1_of va then pte_word pa u w else pte_of s d' i j))
    \<and> (512 \<le> i0_of va \<and> \<not> present (pte_of s d (i0_of va) (i1_of va)) \<and> loose s own pa \<longrightarrow>
        (\<exists>own'. vm_inv s' D own' \<and> own' pa = Some (Page d (i0_of va) (i1_of va))
          \<and> (\<forall>f d' i j. own f = Some (Page d' i j) \<longrightarrow> own' f = own f))))"
proof -
  consider "getPTE d va s = Inl (Panic ''no more frames'')"
    | t s1 own1 where "getPTE d va s = Inr (slot t (i1_of va), s1)" "got_pte s D own d (i0_of va) t s1 own1"
    using getPTE_spec [OF inv d] by blast
  then show ?thesis
  proof cases
    case 1
    then show ?thesis by (simp add: pmap_def)
  next
    case (2 t s1 own1)
    then have H: "vm_inv s1 D own1" "own1 t = Some (Table d (i0_of va))"
      "\<And>d' i' j'. d' \<in> D \<Longrightarrow> i' < 1024 \<Longrightarrow> j' < 1024 \<Longrightarrow> pte_of s1 d' i' j' = pte_of s d' i' j'"
      and K: "keeps s own s1 own1"
      unfolding got_pte_def by blast+
    let ?s = "s1\<lparr>mem := (mem s1)(slot t (i1_of va) := pte_word pa u w)\<rparr>"
    have "\<exists>own'. vm_inv ?s D own' \<and> own' pa = Some (Page d (i0_of va) (i1_of va))
          \<and> (\<forall>f d' i j. own f = Some (Page d' i j) \<longrightarrow> own' f = own f)"
      if i: "512 \<le> i0_of va" and np: "\<not> present (pte_of s d (i0_of va) (i1_of va))" and pa: "loose s own pa"
    proof (intro exI conjI allI impI)
      note L = pa [unfolded loose_def]
      have a: "avail s \<le> avail s1" using K by (simp add: keeps_def)
      have o: "own1 pa = None" using keepsD(1) [OF K, of pa] L by simp
      show "vm_inv ?s D (own1(pa := Some (Page d (i0_of va) (i1_of va))))"
        by (rule set_page [OF H(1,2) i idx_less(2) _ _ _ o])
          (use np L a H(3) [OF d(1) idx_less] in \<open>auto simp: frame_pte_word\<close>)
      fix f d' i j assume f: "own f = Some (Page d' i j)"
      then have "f \<noteq> pa" using L by auto
      then show "(own1(pa := Some (Page d (i0_of va) (i1_of va)))) f = own f"
        using keepsD(1) [OF K, of f] ownD [OF inv f] f by auto
    qed simp
    moreover have "pmap d va pa u w s = Inr ?s" using 2(1) by (simp add: pmap_def)
    moreover have "pte_of ?s d' i j = (if d' = d \<and> i = i0_of va \<and> j = i1_of va then pte_word pa u w else pte_of s d' i j)"
      if "d' \<in> D" "i < 1024" "j < 1024" for d' i j
      using write_pte(3) [OF H(1,2) idx_less(2) refl that] H(3) [OF that] by simp
    ultimately show ?thesis by blast
  qed
qed

lemma not_present_translate: "translate s d va = None \<longleftrightarrow> \<not> present (pte_of s d (i0_of va) (i1_of va))"
  by (simp add: translate_def Let_def)

text \<open>
  C20. \<^verbatim>\<open>pmap\<close> refines an update of the address translation: it fails only when no frame is left
  for a page table, and otherwise the pages' translation is the frame and the permissions asked
  for, while every other page of this and of every other address space translates as before. When the page is one of
  the user's that was not mapped and the frame is fresh from the allocator, the address spaces are consistent
  again afterwards: the frame belongs to this page, and the pages that were there keep theirs.
\<close>

theorem pmap_translates:
  assumes "vm_inv s D own" "d \<in> D" "i0_of va = 0 \<or> 512 \<le> i0_of va"
  shows "case pmap d va pa u w s of
      Inl e \<Rightarrow> e = Panic ''no more frames''
    | Inr s' \<Rightarrow> (\<forall>d' \<in> D. \<forall>va'. translate s' d' va' =
        (if d' = d \<and> frame_of va' = frame_of va then Some (frame_of pa OR (va' AND 0xfff), u, w)
         else translate s d' va'))
      \<and> (512 \<le> i0_of va \<and> translate s d va = None \<and> loose s own pa \<longrightarrow>
        (\<exists>own'. vm_inv s' D own' \<and> own' pa = Some (Page d (i0_of va) (i1_of va))
          \<and> (\<forall>f d' i j. own f = Some (Page d' i j) \<longrightarrow> own' f = own f)))"
proof -
  from pmap_ptes [OF assms, of pa u w] show ?thesis
  proof (elim disjE exE conjE)
    fix s' assume s': "pmap d va pa u w s = Inr s'"
      "\<forall>d' \<in> D. \<forall>i < 1024. \<forall>j < 1024. pte_of s' d' i j =
          (if d' = d \<and> i = i0_of va \<and> j = i1_of va then pte_word pa u w else pte_of s d' i j)"
    have "translate s' d' va' = (if d' = d \<and> frame_of va' = frame_of va then Some (frame_of pa OR (va' AND 0xfff), u, w)
         else translate s d' va')" if "d' \<in> D" for d' va'
    proof -
      have "pte_of s' d' (i0_of va') (i1_of va') =
          (if d' = d \<and> frame_of va' = frame_of va then pte_word pa u w else pte_of s d' (i0_of va') (i1_of va'))"
        using s'(2) that idx_less [of va'] same_page [of va' va] by simp
      then show ?thesis
        using present_pte_word(2,3) [of pa u w] by (simp add: translate_def Let_def frame_pte_word PTE_U_def PTE_W_def)
    qed
    moreover assume "512 \<le> i0_of va \<and> \<not> present (pte_of s d (i0_of va) (i1_of va)) \<and> loose s own pa \<longrightarrow>
        (\<exists>own'. vm_inv s' D own' \<and> own' pa = Some (Page d (i0_of va) (i1_of va))
          \<and> (\<forall>f d' i j. own f = Some (Page d' i j) \<longrightarrow> own' f = own f))"
    ultimately show ?thesis unfolding s'(1) sum.case not_present_translate by blast
  qed simp
qed

section \<open>Page faults\<close>

text \<open>
  A process that kills itself is in the middle of exit at once, and terminated after it. The only
  processes that go away as it is killed are terminated ones from the reaper queue.
\<close>

lemma kill_self:
  assumes k: "kreach c s" and me: "current s = Some me" "procs s me = Some P" "idleProcess s \<noteq> Some me"
  shows "\<exists>s' s''. kill me code s = Inr s' \<and> current s' = Some me \<and> in_exit s'
    \<and> map_option exitCode (procs s' me) = Some (if isKilled P then killCode P else code)
    \<and> (\<forall>q. procs s q \<noteq> None \<longrightarrow> procs s' q = None \<longrightarrow> q \<in> set (reaperQueue s))
    \<and> exec_kont s' = Inr s'' \<and> current s'' \<noteq> Some me \<and> map_option p_state (procs s'' me) = Some TERMINATED"
proof -
  obtain w where inv: "sched_inv False 0 0 s w" and nl: "no_limbo w" and c: "current s \<noteq> None"
    using kreach_inv [OF k] by blast
  let ?s1 = "upd_proc me (\<lambda>P. if isKilled P then P else P\<lparr>isKilled := True, killCode := code\<rparr>) (disable s)"
  obtain Q where Q: "procs ?s1 me = Some Q" "isKilled Q" "killCode Q = (if isKilled P then killCode P else code)"
    using me by (auto simp: disable_procs)
  have "sched_inv False (Suc 0) 0 ?s1 w"
    using me(3) by (intro upd_proc_inv disable_inv [OF inv]) (auto simp: stacks_fit_def)
  from enable_inv [OF this] obtain s2 where s2: "enable ?s1 = Inr s2" "sched_inv False 0 0 s2 w" "same ?s1 s2" by blast
  have c2: "current s2 = Some me" using sameD(2) [OF s2(3)] me(1) by simp
  obtain Q2 where Q2: "procs s2 me = Some Q2" "isKilled Q2" "killCode Q2 = killCode Q"
    using same_procs [OF s2(3) Q(1)] Q(2) by force
  from checkKilled_exits [OF s2(2) nl c2 Q2(1,2), of Inr] obtain s' P' where s': "checkKilled Inr s2 = Inr s'"
    "current s' = Some me" "procs s' me = Some P'" "konts P' = KExit # konts Q2" "exitCode P' = killCode Q2"
    "\<forall>q. procs s' q = None \<longrightarrow> q \<in> set (reaperQueue s2) \<or> procs s2 q = None" by blast
  have e: "kill me code s = Inr s'" using s2(1) s'(1) by (simp add: kill_def)
  have ie: "in_exit s'" using s'(2-4) by (simp add: in_exit_def running_def)
  have n: "reaperQueue s2 = reaperQueue s" "procs s2 q = None \<longleftrightarrow> procs s q = None" for q
    using sameD(4) [OF s2(3)] same_none [OF s2(3), of q] by (simp_all add: disable_procs)
  obtain w' where "sched_inv False 0 0 s' w'" "no_limbo w'"
    using kill_inv [OF inv nl me(3) c, of code] e unfolding good_def by auto
  from exit_terminates [OF this ie s'(2)] obtain s'' where "exec_kont s' = Inr s''" "current s'' \<noteq> Some me"
    "map_option p_state (procs s'' me) = Some TERMINATED" by blast
  moreover have "map_option exitCode (procs s' me) = Some (if isKilled P then killCode P else code)"
    using s'(3,5) Q(3) Q2(3) by simp
  moreover have "\<forall>q. procs s q \<noteq> None \<longrightarrow> procs s' q = None \<longrightarrow> q \<in> set (reaperQueue s)"
    using s'(6) n by metis
  ultimately show ?thesis using e ie s'(2) by blast
qed

lemma user_va: "0x80000000 \<le> va \<Longrightarrow> 512 \<le> i0_of va"
  by (simp add: i0_of_div word_le_nat_alt less_eq_div_iff_mult_less_eq)

lemma fault_page:
  assumes inv: "vm_inv m D own" and d: "d \<in> D" and va: "0x80000000 \<le> va"
    and np: "\<not> present (pte_of m d (i0_of va) (i1_of va))"
  shows "bindE (alloc_frame m) (\<lambda>(pa, m1). pmap d va pa True True m1) = Inl (Panic ''no more frames'')
    \<or> (\<exists>m' own'. bindE (alloc_frame m) (\<lambda>(pa, m1). pmap d va pa True True m1) = Inr m'
        \<and> got_page m D own d (i0_of va) (i1_of va) (\<lambda>k. 0) m' own')"
proof (rule map_new_page [OF inv d user_va [OF va] np, where fill = "\<lambda>f s1. s1"])
  fix f s1 assume g: "got_frame m D own f s1"
  then show "\<exists>ma. s1 = s1\<lparr>mem := ma\<rparr> \<and> (\<forall>k<1024. ma (slot f k) = 0)
      \<and> (\<forall>h k. frame_of h = h \<longrightarrow> h \<noteq> f \<longrightarrow> k < 1024 \<longrightarrow> ma (slot h k) = mem s1 (slot h k))"
    by (intro exI [of _ "mem s1"]) (simp add: got_frame_def)
qed


lemma got_pageD:
  assumes "got_page s D own d i j c s' own'"
  shows "d' \<in> D \<Longrightarrow> i' < 1024 \<Longrightarrow> d' \<noteq> d \<Longrightarrow> pde s' d' i' = pde s d' i'"
    "d' \<in> D \<Longrightarrow> i' < 1024 \<Longrightarrow> j' < 1024 \<Longrightarrow> \<not> (d' = d \<and> i' = i \<and> j' = j) \<Longrightarrow> pte_of s' d' i' j' = pte_of s d' i' j'"
  using assms unfolding got_page_def by blast+

lemma got_page_translate:
  assumes g: "got_page m D own d (i0_of va) (i1_of va) c m' own'" and d: "d \<in> D"
  shows "\<exists>f. translate m' d va = Some (f OR (va AND 0xfff), True, True) \<and> frame_of f = f
      \<and> (\<forall>k < 1024. mem m' (slot f k) = c k) \<and> own' f = Some (Page d (i0_of va) (i1_of va))"
    "d' \<in> D \<Longrightarrow> \<not> (d' = d \<and> frame_of va' = frame_of va) \<Longrightarrow> translate m' d' va' = translate m d' va'"
proof -
  from g obtain f where f: "pte_of m' d (i0_of va) (i1_of va) = pte_word f True True" "frame_of f = f"
    "own' f = Some (Page d (i0_of va) (i1_of va))" "\<forall>k < 1024. mem m' (slot f k) = c k"
    unfolding got_page_def by blast
  then show "\<exists>f. translate m' d va = Some (f OR (va AND 0xfff), True, True) \<and> frame_of f = f
      \<and> (\<forall>k < 1024. mem m' (slot f k) = c k) \<and> own' f = Some (Page d (i0_of va) (i1_of va))"
    using present_pte_word(2,3) [of f True True]
    by (intro exI [of _ f]) (simp add: translate_def Let_def frame_pte_word PTE_U_def PTE_W_def)
  assume a: "d' \<in> D" "\<not> (d' = d \<and> frame_of va' = frame_of va)"
  then have "\<not> (d' = d \<and> i0_of va' = i0_of va \<and> i1_of va' = i1_of va)" using same_page by blast
  then have "pte_of m' d' (i0_of va') (i1_of va') = pte_of m d' (i0_of va') (i1_of va')"
    using g a(1) idx_less [of va'] unfolding got_page_def by blast
  then show "translate m' d' va' = translate m d' va'" by (simp add: translate_def)
qed

text \<open>
  C27. What a page fault of a running process does, by the address. Below \<^verbatim>\<open>0x1000\<close> the process is
  killed: it is sent into \<^verbatim>\<open>exit\<close> with \<^verbatim>\<open>ERR_PAGE_FAULT\<close> as its exit code, unless it had been killed
  before, and terminates when its resources have been released. On the way the reaper may delete
  terminated processes, whose address spaces are destroyed; when none are waiting for it, memory is
  untouched. From \<^verbatim>\<open>0x80000000\<close> on, an unmapped address gets a fresh zeroed page with user and write
  permission and nothing else changes in any address space, unless no frame is left. In between the
  whole kernel panics, whether the page is mapped or not, so a user program that touches such an
  address stops the machine.
\<close>

theorem page_fault_cases:
  assumes "kreach c s" "current s = Some me" "procs s me = Some P" "idleProcess s \<noteq> Some me"
    "vm_inv m D own" "pd_of me \<in> D"
  shows "(va < 0x1000 \<longrightarrow> (\<exists>s' s''. vmm_pageFault pd_of va (m, s) = Inr (reap_spaces pd_of s s' m, s')
        \<and> kill me ERR_PAGE_FAULT s = Inr s' \<and> current s' = Some me \<and> in_exit s'
        \<and> map_option exitCode (procs s' me) = Some (if isKilled P then killCode P else ERR_PAGE_FAULT)
        \<and> (reaperQueue s = [] \<longrightarrow> reap_spaces pd_of s s' m = m)
        \<and> exec_kont s' = Inr s'' \<and> current s'' \<noteq> Some me \<and> map_option p_state (procs s'' me) = Some TERMINATED))
    \<and> (0x1000 \<le> va \<and> va < 0x80000000 \<longrightarrow> vmm_pageFault pd_of va (m, s) = Inl (Panic ''page fault''))
    \<and> (0x80000000 \<le> va \<and> \<not> present (pte_of m (pd_of me) (i0_of va) (i1_of va)) \<longrightarrow>
        vmm_pageFault pd_of va (m, s) = Inl (Panic ''no more frames'')
        \<or> (\<exists>m' own' f. vmm_pageFault pd_of va (m, s) = Inr (m', s) \<and> vm_inv m' D own'
            \<and> translate m' (pd_of me) va = Some (f OR (va AND 0xfff), True, True)
            \<and> (\<forall>k < 1024. mem m' (slot f k) = 0)
            \<and> (\<forall>d \<in> D. \<forall>va'. \<not> (d = pd_of me \<and> frame_of va' = frame_of va) \<longrightarrow> translate m' d va' = translate m d va')))"
proof (intro conjI impI)
  assume va: "va < 0x1000"
  from kill_self [OF assms(1-4), of ERR_PAGE_FAULT] obtain s' s'' where s': "kill me ERR_PAGE_FAULT s = Inr s'"
    "current s' = Some me" "in_exit s'"
    "map_option exitCode (procs s' me) = Some (if isKilled P then killCode P else ERR_PAGE_FAULT)"
    "exec_kont s' = Inr s''" "current s'' \<noteq> Some me" "map_option p_state (procs s'' me) = Some TERMINATED" by blast
  have "vmm_pageFault pd_of va (m, s) = Inr (reap_spaces pd_of s s' m, s')"
    using assms(2) va s'(1) by (simp add: vmm_pageFault_def handlePageFault_def)
  moreover have "reaperQueue s = [] \<longrightarrow> reap_spaces pd_of s s' m = m" by (simp add: reap_spaces_def)
  ultimately show "\<exists>s' s''. vmm_pageFault pd_of va (m, s) = Inr (reap_spaces pd_of s s' m, s')
        \<and> kill me ERR_PAGE_FAULT s = Inr s' \<and> current s' = Some me \<and> in_exit s'
        \<and> map_option exitCode (procs s' me) = Some (if isKilled P then killCode P else ERR_PAGE_FAULT)
        \<and> (reaperQueue s = [] \<longrightarrow> reap_spaces pd_of s s' m = m)
        \<and> exec_kont s' = Inr s'' \<and> current s'' \<noteq> Some me \<and> map_option p_state (procs s'' me) = Some TERMINATED"
    using s' by blast
next
  assume va: "0x1000 \<le> va \<and> va < 0x80000000"
  then show "vmm_pageFault pd_of va (m, s) = Inl (Panic ''page fault'')"
    using assms(2) by (auto simp: vmm_pageFault_def handlePageFault_def not_less not_le)
next
  assume a: "0x80000000 \<le> va \<and> \<not> present (pte_of m (pd_of me) (i0_of va) (i1_of va))"
  then have va: "0x80000000 \<le> va" "\<not> present (pte_of m (pd_of me) (i0_of va) (i1_of va))" by blast+
  then have "\<not> va < 0x1000" by (simp add: not_less word_le_nat_alt)
  then have e: "vmm_pageFault pd_of va (m, s) =
      bindE (bindE (alloc_frame m) (\<lambda>(pa, m1). pmap (pd_of me) va pa True True m1)) (\<lambda>m2. Inr (m2, s))"
    using assms(2) va(1) by (cases "alloc_frame m") (auto simp: vmm_pageFault_def handlePageFault_def)
  from fault_page [OF assms(5,6) va]
  show "vmm_pageFault pd_of va (m, s) = Inl (Panic ''no more frames'')
        \<or> (\<exists>m' own' f. vmm_pageFault pd_of va (m, s) = Inr (m', s) \<and> vm_inv m' D own'
            \<and> translate m' (pd_of me) va = Some (f OR (va AND 0xfff), True, True)
            \<and> (\<forall>k < 1024. mem m' (slot f k) = 0)
            \<and> (\<forall>d \<in> D. \<forall>va'. \<not> (d = pd_of me \<and> frame_of va' = frame_of va) \<longrightarrow> translate m' d va' = translate m d va'))"
  proof (elim disjE exE conjE)
    fix m' own' assume r: "bindE (alloc_frame m) (\<lambda>(pa, m1). pmap (pd_of me) va pa True True m1) = Inr m'"
      and g: "got_page m D own (pd_of me) (i0_of va) (i1_of va) (\<lambda>k. 0) m' own'"
    have "vm_inv m' D own'" using g unfolding got_page_def by blast
    with got_page_translate [OF g assms(6)] e r show ?thesis by (metis bindE.simps(2))
  qed (simp add: e)
qed

section \<open>fork\<close>

text \<open>
  After the entries before \<open>(i, j)\<close> have been copied: the child has a page of its own for each page
  of the parent, with the same contents.
\<close>

definition copied :: "phys \<Rightarrow> u32 \<Rightarrow> phys \<Rightarrow> u32 \<Rightarrow> (u32 \<Rightarrow> owner option) \<Rightarrow> nat \<Rightarrow> nat \<Rightarrow> bool" where
  "copied s0 p s c own i j \<longleftrightarrow> (\<exists>f. pte_of s c i j = pte_word f True True \<and> frame_of f = f
     \<and> own f = Some (Page c i j)
     \<and> (\<forall>k < 1024. mem s (slot f k) = mem s0 (slot (frame_of (pte_of s0 p i j)) k)))"

definition before :: "nat \<Rightarrow> nat \<Rightarrow> nat \<Rightarrow> nat \<Rightarrow> bool" where
  "before i j i' j' \<longleftrightarrow> 512 \<le> i' \<and> (i' < i \<or> i' = i \<and> j' < j)"

definition fork_inv :: "phys \<Rightarrow> (u32 \<Rightarrow> owner option) \<Rightarrow> u32 set \<Rightarrow> u32 \<Rightarrow> u32 \<Rightarrow> nat \<Rightarrow> nat \<Rightarrow> phys \<Rightarrow> (u32 \<Rightarrow> owner option) \<Rightarrow> bool" where
  "fork_inv s0 own0 D p c i j s own \<longleftrightarrow> vm_inv s D own \<and> keeps s0 own0 s own
     \<and> (\<forall>i' < 1024. pde s p i' = pde s0 p i')
     \<and> (\<forall>d \<in> D. \<forall>i' < 1024. \<forall>j' < 1024. d \<noteq> c \<longrightarrow> pte_of s d i' j' = pte_of s0 d i' j')
     \<and> (\<forall>i' < 1024. \<forall>j' < 1024. if before i j i' j' \<and> present (pte_of s0 p i' j')
          then copied s0 p s c own i' j' else pte_of s c i' j' = pte_of s0 c i' j')"

lemma before_Suc: "512 \<le> i \<Longrightarrow> before i (Suc j) i' j' \<longleftrightarrow> before i j i' j' \<or> i' = i \<and> j' = j"
  by (auto simp: before_def)

lemma before_next: "j' < 1024 \<Longrightarrow> before (Suc i) 0 i' j' \<longleftrightarrow> before i 1024 i' j'"
  by (auto simp: before_def)

lemma copied_keep:
  assumes "copied s0 p s c own i j" "keeps s own s' own'" "pte_of s' c i j = pte_of s c i j" "vm_inv s D own"
  shows "copied s0 p s' c own' i j"
proof -
  obtain f where f: "pte_of s c i j = pte_word f True True" "frame_of f = f" "own f = Some (Page c i j)"
    "\<forall>k < 1024. mem s (slot f k) = mem s0 (slot (frame_of (pte_of s0 p i j)) k)"
    using assms(1) unfolding copied_def by blast
  have l: "f < avail s" using ownD(3) [OF assms(4) f(3)] .
  have "own' f = own f" "\<And>k. k < 1024 \<Longrightarrow> mem s' (slot f k) = mem s (slot f k)"
    using keepsD [OF assms(2) f(2) l] f(3) by auto
  then show ?thesis unfolding copied_def using f assms(3) by (intro exI [of _ f]) simp
qed

lemma fork_step:
  assumes F: "fork_inv s0 own0 D p c i j s own" and inv0: "vm_inv s0 D own0" and D: "p \<in> D" "c \<in> D" "p \<noteq> c"
    and ij: "512 \<le> i" "i < 1024" "j < 1024" and empty: "\<not> present (pte_of s0 c i j)"
    and pd: "present (pde s0 p i)"
  shows "(let pte = mem s (slot (frame_of (pde s0 p i)) j) in
           if pte AND PTE_P \<noteq> 0
           then bindE (alloc_frame s) (\<lambda>(dest, s1). pmap c (va_of i j) dest True True (memcpy_frame dest (frame_of pte) s1))
           else Inr s) = Inl (Panic ''no more frames'')
    \<or> (\<exists>s' own'. (let pte = mem s (slot (frame_of (pde s0 p i)) j) in
           if pte AND PTE_P \<noteq> 0
           then bindE (alloc_frame s) (\<lambda>(dest, s1). pmap c (va_of i j) dest True True (memcpy_frame dest (frame_of pte) s1))
           else Inr s) = Inr s' \<and> fork_inv s0 own0 D p c i (Suc j) s' own')"
proof -
  have I: "vm_inv s D own" "keeps s0 own0 s own" "\<And>i'. i' < 1024 \<Longrightarrow> pde s p i' = pde s0 p i'"
    "\<And>d i' j'. d \<in> D \<Longrightarrow> i' < 1024 \<Longrightarrow> j' < 1024 \<Longrightarrow> d \<noteq> c \<Longrightarrow> pte_of s d i' j' = pte_of s0 d i' j'"
    "\<And>i' j'. i' < 1024 \<Longrightarrow> j' < 1024 \<Longrightarrow> if before i j i' j' \<and> present (pte_of s0 p i' j')
          then copied s0 p s c own i' j' else pte_of s c i' j' = pte_of s0 c i' j'"
    using F unfolding fork_inv_def by blast+
  have pp: "pte_of s p i j = pte_of s0 p i j" using I(4) D ij by simp
  have w: "mem s (slot (frame_of (pde s0 p i)) j) = pte_of s0 p i j"
    using pp I(3) [OF ij(2)] pd by (simp add: pte_of_def)
  show ?thesis
  proof (cases "present (pte_of s0 p i j)")
    case False
    have "fork_inv s0 own0 D p c i (Suc j) s own"
      using F False unfolding fork_inv_def before_Suc [OF ij(1)] by auto
    then show ?thesis using False by (auto simp: w Let_def)
  next
    case True
    let ?q = "frame_of (pte_of s0 p i j)"
    have q0: "own0 ?q = Some (Page p i j)" by (rule pageD [OF inv0 D(1) ij True])
    have fq: "frame_of ?q = ?q" by simp
    have q: "own ?q = Some (Page p i j)" "\<And>k. k < 1024 \<Longrightarrow> mem s (slot ?q k) = mem s0 (slot ?q k)"
      using keepsD [OF I(2) fq ownD(3) [OF inv0 q0]] q0 by auto
    have idx: "i0_of (va_of i j) = i" "i1_of (va_of i j) = j" using va_of_idx ij by simp_all
    have nb: "\<not> before i j i j" by (simp add: before_def)
    then have np: "\<not> present (pte_of s c (i0_of (va_of i j)) (i1_of (va_of i j)))"
      using I(5) [OF ij(2,3)] empty by (simp add: idx)
    have fill: "\<exists>m. memcpy_frame f ?q s1 = s1\<lparr>mem := m\<rparr> \<and> (\<forall>k < 1024. m (slot f k) = mem s0 (slot ?q k))
        \<and> (\<forall>h k. frame_of h = h \<longrightarrow> h \<noteq> f \<longrightarrow> k < 1024 \<longrightarrow> m (slot h k) = mem s1 (slot h k))"
      if g: "got_frame s D own f s1" for f s1
    proof -
      have ff: "frame_of f = f" and of: "own f = Some Free \<or> own f = None"
        and sm: "\<And>h k. frame_of h = h \<Longrightarrow> h \<noteq> f \<Longrightarrow> k < 1024 \<Longrightarrow> mem s1 (slot h k) = mem s (slot h k)"
        using g by (auto simp: got_frame_def)
      have "?q \<noteq> f" using of q(1) by auto
      then have "mem (memcpy_frame f ?q s1) (slot f k) = mem s0 (slot ?q k)" if "k < 1024" for k
        using memcpy_frame_words [OF ff ff that, of ?q s1] sm [OF fq _ that] q(2) [OF that] by simp
      moreover have "mem (memcpy_frame f ?q s1) (slot h k) = mem s1 (slot h k)"
        if "frame_of h = h" "h \<noteq> f" "k < 1024" for h k
        using memcpy_frame_words [OF that(1) ff that(3), of ?q s1] that(2) by simp
      ultimately show ?thesis
        by (intro exI [of _ "mem (memcpy_frame f ?q s1)"]) (simp add: memcpy_frame_def)
    qed
    have i512: "512 \<le> i0_of (va_of i j)" using idx ij by simp
    have "bindE (alloc_frame s) (\<lambda>(f, s1). pmap c (va_of i j) f True True (memcpy_frame f ?q s1)) = Inl (Panic ''no more frames'')
      \<or> (\<exists>s' own'. bindE (alloc_frame s) (\<lambda>(f, s1). pmap c (va_of i j) f True True (memcpy_frame f ?q s1)) = Inr s'
          \<and> got_page s D own c (i0_of (va_of i j)) (i1_of (va_of i j)) (\<lambda>k. mem s0 (slot ?q k)) s' own')"
      by (rule map_new_page [OF I(1) D(2) i512 np, where fill = "\<lambda>f s1. memcpy_frame f ?q s1" and c = "\<lambda>k. mem s0 (slot ?q k)"])
        (rule fill)
    then show ?thesis
    proof (elim disjE exE conjE)
      assume "bindE (alloc_frame s) (\<lambda>(f, s1). pmap c (va_of i j) f True True (memcpy_frame f ?q s1)) = Inl (Panic ''no more frames'')"
      then show ?thesis using True by (simp add: w Let_def)
    next
      fix s' own'
      assume r: "bindE (alloc_frame s) (\<lambda>(f, s1). pmap c (va_of i j) f True True (memcpy_frame f ?q s1)) = Inr s'"
        and g: "got_page s D own c (i0_of (va_of i j)) (i1_of (va_of i j)) (\<lambda>k. mem s0 (slot ?q k)) s' own'"
      have G: "vm_inv s' D own'" "keeps s own s' own'"
        "\<exists>f. pte_of s' c i j = pte_word f True True \<and> frame_of f = f \<and> own' f = Some (Page c i j)
          \<and> (\<forall>k < 1024. mem s' (slot f k) = mem s0 (slot ?q k))"
        using g unfolding got_page_def idx by - (elim conjE, assumption)+
      have G': "\<And>d' i'. d' \<in> D \<Longrightarrow> i' < 1024 \<Longrightarrow> d' \<noteq> c \<Longrightarrow> pde s' d' i' = pde s d' i'"
        "\<And>d' i' j'. d' \<in> D \<Longrightarrow> i' < 1024 \<Longrightarrow> j' < 1024 \<Longrightarrow> \<not> (d' = c \<and> i' = i \<and> j' = j) \<Longrightarrow> pte_of s' d' i' j' = pte_of s d' i' j'"
        using got_pageD [OF g [unfolded idx]] by simp_all
      note G = G G'
      have "if before i (Suc j) i' j' \<and> present (pte_of s0 p i' j')
          then copied s0 p s' c own' i' j' else pte_of s' c i' j' = pte_of s0 c i' j'" if "i' < 1024" "j' < 1024" for i' j'
      proof (cases "i' = i \<and> j' = j")
        case True
        then show ?thesis using G(3) \<open>present (pte_of s0 p i j)\<close>
          by (simp add: before_Suc [OF ij(1)] copied_def)
      next
        case False
        then have "pte_of s' c i' j' = pte_of s c i' j'" using G(5) D(2) that by simp
        then show ?thesis using I(5) [OF that] False copied_keep [OF _ G(2) _ I(1)]
          by (auto simp: before_Suc [OF ij(1)])
      qed
      then have "fork_inv s0 own0 D p c i (Suc j) s' own'"
        unfolding fork_inv_def using G(1,4,5) keeps_trans [OF I(2) G(2)] I(3,4) D by simp
      then show ?thesis using r True by (auto simp: w Let_def)
    qed
  qed
qed


lemma fork_all:
  assumes inv0: "vm_inv s0 D own0" and D: "p \<in> D" "c \<in> D" "p \<noteq> c"
    and empty: "\<And>i j. 512 \<le> i \<Longrightarrow> i < 1024 \<Longrightarrow> j < 1024 \<Longrightarrow> \<not> present (pte_of s0 c i j)"
  shows "fork_space p c s0 = Inl (Panic ''no more frames'')
    \<or> (\<exists>s' own'. fork_space p c s0 = Inr s' \<and> fork_inv s0 own0 D p c 1024 0 s' own')"
proof -
  let ?row = "\<lambda>i s. let pde = mem s (slot p i) in
       if pde AND PTE_P \<noteq> 0
       then (let pt = frame_of pde in
         loopE (\<lambda>i1 s.
           let pte = mem s (slot pt i1) in
           if pte AND PTE_P \<noteq> 0
           then bindE (alloc_frame s) (\<lambda>(dest, s1).
                  pmap c (va_of i i1) dest True True (memcpy_frame dest (frame_of pte) s1))
           else Inr s) [0..<1024] s)
       else Inr s"
  have start: "\<exists>own. fork_inv s0 own0 D p c 512 0 s0 own"
    using inv0 by (intro exI [of _ own0]) (auto simp: fork_inv_def before_def)
  have "(\<exists>e. loopE ?row [512..<1024] s0 = Inl e \<and> e = Panic ''no more frames'')
    \<or> (\<exists>s'. loopE ?row [512..<1024] s0 = Inr s' \<and> (\<exists>own. fork_inv s0 own0 D p c 1024 0 s' own))"
  proof (rule loopE_upt_inv [where I = "\<lambda>i s. \<exists>own. fork_inv s0 own0 D p c i 0 s own"])
    fix i s assume i: "512 \<le> i" "i < 1024" and "\<exists>own. fork_inv s0 own0 D p c i 0 s own"
    then obtain own where F: "fork_inv s0 own0 D p c i 0 s own" by blast
    have pd: "mem s (slot p i) = pde s0 p i" using F i(2) by (simp add: fork_inv_def pde_def)
    show "(\<exists>e. ?row i s = Inl e \<and> e = Panic ''no more frames'')
      \<or> (\<exists>s'. ?row i s = Inr s' \<and> (\<exists>own. fork_inv s0 own0 D p c (Suc i) 0 s' own))"
    proof (cases "present (pde s0 p i)")
      case False
      then have "\<not> present (pte_of s0 p i j)" for j by (simp add: pte_of_def)
      then have "before (Suc i) 0 i' j' \<and> present (pte_of s0 p i' j') \<longleftrightarrow> before i 0 i' j' \<and> present (pte_of s0 p i' j')"
        if "j' < 1024" for i' j'
        using that by (cases "i' = i") (auto simp: before_def)
      then have "fork_inv s0 own0 D p c (Suc i) 0 s own" using F unfolding fork_inv_def by simp
      then show ?thesis using False pd by auto
    next
      case True
      let ?cell = "\<lambda>i1 s.
           let pte = mem s (slot (frame_of (pde s0 p i)) i1) in
           if pte AND PTE_P \<noteq> 0
           then bindE (alloc_frame s) (\<lambda>(dest, s1).
                  pmap c (va_of i i1) dest True True (memcpy_frame dest (frame_of pte) s1))
           else Inr s"
      have "(\<exists>e. loopE ?cell [0..<1024] s = Inl e \<and> e = Panic ''no more frames'')
        \<or> (\<exists>s'. loopE ?cell [0..<1024] s = Inr s' \<and> (\<exists>own. fork_inv s0 own0 D p c i 1024 s' own))"
      proof (rule loopE_upt_inv [where I = "\<lambda>j s. \<exists>own. fork_inv s0 own0 D p c i j s own"])
        fix j s assume j: "j < (1024 :: nat)" and "\<exists>own. fork_inv s0 own0 D p c i j s own"
        then obtain own where "fork_inv s0 own0 D p c i j s own" by blast
        from fork_step [OF this inv0 D i j empty [OF i j] True]
        show "(\<exists>e. ?cell j s = Inl e \<and> e = Panic ''no more frames'')
          \<or> (\<exists>s'. ?cell j s = Inr s' \<and> (\<exists>own. fork_inv s0 own0 D p c i (Suc j) s' own))" by blast
      qed (use F in auto)
      moreover have "fork_inv s0 own0 D p c (Suc i) 0 s' own" if "fork_inv s0 own0 D p c i 1024 s' own" for s' own
        using that unfolding fork_inv_def by (simp add: before_next)
      moreover have "?row i s = loopE ?cell [0..<1024] s" using True pd by (simp add: Let_def)
      ultimately show ?thesis by auto
    qed
  qed (use start in simp_all)
  then show ?thesis unfolding fork_space_def by blast
qed

text \<open>
  C19. \<^verbatim>\<open>fork\<close> gives the child a copy of every user page of the parent, writable, in a frame of its
  own (the frame belongs to the child and to this address, so it is none of the parent's) with the
  same contents; the pages and the address translation of the parent and of every other address
  space, and the contents of all their pages, are unchanged. It fails only when the frames run out.
\<close>

theorem fork_copies_pages:
  assumes "vm_inv s D own" "p \<in> D" "c \<in> D" "p \<noteq> c"
    "\<And>i j. 512 \<le> i \<Longrightarrow> i < 1024 \<Longrightarrow> j < 1024 \<Longrightarrow> \<not> present (pte_of s c i j)"
  shows "case fork_space p c s of
      Inl e \<Rightarrow> e = Panic ''no more frames''
    | Inr s' \<Rightarrow> (\<exists>own'. vm_inv s' D own'
        \<and> (\<forall>i j. 512 \<le> i \<and> i < 1024 \<and> j < 1024 \<longrightarrow>
             (if present (pte_of s p i j)
              then \<exists>f. pte_of s' c i j = pte_word f True True \<and> frame_of f = f \<and> own' f = Some (Page c i j)
                  \<and> (\<forall>k < 1024. mem s' (slot f k) = mem s (slot (frame_of (pte_of s p i j)) k))
              else \<not> present (pte_of s' c i j)))
        \<and> (\<forall>d \<in> D. d \<noteq> c \<longrightarrow> (\<forall>va. translate s' d va = translate s d va))
        \<and> (\<forall>f d i j. own f = Some (Page d i j) \<longrightarrow> own' f = own f \<and> (\<forall>k < 1024. mem s' (slot f k) = mem s (slot f k))))"
proof -
  have "fork_space p c s = Inl (Panic ''no more frames'')
    \<or> (\<exists>s' own'. fork_space p c s = Inr s' \<and> fork_inv s own D p c 1024 0 s' own')"
    by (rule fork_all [OF assms(1-4)]) (rule assms(5))
  then show ?thesis
  proof (elim disjE exE conjE)
    fix s' own' assume r: "fork_space p c s = Inr s'" and F: "fork_inv s own D p c 1024 0 s' own'"
    have I: "vm_inv s' D own'" "keeps s own s' own'"
      "\<And>d i' j'. d \<in> D \<Longrightarrow> i' < 1024 \<Longrightarrow> j' < 1024 \<Longrightarrow> d \<noteq> c \<Longrightarrow> pte_of s' d i' j' = pte_of s d i' j'"
      "\<And>i' j'. i' < 1024 \<Longrightarrow> j' < 1024 \<Longrightarrow> if before 1024 0 i' j' \<and> present (pte_of s p i' j')
          then copied s p s' c own' i' j' else pte_of s' c i' j' = pte_of s c i' j'"
      using F unfolding fork_inv_def by blast+
    have "if present (pte_of s p i j)
              then \<exists>f. pte_of s' c i j = pte_word f True True \<and> frame_of f = f \<and> own' f = Some (Page c i j)
                  \<and> (\<forall>k < 1024. mem s' (slot f k) = mem s (slot (frame_of (pte_of s p i j)) k))
              else \<not> present (pte_of s' c i j)" if "512 \<le> i" "i < 1024" "j < 1024" for i j
      using I(4) [OF that(2,3)] assms(5) [OF that] that by (simp add: before_def copied_def split: if_splits)
    moreover have "translate s' d va = translate s d va" if "d \<in> D" "d \<noteq> c" for d va
      using I(3) that idx_less [of va] by (simp add: translate_def)
    moreover have "own' f = own f \<and> (\<forall>k < 1024. mem s' (slot f k) = mem s (slot f k))" if "own f = Some (Page d i j)" for f d i j
      using keepsD [OF I(2) ownD(1) [OF assms(1) that] ownD(3) [OF assms(1) that]] that by blast
    ultimately show ?thesis using r I(1) by auto
  qed simp
qed

section \<open>exec\<close>

definition exec_inv :: "phys \<Rightarrow> (u32 \<Rightarrow> owner option) \<Rightarrow> u32 set \<Rightarrow> u32 \<Rightarrow> nat \<Rightarrow> nat \<Rightarrow> phys \<Rightarrow> (u32 \<Rightarrow> owner option) \<Rightarrow> bool" where
  "exec_inv s0 own0 D p i j s own \<longleftrightarrow> vm_inv s D own \<and> avail s = avail s0
     \<and> (\<forall>d \<in> D. \<forall>i' < 1024. pde s d i' = pde s0 d i')
     \<and> (\<forall>d \<in> D. \<forall>i' < 1024. \<forall>j' < 1024. pte_of s d i' j' =
          (if d = p \<and> before i j i' j' \<and> present (pte_of s0 d i' j') then 0 else pte_of s0 d i' j'))
     \<and> (\<forall>f. own f = (case own0 f of Some (Page d i' j') \<Rightarrow> if d = p \<and> before i j i' j' then Some Free else own0 f
          | _ \<Rightarrow> own0 f))
     \<and> (\<forall>f d i' j'. own0 f = Some (Page d i' j') \<and> d \<noteq> p \<longrightarrow> (\<forall>k < 1024. mem s (slot f k) = mem s0 (slot f k)))"

lemma exec_step:
  assumes F: "exec_inv s0 own0 D p i j s own" and inv0: "vm_inv s0 D own0" and D: "p \<in> D"
    and ij: "512 \<le> i" "i < 1024" "j < 1024" and pd: "present (pde s0 p i)"
  shows "\<exists>own'. exec_inv s0 own0 D p i (Suc j)
     (let pte = mem s (slot (frame_of (pde s0 p i)) j) in
           if pte AND PTE_P \<noteq> 0
           then free_frame (frame_of pte) (s\<lparr>mem := (mem s)(slot (frame_of (pde s0 p i)) j := 0)\<rparr>)
           else s) own'"
proof -
  have I: "vm_inv s D own" "avail s = avail s0" "\<And>d i'. d \<in> D \<Longrightarrow> i' < 1024 \<Longrightarrow> pde s d i' = pde s0 d i'"
    "\<And>d i' j'. d \<in> D \<Longrightarrow> i' < 1024 \<Longrightarrow> j' < 1024 \<Longrightarrow> pte_of s d i' j' =
          (if d = p \<and> before i j i' j' \<and> present (pte_of s0 d i' j') then 0 else pte_of s0 d i' j')"
    "\<And>f. own f = (case own0 f of Some (Page d i' j') \<Rightarrow> if d = p \<and> before i j i' j' then Some Free else own0 f
          | _ \<Rightarrow> own0 f)"
    "\<And>f d i' j' k. own0 f = Some (Page d i' j') \<Longrightarrow> d \<noteq> p \<Longrightarrow> k < 1024 \<Longrightarrow> mem s (slot f k) = mem s0 (slot f k)"
    using F unfolding exec_inv_def by blast+
  have nb: "\<not> before i j i j" by (simp add: before_def)
  let ?t = "frame_of (pde s0 p i)"
  have pt: "pte_of s p i j = pte_of s0 p i j" using I(4) [OF D ij(2,3)] nb by simp
  have w: "mem s (slot ?t j) = pte_of s0 p i j" using pt I(3) [OF D ij(2)] pd by (simp add: pte_of_def)
  have ot: "own ?t = Some (Table p i)" using tableD [OF I(1) D ij(2)] I(3) [OF D ij(2)] pd by simp
  show ?thesis
  proof (cases "present (pte_of s0 p i j)")
    case False
    have o: "own0 f \<noteq> Some (Page p i j)" for f using pageD' [OF inv0, of f p i j] False by blast
    have "exec_inv s0 own0 D p i (Suc j) s own"
      unfolding exec_inv_def before_Suc [OF ij(1)]
    proof (intro conjI allI ballI impI)
      show "vm_inv s D own" "avail s = avail s0" by (rule I)+
      show "pde s d i' = pde s0 d i'" if "d \<in> D" "i' < 1024" for d i' using I(3) that .
      show "pte_of s d i' j' = (if d = p \<and> (before i j i' j' \<or> i' = i \<and> j' = j) \<and> present (pte_of s0 d i' j') then 0
          else pte_of s0 d i' j')" if "d \<in> D" "i' < 1024" "j' < 1024" for d i' j'
        using I(4) [OF that] False by auto
      show "own f = (case own0 f of Some (Page d i' j') \<Rightarrow>
          if d = p \<and> (before i j i' j' \<or> i' = i \<and> j' = j) then Some Free else own0 f | _ \<Rightarrow> own0 f)" for f
        using I(5) [of f] o [of f] by (auto split: option.splits owner.splits)
      show "mem s (slot f k) = mem s0 (slot f k)" if "own0 f = Some (Page d i' j') \<and> d \<noteq> p" "k < 1024" for f d i' j' k
        using I(6) that by blast
    qed
    then show ?thesis using False by (auto simp: w Let_def)
  next
    case True
    let ?q = "frame_of (pte_of s0 p i j)"
    let ?s1 = "s\<lparr>mem := (mem s)(slot ?t j := 0)\<rparr>"
    let ?s2 = "free_frame ?q ?s1" and ?own = "own(?q := Some Free)"
    have q0: "own0 ?q = Some (Page p i j)" by (rule pageD [OF inv0 D ij True])
    have q: "own ?q = Some (Page p i j)" using I(5) [of ?q] q0 nb by simp
    have pr: "present (pte_of s p i j)" using pt True by simp
    have inv1: "vm_inv ?s1 D (own(?q := None))"
      using clear_page [OF I(1) ot ij(1,3) pr refl] pt by simp
    note W = write_pte [where v = 0, OF I(1) ot ij(3) refl]
    have qa: "frame_of ?q = ?q" "?q \<noteq> 0" "?q < avail ?s1" using ownD [OF I(1) q] by simp_all
    have "(own(?q := None)) ?q = None" by simp
    note R = free_frame_spec [OF inv1 this qa, simplified fun_upd_upd]
    have "exec_inv s0 own0 D p i (Suc j) ?s2 ?own"
      unfolding exec_inv_def before_Suc [OF ij(1)]
    proof (intro conjI allI ballI impI)
      show "vm_inv ?s2 D ?own" using R(1) by simp
      show "avail ?s2 = avail s0" using I(2) by (simp add: free_frame_def)
      show "pde ?s2 d i' = pde s0 d i'" if "d \<in> D" "i' < 1024" for d i'
        using R(3) [OF that] W(2) [OF that] I(3) [OF that] by simp
      show "pte_of ?s2 d i' j' = (if d = p \<and> (before i j i' j' \<or> i' = i \<and> j' = j) \<and> present (pte_of s0 d i' j') then 0
          else pte_of s0 d i' j')" if "d \<in> D" "i' < 1024" "j' < 1024" for d i' j'
        using R(4) [OF that] W(3) [OF that] I(4) [OF that] True by auto
      show "?own f = (case own0 f of Some (Page d i' j') \<Rightarrow>
          if d = p \<and> (before i j i' j' \<or> i' = i \<and> j' = j) then Some Free else own0 f | _ \<Rightarrow> own0 f)" for f
      proof (cases "f = ?q")
        case False
        then have "own0 f \<noteq> Some (Page p i j)" using pageD' [OF inv0, of f p i j] by auto
        then show ?thesis using I(5) [of f] False by (auto split: option.splits owner.splits)
      qed (simp add: q0)
      show "mem ?s2 (slot f k) = mem s0 (slot f k)" if a: "own0 f = Some (Page d i' j') \<and> d \<noteq> p" "k < 1024" for f d i' j' k
      proof -
        have fo: "own f = Some (Page d i' j')" using I(5) [of f] a(1) by auto
        have "f \<noteq> ?q" "f \<noteq> ?t" "frame_of f = f" using fo q ot a(1) ownD(1) [OF I(1) fo] by auto
        then show ?thesis using R(2) [of f k] W(1) [of f k] I(6) a by simp
      qed
    qed
    then show ?thesis using True by (auto simp: w Let_def)
  qed
qed


lemma exec_all:
  assumes inv0: "vm_inv s0 D own0" and D: "p \<in> D"
  shows "\<exists>own'. exec_inv s0 own0 D p 1024 0 (exec_space p s0) own'"
proof -
  have start: "\<exists>own. exec_inv s0 own0 D p 512 0 s0 own"
  proof (intro exI [of _ own0])
    have "own0 f = (case own0 f of Some (Page d i' j') \<Rightarrow> if d = p \<and> before 512 0 i' j' then Some Free else own0 f
          | _ \<Rightarrow> own0 f)" for f
      by (auto simp: before_def split: option.splits owner.splits)
    moreover have "\<not> before 512 0 i' j'" for i' j' by (auto simp: before_def)
    ultimately show "exec_inv s0 own0 D p 512 0 s0 own0"
      using inv0 unfolding exec_inv_def by simp
  qed
  show ?thesis
    unfolding exec_space_def
  proof (rule fold_upt_inv [where I = "\<lambda>i s. \<exists>own. exec_inv s0 own0 D p i 0 s own"])
    fix i s assume i: "512 \<le> i" "i < 1024" and "\<exists>own. exec_inv s0 own0 D p i 0 s own"
    then obtain own where F: "exec_inv s0 own0 D p i 0 s own" by blast
    have pd: "mem s (slot p i) = pde s0 p i" using F i(2) D by (simp add: exec_inv_def pde_def)
    show "\<exists>own. exec_inv s0 own0 D p (Suc i) 0
       (let pde = mem s (slot p i) in
       if pde AND PTE_P \<noteq> 0
       then (let pt = frame_of pde in
         fold (\<lambda>i1 s.
           let pte = mem s (slot pt i1) in
           if pte AND PTE_P \<noteq> 0
           then free_frame (frame_of pte) (s\<lparr>mem := (mem s)(slot pt i1 := 0)\<rparr>)
           else s) [0..<1024] s)
       else s) own"
    proof (cases "present (pde s0 p i)")
      case False
      then have np: "\<not> present (pte_of s0 p i j)" for j by (simp add: pte_of_def)
      then have o: "i' \<noteq> i" if "own0 f = Some (Page p i' j')" for f i' j'
        using pageD' [OF inv0 that] by blast
      have b: "before (Suc i) 0 i' j' \<longleftrightarrow> before i 0 i' j'" if "i' \<noteq> i" for i' j'
        using that by (auto simp: before_def)
      have 1: "d = p \<and> before (Suc i) 0 i' j' \<and> present (pte_of s0 d i' j') \<longleftrightarrow> d = p \<and> before i 0 i' j' \<and> present (pte_of s0 d i' j')"
        for d i' j' using b [of i' j'] np [of j'] by (cases "i' = i") (auto simp: before_def)
      have 2: "(case own0 f of Some (Page d i' j') \<Rightarrow> if d = p \<and> before (Suc i) 0 i' j' then Some Free else own0 f | _ \<Rightarrow> own0 f)
        = (case own0 f of Some (Page d i' j') \<Rightarrow> if d = p \<and> before i 0 i' j' then Some Free else own0 f | _ \<Rightarrow> own0 f)" for f
        using o [of f] b by (fastforce split: option.splits owner.splits)
      have "exec_inv s0 own0 D p (Suc i) 0 s own" using F unfolding exec_inv_def 1 2 .
      then show ?thesis using False pd by auto
    next
      case True
      have "\<exists>own. exec_inv s0 own0 D p i 1024 (fold (\<lambda>i1 s.
           let pte = mem s (slot (frame_of (pde s0 p i)) i1) in
           if pte AND PTE_P \<noteq> 0
           then free_frame (frame_of pte) (s\<lparr>mem := (mem s)(slot (frame_of (pde s0 p i)) i1 := 0)\<rparr>)
           else s) [0..<1024] s) own"
      proof (rule fold_upt_inv [where I = "\<lambda>j s. \<exists>own. exec_inv s0 own0 D p i j s own"])
        fix j s assume j: "j < (1024 :: nat)" and "\<exists>own. exec_inv s0 own0 D p i j s own"
        then obtain own where "exec_inv s0 own0 D p i j s own" by blast
        from exec_step [OF this inv0 D i j True]
        show "\<exists>own. exec_inv s0 own0 D p i (Suc j) (let pte = mem s (slot (frame_of (pde s0 p i)) j) in
           if pte AND PTE_P \<noteq> 0
           then free_frame (frame_of pte) (s\<lparr>mem := (mem s)(slot (frame_of (pde s0 p i)) j := 0)\<rparr>)
           else s) own" .
      qed (use F in auto)
      moreover have "exec_inv s0 own0 D p (Suc i) 0 s' own" if e: "exec_inv s0 own0 D p i 1024 s' own" for s' own
      proof -
        have "(case own0 f of Some (Page d i' j') \<Rightarrow> if d = p \<and> before (Suc i) 0 i' j' then Some Free else own0 f | _ \<Rightarrow> own0 f)
          = (case own0 f of Some (Page d i' j') \<Rightarrow> if d = p \<and> before i 1024 i' j' then Some Free else own0 f | _ \<Rightarrow> own0 f)" for f
          using pageD' [OF inv0, of f] by (auto split: option.splits owner.splits simp: before_next)
        then show ?thesis using e unfolding exec_inv_def by (simp add: before_next)
      qed
      ultimately show ?thesis using True pd by (auto simp: Let_def)
    qed
  qed (use start in simp_all)
qed

text \<open>
  C21. \<^verbatim>\<open>exec\<close> empties the user part of an address space: afterwards no user address translates,
  each frame that held one of its pages is on the free list, and the kernel part, every other
  address space and the contents of the pages of the others are as before.
\<close>

theorem exec_unmaps_user:
  assumes "vm_inv s D own" "p \<in> D"
  shows "\<exists>own'. vm_inv (exec_space p s) D own'
    \<and> (\<forall>va. 0x80000000 \<le> va \<longrightarrow> translate (exec_space p s) p va = None)
    \<and> (\<forall>f i j. own f = Some (Page p i j) \<longrightarrow> own' f = Some Free)
    \<and> (\<forall>d \<in> D. \<forall>va. d \<noteq> p \<or> va < 0x80000000 \<longrightarrow> translate (exec_space p s) d va = translate s d va)
    \<and> (\<forall>f d i j. own f = Some (Page d i j) \<and> d \<noteq> p \<longrightarrow>
         own' f = own f \<and> (\<forall>k < 1024. mem (exec_space p s) (slot f k) = mem s (slot f k)))"
proof -
  obtain own' where F: "exec_inv s own D p 1024 0 (exec_space p s) own'" using exec_all [OF assms] by blast
  let ?s = "exec_space p s"
  have I: "vm_inv ?s D own'"
    "\<And>d i' j'. d \<in> D \<Longrightarrow> i' < 1024 \<Longrightarrow> j' < 1024 \<Longrightarrow> pte_of ?s d i' j' =
          (if d = p \<and> before 1024 0 i' j' \<and> present (pte_of s d i' j') then 0 else pte_of s d i' j')"
    "\<And>f. own' f = (case own f of Some (Page d i' j') \<Rightarrow> if d = p \<and> before 1024 0 i' j' then Some Free else own f
          | _ \<Rightarrow> own f)"
    "\<And>f d i' j' k. own f = Some (Page d i' j') \<Longrightarrow> d \<noteq> p \<Longrightarrow> k < 1024 \<Longrightarrow> mem ?s (slot f k) = mem s (slot f k)"
    using F unfolding exec_inv_def by blast+
  have "translate ?s p va = None" if "0x80000000 \<le> va" for va
    using I(2) [OF assms(2) idx_less [of va]] user_va [OF that] idx_less [of va]
    by (auto simp: translate_def before_def)
  moreover have "own' f = Some Free" if "own f = Some (Page p i j)" for f i j
    using I(3) [of f] that pageD' [OF assms(1) that] by (simp add: before_def)
  moreover have "translate ?s d va = translate s d va" if "d \<in> D" "d \<noteq> p \<or> va < 0x80000000" for d va
  proof -
    have "va < 0x80000000 \<Longrightarrow> \<not> 512 \<le> i0_of va"
      by (simp add: i0_of_div word_less_nat_alt less_mult_imp_div_less not_le)
    then have "\<not> (d = p \<and> before 1024 0 (i0_of va) (i1_of va))" using that(2) by (auto simp: before_def)
    then have "pte_of ?s d (i0_of va) (i1_of va) = pte_of s d (i0_of va) (i1_of va)"
      using I(2) [OF that(1) idx_less [of va]] by auto
    then show ?thesis by (simp add: translate_def)
  qed
  moreover have "own' f = own f \<and> (\<forall>k < 1024. mem ?s (slot f k) = mem s (slot f k))"
    if "own f = Some (Page d i j) \<and> d \<noteq> p" for f d i j
    using I(3) [of f] I(4) that by simp
  ultimately show ?thesis using I(1) by (intro exI [of _ own'] conjI allI impI ballI) auto
qed

section \<open>A new address space\<close>

lemma new_dir:
  assumes inv: "vm_inv s D own" and f: "own f = None" "frame_of f = f" "f \<noteq> 0" "f < avail s"
    and z: "\<forall>k < 1024. mem s (slot f k) = 0"
  shows "vm_inv s (insert f D) (own(f := Some Dir))"
proof -
  note I = vm_invD [OF inv] and A = vm_invD(3) [OF inv, unfolded tabs_ok_def]
  let ?own = "own(f := Some Dir)"
  have zp: "pde s f i = 0" if "i < 1024" for i using z that by (simp add: pde_def)
  have fD: "f \<notin> D" using dirD [OF inv, of f] f(1) by auto
  have "free_ok s ?own" using f(1) by (intro free_ok_cong [OF I(2)]) auto
  moreover have "nums_ok s ?own" using I(1) f unfolding nums_ok_def by auto
  moreover have "tabs_ok (pde s) (pte_of s) (insert f D) ?own"
    unfolding tabs_ok_def
  proof (intro conjI allI ballI impI)
    show "?own d = Some Dir \<longleftrightarrow> d \<in> insert f D" for d
      using A by (cases "d = f") auto
    show "?own g = Some (Table d i) \<longleftrightarrow> d \<in> insert f D \<and> i < 1024 \<and> present (pde s d i) \<and> frame_of (pde s d i) = g" for g d i
    proof -
      have "?own g = Some (Table d i) \<longleftrightarrow> own g = Some (Table d i)" using f(1) by auto
      also have "\<dots> \<longleftrightarrow> d \<in> D \<and> i < 1024 \<and> present (pde s d i) \<and> frame_of (pde s d i) = g" using A by blast
      finally show ?thesis using zp fD by (cases "d = f") auto
    qed
    show "?own g = Some (Page d i j) \<longleftrightarrow> d \<in> insert f D \<and> 512 \<le> i \<and> i < 1024 \<and> j < 1024
        \<and> present (pte_of s d i j) \<and> frame_of (pte_of s d i j) = g" for g d i j
    proof -
      have "?own g = Some (Page d i j) \<longleftrightarrow> own g = Some (Page d i j)" using f(1) by auto
      also have "\<dots> \<longleftrightarrow> d \<in> D \<and> 512 \<le> i \<and> i < 1024 \<and> j < 1024 \<and> present (pte_of s d i j) \<and> frame_of (pte_of s d i j) = g"
        using A by blast
      finally show ?thesis using zp fD by (cases "d = f") (auto simp: pte_of_def)
    qed
    show "\<not> present (pde s d i)" if "d \<in> insert f D" "0 < i" "i < 512" for d i
      using A zp [of i] that by auto
  qed
  ultimately show ?thesis by (simp add: vm_inv_def)
qed

lemma set_kernel_pte:
  assumes inv: "vm_inv s D own" and t: "own t = Some (Table d i)" and i: "i < 512" and j: "j < 1024"
    and s': "s' = s\<lparr>mem := (mem s)(slot t j := v)\<rparr>"
  shows "vm_inv s' D own"
proof -
  note W = write_pte [OF inv t j s'] and A = vm_invD(3) [OF inv, unfolded tabs_ok_def]
  have "tabs_ok (pde s') (pte_of s') D own"
    unfolding tabs_ok_def
  proof (intro conjI allI ballI impI)
    show "own d = Some Dir \<longleftrightarrow> d \<in> D" for d using A by blast
    show "own f = Some (Table d i) \<longleftrightarrow> d \<in> D \<and> i < 1024 \<and> present (pde s' d i) \<and> frame_of (pde s' d i) = f" for f d i
    proof -
      have "own f = Some (Table d i) \<longleftrightarrow> d \<in> D \<and> i < 1024 \<and> present (pde s d i) \<and> frame_of (pde s d i) = f" using A by blast
      then show ?thesis using W(2) [of d i] by auto
    qed
    show "own f = Some (Page d' i' j') \<longleftrightarrow> d' \<in> D \<and> 512 \<le> i' \<and> i' < 1024 \<and> j' < 1024 \<and> present (pte_of s' d' i' j')
        \<and> frame_of (pte_of s' d' i' j') = f" for f d' i' j'
    proof -
      have "own f = Some (Page d' i' j') \<longleftrightarrow> d' \<in> D \<and> 512 \<le> i' \<and> i' < 1024 \<and> j' < 1024 \<and> present (pte_of s d' i' j')
        \<and> frame_of (pte_of s d' i' j') = f" using A by blast
      then show ?thesis using W(3) [of d' i' j'] i by auto
    qed
    show "\<not> present (pde s' d i)" if "d \<in> D" "0 < i" "i < 512" for d i
      using A W(2) [of d i] that by auto
  qed
  then show ?thesis using W(4,5) by (simp add: vm_inv_def)
qed


lemma ident_va:
  assumes "m < 1024"
  shows "unat (of_nat (4096 * m) :: u32) = 4096 * m" "i0_of (of_nat (4096 * m)) = 0" "i1_of (of_nat (4096 * m)) = m"
    "frame_of (of_nat (4096 * m)) = of_nat (4096 * m)"
proof -
  show u: "unat (of_nat (4096 * m) :: u32) = 4096 * m" using assms by (intro unat_of_nat_u32) simp
  show "i0_of (of_nat (4096 * m)) = 0" unfolding i0_of_div u using assms by simp
  show "i1_of (of_nat (4096 * m)) = m" unfolding i1_of_div u using assms by simp
  show "frame_of (of_nat (4096 * m)) = of_nat (4096 * m)" unfolding aligned_frame u by simp
qed

text \<open>As long as frames are left nothing fails.\<close>

definition room :: "nat \<Rightarrow> phys \<Rightarrow> bool" where
  "room n s \<longleftrightarrow> unat (avail s) + 4096 * n \<le> unat (limit s)"

lemma alloc_room:
  assumes "room (Suc n) s"
  shows "\<exists>f s'. alloc_frame s = Inr (f, s') \<and> room n s'"
proof (cases "firstFree s = 0")
  case True
  have "unat (avail s) + 4096 \<le> unat (limit s)" using assms by (simp add: room_def)
  moreover have "unat (limit s) < 2 ^ 32" using unat_lt_u32 [of "limit s"] by simp
  ultimately have u: "unat (avail s + FRAME_SIZE) = unat (avail s) + 4096"
    by (subst unat_plus_u32) (simp_all add: FRAME_SIZE_def)
  have "avail s \<noteq> limit s" using assms by (auto simp: room_def)
  then show ?thesis using True assms u by (simp add: alloc_frame_def Let_def room_def bzero_frame_def)
next
  case False
  then show ?thesis using assms by (simp add: alloc_frame_def Let_def room_def bzero_frame_def)
qed

lemma getPTE_room:
  assumes "present (pde s d (i0_of va)) \<and> m = n \<or> m = Suc n" "room m s"
  shows "\<exists>a s'. getPTE d va s = Inr (a, s') \<and> room n s'"
proof (cases "present (pde s d (i0_of va))")
  case True
  then show ?thesis using assms by (auto simp: getPTE_def pde_def Let_def room_def)
next
  case False
  then have "room (Suc n) s" using assms by auto
  from alloc_room [OF this] False show ?thesis by (auto simp: getPTE_def pde_def Let_def room_def)
qed

text \<open>After the pages below page \<open>m\<close> have been mapped.\<close>

definition ident_inv :: "phys \<Rightarrow> (u32 \<Rightarrow> owner option) \<Rightarrow> u32 set \<Rightarrow> u32 \<Rightarrow> nat \<Rightarrow> phys \<Rightarrow> (u32 \<Rightarrow> owner option) \<Rightarrow> bool" where
  "ident_inv s0 own0 D d m s own \<longleftrightarrow> vm_inv s (insert d D) own \<and> keeps s0 own0 s own
     \<and> (\<forall>d' \<in> D. d' \<noteq> d \<longrightarrow> (\<forall>i < 1024. \<forall>j < 1024. pte_of s d' i j = pte_of s0 d' i j))
     \<and> (\<forall>i < 1024. \<forall>j < 1024. pte_of s d i j =
          (if i = 0 \<and> 1 \<le> j \<and> j < m then pte_word (of_nat (4096 * j)) False True else 0))
     \<and> (1 < m \<longrightarrow> present (pde s d 0))"

lemma ident_step:
  assumes F: "ident_inv s0 own0 D d m s own" and m: "1 \<le> m" "m < 1024"
  shows "pmap d (of_nat (4096 * m)) (of_nat (4096 * m)) False True s = Inl (Panic ''no more frames'')
      \<and> \<not> room (if m = 1 then 1 else 0) s
    \<or> (\<exists>s' own'. pmap d (of_nat (4096 * m)) (of_nat (4096 * m)) False True s = Inr s'
        \<and> ident_inv s0 own0 D d (Suc m) s' own'
        \<and> (\<forall>n. room (if m = 1 then Suc n else n) s \<longrightarrow> room n s'))"
proof -
  let ?va = "of_nat (4096 * m) :: u32"
  note V = ident_va [OF m(2)]
  have I: "vm_inv s (insert d D) own" "keeps s0 own0 s own"
    "\<And>d' i j. d' \<in> D \<Longrightarrow> d' \<noteq> d \<Longrightarrow> i < 1024 \<Longrightarrow> j < 1024 \<Longrightarrow> pte_of s d' i j = pte_of s0 d' i j"
    "\<And>i j. i < 1024 \<Longrightarrow> j < 1024 \<Longrightarrow> pte_of s d i j =
          (if i = 0 \<and> 1 \<le> j \<and> j < m then pte_word (of_nat (4096 * j)) False True else 0)"
    "1 < m \<Longrightarrow> present (pde s d 0)"
    using F unfolding ident_inv_def by blast+
  have R: "\<exists>a s'. getPTE d ?va s = Inr (a, s') \<and> room n s'" if "room (if m = 1 then Suc n else n) s" for n
    using getPTE_room [OF _ that, of d ?va n] I(5) m V(2) by (cases "m = 1") auto
  have d: "d \<in> insert d D" "i0_of ?va = 0 \<or> 512 \<le> i0_of ?va" using V(2) by simp_all
  consider "getPTE d ?va s = Inl (Panic ''no more frames'')"
    | t s1 own1 where "getPTE d ?va s = Inr (slot t (i1_of ?va), s1)" "got_pte s (insert d D) own d (i0_of ?va) t s1 own1"
    using getPTE_spec [OF I(1) d] by blast
  then show ?thesis
  proof cases
    case 1
    then have "\<not> room (if m = 1 then Suc 0 else 0) s" using R [of 0] by auto
    then show ?thesis using 1 by (auto simp: pmap_def)
  next
    case (2 t s1 own1)
    have H: "vm_inv s1 (insert d D) own1" "own1 t = Some (Table d 0)"
      "\<And>d' i' j'. d' \<in> insert d D \<Longrightarrow> i' < 1024 \<Longrightarrow> j' < 1024 \<Longrightarrow> pte_of s1 d' i' j' = pte_of s d' i' j'"
      "keeps s own s1 own1"
      using 2(2) V(2) unfolding got_pte_def by auto
    let ?s = "s1\<lparr>mem := (mem s1)(slot t m := pte_word ?va False True)\<rparr>"
    have e: "pmap d ?va ?va False True s = Inr ?s" using 2(1) V(3) by (simp add: pmap_def)
    note W = write_pte [OF H(1,2) m(2) refl, where v = "pte_word ?va False True"]
    have "vm_inv ?s (insert d D) own1" by (rule set_kernel_pte [OF H(1,2) _ m(2) refl]) simp
    moreover have "keeps s0 own0 ?s own1" using keeps_trans [OF I(2) keeps_trans [OF H(4) W(6)]] .
    moreover have "pte_of ?s d' i j = pte_of s0 d' i j" if "d' \<in> D" "d' \<noteq> d" "i < 1024" "j < 1024" for d' i j
      using W(3) [of d' i j] H(3) [of d' i j] I(3) that by simp
    moreover have "pte_of ?s d i j = (if i = 0 \<and> 1 \<le> j \<and> j < Suc m then pte_word (of_nat (4096 * j)) False True else 0)"
      if "i < 1024" "j < 1024" for i j
      using W(3) [of d i j] H(3) [of d i j] I(4) [OF that] that m by (auto simp: less_Suc_eq)
    moreover have "present (pde ?s d 0)" using tableD' [OF H(1,2)] W(2) [of d 0] by simp
    ultimately have "ident_inv s0 own0 D d (Suc m) ?s own1" unfolding ident_inv_def by blast
    moreover have "room n ?s" if "room (if m = 1 then Suc n else n) s" for n
      using R [OF that] 2(1) by (auto simp: room_def)
    ultimately show ?thesis using e by blast
  qed
qed

lemma ident_all:
  assumes "ident_inv s0 own0 D d m s own" "1 \<le> m" "m \<le> L" "unat (limit s) = 4096 * L" "L \<le> 1024" "L < m + n + 1"
  shows "ident_loop n d (of_nat (4096 * m)) s = Inl (Panic ''no more frames'') \<and> \<not> room (if m = 1 then 1 else 0) s
    \<or> (\<exists>s' own'. ident_loop n d (of_nat (4096 * m)) s = Inr s' \<and> ident_inv s0 own0 D d L s' own'
        \<and> (\<forall>r. room (if m = 1 then Suc r else r) s \<longrightarrow> room r s'))"
  using assms
proof (induction n arbitrary: m s own)
  case 0
  then have m: "m = L" by simp
  have "unat (of_nat (4096 * m) :: u32) = 4096 * m" using 0 by (intro unat_of_nat_u32) simp
  then have "\<not> (of_nat (4096 * m) :: u32) < limit s" using 0(4) m by (simp add: word_less_nat_alt)
  then have e: "ident_loop 0 d (of_nat (4096 * m)) s = Inr s" by (simp only: ident_loop.simps if_False)
  have r: "room (if m = 1 then Suc r else r) s \<longrightarrow> room r s" for r by (simp add: room_def)
  have "ident_inv s0 own0 D d L s own" using 0(1) unfolding m .
  then show ?case using r by (intro disjI2 exI [of _ s] exI [of _ own] conjI allI e)
next
  case (Suc n)
  have u: "unat (of_nat (4096 * m) :: u32) = 4096 * m" using Suc.prems by (intro unat_of_nat_u32) simp
  show ?case
  proof (cases "m = L")
    case True
    then have "\<not> (of_nat (4096 * m) :: u32) < limit s" using u Suc.prems(4) by (simp add: word_less_nat_alt)
    then have e: "ident_loop (Suc n) d (of_nat (4096 * m)) s = Inr s" by (simp only: ident_loop.simps if_False)
    have r: "room (if m = 1 then Suc r else r) s \<longrightarrow> room r s" for r by (simp add: room_def)
    have "ident_inv s0 own0 D d L s own" using Suc.prems(1) unfolding True .
    then show ?thesis using r by (intro disjI2 exI [of _ s] exI [of _ own] conjI allI e)
  next
    case False
    then have m: "m < L" using Suc.prems(3) by simp
    then have lt: "(of_nat (4096 * m) :: u32) < limit s" using u Suc.prems(4) by (simp add: word_less_nat_alt)
    have nx: "of_nat (4096 * m) + FRAME_SIZE = (of_nat (4096 * Suc m) :: u32)" by (simp add: FRAME_SIZE_def)
    have "m < 1024" using m Suc.prems(5) by simp
    from ident_step [OF Suc.prems(1,2) this] show ?thesis
    proof (elim disjE exE conjE)
      fix s' own' assume r: "pmap d (of_nat (4096 * m)) (of_nat (4096 * m)) False True s = Inr s'"
        and F: "ident_inv s0 own0 D d (Suc m) s' own'" and ro: "\<forall>n. room (if m = 1 then Suc n else n) s \<longrightarrow> room n s'"
      have "limit s' = limit s" using F Suc.prems(1) unfolding ident_inv_def keeps_def by simp
      then have "unat (limit s') = 4096 * L" using Suc.prems(4) by simp
      from Suc.IH [OF F _ _ this] m Suc.prems(5,6)
      have rest: "ident_loop n d (of_nat (4096 * Suc m)) s' = Inl (Panic ''no more frames'') \<and> \<not> room 0 s'
        \<or> (\<exists>s'' own'. ident_loop n d (of_nat (4096 * Suc m)) s' = Inr s'' \<and> ident_inv s0 own0 D d L s'' own'
            \<and> (\<forall>r. room r s' \<longrightarrow> room r s''))" using Suc.prems(2) by simp
      have e: "ident_loop (Suc n) d (of_nat (4096 * m)) s = ident_loop n d (of_nat (4096 * Suc m)) s'"
        using lt r nx by (simp only: ident_loop.simps if_True bindE.simps)
      have r0: "\<not> room (if m = 1 then 1 else 0) s" if "\<not> room 0 s'"
        using ro [rule_format, of 0] that by (auto split: if_splits)
      from rest show ?thesis
      proof (elim disjE exE conjE)
        assume a: "ident_loop n d (of_nat (4096 * Suc m)) s' = Inl (Panic ''no more frames'')" "\<not> room 0 s'"
        show ?thesis unfolding e by (intro disjI1 conjI a(1) r0 a(2))
      next
        fix s2 own2 assume a: "ident_loop n d (of_nat (4096 * Suc m)) s' = Inr s2" "ident_inv s0 own0 D d L s2 own2"
          "\<forall>r. room r s' \<longrightarrow> room r s2"
        have "\<forall>r. room (if m = 1 then Suc r else r) s \<longrightarrow> room r s2" using ro a(3) by simp
        then show ?thesis unfolding e using a(1,2) by (intro disjI2 exI [of _ s2] exI [of _ own2]) simp
      qed
    next
      assume p: "pmap d (of_nat (4096 * m)) (of_nat (4096 * m)) False True s = Inl (Panic ''no more frames'')"
        and r: "\<not> room (if m = 1 then 1 else 0) s"
      have "ident_loop (Suc n) d (of_nat (4096 * m)) s = Inl (Panic ''no more frames'')"
        using lt p by (simp only: ident_loop.simps if_True bindE.simps)
      then show ?thesis using r by (intro disjI1 conjI)
    qed
  qed
qed

lemma bit_4095: "bit (4095 :: int) n \<longleftrightarrow> n < 12"
proof -
  have e: "(4095 :: int) = mask 12" by (simp add: mask_eq_exp_minus_1)
  show ?thesis unfolding e by (auto simp only: bit_mask_iff possible_bit_int)
qed

lemma frame_or_offset: "frame_of va OR (va AND 0xfff) = va"
  by (rule bit_word_eqI) (auto simp: bit_frame_of bit_simps bit_4095)

lemma ident_range:
  assumes "unat l = 4096 * L" "L \<le> 1024"
  shows "i0_of va = 0 \<and> 1 \<le> i1_of va \<and> i1_of va < L \<longleftrightarrow> 0x1000 \<le> va \<and> va < l"
proof -
  have a: "unat va div 2 ^ 22 = 0 \<longleftrightarrow> unat va div 4096 < 1024"
    by (simp add: div_eq_0_iff less_mult_imp_div_less flip: div_mult2_eq) linarith
  have b: "0x1000 \<le> va \<longleftrightarrow> 1 \<le> unat va div 4096" by (simp add: word_le_nat_alt less_eq_div_iff_mult_less_eq)
  have c: "va < l \<longleftrightarrow> unat va div 4096 < L"
    using assms(1) by (simp add: word_less_nat_alt div_less_iff_less_mult mult.commute)
  show ?thesis unfolding i0_of_div i1_of_div a b c using assms(2) by auto
qed

lemma new_space_spec:
  assumes "vm_inv s D own"
  shows "new_space s = Inl (Panic ''no more frames'') \<and> \<not> room 2 s
    \<or> (\<exists>d s' own'. new_space s = Inr (d, s') \<and> d \<notin> D \<and> vm_inv s' (insert d D) own'
        \<and> (\<forall>va. translate s' d va = (if 0x1000 \<le> va \<and> va < limit s then Some (va, False, True) else None))
        \<and> (\<forall>d' \<in> D. \<forall>va. translate s' d' va = translate s d' va)
        \<and> limit s' = limit s \<and> (\<forall>n. room (n + 2) s \<longrightarrow> room n s'))"
proof -
  consider "alloc_frame s = Inl (Panic ''no more frames'')"
    | f s1 where "alloc_frame s = Inr (f, s1)" "got_frame s D own f s1"
    using alloc_frame_spec [OF assms] by blast
  then show ?thesis
  proof cases
    case 1
    then have "\<not> room (Suc 1) s" using alloc_room [of 1 s] by auto
    then show ?thesis using 1 by (simp add: new_space_def numeral_2_eq_2)
  next
    case (2 f s1)
    let ?own1 = "own(f := None)" and ?own = "own(f := Some Dir)"
    have G: "vm_inv s1 D ?own1" "frame_of f = f" "f \<noteq> 0" "f < avail s1" "\<forall>k < 1024. mem s1 (slot f k) = 0"
      "own f = Some Free \<or> own f = None"
      "\<And>d i j. d \<in> D \<Longrightarrow> i < 1024 \<Longrightarrow> j < 1024 \<Longrightarrow> pte_of s1 d i j = pte_of s d i j"
      "keeps s own s1 ?own1"
      using 2(2) by (auto simp: got_frame_def)
    have ro: "room n s1" if "room (Suc n) s" for n using alloc_room [OF that] 2(1) by auto
    have fD: "f \<notin> D" using G(6) dirD [OF assms, of f] by auto
    have inv1: "vm_inv s1 (insert f D) ?own" using new_dir [OF G(1) _ G(2,3,4,5)] by simp
    have lim: "limit s1 = limit s" using G(8) unfolding keeps_def by simp
    have N: "frame_of (limit s) = limit s" "limit s \<le> 0x400000" "0 < avail s" "avail s \<le> limit s"
      using vm_invD(1) [OF assms] unfolding nums_ok_def by auto
    obtain L where L: "unat (limit s) = 4096 * L" using aligned_mult [OF N(1)] by blast
    have L1: "1 \<le> L" "L \<le> 1024"
    proof -
      have "0 < unat (limit s)" using N(3,4) by (simp add: word_less_nat_alt word_le_nat_alt)
      then show "1 \<le> L" using L by simp
      have "unat (limit s) \<le> 4194304" using N(2) by (simp add: word_le_nat_alt)
      then show "L \<le> 1024" using L by simp
    qed
    have "pte_of s1 f i j = 0" if "i < 1024" for i j using G(5) that by (simp add: pte_of_def pde_def)
    then have "ident_inv s1 ?own D f 1 s1 ?own"
      unfolding ident_inv_def using inv1 fD by simp
    moreover have "L < 1 + (unat (limit s1) div 4096 + 1) + 1" using L lim by simp
    ultimately have "ident_loop (unat (limit s1) div 4096 + 1) f (of_nat (4096 * 1)) s1 = Inl (Panic ''no more frames'')
        \<and> \<not> room (if (1 :: nat) = 1 then 1 else 0) s1
      \<or> (\<exists>s' own'. ident_loop (unat (limit s1) div 4096 + 1) f (of_nat (4096 * 1)) s1 = Inr s'
          \<and> ident_inv s1 ?own D f L s' own'
          \<and> (\<forall>r. room (if (1 :: nat) = 1 then Suc r else r) s1 \<longrightarrow> room r s'))"
      using L L1 lim by (intro ident_all) simp_all
    then have "ident_loop (unat (limit s1) div 4096 + 1) f FRAME_SIZE s1 = Inl (Panic ''no more frames'') \<and> \<not> room 1 s1
      \<or> (\<exists>s' own'. ident_loop (unat (limit s1) div 4096 + 1) f FRAME_SIZE s1 = Inr s'
          \<and> ident_inv s1 ?own D f L s' own' \<and> (\<forall>r. room (Suc r) s1 \<longrightarrow> room r s'))"
      by (simp add: FRAME_SIZE_def)
    then show ?thesis
    proof (elim disjE exE conjE)
      assume "ident_loop (unat (limit s1) div 4096 + 1) f FRAME_SIZE s1 = Inl (Panic ''no more frames'')" "\<not> room 1 s1"
      then show ?thesis using 2(1) ro [of 1] by (auto simp: new_space_def numeral_2_eq_2)
    next
      fix s' own' assume r: "ident_loop (unat (limit s1) div 4096 + 1) f FRAME_SIZE s1 = Inr s'"
        and F: "ident_inv s1 ?own D f L s' own'" and rr: "\<forall>r. room (Suc r) s1 \<longrightarrow> room r s'"
      have I: "vm_inv s' (insert f D) own'"
        "\<And>d' i j. d' \<in> D \<Longrightarrow> d' \<noteq> f \<Longrightarrow> i < 1024 \<Longrightarrow> j < 1024 \<Longrightarrow> pte_of s' d' i j = pte_of s1 d' i j"
        "\<And>i j. i < 1024 \<Longrightarrow> j < 1024 \<Longrightarrow> pte_of s' f i j =
          (if i = 0 \<and> 1 \<le> j \<and> j < L then pte_word (of_nat (4096 * j)) False True else 0)"
        using F unfolding ident_inv_def by blast+
      have "translate s' f va = (if 0x1000 \<le> va \<and> va < limit s then Some (va, False, True) else None)" for va
      proof -
        note R = ident_range [OF L L1(2), of va]
        have p: "pte_of s' f (i0_of va) (i1_of va) =
            (if 0x1000 \<le> va \<and> va < limit s then pte_word (of_nat (4096 * i1_of va)) False True else 0)"
          using I(3) [OF idx_less [of va]] unfolding R .
        have "frame_of (of_nat (4096 * i1_of va)) = frame_of va" if "0x1000 \<le> va \<and> va < limit s"
        proof -
          have "i0_of va = 0" using that R by blast
          then show ?thesis
            using ident_va(2,3) [OF idx_less(2) [of va]] by (subst same_page) simp
        qed
        then show ?thesis
          using p present_pte_word(2,3) [of "of_nat (4096 * i1_of va)" False True] frame_or_offset [of va]
          by (simp add: translate_def Let_def frame_pte_word PTE_U_def PTE_W_def)
      qed
      moreover have "translate s' d' va = translate s d' va" if "d' \<in> D" for d' va
      proof -
        have "d' \<noteq> f" using that fD by auto
        then show ?thesis using I(2) G(7) that idx_less [of va] by (simp add: translate_def)
      qed
      moreover have "new_space s = Inr (f, s')" using 2(1) r by (simp add: new_space_def)
      moreover have "limit s' = limit s" using F lim unfolding ident_inv_def keeps_def by simp
      moreover have "room n s'" if "room (n + 2) s" for n using rr ro [of "Suc n"] that by simp
      ultimately show ?thesis using fD I(1) by blast
    qed
  qed
qed

text \<open>
  C22. The constructor of an address space maps exactly the memory from \<^verbatim>\<open>0x1000\<close> to \<^verbatim>\<open>limit\<close> one to
  one, writable and for the kernel only, so that the null page and every user address are unmapped;
  its directory is a frame nobody else uses, and no other address space changes. The only failure
  is that the frames run out, so the loop always ends.
\<close>

theorem new_space_identity:
  assumes "vm_inv s D own"
  shows "case new_space s of
      Inl e \<Rightarrow> e = Panic ''no more frames''
    | Inr (d, s') \<Rightarrow> d \<notin> D \<and> (\<exists>own'. vm_inv s' (insert d D) own')
        \<and> (\<forall>va. translate s' d va = (if 0x1000 \<le> va \<and> va < limit s then Some (va, False, True) else None))
        \<and> (\<forall>d' \<in> D. \<forall>va. translate s' d' va = translate s d' va)"
proof -
  from new_space_spec [OF assms] show ?thesis by (elim disjE exE conjE) auto
qed

text \<open>A small machine of four frames, in which two address spaces fit.\<close>

definition empty_machine :: phys where
  "empty_machine = phys_init 0x1000 0x5000 \<lparr>mem = (\<lambda>_. 0), firstFree = 0, avail = 0, limit = 0\<rparr>"

lemma empty_machine_inv: "vm_inv empty_machine {} Map.empty"
proof -
  have "free_ok empty_machine Map.empty"
    unfolding free_ok_def by (intro exI [of _ "[]"]) (simp add: empty_machine_def phys_init_def)
  moreover have "nums_ok empty_machine Map.empty"
    by (simp add: nums_ok_def empty_machine_def phys_init_def frame_of_def)
  ultimately show ?thesis by (simp add: vm_inv_def tabs_ok_def)
qed

lemma two_spaces:
  obtains p c s own where "vm_inv s {c, p} own" "p \<noteq> c"
    "\<And>d va. d \<in> {c, p} \<Longrightarrow> translate s d va = (if 0x1000 \<le> va \<and> va < 0x5000 then Some (va, False, True) else None)"
proof -
  have e: "limit empty_machine = 0x5000" "avail empty_machine = 0x1000" by (simp_all add: empty_machine_def phys_init_def)
  have r4: "room (2 + 2) empty_machine" by (simp add: room_def e)
  then have "room 2 empty_machine" by (simp add: room_def)
  with new_space_spec [OF empty_machine_inv] obtain p s1 own1 where
    1: "vm_inv s1 {p} own1" "limit s1 = limit empty_machine" "room 2 s1"
    "\<And>va. translate s1 p va = (if 0x1000 \<le> va \<and> va < limit empty_machine then Some (va, False, True) else None)"
    using r4 by auto
  from new_space_spec [OF 1(1)] 1(3) obtain c s2 own2 where
    2: "c \<notin> {p}" "vm_inv s2 {c, p} own2"
    "\<And>va. translate s2 c va = (if 0x1000 \<le> va \<and> va < limit s1 then Some (va, False, True) else None)"
    "\<And>d' va. d' \<in> {p} \<Longrightarrow> translate s2 d' va = translate s1 d' va"
    by blast
  show ?thesis
    by (rule that [OF 2(2)]) (use 1(2,4) 2(1,3,4) e in auto)
qed


theorem new_space_identity_witness:
  "\<exists>d s'. new_space empty_machine = Inr (d, s') \<and> translate s' d 0x2345 = Some (0x2345, False, True)"
proof -
  have e: "limit empty_machine = 0x5000" by (simp add: empty_machine_def phys_init_def)
  have "\<exists>r. new_space empty_machine = Inr r"
    using new_space_spec [OF empty_machine_inv] by (auto simp: room_def empty_machine_def phys_init_def)
  then obtain d s' where r: "new_space empty_machine = Inr (d, s')" by auto
  from new_space_identity [OF empty_machine_inv] r e show ?thesis by simp
qed

theorem pmap_translates_witness:
  "\<exists>s d. translate s d 0x2345 = Some (0x2345, False, True) \<and> translate s d 0x3000 = Some (0x3000, False, True)
     \<and> (case pmap d 0x2000 0x4000 True False s of Inl e \<Rightarrow> e = Panic ''no more frames''
        | Inr s' \<Rightarrow> translate s' d 0x2345 = Some (0x4345, True, False) \<and> translate s' d 0x3000 = Some (0x3000, False, True))"
proof -
  obtain p c s own where S: "vm_inv s {c, p} own" "p \<noteq> c"
    "\<And>d va. d \<in> {c, p} \<Longrightarrow> translate s d va = (if 0x1000 \<le> va \<and> va < 0x5000 then Some (va, False, True) else None)"
    by (rule two_spaces) blast
  have "i0_of 0x2000 = 0" by (simp add: i0_of_div)
  with pmap_translates [OF S(1), where d = p and va = "0x2000" and pa = "0x4000" and u = True and w = False]
  show ?thesis using S(3)
    by (intro exI [of _ s] exI [of _ p]) (auto simp: frame_of_def split: sum.splits)
qed

theorem exec_unmaps_user_witness:
  "\<exists>s p. translate (exec_space p s) p 0x80000000 = None \<and> translate (exec_space p s) p 0x4000 = Some (0x4000, False, True)"
proof -
  obtain p c s own where S: "vm_inv s {c, p} own" "p \<noteq> c"
    "\<And>d va. d \<in> {c, p} \<Longrightarrow> translate s d va = (if 0x1000 \<le> va \<and> va < 0x5000 then Some (va, False, True) else None)"
    by (rule two_spaces) blast
  from exec_unmaps_user [OF S(1), of p] obtain own' where
    "\<forall>va. 0x80000000 \<le> va \<longrightarrow> translate (exec_space p s) p va = None"
    "\<forall>d \<in> {c, p}. \<forall>va. d \<noteq> p \<or> va < 0x80000000 \<longrightarrow> translate (exec_space p s) d va = translate s d va" by auto
  then show ?thesis using S(3) by (intro exI [of _ s] exI [of _ p]) simp
qed

lemma user_unmapped:
  assumes "\<And>va. 0x80000000 \<le> va \<Longrightarrow> translate s d va = None" "512 \<le> i" "i < 1024" "j < 1024"
  shows "\<not> present (pte_of s d i j)"
proof -
  have x: "i0_of (va_of i j) = i" "i1_of (va_of i j) = j" using va_of_idx assms(3,4) by simp_all
  have "512 \<le> unat (va_of i j) div 2 ^ 22" using x(1) assms(2) by (simp add: i0_of_div)
  then have "0x80000000 \<le> va_of i j" by (simp add: word_le_nat_alt less_eq_div_iff_mult_less_eq)
  from assms(1) [OF this] show ?thesis unfolding not_present_translate x .
qed

theorem fork_copies_pages_witness:
  "\<exists>s p c. p \<noteq> c \<and> translate s p 0x4000 = Some (0x4000, False, True)
     \<and> (case fork_space p c s of Inl e \<Rightarrow> e = Panic ''no more frames''
        | Inr s' \<Rightarrow> translate s' p 0x4000 = Some (0x4000, False, True))"
proof -
  obtain p c s own where S: "vm_inv s {c, p} own" "p \<noteq> c"
    "\<And>d va. d \<in> {c, p} \<Longrightarrow> translate s d va = (if 0x1000 \<le> va \<and> va < 0x5000 then Some (va, False, True) else None)"
    by (rule two_spaces) blast
  have "\<not> (va < 0x5000)" if "0x80000000 \<le> va" for va :: u32 using that by (simp add: word_le_nat_alt word_less_nat_alt)
  then have "\<not> present (pte_of s c i j)" if "512 \<le> i" "i < 1024" "j < 1024" for i j
    using S(3) by (intro user_unmapped [OF _ that]) simp
  from fork_copies_pages [OF S(1) _ _ S(2) this] S(2,3) show ?thesis
    by (intro exI [of _ s] exI [of _ p] exI [of _ c]) (auto split: sum.splits)
qed

theorem page_fault_cases_witness:
  "\<exists>s m d. vmm_pageFault (\<lambda>_. d) 0x12345 (m, s) = Inl (Panic ''page fault'')
     \<and> current s = Some 0 \<and> translate m d 0x4000 = Some (0x4000, False, True)"
proof -
  obtain p c m own where S: "vm_inv m {c, p} own" "p \<noteq> c"
    "\<And>d va. d \<in> {c, p} \<Longrightarrow> translate m d va = (if 0x1000 \<le> va \<and> va < 0x5000 then Some (va, False, True) else None)"
    by (rule two_spaces) blast
  obtain s where s: "kreach (\<lambda>_. 0) s" "current s = Some 0" "idleProcess s = Some 1"
    using booted_code [of "\<lambda>_. 0" 0] by blast
  obtain P where P: "procs s 0 = Some P"
    using kreach_inv [OF s(1)] current_proc [OF _ s(2)] by metis
  from page_fault_cases [OF s(1,2) P _ S(1), where pd_of = "\<lambda>_. p" and va = "0x12345"] s(3)
  have "vmm_pageFault (\<lambda>_. p) 0x12345 (m, s) = Inl (Panic ''page fault'')" by simp
  then show ?thesis using s(2) S(3) by (intro exI [of _ s] exI [of _ m] exI [of _ p]) simp
qed

end
