(* ===== verification/Snprintf.thy ===== *)
theory Snprintf
  imports Complex_Main Kernel_Prelude Libk "HOL-Library.Signed_Division"
begin

text \<open>
  \<^verbatim>\<open>kernel/snprintf.cc\<close>: the formatter behind \<^verbatim>\<open>K::snprintf\<close>, \<^verbatim>\<open>K::vsnprintf\<close> and the kernel's
  \<^verbatim>\<open>Debug::printf\<close>. An output stream is the string of the characters put into it. The
  format is the string in memory from the pointer on, its NUL included; a read past its end is the
  fault \<open>BadIndex\<close>, and so is a \<^verbatim>\<open>va_arg\<close> without an argument of that kind, which is undefined in
  C. A signed machine integer is an \<open>int\<close> whose operations wrap with \<open>s32\<close>, an unsigned one
  or a word that is only passed on is a \<open>u32\<close>.

  The theory has the formatter as it is written, a state machine over the characters of the format,
  closed forms of the text that each conversion produces, and a second formatter by recursive
  descent over the format that the state machine is equal to.
\<close>

lemma s32_add: "s32 (s32 a + b) = s32 (a + b)"
proof -
  have e: "take_bit 32 (s32 z) = take_bit 32 z" for z
    unfolding s32_def by (rule bit_eqI) (auto simp: bit_simps min_def less_Suc_eq numeral_eq_Suc)
  have "take_bit 32 (s32 a + b) = take_bit 32 (take_bit 32 (s32 a) + b)" by (simp add: take_bit_eq_mod mod_simps)
  also have "\<dots> = take_bit 32 (a + b)" unfolding e by (simp add: take_bit_eq_mod mod_simps)
  finally have t: "take_bit (Suc 31) (s32 a + b) = take_bit (Suc 31) (a + b)" by simp
  show ?thesis using arg_cong [OF t, of "signed_take_bit 31"] unfolding s32_def signed_take_bit_take_bit [of 31] by simp
qed

section \<open>Flags, states and the output\<close>

definition DP_F_MINUS :: u32 where "DP_F_MINUS = 1"
definition DP_F_PLUS :: u32 where "DP_F_PLUS = 2"
definition DP_F_SPACE :: u32 where "DP_F_SPACE = 4"
definition DP_F_NUM :: u32 where "DP_F_NUM = 8"
definition DP_F_ZERO :: u32 where "DP_F_ZERO = 16"
definition DP_F_UP :: u32 where "DP_F_UP = 32"
definition DP_F_UNSIGNED :: u32 where "DP_F_UNSIGNED = 64"

lemmas dp_flags = DP_F_MINUS_def DP_F_PLUS_def DP_F_SPACE_def DP_F_NUM_def DP_F_ZERO_def DP_F_UP_def DP_F_UNSIGNED_def

datatype dp_state = DP_S_DEFAULT | DP_S_FLAGS | DP_S_MIN | DP_S_DOT | DP_S_MAX | DP_S_MOD | DP_S_CONV | DP_S_DONE

datatype dp_cflag = DP_C_NONE | DP_C_SHORT | DP_C_LONG | DP_C_LDOUBLE

text \<open>
  The sink: what has been put into the buffer, the counter \<^verbatim>\<open>currlen\<close>, and the stores of \<^verbatim>\<open>%n\<close>
  (address, size in bytes, value), the last one first.
\<close>

record sink =
  out :: string
  currlen :: int
  stores :: "(u32 \<times> nat \<times> int) list"

definition dopr_outch :: "char \<Rightarrow> sink \<Rightarrow> sink" where
  "dopr_outch c st = st\<lparr>currlen := s32 (currlen st + 1), out := out st @ [c]\<rparr>"

definition MAX_pq :: "int \<Rightarrow> int \<Rightarrow> int" where "MAX_pq p q = (if p \<ge> q then p else q)"

section \<open>Strings\<close>

text \<open>A C string is read up to its NUL; past the end of the list there is one.\<close>

fun strlen_loop :: "string \<Rightarrow> int" where
  "strlen_loop [] = 0"
| "strlen_loop (c # cs) = (if c = CHR 0x00 then 0 else s32 (strlen_loop cs + 1))"

function pad_left :: "int \<Rightarrow> int \<Rightarrow> int \<Rightarrow> sink \<Rightarrow> int \<times> int \<times> sink" where
  "pad_left padlen cnt mx st =
     (if padlen > 0 \<and> cnt < mx then pad_left (padlen - 1) (cnt + 1) mx (dopr_outch CHR '' '' st)
      else (padlen, cnt, st))"
  by pat_completeness auto
termination by (relation "measure (\<lambda>(padlen, cnt, mx, st). nat padlen)") auto

fun copy_value :: "string \<Rightarrow> int \<Rightarrow> int \<Rightarrow> sink \<Rightarrow> int \<times> sink" where
  "copy_value [] cnt mx st = (cnt, st)"
| "copy_value (c # cs) cnt mx st =
     (if c \<noteq> CHR 0x00 \<and> cnt < mx then copy_value cs (cnt + 1) mx (dopr_outch c st) else (cnt, st))"

function pad_right :: "int \<Rightarrow> int \<Rightarrow> int \<Rightarrow> sink \<Rightarrow> sink" where
  "pad_right padlen cnt mx st =
     (if padlen < 0 \<and> cnt < mx then pad_right (padlen + 1) (cnt + 1) mx (dopr_outch CHR '' '' st) else st)"
  by pat_completeness auto
termination by (relation "measure (\<lambda>(padlen, cnt, mx, st). nat (- padlen))") auto

declare pad_left.simps [simp del] pad_right.simps [simp del]

definition fmtstr :: "string option \<Rightarrow> u32 \<Rightarrow> int \<Rightarrow> int \<Rightarrow> sink \<Rightarrow> sink" where
  "fmtstr value flags mn mx st =
     (let v = (case value of None \<Rightarrow> ''<NULL>'' | Some v \<Rightarrow> v);
          strln = strlen_loop v;
          padlen = s32 (mn - strln);
          padlen = (if padlen < 0 then 0 else padlen);
          padlen = (if flags AND DP_F_MINUS \<noteq> 0 then - padlen else padlen);
          (padlen, cnt, st) = pad_left padlen 0 mx st;
          (cnt, st) = copy_value v cnt mx st
      in pad_right padlen cnt mx st)"

section \<open>Integers\<close>

definition digit_char :: "bool \<Rightarrow> nat \<Rightarrow> char" where
  "digit_char caps i = (if caps then ''0123456789ABCDEF'' else ''0123456789abcdef'') ! i"

text \<open>The loop that fills \<^verbatim>\<open>convert\<close>, least significant digit first; the list is \<^verbatim>\<open>convert[0..place)\<close>.\<close>

function convert_loop :: "bool \<Rightarrow> nat \<Rightarrow> nat \<Rightarrow> string \<Rightarrow> string" where
  "convert_loop caps base uvalue convert =
     (let convert = convert @ [digit_char caps (uvalue mod base)];
          uvalue = uvalue div base
      in if uvalue \<noteq> 0 \<and> length convert < 20 then convert_loop caps base uvalue convert else convert)"
  by pat_completeness auto
termination by (relation "measure (\<lambda>(caps, base, uvalue, convert). 20 - length convert)") (auto simp: Let_def)

declare convert_loop.simps [simp del]

function outch_while :: "char \<Rightarrow> int \<Rightarrow> sink \<Rightarrow> sink" where
  "outch_while c n st = (if n > 0 then outch_while c (n - 1) (dopr_outch c st) else st)"
  by pat_completeness auto
termination by (relation "measure (\<lambda>(c, n, st). nat n)") auto

function outch_until :: "char \<Rightarrow> int \<Rightarrow> sink \<Rightarrow> sink" where
  "outch_until c n st = (if n < 0 then outch_until c (n + 1) (dopr_outch c st) else st)"
  by pat_completeness auto
termination by (relation "measure (\<lambda>(c, n, st). nat (- n))") auto

declare outch_while.simps [simp del] outch_until.simps [simp del]

fun digits_out :: "string \<Rightarrow> nat \<Rightarrow> sink \<Rightarrow> sink" where
  "digits_out convert 0 st = st"
| "digits_out convert (Suc place) st = digits_out convert place (dopr_outch (convert ! place) st)"

definition fmtint :: "u32 \<Rightarrow> nat \<Rightarrow> int \<Rightarrow> int \<Rightarrow> u32 \<Rightarrow> sink \<Rightarrow> sink" where
  "fmtint value base mn mx flags st =
     (let mx = (if mx < 0 then 0 else mx);
          signed = (flags AND DP_F_UNSIGNED = 0);
          uvalue = (if signed \<and> sint value < 0 then - value else value);
          signvalue = (if \<not> signed then CHR 0x00
                       else if sint value < 0 then CHR ''-''
                       else if flags AND DP_F_PLUS \<noteq> 0 then CHR ''+''
                       else if flags AND DP_F_SPACE \<noteq> 0 then CHR '' '' else CHR 0x00);
          caps = (flags AND DP_F_UP \<noteq> 0);
          convert = convert_loop caps base (unat uvalue) [];
          place = (if length convert = 20 then 19 else length convert);
          zpadlen = s32 (mx - int place);
          spadlen = s32 (mn - MAX_pq mx (int place) - (if signvalue \<noteq> CHR 0x00 then 1 else 0));
          zpadlen = (if zpadlen < 0 then 0 else zpadlen);
          spadlen = (if spadlen < 0 then 0 else spadlen);
          (zpadlen, spadlen) = (if flags AND DP_F_ZERO \<noteq> 0 then (MAX_pq zpadlen spadlen, 0) else (zpadlen, spadlen));
          spadlen = (if flags AND DP_F_MINUS \<noteq> 0 then - spadlen else spadlen);
          st = outch_while CHR '' '' spadlen st;
          st = (if signvalue \<noteq> CHR 0x00 then dopr_outch signvalue st else st);
          st = outch_while CHR ''0'' zpadlen st;
          st = digits_out convert place st
      in outch_until CHR '' '' spadlen st)"

section \<open>Floating point\<close>

text \<open>
  The arithmetic of \<^verbatim>\<open>long double\<close> is that of the processor; what the formatter uses of it is a
  parameter: comparison with zero, negation, the conversions from and to \<^verbatim>\<open>long\<close>, subtraction,
  multiplication, comparison, and the constant \<^verbatim>\<open>0.5\<close>.
\<close>

record 'f ldouble =
  ld_less0 :: "'f \<Rightarrow> bool"
  ld_neg :: "'f \<Rightarrow> 'f"
  ld_of_long :: "int \<Rightarrow> 'f"
  ld_to_long :: "'f \<Rightarrow> int"
  ld_sub :: "'f \<Rightarrow> 'f \<Rightarrow> 'f"
  ld_mul :: "'f \<Rightarrow> 'f \<Rightarrow> 'f"
  ld_ge :: "'f \<Rightarrow> 'f \<Rightarrow> bool"
  ld_half :: 'f

definition abs_val :: "'f ldouble \<Rightarrow> 'f \<Rightarrow> 'f" where
  "abs_val fp value = (if ld_less0 fp value then ld_neg fp value else value)"

fun pow10_loop :: "'f ldouble \<Rightarrow> nat \<Rightarrow> 'f \<Rightarrow> 'f" where
  "pow10_loop fp 0 result = result"
| "pow10_loop fp (Suc e) result = pow10_loop fp e (ld_mul fp result (ld_of_long fp 10))"

definition pow10 :: "'f ldouble \<Rightarrow> nat \<Rightarrow> 'f" where
  "pow10 fp e = pow10_loop fp e (ld_of_long fp 1)"

definition xround :: "'f ldouble \<Rightarrow> 'f \<Rightarrow> int" where
  "xround fp value =
     (let intpart = ld_to_long fp value;
          value = ld_sub fp value (ld_of_long fp intpart)
      in if ld_ge fp value (ld_half fp) then s32 (intpart + 1) else intpart)"

text \<open>The digits of a \<^verbatim>\<open>long\<close> that is negative would be read before the start of the digit string.\<close>

function fp_convert :: "int \<Rightarrow> string \<Rightarrow> fault + string" where
  "fp_convert v convert =
     (if v smod 10 < 0 then Inl BadIndex
      else (let convert = convert @ [digit_char False (nat (v smod 10))]; v = v sdiv 10
            in if v \<noteq> 0 \<and> length convert < 20 then fp_convert v convert else Inr convert))"
  by pat_completeness auto
termination by (relation "measure (\<lambda>(v, convert). 20 - length convert)") (auto simp: Let_def)

declare fp_convert.simps [simp del]

text \<open>The integer part and the digits behind the point, as the rounding of the fraction leaves them.\<close>

definition fp_split :: "'f ldouble \<Rightarrow> 'f \<Rightarrow> nat \<Rightarrow> int \<times> int" where
  "fp_split fp ufvalue mx =
     (let intpart = ld_to_long fp ufvalue;
          fracpart = xround fp (ld_mul fp (pow10 fp mx) (ld_sub fp ufvalue (ld_of_long fp intpart)))
      in if ld_ge fp (ld_of_long fp fracpart) (pow10 fp mx)
         then (s32 (intpart + 1), ld_to_long fp (ld_sub fp (ld_of_long fp fracpart) (pow10 fp mx)))
         else (intpart, fracpart))"

definition fmtfp :: "'f ldouble \<Rightarrow> 'f \<Rightarrow> int \<Rightarrow> int \<Rightarrow> u32 \<Rightarrow> sink \<Rightarrow> fault + sink" where
  "fmtfp fp fvalue mn mx flags st =
     (let mx = (if mx < 0 then 6 else mx);
          ufvalue = abs_val fp fvalue;
          signvalue = (if ld_less0 fp fvalue then CHR ''-''
                       else if flags AND DP_F_PLUS \<noteq> 0 then CHR ''+''
                       else if flags AND DP_F_SPACE \<noteq> 0 then CHR '' '' else CHR 0x00);
          mx = (if mx > 9 then 9 else mx);
          (intpart, fracpart) = fp_split fp ufvalue (nat mx)
      in bindE (fp_convert intpart []) (\<lambda>iconvert. bindE (fp_convert fracpart []) (\<lambda>fconvert.
        (let iplace = (if length iconvert = 20 then 19 else length iconvert);
             fplace = (if length fconvert = 20 then 19 else length fconvert);
             padlen = s32 (mn - int iplace - mx - 1 - (if signvalue \<noteq> CHR 0x00 then 1 else 0));
             zpadlen = mx - int fplace;
             zpadlen = (if zpadlen < 0 then 0 else zpadlen);
             padlen = (if padlen < 0 then 0 else padlen);
             padlen = (if flags AND DP_F_MINUS \<noteq> 0 then - padlen else padlen);
             (padlen, signvalue, st) =
               (if flags AND DP_F_ZERO \<noteq> 0 \<and> padlen > 0
                then (let (padlen, signvalue, st) =
                        (if signvalue \<noteq> CHR 0x00 then (padlen - 1, CHR 0x00, dopr_outch signvalue st)
                         else (padlen, signvalue, st))
                      in (0, signvalue, outch_while CHR ''0'' padlen st))
                else (padlen, signvalue, st));
             st = outch_while CHR '' '' padlen st;
             st = (if signvalue \<noteq> CHR 0x00 then dopr_outch signvalue st else st);
             st = digits_out iconvert iplace st;
             st = (if mx > 0 then digits_out fconvert fplace (dopr_outch CHR ''.'' st) else st);
             st = outch_while CHR ''0'' zpadlen st
         in Inr (outch_until CHR '' '' padlen st)))))"

section \<open>The state machine\<close>

text \<open>
  On i386 an argument of type \<^verbatim>\<open>int\<close>, \<^verbatim>\<open>long\<close> or \<^verbatim>\<open>unsigned\<close> is one word; a pointer is an address
  with the string it points to.
\<close>

datatype 'f vararg = Word u32 | Pointer u32 string | Double 'f | LongDouble 'f

fun va_int :: "'f vararg list \<Rightarrow> fault + (u32 \<times> 'f vararg list)" where
  "va_int (Word w # args) = Inr (w, args)"
| "va_int args = Inl BadIndex"

fun va_pointer :: "'f vararg list \<Rightarrow> fault + ((u32 \<times> string) \<times> 'f vararg list)" where
  "va_pointer (Pointer a s # args) = Inr ((a, s), args)"
| "va_pointer args = Inl BadIndex"

fun va_double :: "dp_cflag \<Rightarrow> 'f vararg list \<Rightarrow> fault + ('f \<times> 'f vararg list)" where
  "va_double cflags (Double f # args) = (if cflags = DP_C_LDOUBLE then Inl BadIndex else Inr (f, args))"
| "va_double cflags (LongDouble f # args) = (if cflags = DP_C_LDOUBLE then Inr (f, args) else Inl BadIndex)"
| "va_double cflags args = Inl BadIndex"

text \<open>The size of the variable that \<^verbatim>\<open>%n\<close> stores to, and what a store of a \<^verbatim>\<open>long\<close> leaves in it.\<close>

definition store_n :: "dp_cflag \<Rightarrow> u32 \<Rightarrow> sink \<Rightarrow> sink" where
  "store_n cflags num st =
     (let size = (if cflags = DP_C_SHORT then 2 else 4)
      in st\<lparr>stores := (num, size, if cflags = DP_C_SHORT then signed_take_bit 15 (currlen st) else currlen st) # stores st\<rparr>)"

definition dopr_conv :: "'f ldouble \<Rightarrow> int \<Rightarrow> char \<Rightarrow> int \<Rightarrow> int \<Rightarrow> u32 \<Rightarrow> dp_cflag \<Rightarrow> 'f vararg list \<Rightarrow> sink
    \<Rightarrow> fault + ('f vararg list \<times> sink)" where
  "dopr_conv fp maxlen ch mn mx flags cflags args st =
     (if ch = CHR ''d'' \<or> ch = CHR ''i''
      then bindE (va_int args) (\<lambda>(value, args). Inr (args, fmtint value 10 mn mx flags st))
      else if ch = CHR ''o''
      then bindE (va_int args) (\<lambda>(value, args). Inr (args, fmtint value 8 mn mx (flags OR DP_F_UNSIGNED) st))
      else if ch = CHR ''u''
      then bindE (va_int args) (\<lambda>(value, args). Inr (args, fmtint value 10 mn mx (flags OR DP_F_UNSIGNED) st))
      else if ch = CHR ''X''
      then bindE (va_int args) (\<lambda>(value, args).
             Inr (args, fmtint value 16 mn mx (flags OR DP_F_UP OR DP_F_UNSIGNED) st))
      else if ch = CHR ''x''
      then bindE (va_int args) (\<lambda>(value, args). Inr (args, fmtint value 16 mn mx (flags OR DP_F_UNSIGNED) st))
      else if ch = CHR ''f''
      then bindE (va_double cflags args) (\<lambda>(fvalue, args).
             bindE (fmtfp fp fvalue mn mx flags st) (\<lambda>st. Inr (args, st)))
      else if ch = CHR ''E'' \<or> ch = CHR ''e'' \<or> ch = CHR ''G'' \<or> ch = CHR ''g''
      then bindE (va_double cflags args) (\<lambda>(fvalue, args). Inr (args, st))
      else if ch = CHR ''c''
      then bindE (va_int args) (\<lambda>(value, args). Inr (args, dopr_outch (char_of (unat value)) st))
      else if ch = CHR ''s''
      then bindE (va_pointer args) (\<lambda>((a, s), args).
             Inr (args, fmtstr (if a = 0 then None else Some s) flags mn (if mx < 0 then maxlen else mx) st))
      else if ch = CHR ''p''
      then bindE (va_pointer args) (\<lambda>((a, s), args). Inr (args, fmtint a 16 mn mx flags st))
      else if ch = CHR ''n''
      then bindE (va_pointer args) (\<lambda>((a, s), args). Inr (args, store_n cflags a st))
      else if ch = CHR ''%'' then Inr (args, dopr_outch ch st)
      else Inr (args, st))"

record 'f dopr =
  d_state :: dp_state
  d_ch :: char
  d_format :: string
  d_args :: "'f vararg list"
  d_min :: int
  d_max :: int
  d_flags :: u32
  d_cflags :: dp_cflag
  d_sink :: sink

text \<open>\<^verbatim>\<open>ch = *format++\<close>\<close>

definition next_ch :: "'f dopr \<Rightarrow> fault + 'f dopr" where
  "next_ch d = (case d_format d of [] \<Rightarrow> Inl BadIndex | c # cs \<Rightarrow> Inr (d\<lparr>d_ch := c, d_format := cs\<rparr>))"

definition char_to_int :: "char \<Rightarrow> int" where "char_to_int p = of_char p - 48"

definition dopr_step :: "'f ldouble \<Rightarrow> int \<Rightarrow> 'f dopr \<Rightarrow> fault + 'f dopr" where
  "dopr_step fp maxlen d =
     (let ch = d_ch d in
      case (if ch = CHR 0x00 \<or> currlen (d_sink d) \<ge> maxlen then DP_S_DONE else d_state d) of
        DP_S_DEFAULT \<Rightarrow>
          next_ch (if ch = CHR ''%'' then d\<lparr>d_state := DP_S_FLAGS\<rparr>
                   else d\<lparr>d_sink := dopr_outch ch (d_sink d)\<rparr>)
      | DP_S_FLAGS \<Rightarrow>
          if ch = CHR ''-'' then next_ch (d\<lparr>d_flags := d_flags d OR DP_F_MINUS\<rparr>)
          else if ch = CHR ''+'' then next_ch (d\<lparr>d_flags := d_flags d OR DP_F_PLUS\<rparr>)
          else if ch = CHR '' '' then next_ch (d\<lparr>d_flags := d_flags d OR DP_F_SPACE\<rparr>)
          else if ch = CHR ''#'' then next_ch (d\<lparr>d_flags := d_flags d OR DP_F_NUM\<rparr>)
          else if ch = CHR ''0'' then next_ch (d\<lparr>d_flags := d_flags d OR DP_F_ZERO\<rparr>)
          else Inr (d\<lparr>d_state := DP_S_MIN\<rparr>)
      | DP_S_MIN \<Rightarrow>
          if K_isdigit (of_char ch) then next_ch (d\<lparr>d_min := s32 (10 * d_min d + char_to_int ch)\<rparr>)
          else if ch = CHR ''*''
          then bindE (va_int (d_args d)) (\<lambda>(v, args). next_ch (d\<lparr>d_min := sint v, d_args := args, d_state := DP_S_DOT\<rparr>))
          else Inr (d\<lparr>d_state := DP_S_DOT\<rparr>)
      | DP_S_DOT \<Rightarrow>
          if ch = CHR ''.'' then next_ch (d\<lparr>d_state := DP_S_MAX\<rparr>) else Inr (d\<lparr>d_state := DP_S_MOD\<rparr>)
      | DP_S_MAX \<Rightarrow>
          if K_isdigit (of_char ch)
          then next_ch (d\<lparr>d_max := s32 (10 * (if d_max d < 0 then 0 else d_max d) + char_to_int ch)\<rparr>)
          else if ch = CHR ''*''
          then bindE (va_int (d_args d)) (\<lambda>(v, args). next_ch (d\<lparr>d_max := sint v, d_args := args, d_state := DP_S_MOD\<rparr>))
          else Inr (d\<lparr>d_state := DP_S_MOD\<rparr>)
      | DP_S_MOD \<Rightarrow>
          bindE (if ch = CHR ''h'' then next_ch (d\<lparr>d_cflags := DP_C_SHORT\<rparr>)
                 else if ch = CHR ''l'' then next_ch (d\<lparr>d_cflags := DP_C_LONG\<rparr>)
                 else if ch = CHR ''L'' then next_ch (d\<lparr>d_cflags := DP_C_LDOUBLE\<rparr>)
                 else Inr d)
            (\<lambda>d. Inr (d\<lparr>d_state := DP_S_CONV\<rparr>))
      | DP_S_CONV \<Rightarrow>
          bindE (dopr_conv fp maxlen ch (d_min d) (d_max d) (d_flags d) (d_cflags d) (d_args d) (d_sink d)) (\<lambda>(args, st).
          bindE (if ch = CHR ''w'' then next_ch (d\<lparr>d_args := args, d_sink := st\<rparr>)
                 else Inr (d\<lparr>d_args := args, d_sink := st\<rparr>)) (\<lambda>d.
          bindE (next_ch d) (\<lambda>d.
          Inr (d\<lparr>d_state := DP_S_DEFAULT, d_flags := 0, d_cflags := DP_C_NONE, d_min := 0, d_max := -1\<rparr>))))
      | DP_S_DONE \<Rightarrow> Inr (d\<lparr>d_state := DP_S_DONE\<rparr>))"

text \<open>Every step of the machine consumes a character of the format or moves to a later state.\<close>

fun dp_rank :: "dp_state \<Rightarrow> nat" where
  "dp_rank DP_S_DONE = 0"
| "dp_rank DP_S_DEFAULT = 1"
| "dp_rank DP_S_CONV = 2"
| "dp_rank DP_S_MOD = 3"
| "dp_rank DP_S_MAX = 4"
| "dp_rank DP_S_DOT = 5"
| "dp_rank DP_S_MIN = 6"
| "dp_rank DP_S_FLAGS = 7"

definition dopr_measure :: "'f dopr \<Rightarrow> nat" where
  "dopr_measure d = 8 * length (d_format d) + dp_rank (d_state d)"

lemma next_ch_Inr:
  assumes "next_ch d = Inr d'"
  shows "\<exists>c cs. d_format d = c # cs \<and> d' = d\<lparr>d_ch := c, d_format := cs\<rparr>"
  using assms by (auto simp: next_ch_def split: list.splits)

lemma next_ch_measure:
  assumes "next_ch d = Inr d'"
  shows "dopr_measure d' + 8 = dopr_measure d"
  using next_ch_Inr [OF assms] by (auto simp: dopr_measure_def)

lemma dopr_step_decreases:
  assumes "dopr_step fp maxlen d = Inr d'" "d_state d \<noteq> DP_S_DONE"
  shows "dopr_measure d' < dopr_measure d"
proof -
  let ?D = "d_ch d = CHR 0x00 \<or> currlen (d_sink d) \<ge> maxlen"
  show ?thesis
  proof (cases "d_state d" "?D" rule: dp_state.exhaust [case_product bool.exhaust])
  qed (use assms in \<open>auto simp: dopr_step_def dopr_measure_def Let_def dest!: next_ch_Inr split: if_splits prod.splits\<close>)
qed

function dopr_loop :: "'f ldouble \<Rightarrow> int \<Rightarrow> 'f dopr \<Rightarrow> fault + sink" where
  "dopr_loop fp maxlen d =
     (if d_state d = DP_S_DONE then Inr (d_sink d)
      else bindE (dopr_step fp maxlen d) (dopr_loop fp maxlen))"
  by pat_completeness auto
termination
  by (relation "measure (\<lambda>(fp, maxlen, d). dopr_measure d)") (auto intro: dopr_step_decreases)

declare dopr_loop.simps [simp del]

definition dopr :: "'f ldouble \<Rightarrow> int \<Rightarrow> string \<Rightarrow> 'f vararg list \<Rightarrow> sink \<Rightarrow> fault + sink" where
  "dopr fp maxlen format args st =
     bindE (next_ch \<lparr>d_state = DP_S_DEFAULT, d_ch = CHR 0x00, d_format = format, d_args = args,
                    d_min = 0, d_max = -1, d_flags = 0, d_cflags = DP_C_NONE, d_sink = st\<lparr>currlen := 0\<rparr>\<rparr>)
           (dopr_loop fp maxlen)"

definition K_vsnprintf :: "'f ldouble \<Rightarrow> int \<Rightarrow> string \<Rightarrow> 'f vararg list \<Rightarrow> sink \<Rightarrow> fault + sink" where
  "K_vsnprintf fp maxlen fmt args st = dopr fp maxlen fmt args st"

section \<open>The formatter by recursive descent\<close>

text \<open>
  The same formatter over the grammar of the directives: flags, width, precision, modifier and
  conversion. A parser gets the text from the current character on and returns the rest.
\<close>

fun parse_flags :: "u32 \<Rightarrow> string \<Rightarrow> fault + (u32 \<times> string)" where
  "parse_flags fl [] = Inl BadIndex"
| "parse_flags fl (c # cs) =
     (if c = CHR ''-'' then parse_flags (fl OR DP_F_MINUS) cs
      else if c = CHR ''+'' then parse_flags (fl OR DP_F_PLUS) cs
      else if c = CHR '' '' then parse_flags (fl OR DP_F_SPACE) cs
      else if c = CHR ''#'' then parse_flags (fl OR DP_F_NUM) cs
      else if c = CHR ''0'' then parse_flags (fl OR DP_F_ZERO) cs
      else Inr (fl, c # cs))"

fun parse_min :: "int \<Rightarrow> string \<Rightarrow> fault + (int \<times> string)" where
  "parse_min n [] = Inl BadIndex"
| "parse_min n (c # cs) =
     (if K_isdigit (of_char c) then parse_min (s32 (10 * n + char_to_int c)) cs else Inr (n, c # cs))"

fun parse_max :: "int \<Rightarrow> string \<Rightarrow> fault + (int \<times> string)" where
  "parse_max n [] = Inl BadIndex"
| "parse_max n (c # cs) =
     (if K_isdigit (of_char c) then parse_max (s32 (10 * (if n < 0 then 0 else n) + char_to_int c)) cs
      else Inr (n, c # cs))"

text \<open>A width or precision given by \<^verbatim>\<open>*\<close> is the next argument.\<close>

definition parse_star :: "'f vararg list \<Rightarrow> int \<Rightarrow> string \<Rightarrow> fault + (int \<times> 'f vararg list \<times> string)" where
  "parse_star args n cs =
     (if hd cs = CHR ''*''
      then bindE (va_int args) (\<lambda>(v, args). if tl cs = [] then Inl BadIndex else Inr (sint v, args, tl cs))
      else Inr (n, args, cs))"

definition parse_prec :: "'f vararg list \<Rightarrow> string \<Rightarrow> fault + (int \<times> 'f vararg list \<times> string)" where
  "parse_prec args cs =
     (if hd cs = CHR ''.''
      then bindE (parse_max (-1) (tl cs)) (\<lambda>(n, cs). parse_star args n cs)
      else Inr (-1, args, cs))"

definition parse_mod :: "string \<Rightarrow> fault + (dp_cflag \<times> string)" where
  "parse_mod cs =
     (let cflags = (if hd cs = CHR ''h'' then DP_C_SHORT else if hd cs = CHR ''l'' then DP_C_LONG
                    else if hd cs = CHR ''L'' then DP_C_LDOUBLE else DP_C_NONE)
      in if cflags = DP_C_NONE then Inr (cflags, cs) else if tl cs = [] then Inl BadIndex else Inr (cflags, tl cs))"

text \<open>
  A directive, from the character behind its \<^verbatim>\<open>%\<close>: nothing if the format ends inside of it,
  otherwise the text it produces and the format behind it.
\<close>

definition directive :: "'f ldouble \<Rightarrow> int \<Rightarrow> string \<Rightarrow> 'f vararg list \<Rightarrow> sink
    \<Rightarrow> fault + (string \<times> 'f vararg list \<times> sink) option" where
  "directive fp maxlen cs args st =
     bindE (parse_flags 0 cs) (\<lambda>(fl, cs).
     bindE (parse_min 0 cs) (\<lambda>(n, cs).
     bindE (parse_star args n cs) (\<lambda>(mn, args, cs).
     bindE (parse_prec args cs) (\<lambda>(mx, args, cs).
     bindE (parse_mod cs) (\<lambda>(cflags, cs).
     if hd cs = CHR 0x00 then Inr None
     else bindE (dopr_conv fp maxlen (hd cs) mn mx fl cflags args st) (\<lambda>(args, st).
       let rest = (if hd cs = CHR ''w'' \<and> tl cs \<noteq> [] then tl (tl cs) else tl cs)
       in if rest = [] then Inl BadIndex else Inr (Some (rest, args, st))))))))"

lemma parse_flags_length: "parse_flags fl cs = Inr (fl', cs') \<Longrightarrow> cs' \<noteq> [] \<and> length cs' \<le> length cs"
  by (induction fl cs rule: parse_flags.induct) (auto split: if_splits)

lemma parse_min_length: "parse_min n cs = Inr (n', cs') \<Longrightarrow> cs' \<noteq> [] \<and> length cs' \<le> length cs"
  by (induction n cs rule: parse_min.induct) (auto split: if_splits)

lemma parse_max_length: "parse_max n cs = Inr (n', cs') \<Longrightarrow> cs' \<noteq> [] \<and> length cs' \<le> length cs"
  by (induction n cs rule: parse_max.induct) (auto split: if_splits)

lemma parse_star_length: "parse_star args n cs = Inr (n', args', cs') \<Longrightarrow> cs \<noteq> [] \<Longrightarrow> cs' \<noteq> [] \<and> length cs' \<le> length cs"
  by (auto simp: parse_star_def split: if_splits prod.splits)

lemma parse_prec_length:
  assumes "parse_prec args cs = Inr (n', args', cs')" "cs \<noteq> []"
  shows "cs' \<noteq> [] \<and> length cs' \<le> length cs"
  using assms
  by (force simp: parse_prec_def split: if_splits prod.splits dest: parse_max_length parse_star_length)

lemma parse_mod_length: "parse_mod cs = Inr (f, cs') \<Longrightarrow> cs \<noteq> [] \<Longrightarrow> cs' \<noteq> [] \<and> length cs' \<le> length cs"
  by (auto simp: parse_mod_def Let_def split: if_splits)

lemma directive_length:
  assumes "directive fp maxlen cs args st = Inr (Some (rest, args', st'))"
  shows "rest \<noteq> [] \<and> length rest < length cs"
proof -
  from assms obtain fl cs1 n cs2 mn a2 cs3 mx a3 cs4 cf cs5 where
    p: "parse_flags 0 cs = Inr (fl, cs1)" "parse_min 0 cs1 = Inr (n, cs2)" "parse_star args n cs2 = Inr (mn, a2, cs3)"
      "parse_prec a2 cs3 = Inr (mx, a3, cs4)" "parse_mod cs4 = Inr (cf, cs5)"
    and r: "rest \<noteq> []" "length rest \<le> length (tl cs5)"
    unfolding directive_def by (auto simp: Let_def split: if_splits prod.splits)
  have "cs5 \<noteq> [] \<and> length cs5 \<le> length cs"
    using parse_flags_length [OF p(1)] parse_min_length [OF p(2)] parse_star_length [OF p(3)]
      parse_prec_length [OF p(4)] parse_mod_length [OF p(5)] by auto
  then show ?thesis using r by (cases cs5) auto
qed

function format_ref :: "'f ldouble \<Rightarrow> int \<Rightarrow> string \<Rightarrow> 'f vararg list \<Rightarrow> sink \<Rightarrow> fault + sink" where
  "format_ref fp maxlen [] args st = Inl BadIndex"
| "format_ref fp maxlen (c # cs) args st =
     (if c = CHR 0x00 \<or> currlen st \<ge> maxlen then Inr st
      else if c \<noteq> CHR ''%'' then format_ref fp maxlen cs args (dopr_outch c st)
      else (case directive fp maxlen cs args st of
              Inl e \<Rightarrow> Inl e
            | Inr None \<Rightarrow> Inr st
            | Inr (Some (rest, args', st')) \<Rightarrow> format_ref fp maxlen rest args' st'))"
  by pat_completeness auto
termination
  by (relation "measure (\<lambda>(fp, maxlen, cs, args, st). length cs)") (auto dest: directive_length)

declare format_ref.simps(2) [simp del]

section \<open>The state machine is the recursive descent\<close>

text \<open>The state of the machine, field by field, with the characters from the current one on.\<close>

abbreviation dp :: "dp_state \<Rightarrow> string \<Rightarrow> 'f vararg list \<Rightarrow> int \<Rightarrow> int \<Rightarrow> u32 \<Rightarrow> dp_cflag \<Rightarrow> sink \<Rightarrow> 'f dopr" where
  "dp s cs args mn mx fl cf st \<equiv>
     \<lparr>d_state = s, d_ch = hd cs, d_format = tl cs, d_args = args, d_min = mn, d_max = mx, d_flags = fl,
      d_cflags = cf, d_sink = st\<rparr>"

lemma loop_nul: "d_ch d = CHR 0x00 \<Longrightarrow> dopr_loop fp maxlen d = Inr (d_sink d)"
  by (subst dopr_loop.simps) (auto simp: dopr_step_def Let_def dopr_loop.simps)

lemma loop_full: "currlen (d_sink d) \<ge> maxlen \<Longrightarrow> dopr_loop fp maxlen d = Inr (d_sink d)"
  by (subst dopr_loop.simps) (auto simp: dopr_step_def Let_def dopr_loop.simps)

lemma loop_step: "d_state d \<noteq> DP_S_DONE \<Longrightarrow> dopr_loop fp maxlen d = bindE (dopr_step fp maxlen d) (dopr_loop fp maxlen)"
  by (subst dopr_loop.simps) simp

lemma next_ch_dp: "next_ch \<lparr>d_state = s, d_ch = c, d_format = cs, d_args = args, d_min = mn, d_max = mx, d_flags = fl,
      d_cflags = cf, d_sink = st\<rparr> = (if cs = [] then Inl BadIndex else Inr (dp s cs args mn mx fl cf st))"
  by (auto simp: next_ch_def split: list.split)

lemma loop_flags:
  assumes "currlen st < maxlen" "cs \<noteq> []"
  shows "dopr_loop fp maxlen (dp DP_S_FLAGS cs args mn mx fl cf st)
    = bindE (parse_flags fl cs) (\<lambda>(fl, cs). dopr_loop fp maxlen (dp DP_S_MIN cs args mn mx fl cf st))"
  using assms(2)
proof (induction fl cs rule: parse_flags.induct)
  case (2 fl c cs)
  show ?case
  proof (cases "c = CHR 0x00")
    case True
    then show ?thesis by (simp add: loop_nul)
  next
    case False
    then show ?thesis using 2 assms(1) by (subst loop_step) (auto simp: dopr_step_def Let_def next_ch_dp)
  qed
qed simp

lemma loop_min:
  assumes "currlen st < maxlen" "cs \<noteq> []"
  shows "dopr_loop fp maxlen (dp DP_S_MIN cs args n mx fl cf st)
    = bindE (parse_min n cs) (\<lambda>(n, cs). bindE (parse_star args n cs) (\<lambda>(mn, args, cs).
        dopr_loop fp maxlen (dp DP_S_DOT cs args mn mx fl cf st)))"
  using assms(2)
proof (induction n cs rule: parse_min.induct)
  case (2 n c cs)
  show ?case
  proof (cases "c = CHR 0x00")
    case True
    then show ?thesis by (simp add: loop_nul parse_star_def K_isdigit_def)
  next
    case False
    then show ?thesis using 2 assms(1)
      by (subst loop_step)
        (auto simp: dopr_step_def Let_def next_ch_dp parse_star_def bindE_assoc K_isdigit_def split_def
          intro!: bindE_cong [OF refl])
  qed
qed simp

lemma loop_max:
  assumes "currlen st < maxlen" "cs \<noteq> []"
  shows "dopr_loop fp maxlen (dp DP_S_MAX cs args mn n fl cf st)
    = bindE (parse_max n cs) (\<lambda>(n, cs). bindE (parse_star args n cs) (\<lambda>(mx, args, cs).
        dopr_loop fp maxlen (dp DP_S_MOD cs args mn mx fl cf st)))"
  using assms(2)
proof (induction n cs rule: parse_max.induct)
  case (2 n c cs)
  show ?case
  proof (cases "c = CHR 0x00")
    case True
    then show ?thesis by (simp add: loop_nul parse_star_def K_isdigit_def)
  next
    case False
    then show ?thesis using 2 assms(1)
      by (subst loop_step)
        (auto simp: dopr_step_def Let_def next_ch_dp parse_star_def bindE_assoc K_isdigit_def split_def
          intro!: bindE_cong [OF refl])
  qed
qed simp

lemma loop_dot:
  assumes "currlen st < maxlen" "cs \<noteq> []"
  shows "dopr_loop fp maxlen (dp DP_S_DOT cs args mn (-1) fl cf st)
    = bindE (parse_prec args cs) (\<lambda>(mx, args, cs). dopr_loop fp maxlen (dp DP_S_MOD cs args mn mx fl cf st))"
proof (cases "hd cs = CHR 0x00")
  case True
  then show ?thesis by (simp add: loop_nul parse_prec_def)
next
  case False
  show ?thesis
  proof (cases "hd cs = CHR ''.''")
    case True
    show ?thesis
    proof (cases "tl cs = []")
      case False
      then show ?thesis using True assms
        by (subst loop_step) (simp_all add: dopr_step_def next_ch_dp parse_prec_def loop_max bindE_assoc split_def)
    qed (use True assms in \<open>subst loop_step, simp_all add: dopr_step_def next_ch_dp parse_prec_def\<close>)
  next
    case no: False
    show ?thesis using no False assms
      by (subst loop_step) (simp_all add: dopr_step_def parse_prec_def)
  qed
qed

lemma loop_mod:
  assumes "currlen st < maxlen" "cs \<noteq> []"
  shows "dopr_loop fp maxlen (dp DP_S_MOD cs args mn mx fl DP_C_NONE st)
    = bindE (parse_mod cs) (\<lambda>(cf, cs). dopr_loop fp maxlen (dp DP_S_CONV cs args mn mx fl cf st))"
proof (cases "hd cs = CHR 0x00")
  case True
  then show ?thesis by (simp add: loop_nul parse_mod_def)
next
  case False
  then show ?thesis using assms
    by (subst loop_step) (simp_all add: dopr_step_def parse_mod_def next_ch_dp Let_def)
qed

lemma loop_conv:
  assumes "currlen st < maxlen" "hd cs \<noteq> CHR 0x00"
  shows "dopr_loop fp maxlen (dp DP_S_CONV cs args mn mx fl cf st)
    = bindE (dopr_conv fp maxlen (hd cs) mn mx fl cf args st) (\<lambda>(args, st).
        let rest = (if hd cs = CHR ''w'' \<and> tl cs \<noteq> [] then tl (tl cs) else tl cs)
        in if rest = [] then Inl BadIndex else dopr_loop fp maxlen (dp DP_S_DEFAULT rest args 0 (-1) 0 DP_C_NONE st))"
  using assms
  by (subst loop_step)
    (auto simp: dopr_step_def next_ch_dp Let_def bindE_assoc split_def intro!: bindE_cong [OF refl])

lemma loop_directive:
  assumes lt: "currlen st < maxlen" and cs: "cs \<noteq> []"
  shows "dopr_loop fp maxlen (dp DP_S_FLAGS cs args 0 (-1) 0 DP_C_NONE st)
    = bindE (directive fp maxlen cs args st) (\<lambda>r. case r of None \<Rightarrow> Inr st
        | Some (rest, args', st') \<Rightarrow> dopr_loop fp maxlen (dp DP_S_DEFAULT rest args' 0 (-1) 0 DP_C_NONE st'))"
proof -
  let ?k = "\<lambda>r. case r of None \<Rightarrow> Inr st
        | Some (rest, args', st') \<Rightarrow> dopr_loop fp maxlen (dp DP_S_DEFAULT rest args' 0 (-1) 0 DP_C_NONE st')"
  have conv: "dopr_loop fp maxlen (dp DP_S_CONV cs args mn mx fl cf st)
      = bindE (if hd cs = CHR 0x00 then Inr None
          else bindE (dopr_conv fp maxlen (hd cs) mn mx fl cf args st) (\<lambda>(args, st).
            let rest = (if hd cs = CHR ''w'' \<and> tl cs \<noteq> [] then tl (tl cs) else tl cs)
            in if rest = [] then Inl BadIndex else Inr (Some (rest, args, st)))) ?k" for cs args mn mx fl cf
    using lt by (auto simp: loop_nul loop_conv bindE_assoc Let_def split_def intro!: bindE_cong [OF refl])
  have mod: "cs \<noteq> [] \<Longrightarrow> dopr_loop fp maxlen (dp DP_S_MOD cs args mn mx fl DP_C_NONE st)
      = bindE (bindE (parse_mod cs) (\<lambda>(cflags, cs). if hd cs = CHR 0x00 then Inr None
          else bindE (dopr_conv fp maxlen (hd cs) mn mx fl cflags args st) (\<lambda>(args, st).
            let rest = (if hd cs = CHR ''w'' \<and> tl cs \<noteq> [] then tl (tl cs) else tl cs)
            in if rest = [] then Inl BadIndex else Inr (Some (rest, args, st))))) ?k" for cs args mn mx fl
    by (auto simp: loop_mod [OF lt] conv bindE_assoc intro!: bindE_cong [OF refl])
  show ?thesis
    unfolding directive_def
    using lt cs
    by (auto simp: loop_flags loop_min loop_dot mod bindE_assoc
        dest!: parse_flags_length parse_min_length parse_star_length parse_prec_length intro!: bindE_cong [OF refl])
qed

lemma loop_format_ref:
  assumes "cs \<noteq> []"
  shows "dopr_loop fp maxlen (dp DP_S_DEFAULT cs args 0 (-1) 0 DP_C_NONE st) = format_ref fp maxlen cs args st"
  using assms
proof (induction cs arbitrary: args st rule: length_induct)
  case (1 cs)
  obtain c cs' where cs: "cs = c # cs'" using 1(2) by (cases cs) auto
  have IH: "dopr_loop fp maxlen (dp DP_S_DEFAULT r args 0 (-1) 0 DP_C_NONE st) = format_ref fp maxlen r args st"
    if "length r \<le> length cs'" "r \<noteq> []" for r args st
    using 1(1) that by (simp add: cs)
  consider "c = CHR 0x00 \<or> currlen st \<ge> maxlen" | "c \<noteq> CHR 0x00" "currlen st < maxlen" "c \<noteq> CHR ''%''"
    | "c = CHR ''%''" "currlen st < maxlen" by fastforce
  then show ?case
  proof cases
    case 1
    then show ?thesis by (auto simp: cs loop_nul loop_full format_ref.simps)
  next
    case 2
    then show ?thesis
      by (subst loop_step) (auto simp: cs dopr_step_def next_ch_dp format_ref.simps IH Let_def)
  next
    case 3
    show ?thesis
    proof (cases "cs' = []")
      case True
      then show ?thesis using 3
        by (subst loop_step) (simp_all add: cs dopr_step_def next_ch_dp format_ref.simps directive_def)
    next
      case False
      have "dopr_loop fp maxlen (dp DP_S_DEFAULT cs args 0 (-1) 0 DP_C_NONE st)
          = dopr_loop fp maxlen (dp DP_S_FLAGS cs' args 0 (-1) 0 DP_C_NONE st)"
        using 3 False by (subst loop_step) (simp_all add: cs dopr_step_def next_ch_dp)
      also have "\<dots> = bindE (directive fp maxlen cs' args st) (\<lambda>r. case r of None \<Rightarrow> Inr st
            | Some (rest, args', st') \<Rightarrow> dopr_loop fp maxlen (dp DP_S_DEFAULT rest args' 0 (-1) 0 DP_C_NONE st'))"
        using loop_directive [OF 3(2) False] .
      also have "\<dots> = format_ref fp maxlen cs args st"
        using 3 by (auto simp: cs format_ref.simps IH dest!: directive_length split: sum.split option.split)
      finally show ?thesis .
    qed
  qed
qed

lemma vsnprintf_ref: "K_vsnprintf fp maxlen fmt args st = format_ref fp maxlen fmt args (st\<lparr>currlen := 0\<rparr>)"
  by (cases fmt) (simp_all add: K_vsnprintf_def dopr_def next_ch_dp next_ch_def
      loop_format_ref [of "c # cs" for c cs, simplified])

text \<open>
  C14. The state machine of \<^verbatim>\<open>dopr\<close>, which looks at one character at a time and returns to its loop
  after each, is the formatter by recursive descent over flags, width, precision, modifier and
  conversion: for every format, argument list and limit they write the same text, store the same
  values through \<^verbatim>\<open>%n\<close> and fault in the same cases. Both are total, so the loop ends on every format.
\<close>

theorem dopr_is_recursive_descent:
  shows "K_vsnprintf fp maxlen fmt args st = format_ref fp maxlen fmt args (st\<lparr>currlen := 0\<rparr>)"
  by (rule vsnprintf_ref)

section \<open>The text of a conversion\<close>

definition emit :: "string \<Rightarrow> sink \<Rightarrow> sink" where "emit xs st = fold dopr_outch xs st"

lemma emit_simps [simp]: "emit [] st = st" "emit (c # cs) st = emit cs (dopr_outch c st)"
    "emit (xs @ ys) st = emit ys (emit xs st)"
  by (simp_all add: emit_def)

lemma out_emit [simp]: "out (emit xs st) = out st @ xs"
  by (induction xs arbitrary: st) (simp_all add: dopr_outch_def)

lemma stores_emit [simp]: "stores (emit xs st) = stores st"
  by (induction xs arbitrary: st) (simp_all add: dopr_outch_def)

lemma outch_while_emit: "outch_while c n st = emit (replicate (nat n) c) st"
proof (induction c n st rule: outch_while.induct)
  case (1 c n st)
  show ?case
  proof (cases "0 < n")
    case True
    then have "nat n = Suc (nat (n - 1))" by simp
    then show ?thesis using 1 True by (subst outch_while.simps) simp
  qed (subst outch_while.simps, simp)
qed

lemma outch_until_emit: "outch_until c n st = emit (replicate (nat (- n)) c) st"
proof (induction c n st rule: outch_until.induct)
  case (1 c n st)
  show ?case
  proof (cases "n < 0")
    case True
    then have "nat (- n) = Suc (nat (- (n + 1)))" by simp
    then show ?thesis using 1 True by (subst outch_until.simps) simp
  qed (subst outch_until.simps, simp)
qed

lemma digits_out_emit: "p \<le> length convert \<Longrightarrow> digits_out convert p st = emit (rev (take p convert)) st"
  by (induction convert p st rule: digits_out.induct) (simp_all add: take_Suc_conv_app_nth)

text \<open>The digits of a number, most significant first.\<close>

fun digits :: "nat \<Rightarrow> nat \<Rightarrow> nat list" where
  "digits b n = (if n < b \<or> b < 2 then [n] else digits b (n div b) @ [n mod b])"

declare digits.simps [simp del]

definition horner :: "nat \<Rightarrow> nat list \<Rightarrow> nat" where "horner b ds = foldl (\<lambda>n d. n * b + d) 0 ds"

lemma horner_snoc [simp]: "horner b (ds @ [d]) = horner b ds * b + d"
  by (simp add: horner_def)

lemma horner_digits: "horner b (digits b n) = n"
proof (induction b n rule: digits.induct)
  case (1 b n)
  then show ?case by (subst digits.simps) (auto simp: horner_def)
qed

lemma digits_less: "2 \<le> b \<Longrightarrow> d \<in> set (digits b n) \<Longrightarrow> d < b"
proof (induction b n rule: digits.induct)
  case (1 b n)
  then show ?case by (subst (asm) (2) digits.simps) (auto split: if_splits)
qed

lemma digits_not_Nil [simp]: "digits b n \<noteq> []"
  by (subst digits.simps) simp

lemma hd_digits: "n \<noteq> 0 \<Longrightarrow> hd (digits b n) \<noteq> 0"
proof (induction b n rule: digits.induct)
  case (1 b n)
  then show ?case by (subst digits.simps) (auto simp: div_eq_0_iff)
qed

lemma length_digits: "n < b ^ k \<Longrightarrow> 0 < k \<Longrightarrow> length (digits b n) \<le> k"
proof (induction k arbitrary: n)
  case (Suc k)
  show ?case
  proof (cases "n < b \<or> b < 2")
    case False
    then have "n div b < b ^ k" "0 < k"
      using Suc.prems by (simp_all add: less_mult_imp_div_less mult.commute) (cases k, auto)
    then show ?thesis using Suc.IH [of "n div b"] False by (subst digits.simps) simp
  qed (subst digits.simps, simp)
qed simp

lemma convert_loop_digits:
  assumes "2 \<le> b" "u < b ^ (20 - length acc)" "length acc < 20"
  shows "convert_loop caps b u acc = acc @ rev (map (digit_char caps) (digits b u))"
  using assms
proof (induction caps b u acc rule: convert_loop.induct)
  case (1 caps b u acc)
  show ?case
  proof (cases "u < b")
    case True
    then show ?thesis by (subst convert_loop.simps, subst digits.simps) (simp add: Let_def)
  next
    case False
    then have nz: "u div b \<noteq> 0" using 1(2) by (simp add: div_eq_0_iff)
    have s: "20 - length acc = Suc (20 - length (acc @ [digit_char caps (u mod b)]))" using 1(4) by simp
    have lt: "u div b < b ^ (20 - length (acc @ [digit_char caps (u mod b)]))"
      using 1(3) unfolding s by (simp add: less_mult_imp_div_less mult.commute)
    have "length (acc @ [digit_char caps (u mod b)]) < 20"
      using lt nz by (cases "length acc = 19") (use 1(4) in auto)
    then show ?thesis using 1(1) [OF refl refl] 1(2) nz lt False
      by (subst convert_loop.simps, subst digits.simps) (simp add: Let_def)
  qed
qed

text \<open>
  The text of an integer conversion, and the number a string of digits stands for. The width and the
  precision are below \<open>2 ^ 30\<close>, so no sum of them wraps around.
\<close>

definition digit_value :: "char \<Rightarrow> nat" where
  "digit_value c = (let n = of_char c in if n < 58 then n - 48 else if n < 97 then n - 55 else n - 87)"

definition numeral_value :: "nat \<Rightarrow> string \<Rightarrow> nat" where
  "numeral_value b s = horner b (map digit_value s)"

definition int_sign :: "u32 \<Rightarrow> u32 \<Rightarrow> string" where
  "int_sign value flags =
     (if flags AND DP_F_UNSIGNED \<noteq> 0 then []
      else if sint value < 0 then ''-''
      else if flags AND DP_F_PLUS \<noteq> 0 then ''+''
      else if flags AND DP_F_SPACE \<noteq> 0 then '' '' else [])"

definition int_magnitude :: "u32 \<Rightarrow> u32 \<Rightarrow> nat" where
  "int_magnitude value flags = (if flags AND DP_F_UNSIGNED = 0 then nat \<bar>sint value\<bar> else unat value)"

definition int_digits :: "nat \<Rightarrow> u32 \<Rightarrow> u32 \<Rightarrow> string" where
  "int_digits base value flags = map (digit_char (flags AND DP_F_UP \<noteq> 0)) (digits base (int_magnitude value flags))"

definition int_zeros :: "int \<Rightarrow> int \<Rightarrow> u32 \<Rightarrow> string \<Rightarrow> string \<Rightarrow> nat" where
  "int_zeros mn mx flags sg ds =
     (let z = nat (mx - int (length ds)); s = nat (mn - max (max 0 mx) (int (length ds)) - int (length sg))
      in if flags AND DP_F_ZERO \<noteq> 0 then max z s else z)"

definition int_spaces :: "int \<Rightarrow> int \<Rightarrow> u32 \<Rightarrow> string \<Rightarrow> string \<Rightarrow> nat" where
  "int_spaces mn mx flags sg ds =
     (if flags AND DP_F_ZERO \<noteq> 0 then 0
      else nat (mn - max (max 0 mx) (int (length ds)) - int (length sg)))"

lemma sint_u32: "sint (v :: u32) = (if uint v < 2147483648 then uint v else uint v - 4294967296)"
proof -
  have "sint v = take_bit 32 (uint v + 2147483648) - 2147483648"
    by (simp add: sint_uint signed_take_bit_eq_take_bit_shift)
  also have "take_bit 32 (uint v + 2147483648) = (if uint v < 2147483648 then uint v + 2147483648 else uint v - 2147483648)"
  proof (cases "uint v < 2147483648")
    case False
    have "uint v + 2147483648 = (uint v - 2147483648) + 4294967296" by simp
    then have "(uint v + 2147483648) mod 4294967296 = (uint v - 2147483648) mod 4294967296" by (metis mod_add_self2)
    then show ?thesis using False uint_lt2p [of v] by (simp add: take_bit_eq_mod)
  qed (simp add: take_bit_eq_mod)
  finally show ?thesis by simp
qed

lemma abs_sint: "nat \<bar>sint (v :: u32)\<bar> = (if sint v < 0 then unat (- v) else unat v)"
proof (cases "uint v < 2147483648")
  case True
  then show ?thesis by (simp add: sint_u32)
next
  case False
  have "uint (- v) = (- uint v) mod 2 ^ 32" by (simp add: uint_word_ariths)
  also have "\<dots> = 4294967296 - uint v" using False uint_lt2p [of v] by (simp add: zmod_zminus1_eq_if)
  finally have "unat (- v) = nat (4294967296 - uint v)" by (metis nat_uint_eq)
  then show ?thesis using False uint_lt2p [of v] by (simp add: sint_u32)
qed

lemma int_magnitude_less: "int_magnitude value flags < 8 ^ 11"
proof -
  have "unat (w :: u32) < 8 ^ 11" for w using unat_lt_u32 [of w] by simp
  then show ?thesis by (simp add: int_magnitude_def abs_sint)
qed

lemma length_int_digits:
  assumes "8 \<le> base"
  shows "length (int_digits base value flags) \<le> 11" "int_digits base value flags \<noteq> []"
proof -
  have "int_magnitude value flags < base ^ 11"
    by (rule less_le_trans [OF int_magnitude_less power_mono [OF assms]]) simp
  then show "length (int_digits base value flags) \<le> 11" unfolding int_digits_def by (simp add: length_digits)
qed (simp add: int_digits_def)

lemma digit_value_char:
  assumes "d < 16"
  shows "digit_value (digit_char caps d) = d"
proof -
  have "\<forall>caps \<in> {True, False}. \<forall>d \<in> set [0..<16]. digit_value (digit_char caps d) = d" by code_simp
  then show ?thesis using assms by (cases caps) simp_all
qed

lemma numeral_int_digits:
  assumes "base \<in> {8, 10, 16}"
  shows "numeral_value base (int_digits base value flags) = int_magnitude value flags"
proof -
  have "digit_value (digit_char caps d) = d" if "d \<in> set (digits base n)" for caps d n
    using digits_less [OF _ that] assms by (intro digit_value_char) auto
  then show ?thesis by (simp add: numeral_value_def int_digits_def horner_digits map_idI)
qed

lemma fmtint_emit:
  assumes "8 \<le> base" "- (2 ^ 30) \<le> mn" "mn < 2 ^ 30" "mx < 2 ^ 30"
  shows "fmtint value base mn mx flags st =
    (let sg = int_sign value flags; ds = int_digits base value flags; sp = int_spaces mn mx flags sg ds
     in emit ((if flags AND DP_F_MINUS = 0 then replicate sp CHR '' '' else []) @ sg
          @ replicate (int_zeros mn mx flags sg ds) CHR ''0'' @ ds
          @ (if flags AND DP_F_MINUS = 0 then [] else replicate sp CHR '' '')) st)"
proof -
  let ?ds = "int_digits base value flags" and ?sg = "int_sign value flags"
  let ?u = "if flags AND DP_F_UNSIGNED = 0 \<and> sint value < 0 then - value else value"
  have u: "unat ?u = int_magnitude value flags" by (simp add: int_magnitude_def abs_sint)
  have "int_magnitude value flags < base ^ 20"
    by (rule less_le_trans [OF int_magnitude_less order_trans [OF power_mono power_increasing]]) (use assms(1) in auto)
  then have conv: "convert_loop (flags AND DP_F_UP \<noteq> 0) base (unat ?u) [] = rev ?ds"
    using assms(1) by (simp add: u convert_loop_digits int_digits_def)
  have len: "length ?ds \<le> 11" using length_int_digits [OF assms(1)] by simp
  have l: "length ?sg \<le> 1" by (simp add: int_sign_def)
  let ?mx = "if mx < 0 then 0 else mx"
  let ?s = "if \<not> flags AND DP_F_UNSIGNED = 0 then CHR 0x00 else if sint value < 0 then CHR ''-''
      else if flags AND DP_F_PLUS \<noteq> 0 then CHR ''+'' else if flags AND DP_F_SPACE \<noteq> 0 then CHR '' '' else CHR 0x00"
  have sg: "?sg = (if ?s \<noteq> CHR 0x00 then [?s] else [])" by (simp add: int_sign_def)
  have ne: "length ?ds \<noteq> 20" using len by simp
  have z: "s32 (?mx - int (length ?ds)) = ?mx - int (length ?ds)" using len assms by (intro s32_id) auto
  have s: "s32 (mn - MAX_pq ?mx (int (length ?ds)) - (if ?s \<noteq> CHR 0x00 then 1 else 0))
      = mn - max (max 0 mx) (int (length ?ds)) - int (length ?sg)"
    unfolding sg MAX_pq_def using len assms by (subst s32_id) auto
  have sgn: "(if ?s \<noteq> CHR 0x00 then dopr_outch ?s x else x) = emit ?sg x" for x
    unfolding sg by simp
  have clip: "nat (if x < 0 then 0 else x) = nat x" "nat (- (if x < 0 then 0 else x)) = 0"
    "nat (MAX_pq (if x < 0 then 0 else x) (if y < 0 then 0 else y)) = max (nat x) (nat y)" for x y
    by (auto simp: MAX_pq_def)
  have mx0: "nat (?mx - int (length ?ds)) = nat (mx - int (length ?ds))" by simp
  have digits: "digits_out (rev ?ds) (length ?ds) x = emit ?ds x" for x by (simp add: digits_out_emit)
  note E = emit_simps(3) [symmetric] outch_while_emit outch_until_emit digits sgn clip mx0 int_zeros_def int_spaces_def Let_def
  show ?thesis
    unfolding fmtint_def Let_def conv length_rev if_not_P [OF ne] z s sgn
    by (cases "flags AND DP_F_ZERO = 0"; cases "flags AND DP_F_MINUS = 0")
      (simp_all only: E if_True if_False not_True_eq_False not_False_eq_True prod.case simp_thms minus_minus
        minus_zero append_Nil append_Nil2 append_assoc less_irrefl nat_0 replicate_0)
qed

text \<open>
  C15. An integer conversion prints the number. In base 8, 10 or 16 the text is blanks, sign, zeros,
  digits, blanks; the digits are at most 11, so the array \<^verbatim>\<open>convert\<close> of 20 never overflows, they read
  back as the magnitude of the argument (of \<open>- 2 ^ 31\<close> too), and only the number 0 starts with a
  zero. The sign is that of the value, padding is on the side the flags ask for, at least the
  precision of digits is printed, and the width is the larger of the one asked for and the one
  needed, except that zero padding with a precision that is not reached takes the larger of two
  paddings instead of their sum and can print less than the width (\<^verbatim>\<open>%010.5d\<close> of 1 is \<^verbatim>\<open>000001\<close>).
\<close>

theorem fmtint_prints_number:
  assumes "base \<in> {8, 10, 16}" "- (2 ^ 30) \<le> mn" "mn < 2 ^ 30" "mx < 2 ^ 30"
  shows "\<exists>l z r ds. out (fmtint value base mn mx flags st)
        = out st @ replicate l CHR '' '' @ int_sign value flags @ replicate z CHR ''0'' @ ds @ replicate r CHR '' ''
      \<and> numeral_value base ds = int_magnitude value flags
      \<and> (hd ds = CHR ''0'' \<longrightarrow> int_magnitude value flags = 0) \<and> ds \<noteq> [] \<and> length ds \<le> 11
      \<and> (if flags AND DP_F_MINUS = 0 then r = 0 else l = 0)
      \<and> mx \<le> int (z + length ds)
      \<and> int (l + length (int_sign value flags) + z + length ds + r) =
          (if flags AND DP_F_ZERO \<noteq> 0 \<and> int (length ds) < mx
           then max (int (length (int_sign value flags)) + mx) (mn - mx + int (length ds))
           else max mn (int (length (int_sign value flags)) + max mx (int (length ds))))"
proof -
  let ?ds = "int_digits base value flags" and ?sg = "int_sign value flags"
  let ?sp = "int_spaces mn mx flags ?sg ?ds" and ?z = "int_zeros mn mx flags ?sg ?ds"
  let ?l = "if flags AND DP_F_MINUS = 0 then ?sp else 0" and ?r = "if flags AND DP_F_MINUS = 0 then 0 else ?sp"
  have b: "8 \<le> base" using assms(1) by auto
  have e: "out (fmtint value base mn mx flags st)
      = out st @ replicate ?l CHR '' '' @ ?sg @ replicate ?z CHR ''0'' @ ?ds @ replicate ?r CHR '' ''"
    by (simp add: fmtint_emit [OF b assms(2,3,4)] Let_def)
  have h: "int_magnitude value flags = 0" if "hd ?ds = CHR ''0''"
  proof (rule ccontr)
    assume n: "int_magnitude value flags \<noteq> 0"
    have hd: "hd ?ds = digit_char (flags AND DP_F_UP \<noteq> 0) (hd (digits base (int_magnitude value flags)))"
      by (simp add: int_digits_def hd_map)
    have "hd (digits base (int_magnitude value flags)) < 16"
      using digits_less [OF _ hd_in_set [OF digits_not_Nil], of base "int_magnitude value flags"] assms(1) by auto
    from digit_value_char [OF this, of "flags AND DP_F_UP \<noteq> 0"] hd_digits [OF n, of base]
    have "digit_value (hd ?ds) \<noteq> 0" unfolding hd by simp
    then show False using that by (simp add: digit_value_def)
  qed
  have w: "int (?l + length ?sg + ?z + length ?ds + ?r) =
      (if flags AND DP_F_ZERO \<noteq> 0 \<and> int (length ?ds) < mx
       then max (int (length ?sg) + mx) (mn - mx + int (length ?ds))
       else max mn (int (length ?sg) + max mx (int (length ?ds))))"
    by (simp add: int_spaces_def int_zeros_def Let_def max_def) arith
  have p: "mx \<le> int (?z + length ?ds)" by (simp add: int_zeros_def Let_def) arith
  show ?thesis
    by (intro exI conjI; (rule e)?) (use numeral_int_digits [OF assms(1)] length_int_digits [OF b] h w p in auto)
qed

theorem fmtint_prints_number_witness:
  "\<exists>l z r ds. out (fmtint (- 2147483648) 10 14 (-1) DP_F_ZERO \<lparr>out = [], currlen = 0, stores = []\<rparr>)
        = replicate l CHR '' '' @ ''-'' @ replicate z CHR ''0'' @ ds @ replicate r CHR '' ''
      \<and> numeral_value 10 ds = 2147483648 \<and> int (l + 1 + z + length ds + r) = 14"
proof -
  have v: "int_sign (- 2147483648) DP_F_ZERO = ''-''" "int_magnitude (- 2147483648) DP_F_ZERO = 2147483648"
    by (simp_all add: int_sign_def int_magnitude_def dp_flags sint_u32)
  from fmtint_prints_number [of 10 14 "-1" "- 2147483648" DP_F_ZERO "\<lparr>out = [], currlen = 0, stores = []\<rparr>"]
  obtain l z r ds where
    a: "out (fmtint (- 2147483648) 10 14 (-1) DP_F_ZERO \<lparr>out = [], currlen = 0, stores = []\<rparr>)
        = replicate l CHR '' '' @ ''-'' @ replicate z CHR ''0'' @ ds @ replicate r CHR '' ''"
      "numeral_value 10 ds = 2147483648" "length ds \<le> 11"
      "int (l + 1 + z + length ds + r) = max 14 (1 + max (-1) (int (length ds)))"
    unfolding v by (auto simp: DP_F_ZERO_def)
  have "int (l + 1 + z + length ds + r) = 14" unfolding a(4) using a(3) by simp
  with a(1,2) show ?thesis by blast
qed

text \<open>String conversions: the text of an argument is what stands before its NUL.\<close>

definition str_text :: "string option \<Rightarrow> string" where
  "str_text value = takeWhile (\<lambda>c. c \<noteq> CHR 0x00) (case value of None \<Rightarrow> ''<NULL>'' | Some v \<Rightarrow> v)"

lemma strlen_loop_length:
  "length (takeWhile (\<lambda>c. c \<noteq> CHR 0x00) v) < 2147483648
    \<Longrightarrow> strlen_loop v = int (length (takeWhile (\<lambda>c. c \<noteq> CHR 0x00) v))"
  by (induction v) (auto simp: s32_id)

lemma pad_left_emit:
  "pad_left p c mx st = (let k = min (nat p) (nat (mx - c)) in (p - int k, c + int k, emit (replicate k CHR '' '') st))"
proof (induction p c mx st rule: pad_left.induct)
  case (1 p c mx st)
  show ?case
  proof (cases "0 < p \<and> c < mx")
    case True
    then have k: "min (nat p) (nat (mx - c)) = Suc (min (nat (p - 1)) (nat (mx - (c + 1))))" by auto
    show ?thesis using 1 True unfolding k by (subst pad_left.simps) (simp add: Let_def)
  next
    case False
    then have k: "min (nat p) (nat (mx - c)) = 0" by auto
    show ?thesis using False unfolding k by (subst pad_left.simps) auto
  qed
qed

lemma pad_right_emit:
  "pad_right p c mx st = emit (replicate (min (nat (- p)) (nat (mx - c))) CHR '' '') st"
proof (induction p c mx st rule: pad_right.induct)
  case (1 p c mx st)
  show ?case
  proof (cases "p < 0 \<and> c < mx")
    case True
    then have k: "min (nat (- p)) (nat (mx - c)) = Suc (min (nat (- (p + 1))) (nat (mx - (c + 1))))" by auto
    show ?thesis using 1 True unfolding k by (subst pad_right.simps) simp
  next
    case False
    then have k: "min (nat (- p)) (nat (mx - c)) = 0" by auto
    show ?thesis using False unfolding k by (subst pad_right.simps) auto
  qed
qed

lemma copy_value_emit:
  "copy_value v c mx st = (let t = takeWhile (\<lambda>c. c \<noteq> CHR 0x00) v; k = min (length t) (nat (mx - c))
     in (c + int k, emit (take k t) st))"
proof (induction v c mx st rule: copy_value.induct)
  case (2 x xs c mx st)
  show ?case
  proof (cases "x \<noteq> CHR 0x00 \<and> c < mx")
    case True
    then have "nat (mx - c) = Suc (nat (mx - (c + 1)))" by auto
    then show ?thesis using 2 True by (simp add: Let_def)
  next
    case False
    then show ?thesis by (auto simp: Let_def)
  qed
qed simp

lemma clip_room: "nat (mx - int (min w (nat mx))) = nat mx - w"
  by (cases "int w \<le> mx") auto

text \<open>
  A string conversion prints the string padded with blanks to the width, on the left or with the
  flag \<^verbatim>\<open>-\<close> on the right, and of that at most as many characters as the precision says. So the
  padding counts towards the precision: \<^verbatim>\<open>%10.3s\<close> prints three blanks and nothing of its string. The
  null pointer prints as \<^verbatim>\<open><NULL>\<close>.
\<close>

theorem fmtstr_prints_prefix:
  assumes "length (str_text value) < 2 ^ 30" "- (2 ^ 30) \<le> mn" "mn < 2 ^ 30"
  shows "out (fmtstr value flags mn mx st) = out st @ take (nat mx)
    (let pad = replicate (nat (mn - int (length (str_text value)))) CHR '' ''
     in if flags AND DP_F_MINUS = 0 then pad @ str_text value else str_text value @ pad)"
proof -
  let ?v = "case value of None \<Rightarrow> ''<NULL>'' | Some v \<Rightarrow> v"
  let ?t = "str_text value" let ?n = "length ?t"
  define w where "w = nat (mn - int ?n)"
  have t: "takeWhile (\<lambda>c. c \<noteq> CHR 0x00) ?v = ?t" by (simp add: str_text_def)
  have l: "strlen_loop ?v = int ?n" using strlen_loop_length [of ?v] assms(1) unfolding t by simp
  have p: "s32 (mn - int ?n) = mn - int ?n" using assms by (intro s32_id) auto
  have w: "(if mn - int ?n < 0 then 0 else mn - int ?n) = int w" by (simp add: w_def)
  show ?thesis
  proof (cases "flags AND DP_F_MINUS = 0")
    case True
    define k j where "k = min w (nat mx)" and "j = min ?n (nat (mx - int k))"
    have A: "pad_left (int w) 0 mx st = (int w - int k, int k, emit (replicate k CHR '' '') st)"
      by (simp add: pad_left_emit Let_def k_def)
    have B: "copy_value ?v (int k) mx s = (int k + int j, emit (take j ?t) s)" for s
      by (simp only: copy_value_emit Let_def t j_def)
    have none: "k \<le> w \<Longrightarrow> pad_right (int w - int k) c mx s = s" for w c s by (simp add: pad_right_emit)
    have C: "pad_right (int w - int k) c mx s = s" for c s by (rule none) (simp add: k_def)
    have "fmtstr value flags mn mx st = emit (replicate k CHR '' '' @ take j ?t) st"
      unfolding fmtstr_def Let_def l p w using True by (simp add: A B C)
    then have "out (fmtstr value flags mn mx st)
        = out st @ replicate (min w (nat mx)) CHR '' '' @ take (min ?n (nat mx - w)) ?t"
      by (simp only: out_emit clip_room k_def j_def)
    moreover have "take (min ?n (nat mx - w)) ?t = take (nat mx - w) ?t" by (simp add: min_def)
    moreover have "min w (nat mx) = min (nat mx) w" by (rule min.commute)
    ultimately show ?thesis using True by (simp only: w_def [symmetric] Let_def simp_thms if_True take_append take_replicate length_replicate)
  next
    case False
    define k j where "k = min ?n (nat mx)" and "j = min w (nat (mx - int k))"
    have A: "pad_left (- int w) 0 mx st = (- int w, 0, st)"
      by (simp add: pad_left_emit Let_def)
    have B: "copy_value ?v 0 mx s = (int k, emit (take k ?t) s)" for s
      by (simp only: copy_value_emit Let_def t k_def) simp
    have C: "pad_right (- int w) (int k) mx s = emit (replicate j CHR '' '') s" for s
      by (simp only: pad_right_emit j_def minus_minus nat_int)
    have "fmtstr value flags mn mx st = emit (take k ?t @ replicate j CHR '' '') st"
      unfolding fmtstr_def Let_def l p w using False by (simp add: A B C)
    then have "out (fmtstr value flags mn mx st)
        = out st @ take (min ?n (nat mx)) ?t @ replicate (min w (nat mx - ?n)) CHR '' ''"
      by (simp only: out_emit clip_room k_def j_def)
    moreover have "take (min ?n (nat mx)) ?t = take (nat mx) ?t" by (simp add: min_def)
    moreover have "min w (nat mx - ?n) = min (nat mx - ?n) w" by (rule min.commute)
    ultimately show ?thesis using False by (simp only: w_def [symmetric] Let_def if_False take_append take_replicate)
  qed
qed

theorem fmtstr_prints_prefix_witness:
  "out (fmtstr (Some ''panic'') 0 10 3 \<lparr>out = ''x'', currlen = 1, stores = []\<rparr>) = ''x   ''"
  using fmtstr_prints_prefix [of "Some ''panic''" 10 0 3 "\<lparr>out = ''x'', currlen = 1, stores = []\<rparr>"]
  by (simp add: str_text_def numeral_3_eq_3)

text \<open>Floating point: the digits of the integer part and of the fraction.\<close>

lemma fp_convert_digits:
  assumes "0 \<le> v" "v < 10 ^ (20 - length acc)" "length acc < 20"
  shows "fp_convert v acc = Inr (acc @ rev (map (digit_char False) (digits 10 (nat v))))"
  using assms
proof (induction v acc rule: fp_convert.induct)
  case (1 v acc)
  have m: "v smod 10 = v mod 10" "v sdiv 10 = v div 10" using 1(2) by (simp_all add: signed_modulo_int_def signed_divide_int_def sgn_if)
  show ?case
  proof (cases "v < 10")
    case True
    then show ?thesis using 1(2) m by (subst fp_convert.simps, subst digits.simps) (simp add: Let_def)
  next
    case False
    then have nz: "v div 10 \<noteq> 0" by auto
    let ?acc = "acc @ [digit_char False (nat (v smod 10))]"
    have "(10 :: int) ^ (20 - length acc) = 10 * 10 ^ (20 - length ?acc)" using 1(4) by (simp add: power_Suc [symmetric] Suc_diff_Suc del: power_Suc)
    then have lt: "v div 10 < 10 ^ (20 - length ?acc)" using 1(3) by auto
    have "length ?acc < 20" using lt nz 1(2,4) by (cases "length acc = 19") auto
    moreover have "\<not> nat v < 10" "\<not> v mod 10 < 0" "0 \<le> v div 10" "nat (v mod 10) = nat v mod 10" "nat (v div 10) = nat v div 10"
      using False 1(2) by (simp_all add: nat_mod_distrib nat_div_distrib)
    moreover have IH: "fp_convert (v div 10) ?acc = Inr (?acc @ rev (map (digit_char False) (digits 10 (nat (v div 10)))))"
      using 1(1) [OF _ refl refl] nz lt calculation unfolding m by simp
    moreover have "fp_convert v acc = fp_convert (v div 10) ?acc"
      using nz calculation(1,3) m by (subst fp_convert.simps) (simp add: Let_def)
    moreover have "digits 10 (nat v) = digits 10 (nat v div 10) @ [nat v mod 10]"
      using calculation(2) by (subst digits.simps) simp
    ultimately show ?thesis unfolding m by simp
  qed
qed

lemma length_digits_10: "n < 2147483648 \<Longrightarrow> length (digits 10 n) \<le> 10"
  by (rule length_digits) simp_all

lemma horner_zeros: "horner 10 (ds @ replicate z 0) = horner 10 ds * 10 ^ z"
proof -
  have "foldl (\<lambda>n d. n * 10 + d) n (replicate z 0) = n * 10 ^ z" for n :: nat
    by (induction z arbitrary: n) simp_all
  then show ?thesis by (simp add: horner_def)
qed

lemma numeral_decimals:
  "numeral_value 10 (map (digit_char False) (digits 10 n) @ replicate z CHR ''0'') = n * 10 ^ z"
proof -
  have "digit_value (digit_char False d) = d" if "d \<in> set (digits 10 n)" for d
    using digits_less [OF _ that] by (intro digit_value_char) auto
  then have "map digit_value (map (digit_char False) (digits 10 n)) = digits 10 n" by (simp add: map_idI)
  then show ?thesis by (simp add: numeral_value_def horner_zeros horner_digits digit_value_def)
qed

lemma if_Pair3: "(case (if b then (x, y, z) else (x', y', z')) of (u, v, w) \<Rightarrow> g u v w) = (if b then g x y z else g x' y' z')"
  by simp

lemma fmtfp_emit:
  assumes sp: "fp_split fp (abs_val fp fvalue) (nat p) = (i, f)"
    and p: "p = (if mx < 0 then 6 else if mx > 9 then 9 else mx)" "0 < p"
    and i: "0 \<le> i" "i < 2147483648" and f: "0 \<le> f" "f < 2147483648"
  shows "\<exists>pre r. fmtfp fp fvalue mn mx flags st = Inr (emit (pre @ map (digit_char False) (digits 10 (nat i)) @ CHR ''.''
        # map (digit_char False) (digits 10 (nat f)) @ replicate (nat p - length (digits 10 (nat f))) CHR ''0''
        @ replicate r CHR '' '') st)
      \<and> set pre \<subseteq> {CHR '' '', CHR ''0'', CHR ''-'', CHR ''+''} \<and> (CHR ''-'' \<in> set pre \<longleftrightarrow> ld_less0 fp fvalue)"
proof -
  let ?ids = "map (digit_char False) (digits 10 (nat i))" and ?fds = "map (digit_char False) (digits 10 (nat f))"
  have c: "fp_convert i [] = Inr (rev ?ids)" "fp_convert f [] = Inr (rev ?fds)"
    using i f by (simp_all add: fp_convert_digits)
  have len: "length (digits 10 (nat i)) \<le> 10" "length (digits 10 (nat f)) \<le> 10"
    using i f by (simp_all add: length_digits_10)
  have n20: "length ?ids \<noteq> 20" "length ?fds \<noteq> 20" using len by simp_all
  have px: "(if (if mx < 0 then 6 else mx) > 9 then 9 else (if mx < 0 then 6 else mx)) = p" using p(1) by simp
  have z: "nat (if p - int n < 0 then 0 else p - int n) = nat p - n" for n
    by (cases "p < int n") (auto simp: nat_diff_distrib)
  have z2: "nat (p - int n) = nat p - n" for n
    by (cases "p < int n") (auto simp: nat_diff_distrib)
  define sg where "sg = (if ld_less0 fp fvalue then CHR ''-''
      else if flags AND DP_F_PLUS \<noteq> 0 then CHR ''+''
      else if flags AND DP_F_SPACE \<noteq> 0 then CHR '' '' else CHR 0x00)"
  have sg: "sg \<in> {CHR ''-'', CHR ''+'', CHR '' '', CHR 0x00}" "sg = CHR ''-'' \<longleftrightarrow> ld_less0 fp fvalue"
    by (auto simp: sg_def)
  define q where "q = (let padlen = s32 (mn - int (length ?ids) - p - 1 - (if sg \<noteq> CHR 0x00 then 1 else 0));
      padlen = (if padlen < 0 then 0 else padlen) in if flags AND DP_F_MINUS \<noteq> 0 then - padlen else padlen)"
  let ?sgn = "if sg \<noteq> CHR 0x00 then [sg] else []"
  define b where "b \<longleftrightarrow> flags AND DP_F_ZERO \<noteq> 0 \<and> 0 < q"
  define pre where "pre = (if b
      then ?sgn @ replicate (nat (if sg \<noteq> CHR 0x00 then q - 1 else q)) CHR ''0''
      else replicate (nat q) CHR '' '' @ ?sgn)"
  define r where "r = (if b then 0 else nat (- q))"
  have "fmtfp fp fvalue mn mx flags st = Inr (emit (pre @ ?ids @ CHR ''.'' # ?fds
      @ replicate (nat p - length (digits 10 (nat f))) CHR ''0'' @ replicate r CHR '' '') st)"
    unfolding fmtfp_def Let_def px sp prod.case c bindE.simps length_rev if_not_P [OF n20(1)] if_not_P [OF n20(2)]
      sg_def [symmetric] q_def [unfolded Let_def, symmetric] b_def [symmetric]
    using p(2)
    by (cases b; cases "sg = CHR 0x00")
      (simp_all add: outch_while_emit outch_until_emit digits_out_emit z z2 pre_def r_def)
  moreover have "set pre \<subseteq> {CHR '' '', CHR ''0'', CHR ''-'', CHR ''+''} \<and> (CHR ''-'' \<in> set pre \<longleftrightarrow> ld_less0 fp fvalue)"
    unfolding sg(2) [symmetric] using sg(1) by (auto simp: pre_def set_replicate_conv_if split: if_splits)
  ultimately show ?thesis by blast
qed

text \<open>
  A floating point conversion with digits behind the point prints the integer part and the
  rounded fraction, whatever the arithmetic of \<^verbatim>\<open>long double\<close> is, but fills the fraction up with zeros
  behind its digits instead of in front of them: the decimals that are printed are \<open>f\<close> times a power
  of ten, so they show the fraction \<open>f / 10 ^ p\<close> only if it is 0 or has no leading zero (with two
  decimals 1.05 is printed as \<^verbatim>\<open>1.50\<close>). The minus sign stands exactly before negative numbers.
\<close>

theorem fmtfp_pads_fraction_on_the_right:
  assumes "fp_split fp (abs_val fp fvalue) (nat p) = (i, f)"
    "p = (if mx < 0 then 6 else if mx > 9 then 9 else mx)" "0 < p"
    "0 \<le> i" "i < 2147483648" "0 \<le> f" "f < 2147483648"
  shows "\<exists>st' pre ids decs r. fmtfp fp fvalue mn mx flags st = Inr st'
      \<and> out st' = out st @ pre @ ids @ CHR ''.'' # decs @ replicate r CHR '' ''
      \<and> numeral_value 10 ids = nat i
      \<and> numeral_value 10 decs = nat f * 10 ^ (nat p - length (digits 10 (nat f)))
      \<and> (numeral_value 10 decs = nat f \<longleftrightarrow> f = 0 \<or> nat p \<le> length (digits 10 (nat f)))
      \<and> length decs = max (nat p) (length (digits 10 (nat f)))
      \<and> set pre \<subseteq> {CHR '' '', CHR ''0'', CHR ''-'', CHR ''+''} \<and> (CHR ''-'' \<in> set pre \<longleftrightarrow> ld_less0 fp fvalue)"
proof -
  let ?z = "nat p - length (digits 10 (nat f))"
  let ?decs = "map (digit_char False) (digits 10 (nat f)) @ replicate ?z CHR ''0''"
  obtain pre r where e: "fmtfp fp fvalue mn mx flags st = Inr (emit (pre @ map (digit_char False) (digits 10 (nat i)) @ CHR ''.''
        # map (digit_char False) (digits 10 (nat f)) @ replicate ?z CHR ''0'' @ replicate r CHR '' '') st)"
    and pre: "set pre \<subseteq> {CHR '' '', CHR ''0'', CHR ''-'', CHR ''+''}" "CHR ''-'' \<in> set pre \<longleftrightarrow> ld_less0 fp fvalue"
    using fmtfp_emit [OF assms] by blast
  have v: "numeral_value 10 (map (digit_char False) (digits 10 (nat i))) = nat i"
    using numeral_decimals [of "nat i" 0] by simp
  have "(nat f * 10 ^ ?z = nat f) \<longleftrightarrow> f = 0 \<or> nat p \<le> length (digits 10 (nat f))"
    using assms(6) by auto
  moreover have "length ?decs = max (nat p) (length (digits 10 (nat f)))" by simp
  moreover have "out (emit (pre @ map (digit_char False) (digits 10 (nat i)) @ CHR ''.''
        # map (digit_char False) (digits 10 (nat f)) @ replicate ?z CHR ''0'' @ replicate r CHR '' '') st)
      = out st @ pre @ map (digit_char False) (digits 10 (nat i)) @ CHR ''.'' # ?decs @ replicate r CHR '' ''"
    by (simp only: out_emit append_assoc)
  moreover note numeral_decimals [of "nat f" ?z]
  ultimately have "fmtfp fp fvalue mn mx flags st = Inr (emit (pre @ map (digit_char False) (digits 10 (nat i)) @ CHR ''.''
        # map (digit_char False) (digits 10 (nat f)) @ replicate ?z CHR ''0'' @ replicate r CHR '' '') st)
      \<and> out (emit (pre @ map (digit_char False) (digits 10 (nat i)) @ CHR ''.''
        # map (digit_char False) (digits 10 (nat f)) @ replicate ?z CHR ''0'' @ replicate r CHR '' '') st)
      = out st @ pre @ map (digit_char False) (digits 10 (nat i)) @ CHR ''.'' # ?decs @ replicate r CHR '' ''
      \<and> numeral_value 10 (map (digit_char False) (digits 10 (nat i))) = nat i
      \<and> numeral_value 10 ?decs = nat f * 10 ^ ?z
      \<and> (numeral_value 10 ?decs = nat f \<longleftrightarrow> f = 0 \<or> nat p \<le> length (digits 10 (nat f)))
      \<and> length ?decs = max (nat p) (length (digits 10 (nat f)))
      \<and> set pre \<subseteq> {CHR '' '', CHR ''0'', CHR ''-'', CHR ''+''} \<and> (CHR ''-'' \<in> set pre \<longleftrightarrow> ld_less0 fp fvalue)"
    using e v pre by (simp only: simp_thms)
  then show ?thesis by (intro exI)
qed

text \<open>Exact rational arithmetic is one instance of the parameter.\<close>

definition rat_ldouble :: "rat ldouble" where
  "rat_ldouble = \<lparr>ld_less0 = (\<lambda>x. x < 0), ld_neg = uminus, ld_of_long = of_int, ld_to_long = (\<lambda>x. if x < 0 then \<lceil>x\<rceil> else \<lfloor>x\<rfloor>),
    ld_sub = (-), ld_mul = (*), ld_ge = (\<ge>), ld_half = 1 / 2\<rparr>"

theorem fmtfp_pads_fraction_on_the_right_witness:
  "\<exists>st' pre ids decs r. fmtfp rat_ldouble (21 / 20) 0 2 0 \<lparr>out = [], currlen = 0, stores = []\<rparr> = Inr st'
      \<and> out st' = pre @ ids @ CHR ''.'' # decs @ replicate r CHR '' ''
      \<and> numeral_value 10 ids = 1 \<and> numeral_value 10 decs = 50 \<and> length decs = 2"
proof -
  have d: "digits 10 5 = [5]" by (subst digits.simps) simp
  have t: "pow10 rat_ldouble (nat 2) = 100"
    by (simp add: pow10_def rat_ldouble_def numeral_2_eq_2)
  have fl: "\<lfloor>21 / 20 :: rat\<rfloor> = 1" by (rule floor_unique) simp_all
  have e: "abs_val rat_ldouble (21 / 20) = 21 / 20" "ld_to_long rat_ldouble (21 / 20) = 1"
    "ld_mul rat_ldouble 100 (ld_sub rat_ldouble (21 / 20) (ld_of_long rat_ldouble 1)) = 5" "xround rat_ldouble 5 = 5"
    "\<not> ld_ge rat_ldouble (ld_of_long rat_ldouble 5) 100"
    by (simp_all add: abs_val_def rat_ldouble_def xround_def fl)
  have "fp_split rat_ldouble (abs_val rat_ldouble (21 / 20)) (nat 2) = (1, 5)"
    unfolding fp_split_def Let_def t e(1,2,3,4) using e(5) by simp
  from fmtfp_pads_fraction_on_the_right [OF this, of 2 0 0 "\<lparr>out = [], currlen = 0, stores = []\<rparr>"]
  obtain st' pre ids decs r where
    "fmtfp rat_ldouble (21 / 20) 0 2 0 \<lparr>out = [], currlen = 0, stores = []\<rparr> = Inr st'"
    "out st' = pre @ ids @ CHR ''.'' # decs @ replicate r CHR '' ''" "numeral_value 10 ids = 1"
    "numeral_value 10 decs = 50" "length decs = 2"
    by (simp add: d) (elim exE conjE, simp add: numeral_2_eq_2)
  then show ?thesis by (intro exI conjI)
qed

end
