(* ===== verification/Resource_Table.thy ===== *)
theory Resource_Table
  imports Kernel_Prelude
begin

text \<open>
  \<^verbatim>\<open>kernel/atomic.h\<close>, \<^verbatim>\<open>kernel/resource.h\<close> and \<^verbatim>\<open>kernel/table.cc\<close>: objects with a reference count and the
  tables in which a process keeps the objects it has opened.

  An object is a number. What the counting depends on is its type, its count and the pointers to
  other objects that its destructor gives up: the array of a table, the one pointer \<^verbatim>\<open>resources\<close> of a
  process, none otherwise. An access to an object that has been deleted is the fault \<open>BadIndex\<close>.
  The mutex of a table is its count; a lock of a mutex that is taken never returns here, where one
  operation runs at a time.
\<close>

datatype ResourceType = PROCESS | SEMAPHORE | FILE | DIRECTORY | TABLE | OTHER

type_synonym rid = nat

record resource =
  r_type :: ResourceType
  r_count :: u32
  r_ptrs :: "rid option list"
  r_mutex :: int

record rstate =
  res :: "rid \<Rightarrow> resource option"
  nextRid :: rid

section \<open>Atomic32 and Resource\<close>

text \<open>\<^verbatim>\<open>lock xadd\<close>: the old value, and the sum in its place.\<close>

definition getThenAdd :: "u32 \<Rightarrow> u32 \<Rightarrow> u32 \<times> u32" where
  "getThenAdd d v = (v, v + d)"

definition get_res :: "rid \<Rightarrow> rstate \<Rightarrow> fault + resource" where
  "get_res p st = (case res st p of None \<Rightarrow> Inl BadIndex | Some r \<Rightarrow> Inr r)"

definition put_res :: "rid \<Rightarrow> resource \<Rightarrow> rstate \<Rightarrow> rstate" where
  "put_res p r st = st\<lparr>res := (res st)(p \<mapsto> r)\<rparr>"

definition new_res :: "ResourceType \<Rightarrow> u32 \<Rightarrow> rid option list \<Rightarrow> rstate \<Rightarrow> rid \<times> rstate" where
  "new_res t c ptrs st =
     (let p = nextRid st
      in (p, put_res p \<lparr>r_type = t, r_count = c, r_ptrs = ptrs, r_mutex = 1\<rparr> (st\<lparr>nextRid := Suc p\<rparr>)))"

definition ref :: "rid option \<Rightarrow> rstate \<Rightarrow> fault + (rid option \<times> rstate)" where
  "ref x st =
     (case x of None \<Rightarrow> Inr (None, st)
      | Some p \<Rightarrow> bindE (get_res p st) (\<lambda>r.
          let (old, v) = getThenAdd 1 (r_count r) in Inr (Some p, put_res p (r\<lparr>r_count := v\<rparr>) st)))"

definition slot_get :: "rid \<Rightarrow> nat \<Rightarrow> rstate \<Rightarrow> fault + rid option" where
  "slot_get t i st =
     bindE (get_res t st) (\<lambda>r. if i < length (r_ptrs r) then Inr (r_ptrs r ! i) else Inl BadIndex)"

definition slot_set :: "rid \<Rightarrow> nat \<Rightarrow> rid option \<Rightarrow> rstate \<Rightarrow> fault + rstate" where
  "slot_set t i x st =
     bindE (get_res t st) (\<lambda>r.
       if i < length (r_ptrs r) then Inr (put_res t (r\<lparr>r_ptrs := (r_ptrs r)[i := x]\<rparr>) st) else Inl BadIndex)"

text \<open>
  \<^verbatim>\<open>unref\<close> and the destructors it calls. A destructor gives up the pointers of the object, one after
  the other; each of these can delete in turn, so the depth is bounded by fuel.
\<close>

fun unref :: "nat \<Rightarrow> rid option \<Rightarrow> rstate \<Rightarrow> fault + (rid option \<times> rstate)" where
  "unref fuel None st = Inr (None, st)"
| "unref 0 (Some p) st = Inl Diverges"
| "unref (Suc fuel) (Some p) st =
     bindE (get_res p st) (\<lambda>r.
       let (old, v) = getThenAdd (-1) (r_count r);
           st1 = put_res p (r\<lparr>r_count := v\<rparr>) st
       in if old = 1
          then bindE (loopE (\<lambda>i s. bindE (slot_get p i s) (\<lambda>x.
                        bindE (unref fuel x s) (\<lambda>(_, s). slot_set p i None s)))
                      [0..<length (r_ptrs r)] st1)
                 (\<lambda>st2. Inr (None, st2\<lparr>res := (res st2)(p := None)\<rparr>))
          else Inr (Some p, st1))"

text \<open>Never more than all objects are deleted at once.\<close>

definition unref_all :: "rid option \<Rightarrow> rstate \<Rightarrow> fault + (rid option \<times> rstate)" where
  "unref_all x st = unref (nextRid st) x st"

text \<open>
  \<^verbatim>\<open>Reference\<close>: a variable that owns one reference. Construction and copy take one, the destructor
  gives it up, a move empties the source, an assignment gives up the old one and takes a new one.
\<close>

definition reference_new :: "rid option \<Rightarrow> rstate \<Rightarrow> fault + (rid option \<times> rstate)" where
  "reference_new p st = ref p st"

definition reference_delete :: "rid option \<Rightarrow> rstate \<Rightarrow> fault + (rid option \<times> rstate)" where
  "reference_delete this st = bindE (unref_all this st) (\<lambda>(_, st). Inr (None, st))"

definition reference_copy :: "rid option \<Rightarrow> rstate \<Rightarrow> fault + (rid option \<times> rstate)" where
  "reference_copy other st = ref other st"

definition reference_move :: "rid option \<Rightarrow> rid option \<times> rid option" where
  "reference_move other = (other, None)"

definition reference_assign :: "rid option \<Rightarrow> rid option \<Rightarrow> rstate \<Rightarrow> fault + (rid option \<times> rstate)" where
  "reference_assign this other st =
     (if this \<noteq> other then bindE (unref_all this st) (\<lambda>(_, st). ref other st) else Inr (this, st))"

section \<open>Table\<close>

definition new_Table :: "nat \<Rightarrow> rstate \<Rightarrow> rid \<times> rstate" where
  "new_Table n st = new_res TABLE 0 (replicate n None) st"

definition t_size :: "rid \<Rightarrow> rstate \<Rightarrow> fault + nat" where
  "t_size t st = bindE (get_res t st) (\<lambda>r. Inr (length (r_ptrs r)))"

definition t_lock :: "rid \<Rightarrow> rstate \<Rightarrow> fault + rstate" where
  "t_lock t st =
     bindE (get_res t st) (\<lambda>r. if r_mutex r = 0 then Inl Diverges else Inr (put_res t (r\<lparr>r_mutex := r_mutex r - 1\<rparr>) st))"

definition t_unlock :: "rid \<Rightarrow> rstate \<Rightarrow> fault + rstate" where
  "t_unlock t st = bindE (get_res t st) (\<lambda>r. Inr (put_res t (r\<lparr>r_mutex := r_mutex r + 1\<rparr>) st))"

definition addWorkingDir :: "rid \<Rightarrow> rid \<Rightarrow> rstate \<Rightarrow> fault + (int \<times> rstate)" where
  "addWorkingDir t p st =
     bindE (t_lock t st) (\<lambda>st.
     bindE (get_res p st) (\<lambda>r.
     if r_type r \<noteq> DIRECTORY then bindE (t_unlock t st) (\<lambda>st. Inr (ERR_NOT_DIR, st))
     else bindE (slot_get t 1 st) (\<lambda>x.
          bindE (if x \<noteq> None then bindE (unref_all x st) (\<lambda>(_, st). Inr st) else Inr st) (\<lambda>st.
          bindE (ref (Some p) st) (\<lambda>(y, st).
          bindE (slot_set t 1 y st) (\<lambda>st.
          bindE (t_unlock t st) (\<lambda>st. Inr (0, st))))))))"

definition closeWorkingDir :: "rid \<Rightarrow> rstate \<Rightarrow> fault + (int \<times> rstate)" where
  "closeWorkingDir t st =
     bindE (t_lock t st) (\<lambda>st.
     bindE (slot_get t 1 st) (\<lambda>x.
     case x of None \<Rightarrow> Inl NullDeref
     | Some p \<Rightarrow>
         bindE (get_res p st) (\<lambda>r.
         if r_type r \<noteq> DIRECTORY then bindE (t_unlock t st) (\<lambda>st. Inr (ERR_NOT_DIR, st))
         else bindE (unref_all x st) (\<lambda>(_, st).
              bindE (slot_set t 1 None st) (\<lambda>st.
              bindE (t_unlock t st) (\<lambda>st. Inr (0, st)))))))"

text \<open>The loop of \<^verbatim>\<open>open\<close>: the first free slot of \<open>is\<close>, if there is one.\<close>

fun open_loop :: "rid \<Rightarrow> rid \<Rightarrow> nat list \<Rightarrow> rstate \<Rightarrow> fault + (int \<times> rstate)" where
  "open_loop t p [] st = Inr (ERR_NO_ID, st)"
| "open_loop t p (i # is) st =
     bindE (slot_get t i st) (\<lambda>x.
     if x = None
     then bindE (ref (Some p) st) (\<lambda>(y, st). bindE (slot_set t i y st) (\<lambda>st. Inr (int i, st)))
     else open_loop t p is st)"

definition table_open :: "rid \<Rightarrow> rid \<Rightarrow> rstate \<Rightarrow> fault + (int \<times> rstate)" where
  "table_open t p st =
     bindE (t_lock t st) (\<lambda>st.
     bindE (t_size t st) (\<lambda>n.
     bindE (open_loop t p [2..<n] st) (\<lambda>(i, st).
     bindE (t_unlock t st) (\<lambda>st. Inr (i, st)))))"

definition table_close :: "rid \<Rightarrow> int \<Rightarrow> rstate \<Rightarrow> fault + (int \<times> rstate)" where
  "table_close t i st =
     bindE (t_size t st) (\<lambda>n.
     if i < 0 then Inr (ERR_INVALID_ID, st)
     else if i \<ge> int n then Inr (ERR_INVALID_ID, st)
     else if i = 1 then Inr (ERR_CLOSE_WD, st)
     else bindE (t_lock t st) (\<lambda>st.
          bindE (slot_get t (nat i) st) (\<lambda>old.
          bindE (unref_all old st) (\<lambda>(_, st).
          bindE (slot_set t (nat i) None st) (\<lambda>st.
          bindE (t_unlock t st) (\<lambda>st. Inr (if old = None then ERR_INVALID_ID else 0, st)))))))"

definition closeAll :: "rid \<Rightarrow> rstate \<Rightarrow> fault + rstate" where
  "closeAll t st =
     bindE (t_lock t st) (\<lambda>st.
     bindE (t_size t st) (\<lambda>n.
     bindE (loopE (\<lambda>i s. bindE (slot_get t i s) (\<lambda>x.
              bindE (unref_all x s) (\<lambda>(_, s). slot_set t i None s))) [2..<n] st) (t_unlock t)))"

definition table_get :: "rid \<Rightarrow> int \<Rightarrow> ResourceType \<Rightarrow> rstate \<Rightarrow> fault + rid option" where
  "table_get t fd ty st =
     bindE (t_size t st) (\<lambda>n.
     if fd < 0 then Inr None
     else if fd \<ge> int n then Inr None
     else bindE (slot_get t (nat fd) st) (\<lambda>x.
          case x of None \<Rightarrow> Inl NullDeref
          | Some p \<Rightarrow> bindE (get_res p st) (\<lambda>r. if r_type r \<noteq> ty then Inr None else Inr (Some p))))"

text \<open>
  \<^verbatim>\<open>forkMe\<close> by class: a process is not inherited, a file is copied with its count, a table is copied
  slot by slot, any other object is shared.
\<close>

fun forkMe :: "nat \<Rightarrow> rid \<Rightarrow> rstate \<Rightarrow> fault + (rid option \<times> rstate)" where
  "forkMe 0 p st = Inl Diverges"
| "forkMe (Suc fuel) p st =
     bindE (get_res p st) (\<lambda>r.
       case r_type r of
         PROCESS \<Rightarrow> Inr (None, st)
       | FILE \<Rightarrow> (let (q, st) = new_res FILE (r_count r) [] st in Inr (Some q, st))
       | TABLE \<Rightarrow>
           (let (tp, st) = new_Table (length (r_ptrs r)) st
            in bindE (loopE (\<lambda>i s. bindE (slot_get p i s) (\<lambda>x.
                       case x of None \<Rightarrow> slot_set tp i None s
                       | Some q \<Rightarrow> bindE (forkMe fuel q s) (\<lambda>(y, s). slot_set tp i y s)))
                     [0..<length (r_ptrs r)] st)
                 (\<lambda>st. Inr (Some tp, st)))
       | _ \<Rightarrow> ref (Some p) st)"

definition table_forkMe :: "rid \<Rightarrow> rstate \<Rightarrow> fault + (rid option \<times> rstate)" where
  "table_forkMe t st = forkMe (Suc (nextRid st)) t st"

section \<open>Exact counts\<close>

text \<open>
  The invariant. \<open>N\<close> are the objects in the middle of their destructor; the pointers of these and of
  the other objects of \<open>Z\<close>, which are pinned by a reference, count as held from outside; \<open>ext p\<close> is how
  many references to \<open>p\<close> are held from outside. Every reference is to an object that exists and is
  not being destroyed, and the count of such an object is the number of slots that point to it plus
  the references from outside.
\<close>

definition indeg :: "rstate \<Rightarrow> rid set \<Rightarrow> rid \<Rightarrow> nat" where
  "indeg st Z p = (\<Sum>q \<in> dom (res st) - Z. count_list (r_ptrs (the (res st q))) (Some p))"

definition rt_inv :: "rstate \<Rightarrow> rid set \<Rightarrow> rid set \<Rightarrow> (rid \<Rightarrow> nat) \<Rightarrow> bool" where
  "rt_inv st N Z ext \<longleftrightarrow>
     (\<forall>p \<in> dom (res st). p < nextRid st) \<and> Z \<subseteq> dom (res st) \<and> N \<subseteq> Z \<and> (\<forall>p \<in> Z - N. 0 < ext p)
   \<and> (\<forall>p. 0 < indeg st Z p + ext p \<longrightarrow> p \<in> dom (res st) - N)
   \<and> (\<forall>p r. res st p = Some r \<and> p \<notin> N \<longrightarrow> unat (r_count r) = indeg st Z p + ext p)"

lemma rt_invD:
  assumes "rt_inv st N Z ext"
  shows "finite (dom (res st))" "p \<in> dom (res st) \<Longrightarrow> p < nextRid st" "Z \<subseteq> dom (res st)" "N \<subseteq> Z"
    "0 < indeg st Z p + ext p \<Longrightarrow> p \<in> dom (res st) - N"
    "res st p = Some r \<Longrightarrow> p \<notin> N \<Longrightarrow> unat (r_count r) = indeg st Z p + ext p"
proof -
  have "dom (res st) \<subseteq> {..<nextRid st}" using assms by (auto simp: rt_inv_def)
  then show "finite (dom (res st))" by (rule finite_subset) simp
qed (use assms in \<open>unfold rt_inv_def, metis+\<close>)

lemma count_list_update:
  assumes "i < length xs"
  shows "count_list (xs[i := x]) y + (if xs ! i = y then 1 else 0) = count_list xs y + (if x = y then 1 else 0)"
  using assms
proof (induction xs arbitrary: i)
  case (Cons a xs)
  show ?case
  proof (cases i)
    case (Suc j)
    then show ?thesis using Cons.IH [of j] Cons.prems by (auto split: if_splits)
  qed simp
qed simp

lemma put_res_simps [simp]:
  "res (put_res p r st) = (res st)(p \<mapsto> r)" "nextRid (put_res p r st) = nextRid st"
  by (simp_all add: put_res_def)

lemma indeg_put:
  assumes "finite (dom (res st))" "res st q = Some r" "q \<notin> Z"
  shows "indeg (put_res q r' st) Z p + count_list (r_ptrs r) (Some p) = indeg st Z p + count_list (r_ptrs r') (Some p)"
proof -
  let ?D = "dom (res st) - Z" and ?f = "\<lambda>st x. count_list (r_ptrs (the (res st x))) (Some p)"
  have q: "q \<in> ?D" "finite ?D" using assms by auto
  have d: "dom (res (put_res q r' st)) - Z = ?D" using assms(2) by auto
  have "indeg (put_res q r' st) Z p = count_list (r_ptrs r') (Some p) + sum (?f (put_res q r' st)) (?D - {q})"
    unfolding indeg_def d by (subst sum.remove [OF q(2,1)]) simp
  also have "sum (?f (put_res q r' st)) (?D - {q}) = sum (?f st) (?D - {q})" by (rule sum.cong) auto
  moreover have "indeg st Z p = count_list (r_ptrs r) (Some p) + sum (?f st) (?D - {q})"
    unfolding indeg_def by (subst sum.remove [OF q(2,1)]) (simp add: assms(2))
  ultimately show ?thesis by simp
qed

lemma indeg_put_same:
  assumes "finite (dom (res st))" "res st q = Some r" "r_ptrs r' = r_ptrs r"
  shows "indeg (put_res q r' st) Z = indeg st Z"
proof (cases "q \<in> Z")
  case True
  then have "dom (res (put_res q r' st)) - Z = dom (res st) - Z" by auto
  then show ?thesis unfolding indeg_def fun_eq_iff using True by (auto intro!: sum.cong)
next
  case False
  then show ?thesis using indeg_put [OF assms(1,2) False, of r'] assms(3) by (simp add: fun_eq_iff)
qed

lemma indeg_put_zombie:
  assumes "q \<in> Z" "Z \<subseteq> dom (res st)"
  shows "indeg (put_res q r' st) Z = indeg st Z"
proof -
  have "dom (res (put_res q r' st)) - Z = dom (res st) - Z" using assms by auto
  then show ?thesis unfolding indeg_def fun_eq_iff using assms(1) by (auto intro!: sum.cong)
qed

lemma indeg_zombie:
  assumes "finite (dom (res st))" "res st q = Some r" "q \<notin> Z"
  shows "indeg st Z p = indeg st (insert q Z) p + count_list (r_ptrs r) (Some p)"
proof -
  have "dom (res st) - insert q Z = dom (res st) - Z - {q}" by auto
  then show ?thesis unfolding indeg_def using assms by (subst sum.remove [of _ q]) auto
qed

text \<open>How the operations on one object change the invariant.\<close>

lemma inv_put_zombie:
  assumes "rt_inv st N Z ext" "q \<in> N"
  shows "rt_inv (put_res q r st) N Z ext"
proof -
  have q: "q \<in> Z" using rt_invD(4) [OF assms(1)] assms(2) by blast
  have d: "dom (res (put_res q r st)) = dom (res st)" using q rt_invD(3) [OF assms(1)] by auto
  show ?thesis
    using assms unfolding rt_inv_def d indeg_put_zombie [OF q rt_invD(3) [OF assms(1)]] by auto
qed

lemma inv_put:
  assumes "rt_inv st N Z ext" "res st q = Some r" "r_count r' = r_count r" "q \<in> Z \<or> r_ptrs r' = r_ptrs r"
  shows "rt_inv (put_res q r' st) N Z ext"
proof -
  have d: "dom (res (put_res q r' st)) = dom (res st)" using assms(2) by auto
  have i: "indeg (put_res q r' st) Z = indeg st Z"
    using assms(4) indeg_put_zombie [OF _ rt_invD(3) [OF assms(1)]]
      indeg_put_same [OF rt_invD(1) [OF assms(1)] assms(2)] by blast
  show ?thesis using assms(1-3) unfolding rt_inv_def d i by (auto split: if_splits)
qed

text \<open>A count that changes with the references from outside.\<close>

lemma inv_count:
  assumes "rt_inv st N Z ext" "res st q = Some r" "q \<notin> N" "unat c = indeg st Z q + e" "q \<in> Z \<Longrightarrow> 0 < e"
  shows "rt_inv (put_res q (r\<lparr>r_count := c\<rparr>) st) N Z (ext(q := e))"
proof -
  have d: "dom (res (put_res q (r\<lparr>r_count := c\<rparr>) st)) = dom (res st)" using assms(2) by auto
  have i: "indeg (put_res q (r\<lparr>r_count := c\<rparr>) st) Z = indeg st Z"
    using rt_invD(1) [OF assms(1)] assms(2) by (intro indeg_put_same) auto
  show ?thesis using assms unfolding rt_inv_def d i by (auto split: if_splits)
qed

text \<open>
  Giving up a reference: the counts stay exact, an object is deleted exactly when the last reference
  to it is given up, no object in the middle of its destructor changes, no other object changes
  its type or its pointers, and none is left with a count of zero that had not had it.
\<close>

definition survives :: "resource \<Rightarrow> resource \<Rightarrow> bool" where
  "survives r r' \<longleftrightarrow> r_type r' = r_type r \<and> r_ptrs r' = r_ptrs r \<and> r_mutex r' = r_mutex r \<and> (r_count r' = 0 \<longrightarrow> r_count r = 0)"

lemma survives_refl [simp]: "survives r r" by (simp add: survives_def)

lemma survives_trans: "survives r r' \<Longrightarrow> survives r' r'' \<Longrightarrow> survives r r''" by (simp add: survives_def)

definition shrinks :: "rstate \<Rightarrow> rid set \<Rightarrow> rstate \<Rightarrow> bool" where
  "shrinks st N st' \<longleftrightarrow> nextRid st' = nextRid st \<and> (\<forall>z \<in> N. res st' z = res st z)
     \<and> (\<forall>q r'. res st' q = Some r' \<longrightarrow> (\<exists>r. res st q = Some r \<and> survives r r'))"

lemma shrinks_refl: "shrinks st N st" by (auto simp: shrinks_def)

lemma shrinksD: "shrinks st N st' \<Longrightarrow> res st' q = Some r' \<Longrightarrow> \<exists>r. res st q = Some r \<and> survives r r'"
  by (simp add: shrinks_def)

lemma shrinks_trans:
  assumes "shrinks s N s1" "shrinks s1 N' s2" "N \<subseteq> N'"
  shows "shrinks s N s2"
proof -
  have "\<exists>r. res s q = Some r \<and> survives r r'" if "res s2 q = Some r'" for q r'
    using shrinksD [OF assms(2) that] shrinksD [OF assms(1)] survives_trans by blast
  then show ?thesis using assms by (auto simp: shrinks_def)
qed

definition del :: "rid \<Rightarrow> rstate \<Rightarrow> rstate" where "del p st = st\<lparr>res := (res st)(p := None)\<rparr>"

lemma shrinks_del: "shrinks s Z s' \<Longrightarrow> Z' \<subseteq> Z \<Longrightarrow> shrinks (del p s) Z' (del p s')"
  by (auto simp: shrinks_def del_def)

lemma del_put [simp]: "del p (put_res p r s) = del p s"
  by (simp add: del_def put_res_def)

lemma inv_zombie:
  assumes "rt_inv st N Z ext" "res st p = Some r" "p \<notin> Z" "indeg st Z p = 0"
  shows "rt_inv st (insert p N) (insert p Z) (\<lambda>x. (ext(p := 0)) x + count_list (r_ptrs r) (Some x))"
proof -
  note z = indeg_zombie [OF rt_invD(1) [OF assms(1)] assms(2,3)]
  have e: "indeg st (insert p Z) x + ((ext(p := 0)) x + count_list (r_ptrs r) (Some x)) = indeg st Z x + (ext(p := 0)) x" for x
    using z [of x] by simp
  have "0 < (ext(p := 0)) x + count_list (r_ptrs r) (Some x)" if "x \<in> insert p Z - insert p N" for x
    using assms(1,3) that by (auto simp: rt_inv_def)
  then show ?thesis
    using assms unfolding rt_inv_def e by (auto split: if_splits)
qed

lemma inv_unzombie:
  assumes "rt_inv st (insert p N) (insert p Z) ext" "p \<notin> Z" "p \<notin> N"
  shows "rt_inv (del p st) N Z ext"
proof -
  have d: "dom (res st) - {p} - Z = dom (res st) - insert p Z" by auto
  have i: "indeg (del p st) Z x = indeg st (insert p Z) x" for x
    unfolding indeg_def using d by (auto simp: del_def intro!: sum.cong)
  have "N \<subseteq> Z" using assms unfolding rt_inv_def by auto
  then show ?thesis using assms unfolding rt_inv_def i by (auto simp: del_def split: if_splits)
qed

lemma unat_pred: "unat (c :: u32) \<noteq> 0 \<Longrightarrow> unat (c + -1) = unat c - 1"
  by (simp add: unat_minus_one unat_gt_0 unat_eq_zero flip: diff_conv_add_uminus)

lemma unref_inv:
  assumes "rt_inv st N Z ext" "0 < ext p" "p \<in> Z \<Longrightarrow> 1 < ext p" "card (dom (res st) - N) \<le> fuel"
  shows "\<exists>x st'. unref fuel (Some p) st = Inr (x, st') \<and> rt_inv st' N Z (ext(p := ext p - 1)) \<and> shrinks st N st'
    \<and> (x = None \<longleftrightarrow> p \<notin> dom (res st')) \<and> (p \<notin> dom (res st') \<longleftrightarrow> indeg st Z p + ext p = 1)"
  using assms
proof (induction fuel arbitrary: st N Z ext p)
  case 0
  then show ?case using rt_invD(1,5) [OF 0(1)] by (metis add_gr_0 card_gt_0_iff emptyE finite_Diff not_le)
next
  case (Suc fuel)
  have p: "p \<in> dom (res st) - N" using rt_invD(5) [OF Suc.prems(1)] Suc.prems(2) by simp
  then obtain r where r: "res st p = Some r" "p \<notin> N" by auto
  have c: "unat (r_count r) = indeg st Z p + ext p" using rt_invD(6) [OF Suc.prems(1) r] .
  let ?st1 = "put_res p (r\<lparr>r_count := r_count r + -1\<rparr>) st"
  have c1: "unat (r_count r + -1) = indeg st Z p + (ext p - 1)"
    using unat_pred [of "r_count r"] c Suc.prems(2) by simp
  have inv1: "rt_inv ?st1 N Z (ext(p := ext p - 1))"
    by (rule inv_count [OF Suc.prems(1) r c1]) (use Suc.prems(3) in simp)
  show ?case
  proof (cases "r_count r = 1")
    case False
    then have "unat (r_count r) \<noteq> 1" by (metis unat_1 word_unat_eq_iff)
    moreover have "shrinks st N ?st1" using r False by (auto simp: shrinks_def survives_def)
    ultimately show ?thesis using False inv1 c Suc.prems(2) r
      by (simp add: get_res_def getThenAdd_def fun_upd_def dom_def)
  next
    case True
    then have z: "indeg st Z p = 0" "ext p = 1" "p \<notin> Z" using c Suc.prems(2,3) by auto
    let ?N = "insert p N" and ?Z = "insert p Z" and ?e = "ext(p := 0)"
    let ?body = "\<lambda>i s. bindE (slot_get p i s) (\<lambda>x. bindE (unref fuel x s) (\<lambda>(_, s). slot_set p i None s))"
    let ?I = "\<lambda>i s. rt_inv s ?N ?Z (\<lambda>x. ?e x + count_list (drop i (r_ptrs r)) (Some x)) \<and> shrinks (del p st) N (del p s)
        \<and> (\<exists>r'. res s p = Some r' \<and> r_ptrs r' = replicate i None @ drop i (r_ptrs r))"
    have d1: "dom (res ?st1) = dom (res st)" using r by auto
    have "rt_inv ?st1 ?N ?Z (\<lambda>x. ((?e)(p := 0)) x + count_list (r_ptrs r) (Some x))"
      using inv_zombie [OF inv1, of p "r\<lparr>r_count := r_count r + -1\<rparr>"] z r
        indeg_put_same [OF rt_invD(1) [OF Suc.prems(1)] r(1), of "r\<lparr>r_count := r_count r + -1\<rparr>"] by simp
    then have I0: "?I 0 ?st1" by (simp add: shrinks_refl)
    have "(\<exists>e. loopE ?body [0..<length (r_ptrs r)] ?st1 = Inl e \<and> False)
        \<or> (\<exists>s'. loopE ?body [0..<length (r_ptrs r)] ?st1 = Inr s' \<and> ?I (length (r_ptrs r)) s')"
    proof (rule loopE_upt_inv [where I = ?I, OF I0])
      fix i s assume i: "0 \<le> i" "i < length (r_ptrs r)" and I: "?I i s"
      from I obtain r' where r': "res s p = Some r'" "r_ptrs r' = replicate i None @ drop i (r_ptrs r)" by blast
      have len: "i < length (r_ptrs r')" "r_ptrs r' ! i = r_ptrs r ! i" using r'(2) i(2) by (simp_all add: nth_append)
      have drop: "drop i (r_ptrs r) = r_ptrs r ! i # drop (Suc i) (r_ptrs r)" using i(2) by (simp add: Cons_nth_drop_Suc)
      have upd: "(r_ptrs r')[i := None] = replicate (Suc i) None @ drop (Suc i) (r_ptrs r)"
        unfolding r'(2) drop by (simp add: list_update_append replicate_append_same)
      have inv: "rt_inv s ?N ?Z (\<lambda>x. ?e x + count_list (drop i (r_ptrs r)) (Some x))" and sh: "shrinks (del p st) N (del p s)"
        using I by blast+
      show "(\<exists>e. ?body i s = Inl e \<and> False) \<or> (\<exists>s'. ?body i s = Inr s' \<and> ?I (Suc i) s')"
      proof (cases "r_ptrs r ! i")
        case None
        have "?body i s = Inr (put_res p (r'\<lparr>r_ptrs := (r_ptrs r')[i := None]\<rparr>) s)"
          using r'(1) len None by (simp add: slot_get_def slot_set_def get_res_def)
        moreover have "rt_inv (put_res p (r'\<lparr>r_ptrs := (r_ptrs r')[i := None]\<rparr>) s) ?N ?Z
            (\<lambda>x. ?e x + count_list (drop (Suc i) (r_ptrs r)) (Some x))"
          using inv_put_zombie [OF inv, of p] unfolding drop None by simp
        ultimately show ?thesis using sh upd by auto
      next
        case (Some q)
        have "dom (res s) - ?N \<subseteq> dom (res st) - N - {p}" using sh by (fastforce simp: shrinks_def del_def split: if_splits)
        then have "card (dom (res s) - ?N) \<le> card (dom (res st) - N - {p})"
          using rt_invD(1) [OF Suc.prems(1)] by (intro card_mono) auto
        also have "\<dots> < Suc fuel"
          using Suc.prems(4) p rt_invD(1) [OF Suc.prems(1)] by (simp add: card_gt_0_iff)
        finally have "card (dom (res s) - ?N) \<le> fuel" by simp
        note card = this
        have "0 < ?e q + count_list (drop i (r_ptrs r)) (Some q)" unfolding drop Some by simp
        have "1 < ?e q + count_list (drop i (r_ptrs r)) (Some q)" if "q \<in> ?Z"
        proof -
          have "q \<notin> ?N" using rt_invD(5) [OF inv, of q] \<open>0 < ?e q + count_list (drop i (r_ptrs r)) (Some q)\<close> by simp
          then have "q \<noteq> p" "0 < ext q" using that Suc.prems(1) by (auto simp: rt_inv_def)
          then show ?thesis unfolding drop Some by simp
        qed
        from Suc.IH [OF inv \<open>0 < ?e q + count_list (drop i (r_ptrs r)) (Some q)\<close> this card] obtain x s2 where s2: "unref fuel (Some q) s = Inr (x, s2)"
          "rt_inv s2 ?N ?Z ((\<lambda>x. ?e x + count_list (drop i (r_ptrs r)) (Some x))(q := ?e q + count_list (drop i (r_ptrs r)) (Some q) - 1))"
          "shrinks s ?N s2"
          by blast
        have p2: "res s2 p = Some r'" using s2(3) r'(1) by (simp add: shrinks_def)
        have "?body i s = Inr (put_res p (r'\<lparr>r_ptrs := (r_ptrs r')[i := None]\<rparr>) s2)"
          using r'(1) len Some p2 s2(1) by (simp add: slot_get_def slot_set_def get_res_def)
        moreover have "(\<lambda>x. ?e x + count_list (drop i (r_ptrs r)) (Some x))(q := ?e q + count_list (drop i (r_ptrs r)) (Some q) - 1)
            = (\<lambda>x. ?e x + count_list (drop (Suc i) (r_ptrs r)) (Some x))"
          unfolding drop Some by (auto simp: fun_eq_iff)
        ultimately show ?thesis
          using inv_put_zombie [OF s2(2), of p] upd
            shrinks_trans [OF sh shrinks_del [OF s2(3) subset_insertI] subset_refl] by auto
      qed
    qed simp
    then obtain s' where s': "loopE ?body [0..<length (r_ptrs r)] ?st1 = Inr s'" "?I (length (r_ptrs r)) s'" by blast
    then have "rt_inv s' ?N ?Z ?e" by (simp add: fun_upd_def)
    from inv_unzombie [OF this z(3) r(2)] have "rt_inv (del p s') N Z ?e" .
    moreover have "shrinks st N (del p s')"
      using s'(2) r(2) by (fastforce simp: shrinks_def del_def split: if_splits)
    moreover have "unref (Suc fuel) (Some p) st = Inr (None, del p s')"
      using s'(1) r True by (simp add: get_res_def getThenAdd_def del_def)
    moreover have "p \<notin> dom (res (del p s'))" by (simp add: del_def)
    moreover have e: "ext(p := ext p - 1) = ?e" "indeg st Z p + ext p = 1" using z(1,2) by simp_all
    ultimately show ?thesis unfolding e by (intro exI [of _ None] exI [of _ "del p s'"] conjI) blast+
  qed
qed

section \<open>Table operations on the array\<close>

text \<open>
  While an operation works on table \<open>t\<close>, the pointers \<open>acc\<close> it owes are counted as references from
  outside; \<open>ptrs\<close> is what its array holds and \<open>m\<close> is its mutex.
\<close>

definition tab :: "rid \<Rightarrow> (rid \<Rightarrow> nat) \<Rightarrow> rid option list \<Rightarrow> rid option list \<Rightarrow> int \<Rightarrow> rstate \<Rightarrow> bool" where
  "tab t ext acc ptrs m st \<longleftrightarrow> rt_inv st {} {t} (\<lambda>x. ext x + count_list acc (Some x)) \<and> 0 < ext t
     \<and> (\<exists>r. res st t = Some r \<and> r_ptrs r = ptrs \<and> r_mutex r = m)"

text \<open>What the operation leaves as it was: the other objects are deleted or keep all but their count.\<close>

definition evolves :: "rid \<Rightarrow> rstate \<Rightarrow> rstate \<Rightarrow> bool" where
  "evolves t st st' \<longleftrightarrow> nextRid st' = nextRid st \<and> (\<forall>q r'. res st' q = Some r' \<longrightarrow>
     (\<exists>r. res st q = Some r \<and> r_type r' = r_type r \<and> (q \<noteq> t \<longrightarrow> r_ptrs r' = r_ptrs r \<and> r_mutex r' = r_mutex r)
        \<and> (r_count r' = 0 \<longrightarrow> r_count r = 0)))"

lemma evolves_refl [simp]: "evolves t st st" by (auto simp: evolves_def)

lemma evolves_trans:
  assumes "evolves t s1 s2" "evolves t s2 s3"
  shows "evolves t s1 s3"
proof -
  have "\<exists>r. res s1 q = Some r \<and> r_type r' = r_type r \<and> (q \<noteq> t \<longrightarrow> r_ptrs r' = r_ptrs r \<and> r_mutex r' = r_mutex r)
        \<and> (r_count r' = 0 \<longrightarrow> r_count r = 0)" if r': "res s3 q = Some r'" for q r'
  proof -
    obtain r2 where "res s2 q = Some r2" "r_type r' = r_type r2" "q \<noteq> t \<longrightarrow> r_ptrs r' = r_ptrs r2 \<and> r_mutex r' = r_mutex r2"
      "r_count r' = 0 \<longrightarrow> r_count r2 = 0"
      using assms(2) r' unfolding evolves_def by blast
    moreover obtain r1 where "res s1 q = Some r1" "r_type r2 = r_type r1" "q \<noteq> t \<longrightarrow> r_ptrs r2 = r_ptrs r1 \<and> r_mutex r2 = r_mutex r1"
      "r_count r2 = 0 \<longrightarrow> r_count r1 = 0"
      using assms(1) calculation(1) unfolding evolves_def by blast
    ultimately show ?thesis by auto
  qed
  then show ?thesis using assms by (simp add: evolves_def)
qed

lemma shrinks_evolves: "shrinks st {} st' \<Longrightarrow> evolves t st st'"
  unfolding evolves_def shrinks_def survives_def by blast

lemma open_tab:
  assumes "rt_inv st {} {} ext" "res st t = Some r" "0 < ext t"
  shows "tab t ext (r_ptrs r) (r_ptrs r) (r_mutex r) st"
proof -
  have e: "indeg st {t} x + (ext x + count_list (r_ptrs r) (Some x)) = indeg st {} x + ext x" for x
    using indeg_zombie [OF rt_invD(1) [OF assms(1)] assms(2), of "{}" x] by simp
  have "rt_inv st {} {t} (\<lambda>x. ext x + count_list (r_ptrs r) (Some x))"
    using assms unfolding rt_inv_def e by auto
  then show ?thesis using assms by (simp add: tab_def)
qed

lemma close_tab:
  assumes "tab t ext ptrs ptrs m st"
  shows "rt_inv st {} {} ext \<and> (\<exists>r. res st t = Some r \<and> r_ptrs r = ptrs \<and> r_mutex r = m)"
proof -
  obtain r where r: "res st t = Some r" "r_ptrs r = ptrs" "r_mutex r = m" using assms by (auto simp: tab_def)
  have inv: "rt_inv st {} {t} (\<lambda>x. ext x + count_list ptrs (Some x))" using assms by (simp add: tab_def)
  have e: "indeg st {t} x + (ext x + count_list ptrs (Some x)) = indeg st {} x + ext x" for x
    using indeg_zombie [OF rt_invD(1) [OF inv] r(1), of "{}" x] r(2) by simp
  have "rt_inv st {} {} ext" using inv unfolding rt_inv_def e by auto
  then show ?thesis using r by blast
qed

lemma tab_put:
  assumes "tab t ext acc ptrs m st" "res st t = Some r" "r_count r' = r_count r" "r_type r' = r_type r"
  shows "tab t ext acc (r_ptrs r') (r_mutex r') (put_res t r' st) \<and> evolves t st (put_res t r' st)"
proof
  show "tab t ext acc (r_ptrs r') (r_mutex r') (put_res t r' st)"
    using assms unfolding tab_def by (auto intro: inv_put)
qed (use assms in \<open>auto simp: evolves_def\<close>)

lemma tab_lock:
  assumes "tab t ext acc ptrs m st" "m \<noteq> 0"
  obtains st' where "t_lock t st = Inr st'" "tab t ext acc ptrs (m - 1) st'" "evolves t st st'"
    "\<And>q. q \<noteq> t \<Longrightarrow> res st' q = res st q"
proof -
  obtain r where r: "res st t = Some r" "r_ptrs r = ptrs" "r_mutex r = m" using assms by (auto simp: tab_def)
  show ?thesis
    using that tab_put [OF assms(1) r(1), of "r\<lparr>r_mutex := m - 1\<rparr>"] r assms(2) by (auto simp: t_lock_def get_res_def)
qed

lemma tab_unlock:
  assumes "tab t ext acc ptrs m st"
  obtains st' where "t_unlock t st = Inr st'" "tab t ext acc ptrs (m + 1) st'" "evolves t st st'"
proof -
  obtain r where r: "res st t = Some r" "r_ptrs r = ptrs" "r_mutex r = m" using assms by (auto simp: tab_def)
  show ?thesis
    using that tab_put [OF assms r(1), of "r\<lparr>r_mutex := m + 1\<rparr>"] r by (auto simp: t_unlock_def get_res_def)
qed

lemma tab_get: "tab t ext acc ptrs m st \<Longrightarrow> i < length ptrs \<Longrightarrow> slot_get t i st = Inr (ptrs ! i)"
  by (auto simp: tab_def slot_get_def get_res_def)

lemma tab_size: "tab t ext acc ptrs m st \<Longrightarrow> t_size t st = Inr (length ptrs)"
  by (auto simp: tab_def t_size_def get_res_def)

lemma tab_set:
  assumes "tab t ext acc ptrs m st" "i < length ptrs"
  obtains st' where "slot_set t i x st = Inr st'" "tab t ext acc (ptrs[i := x]) m st'" "evolves t st st'"
proof -
  obtain r where r: "res st t = Some r" "r_ptrs r = ptrs" "r_mutex r = m" using assms by (auto simp: tab_def)
  show ?thesis
    using that tab_put [OF assms(1) r(1), of "r\<lparr>r_ptrs := ptrs[i := x]\<rparr>"] r assms(2) by (auto simp: slot_set_def get_res_def)
qed

text \<open>The reference of a slot is given up.\<close>

lemma tab_unref:
  assumes "tab t ext acc ptrs m st" "i < length acc" "acc ! i = x"
  obtains y st' where "unref_all x st = Inr (y, st')" "tab t ext (acc[i := None]) ptrs m st'" "evolves t st st'" "shrinks st {} st'"
proof (cases x)
  case None
  then have "acc[i := None] = acc" using assms(3) by (metis list_update_id)
  then show ?thesis using that [of None st] assms None by (simp add: unref_all_def shrinks_refl)
next
  case (Some q)
  let ?e = "\<lambda>x. ext x + count_list acc (Some x)"
  have inv: "rt_inv st {} {t} ?e" and t: "0 < ext t" using assms by (simp_all add: tab_def)
  have c: "0 < count_list acc (Some q)" using assms(2,3) Some by (metis count_notin neq0_conv nth_mem count_list_0_iff)
  have "card (dom (res st) - {}) \<le> card {..<nextRid st}"
    using rt_invD(2) [OF inv] by (intro card_mono) auto
  then have fuel: "card (dom (res st) - {}) \<le> nextRid st" by simp
  obtain y st' where u: "unref (nextRid st) (Some q) st = Inr (y, st')" "rt_inv st' {} {t} (?e(q := ?e q - 1))" "shrinks st {} st'"
  proof -
    have "0 < ?e q" "q \<in> {t} \<Longrightarrow> 1 < ?e q" using c t by auto
    from unref_inv [OF inv this fuel] that show ?thesis by blast
  qed
  have n: "count_list acc (Some y) = count_list (acc[i := None]) (Some y) + (if y = q then 1 else 0)" for y
    using count_list_update [OF assms(2), of None "Some y"] assms(3) Some by (auto split: if_splits)
  have "?e(q := ?e q - 1) = (\<lambda>x. ext x + count_list (acc[i := None]) (Some x))"
    by (simp add: fun_eq_iff n)
  moreover obtain r where r: "res st t = Some r" "r_ptrs r = ptrs" "r_mutex r = m" using assms by (auto simp: tab_def)
  moreover obtain r' where "res st' t = Some r'" using rt_invD(3) [OF u(2)] by auto
  moreover note shrinksD [OF u(3) this]
  ultimately have "tab t ext (acc[i := None]) ptrs m st'" using u(2) t by (auto simp: tab_def survives_def)
  then show ?thesis using that u(1,3) Some shrinks_evolves [OF u(3)] by (simp add: unref_all_def)
qed

text \<open>A reference is taken for a slot that holds none.\<close>

lemma tab_ref:
  assumes "tab t ext acc ptrs m st" "i < length acc" "acc ! i = None" "res st p = Some r" "r_count r \<noteq> -1"
  obtains st' where "ref (Some p) st = Inr (Some p, st')" "tab t ext (acc[i := Some p]) ptrs m st'" "evolves t st st'"
proof -
  let ?e = "\<lambda>x. ext x + count_list acc (Some x)"
  have inv: "rt_inv st {} {t} ?e" and t: "0 < ext t" using assms by (simp_all add: tab_def)
  have nz: "r_count r + 1 \<noteq> 0" using assms(5) by (simp add: eq_neg_iff_add_eq_0 [symmetric])
  then have "unat (r_count r + 1) = unat (r_count r) + 1" using unatSuc [of "r_count r"] by (simp add: add.commute)
  then have u: "unat (r_count r + 1) = indeg st {t} p + (?e p + 1)" using rt_invD(6) [OF inv assms(4)] by simp
  have "rt_inv (put_res p (r\<lparr>r_count := r_count r + 1\<rparr>) st) {} {t} (?e(p := ?e p + 1))"
    by (rule inv_count [OF inv assms(4) _ u]) simp_all
  moreover have n: "count_list (acc[i := Some p]) (Some y) = count_list acc (Some y) + (if y = p then 1 else 0)" for y
    using count_list_update [OF assms(2), of "Some p" "Some y"] assms(3) by (auto split: if_splits)
  have "?e(p := ?e p + 1) = (\<lambda>x. ext x + count_list (acc[i := Some p]) (Some x))"
    by (simp add: fun_eq_iff n)
  moreover have "evolves t st (put_res p (r\<lparr>r_count := r_count r + 1\<rparr>) st)"
    using assms(4) nz by (auto simp: evolves_def)
  moreover obtain r1 where r1: "res st t = Some r1" "r_ptrs r1 = ptrs" "r_mutex r1 = m" using assms(1) by (auto simp: tab_def)
  have "\<exists>r'. res (put_res p (r\<lparr>r_count := r_count r + 1\<rparr>) st) t = Some r' \<and> r_ptrs r' = ptrs \<and> r_mutex r' = m"
    using r1 assms(4) by auto
  ultimately have "tab t ext (acc[i := Some p]) ptrs m (put_res p (r\<lparr>r_count := r_count r + 1\<rparr>) st)"
    "evolves t st (put_res p (r\<lparr>r_count := r_count r + 1\<rparr>) st)"
    using t by (simp_all add: tab_def)
  then show ?thesis
    using that assms(4) by (simp add: ref_def getThenAdd_def get_res_def)
qed

text \<open>
  The operations of a table, and what each returns and leaves in the array. This is the contract of
  a table as a list of slots. \<open>last_ref\<close>: the only reference to an object is the one in question, so that the object
  is deleted when that is given up.
\<close>

datatype table_op = Open rid | Close int | CloseAll | AddWD rid | CloseWD

fun run_table :: "table_op \<Rightarrow> rid \<Rightarrow> rstate \<Rightarrow> fault + (int \<times> rstate)" where
  "run_table (Open p) t st = table_open t p st"
| "run_table (Close i) t st = table_close t i st"
| "run_table CloseAll t st = bindE (closeAll t st) (\<lambda>st. Inr (0, st))"
| "run_table (AddWD p) t st = addWorkingDir t p st"
| "run_table CloseWD t st = closeWorkingDir t st"

definition first_free :: "rid option list \<Rightarrow> nat option" where
  "first_free ptrs = find (\<lambda>i. ptrs ! i = None) [2..<length ptrs]"

definition is_dir :: "rid \<Rightarrow> rstate \<Rightarrow> bool" where
  "is_dir p st \<longleftrightarrow> map_option r_type (res st p) = Some DIRECTORY"

definition last_ref :: "rid \<Rightarrow> rstate \<Rightarrow> bool" where
  "last_ref p st \<longleftrightarrow> map_option r_count (res st p) = Some 1"

fun table_spec :: "table_op \<Rightarrow> rstate \<Rightarrow> rid option list \<Rightarrow> fault + (int \<times> rid option list)" where
  "table_spec (Open p) st ptrs =
     (case first_free ptrs of None \<Rightarrow> Inr (ERR_NO_ID, ptrs) | Some i \<Rightarrow> Inr (int i, ptrs[i := Some p]))"
| "table_spec (Close i) st ptrs =
     (if i < 0 \<or> int (length ptrs) \<le> i then Inr (ERR_INVALID_ID, ptrs)
      else if i = 1 then Inr (ERR_CLOSE_WD, ptrs)
      else if ptrs ! nat i = None then Inr (ERR_INVALID_ID, ptrs)
      else Inr (0, ptrs[nat i := None]))"
| "table_spec CloseAll st ptrs = Inr (0, take 2 ptrs @ replicate (length ptrs - 2) None)"
| "table_spec (AddWD p) st ptrs = (if \<not> is_dir p st then Inr (ERR_NOT_DIR, ptrs)
      else if ptrs ! 1 = Some p \<and> last_ref p st then Inl BadIndex
      else Inr (0, ptrs[1 := Some p]))"
| "table_spec CloseWD st ptrs =
     (case ptrs ! 1 of None \<Rightarrow> Inl NullDeref
      | Some p \<Rightarrow> if is_dir p st then Inr (0, ptrs[1 := None]) else Inr (ERR_NOT_DIR, ptrs))"

text \<open>Refinement of one operation, from the state inside of the lock.\<close>

lemma open_loop_tab:
  assumes "tab t ext ptrs ptrs m st" "res st p = Some r" "r_count r \<noteq> -1" "\<forall>i \<in> set is. i < length ptrs"
  shows "\<exists>rc st' ptrs'. open_loop t p is st = Inr (rc, st') \<and> tab t ext ptrs' ptrs' m st' \<and> evolves t st st'
    \<and> (case find (\<lambda>i. ptrs ! i = None) is of None \<Rightarrow> rc = ERR_NO_ID \<and> ptrs' = ptrs
       | Some i \<Rightarrow> rc = int i \<and> ptrs' = ptrs[i := Some p])"
  using assms(4)
proof (induction "is")
  case Nil
  then show ?case using assms(1) by auto
next
  case (Cons i "is")
  have g: "slot_get t i st = Inr (ptrs ! i)" using tab_get [OF assms(1)] Cons.prems by simp
  show ?case
  proof (cases "ptrs ! i = None")
    case True
    have i: "i < length ptrs" using Cons.prems by simp
    obtain s1 where s1: "ref (Some p) st = Inr (Some p, s1)" "tab t ext (ptrs[i := Some p]) ptrs m s1" "evolves t st s1"
      by (rule tab_ref [OF assms(1) i True assms(2,3)])
    obtain s2 where "slot_set t i (Some p) s1 = Inr s2" "tab t ext (ptrs[i := Some p]) (ptrs[i := Some p]) m s2" "evolves t s1 s2"
      by (rule tab_set [OF s1(2) i])
    then show ?thesis using g True s1 evolves_trans [OF s1(3)] by auto
  next
    case False
    then show ?thesis using g Cons by auto
  qed
qed

text \<open>An object without pointers gives up nothing else.\<close>

lemma unref_plain:
  assumes "res st q = Some rq" "r_ptrs rq = []" "q < nextRid st"
  shows "unref_all (Some q) st = (let st1 = put_res q (rq\<lparr>r_count := r_count rq - 1\<rparr>) st
    in if r_count rq = 1 then Inr (None, st1\<lparr>res := (res st1)(q := None)\<rparr>) else Inr (Some q, st1))"
proof -
  obtain n where "nextRid st = Suc n" using assms(3) by (cases "nextRid st") auto
  then show ?thesis using assms(1,2) by (simp add: unref_all_def get_res_def getThenAdd_def Let_def)
qed

lemma tab_unref_plain:
  assumes T: "tab t ext ptrs ptrs m st" and len: "1 < length ptrs" and u: "unref_all (ptrs ! 1) st = Inr (y, st')"
    and plain: "\<And>q rq. ptrs ! 1 = Some q \<Longrightarrow> res st q = Some rq \<Longrightarrow> r_ptrs rq = []"
    and p: "res st p = Some rp" "r_count rp \<noteq> -1"
  shows "if ptrs ! 1 = Some p \<and> r_count rp = 1 then res st' p = None
    else \<exists>rp'. res st' p = Some rp' \<and> r_count rp' \<noteq> -1"
proof (cases "ptrs ! 1")
  case None
  then show ?thesis using u p by (simp add: unref_all_def)
next
  case (Some q)
  have I: "rt_inv st {} {t} (\<lambda>x. ext x + count_list ptrs (Some x))" using T by (simp add: tab_def)
  have c: "0 < count_list ptrs (Some q)" using len Some by (metis count_notin neq0_conv nth_mem count_list_0_iff)
  then obtain rq where q: "res st q = Some rq" using rt_invD(5) [OF I, of q] by auto
  have "unat (r_count rq) \<noteq> 0" using rt_invD(6) [OF I q] c by simp
  then have n: "r_count rq \<noteq> 0" by auto
  have "q < nextRid st" using rt_invD(2) [OF I, of q] q by blast
  from unref_plain [OF q plain [OF Some q] this] u Some n p q show ?thesis
    by (cases "p = q") (auto simp: Let_def split: if_splits)
qed

text \<open>
  An object to be opened, or a directory to be made the working one, exists and its count does not overflow. What
  was the working directory has no pointers of its own: all objects but tables and processes are such.
\<close>

definition table_op_ok :: "table_op \<Rightarrow> rid \<Rightarrow> (rid \<Rightarrow> nat) \<Rightarrow> rstate \<Rightarrow> bool" where
  "table_op_ok op t ext st \<longleftrightarrow>
     (case op of
        Open p \<Rightarrow> (\<exists>rp. res st p = Some rp \<and> r_count rp \<noteq> -1)
      | AddWD p \<Rightarrow> p \<noteq> t \<and> (\<exists>rp. res st p = Some rp \<and> r_count rp \<noteq> -1) \<and>
          (\<forall>r q rq. res st t = Some r \<longrightarrow> r_ptrs r ! 1 = Some q \<longrightarrow> res st q = Some rq \<longrightarrow> r_ptrs rq = [])
      | _ \<Rightarrow> True)"

lemma take_update_None:
  assumes "2 \<le> i" "i < length ptrs"
  shows "(take 2 ptrs @ replicate (i - 2) None @ drop i ptrs)[i := None] = take 2 ptrs @ replicate (Suc i - 2) None @ drop (Suc i) ptrs"
proof -
  have d: "drop i ptrs = ptrs ! i # drop (Suc i) ptrs" using assms(2) by (simp add: Cons_nth_drop_Suc)
  have s: "Suc i - 2 = Suc (i - 2)" using assms(1) by simp
  show ?thesis unfolding d s using assms by (simp add: list_update_append replicate_append_same)
qed

lemma closeAll_tab:
  assumes "tab t ext ptrs ptrs m st" "2 \<le> length ptrs"
  shows "\<exists>st'. loopE (\<lambda>i s. bindE (slot_get t i s) (\<lambda>x. bindE (unref_all x s) (\<lambda>(_, s). slot_set t i None s))) [2..<length ptrs] st = Inr st'
    \<and> (let ptrs' = take 2 ptrs @ replicate (length ptrs - 2) None in tab t ext ptrs' ptrs' m st') \<and> evolves t st st'"
proof -
  let ?body = "\<lambda>i s. bindE (slot_get t i s) (\<lambda>x. bindE (unref_all x s) (\<lambda>(_, s). slot_set t i None s))"
  let ?p = "\<lambda>i. take 2 ptrs @ replicate (i - 2) None @ drop i ptrs"
  let ?I = "\<lambda>i s. tab t ext (?p i) (?p i) m s \<and> evolves t st s"
  have "(\<exists>e. loopE ?body [2..<length ptrs] st = Inl e \<and> False) \<or> (\<exists>s'. loopE ?body [2..<length ptrs] st = Inr s' \<and> ?I (length ptrs) s')"
  proof (rule loopE_upt_inv [where I = ?I])
    show "?I 2 st" using assms by simp
    fix i s assume i: "2 \<le> i" "i < length ptrs" and I: "?I i s"
    have len: "i < length (?p i)" using i by simp
    have g: "slot_get t i s = Inr (?p i ! i)" by (rule tab_get [OF conjunct1 [OF I] len])
    obtain y s1 where s1: "unref_all (?p i ! i) s = Inr (y, s1)" "tab t ext ((?p i)[i := None]) (?p i) m s1" "evolves t s s1"
      by (rule tab_unref [OF conjunct1 [OF I] len refl])
    obtain s2 where s2: "slot_set t i None s1 = Inr s2" "tab t ext ((?p i)[i := None]) ((?p i)[i := None]) m s2" "evolves t s1 s2"
      by (rule tab_set [OF s1(2) len])
    have "evolves t st s2" using I evolves_trans [OF evolves_trans [OF _ s1(3)] s2(3)] by blast
    then show "(\<exists>e. ?body i s = Inl e \<and> False) \<or> (\<exists>s'. ?body i s = Inr s' \<and> ?I (Suc i) s')"
      using g s1(1) s2(1,2) unfolding take_update_None [OF i] by simp
  qed (use assms(2) in simp)
  then show ?thesis by (simp add: Let_def)
qed


lemma run_table_spec:
  assumes "rt_inv st {} {} ext" "res st t = Some r" "0 < ext t" "r_mutex r = 1" "2 \<le> length (r_ptrs r)"
    "table_op_ok op t ext st"
  shows "case table_spec op st (r_ptrs r) of
      Inl e \<Rightarrow> run_table op t st = Inl e
    | Inr (rc, ptrs') \<Rightarrow> \<exists>st' r'. run_table op t st = Inr (rc, st') \<and> rt_inv st' {} {} ext
        \<and> res st' t = Some r' \<and> r_ptrs r' = ptrs' \<and> r_mutex r' = 1 \<and> evolves t st st'"
proof -
  let ?ptrs = "r_ptrs r"
  have T: "tab t ext ?ptrs ?ptrs 1 st" using open_tab [OF assms(1-3)] assms(4) by simp
  have fin: "\<exists>st' r'. x = Inr (rc, st') \<and> rt_inv st' {} {} ext \<and> res st' t = Some r' \<and> r_ptrs r' = ptrs' \<and> r_mutex r' = 1 \<and> evolves t st st'"
    if "x = Inr (rc, s)" "tab t ext ptrs' ptrs' 1 s" "evolves t st s" for x rc s ptrs'
    using close_tab [OF that(2)] that by blast
  have T1: "1 < length ?ptrs" using assms(5) by simp
  obtain s1 where L: "t_lock t st = Inr s1" "tab t ext ?ptrs ?ptrs 0 s1" "evolves t st s1" "\<And>q. q \<noteq> t \<Longrightarrow> res s1 q = res st q"
    using tab_lock [OF T] by auto
  show ?thesis
  proof (cases op)
    case (Open p)
    then obtain rp where rp: "res st p = Some rp" "r_count rp \<noteq> -1" using assms(6) by (auto simp: table_op_ok_def)
    obtain rp1 where rp1: "res s1 p = Some rp1" "r_count rp1 \<noteq> -1"
      using L(1) assms(2) rp by (cases "p = t") (auto simp: t_lock_def get_res_def put_res_def split: if_splits)
    obtain rc s2 ptrs' where s2: "open_loop t p [2..<length ?ptrs] s1 = Inr (rc, s2)" "tab t ext ptrs' ptrs' 0 s2" "evolves t s1 s2"
      "table_spec op st ?ptrs = Inr (rc, ptrs')"
      using open_loop_tab [OF L(2) rp1, of "[2..<length ?ptrs]"] by (auto simp: Open first_free_def split: option.splits)
    obtain s3 where s3: "t_unlock t s2 = Inr s3" "tab t ext ptrs' ptrs' 1 s3" "evolves t s2 s3"
      using tab_unlock [OF s2(2)] by auto
    have "run_table op t st = Inr (rc, s3)" using L(1) s2(1) s3(1) tab_size [OF L(2)] by (simp add: Open table_open_def)
    from fin [OF this s3(2) evolves_trans [OF evolves_trans [OF L(3) s2(3)] s3(3)]] show ?thesis using s2(4) by simp
  next
    case (Close i)
    show ?thesis
    proof (cases "i < 0 \<or> int (length ?ptrs) \<le> i \<or> i = 1")
      case True
      then have "run_table op t st = Inr (if i = 1 then ERR_CLOSE_WD else ERR_INVALID_ID, st)"
        using tab_size [OF T] T1 by (auto simp: Close table_close_def)
      from fin [OF this T evolves_refl] True T1 show ?thesis by (auto simp: Close)
    next
      case False
      then have i: "nat i < length ?ptrs" by auto
      obtain y s2 where s2: "unref_all (?ptrs ! nat i) s1 = Inr (y, s2)" "tab t ext (?ptrs[nat i := None]) ?ptrs 0 s2" "evolves t s1 s2"
        by (rule tab_unref [OF L(2) i refl])
      obtain s3 where s3: "slot_set t (nat i) None s2 = Inr s3" "tab t ext (?ptrs[nat i := None]) (?ptrs[nat i := None]) 0 s3" "evolves t s2 s3"
        by (rule tab_set [OF s2(2) i])
      obtain s4 where s4: "t_unlock t s3 = Inr s4" "tab t ext (?ptrs[nat i := None]) (?ptrs[nat i := None]) 1 s4" "evolves t s3 s4"
        using tab_unlock [OF s3(2)] by auto
      have run: "run_table op t st = Inr (if ?ptrs ! nat i = None then ERR_INVALID_ID else 0, s4)"
        using L(1) s2(1) s3(1) s4(1) tab_size [OF T] tab_get [OF L(2) i] False by (simp add: Close table_close_def)
      have "?ptrs ! nat i = None \<Longrightarrow> ?ptrs[nat i := None] = ?ptrs" by (metis list_update_id)
      then have "table_spec op st ?ptrs = Inr (if ?ptrs ! nat i = None then ERR_INVALID_ID else 0, ?ptrs[nat i := None])"
        using False by (simp add: Close)
      with fin [OF run s4(2) evolves_trans [OF evolves_trans [OF L(3) s2(3)] evolves_trans [OF s3(3) s4(3)]]]
      show ?thesis by simp
    qed
  next
    case CloseAll
    let ?p = "take 2 ?ptrs @ replicate (length ?ptrs - 2) None"
    obtain s2 where s2: "loopE (\<lambda>i s. bindE (slot_get t i s) (\<lambda>x. bindE (unref_all x s) (\<lambda>(_, s). slot_set t i None s))) [2..<length ?ptrs] s1 = Inr s2"
      "tab t ext ?p ?p 0 s2" "evolves t s1 s2"
      using closeAll_tab [OF L(2) assms(5)] by (auto simp: Let_def)
    obtain s3 where s3: "t_unlock t s2 = Inr s3" "tab t ext ?p ?p 1 s3" "evolves t s2 s3"
      using tab_unlock [OF s2(2)] by auto
    have "run_table op t st = Inr (0, s3)"
      using L(1) s2(1) s3(1) tab_size [OF L(2)] by (simp add: CloseAll closeAll_def)
    from fin [OF this s3(2) evolves_trans [OF evolves_trans [OF L(3) s2(3)] s3(3)]] show ?thesis by (simp add: CloseAll)
  next
    case (AddWD p)
    then obtain rp where rp: "res st p = Some rp" "r_count rp \<noteq> -1" "p \<noteq> t" and
      plain: "\<And>q rq. ?ptrs ! 1 = Some q \<Longrightarrow> res st q = Some rq \<Longrightarrow> r_ptrs rq = []"
      using assms(2,6) by (auto simp: table_op_ok_def)
    have rp1: "res s1 p = Some rp" using L(4) rp by simp
    show ?thesis
    proof (cases "r_type rp = DIRECTORY")
      case False
      obtain s2 where s2: "t_unlock t s1 = Inr s2" "tab t ext ?ptrs ?ptrs 1 s2" "evolves t s1 s2"
        using tab_unlock [OF L(2)] by auto
      have "run_table op t st = Inr (ERR_NOT_DIR, s2)"
        using L(1) s2(1) False rp1 by (simp add: AddWD addWorkingDir_def get_res_def)
      from fin [OF this s2(2) evolves_trans [OF L(3) s2(3)]] show ?thesis using False rp(1) by (simp add: AddWD is_dir_def)
    next
      case dir: True
      obtain y s2 where s2: "unref_all (?ptrs ! 1) s1 = Inr (y, s2)" "tab t ext (?ptrs[1 := None]) ?ptrs 0 s2" "evolves t s1 s2"
        by (rule tab_unref [OF L(2) T1 refl])
      have none: "?ptrs ! 1 = None \<Longrightarrow> s2 = s1" using s2(1) by (simp add: unref_all_def)
      have plain1: "r_ptrs rq = []" if "?ptrs ! 1 = Some q" "res s1 q = Some rq" for q rq
        using L(4) [of q] plain [of q rq] plain [of q r] that assms(2) T1 by (cases "q = t") auto
      have U: "if ?ptrs ! 1 = Some p \<and> r_count rp = 1 then res s2 p = None
          else \<exists>rp'. res s2 p = Some rp' \<and> r_count rp' \<noteq> -1"
        by (rule tab_unref_plain [OF L(2) T1 s2(1) plain1 rp1 rp(2)])
      show ?thesis
      proof (cases "?ptrs ! 1 = Some p \<and> r_count rp = 1")
        case True
        then have "run_table op t st = Inl BadIndex"
          using U L(1) dir rp1 s2(1) tab_get [OF L(2) T1] by (auto simp: AddWD addWorkingDir_def get_res_def ref_def)
        then show ?thesis using True dir rp(1) by (simp add: AddWD is_dir_def last_ref_def)
      next
        case False
        then obtain rp2 where rp2: "res s2 p = Some rp2" "r_count rp2 \<noteq> -1" using U by (auto split: if_splits)
        have len: "1 < length (?ptrs[1 := None])" "(?ptrs[1 := None]) ! 1 = None" using T1 by simp_all
        obtain s3 where s3: "ref (Some p) s2 = Inr (Some p, s3)" "tab t ext ((?ptrs[1 := None])[1 := Some p]) ?ptrs 0 s3" "evolves t s2 s3"
          by (rule tab_ref [OF s2(2) len rp2])
        obtain s4 where s4: "slot_set t 1 (Some p) s3 = Inr s4" "tab t ext (?ptrs[1 := Some p]) (?ptrs[1 := Some p]) 0 s4" "evolves t s3 s4"
          using tab_set [OF s3(2) T1, of "Some p"] by auto
        obtain s5 where s5: "t_unlock t s4 = Inr s5" "tab t ext (?ptrs[1 := Some p]) (?ptrs[1 := Some p]) 1 s5" "evolves t s4 s5"
          using tab_unlock [OF s4(2)] by auto
        have "run_table op t st = Inr (0, s5)"
          using none L(1) s2(1) s3(1) s4(1) s5(1) dir rp1 tab_get [OF L(2) T1]
          by (cases "?ptrs ! 1") (simp_all add: AddWD addWorkingDir_def get_res_def)
        from fin [OF this s5(2) evolves_trans [OF evolves_trans [OF L(3) s2(3)] evolves_trans [OF s3(3) evolves_trans [OF s4(3) s5(3)]]]]
        show ?thesis using dir False rp(1) by (auto simp: AddWD is_dir_def last_ref_def)
      qed
    qed
  next
    case CloseWD
    have g: "slot_get t 1 s1 = Inr (?ptrs ! 1)" by (rule tab_get [OF L(2) T1])
    show ?thesis
    proof (cases "?ptrs ! 1")
      case None
      then show ?thesis using L(1) g by (simp add: CloseWD closeWorkingDir_def)
    next
      case (Some p)
      have "0 < count_list ?ptrs (Some p)" using T1 Some by (metis count_notin neq0_conv nth_mem count_list_0_iff)
      then obtain rp where rp: "res s1 p = Some rp"
        using L(2) rt_invD(5) [of s1 "{}" "{t}" _ p] unfolding tab_def by force
      have ty: "is_dir p st \<longleftrightarrow> r_type rp = DIRECTORY" using L(3) rp unfolding evolves_def is_dir_def by fastforce
      obtain y s2 where s2: "unref_all (?ptrs ! 1) s1 = Inr (y, s2)" "tab t ext (?ptrs[1 := None]) ?ptrs 0 s2" "evolves t s1 s2"
        by (rule tab_unref [OF L(2) T1 refl])
      obtain s3 where s3: "slot_set t 1 None s2 = Inr s3" "tab t ext (?ptrs[1 := None]) (?ptrs[1 := None]) 0 s3" "evolves t s2 s3"
        by (rule tab_set [OF s2(2) T1])
      obtain s4 where s4: "t_unlock t s3 = Inr s4" "tab t ext (?ptrs[1 := None]) (?ptrs[1 := None]) 1 s4" "evolves t s3 s4"
        using tab_unlock [OF s3(2)] by auto
      obtain s5 where s5: "t_unlock t s1 = Inr s5" "tab t ext ?ptrs ?ptrs 1 s5" "evolves t s1 s5"
        using tab_unlock [OF L(2)] by auto
      show ?thesis
      proof (cases "r_type rp = DIRECTORY")
        case True
        then have "run_table op t st = Inr (0, s4)"
          using L(1) g s2(1) s3(1) s4(1) rp Some by (simp add: CloseWD closeWorkingDir_def get_res_def)
        from fin [OF this s4(2) evolves_trans [OF evolves_trans [OF L(3) s2(3)] evolves_trans [OF s3(3) s4(3)]]]
        show ?thesis using True ty Some by (simp add: CloseWD)
      next
        case False
        then have "run_table op t st = Inr (ERR_NOT_DIR, s5)"
          using L(1) g s5(1) rp Some by (simp add: CloseWD closeWorkingDir_def get_res_def)
        from fin [OF this s5(2) evolves_trans [OF L(3) s5(3)]] show ?thesis using False ty Some by (simp add: CloseWD)
      qed
    qed
  qed
qed

text \<open>
  C16. \<^verbatim>\<open>open\<close>, \<^verbatim>\<open>close\<close>, \<^verbatim>\<open>closeAll\<close>, \<^verbatim>\<open>addWorkingDir\<close> and \<^verbatim>\<open>closeWorkingDir\<close> of a table on a consistent state, with
  arguments as \<open>table_op_ok\<close> has them, refine the operation on its list of slots:
  \<^verbatim>\<open>open\<close> takes the first free slot from 2 on or returns \<^verbatim>\<open>ERR_NO_ID\<close>, \<^verbatim>\<open>close\<close> empties a slot or returns
  \<^verbatim>\<open>ERR_INVALID_ID\<close> or, for the working directory, \<^verbatim>\<open>ERR_CLOSE_WD\<close>, \<^verbatim>\<open>closeAll\<close> empties the slots from 2
  on, and the working directory is in slot 1. Afterwards the mutex is free again, the count of
  every object is exactly the number of references to it, every reference is to an object that
  exists, and no object that was referenced is left without reference, so what lost its last
  reference has been deleted. There are two faults: \<^verbatim>\<open>closeWorkingDir\<close> dereferences a null pointer when slot 1 is
  empty, and \<^verbatim>\<open>addWorkingDir\<close> of the object that is in slot 1 already, and that nothing else refers to, deletes it
  first and then takes a reference to what it has deleted.
\<close>

theorem table_refines_slots:
  assumes "rt_inv st {} {} ext" "res st t = Some r" "0 < ext t" "r_mutex r = 1" "2 \<le> length (r_ptrs r)"
    "table_op_ok op t ext st"
  shows "case table_spec op st (r_ptrs r) of
      Inl e \<Rightarrow> run_table op t st = Inl e
    | Inr (rc, ptrs') \<Rightarrow> \<exists>st' r'. run_table op t st = Inr (rc, st') \<and> rt_inv st' {} {} ext
        \<and> res st' t = Some r' \<and> r_ptrs r' = ptrs' \<and> r_mutex r' = 1 \<and> evolves t st st'"
  by (rule run_table_spec [OF assms])

definition small_tables :: rstate where
  "small_tables = \<lparr>res = [0 \<mapsto> \<lparr>r_type = TABLE, r_count = 1, r_ptrs = [None, None, Some 1, None], r_mutex = 1\<rparr>,
     1 \<mapsto> \<lparr>r_type = SEMAPHORE, r_count = 1, r_ptrs = [], r_mutex = 1\<rparr>], nextRid = 2\<rparr>"

lemma small_tables_inv: "rt_inv small_tables {} {} (\<lambda>p. if p = 0 then 1 else 0)"
proof -
  have d: "dom (res small_tables) = {0, 1}" by (auto simp: small_tables_def)
  have i: "indeg small_tables {} p = (if p = 1 then 1 else 0)" for p
    unfolding indeg_def d by (simp add: small_tables_def)
  show ?thesis unfolding rt_inv_def d i by (auto simp: small_tables_def split: if_splits)
qed

theorem table_refines_slots_witness:
  "\<exists>st' r'. run_table (Close 2) 0 small_tables = Inr (0, st') \<and> res st' 0 = Some r' \<and> r_ptrs r' = [None, None, None, None]
     \<and> rt_inv st' {} {} (\<lambda>p. if p = 0 then 1 else 0)"
  using table_refines_slots [OF small_tables_inv, of 0 _ "Close 2"]
  by (simp add: table_op_ok_def small_tables_def numeral_2_eq_2 numeral_3_eq_3) blast

text \<open>
  An identifier: what \<^verbatim>\<open>open\<close> returns in a table with a free slot is found by \<^verbatim>\<open>get\<close> exactly under the type
  of the object, \<^verbatim>\<open>close\<close> of it returns 0 and restores the slots, and from then on \<^verbatim>\<open>get\<close> of it
  dereferences a null pointer, where the handlers of the system calls expect to get one.
\<close>

theorem open_get_close:
  assumes "rt_inv st {} {} ext" "res st t = Some r" "0 < ext t" "r_mutex r = 1" "2 \<le> length (r_ptrs r)"
    "res st p = Some rp" "r_count rp \<noteq> -1" "first_free (r_ptrs r) = Some i"
  shows "\<exists>st1 st2. table_open t p st = Inr (int i, st1) \<and> 2 \<le> i
      \<and> table_get t (int i) (r_type rp) st1 = Inr (Some p)
      \<and> (\<forall>ty. ty \<noteq> r_type rp \<longrightarrow> table_get t (int i) ty st1 = Inr None)
      \<and> table_close t (int i) st1 = Inr (0, st2) \<and> map_option r_ptrs (res st2 t) = Some (r_ptrs r)
      \<and> (\<forall>ty. table_get t (int i) ty st2 = Inl NullDeref)"
proof -
  have i: "2 \<le> i" "i < length (r_ptrs r)" "r_ptrs r ! i = None"
    using assms(8) by (auto simp: first_free_def find_Some_iff)
  obtain st1 r1 where 1: "table_open t p st = Inr (int i, st1)" "rt_inv st1 {} {} ext" "res st1 t = Some r1"
    "r_ptrs r1 = (r_ptrs r)[i := Some p]" "r_mutex r1 = 1" "evolves t st st1"
    using run_table_spec [OF assms(1-5), of "Open p"] assms(6-8) by (auto simp: table_op_ok_def)
  have "0 < count_list (r_ptrs r1) (Some p)"
    using i(2) unfolding 1(4) by (metis count_notin neq0_conv set_update_memI count_list_0_iff)
  then have "0 < indeg st1 {} p + ext p"
    using indeg_zombie [OF rt_invD(1) [OF 1(2)] 1(3), of "{}" p] by simp
  then have "p \<in> dom (res st1)" using rt_invD(5) [OF 1(2), of p] by simp
  then obtain rp1 where rp1: "res st1 p = Some rp1" by auto
  then have rt: "r_type rp1 = r_type rp" using 1(6) assms(6) unfolding evolves_def by (metis option.inject)
  have "table_spec (Close (int i)) st1 (r_ptrs r1) = Inr (0, r_ptrs r)"
    using i list_update_id [of "r_ptrs r" i] by (simp add: 1(4))
  then obtain st2 r2 where 2: "table_close t (int i) st1 = Inr (0, st2)" "res st2 t = Some r2" "r_ptrs r2 = r_ptrs r"
    using run_table_spec [OF 1(2,3) assms(3) 1(5), of "Close (int i)"] assms(5) 1(4) by (auto simp: table_op_ok_def)
  have "table_get t (int i) ty st1 = (if ty = r_type rp then Inr (Some p) else Inr None)" for ty
    using i(2) 1(3,4) rp1 rt by (auto simp: table_get_def t_size_def slot_get_def get_res_def)
  moreover have "table_get t (int i) ty st2 = Inl NullDeref" for ty
    using i 2(2,3) by (simp add: table_get_def t_size_def slot_get_def get_res_def)
  ultimately show ?thesis using 1(1) 2 i(1) by simp
qed

theorem open_get_close_witness:
  "\<exists>st1 st2. table_open 0 1 small_tables = Inr (3, st1) \<and> table_get 0 3 SEMAPHORE st1 = Inr (Some 1)
     \<and> table_close 0 3 st1 = Inr (0, st2) \<and> (\<forall>ty. table_get 0 3 ty st2 = Inl NullDeref)"
proof -
  have st: "res small_tables 0 = Some \<lparr>r_type = TABLE, r_count = 1, r_ptrs = [None, None, Some 1, None], r_mutex = 1\<rparr>"
    "res small_tables 1 = Some \<lparr>r_type = SEMAPHORE, r_count = 1, r_ptrs = [], r_mutex = 1\<rparr>"
    by (simp_all add: small_tables_def)
  have f: "first_free [None, None, Some 1, None] = Some 3" by (simp add: first_free_def upt_rec)
  from open_get_close [OF small_tables_inv st(1) _ _ _ st(2), unfolded resource.simps, OF _ _ _ _ f]
  obtain st1 st2 where "table_open 0 1 small_tables = Inr (int 3, st1)" "table_get 0 (int 3) SEMAPHORE st1 = Inr (Some 1)"
    "table_close 0 (int 3) st1 = Inr (0, st2)" "\<forall>ty. table_get 0 (int 3) ty st2 = Inl NullDeref"
    by (simp, elim exE conjE, simp)
  then show ?thesis by (intro exI [of _ st1] exI [of _ st2]) simp
qed

text \<open>A reference from outside that is given up or taken, and the assignment of a \<^verbatim>\<open>Reference\<close>.\<close>

lemma unref_all_inv:
  assumes "rt_inv st {} {} ext" "0 < ext p"
  shows "\<exists>y st'. unref_all (Some p) st = Inr (y, st') \<and> rt_inv st' {} {} (ext(p := ext p - 1)) \<and> shrinks st {} st'"
proof -
  have "card (dom (res st)) \<le> card {..<nextRid st}" using rt_invD(2) [OF assms(1)] by (intro card_mono) auto
  then show ?thesis using unref_inv [OF assms(1,2), of "nextRid st"] by (auto simp: unref_all_def)
qed

lemma ref_inv:
  assumes "rt_inv st {} {} ext" "res st p = Some r" "r_count r \<noteq> -1"
  shows "\<exists>st'. ref (Some p) st = Inr (Some p, st') \<and> rt_inv st' {} {} (ext(p := ext p + 1))"
proof -
  have "r_count r + 1 \<noteq> 0" using assms(3) by (simp add: eq_neg_iff_add_eq_0 [symmetric])
  then have "unat (r_count r + 1) = indeg st {} p + (ext p + 1)"
    using unatSuc [of "r_count r"] rt_invD(6) [OF assms(1,2)] by (simp add: add.commute)
  from inv_count [OF assms(1,2) _ this] show ?thesis
    using assms(2) by (simp add: ref_def getThenAdd_def get_res_def)
qed

lemma reference_assign_inv:
  assumes "rt_inv st {} {} ext" "0 < ext p" "0 < ext q" "p \<noteq> q"
    "\<And>y s r. unref_all (Some p) st = Inr (y, s) \<Longrightarrow> res s q = Some r \<Longrightarrow> r_count r \<noteq> -1"
  shows "\<exists>st'. reference_assign (Some p) (Some q) st = Inr (Some q, st') \<and> rt_inv st' {} {} (ext(p := ext p - 1, q := ext q + 1))"
proof -
  obtain y s1 where s1: "unref_all (Some p) st = Inr (y, s1)" "rt_inv s1 {} {} (ext(p := ext p - 1))"
    using unref_all_inv [OF assms(1,2)] by blast
  have "0 < indeg s1 {} q + (ext(p := ext p - 1)) q" using assms(3,4) by simp
  then have "q \<in> dom (res s1)" using rt_invD(5) [OF s1(2), of q] by simp
  then obtain r where r: "res s1 q = Some r" by auto
  from ref_inv [OF s1(2) r assms(5) [OF s1(1) r]] assms(4) show ?thesis using s1(1) by (auto simp: reference_assign_def)
qed

section \<open>Forking a table\<close>

lemma inv_new:
  assumes "rt_inv st N Z ext" "new_res ty c ptrs st = (p, st')" "\<forall>x \<in> set ptrs. x = None"
  shows "rt_inv st' N Z (ext(p := unat c))" "p = nextRid st" "res st' = (res st)(p \<mapsto> \<lparr>r_type = ty, r_count = c, r_ptrs = ptrs, r_mutex = 1\<rparr>)"
    "nextRid st' = Suc (nextRid st)"
proof -
  note D = rt_invD [OF assms(1)]
  show p: "p = nextRid st" and r: "res st' = (res st)(p \<mapsto> \<lparr>r_type = ty, r_count = c, r_ptrs = ptrs, r_mutex = 1\<rparr>)"
    and n: "nextRid st' = Suc (nextRid st)"
    using assms(2) by (auto simp: new_res_def Let_def)
  have fresh: "p \<notin> dom (res st)" using D(2) p by blast
  have pZ: "p \<notin> Z" using D(3) fresh by blast
  have dm: "dom (res st') - Z = insert p (dom (res st) - Z)" using r pZ by auto
  have i: "indeg st' Z x = indeg st Z x" for x
  proof -
    have "indeg st' Z x = count_list ptrs (Some x) + (\<Sum>q \<in> dom (res st) - Z. count_list (r_ptrs (the (res st' q))) (Some x))"
      unfolding indeg_def dm by (subst sum.insert) (use D(1) fresh r in auto)
    also have "(\<Sum>q \<in> dom (res st) - Z. count_list (r_ptrs (the (res st' q))) (Some x)) = indeg st Z x"
      unfolding indeg_def using fresh r by (intro sum.cong) auto
    also have "count_list ptrs (Some x) = 0" using assms(3) by (auto simp: count_list_0_iff)
    finally show ?thesis by simp
  qed
  have "indeg st Z p + ext p = 0" using D(5) [of p] fresh by (cases "indeg st Z p + ext p") auto
  then have z: "indeg st Z p = 0" by simp
  have "p < nextRid st'" "\<And>q. q \<in> dom (res st) \<Longrightarrow> q < nextRid st'" using D(2) p n by (auto intro: less_SucI)
  then show "rt_inv st' N Z (ext(p := unat c))"
    using assms(1) fresh pZ z D(4) unfolding rt_inv_def i r by (auto split: if_splits)
qed

definition held :: "rid option \<Rightarrow> rid \<Rightarrow> nat" where
  "held x p = (if x = Some p then 1 else 0)"

text \<open>What the copy of a slot is: nothing for a process, a new file for a file, the same object otherwise.\<close>

definition forked :: "rstate \<Rightarrow> rstate \<Rightarrow> rid option \<Rightarrow> rid option \<Rightarrow> bool" where
  "forked st s x y \<longleftrightarrow>
     (case x of None \<Rightarrow> y = None
      | Some q \<Rightarrow> (case map_option r_type (res st q) of
          None \<Rightarrow> False
        | Some PROCESS \<Rightarrow> y = None
        | Some FILE \<Rightarrow> (\<exists>q'. y = Some q' \<and> nextRid st \<le> q' \<and> res s q' = Some \<lparr>r_type = FILE, r_count = 1, r_ptrs = [], r_mutex = 1\<rparr>)
        | Some _ \<Rightarrow> y = x))"

definition forkable :: "rstate \<Rightarrow> rid option \<Rightarrow> nat \<Rightarrow> bool" where
  "forkable st x n \<longleftrightarrow>
     (case x of None \<Rightarrow> True
      | Some q \<Rightarrow> (case res st q of None \<Rightarrow> False
          | Some r \<Rightarrow> r_type r \<noteq> TABLE \<and> (r_type r = FILE \<longrightarrow> r_count r = 1) \<and> unat (r_count r) + n < 2 ^ 32))"

text \<open>The objects there were, after \<open>i\<close> slots: only the counts of shared objects have grown.\<close>

definition shared :: "rid \<Rightarrow> rstate \<Rightarrow> nat \<Rightarrow> rstate \<Rightarrow> bool" where
  "shared tp st i s \<longleftrightarrow> nextRid st \<le> nextRid s \<and> (\<forall>q < nextRid st. q \<noteq> tp \<longrightarrow>
     (case res st q of None \<Rightarrow> res s q = None
      | Some r \<Rightarrow> \<exists>c. res s q = Some (r\<lparr>r_count := c\<rparr>) \<and> unat c \<le> unat (r_count r) + i
          \<and> (r_type r \<in> {PROCESS, FILE, TABLE} \<longrightarrow> c = r_count r)))"

lemma sharedD:
  assumes "shared tp st i s" "res st q = Some r" "q < nextRid st" "q \<noteq> tp"
  obtains c where "res s q = Some (r\<lparr>r_count := c\<rparr>)" "unat c \<le> unat (r_count r) + i" "r_type r \<in> {PROCESS, FILE, TABLE} \<longrightarrow> c = r_count r"
  using assms unfolding shared_def by fastforce

lemma shared_mono: "shared tp st i s \<Longrightarrow> shared tp st (Suc i) s"
  unfolding shared_def by (fastforce split: option.splits)

lemma fork_slot:
  assumes inv: "rt_inv s {tp} {tp} e" and sh: "shared tp st i s" and q: "res st q = Some r" "q < nextRid st" "q \<noteq> tp"
    and ok: "forkable st (Some q) n" "i < n"
  shows "\<exists>y s'. forkMe (Suc fuel) q s = Inr (y, s') \<and> rt_inv s' {tp} {tp} (\<lambda>x. e x + held y x) \<and> shared tp st (Suc i) s'
    \<and> forked st s' (Some q) y \<and> (\<forall>z. z = tp \<or> nextRid st \<le> z \<and> z < nextRid s \<longrightarrow> res s' z = res s z)"
proof -
  obtain c where c: "res s q = Some (r\<lparr>r_count := c\<rparr>)" "unat c \<le> unat (r_count r) + i" "r_type r \<in> {PROCESS, FILE, TABLE} \<longrightarrow> c = r_count r"
    by (rule sharedD [OF sh q])
  have f: "r_type r \<noteq> TABLE" "r_type r = FILE \<longrightarrow> r_count r = 1" "unat (r_count r) + n < 2 ^ 32"
    using ok(1) q(1) by (simp_all add: forkable_def)
  note D = rt_invD [OF inv]
  consider "r_type r = PROCESS" | "r_type r = FILE" | "r_type r \<in> {SEMAPHORE, DIRECTORY, OTHER}"
    using f(1) by (cases "r_type r") auto
  then show ?thesis
  proof cases
    case 1
    then show ?thesis using inv c(1) shared_mono [OF sh] q(1)
      by (intro exI [of _ None] exI [of _ s]) (simp add: get_res_def forked_def held_def)
  next
    case 2
    obtain p s' where n: "new_res FILE 1 [] s = (p, s')" by (cases "new_res FILE 1 [] s") auto
    have none: "\<forall>x \<in> set []. x = (None :: rid option)" by simp
    note N = inv_new [OF inv n none]
    have "p \<notin> dom (res s)" using D(2) [of p] N(2) by blast
    then have "\<not> 0 < indeg s {tp} p + e p" using D(5) [of p] by blast
    then have ep: "e p = 0" by simp
    have "tp \<noteq> p" using D(3) \<open>p \<notin> dom (res s)\<close> by blast
    have "e(p := unat (1 :: u32)) = (\<lambda>x. e x + held (Some p) x)" using ep by (auto simp: held_def fun_eq_iff)
    moreover have "nextRid st \<le> p" using sh N(2) by (simp add: shared_def)
    moreover have "shared tp st (Suc i) s'"
      using shared_mono [OF sh] N(2-4) \<open>nextRid st \<le> p\<close> by (auto simp: shared_def split: option.splits)
    ultimately show ?thesis using n N 2 c f(2) q(1) \<open>tp \<noteq> p\<close>
      by (intro exI [of _ "Some p"] exI [of _ s']) (auto simp: get_res_def forked_def)
  next
    case 3
    have ne: "c \<noteq> -1"
    proof
      assume "c = -1"
      then have "unat c = 2 ^ 32 - 1" by (simp add: unsigned_minus_1_eq_mask mask_eq_exp_minus_1)
      then show False using c(2) f(3) ok(2) by simp
    qed
    then have nz: "c + 1 \<noteq> 0" by (simp add: eq_neg_iff_add_eq_0 [symmetric])
    then have u: "unat (c + 1) = unat c + 1" using unatSuc [of c] by (simp add: add.commute)
    let ?s = "put_res q (r\<lparr>r_count := c + 1\<rparr>) s"
    have qt: "q \<notin> {tp}" using q(3) by simp
    have "rt_inv ?s {tp} {tp} (e(q := e q + 1))"
      using inv_count [OF inv c(1) qt, of "c + 1" "e q + 1"] D(6) [OF c(1) qt] u q(3) by simp
    moreover have "e(q := e q + 1) = (\<lambda>x. e x + held (Some q) x)" by (auto simp: held_def fun_eq_iff)
    moreover have "shared tp st (Suc i) ?s"
      unfolding shared_def
    proof (intro conjI allI impI)
      show "nextRid st \<le> nextRid ?s" using sh by (simp add: shared_def)
      fix z assume z: "z < nextRid st" "z \<noteq> tp"
      show "case res st z of None \<Rightarrow> res ?s z = None
        | Some r \<Rightarrow> \<exists>c. res ?s z = Some (r\<lparr>r_count := c\<rparr>) \<and> unat c \<le> unat (r_count r) + Suc i
          \<and> (r_type r \<in> {PROCESS, FILE, TABLE} \<longrightarrow> c = r_count r)"
        using shared_mono [OF sh] z 3 c(2) u q(1) by (cases "z = q") (auto simp: shared_def cong: option.case_cong)
    qed
    ultimately show ?thesis using c(1) 3 q
      by (intro exI [of _ "Some q"] exI [of _ ?s])
        (auto simp: get_res_def ref_def getThenAdd_def forked_def)
  qed
qed

lemma list_update_append_None:
  assumes "length xs = i" "i < n"
  shows "(xs @ replicate (n - i) None)[i := y] = (xs @ [y]) @ replicate (n - Suc i) None"
proof -
  have "n - i = Suc (n - Suc i)" using assms(2) by simp
  then show ?thesis using assms(1) by (simp add: list_update_append)
qed

lemma forked_later:
  assumes "forked st s x y" "\<And>z. nextRid st \<le> z \<Longrightarrow> map_option r_type (res s z) = Some FILE \<Longrightarrow> res s' z = res s z"
  shows "forked st s' x y"
  using assms by (fastforce simp: forked_def split: option.splits ResourceType.splits)

lemma shared_put: "shared tp st i s \<Longrightarrow> shared tp st i (put_res tp r s)"
  unfolding shared_def by (simp cong: option.case_cong)

lemma shared_init:
  assumes "nextRid st \<le> nextRid s" "\<And>q. q < nextRid st \<Longrightarrow> res s q = res st q"
  shows "shared tp st 0 s"
proof -
  have "case res st q of None \<Rightarrow> res s q = None
      | Some r \<Rightarrow> \<exists>c. res s q = Some (r\<lparr>r_count := c\<rparr>) \<and> unat c \<le> unat (r_count r) + 0
          \<and> (r_type r \<in> {PROCESS, FILE, TABLE} \<longrightarrow> c = r_count r)" if "q < nextRid st" for q
  proof (cases "res st q")
    case (Some r)
    then show ?thesis using assms(2) [OF that] by (simp) (rule exI [of _ "r_count r"], simp)
  qed (use assms(2) [OF that] in simp)
  then show ?thesis using assms(1) by (simp add: shared_def)
qed

lemma fork_entries_all:
  assumes inv: "rt_inv st {} {} ext" and r: "res st t = Some r" "r_type r = TABLE"
    and ok: "\<forall>x \<in> set (r_ptrs r). forkable st x (length (r_ptrs r))"
  shows "\<exists>st' tp r'. table_forkMe t st = Inr (Some tp, st') \<and> tp = nextRid st \<and> rt_inv st' {} {} ext
      \<and> res st' tp = Some r' \<and> r_type r' = TABLE \<and> r_count r' = 0 \<and> r_mutex r' = 1 \<and> length (r_ptrs r') = length (r_ptrs r)
      \<and> (\<forall>i < length (r_ptrs r). forked st st' (r_ptrs r ! i) (r_ptrs r' ! i)) \<and> shared tp st (length (r_ptrs r)) st'"
proof -
  let ?ptrs = "r_ptrs r" let ?n = "length ?ptrs"
  note D = rt_invD [OF inv]
  obtain tp s0 where new: "new_res TABLE 0 (replicate ?n None) st = (tp, s0)"
    by (cases "new_res TABLE 0 (replicate ?n None) st") auto
  have none: "\<forall>x \<in> set (replicate ?n None). x = (None :: rid option)" by simp
  note N = inv_new [OF inv new none]
  have tp: "tp \<notin> dom (res st)" using D(2) [of tp] N(2) by blast
  then have "\<not> 0 < indeg st {} tp + ext tp" using D(5) [of tp] by blast
  then have e0: "ext tp = 0" "ext(tp := unat (0 :: u32)) = ext" by auto
  have tr: "res s0 tp = Some \<lparr>r_type = TABLE, r_count = 0, r_ptrs = replicate ?n None, r_mutex = 1\<rparr>" using N(3) by simp
  have inv0: "rt_inv s0 {} {} ext" using N(1) unfolding e0 .
  have "indeg s0 {} tp = 0" using rt_invD(6) [OF inv0 tr] by simp
  from inv_zombie [OF inv0 tr _ this] e0 have I0: "rt_inv s0 {tp} {tp} ext"
    by (simp add: count_list_0_iff fun_eq_iff[symmetric] in_set_replicate fun_upd_idem)
  obtain fuel where fuel: "nextRid st = Suc fuel" using D(2) [of t] r(1) by (cases "nextRid st") auto
  let ?body = "\<lambda>i s. bindE (slot_get t i s) (\<lambda>x. case x of None \<Rightarrow> slot_set tp i None s
     | Some q \<Rightarrow> bindE (forkMe (nextRid st) q s) (\<lambda>(y, s). slot_set tp i y s))"
  let ?I = "\<lambda>i s. \<exists>xs. length xs = i \<and> rt_inv s {tp} {tp} (\<lambda>x. ext x + count_list xs (Some x)) \<and> shared tp st i s
      \<and> res s tp = Some \<lparr>r_type = TABLE, r_count = 0, r_ptrs = xs @ replicate (?n - i) None, r_mutex = 1\<rparr>
      \<and> (\<forall>j < i. forked st s (?ptrs ! j) (xs ! j))"
  have "(\<exists>e. loopE ?body [0..<?n] s0 = Inl e \<and> False) \<or> (\<exists>s'. loopE ?body [0..<?n] s0 = Inr s' \<and> ?I ?n s')"
  proof (rule loopE_upt_inv [where I = ?I])
    have "shared tp st 0 s0" by (rule shared_init) (use N(2-4) in auto)
    then show "?I 0 s0" using I0 tr by (intro exI [of _ "[]"]) auto
    fix i s assume i: "0 \<le> i" "i < ?n" and I: "?I i s"
    from I obtain xs where xs: "length xs = i" "rt_inv s {tp} {tp} (\<lambda>x. ext x + count_list xs (Some x))" "shared tp st i s"
      "res s tp = Some \<lparr>r_type = TABLE, r_count = 0, r_ptrs = xs @ replicate (?n - i) None, r_mutex = 1\<rparr>"
      "\<forall>j < i. forked st s (?ptrs ! j) (xs ! j)" by blast
    have told: "t < nextRid st" "t \<noteq> tp" using D(2) [of t] r(1) tp by auto
    obtain c where "res s t = Some (r\<lparr>r_count := c\<rparr>)" by (rule sharedD [OF xs(3) r(1) told])
    then have g: "slot_get t i s = Inr (?ptrs ! i)" using i(2) by (simp add: slot_get_def get_res_def)
    obtain y s1 where s1: "(case ?ptrs ! i of None \<Rightarrow> slot_set tp i None s
        | Some q \<Rightarrow> bindE (forkMe (nextRid st) q s) (\<lambda>(y, s). slot_set tp i y s)) = slot_set tp i y s1"
      "rt_inv s1 {tp} {tp} (\<lambda>x. ext x + count_list xs (Some x) + held y x)" "shared tp st (Suc i) s1"
      "forked st s1 (?ptrs ! i) y" "\<And>z. z = tp \<or> nextRid st \<le> z \<and> z < nextRid s \<Longrightarrow> res s1 z = res s z"
    proof (cases "?ptrs ! i")
      case None
      show ?thesis by (rule that [of None s]) (use None xs shared_mono in \<open>auto simp: held_def forked_def\<close>)
    next
      case (Some q)
      then have fk: "forkable st (Some q) ?n" using ok i(2) by (metis nth_mem)
      then obtain rq where q: "res st q = Some rq" by (auto simp: forkable_def split: option.splits)
      then have "q < nextRid st" "q \<noteq> tp" using D(2) [of q] tp by auto
      from fork_slot [OF xs(2,3) q this fk i(2), of fuel]
      obtain y s1 where "forkMe (nextRid st) q s = Inr (y, s1)"
        "rt_inv s1 {tp} {tp} (\<lambda>x. ext x + count_list xs (Some x) + held y x)" "shared tp st (Suc i) s1"
        "forked st s1 (Some q) y" "\<forall>z. z = tp \<or> nextRid st \<le> z \<and> z < nextRid s \<longrightarrow> res s1 z = res s z"
        unfolding fuel by blast
      then show ?thesis using Some by (intro that [of y s1]) auto
    qed
    let ?r = "\<lparr>r_type = TABLE, r_count = 0, r_ptrs = (xs @ [y]) @ replicate (?n - Suc i) None, r_mutex = 1\<rparr>"
    have tp1: "res s1 tp = Some \<lparr>r_type = TABLE, r_count = 0, r_ptrs = xs @ replicate (?n - i) None, r_mutex = 1\<rparr>"
      using s1(5) [of tp] xs(4) by simp
    have set: "slot_set tp i y s1 = Inr (put_res tp ?r s1)"
      using tp1 i(2) xs(1) list_update_append_None [OF xs(1) i(2), of y] by (simp add: slot_set_def get_res_def)
    have "rt_inv (put_res tp ?r s1) {tp} {tp} (\<lambda>x. ext x + count_list (xs @ [y]) (Some x))"
      using inv_put_zombie [OF s1(2), of tp ?r] by (simp add: held_def cong: if_cong) (simp add: add.commute if_distrib cong: if_cong)
    moreover have "forked st (put_res tp ?r s1) (?ptrs ! j) ((xs @ [y]) ! j)" if "j < Suc i" for j
    proof (cases "j = i")
      case True
      have "forked st (put_res tp ?r s1) (?ptrs ! i) y"
        by (rule forked_later [OF s1(4)]) (use tp1 in auto)
      then show ?thesis using True xs(1) by (simp add: nth_append)
    next
      case False
      then have "forked st s (?ptrs ! j) (xs ! j)" using xs(5) that by simp
      then have "forked st (put_res tp ?r s1) (?ptrs ! j) (xs ! j)"
      proof (rule forked_later)
        fix z assume z: "nextRid st \<le> z" "map_option r_type (res s z) = Some FILE"
        then have "z < nextRid s" "z \<noteq> tp" using rt_invD(2) [OF xs(2), of z] xs(4) by auto
        then show "res (put_res tp ?r s1) z = res s z" using s1(5) [of z] z(1) by simp
      qed
      then show ?thesis using False that xs(1) by (simp add: nth_append)
    qed
    moreover have "?body i s = Inr (put_res tp ?r s1)" using g s1(1) set by simp
    ultimately show "(\<exists>e. ?body i s = Inl e \<and> False) \<or> (\<exists>s'. ?body i s = Inr s' \<and> ?I (Suc i) s')"
      using xs(1) shared_put [OF s1(3)] by (intro disjI2 exI [of _ "put_res tp ?r s1"] conjI exI [of _ "xs @ [y]"]) auto
  qed simp
  then obtain s' xs where s': "loopE ?body [0..<?n] s0 = Inr s'" "length xs = ?n"
    "rt_inv s' {tp} {tp} (\<lambda>x. ext x + count_list xs (Some x))" "shared tp st ?n s'"
    "res s' tp = Some \<lparr>r_type = TABLE, r_count = 0, r_ptrs = xs, r_mutex = 1\<rparr>" "\<forall>j < ?n. forked st s' (?ptrs ! j) (xs ! j)"
    by auto
  have "table_forkMe t st = Inr (Some tp, s')"
    using s'(1) r new by (simp add: table_forkMe_def get_res_def new_Table_def)
  moreover have "rt_inv s' {} {} ext"
  proof -
    have i: "indeg s' {tp} x + (ext x + count_list xs (Some x)) = indeg s' {} x + ext x" for x
      using indeg_zombie [OF rt_invD(1) [OF s'(3)] s'(5), of "{}" x] by simp
    have "\<not> 0 < indeg s' {} tp + ext tp" using rt_invD(5) [OF s'(3), of tp] unfolding i by blast
    then have z: "indeg s' {} tp + ext tp = 0" by simp
    have "unat (r_count q) = indeg s' {} p + ext p" if "res s' p = Some q" for p q
      using rt_invD(6) [OF s'(3) that] z s'(5) that unfolding i by (cases "p = tp") auto
    then show ?thesis using s'(3) unfolding rt_inv_def i by auto
  qed
  ultimately show ?thesis using s' N(2) by auto
qed

text \<open>
  \<^verbatim>\<open>fork\<close> of a table: the new table has the same size and, slot by slot, nothing for a process, a
  new file of count 1 for a file, and the same object for a semaphore or directory; the count of
  each shared object grows by the references that the new table holds, all else is unchanged, and
  the counts are exact again. The new table itself has the count 0 until its process refers to it.
\<close>

theorem fork_copies_table:
  assumes "rt_inv st {} {} ext" "res st t = Some r" "r_type r = TABLE"
    "\<forall>x \<in> set (r_ptrs r). forkable st x (length (r_ptrs r))"
  shows "\<exists>st' tp r'. table_forkMe t st = Inr (Some tp, st') \<and> tp = nextRid st \<and> rt_inv st' {} {} ext
      \<and> res st' tp = Some r' \<and> r_type r' = TABLE \<and> r_count r' = 0 \<and> r_mutex r' = 1 \<and> length (r_ptrs r') = length (r_ptrs r)
      \<and> (\<forall>i < length (r_ptrs r). forked st st' (r_ptrs r ! i) (r_ptrs r' ! i)) \<and> shared tp st (length (r_ptrs r)) st'"
  by (rule fork_entries_all [OF assms])

theorem fork_copies_table_witness:
  "\<exists>st' r'. table_forkMe 0 small_tables = Inr (Some 2, st') \<and> res st' 2 = Some r' \<and> r_ptrs r' ! 2 = Some 1
     \<and> rt_inv st' {} {} (\<lambda>p. if p = 0 then 1 else 0)"
proof -
  let ?R = "\<lparr>r_type = TABLE, r_count = 1, r_ptrs = [None, None, Some 1, None], r_mutex = 1\<rparr>"
  have st: "res small_tables 0 = Some ?R" "r_type ?R = TABLE" "\<forall>x \<in> set (r_ptrs ?R). forkable small_tables x (length (r_ptrs ?R))"
    by (simp_all add: small_tables_def forkable_def)
  from fork_copies_table [OF small_tables_inv st] obtain st' tp r' where
    f: "table_forkMe 0 small_tables = Inr (Some tp, st')" "tp = nextRid small_tables"
      "rt_inv st' {} {} (\<lambda>p. if p = 0 then 1 else 0)" "res st' tp = Some r'"
      "\<forall>i < length (r_ptrs ?R). forked small_tables st' (r_ptrs ?R ! i) (r_ptrs r' ! i)"
    by blast
  have "forked small_tables st' (Some 1) (r_ptrs r' ! 2)" using f(5) [rule_format, of 2] by (simp add: numeral_2_eq_2)
  then have "r_ptrs r' ! 2 = Some 1" by (simp add: forked_def small_tables_def)
  then show ?thesis using f by (auto simp: small_tables_def)
qed

end
