(* ===== verification/Descriptors.thy ===== *)
theory Descriptors
  imports Kernel_Prelude
begin

text \<open>
  \<^verbatim>\<open>kernel/mmu.cc\<close>, \<^verbatim>\<open>kernel/idt.cc\<close>, \<^verbatim>\<open>kernel/tss.cc\<close> and the set-up in \<^verbatim>\<open>kernel/pic.cc\<close>: the
  descriptors of the processor, eight bytes in two words whose fields are scattered over both,
  and the interrupt table with the handlers of the sixteen lines of the interrupt controllers.
  Where a symbol is defined in assembly (segment selectors, handler addresses) it is an argument.
\<close>

record descriptor =
  f0 :: u32
  f1 :: u32

section \<open>Fields of a word\<close>

definition mask_bits :: "u32 \<Rightarrow> u32 \<Rightarrow> u32" where
  "mask_bits leftBit rightBit =
     (let leftBit = leftBit AND 0x1f;
          rightBit = rightBit AND 0x1f;
          n = leftBit - rightBit + 1
      in push_bit (unat rightBit) (push_bit (unat n) 1 - 1))"

definition mms :: "u32 \<Rightarrow> u32 \<Rightarrow> u32 \<Rightarrow> u32 \<Rightarrow> u32" where
  "mms p v leftBit rightBit =
     (let sm = mask_bits leftBit rightBit in (p AND NOT sm) OR (push_bit (unat rightBit) v AND sm))"

definition mme :: "u32 \<Rightarrow> u32 \<Rightarrow> u32 \<Rightarrow> u32" where
  "mme v leftBit rightBit = drop_bit (unat rightBit) (v AND mask_bits leftBit rightBit)"

section \<open>Fields of a descriptor\<close>

definition setNullDescriptor :: "descriptor \<Rightarrow> descriptor" where
  "setNullDescriptor p = p\<lparr>f0 := 0, f1 := 0\<rparr>"

definition set_f0 :: "u32 \<Rightarrow> u32 \<Rightarrow> u32 \<Rightarrow> descriptor \<Rightarrow> descriptor" where
  "set_f0 v l r p = p\<lparr>f0 := mms (f0 p) v l r\<rparr>"

definition set_f1 :: "u32 \<Rightarrow> u32 \<Rightarrow> u32 \<Rightarrow> descriptor \<Rightarrow> descriptor" where
  "set_f1 v l r p = p\<lparr>f1 := mms (f1 p) v l r\<rparr>"

definition setP :: "u32 \<Rightarrow> descriptor \<Rightarrow> descriptor" where "setP v = set_f1 v 15 15"
definition getP :: "descriptor \<Rightarrow> u32" where "getP p = mme (f1 p) 15 15"
definition setG :: "u32 \<Rightarrow> descriptor \<Rightarrow> descriptor" where "setG v = set_f1 v 23 23"
definition getG :: "descriptor \<Rightarrow> u32" where "getG p = mme (f1 p) 23 23"
definition setD :: "u32 \<Rightarrow> descriptor \<Rightarrow> descriptor" where "setD d = set_f1 d 22 22"
definition getD :: "descriptor \<Rightarrow> u32" where "getD p = mme (f1 p) 22 22"
definition setB :: "u32 \<Rightarrow> descriptor \<Rightarrow> descriptor" where "setB d = setD d"
definition getB :: "descriptor \<Rightarrow> u32" where "getB p = getD p"

definition setSelector :: "u32 \<Rightarrow> descriptor \<Rightarrow> descriptor" where
  "setSelector selector = set_f0 selector 31 16"

definition setOffset :: "u32 \<Rightarrow> descriptor \<Rightarrow> descriptor" where
  "setOffset offset p = set_f1 (drop_bit 16 offset) 31 16 (set_f0 offset 15 0 p)"

definition setBase :: "u32 \<Rightarrow> descriptor \<Rightarrow> descriptor" where
  "setBase base p = set_f1 (drop_bit 24 base) 31 24 (set_f1 (drop_bit 16 base) 7 0 (set_f0 (drop_bit 0 base) 31 16 p))"

definition getBase :: "descriptor \<Rightarrow> u32" where
  "getBase p = mme (f0 p) 31 16 OR push_bit 16 (mme (f1 p) 7 0) OR push_bit 24 (mme (f1 p) 31 24)"

definition setLimit :: "u32 \<Rightarrow> descriptor \<Rightarrow> descriptor" where
  "setLimit lim p = set_f1 (drop_bit 16 lim) 19 16 (set_f0 lim 15 0 p)"

definition getLimit :: "descriptor \<Rightarrow> u32" where
  "getLimit p = mme (f0 p) 15 0 OR push_bit 16 (mme (f1 p) 19 16)"

definition setDPL :: "u32 \<Rightarrow> descriptor \<Rightarrow> descriptor" where "setDPL dpl = set_f1 dpl 14 13"
definition getDPL :: "descriptor \<Rightarrow> u32" where "getDPL p = mme (f1 p) 14 13"
definition setS :: "u32 \<Rightarrow> descriptor \<Rightarrow> descriptor" where "setS s = set_f1 s 12 12"
definition getS :: "descriptor \<Rightarrow> u32" where "getS p = mme (f1 p) 12 12"
definition setType :: "u32 \<Rightarrow> descriptor \<Rightarrow> descriptor" where "setType t = set_f1 t 11 8"
definition getType :: "descriptor \<Rightarrow> u32" where "getType p = mme (f1 p) 11 8"
definition setK :: "u32 \<Rightarrow> descriptor \<Rightarrow> descriptor" where "setK v = set_f1 v 11 11"
definition getK :: "descriptor \<Rightarrow> u32" where "getK p = mme (f1 p) 11 11"
definition setC :: "u32 \<Rightarrow> descriptor \<Rightarrow> descriptor" where "setC v = set_f1 v 10 10"
definition getC :: "descriptor \<Rightarrow> u32" where "getC p = mme (f1 p) 10 10"
definition setR :: "u32 \<Rightarrow> descriptor \<Rightarrow> descriptor" where "setR v = set_f1 v 9 9"
definition getR :: "descriptor \<Rightarrow> u32" where "getR p = mme (f1 p) 9 9"
definition setA :: "u32 \<Rightarrow> descriptor \<Rightarrow> descriptor" where "setA v = set_f1 v 8 8"
definition getA :: "descriptor \<Rightarrow> u32" where "getA p = mme (f1 p) 8 8"
definition setE :: "u32 \<Rightarrow> descriptor \<Rightarrow> descriptor" where "setE v = set_f1 v 10 10"
definition getE :: "descriptor \<Rightarrow> u32" where "getE p = mme (f1 p) 10 10"
definition setW :: "u32 \<Rightarrow> descriptor \<Rightarrow> descriptor" where "setW v = set_f1 v 9 9"
definition getW :: "descriptor \<Rightarrow> u32" where "getW p = mme (f1 p) 9 9"

section \<open>Whole descriptors\<close>

definition setCodeDescriptor :: "u32 \<Rightarrow> u32 \<Rightarrow> u32 \<Rightarrow> descriptor \<Rightarrow> descriptor" where
  "setCodeDescriptor base lim dpl p =
     (let p = setBase base (setNullDescriptor p);
          p = (if lim > 0xfffff then setG 1 (setLimit (drop_bit 12 lim) p) else setG 0 (setLimit lim p))
      in setA 0 (setR 1 (setC 1 (setK 1 (setS 1 (setD 1 (setP 1 (setDPL dpl p))))))))"

definition setDataDescriptor :: "u32 \<Rightarrow> u32 \<Rightarrow> u32 \<Rightarrow> descriptor \<Rightarrow> descriptor" where
  "setDataDescriptor base lim dpl p =
     (let p = setBase base (setNullDescriptor p);
          p = (if lim > 0xfffff then setLimit (drop_bit 12 lim) (setG 1 p) else setLimit lim (setG 0 p))
      in setA 0 (setE 0 (setW 1 (setK 0 (setS 1 (setB 1 (setP 1 (setDPL dpl p))))))))"

definition setTssDescriptor :: "u32 \<Rightarrow> u32 \<Rightarrow> descriptor \<Rightarrow> descriptor" where
  "setTssDescriptor base lim p =
     setType 0x9 (setS 0 (setDPL 0 (setP 1 (setLimit lim (setBase base (setNullDescriptor p))))))"

definition setTrapDescriptor :: "u32 \<Rightarrow> u32 \<Rightarrow> u32 \<Rightarrow> descriptor \<Rightarrow> descriptor" where
  "setTrapDescriptor selector offset dpl p =
     setType 0xF (setS 0 (setDPL dpl (setP 1 (setOffset offset (setSelector selector (setNullDescriptor p))))))"

definition setInterruptDescriptor :: "u32 \<Rightarrow> u32 \<Rightarrow> u32 \<Rightarrow> descriptor \<Rightarrow> descriptor" where
  "setInterruptDescriptor selector offset dpl p =
     setType 0xE (setS 0 (setDPL dpl (setP 1 (setOffset offset (setSelector selector (setNullDescriptor p))))))"

definition globalSelector :: "u32 \<Rightarrow> u32 \<Rightarrow> u32" where
  "globalSelector index dpl = push_bit 3 index + (dpl AND 0x3)"

definition localSelector :: "u32 \<Rightarrow> u32 \<Rightarrow> u32" where
  "localSelector index dpl = push_bit 3 index + 2 + (dpl AND 0x3)"

section \<open>The bits of a field\<close>

text \<open>Fields with bounds below 32 that do not take the whole word.\<close>

definition field :: "u32 \<Rightarrow> u32 \<Rightarrow> bool" where
  "field l r \<longleftrightarrow> r \<le> l \<and> l < 32 \<and> \<not> (l = 31 \<and> r = 0)"

lemma bit_mask_bits:
  assumes "field l r"
  shows "bit (mask_bits l r) n \<longleftrightarrow> unat r \<le> n \<and> n \<le> unat l"
proof -
  have lt: "unat l < 32" "unat r \<le> unat l" using assms by (simp_all add: field_def word_less_nat_alt word_le_nat_alt)
  have m: "x AND 0x1f = x" if "x < 32" for x :: u32
  proof -
    have "x AND 0x1f = take_bit 5 x" by (simp add: take_bit_eq_mask mask_eq_exp_minus_1)
    moreover have "unat (take_bit 5 x) = unat x"
      using that by (simp add: take_bit_eq_mod unat_mod_distrib word_less_nat_alt)
    ultimately show ?thesis by (simp add: word_unat_eq_iff)
  qed
  have "r < 32" using assms by (auto simp: field_def)
  then have e: "mask_bits l r = push_bit (unat r) (push_bit (unat (l - r + 1)) 1 - 1)"
    using assms by (simp add: mask_bits_def m field_def)
  have "unat (l - r) = unat l - unat r" using assms by (simp add: field_def unat_sub)
  moreover have "1 + (l - r) \<noteq> 0"
  proof
    assume "1 + (l - r) = 0"
    then have "l - r = -1" by (simp add: eq_neg_iff_add_eq_0 add.commute)
    then have "unat (l - r) = 4294967295" by (simp add: unsigned_minus_1_eq_mask mask_eq_exp_minus_1)
    then show False using lt calculation by simp
  qed
  ultimately have u: "unat (l - r + 1) = unat l - unat r + 1" using unatSuc [of "l - r"] by (simp add: add.commute)
  have "push_bit (unat (l - r + 1)) 1 - 1 = (mask (unat l - unat r + 1) :: u32)"
    unfolding u by (simp add: mask_eq_exp_minus_1 push_bit_eq_mult)
  then show ?thesis unfolding e using lt by (auto simp: bit_push_bit_iff bit_mask_iff)
qed

lemma bit_mms:
  assumes "field l r"
  shows "bit (mms p v l r) n \<longleftrightarrow> (if unat r \<le> n \<and> n \<le> unat l then bit v (n - unat r) else bit p n)"
proof -
  have "unat l < 32" using assms by (simp add: field_def word_less_nat_alt)
  then show ?thesis
    unfolding mms_def Let_def by (auto simp: bit_simps bit_mask_bits [OF assms] dest: bit_imp_le_length)
qed

lemma bit_mme:
  assumes "field l r"
  shows "bit (mme v l r) n \<longleftrightarrow> n \<le> unat l - unat r \<and> bit v (unat r + n)"
proof -
  have "unat r \<le> unat l" using assms by (simp add: field_def word_le_nat_alt)
  then show ?thesis unfolding mme_def by (auto simp: bit_drop_bit_eq bit_and_iff bit_mask_bits [OF assms])
qed

lemma word_eq_bits:
  assumes "\<forall>n < 32. bit a n \<longleftrightarrow> bit (b :: u32) n"
  shows "a = b"
  by (rule bit_word_eqI) (use assms in simp)

lemma bit_high: "32 \<le> n \<Longrightarrow> \<not> bit (w :: u32) n"
  using bit_imp_le_length [of w n] by auto

lemma bit_above_u32:
  assumes "w \<le> 0xfffff" "20 \<le> n"
  shows "\<not> bit (w :: u32) n"
proof -
  have "unat (take_bit 20 w) = unat w"
    using assms(1) by (simp add: take_bit_eq_mod unat_mod_distrib word_le_nat_alt)
  then have "take_bit 20 w = w" by (simp add: word_unat_eq_iff)
  then show ?thesis using assms(2) by (metis bit_take_bit_iff not_le)
qed

lemma set_f_words [simp]:
  "f0 (set_f0 v l r p) = mms (f0 p) v l r" "f1 (set_f0 v l r p) = f1 p"
  "f0 (set_f1 v l r p) = f0 p" "f1 (set_f1 v l r p) = mms (f1 p) v l r"
  by (simp_all add: set_f0_def set_f1_def)

lemmas field_setters = setNullDescriptor_def setP_def setG_def setD_def setB_def setSelector_def setOffset_def
  setBase_def setLimit_def setDPL_def setS_def setType_def setK_def setC_def setR_def setA_def setE_def setW_def
lemmas field_getters = getP_def getG_def getD_def getB_def getBase_def getLimit_def getDPL_def getS_def getType_def getK_def
  getC_def getR_def getA_def getE_def getW_def

text \<open>Reading a field after a write of the same field, and after a write of another one.\<close>

lemma mme_mms_same:
  assumes "field l r"
  shows "mme (mms p v l r) l r = take_bit (unat l - unat r + 1) v"
  using assms
  by (intro bit_word_eqI) (auto simp: bit_mme bit_mms bit_take_bit_iff field_def word_le_nat_alt)

lemma mme_mms_other:
  assumes "field l r" "field l' r'" "l < r' \<or> l' < r"
  shows "mme (mms p v l r) l' r' = mme p l' r'"
  using assms
  by (intro bit_word_eqI) (auto simp: bit_mme bit_mms field_def word_le_nat_alt word_less_nat_alt)

lemmas read_back = mme_mms_same mme_mms_other field_def

lemma three_parts:
  "take_bit 16 base OR push_bit 16 (take_bit 8 (drop_bit 16 base)) OR push_bit 24 (take_bit 8 (drop_bit 24 base)) = (base :: u32)"
proof (rule bit_word_eqI)
  fix n :: nat assume "n < LENGTH(32)"
  then show "bit (take_bit 16 base OR push_bit 16 (take_bit 8 (drop_bit 16 base)) OR push_bit 24 (take_bit 8 (drop_bit 24 base))) n
    \<longleftrightarrow> bit base n"
    by (cases "n < 16"; cases "n < 24") (auto simp: bit_simps)
qed

lemma two_parts:
  "take_bit 16 w OR push_bit 16 (take_bit 4 (drop_bit 16 w)) = (take_bit 20 w :: u32)"
proof (rule bit_word_eqI)
  fix n :: nat assume "n < LENGTH(32)"
  then show "bit (take_bit 16 w OR push_bit 16 (take_bit 4 (drop_bit 16 w))) n \<longleftrightarrow> bit (take_bit 20 w) n"
    by (cases "n < 16"; cases "n < 20") (auto simp: bit_simps)
qed

lemma halves:
  "take_bit 16 w OR push_bit 16 (take_bit 16 (drop_bit 16 w)) = (w :: u32)"
proof (rule bit_word_eqI)
  fix n :: nat assume "n < LENGTH(32)"
  then show "bit (take_bit 16 w OR push_bit 16 (take_bit 16 (drop_bit 16 w))) n \<longleftrightarrow> bit w n"
    by (cases "n < 16") (auto simp: bit_simps)
qed

lemma small_limit: "\<not> 0xfffff < w \<Longrightarrow> take_bit 20 w = (w :: u32)"
  by (simp add: not_less word_unat_eq_iff take_bit_eq_mod unat_mod_distrib word_le_nat_alt)

lemma page_limit: "take_bit 20 (drop_bit 12 w) = drop_bit 12 (w :: u32)"
  by (rule bit_word_eqI) (auto simp: bit_simps dest: bit_imp_le_length)

lemma page_parts: "take_bit 16 (drop_bit 12 w) OR push_bit 16 (take_bit 4 (drop_bit 28 w)) = drop_bit 12 (w :: u32)"
  using two_parts [of "drop_bit 12 w"] by (simp add: page_limit)

lemma two_bits: "take_bit (Suc (Suc 0)) w = take_bit 2 (w :: u32)"
  by (simp add: numeral_2_eq_2)

lemmas descriptor_simps = page_parts two_bits field_getters field_setters read_back three_parts two_parts halves small_limit page_limit

section \<open>What the descriptors say\<close>

text \<open>
  \<^verbatim>\<open>setCodeDescriptor\<close> and \<^verbatim>\<open>setDataDescriptor\<close>: the getters read back what the setters were
  given, although base and limit are scattered over both words: the whole base, the limit itself
  when it fits in twenty bits and else its number of pages with the granularity bit set, the
  privilege level cut to two bits; the segment is present, 32 bit and not a system segment, a
  code segment is conforming and readable and a data segment grows up and is writable.
\<close>
theorem segment_descriptors_read_back:
  "map (\<lambda>d. (getBase d, getG d, getLimit d, getDPL d, getP d, getD d, getS d, getA d))
     [setCodeDescriptor base lim dpl p, setDataDescriptor base lim dpl p] =
   replicate 2 (base, if lim > 0xfffff then 1 else 0, if lim > 0xfffff then drop_bit 12 lim else lim, take_bit 2 dpl, 1, 1, 1, 0) \<and>
   (let d = setCodeDescriptor base lim dpl p in getK d = 1 \<and> getC d = 1 \<and> getR d = 1) \<and>
   (let d = setDataDescriptor base lim dpl p in getK d = 0 \<and> getE d = 0 \<and> getW d = 1)"
proof -
  have "map f [x, y] = replicate 2 z" if "f x = z" "f y = z" for f :: "descriptor \<Rightarrow> 'a" and x y z
    using that by (simp add: numeral_2_eq_2)
  note both = this
  show ?thesis
    by (cases "lim > 0xfffff"; intro conjI both)
      (simp_all add: descriptor_simps setCodeDescriptor_def setDataDescriptor_def Let_def)
qed

section \<open>The interrupt table\<close>

definition idt_put :: "32 word \<Rightarrow> (descriptor \<Rightarrow> descriptor) \<Rightarrow> descriptor list \<Rightarrow> fault + descriptor list" where
  "idt_put index f idt =
     (if 0 \<le> sint index \<and> nat (sint index) < length idt
      then Inr (idt[nat (sint index) := f (idt ! nat (sint index))]) else Inl BadIndex)"

definition addTrapHandler :: "u32 \<Rightarrow> 32 word \<Rightarrow> u32 \<Rightarrow> 32 word \<Rightarrow> descriptor list \<Rightarrow> fault + descriptor list" where
  "addTrapHandler kernelCodeSeg index handler dpl = idt_put index (setTrapDescriptor kernelCodeSeg handler (ucast dpl))"

definition addInterruptHandler :: "u32 \<Rightarrow> 32 word \<Rightarrow> u32 \<Rightarrow> descriptor list \<Rightarrow> fault + descriptor list" where
  "addInterruptHandler kernelCodeSeg index handler = idt_put index (setInterruptDescriptor kernelCodeSeg handler 0)"

text \<open>The trap of the system calls: \<^verbatim>\<open>Syscall::init\<close>.\<close>

definition syscall_init :: "u32 \<Rightarrow> u32 \<Rightarrow> descriptor list \<Rightarrow> fault + descriptor list" where
  "syscall_init kernelCodeSeg syscallTrap = addTrapHandler kernelCodeSeg 100 syscallTrap 3"

text \<open>What the processor reads from a gate: selector, handler, privilege, type, system bit, present.\<close>

definition gate_of :: "descriptor \<Rightarrow> u32 \<times> u32 \<times> u32 \<times> u32 \<times> u32 \<times> u32" where
  "gate_of d = (mme (f0 d) 31 16, take_bit 16 (f0 d) OR push_bit 16 (mme (f1 d) 31 16), getDPL d, getType d, getS d, getP d)"

lemma mms_low: "take_bit 16 (mms v w 15 0) = take_bit 16 w" "take_bit 16 (mms v w 31 16) = take_bit 16 v"
  by (rule bit_word_eqI; auto simp: bit_take_bit_iff bit_mms field_def)+

lemmas gate_simps = gate_of_def descriptor_simps mms_low two_bits setType_def setS_def

lemma gate_of_trap: "gate_of (setTrapDescriptor sel h dpl p) = (take_bit 16 sel, h, take_bit 2 dpl, 0xF, 0, 1)"
  by (simp add: gate_simps setTrapDescriptor_def)

lemma gate_of_interrupt: "gate_of (setInterruptDescriptor sel h dpl p) = (take_bit 16 sel, h, take_bit 2 dpl, 0xE, 0, 1)"
  by (simp add: gate_simps setInterruptDescriptor_def)

section \<open>The task state segment\<close>

record tss_t =
  prev_task :: u32
  esp0 :: u32
  ss0 :: u32
  rest_of_tss :: "u32 list"

definition tss_init :: "u32 \<Rightarrow> u32 \<Rightarrow> tss_t \<Rightarrow> descriptor \<Rightarrow> tss_t \<times> descriptor" where
  "tss_init kernelDataSeg tssAddress tss tssDescriptor =
     (tss\<lparr>esp0 := 0, ss0 := kernelDataSeg\<rparr>, setTssDescriptor tssAddress 104 tssDescriptor)"

definition tss_esp0 :: "u32 \<Rightarrow> tss_t \<Rightarrow> tss_t" where
  "tss_esp0 v tss = tss\<lparr>esp0 := v\<rparr>"

lemma tss_init_descriptor:
  "getBase (snd (tss_init seg a t d)) = a" "getLimit (snd (tss_init seg a t d)) = 104"
  "getType (snd (tss_init seg a t d)) = 9" "getS (snd (tss_init seg a t d)) = 0" "getP (snd (tss_init seg a t d)) = 1"
  by (simp_all add: tss_init_def setTssDescriptor_def descriptor_simps)

section \<open>The interrupt controllers\<close>

type_synonym port_writes = "(u32 \<times> u32) list"

definition C1 :: u32 where "C1 = 0x20"
definition D1 :: u32 where "D1 = C1 + 1"
definition C2 :: u32 where "C2 = 0xA0"
definition D2 :: u32 where "D2 = C2 + 1"
definition firstIdt :: "32 word" where "firstIdt = 0x30"

definition pic_init :: "u32 \<Rightarrow> (nat \<Rightarrow> u32) \<Rightarrow> descriptor list \<Rightarrow> fault + port_writes \<times> descriptor list" where
  "pic_init kernelCodeSeg irq idt =
     bindE (loopE (\<lambda>i. addInterruptHandler kernelCodeSeg (firstIdt + of_nat i) (irq i)) [0..<16] idt)
       (\<lambda>idt. Inr
         ([(C1, 0x11), (C2, 0x11),
           (D1, firstIdt), (D2, firstIdt + 8),
           (D1, push_bit 2 1), (D2, 2),
           (D1, 1), (D2, 1),
           (D1, 0), (D2, 0)], idt))"

text \<open>The registers of both chips, with what the ports return as an argument.\<close>

definition pic_irr :: "(u32 \<Rightarrow> u8) \<Rightarrow> port_writes \<times> u32" where
  "pic_irr inb = ([(C1, 0xa), (C2, 0xa)], push_bit 8 (ucast (inb C2)) + ucast (inb C1))"

definition pic_isr :: "(u32 \<Rightarrow> u8) \<Rightarrow> port_writes \<times> u32" where
  "pic_isr inb = ([(C1, 0xb), (C2, 0xb)], push_bit 8 (ucast (inb C2)) + ucast (inb C1))"

definition pic_imr :: "(u32 \<Rightarrow> u8) \<Rightarrow> u32" where
  "pic_imr inb = push_bit 8 (ucast (inb D2)) + ucast (inb D1)"

definition pic_eoi :: "u32 \<Rightarrow> port_writes" where
  "pic_eoi irq = (if 8 \<le> sint irq then [(C2, 0x20)] else []) @ [(C1, 0x20)]"

lemma addInterruptHandler_in_range:
  assumes "unat w < length idt" "length idt = 256"
  shows "addInterruptHandler seg w h idt = Inr (idt[unat w := setInterruptDescriptor seg h 0 (idt ! unat w)])"
proof -
  have "sint w = int (unat w)" using assms by (intro sint_small) simp
  then show ?thesis using assms(1) by (simp add: addInterruptHandler_def idt_put_def)
qed

lemma pic_loop:
  assumes "length idt = 256"
  shows "\<exists>idt'. loopE (\<lambda>i. addInterruptHandler seg (firstIdt + of_nat i) (irq i)) [0..<16] idt = Inr idt' \<and> length idt' = 256 \<and>
    (\<forall>j < 256. idt' ! j = (if 48 \<le> j \<and> j < 48 + 16 then setInterruptDescriptor seg (irq (j - 48)) 0 (idt ! j) else idt ! j))"
proof -
  define I where "I i t \<longleftrightarrow> length t = 256 \<and>
    (\<forall>j < 256. t ! j = (if 48 \<le> j \<and> j < 48 + i then setInterruptDescriptor seg (irq (j - 48)) 0 (idt ! j) else idt ! j))"
    for i and t :: "descriptor list"
  have "(\<exists>e. loopE (\<lambda>i. addInterruptHandler seg (firstIdt + of_nat i) (irq i)) [0..<16] idt = Inl e \<and> False) \<or>
    (\<exists>s'. loopE (\<lambda>i. addInterruptHandler seg (firstIdt + of_nat i) (irq i)) [0..<16] idt = Inr s' \<and> I 16 s')"
  proof (rule loopE_upt_inv)
    show "I 0 idt" using assms by (auto simp: I_def)
    fix i t assume i: "i < 16" and t: "I i t"
    have u: "unat (firstIdt + of_nat i) = 48 + i"
      using i by (simp add: firstIdt_def unat_plus_u32 unat_of_nat)
    have "addInterruptHandler seg (firstIdt + of_nat i) (irq i) t = Inr (t[48 + i := setInterruptDescriptor seg (irq i) 0 (t ! (48 + i))])"
      using addInterruptHandler_in_range [of "firstIdt + of_nat i" t seg "irq i"] t i by (simp add: u I_def)
    moreover have "I (Suc i) (t[48 + i := setInterruptDescriptor seg (irq i) 0 (t ! (48 + i))])"
      using t i by (auto simp: I_def nth_list_update)
    ultimately show "(\<exists>e. addInterruptHandler seg (firstIdt + of_nat i) (irq i) t = Inl e \<and> False) \<or>
      (\<exists>s'. addInterruptHandler seg (firstIdt + of_nat i) (irq i) t = Inr s' \<and> I (Suc i) s')" by blast
  qed simp
  then show ?thesis by (auto simp: I_def)
qed

text \<open>
  C32. \<^verbatim>\<open>Syscall::init\<close> and \<^verbatim>\<open>Pic::init\<close> on a table of 256 gates: the boot runs through and then
  vector 100 is a trap gate to \<^verbatim>\<open>syscallTrap\<close> that user programs may use, vectors 0x30 to 0x3f are
  interrupt gates to \<^verbatim>\<open>irq0\<close> to \<^verbatim>\<open>irq15\<close> that only the hardware may use, every other gate is as it
  was, and the controllers have been given the vectors 0x30 and 0x38 for their first lines.
\<close>
theorem interrupt_table_after_boot:
  assumes "length idt = 256"
  shows "\<exists>idt1 out idt2. syscall_init seg syscallTrap idt = Inr idt1 \<and> pic_init seg irq idt1 = Inr (out, idt2) \<and>
    gate_of (idt2 ! 100) = (take_bit 16 seg, syscallTrap, 3, 0xF, 0, 1) \<and>
    (\<forall>i < 16. gate_of (idt2 ! (0x30 + i)) = (take_bit 16 seg, irq i, 0, 0xE, 0, 1)) \<and>
    (\<forall>j < 256. j = 100 \<or> 0x30 \<le> j \<and> j < 0x40 \<or> idt2 ! j = idt ! j) \<and>
    filter (\<lambda>(port, v). v \<in> {0x30, 0x38}) out = [(0x21, 0x30), (0xA1, 0x38)]"
proof -
  define idt1 where "idt1 = idt[100 := setTrapDescriptor seg syscallTrap 3 (idt ! 100)]"
  have s: "syscall_init seg syscallTrap idt = Inr idt1"
    using assms by (simp add: syscall_init_def addTrapHandler_def idt_put_def idt1_def)
  have l: "length idt1 = 256" using assms by (simp add: idt1_def)
  from pic_loop [OF this, of seg irq] obtain idt2
    where p: "loopE (\<lambda>i. addInterruptHandler seg (firstIdt + of_nat i) (irq i)) [0..<16] idt1 = Inr idt2"
      and e: "\<forall>j < 256. idt2 ! j = (if 48 \<le> j \<and> j < 48 + 16 then setInterruptDescriptor seg (irq (j - 48)) 0 (idt1 ! j) else idt1 ! j)"
    by blast
  have "gate_of (idt2 ! 100) = (take_bit 16 seg, syscallTrap, 3, 0xF, 0, 1)"
    using e assms by (simp add: idt1_def gate_of_trap)
  moreover have "\<forall>i < 16. gate_of (idt2 ! (0x30 + i)) = (take_bit 16 seg, irq i, 0, 0xE, 0, 1)"
    using e by (simp add: gate_of_interrupt)
  moreover have "\<forall>j < 256. j = 100 \<or> 0x30 \<le> j \<and> j < 0x40 \<or> idt2 ! j = idt ! j"
    using e by (auto simp: idt1_def nth_list_update)
  ultimately show ?thesis using s p by (simp add: pic_init_def C1_def C2_def D1_def D2_def firstIdt_def)
qed

theorem interrupt_table_after_boot_witness:
  "\<exists>idt1 out idt2. syscall_init 8 0x1234 (replicate 256 \<lparr>f0 = 0, f1 = 0\<rparr>) = Inr idt1 \<and>
    pic_init 8 (\<lambda>i. 0x5000 + of_nat i) idt1 = Inr (out, idt2) \<and> gate_of (idt2 ! 0x31) = (8, 0x5001, 0, 0xE, 0, 1)"
proof -
  from interrupt_table_after_boot [of "replicate 256 \<lparr>f0 = 0, f1 = 0\<rparr>" 8 "0x1234" "\<lambda>i. 0x5000 + of_nat i"]
  obtain idt1 out idt2 where *: "syscall_init 8 0x1234 (replicate 256 \<lparr>f0 = 0, f1 = 0\<rparr>) = Inr idt1"
    "pic_init 8 (\<lambda>i. 0x5000 + of_nat i) idt1 = Inr (out, idt2)"
    "\<forall>i < 16. gate_of (idt2 ! (0x30 + i)) = (take_bit 16 8, 0x5000 + of_nat i, 0, 0xE, 0, 1)" by auto
  from *(3) [rule_format, of 1] have "gate_of (idt2 ! 0x31) = (8, 0x5001, 0, 0xE, 0, 1)" by simp
  then show ?thesis using * by blast
qed

text \<open>
  \<^verbatim>\<open>localSelector\<close> adds 2 where the table indicator of a selector is bit 2, so it names an entry of
  the global table with another privilege level.
\<close>
lemma localSelector_is_global: "localSelector index 0 = globalSelector index 2"
  by (simp add: localSelector_def globalSelector_def)

end
