(* ===== verification/User_Heap.thy ===== *)
theory User_Heap
  imports Heap_Allocator "HOL-Library.Signed_Division"
begin

text \<open>
  \<^verbatim>\<open>user/heap.c\<close>: the heap in the address space of a user program. It is the allocator of the kernel
  with every panic taken out: \<^verbatim>\<open>sanity\<close> returns its argument whatever it finds, \<^verbatim>\<open>malloc\<close> returns
  null when nothing fits and \<^verbatim>\<open>free\<close> ignores a block that is not taken; in addition there is
  \<^verbatim>\<open>realloc\<close>. The state is the \<open>heap\<close> of the kernel's allocator, with the address of the static
  \<^verbatim>\<open>array\<close> as its base. The theory shows that on a well formed heap the two allocators agree, so
  that the facts about the kernel's one hold of this one, and what \<^verbatim>\<open>realloc\<close> keeps.
\<close>

section \<open>The operations of heap.c\<close>

definition INTS :: int where "INTS = 0x100000"

definition u_abs :: "int \<Rightarrow> int" where
  "u_abs x = (if x < 0 then - x else x)"

definition u_size :: "heap \<Rightarrow> int \<Rightarrow> int" where
  "u_size h i = u_abs (arr h i)"

definition u_headerFromFooter :: "heap \<Rightarrow> int \<Rightarrow> int" where
  "u_headerFromFooter h i = i - u_size h i + 1"

definition u_footerFromHeader :: "heap \<Rightarrow> int \<Rightarrow> int" where
  "u_footerFromHeader h i = i + u_size h i - 1"

definition u_sanity :: "heap \<Rightarrow> int \<Rightarrow> int" where
  "u_sanity h i =
     (if safe then
        (if i = 0 then 0
         else if i < 0 \<or> i \<ge> len h then i
         else
           (let footer = u_footerFromHeader h i in
            if footer < 0 \<or> footer \<ge> len h then i
            else if arr h i \<noteq> arr h footer then i
            else i))
      else i)"

definition u_left :: "heap \<Rightarrow> int \<Rightarrow> int" where
  "u_left h i = u_sanity h (u_headerFromFooter h (i - 1))"

definition u_right :: "heap \<Rightarrow> int \<Rightarrow> int" where
  "u_right h i = u_sanity h (i + u_size h i)"

definition u_next1 :: "heap \<Rightarrow> int \<Rightarrow> int" where
  "u_next1 h i = u_sanity h (arr h (i + 1))"

definition u_prev1 :: "heap \<Rightarrow> int \<Rightarrow> int" where
  "u_prev1 h i = u_sanity h (arr h (i + 2))"

definition u_next :: "int \<Rightarrow> int \<Rightarrow> heap \<Rightarrow> heap" where
  "u_next i x h = poke (i + 1) x h"

definition u_prev :: "int \<Rightarrow> int \<Rightarrow> heap \<Rightarrow> heap" where
  "u_prev i x h = poke (i + 2) x h"

definition u_remove :: "int \<Rightarrow> heap \<Rightarrow> heap" where
  "u_remove i h =
     (let prevIndex = u_prev1 h i;
          nextIndex = u_next1 h i;
          h1 = (if prevIndex = 0 then h\<lparr>avail := nextIndex\<rparr> else u_next prevIndex nextIndex h)
      in if nextIndex \<noteq> 0 then u_prev nextIndex prevIndex h1 else h1)"

definition u_makeAvail :: "int \<Rightarrow> int \<Rightarrow> heap \<Rightarrow> heap" where
  "u_makeAvail i ints h =
     (let h = poke i ints h;
          h = poke (u_footerFromHeader h i) ints h;
          h = u_next i (avail h) h;
          h = u_prev i 0 h;
          h = (if avail h \<noteq> 0 then u_prev (avail h) i h else h)
      in h\<lparr>avail := i\<rparr>)"

definition u_makeTaken :: "int \<Rightarrow> int \<Rightarrow> heap \<Rightarrow> heap" where
  "u_makeTaken i ints h =
     (let h = poke i (- ints) h in poke (u_footerFromHeader h i) (- ints) h)"

definition u_isAvail :: "heap \<Rightarrow> int \<Rightarrow> bool" where
  "u_isAvail h i \<longleftrightarrow> arr h i > 0"

definition u_isTaken :: "heap \<Rightarrow> int \<Rightarrow> bool" where
  "u_isTaken h i \<longleftrightarrow> arr h i < 0"

text \<open>\<^verbatim>\<open>heap_init\<close> on the static variables of the program, whose array is all zero and lies at \<open>b\<close>.\<close>

definition u_heap_init :: "u32 \<Rightarrow> heap" where
  "u_heap_init b =
     (let h = \<lparr>base = b, arr = (\<lambda>_. 0), len = INTS, avail = 0\<rparr>
      in u_makeTaken (len h - 2) 2 (u_makeAvail 2 (len h - 4) (u_makeTaken 0 2 h)))"

text \<open>
  \<^verbatim>\<open>malloc\<close> takes a signed \<^verbatim>\<open>long\<close> and divides it as C does. The loop does nothing about a block
  that is not available; each round follows one link of the list.
\<close>

definition u_ints_of :: "int \<Rightarrow> int" where
  "u_ints_of bytes = (let ints = (s32 (bytes + 3) sdiv 4) + 2 in if ints < 4 then 4 else ints)"

fun u_malloc_loop :: "nat \<Rightarrow> int \<Rightarrow> int \<Rightarrow> heap \<Rightarrow> fault + (int \<times> heap)" where
  "u_malloc_loop 0 ints p h = (if p = 0 then Inr (0, h) else Inl Diverges)"
| "u_malloc_loop (Suc fuel) ints p h =
     (if p = 0 then Inr (0, h)
      else
        (let sz = u_size h p in
         if sz \<ge> ints then
           (let h = u_remove p h;
                extra = sz - ints
            in if extra \<ge> 4
               then Inr (p, u_makeAvail (p + ints) extra (u_makeTaken p ints h))
               else Inr (p, u_makeTaken p sz h))
         else u_malloc_loop fuel ints (u_next1 h p) h))"

definition u_malloc :: "int \<Rightarrow> heap \<Rightarrow> fault + (u32 \<times> heap)" where
  "u_malloc bytes h =
     (if bytes = 0 then Inr (base h, h)
      else bindE (u_malloc_loop (nat (len h)) (u_ints_of bytes) (avail h) h) (\<lambda>(p, h').
        Inr (if p = 0 then 0 else ptr_of h' p, h')))"

definition u_idx :: "heap \<Rightarrow> u32 \<Rightarrow> int" where
  "u_idx h p = s32 (s32 (sint p - sint (base h)) sdiv 4 - 1)"

definition u_free :: "u32 \<Rightarrow> heap \<Rightarrow> heap" where
  "u_free p h =
     (if p = 0 then h
      else if p = base h then h
      else
        (let idx = u_idx h p in
         if \<not> u_isTaken h idx then h
         else
           (let sz = u_size h idx;
                leftIndex = u_left h idx;
                rightIndex = u_right h idx;
                (idx, sz, h) = (if u_isAvail h leftIndex
                   then let h = u_remove leftIndex h in (leftIndex, sz + u_size h leftIndex, h)
                   else (idx, sz, h));
                (sz, h) = (if u_isAvail h rightIndex
                   then let h = u_remove rightIndex h in (sz + u_size h rightIndex, h)
                   else (sz, h))
            in u_makeAvail idx sz h)))"

text \<open>
  The bytes of the array and \<^verbatim>\<open>memcpy\<close> from \<^verbatim>\<open>user/machine.S\<close>, which counts a signed number down:
  byte \<open>k\<close> lies in word \<open>k div 4\<close>, least significant byte first.
\<close>

definition get_byte :: "heap \<Rightarrow> int \<Rightarrow> u8" where
  "get_byte h k = ucast (drop_bit (8 * nat (k mod 4)) (word_of_int (arr h (k div 4)) :: u32))"

definition put_byte :: "int \<Rightarrow> u8 \<Rightarrow> heap \<Rightarrow> heap" where
  "put_byte k v h =
     poke (k div 4)
       (sint ((word_of_int (arr h (k div 4)) AND NOT (push_bit (8 * nat (k mod 4)) 0xff)) OR
              push_bit (8 * nat (k mod 4)) (ucast v) :: u32)) h"

fun u_memcpy :: "int \<Rightarrow> int \<Rightarrow> nat \<Rightarrow> heap \<Rightarrow> heap" where
  "u_memcpy dest src 0 h = h"
| "u_memcpy dest src (Suc n) h = u_memcpy (dest + 1) (src + 1) n (put_byte dest (get_byte h src) h)"

definition offset_of :: "heap \<Rightarrow> u32 \<Rightarrow> int" where
  "offset_of h p = uint (p - base h)"

definition u_realloc :: "u32 \<Rightarrow> int \<Rightarrow> heap \<Rightarrow> fault + (u32 \<times> heap)" where
  "u_realloc p newSize h =
     (if p = 0 then u_malloc newSize h
      else if newSize = 0 then Inr (0, u_free p h)
      else
        (let idx = u_idx h p in
         if \<not> u_isTaken h idx then Inr (0, h)
         else
           (let sz = u_size h idx * 4 in
            bindE (u_malloc newSize h) (\<lambda>(newPtr, h).
              let h = (if newPtr \<noteq> 0
                       then let m = (if newSize > sz then sz else newSize)
                            in u_memcpy (offset_of h newPtr) (offset_of h p) (nat m) h
                       else h)
              in Inr (newPtr, u_free p h)))))"

section \<open>Agreement with the allocator of the kernel\<close>

lemma u_same [simp]:
  "u_size = blk_size" "u_headerFromFooter = headerFromFooter" "u_footerFromHeader = footerFromHeader"
  "u_next = set_next" "u_prev = set_prev" "u_isAvail = isAvail" "u_isTaken = isTaken"
  by (simp_all add: fun_eq_iff u_size_def blk_size_def u_abs_def blk_abs_def u_headerFromFooter_def headerFromFooter_def
      u_footerFromHeader_def footerFromHeader_def u_next_def set_next_def u_prev_def set_prev_def u_isAvail_def
      isAvail_def u_isTaken_def isTaken_def)

lemma u_make_same [simp]: "u_makeAvail = makeAvail" "u_makeTaken = makeTaken"
  by (simp_all add: fun_eq_iff u_makeAvail_def makeAvail_def u_makeTaken_def makeTaken_def Let_def)

lemma u_sanity_id [simp]: "u_sanity h i = i"
  by (simp add: u_sanity_def Let_def)

lemma sanity_same: "sanity h i = Inr j \<Longrightarrow> j = i"
  by (auto simp: sanity_def Let_def split: if_splits)

lemma u_steps_agree:
  "left_blk h i = Inr j \<Longrightarrow> u_left h i = j" "right_blk h i = Inr j \<Longrightarrow> u_right h i = j"
  "get_next h i = Inr j \<Longrightarrow> u_next1 h i = j" "get_prev h i = Inr j \<Longrightarrow> u_prev1 h i = j"
  by (auto simp: left_blk_def right_blk_def get_next_def get_prev_def u_left_def u_right_def u_next1_def u_prev1_def
      dest: sanity_same)

lemma u_remove_agrees: "remove_blk i h = Inr h' \<Longrightarrow> u_remove i h = h'"
  by (auto simp: remove_blk_def u_remove_def u_steps_agree Let_def)

lemma u_malloc_loop_agrees: "malloc_loop fuel ints p h = Inr r \<Longrightarrow> u_malloc_loop fuel ints p h = Inr r"
proof (induction fuel arbitrary: p)
  case (Suc fuel)
  then show ?case by (auto simp: Let_def u_remove_agrees u_steps_agree split: if_splits)
qed (auto split: if_splits)

lemma malloc_loop_ends:
  assumes "malloc bytes h = Inl (Panic ''heap is full'')" "heap_ok h ts fl" "bytes \<noteq> 0"
  shows "malloc_loop (nat (len h)) (ints_of bytes) (avail h) h = Inr (0, h)"
proof -
  have "\<forall>x \<in> set fl. blk_size h x < ints_of bytes"
    using malloc_cases [OF assms(2,3)] assms(1)
    by (cases "List.find (\<lambda>x. ints_of bytes \<le> blk_size h x) fl") (auto simp: find_None_iff)
  then show ?thesis
    using malloc_loop_skip [of h ts "[]" fl "nat (len h)" "ints_of bytes"] length_avail_list [OF assms(2)]
      heap_okD(7) [OF assms(2)] assms(2) by simp
qed

text \<open>Sizes and indices: on the range where C's signed arithmetic is defined nothing changes.\<close>

lemma u_ints_of_agrees:
  assumes "0 < bytes" "bytes \<le> 2 ^ 31 - 4"
  shows "u_ints_of bytes = ints_of (word_of_int bytes)"
proof -
  define q where "q = (bytes + 3) div 4"
  have q: "0 \<le> q" "q < 2 ^ 30" using assms by (auto simp: q_def)
  have u: "uint (word_of_int bytes + 3 :: u32) = bytes + 3"
    using assms by (simp add: uint_word_ariths uint_word_of_int)
  then have d: "uint ((word_of_int bytes + 3 :: u32) div 4) = q" by (simp add: uint_div q_def)
  have "uint ((word_of_int bytes + 3 :: u32) div 4 + 2) = q + 2"
    using q by (simp add: uint_word_ariths d)
  moreover have "s32 (bytes + 3) = bytes + 3" using assms by (intro s32_id) auto
  moreover have "(bytes + 3) sdiv 4 = q" using assms by (simp add: signed_divide_int_def q_def)
  ultimately show ?thesis by (simp add: u_ints_of_def ints_of_def)
qed

lemma s32_sint_diff: "s32 (sint p - sint b) = sint (p - (b :: u32))"
  by (simp add: s32_def sint_word_ariths)

lemma u_idx_ptr:
  assumes "0 \<le> i" "i + 1 < len h" "len h < 2 ^ 29"
  shows "u_idx h (ptr_of h i) = i"
proof -
  define k where "k = 4 * (i + 1)"
  have p: "ptr_of h i - base h = word_of_int k" by (simp add: ptr_of_def k_def)
  have k: "0 \<le> k" "k < 2 ^ 31" using assms by (simp_all add: k_def)
  then have "uint (word_of_int k :: u32) = k" by (simp add: uint_word_of_int)
  then have "sint (ptr_of h i - base h) = k"
    unfolding p sint_uint using k by (simp add: signed_take_bit_int_eq_self)
  moreover have "k sdiv 4 = i + 1" using assms by (simp add: signed_divide_int_def k_def)
  ultimately show ?thesis using assms s32_id [of i] by (simp add: u_idx_def s32_sint_diff)
qed

lemma u_malloc_agrees:
  assumes ok: "heap_ok h ts fl" and b: "0 < bytes" "bytes \<le> 2 ^ 31 - 4"
  shows "u_malloc bytes h = (case malloc (word_of_int bytes) h of Inr r \<Rightarrow> Inr r | Inl _ \<Rightarrow> Inr (0, h))"
proof -
  have "uint (word_of_int bytes :: u32) = bytes" using b by (simp add: uint_word_of_int)
  then have n0: "(word_of_int bytes :: u32) \<noteq> 0" using b by auto
  show ?thesis
  proof (cases "malloc (word_of_int bytes) h")
    case (Inl e)
    then have "malloc (word_of_int bytes) h = Inl (Panic ''heap is full'')"
      using malloc_outcome [OF ok, of "word_of_int bytes"] by auto
    from malloc_loop_ends [OF this ok n0] show ?thesis
      using u_malloc_loop_agrees Inl b by (fastforce simp: u_malloc_def u_ints_of_agrees)
  next
    case (Inr r)
    then obtain p h' where m: "malloc_loop (nat (len h)) (ints_of (word_of_int bytes)) (avail h) h = Inr (p, h')"
      "r = (ptr_of h' p, h')" "p \<noteq> 0"
      using n0 by (auto simp: malloc_def split: if_splits)
    from u_malloc_loop_agrees [OF m(1)] show ?thesis
      using m(2,3) Inr b by (simp add: u_malloc_def u_ints_of_agrees)
  qed
qed

lemma u_free_agrees:
  assumes "free p h = Inr h'" "u_idx h p = idx_of h p"
  shows "u_free p h = h'"
  using assms by (auto simp: free_def u_free_def Let_def u_steps_agree u_remove_agrees split: if_splits)

section \<open>Bytes\<close>

lemma bit_ff: "bit (0xff :: int) n \<longleftrightarrow> n < 8"
proof -
  have "(0xff :: int) = mask 8" by (simp add: mask_eq_exp_minus_1)
  show ?thesis unfolding \<open>0xff = mask 8\<close> by (simp only: bit_mask_iff) simp
qed

lemma get_put_same: "get_byte (put_byte k v h) k = v"
proof (rule bit_word_eqI)
  fix n :: nat assume "n < LENGTH(8)"
  moreover have "nat (k mod 4) < 4" by simp
  ultimately show "bit (get_byte (put_byte k v h) k) n \<longleftrightarrow> bit v n"
    by (simp add: get_byte_def put_byte_def poke_def bit_simps bit_ff)
qed

lemma merged_byte:
  assumes "a < 4" "b < 4" "a \<noteq> b"
  shows "(ucast (drop_bit (8 * a) ((w AND NOT (push_bit (8 * b) 0xff)) OR push_bit (8 * b) (ucast (v :: u8)))) :: u8)
    = ucast (drop_bit (8 * a) (w :: u32))"
proof (rule bit_word_eqI)
  fix n :: nat assume n: "n < LENGTH(8)"
  have "8 * b \<le> 8 * a + n \<Longrightarrow> \<not> 8 * a + n - 8 * b < 8" using assms n by auto
  moreover have "bit v m \<Longrightarrow> m < 8" for m using bit_imp_le_length [of v m] by simp
  ultimately show "bit (ucast (drop_bit (8 * a) ((w AND NOT (push_bit (8 * b) 0xff)) OR push_bit (8 * b) (ucast v))) :: u8) n
    \<longleftrightarrow> bit (ucast (drop_bit (8 * a) w) :: u8) n"
    using assms n by (simp add: bit_ucast_iff bit_drop_bit_eq bit_or_iff bit_and_iff bit_not_iff bit_push_bit_iff bit_ff) blast
qed

lemma get_put_other:
  assumes "j \<noteq> k"
  shows "get_byte (put_byte k v h) j = get_byte h j"
proof (cases "j div 4 = k div 4")
  case True
  then have "j mod 4 \<noteq> k mod 4" using assms by (metis div_mult_mod_eq)
  then have "nat (j mod 4) < 4" "nat (k mod 4) < 4" "nat (j mod 4) \<noteq> nat (k mod 4)" by (simp_all add: eq_nat_nat_iff)
  from merged_byte [OF this] True show ?thesis by (simp add: get_byte_def put_byte_def poke_def)
next
  case False
  then show ?thesis by (simp add: get_byte_def put_byte_def poke_def)
qed

lemma put_byte_frame: "base (put_byte k v h) = base h" "len (put_byte k v h) = len h" "avail (put_byte k v h) = avail h"
  "y \<noteq> k div 4 \<Longrightarrow> arr (put_byte k v h) y = arr h y"
  by (simp_all add: put_byte_def poke_def)

lemma u_memcpy_frame:
  "base (u_memcpy d s n h) = base h" "len (u_memcpy d s n h) = len h" "avail (u_memcpy d s n h) = avail h"
  "y < d div 4 \<or> (d + int n - 1) div 4 < y \<Longrightarrow> arr (u_memcpy d s n h) y = arr h y"
proof (induction d s n h rule: u_memcpy.induct)
  case (2 d s n h)
  {
    case 4
    have "d div 4 \<le> (d + 1) div 4" "(d + 1 + int n - 1) div 4 = (d + int (Suc n) - 1) div 4" "d div 4 \<le> (d + int (Suc n) - 1) div 4"
      by (simp_all add: zdiv_mono1)
    with 4 have "y < (d + 1) div 4 \<or> (d + 1 + int n - 1) div 4 < y" "y \<noteq> d div 4" by auto
    then show ?case using 2(4) by (simp add: put_byte_frame)
  }
qed (simp_all add: put_byte_frame)

lemma u_memcpy_bytes:
  assumes "s + int n \<le> d \<or> d + int n \<le> s"
  shows "get_byte (u_memcpy d s n h) k = (if d \<le> k \<and> k < d + int n then get_byte h (s + (k - d)) else get_byte h k)"
  using assms
proof (induction d s n h rule: u_memcpy.induct)
  case (2 d s n h)
  have "get_byte (u_memcpy (d + 1) (s + 1) n (put_byte d (get_byte h s) h)) k =
    (if d + 1 \<le> k \<and> k < d + 1 + int n then get_byte (put_byte d (get_byte h s) h) (s + 1 + (k - (d + 1)))
     else get_byte (put_byte d (get_byte h s) h) k)"
    by (rule 2(1)) (use 2(2) in auto)
  then have IH: "get_byte (u_memcpy d s (Suc n) h) k =
    (if d + 1 \<le> k \<and> k < d + 1 + int n then get_byte (put_byte d (get_byte h s) h) (s + (k - d))
     else get_byte (put_byte d (get_byte h s) h) k)" by (simp add: algebra_simps)
  show ?case
  proof (cases "k = d")
    case True
    then show ?thesis unfolding IH by (simp add: get_put_same)
  next
    case False
    then have "s + (k - d) \<noteq> d \<or> \<not> (d + 1 \<le> k \<and> k < d + 1 + int n)" using 2(2) by auto
    then show ?thesis unfolding IH using False by (auto simp: get_put_other)
  qed
qed auto

section \<open>Writes of a client\<close>

text \<open>Writing only words that belong to taken blocks keeps the heap well formed.\<close>

lemma layout_payload:
  assumes "layout a i ts e" "\<And>y. i \<le> y \<Longrightarrow> y < e \<Longrightarrow> y \<notin> payload i ts \<Longrightarrow> a' y = a y"
  shows "layout a' i ts e"
  using assms
proof (induction ts arbitrary: i)
  case (Cons t ts)
  have e: "i + \<bar>t\<bar> \<le> e" using layout_span [OF Cons.prems(1)] span_nonneg [of ts] by simp
  have t: "2 \<le> \<bar>t\<bar>" using Cons.prems(1) by simp
  have "i \<notin> payload i (t # ts)" "i + \<bar>t\<bar> - 1 \<notin> payload i (t # ts)"
    using t by (auto dest: payload_bounds)
  then have "a' i = a i" "a' (i + \<bar>t\<bar> - 1) = a (i + \<bar>t\<bar> - 1)" using Cons.prems(2) e t by auto
  moreover have "layout a' (i + \<bar>t\<bar>) ts e"
  proof (rule Cons.IH)
    fix y assume y: "i + \<bar>t\<bar> \<le> y" "y < e" "y \<notin> payload (i + \<bar>t\<bar>) ts"
    then have "y \<notin> payload i (t # ts)" "i \<le> y" by auto
    with y show "a' y = a y" using Cons.prems(2) by blast
  qed (use Cons.prems in simp)
  ultimately show ?case using Cons.prems(1) by simp
qed simp

lemma heap_ok_payload:
  assumes ok: "heap_ok h ts fl"
    and h': "base h' = base h" "len h' = len h" "avail h' = avail h" "\<And>y. y \<notin> payload 0 ts \<Longrightarrow> arr h' y = arr h y"
  shows "heap_ok h' ts fl"
proof -
  note D = heap_okD [OF ok]
  have "layout (arr h') 0 ts (len h)" by (rule layout_payload [OF D(8)]) (use h'(4) in blast)
  moreover have "dll (arr h') 0 fl"
  proof -
    have "arr h' y = arr h y" if "y \<in> links fl" for y
      using payload_links [of y ts fl] D(2,5) that h'(4) by blast
    then show ?thesis using D(1) dll_frame [of "arr h" 0 fl "arr h'"] by (auto simp: hole_def links_def)
  qed
  ultimately have "hole h' ts (len h) 0 [] fl" using D(1) h'(2,3) by (simp add: hole_def)
  then show ?thesis using ok h'(1,2) by (simp add: heap_ok_def)
qed

text \<open>What stays taken when a block is freed, and where a block of a client is after another was taken.\<close>

lemma payload_kept:
  assumes "t < 0" "l \<noteq> []" "r \<noteq> []" "y \<in> payload 0 (l @ t # r)" "y < span l \<or> span l - t \<le> y"
  shows "y \<in> payload 0 (freed_tags l (- t) r)"
proof -
  obtain l' s where l: "l = l' @ [s]" using assms(2) by (cases l rule: rev_cases) auto
  obtain u r' where r: "r = u # r'" using assms(3) by (cases r) auto
  show ?thesis using assms(1,4,5) unfolding l r
    by (auto simp: freed_tags_def merge_right_def algebra_simps)
qed

lemma client_block_both:
  assumes ok: "heap_ok h (l @ t # r) fl" and t: "0 < t" "4 \<le> n" and x: "x \<in> client_blocks (l @ t # r)"
  obtains l1 t1 r1 l2 r2 where "l @ t # r = l1 @ t1 # r1" "taken_tags n l t r = l2 @ t1 # r2" "t1 < 0"
    "span l1 = x" "span l2 = x" "l1 \<noteq> []" "r1 \<noteq> []" "l2 \<noteq> []" "r2 \<noteq> []" "x - t1 \<le> span l \<or> span l + t \<le> x"
proof -
  note D = heap_okD [OF ok]
  have ge2: "\<forall>t \<in> set l. 2 \<le> \<bar>t\<bar>" "\<forall>t \<in> set r. 2 \<le> \<bar>t\<bar>" using layout_tags_ge2 [OF D(8)] by auto
  have x': "x \<in> taken_starts 0 l \<or> x \<in> taken_starts (span l + t) r" "x \<noteq> 0" "x \<noteq> span (l @ t # r) - 2"
    using x t(1) by (auto simp: client_blocks_def)
  have last: "last (l @ t # r) = -2" using D(4) by (simp add: guarded_def)
  have ends: "l \<noteq> []" "r \<noteq> []" using guarded_ends [OF D(4) t(1)] by auto
  define m where "m = (if t - n \<ge> 4 then [- n, t - n] else [- t])"
  from x'(1) show thesis
  proof
    assume "x \<in> taken_starts 0 l"
    with taken_starts_split [of x 0 l] obtain l1 t1 r1 where s: "l = l1 @ t1 # r1" "t1 < 0" "x = span l1" by auto
    show thesis
      by (rule that [of l1 t1 "r1 @ t # r" l1 "r1 @ m @ r"])
        (use s x' t span_nonneg [of r1] in \<open>auto simp: taken_tags_def m_def\<close>)
  next
    assume "x \<in> taken_starts (span l + t) r"
    with taken_starts_split [of x "span l + t" r] obtain l1 t1 r1 where s: "r = l1 @ t1 # r1" "t1 < 0" "x = span l + t + span l1" by auto
    show thesis
      by (rule that [of "l @ t # l1" t1 r1 "l @ m @ l1" r1])
        (use s x' t last span_nonneg [of l1] in \<open>auto simp: taken_tags_def m_def\<close>)
  qed
qed

section \<open>realloc\<close>

lemma offset_ptr:
  assumes "0 \<le> i" "i + 1 < len h" "uint (base h) + 4 * len h \<le> 2 ^ 32"
  shows "offset_of h (ptr_of h i) = 4 * (i + 1)"
proof -
  define k where "k = 4 * (i + 1)"
  have p: "ptr_of h i - base h = word_of_int k" by (simp add: ptr_of_def k_def)
  have "0 \<le> k" using assms(1) by (simp add: k_def)
  have "k < 4294967296"
  proof -
    have "0 \<le> uint (base h)" "uint (base h) + 4 * len h \<le> 4294967296" using assms(3) by simp_all
    with assms(2) show ?thesis unfolding k_def by arith
  qed
  with \<open>0 \<le> k\<close> have "uint (word_of_int k :: u32) = k" by (simp add: uint_word_of_int)
  then show ?thesis using p by (simp add: offset_of_def k_def)
qed

lemma get_byte_cong: "arr h' (k div 4) = arr h (k div 4) \<Longrightarrow> get_byte h' k = get_byte h k"
  by (simp add: get_byte_def)

lemma malloc_Inr_frame:
  assumes "heap_ok h ts fl" "bytes \<noteq> 0" "malloc bytes h = Inr (p, h')"
  shows "\<exists>y fl' l t r. p = ptr_of h y \<and> ts = l @ t # r \<and> y = span l \<and> 0 < t \<and> ints_of bytes \<le> t \<and>
    heap_ok h' (taken_tags (ints_of bytes) l t r) fl' \<and> base h' = base h \<and> len h' = len h \<and>
    (\<forall>w \<in> payload 0 ts. arr h' w = arr h w)"
proof -
  let ?n = "ints_of bytes"
  from malloc_cases [OF assms(1,2)] assms(3) obtain x where
    x: "List.find (\<lambda>x. ?n \<le> blk_size h x) fl = Some x" by (cases "List.find (\<lambda>x. ?n \<le> blk_size h x) fl") auto
  then have s: "?n \<le> blk_size h x" by (auto simp: find_Some_iff)
  from malloc_cases [OF assms(1,2)] x assms(3) obtain h'' fl' l t r where
    M: "Inr (p, h') = (Inr (ptr_of h x, h'') :: fault + _)" "ts = l @ t # r" "x = span l" "0 < t" "blk_size h x = t"
      "heap_ok h'' (taken_tags ?n l t r) fl'" "base h'' = base h" "len h'' = len h" "\<forall>y \<in> payload 0 ts. arr h'' y = arr h y"
    by auto
  then have e: "p = ptr_of h x" "h'' = h'" by simp_all
  from s M(5) have "?n \<le> t" by simp
  with M(2-4,6-9) e show ?thesis by blast
qed

text \<open>The free of a block that a client holds.\<close>

lemma u_free_block:
  assumes ok: "heap_ok h (l @ t # r) fl" and t: "t < 0" and lr: "l \<noteq> []" "r \<noteq> []" and small: "len h < 2 ^ 29"
  obtains fl' where "heap_ok (u_free (ptr_of h (span l)) h) (freed_tags l (- t) r) fl'"
    "base (u_free (ptr_of h (span l)) h) = base h"
    "\<And>y. y \<in> payload 0 (freed_tags l (- t) r) \<Longrightarrow> arr (u_free (ptr_of h (span l)) h) y = arr h y"
proof -
  note D = heap_okD [OF ok]
  have x: "0 \<le> span l" "span l + 1 < len h"
    using D(10) t layout_pos [of "arr h" "span l - t" r "len h"] D(8) lr span_nonneg by auto
  from free_block [OF ok t lr] obtain h' fl' where F: "free (ptr_of h (span l)) h = Inr h'"
    "heap_ok h' (freed_tags l (- t) r) fl'" "base h' = base h"
    "\<forall>y \<in> payload 0 (freed_tags l (- t) r). arr h' y = arr h y" by blast
  have "u_free (ptr_of h (span l)) h = h'"
    by (rule u_free_agrees [OF F(1)]) (simp add: u_idx_ptr [OF x small] idx_of_ptr(1) [OF x D(11,12)])
  then show ?thesis using that F by blast
qed

text \<open>
  What happens when the new block fits: \<open>y\<close> is its index, \<open>x\<close> that of the old one. The copy may read
  the footer of the old block and the header behind it, but it never writes outside the new block.
\<close>

lemma u_realloc_moves:
  assumes ok: "heap_ok h ts fl" and x: "x \<in> client_blocks ts" and n: "0 < newSize" "newSize \<le> 2 ^ 31 - 4"
    and small: "len h < 2 ^ 29" and m: "malloc (word_of_int newSize) h = Inr (q, h1)"
  obtains h' ts' fl' y where "u_realloc (ptr_of h x) newSize h = Inr (q, h')" "q = ptr_of h y" "q \<noteq> 0" "heap_ok h' ts' fl'"
    "client_blocks ts' = insert y (client_blocks ts) - {x}" "y \<notin> client_blocks ts"
    "\<forall>k \<in> {0 ..< min newSize (4 * (blk_size h x - 2))}. get_byte h' (4 * (y + 1) + k) = get_byte h (4 * (x + 1) + k)"
proof -
  let ?b = "word_of_int newSize :: u32"
  let ?n = "ints_of ?b"
  have ub: "uint ?b = newSize" using n by (simp add: uint_word_of_int)
  then have b0: "?b \<noteq> 0" using n by auto
  from malloc_Inr_frame [OF ok b0 m] obtain y fl1 l t r where M: "q = ptr_of h y" "ts = l @ t # r" "y = span l" "0 < t"
    "?n \<le> t" "heap_ok h1 (taken_tags ?n l t r) fl1" "base h1 = base h" "len h1 = len h"
    "\<forall>w \<in> payload 0 ts. arr h1 w = arr h w" by blast
  note D = heap_okD [OF ok] note D1 = heap_okD [OF M(6)]
  have n4: "4 \<le> ?n" by (rule ints_of_ge)
  have enough: "newSize \<le> 4 * (?n - 2)" using ints_of_enough [of ?b] n ub by simp
  from client_block_both [OF ok [unfolded M(2)] M(4) n4 x [unfolded M(2)]] obtain l1 t1 r1 l2 r2 where
    B: "ts = l1 @ t1 # r1" "taken_tags ?n l t r = l2 @ t1 # r2" "t1 < 0" "span l1 = x" "span l2 = x"
    "l2 \<noteq> []" "r2 \<noteq> []" "x - t1 \<le> y \<or> y + t \<le> x" using M(2,3) by metis
  have tx: "arr h x = t1" "blk_size h x = - t1" using D(8) B(1,3,4) by (auto simp: blk_size_def)
  have xb: "0 \<le> x" "x + 1 < len h" using client_block_bounds [OF ok x] by auto
  have t12: "2 \<le> - t1" using layout_tags_ge2 [OF D(8)] B(1,3) by auto
  have yb: "0 \<le> y" "y + 1 < len h"
    using M(2-5) D(10) n4 span_nonneg [of l] span_nonneg [of r] by simp_all
  define sz where "sz = - t1 * 4"
  define c where "c = nat (if newSize > sz then sz else newSize)"
  have c: "int c \<le> newSize" "int c \<le> sz" "min newSize (4 * (- t1 - 2)) \<le> int c"
    using n t12 by (auto simp: c_def sz_def)
  define h2 where "h2 = u_memcpy (4 * (y + 1)) (4 * (x + 1)) c h1"
  have pay: "w \<in> payload 0 (taken_tags ?n l t r)" if "y < w" "w \<le> y + ?n - 2" for w
    using taken_payload [OF D1(8) n4 M(5)] that M(3) by auto
  have h2: "base h2 = base h" "len h2 = len h" "avail h2 = avail h1"
    "\<And>w. w \<notin> payload 0 (taken_tags ?n l t r) \<Longrightarrow> arr h2 w = arr h1 w"
  proof -
    show "base h2 = base h" "len h2 = len h" "avail h2 = avail h1" using M(7,8) by (simp_all add: h2_def u_memcpy_frame)
    fix w assume "w \<notin> payload 0 (taken_tags ?n l t r)"
    then have "\<not> (y < w \<and> w \<le> y + ?n - 2)" using pay by blast
    then have "w \<le> y \<or> y + ?n - 2 < w" by linarith
    moreover have "(4 * (y + 1) + int c - 1) div 4 \<le> y + ?n - 2" using c(1) enough by presburger
    ultimately have "w < 4 * (y + 1) div 4 \<or> (4 * (y + 1) + int c - 1) div 4 < w" by auto
    then show "arr h2 w = arr h1 w" unfolding h2_def by (rule u_memcpy_frame(4))
  qed
  have ok2: "heap_ok h2 (taken_tags ?n l t r) fl1"
    by (rule heap_ok_payload [OF M(6)]) (use h2 M(7,8) in simp_all)
  have p2: "ptr_of h2 = ptr_of h" by (rule ptr_of_base) (rule h2(1))
  from u_free_block [OF ok2 [unfolded B(2)] B(3,6,7)] small h2(2) B(5) p2 obtain fl3 where
    F: "heap_ok (u_free (ptr_of h x) h2) (freed_tags l2 (- t1) r2) fl3"
    "\<And>w. w \<in> payload 0 (freed_tags l2 (- t1) r2) \<Longrightarrow> arr (u_free (ptr_of h x) h2) w = arr h2 w" by metis
  have q0: "q \<noteq> 0" unfolding M(1) by (rule idx_of_ptr(2) [OF yb D(11,12)])
  have p0: "ptr_of h x \<noteq> 0" by (rule idx_of_ptr(2) [OF xb D(11,12)])
  have um: "u_malloc newSize h = Inr (q, h1)" using u_malloc_agrees [OF ok n] m by simp
  have off: "offset_of h1 q = 4 * (y + 1)" "offset_of h1 (ptr_of h x) = 4 * (x + 1)"
    using offset_ptr [OF yb D(12)] offset_ptr [OF xb D(12)] M(1,7) by (simp_all add: offset_of_def)
  have r1: "u_realloc (ptr_of h x) newSize h = Inr (q, u_free (ptr_of h x) h2)"
    using p0 q0 n(1) B(3) tx um off
    by (simp add: u_realloc_def u_idx_ptr [OF xb small] isTaken_def Let_def h2_def c_def sz_def)
  have cb: "client_blocks (freed_tags l2 (- t1) r2) = insert y (client_blocks ts) - {x}" "y \<notin> client_blocks ts"
    using client_blocks_freed [OF ok2 [unfolded B(2)] B(3,6,7)] B(2,5)
      client_blocks_taken [OF ok [unfolded M(2)] M(4) n4] M(2,3) by auto
  have bytes: "get_byte (u_free (ptr_of h x) h2) (4 * (y + 1) + k) = get_byte h (4 * (x + 1) + k)"
    if k: "0 \<le> k" "k < min newSize (4 * (- t1 - 2))" for k
  proof -
    have d: "(4 * (y + 1) + k) div 4 = y + 1 + k div 4" "(4 * (x + 1) + k) div 4 = x + 1 + k div 4" by simp_all
    have kd: "0 \<le> k div 4" "k div 4 \<le> ?n - 3" "k div 4 < - t1 - 2" using k enough by auto
    have w: "y + 1 + k div 4 \<in> payload 0 (l2 @ t1 # r2)" using pay [of "y + 1 + k div 4"] kd B(2) by auto
    have "y + 1 + k div 4 \<in> payload 0 (freed_tags l2 (- t1) r2)"
      by (rule payload_kept [OF B(3,6,7) w]) (use B(5,8) kd M(5) in auto)
    then have "get_byte (u_free (ptr_of h x) h2) (4 * (y + 1) + k) = get_byte h2 (4 * (y + 1) + k)"
      by (intro get_byte_cong) (simp only: d F(2))
    also have "\<dots> = get_byte h1 (4 * (x + 1) + k)"
    proof -
      have "4 * (x + 1) + int c \<le> 4 * (y + 1) \<or> 4 * (y + 1) + int c \<le> 4 * (x + 1)"
        using B(8) c(1,2) enough M(5) by (auto simp: sz_def)
      from u_memcpy_bytes [OF this, of h1 "4 * (y + 1) + k"] show ?thesis
        using k c(3) by (simp add: h2_def)
    qed
    also have "\<dots> = get_byte h (4 * (x + 1) + k)"
    proof (rule get_byte_cong)
      have "x + 1 + k div 4 \<in> payload 0 ts" using kd B(1,3,4) by auto
      then show "arr h1 ((4 * (x + 1) + k) div 4) = arr h ((4 * (x + 1) + k) div 4)" using M(9) d by simp
    qed
    finally show ?thesis .
  qed
  show thesis by (rule that [OF r1 M(1) q0 F(1) cb]) (use bytes tx in auto)
qed

lemma u_heap_init_ok:
  assumes "0 < b" "uint b + 4 * INTS \<le> 2 ^ 32"
  shows "heap_ok (u_heap_init b) [-2, INTS - 4, -2] [2]"
proof -
  let ?n = "0x100000 :: int"
  let ?a = "(\<lambda>_. 0)(0 := -2, 1 := -2, 2 := ?n - 4, ?n - 3 := ?n - 4, 3 := 0, 4 := 0, ?n - 2 := -2, ?n - 1 := - 2 :: int)"
  have h: "u_heap_init b = \<lparr>base = b, arr = ?a, len = ?n, avail = 2\<rparr>"
    by (simp add: u_heap_init_def makeTaken_eq makeAvail_eq Let_def INTS_def)
  have "layout ?a 0 [-2, ?n - 4, -2] ?n" by simp
  moreover have "dll ?a 0 [2]" by simp
  ultimately show ?thesis
    using assms unfolding h INTS_def heap_ok_def hole_def guarded_def by auto
qed

section \<open>Properties\<close>

text \<open>
  C36. On every well formed heap the user's \<^verbatim>\<open>malloc\<close> and \<^verbatim>\<open>free\<close> compute what the kernel's do: the
  same pointer and the same heap, or null and the same heap when the kernel would panic because
  the heap is full; a block that a client holds is freed as the kernel frees it, and a pointer to
  something that is not taken is ignored. The user's own \<^verbatim>\<open>heap_init\<close> starts in such a heap.
\<close>
theorem user_heap_is_kernel_heap:
  assumes "heap_ok h ts fl" "len h < 2 ^ 29"
  shows "(0 < bytes \<and> bytes \<le> 2 ^ 31 - 4 \<longrightarrow>
      u_malloc bytes h = (case malloc (word_of_int bytes) h of Inr r \<Rightarrow> Inr r | Inl _ \<Rightarrow> Inr (0, h))) \<and>
    (x \<in> client_blocks ts \<longrightarrow> free (ptr_of h x) h = Inr (u_free (ptr_of h x) h)) \<and>
    (\<not> isTaken h (u_idx h p) \<longrightarrow> u_free p h = h) \<and>
    (0 < b \<and> uint b + 4 * INTS \<le> 2 ^ 32 \<longrightarrow> heap_ok (u_heap_init b) [-2, INTS - 4, -2] [2])"
proof (intro conjI impI)
  assume x: "x \<in> client_blocks ts"
  from client_block_split [OF assms(1) x] obtain l t r where d: "ts = l @ t # r" "t < 0" "x = span l" "l \<noteq> []" "r \<noteq> []" .
  note D = heap_okD [OF assms(1)]
  have xb: "0 \<le> x" "x + 1 < len h" using client_block_bounds [OF assms(1) x] by auto
  from free_block [OF assms(1) [unfolded d(1)] d(2,4,5)] obtain h' where "free (ptr_of h x) h = Inr h'" using d(3) by blast
  moreover from u_free_agrees [OF this] have "u_free (ptr_of h x) h = h'"
    by (simp add: u_idx_ptr [OF xb assms(2)] idx_of_ptr(1) [OF xb D(11,12)])
  ultimately show "free (ptr_of h x) h = Inr (u_free (ptr_of h x) h)" by simp
next
  assume "\<not> isTaken h (u_idx h p)"
  then show "u_free p h = h" by (simp add: u_free_def Let_def)
qed (use u_malloc_agrees [OF assms(1)] u_heap_init_ok in auto)

theorem user_heap_is_kernel_heap_witness:
  "\<exists>h'. u_malloc 100 small_heap = Inr (0x100C, h')"
  using user_heap_is_kernel_heap [OF small_heap_ok, of 100] small_heap_malloc
  by (auto simp: small_heap_def heap_init_def makeTaken_eq makeAvail_eq Let_def)

text \<open>
  C33. \<^verbatim>\<open>realloc\<close> of a block a client holds: when \<^verbatim>\<open>malloc\<close> finds a block for the new size, the client
  holds that one instead of the old one, the heap is well formed and the new block begins with the
  bytes of the old one, up to the smaller of both sizes. When nothing is found the result is null,
  and the old block is freed all the same: the client has lost its data.
\<close>
theorem realloc_keeps_bytes:
  assumes "heap_ok h ts fl" "x \<in> client_blocks ts" "0 < newSize" "newSize \<le> 2 ^ 31 - 4" "len h < 2 ^ 29"
  shows "case malloc (word_of_int newSize) h of
      Inr (q, _) \<Rightarrow> \<exists>h' ts' fl' y. u_realloc (ptr_of h x) newSize h = Inr (q, h') \<and> q = ptr_of h y \<and> q \<noteq> 0 \<and>
        heap_ok h' ts' fl' \<and> client_blocks ts' = insert y (client_blocks ts) - {x} \<and> y \<notin> client_blocks ts \<and>
        (\<forall>k \<in> {0 ..< min newSize (4 * (blk_size h x - 2))}. get_byte h' (4 * (y + 1) + k) = get_byte h (4 * (x + 1) + k))
    | Inl _ \<Rightarrow> \<exists>h' ts' fl'. u_realloc (ptr_of h x) newSize h = Inr (0, h') \<and> heap_ok h' ts' fl' \<and>
        client_blocks ts' = client_blocks ts - {x}"
proof (cases "malloc (word_of_int newSize) h")
  case (Inr r)
  obtain q h1 where r: "r = (q, h1)" by (cases r)
  show ?thesis unfolding Inr r sum.case prod.case
    by (rule u_realloc_moves [OF assms Inr [unfolded r]]) blast
next
  case (Inl e)
  note D = heap_okD [OF assms(1)]
  from client_block_split [OF assms(1,2)] obtain l t r where d: "ts = l @ t # r" "t < 0" "x = span l" "l \<noteq> []" "r \<noteq> []" .
  have xb: "0 \<le> x" "x + 1 < len h" using client_block_bounds [OF assms(1,2)] by auto
  from u_free_block [OF assms(1) [unfolded d(1)] d(2,4,5) assms(5)] d(3) obtain fl'
    where F: "heap_ok (u_free (ptr_of h x) h) (freed_tags l (- t) r) fl'" by metis
  have "arr h x = t" using D(8) d by simp
  then have "u_realloc (ptr_of h x) newSize h = Inr (0, u_free (ptr_of h x) h)"
    using idx_of_ptr(2) [OF xb D(11,12)] u_malloc_agrees [OF assms(1,3,4)] Inl assms(3) d(2)
    by (simp add: u_realloc_def u_idx_ptr [OF xb assms(5)] isTaken_def Let_def)
  then show ?thesis using F client_blocks_freed [OF assms(1) [unfolded d(1)] d(2,4,5)] d(1,3) Inl by auto
qed

text \<open>A heap in which the client holds the block at index 2, for the witness.\<close>

lemma small_heap_client:
  obtains h fl where "heap_ok h [-2, -27, 993, -2] fl" "base h = 0x1000" "len h = 1024" "client_blocks [-2, -27, 993, -2] = {2}"
proof -
  obtain h' fl' where m: "malloc 100 small_heap = Inr (0x100C, h')" and ok: "heap_ok h' [-2, -27, 993, -2] fl'"
    using small_heap_malloc by blast
  from malloc_Inr_frame [OF small_heap_ok _ m] have "base h' = base small_heap" by auto
  then have "base h' = 0x1000" by (simp add: small_heap_def heap_init_def makeTaken_eq makeAvail_eq Let_def)
  moreover have "client_blocks [-2, -27, 993, -2] = {2}" by (auto simp: client_blocks_def)
  ultimately show thesis using that ok heap_okD(10) [OF ok] by simp
qed

theorem realloc_keeps_bytes_witness:
  "\<exists>h q h' y. u_realloc (ptr_of h 2) 40 h = Inr (q, h') \<and> q = ptr_of h y \<and> q \<noteq> 0 \<and>
    (\<forall>k \<in> {0 ..< 40}. get_byte h' (4 * (y + 1) + k) = get_byte h (12 + k))"
proof -
  obtain h fl where ok: "heap_ok h [-2, -27, 993, -2] fl" and b: "base h = 0x1000" "len h = 1024"
    and c: "client_blocks [-2, -27, 993, -2] = {2}" by (rule small_heap_client)
  have s: "blk_size h 2 = 27" "blk_size h 29 = 993" using heap_okD(8) [OF ok] by (simp_all add: blk_size_def)
  have "29 \<in> set fl" using heap_okD(2) [OF ok] by simp
  moreover have i: "ints_of 40 = 12" by (simp add: ints_of_def)
  ultimately have "List.find (\<lambda>x. ints_of 40 \<le> blk_size h x) fl \<noteq> None"
    using s(2) by (auto simp: find_None_iff)
  with malloc_cases [OF ok, of 40] obtain q h1 where m: "malloc (word_of_int 40) h = Inr (q, h1)" by fastforce
  have "\<exists>h' ts' fl' y. u_realloc (ptr_of h 2) 40 h = Inr (q, h') \<and> q = ptr_of h y \<and> q \<noteq> 0 \<and>
        heap_ok h' ts' fl' \<and> client_blocks ts' = insert y {2} - {2} \<and> y \<notin> {2} \<and>
        (\<forall>k \<in> {0 ..< min 40 (4 * (blk_size h 2 - 2))}. get_byte h' (4 * (y + 1) + k) = get_byte h (4 * (2 + 1) + k))"
    using realloc_keeps_bytes [OF ok, of 2 40] unfolding m sum.case prod.case c by (simp add: b)
  then show ?thesis unfolding s by auto
qed

end
