(* ===== verification/User_Libc.thy ===== *)
theory User_Libc
  imports Kernel_Prelude
begin

text \<open>
  \<^verbatim>\<open>user/libc.c\<close>: output of strings and numbers, reading of lines and files, and the splitting of a
  command line. A string in memory is the list of the bytes from its address on; reading behind the
  end of the list is a fault. Output is the list of bytes given to \<^verbatim>\<open>putchar\<close>. A buffer is the list
  of its bytes and a write outside it is a fault. The calls into the kernel, \<^verbatim>\<open>getchar\<close> and \<^verbatim>\<open>read\<close>,
  are arguments, and so is whether \<^verbatim>\<open>realloc\<close> finds memory.
\<close>

section \<open>Strings and numbers\<close>

definition hexDigits :: "u8 list" where
  "hexDigits = [0x30, 0x31, 0x32, 0x33, 0x34, 0x35, 0x36, 0x37, 0x38, 0x39, 0x61, 0x62, 0x63, 0x64, 0x65, 0x66]"

fun puts :: "u8 list \<Rightarrow> fault + u8 list" where
  "puts [] = Inl BadIndex"
| "puts (c # p) = (if c \<noteq> 0 then bindE (puts p) (\<lambda>out. Inr (c # out)) else Inr [])"

fun strlen :: "u8 list \<Rightarrow> fault + nat" where
  "strlen [] = Inl BadIndex"
| "strlen (c # str) = (if c \<noteq> 0 then bindE (strlen str) (\<lambda>len. Inr (len + 1)) else Inr 0)"

fun puthex_loop :: "nat \<Rightarrow> u32 \<Rightarrow> u8 list" where
  "puthex_loop 0 v = []"
| "puthex_loop (Suc i) v = hexDigits ! unat (drop_bit 28 (v AND 0xf0000000)) # puthex_loop i (push_bit 4 v)"

definition puthex :: "u32 \<Rightarrow> u8 list" where
  "puthex v = puthex_loop 8 v"

function putdec :: "u32 \<Rightarrow> u8 list" where
  "putdec v = (if v \<ge> 10 then putdec (v div 10) else []) @ [hexDigits ! unat (v mod 10)]"
  by pat_completeness auto
termination
  by (relation "measure unat") (auto simp: unat_div word_le_nat_alt)

declare putdec.simps [simp del]

section \<open>Reading\<close>

text \<open>
  \<^verbatim>\<open>gets\<close>: the input is the list of the characters that \<^verbatim>\<open>getchar\<close> will return, the state the index,
  the size, the buffer and the output. \<open>avail_mem k\<close> tells whether \<^verbatim>\<open>realloc\<close> succeeds for \<open>k\<close>
  bytes; a buffer that it returns begins with the old bytes and is otherwise arbitrary, here \<open>junk\<close>.
  The result is the buffer, or nothing for null, and the output; input that ends before the end of
  the line leaves the program waiting.
\<close>

fun gets_loop :: "(nat \<Rightarrow> bool) \<Rightarrow> u8 \<Rightarrow> u8 list \<Rightarrow> nat \<Rightarrow> nat \<Rightarrow> u8 list \<Rightarrow> u8 list \<Rightarrow> fault + (u8 list option \<times> u8 list)" where
  "gets_loop avail_mem junk input i sz p out =
     (let grow = i \<ge> sz;
          sz' = (if grow then sz + 10 else sz);
          p' = (if grow then p @ replicate (sz' + 1 - length p) junk else p)
      in if grow \<and> \<not> avail_mem (sz' + 1) then Inr (None, out)
         else case input of
             [] \<Rightarrow> Inl Diverges
           | c # input' \<Rightarrow>
               if c = 13 then (if i < length p' then Inr (Some (p'[i := 0]), out @ [c, 0x0a]) else Inl BadIndex)
               else if i < length p' then gets_loop avail_mem junk input' (i + 1) sz' (p'[i := c]) (out @ [c])
               else Inl BadIndex)"

declare gets_loop.simps [simp del]

definition gets :: "(nat \<Rightarrow> bool) \<Rightarrow> u8 \<Rightarrow> u8 list \<Rightarrow> fault + (u8 list option \<times> u8 list)" where
  "gets avail_mem junk input = gets_loop avail_mem junk input 0 0 [] []"

text \<open>
  \<^verbatim>\<open>readFully\<close>: \<open>read togo s\<close> is what the kernel answers, the count and the bytes it has stored in the
  buffer. A count above what was asked for would have written behind the buffer.
\<close>

function readFully_loop :: "(nat \<Rightarrow> 's \<Rightarrow> int \<times> u8 list \<times> 's) \<Rightarrow> nat \<Rightarrow> nat \<Rightarrow> u8 list \<Rightarrow> 's \<Rightarrow> fault + (int \<times> u8 list \<times> 's)" where
  "readFully_loop read len togo buf s =
     (if togo = 0 then Inr (int len, buf, s)
      else
        (let (cnt, bytes, s) = read togo s in
         if cnt < 0 then Inr (cnt, buf, s)
         else if cnt = 0 then Inr (int len - int togo, buf, s)
         else if cnt > int togo then Inl BadIndex
         else readFully_loop read len (togo - nat cnt) (buf @ bytes) s))"
  by pat_completeness auto
termination
  by (relation "measure (\<lambda>(_, _, togo, _, _). togo)") auto

declare readFully_loop.simps [simp del]

definition readFully :: "(nat \<Rightarrow> 's \<Rightarrow> int \<times> u8 list \<times> 's) \<Rightarrow> nat \<Rightarrow> 's \<Rightarrow> fault + (int \<times> u8 list \<times> 's)" where
  "readFully read len s = readFully_loop read len len [] s"

section \<open>Splitting a command line\<close>

text \<open>
  \<^verbatim>\<open>delimitBy\<close>: \<open>args\<close> is the array of pointers, each null or the twelve bytes it points to; \<^verbatim>\<open>malloc\<close>
  is taken to succeed. The loop runs over the characters of the string.
\<close>

record delimit =
  args :: "u8 list option list"
  numArgs :: nat
  argNum :: nat
  setArg :: bool
  argIdx :: nat

definition grow_args :: "delimit \<Rightarrow> delimit" where
  "grow_args s =
     (if argNum s = numArgs s
      then let newsz = numArgs s + 2;
               temp = replicate newsz None
           in s\<lparr>args := args s @ drop (numArgs s) temp, numArgs := newsz\<rparr>
      else s)"

definition put_char :: "u8 \<Rightarrow> delimit \<Rightarrow> fault + delimit" where
  "put_char c s =
     (if argNum s < length (args s) then
        (case args s ! argNum s of
           None \<Rightarrow> Inl NullDeref
         | Some a \<Rightarrow>
             if argIdx s < length a
             then Inr (s\<lparr>args := (args s)[argNum s := Some (a[argIdx s := c])], argIdx := argIdx s + 1\<rparr>)
             else Inl BadIndex)
      else Inl BadIndex)"

definition delimit_step :: "u8 \<Rightarrow> u8 \<Rightarrow> delimit \<Rightarrow> fault + delimit" where
  "delimit_step delimiter c s =
     (if c \<noteq> delimiter then
        bindE
          (if \<not> setArg s then
             (let s = grow_args s in
              if argNum s < length (args s)
              then Inr (s\<lparr>args := (args s)[argNum s := Some (replicate 12 0)], setArg := True\<rparr>)
              else Inl BadIndex)
           else Inr s)
          (put_char c)
      else if setArg s then Inr (s\<lparr>setArg := False, argIdx := 0, argNum := argNum s + 1\<rparr>)
      else Inr s)"

fun delimit_loop :: "u8 \<Rightarrow> u8 list \<Rightarrow> delimit \<Rightarrow> fault + delimit" where
  "delimit_loop delimiter [] s = Inl BadIndex"
| "delimit_loop delimiter (c # cs) s =
     (if c \<noteq> 0 \<and> c \<noteq> 13 then bindE (delimit_step delimiter c s) (delimit_loop delimiter cs) else Inr s)"

definition delimitBy :: "u8 list \<Rightarrow> u8 \<Rightarrow> fault + u8 list option list" where
  "delimitBy input delimiter =
     bindE (delimit_loop delimiter input \<lparr>args = [None], numArgs = 1, argNum = 0, setArg = False, argIdx = 0\<rparr>)
       (\<lambda>s. Inr (args s))"

section \<open>What is printed\<close>

text \<open>The number that a list of digits denotes, for digits as \<^verbatim>\<open>hexDigits\<close> prints them.\<close>

definition digit :: "u8 \<Rightarrow> nat" where
  "digit c = (if c \<le> 0x39 then unat c - 0x30 else unat c - 0x57)"

definition number :: "nat \<Rightarrow> u8 list \<Rightarrow> nat" where
  "number base ds = foldl (\<lambda>n c. base * n + digit c) 0 ds"

lemma number_snoc [simp]: "number base (ds @ [c]) = base * number base ds + digit c"
  by (simp add: number_def)

lemma number_Nil [simp]: "number base [] = 0"
  by (simp add: number_def)

lemma number_single [simp]: "number base [c] = digit c"
  by (simp add: number_def)

lemma number_Cons: "number base (c # ds) = digit c * base ^ length ds + number base ds"
  by (induction ds rule: rev_induct) (simp_all flip: append_Cons add: algebra_simps)

lemma digit_hexDigits: "k < 16 \<Longrightarrow> digit (hexDigits ! k) = k"
proof -
  have "\<forall>k < 16. digit (hexDigits ! k) = k" unfolding hexDigits_def digit_def by code_simp
  then show "k < 16 \<Longrightarrow> digit (hexDigits ! k) = k" by blast
qed

lemma hexDigits_decimal: "k < 10 \<Longrightarrow> 0x30 \<le> hexDigits ! k \<and> hexDigits ! k \<le> 0x39"
proof -
  have "\<forall>k < 10. 0x30 \<le> hexDigits ! k \<and> hexDigits ! k \<le> 0x39" unfolding hexDigits_def by code_simp
  then show "k < 10 \<Longrightarrow> 0x30 \<le> hexDigits ! k \<and> hexDigits ! k \<le> 0x39" by blast
qed

lemma putdec_step: "unat (v mod 10 :: u32) = unat v mod 10" "unat (v div 10 :: u32) = unat v div 10"
  by (simp_all add: unat_mod_distrib unat_div_distrib)

lemma putdec_number: "number 10 (putdec v) = unat v"
proof (induction v rule: putdec.induct)
  case (1 v)
  show ?case
  proof (cases "v \<ge> 10")
    case True
    then show ?thesis using 1 by (subst putdec.simps) (simp add: putdec_step digit_hexDigits)
  next
    case False
    then have "unat v < 10" by (simp add: word_le_nat_alt)
    with False show ?thesis by (subst putdec.simps) (simp add: putdec_step digit_hexDigits)
  qed
qed

lemma putdec_digits: "\<forall>c \<in> set (putdec v). 0x30 \<le> c \<and> c \<le> 0x39"
proof (induction v rule: putdec.induct)
  case (1 v)
  have "unat (v mod 10) < 10" by (simp add: putdec_step)
  then show ?case using 1 hexDigits_decimal by (subst putdec.simps) auto
qed

lemma putdec_first: "v \<noteq> 0 \<Longrightarrow> hd (putdec v) \<noteq> 0x30"
proof (induction v rule: putdec.induct)
  case (1 v)
  show ?case
  proof (cases "v \<ge> 10")
    case True
    then have "10 \<le> unat v" by (simp add: word_le_nat_alt)
    then have "v div 10 \<noteq> 0" by (metis putdec_step(2) div_greater_zero_iff unat_0 less_numeral_extra(3) zero_less_numeral)
    moreover have "putdec (v div 10) \<noteq> []" by (subst putdec.simps) simp
    ultimately show ?thesis using 1(1) True by (subst putdec.simps) simp
  next
    case False
    then have "unat v < 10" "unat v \<noteq> 0" using 1(2) by (auto simp: word_le_nat_alt unat_eq_0)
    then have "digit (hexDigits ! (unat v mod 10)) \<noteq> 0" by (simp add: digit_hexDigits)
    then have "hexDigits ! (unat v mod 10) \<noteq> 0x30" by (auto simp: digit_def)
    then show ?thesis using False by (subst putdec.simps) (simp add: putdec_step)
  qed
qed

lemma length_puthex_loop [simp]: "length (puthex_loop n v) = n"
  by (induction n arbitrary: v) auto

lemma top_nibble: "unat (drop_bit 28 (v AND 0xf0000000 :: u32)) = unat v div 2 ^ 28"
proof -
  have "drop_bit 28 (v AND 0xf0000000) = drop_bit 28 v"
  proof (rule bit_word_eqI)
    fix n :: nat assume n: "n < LENGTH(32)"
    have "bit (0xf0000000 :: u32) (28 + n) \<longleftrightarrow> 28 + n < 32"
    proof -
      have "(0xf0000000 :: u32) = push_bit 28 (mask 4)" by (simp add: mask_eq_exp_minus_1)
      show ?thesis unfolding \<open>0xf0000000 = push_bit 28 (mask 4)\<close> by (simp only: bit_push_bit_iff bit_mask_iff) auto
    qed
    then have "bit (drop_bit 28 (v AND 0xf0000000)) n \<longleftrightarrow> bit v (28 + n) \<and> 28 + n < 32"
      by (simp only: bit_drop_bit_eq bit_and_iff o_apply)
    then show "bit (drop_bit 28 (v AND 0xf0000000)) n \<longleftrightarrow> bit (drop_bit 28 v) n"
      using bit_imp_le_length [of v "28 + n"] by (auto simp: bit_drop_bit_eq)
  qed
  then show ?thesis by (simp add: drop_bit_eq_div unat_div_distrib)
qed

lemma nibble_split:
  assumes "n < 8" "V < (2 :: nat) ^ 32"
  shows "V div 2 ^ 28 * 16 ^ n + (V * 16 mod 2 ^ 32) div 2 ^ (32 - 4 * n) = V div 2 ^ (32 - 4 * Suc n)" (is "?l = ?r")
proof -
  define h l where "h = V div 2 ^ 28" and "l = V mod 2 ^ 28"
  have V: "V = h * 2 ^ 28 + l" "l < 2 ^ 28" by (simp_all add: h_def l_def)
  have "V * 16 = h * 2 ^ 32 + l * 16" using V by simp
  then have m: "V * 16 mod 2 ^ 32 = l * 16" using V(2) by simp
  define k where "k = 28 - 4 * n"
  have k: "32 - 4 * n = k + 4" "32 - 4 * Suc n = k" using assms(1) by (simp_all add: k_def)
  have p: "(2 :: nat) ^ 28 = 16 ^ n * 2 ^ k"
  proof -
    have "(16 :: nat) ^ n = 2 ^ (4 * n)" by (simp add: power_mult)
    moreover have "4 * n + k = 28" using assms(1) by (simp add: k_def)
    ultimately show ?thesis by (metis power_add)
  qed
  have "V div 2 ^ k = h * 16 ^ n + l div 2 ^ k"
  proof -
    have "V = l + (h * 16 ^ n) * 2 ^ k" using V(1) p by simp
    then show ?thesis by simp
  qed
  moreover have "(2 :: nat) ^ (k + 4) = 2 ^ k * 16" by (simp add: power_add)
  then have "l * 16 div 2 ^ (k + 4) = l div 2 ^ k" by simp
  ultimately show ?thesis unfolding k m h_def [symmetric] by simp
qed

lemma puthex_number: "n \<le> 8 \<Longrightarrow> number 16 (puthex_loop n v) = unat v div 2 ^ (32 - 4 * n)"
proof (induction n arbitrary: v)
  case 0
  have "unat v < 2 ^ 32" using unat_lt_u32 [of v] by simp
  then show ?case by simp
next
  case (Suc n)
  have V: "unat v < 2 ^ 32" using unat_lt_u32 [of v] by simp
  have p: "unat (push_bit 4 v) = unat v * 16 mod 2 ^ 32"
    by (simp add: push_bit_eq_mult unat_word_ariths mult.commute)
  have "unat v div 2 ^ 28 < 16" using V by simp
  then show ?case
    unfolding puthex_loop.simps number_Cons length_puthex_loop top_nibble
    using Suc nibble_split [of n "unat v"] V by (simp add: digit_hexDigits p)
qed

text \<open>
  C39. \<^verbatim>\<open>putdec\<close> prints a number in decimal, digits only and without leading zeros, and \<^verbatim>\<open>puthex\<close> prints
  all eight hexadecimal digits: read back, both give the number that was printed.
\<close>
theorem numbers_print_and_read_back:
  "number 10 (putdec v) = unat v \<and> list_all (\<lambda>c. 0x30 \<le> c \<and> c \<le> 0x39) (putdec v) \<and>
   (v = 0) = (hd (putdec v) = 0x30) \<and>
   number 16 (puthex v) = unat v \<and> length (puthex v) = 8"
proof (intro conjI)
  show "number 10 (putdec v) = unat v" by (rule putdec_number)
  show "list_all (\<lambda>c. 0x30 \<le> c \<and> c \<le> 0x39) (putdec v)" using putdec_digits by (simp add: list_all_iff)
  have "putdec 0 = [0x30]" by (simp add: putdec.simps hexDigits_def)
  then show "(v = 0) = (hd (putdec v) = 0x30)" using putdec_first by auto
  show "number 16 (puthex v) = unat v" "length (puthex v) = 8" using puthex_number [of 8 v] by (simp_all add: puthex_def)
qed

section \<open>Lines\<close>

lemma gets_loop_line:
  assumes mem: "\<And>k. avail_mem k" and line: "13 \<notin> set line" and len: "length p = (if sz = 0 then 0 else sz + 1)" "i \<le> sz"
  shows "\<exists>q. gets_loop avail_mem junk (line @ 13 # rest) i sz p out = Inr (Some q, out @ line @ [13, 10]) \<and>
    take (i + length line) q = take i p @ line \<and> i + length line < length q \<and> q ! (i + length line) = 0"
  using line len
proof (induction line arbitrary: i sz p out)
  case Nil
  let ?sz = "if i \<ge> sz then sz + 10 else sz"
  let ?p = "if i \<ge> sz then p @ replicate (?sz + 1 - length p) junk else p"
  have l: "length ?p = ?sz + 1" "i < ?sz" "take i ?p = take i p" using Nil by (auto split: if_splits)
  have "gets_loop avail_mem junk ([] @ 13 # rest) i sz p out = Inr (Some (?p[i := 0]), out @ [] @ [13, 10])"
    using mem l by (subst gets_loop.simps) (simp add: Let_def)
  moreover have "take (i + length []) (?p[i := 0]) = take i p @ []" using l by simp
  moreover have "i + length [] < length (?p[i := 0])" "?p[i := 0] ! (i + length []) = 0" using l by simp_all
  ultimately show ?case by blast
next
  case (Cons c line)
  let ?sz = "if i \<ge> sz then sz + 10 else sz"
  let ?p = "if i \<ge> sz then p @ replicate (?sz + 1 - length p) junk else p"
  have l: "length ?p = ?sz + 1" "i < ?sz" "take i ?p = take i p" "0 < ?sz" using Cons.prems by (auto split: if_splits)
  from Cons.IH [of "?p[i := c]" ?sz "i + 1" "out @ [c]"] Cons.prems(1) l obtain q where
    q: "gets_loop avail_mem junk (line @ 13 # rest) (i + 1) ?sz (?p[i := c]) (out @ [c]) = Inr (Some q, (out @ [c]) @ line @ [13, 10])"
      "take (i + 1 + length line) q = take (i + 1) (?p[i := c]) @ line" "i + 1 + length line < length q" "q ! (i + 1 + length line) = 0"
    by auto
  have "take (i + 1) (?p[i := c]) = take i p @ [c]"
    using l by (simp add: take_Suc_conv_app_nth)
  moreover have "gets_loop avail_mem junk ((c # line) @ 13 # rest) i sz p out = Inr (Some q, out @ (c # line) @ [13, 10])"
    using mem l q(1) Cons.prems(1) by (subst gets_loop.simps) (simp add: Let_def)
  ultimately show ?case using q by (intro exI [of _ q]) simp
qed

text \<open>
  C40. \<^verbatim>\<open>gets\<close> returns the line before the return key as a terminated string, however long it is: the
  buffer grows in time, so that nothing is written outside it; every character is echoed.
\<close>
theorem gets_returns_line:
  assumes "\<And>k. avail_mem k" "13 \<notin> set line"
  shows "\<exists>q. gets avail_mem junk (line @ 13 # rest) = Inr (Some q, line @ [13, 10]) \<and>
    take (length line) q = line \<and> length line < length q \<and> q ! length line = 0"
  using gets_loop_line [of avail_mem line "[]" 0 0 junk rest "[]"] assms by (simp add: gets_def)

theorem gets_returns_line_witness:
  "\<exists>q. gets (\<lambda>_. True) 0xAA ([0x6c, 0x73] @ 13 # []) = Inr (Some q, [0x6c, 0x73] @ [13, 10]) \<and> take (length [0x6c :: u8, 0x73]) q = [0x6c, 0x73]"
  using gets_returns_line [of "\<lambda>_. True" "[0x6c, 0x73]" "0xAA" "[]"] by fastforce

section \<open>Files\<close>

text \<open>
  The same for a reader with a state \<open>s\<close>: \<open>Q togo rest s\<close> says what it has been asked for and what it still
  has to deliver.
\<close>

lemma readFully_state:
  assumes step: "\<And>togo rest s. 0 < togo \<Longrightarrow> Q togo rest s \<Longrightarrow> \<exists>k s'. k \<le> togo \<and> k \<le> length rest \<and>
      read togo s = (int k, take k rest, s') \<and> (k = 0 \<longrightarrow> rest = []) \<and> Q (togo - k) (drop k rest) s'"
    and "Q len content s"
  shows "\<exists>s'. readFully read len s = Inr (int (min len (length content)), take len content, s') \<and>
    Q (len - min len (length content)) (drop len content) s'"
proof -
  have "\<exists>s'. readFully_loop read l togo buf s = Inr (int (l - togo) + int (min togo (length rest)), buf @ take togo rest, s') \<and>
      Q (togo - min togo (length rest)) (drop togo rest) s'"
    if "togo \<le> l" "Q togo rest s" for l togo buf rest s
    using that
  proof (induction togo arbitrary: buf rest s rule: less_induct)
    case (less togo)
    show ?case
    proof (cases "togo = 0")
      case True
      then show ?thesis using less.prems by (simp add: readFully_loop.simps)
    next
      case False
      then obtain k s' where k: "k \<le> togo" "k \<le> length rest" "read togo s = (int k, take k rest, s')" "k = 0 \<longrightarrow> rest = []"
        "Q (togo - k) (drop k rest) s'" using step [of togo rest s] less.prems by auto
      show ?thesis
      proof (cases "k = 0")
        case True
        then show ?thesis using k False less.prems by (subst readFully_loop.simps) (auto simp: of_nat_diff)
      next
        case nz: False
        have "take togo rest = take k rest @ take (togo - k) (drop k rest)" using k(1) by (metis le_add_diff_inverse take_add)
        moreover have "drop togo rest = drop (togo - k) (drop k rest)" using k(1) by simp
        moreover have "togo - k - min (togo - k) (length rest - k) = togo - min togo (length rest)" using k(1,2) by linarith
        moreover obtain s2 where "readFully_loop read l (togo - k) (buf @ take k rest) s' =
            Inr (int (l - (togo - k)) + int (min (togo - k) (length (drop k rest))), (buf @ take k rest) @ take (togo - k) (drop k rest), s2)"
          "Q (togo - k - min (togo - k) (length (drop k rest))) (drop (togo - k) (drop k rest)) s2"
        proof -
          have "togo - k < togo" "togo - k \<le> l" using less.prems nz False by simp_all
          from less.IH [OF this k(5), of "buf @ take k rest"] show thesis using that by blast
        qed
        moreover have "int k + int (min (togo - k) (length rest - k)) = int (min togo (length rest))"
          using k(1,2) by linarith
        ultimately show ?thesis using k nz False less.prems(1) by (subst readFully_loop.simps) (simp add: of_nat_diff)
      qed
    qed
  qed
  from this [of len len content s "[]"] assms(2) show ?thesis by (simp add: readFully_def)
qed

text \<open>
  \<^verbatim>\<open>readFully\<close> on a file of which \<^verbatim>\<open>read\<close> delivers some of the remaining bytes at a time, none only
  at its end: it returns the first bytes of the rest of the file, as many as were asked for or as
  there are, and it ends.
\<close>
theorem readFully_reads_all:
  assumes "\<And>togo rest. 0 < togo \<Longrightarrow> \<exists>k \<le> min togo (length rest). read togo rest = (int k, take k rest, drop k rest) \<and> (k = 0 \<longrightarrow> rest = [])"
  shows "readFully read len content = Inr (int (min len (length content)), take len content, drop len content)"
proof -
  have "\<exists>s'. readFully read len content = Inr (int (min len (length content)), take len content, s') \<and> s' = drop len content"
    by (rule readFully_state [where Q = "\<lambda>_ rest s. s = rest"]) (use assms in auto)
  then show ?thesis by simp
qed

theorem readFully_reads_all_witness:
  "readFully (\<lambda>togo rest. (int (min togo (min 3 (length rest))), take (min togo 3) rest, drop (min togo 3) rest)) 5 [1, 2, 3, 4, 5, 6, 7] =
    Inr (5, [1, 2, 3, 4, 5], [6, 7])"
  by (subst readFully_reads_all) (auto intro!: exI [of _ "min _ (min 3 (length _))"] simp: min_def)

section \<open>Words of a command line\<close>

text \<open>The words between the delimiters, and the array of pointers after \<open>k\<close> words.\<close>

fun split_at :: "'a \<Rightarrow> 'a list \<Rightarrow> 'a list list" where
  "split_at d [] = [[]]"
| "split_at d (c # cs) = (if c = d then [] # split_at d cs else (c # hd (split_at d cs)) # tl (split_at d cs))"

definition words_of :: "'a \<Rightarrow> 'a list \<Rightarrow> 'a list list" where
  "words_of d cs = filter (\<lambda>t. t \<noteq> []) (split_at d cs)"

definition slots :: "nat \<Rightarrow> nat" where
  "slots k = (if k \<le> 1 then 1 else if odd k then k else k + 1)"

definition padded :: "u8 list \<Rightarrow> u8 list" where
  "padded t = t @ replicate (12 - length t) 0"

lemma split_at_nonempty [simp]: "split_at d cs \<noteq> []"
  by (cases cs) auto

lemma words_of_Cons:
  "words_of d (c # cs) = (if c = d then words_of d cs
    else (c # hd (split_at d cs)) # filter (\<lambda>t. t \<noteq> []) (tl (split_at d cs)))"
  by (simp add: words_of_def)

lemma words_of_split: "words_of d cs = (if hd (split_at d cs) = [] then [] else [hd (split_at d cs)]) @ filter (\<lambda>t. t \<noteq> []) (tl (split_at d cs))"
  unfolding words_of_def by (cases "split_at d cs") auto

text \<open>The state between two characters: the words that are complete and the one that is being read.\<close>

definition reading :: "u8 list list \<Rightarrow> u8 list \<Rightarrow> delimit" where
  "reading ts cur =
     (let all = (if cur = [] then ts else ts @ [cur])
      in \<lparr>args = map (Some \<circ> padded) all @ replicate (slots (length all) - length all) None, numArgs = slots (length all),
          argNum = length ts, setArg = (cur \<noteq> []), argIdx = length cur\<rparr>)"

lemma slots_ge: "k \<le> slots k"
  by (simp add: slots_def)

lemma padded_write: "length t < 12 \<Longrightarrow> (padded t)[length t := c] = padded (t @ [c])"
  by (simp add: padded_def list_update_append Suc_diff_Suc [symmetric])

lemma length_padded [simp]: "length t \<le> 12 \<Longrightarrow> length (padded t) = 12"
  by (simp add: padded_def)

lemma step_delimiter: "delimit_step d d (reading ts cur) = Inr (reading (if cur = [] then ts else ts @ [cur]) [])"
  by (auto simp: delimit_step_def reading_def Let_def)

lemma step_more:
  assumes "c \<noteq> d" "cur \<noteq> []" "length cur < 12"
  shows "delimit_step d c (reading ts cur) = Inr (reading ts (cur @ [c]))"
  using assms padded_write [OF assms(3), of c]
  by (auto simp: delimit_step_def put_char_def reading_def Let_def nth_append list_update_append slots_def)

lemma step_overflow:
  assumes "c \<noteq> d" "length cur = 12"
  shows "delimit_step d c (reading ts cur) = Inl BadIndex"
  using assms by (auto simp: delimit_step_def put_char_def reading_def Let_def nth_append slots_def)

lemma slots_Suc: "slots (Suc k) = (if k = slots k then k + 2 else slots k)"
  by (cases "k = 0"; cases "k = 1") (auto simp: slots_def)

lemma step_first:
  assumes "c \<noteq> d"
  shows "delimit_step d c (reading ts []) = Inr (reading ts [c])"
proof -
  let ?s = "reading ts []" and ?k = "length ts"
  have k: "argNum ?s = ?k" "numArgs ?s = slots ?k" "setArg ?s = False" "argIdx ?s = 0"
    "args ?s = map (Some \<circ> padded) ts @ replicate (slots ?k - ?k) None" by (simp_all add: reading_def)
  have g: "grow_args ?s = \<lparr>args = map (Some \<circ> padded) ts @ replicate (slots (Suc ?k) - ?k) None,
      numArgs = slots (Suc ?k), argNum = ?k, setArg = False, argIdx = 0\<rparr>"
  proof (cases "?k = slots ?k")
    case True
    then have "slots (Suc ?k) = ?k + 2" by (simp add: slots_Suc)
    with True show ?thesis using k by (simp add: grow_args_def reading_def Let_def numeral_2_eq_2)
  next
    case False
    then have "slots (Suc ?k) = slots ?k" by (simp add: slots_Suc)
    with False show ?thesis using k by (simp add: grow_args_def reading_def)
  qed
  have r: "replicate (slots (Suc ?k) - ?k) (None :: u8 list option) = None # replicate (slots (Suc ?k) - Suc ?k) None"
  proof -
    have "slots (Suc ?k) - ?k = Suc (slots (Suc ?k) - Suc ?k)" using slots_ge [of "Suc ?k"] by simp
    then show ?thesis by simp
  qed
  have p: "padded [c] = (replicate 12 0)[0 := c]" by (simp add: padded_def numeral_eq_Suc)
  show ?thesis using assms k(3)
    by (simp add: delimit_step_def g r put_char_def Let_def nth_append list_update_append)
      (simp add: reading_def p)
qed

text \<open>The words still to come when \<open>cur\<close> has been read of one, and the loop over them.\<close>

definition words_from :: "'a \<Rightarrow> 'a list \<Rightarrow> 'a list \<Rightarrow> 'a list list" where
  "words_from d cur cs = filter (\<lambda>t. t \<noteq> []) ((cur @ hd (split_at d cs)) # tl (split_at d cs))"

lemma words_from_simps:
  "words_from d cur [] = (if cur = [] then [] else [cur])"
  "words_from d cur (d # cs) = (if cur = [] then [] else [cur]) @ words_from d [] cs"
  "c \<noteq> d \<Longrightarrow> words_from d cur (c # cs) = words_from d (cur @ [c]) cs"
  "words_from d [] cs = words_of d cs"
proof -
  show "words_from d [] cs = words_of d cs"
    by (simp only: words_from_def words_of_def append_Nil list.collapse [OF split_at_nonempty])
  then show "words_from d cur (d # cs) = (if cur = [] then [] else [cur]) @ words_from d [] cs"
    by (simp add: words_from_def words_of_def)
qed (simp_all add: words_from_def)

lemma words_from_long: "cur \<noteq> [] \<Longrightarrow> \<exists>t \<in> set (words_from d cur cs). length cur \<le> length t"
  by (simp add: words_from_def)

lemma delimit_loop_spec:
  assumes "0 \<notin> set cs" "13 \<notin> set cs" "e \<in> {0, 13}" "length cur \<le> 12"
  shows "if \<forall>t \<in> set (words_from d cur cs). length t \<le> 12
     then \<exists>ts' cur'. delimit_loop d (cs @ e # rest) (reading ts cur) = Inr (reading ts' cur') \<and>
            ts' @ (if cur' = [] then [] else [cur']) = ts @ words_from d cur cs
     else delimit_loop d (cs @ e # rest) (reading ts cur) = Inl BadIndex"
  using assms
proof (induction cs arbitrary: ts cur)
  case Nil
  then show ?case by (auto simp: words_from_simps)
next
  case (Cons c cs)
  have c: "c \<noteq> 0" "c \<noteq> 13" "0 \<notin> set cs" "13 \<notin> set cs" using Cons.prems by auto
  show ?case
  proof (cases "c = d")
    case True
    let ?ts = "if cur = [] then ts else ts @ [cur]"
    have l: "delimit_loop d ((c # cs) @ e # rest) (reading ts cur) = delimit_loop d (cs @ e # rest) (reading ?ts [])"
      using c by (simp add: True step_delimiter)
    have w: "ts @ words_from d cur (c # cs) = ?ts @ words_from d [] cs"
      "(\<forall>t \<in> set (words_from d cur (c # cs)). length t \<le> 12) \<longleftrightarrow> (\<forall>t \<in> set (words_from d [] cs). length t \<le> 12)"
      using Cons.prems(4) by (simp_all add: True words_from_simps(2))
    from Cons.IH [OF c(3,4) Cons.prems(3), of "[]" ?ts] show ?thesis unfolding l w by simp
  next
    case False
    show ?thesis
    proof (cases "length cur < 12")
      case True
      have "delimit_step d c (reading ts cur) = Inr (reading ts (cur @ [c]))"
        using step_first [OF False] step_more [OF False _ True] by (cases "cur = []") auto
      with Cons.IH [OF c(3,4) Cons.prems(3), of "cur @ [c]" ts] True show ?thesis
        using c by (simp add: words_from_simps(3) [OF False])
    next
      case full: False
      then have l: "length cur = 12" using Cons.prems(4) by simp
      from words_from_long [of "cur @ [c]" d cs] l obtain t where "t \<in> set (words_from d (cur @ [c]) cs)" "12 < length t" by auto
      then have "\<exists>t \<in> set (words_from d cur (c # cs)). 12 < length t"
        unfolding words_from_simps(3) [OF False] by blast
      then show ?thesis using step_overflow [OF False l] c by (auto simp: not_le)
    qed
  qed
qed

text \<open>The array of pointers for the words: one null pointer behind them, but none after an odd number of words.\<close>

definition arg_array :: "u8 list list \<Rightarrow> u8 list option list" where
  "arg_array ws = map (Some \<circ> padded) ws @ replicate (if ws = [] then 1 else if odd (length ws) then 0 else 1) None"

lemma delimitBy_words:
  assumes "0 \<notin> set cs" "13 \<notin> set cs" "e \<in> {0, 13}"
  shows "delimitBy (cs @ e # rest) d =
    (if \<forall>t \<in> set (words_of d cs). length t \<le> 12 then Inr (arg_array (words_of d cs)) else Inl BadIndex)"
proof -
  have s: "reading [] [] = \<lparr>args = [None], numArgs = 1, argNum = 0, setArg = False, argIdx = 0\<rparr>"
    by (simp add: reading_def slots_def)
  have n: "slots (length ws) - length ws = (if ws = [] then 1 else if odd (length ws) then 0 else 1)" for ws :: "u8 list list"
    by (cases ws; cases "tl ws") (auto simp: slots_def)
  have a: "args (reading ts cur) = arg_array (ts @ (if cur = [] then [] else [cur]))" for ts cur
    unfolding arg_array_def n [symmetric] by (simp add: reading_def Let_def)
  show ?thesis
  proof (cases "\<forall>t \<in> set (words_of d cs). length t \<le> 12")
    case True
    with delimit_loop_spec [OF assms, of "[]" d rest "[]"] obtain ts cur where
      l: "delimit_loop d (cs @ e # rest) (reading [] []) = Inr (reading ts cur)" and
      w: "ts @ (if cur = [] then [] else [cur]) = words_of d cs" by (auto simp: words_from_simps)
    from True show ?thesis unfolding delimitBy_def s [symmetric] l bindE.simps a w by simp
  next
    case False
    with delimit_loop_spec [OF assms, of "[]" d rest "[]"] have
      "delimit_loop d (cs @ e # rest) (reading [] []) = Inl BadIndex" by (simp add: words_from_simps split: if_splits)
    with False show ?thesis unfolding delimitBy_def s [symmetric] by auto
  qed
qed

text \<open>
  C37. \<^verbatim>\<open>delimitBy\<close> splits the string up to its end or a return character at the delimiter: it returns
  the words that are not empty, each padded with zeros to its twelve bytes, followed by null
  pointers up to an odd number of pointers; a word of more than twelve bytes is written over the end
  of its buffer. So a word of twelve bytes has no terminator, and the array has none exactly when the
  number of words is odd: then \<^verbatim>\<open>execv\<close>, which looks for it, reads what lies behind the array.
\<close>
theorem delimitBy_splits:
  assumes "0 \<notin> set cs" "13 \<notin> set cs" "e \<in> {0, 13}"
  shows "delimitBy (cs @ e # rest) d =
     (let ws = words_of d cs; k = length ws
      in if \<forall>t \<in> set ws. length t \<le> 12
         then Inr (map (Some \<circ> padded) ws @ replicate (if k = 0 then 1 else if odd k then 0 else 1) None)
         else Inl BadIndex)"
  unfolding delimitBy_words [OF assms] by (auto simp: arg_array_def Let_def)

theorem delimitBy_splits_witness:
  "delimitBy [0x61, 0x20, 0x20, 0x62, 0x63, 13] 0x20 = Inr [Some (padded [0x61]), Some (padded [0x62, 0x63]), None] \<and>
   delimitBy [0x61, 0] 0x20 = Inr [Some (padded [0x61])]"
  using delimitBy_splits [of "[0x61, 0x20, 0x20, 0x62, 0x63]" 13 "[]" "0x20"] delimitBy_splits [of "[0x61]" 0 "[]" "0x20"]
  by (simp add: words_of_def Let_def)

end
