(* ===== verification/Bounded_Buffer.thy ===== *)
theory Bounded_Buffer
  imports Kernel_Prelude "HOL-Library.Sublist"
begin

text \<open>
  \<^verbatim>\<open>kernel/bb.h\<close>: the bounded buffer between threads, a ring and three semaphores. Each
  call of a semaphore is one step of one thread, and so are the two statements between \<^verbatim>\<open>mutex.down\<close> and
  \<^verbatim>\<open>mutex.up\<close> together, which are the only ones that use the ring and its indices; a run is any interleaving of any
  number of calls. A semaphore is its number of units: \<^verbatim>\<open>down\<close> is a step that can only be taken
  when there is a unit, which is what the semaphores of the kernel promise; elements are of any
  type. Two ghost fields record what has been written to the ring and read from it.
\<close>

record 'a bb =
  ring :: "'a list"
  n :: nat
  head :: nat
  tail :: nat
  nFull :: nat
  nEmpty :: nat
  mutex :: nat

definition new_BB :: "'a list \<Rightarrow> 'a bb" where
  "new_BB garbage = \<lparr>ring = garbage, n = length garbage, head = 0, tail = 0, nFull = 0, nEmpty = length garbage, mutex = 1\<rparr>"

definition ring_write :: "'a \<Rightarrow> 'a bb \<Rightarrow> 'a bb" where
  "ring_write v b =
     (let b = b\<lparr>ring := (ring b)[tail b := v], tail := tail b + 1\<rparr>
      in if tail b = n b then b\<lparr>tail := 0\<rparr> else b)"

definition ring_read :: "'a bb \<Rightarrow> 'a \<times> 'a bb" where
  "ring_read b =
     (let v = ring b ! head b;
          b = b\<lparr>head := head b + 1\<rparr>
      in (v, if head b = n b then b\<lparr>head := 0\<rparr> else b))"

text \<open>Where a thread is: outside, or before the statement that the constructor names.\<close>

datatype 'a pc =
    Idle
  | Put_nEmpty_down 'a | Put_mutex_down 'a | Put_write 'a | Put_mutex_up | Put_nFull_up
  | Get_nFull_down | Get_mutex_down | Get_read | Get_mutex_up 'a | Get_nEmpty_up 'a

record 'a sys =
  buf :: "'a bb"
  pcs :: "'a pc list"
  written :: "'a list"
  taken :: "'a list"

definition goto :: "nat \<Rightarrow> 'a pc \<Rightarrow> 'a sys \<Rightarrow> 'a sys" where
  "goto i c s = s\<lparr>pcs := (pcs s)[i := c]\<rparr>"

definition set_buf :: "'a bb \<Rightarrow> 'a sys \<Rightarrow> 'a sys" where
  "set_buf b s = s\<lparr>buf := b\<rparr>"

inductive bb_call :: "nat \<Rightarrow> 'a sys \<Rightarrow> 'a sys \<Rightarrow> bool" where
  put: "i < length (pcs s) \<Longrightarrow> pcs s ! i = Idle \<Longrightarrow> bb_call i s (goto i (Put_nEmpty_down v) s)"
| get: "i < length (pcs s) \<Longrightarrow> pcs s ! i = Idle \<Longrightarrow> bb_call i s (goto i Get_nFull_down s)"

inductive bb_step :: "nat \<Rightarrow> 'a sys \<Rightarrow> 'a sys \<Rightarrow> bool" where
  put_empty: "i < length (pcs s) \<Longrightarrow> pcs s ! i = Put_nEmpty_down v \<Longrightarrow> nEmpty (buf s) > 0 \<Longrightarrow>
    bb_step i s (goto i (Put_mutex_down v) (set_buf ((buf s)\<lparr>nEmpty := nEmpty (buf s) - 1\<rparr>) s))"
| put_lock: "i < length (pcs s) \<Longrightarrow> pcs s ! i = Put_mutex_down v \<Longrightarrow> mutex (buf s) > 0 \<Longrightarrow>
    bb_step i s (goto i (Put_write v) (set_buf ((buf s)\<lparr>mutex := mutex (buf s) - 1\<rparr>) s))"
| put_write: "i < length (pcs s) \<Longrightarrow> pcs s ! i = Put_write v \<Longrightarrow>
    bb_step i s (goto i Put_mutex_up (set_buf (ring_write v (buf s)) (s\<lparr>written := written s @ [v]\<rparr>)))"
| put_unlock: "i < length (pcs s) \<Longrightarrow> pcs s ! i = Put_mutex_up \<Longrightarrow>
    bb_step i s (goto i Put_nFull_up (set_buf ((buf s)\<lparr>mutex := mutex (buf s) + 1\<rparr>) s))"
| put_full: "i < length (pcs s) \<Longrightarrow> pcs s ! i = Put_nFull_up \<Longrightarrow>
    bb_step i s (goto i Idle (set_buf ((buf s)\<lparr>nFull := nFull (buf s) + 1\<rparr>) s))"
| get_full: "i < length (pcs s) \<Longrightarrow> pcs s ! i = Get_nFull_down \<Longrightarrow> nFull (buf s) > 0 \<Longrightarrow>
    bb_step i s (goto i Get_mutex_down (set_buf ((buf s)\<lparr>nFull := nFull (buf s) - 1\<rparr>) s))"
| get_lock: "i < length (pcs s) \<Longrightarrow> pcs s ! i = Get_mutex_down \<Longrightarrow> mutex (buf s) > 0 \<Longrightarrow>
    bb_step i s (goto i Get_read (set_buf ((buf s)\<lparr>mutex := mutex (buf s) - 1\<rparr>) s))"
| get_read: "i < length (pcs s) \<Longrightarrow> pcs s ! i = Get_read \<Longrightarrow> ring_read (buf s) = (v, b) \<Longrightarrow>
    bb_step i s (goto i (Get_mutex_up v) (set_buf b (s\<lparr>taken := taken s @ [v]\<rparr>)))"
| get_unlock: "i < length (pcs s) \<Longrightarrow> pcs s ! i = Get_mutex_up v \<Longrightarrow>
    bb_step i s (goto i (Get_nEmpty_up v) (set_buf ((buf s)\<lparr>mutex := mutex (buf s) + 1\<rparr>) s))"
| get_empty: "i < length (pcs s) \<Longrightarrow> pcs s ! i = Get_nEmpty_up v \<Longrightarrow>
    bb_step i s (goto i Idle (set_buf ((buf s)\<lparr>nEmpty := nEmpty (buf s) + 1\<rparr>) s))"

definition bb_start :: "'a list \<Rightarrow> nat \<Rightarrow> 'a sys" where
  "bb_start garbage threads = \<lparr>buf = new_BB garbage, pcs = replicate threads Idle, written = [], taken = []\<rparr>"

inductive bb_reach :: "'a list \<Rightarrow> nat \<Rightarrow> 'a sys \<Rightarrow> bool" for g m where
  start: "bb_reach g m (bb_start g m)"
| call: "bb_reach g m s \<Longrightarrow> bb_call i s s' \<Longrightarrow> bb_reach g m s'"
| step: "bb_reach g m s \<Longrightarrow> bb_step i s s' \<Longrightarrow> bb_reach g m s'"

section \<open>The invariant\<close>

definition threads_in :: "('a pc \<Rightarrow> bool) \<Rightarrow> 'a sys \<Rightarrow> nat" where
  "threads_in P s = length (filter P (pcs s))"

fun inside :: "'a pc \<Rightarrow> bool" where
  "inside (Put_write _) = True" | "inside Put_mutex_up = True"
| "inside Get_read = True" | "inside (Get_mutex_up _) = True" | "inside _ = False"

text \<open>Threads that have a claim on a slot, or still owe the unit of one.\<close>

fun reserves :: "'a pc \<Rightarrow> bool" where
  "reserves (Put_mutex_down _) = True" | "reserves (Put_write _) = True"
| "reserves (Get_mutex_up _) = True" | "reserves (Get_nEmpty_up _) = True" | "reserves _ = False"

text \<open>Threads that have a claim on an element, or still owe the unit of one.\<close>

fun offers :: "'a pc \<Rightarrow> bool" where
  "offers Put_mutex_up = True" | "offers Put_nFull_up = True"
| "offers Get_mutex_down = True" | "offers Get_read = True" | "offers _ = False"

definition stored :: "'a sys \<Rightarrow> nat" where
  "stored s = length (written s) - length (taken s)"

definition bb_inv :: "nat \<Rightarrow> 'a sys \<Rightarrow> bool" where
  "bb_inv k s \<longleftrightarrow>
     (let b = buf s in n b = k \<and> length (ring b) = k \<and>
      mutex b + threads_in inside s = 1 \<and>
      nEmpty b + threads_in reserves s + stored s = k \<and>
      nFull b + threads_in offers s = stored s \<and>
      length (taken s) \<le> length (written s) \<and> taken s = take (length (taken s)) (written s) \<and>
      (k > 0 \<longrightarrow> head b = length (taken s) mod k \<and> tail b = length (written s) mod k) \<and>
      (\<forall>j. length (taken s) \<le> j \<and> j < length (written s) \<longrightarrow> ring b ! (j mod k) = written s ! j))"

lemma count_update:
  assumes "i < length xs"
  shows "length (filter P (xs[i := c])) + (if P (xs ! i) then 1 else 0) = length (filter P xs) + (if P c then 1 else 0)"
  using assms
proof (induction xs arbitrary: i)
  case (Cons x xs)
  then show ?case by (cases i) auto
qed simp

lemma threads_in_goto:
  assumes "i < length (pcs s)"
  shows "threads_in P (goto i c s) + (if P (pcs s ! i) then 1 else 0) = threads_in P s + (if P c then 1 else 0)"
  using count_update [OF assms] by (simp add: threads_in_def goto_def)

lemma goto_fields [simp]: "buf (goto i c s) = buf s" "written (goto i c s) = written s" "taken (goto i c s) = taken s"
  "length (pcs (goto i c s)) = length (pcs s)" "stored (goto i c s) = stored s"
  by (simp_all add: goto_def stored_def)

lemma set_buf_fields [simp]: "buf (set_buf b s) = b" "written (set_buf b s) = written s" "taken (set_buf b s) = taken s"
  "pcs (set_buf b s) = pcs s" "threads_in P (set_buf b s) = threads_in P s" "stored (set_buf b s) = stored s"
  by (simp_all add: set_buf_def threads_in_def stored_def)

lemma threads_in_ghost [simp]: "threads_in P (s\<lparr>written := x\<rparr>) = threads_in P s" "threads_in P (s\<lparr>taken := x\<rparr>) = threads_in P s"
  by (simp_all add: threads_in_def)

lemma threads_in_pos: "i < length (pcs s) \<Longrightarrow> P (pcs s ! i) \<Longrightarrow> 0 < threads_in P s"
  unfolding threads_in_def by (metis filter_empty_conv length_greater_0_conv nth_mem)

lemma ring_write_fields [simp]: "n (ring_write v b) = n b" "head (ring_write v b) = head b" "nFull (ring_write v b) = nFull b"
  "nEmpty (ring_write v b) = nEmpty b" "mutex (ring_write v b) = mutex b" "ring (ring_write v b) = (ring b)[tail b := v]"
  "tail (ring_write v b) = (if tail b + 1 = n b then 0 else tail b + 1)"
  by (simp_all add: ring_write_def Let_def)

lemma ring_read_fields: "ring_read b = (v, b') \<Longrightarrow> v = ring b ! head b \<and> n b' = n b \<and> tail b' = tail b \<and> nFull b' = nFull b \<and>
  nEmpty b' = nEmpty b \<and> mutex b' = mutex b \<and> ring b' = ring b \<and> head b' = (if head b + 1 = n b then 0 else head b + 1)"
  by (auto simp: ring_read_def Let_def split: if_splits)

lemma mod_same_window:
  assumes "a \<le> j" "j < (l :: nat)" "l - a < k"
  shows "j mod k \<noteq> l mod k"
proof
  assume "j mod k = l mod k"
  then have "k dvd l - j" using assms(2) by (metis less_imp_le mod_eq_dvd_iff_nat)
  moreover have "0 < l - j" "l - j < k" using assms by auto
  ultimately show False by (simp add: nat_dvd_not_less)
qed

lemma bb_inv_start: "bb_inv (length g) (bb_start g m)"
proof -
  have "threads_in P (bb_start g m) = 0" if "\<not> P Idle" for P
    using that by (simp add: threads_in_def bb_start_def)
  then show ?thesis by (simp add: bb_inv_def bb_start_def new_BB_def stored_def Let_def)
qed

lemma bb_inv_call:
  assumes "bb_call i s s'" "bb_inv k s"
  shows "bb_inv k s'"
  using assms(1)
proof cases
  case (put v)
  then have "threads_in inside s' = threads_in inside s" "threads_in reserves s' = threads_in reserves s" "threads_in offers s' = threads_in offers s"
    using threads_in_goto [of i s _ "Put_nEmpty_down v"] by (metis add_right_cancel inside.simps reserves.simps offers.simps)+
  then show ?thesis using assms(2) put(1) by (simp add: bb_inv_def)
next
  case get
  then have "threads_in inside s' = threads_in inside s" "threads_in reserves s' = threads_in reserves s" "threads_in offers s' = threads_in offers s"
    using threads_in_goto [of i s _ "Get_nFull_down"] by (metis add_right_cancel inside.simps reserves.simps offers.simps)+
  then show ?thesis using assms(2) get(1) by (simp add: bb_inv_def)
qed

text \<open>A step on a semaphore: only the units and the counts of threads change.\<close>

lemma bb_inv_semaphore:
  assumes inv: "bb_inv k s" and b: "ring b = ring (buf s)" "n b = n (buf s)" "head b = head (buf s)" "tail b = tail (buf s)"
    and i: "i < length (pcs s)"
    and c: "mutex b + (if inside c then 1 else 0) = mutex (buf s) + (if inside (pcs s ! i) then 1 else 0)"
      "nEmpty b + (if reserves c then 1 else 0) = nEmpty (buf s) + (if reserves (pcs s ! i) then 1 else 0)"
      "nFull b + (if offers c then 1 else 0) = nFull (buf s) + (if offers (pcs s ! i) then 1 else 0)"
  shows "bb_inv k (goto i c (set_buf b s))"
proof -
  note t = threads_in_goto [of i "set_buf b s" _ c]
  have "mutex b + threads_in inside (goto i c (set_buf b s)) = 1"
    using t [of inside] c(1) i inv by (simp add: bb_inv_def Let_def split: if_splits)
  moreover have "nEmpty b + threads_in reserves (goto i c (set_buf b s)) + stored s = k"
    using t [of reserves] c(2) i inv by (simp add: bb_inv_def Let_def split: if_splits)
  moreover have "nFull b + threads_in offers (goto i c (set_buf b s)) = stored s"
    using t [of offers] c(3) i inv by (simp add: bb_inv_def Let_def split: if_splits)
  ultimately show ?thesis using inv b by (simp add: bb_inv_def Let_def)
qed

lemma bb_inv_write:
  assumes inv: "bb_inv k s" and i: "i < length (pcs s)" "pcs s ! i = Put_write v"
  shows "bb_inv k (goto i Put_mutex_up (set_buf (ring_write v (buf s)) (s\<lparr>written := written s @ [v]\<rparr>)))" (is "bb_inv k ?s'")
proof -
  let ?T = "length (taken s)" and ?L = "length (written s)"
  have I: "n (buf s) = k" "length (ring (buf s)) = k" "mutex (buf s) + threads_in inside s = 1"
    "nEmpty (buf s) + threads_in reserves s + stored s = k" "nFull (buf s) + threads_in offers s = stored s"
    "?T \<le> ?L" "taken s = take ?T (written s)" "k > 0 \<longrightarrow> head (buf s) = ?T mod k \<and> tail (buf s) = ?L mod k"
    "\<forall>j. ?T \<le> j \<and> j < ?L \<longrightarrow> ring (buf s) ! (j mod k) = written s ! j"
    using inv by (simp_all add: bb_inv_def Let_def)
  have "0 < threads_in reserves s" by (rule threads_in_pos [OF i(1)]) (simp add: i(2))
  then have room: "stored s < k" "0 < k" using I(4) by auto
  have t: "tail (buf s) = ?L mod k" "head (buf s) = ?T mod k" using I(8) room by auto
  have st: "stored ?s' = stored s + 1" using I(6) by (simp add: stored_def)
  have c: "threads_in P ?s' + (if P (Put_write v) then 1 else 0) = threads_in P s + (if P Put_mutex_up then 1 else 0)" for P
    using threads_in_goto [of i "set_buf (ring_write v (buf s)) (s\<lparr>written := written s @ [v]\<rparr>)" P Put_mutex_up] i by simp
  have "mutex (buf ?s') + threads_in inside ?s' = 1" using c [of inside] I(3) by simp
  moreover have "nEmpty (buf ?s') + threads_in reserves ?s' + stored ?s' = k" using c [of reserves] I(4) st by simp
  moreover have "nFull (buf ?s') + threads_in offers ?s' = stored ?s'" using c [of offers] I(5) st by simp
  moreover have "tail (buf ?s') = length (written ?s') mod k" using t(1) I(1) room by (simp add: mod_Suc)
  moreover have "ring (buf ?s') ! (j mod k) = written ?s' ! j" if j: "?T \<le> j" "j < length (written ?s')" for j
  proof (cases "j = ?L")
    case True
    then show ?thesis using t(1) I(2) room by simp
  next
    case False
    then have "j < ?L" using j by simp
    moreover have "j mod k \<noteq> ?L mod k"
      using mod_same_window [OF j(1) \<open>j < ?L\<close>] room(1) by (simp add: stored_def)
    ultimately show ?thesis using t(1) I(9) j(1) by (simp add: nth_append)
  qed
  ultimately show ?thesis using I(1,2,6,7) t(2) by (simp add: bb_inv_def Let_def)
qed

lemma bb_inv_read:
  assumes inv: "bb_inv k s" and i: "i < length (pcs s)" "pcs s ! i = Get_read" and r: "ring_read (buf s) = (v, b)"
  shows "bb_inv k (goto i (Get_mutex_up v) (set_buf b (s\<lparr>taken := taken s @ [v]\<rparr>)))" (is "bb_inv k ?s'")
    and "length (taken s) < length (written s) \<and> v = written s ! length (taken s)"
proof -
  let ?T = "length (taken s)" and ?L = "length (written s)"
  have I: "n (buf s) = k" "length (ring (buf s)) = k" "mutex (buf s) + threads_in inside s = 1"
    "nEmpty (buf s) + threads_in reserves s + stored s = k" "nFull (buf s) + threads_in offers s = stored s"
    "?T \<le> ?L" "taken s = take ?T (written s)" "k > 0 \<longrightarrow> head (buf s) = ?T mod k \<and> tail (buf s) = ?L mod k"
    "\<forall>j. ?T \<le> j \<and> j < ?L \<longrightarrow> ring (buf s) ! (j mod k) = written s ! j"
    using inv by (simp_all add: bb_inv_def Let_def)
  have "0 < threads_in offers s" by (rule threads_in_pos [OF i(1)]) (simp add: i(2))
  then have some: "0 < stored s" "0 < k" using I(4,5) by auto
  then have TL: "?T < ?L" by (simp add: stored_def)
  note R = ring_read_fields [OF r]
  have t: "tail (buf s) = ?L mod k" "head (buf s) = ?T mod k" using I(8) some by auto
  have v: "v = written s ! ?T" using R t(2) I(9) TL by simp
  with TL show "length (taken s) < length (written s) \<and> v = written s ! length (taken s)" by blast
  have st: "stored s = stored ?s' + 1" using TL by (simp add: stored_def)
  have c: "threads_in P ?s' + (if P Get_read then 1 else 0) = threads_in P s + (if P (Get_mutex_up v) then 1 else 0)" for P
    using threads_in_goto [of i "set_buf b (s\<lparr>taken := taken s @ [v]\<rparr>)" P "Get_mutex_up v"] i by simp
  have "mutex (buf ?s') + threads_in inside ?s' = 1" using c [of inside] I(3) R by simp
  moreover have "nEmpty (buf ?s') + threads_in reserves ?s' + stored ?s' = k" using c [of reserves] I(4) st R by simp
  moreover have "nFull (buf ?s') + threads_in offers ?s' = stored ?s'" using c [of offers] I(5) st R by simp
  moreover have "head (buf ?s') = length (taken ?s') mod k" using t(2) I(1) some R by (simp add: mod_Suc)
  moreover have "taken ?s' = take (length (taken ?s')) (written ?s')" using I(7) v TL by (simp add: take_Suc_conv_app_nth)
  ultimately show "bb_inv k ?s'" using I(1,2,9) t(1) TL R by (simp add: bb_inv_def Let_def)
qed

lemma bb_inv_step:
  assumes "bb_step i s s'" "bb_inv k s"
  shows "bb_inv k s'"
  using assms(1)
proof cases
  case (put_write v)
  then show ?thesis using bb_inv_write [OF assms(2)] by simp
next
  case (get_read v b)
  then show ?thesis using bb_inv_read(1) [OF assms(2)] by simp
qed (auto intro!: bb_inv_semaphore [OF assms(2)])

lemma bb_reach_inv: "bb_reach g m s \<Longrightarrow> bb_inv (length g) s"
proof (induction rule: bb_reach.induct)
  case start
  show ?case by (rule bb_inv_start)
next
  case (call s i s')
  then show ?case using bb_inv_call by blast
next
  case (step s i s')
  then show ?case using bb_inv_step by blast
qed

section \<open>Properties\<close>

text \<open>
  C34. The bounded buffer under any interleaving of any number of calls of \<^verbatim>\<open>put\<close> and \<^verbatim>\<open>get\<close>: what
  has been read is what was written first, in that order; never more elements are stored than the
  buffer has slots; at most one thread is between the operations on the mutex; a thread about to
  write finds a free slot, and a thread about to read finds an element and gets the oldest.
\<close>
theorem bb_is_fifo:
  assumes "bb_reach g m s"
  shows "prefix (taken s) (written s) \<and> length (written s) \<le> length (taken s) + length g \<and> threads_in inside s \<le> 1 \<and>
    (\<forall>i < length (pcs s).
      (\<forall>v. pcs s ! i = Put_write v \<longrightarrow> length (written s) < length (taken s) + length g) \<and>
      (pcs s ! i = Get_read \<longrightarrow> length (taken s) < length (written s) \<and>
        fst (ring_read (buf s)) = written s ! length (taken s)))"
proof (intro conjI allI impI)
  have inv: "bb_inv (length g) s" by (rule bb_reach_inv [OF assms])
  then have I: "taken s = take (length (taken s)) (written s)" "mutex (buf s) + threads_in inside s = 1"
    "nEmpty (buf s) + threads_in reserves s + stored s = length g" by (simp_all add: bb_inv_def Let_def)
  show "prefix (taken s) (written s)" using I(1) by (metis take_is_prefix)
  show "length (written s) \<le> length (taken s) + length g" using I(3) by (simp add: stored_def)
  show "threads_in inside s \<le> 1" using I(2) by simp
  fix i assume i: "i < length (pcs s)"
  {
    fix v assume "pcs s ! i = Put_write v"
    then have "0 < threads_in reserves s" by (intro threads_in_pos [OF i]) simp
    then show "length (written s) < length (taken s) + length g" using I(3) by (simp add: stored_def)
  }
  {
    assume r: "pcs s ! i = Get_read"
    obtain v b where v: "ring_read (buf s) = (v, b)" by fastforce
    from bb_inv_read(2) [OF inv i r v] v
    show "length (taken s) < length (written s)" "fst (ring_read (buf s)) = written s ! length (taken s)" by auto
  }
qed

text \<open>One thread puts one element into a buffer of one slot, for the witnesses.\<close>

lemma bb_run:
  "bb_reach [0 :: int] 1 \<lparr>buf = \<lparr>ring = [7], n = 1, head = 0, tail = 0, nFull = 0, nEmpty = 0, mutex = 0\<rparr>,
    pcs = [Put_mutex_up], written = [7], taken = []\<rparr>"
proof -
  note defs = bb_start_def new_BB_def goto_def set_buf_def
  have "bb_reach [0 :: int] 1 (goto 0 (Put_nEmpty_down 7) (bb_start [0] 1))"
    by (rule bb_reach.call [OF bb_reach.start], rule bb_call.put) (simp_all add: defs)
  then have "bb_reach [0] 1 \<lparr>buf = \<lparr>ring = [0], n = 1, head = 0, tail = 0, nFull = 0, nEmpty = 1, mutex = 1\<rparr>,
      pcs = [Put_nEmpty_down 7], written = [], taken = [] :: int list\<rparr>" by (simp add: defs)
  from bb_reach.step [OF this bb_step.put_empty [of 0]]
  have "bb_reach [0] 1 \<lparr>buf = \<lparr>ring = [0], n = 1, head = 0, tail = 0, nFull = 0, nEmpty = 0, mutex = 1\<rparr>,
      pcs = [Put_mutex_down 7], written = [], taken = [] :: int list\<rparr>" by (simp add: defs)
  from bb_reach.step [OF this bb_step.put_lock [of 0]]
  have "bb_reach [0] 1 \<lparr>buf = \<lparr>ring = [0], n = 1, head = 0, tail = 0, nFull = 0, nEmpty = 0, mutex = 0\<rparr>,
      pcs = [Put_write 7], written = [], taken = [] :: int list\<rparr>" by (simp add: defs)
  from bb_reach.step [OF this bb_step.put_write [of 0]] show ?thesis by (simp add: defs ring_write_def)
qed

theorem bb_is_fifo_witness:
  "\<exists>s. bb_reach [0 :: int] 1 s \<and> written s = [7] \<and> prefix (taken s) (written s) \<and> threads_in inside s \<le> 1"
  using bb_is_fifo [OF bb_run] bb_run by fastforce

text \<open>
  C35. The bounded buffer does not deadlock: when no thread inside a call of \<^verbatim>\<open>put\<close> or \<^verbatim>\<open>get\<close> can take
  a step, then every such thread waits for an empty slot in a buffer that is full or for an element
  in a buffer that is empty; so with at least one slot, threads of both kinds never wait together.
\<close>
theorem bb_no_deadlock:
  assumes "bb_reach g m s" and stuck: "\<And>i s'. \<not> bb_step i s s'" and i: "i < length (pcs s)"
  shows "pcs s ! i = Idle \<or>
    (\<exists>v. pcs s ! i = Put_nEmpty_down v \<and> length (written s) = length (taken s) + length g) \<or>
    pcs s ! i = Get_nFull_down \<and> written s = taken s"
proof -
  have inv: "bb_inv (length g) s" by (rule bb_reach_inv [OF assms(1)])
  then have I: "mutex (buf s) + threads_in inside s = 1" "nEmpty (buf s) + threads_in reserves s + stored s = length g"
    "nFull (buf s) + threads_in offers s = stored s" "length (taken s) \<le> length (written s)"
    "taken s = take (length (taken s)) (written s)" by (simp_all add: bb_inv_def Let_def)
  have none: "threads_in P s = 0" if "\<And>j. j < length (pcs s) \<Longrightarrow> \<not> P (pcs s ! j)" for P
    using that unfolding threads_in_def by (metis (no_types, lifting) filter_False in_set_conv_nth list.size(3))
  have no_inside: "\<not> inside (pcs s ! j)" if j: "j < length (pcs s)" for j
  proof (cases "pcs s ! j")
    case (Put_write v)
    then show ?thesis using bb_step.put_write [OF j] stuck by blast
  next
    case Put_mutex_up
    then show ?thesis using bb_step.put_unlock [OF j] stuck by blast
  next
    case Get_read
    obtain v b where "ring_read (buf s) = (v, b)" by fastforce
    then show ?thesis using bb_step.get_read [OF j Get_read] stuck by blast
  next
    case (Get_mutex_up v)
    then show ?thesis using bb_step.get_unlock [OF j] stuck by blast
  qed simp_all
  then have mutex: "0 < mutex (buf s)" using none [of inside] I(1) by simp
  have quiet: "pcs s ! j = Idle \<or> (\<exists>v. pcs s ! j = Put_nEmpty_down v) \<or> pcs s ! j = Get_nFull_down"
    if j: "j < length (pcs s)" for j
    using no_inside [OF j] bb_step.put_lock [OF j] bb_step.put_full [OF j] bb_step.get_lock [OF j] bb_step.get_empty [OF j] stuck mutex
    by (cases "pcs s ! j") auto
  have "threads_in reserves s = 0" "threads_in offers s = 0" by (rule none, use quiet in fastforce)+
  then have "nEmpty (buf s) = 0 \<longrightarrow> length (written s) = length (taken s) + length g"
    "nFull (buf s) = 0 \<longrightarrow> written s = taken s"
    using I by (auto simp: stored_def)
  then show ?thesis using quiet [OF i] bb_step.put_empty [OF i] bb_step.get_full [OF i] stuck by (metis gr0I)
qed

theorem bb_no_deadlock_witness:
  "\<exists>s. bb_reach [] 1 s \<and> pcs s ! 0 = Put_nEmpty_down (7 :: int) \<and> length (written s) = length (taken s)"
proof -
  let ?s = "goto 0 (Put_nEmpty_down 7) (bb_start [] 1) :: int sys"
  have r: "bb_reach [] 1 ?s"
    by (rule bb_reach.call [OF bb_reach.start], rule bb_call.put) (simp_all add: bb_start_def)
  have "\<not> bb_step i ?s s'" for i s'
    by (auto simp: goto_def bb_start_def new_BB_def nth_Cons' elim!: bb_step.cases)
  from bb_no_deadlock [OF r this, of 0] r show ?thesis by (auto simp: goto_def bb_start_def)
qed

end
