(* ===== verification/Random_Keyboard.thy ===== *)
theory Random_Keyboard
  imports Kernel_Prelude
begin

text \<open>
  \<^verbatim>\<open>kernel/random.h\<close>, the multiply-with-carry generator, and \<^verbatim>\<open>kernel/kbd.cc\<close>, the decoding of the
  keyboard's scan codes. Both are small state machines over machine words.
\<close>

section \<open>Random32\<close>

record random32 =
  w :: u32
  z :: u32

definition new_Random32 :: "u32 \<Rightarrow> random32" where
  "new_Random32 seed =
     (let w0 = seed;
          z0 = NOT seed;
          w1 = (if w0 = 0 \<or> w0 = 0x464fffff then w0 + 1 else w0);
          z1 = (if z0 = 0 \<or> z0 = 0x9068ffff then z0 + 1 else z0)
      in \<lparr>w = w1, z = z1\<rparr>)"

definition next_random :: "random32 \<Rightarrow> u32 \<times> random32" where
  "next_random r =
     (let z1 = 36969 * (z r AND 65535) + drop_bit 16 (z r);
          w1 = 18000 * (w r AND 65535) + drop_bit 16 (w r)
      in (push_bit 16 z1 + w1, \<lparr>w = w1, z = z1\<rparr>))"

text \<open>One half of the generator, and the same in integers: the product cannot overflow.\<close>

definition mwc :: "u32 \<Rightarrow> u32 \<Rightarrow> u32" where
  "mwc a x = a * (x AND 65535) + drop_bit 16 x"

lemma next_random_mwc: "snd (next_random r) = \<lparr>w = mwc 18000 (w r), z = mwc 36969 (z r)\<rparr>"
  by (simp add: next_random_def mwc_def Let_def)

lemma uint_mwc:
  assumes "uint a \<le> 65535"
  shows "uint (mwc a x) = uint a * (uint x mod 65536) + uint x div 65536"
proof -
  have m: "uint (x AND 65535) = uint x mod 65536"
  proof -
    have "x AND 65535 = take_bit 16 x" by (simp add: take_bit_eq_mask mask_numeral)
    then show ?thesis by (simp add: take_bit_eq_mod uint_mod)
  qed
  have d: "uint (drop_bit 16 x) = uint x div 65536" by (simp add: drop_bit_eq_div uint_div)
  have x: "0 \<le> uint x" "uint x < 4294967296" using uint_lt2p [of x] by simp_all
  then have lo: "0 \<le> uint x mod 65536" "uint x mod 65536 \<le> 65535" and hi: "0 \<le> uint x div 65536" "uint x div 65536 \<le> 65535"
    by (auto simp: pos_imp_zdiv_nonneg_iff)
  have "uint a * (uint x mod 65536) \<le> 65535 * 65535" by (rule mult_mono) (use assms lo in auto)
  then have "uint a * (uint x mod 65536) + uint x div 65536 < 2 ^ 32" using hi by simp
  moreover have "0 \<le> uint a * (uint x mod 65536)" using lo by simp
  ultimately show ?thesis using lo hi
    by (simp add: mwc_def uint_word_ariths m d)
qed

text \<open>The states from which a half never leaves a fixed point.\<close>

definition stuck :: "u32 \<Rightarrow> u32 set" where
  "stuck a = (if a = 18000 then {0, 0x464fffff, 0x8c9ffffe, 0xd2effffd} else {0, 0x9068ffff})"

lemma mwc_fixed: "mwc 18000 0x464fffff = 0x464fffff" "mwc 36969 0x9068ffff = 0x9068ffff" "mwc a 0 = 0"
  "mwc 18000 0x8c9ffffe = 0x464fffff" "mwc 18000 0xd2effffd = 0x464fffff"
  by (simp_all add: mwc_def)

lemma mwc_avoids_w:
  assumes "x \<notin> stuck 18000"
  shows "mwc 18000 x \<notin> stuck 18000"
proof -
  define l h where "l = uint x mod 65536" and "h = uint x div 65536"
  have x: "uint x = 65536 * h + l" "0 \<le> l" "l \<le> 65535" "0 \<le> h" "h \<le> 65535"
    using uint_lt2p [of x] by (auto simp: l_def h_def pos_imp_zdiv_nonneg_iff)
  have u: "uint (mwc 18000 x) = 18000 * l + h" using uint_mwc [of 18000 x] by (simp add: l_def h_def)
  have not: "uint x \<noteq> 0" "uint x \<noteq> 0x464fffff" "uint x \<noteq> 0x8c9ffffe" "uint x \<noteq> 0xd2effffd"
    using assms by (auto simp: stuck_def word_uint_eq_iff)
  have "18000 * l + h \<noteq> 0" using not(1) x by auto
  moreover have "18000 * l + h \<noteq> 0x464fffff"
  proof
    assume e: "18000 * l + h = 0x464fffff"
    then have "\<not> l \<le> 65532" using x by linarith
    then have "l = 65533 \<or> l = 65534 \<or> l = 65535" using x(3) by linarith
    then show False using e not x(1) by (elim disjE) simp_all
  qed
  moreover have "18000 * l + h < 0x8c9ffffe" using x by linarith
  ultimately show ?thesis using u by (auto simp: stuck_def word_uint_eq_iff)
qed

lemma mwc_avoids_z:
  assumes "x \<notin> stuck 36969"
  shows "mwc 36969 x \<notin> stuck 36969"
proof -
  define l h where "l = uint x mod 65536" and "h = uint x div 65536"
  have x: "uint x = 65536 * h + l" "0 \<le> l" "l \<le> 65535" "0 \<le> h" "h \<le> 65535"
    using uint_lt2p [of x] by (auto simp: l_def h_def pos_imp_zdiv_nonneg_iff)
  have u: "uint (mwc 36969 x) = 36969 * l + h" using uint_mwc [of 36969 x] by (simp add: l_def h_def)
  have not: "uint x \<noteq> 0" "uint x \<noteq> 0x9068ffff"
    using assms by (auto simp: stuck_def word_uint_eq_iff)
  have "36969 * l + h \<noteq> 0" using not(1) x by auto
  moreover have "36969 * l + h \<noteq> 0x9068ffff"
  proof
    assume e: "36969 * l + h = 0x9068ffff"
    then have "\<not> l \<le> 65533" using x by linarith
    then have "l = 65534 \<or> l = 65535" using x(3) by linarith
    then show False using e not x by (elim disjE) simp_all
  qed
  ultimately show ?thesis using u by (auto simp: stuck_def word_uint_eq_iff)
qed

text \<open>
  \<^verbatim>\<open>Random32\<close>: for every seed but two neither half of the generator ever reaches 0 or the other
  fixed point of its recurrence, which the constructor rules out by adding 1. The two seeds lead to
  the fixed point in a single step, which the constructor does not see.
\<close>
theorem random_never_sticks:
  assumes "seed \<notin> {0x8c9ffffe, 0xd2effffd}"
  shows "w (((snd \<circ> next_random) ^^ k) (new_Random32 seed)) \<notin> {0, 0x464fffff} \<and>
    z (((snd \<circ> next_random) ^^ k) (new_Random32 seed)) \<notin> {0, 0x9068ffff}"
proof -
  have "w (((snd \<circ> next_random) ^^ k) (new_Random32 seed)) \<notin> stuck 18000 \<and>
    z (((snd \<circ> next_random) ^^ k) (new_Random32 seed)) \<notin> stuck 36969"
  proof (induction k)
    case 0
    have "NOT seed = 0 \<or> NOT seed = 0x9068ffff \<Longrightarrow> NOT seed + 1 \<notin> stuck 36969" by (auto simp: stuck_def)
    moreover have "seed = 0 \<or> seed = 0x464fffff \<Longrightarrow> seed + 1 \<notin> stuck 18000" by (auto simp: stuck_def)
    ultimately show ?case using assms by (auto simp: new_Random32_def Let_def stuck_def)
  next
    case (Suc k)
    then show ?case by (simp add: next_random_mwc mwc_avoids_w mwc_avoids_z)
  qed
  then show ?thesis by (auto simp: stuck_def)
qed

theorem random_never_sticks_witness:
  "w (((snd \<circ> next_random) ^^ 5) (new_Random32 0)) \<notin> {0, 0x464fffff} \<and> w (new_Random32 0) = 1"
  using random_never_sticks [of 0 5] by (simp add: new_Random32_def)

lemma random_sticks: "w (((snd \<circ> next_random) ^^ Suc k) (new_Random32 0x8c9ffffe)) = 0x464fffff"
proof (induction k)
  case 0
  show ?case by (simp add: next_random_mwc new_Random32_def Let_def mwc_def)
next
  case (Suc k)
  then show ?case by (simp add: next_random_mwc mwc_def)
qed

section \<open>The keyboard\<close>

text \<open>
  \<^verbatim>\<open>ul\<close> and \<^verbatim>\<open>kbd_get\<close>. The state is \<^verbatim>\<open>shift\<close>; characters are the bytes of their ASCII codes. The
  wait for the controller reads the status port until its lowest bit is set: \<open>kbd_wait\<close> takes the
  bytes the port delivers and yields the rest after the one that ends the loop, or nothing when
  they never end it.
\<close>

definition ul :: "int \<Rightarrow> u8 \<Rightarrow> u8" where
  "ul shift x = (if shift \<noteq> 0 then x - (0x61 - 0x41) else x)"

fun kbd_wait :: "u8 list \<Rightarrow> u8 list option" where
  "kbd_wait [] = None"
| "kbd_wait (b # bs) = (if b AND 1 = 0 then kbd_wait bs else Some bs)"

definition kbd_key :: "u8 \<Rightarrow> int \<Rightarrow> u8 \<times> int" where
  "kbd_key b shift =
     (if 0x02 \<le> b \<and> b \<le> 0x0a then (0x30 + b - 1, shift)
      else if b = 0x0b then (0x30, shift)
      else if b = 0x0e then (8, shift)
      else if b = 0x10 then (ul shift 0x71, shift)
      else if b = 0x11 then (ul shift 0x77, shift)
      else if b = 0x12 then (ul shift 0x65, shift)
      else if b = 0x13 then (ul shift 0x72, shift)
      else if b = 0x14 then (ul shift 0x74, shift)
      else if b = 0x15 then (ul shift 0x79, shift)
      else if b = 0x16 then (ul shift 0x75, shift)
      else if b = 0x17 then (ul shift 0x69, shift)
      else if b = 0x18 then (ul shift 0x6f, shift)
      else if b = 0x19 then (ul shift 0x70, shift)
      else if b = 0x1c then (0x0a, shift)
      else if b = 0x1e then (ul shift 0x61, shift)
      else if b = 0x1f then (ul shift 0x73, shift)
      else if b = 0x20 then (ul shift 0x64, shift)
      else if b = 0x21 then (ul shift 0x66, shift)
      else if b = 0x22 then (ul shift 0x67, shift)
      else if b = 0x23 then (ul shift 0x68, shift)
      else if b = 0x24 then (ul shift 0x6a, shift)
      else if b = 0x25 then (ul shift 0x6b, shift)
      else if b = 0x26 then (ul shift 0x6c, shift)
      else if b = 0x2c then (ul shift 0x7a, shift)
      else if b = 0x2d then (ul shift 0x78, shift)
      else if b = 0x2e then (ul shift 0x63, shift)
      else if b = 0x2f then (ul shift 0x76, shift)
      else if b = 0x30 then (ul shift 0x62, shift)
      else if b = 0x31 then (ul shift 0x6e, shift)
      else if b = 0x32 then (ul shift 0x6d, shift)
      else if b = 0x2a \<or> b = 0x36 then (0, 1)
      else if b = 0xaa \<or> b = 0xb6 then (0, 0)
      else (0, shift))"

definition kbd_get :: "u8 list \<Rightarrow> u8 \<Rightarrow> int \<Rightarrow> (u8 \<times> int) option" where
  "kbd_get status b shift = (case kbd_wait status of None \<Rightarrow> None | Some _ \<Rightarrow> Some (kbd_key b shift))"

text \<open>The key that holds a letter or digit, and the string the keyboard handler puts for a sequence of codes.\<close>

definition scan_letters :: "(u8 \<times> u8) list" where
  "scan_letters = zip [0x10, 0x11, 0x12, 0x13, 0x14, 0x15, 0x16, 0x17, 0x18, 0x19, 0x1e, 0x1f, 0x20, 0x21, 0x22, 0x23, 0x24,
      0x25, 0x26, 0x2c, 0x2d, 0x2e, 0x2f, 0x30, 0x31, 0x32]
    (map (\<lambda>c. of_nat (of_char c)) ''qwertyuiopasdfghjklzxcvbnm'')"

fun kbd_run :: "u8 list \<Rightarrow> int \<Rightarrow> u8 list" where
  "kbd_run [] shift = []"
| "kbd_run (b # bs) shift = (let (c, shift) = kbd_key b shift in c # kbd_run bs shift)"

lemma kbd_letters: "list_all (\<lambda>(b, c). kbd_key b 0 = (c, 0) \<and> kbd_key b 1 = (c - 32, 1)) scan_letters"
  by (simp add: scan_letters_def kbd_key_def ul_def)

end
