(* ===== verification/Exec_Image.thy ===== *)
theory Exec_Image
  imports Fat439_Dirs
begin

text \<open>
  The part of \<^verbatim>\<open>Process::execv\<close> in \<^verbatim>\<open>kernel/process.cc\<close> that builds the memory of the new program:
  the arguments on its stack and the segments of its ELF file, with the structures of
  \<^verbatim>\<open>kernel/elf.h\<close>. The memory is the one the program will see, a function from virtual addresses to
  bytes; \<^verbatim>\<open>AddressSpace::exec\<close> has unmapped everything before, so every byte of it is 0 until it is
  written.
\<close>

type_synonym memory = "u32 \<Rightarrow> u8"

definition write_bytes :: "u32 \<Rightarrow> u8 list \<Rightarrow> memory \<Rightarrow> memory" where
  "write_bytes a bs m = (\<lambda>x. if unat (x - a) < length bs then bs ! unat (x - a) else m x)"

definition write_word :: "u32 \<Rightarrow> u32 \<Rightarrow> memory \<Rightarrow> memory" where
  "write_word a w m = write_bytes a (le_bytes w) m"

definition read_bytes :: "memory \<Rightarrow> u32 \<Rightarrow> nat \<Rightarrow> u8 list" where
  "read_bytes m a n = map (\<lambda>i. m (a + of_nat i)) [0 ..< n]"

definition read_word :: "memory \<Rightarrow> u32 \<Rightarrow> u32" where
  "read_word m a = le_word (read_bytes m a 4)"

text \<open>
  A store of the kernel through an address that the user or a file has given. Only from
  \<^verbatim>\<open>0x80000000\<close> on does the user's own memory lie, where a page that is missing is supplied by the
  page fault handler. In the first page, which is also where the addresses wrap to, the fault kills the
  process: \<open>NullDeref\<close>. Between them the store overwrites the memory of the kernel itself or, above
  the end of physical memory, its fault is a panic; what follows is not modelled: \<open>BadIndex\<close>.
\<close>

definition user_store :: "u32 \<Rightarrow> u8 list \<Rightarrow> memory \<Rightarrow> fault + memory" where
  "user_store a xs m =
     (if xs = [] then Inr m
      else if a < 0x1000 then Inl NullDeref
      else if a < 0x80000000 then Inl BadIndex
      else if unat a + length xs > 2 ^ 32 then Inl NullDeref
      else Inr (write_bytes a xs m))"

lemma write_nothing [simp]: "write_bytes a [] m = m"
  by (simp add: write_bytes_def fun_eq_iff)

lemma user_store_ok [simp]:
  assumes "0x80000000 \<le> a" "unat a + length xs \<le> 2 ^ 32"
  shows "user_store a xs m = Inr (write_bytes a xs m)"
proof -
  have "\<not> a < 0x1000" "\<not> a < 0x80000000" using assms(1) by (simp_all add: not_less word_le_nat_alt)
  then show ?thesis using assms(2) by (simp add: user_store_def)
qed

section \<open>The arguments\<close>

text \<open>
  \<^verbatim>\<open>slot\<close> is the address of \<^verbatim>\<open>argv[i]\<close>, \<open>tos\<close> is \<^verbatim>\<open>topOfStack\<close>; \<^verbatim>\<open>removeHead\<close> on an empty queue
  dereferences null.
\<close>

fun exec_arg_loop :: "nat \<Rightarrow> u32 \<Rightarrow> u32 \<Rightarrow> cstring list \<Rightarrow> memory \<Rightarrow> fault + memory" where
  "exec_arg_loop 0 slot tos args m = Inr m"
| "exec_arg_loop (Suc k) slot tos [] m = Inl NullDeref"
| "exec_arg_loop (Suc k) slot tos (arg # args) m =
     (let m = write_word slot tos m;
          sizeOfArg = nat (K_strlen arg);
          m = write_bytes tos (take sizeOfArg arg) m
      in exec_arg_loop k (slot + 4) (tos + of_nat sizeOfArg + 1) args m)"

definition userESP :: u32 where "userESP = 0xeeeeeee0"

definition exec_args :: "cstring \<Rightarrow> cstring list \<Rightarrow> nat \<Rightarrow> memory \<Rightarrow> fault + memory" where
  "exec_args fileName args argc m =
     (let argc = argc + 1;
          argv = userESP + 4;
          m = write_bytes argv (replicate (4 * argc) 0) m;
          tos = userESP + 4 + of_nat (4 * argc) + 4;
          m = write_word argv tos m;
          sizeOfArg = nat (K_strlen fileName);
          m = write_bytes tos (take sizeOfArg fileName) m
      in bindE (exec_arg_loop (argc - 1) (argv + 4) (tos + of_nat sizeOfArg + 1) args m) (\<lambda>m.
         let m = write_word (argv + of_nat (4 * argc)) 0 m;
             m = write_word userESP (of_nat argc) m
         in Inr (write_word (userESP + 4) argv m)))"

section \<open>The ELF file\<close>

definition le_half :: "u8 list \<Rightarrow> 16 word" where
  "le_half bs = ucast (bs ! 0) OR push_bit 8 (ucast (bs ! 1))"

record elf32_ehdr =
  e_ident :: "u8 list"
  e_type :: "16 word"
  e_machine :: "16 word"
  e_version :: u32
  e_entry :: u32
  e_phoff :: u32
  e_shoff :: u32
  e_flags :: u32
  e_ehsize :: "16 word"
  e_phentsize :: "16 word"
  e_phnum :: "16 word"
  e_shentsize :: "16 word"
  e_shnum :: "16 word"
  e_shstrndx :: "16 word"

definition ehdr_of_bytes :: "u8 list \<Rightarrow> elf32_ehdr" where
  "ehdr_of_bytes bs =
     \<lparr>e_ident = take 16 bs, e_type = le_half (drop 16 bs), e_machine = le_half (drop 18 bs),
      e_version = le_word (drop 20 bs), e_entry = le_word (drop 24 bs), e_phoff = le_word (drop 28 bs),
      e_shoff = le_word (drop 32 bs), e_flags = le_word (drop 36 bs), e_ehsize = le_half (drop 40 bs),
      e_phentsize = le_half (drop 42 bs), e_phnum = le_half (drop 44 bs), e_shentsize = le_half (drop 46 bs),
      e_shnum = le_half (drop 48 bs), e_shstrndx = le_half (drop 50 bs)\<rparr>"

record elf32_phdr =
  p_type :: u32
  p_offset :: u32
  p_vaddr :: u32
  p_paddr :: u32
  p_filesz :: u32
  p_memsz :: u32
  p_flags :: u32
  p_align :: u32

definition phdr_of_bytes :: "u8 list \<Rightarrow> elf32_phdr" where
  "phdr_of_bytes bs =
     \<lparr>p_type = le_word bs, p_offset = le_word (drop 4 bs), p_vaddr = le_word (drop 8 bs),
      p_paddr = le_word (drop 12 bs), p_filesz = le_word (drop 16 bs), p_memsz = le_word (drop 20 bs),
      p_flags = le_word (drop 24 bs), p_align = le_word (drop 28 bs)\<rparr>"

definition PT_LOAD :: u32 where "PT_LOAD = 1"

text \<open>
  The loop over the program headers and the whole of "read ELF". A structure on the stack that is
  not read completely keeps what \<open>junk\<close> it had; the results of \<^verbatim>\<open>readFully\<close> are not looked at.
\<close>

fun load_loop :: "'d driver \<Rightarrow> 'd fat439 \<Rightarrow> u8 list \<Rightarrow> u32 \<Rightarrow> nat \<Rightarrow> u32 \<Rightarrow> fat_file \<Rightarrow> memory \<Rightarrow> fault + (fat_file \<times> memory)" where
  "load_loop v fs junk phentsize 0 hoff prog m = Inr (prog, m)"
| "load_loop v fs junk phentsize (Suc k) hoff prog m =
     bindE (file_readFully v fs 32 32 (file_seek hoff prog)) (\<lambda>(_, xs, prog).
     let phdr = phdr_of_bytes (splice 0 xs junk);
         hoff = hoff + phentsize
     in if p_type phdr = PT_LOAD
        then bindE (file_readFully v fs (p_filesz phdr) (p_filesz phdr) (file_seek (p_offset phdr) prog)) (\<lambda>(_, xs, prog).
             bindE (user_store (p_vaddr phdr) xs m) (load_loop v fs junk phentsize k hoff prog))
        else load_loop v fs junk phentsize k hoff prog m)"

definition load_elf :: "'d driver \<Rightarrow> 'd fat439 \<Rightarrow> u8 list \<Rightarrow> u8 list \<Rightarrow> fat_file \<Rightarrow> memory \<Rightarrow> fault + (u32 \<times> fat_file \<times> memory)" where
  "load_elf v fs junk_hdr junk prog m =
     bindE (file_readFully v fs 52 52 (file_seek 0 prog)) (\<lambda>(_, xs, prog).
     let hdr = ehdr_of_bytes (splice 0 xs junk_hdr)
     in bindE (load_loop v fs junk (ucast (e_phentsize hdr)) (unat (e_phnum hdr)) (e_phoff hdr) prog m) (\<lambda>(prog, m).
          Inr (e_entry hdr, prog, m)))"

section \<open>Reading what was written\<close>

text \<open>The memory by offsets from the stack pointer, below the end of the address space.\<close>

definition at_off :: "memory \<Rightarrow> nat \<Rightarrow> u8" where
  "at_off m k = m (userESP + of_nat k)"

definition word_off :: "memory \<Rightarrow> nat \<Rightarrow> u32" where
  "word_off m k = le_word [at_off m k, at_off m (k + 1), at_off m (k + 2), at_off m (k + 3)]"

lemma diff_off:
  assumes "i < 2 ^ 32" "j < 2 ^ 32"
  shows "unat ((userESP + of_nat j) - (userESP + of_nat i) :: u32) = (if i \<le> j then j - i else 2 ^ 32 + j - i)"
proof (cases "i \<le> j")
  case True
  then have "(userESP + of_nat j) - (userESP + of_nat i) = (of_nat (j - i) :: u32)" by (simp add: of_nat_diff)
  then show ?thesis using True assms unat_of_nat_u32 [of "j - i"] by simp
next
  case False
  define d where "d = 2 ^ 32 + j - i"
  have d: "d < 2 ^ 32" "d + i = 2 ^ 32 + j" using False assms by (simp_all add: d_def)
  have "(of_nat (d + i) :: u32) = of_nat j" unfolding d(2) by simp
  then have "(of_nat j :: u32) - of_nat i = of_nat d" by (simp add: algebra_simps)
  then show ?thesis using False d(1) unat_of_nat_u32 [OF d(1)] by (simp add: d_def)
qed

lemma at_write_bytes:
  assumes "k < 2 ^ 32" "i + length bs \<le> 2 ^ 32" "bs \<noteq> []"
  shows "at_off (write_bytes (userESP + of_nat i) bs m) k = (if i \<le> k \<and> k < i + length bs then bs ! (k - i) else at_off m k)"
proof -
  have i: "i < 2 ^ 32" using assms(2,3) by (cases bs) auto
  show ?thesis unfolding at_off_def write_bytes_def diff_off [OF i assms(1)]
    using assms by auto
qed

lemma at_write_word:
  assumes "k < 2 ^ 32" "i + 4 \<le> 2 ^ 32"
  shows "at_off (write_word (userESP + of_nat i) w m) k = (if i \<le> k \<and> k < i + 4 then le_bytes w ! (k - i) else at_off m k)"
  using at_write_bytes [of k i "le_bytes w" m] assms by (simp add: write_word_def le_bytes_def)

lemma word_off_eq: "word_off m k = read_word m (userESP + of_nat k)"
  by (simp add: word_off_def read_word_def read_bytes_def at_off_def eval_nat_numeral algebra_simps)

lemma word_off_write:
  assumes "k + 4 \<le> 2 ^ 32"
  shows "word_off (write_word (userESP + of_nat k) w m) k = w"
proof -
  have "word_off (write_word (userESP + of_nat k) w m) k = le_word (le_bytes w)"
    using assms by (simp add: word_off_def at_write_word le_bytes_def)
  then show ?thesis by simp
qed

lemma word_off_cong: "(\<And>j. k \<le> j \<Longrightarrow> j < k + 4 \<Longrightarrow> at_off m j = at_off m' j) \<Longrightarrow> word_off m k = word_off m' k"
  by (simp add: word_off_def)

text \<open>A terminated string at an offset.\<close>

definition string_at :: "memory \<Rightarrow> nat \<Rightarrow> u8 list \<Rightarrow> bool" where
  "string_at m q s \<longleftrightarrow> (\<forall>j < length s. at_off m (q + j) = s ! j) \<and> at_off m (q + length s) = 0"

definition args_size :: "cstring list \<Rightarrow> nat" where
  "args_size args = sum_list (map (\<lambda>a. length (ctext a) + 1) args)"

lemma args_size_simps [simp]: "args_size [] = 0" "args_size (a # as) = length (ctext a) + 1 + args_size as"
  by (simp_all add: args_size_def)

lemma taken_text: "take (nat (K_strlen a)) a = ctext a" "nat (K_strlen a) = length (ctext a)"
proof -
  show l: "nat (K_strlen a) = length (ctext a)" by (simp add: K_strlen_ctext)
  show "take (nat (K_strlen a)) a = ctext a" unfolding l ctext_def by (metis takeWhile_eq_take length_takeWhile_le)
qed

lemma take_text: "take (length (ctext a)) a = ctext a"
  using taken_text [of a] by simp

text \<open>
  The loop: slots from offset \<open>s\<close> on, strings from offset \<open>t\<close> on, and nothing but zeros above.
\<close>

lemma exec_arg_loop_spec:
  assumes "s + 4 * length args \<le> t" "t + args_size args < L" "L \<le> 2 ^ 32" "\<And>j. t \<le> j \<Longrightarrow> j < L \<Longrightarrow> at_off m j = 0"
  shows "\<exists>m'. exec_arg_loop (length args) (userESP + of_nat s) (userESP + of_nat t) args m = Inr m' \<and>
    (\<forall>j. j < s \<or> s + 4 * length args \<le> j \<and> j < t \<longrightarrow> at_off m' j = at_off m j) \<and>
    (\<forall>i < length args. \<exists>q. word_off m' (s + 4 * i) = userESP + of_nat q \<and> t \<le> q \<and> q + length (ctext (args ! i)) < L \<and>
       string_at m' q (ctext (args ! i)))"
  using assms
proof (induction args arbitrary: s t m)
  case Nil
  then show ?case by simp
next
  case (Cons a as)
  let ?n = "length (ctext a)"
  define m1 where "m1 = write_word (userESP + of_nat s) (userESP + of_nat t) m"
  define m2 where "m2 = write_bytes (userESP + of_nat t) (ctext a) m1"
  have lim: "s + 4 \<le> 2 ^ 32" "t + ?n < 2 ^ 32" "s + 4 \<le> t" "t + ?n < L" using Cons.prems by auto
  have m1: "at_off m1 j = (if s \<le> j \<and> j < s + 4 then le_bytes (userESP + of_nat t) ! (j - s) else at_off m j)" if "j < 2 ^ 32" for j
    unfolding m1_def by (rule at_write_word [OF that lim(1)])
  have m2: "at_off m2 j = (if t \<le> j \<and> j < t + ?n then ctext a ! (j - t) else at_off m1 j)" if "j < 2 ^ 32" for j
  proof (cases "ctext a = []")
    case True
    then show ?thesis by (auto simp: m2_def write_bytes_def at_off_def)
  next
    case False
    then show ?thesis unfolding m2_def using at_write_bytes [OF that _ False] lim(2) by simp
  qed
  have step: "exec_arg_loop (length (a # as)) (userESP + of_nat s) (userESP + of_nat t) (a # as) m =
      exec_arg_loop (length as) (userESP + of_nat (s + 4)) (userESP + of_nat (t + ?n + 1)) as m2"
    by (simp add: taken_text take_text m1_def m2_def Let_def algebra_simps)
  have "\<exists>m'. exec_arg_loop (length as) (userESP + of_nat (s + 4)) (userESP + of_nat (t + ?n + 1)) as m2 = Inr m' \<and>
    (\<forall>j. j < s + 4 \<or> s + 4 + 4 * length as \<le> j \<and> j < t + ?n + 1 \<longrightarrow> at_off m' j = at_off m2 j) \<and>
    (\<forall>i < length as. \<exists>q. word_off m' (s + 4 + 4 * i) = userESP + of_nat q \<and> t + ?n + 1 \<le> q \<and> q + length (ctext (as ! i)) < L \<and>
       string_at m' q (ctext (as ! i)))"
    by (rule Cons.IH) (use Cons.prems m1 m2 lim in auto)
  then obtain m' where r: "exec_arg_loop (length as) (userESP + of_nat (s + 4)) (userESP + of_nat (t + ?n + 1)) as m2 = Inr m'"
    and keep: "\<And>j. j < s + 4 \<or> s + 4 + 4 * length as \<le> j \<and> j < t + ?n + 1 \<Longrightarrow> at_off m' j = at_off m2 j"
    and rest: "\<And>i. i < length as \<Longrightarrow> \<exists>q. word_off m' (s + 4 + 4 * i) = userESP + of_nat q \<and> t + ?n + 1 \<le> q \<and>
       q + length (ctext (as ! i)) < L \<and> string_at m' q (ctext (as ! i))" by blast
  have "at_off m' j = at_off m j" if "j < s \<or> s + 4 * length (a # as) \<le> j \<and> j < t" for j
    using that keep [of j] m1 [of j] m2 [of j] lim by auto
  moreover have "\<exists>q. word_off m' (s + 4 * i) = userESP + of_nat q \<and> t \<le> q \<and> q + length (ctext ((a # as) ! i)) < L \<and>
       string_at m' q (ctext ((a # as) ! i))" if i: "i < length (a # as)" for i
  proof (cases i)
    case 0
    have "word_off m' s = word_off m1 s"
      by (rule word_off_cong) (use keep m2 lim in auto)
    also have "\<dots> = userESP + of_nat t" unfolding m1_def by (rule word_off_write [OF lim(1)])
    finally have "word_off m' s = userESP + of_nat t" .
    moreover have "string_at m' t (ctext a)"
      unfolding string_at_def
    proof (intro conjI allI impI)
      fix j assume "j < ?n"
      then show "at_off m' (t + j) = ctext a ! j" using keep [of "t + j"] m2 [of "t + j"] lim Cons.prems(1) by simp
    next
      show "at_off m' (t + ?n) = 0"
        using keep [of "t + ?n"] m2 [of "t + ?n"] m1 [of "t + ?n"] lim Cons.prems(1) Cons.prems(4) [of "t + ?n"] by simp
    qed
    ultimately show ?thesis using 0 lim by auto
  next
    case (Suc i')
    then obtain q where "word_off m' (s + 4 + 4 * i') = userESP + of_nat q" "t + ?n + 1 \<le> q"
       "q + length (ctext (as ! i')) < L" "string_at m' q (ctext (as ! i'))" using rest [of i'] i by auto
    then show ?thesis using Suc by (intro exI [of _ q]) (simp add: algebra_simps)
  qed
  ultimately show ?case using r unfolding step by blast
qed

lemma string_at_read:
  assumes "string_at m q s" "\<And>j. j \<le> length s \<Longrightarrow> at_off m' (q + j) = at_off m (q + j)"
  shows "read_bytes m' (userESP + of_nat q) (length s) = s \<and> m' (userESP + of_nat q + of_nat (length s)) = 0"
proof -
  have "read_bytes m' (userESP + of_nat q) (length s) = s"
    by (rule nth_equalityI) (use assms in \<open>auto simp: read_bytes_def string_at_def at_off_def add.assoc\<close>)
  then show ?thesis using assms(1) assms(2) [of "length s"] by (simp add: string_at_def at_off_def add.assoc)
qed

text \<open>
  What the loop leaves is not touched any more but for three words; the words at offsets from the
  stack pointer, for \<open>n\<close> arguments and a name of \<open>l\<close> characters.
\<close>

lemma exec_args_start:
  assumes "16 + 4 * n + l < 0x11111120" "\<And>x. userESP \<le> x \<Longrightarrow> m x = 0" "length bs = l" "0x11111120 > j"
    and "\<not> (4 \<le> j \<and> j < 8)" "\<not> (12 + 4 * n \<le> j \<and> j < 12 + 4 * n + l)"
  shows "at_off (write_bytes (userESP + of_nat (12 + 4 * n)) bs (write_word (userESP + of_nat 4) (userESP + of_nat (12 + 4 * n))
           (write_bytes (userESP + of_nat 4) (replicate (4 * (n + 1)) 0) m))) j = 0"
proof -
  define m1 where "m1 = write_bytes (userESP + of_nat 4) (replicate (4 * (n + 1)) 0) m"
  define m2 where "m2 = write_word (userESP + of_nat 4) (userESP + of_nat (12 + 4 * n)) m1"
  have "unat userESP + j < 2 ^ 32" "unat (of_nat j :: u32) = j" using assms(4) unat_of_nat_u32 [of j] by (simp_all add: userESP_def)
  then have "unat (userESP + of_nat j) = unat userESP + j" using unat_plus_u32 [of userESP "of_nat j"] by simp
  then have "userESP \<le> userESP + of_nat j" by (simp add: word_le_nat_alt)
  then have "at_off m1 j = 0"
    using at_write_bytes [of j 4 "replicate (4 * (n + 1)) 0" m] assms(1,2,4)
    by (cases "4 \<le> j \<and> j < 8 + 4 * n") (auto simp: m1_def at_off_def)
  then have m2: "at_off m2 j = 0"
    using at_write_word [of j 4 "userESP + of_nat (12 + 4 * n)" m1] assms(4,5) by (simp add: m2_def)
  have "at_off (write_bytes (userESP + of_nat (12 + 4 * n)) bs m2) j = 0"
  proof (cases "bs = []")
    case True
    then show ?thesis using m2 by (simp add: write_bytes_def at_off_def)
  next
    case False
    then show ?thesis using at_write_bytes [of j "12 + 4 * n" bs m2] assms m2 by auto
  qed
  then show ?thesis by (simp only: m1_def m2_def)
qed

lemma exec_args_eq:
  fixes name :: cstring and args :: "cstring list"
  defines "n \<equiv> length args" and "l \<equiv> length (ctext name)"
  assumes "exec_arg_loop n (userESP + of_nat 8) (userESP + of_nat (13 + 4 * n + l)) args
     (write_bytes (userESP + of_nat (12 + 4 * n)) (ctext name) (write_word (userESP + of_nat 4) (userESP + of_nat (12 + 4 * n))
           (write_bytes (userESP + of_nat 4) (replicate (4 * (n + 1)) 0) m))) = Inr m4"
  shows "exec_args name args n m = Inr (write_word (userESP + of_nat 4) (userESP + of_nat 4)
     (write_word (userESP + of_nat 0) (of_nat (n + 1)) (write_word (userESP + of_nat (8 + 4 * n)) 0 m4)))"
proof -
  have a: "userESP + 4 + of_nat (4 * (n + 1)) + 4 = userESP + of_nat (12 + 4 * n)"
    "userESP + of_nat (12 + 4 * n) + of_nat l + 1 = userESP + of_nat (13 + 4 * n + l)" "userESP + 4 + 4 = userESP + of_nat 8"
    "userESP + 4 + of_nat (4 * (n + 1)) = userESP + of_nat (8 + 4 * n)" by simp_all
  show ?thesis unfolding exec_args_def Let_def taken_text a add_diff_cancel_right'
    using assms(3) unfolding l_def by (simp add: take_text algebra_simps)
qed

lemma exec_args_end:
  fixes m4 n
  defines "m7 \<equiv> write_word (userESP + of_nat 4) (userESP + of_nat 4)
     (write_word (userESP + of_nat 0) (of_nat (n + 1)) (write_word (userESP + of_nat (8 + 4 * n)) 0 m4))"
  assumes lim: "12 + 4 * n < 2 ^ 32"
  shows "\<And>j. j < 2 ^ 32 \<Longrightarrow> 8 \<le> j \<Longrightarrow> \<not> (8 + 4 * n \<le> j \<and> j < 12 + 4 * n) \<Longrightarrow> at_off m7 j = at_off m4 j"
    and "word_off m7 0 = of_nat (n + 1)" and "word_off m7 4 = userESP + of_nat 4" and "word_off m7 (8 + 4 * n) = 0"
proof -
  define m5 where "m5 = write_word (userESP + of_nat (8 + 4 * n)) 0 m4"
  define m6 where "m6 = write_word (userESP + of_nat 0) (of_nat (n + 1)) m5"
  have m7: "m7 = write_word (userESP + of_nat 4) (userESP + of_nat 4) m6" by (simp only: m7_def m6_def m5_def)
  show "at_off m7 j = at_off m4 j" if "j < 2 ^ 32" "8 \<le> j" "\<not> (8 + 4 * n \<le> j \<and> j < 12 + 4 * n)" for j
    using at_write_word [of j 4 "userESP + of_nat 4" m6] at_write_word [of j 0 "of_nat (n + 1)" m5]
      at_write_word [of j "8 + 4 * n" 0 m4] that lim by (simp add: m5_def m6_def m7)
  have "word_off m7 0 = word_off m6 0"
    by (rule word_off_cong) (use at_write_word [of _ 4 "userESP + of_nat 4" m6] in \<open>simp add: m7\<close>)
  then show "word_off m7 0 = of_nat (n + 1)" using word_off_write [of 0 "of_nat (n + 1)" m5] by (simp add: m6_def)
  show "word_off m7 4 = userESP + of_nat 4" unfolding m7 by (rule word_off_write) simp
  have "word_off m7 (8 + 4 * n) = word_off m5 (8 + 4 * n)"
    by (rule word_off_cong)
      (use at_write_word [of _ 4 "userESP + of_nat 4" m6] at_write_word [of _ 0 "of_nat (n + 1)" m5] lim in \<open>simp add: m7 m6_def\<close>)
  then show "word_off m7 (8 + 4 * n) = 0" unfolding m5_def using word_off_write [of "8 + 4 * n" 0 m4] lim by simp
qed

section \<open>Properties\<close>

text \<open>
  C31. The stack that \<^verbatim>\<open>execv\<close> builds for the new program, when the arguments fit below the end of
  the address space: at the stack pointer lies the number of arguments, counting the program, then
  the pointer to \<^verbatim>\<open>argv\<close>; \<^verbatim>\<open>argv[1]\<close> to \<^verbatim>\<open>argv[n]\<close> point to the terminated arguments in their order
  and a null pointer follows. But \<^verbatim>\<open>argv[0]\<close>, which should be the name of the program, is the word
  that holds the pointer to \<^verbatim>\<open>argv\<close>: it points to itself.
\<close>
theorem exec_args_on_stack:
  assumes "16 + 4 * length args + length (ctext name) + args_size args < 0x11111120" "\<And>x. userESP \<le> x \<Longrightarrow> m x = 0"
  shows "\<exists>m'. exec_args name args (length args) m = Inr m' \<and>
    read_word m' userESP = of_nat (length args + 1) \<and> read_word m' (userESP + 4) = userESP + 4 \<and>
    (\<forall>i < length args. let p = read_word m' (userESP + 4 + of_nat (4 * (i + 1))); s = ctext (args ! i)
       in read_bytes m' p (length s) = s \<and> m' (p + of_nat (length s)) = 0) \<and>
    read_word m' (userESP + 4 + of_nat (4 * (length args + 1))) = 0"
proof -
  let ?n = "length args" and ?l = "length (ctext name)"
  let ?t1 = "13 + 4 * ?n + ?l"
  have lim: "?t1 + args_size args + 4 < 2 ^ 32" "12 + 4 * ?n < 2 ^ 32" using assms(1) by simp_all
  define m3 where "m3 = write_bytes (userESP + of_nat (12 + 4 * ?n)) (ctext name) (write_word (userESP + of_nat 4)
    (userESP + of_nat (12 + 4 * ?n)) (write_bytes (userESP + of_nat 4) (replicate (4 * (?n + 1)) 0) m))"
  have z: "at_off m3 j = 0" if "?t1 \<le> j" "j < 0x11111120" for j
    unfolding m3_def by (rule exec_args_start [OF _ assms(2)]) (use that assms(1) in auto)
  from exec_arg_loop_spec [of 8 args ?t1 "0x11111120" m3] assms(1) z obtain m4
    where r: "exec_arg_loop ?n (userESP + of_nat 8) (userESP + of_nat ?t1) args m3 = Inr m4"
    and s: "\<And>i. i < ?n \<Longrightarrow> \<exists>q. word_off m4 (8 + 4 * i) = userESP + of_nat q \<and> ?t1 \<le> q \<and> q + length (ctext (args ! i)) < 0x11111120 \<and>
       string_at m4 q (ctext (args ! i))" by auto
  define m7 where "m7 = write_word (userESP + of_nat 4) (userESP + of_nat 4)
     (write_word (userESP + of_nat 0) (of_nat (?n + 1)) (write_word (userESP + of_nat (8 + 4 * ?n)) 0 m4))"
  note fin = exec_args_end [OF lim(2), where ?m4.0 = m4, folded m7_def]
  have "let p = word_off m7 (8 + 4 * i); s = ctext (args ! i)
       in read_bytes m7 p (length s) = s \<and> m7 (p + of_nat (length s)) = 0" if i: "i < ?n" for i
  proof -
    from s [OF i] obtain q where q: "word_off m4 (8 + 4 * i) = userESP + of_nat q" "?t1 \<le> q"
      "q + length (ctext (args ! i)) < 0x11111120" "string_at m4 q (ctext (args ! i))" by blast
    have w: "word_off m7 (8 + 4 * i) = userESP + of_nat q"
      unfolding q(1) [symmetric] by (rule word_off_cong) (use fin(1) i lim in auto)
    have b: "at_off m7 (q + j) = at_off m4 (q + j)" if "j \<le> length (ctext (args ! i))" for j
      using fin(1) [of "q + j"] q(2,3) that by auto
    show ?thesis unfolding w Let_def by (rule string_at_read [OF q(4) b])
  qed
  then show ?thesis
    using exec_args_eq [OF r [unfolded m3_def]] fin(2-4) unfolding m7_def [symmetric]
    by (intro exI [of _ m7]) (simp add: word_off_eq Let_def add.assoc)
qed

theorem exec_args_on_stack_witness:
  "\<exists>m'. exec_args [0x6c, 0x73] [[0x61], [0x62, 0x63]] 2 (\<lambda>_. 0) = Inr m' \<and> read_word m' userESP = 3 \<and>
    read_word m' (userESP + 4) = userESP + 4 \<and> read_bytes m' (read_word m' (userESP + 12)) 2 = [0x62, 0x63]"
proof -
  let ?as = "[[0x61], [0x62, 0x63]] :: cstring list"
  have l: "length ?as = 2" and c: "16 + 4 * length ?as + length (ctext [0x6c, 0x73]) + args_size ?as < 0x11111120" by simp_all
  from exec_args_on_stack [of ?as "[0x6c, 0x73]" "\<lambda>_. 0", OF c] obtain m'
    where m': "exec_args [0x6c, 0x73] ?as 2 (\<lambda>_. 0) = Inr m'" "read_word m' userESP = of_nat (2 + 1)"
    "read_word m' (userESP + 4) = userESP + 4"
    and a: "\<forall>i < 2. let p = read_word m' (userESP + 4 + of_nat (4 * (i + 1))); s = ctext (?as ! i)
       in read_bytes m' p (length s) = s \<and> m' (p + of_nat (length s)) = 0"
    unfolding l by blast
  have "ctext (?as ! 1) = [0x62, 0x63]" "length [0x62 :: u8, 0x63] = 2" by simp_all
  with a [rule_format, of 1] have "read_bytes m' (read_word m' (userESP + 4 + of_nat (4 * (1 + 1)))) 2 = [0x62, 0x63]"
    unfolding Let_def by (simp add: numeral_2_eq_2)
  then show ?thesis using m' by (intro exI [of _ m']) (simp add: add.commute)
qed

section \<open>Loading a file\<close>

text \<open>The same on the bytes of the file.\<close>

definition slice :: "nat \<Rightarrow> nat \<Rightarrow> 'a list \<Rightarrow> 'a list" where
  "slice off n c = take n (drop off c)"

definition phdr_at :: "u8 list \<Rightarrow> u32 \<Rightarrow> elf32_phdr" where
  "phdr_at c hoff = phdr_of_bytes (slice (unat hoff) 32 c)"

fun load_image :: "u8 list \<Rightarrow> u32 \<Rightarrow> nat \<Rightarrow> u32 \<Rightarrow> memory \<Rightarrow> fault + memory" where
  "load_image c phentsize 0 hoff m = Inr m"
| "load_image c phentsize (Suc k) hoff m =
     (let p = phdr_at c hoff in
      bindE (if p_type p = PT_LOAD then user_store (p_vaddr p) (slice (unat (p_offset p)) (unat (p_filesz p)) c) m else Inr m)
        (load_image c phentsize k (hoff + phentsize)))"

text \<open>All program headers and the starts of all segments lie within the file.\<close>

fun image_inside :: "u8 list \<Rightarrow> u32 \<Rightarrow> nat \<Rightarrow> u32 \<Rightarrow> bool" where
  "image_inside c phentsize 0 hoff = True"
| "image_inside c phentsize (Suc k) hoff \<longleftrightarrow>
     (let p = phdr_at c hoff in unat hoff + 32 \<le> length c \<and>
      (p_type p = PT_LOAD \<longrightarrow> unat (p_offset p) \<le> length c \<and> unat (p_filesz p) < 2 ^ 31) \<and>
      image_inside c phentsize k (hoff + phentsize))"

definition file_bytes :: "'d driver \<Rightarrow> 'd fat439 \<Rightarrow> open_file \<Rightarrow> u32 list \<Rightarrow> u8 list" where
  "file_bytes v fs f xs = map (file_byte v fs xs) [0 ..< unat (m_length (of_meta f))]"

lemma read_slice:
  assumes v: "volume v" and wf: "wf_file fs start f xs" and F: "ff_openFile F = start"
    and n: "unat n < 2 ^ 31" and off: "unat off \<le> length (file_bytes v fs f xs)"
  obtains c F' where "file_readFully v fs n n (file_seek off F) = Inr (c, slice (unat off) (unat n) (file_bytes v fs f xs), F')"
    "ff_openFile F' = start"
proof -
  let ?l = "unat (m_length (of_meta f))" and ?o = "unat off"
  have F': "ff_openFile (file_seek off F) = start" "ff_offset (file_seek off F) = off" using F by (simp_all add: file_seek_def)
  have o: "?o \<le> ?l" using off by (simp add: file_bytes_def)
  let ?m = "min (unat n) (?l - ?o)"
  have "slice ?o (unat n) (file_bytes v fs f xs) = map (file_byte v fs xs) [?o ..< ?o + ?m]"
  proof -
    have "drop ?o [0 ..< ?l] = [?o ..< ?l]" by (simp add: drop_upt)
    moreover have "take (unat n) [?o ..< ?l] = [?o ..< ?o + ?m]" using o by (cases "?o + unat n \<le> ?l") (simp_all add: take_upt min_def)
    ultimately show ?thesis by (simp add: slice_def file_bytes_def take_map drop_map)
  qed
  then have e: "file_readFully v fs n n (file_seek off F) =
      Inr (int ?m, slice ?o (unat n) (file_bytes v fs f xs), (file_seek off F)\<lparr>ff_offset := of_nat (?o + ?m)\<rparr>)"
    using volume.file_readFully_slice [OF v wf n order_refl _ F'(1)] F'(2) o by (simp add: Let_def)
  show thesis by (rule that [OF e]) (simp add: F')
qed

lemma load_loop_image:
  assumes v: "volume v" and wf: "wf_file fs start f xs" and j: "length junk = 32"
  shows "ff_openFile prog = start \<Longrightarrow> image_inside (file_bytes v fs f xs) phentsize k hoff \<Longrightarrow>
    case load_image (file_bytes v fs f xs) phentsize k hoff m of
      Inl e \<Rightarrow> load_loop v fs junk phentsize k hoff prog m = Inl e
    | Inr m' \<Rightarrow> \<exists>prog'. load_loop v fs junk phentsize k hoff prog m = Inr (prog', m')"
proof (induction k arbitrary: hoff prog m)
  case (Suc k)
  let ?c = "file_bytes v fs f xs"
  let ?p = "phdr_at ?c hoff"
  have i: "unat hoff + 32 \<le> length ?c" "p_type ?p = PT_LOAD \<Longrightarrow> unat (p_offset ?p) \<le> length ?c \<and> unat (p_filesz ?p) < 2 ^ 31"
    "image_inside ?c phentsize k (hoff + phentsize)" using Suc.prems(2) by (auto simp: Let_def)
  obtain cnt prog1 where r: "file_readFully v fs 32 32 (file_seek hoff prog) = Inr (cnt, slice (unat hoff) 32 ?c, prog1)"
    "ff_openFile prog1 = start"
    using read_slice [OF v wf Suc.prems(1), of 32 hoff] i(1) by auto
  have s: "splice 0 (slice (unat hoff) 32 ?c) junk = slice (unat hoff) 32 ?c"
    by (rule splice_all) (use i(1) j in \<open>simp add: slice_def\<close>)
  show ?case
  proof (cases "p_type ?p = PT_LOAD")
    case False
    then show ?thesis using Suc.IH [OF r(2) i(3), of m] r(1) s
      by (simp add: Let_def phdr_at_def split: sum.splits)
  next
    case True
    note b = i(2) [OF True]
    obtain cnt2 prog2 where r2: "file_readFully v fs (p_filesz ?p) (p_filesz ?p) (file_seek (p_offset ?p) prog1) =
        Inr (cnt2, slice (unat (p_offset ?p)) (unat (p_filesz ?p)) ?c, prog2)" "ff_openFile prog2 = start"
      using read_slice [OF v wf r(2), of "p_filesz ?p" "p_offset ?p"] b by auto
    show ?thesis
    proof (cases "user_store (p_vaddr ?p) (slice (unat (p_offset ?p)) (unat (p_filesz ?p)) ?c) m")
      case (Inl e)
      then show ?thesis using r2(1) r(1) s True by (simp add: Let_def phdr_at_def)
    next
      case (Inr m1)
      then show ?thesis using Suc.IH [OF r2(2) i(3), of m1] r2(1) r(1) s True
        by (simp add: Let_def phdr_at_def split: sum.splits)
    qed
  qed
qed simp

text \<open>
  C30. What \<^verbatim>\<open>execv\<close> loads from an ELF file whose headers lie within it is what the headers say of the
  bytes of the file: each loadable segment is the slice of the file at its offset, cut at the end of
  the file, at its virtual address, later segments over earlier ones, and the entry point is that of
  the ELF header; neither the way the file is spread over blocks nor what was on the stack matters.
  A segment with bytes below \<^verbatim>\<open>0x80000000\<close> or past the last address is not loaded: the file decides
  where the kernel writes, and \<open>load_image\<close> ends in the fault of the first such segment.
\<close>

theorem load_elf_loads_image:
  assumes "volume v" "wf_file fs start f xs" "ff_openFile prog = start" "length junk_hdr = 52" "length junk = 32"
    and "c = file_bytes v fs f xs" "52 \<le> length c" "h = ehdr_of_bytes (take 52 c)"
    and "image_inside c (ucast (e_phentsize h)) (unat (e_phnum h)) (e_phoff h)"
  shows "case load_image c (ucast (e_phentsize h)) (unat (e_phnum h)) (e_phoff h) m of
      Inl e \<Rightarrow> load_elf v fs junk_hdr junk prog m = Inl e
    | Inr m' \<Rightarrow> \<exists>prog'. load_elf v fs junk_hdr junk prog m = Inr (e_entry h, prog', m')"
proof -
  obtain cnt prog1 where r: "file_readFully v fs 52 52 (file_seek 0 prog) = Inr (cnt, slice 0 52 c, prog1)" "ff_openFile prog1 = start"
    using read_slice [OF assms(1-3), of 52 0] assms(6) by auto
  have "splice 0 (slice 0 52 c) junk_hdr = take 52 c"
    using splice_all [of "slice 0 52 c" junk_hdr] assms(4,7) by (simp add: slice_def)
  moreover have "case load_image c (ucast (e_phentsize h)) (unat (e_phnum h)) (e_phoff h) m of
      Inl e \<Rightarrow> load_loop v fs junk (ucast (e_phentsize h)) (unat (e_phnum h)) (e_phoff h) prog1 m = Inl e
    | Inr m' \<Rightarrow> \<exists>prog'. load_loop v fs junk (ucast (e_phentsize h)) (unat (e_phnum h)) (e_phoff h) prog1 m = Inr (prog', m')"
    using load_loop_image [OF assms(1,2,5) r(2)] assms(6,9) by blast
  ultimately show ?thesis using r(1) assms(8) by (auto simp: load_elf_def Let_def split: sum.splits)
qed

text \<open>A disk with an ELF file of one segment of four bytes, for the witness.\<close>

definition elf_disk :: disk_image where
  "elf_disk a i = (if i = 10 then 0x80000000 else if i = 11 then 52 else if i = 14 then 0x200000 else if i = 15 then 1
     else if i = 17 then 1 else if i = 18 then 84 else if i = 19 then 0x80000000 else if i = 21 then 4
     else if i = 25 then 0x64636261 else 0)"

definition elf_file :: open_file where
  "elf_file = \<lparr>of_start = 5, of_meta = \<lparr>m_type = 1, m_length = 88, m_parentDir = 0, m_currentBlk = 5\<rparr>, of_count = 1\<rparr>"

definition elf_fs :: "disk_image fat439" where
  "elf_fs = small_fs\<lparr>dev := elf_disk, openFiles := [None, None, None, None, None, Some elf_file, None, None], fat := [0, 0, 0, 4, 0, 0, 0, 0]\<rparr>"

lemma elf_bytes:
  "file_bytes ide_driver elf_fs elf_file [5] = le_bytes_list [0, 0, 0, 0, 0, 0, 0x80000000, 52, 0, 0, 0x200000, 1, 0,
     1, 84, 0x80000000, 0, 4, 0, 0, 0, 0x64636261]"
  by (simp add: file_bytes_def file_byte_def file_pos_def elf_file_def elf_fs_def ide_disk_byte elf_disk_def le_bytes_list_def
     le_bytes_def upt_rec)

lemma elf_list:
  "file_bytes ide_driver elf_fs elf_file [5] =
    [0, 0, 0, 0, 0, 0, 0, 0, 0, 0, 0, 0, 0, 0, 0, 0, 0, 0, 0, 0, 0, 0, 0, 0, 0, 0, 0, 128, 52, 0, 0, 0, 0, 0, 0, 0, 0, 0, 0, 0, 0, 0, 32, 0, 1, 0, 0, 0, 0, 0, 0, 0] @
    [1, 0, 0, 0, 84, 0, 0, 0, 0, 0, 0, 128, 0, 0, 0, 0, 4, 0, 0, 0, 0, 0, 0, 0, 0, 0, 0, 0, 0, 0, 0, 0] @ [97, 98, 99, 100]"
  by (simp add: elf_bytes le_bytes_list_def le_bytes_def)

lemma elf_parts:
  "take 52 (file_bytes ide_driver elf_fs elf_file [5]) =
    [0, 0, 0, 0, 0, 0, 0, 0, 0, 0, 0, 0, 0, 0, 0, 0, 0, 0, 0, 0, 0, 0, 0, 0, 0, 0, 0, 128, 52, 0, 0, 0, 0, 0, 0, 0, 0, 0, 0, 0, 0, 0, 32, 0, 1, 0, 0, 0, 0, 0, 0, 0]"
  "slice 52 32 (file_bytes ide_driver elf_fs elf_file [5]) =
    [1, 0, 0, 0, 84, 0, 0, 0, 0, 0, 0, 128, 0, 0, 0, 0, 4, 0, 0, 0, 0, 0, 0, 0, 0, 0, 0, 0, 0, 0, 0, 0]"
  "slice 84 4 (file_bytes ide_driver elf_fs elf_file [5]) = [97, 98, 99, 100]"
  by (simp_all only: elf_list slice_def) (simp_all add: numeral_2_eq_2)

lemma elf_header:
  "ehdr_of_bytes (take 52 (file_bytes ide_driver elf_fs elf_file [5])) =
    \<lparr>e_ident = [0, 0, 0, 0, 0, 0, 0, 0, 0, 0, 0, 0, 0, 0, 0, 0], e_type = 0, e_machine = 0, e_version = 0, e_entry = 0x80000000, e_phoff = 52, e_shoff = 0,
     e_flags = 0, e_ehsize = 0, e_phentsize = 32, e_phnum = 1, e_shentsize = 0, e_shnum = 0, e_shstrndx = 0\<rparr>"
  "phdr_at (file_bytes ide_driver elf_fs elf_file [5]) 52 =
    \<lparr>p_type = 1, p_offset = 84, p_vaddr = 0x80000000, p_paddr = 0, p_filesz = 4, p_memsz = 0, p_flags = 0, p_align = 0\<rparr>"
  by (simp_all add: elf_parts ehdr_of_bytes_def phdr_at_def phdr_of_bytes_def le_word_def le_half_def)

theorem load_elf_loads_image_witness:
  "\<exists>prog'. load_elf ide_driver elf_fs (replicate 52 0xAA) (replicate 32 0xBB) (new_File 5) (\<lambda>_. 0) =
    Inr (0x80000000, prog', write_bytes 0x80000000 [0x61, 0x62, 0x63, 0x64] (\<lambda>_. 0))"
proof -
  have wf: "wf_file elf_fs 5 elf_file [5]"
    by (simp add: wf_file_def elf_fs_def small_fs_def elf_file_def file_at_def slot_at_def)
  have l: "length (file_bytes ide_driver elf_fs elf_file [5]) = 88" by (simp add: file_bytes_def elf_file_def)
  show ?thesis
    using load_elf_loads_image [OF hdv.volume_axioms wf _ _ _ refl _ refl, of "new_File 5" "replicate 52 0xAA" "replicate 32 0xBB" "\<lambda>_. 0"]
    by (simp add: elf_header elf_parts(3) l new_File_def PT_LOAD_def)
qed

end
