(* ===== verification/Console.thy ===== *)
theory Console
  imports Snprintf
begin

text \<open>
  \<^verbatim>\<open>kernel/debug.cc\<close> and the output half of \<^verbatim>\<open>kernel/u8250.cc\<close>: what the kernel prints when it traces,
  panics or shuts down. Everything goes through \<^verbatim>\<open>K::vsnprintf\<close> with a limit of 1000 characters. A
  format is given with its terminating NUL.
\<close>

section \<open>The serial port\<close>

text \<open>
  \<^verbatim>\<open>put\<close> polls the line status register until the transmitter is empty. What the port answers is the
  list \<open>lsr\<close>; the result is what is left of it and the byte sent.
\<close>

fun u8250_put :: "u8 \<Rightarrow> u8 list \<Rightarrow> fault + (u8 list \<times> u8)" where
  "u8250_put c [] = Inl Diverges"
| "u8250_put c (status # lsr) = (if status AND 0x20 = 0 then u8250_put c lsr else Inr (lsr, c))"

section \<open>Debug\<close>

record console =
  con_sink :: "sink option"
  debugAll :: bool
  con_ints :: bool
  halted :: bool

text \<open>A debug channel: the address and text of its name, and its flag.\<close>

record channel =
  what :: "u32 \<times> string"
  flag :: bool

definition cz :: "string \<Rightarrow> string" where "cz s = s @ [CHR 0x00]"
definition nl :: string where "nl = [CHR 0x0A]"

definition Debug_vprintf :: "'f ldouble \<Rightarrow> string \<Rightarrow> 'f vararg list \<Rightarrow> console \<Rightarrow> fault + console" where
  "Debug_vprintf fp fmt ap c =
     (case con_sink c of
        None \<Rightarrow> Inr c
      | Some st \<Rightarrow> bindE (K_vsnprintf fp 1000 fmt ap st) (\<lambda>st. Inr (c\<lparr>con_sink := Some st\<rparr>)))"

definition Debug_printf :: "'f ldouble \<Rightarrow> string \<Rightarrow> 'f vararg list \<Rightarrow> console \<Rightarrow> fault + console" where
  "Debug_printf fp fmt args c = Debug_vprintf fp fmt args c"

text \<open>\<^verbatim>\<open>vshutdown\<close> ends in a loop of \<^verbatim>\<open>hlt\<close> with interrupts off: the machine is halted.\<close>

definition Debug_vshutdown :: "'f ldouble \<Rightarrow> string \<Rightarrow> 'f vararg list \<Rightarrow> console \<Rightarrow> fault + console" where
  "Debug_vshutdown fp fmt ap c =
     bindE (Debug_vprintf fp fmt ap (c\<lparr>con_ints := False\<rparr>)) (\<lambda>c.
     bindE (Debug_printf fp (cz (nl @ ''*** System Shutdown ***'' @ nl)) [] c) (\<lambda>c.
     Inr (c\<lparr>halted := True\<rparr>)))"

definition Debug_shutdown :: "'f ldouble \<Rightarrow> string \<Rightarrow> 'f vararg list \<Rightarrow> console \<Rightarrow> fault + console" where
  "Debug_shutdown fp fmt args c = Debug_vshutdown fp fmt args c"

definition Debug_vpanic :: "'f ldouble \<Rightarrow> string \<Rightarrow> 'f vararg list \<Rightarrow> console \<Rightarrow> fault + console" where
  "Debug_vpanic fp fmt ap c = bindE (Debug_printf fp (cz ''[PANIC] '') [] c) (Debug_vshutdown fp fmt ap)"

definition Debug_panic :: "'f ldouble \<Rightarrow> string \<Rightarrow> 'f vararg list \<Rightarrow> console \<Rightarrow> fault + console" where
  "Debug_panic fp fmt args c = Debug_vpanic fp fmt args c"

definition Debug_vdebug :: "'f ldouble \<Rightarrow> channel \<Rightarrow> string \<Rightarrow> 'f vararg list \<Rightarrow> console \<Rightarrow> fault + console" where
  "Debug_vdebug fp this fmt ap c =
     (if debugAll c \<or> flag this
      then bindE (Debug_printf fp (cz ''[%s] '') [case what this of (a, s) \<Rightarrow> Pointer a s] c) (\<lambda>c.
           bindE (Debug_vprintf fp fmt ap c) (\<lambda>c.
           Debug_printf fp (cz nl) [] c))
      else Inr c)"

definition Debug_debug :: "'f ldouble \<Rightarrow> channel \<Rightarrow> string \<Rightarrow> 'f vararg list \<Rightarrow> console \<Rightarrow> fault + console" where
  "Debug_debug fp this fmt args c =
     (if debugAll c \<or> flag this then Debug_vdebug fp this fmt args c else Inr c)"

definition Debug_missing :: "'f ldouble \<Rightarrow> u32 \<times> string \<Rightarrow> u32 \<Rightarrow> console \<Rightarrow> fault + console" where
  "Debug_missing fp file line c =
     Debug_panic fp (cz ''Missing code at %s:%d'') [case file of (a, s) \<Rightarrow> Pointer a s, Word line] c"

section \<open>Plain text and directives\<close>

definition plain :: "string \<Rightarrow> bool" where
  "plain msg \<longleftrightarrow> CHR ''%'' \<notin> set msg \<and> CHR 0x00 \<notin> set msg"

lemma currlen_emit:
  "0 \<le> currlen st \<Longrightarrow> currlen st + int (length xs) < 2 ^ 31 \<Longrightarrow> currlen (emit xs st) = currlen st + int (length xs)"
proof (induction xs arbitrary: st)
  case (Cons x xs)
  then have "currlen (dopr_outch x st) = currlen st + 1" by (simp add: dopr_outch_def s32_id)
  then show ?case using Cons.IH [of "dopr_outch x st"] Cons.prems by simp
qed simp

lemma format_plain:
  assumes "plain msg" "0 \<le> currlen st" "currlen st + int (length msg) < maxlen" "maxlen < 2 ^ 31"
  shows "format_ref fp maxlen (msg @ cs) args st = format_ref fp maxlen cs args (emit msg st)"
  using assms
proof (induction msg arbitrary: st)
  case (Cons x xs)
  have c: "currlen (dopr_outch x st) = currlen st + 1" using Cons.prems by (simp add: dopr_outch_def s32_id)
  have "x \<noteq> CHR 0x00" "x \<noteq> CHR ''%''" "currlen st < maxlen" "plain xs" using Cons.prems by (auto simp: plain_def)
  then show ?case using Cons.IH [of "dopr_outch x st"] Cons.prems c by (simp add: format_ref.simps(2))
qed simp

lemma format_plain_end:
  assumes "plain msg" "0 \<le> currlen st" "currlen st \<le> maxlen" "maxlen < 2 ^ 31"
  shows "format_ref fp maxlen (cz msg) args st = Inr (emit (take (nat (maxlen - currlen st)) msg) st)"
  using assms
proof (induction msg arbitrary: st)
  case Nil
  then show ?case by (simp add: cz_def format_ref.simps(2))
next
  case (Cons x xs)
  show ?case
  proof (cases "currlen st < maxlen")
    case True
    then have c: "currlen (dopr_outch x st) = currlen st + 1" using Cons.prems by (simp add: dopr_outch_def s32_id)
    have "x \<noteq> CHR 0x00" "x \<noteq> CHR ''%''" "plain xs" using Cons.prems by (auto simp: plain_def)
    moreover have "nat (maxlen - currlen st) = Suc (nat (maxlen - (currlen st + 1)))" using True by simp
    ultimately show ?thesis using Cons.IH [of "dopr_outch x st"] Cons.prems c True
      by (simp add: format_ref.simps(2) cz_def)
  next
    case False
    then show ?thesis by (simp add: format_ref.simps(2) cz_def)
  qed
qed

lemma format_string:
  assumes "currlen st < maxlen" "cs \<noteq> []" "a \<noteq> 0"
  shows "format_ref fp maxlen (CHR ''%'' # CHR ''s'' # cs) (Pointer a s # args) st =
    format_ref fp maxlen cs args (fmtstr (Some s) 0 0 maxlen st)"
  using assms
  by (simp add: format_ref.simps(2) directive_def parse_star_def parse_prec_def parse_mod_def K_isdigit_def dopr_conv_def Let_def)

lemma format_decimal:
  assumes "currlen st < maxlen" "cs \<noteq> []"
  shows "format_ref fp maxlen (CHR ''%'' # CHR ''d'' # cs) (Word w # args) st =
    format_ref fp maxlen cs args (fmtint w 10 0 (-1) 0 st)"
  using assms
  by (simp add: format_ref.simps(2) directive_def parse_star_def parse_prec_def parse_mod_def K_isdigit_def dopr_conv_def Let_def)

lemma fmtstr_whole:
  assumes "CHR 0x00 \<notin> set s" "int (length s) \<le> mx" "mx < 2 ^ 30"
  shows "fmtstr (Some s) 0 0 mx st = emit s st"
proof -
  have t: "takeWhile (\<lambda>c. c \<noteq> CHR 0x00) s = s" using assms(1) by (auto simp: takeWhile_eq_all_conv)
  have l: "strlen_loop s = int (length s)" using strlen_loop_length [of s] assms(2,3) unfolding t by simp
  have p: "s32 (- int (length s)) = - int (length s)" "s32 0 = 0" using assms(2,3) by (simp_all add: s32_id)
  show ?thesis
    using assms(2) by (auto simp: fmtstr_def Let_def l p pad_left_emit pad_right_emit copy_value_emit t split: prod.splits)
qed

text \<open>The decimal number: a minus sign if it is negative, and its digits.\<close>

definition decimal :: "u32 \<Rightarrow> string" where
  "decimal w = int_sign w 0 @ int_digits 10 w 0"

lemma fmtint_decimal: "fmtint w 10 0 (-1) 0 st = emit (decimal w) st"
proof -
  have "int_zeros 0 (-1) 0 sg ds = 0" "int_spaces 0 (-1) 0 sg ds = 0" for sg ds
    by (simp_all add: int_zeros_def int_spaces_def Let_def)
  then show ?thesis by (simp add: fmtint_emit Let_def decimal_def)
qed

lemma length_decimal: "length (decimal w) \<le> 12"
  using length_int_digits(1) [of 10 w 0] by (simp add: decimal_def int_sign_def)

section \<open>What is printed\<close>

lemma printf_plain:
  assumes "plain msg" "con_sink c = Some st"
  obtains st' where "Debug_printf fp (cz msg) args c = Inr (c\<lparr>con_sink := Some st'\<rparr>)"
    "out st' = out st @ take 1000 msg" "stores st' = stores st"
proof -
  have "format_ref fp 1000 (cz msg) args (st\<lparr>currlen := 0\<rparr>) = Inr (emit (take 1000 msg) (st\<lparr>currlen := 0\<rparr>))"
    using format_plain_end [OF assms(1), of "st\<lparr>currlen := 0\<rparr>" 1000 fp args] by simp
  then show thesis
    using that [of "emit (take 1000 msg) (st\<lparr>currlen := 0\<rparr>)"] assms(2)
    by (simp add: Debug_printf_def Debug_vprintf_def vsnprintf_ref)
qed

text \<open>The sink starts a message at length 0.\<close>

lemma printf_format:
  assumes "format_ref fp 1000 fmt args (st\<lparr>currlen := 0\<rparr>) = Inr (emit s (st\<lparr>currlen := 0\<rparr>))" "con_sink c = Some st"
  obtains st' where "Debug_vprintf fp fmt args c = Inr (c\<lparr>con_sink := Some st'\<rparr>)"
    "out st' = out st @ s" "stores st' = stores st"
  using assms that [of "emit s (st\<lparr>currlen := 0\<rparr>)"] by (simp add: Debug_vprintf_def vsnprintf_ref)

lemma shutdown_format:
  assumes "format_ref fp 1000 fmt args (st\<lparr>currlen := 0\<rparr>) = Inr (emit s (st\<lparr>currlen := 0\<rparr>))" "con_sink c = Some st"
  obtains st' where "Debug_vshutdown fp fmt args c = Inr (c\<lparr>con_sink := Some st', con_ints := False, halted := True\<rparr>)"
    "out st' = out st @ s @ nl @ ''*** System Shutdown ***'' @ nl" "stores st' = stores st"
proof -
  from assms(2) have "con_sink (c\<lparr>con_ints := False\<rparr>) = Some st" by simp
  from printf_format [OF assms(1) this] obtain st1 where 1: "Debug_vprintf fp fmt args (c\<lparr>con_ints := False\<rparr>) =
      Inr (c\<lparr>con_ints := False, con_sink := Some st1\<rparr>)" "out st1 = out st @ s" "stores st1 = stores st" by auto
  have p: "plain (nl @ ''*** System Shutdown ***'' @ nl)" by (simp add: plain_def nl_def)
  obtain st2 where 2: "Debug_printf fp (cz (nl @ ''*** System Shutdown ***'' @ nl)) [] (c\<lparr>con_ints := False, con_sink := Some st1\<rparr>)
      = Inr (c\<lparr>con_ints := False, con_sink := Some st2\<rparr>)"
      "out st2 = out st1 @ take 1000 (nl @ ''*** System Shutdown ***'' @ nl)" "stores st2 = stores st1"
    by (rule printf_plain [OF p, of "c\<lparr>con_ints := False, con_sink := Some st1\<rparr>" st1 fp "[]"]) auto
  show thesis by (rule that [of st2]) (use 1 2 in \<open>simp_all add: Debug_vshutdown_def nl_def\<close>)
qed

lemma panic_format:
  assumes "\<And>st. format_ref fp 1000 fmt args (st\<lparr>currlen := 0\<rparr>) = Inr (emit s (st\<lparr>currlen := 0\<rparr>))" "con_sink c = Some st"
  shows "\<exists>st'. Debug_panic fp fmt args c = Inr (c\<lparr>con_sink := Some st', con_ints := False, halted := True\<rparr>)
    \<and> out st' = out st @ ''[PANIC] '' @ s @ nl @ ''*** System Shutdown ***'' @ nl \<and> stores st' = stores st"
proof -
  have p: "plain ''[PANIC] ''" by (simp add: plain_def)
  from printf_plain [OF p assms(2), of fp "[]"] obtain st1 where 1: "Debug_printf fp (cz ''[PANIC] '') [] c =
      Inr (c\<lparr>con_sink := Some st1\<rparr>)" "out st1 = out st @ ''[PANIC] ''" "stores st1 = stores st" by auto
  obtain st2 where 2: "Debug_vshutdown fp fmt args (c\<lparr>con_sink := Some st1\<rparr>) =
      Inr (c\<lparr>con_sink := Some st2, con_ints := False, halted := True\<rparr>)"
      "out st2 = out st1 @ s @ nl @ ''*** System Shutdown ***'' @ nl" "stores st2 = stores st1"
    by (rule shutdown_format [OF assms(1), of "c\<lparr>con_sink := Some st1\<rparr>" st1]) auto
  show ?thesis by (rule exI [of _ st2]) (use 1 2 in \<open>simp add: Debug_panic_def Debug_vpanic_def\<close>)
qed

lemma plain_format:
  "plain msg \<Longrightarrow> format_ref fp 1000 (cz msg) args (st\<lparr>currlen := 0\<rparr>) = Inr (emit (take 1000 msg) (st\<lparr>currlen := 0\<rparr>))"
  using format_plain_end [of msg "st\<lparr>currlen := 0\<rparr>" 1000 fp args] by simp

lemma missing_format:
  assumes "CHR 0x00 \<notin> set fname" "length fname \<le> 900" "a \<noteq> 0"
  shows "format_ref fp 1000 (cz ''Missing code at %s:%d'') [Pointer a fname, Word line] (st\<lparr>currlen := 0\<rparr>) =
    Inr (emit (''Missing code at '' @ fname @ '':'' @ decimal line) (st\<lparr>currlen := 0\<rparr>))"
proof -
  let ?st = "st\<lparr>currlen := 0\<rparr>"
  let ?m = "''Missing code at ''"
  have f: "cz ''Missing code at %s:%d'' = ?m @ CHR ''%'' # CHR ''s'' # '':'' @ CHR ''%'' # CHR ''d'' # [CHR 0x00]"
    by (simp add: cz_def)
  have p: "plain ?m" "plain '':''" by (simp_all add: plain_def)
  have c1: "currlen (emit ?m ?st) = 16" using currlen_emit [of ?st ?m] by simp
  have c2: "currlen (emit fname (emit ?m ?st)) = 16 + int (length fname)"
    using currlen_emit [of "emit ?m ?st" fname] assms(2) c1 by simp
  have c3: "currlen (emit '':'' (emit fname (emit ?m ?st))) = 17 + int (length fname)"
    using currlen_emit [of "emit fname (emit ?m ?st)" "'':''"] assms(2) c2 by simp
  have c4: "currlen (emit (decimal line) (emit '':'' (emit fname (emit ?m ?st)))) < 1000"
    using currlen_emit [of "emit '':'' (emit fname (emit ?m ?st))" "decimal line"] assms(2) c3 length_decimal [of line] by simp
  have "format_ref fp 1000 (cz ''Missing code at %s:%d'') [Pointer a fname, Word line] ?st =
      format_ref fp 1000 (CHR ''%'' # CHR ''s'' # '':'' @ CHR ''%'' # CHR ''d'' # [CHR 0x00]) [Pointer a fname, Word line] (emit ?m ?st)"
    unfolding f by (rule format_plain [OF p(1)]) simp_all
  also have "\<dots> = format_ref fp 1000 ('':'' @ CHR ''%'' # CHR ''d'' # [CHR 0x00]) [Word line] (emit fname (emit ?m ?st))"
    using c1 assms(2,3) fmtstr_whole [OF assms(1), of 1000] by (simp add: format_string)
  also have "\<dots> = format_ref fp 1000 (CHR ''%'' # CHR ''d'' # [CHR 0x00]) [Word line] (emit '':'' (emit fname (emit ?m ?st)))"
    by (rule format_plain [OF p(2)]) (use c2 assms(2) in simp_all)
  also have "\<dots> = format_ref fp 1000 [CHR 0x00] [] (emit (decimal line) (emit '':'' (emit fname (emit ?m ?st))))"
    using c3 assms(2) by (simp add: format_decimal fmtint_decimal)
  also have "\<dots> = Inr (emit (decimal line) (emit '':'' (emit fname (emit ?m ?st))))" by (simp add: format_ref.simps(2))
  finally show ?thesis by simp
qed


section \<open>Properties\<close>

lemma put_waits:
  "u8250_put c lsr = (case dropWhile (\<lambda>s. s AND 0x20 = 0) lsr of [] \<Rightarrow> Inl Diverges | s # rest \<Rightarrow> Inr (rest, c))"
  by (induction c lsr rule: u8250_put.induct) simp_all

lemma debug_prints:
  assumes "con_sink c = Some st" "plain msg" "CHR 0x00 \<notin> set nm" "length nm \<le> 900" "what this = (a, nm)" "a \<noteq> 0"
    and "debugAll c \<or> flag this"
  shows "\<exists>st'. Debug_debug fp this (cz msg) args c = Inr (c\<lparr>con_sink := Some st'\<rparr>)
    \<and> out st' = out st @ ''['' @ nm @ ''] '' @ take 1000 msg @ nl \<and> stores st' = stores st"
proof -
  let ?st = "st\<lparr>currlen := 0\<rparr>"
  have f: "cz ''[%s] '' = ''['' @ CHR ''%'' # CHR ''s'' # cz ''] ''" by (simp add: cz_def)
  have p: "plain ''[''" "plain ''] ''" "plain nl" by (simp_all add: plain_def nl_def)
  have c1: "currlen (emit ''['' ?st) = 1" using currlen_emit [of ?st "''[''"] by simp
  have c2: "currlen (emit nm (emit ''['' ?st)) = 1 + int (length nm)"
    using currlen_emit [of "emit ''['' ?st" nm] assms(4) c1 by simp
  have "format_ref fp 1000 (cz ''[%s] '') [Pointer a nm] ?st =
      format_ref fp 1000 (CHR ''%'' # CHR ''s'' # cz ''] '') [Pointer a nm] (emit ''['' ?st)"
    unfolding f by (rule format_plain [OF p(1)]) simp_all
  also have "\<dots> = format_ref fp 1000 (cz ''] '') [] (emit nm (emit ''['' ?st))"
    using c1 assms(4,6) fmtstr_whole [OF assms(3), of 1000] by (simp add: format_string cz_def)
  also have "\<dots> = Inr (emit ''] '' (emit nm (emit ''['' ?st)))"
  proof -
    have "take (nat (1000 - currlen (emit nm (emit ''['' ?st)))) ''] '' = ''] ''"
      unfolding c2 using assms(4) by simp
    then show ?thesis using format_plain_end [OF p(2), of "emit nm (emit ''['' ?st)" 1000 fp "[]"] c2 assms(4) by simp
  qed
  finally have "format_ref fp 1000 (cz ''[%s] '') [Pointer a nm] ?st = Inr (emit (''['' @ nm @ ''] '') ?st)" by simp
  from printf_format [OF this assms(1)] obtain st1 where 1: "Debug_vprintf fp (cz ''[%s] '') [Pointer a nm] c =
      Inr (c\<lparr>con_sink := Some st1\<rparr>)" "out st1 = out st @ ''['' @ nm @ ''] ''" "stores st1 = stores st" by blast
  obtain st2 where 2: "Debug_printf fp (cz msg) args (c\<lparr>con_sink := Some st1\<rparr>) = Inr (c\<lparr>con_sink := Some st2\<rparr>)"
      "out st2 = out st1 @ take 1000 msg" "stores st2 = stores st1"
    by (rule printf_plain [OF assms(2), of "c\<lparr>con_sink := Some st1\<rparr>" st1 fp args]) auto
  obtain st3 where 3: "Debug_printf fp (cz nl) [] (c\<lparr>con_sink := Some st2\<rparr>) = Inr (c\<lparr>con_sink := Some st3\<rparr>)"
      "out st3 = out st2 @ take 1000 nl" "stores st3 = stores st2"
    by (rule printf_plain [OF p(3), of "c\<lparr>con_sink := Some st2\<rparr>" st2 fp "[]"]) auto
  show ?thesis
    by (rule exI [of _ st3]) (use 1 2 3 assms(5,7) in \<open>simp add: Debug_debug_def Debug_vdebug_def Debug_printf_def nl_def\<close>)
qed

text \<open>
  What a panic leaves on the console: the mark, the message, at most 1000 characters of it, and the
  line of the shutdown, and the machine halts with interrupts off. A place of missing code is
  reported as the name of the file, a colon and the line in decimal.
\<close>
theorem panic_prints:
  assumes "con_sink c = Some st" "plain msg" "CHR 0x00 \<notin> set fname" "length fname \<le> 900" "a \<noteq> 0"
  shows "(\<exists>st'. Debug_panic fp (cz msg) args c = Inr (c\<lparr>con_sink := Some st', con_ints := False, halted := True\<rparr>)
      \<and> out st' = out st @ ''[PANIC] '' @ take 1000 msg @ nl @ ''*** System Shutdown ***'' @ nl)
    \<and> (\<exists>st'. Debug_missing fp (a, fname) line c = Inr (c\<lparr>con_sink := Some st', con_ints := False, halted := True\<rparr>)
      \<and> out st' = out st @ ''[PANIC] Missing code at '' @ fname @ '':'' @ decimal line @ nl @ ''*** System Shutdown ***'' @ nl)"
proof (rule conjI)
  show "\<exists>st'. Debug_panic fp (cz msg) args c = Inr (c\<lparr>con_sink := Some st', con_ints := False, halted := True\<rparr>)
      \<and> out st' = out st @ ''[PANIC] '' @ take 1000 msg @ nl @ ''*** System Shutdown ***'' @ nl"
    using panic_format [OF plain_format [OF assms(2)] assms(1)] by auto
  show "\<exists>st'. Debug_missing fp (a, fname) line c = Inr (c\<lparr>con_sink := Some st', con_ints := False, halted := True\<rparr>)
      \<and> out st' = out st @ ''[PANIC] Missing code at '' @ fname @ '':'' @ decimal line @ nl @ ''*** System Shutdown ***'' @ nl"
    unfolding Debug_missing_def using panic_format [OF missing_format [OF assms(3-5)] assms(1)] by auto
qed

theorem panic_prints_witness:
  "\<exists>st'. Debug_missing rat_ldouble (0x1000, ''vmm.cc'') 42
       \<lparr>con_sink = Some \<lparr>out = ''> '', currlen = 7, stores = []\<rparr>, debugAll = False, con_ints = True, halted = False\<rparr> =
     Inr \<lparr>con_sink = Some st', debugAll = False, con_ints = False, halted = True\<rparr>
   \<and> out st' = ''> [PANIC] Missing code at vmm.cc:42'' @ nl @ ''*** System Shutdown ***'' @ nl"
proof -
  have d: "decimal 42 = ''42''" by code_simp
  show ?thesis
    using panic_prints [of "\<lparr>con_sink = Some \<lparr>out = ''> '', currlen = 7, stores = []\<rparr>, debugAll = False, con_ints = True, halted = False\<rparr>"
      _ "''x''" "''vmm.cc''" "0x1000" rat_ldouble "[]" 42, OF _ _ _ _ _]
    by (simp add: d plain_def)
qed

end
