(* ===== verification/Syscalls.thy ===== *)
theory Syscalls
  imports Exec_Image Resource_Table Scheduler_System Console
begin

text \<open>
  \<^verbatim>\<open>kernel/syscall.cc\<close>, with \<^verbatim>\<open>Process::execv\<close>, \<^verbatim>\<open>kernel/child.cc\<close> and \<^verbatim>\<open>kernel/init.cc\<close>: the system calls, over
  the scheduler, the resource tables, the file system, the program loader and the console.
\<close>

section \<open>The kernel\<close>

text \<open>The object behind a reference counted resource.\<close>

datatype obj = ProcObj pid | SemObj nat | FileObj fat_file | DirObj fat_dir | TableObj

text \<open>
  \<open>k_table\<close> is \<^verbatim>\<open>resources\<close> of a process and \<open>k_rid\<close> the process as a resource. \<open>k_mem\<close> is what the kernel
  finds in the address space of a process: its own memory, of which nothing is said, below
  \<^verbatim>\<open>0x80000000\<close>, and that of the user from there on. \<open>k_regs\<close> are the registers \<^verbatim>\<open>pc\<close>, \<^verbatim>\<open>esp\<close> and \<^verbatim>\<open>eax\<close>
  with which the process enters user mode, \<open>k_port\<close> what the status register of the serial port will
  answer, poll by poll: nothing yet, or a byte. Semaphore 0 is the mutex of the serial port, 1 that of
  the trace; \<open>k_nsem\<close> is the next new one.
\<close>

record 'd kern =
  k_sched :: sched
  k_rs :: rstate
  k_obj :: "rid \<Rightarrow> obj"
  k_table :: "pid \<Rightarrow> rid"
  k_rid :: "pid \<Rightarrow> rid"
  k_name :: "pid \<Rightarrow> u32 \<times> string"
  k_fs :: "'d fat439"
  k_root :: rid
  k_mem :: "pid \<Rightarrow> memory"
  k_regs :: "pid \<Rightarrow> u32 \<times> u32 \<times> u32"
  k_con :: console
  k_port :: "u8 option list"
  k_nsem :: nat

text \<open>
  What becomes of a call: the value in \<^verbatim>\<open>eax\<close> once the kernel stack of the process has unwound, the
  part of the handler that it still has to run then, or no return to the caller.
\<close>

datatype rest = JoinRest pid u32 | GetPoll
datatype outcome = Ret int | Rest rest | NoReturn

definition t_slots :: "rid \<Rightarrow> rstate \<Rightarrow> rid option list" where
  "t_slots t rs = (case res rs t of None \<Rightarrow> [] | Some r \<Rightarrow> r_ptrs r)"

definition me :: "'d kern \<Rightarrow> fault + pid" where
  "me k = (case current (k_sched k) of None \<Rightarrow> Inl NullDeref | Some p \<Rightarrow> Inr p)"

section \<open>Strings of the user\<close>

text \<open>
  Bytes up to a NUL and words up to a null pointer, from an address on. A read in the first page
  faults; a string without an end is never read to its end.
\<close>

partial_function (option) chars_at :: "memory \<Rightarrow> u32 \<Rightarrow> u8 list option" where
  "chars_at m a = (if m a = 0 then Some [] else Option.bind (chars_at m (a + 1)) (\<lambda>s. Some (m a # s)))"

partial_function (option) words_at :: "memory \<Rightarrow> u32 \<Rightarrow> u32 list option" where
  "words_at m a = (if read_word m a = 0 then Some []
     else Option.bind (words_at m (a + 4)) (\<lambda>ws. Some (read_word m a # ws)))"

definition user_string :: "memory \<Rightarrow> u32 \<Rightarrow> fault + cstring" where
  "user_string m a =
     (if a < 0x1000 then Inl NullDeref
      else case chars_at m a of None \<Rightarrow> Inl Diverges | Some s \<Rightarrow> Inr s)"

definition user_name :: "memory \<Rightarrow> u32 \<Rightarrow> fault + cstring option" where
  "user_name m a = (if a = 0 then Inr None else bindE (user_string m a) (\<lambda>s. Inr (Some s)))"

definition user_strings :: "memory \<Rightarrow> u32 \<Rightarrow> fault + cstring list" where
  "user_strings m a =
     (if a < 0x1000 then Inl NullDeref
      else case words_at m a of None \<Rightarrow> Inl Diverges
           | Some ps \<Rightarrow> loopE (\<lambda>p ss. bindE (user_string m p) (\<lambda>s. Inr (ss @ [s]))) ps [])"

section \<open>Giving up references\<close>

text \<open>
  What a destructor does outside the table when a reference to \<open>q\<close> has been given up: the process
  loses a reference and dies with the last one, a file that is gone closes its \<^verbatim>\<open>OpenFile\<close>. A
  directory has no destructor of its own.
\<close>

fun settle :: "rid list \<Rightarrow> 'd kern \<Rightarrow> fault + 'd kern" where
  "settle [] k = Inr k"
| "settle (q # qs) k =
     bindE (case k_obj k q of
              ProcObj p \<Rightarrow> bindE (unref_proc p (k_sched k)) (\<lambda>s. Inr (k\<lparr>k_sched := s\<rparr>))
            | FileObj f \<Rightarrow> if res (k_rs k) q = None
                         then bindE (file_delete f (k_fs k)) (\<lambda>fs. Inr (k\<lparr>k_fs := fs\<rparr>)) else Inr k
            | _ \<Rightarrow> Inr k) (settle qs)"

definition released :: "rid option list \<Rightarrow> rid option list \<Rightarrow> rid list" where
  "released old new = concat (map (\<lambda>(x, y). if x = y then [] else case x of None \<Rightarrow> [] | Some q \<Rightarrow> [q]) (zip old new))"

definition on_table :: "rid \<Rightarrow> (rstate \<Rightarrow> fault + ('a \<times> rstate)) \<Rightarrow> 'd kern \<Rightarrow> fault + ('a \<times> 'd kern)" where
  "on_table t f k =
     bindE (f (k_rs k)) (\<lambda>(x, rs).
     bindE (settle (released (t_slots t (k_rs k)) (t_slots t rs)) (k\<lparr>k_rs := rs\<rparr>)) (\<lambda>k. Inr (x, k)))"

section \<open>Handles\<close>

definition my_get :: "u32 \<Rightarrow> ResourceType \<Rightarrow> 'd kern \<Rightarrow> fault + rid option" where
  "my_get fd ty k = bindE (me k) (\<lambda>p. table_get (k_table k p) (sint fd) ty (k_rs k))"

definition my_open :: "rid \<Rightarrow> 'd kern \<Rightarrow> fault + (outcome \<times> 'd kern)" where
  "my_open r k =
     bindE (me k) (\<lambda>p. bindE (table_open (k_table k p) r (k_rs k)) (\<lambda>(id, rs). Inr (Ret id, k\<lparr>k_rs := rs\<rparr>)))"

definition with_handle :: "u32 \<Rightarrow> ResourceType \<Rightarrow> 'd kern \<Rightarrow> (obj \<Rightarrow> rid \<Rightarrow> fault + (outcome \<times> 'd kern)) \<Rightarrow> fault + (outcome \<times> 'd kern)" where
  "with_handle fd ty k f =
     bindE (my_get fd ty k) (\<lambda>x. case x of None \<Rightarrow> Inr (Ret ERR_INVALID_ID, k) | Some r \<Rightarrow> f (k_obj k r) r)"

text \<open>\<^verbatim>\<open>get(1,DIRECTORY)\<close>, whose result is used as an object without a check.\<close>

definition my_dir :: "'d kern \<Rightarrow> fault + (fat_dir \<times> rid)" where
  "my_dir k =
     bindE (my_get 1 DIRECTORY k) (\<lambda>x. case x of None \<Rightarrow> Inl NullDeref
       | Some r \<Rightarrow> (case k_obj k r of DirObj d \<Rightarrow> Inr (d, r) | _ \<Rightarrow> Inl BadIndex))"

definition my_mem :: "'d kern \<Rightarrow> fault + memory" where
  "my_mem k = bindE (me k) (\<lambda>p. Inr (k_mem k p))"

definition new_obj :: "ResourceType \<Rightarrow> obj \<Rightarrow> 'd kern \<Rightarrow> rid \<times> 'd kern" where
  "new_obj ty ob k = (let (r, rs) = new_res ty 0 [] (k_rs k) in (r, k\<lparr>k_rs := rs, k_obj := (k_obj k)(r := ob)\<rparr>))"


section \<open>Processes\<close>

text \<open>
  The whole of \<^verbatim>\<open>Process::exit\<close>: the exit code, the release of the resources, and the rest.
\<close>

definition proc_exit :: "u32 \<Rightarrow> 'd kern \<Rightarrow> fault + (outcome \<times> 'd kern)" where
  "proc_exit code k =
     (case current (k_sched k) of
        None \<Rightarrow> Inr (Ret (-1), k)
      | Some p \<Rightarrow>
          bindE (exit (sint code) (k_sched k)) (\<lambda>s. let k = k\<lparr>k_sched := s\<rparr> in
          bindE (on_table (k_table k p) (\<lambda>rs. bindE (closeAll (k_table k p) rs) (\<lambda>rs. Inr ((), rs))) k) (\<lambda>(_, k).
          bindE (on_table (k_table k p) (closeWorkingDir (k_table k p)) k) (\<lambda>(_, k).
          bindE (exit_rest (k_sched k)) (\<lambda>s. Inr (NoReturn, k\<lparr>k_sched := s\<rparr>))))))"

text \<open>
  The files of a forked table: where \<^verbatim>\<open>forkMe\<close> has made a new resource, it is a second file on the
  same \<^verbatim>\<open>OpenFile\<close>.
\<close>

fun fork_files :: "(rid option \<times> rid option) list \<Rightarrow> 'd kern \<Rightarrow> fault + 'd kern" where
  "fork_files [] k = Inr k"
| "fork_files ((x, y) # xs) k =
     (case (x, y) of
        (Some q, Some q') \<Rightarrow>
          (case k_obj k q of
             FileObj f \<Rightarrow> bindE (file_forkMe f (k_fs k)) (\<lambda>(f', fs).
               fork_files xs (k\<lparr>k_fs := fs, k_obj := (k_obj k)(q' := FileObj f')\<rparr>))
           | _ \<Rightarrow> fork_files xs k)
      | _ \<Rightarrow> fork_files xs k)"

text \<open>
  \<^verbatim>\<open>new Child(Process::current)\<close>: the copy of the table, the process, its memory. From
  \<^verbatim>\<open>0x80000000\<close> on \<^verbatim>\<open>AddressSpace::fork\<close> has copied the pages of the parent (\<open>fork_space\<close>), and below
  lies the memory of the kernel, which every address space maps alike.
\<close>

definition new_Child :: "pid \<Rightarrow> 'd kern \<Rightarrow> fault + ((pid \<times> rid) \<times> 'd kern)" where
  "new_Child parent k =
     bindE (table_forkMe (k_table k parent) (k_rs k)) (\<lambda>(x, rs).
     case x of None \<Rightarrow> Inl NullDeref
     | Some tp \<Rightarrow>
         bindE (fork_files (zip (t_slots (k_table k parent) (k_rs k)) (t_slots tp rs)) (k\<lparr>k_rs := rs\<rparr>)) (\<lambda>k.
         let (child, s) = new_process (k_sched k)
         in bindE (ref (Some tp) (k_rs k)) (\<lambda>(_, rs).
            let (r, rs) = new_res PROCESS 1 [Some tp] rs
            in Inr ((child, r), k\<lparr>k_sched := s, k_rs := rs, k_obj := (k_obj k)(r := ProcObj child, tp := TableObj),
                 k_table := (k_table k)(child := tp), k_rid := (k_rid k)(child := r),
                 k_name := (k_name k)(child := (0x1000, ''child'')),
                 k_mem := (k_mem k)(child := k_mem k parent)\<rparr>))))"

text \<open>\<open>pc\<close> and \<open>esp\<close> are \<^verbatim>\<open>context[8]\<close> and \<^verbatim>\<open>context[11]\<close>.\<close>

definition sys_fork :: "u32 \<Rightarrow> u32 \<Rightarrow> 'd kern \<Rightarrow> fault + (outcome \<times> 'd kern)" where
  "sys_fork pc esp k =
     bindE (me k) (\<lambda>p.
     bindE (new_Child p k) (\<lambda>((child, r), k).
     let k = k\<lparr>k_regs := (k_regs k)(child := (pc, esp, 0))\<rparr>
     in bindE (table_open (k_table k p) r (k_rs k)) (\<lambda>(id, rs).
        bindE (if id = ERR_NO_ID then Inr (k_sched k) else ref_proc child (k_sched k)) (\<lambda>s.
        bindE (start child s) (\<lambda>s.
        Inr (Ret id, k\<lparr>k_rs := rs, k_sched := s\<rparr>))))))"

text \<open>\<^verbatim>\<open>Child::run\<close> enters user mode with \<^verbatim>\<open>eax\<close> 0.\<close>

definition child_run :: "'d kern \<Rightarrow> fault + (u32 \<times> u32 \<times> u32)" where
  "child_run k = bindE (me k) (\<lambda>p. case k_regs k p of (pc, esp, _) \<Rightarrow> Inr (pc, esp, 0))"

text \<open>
  \<^verbatim>\<open>join\<close>: the process waits, and when it runs again it takes the exit code and closes the handle.
\<close>

definition sys_join :: "u32 \<Rightarrow> 'd kern \<Rightarrow> fault + (outcome \<times> 'd kern)" where
  "sys_join a0 k =
     with_handle a0 PROCESS k (\<lambda>ob r. case ob of
         ProcObj p \<Rightarrow> bindE (event_wait (Done p) (k_sched k)) (\<lambda>s. Inr (Rest (JoinRest p a0), k\<lparr>k_sched := s\<rparr>))
       | _ \<Rightarrow> Inl BadIndex)"

definition sys_close :: "u32 \<Rightarrow> 'd kern \<Rightarrow> fault + (outcome \<times> 'd kern)" where
  "sys_close a0 k =
     bindE (me k) (\<lambda>p. bindE (on_table (k_table k p) (table_close (k_table k p) (sint a0)) k) (\<lambda>(c, k). Inr (Ret c, k)))"

definition join_rest :: "pid \<Rightarrow> u32 \<Rightarrow> 'd kern \<Rightarrow> fault + (outcome \<times> 'd kern)" where
  "join_rest p a0 k =
     bindE (get_proc p (k_sched k)) (\<lambda>P. bindE (sys_close a0 k) (\<lambda>(_, k). Inr (Ret (exitCode P), k)))"

section \<open>Semaphores\<close>

definition sys_semaphore :: "u32 \<Rightarrow> 'd kern \<Rightarrow> fault + (outcome \<times> 'd kern)" where
  "sys_semaphore a0 k =
     (let n = k_nsem k;
          (r, k) = new_obj SEMAPHORE (SemObj n) k;
          s = k_sched k
      in my_open r (k\<lparr>k_nsem := Suc n, k_sched := s\<lparr>sems := (sems s)(Sem n := \<lparr>count = sint a0, waiting = []\<rparr>)\<rparr>\<rparr>))"

definition sys_down :: "u32 \<Rightarrow> 'd kern \<Rightarrow> fault + (outcome \<times> 'd kern)" where
  "sys_down a0 k =
     with_handle a0 SEMAPHORE k (\<lambda>ob r. case ob of
         SemObj n \<Rightarrow> bindE (down (Sem n) (k_sched k)) (\<lambda>s. Inr (Ret 0, k\<lparr>k_sched := s\<rparr>))
       | _ \<Rightarrow> Inl BadIndex)"

definition sys_up :: "u32 \<Rightarrow> 'd kern \<Rightarrow> fault + (outcome \<times> 'd kern)" where
  "sys_up a0 k =
     with_handle a0 SEMAPHORE k (\<lambda>ob r. case ob of
         SemObj n \<Rightarrow> bindE (up (Sem n) (k_sched k)) (\<lambda>s. Inr (Ret 0, k\<lparr>k_sched := s\<rparr>))
       | _ \<Rightarrow> Inl BadIndex)"

section \<open>Files\<close>

definition root_dir :: "'d kern \<Rightarrow> fault + fat_dir" where
  "root_dir k = (case k_obj k (k_root k) of DirObj d \<Rightarrow> Inr d | _ \<Rightarrow> Inl BadIndex)"

text \<open>\<open>junk n\<close> is what the stack held where a buffer of \<open>n\<close> bytes lies.\<close>

definition sys_open :: "'d driver \<Rightarrow> (nat \<Rightarrow> u8 list) \<Rightarrow> u32 \<Rightarrow> 'd kern \<Rightarrow> fault + (outcome \<times> 'd kern)" where
  "sys_open v junk a0 k =
     bindE (my_mem k) (\<lambda>m.
     bindE (user_name m a0) (\<lambda>name.
     bindE (root_dir k) (\<lambda>root.
     bindE (lookupFile v (junk 16) name root (k_fs k)) (\<lambda>(f, fs).
     let k = k\<lparr>k_fs := fs\<rparr> in
     case f of
       Some f \<Rightarrow> (let (r, k) = new_obj FILE (FileObj f) k in my_open r k)
     | None \<Rightarrow>
         bindE (my_dir k) (\<lambda>(dir, _).
         bindE (lookupFile v (junk 16) name dir (k_fs k)) (\<lambda>(f, fs).
         let k = k\<lparr>k_fs := fs\<rparr> in
         case f of None \<Rightarrow> Inr (Ret ERR_NOT_FOUND, k)
         | Some f \<Rightarrow> (let (r, k) = new_obj FILE (FileObj f) k in my_open r k)))))))"

definition with_file :: "u32 \<Rightarrow> 'd kern \<Rightarrow> (fat_file \<Rightarrow> rid \<Rightarrow> fault + (outcome \<times> 'd kern)) \<Rightarrow> fault + (outcome \<times> 'd kern)" where
  "with_file fd k g = with_handle fd FILE k (\<lambda>ob r. case ob of FileObj f \<Rightarrow> g f r | _ \<Rightarrow> Inl BadIndex)"

definition put_file :: "rid \<Rightarrow> fat_file \<Rightarrow> 'd kern \<Rightarrow> 'd kern" where
  "put_file r f k = k\<lparr>k_obj := (k_obj k)(r := FileObj f)\<rparr>"

definition sys_getlen :: "u32 \<Rightarrow> 'd kern \<Rightarrow> fault + (outcome \<times> 'd kern)" where
  "sys_getlen a0 k =
     with_file a0 k (\<lambda>f r. bindE (file_getLength (k_fs k) f) (\<lambda>n. Inr (Ret (sint n), k)))"

text \<open>The three arguments of \<^verbatim>\<open>read\<close> are in the memory of the user.\<close>

definition sys_read :: "'d driver \<Rightarrow> u32 \<Rightarrow> 'd kern \<Rightarrow> fault + (outcome \<times> 'd kern)" where
  "sys_read v a0 k =
     bindE (me k) (\<lambda>p.
     let m = k_mem k p in
     if a0 < 0x1000 then Inl NullDeref
     else with_file (read_word m a0) k (\<lambda>f r.
       let buf = read_word m (a0 + 4);
           len = read_word m (a0 + 8)
       in bindE (file_read v (k_fs k) len f) (\<lambda>(cnt, xs, f).
          bindE (user_store buf xs m) (\<lambda>m.
          Inr (Ret cnt, (put_file r f k)\<lparr>k_mem := (k_mem k)(p := m)\<rparr>)))))"

definition sys_seek :: "u32 \<Rightarrow> u32 \<Rightarrow> 'd kern \<Rightarrow> fault + (outcome \<times> 'd kern)" where
  "sys_seek a0 a1 k = with_file a0 k (\<lambda>f r. Inr (Ret 0, put_file r (file_seek a1 f) k))"


section \<open>Running a program\<close>

text \<open>
  \<^verbatim>\<open>Process::execv\<close>. The name is a pointer: \<open>name m\<close> is what it points to when the memory is \<open>m\<close>. It
  is read once before \<^verbatim>\<open>addressSpace.exec()\<close> has unmapped the user part, and again after.
\<close>

definition proc_execv :: "'d driver \<Rightarrow> (nat \<Rightarrow> u8 list) \<Rightarrow> (memory \<Rightarrow> fault + cstring option) \<Rightarrow> cstring list \<Rightarrow> nat
    \<Rightarrow> 'd kern \<Rightarrow> fault + (outcome \<times> 'd kern)" where
  "proc_execv v junk name args argc k =
     bindE (me k) (\<lambda>p.
     bindE (name (k_mem k p)) (\<lambda>fileName.
     bindE (root_dir k) (\<lambda>root.
     bindE (lookupFile v (junk 16) fileName root (k_fs k)) (\<lambda>(prog, fs).
     let k = k\<lparr>k_fs := fs\<rparr> in
     case prog of
       None \<Rightarrow> Inr (Ret ERR_NOT_FOUND, k)
     | Some prog \<Rightarrow>
         (let m = (\<lambda>a. if a < 0x80000000 then k_mem k p a else 0) in
          bindE (name m) (\<lambda>fileName.
          bindE (exec_args (case fileName of None \<Rightarrow> [] | Some s \<Rightarrow> s) args argc m) (\<lambda>m.
          bindE (on_table (k_table k p) (\<lambda>rs. bindE (closeAll (k_table k p) rs) (\<lambda>rs. Inr ((), rs))) k) (\<lambda>(_, k).
          bindE (load_elf v (k_fs k) (junk 52) (junk 32) prog m) (\<lambda>(entry, prog, m).
          Inr (NoReturn, k\<lparr>k_mem := (k_mem k)(p := m), k_regs := (k_regs k)(p := (entry, userESP, 0))\<rparr>))))))))))"

text \<open>
  The call: the argument strings are copied into the kernel until \<^verbatim>\<open>strdup\<close> returns null. After an
  execv that returns the copies are freed.
\<close>

definition sys_execv :: "'d driver \<Rightarrow> (nat \<Rightarrow> u8 list) \<Rightarrow> u32 \<Rightarrow> u32 \<Rightarrow> 'd kern \<Rightarrow> fault + (outcome \<times> 'd kern)" where
  "sys_execv v junk a0 a1 k =
     bindE (my_mem k) (\<lambda>m.
     bindE (if a1 = 0 then Inr [] else user_strings m a1) (\<lambda>args.
     proc_execv v junk (\<lambda>m. user_name m a0) args (length args) k))"

section \<open>Terminal\<close>

text \<open>\<^verbatim>\<open>U8250::get\<close>: under the mutex, the port is polled and the processor yielded until there is a byte.\<close>

definition get_poll :: "'d kern \<Rightarrow> fault + (outcome \<times> 'd kern)" where
  "get_poll k =
     (case k_port k of
        Some c # port \<Rightarrow>
          bindE (mutex_unlock (Sem 0) (k_sched k)) (\<lambda>s. Inr (Ret (sint c), k\<lparr>k_sched := s, k_port := port\<rparr>))
      | port \<Rightarrow>
          bindE (yield None (k_sched k)) (\<lambda>s. Inr (Rest GetPoll, k\<lparr>k_sched := s, k_port := tl port\<rparr>)))"

definition sys_getchar :: "'d kern \<Rightarrow> fault + (outcome \<times> 'd kern)" where
  "sys_getchar k =
     bindE (mutex_lock (Sem 0) (k_sched k)) (\<lambda>s.
       if current s = current (k_sched k) then get_poll (k\<lparr>k_sched := s\<rparr>)
       else Inr (Rest GetPoll, k\<lparr>k_sched := s\<rparr>))"

definition printing :: "(console \<Rightarrow> fault + console) \<Rightarrow> 'd kern \<Rightarrow> fault + 'd kern" where
  "printing f k = bindE (f (k_con k)) (\<lambda>c. Inr (k\<lparr>k_con := c\<rparr>))"

definition sys_putchar :: "'f ldouble \<Rightarrow> u32 \<Rightarrow> 'd kern \<Rightarrow> fault + (outcome \<times> 'd kern)" where
  "sys_putchar fp a0 k = bindE (printing (Debug_printf fp (cz ''%c'') [Word a0]) k) (\<lambda>k. Inr (Ret 0, k))"

text \<open>
  \<^verbatim>\<open>Process::vtrace\<close>: the message framed by name and number of the process, under a mutex. A mutex
  that is taken is not waited for here.
\<close>

definition vtrace :: "'f ldouble \<Rightarrow> string \<Rightarrow> 'f vararg list \<Rightarrow> 'd kern \<Rightarrow> fault + 'd kern" where
  "vtrace fp msg ap k =
     (let this = current (k_sched k) in
      bindE (if this = None then Inr k
             else if count (sems (k_sched k) (Sem 1)) = 0 then Inl Diverges
             else bindE (down (Sem 1) (k_sched k)) (\<lambda>s. Inr (k\<lparr>k_sched := s\<rparr>))) (\<lambda>k.
      bindE (printing (Debug_printf fp (cz ''['') []) k) (\<lambda>k.
      bindE (case this of
               None \<Rightarrow> Inr k
             | Some p \<Rightarrow>
                 bindE (case k_name k p of (a, nm) \<Rightarrow>
                          if a \<noteq> 0 then printing (Debug_printf fp (cz ''%s'') [Pointer a nm]) k else Inr k)
                   (printing (Debug_printf fp (cz ''#%d'') [Word (of_nat p)]))) (\<lambda>k.
      bindE (printing (Debug_printf fp (cz ''] '') []) k) (\<lambda>k.
      bindE (printing (Debug_vprintf fp msg ap) k) (\<lambda>k.
      bindE (printing (Debug_printf fp (cz nl) []) k) (\<lambda>k.
      if this = None then Inr k
      else bindE (up (Sem 1) (k_sched k)) (\<lambda>s. Inr (k\<lparr>k_sched := s\<rparr>)))))))))"

definition trace :: "'f ldouble \<Rightarrow> string \<Rightarrow> 'f vararg list \<Rightarrow> 'd kern \<Rightarrow> fault + 'd kern" where
  "trace fp msg args k = vtrace fp msg args k"

section \<open>Directories\<close>

definition name_string :: "u8 list \<Rightarrow> string" where
  "name_string s = map (\<lambda>b. char_of (unat b)) s"

definition sys_ls :: "'f ldouble \<Rightarrow> 'd driver \<Rightarrow> (nat \<Rightarrow> u8 list) \<Rightarrow> 'd kern \<Rightarrow> fault + (outcome \<times> 'd kern)" where
  "sys_ls fp v junk k =
     bindE (my_dir k) (\<lambda>(dir, _).
     bindE (listFiles v (k_fs k) dir (junk 16)) (\<lambda>names.
     bindE (loopE (\<lambda>nm. printing (Debug_printf fp (cz (''%s'' @ nl)) [Pointer 0x1000 (name_string nm)])) names k) (\<lambda>k.
     Inr (Ret 0, k))))"

text \<open>
  \<^verbatim>\<open>mkdir\<close>: with a path, in a directory object of its own, which is never freed.
\<close>

definition sys_mkdir :: "'d driver \<Rightarrow> (nat \<Rightarrow> u8 list) \<Rightarrow> u32 \<Rightarrow> u32 \<Rightarrow> 'd kern \<Rightarrow> fault + (outcome \<times> 'd kern)" where
  "sys_mkdir v junk a0 a1 k =
     bindE (my_mem k) (\<lambda>m.
     if a1 < 0x1000 then Inl NullDeref
     else bindE (my_dir k) (\<lambda>(dir, r).
       if read_word m a1 \<noteq> 0
       then bindE (user_strings m a1) (\<lambda>path.
            bindE (lookupDirectory_path v (junk 16) (Some path) dir (k_fs k)) (\<lambda>(d, fs).
            case d of None \<Rightarrow> Inr (Ret ERR_NOT_FOUND, k\<lparr>k_fs := fs\<rparr>)
            | Some d \<Rightarrow>
                bindE (user_string m a0) (\<lambda>name.
                bindE (dir_mkdir v (junk 16) name d fs) (\<lambda>(c, _, fs). Inr (Ret c, k\<lparr>k_fs := fs\<rparr>)))))
       else bindE (user_string m a0) (\<lambda>name.
            bindE (dir_mkdir v (junk 16) name dir (k_fs k)) (\<lambda>(c, dir, fs).
            Inr (Ret c, k\<lparr>k_fs := fs, k_obj := (k_obj k)(r := DirObj dir)\<rparr>)))))"

definition sys_cd :: "'d driver \<Rightarrow> (nat \<Rightarrow> u8 list) \<Rightarrow> u32 \<Rightarrow> 'd kern \<Rightarrow> fault + (outcome \<times> 'd kern)" where
  "sys_cd v junk a0 k =
     (if a0 = 0 then Inr (Ret 0, k)
      else bindE (me k) (\<lambda>p.
           bindE (my_dir k) (\<lambda>(dir, _).
           bindE (user_strings (k_mem k p) a0) (\<lambda>path.
           bindE (lookupDirectory_path v (junk 16) (Some path) dir (k_fs k)) (\<lambda>(d, fs).
           let k = k\<lparr>k_fs := fs\<rparr> in
           case d of None \<Rightarrow> Inr (Ret ERR_NOT_FOUND, k)
           | Some d \<Rightarrow>
               (let (r, k) = new_obj DIRECTORY (DirObj d) k
                in bindE (on_table (k_table k p) (addWorkingDir (k_table k p) r) k) (\<lambda>(_, k). Inr (Ret 0, k))))))))"

definition sys_rm :: "'d driver \<Rightarrow> (nat \<Rightarrow> u8 list) \<Rightarrow> u32 \<Rightarrow> 'd kern \<Rightarrow> fault + (outcome \<times> 'd kern)" where
  "sys_rm v junk a0 k =
     (if a0 = 0 then Inr (Ret ERR_NO_ID, k)
      else bindE (my_mem k) (\<lambda>m.
           bindE (my_dir k) (\<lambda>(dir, r).
           bindE (user_string m a0) (\<lambda>name.
           bindE (dir_remove v (junk 16) name dir (k_fs k)) (\<lambda>(c, dir, fs).
           Inr (Ret c, k\<lparr>k_fs := fs, k_obj := (k_obj k)(r := DirObj dir)\<rparr>))))))"

section \<open>The handler\<close>

definition sys_shutdown :: "'f ldouble \<Rightarrow> 'd kern \<Rightarrow> fault + (outcome \<times> 'd kern)" where
  "sys_shutdown fp k = bindE (printing (Debug_shutdown fp (cz []) []) k) (\<lambda>k. Inr (NoReturn, k))"

definition syscallHandler :: "'f ldouble \<Rightarrow> 'd driver \<Rightarrow> (nat \<Rightarrow> u8 list) \<Rightarrow> u32 \<times> u32 \<Rightarrow> u32 \<Rightarrow> u32 \<Rightarrow> u32 \<Rightarrow> 'd kern
    \<Rightarrow> fault + (outcome \<times> 'd kern)" where
  "syscallHandler fp v junk ctx num a0 a1 k =
     (if num = 0 then proc_exit a0 k
      else if num = 1 then sys_putchar fp a0 k
      else if num = 2 then sys_fork (fst ctx) (snd ctx) k
      else if num = 3 then sys_semaphore a0 k
      else if num = 4 then sys_down a0 k
      else if num = 5 then sys_up a0 k
      else if num = 6 then sys_join a0 k
      else if num = 7 then sys_shutdown fp k
      else if num = 8 then sys_open v junk a0 k
      else if num = 9 then sys_getlen a0 k
      else if num = 10 then sys_read v a0 k
      else if num = 11 then sys_seek a0 a1 k
      else if num = 12 then sys_close a0 k
      else if num = 13 then sys_execv v junk a0 a1 k
      else if num = 14 then sys_getchar k
      else if num = 15 then sys_ls fp v junk k
      else if num = 16 then sys_mkdir v junk a0 a1 k
      else if num = 17 then sys_cd v junk a0 k
      else if num = 18 then sys_rm v junk a0 k
      else bindE (trace fp (cz ''syscall(%d,%d,%d)'') [Word num, Word a0, Word a1] k) (\<lambda>k. Inr (Ret (-1), k)))"

fun syscall_rest :: "rest \<Rightarrow> 'd kern \<Rightarrow> fault + (outcome \<times> 'd kern)" where
  "syscall_rest (JoinRest p a0) k = join_rest p a0 k"
| "syscall_rest GetPoll k = get_poll k"

text \<open>\<^verbatim>\<open>Init::run\<close>. The name lies in the kernel, so \<^verbatim>\<open>exec\<close> does not unmap it.\<close>

definition shell_name :: cstring where "shell_name = [0x73, 0x68, 0x65, 0x6c, 0x6c]"

definition init_run :: "'f ldouble \<Rightarrow> 'd driver \<Rightarrow> (nat \<Rightarrow> u8 list) \<Rightarrow> 'd kern \<Rightarrow> fault + (outcome \<times> 'd kern)" where
  "init_run fp v junk k =
     bindE (me k) (\<lambda>p.
     bindE (on_table (k_table k p) (addWorkingDir (k_table k p) (k_root k)) k) (\<lambda>(_, k).
     bindE (ref (Some (k_root k)) (k_rs k)) (\<lambda>(_, rs).
     bindE (proc_execv v junk (\<lambda>_. Inr (Some shell_name)) [shell_name] 1 (k\<lparr>k_rs := rs\<rparr>)) (\<lambda>(o1, k).
     case o1 of NoReturn \<Rightarrow> Inr (NoReturn, k)
     | _ \<Rightarrow> bindE (printing (Debug_shutdown fp (cz ''What?'') []) k) (\<lambda>k. Inr (NoReturn, k))))))"


section \<open>Handles\<close>

lemma my_get_eq:
  assumes "current (k_sched k) = Some p" "res (k_rs k) (k_table k p) = Some T"
  shows "my_get fd ty k =
    (if 0 \<le> sint fd \<and> sint fd < int (length (r_ptrs T))
     then (case r_ptrs T ! nat (sint fd) of None \<Rightarrow> Inl NullDeref
           | Some q \<Rightarrow> (case res (k_rs k) q of None \<Rightarrow> Inl BadIndex
                        | Some R \<Rightarrow> Inr (if r_type R = ty then Some q else None)))
     else Inr None)"
  using assms
  by (auto simp: my_get_def me_def table_get_def t_size_def get_res_def slot_get_def split: option.splits)

text \<open>The type of the object that a call wants behind its handle.\<close>

definition wants :: "u32 \<Rightarrow> ResourceType \<Rightarrow> bool" where
  "wants num ty \<longleftrightarrow> (num = 4 \<or> num = 5) \<and> ty = SEMAPHORE \<or> num = 6 \<and> ty = PROCESS \<or> (num = 9 \<or> num = 11) \<and> ty = FILE"

lemma handler_wants:
  assumes "wants num ty" "my_get a0 ty k = x" "x = Inl e \<or> x = Inr None"
  shows "syscallHandler fp v junk ctx num a0 a1 k = (case x of Inl e \<Rightarrow> Inl e | Inr _ \<Rightarrow> Inr (Ret ERR_INVALID_ID, k))"
  using assms
  by (auto simp: wants_def syscallHandler_def sys_down_def sys_up_def sys_join_def sys_getlen_def sys_seek_def
      with_handle_def with_file_def)

lemma closed_slot:
  assumes "current (k_sched k) = Some p" "res (k_rs k) (k_table k p) = Some T" "r_mutex T \<noteq> 0"
    and "0 \<le> sint a0" "sint a0 < int (length (r_ptrs T))" "sint a0 \<noteq> 1" "r_ptrs T ! nat (sint a0) = None"
  shows "sys_close a0 k = Inr (Ret ERR_INVALID_ID, k)"
proof -
  let ?t = "k_table k p"
  have n: "(r_ptrs T)[nat (sint a0) := None] = r_ptrs T" using assms(7) by (metis list_update_id)
  have c: "table_close ?t (sint a0) (k_rs k) = Inr (ERR_INVALID_ID, k_rs k)"
    using assms n
    by (simp add: table_close_def t_size_def get_res_def t_lock_def slot_get_def slot_set_def t_unlock_def unref_all_def
        put_res_def nat_less_iff fun_upd_idem fun_upd_def [symmetric] Let_def)
  have r: "released xs xs = []" for xs :: "rid option list" by (simp add: released_def zip_same_conv_map comp_def)
  show ?thesis using assms(1) c by (simp add: sys_close_def me_def on_table_def r)
qed


lemma released_same [simp]: "released xs xs = []"
  by (simp add: released_def zip_same_conv_map comp_def)

lemma handler_none:
  assumes "wants num ty" "my_get a0 ty k = Inr None"
  shows "syscallHandler fp v junk ctx num a0 a1 k = Inr (Ret ERR_INVALID_ID, k)"
  by (simp add: handler_wants [OF assms])

lemma handler_null:
  assumes "wants num ty" "my_get a0 ty k = Inl e"
  shows "syscallHandler fp v junk ctx num a0 a1 k = Inl e"
  by (simp add: handler_wants [OF assms])

lemma close_outside:
  assumes "current (k_sched k) = Some p" "res (k_rs k) (k_table k p) = Some T"
    and "\<not> (0 \<le> sint a0 \<and> sint a0 < int (length (r_ptrs T)))"
  shows "sys_close a0 k = Inr (Ret ERR_INVALID_ID, k)"
proof -
  have "table_close (k_table k p) (sint a0) (k_rs k) = Inr (ERR_INVALID_ID, k_rs k)"
    using assms by (auto simp: table_close_def t_size_def get_res_def)
  then show ?thesis using assms(1) by (simp add: sys_close_def me_def on_table_def)
qed

lemma close_wd:
  assumes "current (k_sched k) = Some p" "res (k_rs k) (k_table k p) = Some T" "1 < length (r_ptrs T)"
  shows "sys_close 1 k = Inr (Ret ERR_CLOSE_WD, k)"
proof -
  have "table_close (k_table k p) 1 (k_rs k) = Inr (ERR_CLOSE_WD, k_rs k)"
    using assms by (auto simp: table_close_def t_size_def get_res_def)
  then show ?thesis using assms(1) by (simp add: sys_close_def me_def on_table_def)
qed

text \<open>A small kernel for the witnesses: one process, with a working directory and a semaphore.\<close>

definition demo_rs :: rstate where
  "demo_rs = \<lparr>res = [0 \<mapsto> \<lparr>r_type = TABLE, r_count = 1, r_ptrs = [None, Some 1, Some 2, None, None], r_mutex = 1\<rparr>,
       1 \<mapsto> \<lparr>r_type = DIRECTORY, r_count = 2, r_ptrs = [], r_mutex = 1\<rparr>,
       2 \<mapsto> \<lparr>r_type = SEMAPHORE, r_count = 1, r_ptrs = [], r_mutex = 1\<rparr>], nextRid = 3\<rparr>"

definition demo_memory :: memory where
  "demo_memory = write_bytes 0x80000000 [0x61, 0x62, 0] (\<lambda>_. 0)"

definition demo_kern :: "disk_image kern" where
  "demo_kern = \<lparr>k_sched = booted (\<lambda>_. 1), k_rs = demo_rs, k_obj = (\<lambda>r. if r = 0 then TableObj else if r = 1 then DirObj small_root else SemObj 2),
     k_table = (\<lambda>_. 0), k_rid = (\<lambda>_. 9), k_name = (\<lambda>_. (0x1000, ''init'')), k_fs = small_fs, k_root = 1,
     k_mem = (\<lambda>_. demo_memory), k_regs = (\<lambda>_. (0, 0, 0)),
     k_con = \<lparr>con_sink = Some \<lparr>out = [], currlen = 0, stores = []\<rparr>, debugAll = False, con_ints = True, halted = False\<rparr>,
     k_port = [], k_nsem = 3\<rparr>"

lemma demo_current: "current (k_sched demo_kern) = Some 0"
  by (simp add: demo_kern_def booted_def)

lemma demo_table:
  "res (k_rs demo_kern) (k_table demo_kern 0) =
    Some \<lparr>r_type = TABLE, r_count = 1, r_ptrs = [None, Some 1, Some 2, None, None], r_mutex = 1\<rparr>"
  by (simp add: demo_kern_def demo_rs_def)

text \<open>
  C10. What the system calls do with a handle that is not one of the object they need. A handle below
  zero or not below the size of the table, and one of an object of another type, is answered with
  \<^verbatim>\<open>ERR_INVALID_ID\<close> and changes nothing; but a handle within the table that is not in use is a null
  pointer that the kernel dereferences, for \<^verbatim>\<open>down\<close>, \<^verbatim>\<open>up\<close>, \<^verbatim>\<open>join\<close>, \<^verbatim>\<open>getlen\<close> and \<^verbatim>\<open>seek\<close>. Only \<^verbatim>\<open>close\<close>
  answers it with an error, and refuses to close the working directory.
\<close>
theorem handles_are_checked:
  assumes "current (k_sched k) = Some p" "res (k_rs k) (k_table k p) = Some T" "wants num ty" "r_mutex T \<noteq> 0"
    and "inside = (0 \<le> sint a0 \<and> sint a0 < int (length (r_ptrs T)))" "x = r_ptrs T ! nat (sint a0)"
  shows "(\<not> inside \<longrightarrow> syscallHandler fp v junk ctx num a0 a1 k = Inr (Ret ERR_INVALID_ID, k)
      \<and> syscallHandler fp v junk ctx 12 a0 a1 k = Inr (Ret ERR_INVALID_ID, k))
    \<and> (inside \<and> x = Some q \<and> res (k_rs k) q = Some R \<and> r_type R \<noteq> ty \<longrightarrow>
      syscallHandler fp v junk ctx num a0 a1 k = Inr (Ret ERR_INVALID_ID, k))
    \<and> (inside \<and> x = None \<longrightarrow> syscallHandler fp v junk ctx num a0 a1 k = Inl NullDeref
      \<and> (a0 \<noteq> 1 \<longrightarrow> syscallHandler fp v junk ctx 12 a0 a1 k = Inr (Ret ERR_INVALID_ID, k)))
    \<and> (1 < length (r_ptrs T) \<longrightarrow> syscallHandler fp v junk ctx 12 1 a1 k = Inr (Ret ERR_CLOSE_WD, k))"
proof -
  note G = my_get_eq [OF assms(1,2)]
  have c: "syscallHandler fp v junk ctx 12 a a1 k = sys_close a k" for a by (simp add: syscallHandler_def)
  have z: "a0 = 1" if "sint a0 = 1"
  proof -
    have "a0 = word_of_int (sint a0)" by simp
    then show ?thesis unfolding that by simp
  qed
  have "syscallHandler fp v junk ctx num a0 a1 k = Inr (Ret ERR_INVALID_ID, k)
      \<and> syscallHandler fp v junk ctx 12 a0 a1 k = Inr (Ret ERR_INVALID_ID, k)" if i: "\<not> inside"
    unfolding c
  proof
    show "syscallHandler fp v junk ctx num a0 a1 k = Inr (Ret ERR_INVALID_ID, k)"
      by (rule handler_none [OF assms(3)]) (use G [of a0 ty] i assms(5) in auto)
    show "sys_close a0 k = Inr (Ret ERR_INVALID_ID, k)" by (rule close_outside [OF assms(1,2)]) (use i assms(5) in auto)
  qed
  moreover have "syscallHandler fp v junk ctx num a0 a1 k = Inr (Ret ERR_INVALID_ID, k)"
    if i: "inside" "x = Some q" "res (k_rs k) q = Some R" "r_type R \<noteq> ty"
    by (rule handler_none [OF assms(3)]) (use G [of a0 ty] i assms(5,6) in simp)
  moreover have "syscallHandler fp v junk ctx num a0 a1 k = Inl NullDeref" if i: "inside" "x = None"
    by (rule handler_null [OF assms(3)]) (use G [of a0 ty] i assms(5,6) in simp)
  moreover have "syscallHandler fp v junk ctx 12 a0 a1 k = Inr (Ret ERR_INVALID_ID, k)" if "inside" "x = None" "a0 \<noteq> 1"
    unfolding c by (rule closed_slot [OF assms(1,2,4)]) (use that assms(5,6) z in auto)
  moreover have "syscallHandler fp v junk ctx 12 1 a1 k = Inr (Ret ERR_CLOSE_WD, k)" if "1 < length (r_ptrs T)"
    unfolding c by (rule close_wd [OF assms(1,2) that])
  ultimately show ?thesis by blast
qed

theorem handles_are_checked_witness:
  "syscallHandler rat_ldouble ide_driver (\<lambda>n. replicate n 0) (0, 0) 4 (- 1) 0 demo_kern = Inr (Ret ERR_INVALID_ID, demo_kern)
  \<and> syscallHandler rat_ldouble ide_driver (\<lambda>n. replicate n 0) (0, 0) 9 2 0 demo_kern = Inr (Ret ERR_INVALID_ID, demo_kern)
  \<and> syscallHandler rat_ldouble ide_driver (\<lambda>n. replicate n 0) (0, 0) 9 3 0 demo_kern = Inl NullDeref
  \<and> syscallHandler rat_ldouble ide_driver (\<lambda>n. replicate n 0) (0, 0) 12 3 0 demo_kern = Inr (Ret ERR_INVALID_ID, demo_kern)"
proof -
  note W = handles_are_checked [OF demo_current demo_table, where fp = rat_ldouble and v = ide_driver and junk = "\<lambda>n. replicate n 0"
    and ctx = "(0, 0)" and ?a1.0 = 0 and q = 2 and R = "\<lparr>r_type = SEMAPHORE, r_count = 1, r_ptrs = [], r_mutex = 1\<rparr>",
    OF _ _ refl refl, simplified]
  have "wants 4 SEMAPHORE" "wants 9 FILE" by (simp_all add: wants_def)
  moreover have "res (k_rs demo_kern) 2 = Some \<lparr>r_type = SEMAPHORE, r_count = 1, r_ptrs = [], r_mutex = 1\<rparr>"
    by (simp add: demo_kern_def demo_rs_def)
  ultimately show ?thesis
    using W [of 4 SEMAPHORE "- 1"] W [of 9 FILE 2] W [of 9 FILE 3] by simp
qed

end
