(* ===== verification/User_Files.thy ===== *)
theory User_Files
  imports Syscalls User_Libc
begin

text \<open>
  The file system as a program sees it: \<^verbatim>\<open>open\<close> and \<^verbatim>\<open>readFully\<close> of the user library over the system calls,
  the handle table, the open files, the FAT and the disk. The stub of \<^verbatim>\<open>read\<close> in \<^verbatim>\<open>user/sys.S\<close> passes a
  pointer to its three arguments on the stack of the user.
\<close>

definition read_stub :: "'f ldouble \<Rightarrow> 'd driver \<Rightarrow> (nat \<Rightarrow> u8 list) \<Rightarrow> pid \<Rightarrow> u32 \<Rightarrow> u32 \<Rightarrow> nat \<Rightarrow> 'd kern \<times> u32
    \<Rightarrow> int \<times> u8 list \<times> ('d kern \<times> u32)" where
  "read_stub fp v junk p a fd togo = (\<lambda>(k, ptr).
     let m = write_word (a + 8) (of_nat togo) (write_word (a + 4) ptr (write_word a fd (k_mem k p)));
         k = k\<lparr>k_mem := (k_mem k)(p := m)\<rparr>
     in case syscallHandler fp v junk (0, 0) 10 a 0 k of
          Inr (Ret cnt, k) \<Rightarrow> (cnt, read_bytes (k_mem k p) ptr (nat cnt), (k, ptr + of_int cnt))
        | _ \<Rightarrow> (- 1, [], (k, ptr)))"

section \<open>Memory\<close>

lemma unat_off: "unat (a :: u32) + i < 2 ^ 32 \<Longrightarrow> unat (a + of_nat i) = unat a + i"
proof -
  assume a: "unat a + i < 2 ^ 32"
  then have "unat (of_nat i :: u32) = i" by (intro unat_of_nat_u32) simp
  then show ?thesis using a unat_plus_u32 [of a "of_nat i"] by simp
qed

lemma write_bytes_at:
  assumes "unat a + length bs \<le> 2 ^ 32"
  shows "write_bytes a bs m x = (if unat a \<le> unat x \<and> unat x < unat a + length bs then bs ! (unat x - unat a) else m x)"
proof -
  have "x - a = (userESP + of_nat (unat x)) - (userESP + of_nat (unat a))" by simp
  then have "unat (x - a) = (if unat a \<le> unat x then unat x - unat a else 2 ^ 32 + unat x - unat a)"
    using diff_off [of "unat a" "unat x"] unat_lt_u32 [of a] unat_lt_u32 [of x] by simp
  then show ?thesis using assms unat_lt_u32 [of a] unfolding write_bytes_def by auto
qed

lemma read_bytes_cong:
  assumes "unat a + n \<le> 2 ^ 32" "\<And>x. unat a \<le> unat x \<Longrightarrow> unat x < unat a + n \<Longrightarrow> m x = m' x"
  shows "read_bytes m a n = read_bytes m' a n"
  unfolding read_bytes_def by (rule map_cong [OF refl]) (use assms unat_off [of a] in auto)

lemma read_other:
  assumes "unat a + n \<le> 2 ^ 32" "unat b + length bs \<le> 2 ^ 32" "unat a + n \<le> unat b \<or> unat b + length bs \<le> unat a"
  shows "read_bytes (write_bytes b bs m) a n = read_bytes m a n"
  by (rule read_bytes_cong [OF assms(1)]) (use assms write_bytes_at [OF assms(2)] in auto)

lemma read_same:
  assumes "unat a + length bs \<le> 2 ^ 32"
  shows "read_bytes (write_bytes a bs m) a (length bs) = bs"
  by (rule nth_equalityI) (use assms in \<open>simp_all add: read_bytes_def write_bytes_at unat_off\<close>)

lemma read_bytes_append: "read_bytes m a (n + k) = read_bytes m a n @ read_bytes m (a + of_nat n) k"
proof (rule nth_equalityI)
  fix i assume i: "i < length (read_bytes m a (n + k))"
  show "read_bytes m a (n + k) ! i = (read_bytes m a n @ read_bytes m (a + of_nat n) k) ! i"
  proof (cases "i < n")
    case False
    then have "(of_nat i :: u32) = of_nat n + of_nat (i - n)" by (simp flip: of_nat_add)
    then show ?thesis using i False by (simp add: read_bytes_def nth_append add.assoc)
  qed (use i in \<open>simp add: read_bytes_def nth_append\<close>)
qed (simp add: read_bytes_def)

lemma length_read_bytes [simp]: "length (read_bytes m a n) = n" by (simp add: read_bytes_def)

lemma read_word_same: "unat a + 4 \<le> 2 ^ 32 \<Longrightarrow> read_word (write_word a w m) a = w"
  using read_same [of a "le_bytes w" m] by (simp add: read_word_def write_word_def)

lemma read_word_other:
  assumes "unat a + 4 \<le> 2 ^ 32" "unat b + 4 \<le> 2 ^ 32" "unat a + 4 \<le> unat b \<or> unat b + 4 \<le> unat a"
  shows "read_word (write_word b w m) a = read_word m a"
  using read_other [of a 4 b "le_bytes w" m] assms by (simp add: read_word_def write_word_def)

text \<open>The block of arguments.\<close>

definition arg_block :: "u32 \<Rightarrow> u32 \<Rightarrow> u32 \<Rightarrow> u32 \<Rightarrow> memory \<Rightarrow> memory" where
  "arg_block a x y z m = write_word (a + 8) z (write_word (a + 4) y (write_word a x m))"

lemma arg_block_words:
  assumes "unat a + 12 \<le> 2 ^ 32"
  shows "read_word (arg_block a x y z m) a = x" "read_word (arg_block a x y z m) (a + 4) = y" "read_word (arg_block a x y z m) (a + 8) = z"
proof -
  have u: "unat (a + 4) = unat a + 4" "unat (a + 8) = unat a + 8" using unat_off [of a 4] unat_off [of a 8] assms by simp_all
  show "read_word (arg_block a x y z m) a = x" "read_word (arg_block a x y z m) (a + 4) = y" "read_word (arg_block a x y z m) (a + 8) = z"
    using assms u by (simp_all add: arg_block_def read_word_same read_word_other)
qed

lemma arg_block_other:
  assumes "unat a + 12 \<le> 2 ^ 32" "unat b + n \<le> 2 ^ 32" "unat a + 12 \<le> unat b \<or> unat b + n \<le> unat a"
  shows "read_bytes (arg_block a x y z m) b n = read_bytes m b n"
proof -
  have u: "unat (a + 4) = unat a + 4" "unat (a + 8) = unat a + 8" using unat_off [of a 4] unat_off [of a 8] assms by simp_all
  have l: "length (le_bytes w) = 4" for w by (simp add: le_bytes_def)
  show ?thesis unfolding arg_block_def write_word_def
    by (subst read_other, use assms u l in simp, use assms u l in simp, use assms u l in auto)+
qed

section \<open>One read\<close>

text \<open>\<open>fd\<close> is an open file of process \<open>p\<close>.\<close>

definition file_handle :: "'d kern \<Rightarrow> pid \<Rightarrow> u32 \<Rightarrow> rid \<Rightarrow> bool" where
  "file_handle k p fd r \<longleftrightarrow> current (k_sched k) = Some p \<and> (\<exists>T R. res (k_rs k) (k_table k p) = Some T \<and>
     0 \<le> sint fd \<and> sint fd < int (length (r_ptrs T)) \<and> r_ptrs T ! nat (sint fd) = Some r \<and>
     res (k_rs k) r = Some R \<and> r_type R = FILE)"

lemma handle_file:
  assumes "file_handle k p fd r" "k_obj k r = FileObj F"
  shows "with_file fd k g = g F r"
proof -
  from assms obtain T R where h: "current (k_sched k) = Some p" "res (k_rs k) (k_table k p) = Some T" "0 \<le> sint fd"
    "sint fd < int (length (r_ptrs T))" "r_ptrs T ! nat (sint fd) = Some r" "res (k_rs k) r = Some R" "r_type R = FILE"
    unfolding file_handle_def by blast
  have "my_get fd FILE k = Inr (Some r)" using my_get_eq [OF h(1,2), of fd FILE] h by simp
  then show ?thesis using assms(2) by (simp add: with_file_def with_handle_def)
qed

lemma sys_read_chunk:
  assumes "volume v" "wf_file (k_fs k) s0 f xs" "file_handle k p fd r" "k_obj k r = FileObj F" "ff_openFile F = s0"
    and "unat (ff_offset F) \<le> unat (m_length (of_meta f))"
    and "read_word (k_mem k p) a = fd" "read_word (k_mem k p) (a + 4) = buf" "read_word (k_mem k p) (a + 8) = n"
    and "0x80000000 \<le> a" "0x80000000 \<le> buf" "unat buf + unat n \<le> 2 ^ 32"
  defines "off \<equiv> unat (ff_offset F)"
  defines "c \<equiv> read_count f off (unat n)"
  shows "syscallHandler fp v junk ctx 10 a a1 k = Inr (Ret (int c), (put_file r (F\<lparr>ff_offset := of_nat (off + c)\<rparr>) k)\<lparr>k_mem :=
     (k_mem k)(p := write_bytes buf (map (file_byte v (k_fs k) xs) [off ..< off + c]) (k_mem k p))\<rparr>)"
proof -
  have cur: "me k = Inr p" using assms(3) by (simp add: file_handle_def me_def)
  have "file_read v (k_fs k) n F = Inr (int c, map (file_byte v (k_fs k) xs) [off ..< off + c], F\<lparr>ff_offset := of_nat (off + c)\<rparr>)"
    using volume.file_read_slice [OF assms(1,2,6,5), of n] by (simp add: Let_def off_def c_def)
  moreover have "c \<le> unat n" by (simp add: c_def read_count_def)
  then have "user_store buf (map (file_byte v (k_fs k) xs) [off ..< off + c]) (k_mem k p)
      = Inr (write_bytes buf (map (file_byte v (k_fs k) xs) [off ..< off + c]) (k_mem k p))"
    using assms(11,12) by (intro user_store_ok) simp_all
  moreover have "\<not> a < 0x1000" using assms(10) by (simp add: not_less word_le_nat_alt)
  ultimately show ?thesis
    using assms(7-9) cur by (simp add: syscallHandler_def sys_read_def Let_def handle_file [OF assms(3,4)] put_file_def)
qed


section \<open>Reading a file from user space\<close>

text \<open>
  What is left to deliver: \<open>togo\<close> bytes asked for, \<open>rest\<close> of the contents from the first offset on; the
  bytes delivered so far lie in the buffer.
\<close>

definition reading :: "'d kern \<Rightarrow> pid \<Rightarrow> rid \<Rightarrow> u32 \<Rightarrow> u32 \<Rightarrow> nat \<Rightarrow> u8 list \<Rightarrow> u32 \<Rightarrow> nat \<Rightarrow> u8 list \<Rightarrow> 'd kern \<times> u32 \<Rightarrow> bool" where
  "reading k0 p r s0 buf len content off0 togo rest = (\<lambda>(k, ptr).
     \<exists>F n. n \<le> length content \<and> n + togo = len \<and> rest = drop n content \<and> ptr = buf + of_nat n \<and>
       k_sched k = k_sched k0 \<and> k_rs k = k_rs k0 \<and> k_table k = k_table k0 \<and> k_fs k = k_fs k0 \<and>
       k_obj k r = FileObj F \<and> ff_openFile F = s0 \<and> unat (ff_offset F) = unat off0 + n \<and>
       read_bytes (k_mem k p) buf n = take n content)"

lemma read_stub_step:
  assumes v: "volume v" and wf: "wf_file (k_fs k0) s0 f xs" and h: "file_handle k0 p fd r"
    and off: "unat off0 \<le> unat (m_length (of_meta f))"
    and content: "content = map (file_byte v (k_fs k0) xs) [unat off0 ..< unat (m_length (of_meta f))]"
    and a: "0x80000000 \<le> a" "unat a + 12 \<le> 2 ^ 32" and buf: "0x80000000 \<le> buf" "unat buf + len < 2 ^ 32"
    and apart: "unat a + 12 \<le> unat buf \<or> unat buf + len \<le> unat a"
    and togo: "0 < togo" and Q: "reading k0 p r s0 buf len content off0 togo rest (k, ptr)"
  shows "\<exists>c s'. c \<le> togo \<and> c \<le> length rest \<and> read_stub fp v junk p a fd togo (k, ptr) = (int c, take c rest, s') \<and>
    (c = 0 \<longrightarrow> rest = []) \<and> reading k0 p r s0 buf len content off0 (togo - c) (drop c rest) s'"
proof -
  let ?L = "unat (m_length (of_meta f))"
  from Q obtain F n where n: "n \<le> length content" "n + togo = len" "rest = drop n content" "ptr = buf + of_nat n"
    and same: "k_sched k = k_sched k0" "k_rs k = k_rs k0" "k_table k = k_table k0" "k_fs k = k_fs k0"
    and F: "k_obj k r = FileObj F" "ff_openFile F = s0" "unat (ff_offset F) = unat off0 + n"
    and mem: "read_bytes (k_mem k p) buf n = take n content"
    unfolding reading_def by auto
  have L: "?L < 2 ^ 32" "length content = ?L - unat off0" using wf by (simp_all add: wf_file_def content)
  have oL: "unat (ff_offset F) \<le> ?L" using F(3) n(1) L(2) off by simp
  have up: "unat ptr = unat buf + n" using unat_off [of buf n] n(2,4) buf(2) by simp
  have ut: "unat (of_nat togo :: u32) = togo" using n(2) buf(2) by (intro unat_of_nat_u32) simp
  define c where "c = read_count f (unat off0 + n) togo"
  have c: "c \<le> togo" "c \<le> length rest" "c = 0 \<longrightarrow> rest = []" "unat off0 + n + c \<le> ?L"
    using togo n(1,3) L(2) off by (auto simp: c_def read_count_def min_def split: if_splits)
  have bytes: "map (file_byte v (k_fs k0) xs) [unat off0 + n ..< unat off0 + n + c] = take c rest"
    using c(2) n(1) L(2) unfolding n(3) content by (intro nth_equalityI) (simp_all add: add.assoc)
  define m where "m = arg_block a fd ptr (of_nat togo) (k_mem k p)"
  define k1 where "k1 = k\<lparr>k_mem := (k_mem k)(p := m)\<rparr>"
  have w: "read_word (k_mem k1 p) a = fd" "read_word (k_mem k1 p) (a + 4) = ptr" "read_word (k_mem k1 p) (a + 8) = of_nat togo"
    using arg_block_words [OF a(2)] by (simp_all add: k1_def m_def)
  define F' where "F' = F\<lparr>ff_offset := of_nat (unat off0 + n + c)\<rparr>"
  define m' where "m' = write_bytes ptr (take c rest) m"
  define k2 where "k2 = (put_file r F' k1)\<lparr>k_mem := (k_mem k1)(p := m')\<rparr>"
  have "syscallHandler fp v junk (0, 0) 10 a 0 k1 = Inr (Ret (int c), k2)"
    using sys_read_chunk [OF v _ _ _ F(2) oL w a(1), where xs = xs and r = r, of fp junk "(0, 0)" 0] wf h F buf up n(2) same bytes
    by (simp add: k1_def k2_def F'_def m'_def file_handle_def c_def ut word_le_nat_alt)
  then have stub: "read_stub fp v junk p a fd togo (k, ptr) = (int c, read_bytes (k_mem k2 p) ptr c, (k2, ptr + of_nat c))"
    by (simp add: read_stub_def Let_def k1_def m_def arg_block_def)
  have tr: "length (take c rest) = c" using c(2) by simp
  have "read_bytes (k_mem k2 p) ptr c = take c rest"
    using read_same [of ptr "take c rest" m] up c(1) n(2) buf(2) tr by (simp add: k2_def m'_def)
  moreover have "read_bytes (k_mem k2 p) buf n = take n content"
  proof -
    have "read_bytes (k_mem k2 p) buf n = read_bytes m buf n"
      using read_other [of buf n ptr "take c rest" m] up c(1) n(2) buf(2) tr by (simp add: k2_def m'_def)
    also have "\<dots> = read_bytes (k_mem k p) buf n"
      unfolding m_def by (rule arg_block_other [OF a(2)]) (use n(2) buf(2) apart in auto)
    finally show ?thesis using mem by simp
  qed
  ultimately have "read_bytes (k_mem k2 p) buf (n + c) = take (n + c) content"
    using n(3,4) by (simp add: read_bytes_append take_add)
  moreover have "unat (ff_offset F') = unat off0 + n + c"
    unfolding F'_def using c(4) L(1) by (simp del: of_nat_add add: unat_of_nat_u32)
  moreover have "k_sched k2 = k_sched k0" "k_rs k2 = k_rs k0" "k_table k2 = k_table k0" "k_fs k2 = k_fs k0" "k_obj k2 r = FileObj F'"
    "ff_openFile F' = s0" using same F(2) by (simp_all add: k2_def k1_def put_file_def F'_def)
  ultimately have "reading k0 p r s0 buf len content off0 (togo - c) (drop c rest) (k2, ptr + of_nat c)"
    unfolding reading_def using n c(1,2) by (auto intro!: exI [of _ F'] exI [of _ "n + c"] simp: add.assoc add.commute [of c n])
  then show ?thesis using stub \<open>read_bytes (k_mem k2 p) ptr c = take c rest\<close> c(1-3) by (intro exI conjI) auto
qed




text \<open>A kernel whose process has the file of 600 bytes open as handle 3.\<close>

definition demo_open :: "disk_image kern" where
  "demo_open = demo_kern\<lparr>k_rs := \<lparr>res = (res demo_rs)(0 \<mapsto> \<lparr>r_type = TABLE, r_count = 1,
       r_ptrs = [None, Some 1, Some 2, Some 3, None], r_mutex = 1\<rparr>, 3 \<mapsto> \<lparr>r_type = FILE, r_count = 1, r_ptrs = [], r_mutex = 1\<rparr>),
     nextRid = 4\<rparr>, k_obj := (k_obj demo_kern)(3 := FileObj (new_File 5))\<rparr>"


section \<open>Opening a file\<close>

lemma open_loop_first:
  assumes "res st t = Some T" "r \<noteq> t" "res st r = Some R" "i < length (r_ptrs T)" "r_ptrs T ! i = None"
  shows "\<forall>j \<in> set js. j < length (r_ptrs T) \<and> r_ptrs T ! j \<noteq> None \<Longrightarrow>
    open_loop t r (js @ i # is) st =
      Inr (int i, put_res t (T\<lparr>r_ptrs := (r_ptrs T)[i := Some r]\<rparr>) (put_res r (R\<lparr>r_count := r_count R + 1\<rparr>) st))"
  using assms
  by (induction js) (auto simp: slot_get_def get_res_def ref_def getThenAdd_def slot_set_def put_res_def)

lemma open_loop_full:
  assumes "res st t = Some T"
  shows "\<forall>j \<in> set js. j < length (r_ptrs T) \<and> r_ptrs T ! j \<noteq> None \<Longrightarrow> open_loop t r js st = Inr (ERR_NO_ID, st)"
  using assms by (induction js) (auto simp: slot_get_def get_res_def)

lemma table_open_first:
  assumes "res st t = Some T" "r \<noteq> t" "res st r = Some R" "i < length (r_ptrs T)" "2 \<le> i" "r_ptrs T ! i = None" "r_mutex T \<noteq> 0"
    and "\<forall>j. 2 \<le> j \<and> j < i \<longrightarrow> r_ptrs T ! j \<noteq> None"
  shows "table_open t r st = Inr (int i, put_res t (T\<lparr>r_ptrs := (r_ptrs T)[i := Some r]\<rparr>) (put_res r (R\<lparr>r_count := r_count R + 1\<rparr>) st))"
proof -
  let ?T = "T\<lparr>r_mutex := r_mutex T - 1\<rparr>" let ?st = "put_res t ?T st"
  have s: "[2 ..< length (r_ptrs T)] = [2 ..< i] @ i # [Suc i ..< length (r_ptrs T)]"
    using assms(4,5) upt_add_eq_append [of 2 i "length (r_ptrs T) - i"] by (simp add: upt_conv_Cons)
  have "open_loop t r [2 ..< length (r_ptrs T)] ?st =
      Inr (int i, put_res t (?T\<lparr>r_ptrs := (r_ptrs ?T)[i := Some r]\<rparr>) (put_res r (R\<lparr>r_count := r_count R + 1\<rparr>) ?st))"
    unfolding s by (rule open_loop_first) (use assms in \<open>auto simp: put_res_def\<close>)
  then show ?thesis
    using assms(1-3,7) by (simp add: table_open_def t_lock_def t_size_def t_unlock_def get_res_def put_res_def fun_upd_twist)
qed

lemma table_open_full:
  assumes "res st t = Some T" "r_mutex T \<noteq> 0" "\<forall>j. 2 \<le> j \<and> j < length (r_ptrs T) \<longrightarrow> r_ptrs T ! j \<noteq> None"
  shows "table_open t r st = Inr (ERR_NO_ID, st)"
proof -
  have "open_loop t r [2 ..< length (r_ptrs T)] (put_res t (T\<lparr>r_mutex := r_mutex T - 1\<rparr>) st) = Inr (ERR_NO_ID, put_res t (T\<lparr>r_mutex := r_mutex T - 1\<rparr>) st)"
    by (rule open_loop_full) (use assms(3) in \<open>auto simp: put_res_def\<close>)
  then show ?thesis
    using assms(1,2) by (simp add: table_open_def t_lock_def t_size_def t_unlock_def get_res_def put_res_def fun_upd_idem)
qed


lemma my_open_first:
  assumes "current (k_sched k) = Some p" "res (k_rs k) (k_table k p) = Some T" "k_table k p < nextRid (k_rs k)" "r_mutex T \<noteq> 0"
    and "i < length (r_ptrs T)" "2 \<le> i" "r_ptrs T ! i = None" "\<forall>j. 2 \<le> j \<and> j < i \<longrightarrow> r_ptrs T ! j \<noteq> None"
    and "length (r_ptrs T) < 2 ^ 31" "new_obj FILE (FileObj F) k = (r, k1)"
  obtains k2 where "my_open r k1 = Inr (Ret (int i), k2)" "file_handle k2 p (of_nat i) r" "k_obj k2 r = FileObj F" "k_fs k2 = k_fs k"
    "r = nextRid (k_rs k)"
proof -
  let ?t = "k_table k p"
  have r: "r = nextRid (k_rs k)" "k1 = k\<lparr>k_rs := put_res r \<lparr>r_type = FILE, r_count = 0, r_ptrs = [], r_mutex = 1\<rparr> ((k_rs k)\<lparr>nextRid := Suc r\<rparr>),
      k_obj := (k_obj k)(r := FileObj F)\<rparr>"
    using assms(10) by (auto simp: new_obj_def new_res_def Let_def)
  have rt: "r \<noteq> ?t" using assms(3) r(1) by simp
  have T: "res (k_rs k1) ?t = Some T" using assms(2) rt by (simp add: r(2) put_res_def)
  have R: "res (k_rs k1) r = Some \<lparr>r_type = FILE, r_count = 0, r_ptrs = [], r_mutex = 1\<rparr>" by (simp add: r(2) put_res_def)
  define rs where "rs = put_res ?t (T\<lparr>r_ptrs := (r_ptrs T)[i := Some r]\<rparr>)
     (put_res r \<lparr>r_type = FILE, r_count = 1, r_ptrs = [], r_mutex = 1\<rparr> (k_rs k1))"
  have o: "table_open ?t r (k_rs k1) = Inr (int i, rs)"
    using table_open_first [OF T rt R assms(5,6,7,4,8)] by (simp add: rs_def)
  have k1: "current (k_sched k1) = Some p" "k_table k1 = k_table k" "k_fs k1 = k_fs k" "k_obj k1 r = FileObj F"
    using assms(1) by (simp_all add: r(2))
  have i: "sint (of_nat i :: u32) = int i"
    using assms(5,9) unat_of_nat_u32 [of i] by (subst sint_small) simp_all
  show thesis
  proof (rule that [of "k1\<lparr>k_rs := rs\<rparr>"])
    show "my_open r k1 = Inr (Ret (int i), k1\<lparr>k_rs := rs\<rparr>)" using o k1 by (simp add: my_open_def me_def)
    show "file_handle (k1\<lparr>k_rs := rs\<rparr>) p (of_nat i) r"
      using k1(1,2) rt i assms(5) by (simp add: file_handle_def rs_def put_res_def)
  qed (use k1 r(1) in simp_all)
qed


lemma open_found:
  assumes "volume v" "current (k_sched k) = Some p" "k_obj k (k_root k) = DirObj d" "dir_ok (k_fs k) d df dxs" "length (junk 16) = 16"
    and "a0 \<noteq> 0" "user_string (k_mem k p) a0 = Inr name" "\<not> is_dot name" "\<not> is_dotdot name"
    and "List.find (\<lambda>i. entry_is (dir_entry v (k_fs k) dxs i) name) [0 ..< unat (d_entries d)] = Some e"
    and "b = entry_start (dir_entry v (k_fs k) dxs e)" "b \<noteq> 0" "openFile v b (k_fs k) = Inr fs'"
  shows "syscallHandler fp v junk ctx 8 a0 a1 k =
    (let (r, k1) = new_obj FILE (FileObj (new_File b)) (k\<lparr>k_fs := fs'\<rparr>) in my_open r k1)"
proof -
  have "dir_lookup v (k_fs k) d (junk 16) name = Inr b"
    using volume.dir_lookup_first [OF assms(1,4,5,8,9)] assms(10,11) by (simp add: find_entry_def)
  then have "lookupFile v (junk 16) (Some name) d (k_fs k) = Inr (Some (new_File b), fs')"
    using assms(12,13) by (simp add: lookupFile_def)
  then show ?thesis
    using assms(2,3,6,7) by (simp add: syscallHandler_def sys_open_def my_mem_def me_def user_name_def root_dir_def Let_def)
qed

text \<open>
  C7. \<^verbatim>\<open>open\<close> of a name that the root directory has. The first free handle from 2 on is returned, and it
  is a handle of a file at offset 0 of the block that the first entry with the name points to, with
  the length of its header, whether or not somebody has the file open; its blocks can be read as
  \<open>user_reads_file\<close> says. When the table is full the answer is \<^verbatim>\<open>ERR_NO_ID\<close>, but the file stays open with
  nobody to close it.
\<close>
theorem open_by_name:
  assumes "volume v" "current (k_sched k) = Some p" "k_obj k (k_root k) = DirObj d" "dir_ok (k_fs k) d df dxs" "length (junk 16) = 16"
    and "a0 \<noteq> 0" "user_string (k_mem k p) a0 = Inr name" "\<not> is_dot name" "\<not> is_dotdot name"
    and "List.find (\<lambda>i. entry_is (dir_entry v (k_fs k) dxs i) name) [0 ..< unat (d_entries d)] = Some e"
    and "b = entry_start (dir_entry v (k_fs k) dxs e)" "stored v (k_fs k) b xs m"
    and "res (k_rs k) (k_table k p) = Some T" "k_table k p < nextRid (k_rs k)" "r_mutex T \<noteq> 0" "length (r_ptrs T) < 2 ^ 31"
  shows "(\<forall>i. 2 \<le> i \<and> i < length (r_ptrs T) \<and> r_ptrs T ! i = None \<and> (\<forall>j. 2 \<le> j \<and> j < i \<longrightarrow> r_ptrs T ! j \<noteq> None) \<longrightarrow>
      (\<exists>k' f r. syscallHandler fp v junk ctx 8 a0 a1 k = Inr (Ret (int i), k') \<and> file_handle k' p (of_nat i) r \<and>
         k_obj k' r = FileObj (new_File b) \<and> wf_file (k_fs k') b f xs \<and> of_meta f = m \<and> dev (k_fs k') = dev (k_fs k)))
    \<and> ((\<forall>j. 2 \<le> j \<and> j < length (r_ptrs T) \<longrightarrow> r_ptrs T ! j \<noteq> None) \<longrightarrow>
      (\<exists>k' f. syscallHandler fp v junk ctx 8 a0 a1 k = Inr (Ret ERR_NO_ID, k') \<and> wf_file (k_fs k') b f xs))"
proof -
  have "b \<noteq> 0" using assms(12) by (cases xs) (auto simp: stored_def)
  obtain fs' f where fs': "openFile v b (k_fs k) = Inr fs'" "wf_file fs' b f xs" "of_meta f = m" "dev fs' = dev (k_fs k)"
    by (rule openFile_stored [OF assms(1,12)])
  obtain r k1 where n: "new_obj FILE (FileObj (new_File b)) (k\<lparr>k_fs := fs'\<rparr>) = (r, k1)" by fastforce
  note H = open_found [where junk = junk, OF assms(1-11) \<open>b \<noteq> 0\<close> fs'(1), of fp "ctx" a1]
  have "\<exists>k' f r. syscallHandler fp v junk ctx 8 a0 a1 k = Inr (Ret (int i), k') \<and> file_handle k' p (of_nat i) r \<and>
         k_obj k' r = FileObj (new_File b) \<and> wf_file (k_fs k') b f xs \<and> of_meta f = m \<and> dev (k_fs k') = dev (k_fs k)"
    if i: "i < length (r_ptrs T)" "2 \<le> i" "r_ptrs T ! i = None" "\<forall>j. 2 \<le> j \<and> j < i \<longrightarrow> r_ptrs T ! j \<noteq> None" for i
  proof -
    obtain k2 where "my_open r k1 = Inr (Ret (int i), k2)" "file_handle k2 p (of_nat i) r" "k_obj k2 r = FileObj (new_File b)"
      "k_fs k2 = fs'"
      by (rule my_open_first [of "k\<lparr>k_fs := fs'\<rparr>", OF _ _ _ assms(15) i assms(16) n]) (use assms(2,13,14) in auto)
    then show ?thesis using H n fs' by auto
  qed
  moreover have "\<exists>k' f. syscallHandler fp v junk ctx 8 a0 a1 k = Inr (Ret ERR_NO_ID, k') \<and> wf_file (k_fs k') b f xs"
    if full: "\<forall>j. 2 \<le> j \<and> j < length (r_ptrs T) \<longrightarrow> r_ptrs T ! j \<noteq> None"
  proof -
    have k1: "res (k_rs k1) (k_table k1 p) = Some T" "current (k_sched k1) = Some p" "k_fs k1 = fs'"
      using n assms(2,13,14) by (auto simp: new_obj_def new_res_def put_res_def Let_def)
    then have "my_open r k1 = Inr (Ret ERR_NO_ID, k1)"
      using table_open_full [OF k1(1) assms(15) full, of r] by (simp add: my_open_def me_def)
    then show ?thesis using H n fs'(2) k1(3) by auto
  qed
  ultimately show ?thesis by blast
qed

theorem open_by_name_witness:
  "\<exists>k' r. syscallHandler rat_ldouble ide_driver (\<lambda>n. replicate n 0) (0, 0) 8 0x80000000 0 demo_kern = Inr (Ret 3, k')
    \<and> file_handle k' 0 3 r \<and> k_obj k' r = FileObj (new_File 5)"
proof -
  have s: "chars_at demo_memory 0x80000000 = Some [0x61, 0x62]"
    by (subst chars_at.simps, subst chars_at.simps, subst chars_at.simps) (simp add: demo_memory_def write_bytes_def)
  have k: "k_fs demo_kern = small_fs" "k_obj demo_kern (k_root demo_kern) = DirObj small_root" "k_mem demo_kern 0 = demo_memory"
    by (simp_all add: demo_kern_def)
  have u: "user_string (k_mem demo_kern 0) 0x80000000 = Inr [0x61, 0x62]" by (simp add: k s user_string_def)
  have st: "stored ide_driver (k_fs demo_kern) 5 [5, 6] (of_meta small_file)"
    by (simp add: stored_def k small_fs_def small_file_def)
  have f: "List.find (\<lambda>i. entry_is (dir_entry ide_driver (k_fs demo_kern) [2] i) [0x61, 0x62]) [0 ..< unat (d_entries small_root)] = Some 0"
    using small_find [of "[0x61, 0x62]"] by (simp add: k find_entry_def small_root_def entry_is_def)
  have e: "entry_start (dir_entry ide_driver (k_fs demo_kern) [2] 0) = 5"
    by (simp add: k small_root_entries entry_start_def le_word_def)
  have c: "k_table demo_kern 0 < nextRid (k_rs demo_kern)" by (simp add: demo_kern_def demo_rs_def)
  have nd: "\<not> is_dot [0x61, 0x62]" "\<not> is_dotdot [0x61, 0x62]" by (simp_all add: is_dot_def is_dotdot_def cstr_def)
  have j: "length (replicate 16 0 :: u8 list) = 16" "(0x80000000 :: u32) \<noteq> 0" by simp_all
  have i: "2 \<le> (3 :: nat) \<and> 3 < length [None, Some 1, Some 2, None, None :: rid option] \<and> [None, Some 1, Some 2, None, None] ! 3 = (None :: rid option) \<and>
      (\<forall>j. 2 \<le> j \<and> j < 3 \<longrightarrow> [None, Some 1, Some 2, None, None] ! j \<noteq> (None :: rid option))"
    by (auto simp: less_Suc_eq numeral_3_eq_3 numeral_2_eq_2)
  note W = open_by_name [where junk = "\<lambda>n. replicate n 0", OF hdv.volume_axioms demo_current k(2) small_root_ok [folded k(1)] j u nd f refl
      st [folded e] demo_table c, THEN conjunct1, simplified resource.simps, rule_format, of 3]
  from W [of rat_ldouble "(0, 0)" 0] i show ?thesis unfolding e by auto
qed

end
