(* ===== verification/Sys_Fork.thy ===== *)
theory Sys_Fork
  imports User_Files
begin

text \<open>
  The system call \<^verbatim>\<open>fork\<close>: what the child inherits.
\<close>

section \<open>The files of the table\<close>

definition new_ids :: "nat \<Rightarrow> (rid option \<times> rid option) list \<Rightarrow> rid list" where
  "new_ids n xs = concat (map (\<lambda>(x, y). case y of None \<Rightarrow> [] | Some q' \<Rightarrow> if n \<le> q' then [q'] else []) xs)"

lemma new_ids_simps [simp]:
  "new_ids n [] = []"
  "new_ids n ((x, y) # xs) = (case y of None \<Rightarrow> [] | Some q' \<Rightarrow> if n \<le> q' then [q'] else []) @ new_ids n xs"
  by (simp_all add: new_ids_def)

text \<open>A pair of slots before the files are forked: old objects below \<open>n\<close>, a new one for every file.\<close>

definition pair_ok :: "nat \<Rightarrow> (rid \<Rightarrow> obj) \<Rightarrow> 'd fat439 \<Rightarrow> rid option \<Rightarrow> rid option \<Rightarrow> bool" where
  "pair_ok n ob fs x y \<longleftrightarrow> (\<forall>q. x = Some q \<longrightarrow> q < n \<and> (\<forall>f. ob q = FileObj f \<longrightarrow>
     (\<exists>q'. y = Some q' \<and> n \<le> q') \<and> (\<exists>g. file_at fs (ff_openFile f) = Inr g)))"

text \<open>Only reference counts of open files grow.\<close>

definition more_refs :: "'d fat439 \<Rightarrow> 'd fat439 \<Rightarrow> bool" where
  "more_refs fs fs' \<longleftrightarrow> dev fs' = dev fs \<and> fat fs' = fat fs \<and> (\<forall>b g. file_at fs b = Inr g \<longrightarrow> (\<exists>c. file_at fs' b = Inr (g\<lparr>of_count := c\<rparr>)))"

lemma same_refs: "\<exists>c. g = g\<lparr>of_count := c\<rparr>"
  by (rule exI [of _ "of_count g"]) simp

lemma more_refs_refl: "more_refs fs fs"
  unfolding more_refs_def using same_refs by auto

lemma more_refs_trans: "more_refs a b \<Longrightarrow> more_refs b c \<Longrightarrow> more_refs a c"
  unfolding more_refs_def by fastforce

lemma fork_file_refs:
  assumes "file_at fs (ff_openFile f) = Inr g"
  obtains fs' where "file_forkMe f fs = Inr (f, fs')" "more_refs fs fs'"
proof -
  let ?b = "ff_openFile f" and ?g = "g\<lparr>of_count := of_count g + 1\<rparr>"
  let ?fs = "slot_put ?b (Some ?g) fs"
  have l: "unat ?b < length (openFiles fs)" using assms by (auto simp: file_at_def slot_at_def split: if_splits)
  have "\<exists>c. file_at ?fs b = Inr (h\<lparr>of_count := c\<rparr>)" if h: "file_at fs b = Inr h" for b h
  proof (cases "b = ?b")
    case True
    then have "file_at ?fs b = Inr (h\<lparr>of_count := of_count g + 1\<rparr>)"
      using l h assms by (simp add: file_at_def slot_at_def slot_put_def)
    then show ?thesis by blast
  next
    case False
    then have "unat b \<noteq> unat ?b" by (simp add: word_unat_eq_iff)
    then have "file_at ?fs b = Inr h" using h by (auto simp: file_at_def slot_at_def slot_put_def split: if_splits)
    then show ?thesis using same_refs [of h] by auto
  qed
  then have "more_refs fs ?fs" by (simp add: more_refs_def slot_put_def)
  then show thesis using that assms by (simp add: file_forkMe_def new_File_def)
qed

lemma fork_files_spec:
  assumes "\<forall>(x, y) \<in> set xs. pair_ok n (k_obj k) (k_fs k) x y" "distinct (new_ids n xs)"
  shows "\<exists>fs' ob'. fork_files xs k = Inr (k\<lparr>k_fs := fs', k_obj := ob'\<rparr>) \<and> more_refs (k_fs k) fs' \<and>
    (\<forall>z. z \<notin> set (new_ids n xs) \<longrightarrow> ob' z = k_obj k z) \<and>
    (\<forall>(x, y) \<in> set xs. \<forall>q f. x = Some q \<and> k_obj k q = FileObj f \<longrightarrow> (\<exists>q'. y = Some q' \<and> n \<le> q' \<and> ob' q' = FileObj f))"
  using assms
proof (induction xs arbitrary: k)
  case Nil
  then show ?case using more_refs_refl by (intro exI [of _ "k_fs k"] exI [of _ "k_obj k"]) simp
next
  case (Cons xy xs)
  obtain x y where xy: "xy = (x, y)" by fastforce
  have p: "pair_ok n (k_obj k) (k_fs k) x y" and d: "distinct (new_ids n xs)" using Cons.prems by (auto simp: xy)
  show ?case
  proof (cases "\<exists>q f. x = Some q \<and> k_obj k q = FileObj f")
    case False
    have e: "fork_files (xy # xs) k = fork_files xs k"
      unfolding xy using False p by (auto simp: pair_ok_def split: option.splits obj.splits)
    from Cons.IH [of k] Cons.prems d obtain fs' ob' where r: "fork_files xs k = Inr (k\<lparr>k_fs := fs', k_obj := ob'\<rparr>)"
      "more_refs (k_fs k) fs'" "\<forall>z. z \<notin> set (new_ids n xs) \<longrightarrow> ob' z = k_obj k z"
      "\<forall>(x, y) \<in> set xs. \<forall>q f. x = Some q \<and> k_obj k q = FileObj f \<longrightarrow> (\<exists>q'. y = Some q' \<and> n \<le> q' \<and> ob' q' = FileObj f)" by auto
    show ?thesis unfolding e by (intro exI [of _ fs'] exI [of _ ob']) (use r False in \<open>auto simp: xy\<close>)
  next
    case True
    then obtain q f where q: "x = Some q" "k_obj k q = FileObj f" by blast
    then obtain q' g where q': "q < n" "y = Some q'" "n \<le> q'" "file_at (k_fs k) (ff_openFile f) = Inr g"
      using p unfolding pair_ok_def by auto
    obtain fs1 where fs1: "file_forkMe f (k_fs k) = Inr (f, fs1)" "more_refs (k_fs k) fs1" by (rule fork_file_refs [OF q'(4)])
    define k1 where "k1 = k\<lparr>k_fs := fs1, k_obj := (k_obj k)(q' := FileObj f)\<rparr>"
    have e: "fork_files (xy # xs) k = fork_files xs k1" using q q'(2) fs1(1) by (simp add: xy k1_def)
    have new: "q' \<notin> set (new_ids n xs)" using Cons.prems(2) q' by (simp add: xy)
    have "\<forall>(x, y) \<in> set xs. pair_ok n (k_obj k1) (k_fs k1) x y"
    proof (clarify)
      fix x y assume "(x, y) \<in> set xs"
      then have o: "pair_ok n (k_obj k) (k_fs k) x y" using Cons.prems(1) by auto
      show "pair_ok n (k_obj k1) (k_fs k1) x y"
        unfolding pair_ok_def
      proof (intro allI impI conjI)
        fix z assume z: "x = Some z"
        then show "z < n" using o by (simp add: pair_ok_def)
        fix h assume "k_obj k1 z = FileObj h"
        moreover have "z \<noteq> q'" using \<open>z < n\<close> q'(3) by auto
        ultimately have "k_obj k z = FileObj h" by (simp add: k1_def)
        then have "(\<exists>q'. y = Some q' \<and> n \<le> q') \<and> (\<exists>g. file_at (k_fs k) (ff_openFile h) = Inr g)"
          using o z unfolding pair_ok_def by blast
        then show "\<exists>q'. y = Some q' \<and> n \<le> q'" "\<exists>g. file_at (k_fs k1) (ff_openFile h) = Inr g"
          using fs1(2) by (auto simp: k1_def more_refs_def)
      qed
    qed
    from Cons.IH [OF this d] obtain fs' ob' where r: "fork_files xs k1 = Inr (k1\<lparr>k_fs := fs', k_obj := ob'\<rparr>)"
      "more_refs (k_fs k1) fs'" "\<forall>z. z \<notin> set (new_ids n xs) \<longrightarrow> ob' z = k_obj k1 z"
      "\<forall>(x, y) \<in> set xs. \<forall>q f. x = Some q \<and> k_obj k1 q = FileObj f \<longrightarrow> (\<exists>q'. y = Some q' \<and> n \<le> q' \<and> ob' q' = FileObj f)" by blast
    have A: "\<exists>z'. y' = Some z' \<and> n \<le> z' \<and> ob' z' = FileObj h"
      if "(x', y') \<in> set (xy # xs)" "x' = Some z" "k_obj k z = FileObj h" for x' y' z h
    proof (cases "(x', y') = xy")
      case True
      then show ?thesis using that q q' r(3) new by (auto simp: xy k1_def)
    next
      case False
      then have m: "(x', y') \<in> set xs" using that(1) by auto
      then have "z < n" using Cons.prems(1) that(2) by (auto simp: pair_ok_def)
      then have "k_obj k1 z = FileObj h" using that(3) q'(3) by (simp add: k1_def)
      then show ?thesis using r(4) m that(2) by blast
    qed
    have "\<forall>(x', y') \<in> set (xy # xs). \<forall>z h. x' = Some z \<and> k_obj k z = FileObj h \<longrightarrow> (\<exists>z'. y' = Some z' \<and> n \<le> z' \<and> ob' z' = FileObj h)"
      by (intro ballI, clarify) (rule A [OF _ refl])
    moreover have "more_refs (k_fs k) fs'" using more_refs_trans [OF fs1(2)] r(2) by (simp add: k1_def)
    moreover have "\<forall>z. z \<notin> set (new_ids n (xy # xs)) \<longrightarrow> ob' z = k_obj k z"
      using r(3) q' by (simp add: xy k1_def)
    moreover have "fork_files xs k1 = Inr (k\<lparr>k_fs := fs', k_obj := ob'\<rparr>)" using r(1) by (simp add: k1_def)
    ultimately show ?thesis unfolding e by blast
  qed
qed


lemma count_list_pos: "x \<in> set ys \<Longrightarrow> 0 < count_list ys x"
  by (metis count_list_0_iff gr0I)

lemma distinct_new_ids:
  assumes "length xs = length ys" "\<forall>q. n \<le> q \<longrightarrow> count_list ys (Some q) \<le> 1"
  shows "distinct (new_ids n (zip xs ys)) \<and> (\<forall>q \<in> set (new_ids n (zip xs ys)). Some q \<in> set ys \<and> n \<le> q)"
  using assms
proof (induction xs ys rule: list_induct2)
  case (Cons x xs y ys)
  have "count_list ys (Some q) \<le> 1" if "n \<le> q" for q
    using Cons.prems that by (metis count_list.simps(2) le_trans le_add1 order_refl)
  then have I: "\<forall>q. n \<le> q \<longrightarrow> count_list ys (Some q) \<le> 1" by blast
  note IH = conjunct1 [OF Cons.IH [OF I]] conjunct2 [OF Cons.IH [OF I]]
  have "q \<notin> set (new_ids n (zip xs ys))" if "y = Some q" "n \<le> q" for q
  proof
    assume "q \<in> set (new_ids n (zip xs ys))"
    then have "0 < count_list ys (Some q)" using IH(2) by (intro count_list_pos) blast
    then show False using Cons.prems that by force
  qed
  then show ?case using IH by (cases y) auto
qed simp

section \<open>The child\<close>

text \<open>What a slot of the child holds: an own file at the same offset, no process, the same semaphore or directory.\<close>

definition inherits :: "'d kern \<Rightarrow> 'd kern \<Rightarrow> rid option \<Rightarrow> rid option \<Rightarrow> bool" where
  "inherits k k' x y \<longleftrightarrow>
     (case x of None \<Rightarrow> y = None
      | Some q \<Rightarrow> (case k_obj k q of
          ProcObj _ \<Rightarrow> y = None
        | FileObj f \<Rightarrow> (\<exists>q'. y = Some q' \<and> q' \<noteq> q \<and> k_obj k' q' = FileObj f)
        | _ \<Rightarrow> y = x))"

definition obj_type :: "obj \<Rightarrow> ResourceType" where
  "obj_type ob = (case ob of ProcObj _ \<Rightarrow> PROCESS | SemObj _ \<Rightarrow> SEMAPHORE | FileObj _ \<Rightarrow> FILE | DirObj _ \<Rightarrow> DIRECTORY | TableObj \<Rightarrow> TABLE)"

definition typed :: "'d kern \<Rightarrow> bool" where
  "typed k \<longleftrightarrow> (\<forall>q R. res (k_rs k) q = Some R \<longrightarrow> r_type R = obj_type (k_obj k q))"

text \<open>The copy of the table, with the files.\<close>

lemma fork_table_files:
  assumes inv: "rt_inv (k_rs k) {} {} ext" and T: "res (k_rs k) t = Some T" "r_type T = TABLE"
    and ok: "\<forall>x \<in> set (r_ptrs T). forkable (k_rs k) x (length (r_ptrs T))" and ty: "typed k"
    and files: "\<forall>q f. Some q \<in> set (r_ptrs T) \<and> k_obj k q = FileObj f \<longrightarrow> (\<exists>g. file_at (k_fs k) (ff_openFile f) = Inr g)"
  obtains rs tp T' fs' ob' where "table_forkMe t (k_rs k) = Inr (Some tp, rs)" "tp = nextRid (k_rs k)" "res rs tp = Some T'" "r_type T' = TABLE"
    "r_count T' = 0" "res rs t = Some T" "t < nextRid (k_rs k)" "nextRid (k_rs k) < nextRid rs" "length (r_ptrs T') = length (r_ptrs T)"
    "fork_files (zip (r_ptrs T) (r_ptrs T')) (k\<lparr>k_rs := rs\<rparr>) = Inr (k\<lparr>k_rs := rs, k_fs := fs', k_obj := ob'\<rparr>)"
    "more_refs (k_fs k) fs'" "\<forall>j < length (r_ptrs T). inherits k (k\<lparr>k_obj := ob'\<rparr>) (r_ptrs T ! j) (r_ptrs T' ! j)"
    "\<forall>j < length (r_ptrs T). \<forall>q. r_ptrs T' ! j = Some q \<longrightarrow> q \<noteq> tp \<and> q < nextRid rs"
proof -
  let ?n = "nextRid (k_rs k)" and ?xs = "r_ptrs T"
  from fork_entries_all [OF inv T ok] obtain rs tp T' where f: "table_forkMe t (k_rs k) = Inr (Some tp, rs)" "tp = ?n" "rt_inv rs {} {} ext"
    "res rs tp = Some T'" "r_type T' = TABLE" "r_count T' = 0" "length (r_ptrs T') = length ?xs"
    "\<forall>i < length ?xs. forked (k_rs k) rs (?xs ! i) (r_ptrs T' ! i)" "shared tp (k_rs k) (length ?xs) rs" by blast
  let ?ys = "r_ptrs T'"
  have t: "t < ?n" using rt_invD(2) [OF inv, of t] T(1) by blast
  have tpn: "tp < nextRid rs" using rt_invD(2) [OF f(3), of tp] f(4) by blast
  obtain c where c: "res rs t = Some (T\<lparr>r_count := c\<rparr>)" "r_type T \<in> {PROCESS, FILE, TABLE} \<longrightarrow> c = r_count T"
    by (rule sharedD [OF f(9) T(1) t]) (use t f(2) in auto)
  then have Tt: "res rs t = Some T" using T(2) by simp
  have old: "q < ?n \<and> q \<in> dom (res (k_rs k))" if "Some q \<in> set ?xs" for q
  proof -
    have "0 < count_list ?xs (Some q)" using that by (intro count_list_pos) simp
    then have "0 < indeg (k_rs k) {} q + ext q" using indeg_zombie [OF rt_invD(1) [OF inv] T(1), of "{}" q] by simp
    then have "q \<in> dom (res (k_rs k))" using rt_invD(5) [OF inv, of q] by simp
    then show ?thesis using rt_invD(2) [OF inv] by blast
  qed
  have kind: "\<exists>R. res (k_rs k) q = Some R \<and> r_type R = obj_type (k_obj k q)" if "Some q \<in> set ?xs" for q
    using old [OF that] ty unfolding typed_def by blast
  have F: "case k_obj k q of ProcObj _ \<Rightarrow> ?ys ! j = None
      | FileObj f \<Rightarrow> (\<exists>q'. ?ys ! j = Some q' \<and> ?n \<le> q' \<and> res rs q' = Some \<lparr>r_type = FILE, r_count = 1, r_ptrs = [], r_mutex = 1\<rparr>)
      | _ \<Rightarrow> ?ys ! j = Some q" if j: "j < length ?xs" "?xs ! j = Some q" for j q
  proof -
    have "Some q \<in> set ?xs" using j by (metis nth_mem)
    then obtain R where "res (k_rs k) q = Some R" "r_type R = obj_type (k_obj k q)" using kind by blast
    then show ?thesis using f(8) [rule_format, OF j(1)] j(2) by (cases "k_obj k q") (auto simp: forked_def obj_type_def)
  qed
  have new: "res rs q = Some \<lparr>r_type = FILE, r_count = 1, r_ptrs = [], r_mutex = 1\<rparr>" if "j < length ?xs" "?ys ! j = Some q" "?n \<le> q" for j q
  proof (cases "?xs ! j")
    case None
    then show ?thesis using f(8) that by (auto simp: forked_def)
  next
    case (Some q0)
    then have "q0 < ?n" using old that(1) by (metis nth_mem)
    then show ?thesis using F [OF that(1) Some] that by (auto split: obj.splits)
  qed
  have one: "count_list ?ys (Some q) \<le> 1" if q: "?n \<le> q" for q
  proof (cases "Some q \<in> set ?ys")
    case True
    then obtain j where "j < length ?ys" "?ys ! j = Some q" by (metis in_set_conv_nth)
    then have "res rs q = Some \<lparr>r_type = FILE, r_count = 1, r_ptrs = [], r_mutex = 1\<rparr>" using new q f(7) by simp
    then have "indeg rs {} q + ext q = 1" using rt_invD(6) [OF f(3), of q] by simp
    then show ?thesis using indeg_zombie [OF rt_invD(1) [OF f(3)] f(4), of "{}" q] by simp
  qed (simp add: count_list_0_iff)
  then have "\<forall>q. ?n \<le> q \<longrightarrow> count_list ?ys (Some q) \<le> 1" by blast
  note D = conjunct1 [OF distinct_new_ids [OF f(7) [symmetric] this]]
  have P: "\<forall>(x, y) \<in> set (zip ?xs ?ys). pair_ok ?n (k_obj (k\<lparr>k_rs := rs\<rparr>)) (k_fs (k\<lparr>k_rs := rs\<rparr>)) x y"
  proof (clarify)
    fix x y assume "(x, y) \<in> set (zip ?xs ?ys)"
    then obtain j where j: "j < length ?xs" "?xs ! j = x" "?ys ! j = y" by (auto simp: in_set_zip)
    then have x: "x \<in> set ?xs" by (metis nth_mem)
    then show "pair_ok ?n (k_obj (k\<lparr>k_rs := rs\<rparr>)) (k_fs (k\<lparr>k_rs := rs\<rparr>)) x y"
      using old F [OF j(1)] j(2,3) files by (auto simp: pair_ok_def)
  qed
  from fork_files_spec [OF P D] obtain fs' ob' where r:
    "fork_files (zip ?xs ?ys) (k\<lparr>k_rs := rs\<rparr>) = Inr (k\<lparr>k_rs := rs, k_fs := fs', k_obj := ob'\<rparr>)" "more_refs (k_fs k) fs'"
    "\<forall>(x, y) \<in> set (zip ?xs ?ys). \<forall>q f. x = Some q \<and> k_obj k q = FileObj f \<longrightarrow> (\<exists>q'. y = Some q' \<and> ?n \<le> q' \<and> ob' q' = FileObj f)"
    by auto
  have I: "inherits k (k\<lparr>k_obj := ob'\<rparr>) (?xs ! j) (?ys ! j)" if j: "j < length ?xs" for j
  proof (cases "?xs ! j")
    case None
    then show ?thesis using f(8) [rule_format, OF j] by (simp add: inherits_def forked_def)
  next
    case (Some q)
    have "(?xs ! j, ?ys ! j) \<in> set (zip ?xs ?ys)" using j f(7) by (auto simp: in_set_zip)
    then have "\<exists>q'. ?ys ! j = Some q' \<and> ?n \<le> q' \<and> ob' q' = FileObj g" if "k_obj k q = FileObj g" for g
      using r(3) Some that by fastforce
    moreover have "q < ?n" using old [of q] Some j by (metis nth_mem)
    ultimately show ?thesis using F [OF j Some] Some by (auto simp: inherits_def split: obj.splits)
  qed
  have B: "q \<noteq> tp \<and> q < nextRid rs" if j: "j < length ?xs" "?ys ! j = Some q" for j q
  proof -
    have "Some q \<in> set ?ys" using j f(7) by (metis nth_mem)
    then have "0 < count_list ?ys (Some q)" by (intro count_list_pos) simp
    then have "0 < indeg rs {} q + ext q" using indeg_zombie [OF rt_invD(1) [OF f(3)] f(4), of "{}" q] by simp
    then have q: "q \<in> dom (res rs)" using rt_invD(5) [OF f(3), of q] by simp
    have "q \<noteq> tp"
    proof
      assume "q = tp"
      then have "?n \<le> q" using f(2) by simp
      then show False using new [OF j] f(4,5) \<open>q = tp\<close> by simp
    qed
    then show ?thesis using q rt_invD(2) [OF f(3)] by blast
  qed
  show thesis by (rule that [OF f(1,2,4,5,6) Tt t _ f(7) r(1,2)]) (use I B tpn f(2) in auto)
qed


text \<open>A process that is new and made ready by a running process with interrupts on.\<close>

lemma start_new:
  assumes "current s = Some p" "procs s p = Some P" "disableCount P = 0" "p \<noteq> child" "idleProcess s \<noteq> Some child" "procs s child = Some C"
  shows "\<exists>s'. start child s = Inr s' \<and> current s' = Some p \<and> readyQueue s' = readyQueue s @ [child] \<and> procs s' p = Some P
    \<and> procs s' child = Some (C\<lparr>p_state := READY\<rparr>)"
proof -
  have P: "P\<lparr>disableCount := 0\<rparr> = P" using assms(3) by (cases P) simp
  show ?thesis
    using assms P by (simp add: start_def makeReady_def Let_def disable_def enable_def upd_proc_def get_proc_def)
qed

text \<open>
  C12. \<^verbatim>\<open>fork\<close>. The parent gets the first free handle, which stands for the child, and keeps its memory and
  other handles. The child waits at the end of the ready queue with two references, its handle and
  its own; it enters user mode where the parent made the call, on the same stack pointer and with
  \<^verbatim>\<open>eax\<close> 0, over a copy of the user part of the memory. Its table inherits slot by slot: a file becomes
  an own file at the offset of the parent's on the same open file, a semaphore and a directory are
  shared, and a process is not inherited. Of the file system only reference counts change.
\<close>
theorem fork_copies_process:
  assumes run: "current (k_sched k) = Some p" "procs (k_sched k) p = Some P" "disableCount P = 0"
    and fresh: "p < nextPid (k_sched k)" "idleProcess (k_sched k) \<noteq> Some (nextPid (k_sched k))" "k_table k p = t"
    and inv: "rt_inv (k_rs k) {} {} ext" and T: "res (k_rs k) t = Some T" "r_type T = TABLE" "r_mutex T \<noteq> 0"
    and ok: "\<forall>x \<in> set (r_ptrs T). forkable (k_rs k) x (length (r_ptrs T))" and ty: "typed k"
    and files: "\<forall>q f. Some q \<in> set (r_ptrs T) \<and> k_obj k q = FileObj f \<longrightarrow> (\<exists>g. file_at (k_fs k) (ff_openFile f) = Inr g)"
    and i: "i < length (r_ptrs T)" "2 \<le> i" "r_ptrs T ! i = None" "\<forall>j. 2 \<le> j \<and> j < i \<longrightarrow> r_ptrs T ! j \<noteq> None"
  defines "child \<equiv> nextPid (k_sched k)"
  shows "\<exists>k' r. syscallHandler fp v junk (pc, esp) 2 a0 a1 k = Inr (Ret (int i), k')
    \<and> t_slots t (k_rs k') = (r_ptrs T)[i := Some r] \<and> k_obj k' r = ProcObj child \<and> k_table k' p = t
    \<and> k_regs k' child = (pc, esp, 0) \<and> k_mem k' child = k_mem k p \<and> k_mem k' p = k_mem k p
    \<and> readyQueue (k_sched k') = readyQueue (k_sched k) @ [child]
    \<and> procs (k_sched k') p = Some P \<and> procs (k_sched k') child = Some (init_proc\<lparr>refCount := 2\<rparr>)
    \<and> length (t_slots (k_table k' child) (k_rs k')) = length (r_ptrs T)
    \<and> (\<forall>j < length (r_ptrs T). inherits k k' (r_ptrs T ! j) (t_slots (k_table k' child) (k_rs k') ! j))
    \<and> more_refs (k_fs k) (k_fs k')"
proof -
  obtain rs tp T' fs' ob' where f: "table_forkMe t (k_rs k) = Inr (Some tp, rs)" "tp = nextRid (k_rs k)" "res rs tp = Some T'"
    "r_type T' = TABLE" "r_count T' = 0" "res rs t = Some T" "t < nextRid (k_rs k)" "nextRid (k_rs k) < nextRid rs"
    "length (r_ptrs T') = length (r_ptrs T)"
    "fork_files (zip (r_ptrs T) (r_ptrs T')) (k\<lparr>k_rs := rs\<rparr>) = Inr (k\<lparr>k_rs := rs, k_fs := fs', k_obj := ob'\<rparr>)"
    "more_refs (k_fs k) fs'" "\<forall>j < length (r_ptrs T). inherits k (k\<lparr>k_obj := ob'\<rparr>) (r_ptrs T ! j) (r_ptrs T' ! j)"
    "\<forall>j < length (r_ptrs T). \<forall>q. r_ptrs T' ! j = Some q \<longrightarrow> q \<noteq> tp \<and> q < nextRid rs"
    by (rule fork_table_files [OF inv T(1,2) ok ty files])
  define r where "r = nextRid rs"
  have ne: "t \<noteq> tp" "t \<noteq> r" "tp \<noteq> r" "p \<noteq> child" "child \<noteq> p" using f(2,7,8) fresh(1) by (auto simp: r_def child_def)
  define rs2 where "rs2 = put_res r \<lparr>r_type = PROCESS, r_count = 1, r_ptrs = [Some tp], r_mutex = 1\<rparr>
     ((put_res tp (T'\<lparr>r_count := 1\<rparr>) rs)\<lparr>nextRid := Suc r\<rparr>)"
  have ref: "ref (Some tp) rs = Inr (Some tp, put_res tp (T'\<lparr>r_count := 1\<rparr>) rs)"
    using f(3,5) by (simp add: ref_def get_res_def getThenAdd_def)
  have new: "new_res PROCESS 1 [Some tp] (put_res tp (T'\<lparr>r_count := 1\<rparr>) rs) = (r, rs2)"
    by (simp add: new_res_def r_def rs2_def Let_def)
  have sl: "t_slots t (k_rs k) = r_ptrs T" "t_slots tp rs = r_ptrs T'" using T(1) f(3) by (simp_all add: t_slots_def)
  obtain s1 where s1: "new_process (k_sched k) = (child, s1)" by (simp add: new_process_def child_def)
  have S1: "current s1 = Some p" "procs s1 = (procs (k_sched k))(child \<mapsto> init_proc)" "readyQueue s1 = readyQueue (k_sched k)"
    "idleProcess s1 = idleProcess (k_sched k)" using s1 run(1) by (auto simp: new_process_def child_def)
  define k1 where "k1 = k\<lparr>k_rs := rs2, k_fs := fs', k_sched := s1, k_obj := ob'(r := ProcObj child, tp := TableObj),
     k_table := (k_table k)(child := tp), k_rid := (k_rid k)(child := r), k_name := (k_name k)(child := (0x1000, ''child'')),
     k_mem := (k_mem k)(child := k_mem k p)\<rparr>"
  have C: "new_Child p k = Inr ((child, r), k1)"
    using f(1,10) ref new s1 by (simp add: new_Child_def fresh(3) sl k1_def)
  have rs2: "res rs2 t = Some T" "res rs2 r = Some \<lparr>r_type = PROCESS, r_count = 1, r_ptrs = [Some tp], r_mutex = 1\<rparr>"
    "res rs2 tp = Some (T'\<lparr>r_count := 1\<rparr>)" using f(6) ne by (simp_all add: rs2_def)
  define rs3 where "rs3 = put_res t (T\<lparr>r_ptrs := (r_ptrs T)[i := Some r]\<rparr>)
     (put_res r \<lparr>r_type = PROCESS, r_count = 2, r_ptrs = [Some tp], r_mutex = 1\<rparr> rs2)"
  have O: "table_open t r rs2 = Inr (int i, rs3)"
    using table_open_first [OF rs2(1) ne(2) [symmetric] rs2(2) i(1,2,3) T(3) i(4)] by (simp add: rs3_def)
  define s2 where "s2 = upd_proc child (\<lambda>P. P\<lparr>refCount := refCount P + 1\<rparr>) s1"
  have R: "ref_proc child s1 = Inr s2" by (simp add: ref_proc_def get_proc_def S1(2) s2_def)
  have S2: "current s2 = Some p" "procs s2 p = Some P" "idleProcess s2 \<noteq> Some child" "procs s2 child = Some (init_proc\<lparr>refCount := 2\<rparr>)"
    "readyQueue s2 = readyQueue (k_sched k)"
    using S1 run(2) fresh(2) ne(4) by (simp_all add: s2_def upd_proc_def child_def init_proc_def)
  from start_new [OF S2(1,2) run(3) ne(4) S2(3,4)] obtain s3 where s3: "start child s2 = Inr s3" "readyQueue s3 = readyQueue (k_sched k) @ [child]"
    "procs s3 p = Some P" "procs s3 child = Some (init_proc\<lparr>refCount := 2\<rparr>)"
    using S2(5) by (auto simp: init_proc_def)
  define k' where "k' = k1\<lparr>k_regs := (k_regs k)(child := (pc, esp, 0)), k_rs := rs3, k_sched := s3\<rparr>"
  have H: "syscallHandler fp v junk (pc, esp) 2 a0 a1 k = Inr (Ret (int i), k')"
    using run(1) C O R s3(1) ne(4) fresh(3)
    by (simp add: syscallHandler_def sys_fork_def me_def k1_def k'_def ERR_NO_ID_def)
  have L: "t_slots t rs3 = (r_ptrs T)[i := Some r]" "t_slots tp rs3 = r_ptrs T'"
    using ne rs2(3) by (simp_all add: t_slots_def rs3_def)
  have I: "inherits k k' (r_ptrs T ! j) (r_ptrs T' ! j)" if j: "j < length (r_ptrs T)" for j
    using f(12) [rule_format, OF j] f(13) [rule_format, OF j]
    by (auto simp: inherits_def k'_def k1_def r_def split: option.splits obj.splits) (metis less_irrefl)+
  show ?thesis
    by (intro exI [of _ k'] exI [of _ r] conjI)
      (use H L I f(9,11) s3 ne fresh(3) in \<open>simp_all add: k'_def k1_def\<close>)
qed


lemma demo_open_table:
  "res (k_rs demo_open) 0 = Some \<lparr>r_type = TABLE, r_count = 1, r_ptrs = [None, Some 1, Some 2, Some 3, None], r_mutex = 1\<rparr>"
  by (simp add: demo_open_def)

lemma demo_open_inv: "rt_inv (k_rs demo_open) {} {} (\<lambda>q. if q = 0 \<or> q = 1 then 1 else 0)"
proof -
  have d: "dom (res (k_rs demo_open)) = {0, 1, 2, 3}" by (auto simp: demo_open_def demo_rs_def)
  have "indeg (k_rs demo_open) {} q = (if q = 1 \<or> q = 2 \<or> q = 3 then 1 else 0)" for q
    unfolding indeg_def d by (simp add: demo_open_def demo_rs_def)
  then show ?thesis unfolding rt_inv_def d by (auto simp: demo_open_def demo_rs_def)
qed

theorem fork_copies_process_witness:
  "\<exists>k' r q. syscallHandler rat_ldouble ide_driver (\<lambda>n. replicate n 0) (0x80000010, 0xeeeeee00) 2 0 0 demo_open = Inr (Ret 4, k')
    \<and> k_obj k' r = ProcObj 2 \<and> k_regs k' 2 = (0x80000010, 0xeeeeee00, 0) \<and> readyQueue (k_sched k') = [2]
    \<and> t_slots (k_table k' 2) (k_rs k') ! 3 = Some q \<and> q \<noteq> 3 \<and> k_obj k' q = FileObj (new_File 5)"
proof -
  let ?T = "\<lparr>r_type = TABLE, r_count = 1, r_ptrs = [None, Some 1, Some 2, Some 3, None], r_mutex = 1\<rparr>"
  have f: "k_fs demo_open = small_fs" "k_obj demo_open = (\<lambda>r. if r = 3 then FileObj (new_File 5) else if r = 0 then TableObj
      else if r = 1 then DirObj small_root else SemObj 2)" "k_table demo_open 0 = 0" "k_sched demo_open = booted (\<lambda>_. 1)"
    by (simp_all add: demo_open_def demo_kern_def fun_eq_iff)
  have s: "current (k_sched demo_open) = Some 0" "procs (k_sched demo_open) 0 = Some (init_proc\<lparr>p_state := RUNNING\<rparr>)"
    "disableCount (init_proc\<lparr>p_state := RUNNING\<rparr>) = 0" "0 < nextPid (k_sched demo_open)"
    "idleProcess (k_sched demo_open) \<noteq> Some (nextPid (k_sched demo_open))"
    by (simp_all add: f booted_def init_proc_def)
  have t: "typed demo_open" by (auto simp: typed_def f(2) obj_type_def) (auto simp: demo_open_def demo_rs_def split: if_splits)
  have o: "\<forall>x \<in> set (r_ptrs ?T). forkable (k_rs demo_open) x (length (r_ptrs ?T))"
    by (simp add: forkable_def demo_open_def demo_rs_def)
  have g: "\<forall>q f. Some q \<in> set (r_ptrs ?T) \<and> k_obj demo_open q = FileObj f \<longrightarrow> (\<exists>g. file_at (k_fs demo_open) (ff_openFile f) = Inr g)"
    by (auto simp: f new_File_def small_fs_def file_at_def slot_at_def)
  have i: "4 < length (r_ptrs ?T)" "2 \<le> (4 :: nat)" "r_ptrs ?T ! 4 = None" "\<forall>j. 2 \<le> j \<and> j < 4 \<longrightarrow> r_ptrs ?T ! j \<noteq> None"
    by (auto simp: less_Suc_eq eval_nat_numeral)
  have m: "r_type ?T = TABLE" "r_mutex ?T \<noteq> 0" by simp_all
  have n: "nextPid (k_sched demo_open) = 2" "readyQueue (k_sched demo_open) = []" by (simp_all add: f booted_def empty_sched_def)
  obtain k' r where k': "syscallHandler rat_ldouble ide_driver (\<lambda>n. replicate n 0) (0x80000010, 0xeeeeee00) 2 0 0 demo_open = Inr (Ret (int 4), k')"
    "k_obj k' r = ProcObj 2" "k_regs k' 2 = (0x80000010, 0xeeeeee00, 0)" "readyQueue (k_sched k') = [] @ [2]"
    "\<forall>j < length (r_ptrs ?T). inherits demo_open k' (r_ptrs ?T ! j) (t_slots (k_table k' 2) (k_rs k') ! j)"
    using fork_copies_process [OF s(1-3,4,5) f(3) demo_open_inv demo_open_table m o t g i, of rat_ldouble ide_driver "\<lambda>n. replicate n 0"
      "0x80000010" "0xeeeeee00" 0 0, unfolded n] by blast
  have "r_ptrs ?T ! 3 = Some 3" by (simp add: numeral_3_eq_3)
  then have "\<exists>q. t_slots (k_table k' 2) (k_rs k') ! 3 = Some q \<and> q \<noteq> 3 \<and> k_obj k' q = FileObj (new_File 5)"
    using k'(5) [rule_format, of 3] by (simp add: inherits_def f(2))
  then show ?thesis using k'(1-4) by auto
qed

end
