(* ===== verification/Sys_Types.thy ===== *)
theory Sys_Types
  imports Sys_Fork
begin

text \<open>
  The types of objects. A handle is looked up with a type, and the code casts the object behind it to
  the class of that type. The theory shows that in every state the system calls reach, the
  type stored in a resource is the class of its object, so that none of these casts is wrong.
\<close>

section \<open>Well-formed resources\<close>

text \<open>
  Pointers lead to objects that have been made, though perhaps deleted since, and no table is in a
  table.
\<close>

definition is_table :: "rstate \<Rightarrow> rid \<Rightarrow> bool" where
  "is_table rs q \<longleftrightarrow> (\<exists>R. res rs q = Some R \<and> r_type R = TABLE)"

definition wf_rs :: "rstate \<Rightarrow> bool" where
  "wf_rs rs \<longleftrightarrow> (\<forall>q R. res rs q = Some R \<longrightarrow> q < nextRid rs
     \<and> (\<forall>x. Some x \<in> set (r_ptrs R) \<longrightarrow> x < nextRid rs \<and> (r_type R = TABLE \<longrightarrow> \<not> is_table rs x)))"

text \<open>No new objects, and the old ones keep their types.\<close>

definition type_keeping :: "rstate \<Rightarrow> rstate \<Rightarrow> bool" where
  "type_keeping rs rs' \<longleftrightarrow> nextRid rs' = nextRid rs \<and> (\<forall>q R'. res rs' q = Some R' \<longrightarrow> (\<exists>R. res rs q = Some R \<and> r_type R' = r_type R))
   \<and> (wf_rs rs \<longrightarrow> wf_rs rs')"

lemma tk_refl [simp]: "type_keeping rs rs" by (simp add: type_keeping_def)

lemma tk_trans: "type_keeping a b \<Longrightarrow> type_keeping b c \<Longrightarrow> type_keeping a c"
  unfolding type_keeping_def by fastforce

lemma tk_table: "type_keeping a b \<Longrightarrow> is_table b q \<Longrightarrow> is_table a q"
  unfolding type_keeping_def is_table_def by metis

lemma tk_put:
  assumes "res st p = Some r" "r_type r' = r_type r"
    and "\<And>x. Some x \<in> set (r_ptrs r') \<Longrightarrow> Some x \<in> set (r_ptrs r) \<or> x < nextRid st \<and> \<not> is_table st x"
  shows "type_keeping st (put_res p r' st)"
proof -
  have t: "is_table (put_res p r' st) x \<longleftrightarrow> is_table st x" for x using assms(1,2) by (auto simp: is_table_def)
  have "wf_rs (put_res p r' st)" if w: "wf_rs st"
    unfolding wf_rs_def t
  proof (intro allI impI)
    fix q R assume a: "res (put_res p r' st) q = Some R"
    show "q < nextRid (put_res p r' st) \<and> (\<forall>x. Some x \<in> set (r_ptrs R) \<longrightarrow> x < nextRid (put_res p r' st) \<and> (r_type R = TABLE \<longrightarrow> \<not> is_table st x))"
    proof (cases "q = p")
      case True
      then show ?thesis using a w assms unfolding wf_rs_def by auto
    next
      case False
      then show ?thesis using a w unfolding wf_rs_def by auto
    qed
  qed
  then show ?thesis using assms(1,2) by (auto simp: type_keeping_def)
qed

lemma tk_del: "type_keeping st (st\<lparr>res := (res st)(p := None)\<rparr>)"
proof -
  have "is_table (st\<lparr>res := (res st)(p := None)\<rparr>) x \<Longrightarrow> is_table st x" for x by (auto simp: is_table_def split: if_splits)
  then show ?thesis unfolding type_keeping_def wf_rs_def by (auto split: if_splits)
qed

lemma tk_loop:
  assumes "\<And>i s s'. i \<in> set is \<Longrightarrow> f i s = Inr s' \<Longrightarrow> type_keeping s s'" "loopE f is s = Inr s'"
  shows "type_keeping s s'"
  using assms
proof (induction "is" arbitrary: s)
  case (Cons i "is")
  then obtain s1 where "f i s = Inr s1" "loopE f is s1 = Inr s'" by auto
  then show ?case using Cons tk_trans by (metis list.set_intros)
qed simp

named_theorems keeping \<open>the operations on resources that keep types\<close>

lemma tk_lock [keeping]: "t_lock t st = Inr st' \<Longrightarrow> type_keeping st st'"
  by (auto simp: t_lock_def get_res_def intro!: tk_put split: option.splits if_splits)

lemma tk_unlock [keeping]: "t_unlock t st = Inr st' \<Longrightarrow> type_keeping st st'"
  by (auto simp: t_unlock_def get_res_def intro!: tk_put split: option.splits)

lemma tk_ref [keeping]: "ref x st = Inr (y, st') \<Longrightarrow> type_keeping st st'"
  by (auto simp: ref_def get_res_def getThenAdd_def intro!: tk_put split: option.splits)

lemma tk_clear [keeping]: "slot_set t i None st = Inr st' \<Longrightarrow> type_keeping st st'"
  by (auto simp: slot_set_def get_res_def intro!: tk_put dest: set_update_subset_insert [THEN subsetD] split: option.splits if_splits)

lemma tk_set:
  "slot_set t i (Some p) st = Inr st' \<Longrightarrow> p < nextRid st \<Longrightarrow> \<not> is_table st p \<Longrightarrow> type_keeping st st'"
  by (auto simp: slot_set_def get_res_def intro!: tk_put dest: set_update_subset_insert [THEN subsetD] split: option.splits if_splits)

lemma tk_unref: "unref fuel x st = Inr (y, st') \<Longrightarrow> type_keeping st st'"
proof (induction fuel x st arbitrary: y st' rule: unref.induct)
  case (3 fuel p st)
  obtain r where r: "res st p = Some r" using 3(2) by (auto simp: get_res_def split: option.splits)
  define st1 where "st1 = put_res p (r\<lparr>r_count := r_count r + -1\<rparr>) st"
  have k1: "type_keeping st st1" unfolding st1_def by (rule tk_put [OF r]) auto
  show ?case
  proof (cases "r_count r = 1")
    case False
    then show ?thesis using 3(2) r k1 by (simp add: get_res_def getThenAdd_def st1_def)
  next
    case True
    then obtain st2 where l: "loopE (\<lambda>i s. bindE (slot_get p i s) (\<lambda>x. bindE (unref fuel x s) (\<lambda>(_, s). slot_set p i None s)))
        [0..<length (r_ptrs r)] st1 = Inr st2" "st' = st2\<lparr>res := (res st2)(p := None)\<rparr>"
      using 3(2) r by (auto simp: get_res_def getThenAdd_def st1_def)
    have "type_keeping st1 st2"
    proof (rule tk_loop [OF _ l(1)])
      fix i s s' assume i: "i \<in> set [0..<length (r_ptrs r)]"
        and "bindE (slot_get p i s) (\<lambda>x. bindE (unref fuel x s) (\<lambda>(_, s). slot_set p i None s)) = Inr s'"
      then obtain x y s1 where x: "slot_get p i s = Inr x" "unref fuel x s = Inr (y, s1)" "slot_set p i None s1 = Inr s'" by auto
      have "type_keeping s s1" by (rule "3.IH" [OF _ _ _ _ _ x(1,2)]) (use r True in \<open>simp_all add: get_res_def getThenAdd_def\<close>)
      then show "type_keeping s s'" using tk_clear [OF x(3)] tk_trans by blast
    qed
    then show ?thesis unfolding l(2) using k1 tk_del tk_trans by blast
  qed
qed auto

lemma tk_unref_all [keeping]: "unref_all x st = Inr (y, st') \<Longrightarrow> type_keeping st st'"
  unfolding unref_all_def by (rule tk_unref)


lemma tk_close [keeping]: "table_close t i st = Inr (c, st') \<Longrightarrow> type_keeping st st'"
  unfolding table_close_def by (auto split: if_splits prod.splits dest!: keeping) (metis tk_trans)+

lemma tk_closeAll [keeping]: "closeAll t st = Inr st' \<Longrightarrow> type_keeping st st'"
proof -
  assume "closeAll t st = Inr st'"
  then obtain st1 n st2 where o: "t_lock t st = Inr st1" "loopE (\<lambda>i s. bindE (slot_get t i s) (\<lambda>x.
      bindE (unref_all x s) (\<lambda>(_, s). slot_set t i None s))) [2..<n] st1 = Inr st2" "t_unlock t st2 = Inr st'"
    by (auto simp: closeAll_def)
  have "type_keeping st1 st2"
    by (rule tk_loop [OF _ o(2)]) (auto dest!: keeping intro: tk_trans)
  then show ?thesis using tk_lock [OF o(1)] tk_unlock [OF o(3)] tk_trans by blast
qed

lemma tk_closeWD [keeping]: "closeWorkingDir t st = Inr (c, st') \<Longrightarrow> type_keeping st st'"
  unfolding closeWorkingDir_def by (auto split: if_splits option.splits prod.splits dest!: keeping) (metis tk_trans)+

lemma ref_Some: "ref (Some p) st = Inr (y, st') \<Longrightarrow> y = Some p \<and> (\<exists>r. res st p = Some r)"
  by (auto simp: ref_def get_res_def getThenAdd_def split: option.splits)

text \<open>A new pointer in a table: to an object that is there and is not a table.\<close>

lemma tk_ref_set:
  assumes "ref (Some p) st = Inr (y, st1)" "slot_set t i y st1 = Inr st2" "wf_rs st" "\<not> is_table st p"
  shows "type_keeping st st2"
proof -
  have r: "y = Some p" "\<exists>r. res st p = Some r" using ref_Some [OF assms(1)] by blast+
  have k: "type_keeping st st1" by (rule tk_ref [OF assms(1)])
  have "p < nextRid st1" using r(2) assms(3) k by (auto simp: wf_rs_def type_keeping_def)
  moreover have "\<not> is_table st1 p" using tk_table [OF k] assms(4) by blast
  ultimately show ?thesis using tk_set assms(2) r(1) k tk_trans by blast
qed

lemma tk_open_loop: "open_loop t p is st = Inr (c, st') \<Longrightarrow> wf_rs st \<Longrightarrow> \<not> is_table st p \<Longrightarrow> type_keeping st st'"
  by (induction t p "is" st rule: open_loop.induct) (auto split: if_splits dest: tk_ref_set)

lemma tk_open:
  assumes "table_open t p st = Inr (c, st')" "wf_rs st" "\<not> is_table st p"
  shows "type_keeping st st'"
proof -
  obtain st1 n st2 where o: "t_lock t st = Inr st1" "open_loop t p [2..<n] st1 = Inr (c, st2)" "t_unlock t st2 = Inr st'"
    using assms(1) by (auto simp: table_open_def)
  have k: "type_keeping st st1" by (rule tk_lock [OF o(1)])
  have "type_keeping st1 st2" by (rule tk_open_loop [OF o(2)]) (use k assms(2,3) tk_table [OF k] in \<open>auto simp: type_keeping_def\<close>)
  then show ?thesis using k tk_unlock [OF o(3)] tk_trans by blast
qed

lemma tk_addWD:
  assumes "addWorkingDir t p st = Inr (c, st')" "wf_rs st"
  shows "type_keeping st st'"
proof -
  obtain st1 r where o: "t_lock t st = Inr st1" "res st1 p = Some r"
    using assms(1) by (auto simp: addWorkingDir_def get_res_def split: option.splits)
  have k: "type_keeping st st1" by (rule tk_lock [OF o(1)])
  show ?thesis
  proof (cases "r_type r = DIRECTORY")
    case False
    then show ?thesis using assms(1) o k by (auto simp: addWorkingDir_def get_res_def dest!: keeping intro: tk_trans)
  next
    case True
    then obtain x st2 y st3 st4 where s: "(if x \<noteq> None then bindE (unref_all x st1) (\<lambda>(_, st). Inr st) else Inr st1) = Inr st2"
      "ref (Some p) st2 = Inr (y, st3)" "slot_set t 1 y st3 = Inr st4" "t_unlock t st4 = Inr st'"
      using assms(1) o by (auto simp: addWorkingDir_def get_res_def)
    have k2: "type_keeping st1 st2" using s(1) by (auto split: if_splits dest: keeping)
    then have k3: "type_keeping st st2" using k tk_trans by blast
    have "\<not> is_table st1 p" using True o(2) by (simp add: is_table_def)
    then have "\<not> is_table st2 p" using tk_table [OF k2] by blast
    then have "type_keeping st2 st4" using tk_ref_set [OF s(2,3)] k3 assms(2) by (auto simp: type_keeping_def)
    then show ?thesis using k3 tk_unlock [OF s(4)] tk_trans by blast
  qed
qed


section \<open>Copies of tables\<close>

definition is_file :: "rstate \<Rightarrow> rid option \<Rightarrow> bool" where
  "is_file rs x \<longleftrightarrow> (\<exists>q R. x = Some q \<and> res rs q = Some R \<and> r_type R = FILE)"

definition is_shared :: "rstate \<Rightarrow> rid option \<Rightarrow> bool" where
  "is_shared rs x \<longleftrightarrow> (\<exists>q R. x = Some q \<and> res rs q = Some R \<and> r_type R \<noteq> FILE \<and> r_type R \<noteq> TABLE)"

text \<open>The old objects of a fork: only their counts change.\<close>

definition counts_only :: "rstate \<Rightarrow> rstate \<Rightarrow> bool" where
  "counts_only rs s \<longleftrightarrow> (\<forall>q R. q < nextRid rs \<and> res s q = Some R \<longrightarrow>
     (\<exists>R0. res rs q = Some R0 \<and> r_type R = r_type R0 \<and> r_ptrs R = r_ptrs R0))"

text \<open>
  After \<open>i\<close> slots: the copy \<open>nextRid rs\<close> of a table with slots \<open>xs\<close> has the slots \<open>ys\<close>; all other new
  objects are files, each in a slot where \<open>xs\<close> has a file.
\<close>

definition fork_at :: "rstate \<Rightarrow> rid option list \<Rightarrow> nat \<Rightarrow> rid option list \<Rightarrow> rstate \<Rightarrow> bool" where
  "fork_at rs xs i ys s \<longleftrightarrow> nextRid rs < nextRid s \<and> counts_only rs s \<and> length ys = length xs
   \<and> (\<exists>R. res s (nextRid rs) = Some R \<and> r_type R = TABLE \<and> r_ptrs R = ys)
   \<and> (\<forall>q R. nextRid rs < q \<and> res s q = Some R \<longrightarrow> q < nextRid s \<and> r_type R = FILE \<and> r_ptrs R = []
        \<and> (\<exists>j < i. j < length xs \<and> ys ! j = Some q \<and> is_file rs (xs ! j)))
   \<and> (\<forall>j < length xs. \<forall>q. ys ! j = Some q \<longrightarrow> j < i \<and> (q < nextRid rs \<and> xs ! j = Some q \<and> is_shared rs (xs ! j) \<or> nextRid rs < q \<and> q < nextRid s))"

lemma fork_at_start:
  assumes "wf_rs rs" "new_Table (length xs) rs = (tp, s)"
  shows "tp = nextRid rs" "fork_at rs xs 0 (replicate (length xs) None) s"
proof -
  have s: "tp = nextRid rs" "s = put_res (nextRid rs) \<lparr>r_type = TABLE, r_count = 0, r_ptrs = replicate (length xs) None, r_mutex = 1\<rparr>
      (rs\<lparr>nextRid := Suc (nextRid rs)\<rparr>)" using assms(2) by (auto simp: new_Table_def new_res_def Let_def)
  then show "tp = nextRid rs" by simp
  have "q < nextRid rs" if "res rs q = Some R" for q R using assms(1) that by (simp add: wf_rs_def)
  then show "fork_at rs xs 0 (replicate (length xs) None) s"
    by (auto simp: fork_at_def counts_only_def s(2) split: if_splits dest: less_asym)
qed

lemma fork_at_set:
  assumes F: "fork_at rs xs i ys s" and i: "i < length xs" and "slot_set (nextRid rs) i y s = Inr s'"
    and y: "\<And>q. y = Some q \<Longrightarrow> q < nextRid rs \<and> xs ! i = Some q \<and> is_shared rs (xs ! i)"
  shows "fork_at rs xs (Suc i) (ys[i := y]) s'"
proof -
  obtain R where R: "res s (nextRid rs) = Some R" "r_type R = TABLE" "r_ptrs R = ys" using F by (auto simp: fork_at_def)
  have l: "length ys = length xs" using F by (simp add: fork_at_def)
  have s': "s' = put_res (nextRid rs) (R\<lparr>r_ptrs := ys[i := y]\<rparr>) s"
    using assms(3) R i l by (auto simp: slot_set_def get_res_def)
  have "\<exists>j < Suc i. j < length xs \<and> ys[i := y] ! j = Some q \<and> is_file rs (xs ! j)"
    if q: "nextRid rs < q" "res s q = Some R'" for q R'
  proof -
    obtain j where "j < i" "j < length xs" "ys ! j = Some q" "is_file rs (xs ! j)" using F q unfolding fork_at_def by blast
    then show ?thesis by (intro exI [of _ j]) simp
  qed
  moreover have "j < Suc i \<and> (q < nextRid rs \<and> xs ! j = Some q \<and> is_shared rs (xs ! j) \<or> nextRid rs < q \<and> q < nextRid s)"
    if "j < length xs" "ys[i := y] ! j = Some q" for j q
  proof (cases "j = i")
    case True
    then have "y = Some q" using that(2) l i by simp
    then show ?thesis unfolding True using y lessI by blast
  next
    case False
    then have "ys ! j = Some q" using that(2) by simp
    then have "j < i \<and> (q < nextRid rs \<and> xs ! j = Some q \<and> is_shared rs (xs ! j) \<or> nextRid rs < q \<and> q < nextRid s)"
      using F that(1) unfolding fork_at_def by blast
    then show ?thesis by simp
  qed
  ultimately show ?thesis using F R l unfolding fork_at_def counts_only_def s' by auto
qed

lemma fork_at_file:
  assumes F: "fork_at rs xs i ys s" and i: "i < length xs" and f: "is_file rs (xs ! i)"
    and "slot_set (nextRid rs) i (Some (nextRid s)) (put_res (nextRid s) \<lparr>r_type = FILE, r_count = c, r_ptrs = [], r_mutex = 1\<rparr> (s\<lparr>nextRid := Suc (nextRid s)\<rparr>)) = Inr s'"
  shows "fork_at rs xs (Suc i) (ys[i := Some (nextRid s)]) s'"
proof -
  let ?n = "nextRid s" and ?N = "\<lparr>r_type = FILE, r_count = c, r_ptrs = [], r_mutex = 1\<rparr>"
  obtain R where R: "res s (nextRid rs) = Some R" "r_type R = TABLE" "r_ptrs R = ys" using F by (auto simp: fork_at_def)
  have l: "length ys = length xs" "nextRid rs < ?n" using F by (simp_all add: fork_at_def)
  have s': "s' = put_res (nextRid rs) (R\<lparr>r_ptrs := ys[i := Some ?n]\<rparr>) (put_res ?n ?N (s\<lparr>nextRid := Suc ?n\<rparr>))"
    using assms(4) R i l by (auto simp: slot_set_def get_res_def)
  have "\<exists>j < Suc i. j < length xs \<and> ys[i := Some ?n] ! j = Some q \<and> is_file rs (xs ! j)"
    if q: "nextRid rs < q" "q = ?n \<or> res s q = Some R'" for q R'
  proof (cases "q = ?n")
    case True
    then show ?thesis using i f l by (intro exI [of _ i]) simp
  next
    case False
    then obtain j where "j < i" "j < length xs" "ys ! j = Some q" "is_file rs (xs ! j)" using F q unfolding fork_at_def by blast
    then show ?thesis by (intro exI [of _ j]) simp
  qed
  moreover have "j < Suc i \<and> (q < nextRid rs \<and> xs ! j = Some q \<and> is_shared rs (xs ! j) \<or> nextRid rs < q \<and> q < Suc ?n)"
    if "j < length xs" "ys[i := Some ?n] ! j = Some q" for j q
  proof (cases "j = i")
    case True
    then show ?thesis using that l i by simp
  next
    case False
    then have "ys ! j = Some q" using that(2) by simp
    then have "j < i \<and> (q < nextRid rs \<and> xs ! j = Some q \<and> is_shared rs (xs ! j) \<or> nextRid rs < q \<and> q < nextRid s)"
      using F that(1) unfolding fork_at_def by blast
    then show ?thesis by auto
  qed
  moreover have "q < Suc ?n" if "nextRid rs < q" "res s q = Some R'" for q R'
    using F that unfolding fork_at_def by (meson less_SucI)
  ultimately show ?thesis using F R l unfolding fork_at_def counts_only_def s' by (auto split: if_splits)
qed


lemma fork_at_ref:
  assumes F: "fork_at rs xs i ys s" and r: "ref (Some q) s = Inr (y, s')" "q < nextRid rs"
  shows "fork_at rs xs i ys s'" "y = Some q"
proof -
  obtain R where R: "res s q = Some R" "s' = put_res q (R\<lparr>r_count := r_count R + 1\<rparr>) s" "y = Some q"
    using r(1) by (auto simp: ref_def get_res_def getThenAdd_def add.commute split: option.splits)
  have "counts_only rs s'" using F R(1) unfolding R(2) by (auto simp: fork_at_def counts_only_def)
  then show "fork_at rs xs i ys s'" using F r(2) unfolding R(2) fork_at_def by auto
  show "y = Some q" by (rule R(3))
qed

lemma fork_slots:
  assumes w: "wf_rs rs" and T: "res rs t = Some T" "r_type T = TABLE" and F: "fork_at rs (r_ptrs T) i ys s" and i: "i < length (r_ptrs T)"
    and e: "bindE (slot_get t i s) (\<lambda>x. case x of None \<Rightarrow> slot_set (nextRid rs) i None s
      | Some q \<Rightarrow> bindE (forkMe fuel q s) (\<lambda>(y, s). slot_set (nextRid rs) i y s)) = Inr s'"
  shows "\<exists>ys'. fork_at rs (r_ptrs T) (Suc i) ys' s'"
proof -
  have t: "t < nextRid rs" using w T(1) by (simp add: wf_rs_def)
  have g: "slot_get t i s = Inr (r_ptrs T ! i)"
  proof -
    obtain R where R: "res s t = Some R" using e by (auto simp: slot_get_def get_res_def split: option.splits)
    have "counts_only rs s" using F by (simp add: fork_at_def)
    then have "r_ptrs R = r_ptrs T" using R t T(1) unfolding counts_only_def by force
    then show ?thesis using R i by (simp add: slot_get_def get_res_def)
  qed
  show ?thesis
  proof (cases "r_ptrs T ! i")
    case None
    then show ?thesis using fork_at_set [OF F i, of None] e g by auto
  next
    case (Some q)
    then have "Some q \<in> set (r_ptrs T)" using i by (metis nth_mem)
    then have q: "q < nextRid rs" "\<not> is_table rs q" using w T unfolding wf_rs_def by blast+
    obtain y s1 where f: "forkMe fuel q s = Inr (y, s1)" "slot_set (nextRid rs) i y s1 = Inr s'" using e g Some by auto
    then obtain f' where fuel: "fuel = Suc f'" by (cases fuel) auto
    obtain R where R: "res s q = Some R" using f(1) fuel by (auto simp: get_res_def split: option.splits)
    then obtain R0 where R0: "res rs q = Some R0" "r_type R = r_type R0" using F q(1) unfolding fork_at_def counts_only_def by blast
    have it: "is_file rs (r_ptrs T ! i) \<longleftrightarrow> r_type R = FILE" using Some R0 by (simp add: is_file_def)
    have "r_type R0 \<noteq> TABLE" using q(2) R0(1) by (auto simp: is_table_def)
    then have sh: "is_shared rs (r_ptrs T ! i) \<longleftrightarrow> r_type R \<noteq> FILE" using Some R0 by (simp add: is_shared_def)
    have shared: ?thesis if "r_type R \<noteq> FILE" "ref (Some q) s = Inr (y, s1)"
    proof -
      note r = fork_at_ref [OF F that(2) q(1)]
      show ?thesis using fork_at_set [OF r(1) i f(2)] r(2) q(1) Some sh that(1) by auto
    qed
    show ?thesis
    proof (cases "r_type R")
      case FILE
      then have "y = Some (nextRid s)" "s1 = put_res (nextRid s) \<lparr>r_type = FILE, r_count = r_count R, r_ptrs = [], r_mutex = 1\<rparr> (s\<lparr>nextRid := Suc (nextRid s)\<rparr>)"
        using f(1) R fuel by (simp_all add: get_res_def new_res_def Let_def)
      then show ?thesis using fork_at_file [OF F i _ f(2) [unfolded \<open>y = _\<close> \<open>s1 = _\<close>]] FILE it by blast
    next
      case PROCESS
      then have "y = None" "s1 = s" using f(1) R fuel by (simp_all add: get_res_def)
      then show ?thesis using fork_at_set [OF F i, of None] f(2) by auto
    next
      case TABLE
      then show ?thesis using q(2) R0 by (simp add: is_table_def)
    next
    qed (rule shared; use f(1) R fuel in \<open>simp add: get_res_def\<close>)+
  qed
qed

lemma fork_table_types:
  assumes w: "wf_rs rs" and T: "res rs t = Some T" "r_type T = TABLE" and f: "table_forkMe t rs = Inr (x, s)"
  shows "x = Some (nextRid rs) \<and> (\<exists>ys. fork_at rs (r_ptrs T) (length (r_ptrs T)) ys s)"
proof -
  let ?xs = "r_ptrs T"
  obtain tp s0 where n: "new_Table (length ?xs) rs = (tp, s0)" by fastforce
  note N = fork_at_start [OF w n]
  have l: "x = Some tp" "loopE (\<lambda>i s. bindE (slot_get t i s) (\<lambda>x. case x of None \<Rightarrow> slot_set tp i None s
      | Some q \<Rightarrow> bindE (forkMe (nextRid rs) q s) (\<lambda>(y, s). slot_set tp i y s))) [0..<length ?xs] s0 = Inr s"
    using f T n by (auto simp: table_forkMe_def get_res_def)
  have "(\<exists>e. loopE (\<lambda>i s. bindE (slot_get t i s) (\<lambda>x. case x of None \<Rightarrow> slot_set tp i None s
      | Some q \<Rightarrow> bindE (forkMe (nextRid rs) q s) (\<lambda>(y, s). slot_set tp i y s))) [0..<length ?xs] s0 = Inl e \<and> True)
    \<or> (\<exists>s'. loopE (\<lambda>i s. bindE (slot_get t i s) (\<lambda>x. case x of None \<Rightarrow> slot_set tp i None s
      | Some q \<Rightarrow> bindE (forkMe (nextRid rs) q s) (\<lambda>(y, s). slot_set tp i y s))) [0..<length ?xs] s0 = Inr s'
        \<and> (\<exists>ys. fork_at rs ?xs (length ?xs) ys s'))"
  proof (rule loopE_upt_inv [where I = "\<lambda>i s. \<exists>ys. fork_at rs ?xs i ys s" and E = "\<lambda>_. True"])
    fix i s1 assume i: "i < length ?xs" "\<exists>ys. fork_at rs ?xs i ys s1"
    let ?f = "bindE (slot_get t i s1) (\<lambda>x. case x of None \<Rightarrow> slot_set tp i None s1
      | Some q \<Rightarrow> bindE (forkMe (nextRid rs) q s1) (\<lambda>(y, s). slot_set tp i y s))"
    show "(\<exists>e. ?f = Inl e \<and> True) \<or> (\<exists>s'. ?f = Inr s' \<and> (\<exists>ys. fork_at rs ?xs (Suc i) ys s'))"
    proof (cases ?f)
      case (Inr s')
      obtain ys where "fork_at rs ?xs i ys s1" using i(2) by blast
      from fork_slots [OF w T this i(1) Inr [unfolded N(1)]] show ?thesis using Inr by blast
    qed blast
  qed (use N in auto)
  then show ?thesis using l N(1) by auto
qed


section \<open>Well-typed kernels\<close>

definition well_typed :: "'d kern \<Rightarrow> bool" where
  "well_typed k \<longleftrightarrow> typed k \<and> wf_rs (k_rs k)
   \<and> (\<forall>p. k_table k p < nextRid (k_rs k) \<and> (\<forall>R. res (k_rs k) (k_table k p) = Some R \<longrightarrow> r_type R = TABLE))"

lemma wt_same:
  assumes "well_typed k" "k_rs k' = k_rs k" "k_obj k' = k_obj k" "k_table k' = k_table k"
  shows "well_typed k'"
  using assms(1) unfolding well_typed_def typed_def assms(2-4) .

lemma obj_type_simps [simp]:
  "obj_type (ProcObj p) = PROCESS" "obj_type (SemObj n) = SEMAPHORE" "obj_type (FileObj f) = FILE" "obj_type (DirObj d) = DIRECTORY"
  "obj_type TableObj = TABLE"
  by (simp_all add: obj_type_def)

lemma wt_keeps: "well_typed k \<Longrightarrow> type_keeping (k_rs k) rs \<Longrightarrow> well_typed (k\<lparr>k_rs := rs\<rparr>)"
  unfolding well_typed_def typed_def type_keeping_def by simp metis

lemma wt_obj: "well_typed k \<Longrightarrow> obj_type ob = obj_type (k_obj k r) \<Longrightarrow> well_typed (k\<lparr>k_obj := (k_obj k)(r := ob)\<rparr>)"
  by (auto simp: well_typed_def typed_def)

lemma wf_new:
  assumes "wf_rs rs" "new_res ty c ptrs rs = (r, rs')" "\<And>x. Some x \<in> set ptrs \<Longrightarrow> x < nextRid rs \<and> ty \<noteq> TABLE"
  shows "wf_rs rs'" "r = nextRid rs" "nextRid rs' = Suc (nextRid rs)" "res rs' = (res rs)(r \<mapsto> \<lparr>r_type = ty, r_count = c, r_ptrs = ptrs, r_mutex = 1\<rparr>)"
proof -
  show e: "r = nextRid rs" "nextRid rs' = Suc (nextRid rs)" "res rs' = (res rs)(r \<mapsto> \<lparr>r_type = ty, r_count = c, r_ptrs = ptrs, r_mutex = 1\<rparr>)"
    using assms(2) by (auto simp: new_res_def Let_def)
  have t: "is_table rs' x \<longleftrightarrow> is_table rs x" if "x < nextRid rs" for x using that e by (simp add: is_table_def)
  show "wf_rs rs'"
    unfolding wf_rs_def
  proof (intro allI impI)
    fix q R assume a: "res rs' q = Some R"
    show "q < nextRid rs' \<and> (\<forall>x. Some x \<in> set (r_ptrs R) \<longrightarrow> x < nextRid rs' \<and> (r_type R = TABLE \<longrightarrow> \<not> is_table rs' x))"
    proof (cases "q = r")
      case True
      then show ?thesis using a e assms(3) by (auto intro: less_SucI)
    next
      case False
      then show ?thesis using a e assms(1) t unfolding wf_rs_def by (auto intro: less_SucI)
    qed
  qed
qed

lemma wt_new_obj:
  assumes "well_typed k" "new_obj ty ob k = (r, k1)" "obj_type ob = ty" "ty \<noteq> TABLE"
  shows "well_typed k1" "\<not> is_table (k_rs k1) r"
proof -
  obtain rs where n: "new_res ty 0 [] (k_rs k) = (r, rs)" "k1 = k\<lparr>k_rs := rs, k_obj := (k_obj k)(r := ob)\<rparr>"
    using assms(2) by (auto simp: new_obj_def split: prod.splits)
  have w: "wf_rs (k_rs k)" using assms(1) by (simp add: well_typed_def)
  note N = wf_new [OF w n(1), simplified]
  have "k_table k p \<noteq> r" for p using assms(1) N(2) by (metis well_typed_def less_irrefl)
  then show "well_typed k1"
    using assms(1,3) N unfolding well_typed_def typed_def n(2) by (auto intro: less_SucI)
  show "\<not> is_table (k_rs k1) r" using assms(4) N(4) by (simp add: n(2) is_table_def)
qed

lemma settle_same: "settle qs k = Inr k' \<Longrightarrow> k_rs k' = k_rs k \<and> k_obj k' = k_obj k \<and> k_table k' = k_table k"
proof (induction qs arbitrary: k)
  case (Cons q qs)
  show ?case using Cons.prems by (auto split: obj.splits if_splits dest!: Cons.IH)
qed simp

lemma wt_on_table:
  assumes "on_table t f k = Inr (x, k')" "well_typed k" "\<And>x rs. f (k_rs k) = Inr (x, rs) \<Longrightarrow> type_keeping (k_rs k) rs"
  shows "well_typed k'" "k_table k' = k_table k"
proof -
  obtain rs where f: "f (k_rs k) = Inr (x, rs)" "settle (released (t_slots t (k_rs k)) (t_slots t rs)) (k\<lparr>k_rs := rs\<rparr>) = Inr k'"
    using assms(1) by (auto simp: on_table_def)
  note s = settle_same [OF f(2)]
  show "well_typed k'" by (rule wt_same [OF wt_keeps [OF assms(2) assms(3) [OF f(1)]]]) (use s in simp_all)
  show "k_table k' = k_table k" using s by simp
qed

section \<open>The calls\<close>

lemma my_open_wt: "my_open r k = Inr (o1, k') \<Longrightarrow> well_typed k \<Longrightarrow> \<not> is_table (k_rs k) r \<Longrightarrow> well_typed k'"
  by (auto simp: my_open_def well_typed_def [of k] intro!: wt_keeps dest: tk_open)

text \<open>The object behind a handle is of the class that the type of the lookup stands for.\<close>

lemma my_get_typed:
  assumes "well_typed k" "my_get fd ty k = Inr (Some r)"
  shows "obj_type (k_obj k r) = ty"
proof -
  obtain p R where "table_get (k_table k p) (sint fd) ty (k_rs k) = Inr (Some r)" using assms(2) by (auto simp: my_get_def)
  then obtain R where "res (k_rs k) r = Some R" "r_type R = ty"
    by (auto simp: table_get_def slot_get_def get_res_def t_size_def split: if_splits option.splits)
  then show ?thesis using assms(1) by (auto simp: well_typed_def typed_def)
qed

lemma with_handle_wt:
  assumes "with_handle fd ty k f = Inr (o1, k')" "well_typed k"
    and "\<And>r. obj_type (k_obj k r) = ty \<Longrightarrow> f (k_obj k r) r = Inr (o1, k') \<Longrightarrow> well_typed k'"
  shows "well_typed k'"
proof -
  obtain x where x: "my_get fd ty k = Inr x" using assms(1) by (auto simp: with_handle_def)
  show ?thesis
  proof (cases x)
    case None
    then show ?thesis using assms(1,2) x by (simp add: with_handle_def)
  next
    case (Some r)
    then have "f (k_obj k r) r = Inr (o1, k')" using assms(1) x by (simp add: with_handle_def)
    then show ?thesis by (rule assms(3) [OF my_get_typed [OF assms(2) x [unfolded Some]]])
  qed
qed

named_theorems call_wt \<open>the calls keep the types\<close>

lemma close_wt [call_wt]: "sys_close a k = Inr (o1, k') \<Longrightarrow> well_typed k \<Longrightarrow> well_typed k'"
  by (auto simp: sys_close_def dest!: wt_on_table(1) keeping)

lemma down_wt [call_wt]: "sys_down a k = Inr (o1, k') \<Longrightarrow> well_typed k \<Longrightarrow> well_typed k'"
  unfolding sys_down_def by (erule with_handle_wt) (auto split: obj.splits intro: wt_same)

lemma up_wt [call_wt]: "sys_up a k = Inr (o1, k') \<Longrightarrow> well_typed k \<Longrightarrow> well_typed k'"
  unfolding sys_up_def by (erule with_handle_wt) (auto split: obj.splits intro: wt_same)

lemma join_wt [call_wt]: "sys_join a k = Inr (o1, k') \<Longrightarrow> well_typed k \<Longrightarrow> well_typed k'"
  unfolding sys_join_def by (erule with_handle_wt) (auto split: obj.splits intro: wt_same)

lemma getlen_wt [call_wt]: "sys_getlen a k = Inr (o1, k') \<Longrightarrow> well_typed k \<Longrightarrow> well_typed k'"
  unfolding sys_getlen_def with_file_def by (erule with_handle_wt) (auto split: obj.splits intro: wt_same)

lemma put_file_wt: "well_typed k \<Longrightarrow> obj_type (k_obj k r) = FILE \<Longrightarrow> well_typed (put_file r f k)"
  unfolding put_file_def by (rule wt_obj) (simp_all add: obj_type_def)

lemma seek_wt [call_wt]: "sys_seek a b k = Inr (o1, k') \<Longrightarrow> well_typed k \<Longrightarrow> well_typed k'"
  unfolding sys_seek_def with_file_def by (erule with_handle_wt) (auto split: obj.splits intro: put_file_wt)

lemma read_wt [call_wt]:
  assumes "sys_read v a k = Inr (o1, k')" "well_typed k"
  shows "well_typed k'"
proof -
  obtain p where p: "me k = Inr p" using assms(1) by (auto simp: sys_read_def)
  let ?m = "k_mem k p"
  obtain g where "with_handle (read_word ?m a) FILE k (\<lambda>ob r. case ob of FileObj f \<Rightarrow> g f r | _ \<Rightarrow> Inl BadIndex) = Inr (o1, k')"
    and g: "g = (\<lambda>f r. bindE (file_read v (k_fs k) (read_word ?m (a + 8)) f) (\<lambda>(cnt, xs, f).
        bindE (user_store (read_word ?m (a + 4)) xs ?m) (\<lambda>m.
        Inr (Ret cnt, (put_file r f k)\<lparr>k_mem := (k_mem k)(p := m)\<rparr>))))"
    using assms(1) p by (auto simp: sys_read_def with_file_def Let_def split: if_splits)
  then show ?thesis
  proof (elim with_handle_wt)
    fix r assume r: "obj_type (k_obj k r) = FILE" "(case k_obj k r of FileObj f \<Rightarrow> g f r | _ \<Rightarrow> Inl BadIndex) = Inr (o1, k')"
    then obtain f where "g f r = Inr (o1, k')" by (auto split: obj.splits)
    then obtain f' where "k_rs k' = k_rs (put_file r f' k)" "k_obj k' = k_obj (put_file r f' k)" "k_table k' = k_table (put_file r f' k)"
      unfolding g by (auto split: if_splits)
    then show "well_typed k'" by (rule wt_same [OF put_file_wt [OF assms(2) r(1)]])
  qed (rule assms(2))
qed

lemma join_rest_wt [call_wt]: "join_rest p a k = Inr (o1, k') \<Longrightarrow> well_typed k \<Longrightarrow> well_typed k'"
  by (auto simp: join_rest_def dest: call_wt)

lemma semaphore_wt [call_wt]: "sys_semaphore a k = Inr (o1, k') \<Longrightarrow> well_typed k \<Longrightarrow> well_typed k'"
proof -
  assume a: "sys_semaphore a k = Inr (o1, k')" "well_typed k"
  obtain r k1 where n: "new_obj SEMAPHORE (SemObj (k_nsem k)) k = (r, k1)" by fastforce
  note N = wt_new_obj [OF a(2) n, simplified]
  obtain k2 where k2: "my_open r k2 = Inr (o1, k')" "k_rs k2 = k_rs k1" "k_obj k2 = k_obj k1" "k_table k2 = k_table k1"
    using a(1) n by (auto simp: sys_semaphore_def Let_def)
  show ?thesis by (rule my_open_wt [OF k2(1) wt_same [OF N(1) k2(2-4)]]) (simp add: k2(2) N(2))
qed


lemma printing_same: "printing f k = Inr k' \<Longrightarrow> k_rs k' = k_rs k \<and> k_obj k' = k_obj k \<and> k_table k' = k_table k"
  by (auto simp: printing_def)

lemma printing_wt: "printing f k = Inr k' \<Longrightarrow> well_typed k \<Longrightarrow> well_typed k'"
  using printing_same by (metis wt_same)

lemma putchar_wt [call_wt]: "sys_putchar fp a k = Inr (o1, k') \<Longrightarrow> well_typed k \<Longrightarrow> well_typed k'"
  by (auto simp: sys_putchar_def dest: printing_wt)

lemma shutdown_wt [call_wt]: "sys_shutdown fp k = Inr (o1, k') \<Longrightarrow> well_typed k \<Longrightarrow> well_typed k'"
  by (auto simp: sys_shutdown_def dest: printing_wt)

lemma poll_wt [call_wt]: "get_poll k = Inr (o1, k') \<Longrightarrow> well_typed k \<Longrightarrow> well_typed k'"
  by (auto simp: get_poll_def split: list.splits option.splits intro: wt_same)

lemma getchar_wt [call_wt]: "sys_getchar k = Inr (o1, k') \<Longrightarrow> well_typed k \<Longrightarrow> well_typed k'"
proof -
  assume a: "sys_getchar k = Inr (o1, k')" "well_typed k"
  then obtain s where s: "get_poll (k\<lparr>k_sched := s\<rparr>) = Inr (o1, k') \<or> k' = k\<lparr>k_sched := s\<rparr>"
    by (auto simp: sys_getchar_def split: if_splits)
  have "well_typed (k\<lparr>k_sched := s\<rparr>)" by (rule wt_same [OF a(2)]) simp_all
  then show ?thesis using s poll_wt by blast
qed

lemma loop_wt: "(\<And>x s s'. f x s = Inr s' \<Longrightarrow> well_typed s \<Longrightarrow> well_typed s') \<Longrightarrow> loopE f xs k = Inr k' \<Longrightarrow> well_typed k \<Longrightarrow> well_typed k'"
  by (induction xs arbitrary: k) auto

lemma ls_wt [call_wt]: "sys_ls fp v junk k = Inr (o1, k') \<Longrightarrow> well_typed k \<Longrightarrow> well_typed k'"
  by (auto simp: sys_ls_def elim!: loop_wt [rotated] dest: printing_wt)

lemma bind_wt:
  "bindE m f = Inr k' \<Longrightarrow> (\<And>x. m = Inr x \<Longrightarrow> well_typed x) \<Longrightarrow> (\<And>x. f x = Inr k' \<Longrightarrow> well_typed x \<Longrightarrow> well_typed k') \<Longrightarrow> well_typed k'"
  by auto

lemma sched_wt: "well_typed k \<Longrightarrow> well_typed (k\<lparr>k_sched := s\<rparr>)"
  by (erule wt_same) simp_all

lemma name_wt:
  assumes "(case this of None \<Rightarrow> Inr k
      | Some p \<Rightarrow> bindE (case k_name k p of (a, nm) \<Rightarrow> if a \<noteq> 0 then printing (Debug_printf fp (cz ''%s'') [Pointer a nm]) k else Inr k)
          (printing (Debug_printf fp (cz ''#%d'') [Word (of_nat p)]))) = Inr k'" "well_typed k"
  shows "well_typed k'"
proof (cases this)
  case (Some p)
  obtain b nm where "k_name k p = (b, nm)" by fastforce
  then show ?thesis using assms Some by (auto split: if_splits dest: printing_wt)
qed (use assms in simp)

lemma trace_wt: "trace fp msg ap k = Inr k' \<Longrightarrow> well_typed k \<Longrightarrow> well_typed k'"
  unfolding trace_def vtrace_def Let_def
  by (elim bind_wt) (auto split: if_splits intro: sched_wt printing_wt elim: name_wt)

lemma exit_wt [call_wt]: "proc_exit code k = Inr (o1, k') \<Longrightarrow> well_typed k \<Longrightarrow> well_typed k'"
proof -
  assume a: "proc_exit code k = Inr (o1, k')" "well_typed k"
  show ?thesis
  proof (cases "current (k_sched k)")
    case None
    then show ?thesis using a by (simp add: proc_exit_def)
  next
    case (Some p)
    then obtain s k1 c k2 where k: "on_table (k_table k p) (\<lambda>rs. bindE (closeAll (k_table k p) rs) (\<lambda>rs. Inr ((), rs))) (k\<lparr>k_sched := s\<rparr>) = Inr ((), k1)"
      "on_table (k_table k1 p) (closeWorkingDir (k_table k1 p)) k1 = Inr (c, k2)" "k_rs k' = k_rs k2" "k_obj k' = k_obj k2" "k_table k' = k_table k2"
      using a by (auto simp: proc_exit_def Let_def)
    have "well_typed (k\<lparr>k_sched := s\<rparr>)" using a(2) by (rule wt_same) simp_all
    then have "well_typed k1" by (rule wt_on_table(1) [OF k(1)]) (auto dest: keeping)
    then have "well_typed k2" by (rule wt_on_table(1) [OF k(2)]) (auto dest: keeping)
    then show ?thesis by (rule wt_same) (use k in simp_all)
  qed
qed

lemma my_dir_typed: "well_typed k \<Longrightarrow> my_dir k = Inr (d, r) \<Longrightarrow> obj_type (k_obj k r) = DIRECTORY"
proof -
  assume a: "well_typed k" "my_dir k = Inr (d, r)"
  then obtain y where y: "my_get 1 DIRECTORY k = Inr (Some y)" by (auto simp: my_dir_def split: option.splits)
  have "y = r" using a(2) y by (cases "k_obj k y") (simp_all add: my_dir_def)
  then show ?thesis using my_get_typed [OF a(1) y] by simp
qed

lemma dir_call_wt:
  assumes "well_typed k" "my_dir k = Inr (d, r)" "k_rs k' = k_rs k" "k_table k' = k_table k" "k_obj k' = k_obj k \<or> (\<exists>d'. k_obj k' = (k_obj k)(r := DirObj d'))"
  shows "well_typed k'"
proof (cases "k_obj k' = k_obj k")
  case True
  then show ?thesis using assms by (intro wt_same [OF assms(1)]) auto
next
  case False
  then obtain d' where "k_obj k' = (k_obj k)(r := DirObj d')" using assms(5) by blast
  then show ?thesis
    using wt_obj [OF assms(1), of "DirObj d'" r] my_dir_typed [OF assms(1,2)] assms(3,4) by (auto intro: wt_same)
qed

lemma rm_wt [call_wt]: "sys_rm v junk a k = Inr (o1, k') \<Longrightarrow> well_typed k \<Longrightarrow> well_typed k'"
  by (auto simp: sys_rm_def split: if_splits elim!: dir_call_wt)

lemma mkdir_wt [call_wt]: "sys_mkdir v junk a b k = Inr (o1, k') \<Longrightarrow> well_typed k \<Longrightarrow> well_typed k'"
  by (auto simp: sys_mkdir_def split: if_splits option.splits elim!: dir_call_wt)

lemma open_new_wt:
  assumes "(case new_obj FILE (FileObj f) k of (r, k1) \<Rightarrow> my_open r k1) = Inr (o1, k')" "well_typed k"
  shows "well_typed k'"
proof -
  obtain r k1 where n: "new_obj FILE (FileObj f) k = (r, k1)" by fastforce
  show ?thesis using my_open_wt [of r k1] assms(1) wt_new_obj [OF assms(2) n] by (simp add: n)
qed

lemma open_wt [call_wt]: "sys_open v junk a k = Inr (o1, k') \<Longrightarrow> well_typed k \<Longrightarrow> well_typed k'"
proof -
  assume a: "sys_open v junk a k = Inr (o1, k')" "well_typed k"
  have s: "well_typed (k\<lparr>k_fs := s\<rparr>)" for s by (rule wt_same [OF a(2)]) simp_all
  show ?thesis
    using a(1) by (auto simp: sys_open_def Let_def s split: option.splits dest!: open_new_wt [OF _ s])
qed

lemma cd_wt [call_wt]: "sys_cd v junk a k = Inr (o1, k') \<Longrightarrow> well_typed k \<Longrightarrow> well_typed k'"
proof -
  assume a: "sys_cd v junk a k = Inr (o1, k')" "well_typed k"
  have s: "well_typed (k\<lparr>k_fs := s\<rparr>)" for s by (rule wt_same [OF a(2)]) simp_all
  have n: "well_typed k'" if c: "(case new_obj DIRECTORY (DirObj d) (k\<lparr>k_fs := f\<rparr>) of (r, k1) \<Rightarrow>
      bindE (on_table (k_table k1 p) (addWorkingDir (k_table k1 p) r) k1) (\<lambda>(_, k). Inr (Ret 0, k))) = Inr (o1, k')" for d f p
  proof -
    obtain r k1 where n: "new_obj DIRECTORY (DirObj d) (k\<lparr>k_fs := f\<rparr>) = (r, k1)" by fastforce
    have w: "well_typed k1" using wt_new_obj(1) [OF s n] by simp
    obtain x where x: "on_table (k_table k1 p) (addWorkingDir (k_table k1 p) r) k1 = Inr (x, k')" using c by (auto simp: n)
    show ?thesis by (rule wt_on_table(1) [OF x w]) (use w in \<open>auto simp: well_typed_def dest: tk_addWD\<close>)
  qed
  show ?thesis
    using a by (auto simp: sys_cd_def Let_def s split: if_split_asm option.split_asm dest: n)
qed

lemma execv_wt: "proc_execv v junk name as argc k = Inr (o1, k') \<Longrightarrow> well_typed k \<Longrightarrow> well_typed k'"
proof -
  assume a: "proc_execv v junk name as argc k = Inr (o1, k')" "well_typed k"
  have s: "well_typed (k\<lparr>k_fs := s\<rparr>)" for s by (rule wt_same [OF a(2)]) simp_all
  have c: "well_typed k1" if "on_table t (\<lambda>rs. bindE (closeAll t rs) (\<lambda>rs. Inr ((), rs))) (k\<lparr>k_fs := f\<rparr>) = Inr (u, k1)" for t f u k1
    by (rule wt_on_table(1) [OF that s]) (auto dest: keeping)
  have m: "well_typed (k1\<lparr>k_mem := x, k_regs := y\<rparr>)" if "well_typed k1" for k1 x y by (rule wt_same [OF that]) simp_all
  show ?thesis using a(1) by (auto simp: proc_execv_def Let_def s split: option.splits prod.splits intro!: m dest!: c)
qed

lemma sys_execv_wt [call_wt]: "sys_execv v junk a b k = Inr (o1, k') \<Longrightarrow> well_typed k \<Longrightarrow> well_typed k'"
  by (auto simp: sys_execv_def dest: execv_wt)


section \<open>Forks\<close>

lemma fork_at_wf:
  assumes w: "wf_rs rs" and F: "fork_at rs xs (length xs) ys s"
  shows "wf_rs s"
  unfolding wf_rs_def
proof (intro allI impI)
  fix q R assume R: "res s q = Some R"
  let ?n = "nextRid rs"
  have n: "?n < nextRid s" using F by (simp add: fork_at_def)
  have old: "\<exists>R0. res rs z = Some R0 \<and> r_type Z = r_type R0 \<and> r_ptrs Z = r_ptrs R0" if "z < ?n" "res s z = Some Z" for z Z
    using F that unfolding fork_at_def counts_only_def by blast
  then have t: "is_table s z \<Longrightarrow> is_table rs z" if "z < ?n" for z using that unfolding is_table_def by fastforce
  consider "q < ?n" | "q = ?n" | "?n < q" by linarith
  then show "q < nextRid s \<and> (\<forall>x. Some x \<in> set (r_ptrs R) \<longrightarrow> x < nextRid s \<and> (r_type R = TABLE \<longrightarrow> \<not> is_table s x))"
  proof cases
    case 1
    then obtain R0 where R0: "res rs q = Some R0" "r_type R = r_type R0" "r_ptrs R = r_ptrs R0" using old R by blast
    have "x < ?n \<and> (r_type R = TABLE \<longrightarrow> \<not> is_table rs x)" if "Some x \<in> set (r_ptrs R)" for x
      using w R0 that unfolding wf_rs_def by metis
    then show ?thesis using 1 n t by (meson less_trans)
  next
    case 2
    have "x < nextRid s \<and> \<not> is_table s x" if x: "Some x \<in> set (r_ptrs R)" for x
    proof -
      have "r_ptrs R = ys" "length ys = length xs" using F R 2 by (auto simp: fork_at_def)
      then obtain j where j: "j < length xs" "ys ! j = Some x" using x by (metis in_set_conv_nth)
      then consider "x < ?n" "xs ! j = Some x" "is_shared rs (xs ! j)" | "?n < x" "x < nextRid s" using F unfolding fork_at_def by blast
      then show ?thesis
      proof cases
        case 1
        then have "\<not> is_table rs x" by (auto simp: is_shared_def is_table_def)
        then show ?thesis using 1 t n by force
      next
        case 2
        have "r_type Z = FILE" if "res s x = Some Z" for Z using F 2 that unfolding fork_at_def by blast
        then show ?thesis using 2 by (auto simp: is_table_def)
      qed
    qed
    then show ?thesis using 2 n by blast
  next
    case 3
    then show ?thesis using F R unfolding fork_at_def by (metis emptyE empty_set)
  qed
qed

lemma fork_files_types:
  assumes "fork_files xs k = Inr k'" "\<forall>(x, y) \<in> set xs. \<forall>q. x = Some q \<longrightarrow> q < n \<and> (\<forall>f q'. k_obj k q = FileObj f \<and> y = Some q' \<longrightarrow> n \<le> q')"
  shows "k_rs k' = k_rs k \<and> k_table k' = k_table k \<and> (\<forall>z < n. k_obj k' z = k_obj k z)
    \<and> (\<forall>z. obj_type (k_obj k z) = FILE \<longrightarrow> obj_type (k_obj k' z) = FILE)
    \<and> (\<forall>(x, y) \<in> set xs. \<forall>q f q'. x = Some q \<and> k_obj k q = FileObj f \<and> y = Some q' \<longrightarrow> obj_type (k_obj k' q') = FILE)"
  using assms
proof (induction xs arbitrary: k)
  case (Cons xy xs)
  obtain x y where xy: "xy = (x, y)" by fastforce
  show ?case
  proof (cases "\<exists>q f q'. x = Some q \<and> k_obj k q = FileObj f \<and> y = Some q'")
    case False
    then have "fork_files xs k = Inr k'" using Cons.prems(1) by (auto simp: xy split: option.splits obj.splits)
    then show ?thesis using Cons.IH [of k] Cons.prems(2) False by (auto simp: xy)
  next
    case True
    then obtain q f q' where q: "x = Some q" "k_obj k q = FileObj f" "y = Some q'" by blast
    then obtain f' fs where f': "file_forkMe f (k_fs k) = Inr (f', fs)"
      "fork_files xs (k\<lparr>k_fs := fs, k_obj := (k_obj k)(q' := FileObj f')\<rparr>) = Inr k'" using Cons.prems(1) by (auto simp: xy)
    define k1 where "k1 = k\<lparr>k_fs := fs, k_obj := (k_obj k)(q' := FileObj f')\<rparr>"
    have n: "q < n" "n \<le> q'" using Cons.prems(2) q by (auto simp: xy)
    then have o: "k_obj k1 z = k_obj k z" if "z < n" for z using that by (simp add: k1_def)
    have p: "\<forall>(x, y) \<in> set xs. \<forall>q. x = Some q \<longrightarrow> q < n \<and> (\<forall>f q'. k_obj k1 q = FileObj f \<and> y = Some q' \<longrightarrow> n \<le> q')"
      using Cons.prems(2) o by (fastforce simp: xy)
    note I = Cons.IH [OF f'(2) [folded k1_def] p]
    have "obj_type (k_obj k' q') = FILE" using I by (simp add: k1_def)
    moreover have "obj_type (k_obj k' z) = FILE" if "obj_type (k_obj k z) = FILE" for z using I that by (simp add: k1_def)
    moreover have "obj_type (k_obj k' b) = FILE" if "(u, w) \<in> set xs" "u = Some a" "k_obj k a = FileObj g" "w = Some b" for u w a b g
    proof -
      have "a < n" using Cons.prems(2) that by (auto simp: xy)
      then have "k_obj k1 a = FileObj g" using o that(3) by simp
      then show ?thesis using I that by blast
    qed
    moreover have "k_rs k' = k_rs k \<and> k_table k' = k_table k \<and> (\<forall>z < n. k_obj k' z = k_obj k z)" using I o by (simp add: k1_def)
    ultimately show ?thesis using q by (auto simp: xy)
  qed
qed simp


lemma child_typed:
  assumes wt: "well_typed k" and T: "res (k_rs k) (k_table k p) = Some T" and F: "fork_at (k_rs k) (r_ptrs T) (length (r_ptrs T)) ys s"
    and ff: "fork_files (zip (r_ptrs T) ys) (k\<lparr>k_rs := s\<rparr>) = Inr k1"
  shows "k_rs k1 = s" "k_table k1 = k_table k" "\<And>q R. q \<noteq> nextRid (k_rs k) \<Longrightarrow> res s q = Some R \<Longrightarrow> r_type R = obj_type (k_obj k1 q)"
proof -
  let ?rs = "k_rs k" and ?xs = "r_ptrs T"
  have W: "typed k" "wf_rs ?rs" "r_type T = TABLE" using wt T by (auto simp: well_typed_def)
  have l: "length ys = length ?xs" using F by (simp add: fork_at_def)
  have "q < nextRid ?rs \<and> (\<forall>f q'. k_obj (k\<lparr>k_rs := s\<rparr>) q = FileObj f \<and> y = Some q' \<longrightarrow> nextRid ?rs \<le> q')"
    if xy: "(x, y) \<in> set (zip ?xs ys)" and x: "x = Some q" for x y q
  proof -
    obtain j where j: "j < length ?xs" "?xs ! j = Some q" "ys ! j = y" using xy x l by (auto simp: in_set_zip)
    then have "Some q \<in> set ?xs" by (metis nth_mem)
    then have "q < nextRid ?rs" using W(2) T unfolding wf_rs_def by blast
    moreover have "nextRid ?rs \<le> q'" if f: "k_obj k q = FileObj f" "y = Some q'" for f q'
    proof (rule ccontr)
      assume "\<not> nextRid ?rs \<le> q'"
      then have "?xs ! j = Some q'" "is_shared ?rs (?xs ! j)" using F j f(2) unfolding fork_at_def by force+
      then obtain R where "res ?rs q = Some R" "r_type R \<noteq> FILE" using j(2) by (auto simp: is_shared_def)
      then show False using W(1) f(1) by (auto simp: typed_def)
    qed
    ultimately show ?thesis by simp
  qed
  then have "\<forall>(x, y) \<in> set (zip ?xs ys). \<forall>q. x = Some q \<longrightarrow> q < nextRid ?rs \<and> (\<forall>f q'. k_obj (k\<lparr>k_rs := s\<rparr>) q = FileObj f \<and> y = Some q' \<longrightarrow> nextRid ?rs \<le> q')"
    by blast
  note I = fork_files_types [OF ff this]
  show "k_rs k1 = s" "k_table k1 = k_table k" using I by simp_all
  fix q R assume q: "q \<noteq> nextRid ?rs" and R: "res s q = Some R"
  show "r_type R = obj_type (k_obj k1 q)"
  proof (cases "q < nextRid ?rs")
    case True
    then obtain R0 where "res ?rs q = Some R0" "r_type R = r_type R0" using F R unfolding fork_at_def counts_only_def by blast
    moreover have "k_obj k1 q = k_obj k q" using I True by simp
    ultimately show ?thesis using W(1) by (simp add: typed_def)
  next
    case False
    then have "nextRid ?rs < q" using q by simp
    then obtain j where j: "r_type R = FILE" "j < length ?xs" "ys ! j = Some q" "is_file ?rs (?xs ! j)" using F R unfolding fork_at_def by blast
    then obtain q0 R0 where q0: "?xs ! j = Some q0" "res ?rs q0 = Some R0" "r_type R0 = FILE" by (auto simp: is_file_def)
    then have "obj_type (k_obj k q0) = FILE" using W(1) by (auto simp: typed_def)
    then obtain f where "k_obj k q0 = FileObj f" by (cases "k_obj k q0") simp_all
    moreover have "(Some q0, Some q) \<in> set (zip ?xs ys)" using j q0 l by (auto simp: in_set_zip)
    ultimately have "obj_type (k_obj k1 q) = FILE" using I by fastforce
    then show ?thesis using j(1) by simp
  qed
qed

lemma new_Child_wt:
  assumes "new_Child p k = Inr ((c, r), k')" "well_typed k"
  shows "well_typed k'" "\<not> is_table (k_rs k') r"
proof -
  let ?rs = "k_rs k" and ?t = "k_table k p"
  obtain tp s where f: "table_forkMe ?t ?rs = Inr (Some tp, s)" using assms(1) by (auto simp: new_Child_def split: option.splits)
  obtain T where T: "res ?rs ?t = Some T" using f by (auto simp: table_forkMe_def get_res_def split: option.splits)
  have W: "wf_rs ?rs" "r_type T = TABLE" using assms(2) T by (auto simp: well_typed_def)
  obtain ys where F: "tp = nextRid ?rs" "fork_at ?rs (r_ptrs T) (length (r_ptrs T)) ys s"
    using fork_table_types [OF W(1) T W(2) f] by auto
  have sl: "t_slots ?t ?rs = r_ptrs T" "t_slots tp s = ys" using T F by (auto simp: t_slots_def fork_at_def)
  have e: "new_Child p k = bindE (fork_files (zip (r_ptrs T) ys) (k\<lparr>k_rs := s\<rparr>)) (\<lambda>k.
      let (child, s) = new_process (k_sched k)
      in bindE (ref (Some tp) (k_rs k)) (\<lambda>(_, rs).
         let (r, rs) = new_res PROCESS 1 [Some tp] rs
         in Inr ((child, r), k\<lparr>k_sched := s, k_rs := rs, k_obj := (k_obj k)(r := ProcObj child, tp := TableObj),
              k_table := (k_table k)(child := tp), k_rid := (k_rid k)(child := r),
              k_name := (k_name k)(child := (0x1000, ''child'')),
              k_mem := (k_mem k)(child := k_mem k p)\<rparr>)))"
    using f by (simp add: new_Child_def sl)
  obtain k1 where ff: "fork_files (zip (r_ptrs T) ys) (k\<lparr>k_rs := s\<rparr>) = Inr k1"
    using assms(1) unfolding e by (cases "fork_files (zip (r_ptrs T) ys) (k\<lparr>k_rs := s\<rparr>)") simp_all
  obtain c' S where np: "new_process (k_sched k1) = (c', S)" by fastforce
  obtain y rs1 where rf: "ref (Some tp) (k_rs k1) = Inr (y, rs1)"
    using assms(1) np unfolding e ff by (cases "ref (Some tp) (k_rs k1)") auto
  obtain r' rs2 where nr: "new_res PROCESS 1 [Some tp] rs1 = (r', rs2)" by fastforce
  have "c' = c" "r' = r" and kk: "k' = k1\<lparr>k_sched := S, k_rs := rs2, k_obj := (k_obj k1)(r := ProcObj c, tp := TableObj), k_table := (k_table k1)(c := tp),
       k_rid := (k_rid k1)(c := r), k_name := (k_name k1)(c := (0x1000, ''child'')), k_mem := (k_mem k1)(c := k_mem k1 p)\<rparr>"
    using assms(1) np rf nr unfolding e ff by auto
  note k1 = ff rf nr [unfolded \<open>r' = r\<close>] kk
  note C = child_typed [OF assms(2) T F(2) k1(1)]
  have n: "tp < nextRid s" "wf_rs s" using F fork_at_wf [OF W(1) F(2)] by (simp_all add: fork_at_def)
  have K: "type_keeping s rs1" using tk_ref [OF k1(2)] C(1) by simp
  have n1: "wf_rs rs1" "nextRid rs1 = nextRid s" using K n by (auto simp: type_keeping_def)
  have N: "wf_rs rs2" "r = nextRid rs1" "nextRid rs2 = Suc (nextRid rs1)"
    "res rs2 = (res rs1)(r \<mapsto> \<lparr>r_type = PROCESS, r_count = 1, r_ptrs = [Some tp], r_mutex = 1\<rparr>)"
    by (rule wf_new [OF n1(1) k1(3)]; use n n1 in auto)+
  have tt: "r_type R = TABLE" if "res rs1 tp = Some R" for R
    using K that F unfolding type_keeping_def fork_at_def by fastforce
  have "r_type R = obj_type (k_obj k' q)" if R: "res rs2 q = Some R" for q R
  proof -
    consider "q = tp" | "q = r" "q \<noteq> tp" | "q \<noteq> r" "q \<noteq> tp" by blast
    then show ?thesis
    proof cases
      case 1
      then show ?thesis using R tt n n1 N by (auto simp: k1(4))
    next
      case 2
      then have "R = \<lparr>r_type = PROCESS, r_count = 1, r_ptrs = [Some tp], r_mutex = 1\<rparr>" using R N(4) by simp
      then show ?thesis using 2 by (simp add: k1(4))
    next
      case 3
      then obtain R0 where "res s q = Some R0" "r_type R = r_type R0" using R K N(4) unfolding type_keeping_def by auto
      then show ?thesis using C(3) 3 F(1) by (simp add: k1(4))
    qed
  qed
  then have "typed k'" by (simp add: typed_def k1(4))
  moreover have "k_table k' q < nextRid rs2 \<and> (\<forall>R. res rs2 (k_table k' q) = Some R \<longrightarrow> r_type R = TABLE)" for q
  proof (cases "q = c")
    case True
    then show ?thesis using tt n n1 N by (auto simp: k1(4))
  next
    case False
    let ?z = "k_table k q"
    have z: "?z < nextRid ?rs" using assms(2) by (simp add: well_typed_def)
    have "r_type R = TABLE" if R: "res rs2 ?z = Some R" for R
    proof -
      have "?z \<noteq> r" using z F(1) n n1 N(2) by simp
      then obtain R0 where "res s ?z = Some R0" "r_type R = r_type R0" using R K N(4) unfolding type_keeping_def by auto
      moreover from this obtain R1 where "res ?rs ?z = Some R1" "r_type R0 = r_type R1" using F(2) z unfolding fork_at_def counts_only_def by blast
      ultimately show ?thesis using assms(2) by (simp add: well_typed_def)
    qed
    then show ?thesis using False z F(1) n n1 N C(2) by (simp add: k1(4))
  qed
  ultimately show "well_typed k'" using N(1) by (simp add: well_typed_def k1(4))
  show "\<not> is_table (k_rs k') r" using N(4) by (simp add: is_table_def k1(4))
qed

lemma fork_wt [call_wt]:
  assumes "sys_fork pc esp k = Inr (o1, k')" "well_typed k"
  shows "well_typed k'"
proof -
  obtain p c r k1 id rs S where f: "new_Child p k = Inr ((c, r), k1)" "table_open (k_table k1 p) r (k_rs k1) = Inr (id, rs)"
    "k' = k1\<lparr>k_regs := (k_regs k1)(c := (pc, esp, 0)), k_rs := rs, k_sched := S\<rparr>"
    using assms(1) by (auto simp: sys_fork_def Let_def)
  note W = new_Child_wt [OF f(1) assms(2)]
  have "type_keeping (k_rs k1) rs" by (rule tk_open [OF f(2) _ W(2)]) (use W(1) in \<open>simp add: well_typed_def\<close>)
  from wt_keeps [OF W(1) this] show ?thesis by (rule wt_same) (simp_all add: f(3))
qed

lemma handler_wt: "syscallHandler fp v junk ctx num a0 a1 k = Inr (o1, k') \<Longrightarrow> well_typed k \<Longrightarrow> well_typed k'"
  unfolding syscallHandler_def by (auto split: if_splits dest: call_wt trace_wt)

lemma rest_wt: "syscall_rest w k = Inr (o1, k') \<Longrightarrow> well_typed k \<Longrightarrow> well_typed k'"
  by (cases w) (auto dest: call_wt)

section \<open>Properties\<close>

text \<open>
  C11. The type of a resource is the class of its object. Where that holds, with every pointer to an object
  that has been made and no table inside a table, it holds after any system call and after the rest of one that
  had to wait, on every path of them; and an object that \<^verbatim>\<open>get\<close> finds with a type is of the class that the
  code casts it to, so a cast is never wrong.
\<close>

theorem calls_keep_types:
  assumes "well_typed k"
  shows "(syscallHandler fp v junk ctx num a0 a1 k = Inr (o1, k') \<longrightarrow> well_typed k')
    \<and> (syscall_rest w k = Inr (o2, k'') \<longrightarrow> well_typed k'')
    \<and> (my_get fd ty k = Inr (Some r) \<longrightarrow> obj_type (k_obj k r) = ty)"
  using handler_wt [OF _ assms] rest_wt [OF _ assms] my_get_typed [OF assms] by blast

lemma demo_wt: "well_typed demo_kern"
proof -
  have "typed demo_kern" by (auto simp: typed_def demo_kern_def demo_rs_def split: if_splits)
  moreover have "wf_rs demo_rs" by (auto simp: wf_rs_def is_table_def demo_rs_def split: if_splits)
  ultimately show ?thesis by (auto simp: well_typed_def demo_kern_def demo_rs_def)
qed

text \<open>A kernel with a directory and a semaphore, in which a process makes another semaphore.\<close>

theorem calls_keep_types_witness:
  "\<exists>k'. syscallHandler rat_ldouble ide_driver (\<lambda>n. replicate n 0) (0, 0) 3 7 0 demo_kern = Inr (Ret 3, k') \<and> well_typed k'"
proof -
  let ?T = "\<lparr>r_type = TABLE, r_count = 1, r_ptrs = [None, Some 1, Some 2, None, None], r_mutex = 1\<rparr>"
    and ?R = "\<lparr>r_type = SEMAPHORE, r_count = 0, r_ptrs = [], r_mutex = 1\<rparr>"
  let ?st = "demo_rs\<lparr>res := (res demo_rs)(3 \<mapsto> ?R), nextRid := Suc 3\<rparr>"
  have "table_open 0 3 ?st = Inr (int 3, put_res 0 (?T\<lparr>r_ptrs := (r_ptrs ?T)[3 := Some 3]\<rparr>) (put_res 3 (?R\<lparr>r_count := r_count ?R + 1\<rparr>) ?st))"
    by (rule table_open_first) (auto simp: demo_rs_def less_Suc_eq eval_nat_numeral)
  then have "\<exists>rs. table_open 0 3 ?st = Inr (3, rs)" by simp
  moreover have "new_res SEMAPHORE 0 [] (k_rs demo_kern) = (3, ?st)"
    by (simp add: new_res_def demo_kern_def demo_rs_def put_res_def Let_def)
  ultimately obtain k' where k': "syscallHandler rat_ldouble ide_driver (\<lambda>n. replicate n 0) (0, 0) 3 7 0 demo_kern = Inr (Ret 3, k')"
    by (auto simp: syscallHandler_def sys_semaphore_def new_obj_def my_open_def me_def demo_current Let_def) (simp add: demo_kern_def booted_def)
  have "well_typed k'"
    using calls_keep_types [OF demo_wt, of rat_ldouble ide_driver "\<lambda>n. replicate n 0" "(0, 0)" 3 7 0 "Ret 3" k'] k' by blast
  then show ?thesis using k' by blast
qed

end
