(* ===== verification/Fat439_Image.thy ===== *)
theory Fat439_Image
  imports Fat439_Dirs
begin

text \<open>
  \<^verbatim>\<open>fat439/mkfs.c\<close>: the program that makes the image of a disk, which it writes through a mapping of the
  image file into its memory. The mapping is a function from offsets to bytes; an access behind its
  end stops the program, and so does \<^verbatim>\<open>exit(-1)\<close>. Of the system it uses, the contents of the files, the old
  contents of the image file and the number of bytes that a call of \<^verbatim>\<open>read\<close> delivers are arguments.
  The theory proves that the kernel finds in the image what has been put there.
\<close>

section \<open>The program\<close>

datatype mk_stop = Exit string | Segfault

record image =
  im_size :: nat
  im :: "nat \<Rightarrow> u8"

definition get32 :: "nat \<Rightarrow> image \<Rightarrow> mk_stop + u32" where
  "get32 a m = (if a + 4 \<le> im_size m then Inr (le_word (map (im m) [a ..< a + 4])) else Inl Segfault)"

definition put_bytes :: "nat \<Rightarrow> u8 list \<Rightarrow> image \<Rightarrow> mk_stop + image" where
  "put_bytes a bs m =
     (if a + length bs \<le> im_size m
      then Inr (m\<lparr>im := (\<lambda>i. if a \<le> i \<and> i < a + length bs then bs ! (i - a) else im m i)\<rparr>) else Inl Segfault)"

definition put32 :: "nat \<Rightarrow> u32 \<Rightarrow> image \<Rightarrow> mk_stop + image" where
  "put32 a w m = put_bytes a (le_bytes w) m"

text \<open>\<^verbatim>\<open>&fat[i]\<close>, and \<^verbatim>\<open>super\<close> with its four fields.\<close>

definition fat_ptr :: "u32 \<Rightarrow> nat" where "fat_ptr i = 512 + 4 * unat i"
definition magic_ptr :: nat where "magic_ptr = 0"
definition nBlocks_ptr :: nat where "nBlocks_ptr = 4"
definition avail_ptr :: nat where "avail_ptr = 8"
definition root_ptr :: nat where "root_ptr = 12"

definition toPtr :: "u32 \<Rightarrow> u32 \<Rightarrow> nat" where
  "toPtr idx offset = unat (idx * 512) + unat offset"

definition getBlock :: "image \<Rightarrow> mk_stop + (u32 \<times> image)" where
  "getBlock m =
     bindE (get32 avail_ptr m) (\<lambda>idx.
     if idx = 0 then Inl (Exit ''disk is full'')
     else bindE (get32 (fat_ptr idx) m) (\<lambda>n.
          bindE (put32 avail_ptr n m) (\<lambda>m.
          bindE (put32 (fat_ptr idx) 0 m) (\<lambda>m. Inr (idx, m)))))"

text \<open>
  \<^verbatim>\<open>read\<close> from a file of which \<open>rest\<close> is left, with room for \<open>k\<close> bytes: \<open>amt\<close> says how many of them
  the system delivers at once, and is negative when the call fails.
\<close>

definition f_read :: "(nat \<Rightarrow> nat \<Rightarrow> int) \<Rightarrow> u8 list \<Rightarrow> nat \<Rightarrow> int" where
  "f_read amt rest k = (let n = amt (length rest) k in min n (int (min k (length rest))))"

text \<open>The loop of \<^verbatim>\<open>oneFile\<close>, each round of which takes something off the file.\<close>

function oneFile_loop :: "(nat \<Rightarrow> nat \<Rightarrow> int) \<Rightarrow> u32 \<Rightarrow> u32 \<Rightarrow> u32 \<Rightarrow> u32 \<Rightarrow> u32 \<Rightarrow> u8 list \<Rightarrow> image
    \<Rightarrow> mk_stop + image" where
  "oneFile_loop amt startBlock currentBlock leftInBlock blockOffset totalSize rest m =
     bindE (if leftInBlock = 0
            then bindE (getBlock m) (\<lambda>(b, m). bindE (put32 (fat_ptr currentBlock) b m) (\<lambda>m. Inr (b, 512, 0, m)))
            else Inr (currentBlock, leftInBlock, blockOffset, m)) (\<lambda>(cur, left, off, m).
     let n = f_read amt rest (unat left)
     in if n < 0 then Inl (Exit ''read'')
        else if n = 0 then put32 (toPtr startBlock 4) totalSize m
        else bindE (put_bytes (toPtr cur off) (take (nat n) rest) m) (\<lambda>m.
             oneFile_loop amt startBlock cur (left - of_int n) (off + of_int n) (totalSize + of_int n) (drop (nat n) rest) m))"
  by pat_completeness auto
termination
  by (relation "measure (\<lambda>(amt, s, c, l, b, t, rest, m). length rest)") (auto simp: f_read_def Let_def)

declare oneFile_loop.simps [simp del]

definition oneFile :: "(nat \<Rightarrow> nat \<Rightarrow> int) \<Rightarrow> u8 list option \<Rightarrow> image \<Rightarrow> mk_stop + (u32 \<times> image)" where
  "oneFile amt contents m =
     (case contents of None \<Rightarrow> Inl (Exit ''open'')
      | Some cs \<Rightarrow>
          bindE (getBlock m) (\<lambda>(startBlock, m).
          bindE (put32 (toPtr startBlock 0) 1 m) (\<lambda>m.
          bindE (put32 (toPtr startBlock 8) 1023 m) (\<lambda>m.
          bindE (put32 (toPtr startBlock 12) startBlock m) (\<lambda>m.
          bindE (oneFile_loop amt startBlock startBlock (512 - 16) 16 0 cs m) (\<lambda>m. Inr (startBlock, m)))))))"

text \<open>\<^verbatim>\<open>basename\<close> and \<^verbatim>\<open>strncpy\<close> of the library.\<close>

definition c_basename :: "cstring \<Rightarrow> cstring" where
  "c_basename s =
     (let t = ctext s; u = rev (dropWhile (\<lambda>c. c = 47) (rev t))
      in if t = [] then [46] else if u = [] then [47] else rev (takeWhile (\<lambda>c. c \<noteq> 47) (rev u)))"

definition c_strncpy :: "cstring \<Rightarrow> nat \<Rightarrow> u8 list" where
  "c_strncpy s n = take n (ctext s @ replicate n 0)"

text \<open>
  \<^verbatim>\<open>main\<close> with the arguments behind the program and image name: the number of blocks as \<^verbatim>\<open>atoi\<close> reads it and the
  files. The product that is the length of the image is of 32 bits and unsigned.
\<close>

definition mk_super :: "int \<Rightarrow> image \<Rightarrow> mk_stop + image" where
  "mk_super nBlocks m =
     bindE (put_bytes magic_ptr [0x46, 0x34, 0x33, 0x39] m) (\<lambda>m.
     bindE (put32 nBlocks_ptr (of_int nBlocks) m) (\<lambda>m.
     bindE (put32 avail_ptr (of_int nBlocks - 1) m) (\<lambda>m.
     let fatBlocks = (of_int nBlocks * 4 + 511) div 512 :: u32;
         lastAvail = 1 + fatBlocks
     in loopE (\<lambda>i m. put32 (fat_ptr (of_nat i)) (of_nat i - 1) m)
          (rev [unat lastAvail + 1 ..< unat (of_int nBlocks - 1 :: u32) + 1]) m)))"

definition mk_root :: "nat \<Rightarrow> image \<Rightarrow> mk_stop + (u32 \<times> image)" where
  "mk_root nFiles m =
     bindE (getBlock m) (\<lambda>(root, m).
     bindE (put32 root_ptr root m) (\<lambda>m.
     bindE (put32 (toPtr root 0) 2 m) (\<lambda>m.
     bindE (put32 (toPtr root 4) (of_nat nFiles * 16) m) (\<lambda>m.
     bindE (put32 (toPtr root 8) 0 m) (\<lambda>m.
     bindE (put32 (toPtr root 12) root m) (\<lambda>m. Inr (root, m)))))))"

definition mk_file :: "(nat \<Rightarrow> nat \<Rightarrow> int) \<Rightarrow> (cstring \<times> u8 list option) list \<Rightarrow> u32 \<Rightarrow> nat \<Rightarrow> image \<Rightarrow> mk_stop + image" where
  "mk_file amt files root i m =
     bindE (oneFile amt (snd (files ! i)) m) (\<lambda>(x, m).
     bindE (put_bytes (toPtr root 16 + i * 16) (c_strncpy (c_basename (fst (files ! i))) 12) m) (\<lambda>m.
     put32 (toPtr root 16 + i * 16 + 12) x m))"

definition mkfs_main :: "(nat \<Rightarrow> nat \<Rightarrow> int) \<Rightarrow> u8 list option \<Rightarrow> int \<Rightarrow> (cstring \<times> u8 list option) list \<Rightarrow> mk_stop + image" where
  "mkfs_main amt old nBlocks files =
     (if files = [] then Inl (Exit ''usage'')
      else case old of None \<Rightarrow> Inl (Exit ''create'')
      | Some bytes \<Rightarrow>
          (let mapLength = unat (of_int (nBlocks * 512) :: u32)
           in if 2 ^ 31 \<le> mapLength then Inl (Exit ''truncate'')
              else if mapLength = 0 then Inl (Exit ''mmap'')
              else bindE (mk_super nBlocks \<lparr>im_size = mapLength, im = (\<lambda>i. if i < length bytes then bytes ! i else 0)\<rparr>) (\<lambda>m.
                   bindE (mk_root (length files) m) (\<lambda>(root, m).
                   loopE (mk_file amt files root) [0 ..< length files] m))))"


section \<open>Words and blocks of the image\<close>

definition word_at :: "image \<Rightarrow> nat \<Rightarrow> u32" where
  "word_at m a = le_word (map (im m) [a ..< a + 4])"

definition poke :: "nat \<Rightarrow> u8 list \<Rightarrow> image \<Rightarrow> image" where
  "poke a bs m = m\<lparr>im := (\<lambda>i. if a \<le> i \<and> i < a + length bs then bs ! (i - a) else im m i)\<rparr>"

lemma poke_simps [simp]:
  "im_size (poke a bs m) = im_size m"
  "im (poke a bs m) i = (if a \<le> i \<and> i < a + length bs then bs ! (i - a) else im m i)"
  by (simp_all add: poke_def)

lemma get32_Inr [simp]: "a + 4 \<le> im_size m \<Longrightarrow> get32 a m = Inr (word_at m a)"
  by (simp add: get32_def word_at_def)

lemma put_bytes_Inr [simp]: "a + length bs \<le> im_size m \<Longrightarrow> put_bytes a bs m = Inr (poke a bs m)"
  by (simp add: put_bytes_def poke_def)

lemma put32_Inr [simp]: "a + 4 \<le> im_size m \<Longrightarrow> put32 a w m = Inr (poke a (le_bytes w) m)"
  by (simp add: put32_def)

lemma word_at_cong: "(\<And>i. a \<le> i \<Longrightarrow> i < a + 4 \<Longrightarrow> im m' i = im m i) \<Longrightarrow> word_at m' a = word_at m a"
  unfolding word_at_def by (rule arg_cong [of _ _ le_word]) simp

lemma word_at_poke [simp]: "word_at (poke a (le_bytes w) m) a = w"
proof -
  have "map (im (poke a (le_bytes w) m)) [a ..< a + 4] = le_bytes w"
    by (rule nth_equalityI) simp_all
  then show ?thesis by (simp add: word_at_def)
qed

text \<open>The bytes of a block, of its word in the FAT, and of the word \<^verbatim>\<open>avail\<close>.\<close>

definition blk :: "u32 \<Rightarrow> nat set" where "blk b = {512 * unat b ..< 512 * unat b + 512}"
definition fatw :: "u32 \<Rightarrow> nat set" where "fatw b = {512 + 4 * unat b ..< 512 + 4 * unat b + 4}"
definition availw :: "nat set" where "availw = {8 ..< 12}"

text \<open>\<open>m'\<close> is \<open>m\<close> but for the bytes in \<open>S\<close>.\<close>

definition within :: "nat set \<Rightarrow> image \<Rightarrow> image \<Rightarrow> bool" where
  "within S m m' \<longleftrightarrow> im_size m' = im_size m \<and> (\<forall>i. i \<notin> S \<longrightarrow> im m' i = im m i)"

lemma within_refl [simp]: "within S m m" by (simp add: within_def)

lemma within_trans: "within S m m' \<Longrightarrow> within T m' m'' \<Longrightarrow> within (S \<union> T) m m''"
  by (simp add: within_def)

lemma within_mono: "within S m m' \<Longrightarrow> S \<subseteq> T \<Longrightarrow> within T m m'"
  by (auto simp: within_def)

lemma within_size: "within S m m' \<Longrightarrow> im_size m' = im_size m" by (simp add: within_def)

lemma within_poke: "{a ..< a + length bs} \<subseteq> S \<Longrightarrow> within S m (poke a bs m)"
  by (auto simp: within_def)

lemma within_word: "within S m m' \<Longrightarrow> {a ..< a + 4} \<inter> S = {} \<Longrightarrow> word_at m' a = word_at m a"
  by (rule word_at_cong) (auto simp: within_def)

text \<open>The FAT of an image of \<open>n\<close> blocks; the blocks behind it are the ones of files.\<close>

definition fatl :: "nat \<Rightarrow> image \<Rightarrow> u32 list" where
  "fatl n m = map (\<lambda>i. word_at m (512 + 4 * i)) [0 ..< n]"

definition lo :: "nat \<Rightarrow> nat" where "lo n = 1 + (4 * n + 511) div 512"

definition datab :: "nat \<Rightarrow> u32 \<Rightarrow> bool" where
  "datab n b \<longleftrightarrow> lo n \<le> unat b \<and> unat b < n"

lemma length_fatl [simp]: "length (fatl n m) = n" by (simp add: fatl_def)

lemma fatl_nth [simp]: "i < n \<Longrightarrow> fatl n m ! i = word_at m (512 + 4 * i)" by (simp add: fatl_def)

lemma lo_bound: "512 + 4 * n \<le> 512 * lo n"
proof -
  have "4 * n + 511 = 512 * ((4 * n + 511) div 512) + (4 * n + 511) mod 512" "(4 * n + 511) mod 512 < 512" by simp_all
  then have "4 * n \<le> 512 * ((4 * n + 511) div 512)" by linarith
  then show ?thesis by (simp add: lo_def)
qed

lemma datab_toPtr: "datab n b \<Longrightarrow> n < 2 ^ 22 \<Longrightarrow> toPtr b off = 512 * unat b + unat off"
proof -
  assume a: "datab n b" "n < 2 ^ 22"
  then have "unat b * 512 < 2 ^ 32" by (simp add: datab_def)
  then have "unat (b * 512) = unat b * 512" by (simp add: unat_word_ariths)
  then show ?thesis by (simp add: toPtr_def)
qed

lemma datab_size: "datab n b \<Longrightarrow> 512 * unat b + 512 \<le> 512 * n \<and> 512 + 4 * n \<le> 512 * unat b"
proof -
  assume "datab n b"
  then have "lo n \<le> unat b" "Suc (unat b) \<le> n" by (simp_all add: datab_def)
  then show ?thesis using lo_bound [of n] by linarith
qed

lemma blk_disjoint: "b \<noteq> c \<Longrightarrow> blk b \<inter> blk c = {}"
proof -
  assume "b \<noteq> c"
  then have n: "unat b \<noteq> unat c" by (simp add: word_unat_eq_iff)
  have "i div 512 = unat d" if "i \<in> blk d" for i d
    using that unfolding blk_def by (simp add: Suc_leI div_nat_eqI)
  then have "i \<in> blk b \<Longrightarrow> i \<in> blk c \<Longrightarrow> False" for i using n by metis
  then show ?thesis by blast
qed

lemma fatl_data: "within S m m' \<Longrightarrow> S \<inter> {512 ..< 512 + 4 * n} = {} \<Longrightarrow> fatl n m' = fatl n m"
proof -
  assume a: "within S m m'" "S \<inter> {512 ..< 512 + 4 * n} = {}"
  have "word_at m' (512 + 4 * i) = word_at m (512 + 4 * i)" if "i < n" for i
  proof (rule within_word [OF a(1)])
    have "{512 + 4 * i ..< 512 + 4 * i + 4} \<subseteq> {512 ..< 512 + 4 * n}" using that by auto
    then show "{512 + 4 * i ..< 512 + 4 * i + 4} \<inter> S = {}" using a(2) by blast
  qed
  then show ?thesis by (simp add: fatl_def)
qed

lemma fatl_poke:
  assumes "unat b < n"
  shows "fatl n (poke (512 + 4 * unat b) (le_bytes w) m) = (fatl n m)[unat b := w]"
proof (rule nth_equalityI)
  fix i assume "i < length (fatl n (poke (512 + 4 * unat b) (le_bytes w) m))"
  then have i: "i < n" by simp
  have "word_at (poke (512 + 4 * unat b) (le_bytes w) m) (512 + 4 * i) = word_at m (512 + 4 * i)" if "i \<noteq> unat b"
    by (rule word_at_cong) (use that in auto)
  then show "fatl n (poke (512 + 4 * unat b) (le_bytes w) m) ! i = (fatl n m)[unat b := w] ! i"
    using i by (cases "i = unat b") simp_all
qed simp


section \<open>Allocation\<close>

text \<open>An image of \<open>n\<close> blocks with the list \<open>free\<close> of free blocks, all of them behind the FAT.\<close>

definition lay :: "nat \<Rightarrow> image \<Rightarrow> u32 list \<Rightarrow> bool" where
  "lay n m free \<longleftrightarrow> im_size m = 512 * n \<and> n < 2 ^ 22 \<and> chain (fatl n m) (word_at m 8) free \<and> (\<forall>b \<in> set free. datab n b)"

text \<open>The bytes of a set of blocks, with their words in the FAT and \<^verbatim>\<open>avail\<close>.\<close>

definition owned :: "u32 set \<Rightarrow> nat set" where
  "owned B = availw \<union> (\<Union>b \<in> B. fatw b \<union> blk b)"

lemma ownedI: "availw \<subseteq> owned B" "b \<in> B \<Longrightarrow> fatw b \<subseteq> owned B" "b \<in> B \<Longrightarrow> blk b \<subseteq> owned B"
  by (auto simp: owned_def)

lemma owned_mono: "B \<subseteq> C \<Longrightarrow> owned B \<subseteq> owned C"
  by (auto simp: owned_def)

lemma lay_size: "lay n m free \<Longrightarrow> im_size m = 512 * n \<and> n < 2 ^ 22" by (simp add: lay_def)

lemma lay_head:
  assumes "lay n m (b # bs)"
  shows "datab n b" "b \<noteq> 0" "b \<notin> set bs" "word_at m 8 = b"
  using assms chain_distinct [of "fatl n m" "word_at m 8" "b # bs"] by (auto simp: lay_def)

lemma getBlock_full: "lay n m [] \<Longrightarrow> 0 < n \<Longrightarrow> getBlock m = Inl (Exit ''disk is full'')"
  by (simp add: getBlock_def lay_def avail_ptr_def)

lemma getBlock_next:
  assumes "lay n m (b # bs)"
  obtains m' where "getBlock m = Inr (b, m')" "lay n m' bs" "fatl n m' = (fatl n m)[unat b := 0]"
    "within (availw \<union> fatw b) m m'"
proof -
  note H = lay_head [OF assms]
  let ?m1 = "poke 8 (le_bytes (word_at m (fat_ptr b))) m"
  let ?m2 = "poke (fat_ptr b) (le_bytes 0) ?m1"
  have b: "unat b < n" "0 < n" "512 + 4 * unat b + 4 \<le> 512 * n" "12 \<le> 512 * n"
    using datab_size [OF H(1)] H(1) by (auto simp: datab_def)
  have g: "getBlock m = Inr (b, ?m2)"
    using b H(2,4) lay_size [OF assms] by (simp add: getBlock_def avail_ptr_def fat_ptr_def)
  have w1: "within availw m ?m1" by (rule within_poke) (simp add: availw_def)
  have w2: "within (fatw b) ?m1 ?m2" by (rule within_poke) (simp add: fatw_def fat_ptr_def)
  have f1: "fatl n ?m1 = fatl n m" by (rule fatl_data [OF w1]) (auto simp: availw_def)
  have f: "fatl n ?m2 = (fatl n m)[unat b := 0]" unfolding fat_ptr_def fatl_poke [OF b(1)] using f1 by (simp add: fat_ptr_def)
  have "word_at ?m2 8 = word_at ?m1 8" by (rule within_word [OF w2]) (auto simp: fatw_def)
  then have a: "word_at ?m2 8 = fatl n m ! unat b" using b(1) by (simp add: fat_ptr_def)
  have "chain (fatl n m) (fatl n m ! unat b) bs" using assms by (simp add: lay_def del: fatl_nth)
  then have "lay n ?m2 bs"
    using assms H(3) by (simp add: lay_def f a chain_update_other del: fatl_nth)
  then show thesis using that [OF g _ f within_trans [OF w1 w2]] by blast
qed

section \<open>A file on its way to the image\<close>

definition header_at :: "image \<Rightarrow> u32 \<Rightarrow> u32 \<Rightarrow> bool" where
  "header_at m s ty \<longleftrightarrow> word_at m (512 * unat s) = ty \<and> word_at m (512 * unat s + 12) = s"

text \<open>
  The file that starts at block \<open>s\<close> has the blocks \<open>xs\<close>, the last one filled up to offset \<open>off\<close>, and
  its first bytes are \<open>cs\<close>.
\<close>

definition laying :: "nat \<Rightarrow> image \<Rightarrow> u32 list \<Rightarrow> u32 \<Rightarrow> u32 list \<Rightarrow> nat \<Rightarrow> u8 list \<Rightarrow> bool" where
  "laying n m free s xs off cs \<longleftrightarrow> lay n m free \<and> xs \<noteq> [] \<and> chain (fatl n m) s xs \<and> (\<forall>b \<in> set xs. datab n b)
   \<and> set xs \<inter> set free = {} \<and> length cs + 16 + 512 = 512 * length xs + off \<and> off \<le> 512
   \<and> header_at m s 1 \<and> (\<forall>i < length cs. im m (file_pos xs i) = cs ! i)"

lemma laying_step:
  assumes L: "laying n m free s xs off cs" and w: "within S m m'" and f: "lay n m' free'"
    and S: "S \<inter> (\<Union>b \<in> set xs. blk b) = {}" and ch: "chain (fatl n m') s (xs @ ys)" "\<forall>b \<in> set ys. datab n b"
    and dis: "set (xs @ ys) \<inter> set free' = {}" and len: "length cs + 16 + 512 = 512 * length (xs @ ys) + off'" "off' \<le> 512"
  shows "laying n m' free' s (xs @ ys) off' cs"
proof -
  have x: "xs \<noteq> []" "chain (fatl n m) s xs" using L by (simp_all add: laying_def)
  then have s: "s \<in> set xs" by (cases xs) auto
  then have out: "a \<notin> S" if "512 * unat s \<le> a" "a < 512 * unat s + 512" for a
  proof -
    have "a \<in> (\<Union>b \<in> set xs. blk b)" using that s by (auto simp: blk_def)
    then show ?thesis using S by blast
  qed
  have "header_at m' s 1"
  proof -
    have "word_at m' (512 * unat s + k) = word_at m (512 * unat s + k)" if k: "k + 4 \<le> 512" for k
    proof (rule word_at_cong)
      fix i assume "512 * unat s + k \<le> i" "i < 512 * unat s + k + 4"
      then have "i \<notin> S" using k by (intro out) linarith+
      then show "im m' i = im m i" using w by (simp add: within_def)
    qed
    from this [of 0] this [of 12] show ?thesis using L by (simp add: laying_def header_at_def)
  qed
  moreover have "im m' (file_pos (xs @ ys) i) = cs ! i" if i: "i < length cs" for i
  proof -
    have k: "(i + 16) div 512 < length xs" using L i x(1) unfolding laying_def
      by (intro less_mult_imp_div_less) (cases xs; simp)
    have e: "file_pos (xs @ ys) i = file_pos xs i" using k by (simp add: file_pos_def nth_append)
    have "file_pos xs i \<in> blk (xs ! ((i + 16) div 512))" by (simp add: file_pos_def blk_def mult.commute)
    then have "file_pos xs i \<notin> S" using S k nth_mem by fastforce
    then show ?thesis using w L i by (simp add: e within_def laying_def)
  qed
  ultimately show ?thesis using L f ch dis len by (auto simp: laying_def)
qed


lemma file_pos_shape:
  assumes "length xs = Suc k" "i + 16 = 512 * k + r" "r < 512"
  shows "file_pos xs i = 512 * unat (last xs) + r"
proof -
  have "(i + 16) div 512 = k" "(i + 16) mod 512 = r" unfolding assms(2) using assms(3) by simp_all
  moreover have "last xs = xs ! k" using assms(1) by (cases xs rule: rev_cases) (auto simp: nth_append)
  ultimately show ?thesis by (simp add: file_pos_def)
qed

lemma laying_next:
  assumes L: "laying n m (b # bs) s xs 512 cs"
  obtains m1 m2 where "getBlock m = Inr (b, m1)" "put32 (fat_ptr (last xs)) b m1 = Inr m2" "laying n m2 bs s (xs @ [b]) 0 cs"
    "within (owned (set xs \<union> {b})) m m2"
proof -
  have l: "lay n m (b # bs)" using L by (simp add: laying_def)
  obtain m1 where m1: "getBlock m = Inr (b, m1)" "lay n m1 bs" "fatl n m1 = (fatl n m)[unat b := 0]" "within (availw \<union> fatw b) m m1"
    by (rule getBlock_next [OF l])
  note H = lay_head [OF l]
  have x: "xs \<noteq> []" "chain (fatl n m) s xs" "\<forall>c \<in> set xs. datab n c" "set xs \<inter> set (b # bs) = {}"
    using L by (simp_all add: laying_def)
  obtain ys e where xs: "xs = ys @ [e]" using x(1) by (meson rev_exhaust)
  have e: "datab n e" "unat e < n" "e \<noteq> b" "e \<notin> set bs" using x(3,4) xs by (auto simp: datab_def)
  let ?m2 = "poke (fat_ptr e) (le_bytes b) m1"
  have p: "put32 (fat_ptr (last xs)) b m1 = Inr ?m2"
    using datab_size [OF e(1)] e(2) lay_size [OF m1(2)] xs by (simp add: fat_ptr_def)
  have w2: "within (fatw e) m1 ?m2" by (rule within_poke) (simp add: fatw_def fat_ptr_def)
  have f2: "fatl n ?m2 = (fatl n m1)[unat e := b]" by (simp add: fat_ptr_def fatl_poke e(2))
  have a: "word_at ?m2 8 = word_at m1 8" by (rule within_word [OF w2]) (auto simp: fatw_def)
  have l2: "lay n ?m2 bs" using m1(2) e(4) by (simp add: lay_def f2 a chain_update_other)
  have "chain (fatl n m1) s (ys @ [e])" using x(2,4) xs by (simp add: m1(3) chain_update_other)
  moreover have "unat b < n" using H(1) by (simp add: datab_def)
  then have "chain (fatl n m1) b [b]" using H(2) by (simp add: m1(3) nth_list_update)
  ultimately have ch: "chain (fatl n ?m2) s (xs @ [b])"
    using chain_link [of "fatl n m1" s ys e b "[b]"] x(4) xs by (simp add: f2)
  have w: "within (availw \<union> fatw b \<union> fatw e) m ?m2" by (rule within_trans [OF m1(4) w2])
  have low: "c \<notin> availw \<union> fatw b \<union> fatw e" if "c \<in> blk d" "d \<in> set xs" for c d
  proof -
    have "512 + 4 * n \<le> c" using that datab_size [of n d] x(3) by (auto simp: blk_def)
    then show ?thesis using \<open>unat b < n\<close> e(2) by (auto simp: availw_def fatw_def)
  qed
  have "laying n ?m2 bs s (xs @ [b]) 0 cs"
    by (rule laying_step [OF L w l2 _ ch]) (use low H x(4) L in \<open>auto simp: laying_def\<close>)
  moreover have "within (owned (set xs \<union> {b})) m ?m2"
    by (rule within_mono [OF w]) (use xs in \<open>auto simp: owned_def\<close>)
  ultimately show thesis using that [OF m1(1) p] by blast
qed

lemma data_write:
  assumes b: "datab n b" "n < 2 ^ 22" and l: "lay n m free" and off: "off + length bs \<le> 512"
  shows "put_bytes (512 * unat b + off) bs m = Inr (poke (512 * unat b + off) bs m)"
    "within (blk b) m (poke (512 * unat b + off) bs m)" "fatl n (poke (512 * unat b + off) bs m) = fatl n m"
    "lay n (poke (512 * unat b + off) bs m) free"
proof -
  let ?m = "poke (512 * unat b + off) bs m"
  note D = datab_size [OF b(1)]
  show "put_bytes (512 * unat b + off) bs m = Inr ?m" using D off lay_size [OF l] by simp
  show w: "within (blk b) m ?m" by (rule within_poke) (use off in \<open>auto simp: blk_def\<close>)
  have "blk b \<inter> {512 ..< 512 + 4 * n} = {}" using D by (auto simp: blk_def)
  then show f: "fatl n ?m = fatl n m" by (rule fatl_data [OF w])
  have "{8 ..< 8 + 4} \<inter> blk b = {}" using D by (auto simp: blk_def)
  then have "word_at ?m 8 = word_at m 8" by (rule within_word [OF w])
  then show "lay n ?m free" using l by (simp add: lay_def f)
qed

lemma laying_write:
  assumes L: "laying n m free s xs off cs" and len: "off + length bs \<le> 512"
  obtains m' where "put_bytes (toPtr (last xs) (of_nat off)) bs m = Inr m'" "laying n m' free s xs (off + length bs) (cs @ bs)"
    "within (blk (last xs)) m m'"
proof -
  let ?b = "last xs" and ?m = "poke (512 * unat (last xs) + off) bs m"
  have l: "lay n m free" "xs \<noteq> []" "n < 2 ^ 22" "distinct xs" "chain (fatl n m) s xs"
    using L chain_distinct by (auto simp: laying_def lay_def)
  then have b: "?b \<in> set xs" "datab n ?b" using L by (auto simp: laying_def)
  obtain k where k: "length xs = Suc k" using l(2) by (cases xs) auto
  have n: "length cs + 16 = 512 * k + off" using L k by (simp add: laying_def)
  have t: "toPtr ?b (of_nat off) = 512 * unat ?b + off"
    using len by (simp add: datab_toPtr [OF b(2) l(3)] unat_of_nat_u32)
  note W = data_write [OF b(2) l(3,1) len]
  have "s = hd xs" using l(2,5) by (cases xs) auto
  have old: "im ?m (file_pos xs i) = cs ! i" if i: "i < length cs" for i
  proof -
    have "im m (file_pos xs i) = cs ! i" using L i by (simp add: laying_def)
    moreover have "\<not> (512 * unat ?b + off \<le> file_pos xs i \<and> file_pos xs i < 512 * unat ?b + off + length bs)"
    proof (cases "(i + 16) div 512 = k")
      case True
      then have "i + 16 = 512 * k + (i + 16) mod 512" by (metis mult_div_mod_eq)
      moreover have "(i + 16) mod 512 < 512" by simp
      ultimately show ?thesis using file_pos_shape [OF k, of i "(i + 16) mod 512"] i n by linarith
    next
      case False
      have "(i + 16) div 512 < Suc k" using i n len by (intro less_mult_imp_div_less) simp
      then have j: "(i + 16) div 512 < k" using False by simp
      then have "xs ! ((i + 16) div 512) \<noteq> ?b"
        using l(2,4) k by (auto simp: last_conv_nth nth_eq_iff_index_eq)
      then have "blk (xs ! ((i + 16) div 512)) \<inter> blk ?b = {}" by (rule blk_disjoint)
      moreover have "file_pos xs i \<in> blk (xs ! ((i + 16) div 512))" by (simp add: file_pos_def blk_def mult.commute)
      ultimately have "file_pos xs i \<notin> blk ?b" by blast
      then show ?thesis using len by (auto simp: blk_def)
    qed
    ultimately show ?thesis by auto
  qed
  have new: "im ?m (file_pos xs (length cs + j)) = bs ! j" if j: "j < length bs" for j
    using file_pos_shape [OF k, of "length cs + j" "off + j"] j n len by simp
  have "im ?m (file_pos xs i) = (cs @ bs) ! i" if "i < length (cs @ bs)" for i
    using old [of i] new [of "i - length cs"] that by (cases "i < length cs") (auto simp: nth_append)
  moreover have "header_at ?m s 1"
  proof -
    have "im ?m i = im m i" if i: "512 * unat s \<le> i" "i < 512 * unat s + 16" for i
    proof (cases "s = ?b")
      case True
      then have "k = 0" using l(2,4) \<open>s = hd xs\<close> k by (cases xs) (auto simp: last_conv_nth split: if_splits)
      then have "16 \<le> off" using n by simp
      then show ?thesis using i True by simp
    next
      case False
      then have "blk s \<inter> blk ?b = {}" by (rule blk_disjoint)
      moreover have "i \<in> blk s" using i by (simp add: blk_def)
      ultimately have "i \<notin> blk ?b" by blast
      then show ?thesis using W(2) by (simp add: within_def)
    qed
    then have "word_at ?m (512 * unat s + d) = word_at m (512 * unat s + d)" if "d + 4 \<le> 16" for d
      using that by (intro word_at_cong) simp
    from this [of 0] this [of 12] show ?thesis using L by (simp add: laying_def header_at_def)
  qed
  ultimately have "laying n ?m free s xs (off + length bs) (cs @ bs)"
    using L W(3,4) len by (simp add: laying_def)
  then show thesis using that W(1,2) t by metis
qed


section \<open>Whole files\<close>

text \<open>
  A file in the image, of type \<open>ty\<close> and in the blocks \<open>xs\<close>, with contents \<open>cs\<close>.
\<close>

definition laid :: "nat \<Rightarrow> image \<Rightarrow> u32 \<Rightarrow> u32 \<Rightarrow> u32 list \<Rightarrow> u8 list \<Rightarrow> bool" where
  "laid n m s ty xs cs \<longleftrightarrow> xs \<noteq> [] \<and> chain (fatl n m) s xs \<and> (\<forall>b \<in> set xs. datab n b) \<and> length cs + 16 \<le> 512 * length xs
   \<and> header_at m s ty \<and> word_at m (512 * unat s + 4) = of_nat (length cs) \<and> (\<forall>i < length cs. im m (file_pos xs i) = cs ! i)"

text \<open>The number of blocks of a file: one more than needed when the last one is exactly full.\<close>

definition blocks_of :: "u8 list \<Rightarrow> nat" where
  "blocks_of cs = (length cs + 16) div 512 + 1"

definition file_done :: "nat \<Rightarrow> image \<Rightarrow> u32 list \<Rightarrow> u32 \<Rightarrow> u32 list \<Rightarrow> u8 list \<Rightarrow> nat \<Rightarrow> mk_stop + image \<Rightarrow> bool" where
  "file_done n m free s xs cs k r \<longleftrightarrow>
     (if k \<le> length free
      then \<exists>m'. r = Inr m' \<and> lay n m' (drop k free) \<and> laid n m' s 1 (xs @ take k free) cs
        \<and> within (owned (set (xs @ take k free))) m m'
      else r = Inl (Exit ''disk is full''))"

lemma file_pos_header:
  assumes "distinct xs" "xs \<noteq> []" "i + 16 < 512 * length xs"
  shows "file_pos xs i < 512 * unat (hd xs) \<or> 512 * unat (hd xs) + 16 \<le> file_pos xs i"
proof (cases "(i + 16) div 512 = 0")
  case True
  then have "(i + 16) mod 512 = i + 16" by simp
  then show ?thesis using True assms(2) by (simp add: file_pos_def hd_conv_nth)
next
  case False
  have "(i + 16) div 512 < length xs" using assms(3) by (simp add: less_mult_imp_div_less mult.commute)
  then have "xs ! ((i + 16) div 512) \<noteq> hd xs"
    using False assms(1,2) by (simp add: hd_conv_nth nth_eq_iff_index_eq)
  then have "blk (xs ! ((i + 16) div 512)) \<inter> blk (hd xs) = {}" by (rule blk_disjoint)
  moreover have "file_pos xs i \<in> blk (xs ! ((i + 16) div 512))" by (simp add: file_pos_def blk_def mult.commute)
  ultimately have "file_pos xs i \<notin> blk (hd xs)" by blast
  then show ?thesis by (auto simp: blk_def)
qed

lemma laying_finish:
  assumes L: "laying n m free s xs off cs"
  obtains m' where "put32 (toPtr s 4) (of_nat (length cs)) m = Inr m'" "lay n m' free" "laid n m' s 1 xs cs" "within (blk s) m m'"
proof -
  have l: "lay n m free" "xs \<noteq> []" "n < 2 ^ 22" "distinct xs" "chain (fatl n m) s xs"
    using L chain_distinct by (auto simp: laying_def lay_def)
  have s: "s = hd xs" "s \<in> set xs" using l(2,5) by (cases xs; auto)+
  then have b: "datab n s" using L by (auto simp: laying_def)
  let ?m = "poke (512 * unat s + 4) (le_bytes (of_nat (length cs))) m"
  note W = data_write [OF b l(3,1), of 4 "le_bytes (of_nat (length cs))", simplified]
  have n: "length cs + 16 \<le> 512 * length xs" using L l(2) unfolding laying_def by linarith
  have "im ?m (file_pos xs i) = cs ! i" if i: "i < length cs" for i
    using file_pos_header [OF l(4,2), of i] i n L by (auto simp: laying_def s(1) [symmetric])
  moreover have "word_at ?m (512 * unat s + 0) = word_at m (512 * unat s + 0)" "word_at ?m (512 * unat s + 12) = word_at m (512 * unat s + 12)"
    by (rule word_at_cong; simp)+
  then have "header_at ?m s 1" using L by (simp add: laying_def header_at_def)
  ultimately have "laid n ?m s 1 xs cs" using L W(3) n by (simp add: laid_def laying_def)
  moreover have "put32 (toPtr s 4) (of_nat (length cs)) m = Inr ?m"
    using W(1) by (simp add: put32_def datab_toPtr [OF b l(3)])
  ultimately show thesis using that W(2,4) by blast
qed

text \<open>How the system delivers the bytes of a file: as many as it likes, but some when there are some.\<close>

definition delivers :: "(nat \<Rightarrow> nat \<Rightarrow> int) \<Rightarrow> bool" where
  "delivers amt \<longleftrightarrow> (\<forall>r k. 0 \<le> amt r k \<and> (0 < r \<and> 0 < k \<longrightarrow> 0 < amt r k))"

lemma f_read_delivers:
  assumes "delivers amt" "0 < k"
  shows "f_read amt [] k = 0"
    and "rest \<noteq> [] \<Longrightarrow> \<exists>j. f_read amt rest k = int j \<and> 0 < j \<and> j \<le> k \<and> j \<le> length rest"
proof -
  have "0 \<le> amt 0 k" using assms(1) by (simp add: delivers_def)
  then show "f_read amt [] k = 0" by (simp add: f_read_def)
  assume "rest \<noteq> []"
  then have "0 < amt (length rest) k" using assms by (simp add: delivers_def)
  then show "\<exists>j. f_read amt rest k = int j \<and> 0 < j \<and> j \<le> k \<and> j \<le> length rest"
    using \<open>rest \<noteq> []\<close> assms(2) by (intro exI [of _ "nat (f_read amt rest k)"]) (auto simp: f_read_def Let_def min_def)
qed

lemma loop_alloc:
  "getBlock m = Inr (b, m1) \<Longrightarrow> put32 (fat_ptr c) b m1 = Inr m2 \<Longrightarrow>
     oneFile_loop amt s c 0 j t rest m = oneFile_loop amt s b 512 0 t rest m2"
  by (simp add: oneFile_loop.simps [of amt s c 0 j t rest m] oneFile_loop.simps [of amt s b 512 0 t rest m2])


lemma file_done_now:
  "lay n m' free \<Longrightarrow> laid n m' s 1 xs cs \<Longrightarrow> within (blk s) m m' \<Longrightarrow> s \<in> set xs \<Longrightarrow> file_done n m free s xs cs 0 (Inr m')"
  using within_mono [OF _ ownedI(3)] by (simp add: file_done_def)

lemma file_done_write:
  assumes "file_done n m' free s xs cs k r" "within (blk (last xs)) m m'" "xs \<noteq> []"
  shows "file_done n m free s xs cs k r"
proof -
  have "within (owned (set (xs @ take k free))) m m''" if "within (owned (set (xs @ take k free))) m' m''" for m''
    by (rule within_mono [OF within_trans [OF assms(2) that]]) (use assms(3) in \<open>auto simp: owned_def\<close>)
  then show ?thesis using assms(1) by (auto simp: file_done_def split: if_splits)
qed

lemma file_done_next:
  assumes "file_done n m' bs s (xs @ [b]) cs k r" "within (owned (set xs \<union> {b})) m m'"
  shows "file_done n m (b # bs) s xs cs (Suc k) r"
proof -
  have "within (owned (set ((xs @ [b]) @ take k bs))) m m''" if "within (owned (set ((xs @ [b]) @ take k bs))) m' m''" for m''
    by (rule within_mono [OF within_trans [OF assms(2) that]]) (auto simp: owned_def)
  then show ?thesis using assms(1) by (auto simp: file_done_def split: if_splits)
qed

lemma loop_round:
  assumes d: "delivers amt" and L: "laying n m free s xs off cs" and off: "off < 512" and len: "length cs + length rest < 2 ^ 32"
    and IH: "\<And>m off cs rest'. length rest' < length rest \<Longrightarrow> laying n m free s xs off cs \<Longrightarrow> length cs + length rest' < 2 ^ 32 \<Longrightarrow>
      file_done n m free s xs (cs @ rest') ((length cs + length rest' + 16) div 512 + 1 - length xs)
        (oneFile_loop amt s (last xs) (of_nat (512 - off)) (of_nat off) (of_nat (length cs)) rest' m)"
  shows "file_done n m free s xs (cs @ rest) ((length cs + length rest + 16) div 512 + 1 - length xs)
    (oneFile_loop amt s (last xs) (of_nat (512 - off)) (of_nat off) (of_nat (length cs)) rest m)"
proof -
  have x: "xs \<noteq> []" "chain (fatl n m) s xs" using L by (simp_all add: laying_def)
  then have s: "s \<in> set xs" by (cases xs) auto
  obtain k where k: "length xs = Suc k" using x(1) by (cases xs) auto
  have n: "length cs + 16 = 512 * k + off" using L k by (simp add: laying_def)
  have u: "unat (of_nat (512 - off) :: u32) = 512 - off" by (rule unat_of_nat_u32) simp
  then have z: "(of_nat (512 - off) :: u32) \<noteq> 0" using off by (metis unat_0 zero_less_diff less_irrefl)
  note S = oneFile_loop.simps [of amt s "last xs" "of_nat (512 - off)" "of_nat off" "of_nat (length cs)" rest m]
  show ?thesis
  proof (cases "rest = []")
    case True
    obtain m' where m': "put32 (toPtr s 4) (of_nat (length cs)) m = Inr m'" "lay n m' free" "laid n m' s 1 xs cs" "within (blk s) m m'"
      by (rule laying_finish [OF L])
    have "f_read amt rest (512 - off) = 0" using f_read_delivers(1) [OF d] off True by simp
    then have "oneFile_loop amt s (last xs) (of_nat (512 - off)) (of_nat off) (of_nat (length cs)) rest m = Inr m'"
      unfolding S using z u m'(1) by simp
    moreover have "(length cs + length rest + 16) div 512 + 1 - length xs = 0" using True n k off by simp
    ultimately show ?thesis using file_done_now [OF m'(2-4) s] True by simp
  next
    case False
    have "0 < 512 - off" using off by simp
    from f_read_delivers(2) [OF d this False] obtain j where j: "f_read amt rest (512 - off) = int j" "0 < j" "j \<le> 512 - off" "j \<le> length rest" by blast
    have lj: "off + length (take j rest) \<le> 512" using j off by simp
    obtain m' where m': "put_bytes (toPtr (last xs) (of_nat off)) (take j rest) m = Inr m'"
      "laying n m' free s xs (off + length (take j rest)) (cs @ take j rest)" "within (blk (last xs)) m m'"
      by (rule laying_write [OF L lj])
    have w: "(of_nat (512 - off) :: u32) - of_nat j = of_nat (512 - (off + j))" "(of_nat off :: u32) + of_nat j = of_nat (off + j)"
      using j(3) off by (simp_all add: of_nat_diff)
    have e: "oneFile_loop amt s (last xs) (of_nat (512 - off)) (of_nat off) (of_nat (length cs)) rest m =
        oneFile_loop amt s (last xs) (of_nat (512 - (off + j))) (of_nat (off + j)) (of_nat (length (cs @ take j rest))) (drop j rest) m'"
      unfolding S using z u m'(1) j by (simp add: w del: of_nat_add) (simp add: min_absorb2 diff_diff_eq)
    have "file_done n m' free s xs ((cs @ take j rest) @ drop j rest) ((length (cs @ take j rest) + length (drop j rest) + 16) div 512 + 1 - length xs)
        (oneFile_loop amt s (last xs) (of_nat (512 - (off + j))) (of_nat (off + j)) (of_nat (length (cs @ take j rest))) (drop j rest) m')"
      by (rule IH) (use m'(2) j len in \<open>simp_all add: min_absorb2\<close>)
    then show ?thesis unfolding e using file_done_write [OF _ m'(3) x(1)] j(4) by (simp add: min_absorb2)
  qed
qed

lemma oneFile_loop_lays:
  assumes d: "delivers amt"
  shows "laying n m free s xs off cs \<Longrightarrow> length cs + length rest < 2 ^ 32 \<Longrightarrow>
    file_done n m free s xs (cs @ rest) ((length cs + length rest + 16) div 512 + 1 - length xs)
      (oneFile_loop amt s (last xs) (of_nat (512 - off)) (of_nat off) (of_nat (length cs)) rest m)"
proof (induction "length rest" arbitrary: m free xs off cs rest rule: less_induct)
  case less
  show ?case
  proof (cases "off < 512")
    case True
    show ?thesis by (rule loop_round [OF d less.prems(1) True less.prems(2)]) (rule less.hyps)
  next
    case False
    then have o: "off = 512" using less.prems(1) by (simp add: laying_def)
    have L: "laying n m free s xs 512 cs" using less.prems(1) o by simp
    have l: "lay n m free" "xs \<noteq> []" using L by (simp_all add: laying_def)
    have n: "512 * length xs \<le> length cs + length rest + 16" using L by (simp add: laying_def)
    then have k: "length xs \<le> (length cs + length rest + 16) div 512" by (simp add: less_eq_div_iff_mult_less_eq mult.commute)
    show ?thesis
    proof (cases free)
      case Nil
      have "datab n (last xs)" using L l(2) by (simp add: laying_def)
      then have "getBlock m = Inl (Exit ''disk is full'')" using l(1) Nil by (intro getBlock_full) (auto simp: datab_def)
      then show ?thesis using k Nil o by (simp add: file_done_def oneFile_loop.simps)
    next
      case (Cons b bs)
      obtain m1 m2 where m: "getBlock m = Inr (b, m1)" "put32 (fat_ptr (last xs)) b m1 = Inr m2" "laying n m2 bs s (xs @ [b]) 0 cs"
        "within (owned (set xs \<union> {b})) m m2" by (rule laying_next [OF L [unfolded Cons]])
      have "file_done n m2 bs s (xs @ [b]) (cs @ rest) ((length cs + length rest + 16) div 512 + 1 - length (xs @ [b]))
          (oneFile_loop amt s (last (xs @ [b])) (of_nat (512 - 0)) (of_nat 0) (of_nat (length cs)) rest m2)"
        by (rule loop_round [OF d m(3) _ less.prems(2)]) (simp, rule less.hyps)
      from file_done_next [OF this m(4)] show ?thesis
        using loop_alloc [OF m(1,2)] k o by (simp add: Cons Suc_diff_le)
    qed
  qed
qed


lemma oneFile_lays:
  assumes d: "delivers amt" and l: "lay n m free" "0 < n" and len: "length cs < 2 ^ 32"
  shows "if blocks_of cs \<le> length free
    then \<exists>m'. oneFile amt (Some cs) m = Inr (hd free, m') \<and> lay n m' (drop (blocks_of cs) free)
      \<and> laid n m' (hd free) 1 (take (blocks_of cs) free) cs \<and> within (owned (set (take (blocks_of cs) free))) m m'
    else oneFile amt (Some cs) m = Inl (Exit ''disk is full'')"
proof (cases free)
  case Nil
  then show ?thesis using getBlock_full l by (simp add: oneFile_def blocks_of_def)
next
  case (Cons b bs)
  have l': "lay n m (b # bs)" using l(1) Cons by simp
  obtain m1 where m1: "getBlock m = Inr (b, m1)" "lay n m1 bs" "fatl n m1 = (fatl n m)[unat b := 0]" "within (availw \<union> fatw b) m m1"
    by (rule getBlock_next [OF l'])
  note H = lay_head [OF l']
  have N: "n < 2 ^ 22" using lay_size [OF l(1)] by simp
  have b: "unat b < n" using H(1) by (simp add: datab_def)
  define m2 where "m2 = poke (512 * unat b + 0) (le_bytes 1) m1"
  define m3 where "m3 = poke (512 * unat b + 8) (le_bytes 1023) m2"
  define m4 where "m4 = poke (512 * unat b + 12) (le_bytes b) m3"
  note W2 = data_write [OF H(1) N m1(2), of 0 "le_bytes 1", simplified, folded m2_def [simplified]]
  note W3 = data_write [OF H(1) N W2(4), of 8 "le_bytes 1023", simplified, folded m3_def]
  note W4 = data_write [OF H(1) N W3(4), of 12 "le_bytes b", simplified, folded m4_def]
  have f: "fatl n m4 = (fatl n m)[unat b := 0]" using W4(3) W3(3) W2(3) m1(3) by simp
  have h: "header_at m4 b 1"
  proof -
    have "word_at m4 (512 * unat b + 0) = word_at m2 (512 * unat b + 0)" by (rule word_at_cong) (simp add: m4_def m3_def)
    moreover have "word_at m2 (512 * unat b + 0) = 1" by (simp only: m2_def word_at_poke)
    ultimately show ?thesis by (simp add: header_at_def m4_def)
  qed
  have L: "laying n m4 bs b [b] 16 []"
    using W4(4) H b by (simp add: laying_def f h del: fatl_nth)
  have w: "within (owned (set [b])) m m4"
    by (rule within_mono [OF within_trans [OF within_trans [OF within_trans [OF m1(4) W2(2)] W3(2)] W4(2)]]) (auto simp: owned_def)
  have e: "oneFile amt (Some cs) m = bindE (oneFile_loop amt b (last [b]) (of_nat (512 - 16)) (of_nat 16) (of_nat (length ([] :: u8 list))) cs m4) (\<lambda>m. Inr (b, m))"
    using m1(1) W2(1) W3(1) W4(1) by (simp add: oneFile_def datab_toPtr [OF H(1) N] put32_def)
  have D: "file_done n m4 bs b [b] cs (blocks_of cs - 1) (oneFile_loop amt b (last [b]) (of_nat (512 - 16)) (of_nat 16) (of_nat (length ([] :: u8 list))) cs m4)"
    using oneFile_loop_lays [OF d L, of cs] len by (simp add: blocks_of_def)
  have k: "blocks_of cs = Suc (blocks_of cs - 1)" by (simp add: blocks_of_def)
  show ?thesis
  proof (cases "blocks_of cs - 1 \<le> length bs")
    case True
    then obtain m' where m': "oneFile_loop amt b (last [b]) (of_nat (512 - 16)) (of_nat 16) (of_nat (length ([] :: u8 list))) cs m4 = Inr m'"
      "lay n m' (drop (blocks_of cs - 1) bs)" "laid n m' b 1 ([b] @ take (blocks_of cs - 1) bs) cs"
      "within (owned (set ([b] @ take (blocks_of cs - 1) bs))) m4 m'" using D by (auto simp: file_done_def)
    have t: "take (blocks_of cs) free = [b] @ take (blocks_of cs - 1) bs" "drop (blocks_of cs) free = drop (blocks_of cs - 1) bs"
      unfolding Cons by (subst k, simp)+
    have "within (owned (set ([b] @ take (blocks_of cs - 1) bs))) m m'"
      by (rule within_mono [OF within_trans [OF w m'(4)]]) (auto simp: owned_def)
    moreover have "blocks_of cs \<le> length free" using True k Cons by simp
    ultimately show ?thesis using m' e unfolding t by (simp add: Cons)
  next
    case False
    then show ?thesis using D e k by (simp add: file_done_def Cons)
  qed
qed

section \<open>What stays when other blocks are written\<close>

lemma chain_cong: "length f' = length f \<Longrightarrow> (\<And>x. x \<in> set xs \<Longrightarrow> f' ! unat x = f ! unat x) \<Longrightarrow> chain f' b xs = chain f b xs"
  by (induction xs arbitrary: b) auto

lemma owned_blk:
  assumes "within (owned B) m m'" "c \<notin> B" "datab n c" "\<forall>b \<in> B. datab n b"
  shows "i \<in> blk c \<Longrightarrow> im m' i = im m i" and "fatl n m' ! unat c = fatl n m ! unat c"
proof -
  have c: "unat c < n" "512 + 4 * n \<le> 512 * unat c" using assms(3) datab_size by (auto simp: datab_def)
  have "blk c \<inter> owned B = {}"
  proof -
    have "blk c \<inter> blk b = {}" if "b \<in> B" for b using that assms(2) blk_disjoint by metis
    moreover have "blk c \<inter> fatw b = {}" if "b \<in> B" for b
      using that assms(4) c(2) by (auto simp: blk_def fatw_def datab_def)
    moreover have "blk c \<inter> availw = {}" using c(2) by (auto simp: blk_def availw_def)
    ultimately show ?thesis by (auto simp: owned_def)
  qed
  then show "i \<in> blk c \<Longrightarrow> im m' i = im m i" using assms(1) by (auto simp: within_def)
  have "fatw c \<inter> owned B = {}"
  proof -
    have "fatw c \<inter> blk b = {}" if "b \<in> B" for b
      using that assms(4) datab_size [of n b] c(1) by (auto simp: blk_def fatw_def)
    moreover have "fatw c \<inter> fatw b = {}" if "b \<in> B" for b
    proof -
      have "b \<noteq> c" using that assms(2) by blast
      then have "unat b \<noteq> unat c" by (simp add: word_unat_eq_iff)
      then show ?thesis by (auto simp: fatw_def)
    qed
    moreover have "fatw c \<inter> availw = {}" by (auto simp: fatw_def availw_def)
    ultimately show ?thesis by (auto simp: owned_def)
  qed
  then have "word_at m' (512 + 4 * unat c) = word_at m (512 + 4 * unat c)"
    by (intro within_word [OF assms(1)]) (simp add: fatw_def)
  then show "fatl n m' ! unat c = fatl n m ! unat c" using c(1) by simp
qed

lemma blk_words:
  assumes "\<And>i. i \<in> blk c \<Longrightarrow> im m' i = im m i" "k + 4 \<le> 512"
  shows "word_at m' (512 * unat c + k) = word_at m (512 * unat c + k)"
  using assms by (intro word_at_cong) (simp add: blk_def)

lemma laid_other:
  assumes L: "laid n m s ty xs cs" and w: "within (owned B) m m'" and B: "B \<inter> set xs = {}" "\<forall>b \<in> B. datab n b"
  shows "laid n m' s ty xs cs"
proof -
  have x: "xs \<noteq> []" "chain (fatl n m) s xs" "\<forall>b \<in> set xs. datab n b" "length cs + 16 \<le> 512 * length xs"
    using L by (simp_all add: laid_def)
  have O: "i \<in> blk c \<Longrightarrow> im m' i = im m i" "fatl n m' ! unat c = fatl n m ! unat c" if "c \<in> set xs" for i c
    using owned_blk [OF w _ _ B(2), of c] that x(3) B(1) by blast+
  have s: "s \<in> set xs" using x(1,2) by (cases xs) auto
  have "chain (fatl n m') s xs" using x(2) O(2) by (subst chain_cong [of _ "fatl n m"]) simp_all
  moreover have k: "word_at m' (512 * unat s + k) = word_at m (512 * unat s + k)" if "k + 4 \<le> 512" for k
    by (rule blk_words [OF _ that]) (rule O(1) [OF s])
  then have "header_at m' s ty" "word_at m' (512 * unat s + 4) = of_nat (length cs)"
    using L k [of 0] k [of 12] k [of 4] by (simp_all add: laid_def header_at_def)
  moreover have "im m' (file_pos xs i) = cs ! i" if i: "i < length cs" for i
  proof -
    have k: "(i + 16) div 512 < length xs" using x(4) i by (simp add: less_mult_imp_div_less mult.commute)
    have "file_pos xs i \<in> blk (xs ! ((i + 16) div 512))" by (simp add: file_pos_def blk_def mult.commute)
    then show ?thesis using O(1) [OF nth_mem [OF k]] L i by (simp add: laid_def)
  qed
  ultimately show ?thesis using L by (simp add: laid_def)
qed


section \<open>The empty file system\<close>

lemma fat_loop:
  assumes "\<forall>i \<in> set is. i < n" "im_size m = 512 * n" "n < 2 ^ 22" "512 + 4 * n \<le> 512 * n"
  shows "\<exists>m'. loopE (\<lambda>i m. put32 (fat_ptr (of_nat i)) (of_nat i - 1) m) is m = Inr m' \<and> im_size m' = 512 * n
    \<and> within {512 ..< 512 + 4 * n} m m' \<and> (\<forall>j < n. fatl n m' ! j = (if j \<in> set is then of_nat j - 1 else fatl n m ! j))"
  using assms(1,2)
proof (induction "is" arbitrary: m)
  case (Cons i "is")
  let ?m = "poke (512 + 4 * i) (le_bytes (of_nat i - 1)) m"
  have i: "i < n" "unat (of_nat i :: u32) = i" using Cons.prems assms(3) by (auto simp: unat_of_nat_u32)
  have p: "put32 (fat_ptr (of_nat i)) (of_nat i - 1) m = Inr ?m"
    using i Cons.prems(2) assms(4) by (simp add: fat_ptr_def)
  have f: "fatl n ?m = (fatl n m)[i := of_nat i - 1]" using fatl_poke [of "of_nat i :: u32" n "of_nat i - 1" m] i(1) unfolding i(2) by blast
  have w: "within {512 ..< 512 + 4 * n} m ?m" by (rule within_poke) (use i in auto)
  from Cons.IH [of ?m] Cons.prems obtain m' where m': "loopE (\<lambda>i m. put32 (fat_ptr (of_nat i)) (of_nat i - 1) m) is ?m = Inr m'"
    "im_size m' = 512 * n" "within {512 ..< 512 + 4 * n} ?m m'" "\<forall>j < n. fatl n m' ! j = (if j \<in> set is then of_nat j - 1 else fatl n ?m ! j)"
    by auto
  have "within {512 ..< 512 + 4 * n} m m'" using within_trans [OF w m'(3)] by simp
  moreover have "fatl n m' ! j = (if j \<in> set (i # is) then of_nat j - 1 else fatl n m ! j)" if "j < n" for j
    using m'(4) that by (auto simp: f nth_list_update simp del: fatl_nth)
  ultimately show ?case using p m'(1,2) by auto
qed simp

lemma chain_down:
  assumes "lo n \<le> k" "k < n" "n < 2 ^ 22" "length f = n" "f ! lo n = 0" "\<forall>j. lo n < j \<and> j < n \<longrightarrow> f ! j = of_nat j - 1"
  shows "chain f (of_nat k) (map of_nat (rev [lo n ..< Suc k]))"
  using assms(1,2)
proof (induction k rule: dec_induct)
  case base
  have "unat (of_nat (lo n) :: u32) = lo n" using base assms(3) by (intro unat_of_nat_u32) simp
  moreover have "0 < lo n" by (simp add: lo_def)
  ultimately have "(of_nat (lo n) :: u32) \<noteq> 0" by (metis unat_0 less_irrefl)
  then show ?case using \<open>unat _ = lo n\<close> base assms(4,5) by simp
next
  case (step k)
  have u: "unat (of_nat (Suc k) :: u32) = Suc k" using step.prems assms(3) by (intro unat_of_nat_u32) simp
  then have "(of_nat (Suc k) :: u32) \<noteq> 0" by (metis unat_0 nat.simps(3))
  moreover have "f ! Suc k = of_nat k" using assms(6) step by simp
  ultimately show ?case using u step assms(4) by (simp add: step.IH del: of_nat_Suc)
qed

definition free0 :: "nat \<Rightarrow> u32 list" where
  "free0 n = map of_nat (rev [lo n ..< n])"

lemma length_free0 [simp]: "length (free0 n) = n - lo n" by (simp add: free0_def)

lemma free0_datab: "n < 2 ^ 22 \<Longrightarrow> b \<in> set (free0 n) \<Longrightarrow> datab n b"
  by (auto simp: free0_def datab_def unat_of_nat_u32)

lemma mk_super_lays:
  assumes n: "lo n < n" "n < 2 ^ 22" and m: "im_size m = 512 * n" "word_at m (512 + 4 * lo n) = 0"
  obtains m' where "mk_super (int n) m = Inr m'" "lay n m' (free0 n)" "word_at m' 0 = expectedMagic" "word_at m' 4 = of_nat n"
proof -
  define m1 where "m1 = poke 0 [0x46, 0x34, 0x33, 0x39] m"
  define m2 where "m2 = poke 4 (le_bytes (of_nat n)) m1"
  define m3 where "m3 = poke 8 (le_bytes (of_nat n - 1)) m2"
  have l0: "0 < lo n" by (simp add: lo_def)
  have big: "2 \<le> n" using n(1) l0 by simp
  have s: "im_size m3 = 512 * n" using m(1) by (simp add: m1_def m2_def m3_def)
  have p: "put_bytes magic_ptr [0x46, 0x34, 0x33, 0x39] m = Inr m1" "put32 nBlocks_ptr (of_nat n) m1 = Inr m2"
    "put32 avail_ptr (of_nat n - 1) m2 = Inr m3"
    using m(1) big by (simp_all add: magic_ptr_def nBlocks_ptr_def avail_ptr_def m1_def m2_def m3_def)
  have u: "unat (of_nat n * 4 + 511 :: u32) = 4 * n + 511"
    using n(2) unat_of_nat_u32 [of "4 * n + 511"] by (simp add: mult.commute)
  have "lo n < 2 ^ 32" using n by simp
  then have lav: "unat (1 + (of_nat n * 4 + 511) div 512 :: u32) = lo n"
    unfolding lo_def using u by (subst unat_plus_u32) (simp_all add: unat_div)
  have av: "(of_nat n - 1 :: u32) = of_nat (n - 1)" using big by (simp add: of_nat_diff)
  then have uav: "unat (of_nat n - 1 :: u32) = n - 1" using n(2) by (simp add: unat_of_nat_u32)
  have inb: "512 + 4 * n \<le> 512 * n" using lo_bound [of n] n(1) by linarith
  have "\<forall>i \<in> set (rev [lo n + 1 ..< n - 1 + 1]). i < n" by auto
  from fat_loop [OF this s n(2) inb] obtain m4 where m4: "loopE (\<lambda>i m. put32 (fat_ptr (of_nat i)) (of_nat i - 1) m) (rev [lo n + 1 ..< n - 1 + 1]) m3 = Inr m4"
    "im_size m4 = 512 * n" "within {512 ..< 512 + 4 * n} m3 m4"
    "\<forall>j < n. fatl n m4 ! j = (if j \<in> set (rev [lo n + 1 ..< n - 1 + 1]) then of_nat j - 1 else fatl n m3 ! j)" by blast
  have e: "mk_super (int n) m = Inr m4"
    using p m4(1) by (simp add: mk_super_def Let_def lav uav del: upt_Suc)
  have w: "word_at m4 a = word_at m3 a" if "a + 4 \<le> 512" for a by (rule within_word [OF m4(3)]) (use that in auto)
  have "word_at m3 (512 + 4 * lo n) = word_at m (512 + 4 * lo n)"
    by (rule word_at_cong) (simp add: m1_def m2_def m3_def)
  then have z: "fatl n m4 ! lo n = 0" using m4(4) n(1) m(2) by (auto simp del: fatl_nth) (simp add: m(2))
  have "chain (fatl n m4) (of_nat (n - 1)) (map of_nat (rev [lo n ..< Suc (n - 1)]))"
    by (rule chain_down) (use n z m4(4) big in \<open>auto simp del: fatl_nth upt_Suc\<close>)
  moreover have "Suc (n - 1) = n" using big by simp
  ultimately have ch: "chain (fatl n m4) (of_nat (n - 1)) (free0 n)" by (simp only: free0_def)
  have "word_at m3 8 = of_nat (n - 1)" unfolding av [symmetric] by (simp add: m3_def)
  then have "word_at m4 8 = of_nat (n - 1)" using w [of 8] by simp
  then have "lay n m4 (free0 n)"
    using m4(2) n(2) ch free0_datab [OF n(2)] unfolding lay_def by simp
  moreover have "word_at m4 4 = of_nat n"
  proof -
    have "word_at m3 4 = word_at m2 4" by (rule word_at_cong) (simp add: m3_def)
    then show ?thesis using w [of 4] by (simp add: m2_def)
  qed
  moreover have "word_at m4 0 = expectedMagic"
  proof -
    have "word_at m3 0 = word_at m1 0" by (rule word_at_cong) (simp add: m3_def m2_def)
    moreover have "map (im m1) [0 ..< 0 + 4] = [0x46, 0x34, 0x33, 0x39]" by (simp add: m1_def upt_rec)
    then have "word_at m1 0 = expectedMagic" unfolding word_at_def by (simp add: le_word_def expectedMagic_def)
    ultimately show ?thesis using w [of 0] by simp
  qed
  ultimately show thesis using that e by blast
qed


section \<open>The root directory\<close>

definition super_ok :: "nat \<Rightarrow> image \<Rightarrow> bool" where
  "super_ok n m \<longleftrightarrow> word_at m 0 = expectedMagic \<and> word_at m 4 = of_nat n"

text \<open>The directory of \<open>k\<close> entries in block \<open>r\<close>, of which \<open>es\<close> have been written.\<close>

definition root_ok :: "nat \<Rightarrow> image \<Rightarrow> u32 \<Rightarrow> nat \<Rightarrow> u8 list list \<Rightarrow> bool" where
  "root_ok n m r k es \<longleftrightarrow> super_ok n m \<and> word_at m 12 = r \<and> datab n r \<and> fatl n m ! unat r = 0 \<and> header_at m r 2
   \<and> word_at m (512 * unat r + 4) = 16 * of_nat k
   \<and> (\<forall>j < length es. \<forall>c < 16. im m (512 * unat r + 16 + 16 * j + c) = es ! j ! c)"

lemma super_word:
  assumes "within (owned B) m m'" "\<forall>b \<in> B. datab n b" "a = 0 \<or> a = 4 \<or> a = 12"
  shows "word_at m' a = word_at m a"
proof (rule within_word [OF assms(1)])
  have "{a ..< a + 4} \<inter> (fatw b \<union> blk b) = {}" if "b \<in> B" for b
    using that assms(2,3) datab_size [of n b] by (auto simp: fatw_def blk_def)
  moreover have "{a ..< a + 4} \<inter> availw = {}" using assms(3) by (auto simp: availw_def)
  ultimately show "{a ..< a + 4} \<inter> owned B = {}" by (auto simp: owned_def)
qed

lemma super_other: "super_ok n m \<Longrightarrow> within (owned B) m m' \<Longrightarrow> \<forall>b \<in> B. datab n b \<Longrightarrow> super_ok n m'"
  using super_word [of B m m' n 0] super_word [of B m m' n 4] by (simp add: super_ok_def)

lemma root_other:
  assumes R: "root_ok n m r k es" and w: "within (owned B) m m'" and B: "r \<notin> B" "\<forall>b \<in> B. datab n b" and len: "length es \<le> 31"
  shows "root_ok n m' r k es"
proof -
  have r: "datab n r" using R by (simp add: root_ok_def)
  note O = owned_blk [OF w B(1) r B(2)]
  have W: "word_at m' (512 * unat r + k) = word_at m (512 * unat r + k)" if "k + 4 \<le> 512" for k
    by (rule blk_words [OF _ that]) (rule O(1))
  have "im m' (512 * unat r + 16 + 16 * j + c) = im m (512 * unat r + 16 + 16 * j + c)" if "j < length es" "c < 16" for j c
    by (rule O(1)) (use that len in \<open>simp add: blk_def\<close>)
  then show ?thesis
    using R O(2) W [of 0] W [of 12] W [of 4] super_other [OF _ w B(2)] super_word [OF w B(2), of 12]
    by (simp add: root_ok_def header_at_def del: fatl_nth)
qed

lemma mk_root_lays:
  assumes l: "lay n m (b # bs)" and s: "super_ok n m"
  obtains m' where "mk_root k m = Inr (b, m')" "lay n m' bs" "root_ok n m' b k []"
proof -
  obtain m1 where m1: "getBlock m = Inr (b, m1)" "lay n m1 bs" "fatl n m1 = (fatl n m)[unat b := 0]" "within (availw \<union> fatw b) m m1"
    by (rule getBlock_next [OF l])
  note H = lay_head [OF l]
  have N: "n < 2 ^ 22" "unat b < n" "im_size m1 = 512 * n" using lay_size [OF l] lay_size [OF m1(2)] H(1) by (simp_all add: datab_def)
  define m2 where "m2 = poke 12 (le_bytes b) m1"
  have w2: "within {12 ..< 16} m1 m2" unfolding m2_def by (rule within_poke) simp
  have f2: "fatl n m2 = fatl n m1" by (rule fatl_data [OF w2]) auto
  have "word_at m2 8 = word_at m1 8" by (rule within_word [OF w2]) auto
  moreover have "im_size m2 = im_size m1" by (simp add: m2_def)
  ultimately have l2: "lay n m2 bs" using m1(2) by (simp add: lay_def f2)
  define m3 where "m3 = poke (512 * unat b + 0) (le_bytes 2) m2"
  define m4 where "m4 = poke (512 * unat b + 4) (le_bytes (of_nat k * 16)) m3"
  define m5 where "m5 = poke (512 * unat b + 8) (le_bytes 0) m4"
  define m6 where "m6 = poke (512 * unat b + 12) (le_bytes b) m5"
  note W3 = data_write [OF H(1) N(1) l2, of 0 "le_bytes 2", simplified, folded m3_def [simplified]]
  note W4 = data_write [OF H(1) N(1) W3(4), of 4 "le_bytes (of_nat k * 16)", simplified, folded m4_def]
  note W5 = data_write [OF H(1) N(1) W4(4), of 8 "le_bytes 0", simplified, folded m5_def]
  note W6 = data_write [OF H(1) N(1) W5(4), of 12 "le_bytes b", simplified, folded m6_def]
  have "put32 root_ptr b m1 = Inr m2" using N by (simp add: root_ptr_def m2_def)
  then have e: "mk_root k m = Inr (b, m6)"
    using m1(1) W3(1) W4(1) W5(1) W6(1) by (simp add: mk_root_def datab_toPtr [OF H(1) N(1)] put32_def)
  have f: "fatl n m6 ! unat b = 0" using W3(3) W4(3) W5(3) W6(3) f2 m1(3) N(2) by (simp del: fatl_nth)
  have w: "within (blk b) m2 m6"
    by (rule within_mono [OF within_trans [OF within_trans [OF within_trans [OF W3(2) W4(2)] W5(2)] W6(2)]]) auto
  have lowb: "512 \<le> 512 * unat b" using datab_size [OF H(1)] by simp
  have low: "word_at m6 a = word_at m2 a" if "a + 4 \<le> 512" for a
    by (rule within_word [OF w]) (use that lowb in \<open>auto simp: blk_def\<close>)
  have "word_at m6 12 = b" using low [of 12] by (simp add: m2_def)
  moreover have "word_at m6 a = word_at m a" if "a = 0 \<or> a = 4" for a
  proof -
    have "word_at m2 a = word_at m1 a" by (rule within_word [OF w2]) (use that in auto)
    moreover have "word_at m1 a = word_at m a" by (rule within_word [OF m1(4)]) (use that in \<open>auto simp: availw_def fatw_def\<close>)
    ultimately show ?thesis using low [of a] that by auto
  qed
  then have "super_ok n m6" using s by (simp add: super_ok_def)
  moreover have "header_at m6 b 2"
  proof -
    have "word_at m6 (512 * unat b + 0) = word_at m3 (512 * unat b + 0)" by (rule word_at_cong) (simp add: m6_def m5_def m4_def)
    moreover have "word_at m3 (512 * unat b + 0) = 2" by (simp only: m3_def word_at_poke)
    ultimately show ?thesis by (simp add: header_at_def m6_def)
  qed
  moreover have "word_at m6 (512 * unat b + 4) = of_nat k * 16"
  proof -
    have "word_at m6 (512 * unat b + 4) = word_at m4 (512 * unat b + 4)" by (rule word_at_cong) (simp add: m6_def m5_def)
    then show ?thesis by (simp add: m4_def)
  qed
  ultimately have "root_ok n m6 b k []" using H(1) f by (simp add: root_ok_def mult.commute)
  then show thesis using that [OF e W6(4)] by blast
qed

text \<open>The entry of a file.\<close>

definition entry_bytes :: "cstring \<Rightarrow> u32 \<Rightarrow> u8 list" where
  "entry_bytes path x = c_strncpy (c_basename path) 12 @ le_bytes x"

lemma length_strncpy [simp]: "length (c_strncpy s n) = n" by (simp add: c_strncpy_def)

lemma mk_entry:
  assumes l: "lay n m free" and R: "root_ok n m r k es" and len: "length es < 31"
  obtains m1 m' where "put_bytes (toPtr r 16 + length es * 16) (c_strncpy (c_basename path) 12) m = Inr m1"
    "put32 (toPtr r 16 + length es * 16 + 12) x m1 = Inr m'" "lay n m' free" "root_ok n m' r k (es @ [entry_bytes path x])"
    "within (owned {r}) m m'"
proof -
  have r: "datab n r" using R by (simp add: root_ok_def)
  have N: "n < 2 ^ 22" using lay_size [OF l] by simp
  let ?o = "16 + 16 * length es"
  define m1 where "m1 = poke (512 * unat r + ?o) (c_strncpy (c_basename path) 12) m"
  define m2 where "m2 = poke (512 * unat r + (?o + 12)) (le_bytes x) m1"
  have o: "?o + 12 + 4 \<le> 512" using len by simp
  have p1: "put_bytes (512 * unat r + ?o) (c_strncpy (c_basename path) 12) m = Inr m1" "within (blk r) m m1" "fatl n m1 = fatl n m" "lay n m1 free"
    unfolding m1_def by (rule data_write [OF r N l]; use o in simp)+
  have p2: "put_bytes (512 * unat r + (?o + 12)) (le_bytes x) m1 = Inr m2" "within (blk r) m1 m2" "fatl n m2 = fatl n m1" "lay n m2 free"
    unfolding m2_def by (rule data_write [OF r N p1(4)]; use o in simp)+
  have w: "within (blk r) m m2" using within_trans [OF p1(2) p2(2)] by simp
  have wo: "within (owned {r}) m m2" by (rule within_mono [OF w]) (simp add: ownedI)
  have E: "im m2 (512 * unat r + 16 + 16 * j + c) = (es @ [entry_bytes path x]) ! j ! c" if j: "j < Suc (length es)" "c < 16" for j c
  proof (cases "j = length es")
    case True
    then show ?thesis using that by (auto simp: m2_def m1_def entry_bytes_def nth_append)
  next
    case False
    then have "16 * j + 16 \<le> 16 * length es" using j by simp
    then have "im m2 (512 * unat r + 16 + 16 * j + c) = im m (512 * unat r + 16 + 16 * j + c)" using j by (simp add: m2_def m1_def)
    then show ?thesis using R j False by (simp add: root_ok_def nth_append)
  qed
  have W: "word_at m2 (512 * unat r + a) = word_at m (512 * unat r + a)" if "a + 4 \<le> 16" for a
    by (rule word_at_cong) (use that in \<open>simp add: m2_def m1_def\<close>)
  have "word_at m2 12 = word_at m 12" "super_ok n m2"
    using super_word [OF wo, of n 12] super_other [OF _ wo] R r by (simp_all add: root_ok_def)
  then have R': "root_ok n m2 r k (es @ [entry_bytes path x])"
    using R E W [of 0] W [of 4] W [of 12] p1(3) p2(3) by (simp add: root_ok_def header_at_def del: fatl_nth)
  have e: "toPtr r 16 + length es * 16 = 512 * unat r + ?o" "toPtr r 16 + length es * 16 + 12 = 512 * unat r + (?o + 12)"
    by (simp_all add: datab_toPtr [OF r N])
  show thesis by (rule that [OF _ _ p2(4) R' wo]) (simp only: e(1) p1(1), simp only: put32_def e(2) p2(1))
qed


section \<open>The whole image\<close>

type_synonym files = "(cstring \<times> u8 list) list"

definition used :: "files \<Rightarrow> nat \<Rightarrow> nat" where
  "used fs i = sum_list (map (\<lambda>f. blocks_of (snd f)) (take i fs))"

text \<open>The root directory has the first free block, the files have the following ones in their order.\<close>

definition place :: "u32 list \<Rightarrow> files \<Rightarrow> nat \<Rightarrow> u32 list" where
  "place fr fs j = take (blocks_of (snd (fs ! j))) (drop (used fs j) fr)"

definition entries :: "u32 list \<Rightarrow> files \<Rightarrow> nat \<Rightarrow> u8 list list" where
  "entries fr fs i = map (\<lambda>j. entry_bytes (fst (fs ! j)) (hd (place fr fs j))) [0 ..< i]"

definition imaged :: "nat \<Rightarrow> u32 \<Rightarrow> u32 list \<Rightarrow> files \<Rightarrow> nat \<Rightarrow> image \<Rightarrow> bool" where
  "imaged n r fr fs i m \<longleftrightarrow> used fs i \<le> length fr \<and> lay n m (drop (used fs i) fr) \<and> root_ok n m r (length fs) (entries fr fs i)
   \<and> (\<forall>j < i. laid n m (hd (place fr fs j)) 1 (place fr fs j) (snd (fs ! j)))"

lemma used_Suc: "i < length fs \<Longrightarrow> used fs (Suc i) = used fs i + blocks_of (snd (fs ! i))"
  by (simp add: used_def take_Suc_conv_app_nth)

lemma used_mono: "i \<le> j \<Longrightarrow> used fs i \<le> used fs j"
proof -
  assume "i \<le> j"
  then have "take j fs = take i fs @ take (j - i) (drop i fs)" by (metis le_add_diff_inverse take_add)
  then show ?thesis by (simp add: used_def)
qed

lemma entries_Suc: "entries fr fs (Suc i) = entries fr fs i @ [entry_bytes (fst (fs ! i)) (hd (place fr fs i))]"
  by (simp add: entries_def)

lemma length_entries [simp]: "length (entries fr fs i) = i" by (simp add: entries_def)

lemma place_disjoint:
  assumes "distinct fr" "j < i" "i \<le> length fs"
  shows "set (place fr fs j) \<inter> set (drop (used fs i) fr) = {}"
proof -
  have "used fs (Suc j) \<le> used fs i" using assms by (intro used_mono) simp
  then have "used fs j + blocks_of (snd (fs ! j)) \<le> used fs i" using assms by (simp add: used_Suc)
  then have "set (take (used fs j + blocks_of (snd (fs ! j))) fr) \<subseteq> set (take (used fs i) fr)"
    by (rule set_take_subset_set_take)
  moreover have "set (place fr fs j) \<subseteq> set (take (used fs j + blocks_of (snd (fs ! j))) fr)"
    unfolding place_def take_drop by (subst add.commute) (rule set_drop_subset)
  ultimately have s: "set (place fr fs j) \<subseteq> set (take (used fs i) fr)" by simp
  have "set (take (used fs i) fr) \<inter> set (drop (used fs i) fr) = {}"
    by (rule set_take_disj_set_drop_if_distinct [OF assms(1)]) simp
  then show ?thesis using s by blast
qed

lemma mk_file_imaged:
  assumes d: "delivers amt" and I: "imaged n r fr fs i m" and i: "i < length fs" "length fs \<le> 31" and fr: "distinct fr" "r \<notin> set fr"
    and len: "length (snd (fs ! i)) < 2 ^ 32" and n: "0 < n" "\<forall>b \<in> set fr. datab n b"
  shows "(\<exists>e. mk_file amt (map (\<lambda>(p, c). (p, Some c)) fs) r i m = Inl e \<and> e = Exit ''disk is full'' \<and> length fr < used fs (Suc i))
    \<or> (\<exists>m'. mk_file amt (map (\<lambda>(p, c). (p, Some c)) fs) r i m = Inr m' \<and> imaged n r fr fs (Suc i) m')"
proof -
  let ?k = "blocks_of (snd (fs ! i))" and ?free = "drop (used fs i) fr" and ?p = "place fr fs i"
  have f: "map (\<lambda>(p, c). (p, Some c)) fs ! i = (fst (fs ! i), Some (snd (fs ! i)))"
    using i(1) by (simp add: case_prod_unfold)
  have l: "lay n m ?free" "used fs i \<le> length fr" using I by (simp_all add: imaged_def)
  note O = oneFile_lays [OF d l(1) n(1) len]
  have k0: "0 < ?k" by (simp add: blocks_of_def)
  show ?thesis
  proof (cases "?k \<le> length ?free")
    case False
    then have "oneFile amt (Some (snd (fs ! i))) m = Inl (Exit ''disk is full'')" using O by simp
    moreover have "length fr < used fs (Suc i)" using False i(1) l(2) by (simp add: used_Suc)
    ultimately show ?thesis by (simp add: mk_file_def f)
  next
    case True
    have h: "hd ?free = hd ?p" using k0 by (simp add: place_def)
    obtain m1 where m1: "oneFile amt (Some (snd (fs ! i))) m = Inr (hd ?p, m1)" "lay n m1 (drop ?k ?free)"
      "laid n m1 (hd ?p) 1 ?p (snd (fs ! i))" "within (owned (set ?p)) m m1"
      using O True unfolding h by (auto simp: place_def)
    have u: "drop ?k ?free = drop (used fs (Suc i)) fr" "used fs (Suc i) \<le> length fr"
      using True i(1) l(2) by (simp_all add: used_Suc add.commute)
    have sub: "set ?p \<subseteq> set fr" unfolding place_def by (meson set_drop_subset set_take_subset subset_trans)
    have "root_ok n m1 r (length fs) (entries fr fs i)"
      by (rule root_other [OF _ m1(4)]) (use I fr(2) sub n(2) i in \<open>auto simp: imaged_def\<close>)
    then obtain m2 m3 where m3: "put_bytes (toPtr r 16 + length (entries fr fs i) * 16) (c_strncpy (c_basename (fst (fs ! i))) 12) m1 = Inr m2"
      "put32 (toPtr r 16 + length (entries fr fs i) * 16 + 12) (hd ?p) m2 = Inr m3" "lay n m3 (drop ?k ?free)"
      "root_ok n m3 r (length fs) (entries fr fs i @ [entry_bytes (fst (fs ! i)) (hd ?p)])" "within (owned {r}) m1 m3"
      by (rule mk_entry [OF m1(2)]) (use i in simp)
    have e: "mk_file amt (map (\<lambda>(p, c). (p, Some c)) fs) r i m = Inr m3"
      using m1(1) m3(1,2) by (simp add: mk_file_def f)
    have r: "datab n r" using I by (simp add: imaged_def root_ok_def)
    have "laid n m3 (hd (place fr fs j)) 1 (place fr fs j) (snd (fs ! j))" if j: "j < Suc i" for j
    proof (rule laid_other [OF _ m3(5)])
      have subj: "set (place fr fs j) \<subseteq> set fr" unfolding place_def by (meson set_drop_subset set_take_subset subset_trans)
      then show "{r} \<inter> set (place fr fs j) = {}" using fr(2) by blast
      show "\<forall>b \<in> {r}. datab n b" using r by simp
      show "laid n m1 (hd (place fr fs j)) 1 (place fr fs j) (snd (fs ! j))"
      proof (cases "j = i")
        case True
        then show ?thesis using m1(3) by simp
      next
        case False
        then have ji: "j < i" using j by simp
        show ?thesis
        proof (rule laid_other [OF _ m1(4)])
          show "laid n m (hd (place fr fs j)) 1 (place fr fs j) (snd (fs ! j))" using I ji by (simp add: imaged_def)
          have "set ?p \<subseteq> set ?free" by (simp add: place_def set_take_subset)
          then show "set ?p \<inter> set (place fr fs j) = {}" using place_disjoint [OF fr(1) ji, of fs] i(1) by auto
          show "\<forall>b \<in> set ?p. datab n b" using sub n(2) by blast
        qed
      qed
    qed
    then have "imaged n r fr fs (Suc i) m3" using u m3(3,4) unfolding imaged_def entries_Suc by simp
    then show ?thesis using e by blast
  qed
qed

text \<open>What \<^verbatim>\<open>mkfs\<close> needs: at least one and at most 31 files, an image that has a data block, and no bytes of an older image in the last word of the free list.\<close>

definition mk_ok :: "nat \<Rightarrow> u8 list \<Rightarrow> files \<Rightarrow> bool" where
  "mk_ok n old fs \<longleftrightarrow> fs \<noteq> [] \<and> length fs \<le> 31 \<and> lo n < n \<and> n < 2 ^ 22
   \<and> (\<forall>i. 512 + 4 * lo n \<le> i \<and> i < 516 + 4 * lo n \<and> i < length old \<longrightarrow> old ! i = 0) \<and> (\<forall>f \<in> set fs. length (snd f) < 2 ^ 32)"

lemma mkfs_lays:
  assumes d: "delivers amt" and ok: "mk_ok n old fs"
  shows "if used fs (length fs) < n - lo n
    then \<exists>m. mkfs_main amt (Some old) (int n) (map (\<lambda>(p, c). (p, Some c)) fs) = Inr m
      \<and> imaged n (hd (free0 n)) (tl (free0 n)) fs (length fs) m
    else mkfs_main amt (Some old) (int n) (map (\<lambda>(p, c). (p, Some c)) fs) = Inl (Exit ''disk is full'')"
proof -
  have n: "lo n < n" "n < 2 ^ 22" "0 < n" and fs: "fs \<noteq> []" "length fs \<le> 31" using ok by (auto simp: mk_ok_def)
  define m0 where "m0 = \<lparr>im_size = 512 * n, im = (\<lambda>i. if i < length old then old ! i else 0)\<rparr>"
  have u: "unat (of_nat n * 512 :: u32) = 512 * n"
    using n(2) unat_of_nat_u32 [of "512 * n"] by (simp add: mult.commute)
  have "map (im m0) [512 + 4 * lo n ..< 512 + 4 * lo n + 4] = replicate 4 0"
    using ok by (intro nth_equalityI) (auto simp: m0_def mk_ok_def)
  then have z: "word_at m0 (512 + 4 * lo n) = 0" unfolding word_at_def by (simp add: le_word_def numeral_eq_Suc)
  obtain m1 where m1: "mk_super (int n) m0 = Inr m1" "lay n m1 (free0 n)" "word_at m1 0 = expectedMagic" "word_at m1 4 = of_nat n"
    by (rule mk_super_lays [OF n(1,2) _ z]) (simp add: m0_def)
  obtain r fr where f0: "free0 n = r # fr" using n(1) by (cases "free0 n") (simp_all add: free0_def)
  have len: "length fr = n - lo n - 1" using length_free0 [of n] f0 by simp
  obtain m2 where m2: "mk_root (length fs) m1 = Inr (r, m2)" "lay n m2 fr" "root_ok n m2 r (length fs) []"
    by (rule mk_root_lays [OF m1(2) [unfolded f0]]) (use m1(3,4) in \<open>simp add: super_ok_def\<close>)
  have dist: "distinct fr" "r \<notin> set fr" "\<forall>b \<in> set fr. datab n b"
    using chain_distinct [of "fatl n m1" "word_at m1 8" "r # fr"] m1(2) f0 by (auto simp: lay_def)
  let ?F = "map (\<lambda>(p, c). (p, Some c)) fs"
  have e: "mkfs_main amt (Some old) (int n) ?F = loopE (mk_file amt ?F r) [0 ..< length fs] m2"
    using m1(1) m2(1) n fs(1) u by (simp add: mkfs_main_def m0_def del: loopE.simps)
  have I0: "imaged n r fr fs 0 m2" using m2(2,3) by (simp add: imaged_def used_def entries_def)
  have "(\<exists>e. loopE (mk_file amt ?F r) [0 ..< length fs] m2 = Inl e \<and> e = Exit ''disk is full'' \<and> length fr < used fs (length fs))
    \<or> (\<exists>m'. loopE (mk_file amt ?F r) [0 ..< length fs] m2 = Inr m' \<and> imaged n r fr fs (length fs) m')"
  proof (rule loopE_upt_inv [where I = "\<lambda>i. imaged n r fr fs i" and E = "\<lambda>e. e = Exit ''disk is full'' \<and> length fr < used fs (length fs)"])
    fix i s assume i: "i < length fs" and I: "imaged n r fr fs i s"
    have "length (snd (fs ! i)) < 2 ^ 32" using ok nth_mem [OF i] by (auto simp: mk_ok_def)
    moreover have "used fs (Suc i) \<le> used fs (length fs)" using i by (intro used_mono) simp
    ultimately show "(\<exists>e. mk_file amt ?F r i s = Inl e \<and> e = Exit ''disk is full'' \<and> length fr < used fs (length fs))
        \<or> (\<exists>s'. mk_file amt ?F r i s = Inr s' \<and> imaged n r fr fs (Suc i) s')"
      using mk_file_imaged [OF d I i fs(2) dist(1,2) _ n(3) dist(3)] by fastforce
  qed (use I0 in simp_all)
  then show ?thesis unfolding e f0 using len n(1) by (auto simp: imaged_def)
qed


section \<open>The image as a disk\<close>

lemma le_words_upt: "le_words (map f [a ..< a + 4 * k]) = map (\<lambda>i. le_word (map f [a + 4 * i ..< a + 4 * i + 4])) [0 ..< k]"
proof (induction k arbitrary: a)
  case (Suc k)
  have e: "a + 4 * Suc k = a + 4 + 4 * k" by simp
  have "map f [a ..< a + 4 * Suc k] = map f [a ..< a + 4] @ map f [a + 4 ..< a + 4 + 4 * k]"
    unfolding e using upt_add_eq_append [of a "a + 4" "4 * k"] by simp
  then have "le_words (map f [a ..< a + 4 * Suc k]) = le_word (map f [a ..< a + 4]) # le_words (map f [a + 4 ..< a + 4 + 4 * k])"
    by (simp only: le_words_append [of "map f [a ..< a + 4]"] length_map length_upt diff_add_inverse)
  also have "\<dots> = map (\<lambda>i. le_word (map f [a + 4 * i ..< a + 4 * i + 4])) (0 # map Suc [0 ..< k])"
    unfolding Suc.IH by (simp add: algebra_simps)
  also have "0 # map Suc [0 ..< k] = [0 ..< Suc k]" by (simp add: map_Suc_upt upt_conv_Cons del: upt_Suc)
  finally show ?case .
qed simp

text \<open>A device with the bytes of an image.\<close>

definition holds_image :: "'d driver \<Rightarrow> 'd \<Rightarrow> image \<Rightarrow> bool" where
  "holds_image v d m \<longleftrightarrow> (\<forall>i < im_size m. disk_byte v d i = im m i)"

lemma holds_words:
  assumes "holds_image v d m" "a + 4 * k \<le> im_size m"
  shows "le_words (map (disk_byte v d) [a ..< a + 4 * k]) = map (\<lambda>i. word_at m (a + 4 * i)) [0 ..< k]"
proof -
  have "map (disk_byte v d) [a ..< a + 4 * k] = map (im m) [a ..< a + 4 * k]"
    using assms by (auto simp: holds_image_def)
  then show ?thesis by (simp only: le_words_upt word_at_def)
qed

lemma holds_meta:
  assumes "holds_image v d m" "a + 16 \<le> im_size m"
  shows "meta_of_bytes (map (disk_byte v d) [a ..< a + 16]) =
    \<lparr>m_type = word_at m a, m_length = word_at m (a + 4), m_parentDir = word_at m (a + 8), m_currentBlk = word_at m (a + 12)\<rparr>"
  using holds_words [OF assms(1), of a 4] assms(2) by (simp add: meta_of_bytes_def upt_rec)

lemma openFile_rest:
  assumes "openFile v b fs = Inr fs'"
  shows "length (openFiles fs') = length (openFiles fs)" "openFilesMutex fs' = openFilesMutex fs"
    "c \<noteq> b \<Longrightarrow> openFiles fs' ! unat c = openFiles fs ! unat c"
  using assms by (auto simp: openFile_def lockOpenFiles_def unlockOpenFiles_def slot_put_def word_unat_eq_iff split: if_splits option.splits)

lemma mount_image:
  assumes v: "volume v" and h: "holds_image v d m" and l: "lay n m free" "lo n < n" and R: "root_ok n m r k es" and k: "k \<le> 31"
  obtains root fs f where "mount v d = Inr (root, fs)" "dir_ok fs root f [r]" "d_start root = r" "unat (d_entries root) = k"
    "dev fs = d" "fat fs = fatl n m" "length (openFiles fs) = n" "openFilesMutex fs = 1" "\<And>c. c \<noteq> r \<Longrightarrow> unat c < n \<Longrightarrow> openFiles fs ! unat c = None"
proof -
  have bd: "block_device (blockSize v) (readBlock v) (writeBlock v)" using v by (simp add: volume_def)
  have n: "im_size m = 512 * n" "n < 2 ^ 22" using lay_size [OF l(1)] by simp_all
  have inb: "512 + 4 * n \<le> 512 * n" using lo_bound [of n] l(2) by linarith
  have un: "unat (of_nat n :: u32) = n" using n(2) by (simp add: unat_of_nat_u32)
  have r: "datab n r" "r \<noteq> 0" using R datab_size [of n r] by (auto simp: root_ok_def)
  have "unat (of_nat n * 4 :: u32) = 4 * n" using n(2) unat_of_nat_u32 [of "4 * n"] by (simp add: mult.commute)
  then have F: "dev_readFully v d BLOCK_SZ (of_nat n * 4) = Inr (map (disk_byte v d) [512 ..< 512 + 4 * n])"
    using block_device.readFully_image [OF bd, of BLOCK_SZ "of_nat n * 4" d] n(2) by (simp add: disk_byte_def BLOCK_SZ_def)
  have S: "dev_readFully v d 0 16 = Inr (map (disk_byte v d) [0 ..< 16])"
    using block_device.readFully_image [OF bd, of 0 16 d] by (simp add: disk_byte_def)
  define s where "s = super_of_bytes (map (disk_byte v d) [0 ..< 16])"
  have s: "sb_magic s = expectedMagic" "sb_nBlocks s = of_nat n" "sb_root s = r"
    using holds_words [OF h, of 0 4] inb n R by (simp_all add: s_def super_of_bytes_def upt_rec root_ok_def super_ok_def)
  define fs0 where "fs0 = \<lparr>dev = d, super = s, fat = fatl n m, openFilesMutex = 1, openFiles = replicate n None\<rparr>"
  have "take n (le_words (map (disk_byte v d) [512 ..< 512 + 4 * n])) = fatl n m"
    using holds_words [OF h, of 512 n] inb n by (simp add: fatl_def)
  then have M: "mount v d = new_Directory v r fs0"
    using S F s un by (simp add: mount_def Let_def s_def [symmetric] fs0_def)
  let ?m = "\<lparr>m_type = word_at m (512 * unat r), m_length = word_at m (512 * unat r + 4), m_parentDir = word_at m (512 * unat r + 8),
     m_currentBlk = word_at m (512 * unat r + 12)\<rparr>"
  have meta: "meta_of_bytes (map (disk_byte v d) [512 * unat r ..< 512 * unat r + 16]) = ?m"
    by (rule holds_meta [OF h]) (use datab_size [OF r(1)] n in simp)
  have L: "unat (m_length ?m) = 16 * k" "word_at m (512 * unat r + 4) = of_nat (16 * k)"
    using R k unat_of_nat_u32 [of "16 * k"] by (simp_all add: root_ok_def)
  have ch: "chain (fatl n m) r [r]" using r R by (simp add: root_ok_def datab_def del: fatl_nth)
  have "stored v fs0 r [r] ?m"
    using ch n(2) L(1) k meta r(1) by (simp add: stored_def fs0_def datab_def)
  from openFile_stored [OF v this] obtain fs f where f: "openFile v r fs0 = Inr fs" "wf_file fs r f [r]" "of_meta f = ?m" "dev fs = d" "fat fs = fatl n m"
    by (auto simp: fs0_def)
  note O = openFile_rest [OF f(1)]
  let ?root = "\<lparr>d_start = r, d_entries = m_length (of_meta f) div DIR_ENTRY_SZ\<rparr>"
  have e: "unat (d_entries ?root) = k" using L(1) f(3) by (simp add: DIR_ENTRY_SZ_def unat_div)
  have "file_at fs r = Inr f" using f(2) by (simp add: wf_file_def)
  then have "mount v d = Inr (?root, fs)" using f(1) by (simp add: M new_Directory_def)
  moreover have "dir_ok fs ?root f [r]" using f(2,3) L(1) e by (simp add: dir_ok_def)
  moreover have "openFiles fs ! unat c = None" if "c \<noteq> r" "unat c < n" for c
    using O(3) [OF that(1)] that(2) by (simp add: fs0_def)
  ultimately show thesis using that [of ?root fs f] e f(4,5) O(1,2) by (simp add: fs0_def)
qed


lemma basename_text: "0 \<notin> set (c_basename s)"
proof -
  have t: "0 \<notin> set (rev (dropWhile P (rev (ctext s))))" for P
    using ctext_nonzero [of s] by (auto dest: set_dropWhileD)
  have "0 \<notin> set (rev (takeWhile Q (rev (rev (dropWhile P (rev (ctext s)))))))" for P Q
    using t [of P] by (auto dest: set_takeWhileD)
  then show ?thesis by (simp add: c_basename_def Let_def)
qed

lemma entry_is_bytes:
  assumes "length nm < 12" "0 \<notin> set nm"
  shows "entry_is (entry_bytes p x) nm \<longleftrightarrow> c_basename p = nm"
proof -
  let ?b = "c_basename p" and ?k = "Suc (length nm)"
  have z: "0 \<notin> set ?b" by (rule basename_text)
  have e: "take ?k (entry_bytes p x) = take ?k (?b @ replicate 12 0)"
    using assms(1) z by (simp add: entry_bytes_def c_strncpy_def take_append min_def) linarith
  have "take ?k (?b @ replicate 12 0) = nm @ [0] \<longleftrightarrow> ?b = nm"
  proof
    assume a: "take ?k (?b @ replicate 12 0) = nm @ [0]"
    have tw: "takeWhile (\<lambda>c. c \<noteq> 0) (nm @ [0]) = nm" using assms(2) by (subst takeWhile_append2) auto
    have "\<not> ?k \<le> length ?b"
    proof
      assume "?k \<le> length ?b"
      then have "take ?k ?b = nm @ [0]" using a by simp
      then have "0 \<in> set ?b" using set_take_subset [of ?k ?b] by auto
      then show False using z by simp
    qed
    moreover have "min (?k - length ?b) 12 = ?k - length ?b" using assms(1) by linarith
    ultimately have "nm @ [0] = ?b @ replicate (?k - length ?b) 0" using a by simp
    moreover have "takeWhile (\<lambda>c. c \<noteq> 0) (?b @ replicate (?k - length ?b) 0) = ?b"
    proof -
      have "takeWhile (\<lambda>c. c \<noteq> 0) (replicate j 0) = ([] :: u8 list)" for j by (cases j) auto
      then show ?thesis using z by (subst takeWhile_append2) auto
    qed
    ultimately show "?b = nm" using tw by simp
  next
    assume "?b = nm"
    then show "take ?k (?b @ replicate 12 0) = nm @ [0]" by simp
  qed
  then show ?thesis using assms e by (simp add: entry_is_def)
qed

lemma entry_start_bytes [simp]: "entry_start (entry_bytes p x) = x"
  by (simp add: entry_start_def entry_bytes_def)

lemma length_entry_bytes [simp]: "length (entry_bytes p x) = 16"
  by (simp add: entry_bytes_def)

text \<open>A file of the image, by its name and through the kernel's operations.\<close>

definition reads_back :: "'d driver \<Rightarrow> 'd \<Rightarrow> cstring \<Rightarrow> u8 list \<Rightarrow> bool" where
  "reads_back v d name cs \<longleftrightarrow> (\<exists>root fs. mount v d = Inr (root, fs) \<and> (\<forall>junk. length junk = 16 \<longrightarrow>
     (\<exists>f fs' f'. lookupFile v junk (Some name) root fs = Inr (Some f, fs')
       \<and> file_readFully v fs' (of_nat (length cs)) (of_nat (length cs)) f = Inr (int (length cs), cs, f'))))"

lemma image_reads_back:
  assumes v: "volume v" and h: "holds_image v d m" and I: "imaged n r fr fs (length fs) m" and n: "lo n < n" "length fs \<le> 31"
    and fr: "r \<notin> set fr" and i: "i < length fs" "name = c_basename (fst (fs ! i))" "\<forall>j < i. c_basename (fst (fs ! j)) \<noteq> name"
    and name: "length name < 12" "\<not> is_dot name" "\<not> is_dotdot name"
  shows "reads_back v d name (snd (fs ! i))"
proof -
  let ?x = "hd (place fr fs i)" and ?xs = "place fr fs i" and ?cs = "snd (fs ! i)"
  have l: "lay n m (drop (used fs (length fs)) fr)" and R: "root_ok n m r (length fs) (entries fr fs (length fs))"
    and L: "laid n m ?x 1 ?xs ?cs" using I i by (simp_all add: imaged_def)
  obtain root vol f where M: "mount v d = Inr (root, vol)" "dir_ok vol root f [r]" "d_start root = r" "unat (d_entries root) = length fs"
    "dev vol = d" "fat vol = fatl n m" "length (openFiles vol) = n" "openFilesMutex vol = 1"
    "\<And>c. c \<noteq> r \<Longrightarrow> unat c < n \<Longrightarrow> openFiles vol ! unat c = None"
    using mount_image [OF v h l n(1) R n(2)] by blast
  have sz: "im_size m = 512 * n" "n < 2 ^ 22" using lay_size [OF l] by simp_all
  have x: "?xs \<noteq> []" "?x \<in> set ?xs" "datab n ?x" using L by (auto simp: laid_def)
  have xr: "?x \<noteq> r"
  proof -
    have "set ?xs \<subseteq> set fr" unfolding place_def by (meson set_drop_subset set_take_subset subset_trans)
    then show ?thesis using x(2) fr by blast
  qed
  have r: "datab n r" using R by (simp add: root_ok_def)
  have E: "dir_entry v vol [r] j = entry_bytes (fst (fs ! j)) (hd (place fr fs j))" if j: "j < length fs" for j
  proof -
    have "dir_entry v vol [r] j = block_entry v d r j" using dir_entry_block [of j v vol r "[]"] j n(2) M(5) by simp
    also have "\<dots> = entry_bytes (fst (fs ! j)) (hd (place fr fs j))"
    proof (rule nth_equalityI)
      fix c assume "c < length (block_entry v d r j)"
      then have c: "c < 16" by simp
      have "entry_pos r j + c < im_size m" using datab_size [OF r] c j n(2) sz(1) by (simp add: entry_pos_def)
      then have "disk_byte v d (entry_pos r j + c) = im m (512 * unat r + 16 + 16 * j + c)"
        using h by (simp add: holds_image_def entry_pos_def ac_simps)
      then show "block_entry v d r j ! c = entry_bytes (fst (fs ! j)) (hd (place fr fs j)) ! c"
        using R j c by (simp add: root_ok_def block_entry_def entries_def)
    qed simp
    finally show ?thesis .
  qed
  have nm: "0 \<notin> set name" unfolding i(2) by (rule basename_text)
  have "find_entry v vol [r] name 0 (length fs) = Some i"
    unfolding find_entry_def find_Some_iff
    by (rule exI [of _ i]) (use i E entry_is_bytes [OF name(1) nm] in auto)
  then have look: "dir_lookup v vol root junk name = Inr ?x" if "length junk = 16" for junk
    using volume.dir_lookup_first [OF v M(2) that name(2,3)] M(4) E i(1) by simp
  have "?x \<noteq> 0" using datab_size [OF x(3)] by auto
  define mt where "mt = \<lparr>m_type = word_at m (512 * unat ?x), m_length = word_at m (512 * unat ?x + 4),
     m_parentDir = word_at m (512 * unat ?x + 8), m_currentBlk = word_at m (512 * unat ?x + 12)\<rparr>"
  have meta: "meta_of_bytes (map (disk_byte v d) [512 * unat ?x ..< 512 * unat ?x + 16]) = mt"
    unfolding mt_def by (rule holds_meta [OF h]) (use datab_size [OF x(3)] sz in simp)
  have "length ?xs \<le> n" using L chain_length [of "fatl n m"] by (force simp: laid_def)
  then have big: "length ?cs + 16 < 2 ^ 31" using L sz(2) by (auto simp: laid_def)
  then have len: "unat (of_nat (length ?cs) :: u32) = length ?cs" by (intro unat_of_nat_u32) simp
  then have ml: "unat (m_length mt) = length ?cs" using L by (simp add: mt_def laid_def)
  have "stored v vol ?x ?xs mt"
    using L M(5-9) xr x(3) sz(2) ml big meta by (simp add: stored_def laid_def datab_def)
  then obtain vol' g where g: "openFile v ?x vol = Inr vol'" "wf_file vol' ?x g ?xs" "of_meta g = mt" "dev vol' = d" "fat vol' = fatl n m"
    using openFile_stored [OF v, of vol ?x ?xs mt] M(5,6) by metis
  have "lookupFile v junk (Some name) root vol = Inr (Some (new_File ?x), vol')" if "length junk = 16" for junk
    using look [OF that] g(1) \<open>?x \<noteq> 0\<close> by (simp add: lookupFile_def)
  moreover have "file_byte v vol' ?xs j = ?cs ! j" if j: "j < length ?cs" for j
  proof -
    have k: "(j + 16) div 512 < length ?xs" using L j by (simp add: laid_def less_mult_imp_div_less mult.commute)
    then have "datab n (?xs ! ((j + 16) div 512))" using L by (simp add: laid_def)
    then have "512 * unat (?xs ! ((j + 16) div 512)) + 512 \<le> 512 * n" using datab_size by blast
    moreover have "(j + 16) mod 512 < 512" by simp
    ultimately have "file_pos ?xs j < im_size m" unfolding file_pos_def sz(1) by linarith
    then show ?thesis using h L j g(4) by (simp add: file_byte_def holds_image_def laid_def)
  qed
  then have "map (file_byte v vol' ?xs) [0 ..< length ?cs] = ?cs" by (intro nth_equalityI) simp_all
  then have "\<exists>f'. file_readFully v vol' (of_nat (length ?cs)) (of_nat (length ?cs)) (new_File ?x) = Inr (int (length ?cs), ?cs, f')"
    using volume.file_readFully_slice [OF v g(2), of "of_nat (length ?cs)" "of_nat (length ?cs)" "new_File ?x"] len ml big g(3)
    by (simp add: new_File_def Let_def)
  ultimately show ?thesis unfolding reads_back_def using M(1) by blast
qed


text \<open>Such a disk: the image in the drive of the kernel.\<close>

definition image_disk :: "image \<Rightarrow> disk_image" where
  "image_disk m = (\<lambda>(port, chan, b) i. le_word (map (im m) [512 * unat b + 4 * i ..< 512 * unat b + 4 * i + 4]))"

lemma image_disk_holds: "im_size m \<le> 2 ^ 32 \<Longrightarrow> holds_image ide_driver (image_disk m) m"
  unfolding holds_image_def
proof (intro allI impI)
  fix p assume s: "im_size m \<le> 2 ^ 32" "p < im_size m"
  let ?a = "512 * (p div 512) + 4 * (p mod 512 div 4)"
  define q where "q = p mod 512 mod 4"
  have q: "q < 4" by (simp add: q_def)
  have "p div 512 < 2 ^ 23" using s by (simp add: less_mult_imp_div_less)
  then have u: "unat (of_nat (p div 512) :: u32) = p div 512" by (intro unat_of_nat_u32) simp
  have "disk_byte ide_driver (image_disk m) p = le_bytes (le_word (map (im m) [?a ..< ?a + 4])) ! q"
    using s u by (simp add: ide_disk_byte image_disk_def q_def)
  also have "\<dots> = im m (?a + q)" using q by simp
  also have "?a + q = p" unfolding q_def using mult_div_mod_eq [of 4 "p mod 512"] mult_div_mod_eq [of 512 p] by linarith
  finally show "disk_byte ide_driver (image_disk m) p = im m p" .
qed

section \<open>Properties\<close>

text \<open>
  C13. The image that \<^verbatim>\<open>mkfs\<close> makes is a file system of the kernel. For at most 31 files it fails exactly
  when they and the root directory need more blocks than the disk has behind the FAT, and otherwise, however
  the system splits its reads, the kernel mounts a disk with the image and, for every file whose name
  is shorter than 12 characters and not that of an earlier one, \<^verbatim>\<open>lookupFile\<close> finds it by the last
  component of its path and \<^verbatim>\<open>readFully\<close> returns the contents it was made from.
\<close>

theorem kernel_reads_image:
  assumes "volume v" and "delivers amt" and "mk_ok n old fs"
  shows "if used fs (length fs) < n - lo n
    then \<exists>m. mkfs_main amt (Some old) (int n) (map (\<lambda>(p, c). (p, Some c)) fs) = Inr m \<and> im_size m = 512 * n
      \<and> (\<forall>d i. holds_image v d m \<and> i < length fs \<and> length (c_basename (fst (fs ! i))) < 12
           \<and> \<not> is_dot (c_basename (fst (fs ! i))) \<and> \<not> is_dotdot (c_basename (fst (fs ! i)))
           \<and> (\<forall>j < i. c_basename (fst (fs ! j)) \<noteq> c_basename (fst (fs ! i)))
           \<longrightarrow> reads_back v d (c_basename (fst (fs ! i))) (snd (fs ! i)))
    else mkfs_main amt (Some old) (int n) (map (\<lambda>(p, c). (p, Some c)) fs) = Inl (Exit ''disk is full'')"
proof (cases "used fs (length fs) < n - lo n")
  case True
  then obtain m where m: "mkfs_main amt (Some old) (int n) (map (\<lambda>(p, c). (p, Some c)) fs) = Inr m"
    "imaged n (hd (free0 n)) (tl (free0 n)) fs (length fs) m"
    using mkfs_lays [OF assms(2,3)] by auto
  have n: "lo n < n" "length fs \<le> 31" using assms(3) by (auto simp: mk_ok_def)
  have dist: "hd (free0 n) \<notin> set (tl (free0 n))"
  proof -
    have "inj_on (of_nat :: nat \<Rightarrow> u32) {lo n ..< n}"
    proof (rule inj_onI)
      fix x y assume "x \<in> {lo n ..< n}" "y \<in> {lo n ..< n}" and e: "(of_nat x :: u32) = of_nat y"
      then have "x < 2 ^ 32" "y < 2 ^ 32" using assms(3) by (auto simp: mk_ok_def)
      then show "x = y" using e unat_of_nat_u32 by metis
    qed
    then have "distinct (free0 n)" by (simp add: free0_def distinct_map)
    moreover have "free0 n \<noteq> []" using n(1) by (simp add: free0_def)
    ultimately show ?thesis by (cases "free0 n") simp_all
  qed
  have "im_size m = 512 * n" using m(2) by (simp add: imaged_def lay_def)
  then show ?thesis
    using True m(1) image_reads_back [OF assms(1) _ m(2) n dist] by auto
next
  case False
  then show ?thesis using mkfs_lays [OF assms(2,3)] by simp
qed

text \<open>Four blocks and one file that the system delivers byte by byte; the kernel reads it from its drive.\<close>

theorem kernel_reads_image_witness:
  "\<exists>m. mkfs_main (\<lambda>r k. 1) (Some []) 4 [([0x75, 0x2f, 0x78], Some [7, 8, 9])] = Inr m
    \<and> reads_back ide_driver (image_disk m) [0x78] [7, 8, 9]"
proof -
  let ?fs = "[([0x75, 0x2f, 0x78], [7, 8, 9])] :: files"
  have ok: "mk_ok 4 [] ?fs" by (simp add: mk_ok_def lo_def)
  have d: "delivers (\<lambda>r k. 1)" by (simp add: delivers_def)
  have b: "c_basename [0x75, 0x2f, 0x78] = [0x78]" by (simp add: c_basename_def Let_def)
  have u: "used ?fs (length ?fs) < 4 - lo 4" by (simp add: used_def lo_def blocks_of_def)
  obtain m where m: "mkfs_main (\<lambda>r k. 1) (Some []) (int 4) (map (\<lambda>(p, c). (p, Some c)) ?fs) = Inr m" "im_size m = 512 * 4"
    "\<forall>d i. holds_image ide_driver d m \<and> i < length ?fs \<and> length (c_basename (fst (?fs ! i))) < 12
           \<and> \<not> is_dot (c_basename (fst (?fs ! i))) \<and> \<not> is_dotdot (c_basename (fst (?fs ! i)))
           \<and> (\<forall>j < i. c_basename (fst (?fs ! j)) \<noteq> c_basename (fst (?fs ! i)))
           \<longrightarrow> reads_back ide_driver d (c_basename (fst (?fs ! i))) (snd (?fs ! i))"
    using kernel_reads_image [OF hdv.volume_axioms d ok, unfolded if_P [OF u]] by blast
  have "holds_image ide_driver (image_disk m) m" by (rule image_disk_holds) (simp add: m(2))
  then have "reads_back ide_driver (image_disk m) [0x78] [7, 8, 9]"
    using m(3) [rule_format, of "image_disk m" 0] by (simp add: b is_dot_def is_dotdot_def cstr_def)
  then show ?thesis using m(1) by auto
qed

end
