(* ===== verification/User_Programs.thy ===== *)
theory User_Programs
  imports User_Files
begin

text \<open>
  The programs of \<^verbatim>\<open>user\<close>: \<^verbatim>\<open>cat\<close>, \<^verbatim>\<open>echo\<close>, \<^verbatim>\<open>ls\<close>, \<^verbatim>\<open>mkdir\<close>, \<^verbatim>\<open>shutdown\<close> and the shell. The system calls they make are
  the fields of a record, over any state; the calls on files and the terminal are then those of the kernel.
  A string is the list of the bytes from its address on and a null pointer is \<open>None\<close>, as in the user library.
\<close>

section \<open>Calls\<close>

text \<open>
  \<open>c_read fd off n\<close> reads \<open>n\<close> bytes to the offset \<open>off\<close> of the program's buffer and also yields the bytes that it has stored
  there. \<open>c_execv\<close> yields no result when the program has been replaced.
\<close>

record 's file_calls =
  c_open :: "u8 list option \<Rightarrow> 's \<Rightarrow> fault + (int \<times> 's)"
  c_read :: "int \<Rightarrow> nat \<Rightarrow> nat \<Rightarrow> 's \<Rightarrow> fault + (int \<times> u8 list \<times> 's)"
  c_seek :: "int \<Rightarrow> int \<Rightarrow> 's \<Rightarrow> fault + (int \<times> 's)"
  c_close :: "int \<Rightarrow> 's \<Rightarrow> fault + (int \<times> 's)"
  c_putchar :: "u8 \<Rightarrow> 's \<Rightarrow> fault + (int \<times> 's)"

record 's all_calls = "'s file_calls" +
  c_gets :: "'s \<Rightarrow> fault + (u8 list option \<times> 's)"
  c_ls :: "'s \<Rightarrow> fault + (int \<times> 's)"
  c_mkdir :: "u8 list option \<Rightarrow> u8 list option list \<Rightarrow> 's \<Rightarrow> fault + (int \<times> 's)"
  c_cd :: "u8 list option list \<Rightarrow> 's \<Rightarrow> fault + (int \<times> 's)"
  c_fork :: "'s \<Rightarrow> fault + (int \<times> 's)"
  c_execv :: "u8 list \<Rightarrow> u8 list option list \<Rightarrow> 's \<Rightarrow> fault + (int option \<times> 's)"
  c_exit :: "int \<Rightarrow> 's \<Rightarrow> fault + 's"
  c_join :: "int \<Rightarrow> 's \<Rightarrow> fault + (int \<times> 's)"
  c_shutdown :: "'s \<Rightarrow> fault + (int \<times> 's)"

text \<open>A string constant, and sequencing of computations that may fault or not end.\<close>

definition lit :: "string \<Rightarrow> u8 list option" where
  "lit s = Some (map (\<lambda>c. of_nat (of_char c)) s @ [0])"

definition bindO :: "(fault + 'a) option \<Rightarrow> ('a \<Rightarrow> (fault + 'b) option) \<Rightarrow> (fault + 'b) option" where
  "bindO m f = (case m of None \<Rightarrow> None | Some (Inl e) \<Rightarrow> Some (Inl e) | Some (Inr x) \<Rightarrow> f x)"

lemma bindO_simps [simp]: "bindO (Some (Inr x)) f = f x" "bindO (Some (Inl e)) f = Some (Inl e)"
  by (simp_all add: bindO_def)

text \<open>\<^verbatim>\<open>puts\<close> as it calls the kernel, character by character.\<close>

fun put_string :: "('s, 'z) file_calls_scheme \<Rightarrow> u8 list \<Rightarrow> 's \<Rightarrow> fault + 's" where
  "put_string C [] s = Inl BadIndex"
| "put_string C (c # p) s = (if c \<noteq> 0 then bindE (c_putchar C c s) (\<lambda>(_, s). put_string C p s) else Inr s)"

definition puts_call :: "('s, 'z) file_calls_scheme \<Rightarrow> u8 list option \<Rightarrow> 's \<Rightarrow> fault + 's" where
  "puts_call C p s = (case p of None \<Rightarrow> Inl NullDeref | Some p \<Rightarrow> put_string C p s)"

definition put_bytes :: "('s, 'z) file_calls_scheme \<Rightarrow> u8 list \<Rightarrow> 's \<Rightarrow> fault + 's" where
  "put_bytes C = loopE (\<lambda>c s. bindE (c_putchar C c s) (\<lambda>(_, s). Inr s))"

definition argument :: "u8 list option list \<Rightarrow> nat \<Rightarrow> fault + u8 list option" where
  "argument argv i = (if i < length argv then Inr (argv ! i) else Inl BadIndex)"

section \<open>echo, ls, mkdir and shutdown\<close>

definition echo_main :: "('s, 'z) file_calls_scheme \<Rightarrow> nat \<Rightarrow> u8 list option list \<Rightarrow> 's \<Rightarrow> fault + (int \<times> 's)" where
  "echo_main C argc argv s =
     bindE (loopE (\<lambda>i (sep, s).
              bindE (puts_call C sep s) (\<lambda>s.
              bindE (argument argv i) (\<lambda>a.
              bindE (puts_call C a s) (\<lambda>s. Inr (lit '' '', s)))))
            [1 ..< argc] (lit '''', s)) (\<lambda>(_, s).
     bindE (puts_call C (lit nl) s) (\<lambda>s. Inr (0, s)))"

definition ls_main :: "('s, 'z) all_calls_scheme \<Rightarrow> 's \<Rightarrow> fault + (int \<times> 's)" where
  "ls_main C s = bindE (c_ls C s) (\<lambda>(_, s). Inr (0, s))"

definition shutdown_main :: "('s, 'z) all_calls_scheme \<Rightarrow> 's \<Rightarrow> fault + (int \<times> 's)" where
  "shutdown_main C s = bindE (c_shutdown C s) (\<lambda>(_, s). Inr (0, s))"

definition mkdir_report :: "('s, 'z) file_calls_scheme \<Rightarrow> int \<Rightarrow> 's \<Rightarrow> fault + 's" where
  "mkdir_report C code s =
     (if code = ERR_DEVWRITE then puts_call C (lit (''Error writing to device.'' @ nl)) s
      else if code = ERR_NO_ROOT_SPACE
      then puts_call C (lit (''Error: Maximum allotted space for root directory reached.'' @ nl)) s
      else if code = ERR_NOT_DIR then puts_call C (lit ('' Error: Is not a directory.'' @ nl)) s
      else if code = ERR_FL_NAMELEN then puts_call C (lit (''Error: File name is too long.'' @ nl)) s
      else if code = ERR_FL_EXIST then puts_call C (lit (''Error: Directory with that name already exists.'' @ nl)) s
      else if code = ERR_INVL_CHAR
      then puts_call C (lit (''Error: Directory name cannot contain '' @ [CHR 0x27] @ ''/'' @ [CHR 0x27] @ nl)) s
      else bindE (puts_call C (lit ''Error: '') s) (\<lambda>s.
           bindE (put_bytes C (putdec (word_of_int code)) s)
             (puts_call C (lit ('' '' @ nl)))))"

definition mkdir_main :: "('s, 'z) all_calls_scheme \<Rightarrow> u8 list option list \<Rightarrow> 's \<Rightarrow> fault + (int \<times> 's)" where
  "mkdir_main C argv s =
     bindE (argument argv 1) (\<lambda>fileName.
     bindE (c_mkdir C fileName (drop 2 argv) s) (\<lambda>(code, s).
     bindE (if code \<noteq> 0 then mkdir_report C code s else Inr s) (\<lambda>s. Inr (0, s))))"

section \<open>cat\<close>

text \<open>The loop that reads a file by 100 bytes and prints it, in \<^verbatim>\<open>cat\<close> and in the shell.\<close>

partial_function (option) copy_out :: "('s, 'z) file_calls_scheme \<Rightarrow> int \<Rightarrow> 's \<Rightarrow> (fault + 's) option" where
  "copy_out C fd s =
     (case c_read C fd 0 100 s of
        Inl e \<Rightarrow> Some (Inl e)
      | Inr (n, buf, s) \<Rightarrow>
          if n \<le> 0 then Some (Inr s)
          else (case put_bytes C (take (nat n) buf) s of
                  Inl e \<Rightarrow> Some (Inl e)
                | Inr s \<Rightarrow> copy_out C fd s))"

definition cat_file :: "('s, 'z) file_calls_scheme \<Rightarrow> u8 list option \<Rightarrow> 's \<Rightarrow> (fault + 's) option" where
  "cat_file C name s =
     bindO (Some (c_open C name s)) (\<lambda>(file, s).
       if file \<le> 0
       then Some (bindE (puts_call C (lit ''cat: '') s) (\<lambda>s.
                  bindE (puts_call C name s)
                    (puts_call C (lit ('': No such file or directory'' @ nl)))))
       else copy_out C file s)"

fun cat_loop :: "('s, 'z) file_calls_scheme \<Rightarrow> u8 list option list \<Rightarrow> nat list \<Rightarrow> 's \<Rightarrow> (fault + (int \<times> 's)) option" where
  "cat_loop C argv [] s = Some (Inr (0, s))"
| "cat_loop C argv (fNum # is) s =
     bindO (Some (argument argv fNum)) (\<lambda>name. bindO (cat_file C name s) (cat_loop C argv is))"

definition cat_main :: "('s, 'z) file_calls_scheme \<Rightarrow> nat \<Rightarrow> u8 list option list \<Rightarrow> 's \<Rightarrow> (fault + (int \<times> 's)) option" where
  "cat_main C argc argv s = cat_loop C argv [1 ..< argc] s"

section \<open>The shell\<close>

definition notFound :: "('s, 'z) file_calls_scheme \<Rightarrow> u8 list option \<Rightarrow> 's \<Rightarrow> fault + 's" where
  "notFound C cmd s = bindE (puts_call C cmd s) (puts_call C (lit ('': command not found'' @ nl)))"

text \<open>
  \<^verbatim>\<open>readFully(fd,&magic,4)\<close> into a zeroed word. \<open>read_into\<close> is \<^verbatim>\<open>read\<close> as \<^verbatim>\<open>readFully\<close> calls it, its pointer an offset
  in the state; after a fault nothing more is read.
\<close>

definition read_into :: "('s, 'z) file_calls_scheme \<Rightarrow> int \<Rightarrow> nat \<Rightarrow> (fault + 's) \<times> nat \<Rightarrow> int \<times> u8 list \<times> ((fault + 's) \<times> nat)" where
  "read_into C fd togo = (\<lambda>(st, off).
     case bindE st (c_read C fd off togo) of
       Inl e \<Rightarrow> (- 1, [], (Inl e, off))
     | Inr (cnt, bs, s) \<Rightarrow> (cnt, bs, (Inr s, off + nat cnt)))"

definition read_magic :: "('s, 'z) file_calls_scheme \<Rightarrow> int \<Rightarrow> 's \<Rightarrow> fault + (u32 \<times> 's)" where
  "read_magic C fd s =
     bindE (readFully (read_into C fd) 4 (Inr s, 0)) (\<lambda>(_, bs, st, _).
     bindE st (\<lambda>s. Inr (le_word (bs @ drop (length bs) [0, 0, 0, 0]), s)))"

definition is_cd :: "u8 list \<Rightarrow> bool" where
  "is_cd prog \<longleftrightarrow> prog ! 0 = 0x63 \<and> prog ! 1 = 0x64 \<and> prog ! 2 = 0"

definition checkProg :: "('s, 'z) file_calls_scheme \<Rightarrow> u8 list \<Rightarrow> 's \<Rightarrow> (fault + (int \<times> 's)) option" where
  "checkProg C prog s =
     (if is_cd prog then Some (Inr (- 4, s))
      else bindO (Some (c_open C (Some prog) s)) (\<lambda>(fd, s).
        if fd \<le> 0 then Some (Inr (- 1, s))
        else bindO (Some (read_magic C fd s)) (\<lambda>(magic, s).
          if magic = 0x464c457f
          then Some (bindE (c_close C fd s) (\<lambda>(_, s). Inr (- 2, s)))
          else bindO (Some (c_seek C fd 0 s)) (\<lambda>(_, s).
               bindO (copy_out C fd s) (\<lambda>s.
               Some (bindE (c_close C fd s) (\<lambda>(_, s). Inr (- 3, s))))))))"

text \<open>The command word of the line, copied to a zeroed buffer of twelve bytes, and the rest of the line.\<close>

fun skip_spaces :: "u8 list \<Rightarrow> fault + u8 list" where
  "skip_spaces [] = Inl BadIndex"
| "skip_spaces (c # cs) = (if c = 0x20 then skip_spaces cs else Inr (c # cs))"

fun command_word :: "u8 list \<Rightarrow> nat \<Rightarrow> u8 list \<Rightarrow> fault + (u8 list \<times> u8 list)" where
  "command_word prog progIdx [] = Inl BadIndex"
| "command_word prog progIdx (c # cs) =
     (if c \<noteq> 0x20 \<and> c \<noteq> 13 \<and> c \<noteq> 0
      then (if progIdx < length prog then command_word (prog[progIdx := c]) (progIdx + 1) cs else Inl BadIndex)
      else Inr (prog, c # cs))"

definition shell_words :: "u8 list option \<Rightarrow> fault + (u8 list \<times> u8 list)" where
  "shell_words inp =
     (case inp of None \<Rightarrow> Inl NullDeref | Some cs \<Rightarrow> bindE (skip_spaces cs) (command_word (replicate 12 0) 0))"

text \<open>The loop that frees the arguments: it stops at a null pointer, or after \<open>n\<close> of them.\<close>

fun free_args :: "nat \<Rightarrow> u8 list option list \<Rightarrow> fault + unit" where
  "free_args n [] = (if n = 0 then Inr () else Inl BadIndex)"
| "free_args n (a # as) = (if n = 0 then Inr () else case a of None \<Rightarrow> Inr () | Some _ \<Rightarrow> free_args (n - 1) as)"

text \<open>
  One round of the loop of \<^verbatim>\<open>main\<close>: the shell goes on, or this was its child and is now the program, or has
  exited.
\<close>

datatype 's round = Next 's | Replaced 's | Exited 's

definition shell_cd :: "('s, 'z) all_calls_scheme \<Rightarrow> u8 list \<Rightarrow> 's \<Rightarrow> fault + 's round" where
  "shell_cd C line s =
     bindE (skip_spaces line) (\<lambda>line.
     bindE (delimitBy line 0x2f) (\<lambda>args.
     bindE (c_cd C args s) (\<lambda>(result, s).
     bindE (if result = ERR_NOT_FOUND then puts_call C (lit (''Error: directory not found.'' @ nl)) s else Inr s) (\<lambda>s.
     Inr (Next s)))))"

definition shell_run :: "('s, 'z) all_calls_scheme \<Rightarrow> int \<Rightarrow> u8 list \<Rightarrow> u8 list \<Rightarrow> 's \<Rightarrow> fault + 's round" where
  "shell_run C nargs prog line s =
     bindE (delimitBy line 0x20) (\<lambda>args.
     bindE (c_fork C s) (\<lambda>(id, s).
     if id = 0
     then bindE (c_execv C prog args s) (\<lambda>(r, s).
          case r of None \<Rightarrow> Inr (Replaced s) | Some _ \<Rightarrow> bindE (c_exit C 0 s) (\<lambda>s. Inr (Exited s)))
     else bindE (c_join C id s) (\<lambda>(_, s).
          bindE (free_args (unat (word_of_int nargs :: u32)) args) (\<lambda>_. Inr (Next s)))))"

definition shell_round :: "('s, 'z) all_calls_scheme \<Rightarrow> 's \<Rightarrow> (fault + 's round) option" where
  "shell_round C s =
     bindO (Some (bindE (puts_call C (lit ''shell:'') s) (puts_call C (lit ''$ '')))) (\<lambda>s.
     bindO (Some (c_gets C s)) (\<lambda>(inp, s).
     bindO (Some (shell_words inp)) (\<lambda>(prog, line).
     bindO (checkProg C prog s) (\<lambda>(numArgs, s).
     Some (if numArgs = - 4 then shell_cd C line s
           else if numArgs = - 1
           then bindE (if prog ! 0 \<noteq> 0 then notFound C (Some prog) s else Inr s) (\<lambda>s. Inr (Next s))
           else if numArgs = - 3 then Inr (Next s)
           else shell_run C numArgs prog line s)))))"

text \<open>\<^verbatim>\<open>main\<close> never returns; it ends with the child or a fault.\<close>

partial_function (option) shell_main :: "('s, 'z) all_calls_scheme \<Rightarrow> 's \<Rightarrow> (fault + 's round) option" where
  "shell_main C s =
     (case shell_round C s of
        None \<Rightarrow> None
      | Some (Inl e) \<Rightarrow> Some (Inl e)
      | Some (Inr (Next s)) \<Rightarrow> shell_main C s
      | Some (Inr r) \<Rightarrow> Some (Inr r))"

end
