(* ===== verification/Program_Runs.thy ===== *)
theory Program_Runs
  imports User_Programs
begin

text \<open>
  What the programs print. The contracts they rely on are locales: a terminal, and a terminal with files. The
  kernel is an instance of both, so \<^verbatim>\<open>cat\<close> and the shell print what is on the disk.
\<close>

section \<open>A terminal\<close>

text \<open>
  \<open>printed\<close> is the output so far, \<open>live\<close> says that it can go on, and \<open>keeps s s'\<close> that from \<open>s\<close> to \<open>s'\<close> nothing but
  the output has changed.
\<close>

locale terminal =
  fixes C :: "('s, 'z) file_calls_scheme" and printed :: "'s \<Rightarrow> string"
    and live :: "'s \<Rightarrow> bool" and keeps :: "'s \<Rightarrow> 's \<Rightarrow> bool"
  assumes keeps_refl: "keeps s s"
    and keeps_trans: "keeps s s' \<Longrightarrow> keeps s' s'' \<Longrightarrow> keeps s s''"
    and putchar: "live s \<Longrightarrow> \<exists>x s'. c_putchar C c s = Inr (x, s') \<and> live s' \<and> keeps s s'
      \<and> printed s' = printed s @ [char_of (unat c)]"
begin

lemma put_bytes_prints:
  assumes "live s"
  shows "\<exists>s'. put_bytes C bs s = Inr s' \<and> live s' \<and> keeps s s' \<and> printed s' = printed s @ name_string bs"
  using assms
proof (induction bs arbitrary: s)
  case Nil
  then show ?case by (simp add: put_bytes_def name_string_def keeps_refl)
next
  case (Cons b bs)
  from putchar [OF Cons.prems] obtain x s1 where 1: "c_putchar C b s = Inr (x, s1)" "live s1" "keeps s s1"
    "printed s1 = printed s @ [char_of (unat b)]" by blast
  from Cons.IH [OF 1(2)] 1 keeps_trans show ?case by (fastforce simp: put_bytes_def name_string_def)
qed

lemma put_string_prints:
  assumes "live s" "0 \<notin> set bs"
  shows "\<exists>s'. put_string C (bs @ 0 # junk) s = Inr s' \<and> live s' \<and> keeps s s' \<and> printed s' = printed s @ name_string bs"
  using assms
proof (induction bs arbitrary: s)
  case Nil
  then show ?case by (simp add: name_string_def keeps_refl)
next
  case (Cons b bs)
  from putchar [OF Cons.prems(1)] obtain x s1 where 1: "c_putchar C b s = Inr (x, s1)" "live s1" "keeps s s1"
    "printed s1 = printed s @ [char_of (unat b)]" by blast
  have "b \<noteq> 0" "0 \<notin> set bs" using Cons.prems(2) by auto
  then show ?case using Cons.IH [OF 1(2)] 1 keeps_trans by (fastforce simp: name_string_def)
qed

lemma puts_prints:
  assumes "live s" "0 \<notin> set bs"
  shows "\<exists>s'. puts_call C (Some (bs @ 0 # junk)) s = Inr s' \<and> live s' \<and> keeps s s' \<and> printed s' = printed s @ name_string bs"
  using put_string_prints [OF assms] by (simp add: puts_call_def)

lemma puts_lit:
  assumes "live s" "CHR 0x00 \<notin> set msg"
  shows "\<exists>s'. puts_call C (lit msg) s = Inr s' \<and> live s' \<and> keeps s s' \<and> printed s' = printed s @ msg"
proof -
  have u: "unat (of_nat (of_char c) :: u8) = of_char c" for c :: char by (simp add: unat_of_nat)
  let ?bs = "map (\<lambda>c. of_nat (of_char c)) msg :: u8 list"
  have "0 \<notin> set ?bs"
  proof
    assume "0 \<in> set ?bs"
    then obtain c where "c \<in> set msg" "(of_nat (of_char c) :: u8) = 0" by auto
    then have "of_char c = (0 :: nat)" using u [of c] by simp
    then have "of_char c = (of_char (CHR 0x00) :: nat)" by simp
    then have "c = CHR 0x00" by (simp only: of_char_eq_iff)
    then show False using \<open>c \<in> set msg\<close> assms(2) by simp
  qed
  moreover have "name_string ?bs = msg" by (simp add: name_string_def u comp_def)
  ultimately show ?thesis using puts_prints [OF assms(1), of ?bs "[]"] by (simp add: lit_def)
qed

end

section \<open>Files\<close>

text \<open>
  \<open>opened s fd xs i\<close>: \<open>fd\<close> is a handle of a file with the contents \<open>xs\<close>, at offset \<open>i\<close>. \<open>files\<close>: the contents of
  the file that a name is the name of. \<open>ready s\<close>: these are the files that \<open>open\<close> finds by the names that it
  admits, and \<open>room s\<close> handles are left. The buffer of the program has 100 bytes.
\<close>

text \<open>The first word of a file, zero where the file has ended.\<close>

definition file_magic :: "u8 list \<Rightarrow> u32" where
  "file_magic xs = le_word (take 4 xs @ drop (length xs) [0, 0, 0, 0])"

text \<open>
  What \<^verbatim>\<open>cat\<close> prints for its operands when \<open>h\<close> handles are left: it never closes a file, so it takes the
  files behind the last handle for missing ones.
\<close>

definition cat_missing :: "u8 list \<Rightarrow> string" where
  "cat_missing bs = ''cat: '' @ name_string (takeWhile (\<lambda>c. c \<noteq> 0) bs) @ '': No such file or directory'' @ nl"

fun cat_text :: "(u8 list \<Rightarrow> u8 list option) \<Rightarrow> nat \<Rightarrow> u8 list list \<Rightarrow> string" where
  "cat_text files h [] = []"
| "cat_text files h (bs # bss) =
     (case files bs of
        Some xs \<Rightarrow> if 0 < h then name_string xs @ cat_text files (h - 1) bss else cat_missing bs @ cat_text files h bss
      | None \<Rightarrow> cat_missing bs @ cat_text files h bss)"

locale file_terminal = terminal +
  fixes opened :: "'a \<Rightarrow> int \<Rightarrow> u8 list \<Rightarrow> nat \<Rightarrow> bool" and ready :: "'a \<Rightarrow> bool" and room :: "'a \<Rightarrow> nat"
    and files :: "u8 list \<Rightarrow> u8 list option" and admits :: "u8 list \<Rightarrow> bool"
  assumes opened_live: "opened s fd xs i \<Longrightarrow> live s"
    and opened_keeps: "opened s fd xs i \<Longrightarrow> live s' \<Longrightarrow> keeps s s' \<Longrightarrow> opened s' fd xs i"
    and ready_live: "ready s \<Longrightarrow> live s"
    and ready_keeps: "ready s \<Longrightarrow> live s' \<Longrightarrow> keeps s s' \<Longrightarrow> ready s' \<and> room s' = room s"
    and read_law: "opened s fd xs i \<Longrightarrow> 0 < n \<Longrightarrow> off + n \<le> 100 \<Longrightarrow>
      \<exists>m s'. c_read C fd off n s = Inr (int m, take m (drop i xs), s') \<and> m \<le> n \<and> i + m \<le> length xs \<and>
        (m = 0 \<longrightarrow> i = length xs) \<and> opened s' fd xs (i + m) \<and> printed s' = printed s \<and>
        (ready s \<longrightarrow> ready s' \<and> room s' = room s)"
    and seek_law: "opened s fd xs i \<Longrightarrow> \<exists>x s'. c_seek C fd 0 s = Inr (x, s') \<and> opened s' fd xs 0 \<and> printed s' = printed s"
    and close_law: "opened s fd xs i \<Longrightarrow> \<exists>x s'. c_close C fd s = Inr (x, s') \<and> live s' \<and> printed s' = printed s"
    and open_found_law: "ready s \<Longrightarrow> admits bs \<Longrightarrow> files bs = Some xs \<Longrightarrow> 0 < room s \<Longrightarrow>
      \<exists>fd s'. c_open C (Some bs) s = Inr (fd, s') \<and> 0 < fd \<and> opened s' fd xs 0 \<and> printed s' = printed s \<and>
        ready s' \<and> room s' = room s - 1"
    and open_fails_law: "ready s \<Longrightarrow> admits bs \<Longrightarrow> files bs = None \<or> room s = 0 \<Longrightarrow>
      \<exists>fd s'. c_open C (Some bs) s = Inr (fd, s') \<and> fd \<le> 0 \<and> printed s' = printed s \<and> ready s' \<and> room s' = room s"
begin

lemma copy_out_prints:
  assumes "opened s fd xs i"
  shows "\<exists>s'. copy_out C fd s = Some (Inr s') \<and> opened s' fd xs (length xs) \<and> printed s' = printed s @ name_string (drop i xs)
    \<and> (ready s \<longrightarrow> ready s' \<and> room s' = room s)"
  using assms
proof (induction "length xs - i" arbitrary: s i rule: less_induct)
  case less
  obtain m s1 where r: "c_read C fd 0 100 s = Inr (int m, take m (drop i xs), s1)" "m \<le> 100" "i + m \<le> length xs"
    "m = 0 \<longrightarrow> i = length xs" "opened s1 fd xs (i + m)" "printed s1 = printed s" "ready s \<longrightarrow> ready s1 \<and> room s1 = room s"
    using read_law [OF less.prems, of 100 0] by auto
  show ?case
  proof (cases "m = 0")
    case True
    then show ?thesis using r by (subst copy_out.simps) (simp add: name_string_def)
  next
    case False
    have "live s1" using opened_live [OF r(5)] by simp
    then obtain s2 where p: "put_bytes C (take m (drop i xs)) s1 = Inr s2" "live s2" "keeps s1 s2"
      "printed s2 = printed s1 @ name_string (take m (drop i xs))"
      using put_bytes_prints by blast
    have d: "drop i xs = take m (drop i xs) @ drop (i + m) xs" by (metis append_take_drop_id drop_drop add.commute)
    have "length xs - (i + m) < length xs - i" using False r(3) by simp
    from less.hyps [OF this opened_keeps [OF r(5) p(2,3)]] obtain s' where
      "copy_out C fd s2 = Some (Inr s')" "opened s' fd xs (length xs)" "printed s' = printed s2 @ name_string (drop (i + m) xs)"
      "ready s2 \<longrightarrow> ready s' \<and> room s' = room s2" by blast
    moreover have "name_string (drop i xs) = name_string (take m (drop i xs)) @ name_string (drop (i + m) xs)"
      by (subst d) (simp add: name_string_def)
    moreover have "ready s \<longrightarrow> ready s2 \<and> room s2 = room s" using r(7) ready_keeps [OF _ p(2,3)] by simp
    ultimately show ?thesis using False p r by (subst copy_out.simps) simp
  qed
qed

lemma read_magic_reads:
  assumes "opened s fd xs 0"
  shows "\<exists>s' i. read_magic C fd s = Inr (file_magic xs, s') \<and> opened s' fd xs i \<and> printed s' = printed s"
proof -
  define Q where "Q togo rest st \<longleftrightarrow> (\<exists>s' i. st = (Inr s', i) \<and> i + togo = 4 \<and> rest = drop i xs \<and> opened s' fd xs i \<and> printed s' = printed s)"
    for togo :: nat and rest and st :: "(fault + 'a) \<times> nat"
  have "\<exists>k st'. k \<le> togo \<and> k \<le> length rest \<and> read_into C fd togo st = (int k, take k rest, st') \<and>
      (k = 0 \<longrightarrow> rest = []) \<and> Q (togo - k) (drop k rest) st'" if "0 < togo" "Q togo rest st" for togo rest st
  proof -
    from that(2) obtain s1 i where 1: "st = (Inr s1, i)" "i + togo = 4" "rest = drop i xs" "opened s1 fd xs i" "printed s1 = printed s"
      unfolding Q_def by blast
    from read_law [OF 1(4) that(1), of i] 1(2) obtain m s2 where m: "c_read C fd i togo s1 = Inr (int m, take m (drop i xs), s2)"
      "m \<le> togo" "i + m \<le> length xs" "m = 0 \<longrightarrow> i = length xs" "opened s2 fd xs (i + m)" "printed s2 = printed s1" by auto
    have "read_into C fd togo st = (int m, take m rest, (Inr s2, i + m))" using 1(1,3) m(1) by (simp add: read_into_def)
    moreover have "Q (togo - m) (drop m rest) (Inr s2, i + m)" using 1 m by (auto simp: Q_def add.commute)
    ultimately show ?thesis using m 1(3) by (intro exI [of _ m] exI [of _ "(Inr s2, i + m)"]) auto
  qed
  moreover have "Q 4 xs (Inr s, 0)" using assms by (simp add: Q_def)
  ultimately obtain st' where r: "readFully (read_into C fd) 4 (Inr s, 0) = Inr (int (min 4 (length xs)), take 4 xs, st')"
    and "Q (4 - min 4 (length xs)) (drop 4 xs) st'" using readFully_state [of Q "read_into C fd" 4 xs "(Inr s, 0)"] by blast
  then obtain s' i where "st' = (Inr s', i)" "opened s' fd xs i" "printed s' = printed s" unfolding Q_def by blast
  moreover have "drop (min (length xs) 4) [0, 0, 0, 0] = drop (length xs) [0, 0, 0, 0 :: u8]" by (simp add: min_def)
  ultimately show ?thesis using r by (auto simp: read_magic_def file_magic_def)
qed

text \<open>\<^verbatim>\<open>cat\<close>.\<close>

lemma cat_file_found:
  assumes "ready s" "admits bs" "files bs = Some xs" "0 < room s"
  shows "\<exists>s'. cat_file C (Some bs) s = Some (Inr s') \<and> ready s' \<and> room s' = room s - 1 \<and> printed s' = printed s @ name_string xs"
proof -
  from open_found_law [OF assms] obtain fd s1 where o: "c_open C (Some bs) s = Inr (fd, s1)" "0 < fd" "opened s1 fd xs 0"
    "printed s1 = printed s" "ready s1" "room s1 = room s - 1" by blast
  from copy_out_prints [OF o(3)] obtain s2 where "copy_out C fd s1 = Some (Inr s2)"
    "printed s2 = printed s1 @ name_string xs" "ready s2" "room s2 = room s1" using o(5) by auto
  then show ?thesis using o by (simp add: cat_file_def)
qed

lemma cat_file_missing:
  assumes "ready s" "admits (bs @ 0 # junk)" "0 \<notin> set bs" "files (bs @ 0 # junk) = None \<or> room s = 0"
  shows "\<exists>s'. cat_file C (Some (bs @ 0 # junk)) s = Some (Inr s') \<and> ready s' \<and> room s' = room s
    \<and> printed s' = printed s @ ''cat: '' @ name_string bs @ '': No such file or directory'' @ nl"
proof -
  from open_fails_law [OF assms(1,2,4)] obtain fd s1 where o: "c_open C (Some (bs @ 0 # junk)) s = Inr (fd, s1)" "fd \<le> 0"
    "printed s1 = printed s" "ready s1" "room s1 = room s" by blast
  obtain s2 where 2: "puts_call C (lit ''cat: '') s1 = Inr s2" "live s2" "keeps s1 s2" "printed s2 = printed s1 @ ''cat: ''"
    using puts_lit [OF ready_live [OF o(4)], of "''cat: ''"] by auto
  obtain s3 where 3: "puts_call C (Some (bs @ 0 # junk)) s2 = Inr s3" "live s3" "keeps s2 s3" "printed s3 = printed s2 @ name_string bs"
    using puts_prints [OF 2(2) assms(3)] by blast
  have n: "CHR 0x00 \<notin> set ('': No such file or directory'' @ nl)" by (simp add: nl_def)
  from puts_lit [OF 3(2) n] obtain s4 where 4: "puts_call C (lit ('': No such file or directory'' @ nl)) s3 = Inr s4" "live s4" "keeps s3 s4"
    "printed s4 = printed s3 @ '': No such file or directory'' @ nl" by blast
  have "ready s4 \<and> room s4 = room s1"
    by (rule ready_keeps [OF o(4) 4(2)]) (rule keeps_trans [OF 2(3) keeps_trans [OF 3(3) 4(3)]])
  then show ?thesis using o 2 3 4 by (simp add: cat_file_def)
qed

lemma cat_loop_prints:
  assumes "ready s" "\<forall>i \<in> set is. i < length names \<and> admits (names ! i) \<and> 0 \<in> set (names ! i)"
  shows "\<exists>s'. cat_loop C (map Some names) is s = Some (Inr (0, s')) \<and>
    printed s' = printed s @ cat_text files (room s) (map (\<lambda>i. names ! i) is)"
  using assms
proof (induction "is" arbitrary: s)
  case Nil
  then show ?case by simp
next
  case (Cons i "is")
  let ?bs = "names ! i"
  have i: "argument (map Some names) i = Inr (Some ?bs)" and a: "admits ?bs" "0 \<in> set ?bs"
    using Cons.prems(2) by (auto simp: argument_def)
  obtain nm junk where nm: "?bs = nm @ 0 # junk" "0 \<notin> set nm" using split_list_first [OF a(2)] by blast
  have tw: "takeWhile (\<lambda>c. c \<noteq> 0) ?bs = nm" unfolding nm(1) using nm(2) by (subst takeWhile_append2) auto
  show ?case
  proof (cases "\<exists>xs. files ?bs = Some xs \<and> 0 < room s")
    case True
    then obtain xs where xs: "files ?bs = Some xs" "0 < room s" by blast
    from cat_file_found [OF Cons.prems(1) a(1) xs] obtain s1 where 1: "cat_file C (Some ?bs) s = Some (Inr s1)" "ready s1"
      "room s1 = room s - 1" "printed s1 = printed s @ name_string xs" by blast
    with Cons.IH [OF 1(2)] Cons.prems(2) i xs show ?thesis by auto
  next
    case False
    then have "files ?bs = None \<or> room s = 0" by auto
    from cat_file_missing [OF Cons.prems(1) _ nm(2), of junk] this a(1) obtain s1 where
      1: "cat_file C (Some ?bs) s = Some (Inr s1)" "ready s1" "room s1 = room s"
      "printed s1 = printed s @ ''cat: '' @ name_string nm @ '': No such file or directory'' @ nl" unfolding nm(1) by blast
    with Cons.IH [OF 1(2)] Cons.prems(2) i False tw show ?thesis by (auto simp: cat_missing_def split: option.splits)
  qed
qed

text \<open>\<^verbatim>\<open>checkProg\<close> of the shell.\<close>

lemma checkProg_found:
  assumes "\<not> is_cd prog" "ready s" "admits prog" "files prog = Some xs" "0 < room s"
  shows "\<exists>s'. live s' \<and> (if file_magic xs = 0x464c457f
    then checkProg C prog s = Some (Inr (- 2, s')) \<and> printed s' = printed s
    else checkProg C prog s = Some (Inr (- 3, s')) \<and> printed s' = printed s @ name_string xs)"
proof -
  from open_found_law [OF assms(2-5)] obtain fd s1 where 1: "c_open C (Some prog) s = Inr (fd, s1)" "0 < fd" "opened s1 fd xs 0"
    "printed s1 = printed s" by blast
  from read_magic_reads [OF 1(3)] obtain s2 i where 2: "read_magic C fd s1 = Inr (file_magic xs, s2)" "opened s2 fd xs i"
    "printed s2 = printed s1" by blast
  from close_law [OF 2(2)] obtain y s3 where c: "c_close C fd s2 = Inr (y, s3)" "live s3" "printed s3 = printed s2" by blast
  from seek_law [OF 2(2)] obtain x s3' where 3: "c_seek C fd 0 s2 = Inr (x, s3')" "opened s3' fd xs 0" "printed s3' = printed s2" by blast
  from copy_out_prints [OF 3(2)] obtain s4 where 4: "copy_out C fd s3' = Some (Inr s4)" "opened s4 fd xs (length xs)"
    "printed s4 = printed s3' @ name_string xs" by auto
  from close_law [OF 4(2)] obtain z s5 where 5: "c_close C fd s4 = Inr (z, s5)" "live s5" "printed s5 = printed s4" by blast
  show ?thesis
  proof (cases "file_magic xs = 0x464c457f")
    case True
    with assms(1) 1 2 c show ?thesis by (simp add: checkProg_def)
  next
    case False
    with assms(1) 1 2 3 4 5 show ?thesis by (simp add: checkProg_def)
  qed
qed

lemma checkProg_missing:
  assumes "\<not> is_cd prog" "ready s" "admits prog" "files prog = None \<or> room s = 0"
  shows "\<exists>s'. checkProg C prog s = Some (Inr (- 1, s')) \<and> live s' \<and> printed s' = printed s"
  using open_fails_law [OF assms(2-4)] assms(1) ready_live by (auto simp: checkProg_def)

end

section \<open>A line of the shell\<close>

text \<open>The command word of a line, its buffer in the shell, and what follows it.\<close>

definition shell_word :: "u8 list \<Rightarrow> u8 list" where
  "shell_word line = takeWhile (\<lambda>c. c \<noteq> 0x20 \<and> c \<noteq> 13 \<and> c \<noteq> 0) (dropWhile (\<lambda>c. c = 0x20) line)"

definition shell_rest :: "u8 list \<Rightarrow> u8 list" where
  "shell_rest line = drop (length (shell_word line)) (dropWhile (\<lambda>c. c = 0x20) line)"

text \<open>The arguments in it: the words between spaces, up to the end of the string.\<close>

definition shell_args :: "u8 list \<Rightarrow> u8 list list" where
  "shell_args line = words_of 0x20 (takeWhile (\<lambda>c. c \<noteq> 0 \<and> c \<noteq> 13) (shell_rest line))"

definition word_buffer :: "u8 list \<Rightarrow> u8 list" where
  "word_buffer ws = ws @ replicate (12 - length ws) 0"

lemma skip_spaces_drop: "\<exists>c \<in> set cs. c \<noteq> 0x20 \<Longrightarrow> skip_spaces cs = Inr (dropWhile (\<lambda>c. c = 0x20) cs)"
  by (induction cs) auto

lemma command_word_spec:
  assumes "\<exists>c \<in> set cs. c = 0x20 \<or> c = 13 \<or> c = 0"
  defines "ws \<equiv> takeWhile (\<lambda>c. c \<noteq> 0x20 \<and> c \<noteq> 13 \<and> c \<noteq> 0) cs"
  shows "i \<le> length prog \<Longrightarrow> command_word prog i cs =
    (if i + length ws \<le> length prog then Inr (take i prog @ ws @ drop (i + length ws) prog, drop (length ws) cs) else Inl BadIndex)"
  using assms(1) unfolding ws_def
proof (induction cs arbitrary: prog i)
  case (Cons c cs)
  show ?case
  proof (cases "c \<noteq> 0x20 \<and> c \<noteq> 13 \<and> c \<noteq> 0")
    case True
    then have ex: "\<exists>c \<in> set cs. c = 0x20 \<or> c = 13 \<or> c = 0" using Cons.prems(2) by auto
    show ?thesis
    proof (cases "i < length prog")
      case i: True
      then have "take (Suc i) (prog[i := c]) = take i prog @ [c]" by (simp add: take_Suc_conv_app_nth)
      then show ?thesis using True i Cons.IH [of "i + 1" "prog[i := c]", OF _ ex] by simp
    next
      case False
      then show ?thesis using True Cons.prems(1) by simp
    qed
  next
    case False
    then show ?thesis using Cons.prems(1) by auto
  qed
qed simp

lemma shell_words_spec:
  assumes "\<exists>c \<in> set cs. c = 13 \<or> c = 0"
  shows "shell_words (Some cs) =
    (if length (shell_word cs) \<le> 12 then Inr (word_buffer (shell_word cs), shell_rest cs) else Inl BadIndex)"
proof -
  let ?cs = "dropWhile (\<lambda>c. c = 0x20) cs"
  from assms obtain c where c: "c \<in> set cs" "c = 13 \<or> c = 0" by blast
  have "c \<in> set ?cs" using c by (induction cs) auto
  then have "\<exists>c \<in> set ?cs. c = 0x20 \<or> c = 13 \<or> c = 0" using c(2) by blast
  note W = command_word_spec [OF this, of 0 "replicate 12 0"]
  have "\<exists>c \<in> set cs. c \<noteq> 0x20" by (rule bexI [OF _ c(1)]) (use c(2) in auto)
  then show ?thesis using W by (simp add: shell_words_def skip_spaces_drop shell_word_def shell_rest_def word_buffer_def)
qed

text \<open>The same for the string that ends behind a line.\<close>

lemma line_words:
  "shell_word (line @ 0 # junk) = shell_word line" "shell_rest (line @ 0 # junk) = shell_rest line @ 0 # junk"
proof -
  let ?d = "dropWhile (\<lambda>c. c = 0x20)"
  have "?d (line @ 0 # junk) = ?d line @ 0 # junk"
    by (cases "\<forall>c \<in> set line. c = 0x20") (auto simp: dropWhile_append dropWhile_eq_Nil_conv [THEN iffD2])
  then show w: "shell_word (line @ 0 # junk) = shell_word line" and "shell_rest (line @ 0 # junk) = shell_rest line @ 0 # junk"
    by (simp_all add: shell_word_def shell_rest_def takeWhile_tail length_takeWhile_le)
qed

lemma line_args:
  "delimitBy (shell_rest line @ 0 # junk) 0x20 =
    (if \<forall>w \<in> set (shell_args line). length w \<le> 12 then Inr (arg_array (shell_args line)) else Inl BadIndex)"
proof -
  let ?P = "\<lambda>c :: u8. c \<noteq> 0 \<and> c \<noteq> 13" and ?r = "shell_rest line"
  have t: "0 \<notin> set (takeWhile ?P ?r)" "13 \<notin> set (takeWhile ?P ?r)" by (auto dest: set_takeWhileD)
  have "\<exists>e tl. dropWhile ?P ?r @ 0 # junk = e # tl \<and> e \<in> {0, 13}"
  proof (cases "dropWhile ?P ?r")
    case (Cons c cs)
    then have "\<not> ?P c" using hd_dropWhile [of ?P ?r] by simp
    then show ?thesis unfolding Cons by auto
  next
    case Nil
    show ?thesis unfolding Nil by simp
  qed
  then obtain e tl where e: "dropWhile ?P ?r @ 0 # junk = e # tl" "e \<in> {0, 13}" by blast
  have "?r @ 0 # junk = takeWhile ?P ?r @ e # tl"
    unfolding e(1) [symmetric] append_assoc [symmetric] takeWhile_dropWhile_id ..
  with delimitBy_words [OF t e(2), of tl "0x20"] show ?thesis by (simp add: shell_args_def)
qed

text \<open>A terminal with files at which \<open>line\<close> is typed and shows as \<open>echo\<close>.\<close>

locale shell_terminal = file_terminal C printed live keeps opened ready room files admits
  for C :: "('a, 'z) all_calls_scheme" and printed :: "'a \<Rightarrow> string" and live keeps opened ready room files admits +
  fixes line :: "u8 list" and echo :: string
  assumes gets_law: "live s \<Longrightarrow> \<exists>junk s'. c_gets C s = Inr (Some (line @ 0 # junk), s') \<and> live s' \<and> keeps s s' \<and>
    printed s' = printed s @ echo"
begin

text \<open>The prompt and the line.\<close>

lemma shell_prompts:
  assumes "ready s"
  shows "\<exists>junk s1. ready s1 \<and> room s1 = room s \<and> printed s1 = printed s @ ''shell:$ '' @ echo \<and>
    (length (shell_word line) > 12 \<longrightarrow> shell_round C s = Some (Inl BadIndex)) \<and>
    (length (shell_word line) \<le> 12 \<longrightarrow> shell_round C s =
      bindO (checkProg C (word_buffer (shell_word line)) s1) (\<lambda>(numArgs, s).
        Some (if numArgs = - 4 then shell_cd C (shell_rest line @ 0 # junk) s
              else if numArgs = - 1
              then bindE (if word_buffer (shell_word line) ! 0 \<noteq> 0 then notFound C (Some (word_buffer (shell_word line))) s else Inr s)
                (\<lambda>s. Inr (Next s))
              else if numArgs = - 3 then Inr (Next s)
              else shell_run C numArgs (word_buffer (shell_word line)) (shell_rest line @ 0 # junk) s)))"
proof -
  obtain s1 where 1: "puts_call C (lit ''shell:'') s = Inr s1" "live s1" "keeps s s1" "printed s1 = printed s @ ''shell:''"
    using puts_lit [OF ready_live [OF assms], of "''shell:''"] by auto
  obtain s2 where 2: "puts_call C (lit ''$ '') s1 = Inr s2" "live s2" "keeps s1 s2" "printed s2 = printed s1 @ ''$ ''"
    using puts_lit [OF 1(2), of "''$ ''"] by auto
  from gets_law [OF 2(2)] obtain junk s3 where 3: "c_gets C s2 = Inr (Some (line @ 0 # junk), s3)" "live s3" "keeps s2 s3"
    "printed s3 = printed s2 @ echo" by blast
  have "ready s3 \<and> room s3 = room s"
    by (rule ready_keeps [OF assms 3(2)]) (rule keeps_trans [OF 1(3) keeps_trans [OF 2(3) 3(3)]])
  moreover have "shell_words (Some (line @ 0 # junk)) =
      (if length (shell_word line) \<le> 12 then Inr (word_buffer (shell_word line), shell_rest line @ 0 # junk) else Inl BadIndex)"
    using shell_words_spec [of "line @ 0 # junk"] unfolding line_words by simp
  ultimately show ?thesis using 1 2 3 by (intro exI [of _ junk] exI [of _ s3]) (simp add: shell_round_def)
qed

text \<open>What a round does, for each kind of line.\<close>

lemma shell_round_prints:
  assumes R: "ready s" and len: "length (shell_word line) < 12" and prog: "prog = word_buffer (shell_word line)"
    and cd: "\<not> is_cd prog" and ad: "admits prog"
  shows "case (if 0 < room s then files prog else None) of
      None \<Rightarrow> \<exists>s'. shell_round C s = Some (Inr (Next s')) \<and> printed s' = printed s @ ''shell:$ '' @ echo @
        (if shell_word line = [] then [] else name_string (shell_word line) @ '': command not found'' @ nl)
    | Some xs \<Rightarrow> if file_magic xs = 0x464c457f
        then \<exists>junk s'. shell_round C s = Some (shell_run C (- 2) prog (shell_rest line @ 0 # junk) s') \<and> printed s' = printed s @ ''shell:$ '' @ echo
        else \<exists>s'. shell_round C s = Some (Inr (Next s')) \<and> printed s' = printed s @ ''shell:$ '' @ echo @ name_string xs"
proof -
  from shell_prompts [OF R] len obtain junk s1 where 1: "ready s1" "room s1 = room s" "printed s1 = printed s @ ''shell:$ '' @ echo" and
    sr: "shell_round C s = bindO (checkProg C prog s1) (\<lambda>(numArgs, s).
        Some (if numArgs = - 4 then shell_cd C (shell_rest line @ 0 # junk) s
              else if numArgs = - 1 then bindE (if prog ! 0 \<noteq> 0 then notFound C (Some prog) s else Inr s) (\<lambda>s. Inr (Next s))
              else if numArgs = - 3 then Inr (Next s)
              else shell_run C numArgs prog (shell_rest line @ 0 # junk) s))" unfolding prog by auto
  have ws: "0 \<notin> set (shell_word line)" by (auto simp: shell_word_def dest: set_takeWhileD)
  obtain n where n: "prog = shell_word line @ 0 # replicate n 0"
    using len that [of "11 - length (shell_word line)"] by (auto simp: prog word_buffer_def Suc_diff_le simp flip: replicate_Suc)
  show ?thesis
  proof (cases "if 0 < room s then files prog else None")
    case None
    then have "files prog = None \<or> room s1 = 0" using 1(2) by (auto split: if_splits)
    from checkProg_missing [OF cd 1(1) ad this] obtain s2 where 2: "checkProg C prog s1 = Some (Inr (- 1, s2))" "live s2"
      "printed s2 = printed s1" by blast
    obtain s3 where 3: "puts_call C (Some prog) s2 = Inr s3" "live s3" "printed s3 = printed s2 @ name_string (shell_word line)"
      using puts_prints [OF 2(2) ws] unfolding n by blast
    have nn: "CHR 0x00 \<notin> set ('': command not found'' @ nl)" by (simp add: nl_def)
    from puts_lit [OF 3(2) nn] obtain s4 where 4: "puts_call C (lit ('': command not found'' @ nl)) s3 = Inr s4"
      "printed s4 = printed s3 @ '': command not found'' @ nl" by blast
    have "prog ! 0 = 0 \<longleftrightarrow> shell_word line = []" using ws by (cases "shell_word line") (auto simp: n)
    then show ?thesis unfolding None option.case using sr 1(3) 2 3 4 by (simp add: notFound_def)
  next
    case (Some xs)
    then have f: "files prog = Some xs" "0 < room s1" using 1(2) by (auto split: if_splits)
    from checkProg_found [OF cd 1(1) ad f] obtain s2 where s2: "if file_magic xs = 0x464c457f
        then checkProg C prog s1 = Some (Inr (- 2, s2)) \<and> printed s2 = printed s1
        else checkProg C prog s1 = Some (Inr (- 3, s2)) \<and> printed s2 = printed s1 @ name_string xs" by blast
    show ?thesis unfolding Some option.case
    proof (cases "file_magic xs = 0x464c457f")
      case True
      then have "shell_round C s = Some (shell_run C (- 2) prog (shell_rest line @ 0 # junk) s2)" "printed s2 = printed s @ ''shell:$ '' @ echo"
        using s2 sr 1(3) by simp_all
      then show "if file_magic xs = 0x464c457f
        then \<exists>junk s'. shell_round C s = Some (shell_run C (- 2) prog (shell_rest line @ 0 # junk) s') \<and> printed s' = printed s @ ''shell:$ '' @ echo
        else \<exists>s'. shell_round C s = Some (Inr (Next s')) \<and> printed s' = printed s @ ''shell:$ '' @ echo @ name_string xs"
        using True by auto
    next
      case False
      then show "if file_magic xs = 0x464c457f
        then \<exists>junk s'. shell_round C s = Some (shell_run C (- 2) prog (shell_rest line @ 0 # junk) s') \<and> printed s' = printed s @ ''shell:$ '' @ echo
        else \<exists>s'. shell_round C s = Some (Inr (Next s')) \<and> printed s' = printed s @ ''shell:$ '' @ echo @ name_string xs"
        using s2 sr 1(3) by simp
    qed
  qed
qed

end

end
