(* ===== verification/Kernel_Calls.thy ===== *)
theory Kernel_Calls
  imports Program_Runs
begin

text \<open>
  The system calls of the kernel as the programs of \<open>User_Programs\<close> use them, and their laws: what \<open>open\<close>, \<open>read\<close>,
  \<open>seek\<close>, \<open>close\<close> and \<open>putchar\<close> do on a kernel whose running process can open the files of a directory.
\<close>

section \<open>Calls that return at once\<close>

definition user_call :: "'f ldouble \<Rightarrow> 'd driver \<Rightarrow> (nat \<Rightarrow> u8 list) \<Rightarrow> u32 \<Rightarrow> u32 \<Rightarrow> u32 \<Rightarrow> 'd kern \<Rightarrow> fault + (int \<times> 'd kern)" where
  "user_call fp v junk num a0 a1 k =
     bindE (syscallHandler fp v junk (0, 0) num a0 a1 k) (\<lambda>(r, k). case r of Ret c \<Rightarrow> Inr (c, k) | _ \<Rightarrow> Inl Diverges)"

text \<open>
  The strings, the buffer and the block of arguments of the program lie at \<open>na\<close>, \<open>ba\<close> and \<open>aa\<close> in the memory of
  process \<open>p\<close>; \<open>X\<close> are the other calls of the record.
\<close>

definition kern_calls :: "'f ldouble \<Rightarrow> 'd driver \<Rightarrow> (nat \<Rightarrow> u8 list) \<Rightarrow> pid \<Rightarrow> u32 \<Rightarrow> u32 \<Rightarrow> u32 \<Rightarrow> 'z
    \<Rightarrow> ('d kern, 'z) file_calls_scheme" where
  "kern_calls fp v junk p na ba aa X =
     \<lparr>c_open = (\<lambda>s k. case s of
         None \<Rightarrow> user_call fp v junk 8 0 0 k
       | Some bs \<Rightarrow> user_call fp v junk 8 na 0 (k\<lparr>k_mem := (k_mem k)(p := write_bytes na bs (k_mem k p))\<rparr>)),
      c_read = (\<lambda>fd off n k.
         let buf = ba + of_nat off;
             k = k\<lparr>k_mem := (k_mem k)(p := arg_block aa (word_of_int fd) buf (of_nat n) (k_mem k p))\<rparr>
         in bindE (user_call fp v junk 10 aa 0 k) (\<lambda>(cnt, k). Inr (cnt, read_bytes (k_mem k p) buf (nat cnt), k))),
      c_seek = (\<lambda>fd pos. user_call fp v junk 11 (word_of_int fd) (word_of_int pos)),
      c_close = (\<lambda>fd. user_call fp v junk 12 (word_of_int fd) 0),
      c_putchar = (\<lambda>c. user_call fp v junk 1 (scast c) 0), \<dots> = X\<rparr>"

section \<open>The terminal\<close>

definition kern_live :: "'d kern \<Rightarrow> bool" where
  "kern_live k \<longleftrightarrow> con_sink (k_con k) \<noteq> None"

definition kern_printed :: "'d kern \<Rightarrow> string" where
  "kern_printed k = (case con_sink (k_con k) of None \<Rightarrow> '''' | Some st \<Rightarrow> out st)"

definition kern_keeps :: "'d kern \<Rightarrow> 'd kern \<Rightarrow> bool" where
  "kern_keeps k k' \<longleftrightarrow> k' = k\<lparr>k_con := k_con k'\<rparr>"

lemma kern_keeps_iff: "kern_keeps k k' \<longleftrightarrow> (\<exists>c. k' = k\<lparr>k_con := c\<rparr>)"
  by (auto simp: kern_keeps_def)

lemma char_of_scast: "char_of (unat (scast (c :: u8) :: u32)) = char_of (unat c)"
proof -
  have "ucast (scast c :: u32) = c" by (rule bit_word_eqI) (simp add: bit_ucast_iff bit_signed_iff)
  moreover have "unat (ucast (scast c :: u32) :: u8) = unat (scast c :: u32) mod 256"
    by (simp add: unsigned_ucast_eq take_bit_eq_mod)
  ultimately have "unat (scast c :: u32) mod 256 = unat c" by metis
  then show ?thesis by (metis char_of_mod_256)
qed

lemma putchar_prints:
  assumes "kern_live k"
  shows "\<exists>k'. user_call fp v junk 1 (scast (c :: u8)) 0 k = Inr (0, k') \<and> kern_live k' \<and> kern_keeps k k' \<and>
    kern_printed k' = kern_printed k @ [char_of (unat c)]"
proof -
  from assms obtain st where st: "con_sink (k_con k) = Some st" by (auto simp: kern_live_def)
  have "format_ref fp 1000 (cz ''%c'') [Word (scast c)] (st\<lparr>currlen := 0\<rparr>) = Inr (emit [char_of (unat c)] (st\<lparr>currlen := 0\<rparr>))"
    by (simp add: cz_def format_ref.simps(2) directive_def parse_star_def parse_prec_def parse_mod_def K_isdigit_def
        dopr_conv_def Let_def char_of_scast)
  from printf_format [OF this st] obtain st' where
    "Debug_vprintf fp (cz ''%c'') [Word (scast c)] (k_con k) = Inr ((k_con k)\<lparr>con_sink := Some st'\<rparr>)"
    "out st' = out st @ [char_of (unat c)]" by blast
  then show ?thesis using st
    by (simp add: user_call_def syscallHandler_def sys_putchar_def printing_def Debug_printf_def kern_live_def kern_printed_def kern_keeps_def)
qed

section \<open>An open file\<close>

definition user_areas :: "u32 \<Rightarrow> u32 \<Rightarrow> bool" where
  "user_areas ba aa \<longleftrightarrow> 0x80000000 \<le> ba \<and> unat ba + 100 < 2 ^ 32 \<and> 0x80000000 \<le> aa \<and> unat aa + 12 \<le> 2 ^ 32"

text \<open>\<open>fd\<close> is a handle of process \<open>p\<close> for the resource \<open>r\<close>, a file.\<close>

definition file_slot :: "'d kern \<Rightarrow> pid \<Rightarrow> int \<Rightarrow> rid \<Rightarrow> bool" where
  "file_slot k p fd r \<longleftrightarrow> current (k_sched k) = Some p \<and> (\<exists>T R. res (k_rs k) (k_table k p) = Some T \<and> r_mutex T \<noteq> 0 \<and>
     length (r_ptrs T) < 2 ^ 31 \<and> 2 \<le> fd \<and> nat fd < length (r_ptrs T) \<and> r_ptrs T ! nat fd = Some r \<and> r \<noteq> k_table k p \<and>
     res (k_rs k) r = Some R \<and> r_type R = FILE \<and> r_ptrs R = [] \<and> 0 < nextRid (k_rs k))"

definition kern_opened :: "'d driver \<Rightarrow> pid \<Rightarrow> u32 \<Rightarrow> u32 \<Rightarrow> 'd kern \<Rightarrow> int \<Rightarrow> u8 list \<Rightarrow> nat \<Rightarrow> bool" where
  "kern_opened v p ba aa k fd xs i \<longleftrightarrow> kern_live k \<and> volume v \<and> user_areas ba aa \<and>
     (\<exists>r F f bs. file_slot k p fd r \<and> k_obj k r = FileObj F \<and> wf_file (k_fs k) (ff_openFile F) f bs \<and>
        openFilesMutex (k_fs k) \<noteq> 0 \<and> unat (ff_offset F) = i \<and> i \<le> length xs \<and> xs = file_bytes v (k_fs k) f bs)"

lemma slot_sint:
  assumes "file_slot k p fd r"
  shows "sint (word_of_int fd :: u32) = fd"
proof -
  have f: "0 \<le> fd" "nat fd < 2 ^ 31" using assms by (auto simp: file_slot_def)
  then have "(word_of_int fd :: u32) = of_nat (nat fd)" by simp
  moreover have "unat (of_nat (nat fd) :: u32) = nat fd" by (rule unat_of_nat_u32) (use f in simp)
  ultimately show ?thesis using f sint_small [of "of_nat (nat fd)"] by simp
qed

lemma slot_handle:
  assumes "file_slot k p fd r"
  shows "file_handle k p (word_of_int fd) r"
proof -
  have "0 \<le> fd" using assms by (auto simp: file_slot_def)
  then show ?thesis using assms by (auto simp: file_slot_def file_handle_def slot_sint [OF assms] nat_less_iff)
qed

lemma opened_reads:
  assumes o: "kern_opened v p ba aa k fd xs i" and n: "0 < n" "off + n \<le> 100"
  shows "\<exists>c r F k'. c_read (kern_calls fp v junk p na ba aa X) fd off n k = Inr (int c, take c (drop i xs), k') \<and>
    c \<le> n \<and> i + c \<le> length xs \<and> (c = 0 \<longrightarrow> i = length xs) \<and> kern_opened v p ba aa k' fd xs (i + c) \<and>
    (\<exists>m G. k_obj k r = FileObj F \<and> k' = (put_file r G k)\<lparr>k_mem := m\<rparr>)"
proof -
  from o obtain r F f bs where live: "kern_live k" and v: "volume v" and ar: "user_areas ba aa" and sl: "file_slot k p fd r" and
    F: "k_obj k r = FileObj F" "wf_file (k_fs k) (ff_openFile F) f bs" "openFilesMutex (k_fs k) \<noteq> 0" and
    i: "unat (ff_offset F) = i" "i \<le> length xs" and xs: "xs = file_bytes v (k_fs k) f bs"
    unfolding kern_opened_def by blast
  define buf where "buf = ba + of_nat off"
  define k1 where "k1 = k\<lparr>k_mem := (k_mem k)(p := arg_block aa (word_of_int fd) buf (of_nat n) (k_mem k p))\<rparr>"
  let ?L = "unat (m_length (of_meta f))"
  have L: "length xs = ?L" "?L < 2 ^ 32" using xs F(2) by (simp_all add: file_bytes_def wf_file_def)
  have bu: "unat buf = unat ba + off" unfolding buf_def by (rule unat_off) (use ar n in \<open>simp add: user_areas_def\<close>)
  have bz: "0x80000000 \<le> buf" using ar bu by (simp add: user_areas_def word_le_nat_alt)
  have fit: "unat buf + unat (of_nat n :: u32) \<le> 2 ^ 32"
    using bu ar n by (subst unat_of_nat_u32) (simp_all add: user_areas_def)
  have aw: "0x80000000 \<le> aa" "unat aa + 12 \<le> 2 ^ 32" using ar by (simp_all add: user_areas_def)
  have un: "unat (of_nat n :: u32) = n" by (rule unat_of_nat_u32) (use n in simp)
  define c where "c = read_count f i n"
  have c: "c \<le> n" "i + c \<le> length xs" "c = 0 \<longrightarrow> i = length xs"
    using n i(2) L by (auto simp: c_def read_count_def min_def split: if_splits)
  define bytes where "bytes = map (file_byte v (k_fs k) bs) [i ..< i + c]"
  have bytes: "bytes = take c (drop i xs)"
    unfolding bytes_def xs file_bytes_def using c(2) L xs
    by (intro nth_equalityI) (simp_all add: file_bytes_def)
  have h: "file_handle k1 p (word_of_int fd) r" using slot_handle [OF sl] by (simp add: k1_def file_handle_def)
  have w: "read_word (k_mem k1 p) aa = word_of_int fd" "read_word (k_mem k1 p) (aa + 4) = buf" "read_word (k_mem k1 p) (aa + 8) = of_nat n"
    using arg_block_words [OF aw(2)] by (simp_all add: k1_def)
  define G where "G = F\<lparr>ff_offset := of_nat (i + c)\<rparr>"
  define k' where "k' = (put_file r G k1)\<lparr>k_mem := (k_mem k1)(p := write_bytes buf bytes (k_mem k1 p))\<rparr>"
  have wf1: "wf_file (k_fs k1) (ff_openFile F) f bs" "k_obj k1 r = FileObj F" using F by (simp_all add: k1_def)
  have oL: "unat (ff_offset F) \<le> ?L" using i L(1) by simp
  have "syscallHandler fp v junk (0, 0) 10 aa 0 k1 = Inr (Ret (int c), k')"
    using sys_read_chunk [OF v wf1(1) h wf1(2) refl oL w aw(1) bz fit, of fp junk "(0, 0)" 0]
    by (simp add: k'_def G_def c_def bytes_def i(1) un k1_def)
  then have "c_read (kern_calls fp v junk p na ba aa X) fd off n k = Inr (int c, read_bytes (k_mem k' p) buf c, k')"
    by (simp add: kern_calls_def user_call_def Let_def k1_def buf_def)
  moreover have "read_bytes (k_mem k' p) buf c = bytes"
  proof -
    have l: "length bytes = c" by (simp add: bytes_def)
    have "read_bytes (write_bytes buf bytes (k_mem k1 p)) buf (length bytes) = bytes"
      by (rule read_same) (use bu c(1) n(2) ar l in \<open>simp add: user_areas_def\<close>)
    then show ?thesis by (simp add: k'_def l)
  qed
  moreover have "kern_opened v p ba aa k' fd xs (i + c)"
  proof -
    have "unat (ff_offset G) = i + c" unfolding G_def using c(2) L by (simp del: of_nat_add add: unat_of_nat_u32)
    moreover have "file_slot k' p fd r" using sl by (simp add: k'_def k1_def put_file_def file_slot_def)
    ultimately show ?thesis using live v ar F xs c(2)
      by (auto simp: kern_opened_def k'_def k1_def put_file_def G_def kern_live_def intro!: exI [of _ r])
  qed
  moreover have "k' = (put_file r G k)\<lparr>k_mem := k_mem k'\<rparr>" by (simp add: k'_def k1_def put_file_def)
  ultimately have "c_read (kern_calls fp v junk p na ba aa X) fd off n k = Inr (int c, take c (drop i xs), k')"
    "kern_opened v p ba aa k' fd xs (i + c)" "\<exists>m G. k_obj k r = FileObj F \<and> k' = (put_file r G k)\<lparr>k_mem := m\<rparr>"
    using bytes F(1) by auto
  then show ?thesis using c by blast
qed

lemma opened_seeks:
  assumes "kern_opened v p ba aa k fd xs i"
  shows "\<exists>k'. c_seek (kern_calls fp v junk p na ba aa X) fd 0 k = Inr (0, k') \<and> kern_opened v p ba aa k' fd xs 0 \<and>
    kern_printed k' = kern_printed k"
proof -
  from assms obtain r F f bs where *: "kern_live k" "volume v" "user_areas ba aa" "file_slot k p fd r"
    "k_obj k r = FileObj F" "wf_file (k_fs k) (ff_openFile F) f bs" "openFilesMutex (k_fs k) \<noteq> 0" "xs = file_bytes v (k_fs k) f bs"
    unfolding kern_opened_def by blast
  let ?k = "put_file r (file_seek 0 F) k"
  have "file_slot ?k p fd r" using *(4) by (simp add: put_file_def file_slot_def)
  then have "kern_opened v p ba aa ?k fd xs 0"
    using * by (auto simp: kern_opened_def put_file_def file_seek_def kern_live_def intro!: exI [of _ r])
  moreover have "c_seek (kern_calls fp v junk p na ba aa X) fd 0 k = Inr (0, ?k)"
    using handle_file [OF slot_handle [OF *(4)] *(5)]
    by (simp add: kern_calls_def user_call_def syscallHandler_def sys_seek_def)
  ultimately show ?thesis by (auto simp: kern_printed_def put_file_def)
qed

section \<open>Closing\<close>

lemma released_cleared:
  assumes "i < length xs" "xs ! i = Some q"
  shows "released xs (xs[i := None]) = [q]"
  using assms
proof (induction xs arbitrary: i)
  case (Cons x xs)
  have "released (x # xs) (y # ys) = (if x = y then [] else case x of None \<Rightarrow> [] | Some q \<Rightarrow> [q]) @ released xs ys" for y ys
    by (simp add: released_def)
  then show ?case using Cons by (cases i) auto
qed simp

lemma table_close_file:
  assumes T: "res st t = Some T" "r_mutex T \<noteq> 0" and fd: "2 \<le> fd" "nat fd < length (r_ptrs T)" "r_ptrs T ! nat fd = Some r" "r \<noteq> t"
    and R: "res st r = Some R" "r_ptrs R = []" and n: "0 < nextRid st"
  shows "\<exists>st'. table_close t fd st = Inr (0, st') \<and> t_slots t st' = (r_ptrs T)[nat fd := None]"
proof -
  obtain m where m: "nextRid st = Suc m" using n by (cases "nextRid st") auto
  have i: "fd < int (length (r_ptrs T))" "\<not> fd < 0" "fd \<noteq> 1" using fd(1,2) by (auto simp: nat_less_iff)
  define st1 where "st1 = put_res t (T\<lparr>r_mutex := r_mutex T - 1\<rparr>) st"
  have lock: "t_lock t st = Inr st1" using T by (simp add: t_lock_def get_res_def st1_def)
  have "\<exists>x st2. unref_all (Some r) st1 = Inr (x, st2) \<and> res st2 t = res st1 t"
    using R fd(4) m by (auto simp: unref_all_def st1_def get_res_def put_res_def getThenAdd_def Let_def)
  then obtain x st2 where u: "unref_all (Some r) st1 = Inr (x, st2)" "res st2 t = res st1 t" by blast
  have T2: "res st2 t = Some (T\<lparr>r_mutex := r_mutex T - 1\<rparr>)" using u(2) by (simp add: st1_def put_res_def)
  have "slot_get t (nat fd) st1 = Inr (Some r)" using fd by (simp add: slot_get_def get_res_def st1_def put_res_def)
  then show ?thesis using i lock u(1) T2 T(1) fd(2)
    by (simp add: table_close_def t_size_def get_res_def slot_set_def t_unlock_def put_res_def t_slots_def)
qed

lemma wf_file_closes:
  assumes "wf_file fs s f xs" "openFilesMutex fs \<noteq> 0"
  obtains fs' where "closeFile s fs = Inr fs'"
  using assms that
  by (auto simp: wf_file_def file_at_def slot_at_def closeFile_def lockOpenFiles_def split: if_splits)

lemma opened_closes:
  assumes "kern_opened v p ba aa k fd xs i"
  shows "\<exists>k'. c_close (kern_calls fp v junk p na ba aa X) fd k = Inr (0, k') \<and> kern_live k' \<and> kern_printed k' = kern_printed k"
proof -
  from assms obtain r F f bs where *: "kern_live k" "file_slot k p fd r" "k_obj k r = FileObj F"
    "wf_file (k_fs k) (ff_openFile F) f bs" "openFilesMutex (k_fs k) \<noteq> 0"
    unfolding kern_opened_def by blast
  let ?t = "k_table k p"
  from *(2) obtain T R where T: "current (k_sched k) = Some p" "res (k_rs k) ?t = Some T" "r_mutex T \<noteq> 0" "2 \<le> fd"
    "nat fd < length (r_ptrs T)" "r_ptrs T ! nat fd = Some r" "r \<noteq> ?t" "res (k_rs k) r = Some R" "r_ptrs R = []" "0 < nextRid (k_rs k)"
    unfolding file_slot_def by blast
  from table_close_file [OF T(2-9,10)] obtain rs where rs: "table_close ?t fd (k_rs k) = Inr (0, rs)"
    "t_slots ?t rs = (r_ptrs T)[nat fd := None]" by blast
  have "t_slots ?t (k_rs k) = r_ptrs T" using T(2) by (simp add: t_slots_def)
  then have rel: "released (t_slots ?t (k_rs k)) (t_slots ?t rs) = [r]" using released_cleared [OF T(5,6)] rs(2) by simp
  obtain fs where fs: "closeFile (ff_openFile F) (k_fs k) = Inr fs" by (rule wf_file_closes [OF *(4,5)])
  define k' where "k' = (if res rs r = None then k\<lparr>k_rs := rs, k_fs := fs\<rparr> else k\<lparr>k_rs := rs\<rparr>)"
  have "settle [r] (k\<lparr>k_rs := rs\<rparr>) = Inr k'" using *(3) fs by (simp add: k'_def file_delete_def)
  then have "sys_close (word_of_int fd) k = Inr (Ret 0, k')"
    using T(1) rs(1) rel slot_sint [OF *(2)] by (simp add: sys_close_def me_def on_table_def)
  then have "c_close (kern_calls fp v junk p na ba aa X) fd k = Inr (0, k')"
    by (simp add: kern_calls_def user_call_def syscallHandler_def)
  moreover have "k_con k' = k_con k" by (simp add: k'_def)
  ultimately show ?thesis using *(1) by (simp add: kern_live_def kern_printed_def)
qed

section \<open>What opening a file leaves alone\<close>

definition fs_keeps :: "'d driver \<Rightarrow> 'd fat439 \<Rightarrow> 'd fat439 \<Rightarrow> bool" where
  "fs_keeps v fs fs' \<longleftrightarrow> dev fs' = dev fs \<and> openFilesMutex fs' = openFilesMutex fs \<and>
     (\<forall>s f xs. wf_file fs s f xs \<longrightarrow> (\<exists>f'. wf_file fs' s f' xs \<and> of_meta f' = of_meta f)) \<and>
     (\<forall>b xs m. stored v fs b xs m \<longrightarrow> stored v fs' b xs m)"

lemma fs_keeps_refl: "fs_keeps v fs fs"
  by (auto simp: fs_keeps_def)

lemma openFile_shape:
  "openFile v b fs = Inr fs' \<Longrightarrow>
    \<exists>f. fs' = fs\<lparr>openFiles := (openFiles fs)[unat b := Some f]\<rparr> \<and> unat b < length (openFiles fs)"
  by (auto simp: openFile_def lockOpenFiles_def slot_at_def unlockOpenFiles_def slot_put_def split: if_splits)

lemma openFile_keeps:
  assumes v: "volume v" and s: "stored v fs b xs m"
  obtains fs' f where "openFile v b fs = Inr fs'" "wf_file fs' b f xs" "of_meta f = m" "fs_keeps v fs fs'"
proof -
  obtain fs' f where o: "openFile v b fs = Inr fs'" "wf_file fs' b f xs" "of_meta f = m" "dev fs' = dev fs" "fat fs' = fat fs"
    by (rule openFile_stored [OF v s])
  from openFile_shape [OF o(1)] obtain g where g: "fs' = fs\<lparr>openFiles := (openFiles fs)[unat b := Some g]\<rparr>"
    "unat b < length (openFiles fs)" by blast
  have fg: "g = f" "of_start f = b" using o(2) g by (auto simp: wf_file_def file_at_def slot_at_def split: if_splits)
  have same: "unat c = unat b \<longleftrightarrow> c = b" for c :: u32 by (metis unsigned_word_eqI)
  have "\<exists>f'. wf_file fs' t f' ys \<and> of_meta f' = of_meta h" if h: "wf_file fs t h ys" for t h ys
  proof (cases "t = b")
    case True
    have "of_meta h = m" using h s True by (auto simp: wf_file_def file_at_def slot_at_def stored_def split: if_splits option.splits)
    moreover have "wf_file fs' t f ys" using h g fg o(3) True calculation by (auto simp: wf_file_def file_at_def slot_at_def)
    ultimately show ?thesis using o(3) by auto
  next
    case False
    then have "wf_file fs' t h ys" using h g same [of t] by (auto simp: wf_file_def file_at_def slot_at_def split: if_splits)
    then show ?thesis by auto
  qed
  moreover have "stored v fs' c ys n" if c: "stored v fs c ys n" for c ys n
  proof (cases "c = b")
    case True
    then have "n = m" using c s by (auto simp: stored_def split: option.splits)
    then show ?thesis using c g fg o(3) True by (simp add: stored_def)
  next
    case False
    then show ?thesis using c g same [of c] by (auto simp: stored_def split: option.splits)
  qed
  moreover have "openFilesMutex fs' = openFilesMutex fs" using g by simp
  ultimately have "fs_keeps v fs fs'" using o(4) by (auto simp: fs_keeps_def)
  then show thesis using that o by blast
qed

section \<open>A kernel that can open files\<close>

text \<open>The block that a directory has for a name, the root directory first, then the working directory.\<close>

definition start_of :: "'d driver \<Rightarrow> 'd fat439 \<Rightarrow> fat_dir \<Rightarrow> u32 list \<Rightarrow> cstring \<Rightarrow> u32" where
  "start_of v fs d dxs name =
     (case find_entry v fs dxs name 0 (unat (d_entries d)) of None \<Rightarrow> 0 | Some e \<Rightarrow> entry_start (dir_entry v fs dxs e))"

definition block_of :: "'d driver \<Rightarrow> 'd fat439 \<Rightarrow> fat_dir \<times> u32 list \<Rightarrow> fat_dir \<times> u32 list \<Rightarrow> cstring \<Rightarrow> u32" where
  "block_of v fs D D' name = (let b = start_of v fs (fst D) (snd D) name in if b \<noteq> 0 then b else start_of v fs (fst D') (snd D') name)"

text \<open>The file at the block \<open>b\<close>: none, or one with the contents \<open>xs\<close>.\<close>

definition holds_file :: "'d driver \<Rightarrow> 'd fat439 \<Rightarrow> u32 \<Rightarrow> u8 list option \<Rightarrow> bool" where
  "holds_file v fs b c \<longleftrightarrow> (case c of None \<Rightarrow> b = 0
     | Some xs \<Rightarrow> b \<noteq> 0 \<and> (\<exists>bs m. stored v fs b bs m \<and> xs = map (file_byte v fs bs) [0 ..< unat (m_length m)]))"

definition name_of :: "u8 list \<Rightarrow> cstring" where
  "name_of bs = takeWhile (\<lambda>c. c \<noteq> 0) bs"

definition kern_admits :: "u32 \<Rightarrow> u8 list \<Rightarrow> bool" where
  "kern_admits na bs \<longleftrightarrow> 0 \<in> set bs \<and> unat na + length bs \<le> 2 ^ 32 \<and> \<not> is_dot (name_of bs) \<and> \<not> is_dotdot (name_of bs)"

definition root_is :: "'d kern \<Rightarrow> fat_dir \<times> u32 list \<Rightarrow> bool" where
  "root_is k D \<longleftrightarrow> k_root k < nextRid (k_rs k) \<and> k_obj k (k_root k) = DirObj (fst D) \<and> (\<exists>f. dir_ok (k_fs k) (fst D) f (snd D))"

definition cwd_is :: "'d kern \<Rightarrow> pid \<Rightarrow> fat_dir \<times> u32 list \<Rightarrow> bool" where
  "cwd_is k p D \<longleftrightarrow> (\<exists>T r R f. res (k_rs k) (k_table k p) = Some T \<and> 1 < length (r_ptrs T) \<and> r_ptrs T ! 1 = Some r \<and>
     r < nextRid (k_rs k) \<and> r \<noteq> k_table k p \<and> res (k_rs k) r = Some R \<and> r_type R = DIRECTORY \<and>
     k_obj k r = DirObj (fst D) \<and> dir_ok (k_fs k) (fst D) f (snd D))"

definition kern_ready :: "'d driver \<Rightarrow> (nat \<Rightarrow> u8 list) \<Rightarrow> pid \<Rightarrow> u32 \<Rightarrow> u32 \<Rightarrow> u32 \<Rightarrow> (u8 list \<Rightarrow> u8 list option) \<Rightarrow> 'd kern \<Rightarrow> bool" where
  "kern_ready v junk p na ba aa files k \<longleftrightarrow>
     kern_live k \<and> volume v \<and> user_areas ba aa \<and> length (junk 16) = 16 \<and> 0x1000 \<le> na \<and> openFilesMutex (k_fs k) \<noteq> 0 \<and>
     current (k_sched k) = Some p \<and> k_table k p < nextRid (k_rs k) \<and>
     (\<exists>T. res (k_rs k) (k_table k p) = Some T \<and> r_mutex T \<noteq> 0 \<and> length (r_ptrs T) < 2 ^ 31) \<and>
     (\<exists>D D'. root_is k D \<and> cwd_is k p D' \<and>
        (\<forall>bs. kern_admits na bs \<longrightarrow> holds_file v (k_fs k) (block_of v (k_fs k) D D' (name_of bs)) (files bs)))"

text \<open>The handles that are left.\<close>

definition kern_room :: "pid \<Rightarrow> 'd kern \<Rightarrow> nat" where
  "kern_room p k = length (filter (\<lambda>x. x = None) (drop 2 (t_slots (k_table k p) (k_rs k))))"

lemma fs_keeps_same:
  assumes "fs_keeps v fs fs'"
  shows "start_of v fs' = start_of v fs" "block_of v fs' = block_of v fs" "holds_file v fs b c \<Longrightarrow> holds_file v fs' b c"
    "dir_ok fs d f xs \<Longrightarrow> \<exists>f'. dir_ok fs' d f' xs"
proof -
  have d: "dev fs' = dev fs" using assms by (simp add: fs_keeps_def)
  have b: "file_byte v fs' = file_byte v fs" by (simp add: fun_eq_iff file_byte_def d)
  have e: "dir_entry v fs' = dir_entry v fs" by (rule ext)+ (simp add: dir_entry_def b)
  show st: "start_of v fs' = start_of v fs" by (rule ext)+ (simp only: start_of_def find_entry_def e)
  show "block_of v fs' = block_of v fs" by (rule ext)+ (simp only: block_of_def st)
  show "holds_file v fs b c \<Longrightarrow> holds_file v fs' b c" using assms b by (auto simp: holds_file_def fs_keeps_def split: option.splits) blast
  show "dir_ok fs d f xs \<Longrightarrow> \<exists>f'. dir_ok fs' d f' xs" using assms by (auto simp: dir_ok_def fs_keeps_def) metis
qed

lemma ready_step:
  assumes "kern_ready v junk p na ba aa files k" "kern_live k'" "k_sched k' = k_sched k" "k_table k' = k_table k" "k_root k' = k_root k"
    and "fs_keeps v (k_fs k) (k_fs k')" "nextRid (k_rs k) \<le> nextRid (k_rs k')"
    and ob: "\<And>q d. q < nextRid (k_rs k) \<Longrightarrow> k_obj k q = DirObj d \<Longrightarrow> k_obj k' q = DirObj d"
    and rs: "\<And>q. q < nextRid (k_rs k) \<Longrightarrow> q \<noteq> k_table k p \<Longrightarrow> res (k_rs k') q = res (k_rs k) q"
    and T: "res (k_rs k) (k_table k p) = Some T" "res (k_rs k') (k_table k p) = Some T'" "r_mutex T' = r_mutex T"
      "length (r_ptrs T') = length (r_ptrs T)" "r_ptrs T' ! 1 = r_ptrs T ! 1"
  shows "kern_ready v junk p na ba aa files k'"
proof -
  from assms(1) obtain D D' where D: "root_is k D" "cwd_is k p D'" and
    h: "\<And>bs. kern_admits na bs \<Longrightarrow> holds_file v (k_fs k) (block_of v (k_fs k) D D' (name_of bs)) (files bs)"
    unfolding kern_ready_def by blast
  note F = fs_keeps_same [OF assms(6)]
  have "root_is k' D" using D(1) assms(5,7) ob F(4) by (auto simp: root_is_def)
  moreover have "cwd_is k' p D'"
  proof -
    from D(2) T obtain r R f where r: "r_ptrs T ! 1 = Some r" "1 < length (r_ptrs T)" "r < nextRid (k_rs k)" "r \<noteq> k_table k p"
      "res (k_rs k) r = Some R" "r_type R = DIRECTORY" "k_obj k r = DirObj (fst D')" "dir_ok (k_fs k) (fst D') f (snd D')"
      unfolding cwd_is_def by auto
    from F(4) [OF r(8)] obtain f' where "dir_ok (k_fs k') (fst D') f' (snd D')" by blast
    then show ?thesis using r(1-7) T(2,4,5) assms(4,7) ob [OF r(3,7)] rs [OF r(3,4)] unfolding cwd_is_def by auto
  qed
  moreover have "holds_file v (k_fs k') (block_of v (k_fs k') D D' (name_of bs)) (files bs)" if "kern_admits na bs" for bs
    using F(2,3) h [OF that] by simp
  ultimately have "\<exists>D D'. root_is k' D \<and> cwd_is k' p D' \<and>
      (\<forall>bs. kern_admits na bs \<longrightarrow> holds_file v (k_fs k') (block_of v (k_fs k') D D' (name_of bs)) (files bs))" by blast
  moreover have "openFilesMutex (k_fs k') = openFilesMutex (k_fs k)" using assms(6) by (simp add: fs_keeps_def)
  ultimately show ?thesis using assms(1-5,7) T by (simp add: kern_ready_def)
qed

section \<open>Opening\<close>

lemma chars_at_string:
  assumes "0 \<notin> set nm" "\<forall>j < length nm. m (a + of_nat j) = nm ! j" "m (a + of_nat (length nm)) = 0"
  shows "chars_at m a = Some nm"
  using assms
proof (induction nm arbitrary: a)
  case Nil
  then show ?case by (subst chars_at.simps) simp
next
  case (Cons c nm)
  have "m a = c" using Cons.prems(2) [rule_format, of 0] by simp
  moreover have "\<forall>j < length nm. m (a + 1 + of_nat j) = nm ! j"
    using Cons.prems(2) by (metis Suc_less_eq add.assoc length_Cons nth_Cons_Suc of_nat_Suc)
  moreover have "m (a + 1 + of_nat (length nm)) = 0" using Cons.prems(3) by (simp add: add.assoc)
  ultimately have "chars_at m (a + 1) = Some nm" using Cons.IH [of "a + 1"] Cons.prems(1) by simp
  then show ?case using \<open>m a = c\<close> Cons.prems(1) by (subst chars_at.simps) simp
qed

lemma user_string_written:
  assumes "kern_admits na bs" "0x1000 \<le> na"
  shows "user_string (write_bytes na bs m) na = Inr (name_of bs)"
proof -
  from assms(1) have "0 \<in> set bs" "unat na + length bs \<le> 2 ^ 32" by (simp_all add: kern_admits_def)
  then obtain nm junk where bs: "bs = nm @ 0 # junk" "0 \<notin> set nm" using split_list_first by metis
  have nm: "name_of bs = nm" unfolding name_of_def bs(1) using bs(2) by (subst takeWhile_append2) auto
  have at: "write_bytes na bs m (na + of_nat j) = bs ! j" if "j < length bs" for j
  proof -
    have "unat (na + of_nat j) = unat na + j" by (rule unat_off) (use that \<open>unat na + length bs \<le> 2 ^ 32\<close> in simp)
    then show ?thesis using that \<open>unat na + length bs \<le> 2 ^ 32\<close> by (simp add: write_bytes_at)
  qed
  have "chars_at (write_bytes na bs m) na = Some nm"
    by (rule chars_at_string [OF bs(2)]) (use at in \<open>auto simp: bs(1) nth_append\<close>)
  then show ?thesis using assms(2) nm by (simp add: user_string_def not_less)
qed

lemma lookupFile_start:
  assumes "volume v" "dir_ok fs d df dxs" "length junk = 16" "\<not> is_dot name" "\<not> is_dotdot name"
  shows "lookupFile v junk (Some name) d fs =
    (if start_of v fs d dxs name = 0 then Inr (None, fs)
     else bindE (openFile v (start_of v fs d dxs name) fs) (\<lambda>fs'. Inr (Some (new_File (start_of v fs d dxs name)), fs')))"
  using volume.dir_lookup_first [OF assms] by (simp add: lookupFile_def start_of_def)

text \<open>A new file object behind a handle.\<close>

definition open_object :: "u32 \<Rightarrow> 'd kern \<Rightarrow> fault + (outcome \<times> 'd kern)" where
  "open_object b k = (let (r, k) = new_obj FILE (FileObj (new_File b)) k in my_open r k)"

lemma ready_dirs:
  assumes "kern_ready v junk p na ba aa files k"
  obtains d dxs df d' dxs' df' r where "root_dir k = Inr d" "dir_ok (k_fs k) d df dxs" "my_dir k = Inr (d', r)" "dir_ok (k_fs k) d' df' dxs'"
    "\<And>bs. kern_admits na bs \<Longrightarrow> holds_file v (k_fs k) (block_of v (k_fs k) (d, dxs) (d', dxs') (name_of bs)) (files bs)"
proof -
  from assms obtain D D' where D: "root_is k D" "cwd_is k p D'" and cur: "current (k_sched k) = Some p" and
    h: "\<And>bs. kern_admits na bs \<Longrightarrow> holds_file v (k_fs k) (block_of v (k_fs k) D D' (name_of bs)) (files bs)"
    unfolding kern_ready_def by blast
  from D(2) obtain T r R df' where r: "res (k_rs k) (k_table k p) = Some T" "1 < length (r_ptrs T)" "r_ptrs T ! 1 = Some r"
    "res (k_rs k) r = Some R" "r_type R = DIRECTORY" "k_obj k r = DirObj (fst D')" "dir_ok (k_fs k) (fst D') df' (snd D')"
    unfolding cwd_is_def by blast
  have "my_get 1 DIRECTORY k = Inr (Some r)" using my_get_eq [OF cur r(1), of 1 DIRECTORY] r by simp
  then have "my_dir k = Inr (fst D', r)" using r(6) by (simp add: my_dir_def)
  moreover obtain df where "root_dir k = Inr (fst D)" "dir_ok (k_fs k) (fst D) df (snd D)" using D(1) by (auto simp: root_is_def root_dir_def)
  ultimately show thesis using that [of "fst D" df "snd D" "fst D'" r df' "snd D'"] r(7) h by simp
qed

lemma c_open_block:
  assumes "kern_ready v junk p na ba aa files k" "kern_admits na bs"
  obtains b k1 where "holds_file v (k_fs k) b (files bs)" "k1 = k\<lparr>k_mem := (k_mem k)(p := write_bytes na bs (k_mem k p))\<rparr>"
    "c_open (kern_calls fp v junk p na ba aa X) (Some bs) k =
      bindE (if b = 0 then Inr (Ret ERR_NOT_FOUND, k1) else bindE (openFile v b (k_fs k)) (\<lambda>fs. open_object b (k1\<lparr>k_fs := fs\<rparr>)))
        (\<lambda>(r, k). case r of Ret c \<Rightarrow> Inr (c, k) | _ \<Rightarrow> Inl Diverges)"
proof -
  define k1 where "k1 = k\<lparr>k_mem := (k_mem k)(p := write_bytes na bs (k_mem k p))\<rparr>"
  have R: "kern_ready v junk p na ba aa files k1"
    using assms(1) by (simp add: k1_def kern_ready_def kern_live_def root_is_def cwd_is_def)
  obtain d dxs df d' dxs' df' r where d: "root_dir k1 = Inr d" "dir_ok (k_fs k1) d df dxs" "my_dir k1 = Inr (d', r)" "dir_ok (k_fs k1) d' df' dxs'"
    "\<And>bs. kern_admits na bs \<Longrightarrow> holds_file v (k_fs k1) (block_of v (k_fs k1) (d, dxs) (d', dxs') (name_of bs)) (files bs)"
    by (rule ready_dirs [OF R]) blast
  from R have v: "volume v" and na: "0x1000 \<le> na" and j: "length (junk 16) = 16" and cur: "current (k_sched k1) = Some p"
    by (simp_all add: kern_ready_def)
  have nd: "\<not> is_dot (name_of bs)" "\<not> is_dotdot (name_of bs)" using assms(2) by (simp_all add: kern_admits_def)
  have "user_name (k_mem k1 p) na = Inr (Some (name_of bs))"
    using user_string_written [OF assms(2) na] na by (auto simp: user_name_def k1_def)
  moreover have mm: "my_mem k1 = Inr (k_mem k1 p)" using cur by (simp add: my_mem_def me_def)
  define b where "b = block_of v (k_fs k1) (d, dxs) (d', dxs') (name_of bs)"
  note L = lookupFile_start [OF v d(2) j nd] lookupFile_start [OF v d(4) j nd]
  have k1: "k1\<lparr>k_fs := k_fs k1\<rparr> = k1" by simp
  have "syscallHandler fp v junk (0, 0) 8 na 0 k1 =
      (if b = 0 then Inr (Ret ERR_NOT_FOUND, k1) else bindE (openFile v b (k_fs k1)) (\<lambda>fs. open_object b (k1\<lparr>k_fs := fs\<rparr>)))"
    unfolding syscallHandler_def sys_open_def mm calculation d(1) bindE.simps L
    by (simp add: k1 d(3) L(2) b_def block_of_def open_object_def Let_def bindE_assoc)
  moreover have "holds_file v (k_fs k) b (files bs)" using d(5) [OF assms(2)] by (simp add: b_def k1_def)
  ultimately show thesis using that [of b k1] by (simp add: kern_calls_def user_call_def k1_def)
qed

definition new_slot :: "u32 \<Rightarrow> u32 \<Rightarrow> 'd kern \<Rightarrow> 'd kern" where
  "new_slot c b k = (let r = nextRid (k_rs k) in
     k\<lparr>k_rs := put_res r \<lparr>r_type = FILE, r_count = c, r_ptrs = [], r_mutex = 1\<rparr> ((k_rs k)\<lparr>nextRid := Suc r\<rparr>),
       k_obj := (k_obj k)(r := FileObj (new_File b))\<rparr>)"

lemma put_res_twice [simp]: "put_res r y (put_res r x st) = put_res r y st"
  by (simp add: put_res_def)

lemma open_object_eq:
  assumes "current (k_sched k) = Some p" "res (k_rs k) (k_table k p) = Some T" "k_table k p < nextRid (k_rs k)" "r_mutex T \<noteq> 0"
  shows "i < length (r_ptrs T) \<Longrightarrow> 2 \<le> i \<Longrightarrow> r_ptrs T ! i = None \<Longrightarrow> \<forall>j. 2 \<le> j \<and> j < i \<longrightarrow> r_ptrs T ! j \<noteq> None \<Longrightarrow>
      open_object b k = Inr (Ret (int i), (new_slot 1 b k)\<lparr>k_rs :=
        put_res (k_table k p) (T\<lparr>r_ptrs := (r_ptrs T)[i := Some (nextRid (k_rs k))]\<rparr>) (k_rs (new_slot 1 b k))\<rparr>)"
    and "\<forall>j. 2 \<le> j \<and> j < length (r_ptrs T) \<longrightarrow> r_ptrs T ! j \<noteq> None \<Longrightarrow> open_object b k = Inr (Ret ERR_NO_ID, new_slot 0 b k)"
proof -
  let ?t = "k_table k p" and ?r = "nextRid (k_rs k)"
  have n: "new_obj FILE (FileObj (new_File b)) k = (?r, new_slot 0 b k)"
    by (simp add: new_obj_def new_res_def new_slot_def Let_def)
  have rt: "?r \<noteq> ?t" using assms(3) by simp
  have T: "res (k_rs (new_slot 0 b k)) ?t = Some T" using assms(2) rt by (simp add: new_slot_def put_res_def Let_def)
  have R: "res (k_rs (new_slot 0 b k)) ?r = Some \<lparr>r_type = FILE, r_count = 0, r_ptrs = [], r_mutex = 1\<rparr>"
    by (simp add: new_slot_def put_res_def Let_def)
  have m: "me (new_slot 0 b k) = Inr p" "k_table (new_slot 0 b k) = k_table k" using assms(1) by (simp_all add: new_slot_def me_def Let_def)
  { assume i: "i < length (r_ptrs T)" "2 \<le> i" "r_ptrs T ! i = None" "\<forall>j. 2 \<le> j \<and> j < i \<longrightarrow> r_ptrs T ! j \<noteq> None"
    show "open_object b k = Inr (Ret (int i), (new_slot 1 b k)\<lparr>k_rs :=
        put_res ?t (T\<lparr>r_ptrs := (r_ptrs T)[i := Some ?r]\<rparr>) (k_rs (new_slot 1 b k))\<rparr>)"
      using table_open_first [OF T rt R i(1,2,3) assms(4) i(4)]
      by (simp add: open_object_def n my_open_def m) (simp add: new_slot_def Let_def) }
  assume "\<forall>j. 2 \<le> j \<and> j < length (r_ptrs T) \<longrightarrow> r_ptrs T ! j \<noteq> None"
  then show "open_object b k = Inr (Ret ERR_NO_ID, new_slot 0 b k)"
    using table_open_full [OF T assms(4)] by (simp add: open_object_def n my_open_def m)
qed

lemma new_slot_simps [simp]:
  "k_sched (new_slot c b k) = k_sched k" "k_table (new_slot c b k) = k_table k" "k_root (new_slot c b k) = k_root k"
  "k_fs (new_slot c b k) = k_fs k" "k_con (new_slot c b k) = k_con k" "nextRid (k_rs (new_slot c b k)) = Suc (nextRid (k_rs k))"
  "q < nextRid (k_rs k) \<Longrightarrow> res (k_rs (new_slot c b k)) q = res (k_rs k) q"
  "q < nextRid (k_rs k) \<Longrightarrow> k_obj (new_slot c b k) q = k_obj k q"
  "res (k_rs (new_slot c b k)) (nextRid (k_rs k)) = Some \<lparr>r_type = FILE, r_count = c, r_ptrs = [], r_mutex = 1\<rparr>"
  "k_obj (new_slot c b k) (nextRid (k_rs k)) = FileObj (new_File b)"
  by (simp_all add: new_slot_def put_res_def Let_def)

lemma filter_update:
  "j < length ys \<Longrightarrow> P (ys ! j) \<Longrightarrow> \<not> P x \<Longrightarrow> length (filter P (ys[j := x])) = length (filter P ys) - 1"
proof (induction ys arbitrary: j)
  case (Cons y ys)
  show ?case
  proof (cases j)
    case (Suc i)
    then have "ys ! i \<in> set (filter P ys)" using Cons.prems by simp
    then have "0 < length (filter P ys)" by (cases "filter P ys") auto
    then show ?thesis using Cons Suc by auto
  qed (use Cons.prems in simp)
qed simp

lemma room_slot:
  assumes "0 < length (filter (\<lambda>x. x = None) (drop 2 ptrs))"
  obtains i where "i < length ptrs" "2 \<le> i" "ptrs ! i = None" "\<forall>j. 2 \<le> j \<and> j < i \<longrightarrow> ptrs ! j \<noteq> None"
proof -
  from assms obtain j where "j < length (drop 2 ptrs)" "drop 2 ptrs ! j = None"
    by (metis (mono_tags) filter_False in_set_conv_nth length_greater_0_conv)
  then have "j + 2 < length ptrs \<and> 2 \<le> j + 2 \<and> ptrs ! (j + 2) = None" by (simp add: add.commute)
  from exists_least_iff [of "\<lambda>i. i < length ptrs \<and> 2 \<le> i \<and> ptrs ! i = None"] this obtain i where
    "i < length ptrs \<and> 2 \<le> i \<and> ptrs ! i = None" "\<forall>j < i. \<not> (j < length ptrs \<and> 2 \<le> j \<and> ptrs ! j = None)" by blast
  then show thesis using that [of i] by auto
qed

lemma no_room:
  assumes "length (filter (\<lambda>x. x = None) (drop 2 ptrs)) = 0" "2 \<le> j" "j < length ptrs"
  shows "ptrs ! j \<noteq> None"
proof
  assume "ptrs ! j = None"
  moreover obtain i where "j = 2 + i" using assms(2) le_Suc_ex by blast
  ultimately have "drop 2 ptrs ! i = None" "i < length (drop 2 ptrs)" using assms(3) by simp_all
  then have "None \<in> set (filter (\<lambda>x. x = None) (drop 2 ptrs))" by (auto simp: in_set_conv_nth)
  moreover have "filter (\<lambda>x. x = None) (drop 2 ptrs) = []" using assms(1) by blast
  ultimately show False by (metis empty_iff list.set(1))
qed

lemma ready_table:
  assumes "kern_ready v junk p na ba aa files k"
  obtains T where "current (k_sched k) = Some p" "res (k_rs k) (k_table k p) = Some T" "k_table k p < nextRid (k_rs k)" "r_mutex T \<noteq> 0"
    "length (r_ptrs T) < 2 ^ 31" "kern_room p k = length (filter (\<lambda>x. x = None) (drop 2 (r_ptrs T)))"
  using assms that by (auto simp: kern_ready_def kern_room_def t_slots_def)

lemma ready_fs:
  assumes "kern_ready v junk p na ba aa files k" "fs_keeps v (k_fs k) fs"
  shows "kern_ready v junk p na ba aa files (k\<lparr>k_mem := m, k_fs := fs\<rparr>)" "kern_room p (k\<lparr>k_mem := m, k_fs := fs\<rparr>) = kern_room p k"
proof -
  obtain T where T: "res (k_rs k) (k_table k p) = Some T" by (rule ready_table [OF assms(1)])
  show "kern_ready v junk p na ba aa files (k\<lparr>k_mem := m, k_fs := fs\<rparr>)"
    by (rule ready_step [OF assms(1), where T = T and T' = T]) (use assms T in \<open>simp_all add: kern_ready_def kern_live_def\<close>)
qed (simp add: kern_room_def)

lemma ready_slot:
  assumes "kern_ready v junk p na ba aa files k"
  shows "kern_ready v junk p na ba aa files (new_slot c b k)" "kern_room p (new_slot c b k) = kern_room p k"
proof -
  obtain T where T: "res (k_rs k) (k_table k p) = Some T" "k_table k p < nextRid (k_rs k)" by (rule ready_table [OF assms])
  show "kern_ready v junk p na ba aa files (new_slot c b k)"
    by (rule ready_step [OF assms, where T = T and T' = T]) (use assms T in \<open>simp_all add: kern_ready_def kern_live_def fs_keeps_refl\<close>)
  show "kern_room p (new_slot c b k) = kern_room p k" using T by (simp add: kern_room_def t_slots_def)
qed

lemma ready_handle:
  assumes "kern_ready v junk p na ba aa files k" "res (k_rs k) (k_table k p) = Some T" "2 \<le> i" "i < length (r_ptrs T)" "r_ptrs T ! i = None"
    and k'_def: "k' = k\<lparr>k_rs := put_res (k_table k p) (T\<lparr>r_ptrs := (r_ptrs T)[i := Some r]\<rparr>) (k_rs k)\<rparr>"
  shows "kern_ready v junk p na ba aa files k'" "kern_room p k' = kern_room p k - 1"
proof -
  show "kern_ready v junk p na ba aa files k'"
    by (rule ready_step [OF assms(1) _ _ _ _ _ _ _ _ assms(2), where T' = "T\<lparr>r_ptrs := (r_ptrs T)[i := Some r]\<rparr>"])
      (use assms in \<open>simp_all add: kern_ready_def kern_live_def fs_keeps_refl put_res_def\<close>)
  have d: "drop 2 ((r_ptrs T)[i := Some r]) = (drop 2 (r_ptrs T))[i - 2 := Some r]" using assms(3) by (simp add: drop_update_swap)
  have "drop 2 (r_ptrs T) ! (i - 2) = None" using assms(3-5) le_add_diff_inverse [of 2 i] by (metis nth_drop less_imp_le_nat order_trans)
  then show "kern_room p k' = kern_room p k - 1"
    using filter_update [of "i - 2" "drop 2 (r_ptrs T)" "\<lambda>x. x = None" "Some r"] assms(2-4)
    by (simp add: kern_room_def t_slots_def k'_def put_res_def d)
qed

lemma ready_opens:
  assumes R: "kern_ready v junk p na ba aa files k" and bs: "kern_admits na bs" "files bs = Some xs" and room: "0 < kern_room p k"
  shows "\<exists>fd k'. c_open (kern_calls fp v junk p na ba aa X) (Some bs) k = Inr (fd, k') \<and> 0 < fd \<and> kern_opened v p ba aa k' fd xs 0 \<and>
    kern_printed k' = kern_printed k \<and> kern_ready v junk p na ba aa files k' \<and> kern_room p k' = kern_room p k - 1"
proof -
  obtain b k1 where b: "holds_file v (k_fs k) b (Some xs)" "k1 = k\<lparr>k_mem := (k_mem k)(p := write_bytes na bs (k_mem k p))\<rparr>"
    "c_open (kern_calls fp v junk p na ba aa X) (Some bs) k =
      bindE (if b = 0 then Inr (Ret ERR_NOT_FOUND, k1) else bindE (openFile v b (k_fs k)) (\<lambda>fs. open_object b (k1\<lparr>k_fs := fs\<rparr>)))
        (\<lambda>(r, k). case r of Ret c \<Rightarrow> Inr (c, k) | _ \<Rightarrow> Inl Diverges)"
    by (rule c_open_block [OF R bs(1), of fp]) (use bs(2) in simp)
  from b(1) obtain cs m where cs: "b \<noteq> 0" "stored v (k_fs k) b cs m" "xs = map (file_byte v (k_fs k) cs) [0 ..< unat (m_length m)]"
    by (auto simp: holds_file_def)
  have v: "volume v" "user_areas ba aa" "kern_live k" "openFilesMutex (k_fs k) \<noteq> 0" using R by (simp_all add: kern_ready_def)
  obtain fs f where fs: "openFile v b (k_fs k) = Inr fs" "wf_file fs b f cs" "of_meta f = m" "fs_keeps v (k_fs k) fs"
    by (rule openFile_keeps [OF v(1) cs(2)])
  define k2 where "k2 = k1\<lparr>k_fs := fs\<rparr>"
  have R2: "kern_ready v junk p na ba aa files k2" "kern_room p k2 = kern_room p k"
    using ready_fs [OF R fs(4)] by (simp_all add: k2_def b(2))
  obtain T where T: "current (k_sched k2) = Some p" "res (k_rs k2) (k_table k2 p) = Some T" "k_table k2 p < nextRid (k_rs k2)" "r_mutex T \<noteq> 0"
    "length (r_ptrs T) < 2 ^ 31" "kern_room p k2 = length (filter (\<lambda>x. x = None) (drop 2 (r_ptrs T)))" by (rule ready_table [OF R2(1)])
  obtain i where i: "i < length (r_ptrs T)" "2 \<le> i" "r_ptrs T ! i = None" "\<forall>j. 2 \<le> j \<and> j < i \<longrightarrow> r_ptrs T ! j \<noteq> None"
    by (rule room_slot [of "r_ptrs T"]) (use room R2(2) T(6) in auto)
  define r where "r = nextRid (k_rs k2)"
  define k3 where "k3 = new_slot 1 b k2"
  define k4 where "k4 = k3\<lparr>k_rs := put_res (k_table k3 p) (T\<lparr>r_ptrs := (r_ptrs T)[i := Some r]\<rparr>) (k_rs k3)\<rparr>"
  have "open_object b k2 = Inr (Ret (int i), k4)"
    using open_object_eq(1) [OF T(1-4) i] by (simp add: k4_def k3_def r_def)
  then have "c_open (kern_calls fp v junk p na ba aa X) (Some bs) k = Inr (int i, k4)"
    using b(3) cs(1) fs(1) by (simp add: k2_def)
  moreover have R3: "kern_ready v junk p na ba aa files k3" "kern_room p k3 = kern_room p k"
    using ready_slot [OF R2(1)] R2(2) by (simp_all add: k3_def)
  have T3: "res (k_rs k3) (k_table k3 p) = Some T" using T(2,3) by (simp add: k3_def)
  have "kern_ready v junk p na ba aa files k4" "kern_room p k4 = kern_room p k - 1"
    using ready_handle [OF R3(1) T3 i(2,1,3) k4_def] R3(2) by (simp_all add: k4_def)
  moreover have "file_slot k4 p (int i) r"
    using T i by (simp add: file_slot_def k4_def k3_def r_def put_res_def)
  moreover have "k_obj k4 r = FileObj (new_File b)" by (simp add: k4_def k3_def r_def)
  moreover have "k_fs k4 = fs" "kern_printed k4 = kern_printed k" "kern_live k4"
    using v(3) by (simp_all add: k4_def k3_def k2_def b(2) kern_printed_def kern_live_def)
  moreover have "xs = file_bytes v fs f cs" "openFilesMutex fs \<noteq> 0"
    using cs(3) fs(3,4) v(4) by (simp_all add: file_bytes_def file_byte_def fs_keeps_def)
  ultimately show ?thesis using v(1,2) fs(2) i(2)
    by (intro exI [of _ "int i"] exI [of _ k4]) (auto simp: kern_opened_def new_File_def intro!: exI [of _ r], blast)
qed

lemma ready_fails:
  assumes R: "kern_ready v junk p na ba aa files k" and bs: "kern_admits na bs" "files bs = None \<or> kern_room p k = 0"
  shows "\<exists>fd k'. c_open (kern_calls fp v junk p na ba aa X) (Some bs) k = Inr (fd, k') \<and> fd \<le> 0 \<and>
    kern_printed k' = kern_printed k \<and> kern_ready v junk p na ba aa files k' \<and> kern_room p k' = kern_room p k"
proof -
  obtain b k1 where b: "holds_file v (k_fs k) b (files bs)" "k1 = k\<lparr>k_mem := (k_mem k)(p := write_bytes na bs (k_mem k p))\<rparr>"
    "c_open (kern_calls fp v junk p na ba aa X) (Some bs) k =
      bindE (if b = 0 then Inr (Ret ERR_NOT_FOUND, k1) else bindE (openFile v b (k_fs k)) (\<lambda>fs. open_object b (k1\<lparr>k_fs := fs\<rparr>)))
        (\<lambda>(r, k). case r of Ret c \<Rightarrow> Inr (c, k) | _ \<Rightarrow> Inl Diverges)"
    by (rule c_open_block [OF R bs(1), of fp])
  have k1: "kern_ready v junk p na ba aa files k1" "kern_room p k1 = kern_room p k" "kern_printed k1 = kern_printed k"
    using ready_fs [OF R fs_keeps_refl] by (simp_all add: b(2) kern_printed_def)
  show ?thesis
  proof (cases "b = 0")
    case True
    then show ?thesis using b(3) k1 by (simp add: err_defs)
  next
    case False
    then obtain xs where xs: "files bs = Some xs" using b(1) by (auto simp: holds_file_def split: option.splits)
    with b(1) obtain cs m where cs: "stored v (k_fs k) b cs m" by (auto simp: holds_file_def)
    have v: "volume v" using R by (simp add: kern_ready_def)
    obtain fs f where fs: "openFile v b (k_fs k) = Inr fs" "fs_keeps v (k_fs k) fs" by (rule openFile_keeps [OF v cs])
    define k2 where "k2 = k1\<lparr>k_fs := fs\<rparr>"
    have R2: "kern_ready v junk p na ba aa files k2" "kern_room p k2 = kern_room p k"
      using ready_fs [OF R fs(2)] by (simp_all add: k2_def b(2))
    obtain T where T: "current (k_sched k2) = Some p" "res (k_rs k2) (k_table k2 p) = Some T" "k_table k2 p < nextRid (k_rs k2)" "r_mutex T \<noteq> 0"
      "kern_room p k2 = length (filter (\<lambda>x. x = None) (drop 2 (r_ptrs T)))" by (rule ready_table [OF R2(1)])
    have full: "length (filter (\<lambda>x. x = None) (drop 2 (r_ptrs T))) = 0" using T(5) R2(2) bs(2) xs by simp
    have "open_object b k2 = Inr (Ret ERR_NO_ID, new_slot 0 b k2)"
      by (rule open_object_eq(2) [OF T(1-4)]) (use no_room [OF full] in blast)
    then have "c_open (kern_calls fp v junk p na ba aa X) (Some bs) k = Inr (ERR_NO_ID, new_slot 0 b k2)"
      using b(3) False fs(1) by (simp add: k2_def)
    then show ?thesis using ready_slot [OF R2(1), of 0 b] R2(2) k1(3)
      by (auto simp: err_defs kern_printed_def k2_def)
  qed
qed

section \<open>The kernel as a terminal with files\<close>

lemma printed_simps [simp]: "kern_printed (k\<lparr>k_mem := m\<rparr>) = kern_printed k" "kern_printed (put_file r F k) = kern_printed k"
  by (simp_all add: kern_printed_def put_file_def)

lemma keeps_opened:
  assumes "kern_opened v p ba aa k fd xs i" "kern_live k'" "kern_keeps k k'"
  shows "kern_opened v p ba aa k' fd xs i"
proof -
  obtain c where k': "k' = k\<lparr>k_con := c\<rparr>" using assms(3) unfolding kern_keeps_def by blast
  show ?thesis using assms(1,2) by (simp add: k' kern_opened_def file_slot_def)
qed

lemma keeps_ready:
  assumes "kern_ready v junk p na ba aa files k" "kern_live k'" "kern_keeps k k'"
  shows "kern_ready v junk p na ba aa files k' \<and> kern_room p k' = kern_room p k"
proof -
  obtain c where k': "k' = k\<lparr>k_con := c\<rparr>" using assms(3) unfolding kern_keeps_def by blast
  show ?thesis using assms(1,2) by (simp add: k' kern_ready_def root_is_def cwd_is_def kern_room_def)
qed

lemma file_ready:
  assumes "kern_ready v junk p na ba aa files k" "k_obj k r = FileObj F" "k' = (put_file r G k)\<lparr>k_mem := m\<rparr>"
  shows "kern_ready v junk p na ba aa files k' \<and> kern_room p k' = kern_room p k"
proof -
  obtain T where T: "res (k_rs k) (k_table k p) = Some T" by (rule ready_table [OF assms(1)])
  have "kern_ready v junk p na ba aa files k'"
    by (rule ready_step [OF assms(1), where T = T and T' = T])
      (use assms T in \<open>auto simp: kern_ready_def kern_live_def put_file_def fs_keeps_refl\<close>)
  then show ?thesis using assms(3) by (simp add: kern_room_def put_file_def)
qed

text \<open>Every record whose calls on files are those of the kernel obeys the laws.\<close>

lemma kernel_is_terminal:
  fixes v :: "'d driver"
  assumes "c_putchar C = c_putchar (kern_calls fp v junk p na ba aa X)"
  shows "terminal C kern_printed kern_live kern_keeps"
proof
  fix s :: "'d kern" and c
  assume "kern_live s"
  from putchar_prints [OF this, of fp v junk c]
  show "\<exists>x s'. c_putchar C c s = Inr (x, s') \<and> kern_live s' \<and> kern_keeps s s' \<and> kern_printed s' = kern_printed s @ [char_of (unat c)]"
    by (auto simp: assms kern_calls_def)
qed (simp add: kern_keeps_def, auto simp: kern_keeps_iff)

lemma kernel_is_file_terminal:
  fixes v :: "'d driver"
  assumes "c_putchar C = c_putchar (kern_calls fp v junk p na ba aa X)" "c_open C = c_open (kern_calls fp v junk p na ba aa X)"
    "c_read C = c_read (kern_calls fp v junk p na ba aa X)" "c_seek C = c_seek (kern_calls fp v junk p na ba aa X)"
    "c_close C = c_close (kern_calls fp v junk p na ba aa X)"
  shows "file_terminal C kern_printed kern_live kern_keeps (kern_opened v p ba aa) (kern_ready v junk p na ba aa files) (kern_room p)
    files (kern_admits na)"
proof (intro file_terminal.intro file_terminal_axioms.intro)
  show "terminal C kern_printed kern_live kern_keeps" by (rule kernel_is_terminal [OF assms(1)])
next
  fix s fd xs i and off n :: nat
  assume "kern_opened v p ba aa s fd xs i" "0 < n" "off + n \<le> 100"
  from opened_reads [OF this, of fp junk na X] obtain c r F k' m G where
    1: "c_read (kern_calls fp v junk p na ba aa X) fd off n s = Inr (int c, take c (drop i xs), k')"
    "c \<le> n" "i + c \<le> length xs" "c = 0 \<longrightarrow> i = length xs" "kern_opened v p ba aa k' fd xs (i + c)"
    "k_obj s r = FileObj F" "k' = (put_file r G s)\<lparr>k_mem := m\<rparr>" by blast
  then show "\<exists>m s'. c_read C fd off n s = Inr (int m, take m (drop i xs), s') \<and> m \<le> n \<and> i + m \<le> length xs \<and>
      (m = 0 \<longrightarrow> i = length xs) \<and> kern_opened v p ba aa s' fd xs (i + m) \<and> kern_printed s' = kern_printed s \<and>
      (kern_ready v junk p na ba aa files s \<longrightarrow> kern_ready v junk p na ba aa files s' \<and> kern_room p s' = kern_room p s)"
    using file_ready [OF _ 1(6,7)] by (intro exI [of _ c] exI [of _ k']) (simp add: assms(3))
next
  fix s fd xs i
  assume o: "kern_opened v p ba aa s fd xs i"
  show "\<exists>x s'. c_seek C fd 0 s = Inr (x, s') \<and> kern_opened v p ba aa s' fd xs 0 \<and> kern_printed s' = kern_printed s"
    using opened_seeks [OF o, of fp junk na X] unfolding assms(4) by blast
  show "\<exists>x s'. c_close C fd s = Inr (x, s') \<and> kern_live s' \<and> kern_printed s' = kern_printed s"
    using opened_closes [OF o, of fp junk na X] unfolding assms(5) by blast
next
  fix s bs xs
  assume "kern_ready v junk p na ba aa files s" "kern_admits na bs" "files bs = Some xs" "0 < kern_room p s"
  from ready_opens [OF this, of fp X]
  show "\<exists>fd s'. c_open C (Some bs) s = Inr (fd, s') \<and> 0 < fd \<and> kern_opened v p ba aa s' fd xs 0 \<and> kern_printed s' = kern_printed s \<and>
      kern_ready v junk p na ba aa files s' \<and> kern_room p s' = kern_room p s - 1" unfolding assms(2) by blast
next
  fix s bs
  assume "kern_ready v junk p na ba aa files s" "kern_admits na bs" "files bs = None \<or> kern_room p s = 0"
  from ready_fails [OF this, of fp X]
  show "\<exists>fd s'. c_open C (Some bs) s = Inr (fd, s') \<and> fd \<le> 0 \<and> kern_printed s' = kern_printed s \<and>
      kern_ready v junk p na ba aa files s' \<and> kern_room p s' = kern_room p s" unfolding assms(2) by blast
next
  show "kern_live s" if "kern_opened v p ba aa s fd xs i" for s fd xs i using that by (simp add: kern_opened_def)
  show "kern_live s" if "kern_ready v junk p na ba aa files s" for s using that by (simp add: kern_ready_def)
qed (use keeps_opened keeps_ready in \<open>blast+\<close>)

interpretation kt: terminal "kern_calls fp v junk p na ba aa X" kern_printed kern_live kern_keeps
  by (rule kernel_is_terminal) (rule refl)

interpretation kf: file_terminal "kern_calls fp v junk p na ba aa X" kern_printed kern_live kern_keeps "kern_opened v p ba aa"
    "kern_ready v junk p na ba aa files" "kern_room p" files "kern_admits na"
  by (rule kernel_is_file_terminal) (rule refl)+

text \<open>The shell on the kernel: \<open>typed\<close> is what the user types before the return key.\<close>

definition typed_line :: "u8 list \<Rightarrow> u8 list" where
  "typed_line typed = takeWhile (\<lambda>c. c \<noteq> 13) typed"

definition kern_shell :: "'f ldouble \<Rightarrow> 'd driver \<Rightarrow> (nat \<Rightarrow> u8 list) \<Rightarrow> pid \<Rightarrow> u32 \<Rightarrow> u32 \<Rightarrow> u32 \<Rightarrow> ('d kern, 'z) all_calls_ext \<Rightarrow> u8 \<Rightarrow> u8 list
    \<Rightarrow> ('d kern, 'z) all_calls_scheme" where
  "kern_shell fp v junk p na ba aa X j typed =
     (kern_calls fp v junk p na ba aa X)\<lparr>c_gets := (\<lambda>k.
        bindE (gets (\<lambda>_. True) j (typed @ [13])) (\<lambda>(buf, out).
        bindE (put_bytes (kern_calls fp v junk p na ba aa X) out k) (\<lambda>k. Inr (buf, k))))\<rparr>"

lemma gets_typed: "\<exists>rest. gets (\<lambda>_. True) j (typed @ [13]) = Inr (Some (typed_line typed @ 0 # rest), typed_line typed @ [13, 10])"
proof -
  have "13 \<notin> set (typed_line typed)" by (auto simp: typed_line_def dest: set_takeWhileD)
  obtain later where "typed @ [13] = typed_line typed @ 13 # later"
  proof (cases "13 \<in> set typed")
    case True
    then obtain ys zs where s: "typed = ys @ 13 # zs" "13 \<notin> set ys" using split_list_first by metis
    then have "typed_line typed = ys" unfolding typed_line_def s(1) by (subst takeWhile_append2) auto
    then show thesis using s(1) by (intro that [of "zs @ [13]"]) simp
  next
    case False
    then have "typed_line typed = typed" by (auto simp: typed_line_def takeWhile_eq_all_conv)
    then show thesis by (intro that [of "[]"]) simp
  qed
  with gets_loop_line [of "\<lambda>_. True" "typed_line typed" "[]" 0 0 j later "[]"] \<open>13 \<notin> set (typed_line typed)\<close>
  obtain q where q: "gets (\<lambda>_. True) j (typed @ [13]) = Inr (Some q, typed_line typed @ [13, 10])"
    "take (length (typed_line typed)) q = typed_line typed" "length (typed_line typed) < length q" "q ! length (typed_line typed) = 0"
    by (auto simp: gets_def)
  have "q = typed_line typed @ 0 # drop (Suc (length (typed_line typed))) q"
    using id_take_nth_drop [OF q(3)] q(2,4) by simp
  then show ?thesis using q(1) by metis
qed

lemma kern_shell_gets:
  assumes "kern_live k"
  shows "\<exists>rest k'. c_gets (kern_shell fp v junk p na ba aa X j typed) k = Inr (Some (typed_line typed @ 0 # rest), k') \<and> kern_live k' \<and>
    kern_keeps k k' \<and> kern_printed k' = kern_printed k @ name_string (typed_line typed @ [13, 10])"
  using kt.put_bytes_prints [OF assms, of fp v junk p na ba aa X "typed_line typed @ [13, 10]"] gets_typed [of j typed]
  by (auto simp: kern_shell_def)

interpretation ks: shell_terminal "kern_shell fp v junk p na ba aa X j typed" kern_printed kern_live kern_keeps "kern_opened v p ba aa"
    "kern_ready v junk p na ba aa files" "kern_room p" files "kern_admits na" "typed_line typed" "name_string (typed_line typed @ [13, 10])"
proof (intro shell_terminal.intro shell_terminal_axioms.intro)
  show "file_terminal (kern_shell fp v junk p na ba aa X j typed) kern_printed kern_live kern_keeps (kern_opened v p ba aa)
      (kern_ready v junk p na ba aa files) (kern_room p) files (kern_admits na)"
    by (rule kernel_is_file_terminal [where X = X]) (simp_all add: kern_shell_def)
qed (rule kern_shell_gets)

section \<open>What the programs print\<close>

text \<open>
  C8. \<^verbatim>\<open>cat\<close> on the kernel: it ends, returns 0, and has printed for each operand in order the contents of the file
  that the name is the name of, in the root directory or else in the working directory, or the message
  that there is none. Since it never closes a file, it also gives this message for every file behind as
  many operands as the process had free handles.
\<close>
theorem cat_prints_files:
  assumes "kern_ready v junk p na ba aa files k" "\<forall>bs \<in> set (tl argv). kern_admits na bs"
  shows "\<exists>k'. cat_main (kern_calls fp v junk p na ba aa X) (length argv) (map Some argv) k = Some (Inr (0, k')) \<and>
    kern_printed k' = kern_printed k @ cat_text files (kern_room p k) (tl argv)"
proof -
  have t: "map (\<lambda>i. argv ! i) [1 ..< length argv] = tl argv"
    by (intro nth_equalityI) (simp_all add: nth_tl)
  have "\<forall>i \<in> set [1 ..< length argv]. i < length argv \<and> kern_admits na (argv ! i) \<and> 0 \<in> set (argv ! i)"
  proof
    fix i assume "i \<in> set [1 ..< length argv]"
    then have i: "1 \<le> i" "i < length argv" by auto
    then have "argv ! i = tl argv ! (i - 1)" "i - 1 < length (tl argv)" by (simp_all add: nth_tl)
    then have "argv ! i \<in> set (tl argv)" by (metis nth_mem)
    then show "i < length argv \<and> kern_admits na (argv ! i) \<and> 0 \<in> set (argv ! i)" using i assms(2) by (auto simp: kern_admits_def)
  qed
  from kf.cat_loop_prints [OF assms(1) this, of fp X] show ?thesis unfolding cat_main_def t by blast
qed


section \<open>A kernel to run them on\<close>

text \<open>The kernel of the system calls, with both files of its directory open somewhere.\<close>

definition note_file :: open_file where
  "note_file = \<lparr>of_start = 7, of_meta = \<lparr>m_type = 1, m_length = 5, m_parentDir = 2, m_currentBlk = 7\<rparr>, of_count = 1\<rparr>"

definition run_fs :: "disk_image fat439" where
  "run_fs = small_fs\<lparr>openFiles := [None, None, Some small_dir, None, None, Some small_file, None, Some note_file]\<rparr>"

definition run_kern :: "disk_image kern" where
  "run_kern = demo_kern\<lparr>k_fs := run_fs\<rparr>"

definition run_files :: "u8 list \<Rightarrow> u8 list option" where
  "run_files bs =
     (if entry_is [0x61, 0x62, 0, 0, 0, 0, 0, 0, 0, 0, 0, 0, 5, 0, 0, 0] (name_of bs)
      then Some (map (file_byte ide_driver small_fs [5, 6]) [0 ..< 600])
      else if entry_is [0x63, 0, 0, 0, 0, 0, 0, 0, 0, 0, 0, 0, 7, 0, 0, 0] (name_of bs)
      then Some (map (file_byte ide_driver small_fs [7]) [0 ..< 5]) else None)"

lemma run_dev: "dev run_fs = dev small_fs" "file_byte v run_fs = file_byte v small_fs"
  by (auto simp: run_fs_def file_byte_def fun_eq_iff)

lemma run_start:
  "start_of ide_driver run_fs small_root [2] name =
     (if entry_is [0x61, 0x62, 0, 0, 0, 0, 0, 0, 0, 0, 0, 0, 5, 0, 0, 0] name then 5
      else if entry_is [0x63, 0, 0, 0, 0, 0, 0, 0, 0, 0, 0, 0, 7, 0, 0, 0] name then 7 else 0)"
proof -
  have e: "dir_entry v run_fs = dir_entry v small_fs" for v by (rule ext)+ (simp add: dir_entry_def run_dev)
  have n: "unat (d_entries small_root) = 2" by (simp add: small_root_def)
  have "entry_start (dir_entry ide_driver small_fs [2] 0) = 5" "entry_start (dir_entry ide_driver small_fs [2] 1) = 7"
    by (simp_all add: small_root_entries entry_start_def le_word_def)
  then show ?thesis unfolding start_of_def find_entry_def e n small_find [unfolded find_entry_def] by simp
qed

lemma run_stored:
  "stored ide_driver run_fs 5 [5, 6] (of_meta small_file)" "stored ide_driver run_fs 7 [7] (of_meta note_file)"
  by (simp_all add: stored_def run_fs_def small_fs_def small_file_def note_file_def)

lemma run_holds:
  "holds_file ide_driver run_fs 5 (Some (map (file_byte ide_driver small_fs [5, 6]) [0 ..< 600]))"
  "holds_file ide_driver run_fs 7 (Some (map (file_byte ide_driver small_fs [7]) [0 ..< 5]))" "holds_file ide_driver run_fs 0 None"
  using run_stored by (simp_all add: holds_file_def run_dev del: upt_rec_numeral)
    (force simp: small_file_def note_file_def simp del: upt_rec_numeral)+

lemma run_ready:
  "kern_ready ide_driver (\<lambda>n. replicate n 0) 0 0x80000000 0x80001000 0x80000100 run_files run_kern" "kern_room 0 run_kern = 2"
proof -
  have T: "k_fs run_kern = run_fs" "k_root run_kern = 1" "k_obj run_kern 1 = DirObj small_root" "current (k_sched run_kern) = Some 0"
    "res (k_rs run_kern) (k_table run_kern 0) = Some \<lparr>r_type = TABLE, r_count = 1, r_ptrs = [None, Some 1, Some 2, None, None], r_mutex = 1\<rparr>"
    "res (k_rs run_kern) 1 = Some \<lparr>r_type = DIRECTORY, r_count = 2, r_ptrs = [], r_mutex = 1\<rparr>"
    "nextRid (k_rs run_kern) = 3" "k_table run_kern 0 = 0"
    by (simp_all add: run_kern_def demo_kern_def booted_def demo_rs_def)
  have d: "dir_ok run_fs small_root small_dir [2]"
    by (simp add: dir_ok_def wf_file_def run_fs_def small_fs_def small_dir_def small_root_def file_at_def slot_at_def)
  have "root_is run_kern (small_root, [2])" "cwd_is run_kern 0 (small_root, [2])" using T d by (auto simp: root_is_def cwd_is_def)
  moreover have "holds_file ide_driver run_fs (block_of ide_driver run_fs (small_root, [2]) (small_root, [2]) (name_of bs)) (run_files bs)" for bs
    using run_holds by (simp add: block_of_def run_start run_files_def Let_def)
  ultimately have "\<exists>D D'. root_is run_kern D \<and> cwd_is run_kern 0 D' \<and> (\<forall>bs. kern_admits 0x80000000 bs \<longrightarrow>
      holds_file ide_driver (k_fs run_kern) (block_of ide_driver (k_fs run_kern) D D' (name_of bs)) (run_files bs))" unfolding T(1) by blast
  moreover have "kern_live run_kern" "user_areas 0x80001000 0x80000100" by (simp_all add: kern_live_def run_kern_def demo_kern_def user_areas_def)
  moreover have "openFilesMutex run_fs \<noteq> 0" by (simp add: run_fs_def small_fs_def)
  ultimately show "kern_ready ide_driver (\<lambda>n. replicate n 0) 0 0x80000000 0x80001000 0x80000100 run_files run_kern"
    using T hdv.volume_axioms by (simp add: kern_ready_def)
  show "kern_room 0 run_kern = 2" using T(5) by (simp add: kern_room_def t_slots_def)
qed

lemma run_printed: "kern_printed run_kern = ''''"
  by (simp add: kern_printed_def run_kern_def demo_kern_def)

theorem cat_prints_files_witness:
  "\<exists>k'. cat_main (kern_calls rat_ldouble ide_driver (\<lambda>n. replicate n 0) 0 0x80000000 0x80001000 0x80000100 ()) 3
      (map Some [[0x63, 0x61, 0x74, 0], [0x63, 0], [0x7a, 0]]) run_kern = Some (Inr (0, k')) \<and>
    kern_printed k' = name_string (map (file_byte ide_driver small_fs [7]) [0 ..< 5]) @ ''cat: z: No such file or directory'' @ nl"
proof -
  have f: "run_files [0x63, 0] = Some (map (file_byte ide_driver small_fs [7]) [0 ..< 5])" "run_files [0x7a, 0] = None"
    by (simp_all add: run_files_def name_of_def entry_is_def)
  have a: "\<forall>bs \<in> set (tl [[0x63, 0x61, 0x74, 0], [0x63, 0], [0x7a, 0]]). kern_admits 0x80000000 bs"
    by (simp add: kern_admits_def name_of_def is_dot_def is_dotdot_def cstr_def)
  have t: "cat_text run_files 2 [[0x63, 0], [0x7a, 0]] =
      name_string (map (file_byte ide_driver small_fs [7]) [0 ..< 5]) @ ''cat: z: No such file or directory'' @ nl"
    using f by (simp add: cat_missing_def name_string_def char_of_def bit_0 del: upt_rec_numeral)
  have n: "length [[0x63, 0x61, 0x74, 0], [0x63, 0], [0x7a, 0 :: u8]] = 3" by simp
  show ?thesis
    by (rule cat_prints_files [OF run_ready(1) a, of rat_ldouble "()", unfolded run_ready(2) run_printed list.sel(3) t n append_Nil])
qed

text \<open>The calls that this line does not make.\<close>

definition no_calls :: "(disk_image kern, unit) all_calls_ext" where
  "no_calls = all_calls.fields (\<lambda>k. Inl Diverges) (\<lambda>k. Inl Diverges) (\<lambda>_ _ k. Inl Diverges) (\<lambda>_ k. Inl Diverges) (\<lambda>k. Inl Diverges)
     (\<lambda>_ _ k. Inl Diverges) (\<lambda>_ k. Inl Diverges) (\<lambda>_ k. Inl Diverges) (\<lambda>k. Inl Diverges)"


end
