(* ===== verification/Spec2Isabelle.thy ===== *)
theory Spec2Isabelle
  imports Simple_Queue Heap_Allocator Fat439_Dirs Vmm_Spaces Snprintf Resource_Table Descriptors User_Heap User_Libc Bounded_Buffer Random_Keyboard Exec_Image Console Syscalls User_Files Sys_Types Fat439_Image Kernel_Calls
begin

text \<open>
  \<^bold>\<open>The program.\<close> A small operating system kernel for one i386 processor (\<^verbatim>\<open>kernel/\<close>, C++), its user library and
  programs (\<^verbatim>\<open>user/\<close>, C) and the tool that makes its disk (\<^verbatim>\<open>fat439/\<close>). \<^verbatim>\<open>kernelMain\<close> sets up the heap,
  the frames of physical memory, the interrupt controllers, the timer, the disk and the file system,
  makes the process \<^verbatim>\<open>Init\<close> and yields to it; \<^verbatim>\<open>Init\<close> replaces its memory by the program \<^verbatim>\<open>shell\<close>.
  From then on the kernel runs on interrupts (the timer preempts), on page faults (a page is mapped
  when it is touched) and on system calls, which work on the table of reference counted resources of
  the running process: files, directories, semaphores and processes.

  \<^bold>\<open>Theories and sources.\<close> A fault is the left side of a sum (\<open>fault + 'a\<close>): a panic, a null pointer,
  an index out of its array, a division by zero, a call that never returns. Machine integers are words.

  \<^item> \<open>Kernel_Prelude\<close>: \<^verbatim>\<open>stdint.h\<close>, \<^verbatim>\<open>err.h\<close>, faults and their sequencing (\<open>bindE\<close>, \<open>loopE\<close>), lemmas on
    lists and words.
  \<^item> \<open>Simple_Queue\<close>: \<^verbatim>\<open>queue.h\<close>, a linked list in a store of nodes. Its locale \<open>fifo_queue\<close> is the contract the
    wait lists rely on; the scheduler has its queues as lists, which the interpretation justifies.
  \<^item> \<open>Heap_Allocator\<close>: \<^verbatim>\<open>heap.cc\<close>, the array of words with boundary tags. The invariant says that the
    array is a sequence of blocks, no two neighbours free, and that the linked list holds the free ones; \<open>malloc\<close>
    and \<open>free\<close> keep it, never panic on pointers in use, and blocks in use never overlap.
  \<^item> \<open>User_Heap\<close>: \<^verbatim>\<open>user/heap.c\<close> and \<^verbatim>\<open>memcpy\<close> of \<^verbatim>\<open>user/machine.S\<close>: the same allocator without panics, and
    \<^verbatim>\<open>realloc\<close>.
  \<^item> \<open>Block_Device\<close>: \<^verbatim>\<open>block.cc\<close> over the locale \<open>block_device\<close> (one block is read and written),
    \<^verbatim>\<open>ide.cc\<close> over the locale \<open>ata_drive\<close> (what the drive answers to port I/O), a sublocale of the first.
  \<^item> \<open>Libk\<close>: \<^verbatim>\<open>libk.cc\<close>. \<open>Snprintf\<close>: \<^verbatim>\<open>snprintf.cc\<close>, with the same formatter by recursive descent.
    \<open>Console\<close>: \<^verbatim>\<open>debug.cc\<close> and the output of \<^verbatim>\<open>u8250.cc\<close>.
  \<^item> \<open>Fat439\<close>, \<open>Fat439_Files\<close>, \<open>Fat439_Dirs\<close>: \<^verbatim>\<open>fs.cc\<close> and \<^verbatim>\<open>fs.h\<close>: blocks, chains of the FAT,
    open files, directories. The locale \<open>volume\<close> is a device under a file system, interpreted on the model of the disk driver.
  \<^item> \<open>Fat439_Image\<close>: \<^verbatim>\<open>fat439/mkfs.c\<close>, the image of a new disk, and that the kernel finds the files in it.
  \<^item> \<open>Scheduler\<close> and its three companions: \<^verbatim>\<open>process.cc\<close>, \<^verbatim>\<open>semaphore.cc\<close>, \<^verbatim>\<open>pit.cc\<close>, \<^verbatim>\<open>idle.cc\<close>, the
    interrupt entry of \<^verbatim>\<open>pic.cc\<close> and the processes of \<^verbatim>\<open>kernelMain\<close>. A suspended process keeps what it still has to do as the
    list \<open>konts\<close>, its kernel stack. \<^verbatim>\<open>exit\<close> releases the resources of the process with code that itself locks mutexes
    and can be interrupted, so it is cut in two: \<open>exit\<close> up to that code, with \<open>KExit\<close> left on the stack, and \<open>exit_rest\<close>
    after it; \<open>proc_exit\<close> of \<open>Syscalls\<close> puts them together with the release. \<open>Scheduler_Invariant\<close> has the invariant (every process is in one place),
    \<open>Scheduler_System\<close> the reachable states, \<open>Scheduler_Properties\<close> what holds of all of them.
  \<^item> \<open>Phys_Vmm\<close>, \<open>Vmm_Spaces\<close>: \<^verbatim>\<open>vmm.cc\<close>: the list of free frames inside the frames, page tables, page
    faults, \<^verbatim>\<open>fork\<close> and \<^verbatim>\<open>exec\<close> of an address space; every frame in use has one user.
  \<^item> \<open>Resource_Table\<close>: \<^verbatim>\<open>atomic.h\<close>, \<^verbatim>\<open>resource.h\<close>, \<^verbatim>\<open>table.cc\<close>: reference counts equal to references.
  \<^item> \<open>Descriptors\<close>: \<^verbatim>\<open>mmu.cc\<close>, \<^verbatim>\<open>idt.cc\<close>, \<^verbatim>\<open>tss.cc\<close>, the set-up in \<^verbatim>\<open>pic.cc\<close>.
  \<^item> \<open>Bounded_Buffer\<close>: \<^verbatim>\<open>bb.h\<close>, as a step relation over interleaved threads. \<open>Random_Keyboard\<close>:
    \<^verbatim>\<open>random.h\<close>, \<^verbatim>\<open>kbd.cc\<close>.
  \<^item> \<open>User_Libc\<close>: \<^verbatim>\<open>user/libc.c\<close>.
  \<^item> \<open>Exec_Image\<close>: the stack and the ELF segments that \<^verbatim>\<open>Process::execv\<close> builds.
  \<^item> \<open>Syscalls\<close>: \<^verbatim>\<open>syscall.cc\<close>, \<^verbatim>\<open>child.cc\<close>, \<^verbatim>\<open>init.cc\<close>, \<^verbatim>\<open>Process::execv\<close>, \<^verbatim>\<open>exit\<close> and \<^verbatim>\<open>vtrace\<close>, the input of
    \<^verbatim>\<open>u8250.cc\<close>: every system call over all the components above (the record \<open>kern\<close>). \<open>User_Files\<close>,
    \<open>Sys_Fork\<close> and \<open>Sys_Types\<close> have what holds across them: reading a file from a program, what a child
    inherits, and that objects keep the type by which handles find them.

  \<^item> \<open>User_Programs\<close>: \<^verbatim>\<open>cat\<close>, \<^verbatim>\<open>echo\<close>, \<^verbatim>\<open>ls\<close>, \<^verbatim>\<open>mkdir\<close>, \<^verbatim>\<open>shutdown\<close> and the shell of \<^verbatim>\<open>user/\<close>, over a record of the
    system calls they make. \<open>Program_Runs\<close> has the contracts they rely on, the locales \<open>terminal\<close>,
    \<open>file_terminal\<close> and \<open>shell_terminal\<close>, and what the programs print under them; \<open>Kernel_Calls\<close> proves the laws for
    the system calls of the kernel and interprets the three locales on them, so \<^verbatim>\<open>cat\<close> and the shell print
    what the blocks of the disk hold.

  \<^bold>\<open>Loops and bounds.\<close> Loops over the heap end because of a measure or a fuel that the invariant makes
  enough (the number of words of the array). Giving up a reference recurses into the table of a
  process; its fuel is the number of objects ever made, enough because objects point to older or
  distinct ones. The reaper runs at most once per process in its queue, a chain of the FAT is followed
  for at most as many steps as the FAT has entries, and the model answers \<open>Diverges\<close> where the code
  would go round for ever (a cyclic chain, a name that is longer than memory: \<open>partial_function\<close>).
  The loop by which \<^verbatim>\<open>cat\<close> copies a file and the main loop of the shell are partial functions too; that the
  first ends is part of what is proved.
  \<^verbatim>\<open>down\<close> on a semaphore without units is a context switch, not a loop.

  \<^bold>\<open>Stacks and counts.\<close> \<^verbatim>\<open>dispatch\<close> panics when the stack of the next process is too big. What the compiled code pushes is
  the operation \<open>Stack\<close>, any number of longs; that they stay below \<^verbatim>\<open>STACK_LONGS\<close> and that calls of \<^verbatim>\<open>exit\<close> do not nest
  without bound is what the environment is assumed to do (\<open>allowed\<close>). The count of a semaphore is a 32-bit \<^verbatim>\<open>int\<close> and wraps.

  \<^bold>\<open>Addresses from the user.\<close> The kernel stores through addresses that a program or a file gives it, without a check.
  The store is that of the code from \<^verbatim>\<open>0x80000000\<close> on (\<open>user_store\<close>); in the first page it is the fault that kills the
  process, and in between it overwrites the kernel or panics, which is a fault of the model after which nothing is said.

  \<^bold>\<open>Parameters.\<close> What the hardware answers (the disk, the status of the serial port, junk on the stack),
  whether the user's \<^verbatim>\<open>realloc\<close> finds memory (\<^verbatim>\<open>malloc\<close> in \<^verbatim>\<open>delimitBy\<close> is taken to), the symbols of the linker and of assembly (addresses of handlers), and the arithmetic of \<^verbatim>\<open>long double\<close>, used by one
  conversion of the formatter, are arguments of the definitions.

  \<^bold>\<open>Interrupts.\<close> The scheduler is modelled with interrupts between any two of its operations; the other
  components run each call from its start to its end, and where two processes could be inside the same
  one the code protects it by a mutex or by disabled interrupts. The bounded buffer is the exception:
  there every interleaving is covered, in steps that are a call of a semaphore or the two statements that use the ring.

  \<^bold>\<open>Not modelled.\<close> The assembly (\<^verbatim>\<open>machine.S\<close>, \<^verbatim>\<open>mbr.S\<close>, \<^verbatim>\<open>start.S\<close>, \<^verbatim>\<open>crt0.S\<close> and the stubs of \<^verbatim>\<open>sys.S\<close>), whose
  effects on the kernel are the context switches, port accesses and stores of the models above; the
  caches of translations of the processor; debugging output, except where it faults; \<^verbatim>\<open>gdt.cc\<close>, which is compiled out; and \<^verbatim>\<open>big.c\<close>, which writes a test file. Of \<^verbatim>\<open>kernelMain\<close> only the creation of
  the first processes is modelled, its other lines call the initialisations of the components in turn; the handler of the
  keyboard, which no interrupt calls, is modelled up to the character that it puts into its buffer.
\<close>

end
